(* ===== verification/Neuron_Prelude.thy ===== *)
theory Neuron_Prelude
  imports Complex_Main "HOL-Library.AList" "HOL-Library.Word" "HOL-Library.Sublist"
    "HOL-Library.List_Lexorder" "HOL-Library.Char_ord" "HOL-Library.Multiset"
begin

text \<open>
  What every component shares: the types that stand for JavaScript values, \<open>Map\<close> and
  \<open>Set\<close> with their insertion order, array reads that may miss, the nullish and truthiness
  tests of the language, and the decimal rendering of integers. The collections
  \<open>js_simps\<close> and \<open>jsmap_simps\<close> are what the component proofs unfold with.
\<close>

named_theorems js_simps "language-level helpers"
named_theorems jsmap_simps "laws of the insertion-ordered maps"

type_synonym hex = string
type_synonym byte = "8 word"
type_synonym bytes = "byte list"

text \<open>The separator of composed keys and signed messages.\<close>

abbreviation NUL :: string where "NUL \<equiv> [CHR 0x00]"

section \<open>Nullish values and array reads\<close>

definition nvl :: "'a option \<Rightarrow> 'a \<Rightarrow> 'a" where
  "nvl v d = (case v of None \<Rightarrow> d | Some x \<Rightarrow> x)"

lemma nvl_simps [simp]: "nvl None d = d" "nvl (Some x) d = x"
  by (simp_all add: nvl_def)

text \<open>\<open>!s\<close> on an optional string: \<open>undefined\<close> and the empty string are both falsy.\<close>

definition truthy :: "string option \<Rightarrow> bool" where
  "truthy s = (case s of None \<Rightarrow> False | Some x \<Rightarrow> x \<noteq> [])"

lemma truthy_simps [simp]: "\<not> truthy None" "truthy (Some x) \<longleftrightarrow> x \<noteq> []"
  by (simp_all add: truthy_def)

lemma truthy_iff: "truthy s \<longleftrightarrow> (\<exists>x. s = Some x \<and> x \<noteq> [])"
  by (cases s) auto

text \<open>\<open>xs[i]\<close> of the language: \<open>undefined\<close> outside the array, negative indices included.\<close>

definition js_at :: "'a list \<Rightarrow> int \<Rightarrow> 'a option" where
  "js_at xs i = (if 0 \<le> i \<and> i < int (length xs) then Some (xs ! nat i) else None)"

lemma js_at_Some: "js_at xs i = Some x \<longleftrightarrow> 0 \<le> i \<and> nat i < length xs \<and> xs ! nat i = x"
  by (auto simp: js_at_def)

lemma js_at_of_nat [simp]: "js_at xs (int n) = (if n < length xs then Some (xs ! n) else None)"
  by (simp add: js_at_def)

definition last_opt :: "'a list \<Rightarrow> 'a option" where
  "last_opt xs = (if xs = [] then None else Some (last xs))"

lemma last_opt_simps [simp]: "last_opt [] = None" "last_opt (xs @ [x]) = Some x"
  by (simp_all add: last_opt_def)

lemma last_opt_Some: "last_opt xs = Some x \<longleftrightarrow> xs \<noteq> [] \<and> last xs = x"
  by (auto simp: last_opt_def)

text \<open>\<open>xs.findIndex(p)\<close>, with -1 when no element qualifies.\<close>

fun findIndex :: "('a \<Rightarrow> bool) \<Rightarrow> 'a list \<Rightarrow> int" where
  "findIndex P [] = -1"
| "findIndex P (x # xs) = (if P x then 0 else let i = findIndex P xs in if i < 0 then -1 else i + 1)"

lemma findIndex_range: "-1 \<le> findIndex P xs \<and> findIndex P xs < int (length xs)"
  by (induction xs) (auto simp: Let_def)

lemma findIndex_neg: "findIndex P xs < 0 \<longleftrightarrow> (\<forall>x \<in> set xs. \<not> P x)"
  by (induction xs) (auto simp: Let_def)

lemma findIndex_found:
  "0 \<le> findIndex P xs \<Longrightarrow> P (xs ! nat (findIndex P xs)) \<and> nat (findIndex P xs) < length xs
     \<and> (\<forall>j < nat (findIndex P xs). \<not> P (xs ! j))"
proof (induction xs)
  case (Cons x xs)
  show ?case
  proof (cases "P x")
    case False
    with Cons.prems have "0 \<le> findIndex P xs" "findIndex P (x # xs) = findIndex P xs + 1"
      by (auto simp: Let_def split: if_splits)
    then have "nat (findIndex P (x # xs)) = Suc (nat (findIndex P xs))"
      by simp
    with Cons.IH False \<open>0 \<le> findIndex P xs\<close> show ?thesis
      by (auto simp: less_Suc_eq_0_disj)
  qed simp
qed simp

text \<open>\<open>xs.slice(0, n)\<close>: a negative end counts from the back.\<close>

definition slice0 :: "int \<Rightarrow> 'a list \<Rightarrow> 'a list" where
  "slice0 n xs = (if 0 \<le> n then take (nat n) xs else take (nat (int (length xs) + n)) xs)"

lemma slice0_prefix: "\<exists>k. slice0 n xs = take k xs"
  by (auto simp: slice0_def)

text \<open>\<open>Math.round\<close>: halves go up.\<close>

definition js_round :: "real \<Rightarrow> int" where
  "js_round x = \<lfloor>x + 1 / 2\<rfloor>"

text \<open>Division of bigints truncates towards zero.\<close>

definition bdiv :: "int \<Rightarrow> int \<Rightarrow> int" where
  "bdiv a b = (if (a < 0) = (b < 0) then \<bar>a\<bar> div \<bar>b\<bar> else - (\<bar>a\<bar> div \<bar>b\<bar>))"

lemma bdiv_nonneg: "0 \<le> a \<Longrightarrow> 0 \<le> b \<Longrightarrow> bdiv a b = a div b"
  by (simp add: bdiv_def)

section \<open>Insertion-ordered maps and sets\<close>

text \<open>
  A \<open>Map\<close> is an association list in insertion order: \<open>set\<close> overwrites in place or appends,
  \<open>delete\<close> removes, iteration is the list order.
\<close>

type_synonym ('k, 'v) jsmap = "('k \<times> 'v) list"

abbreviation mget :: "('k, 'v) jsmap \<Rightarrow> 'k \<Rightarrow> 'v option" where
  "mget \<equiv> map_of"

definition mset_at :: "'k \<Rightarrow> 'v \<Rightarrow> ('k, 'v) jsmap \<Rightarrow> ('k, 'v) jsmap" where
  "mset_at k v m = AList.update k v m"

definition mdel :: "'k \<Rightarrow> ('k, 'v) jsmap \<Rightarrow> ('k, 'v) jsmap" where
  "mdel k m = AList.delete k m"

definition mhas :: "('k, 'v) jsmap \<Rightarrow> 'k \<Rightarrow> bool" where
  "mhas m k = (mget m k \<noteq> None)"

definition mkeys :: "('k, 'v) jsmap \<Rightarrow> 'k list" where
  "mkeys m = map fst m"

definition mvals :: "('k, 'v) jsmap \<Rightarrow> 'v list" where
  "mvals m = map snd m"

text \<open>Every key occurs once: what the operations keep.\<close>

definition wf_map :: "('k, 'v) jsmap \<Rightarrow> bool" where
  "wf_map m = distinct (map fst m)"

lemma mget_mset_at [simp, jsmap_simps]: "mget (mset_at k v m) = (mget m)(k \<mapsto> v)"
  by (simp add: mset_at_def update_conv')

lemma mget_mdel [simp, jsmap_simps]: "mget (mdel k m) = (mget m)(k := None)"
  by (simp add: mdel_def AList.delete_conv')

lemma wf_map_Nil [simp]: "wf_map []"
  by (simp add: wf_map_def)

lemma wf_map_mset_at [simp]: "wf_map m \<Longrightarrow> wf_map (mset_at k v m)"
  by (simp add: wf_map_def mset_at_def AList.distinct_update)

lemma wf_map_mdel [simp]: "wf_map m \<Longrightarrow> wf_map (mdel k m)"
  by (simp add: wf_map_def mdel_def AList.distinct_delete)

lemma wf_map_filter [simp]: "wf_map m \<Longrightarrow> wf_map (filter P m)"
  by (simp add: wf_map_def distinct_map_filter)

lemma mhas_iff [jsmap_simps]: "mhas m k \<longleftrightarrow> k \<in> set (mkeys m)"
  by (auto simp: mhas_def mkeys_def map_of_eq_None_iff)

lemma set_mkeys_mset_at [simp, jsmap_simps]: "set (mkeys (mset_at k v m)) = insert k (set (mkeys m))"
  by (auto simp: mkeys_def mset_at_def dom_map_of_conv_image_fst update_keys)

lemma mget_in: "wf_map m \<Longrightarrow> mget m k = Some v \<longleftrightarrow> (k, v) \<in> set m"
  by (simp add: wf_map_def)

lemma mget_filter: "wf_map m \<Longrightarrow>
    mget (filter P m) k = (case mget m k of None \<Rightarrow> None | Some v \<Rightarrow> if P (k, v) then Some v else None)"
  by (induction m) (auto simp: wf_map_def map_of_eq_None_iff split: option.splits)

lemma mset_at_new: "k \<notin> set (mkeys m) \<Longrightarrow> mset_at k v m = m @ [(k, v)]"
  by (induction m) (auto simp: mset_at_def mkeys_def)

text \<open>A \<open>Set\<close> whose iteration order is observed: insertion order, no duplicates.\<close>

definition sadd :: "'a \<Rightarrow> 'a list \<Rightarrow> 'a list" where
  "sadd x xs = (if x \<in> set xs then xs else xs @ [x])"

definition sdel :: "'a \<Rightarrow> 'a list \<Rightarrow> 'a list" where
  "sdel x xs = removeAll x xs"

lemma sadd_simps [simp]: "set (sadd x xs) = insert x (set xs)" "distinct xs \<Longrightarrow> distinct (sadd x xs)"
  by (auto simp: sadd_def)

lemma sdel_simps [simp]: "set (sdel x xs) = set xs - {x}" "distinct xs \<Longrightarrow> distinct (sdel x xs)"
  by (auto simp: sdel_def distinct_removeAll)

section \<open>Splitting strings\<close>

text \<open>\<open>s.split(c)\<close> for a one-character separator.\<close>

fun split_on :: "char \<Rightarrow> string \<Rightarrow> string list" where
  "split_on c [] = [[]]"
| "split_on c (x # xs) = (if x = c then [] # split_on c xs
     else (case split_on c xs of [] \<Rightarrow> [[x]] | p # ps \<Rightarrow> (x # p) # ps))"

lemma split_on_nonempty [simp]: "split_on c s \<noteq> []"
  by (induction s) (auto split: list.split)

lemma split_on_none: "c \<notin> set s \<Longrightarrow> split_on c s = [s]"
  by (induction s) auto

lemma split_on_append: "c \<notin> set s \<Longrightarrow> split_on c (s @ c # t) = s # split_on c t"
  by (induction s) auto

lemma split_on_single: "split_on c s = [p] \<Longrightarrow> s = p"
proof (induction s arbitrary: p)
  case (Cons x s)
  then show ?case
    by (cases "split_on c s") (auto split: if_splits list.splits)
qed simp

lemma split_on_pair: "split_on c s = [p, q] \<Longrightarrow> s = p @ c # q"
proof (induction s arbitrary: p)
  case (Cons x s)
  then show ?case
    by (cases "split_on c s") (auto split: if_splits list.splits dest: split_on_single)
qed simp

lemma split_on_pieces: "p \<in> set (split_on c s) \<Longrightarrow> c \<notin> set p"
proof (induction s arbitrary: p)
  case (Cons x s)
  then show ?case
    by (cases "split_on c s") (auto split: if_splits list.splits)
qed simp

section \<open>Decimal rendering\<close>

text \<open>\<open>String(n)\<close> for an integer: what template literals and \<open>BigInt.toString\<close> print.\<close>

definition digit_char :: "nat \<Rightarrow> char" where
  "digit_char d = char_of (48 + d)"

fun nat_str :: "nat \<Rightarrow> string" where
  "nat_str n = (if n < 10 then [digit_char n] else nat_str (n div 10) @ [digit_char (n mod 10)])"

declare nat_str.simps [simp del]

definition int_str :: "int \<Rightarrow> string" where
  "int_str i = (if i < 0 then CHR ''-'' # nat_str (nat (- i)) else nat_str (nat i))"

definition is_digit_char :: "char \<Rightarrow> bool" where
  "is_digit_char c = (48 \<le> (of_char c :: nat) \<and> (of_char c :: nat) \<le> 57)"

lemma of_char_digit: "d < 10 \<Longrightarrow> (of_char (digit_char d) :: nat) = 48 + d"
  by (simp add: digit_char_def)

lemma nat_str_nonempty [simp]: "nat_str n \<noteq> []"
  by (subst nat_str.simps) simp

lemma nat_str_digits: "c \<in> set (nat_str n) \<Longrightarrow> is_digit_char c"
proof (induction n rule: nat_str.induct)
  case (1 n)
  then show ?case
    by (cases "n < 10")
      (auto simp: nat_str.simps [of n] is_digit_char_def of_char_digit)
qed

fun str_val :: "string \<Rightarrow> nat" where
  "str_val s = foldl (\<lambda>a c. 10 * a + ((of_char c :: nat) - 48)) 0 s"

lemma str_val_nat_str [simp]: "str_val (nat_str n) = n"
proof (induction n rule: nat_str.induct)
  case (1 n)
  then show ?case
    by (cases "n < 10") (auto simp: nat_str.simps [of n] of_char_digit)
qed

lemma nat_str_inj [simp]: "nat_str m = nat_str n \<longleftrightarrow> m = n"
  by (metis str_val_nat_str)

lemma nat_str_no_minus: "nat_str n \<noteq> CHR ''-'' # s"
proof
  assume "nat_str n = CHR ''-'' # s"
  then have "is_digit_char (CHR ''-'')"
    by (metis list.set_intros(1) nat_str_digits)
  then show False
    by (simp add: is_digit_char_def)
qed

lemma int_str_inj [simp]: "int_str i = int_str j \<longleftrightarrow> i = j"
  by (auto simp: int_str_def nat_str_no_minus nat_str_no_minus [symmetric])

lemma int_str_nonempty [simp]: "int_str i \<noteq> []"
  by (simp add: int_str_def)

end
