(* ===== verification/Json_Codec.thy ===== *)
theory Json_Codec
  imports Neuron_Prelude
begin

text \<open>
  The canonical JSON of \<open>src/engine/core/hash.ts\<close>: \<open>sortValue\<close> sorts the keys of every
  object recursively and \<open>canonicalJson\<close> prints the result with \<open>JSON.stringify\<close>. A value of
  type \<open>json\<close> is a JavaScript value after \<open>undefined\<close> fields are dropped (which
  \<open>JSON.stringify\<close> does) and after bigints are turned into decimal strings; numbers are
  integers. An object is the list of its properties in enumeration order. The lemmas show that
  the rendering does not depend on the order in which an object was built, and that rendering
  is injective, so that a content hash commits to every signed field.
\<close>

datatype json =
    JNull
  | JBool bool
  | JNum int
  | JStr string
  | JArr "json list"
  | JObj "(string \<times> json) list"

section \<open>Key order\<close>

text \<open>
  Property enumeration of the language: keys that are array indices first, in numeric order,
  then the others in insertion order.
\<close>

definition is_index_key :: "string \<Rightarrow> bool" where
  "is_index_key k \<longleftrightarrow> k \<noteq> [] \<and> list_all is_digit_char k \<and> (k = ''0'' \<or> hd k \<noteq> CHR ''0'')
     \<and> str_val k < 4294967295"

definition obj_order :: "(string \<times> 'a) list \<Rightarrow> (string \<times> 'a) list" where
  "obj_order kvs = sort_key (\<lambda>kv. str_val (fst kv)) (filter (\<lambda>kv. is_index_key (fst kv)) kvs)
     @ filter (\<lambda>kv. \<not> is_index_key (fst kv)) kvs"

fun sortValue :: "json \<Rightarrow> json" where
  "sortValue (JArr xs) = JArr (map sortValue xs)"
| "sortValue (JObj kvs) = JObj (obj_order (sort_key fst (map (\<lambda>kv. (fst kv, sortValue (snd kv))) kvs)))"
| "sortValue v = v"

section \<open>Printing\<close>

definition hex_digit :: "nat \<Rightarrow> char" where
  "hex_digit d = (if d < 10 then char_of (48 + d) else char_of (87 + d))"

definition escape_char :: "char \<Rightarrow> string" where
  "escape_char c = (let n = (of_char c :: nat) in
     if n = 34 then [CHR 0x5C, CHR 0x22]
     else if n = 92 then [CHR 0x5C, CHR 0x5C]
     else if n = 8 then [CHR 0x5C, CHR ''b'']
     else if n = 12 then [CHR 0x5C, CHR ''f'']
     else if n = 10 then [CHR 0x5C, CHR ''n'']
     else if n = 13 then [CHR 0x5C, CHR ''r'']
     else if n = 9 then [CHR 0x5C, CHR ''t'']
     else if n < 32 then [CHR 0x5C, CHR ''u'', CHR ''0'', CHR ''0'', hex_digit (n div 16), hex_digit (n mod 16)]
     else [c])"

definition json_quote :: "string \<Rightarrow> string" where
  "json_quote s = CHR 0x22 # concat (map escape_char s) @ [CHR 0x22]"

fun join :: "string \<Rightarrow> string list \<Rightarrow> string" where
  "join d [] = []"
| "join d [x] = x"
| "join d (x # y # ys) = x @ d @ join d (y # ys)"

fun stringify :: "json \<Rightarrow> string" where
  "stringify JNull = ''null''"
| "stringify (JBool b) = (if b then ''true'' else ''false'')"
| "stringify (JNum i) = int_str i"
| "stringify (JStr s) = json_quote s"
| "stringify (JArr xs) = ''['' @ join '','' (map stringify xs) @ '']''"
| "stringify (JObj kvs) =
     ''{'' @ join '','' (map (\<lambda>kv. json_quote (fst kv) @ '':'' @ stringify (snd kv)) kvs) @ ''}''"

definition canonicalJson :: "json \<Rightarrow> string" where
  "canonicalJson v = stringify (sortValue v)"

section \<open>Printing is injective\<close>

text \<open>
  A reader for one escaped character; that it undoes \<open>escape_char\<close> gives the injectivity of
  quoting without a case analysis on pairs of characters.
\<close>

definition hex_val :: "char \<Rightarrow> nat" where
  "hex_val c = (let n = (of_char c :: nat) in if n < 58 then n - 48 else n - 87)"

lemma hex_val_digit: "d < 16 \<Longrightarrow> hex_val (hex_digit d) = d"
  by (auto simp: hex_val_def hex_digit_def Let_def)

definition unescape :: "string \<Rightarrow> char \<times> string" where
  "unescape s = (case s of
     a # b # r \<Rightarrow>
       (if a \<noteq> CHR 0x5C then (a, b # r)
        else if b = CHR ''b'' then (char_of (8 :: nat), r)
        else if b = CHR ''f'' then (char_of (12 :: nat), r)
        else if b = CHR ''n'' then (char_of (10 :: nat), r)
        else if b = CHR ''r'' then (char_of (13 :: nat), r)
        else if b = CHR ''t'' then (char_of (9 :: nat), r)
        else if b = CHR ''u'' then (char_of (16 * hex_val (r ! 2) + hex_val (r ! 3)), drop 4 r)
        else (b, r))
   | [a] \<Rightarrow> (a, [])
   | [] \<Rightarrow> (CHR 0x00, []))"

lemma char_of_of_char_nat: "(of_char c :: nat) = n \<Longrightarrow> char_of n = c"
  by auto

lemma of_char_Char_eq_22: "char_of (34 :: nat) = CHR 0x22"
  by code_simp

lemma of_char_Char_eq_5C: "char_of (92 :: nat) = CHR 0x5C"
  by code_simp

lemma unescape_escape: "unescape (escape_char c @ x) = (c, x)"
proof -
  let ?n = "of_char c :: nat"
  have plain: "escape_char c = [c]" if "?n \<ge> 32" "?n \<noteq> 34" "?n \<noteq> 92"
    using that by (auto simp: escape_char_def Let_def)
  have not_bs: "c \<noteq> CHR 0x5C" if "?n \<noteq> 92"
    using that by auto
  have ctl: "char_of (16 * hex_val (hex_digit (?n div 16)) + hex_val (hex_digit (?n mod 16))) = c"
    if "?n < 32"
  proof -
    have "16 * hex_val (hex_digit (?n div 16)) + hex_val (hex_digit (?n mod 16)) = ?n"
      using that by (simp add: hex_val_digit)
    then show ?thesis by simp
  qed
  show ?thesis
  proof (cases "?n \<ge> 32 \<and> ?n \<noteq> 34 \<and> ?n \<noteq> 92")
    case True
    then show ?thesis
      by (cases x) (auto simp: plain not_bs unescape_def)
  next
    case False
    then consider "?n = 34" | "?n = 92" | "?n = 8" | "?n = 12" | "?n = 10" | "?n = 13" | "?n = 9"
      | "?n < 32 \<and> ?n \<notin> {8, 12, 10, 13, 9}"
      by fastforce
    then show ?thesis
    proof cases
      case 1
      then have "c = CHR 0x22"
        by (metis char_of_of_char_nat of_char_Char_eq_22)
      then show ?thesis
        by (simp add: escape_char_def unescape_def Let_def)
    next
      case 2
      then have "c = CHR 0x5C"
        by (metis char_of_of_char_nat of_char_Char_eq_5C)
      then show ?thesis
        by (simp add: escape_char_def unescape_def Let_def)
    next
      case 8
      then show ?thesis
        using ctl by (auto simp: escape_char_def unescape_def Let_def)
    qed (auto simp: escape_char_def unescape_def Let_def dest: char_of_of_char_nat)
  qed
qed

lemma escape_inj: "escape_char c @ x = escape_char d @ y \<longleftrightarrow> c = d \<and> x = y"
  by (metis prod.inject unescape_escape)

lemma escape_not_quote: "escape_char c @ x \<noteq> CHR 0x22 # y"
  by (auto simp: escape_char_def Let_def)

lemma escape_seq_inj:
  "concat (map escape_char s) @ CHR 0x22 # r = concat (map escape_char t) @ CHR 0x22 # u
   \<Longrightarrow> s = t \<and> r = u"
proof (induction s arbitrary: t)
  case Nil
  show ?case
  proof (cases t)
    case (Cons d t')
    with Nil have "escape_char d @ concat (map escape_char t') @ CHR 0x22 # u = CHR 0x22 # r"
      by simp
    then show ?thesis
      by (simp add: escape_not_quote)
  qed (use Nil in simp)
next
  case (Cons c s)
  then show ?case
    by (cases t) (auto simp: escape_not_quote escape_inj)
qed

lemma quote_inj: "json_quote s @ r = json_quote t @ u \<Longrightarrow> s = t \<and> r = u"
  unfolding json_quote_def using escape_seq_inj [of s r t u] by simp

text \<open>What may follow a value inside an array or an object, or at the end.\<close>

definition delim :: "string \<Rightarrow> bool" where
  "delim r \<longleftrightarrow> r = [] \<or> hd r \<in> {CHR '','', CHR '']'', CHR ''}''}"

lemma delim_simps [simp]:
  "delim []" "delim (CHR '','' # r)" "delim (CHR '']'' # r)" "delim (CHR ''}'' # r)"
  by (simp_all add: delim_def)

definition num_char :: "char \<Rightarrow> bool" where
  "num_char c \<longleftrightarrow> is_digit_char c \<or> c = CHR ''-''"

lemma int_str_num: "c \<in> set (int_str i) \<Longrightarrow> num_char c"
  by (auto simp: int_str_def num_char_def dest: nat_str_digits split: if_splits)

lemma int_str_inj_delim:
  assumes "int_str i @ r = int_str j @ u" "delim r" "delim u"
  shows "i = j \<and> r = u"
proof -
  have tw: "takeWhile num_char (int_str k @ x) = int_str k" if "delim x" for k x
  proof -
    have "takeWhile num_char x = []"
      using that by (cases x) (auto simp: delim_def num_char_def is_digit_char_def)
    then show ?thesis
      by (subst takeWhile_append2) (auto dest: int_str_num)
  qed
  from assms have "int_str i = int_str j"
    by (metis tw)
  with assms(1) show ?thesis by simp
qed

lemma hd_int_str: "num_char (hd (int_str i))"
  using int_str_num [of "hd (int_str i)" i] by (simp add: int_str_nonempty)

lemma stringify_nonempty [simp]: "stringify v \<noteq> []"
  by (cases v) (auto simp: json_quote_def int_str_nonempty)

lemma hd_stringify:
  "hd (stringify v) = (case v of JNull \<Rightarrow> CHR ''n'' | JBool b \<Rightarrow> (if b then CHR ''t'' else CHR ''f'')
     | JNum i \<Rightarrow> hd (int_str i) | JStr s \<Rightarrow> CHR 0x22 | JArr xs \<Rightarrow> CHR ''['' | JObj kvs \<Rightarrow> CHR ''{'')"
  by (cases v) (auto simp: json_quote_def)

lemma hd_stringify_close: "hd (stringify v) \<notin> {CHR '']'', CHR ''}''}"
proof (cases v)
  case (JNum i)
  then show ?thesis
    using hd_int_str [of i] by (auto simp: num_char_def is_digit_char_def)
qed (auto simp: json_quote_def)

lemma join_inj:
  assumes items: "\<And>x y r s. x \<in> set xs \<Longrightarrow> f x @ r = f y @ s \<Longrightarrow> delim r \<Longrightarrow> delim s \<Longrightarrow> x = y \<and> r = s"
    and ne: "\<And>x. f x \<noteq> []" and close: "\<And>x. hd (f x) \<noteq> c" and c: "c = CHR '']'' \<or> c = CHR ''}''"
    and eq: "join '','' (map f xs) @ c # r = join '','' (map f ys) @ c # s"
  shows "xs = ys \<and> r = s"
  using items eq
proof (induction xs arbitrary: ys)
  case Nil
  have "ys = []"
  proof (cases ys)
    case (Cons y ys')
    then have "hd (join '','' (map f ys) @ c # s) = hd (f y)"
      using ne [of y] by (cases ys') auto
    with Nil.prems(2) close [of y] show ?thesis by (metis append_Nil join.simps(1) list.sel(1) list.simps(8))
  qed
  with Nil show ?case by simp
next
  case (Cons x xs)
  define tl' where "tl' zs u = (if zs = [] then c # u else CHR '','' # join '','' (map f zs) @ c # u)" for zs u
  have unf: "join '','' (map f (z # zs)) @ c # u = f z @ tl' zs u" for z zs u
    by (cases zs) (auto simp: tl'_def)
  have del: "delim (tl' zs u)" for zs u
    using c by (auto simp: tl'_def)
  obtain y ys' where ys: "ys = y # ys'"
  proof (cases ys)
    case Nil
    have "hd (f x) = c"
      using Cons.prems(2) ne [of x] unfolding unf Nil
      by (metis append_Nil hd_append2 join.simps(1) list.sel(1) list.simps(8))
    with close show ?thesis by blast
  qed
  have *: "f x @ tl' xs r = f y @ tl' ys' s"
    using Cons.prems(2) unfolding ys unf .
  then have xy: "x = y" and tl: "tl' xs r = tl' ys' s"
    using Cons.prems(1) [of x] del by auto
  have "xs = ys' \<and> r = s"
  proof (cases "xs = [] \<or> ys' = []")
    case True
    with tl c show ?thesis by (auto simp: tl'_def split: if_splits)
  next
    case False
    with tl have "join '','' (map f xs) @ c # r = join '','' (map f ys') @ c # s"
      by (simp add: tl'_def)
    then show ?thesis
      using Cons.IH Cons.prems(1) by (meson list.set_intros(2))
  qed
  with ys xy show ?case by simp
qed

text \<open>The first character of a rendered value tells its constructor.\<close>

definition first_tag :: "char \<Rightarrow> nat" where
  "first_tag c = (if c = CHR ''n'' then 0 else if c = CHR ''t'' \<or> c = CHR ''f'' then 1
     else if c = CHR 0x22 then 3 else if c = CHR ''['' then 4 else if c = CHR ''{'' then 5 else 2)"

fun json_tag :: "json \<Rightarrow> nat" where
  "json_tag JNull = 0" | "json_tag (JBool b) = 1" | "json_tag (JNum i) = 2"
| "json_tag (JStr s) = 3" | "json_tag (JArr xs) = 4" | "json_tag (JObj kvs) = 5"

lemma first_tag_num: "num_char c \<Longrightarrow> first_tag c = 2"
  by (auto simp: first_tag_def num_char_def is_digit_char_def)

lemma first_tag_stringify: "first_tag (hd (stringify v @ r)) = json_tag v"
proof (cases v)
  case (JNum i)
  then show ?thesis
    using first_tag_num [OF hd_int_str [of i]] by simp
qed (auto simp: first_tag_def json_quote_def)

lemma stringify_same_tag: "stringify v @ r = stringify w @ s \<Longrightarrow> json_tag v = json_tag w"
  by (metis first_tag_stringify)

lemma stringify_inj_delim:
  "stringify v @ r = stringify w @ s \<Longrightarrow> delim r \<Longrightarrow> delim s \<Longrightarrow> v = w \<and> r = s"
proof (induction v arbitrary: w r s rule: stringify.induct)
  case 1
  with stringify_same_tag [OF 1(1)] show ?case
    by (cases w) auto
next
  case (2 b)
  with stringify_same_tag [OF 2(1)] show ?case
    by (cases w) (auto split: if_splits)
next
  case (3 i)
  from stringify_same_tag [OF 3(1)] obtain j where "w = JNum j"
    by (cases w) auto
  with 3 show ?case
    using int_str_inj_delim by auto
next
  case (4 t)
  from stringify_same_tag [OF 4(1)] obtain u where "w = JStr u"
    by (cases w) auto
  with 4(1) have "json_quote t @ r = json_quote u @ s"
    by simp
  then show ?case
    using quote_inj [of t r u s] \<open>w = JStr u\<close> by simp
next
  case (5 xs)
  from stringify_same_tag [OF 5(2)] obtain ys where w: "w = JArr ys"
    by (cases w) auto
  have "xs = ys \<and> r = s"
  proof (rule join_inj [where f = stringify and c = "CHR '']''"])
    show "x = y \<and> r = s" if "x \<in> set xs" "stringify x @ r = stringify y @ s" "delim r" "delim s"
      for x y r s
      using 5(1) that by blast
    show "hd (stringify x) \<noteq> CHR '']''" for x
      using hd_stringify_close [of x] by blast
  qed (use 5(2) w in simp_all)
  with w show ?case by simp
next
  case (6 kvs)
  from stringify_same_tag [OF 6(2)] obtain ys where w: "w = JObj ys"
    by (cases w) auto
  let ?f = "\<lambda>kv. json_quote (fst kv) @ '':'' @ stringify (snd kv)"
  have "kvs = ys \<and> r = s"
  proof (rule join_inj [where f = ?f and c = "CHR ''}''"])
    show "x = y \<and> r = s" if x: "x \<in> set kvs" and eq: "?f x @ r = ?f y @ s" and d: "delim r" "delim s"
      for x y :: "string \<times> json" and r s
    proof -
      from eq have "json_quote (fst x) @ ('':'' @ stringify (snd x) @ r) = json_quote (fst y) @ ('':'' @ stringify (snd y) @ s)"
        by simp
      then have k: "fst x = fst y" and e: "'':'' @ stringify (snd x) @ r = '':'' @ stringify (snd y) @ s"
        using quote_inj by blast+
      from e have "snd x = snd y \<and> r = s"
        using 6(1) [OF x] d by simp
      with k show ?thesis
        by (simp add: prod_eq_iff)
    qed
    show "hd (?f x) \<noteq> CHR ''}''" for x :: "string \<times> json"
      by (simp add: json_quote_def)
    show "?f x \<noteq> []" for x :: "string \<times> json"
      by (simp add: json_quote_def)
  qed (use 6(2) w in simp_all)
  with w show ?case by simp
qed

lemma stringify_inj [simp]: "stringify v = stringify w \<longleftrightarrow> v = w"
  using stringify_inj_delim [of v "[]" w "[]"] by auto

section \<open>The order of the keys does not matter\<close>

text \<open>
  Two values that differ only in the order in which the properties of their objects were
  written, at any depth.
\<close>

inductive same_json :: "json \<Rightarrow> json \<Rightarrow> bool" where
  same_refl: "same_json v v"
| same_arr: "list_all2 same_json xs ys \<Longrightarrow> same_json (JArr xs) (JArr ys)"
| same_obj: "distinct (map fst kvs) \<Longrightarrow> mset us = mset vs \<Longrightarrow>
    list_all2 (\<lambda>a b. fst a = fst b \<and> same_json (snd a) (snd b)) kvs us \<Longrightarrow>
    same_json (JObj kvs) (JObj vs)"

lemma sort_key_fst_perm:
  assumes "mset xs = mset ys" "distinct (map fst xs)"
  shows "sort_key fst xs = sort_key fst ys"
proof (rule sort_key_inj_key_eq)
  show "mset xs = mset (sort_key fst ys)"
    using assms(1) by simp
  show "inj_on fst (set xs)"
    using assms(2) by (simp add: distinct_map)
  show "sorted (map fst (sort_key fst ys))"
    by simp
qed

lemma sortValue_obj_perm:
  assumes "mset kvs = mset vs" "distinct (map fst kvs)"
  shows "sortValue (JObj kvs) = sortValue (JObj vs)"
proof -
  let ?g = "\<lambda>kv. (fst kv, sortValue (snd kv))"
  have "sort_key fst (map ?g kvs) = sort_key fst (map ?g vs)"
    by (rule sort_key_fst_perm) (use assms in \<open>simp_all add: comp_def\<close>)
  then show ?thesis by simp
qed

lemma same_json_sortValue: "same_json v w \<Longrightarrow> sortValue v = sortValue w"
proof (induction rule: same_json.induct)
  case (same_arr xs ys)
  then have "map sortValue xs = map sortValue ys"
    by (auto simp: list_all2_conv_all_nth intro: nth_equalityI)
  then show ?case by simp
next
  case (same_obj kvs us vs)
  have m: "map (\<lambda>kv. (fst kv, sortValue (snd kv))) kvs = map (\<lambda>kv. (fst kv, sortValue (snd kv))) us"
    using same_obj(3) by (auto simp: list_all2_conv_all_nth intro!: nth_equalityI)
  have "map fst kvs = map fst us"
    using same_obj(3) by (auto simp: list_all2_conv_all_nth intro!: nth_equalityI)
  with same_obj(1) have "distinct (map fst us)"
    by simp
  with same_obj(2) have "sortValue (JObj us) = sortValue (JObj vs)"
    by (rule sortValue_obj_perm)
  with m show ?case by simp
qed simp

theorem canonicalJson_same: "same_json v w \<Longrightarrow> canonicalJson v = canonicalJson w"
  by (simp add: canonicalJson_def same_json_sortValue)

theorem canonicalJson_inj: "canonicalJson v = canonicalJson w \<longleftrightarrow> sortValue v = sortValue w"
  by (simp add: canonicalJson_def)

text \<open>An object without nested values is determined by its rendering, up to the order of its keys.\<close>

lemma sortValue_flat:
  "(\<And>k v. (k, v) \<in> set kvs \<Longrightarrow> sortValue v = v) \<Longrightarrow>
   sortValue (JObj kvs) = JObj (obj_order (sort_key fst kvs))"
  by (simp, rule arg_cong [where f = "\<lambda>x. obj_order (sort_key fst x)"], rule map_idI) auto

lemma mset_obj_order [simp]: "mset (obj_order kvs) = mset kvs"
  by (simp add: obj_order_def flip: mset_filter) (metis mset_filter multiset_partition)

lemma map_of_perm: "mset kvs = mset vs \<Longrightarrow> distinct (map fst kvs) \<Longrightarrow> map_of kvs = map_of vs"
  by (metis distinct_map map_of_eqI mset_eq_setD mset_map map_of_inject_set mset_eq_imp_distinct_iff)

lemma canonicalJson_flat_inj:
  assumes "canonicalJson (JObj kvs) = canonicalJson (JObj vs)"
    and "\<And>k v. (k, v) \<in> set kvs \<Longrightarrow> sortValue v = v" "\<And>k v. (k, v) \<in> set vs \<Longrightarrow> sortValue v = v"
  shows "mset kvs = mset vs"
proof -
  have "obj_order (sort_key fst kvs) = obj_order (sort_key fst vs)"
    using assms by (simp add: canonicalJson_inj sortValue_flat del: sortValue.simps)
  then show ?thesis
    by (metis mset_obj_order mset_sort)
qed

end
