(* ===== verification/Crypto_Env.thy ===== *)
theory Crypto_Env
  imports Json_Codec
begin

text \<open>
  Hashing, signing and shard placement: \<open>src/engine/core/hash.ts\<close>, \<open>keys.ts\<close> and
  \<open>partition.ts\<close>. The third-party primitives (the @noble packages: SHA-256, P-256, the hex and
  UTF-8 codecs) are the fields of a record that every operation takes as its first argument; a
  field that may throw returns \<open>None\<close>. What the code relies on is stated as predicates on
  the record (\<open>hex_codec\<close>, \<open>hash_length\<close>, \<open>signing\<close>), and
  \<open>demo_crypto\<close> is a concrete instance that satisfies them, for evaluation.
\<close>

record crypto =
  c_sha256 :: "bytes \<Rightarrow> bytes"
  c_utf8 :: "string \<Rightarrow> bytes"
  c_toHex :: "bytes \<Rightarrow> hex"
  c_fromHex :: "hex \<Rightarrow> bytes option"
  c_pubkey :: "bytes \<Rightarrow> bytes option"
  c_p256_sign :: "bytes \<Rightarrow> bytes \<Rightarrow> bytes option"
  c_p256_verify :: "bytes \<Rightarrow> bytes \<Rightarrow> bytes \<Rightarrow> bool option"

section \<open>Documented behaviour of the primitives\<close>

text \<open>\<open>hexToBytes\<close> reads back what \<open>bytesToHex\<close> prints.\<close>

definition hex_codec :: "crypto \<Rightarrow> bool" where
  "hex_codec C \<longleftrightarrow> (\<forall>b. c_fromHex C (c_toHex C b) = Some b)"

text \<open>SHA-256 digests have 32 bytes.\<close>

definition hash_length :: "crypto \<Rightarrow> bool" where
  "hash_length C \<longleftrightarrow> (\<forall>b. length (c_sha256 C b) = 32)"

text \<open>A signature made with a private key verifies under its public key.\<close>

definition signing :: "crypto \<Rightarrow> bool" where
  "signing C \<longleftrightarrow> (\<forall>priv pub d s. c_pubkey C priv = Some pub \<longrightarrow> c_p256_sign C d priv = Some s
     \<longrightarrow> c_p256_verify C s d pub = Some True)"

lemma hex_codecD [simp]: "hex_codec C \<Longrightarrow> c_fromHex C (c_toHex C b) = Some b"
  by (simp add: hex_codec_def)

lemma toHex_inj: "hex_codec C \<Longrightarrow> c_toHex C a = c_toHex C b \<longleftrightarrow> a = b"
  by (metis hex_codecD option.inject)

lemma hash_lengthD [simp]: "hash_length C \<Longrightarrow> length (c_sha256 C b) = 32"
  by (simp add: hash_length_def)

section \<open>Hashing\<close>

definition hash_bytes :: "crypto \<Rightarrow> bytes list \<Rightarrow> bytes" where
  "hash_bytes C parts = c_sha256 C (concat parts)"

definition hashHex :: "crypto \<Rightarrow> bytes list \<Rightarrow> hex" where
  "hashHex C parts = c_toHex C (hash_bytes C parts)"

definition hashJson :: "crypto \<Rightarrow> json \<Rightarrow> hex" where
  "hashJson C v = hashHex C [c_utf8 C (canonicalJson v)]"

lemma hashJson_same: "same_json v w \<Longrightarrow> hashJson C v = hashJson C w"
  by (simp add: hashJson_def canonicalJson_same)

text \<open>The byte string whose digest is the hash of a JSON value.\<close>

definition json_preimage :: "crypto \<Rightarrow> json \<Rightarrow> bytes" where
  "json_preimage C v = c_utf8 C (canonicalJson v)"

lemma hashJson_preimage: "hashJson C v = c_toHex C (c_sha256 C (json_preimage C v))"
  by (simp add: hashJson_def hashHex_def hash_bytes_def json_preimage_def)

lemma hashJson_inj:
  assumes "hex_codec C" "hashJson C v = hashJson C w"
    and "inj_on (c_sha256 C) {json_preimage C v, json_preimage C w}" "inj (c_utf8 C)"
  shows "sortValue v = sortValue w"
proof -
  have "c_sha256 C (json_preimage C v) = c_sha256 C (json_preimage C w)"
    using assms(1,2) by (simp add: hashJson_preimage toHex_inj)
  with assms(3) have "json_preimage C v = json_preimage C w"
    by (meson inj_onD insertCI)
  then have "canonicalJson v = canonicalJson w"
    using assms(4) unfolding json_preimage_def by (meson injD)
  then show ?thesis
    by (simp add: canonicalJson_inj)
qed

section \<open>Keys\<close>

record key_pair =
  kp_pub :: hex
  kp_priv :: hex

text \<open>\<open>generateKeyPair\<close> with the bytes drawn by \<open>randomPrivateKey\<close> as an argument.\<close>

definition generateKeyPair :: "crypto \<Rightarrow> bytes \<Rightarrow> key_pair option" where
  "generateKeyPair C rnd = (case c_pubkey C rnd of
     None \<Rightarrow> None
   | Some pub \<Rightarrow> Some \<lparr>kp_pub = c_toHex C pub, kp_priv = c_toHex C rnd\<rparr>)"

definition publicKeyFromPrivate :: "crypto \<Rightarrow> hex \<Rightarrow> hex option" where
  "publicKeyFromPrivate C priv = (case c_fromHex C priv of
     None \<Rightarrow> None
   | Some b \<Rightarrow> map_option (c_toHex C) (c_pubkey C b))"

text \<open>\<open>sign\<close> throws on a malformed private key.\<close>

definition sign :: "crypto \<Rightarrow> bytes \<Rightarrow> hex \<Rightarrow> hex option" where
  "sign C msg priv = (case c_fromHex C priv of
     None \<Rightarrow> None
   | Some k \<Rightarrow> map_option (c_toHex C) (c_p256_sign C (hash_bytes C [msg]) k))"

text \<open>\<open>verify\<close> catches every exception and answers \<open>false\<close>.\<close>

definition verify :: "crypto \<Rightarrow> hex \<Rightarrow> bytes \<Rightarrow> hex \<Rightarrow> bool" where
  "verify C sig msg pub = (case c_fromHex C sig of
     None \<Rightarrow> False
   | Some s \<Rightarrow> (case c_fromHex C pub of
       None \<Rightarrow> False
     | Some p \<Rightarrow> (case c_p256_verify C s (hash_bytes C [msg]) p of None \<Rightarrow> False | Some b \<Rightarrow> b)))"

definition sign_str :: "crypto \<Rightarrow> string \<Rightarrow> hex \<Rightarrow> hex option" where
  "sign_str C msg priv = sign C (c_utf8 C msg) priv"

definition verify_str :: "crypto \<Rightarrow> hex \<Rightarrow> string \<Rightarrow> hex \<Rightarrow> bool" where
  "verify_str C sig msg pub = verify C sig (c_utf8 C msg) pub"

lemma verify_sign:
  assumes "hex_codec C" "signing C" "publicKeyFromPrivate C priv = Some pub" "sign C msg priv = Some sig"
  shows "verify C sig msg pub"
proof -
  obtain k p where k: "c_fromHex C priv = Some k" "c_pubkey C k = Some p" "pub = c_toHex C p"
    using assms(3) by (auto simp: publicKeyFromPrivate_def split: option.splits)
  obtain s where s: "c_p256_sign C (hash_bytes C [msg]) k = Some s" "sig = c_toHex C s"
    using assms(4) k by (auto simp: sign_def)
  have "c_p256_verify C s (hash_bytes C [msg]) p = Some True"
    using assms(2) k s unfolding signing_def by blast
  with assms(1) k s show ?thesis
    by (simp add: verify_def)
qed

lemma verify_sign_str:
  assumes "hex_codec C" "signing C" "publicKeyFromPrivate C priv = Some pub" "sign_str C msg priv = Some sig"
  shows "verify_str C sig msg pub"
  using assms unfolding sign_str_def verify_str_def by (rule verify_sign)

section \<open>Shards\<close>

definition DEFAULT_NUM_SHARDS :: int where
  "DEFAULT_NUM_SHARDS = 4096"

definition getShard :: "crypto \<Rightarrow> string \<Rightarrow> int \<Rightarrow> int option" where
  "getShard C accountId numShards =
     (if numShards \<le> 0 then None
      else if numShards = 1 then Some 0
      else Some (foldl (\<lambda>rem b. (rem * 256 + uint b) mod numShards) 0
                  (hash_bytes C [c_utf8 C accountId])))"

definition isInSubscribedShards :: "crypto \<Rightarrow> string \<Rightarrow> int set \<Rightarrow> int \<Rightarrow> bool option" where
  "isInSubscribedShards C accountId subscribed numShards =
     map_option (\<lambda>s. s \<in> subscribed) (getShard C accountId numShards)"

text \<open>The number a digest stands for, most significant byte first.\<close>

definition be_value :: "bytes \<Rightarrow> int" where
  "be_value bs = foldl (\<lambda>a b. a * 256 + uint b) 0 bs"

lemma horner_mod:
  "0 < n \<Longrightarrow> foldl (\<lambda>rem b. (rem * 256 + uint (b :: byte)) mod n) (a mod n) bs
     = foldl (\<lambda>a b. a * 256 + uint b) a bs mod n"
proof (induction bs arbitrary: a)
  case (Cons b bs)
  have "(a mod n * 256 + uint b) mod n = (a * 256 + uint b) mod n"
    by (metis mod_add_left_eq mod_mult_left_eq)
  with Cons show ?case by simp
qed simp

text \<open>
  The incremental reduction computes the full 256-bit digest modulo the shard count, and every
  account has a shard exactly when the shard count is positive.
\<close>

lemma getShard_value:
  "getShard C a n = (if n \<le> 0 then None else Some (be_value (hash_bytes C [c_utf8 C a]) mod n))"
  using horner_mod [of n 0 "hash_bytes C [c_utf8 C a]"]
  by (auto simp: getShard_def be_value_def)

lemma getShard_range: "getShard C a n = Some s \<Longrightarrow> 0 \<le> s \<and> s < n"
  by (auto simp: getShard_value split: if_splits)

section \<open>A concrete instance\<close>

text \<open>
  An evaluable instance of the record, used by the witnesses only: a 32-byte toy checksum,
  one-byte characters, an identity-like hex codec and signatures that carry the digest.
\<close>

definition char_byte :: "char \<Rightarrow> byte" where
  "char_byte c = word_of_nat (of_char c)"

definition demo_digest :: "bytes \<Rightarrow> bytes" where
  "demo_digest bs = (case foldl (\<lambda>(a, b) x. (a + uint x + 1, b + a)) (0, 0) bs of
     (a, b) \<Rightarrow> word_of_int a # word_of_int (a div 256) # word_of_int b # word_of_int (b div 256) # replicate 28 0)"

definition demo_crypto :: crypto where
  "demo_crypto = \<lparr>
     c_sha256 = demo_digest,
     c_utf8 = map char_byte,
     c_toHex = map (\<lambda>b. char_of (unat b)),
     c_fromHex = (\<lambda>h. Some (map char_byte h)),
     c_pubkey = (\<lambda>k. Some (0 # k)),
     c_p256_sign = (\<lambda>d k. Some (k @ d)),
     c_p256_verify = (\<lambda>s d p. Some (s = tl p @ d \<and> p \<noteq> [] \<and> hd p = 0))\<rparr>"

lemma unat_byte_less: "unat (b :: byte) < 256"
proof -
  have "unat b < 2 ^ LENGTH(8)"
    by (rule unsigned_less)
  then show ?thesis
    by (simp only: len_num1 len_bit0 len_bit1) simp
qed

lemma char_byte_char_of [simp]: "char_byte (char_of (unat (b :: byte))) = b"
  using unat_byte_less [of b] by (simp add: char_byte_def)

lemma char_of_char_byte [simp]: "char_of (unat (char_byte c)) = c"
proof -
  have "(of_char c :: nat) < 256"
    by simp
  then show ?thesis
    by (simp add: char_byte_def unsigned_of_nat take_bit_eq_mod)
qed

lemma demo_hex_codec: "hex_codec demo_crypto"
  by (simp add: hex_codec_def demo_crypto_def comp_def)

lemma demo_signing: "signing demo_crypto"
  by (simp add: signing_def demo_crypto_def)

lemma demo_hash_length: "hash_length demo_crypto"
  by (simp add: hash_length_def demo_crypto_def demo_digest_def split: prod.split)

lemma demo_utf8_inj: "inj (c_utf8 demo_crypto)"
proof -
  have "inj char_byte"
    by (rule inj_on_inverseI [where g = "\<lambda>b. char_of (unat b)"]) simp
  then show ?thesis
    by (simp add: demo_crypto_def)
qed

end
