(* ===== verification/Accumulator.thy ===== *)
theory Accumulator
  imports Crypto_Env
begin

text \<open>
  The per-account Merkle accumulator, \<open>src/engine/core/accumulator.ts\<close>: the RFC 6962 tree
  hash, audit paths, and the iterative verifier with the 32-bit bitwise arithmetic of the
  language. A recursive reading of an audit path (\<open>path_root\<close>) is the specification: the
  verifier's loop is shown equal to it, and completeness and soundness of inclusion proofs follow
  by structural induction. Tree sizes stay below 2^31, where \<open>k << 1\<close> and \<open>fn >>= 1\<close>
  agree with doubling and halving; indices and sizes outside that range are still read the way
  the code reads them.
\<close>

section \<open>Tree hashing\<close>

definition leafHash :: "crypto \<Rightarrow> bytes \<Rightarrow> bytes" where
  "leafHash C data = hash_bytes C [[0x00], data]"

definition nodeHash :: "crypto \<Rightarrow> bytes \<Rightarrow> bytes \<Rightarrow> bytes" where
  "nodeHash C l r = hash_bytes C [[0x01], l, r]"

text \<open>\<open>while (k << 1 < n) k <<= 1\<close> from \<open>k\<close>.\<close>

function split_from :: "nat \<Rightarrow> nat \<Rightarrow> nat" where
  "split_from n k = (if 0 < k \<and> 2 * k < n then split_from n (2 * k) else k)"
  by auto
termination by (relation "measure (\<lambda>(n, k). n - k)") auto

declare split_from.simps [simp del]

definition splitPoint :: "nat \<Rightarrow> nat" where
  "splitPoint n = split_from n 1"

lemma split_from_pow: "2 ^ a < n \<Longrightarrow> \<exists>b. split_from n (2 ^ a) = 2 ^ b \<and> 2 ^ b < n \<and> n \<le> 2 ^ Suc b"
proof (induction "n - 2 ^ a" arbitrary: a rule: less_induct)
  case less
  show ?case
  proof (cases "2 * 2 ^ a < n")
    case True
    have "n - 2 ^ Suc a < n - 2 ^ a"
      using less.prems by simp (metis diff_less_mono2 less_add_same_cancel1 mult_2 zero_less_numeral zero_less_power)
    with less.hyps [of "Suc a"] True show ?thesis
      by (subst split_from.simps) simp
  next
    case False
    with less.prems show ?thesis
      by (subst split_from.simps) (auto intro!: exI [of _ a])
  qed
qed

lemma splitPoint_pow: "2 \<le> n \<Longrightarrow> \<exists>b. splitPoint n = 2 ^ b \<and> 2 ^ b < n \<and> n \<le> 2 ^ Suc b"
  using split_from_pow [of 0 n] by (simp add: splitPoint_def)

lemma splitPoint_bounds: "2 \<le> n \<Longrightarrow> 0 < splitPoint n \<and> splitPoint n < n"
  using splitPoint_pow [of n] by auto

lemma splitPoint_less [simp]: "Suc 0 < n \<Longrightarrow> splitPoint n < n" "Suc 0 < n \<Longrightarrow> 0 < splitPoint n"
  using splitPoint_bounds [of n] by simp_all

lemma splitPoint_min [simp]:
  "Suc 0 < n \<Longrightarrow> min n (splitPoint n) = splitPoint n" "Suc 0 < n \<Longrightarrow> n - splitPoint n < n"
  using splitPoint_bounds [of n] by simp_all

function (sequential) merkleRoot :: "crypto \<Rightarrow> bytes list \<Rightarrow> bytes" where
  "merkleRoot C [] = hash_bytes C [[]]"
| "merkleRoot C [l] = leafHash C l"
| "merkleRoot C leaves = (let k = splitPoint (length leaves) in
     nodeHash C (merkleRoot C (take k leaves)) (merkleRoot C (drop k leaves)))"
  by pat_completeness auto
termination
  by (relation "measure (\<lambda>(C, ls). length ls)") (auto simp del: take_Suc_Cons)

lemma merkleRoot_split:
  "2 \<le> length ls \<Longrightarrow> merkleRoot C ls = nodeHash C (merkleRoot C (take (splitPoint (length ls)) ls))
     (merkleRoot C (drop (splitPoint (length ls)) ls))"
  by (cases "(C, ls)" rule: merkleRoot.cases) (auto simp: Let_def)

text \<open>\<open>merkleProof\<close> throws outside the range.\<close>

function merkleProof :: "crypto \<Rightarrow> bytes list \<Rightarrow> nat \<Rightarrow> bytes list" where
  "merkleProof C leaves i =
     (let n = length leaves in
      if n \<le> 1 then []
      else let k = splitPoint n in
        if i < k then merkleProof C (take k leaves) i @ [merkleRoot C (drop k leaves)]
        else merkleProof C (drop k leaves) (i - k) @ [merkleRoot C (take k leaves)])"
  by auto
termination
  by (relation "measure (\<lambda>(C, ls, i). length ls)") (auto simp: not_le)

declare merkleProof.simps [simp del]

definition merkleProof_checked :: "crypto \<Rightarrow> bytes list \<Rightarrow> int \<Rightarrow> bytes list option" where
  "merkleProof_checked C leaves i =
     (if i < 0 \<or> int (length leaves) \<le> i then None else Some (merkleProof C leaves (nat i)))"

section \<open>The iterative verifier\<close>

text \<open>\<open>ToInt32\<close>, then the arithmetic shift.\<close>

definition to_int32 :: "int \<Rightarrow> int" where
  "to_int32 i = signed_take_bit 31 i"

definition shr1 :: "int \<Rightarrow> int" where
  "shr1 i = to_int32 i div 2"

lemma to_int32_id [simp]: "0 \<le> i \<Longrightarrow> i < 2147483648 \<Longrightarrow> to_int32 i = i"
  by (simp add: to_int32_def signed_take_bit_int_eq_self)

lemma shr1_nat [simp]: "0 \<le> i \<Longrightarrow> i < 2147483648 \<Longrightarrow> shr1 i = i div 2"
  by (simp add: shr1_def)

lemma to_int32_range: "- 2147483648 \<le> to_int32 i \<and> to_int32 i < 2147483648"
  using signed_take_bit_int_greater_eq_minus_exp [of 31 i] signed_take_bit_int_less_exp [of 31 i]
  by (simp add: to_int32_def)

lemma to_int32_idem: "- 2147483648 \<le> i \<Longrightarrow> i < 2147483648 \<Longrightarrow> to_int32 i = i"
  by (simp add: to_int32_def signed_take_bit_int_eq_self)

text \<open>\<open>do { fn >>= 1; sn >>= 1 } while ((fn & 1) === 0 && fn !== 0)\<close>.\<close>

function strip_even :: "int \<Rightarrow> int \<Rightarrow> int \<times> int" where
  "strip_even fn sn = (let fn' = shr1 fn; sn' = shr1 sn in
     if even fn' \<and> fn' \<noteq> 0 then strip_even fn' sn' else (fn', sn'))"
  by auto
termination
proof (relation "measure (\<lambda>(fn, sn). nat \<bar>to_int32 fn\<bar>)", goal_cases)
  case (2 fn sn fn' sn')
  have r: "- 2147483648 \<le> fn'" "fn' < 2147483648"
    using to_int32_range [of fn] 2 by (auto simp: shr1_def)
  have "\<bar>fn'\<bar> < \<bar>to_int32 fn\<bar>"
    using 2 by (auto simp: shr1_def abs_if)
  then show ?case
    using r by (simp add: to_int32_idem)
qed simp

declare strip_even.simps [simp del]

fun verify_loop :: "crypto \<Rightarrow> int \<Rightarrow> int \<Rightarrow> bytes \<Rightarrow> bytes list \<Rightarrow> (int \<times> bytes) option" where
  "verify_loop C fn sn r [] = Some (sn, r)"
| "verify_loop C fn sn r (p # ps) =
     (if sn = 0 then None
      else if odd fn \<or> fn = sn then
        (let r' = nodeHash C p r;
             (fn', sn') = (if even fn then strip_even fn sn else (fn, sn))
         in verify_loop C (shr1 fn') (shr1 sn') r' ps)
      else verify_loop C (shr1 fn) (shr1 sn) (nodeHash C r p) ps)"

definition verifyMerkleProof :: "crypto \<Rightarrow> bytes \<Rightarrow> bytes \<Rightarrow> int \<Rightarrow> int \<Rightarrow> bytes list \<Rightarrow> bool" where
  "verifyMerkleProof C rt leaf index treeSize pth =
     (if index < 0 \<or> treeSize \<le> index then False
      else if treeSize = 1 then pth = [] \<and> leafHash C leaf = rt
      else (case verify_loop C index (treeSize - 1) (leafHash C leaf) pth of
          None \<Rightarrow> False
        | Some (sn, r) \<Rightarrow> sn = 0 \<and> r = rt))"

section \<open>The accumulator object\<close>

type_synonym accumulator = "bytes list"

definition toBytes :: "crypto \<Rightarrow> hex \<Rightarrow> bytes option" where
  "toBytes C leaf = c_fromHex C leaf"

definition acc_append :: "crypto \<Rightarrow> hex \<Rightarrow> accumulator \<Rightarrow> accumulator option" where
  "acc_append C leaf acc = (case toBytes C leaf of None \<Rightarrow> None | Some b \<Rightarrow> Some (acc @ [b]))"

definition acc_rootHex :: "crypto \<Rightarrow> accumulator \<Rightarrow> hex" where
  "acc_rootHex C acc = c_toHex C (merkleRoot C acc)"

definition rootWithHex :: "crypto \<Rightarrow> hex \<Rightarrow> accumulator \<Rightarrow> hex option" where
  "rootWithHex C leaf acc = (case toBytes C leaf of
     None \<Rightarrow> None
   | Some b \<Rightarrow> Some (c_toHex C (merkleRoot C (acc @ [b]))))"

definition proofHex :: "crypto \<Rightarrow> accumulator \<Rightarrow> int \<Rightarrow> hex list option" where
  "proofHex C acc i = map_option (map (c_toHex C)) (merkleProof_checked C acc i)"

fun all_hex :: "crypto \<Rightarrow> hex list \<Rightarrow> bytes list option" where
  "all_hex C [] = Some []"
| "all_hex C (h # hs) = (case c_fromHex C h of
     None \<Rightarrow> None
   | Some b \<Rightarrow> map_option (Cons b) (all_hex C hs))"

text \<open>\<open>verifyInclusion\<close> decodes every argument first; a malformed one throws.\<close>

definition verifyInclusion :: "crypto \<Rightarrow> hex \<Rightarrow> hex \<Rightarrow> int \<Rightarrow> int \<Rightarrow> hex list \<Rightarrow> bool option" where
  "verifyInclusion C rootHex leaf index treeSize pth =
     (case (c_fromHex C rootHex, toBytes C leaf, all_hex C pth) of
        (Some rt, Some l, Some ps) \<Rightarrow> Some (verifyMerkleProof C rt l index treeSize ps)
      | _ \<Rightarrow> None)"

lemma all_hex_toHex [simp]: "hex_codec C \<Longrightarrow> all_hex C (map (c_toHex C) ps) = Some ps"
  by (induction ps) auto

section \<open>The recursive reading of an audit path\<close>

text \<open>
  The root that an audit path yields, read from the top of the tree: the last element of the
  path is the sibling of the root's child on the way to leaf \<open>i\<close>.
\<close>

function path_root :: "crypto \<Rightarrow> nat \<Rightarrow> nat \<Rightarrow> bytes list \<Rightarrow> bytes \<Rightarrow> bytes option" where
  "path_root C n i pth r =
     (if n \<le> 1 then (if pth = [] then Some r else None)
      else if pth = [] then None
      else let k = splitPoint n in
        if i < k then map_option (\<lambda>x. nodeHash C x (last pth)) (path_root C k i (butlast pth) r)
        else map_option (nodeHash C (last pth)) (path_root C (n - k) (i - k) (butlast pth) r))"
  by auto
termination by (relation "measure (\<lambda>(C, n, i, pth, r). n)") (auto simp: not_le)

function path_len :: "nat \<Rightarrow> nat \<Rightarrow> nat" where
  "path_len n i = (if n \<le> 1 then 0
     else let k = splitPoint n in
       if i < k then Suc (path_len k i) else Suc (path_len (n - k) (i - k)))"
  by auto
termination by (relation "measure (\<lambda>(n, i). n)") (auto simp: not_le)

declare path_root.simps [simp del] path_len.simps [simp del]

lemma path_root_leaf: "n \<le> 1 \<Longrightarrow> path_root C n i pth r = (if pth = [] then Some r else None)"
  by (simp add: path_root.simps [of C n])

lemma path_root_length: "(\<exists>x. path_root C n i pth r = Some x) \<longleftrightarrow> length pth = path_len n i"
proof (induction C n i pth r rule: path_root.induct)
  case (1 C n i pth r)
  consider "n \<le> 1" | "1 < n" "pth = []" | q p where "1 < n" "pth = q @ [p]"
    by (metis not_le rev_exhaust)
  then show ?case
  proof cases
    case 3
    then show ?thesis
      using 1 by (subst path_root.simps, subst path_len.simps)
        (auto simp: Let_def split: if_splits)
  qed (simp_all add: path_root.simps [of C n] path_len.simps [of n] Let_def)
qed

lemma path_root_proof:
  "i < length ls \<Longrightarrow>
   path_root C (length ls) i (merkleProof C ls i) (leafHash C (ls ! i)) = Some (merkleRoot C ls)"
proof (induction C ls i rule: merkleProof.induct)
  case (1 C ls i)
  show ?case
  proof (cases "length ls \<le> 1")
    case True
    with 1(3) obtain l where "ls = [l]"
      by (cases ls) auto
    with 1(3) show ?thesis
      by (simp add: path_root.simps merkleProof.simps)
  next
    case False
    let ?k = "splitPoint (length ls)"
    have k: "0 < ?k" "?k < length ls"
      using False by auto
    show ?thesis
    proof (cases "i < ?k")
      case True
      with 1(1) [OF refl False refl True] False k show ?thesis
        by (simp add: path_root.simps [of C "length ls"] merkleProof.simps [of C ls] merkleRoot_split Let_def)
    next
      case F: False
      with 1(2) [OF refl False refl F] False k 1(3) show ?thesis
        by (simp add: path_root.simps [of C "length ls"] merkleProof.simps [of C ls] merkleRoot_split Let_def)
    qed
  qed
qed

text \<open>The height of a tree: the number of doublings that cover it.\<close>

definition fits :: "nat \<Rightarrow> nat \<Rightarrow> bool" where
  "fits h m \<longleftrightarrow> 1 \<le> m \<and> m \<le> 2 ^ h \<and> (h = 0 \<or> 2 ^ (h - 1) < m)"

lemma fits_split: "2 \<le> m \<Longrightarrow> \<exists>b. splitPoint m = 2 ^ b \<and> fits (Suc b) m \<and> fits b (2 ^ b)"
  using splitPoint_pow [of m] by (auto simp: fits_def)

lemma fits_le: "fits h m \<Longrightarrow> m \<le> 2 ^ b \<Longrightarrow> h \<le> b"
proof (rule ccontr)
  assume a: "fits h m" "m \<le> 2 ^ b" "\<not> h \<le> b"
  then have "(2::nat) ^ b \<le> 2 ^ (h - 1)"
    by (intro power_increasing) auto
  also have "\<dots> < m"
    using a by (auto simp: fits_def)
  finally show False
    using a(2) by simp
qed

lemma fits_unique: "fits h m \<Longrightarrow> fits g m \<Longrightarrow> h = g"
  by (meson fits_def fits_le le_antisym)

lemma fits_ex: "1 \<le> m \<Longrightarrow> \<exists>h. fits h m"
proof (cases "m = 1")
  case True
  then show ?thesis by (auto simp: fits_def intro: exI [of _ 0])
next
  case False
  assume "1 \<le> m"
  with False show ?thesis using fits_split [of m] by auto
qed

lemma path_len_fits: "i < n \<Longrightarrow> fits h n \<Longrightarrow> path_len n i \<le> h"
proof (induction n i arbitrary: h rule: path_len.induct)
  case (1 n i)
  show ?case
  proof (cases "n \<le> 1")
    case False
    then obtain b where b: "splitPoint n = 2 ^ b" "fits (Suc b) n" "fits b (2 ^ b)"
      using fits_split [of n] by auto
    have h: "h = Suc b"
      using b(2) 1(4) fits_unique by blast
    show ?thesis
    proof (cases "i < 2 ^ b")
      case True
      with 1(1) [OF False refl] b h False show ?thesis
        by (subst path_len.simps) (simp add: Let_def)
    next
      case F: False
      have "1 \<le> n - 2 ^ b"
        using F 1(3) by simp
      then obtain g where g: "fits g (n - 2 ^ b)"
        using fits_ex by blast
      have "n - 2 ^ b \<le> 2 ^ b"
        using b(2) by (auto simp: fits_def)
      with g have "g \<le> b"
        by (rule fits_le)
      have "\<not> i < splitPoint n" "i - splitPoint n < n - splitPoint n" "fits g (n - splitPoint n)"
        using F b(1) g 1(3) by auto
      then have "path_len (n - splitPoint n) (i - splitPoint n) \<le> g"
        by (rule 1(2) [OF False refl])
      then have "path_len n i \<le> Suc g"
        using False \<open>\<not> i < splitPoint n\<close> by (simp add: path_len.simps [of n] Let_def)
      then show ?thesis
        using \<open>g \<le> b\<close> h by simp
    qed
  qed (simp add: path_len.simps)
qed

section \<open>The loop computes the recursive reading\<close>

lemma shr1_int [simp]: "a < 2147483648 \<Longrightarrow> shr1 (int a) = int (a div 2)"
  by (simp add: zdiv_int)

lemma step_left:
  "even a \<Longrightarrow> a < b \<Longrightarrow> b < 2147483648 \<Longrightarrow>
   verify_loop C (int a) (int b) r (p # ps) = verify_loop C (int (a div 2)) (int (b div 2)) (nodeHash C r p) ps"
  by (simp add: zdiv_int)

lemma step_right:
  "odd a \<Longrightarrow> a \<le> b \<Longrightarrow> b < 2147483648 \<Longrightarrow>
   verify_loop C (int a) (int b) r (p # ps) = verify_loop C (int (a div 2)) (int (b div 2)) (nodeHash C p r) ps"
  by (cases "b = 0") (auto simp: Let_def zdiv_int)

lemma strip_even_pow:
  "odd c \<Longrightarrow> 2 ^ Suc j * c < 2147483648 \<Longrightarrow>
   strip_even (int (2 ^ Suc j * c)) (int (2 ^ Suc j * c)) = (int c, int c)"
proof (induction j)
  case 0
  then have "shr1 (int (2 * c)) = int c"
    by simp
  with 0 show ?case
    by (subst strip_even.simps) (simp add: Let_def)
next
  case (Suc j)
  let ?a = "2 ^ Suc j * c"
  have s: "shr1 (int (2 ^ Suc (Suc j) * c)) = int ?a"
    using Suc.prems(2) by (subst shr1_int) (auto simp: mult.assoc)
  have "even (int ?a)" "int ?a \<noteq> 0" "?a < 2147483648"
    using Suc.prems by (auto intro: odd_pos)
  with Suc.IH Suc.prems(1) show ?case
    by (subst strip_even.simps) (simp only: s Let_def, simp)
qed

lemma step_edge:
  assumes "odd c" "2 ^ Suc j * c < 2147483648"
  shows "verify_loop C (int (2 ^ Suc j * c)) (int (2 ^ Suc j * c)) r (p # ps)
     = verify_loop C (int (c div 2)) (int (c div 2)) (nodeHash C p r) ps"
proof -
  have "0 < c"
    using assms(1) by (rule odd_pos)
  then have c: "int (2 ^ Suc j * c) \<noteq> 0" "even (int (2 ^ Suc j * c))"
    by auto
  have "c \<le> 2 ^ Suc j * c"
    by simp
  then have "c < 2147483648"
    using assms(2) by linarith
  then show ?thesis
    using c strip_even_pow [OF assms] by (simp only: verify_loop.simps Let_def if_True if_False simp_thms prod.case shr1_int)
qed

lemma loop_longer: "verify_loop C fn sn r ps = Some (0, x) \<Longrightarrow> verify_loop C fn sn r (ps @ q # qs) = None"
proof (induction C fn sn r ps rule: verify_loop.induct)
  case (2 C fn sn r p ps)
  then show ?case
    by (auto simp: Let_def split: if_splits prod.splits)
qed simp

lemma div_pow_split:
  fixes o' k m N :: nat
  assumes "2 ^ h dvd o'" "N - 1 = o' + j" "j < 2 ^ h"
  shows "(N - 1) div 2 ^ h = o' div 2 ^ h"
proof -
  from assms(1) obtain c where "o' = 2 ^ h * c" ..
  with assms show ?thesis
    by (simp add: div_mult_self4)
qed

lemma pred_div_less: "0 < N \<Longrightarrow> N \<le> B \<Longrightarrow> (N - 1) div k < (B :: nat)"
  using div_le_dividend [of "N - 1" k] by linarith

text \<open>
  Running the loop over the path of a subtree of size \<open>m\<close> at offset \<open>s\<close>, which is full
  or touches the right edge, leaves it at the position of the subtree's root.
\<close>

lemma loop_subtree:
  assumes "path_root C m i pth r = Some x" "i < m" "fits h m" "2 ^ h dvd s" "s + m \<le> N"
    "N \<le> 2147483648" "m = 2 ^ h \<or> s + m = N"
  shows "verify_loop C (int (s + i)) (int (N - 1)) r (pth @ rest)
    = verify_loop C (int (s div 2 ^ h)) (int ((N - 1) div 2 ^ h)) x rest"
  using assms
proof (induction C m i pth r arbitrary: h s x rest rule: path_root.induct)
  case (1 C m i pth r)
  show ?case
  proof (cases "m \<le> 1")
    case True
    have "h = 0"
      using fits_le [OF 1(5), of 0] True by simp
    moreover have "i = 0" "pth = []" "x = r"
      using True 1(3,4) by (auto simp: path_root.simps [of C m] split: if_splits)
    ultimately show ?thesis by simp
  next
    case False
    then obtain b where b: "splitPoint m = 2 ^ b" "fits (Suc b) m" "fits b (2 ^ b)"
      using fits_split [of m] by auto
    have h: "h = Suc b"
      using b(2) 1(5) fits_unique by blast
    have mb: "2 ^ b < m" "m \<le> 2 * 2 ^ b"
      using b(2) by (auto simp: fits_def)
    obtain q p where pth: "pth = q @ [p]"
      using 1(3) False by (metis option.distinct(1) path_root.simps rev_exhaust)
    obtain c where c: "s = 2 ^ Suc b * c"
      using 1(6) h by (auto elim: dvdE)
    show ?thesis
    proof (cases "i < 2 ^ b")
      case True
      obtain x' where x': "path_root C (2 ^ b) i q r = Some x'" "x = nodeHash C x' p"
        using 1(3) False True b(1) pth by (auto simp: path_root.simps [of C m] Let_def)
      have sd: "s div 2 ^ b = 2 * c"
        by (simp add: c)
      have "verify_loop C (int (s + i)) (int (N - 1)) r (q @ p # rest)
          = verify_loop C (int (s div 2 ^ b)) (int ((N - 1) div 2 ^ b)) x' (p # rest)"
        by (rule 1(1) [OF False, unfolded pth butlast_snoc, OF _ b(1) [symmetric]])
          (use b x' True 1(7,8) mb c in simp_all)
      also have "\<dots> = verify_loop C (int (s div 2 ^ b div 2)) (int ((N - 1) div 2 ^ b div 2)) x rest"
      proof -
        have "s + 2 ^ b \<le> N - 1"
          using 1(7) mb(1) by simp
        then have "(s + 2 ^ b) div 2 ^ b \<le> (N - 1) div 2 ^ b"
          by (rule div_le_mono)
        then have "s div 2 ^ b < (N - 1) div 2 ^ b"
          by simp
        moreover have "(N - 1) div 2 ^ b < 2147483648"
          using 1(7,8) mb(1) by (intro pred_div_less) auto
        ultimately show ?thesis
          using x'(2) by (subst step_left) (auto simp: sd)
      qed
      also have "s div 2 ^ b div 2 = s div 2 ^ h"
        by (simp add: h mult.commute flip: div_mult2_eq)
      also have "(N - 1) div 2 ^ b div 2 = (N - 1) div 2 ^ h"
        by (simp add: h mult.commute flip: div_mult2_eq)
      finally show ?thesis
        using pth by simp
    next
      case F: False
      have nk: "\<not> i < splitPoint m"
        using F b(1) by simp
      obtain x' where x': "path_root C (m - 2 ^ b) (i - 2 ^ b) q r = Some x'" "x = nodeHash C p x'"
        using 1(3) False F b(1) pth by (auto simp: path_root.simps [of C m] Let_def)
      have "1 \<le> m - 2 ^ b"
        using mb(1) by linarith
      then obtain g where g: "fits g (m - 2 ^ b)"
        using fits_ex by blast
      have gb: "g \<le> b"
        using g by (rule fits_le) (use mb in simp)
      define d where "d = b - g"
      have d: "b = g + d"
        using gb by (simp add: d_def)
      have so: "s + 2 ^ b = 2 ^ g * (2 ^ d * (2 * c + 1))"
        by (simp add: c d power_add algebra_simps)
      have edge: "m - 2 ^ b = 2 ^ g \<or> (s + 2 ^ b) + (m - 2 ^ b) = N"
      proof (cases "m = 2 ^ h")
        case True
        then have "m - 2 ^ b = 2 ^ b"
          using h by simp
        then show ?thesis
          using fits_unique [OF g, of b] b(3) by simp
      next
        case False
        then show ?thesis
          using 1(9) mb by simp
      qed
      have "verify_loop C (int (s + i)) (int (N - 1)) r (q @ p # rest)
          = verify_loop C (int ((s + 2 ^ b) div 2 ^ g)) (int ((N - 1) div 2 ^ g)) x' (p # rest)"
      proof -
        have "verify_loop C (int ((s + 2 ^ b) + (i - 2 ^ b))) (int (N - 1)) r (q @ p # rest)
          = verify_loop C (int ((s + 2 ^ b) div 2 ^ g)) (int ((N - 1) div 2 ^ g)) x' (p # rest)"
          by (rule 1(2) [OF False, unfolded pth butlast_snoc, OF _ b(1) [symmetric]])
            (use x'(1) F g so edge 1(4,7,8) in simp_all)
        then show ?thesis
          using F by simp
      qed
      also have "(s + 2 ^ b) div 2 ^ g = 2 ^ d * (2 * c + 1)"
        by (simp only: so) simp
      also have "verify_loop C (int (2 ^ d * (2 * c + 1))) (int ((N - 1) div 2 ^ g)) x' (p # rest)
          = verify_loop C (int c) (int ((N - 1) div 2 ^ h)) x rest"
      proof (cases d)
        case 0
        have "s + 2 ^ b \<le> N - 1"
          using 1(7) mb(1) by simp
        then have "(s + 2 ^ b) div 2 ^ g \<le> (N - 1) div 2 ^ g"
          by (rule div_le_mono)
        then have "2 * c + 1 \<le> (N - 1) div 2 ^ g"
          using so 0 by simp
        moreover have "(N - 1) div 2 ^ g < 2147483648"
          using 1(7,8) mb(1) by (intro pred_div_less) auto
        moreover have "(N - 1) div 2 ^ g div 2 = (N - 1) div 2 ^ h"
          using 0 d h by (simp add: mult.commute flip: div_mult2_eq)
        ultimately show ?thesis
          using 0 x'(2) step_right [of "2 * c + 1" "(N - 1) div 2 ^ g" C x' p rest] by simp
      next
        case (Suc j)
        have gm: "m - 2 ^ b \<le> 2 ^ g"
          using g by (simp add: fits_def)
        also have "(2::nat) ^ g < 2 ^ b"
          by (rule power_strict_increasing) (use Suc d in simp_all)
        finally have mh: "m < 2 ^ h"
          using h by simp
        then have N: "N = s + m"
          using 1(9) by simp
        have dv: "2 ^ g dvd s + 2 ^ b"
          using so by (metis dvd_triv_left)
        have "(N - 1) div 2 ^ g = (s + 2 ^ b) div 2 ^ g"
          by (rule div_pow_split [where j = "m - 2 ^ b - 1"]) (use dv N gm mb in simp_all)
        then have sn: "(N - 1) div 2 ^ g = 2 ^ Suc j * (2 * c + 1)"
          using so Suc by simp
        have "(N - 1) div 2 ^ g < 2147483648"
          using 1(7,8) mb(1) by (intro pred_div_less) auto
        then have lt: "2 ^ Suc j * (2 * c + 1) < 2147483648"
          using sn by simp
        have "(N - 1) div 2 ^ h = s div 2 ^ h"
          by (rule div_pow_split [where j = "m - 1"]) (use 1(6) N mh False in simp_all)
        also have "\<dots> = c"
          by (simp add: c h)
        finally have top: "(N - 1) div 2 ^ h = c" .
        show ?thesis
          using step_edge [OF _ lt, of C x' p rest] x'(2) by (simp only: sn top Suc) simp
      qed
      also have "c = s div 2 ^ h"
        by (simp add: c h)
      finally show ?thesis
        using pth by simp
    qed
  qed
qed

lemma loop_full:
  assumes "path_root C n i pth r = Some x" "i < n" "n \<le> 2147483648"
  shows "\<exists>fn. verify_loop C (int i) (int n - 1) r (pth @ rest) = verify_loop C fn 0 x rest"
proof -
  have "1 \<le> n"
    using assms(2) by simp
  then obtain h where h: "fits h n"
    using fits_ex by blast
  have "n - 1 < 2 ^ h"
    using h by (auto simp: fits_def)
  then have z: "(n - 1) div 2 ^ h = 0"
    by simp
  have n1: "int (n - 1) = int n - 1"
    using assms(2) by (simp add: of_nat_diff)
  have "verify_loop C (int (0 + i)) (int (n - 1)) r (pth @ rest)
      = verify_loop C (int (0 div 2 ^ h)) (int ((n - 1) div 2 ^ h)) x rest"
    by (rule loop_subtree [OF assms(1,2) h]) (use assms(3) in simp_all)
  then have "verify_loop C (int i) (int n - 1) r (pth @ rest) = verify_loop C 0 0 x rest"
    unfolding z n1 by simp
  then show ?thesis
    by blast
qed

text \<open>
  The iterative verifier accepts exactly when the recursive reading of the path yields the root.
\<close>

lemma verifyMerkleProof_path:
  assumes "i < n" "n \<le> 2147483648"
  shows "verifyMerkleProof C rt leaf (int i) (int n) pth
    \<longleftrightarrow> path_root C n i pth (leafHash C leaf) = Some rt"
proof (cases "n = 1")
  case True
  then show ?thesis
    using assms by (auto simp: verifyMerkleProof_def path_root_leaf)
next
  case False
  let ?r = "leafHash C leaf"
  let ?run = "verify_loop C (int i) (int n - 1) ?r"
  have v: "verifyMerkleProof C rt leaf (int i) (int n) pth \<longleftrightarrow> ?run pth = Some (0, rt)"
    using assms False by (auto simp: verifyMerkleProof_def split: option.splits)
  consider "length pth = path_len n i" | "length pth < path_len n i" | "path_len n i < length pth"
    by linarith
  then show ?thesis
  proof cases
    case 1
    then obtain x where x: "path_root C n i pth ?r = Some x"
      using path_root_length [of C n i pth ?r] by auto
    then obtain fn where "?run (pth @ []) = verify_loop C fn 0 x []"
      using loop_full [OF x assms, of "[]"] by blast
    with x v show ?thesis by simp
  next
    case 2
    define pad where "pad = replicate (path_len n i - length pth) ([] :: bytes)"
    have "length (pth @ pad) = path_len n i"
      using 2 by (simp add: pad_def)
    then obtain x where x: "path_root C n i (pth @ pad) ?r = Some x"
      using path_root_length [of C n i "pth @ pad" ?r] by auto
    obtain fn where "?run ((pth @ pad) @ []) = verify_loop C fn 0 x []"
      using loop_full [OF x assms, of "[]"] by blast
    moreover have "pad = [] # tl pad"
      using 2 by (cases "path_len n i - length pth") (auto simp: pad_def)
    ultimately have "?run pth \<noteq> Some (0, rt)"
      using loop_longer by (metis append_Nil2 option.distinct(1) verify_loop.simps(1))
    moreover have "path_root C n i pth ?r = None"
      using 2 path_root_length [of C n i pth ?r] by (cases "path_root C n i pth ?r") auto
    ultimately show ?thesis
      using v by simp
  next
    case 3
    let ?a = "take (path_len n i) pth" and ?b = "drop (path_len n i) pth"
    have "length ?a = path_len n i"
      using 3 by simp
    then obtain x where x: "path_root C n i ?a ?r = Some x"
      using path_root_length [of C n i ?a ?r] by auto
    obtain fn where "?run (?a @ ?b) = verify_loop C fn 0 x ?b"
      using loop_full [OF x assms, of ?b] by blast
    moreover have "verify_loop C fn 0 x ?b = None"
      using 3 by (cases ?b) auto
    moreover have "path_root C n i pth ?r = None"
      using 3 path_root_length [of C n i pth ?r] by (cases "path_root C n i pth ?r") auto
    ultimately show ?thesis
      using v by simp
  qed
qed

lemma verify_merkleProof:
  "i < length ls \<Longrightarrow> length ls \<le> 2147483648 \<Longrightarrow>
   verifyMerkleProof C (merkleRoot C ls) (ls ! i) (int i) (int (length ls)) (merkleProof C ls i)"
  by (simp add: verifyMerkleProof_path path_root_proof)

text \<open>An audit path is as long as the tree is high: logarithmic in the number of leaves.\<close>

lemma merkleProof_length: "i < length ls \<Longrightarrow> length (merkleProof C ls i) = path_len (length ls) i"
  using path_root_length [of C "length ls" i "merkleProof C ls i" "leafHash C (ls ! i)"]
    path_root_proof [of i ls C] by simp

lemma merkleProof_log:
  assumes "i < length ls"
  shows "2 ^ length (merkleProof C ls i) < 2 * length ls"
proof -
  have "1 \<le> length ls"
    using assms by simp
  then obtain h where h: "fits h (length ls)"
    using fits_ex by blast
  have "length (merkleProof C ls i) \<le> h"
    using assms path_len_fits [OF assms h] by (simp add: merkleProof_length)
  then have "(2::nat) ^ length (merkleProof C ls i) \<le> 2 ^ h"
    by (intro power_increasing) auto
  also have "\<dots> < 2 * length ls"
    using h by (cases h) (auto simp: fits_def)
  finally show ?thesis .
qed

section \<open>Soundness\<close>

text \<open>
  The byte strings hashed while a tree is built, and while a path is checked. Soundness holds
  as soon as the digest does not collide on these finitely many strings.
\<close>

function (sequential) tree_inputs :: "crypto \<Rightarrow> bytes list \<Rightarrow> bytes list" where
  "tree_inputs C [] = []"
| "tree_inputs C [l] = [0x00 # l]"
| "tree_inputs C ls = (let k = splitPoint (length ls) in
     (0x01 # merkleRoot C (take k ls) @ merkleRoot C (drop k ls))
       # tree_inputs C (take k ls) @ tree_inputs C (drop k ls))"
  by pat_completeness auto
termination by (relation "measure (\<lambda>(C, ls). length ls)") (auto simp del: take_Suc_Cons)

function path_inputs :: "crypto \<Rightarrow> nat \<Rightarrow> nat \<Rightarrow> bytes list \<Rightarrow> bytes \<Rightarrow> bytes list" where
  "path_inputs C n i pth leaf =
     (if n \<le> 1 \<or> pth = [] then [0x00 # leaf]
      else let k = splitPoint n; m = (if i < k then k else n - k); j = (if i < k then i else i - k) in
        (case path_root C m j (butlast pth) (leafHash C leaf) of
           None \<Rightarrow> []
         | Some x \<Rightarrow> (if i < k then 0x01 # x @ last pth else 0x01 # last pth @ x)
             # path_inputs C m j (butlast pth) leaf))"
  by auto
termination by (relation "measure (\<lambda>(C, n, i, pth, leaf). n)") (auto simp: not_le)

declare path_inputs.simps [simp del]

lemma tree_inputs_split:
  "2 \<le> length ls \<Longrightarrow> tree_inputs C ls = (let k = splitPoint (length ls) in
     (0x01 # merkleRoot C (take k ls) @ merkleRoot C (drop k ls))
       # tree_inputs C (take k ls) @ tree_inputs C (drop k ls))"
  by (cases "(C, ls)" rule: tree_inputs.cases) auto

lemma merkleRoot_length [simp]: "hash_length C \<Longrightarrow> length (merkleRoot C ls) = 32"
  by (cases "(C, ls)" rule: merkleRoot.cases) (auto simp: Let_def leafHash_def nodeHash_def hash_bytes_def)

lemma path_root_len:
  "hash_length C \<Longrightarrow> path_root C n i pth (leafHash C leaf) = Some x \<Longrightarrow> length x = 32"
  by (auto simp: path_root.simps [of C n] leafHash_def nodeHash_def hash_bytes_def Let_def split: if_splits)

lemma path_root_sound:
  "path_root C n i pth (leafHash C leaf) = Some (merkleRoot C ls) \<Longrightarrow> n = length ls \<Longrightarrow> i < n \<Longrightarrow>
   hash_length C \<Longrightarrow> inj_on (c_sha256 C) (set (tree_inputs C ls) \<union> set (path_inputs C n i pth leaf)) \<Longrightarrow>
   leaf = ls ! i \<and> pth = merkleProof C ls i"
proof (induction n arbitrary: i pth ls rule: less_induct)
  case (less n)
  show ?case
  proof (cases "n \<le> 1")
    case True
    with less.prems obtain l where l: "ls = [l]"
      by (cases ls) auto
    from less.prems(1) have pth: "pth = []" and eq: "c_sha256 C (0 # leaf) = c_sha256 C (0 # l)"
      using True l by (auto simp: path_root_leaf leafHash_def hash_bytes_def split: if_splits)
    have "0 # leaf = (0 # l :: bytes)"
      by (rule inj_onD [OF less.prems(5) eq]) (use True l in \<open>simp_all add: path_inputs.simps [of C n]\<close>)
    with pth l less.prems(2,3) show ?thesis
      by (simp add: merkleProof.simps)
  next
    case False
    let ?k = "splitPoint n"
    have k: "0 < ?k" "?k < n"
      using False by auto
    obtain q p where pth: "pth = q @ [p]"
      using less.prems(1) False by (metis option.distinct(1) path_root.simps rev_exhaust)
    define m j where "m = (if i < ?k then ?k else n - ?k)" and "j = (if i < ?k then i else i - ?k)"
    define sub sib where "sub = (if i < ?k then take ?k ls else drop ?k ls)"
      and "sib = (if i < ?k then drop ?k ls else take ?k ls)"
    obtain x where x: "path_root C m j q (leafHash C leaf) = Some x"
      "merkleRoot C ls = (if i < ?k then nodeHash C x p else nodeHash C p x)"
      using less.prems(1) False pth
      by (auto simp: path_root.simps [of C n] Let_def m_def j_def split: if_splits)
    have rt: "merkleRoot C ls = nodeHash C (merkleRoot C (take ?k ls)) (merkleRoot C (drop ?k ls))"
      using False less.prems(2) by (simp add: merkleRoot_split)
    have pin: "path_inputs C n i pth leaf
        = (if i < ?k then 0x01 # x @ p else 0x01 # p @ x) # path_inputs C m j q leaf"
      using False pth x(1) by (simp add: path_inputs.simps [of C n] Let_def flip: m_def j_def)
    have tin: "set (tree_inputs C ls) = insert (0x01 # merkleRoot C (take ?k ls) @ merkleRoot C (drop ?k ls))
        (set (tree_inputs C sub) \<union> set (tree_inputs C sib))"
      using False less.prems(2) by (auto simp: tree_inputs_split Let_def sub_def sib_def)
    have inj: "inj_on (c_sha256 C) (set (tree_inputs C sub) \<union> set (path_inputs C m j q leaf))"
      by (rule inj_on_subset [OF less.prems(5)]) (auto simp: tin pin)
    have "(if i < ?k then 0x01 # x @ p else 0x01 # p @ x)
        = (0x01 :: byte) # merkleRoot C (take ?k ls) @ merkleRoot C (drop ?k ls)"
      by (rule inj_onD [OF less.prems(5)])
        (use x(2) rt in \<open>auto simp: nodeHash_def hash_bytes_def tin pin split: if_splits\<close>)
    moreover have "length x = 32"
      using path_root_len less.prems(4) x(1) by blast
    ultimately have xs: "x = merkleRoot C sub" "p = merkleRoot C sib"
      using less.prems(4) by (auto simp: sub_def sib_def split: if_splits dest: append_eq_append_conv [THEN iffD1, rotated])
    have sz: "m < n" "m = length sub" "j < m"
      using k less.prems(2,3) by (auto simp: m_def j_def sub_def)
    have "leaf = sub ! j \<and> q = merkleProof C sub j"
      by (rule less.IH [OF sz(1) _ sz(2,3) less.prems(4) inj]) (use x(1) xs(1) in simp)
    then show ?thesis
      using False pth xs(2) less.prems(2,3) k
      by (auto simp: sub_def sib_def j_def merkleProof.simps [of C ls] Let_def split: if_splits)
  qed
qed

lemma verifyMerkleProof_sound:
  assumes "verifyMerkleProof C (merkleRoot C ls) leaf (int i) (int (length ls)) pth"
    and "i < length ls" "length ls \<le> 2147483648" "hash_length C"
    and "inj_on (c_sha256 C) (set (tree_inputs C ls) \<union> set (path_inputs C (length ls) i pth leaf))"
  shows "leaf = ls ! i \<and> pth = merkleProof C ls i"
  using path_root_sound [OF _ refl assms(2,4,5)] assms(1-3) by (simp add: verifyMerkleProof_path)

end
