(* ===== verification/Attestation.thy ===== *)
theory Attestation
  imports Crypto_Env
begin

text \<open>
  Typed attestations and quorums, \<open>src/engine/core/attestation.ts\<close>. The counting loop is
  characterised without its accumulators: the count is the number of distinct trusted attesters
  that signed the claim, and the types it credits are those of the first valid attestation of
  each attester.
\<close>

record typed_attestation =
  attesterPub :: hex
  att_type :: string
  claimHash :: hex
  att_sig :: hex

definition attestationMessage :: "hex \<Rightarrow> string \<Rightarrow> hex \<Rightarrow> string" where
  "attestationMessage pub ty claim = ''attest'' @ NUL @ ty @ NUL @ claim @ NUL @ pub"

definition createAttestation :: "crypto \<Rightarrow> string \<Rightarrow> hex \<Rightarrow> key_pair \<Rightarrow> typed_attestation option" where
  "createAttestation C ty claim attester =
     (case sign_str C (attestationMessage (kp_pub attester) ty claim) (kp_priv attester) of
        None \<Rightarrow> None
      | Some s \<Rightarrow> Some \<lparr>attesterPub = kp_pub attester, att_type = ty, claimHash = claim, att_sig = s\<rparr>)"

definition verifyAttestation :: "crypto \<Rightarrow> typed_attestation \<Rightarrow> hex \<Rightarrow> bool" where
  "verifyAttestation C att claim =
     (if claimHash att \<noteq> claim then False
      else verify_str C (att_sig att) (attestationMessage (attesterPub att) (att_type att) (claimHash att))
             (attesterPub att))"

record quorum_policy =
  qp_min :: int
  trustedAttesters :: "hex set option"
  requiredTypes :: "string list option"

record quorum_result =
  qr_ok :: bool
  validCount :: int
  qr_reason :: "string option"

fun quorum_loop :: "crypto \<Rightarrow> hex \<Rightarrow> quorum_policy \<Rightarrow> typed_attestation list
    \<Rightarrow> hex set \<times> string set \<times> int \<Rightarrow> hex set \<times> string set \<times> int" where
  "quorum_loop C claim policy [] st = st"
| "quorum_loop C claim policy (att # atts) (seen, types, n) =
     (if (case trustedAttesters policy of None \<Rightarrow> False | Some T \<Rightarrow> attesterPub att \<notin> T)
      then quorum_loop C claim policy atts (seen, types, n)
      else if attesterPub att \<in> seen then quorum_loop C claim policy atts (seen, types, n)
      else if \<not> verifyAttestation C att claim then quorum_loop C claim policy atts (seen, types, n)
      else quorum_loop C claim policy atts
             (insert (attesterPub att) seen, insert (att_type att) types, n + 1))"

definition checkQuorum :: "crypto \<Rightarrow> typed_attestation list \<Rightarrow> hex \<Rightarrow> quorum_policy \<Rightarrow> quorum_result" where
  "checkQuorum C atts claim policy =
     (let (seen, types, n) = quorum_loop C claim policy atts ({}, {}, 0) in
      if n < qp_min policy
      then \<lparr>qr_ok = False, validCount = n, qr_reason =
              Some (''quorum not met: '' @ int_str n @ ''/'' @ int_str (qp_min policy) @ '' valid attestations'')\<rparr>
      else (case requiredTypes policy of
          None \<Rightarrow> \<lparr>qr_ok = True, validCount = n, qr_reason = None\<rparr>
        | Some req \<Rightarrow>
            (let missing = filter (\<lambda>t. t \<notin> types) req in
             if missing \<noteq> []
             then \<lparr>qr_ok = False, validCount = n, qr_reason =
                     Some (''missing required attestation type(s): '' @ join '', '' missing)\<rparr>
             else \<lparr>qr_ok = True, validCount = n, qr_reason = None\<rparr>)))"

section \<open>What the quorum counts\<close>

definition counts :: "crypto \<Rightarrow> hex \<Rightarrow> quorum_policy \<Rightarrow> typed_attestation \<Rightarrow> bool" where
  "counts C claim policy att \<longleftrightarrow> verifyAttestation C att claim
     \<and> (case trustedAttesters policy of None \<Rightarrow> True | Some T \<Rightarrow> attesterPub att \<in> T)"

definition valid_attesters :: "crypto \<Rightarrow> hex \<Rightarrow> quorum_policy \<Rightarrow> typed_attestation list \<Rightarrow> hex set" where
  "valid_attesters C claim policy atts = attesterPub ` {a \<in> set atts. counts C claim policy a}"

text \<open>The types credited: each attester's first valid attestation.\<close>

definition credited_types :: "crypto \<Rightarrow> hex \<Rightarrow> quorum_policy \<Rightarrow> typed_attestation list \<Rightarrow> string set" where
  "credited_types C claim policy atts =
     {att_type a | a. \<exists>i < length atts. a = atts ! i \<and> counts C claim policy a
        \<and> (\<forall>j < i. counts C claim policy (atts ! j) \<longrightarrow> attesterPub (atts ! j) \<noteq> attesterPub a)}"

lemma quorum_loop_snoc:
  "quorum_loop C claim policy (atts @ [a]) st =
     quorum_loop C claim policy [a] (quorum_loop C claim policy atts st)"
  by (induction C claim policy atts st rule: quorum_loop.induct) auto

lemma valid_attesters_snoc:
  "valid_attesters C claim policy (atts @ [a]) =
     (if counts C claim policy a then insert (attesterPub a) else id) (valid_attesters C claim policy atts)"
  by (auto simp: valid_attesters_def)

lemma valid_attesters_nth:
  "p \<in> valid_attesters C claim policy atts \<longleftrightarrow>
     (\<exists>j < length atts. counts C claim policy (atts ! j) \<and> attesterPub (atts ! j) = p)"
  by (auto simp: valid_attesters_def in_set_conv_nth)

lemma credited_types_snoc:
  "credited_types C claim policy (atts @ [a]) = credited_types C claim policy atts \<union>
     (if counts C claim policy a \<and> attesterPub a \<notin> valid_attesters C claim policy atts then {att_type a} else {})"
  (is "?l = ?r")
proof (rule set_eqI)
  fix t
  have "t \<in> ?l \<longleftrightarrow> (\<exists>i < Suc (length atts). t = att_type ((atts @ [a]) ! i) \<and> counts C claim policy ((atts @ [a]) ! i)
      \<and> (\<forall>j < i. counts C claim policy ((atts @ [a]) ! j) \<longrightarrow> attesterPub ((atts @ [a]) ! j) \<noteq> attesterPub ((atts @ [a]) ! i)))"
    by (auto simp: credited_types_def)
  also have "\<dots> \<longleftrightarrow> t \<in> credited_types C claim policy atts \<or>
      (t = att_type a \<and> counts C claim policy a
        \<and> (\<forall>j < length atts. counts C claim policy (atts ! j) \<longrightarrow> attesterPub (atts ! j) \<noteq> attesterPub a))"
    by (auto simp: nth_append less_Suc_eq credited_types_def)
  also have "\<dots> \<longleftrightarrow> t \<in> ?r"
    by (auto simp: valid_attesters_nth)
  finally show "t \<in> ?l \<longleftrightarrow> t \<in> ?r" .
qed

lemma quorum_loop_spec:
  "quorum_loop C claim policy atts ({}, {}, 0) =
     (valid_attesters C claim policy atts, credited_types C claim policy atts,
      int (card (valid_attesters C claim policy atts)))"
proof (induction atts rule: rev_induct)
  case Nil
  show ?case
    by (simp add: valid_attesters_def credited_types_def)
next
  case (snoc a atts)
  have "finite (valid_attesters C claim policy atts)"
    by (simp add: valid_attesters_def)
  then show ?case
    by (auto simp: quorum_loop_snoc snoc.IH valid_attesters_snoc credited_types_snoc counts_def insert_absorb
        split: option.splits)
qed

lemma checkQuorum_count:
  "validCount (checkQuorum C atts claim policy) = int (card (valid_attesters C claim policy atts))"
  by (simp add: checkQuorum_def quorum_loop_spec Let_def split: option.split)

lemma checkQuorum_ok:
  "qr_ok (checkQuorum C atts claim policy) \<longleftrightarrow>
     qp_min policy \<le> int (card (valid_attesters C claim policy atts)) \<and>
     (\<forall>req. requiredTypes policy = Some req \<longrightarrow> set req \<subseteq> credited_types C claim policy atts)"
  by (auto simp: checkQuorum_def quorum_loop_spec Let_def filter_empty_conv split: option.split)

text \<open>A quorum never grows by repeating attestations or by adding ones that do not count.\<close>

lemma checkQuorum_ignores:
  assumes "\<And>a. a \<in> set extra \<Longrightarrow> counts C claim policy a \<Longrightarrow> attesterPub a \<in> valid_attesters C claim policy atts"
  shows "validCount (checkQuorum C (atts @ extra) claim policy) = validCount (checkQuorum C atts claim policy)"
proof -
  have "valid_attesters C claim policy (atts @ extra) = valid_attesters C claim policy atts"
    using assms by (auto simp: valid_attesters_def)
  then show ?thesis
    by (simp add: checkQuorum_count)
qed

lemma createAttestation_verifies:
  assumes "hex_codec C" "signing C" "publicKeyFromPrivate C (kp_priv k) = Some (kp_pub k)"
    "createAttestation C ty claim k = Some att"
  shows "verifyAttestation C att claim" "attesterPub att = kp_pub k" "att_type att = ty"
  using assms by (auto simp: createAttestation_def verifyAttestation_def split: option.splits intro: verify_sign_str)

end
