(* ===== verification/Identity.thy ===== *)
theory Identity
  imports Crypto_Env
begin

text \<open>
  Global identity dedup, \<open>src/engine/core/identity.ts\<close>: the interface
  \<open>IdentityRegistry\<close> is a locale with the contract its documentation states, the
  consequences are proved once in it, and the in-memory registry interprets it.
\<close>

definition deriveCommitment :: "crypto \<Rightarrow> hex \<Rightarrow> hex \<Rightarrow> hex" where
  "deriveCommitment C nullifier accountPub =
     hashHex C [c_utf8 C (''identity '' @ nullifier @ '' '' @ accountPub)]"

record register_result =
  rr_ok :: bool
  rr_reason :: "string option"

section \<open>The in-memory registry\<close>

type_synonym id_registry = "hex \<Rightarrow> hex option"

definition registry_empty :: id_registry where
  "registry_empty = (\<lambda>_. None)"

definition registry_has :: "id_registry \<Rightarrow> hex \<Rightarrow> bool" where
  "registry_has used n = (used n \<noteq> None)"

definition commitmentOf :: "id_registry \<Rightarrow> hex \<Rightarrow> hex option" where
  "commitmentOf used n = used n"

definition register_identity :: "crypto \<Rightarrow> id_registry \<Rightarrow> hex \<Rightarrow> hex \<Rightarrow> hex \<Rightarrow> register_result \<times> id_registry" where
  "register_identity C used nullifier commitment accountPub =
     (if registry_has used nullifier
      then (\<lparr>rr_ok = False, rr_reason = Some ''nullifier already used (one human, one account)''\<rparr>, used)
      else if deriveCommitment C nullifier accountPub \<noteq> commitment
      then (\<lparr>rr_ok = False, rr_reason = Some ''commitment does not bind nullifier to account key''\<rparr>, used)
      else (\<lparr>rr_ok = True, rr_reason = None\<rparr>, used(nullifier \<mapsto> commitment)))"

section \<open>The contract\<close>

locale identity_registry =
  fixes has :: "'s \<Rightarrow> hex \<Rightarrow> bool"
    and look :: "'s \<Rightarrow> hex \<Rightarrow> hex option"
    and reg :: "'s \<Rightarrow> hex \<Rightarrow> hex \<Rightarrow> hex \<Rightarrow> register_result \<times> 's"
    and commit :: "hex \<Rightarrow> hex \<Rightarrow> hex"
  assumes has_look: "has s n \<longleftrightarrow> look s n \<noteq> None"
    and reg_ok: "rr_ok (fst (reg s n c p)) \<longleftrightarrow> \<not> has s n \<and> commit n p = c"
    and reg_look: "look (snd (reg s n c p)) =
      (if rr_ok (fst (reg s n c p)) then (look s)(n \<mapsto> c) else look s)"
begin

text \<open>A registration request: nullifier, commitment, account key.\<close>

fun run :: "'s \<Rightarrow> (hex \<times> hex \<times> hex) list \<Rightarrow> bool list \<times> 's" where
  "run s [] = ([], s)"
| "run s ((n, c, p) # rs) =
     (let rs' = run (snd (reg s n c p)) rs in (rr_ok (fst (reg s n c p)) # fst rs', snd rs'))"

definition accepted :: "'s \<Rightarrow> (hex \<times> hex \<times> hex) list \<Rightarrow> (hex \<times> hex \<times> hex) list" where
  "accepted s rs = map fst (filter snd (zip rs (fst (run s rs))))"

lemma run_length: "length (fst (run s rs)) = length rs"
  by (induction rs arbitrary: s) (auto simp: Let_def)

lemma accepted_Cons:
  "accepted s ((n, c, p) # rs) =
     (if rr_ok (fst (reg s n c p)) then [(n, c, p)] else []) @ accepted (snd (reg s n c p)) rs"
  by (simp add: accepted_def Let_def)

lemma look_persists: "look s n = Some c \<Longrightarrow> look (snd (run s rs)) n = Some c"
proof (induction rs arbitrary: s)
  case (Cons r rs)
  obtain m d p where r: "r = (m, d, p)"
    by (cases r)
  have "look (snd (reg s m d p)) n = Some c"
    using Cons.prems by (auto simp: reg_look reg_ok has_look)
  with Cons.IH r show ?case
    by (simp add: Let_def)
qed simp

lemma accepted_fresh: "(n, c, p) \<in> set (accepted s rs) \<Longrightarrow> look s n = None \<and> commit n p = c"
proof (induction rs arbitrary: s)
  case (Cons r rs)
  obtain m d q where r: "r = (m, d, q)"
    by (cases r)
  with Cons show ?case
    by (fastforce simp: accepted_Cons reg_look reg_ok has_look split: if_splits)
qed (simp add: accepted_def)

text \<open>One human, one account: no nullifier is accepted twice, in any sequence of requests.\<close>

lemma accepted_distinct: "distinct (map fst (accepted s rs))"
proof (induction rs arbitrary: s)
  case (Cons r rs)
  obtain m d q where r: "r = (m, d, q)"
    by (cases r)
  show ?case
  proof (cases "rr_ok (fst (reg s m d q))")
    case True
    then have "look (snd (reg s m d q)) m = Some d"
      by (simp add: reg_look)
    then have "m \<notin> fst ` set (accepted (snd (reg s m d q)) rs)"
      using accepted_fresh by fastforce
    with Cons.IH True r show ?thesis
      by (simp add: accepted_Cons)
  next
    case False
    with Cons.IH r show ?thesis
      by (simp add: accepted_Cons)
  qed
qed (simp add: accepted_def)

lemma accepted_registered: "(n, c, p) \<in> set (accepted s rs) \<Longrightarrow> look (snd (run s rs)) n = Some c"
proof (induction rs arbitrary: s)
  case (Cons r rs)
  obtain m d q where r: "r = (m, d, q)"
    by (cases r)
  have run: "snd (run s (r # rs)) = snd (run (snd (reg s m d q)) rs)"
    by (simp add: r Let_def)
  show ?case
  proof (cases "(n, c, p) \<in> set (accepted (snd (reg s m d q)) rs)")
    case True
    with Cons.IH run show ?thesis by simp
  next
    case False
    with Cons.prems r have "rr_ok (fst (reg s m d q))" "(n, c, p) = (m, d, q)"
      by (auto simp: accepted_Cons split: if_splits)
    then show ?thesis
      using run by (auto simp: reg_look intro!: look_persists)
  qed
qed (simp add: accepted_def)

end

interpretation memory: identity_registry registry_has commitmentOf "register_identity C" "deriveCommitment C"
  for C
  by unfold_locales (auto simp: registry_has_def commitmentOf_def register_identity_def)

end
