(* ===== verification/Block_Model.thy ===== *)
theory Block_Model
  imports Accumulator Attestation Identity
begin

text \<open>
  The account-chain block, \<open>src/engine/core/block.ts\<close>: the signed content with its
  optional fields, the canonical object that is hashed (only the fields of the block's type are
  in it), block creation, and the isolated block check. The binding lemma says which fields a
  content hash commits to; \<open>valid_chain\<close> is the account history that the rest of the
  engine relies on.
\<close>

definition GENESIS_PREV :: hex where
  "GENESIS_PREV = replicate 64 (CHR ''0'')"

definition MINT_AMOUNT :: int where
  "MINT_AMOUNT = 1000000"

datatype block_type =
    Open | Send | Receive | Update
  | NftMint | NftSend | NftReceive | NftBurn
  | StorageRegister | StorageDeregister | StorageSettle

fun type_str :: "block_type \<Rightarrow> string" where
  "type_str Open = ''open''" | "type_str Send = ''send''" | "type_str Receive = ''receive''"
| "type_str Update = ''update''" | "type_str NftMint = ''nft-mint''" | "type_str NftSend = ''nft-send''"
| "type_str NftReceive = ''nft-receive''" | "type_str NftBurn = ''nft-burn''"
| "type_str StorageRegister = ''storage-register''" | "type_str StorageDeregister = ''storage-deregister''"
| "type_str StorageSettle = ''storage-settle''"

lemma type_str_inj [simp]: "type_str a = type_str b \<longleftrightarrow> a = b"
  by (cases a; cases b) simp_all

record read_receipt =
  rc_reader :: string
  rc_provider :: string
  rc_counter :: int
  rc_bytesTotal :: int
  rc_readsTotal :: int
  rc_lastLatencyMs :: int
  rc_ts :: int

record signed_receipt =
  sr_receipt :: read_receipt
  sr_signature :: string

record storage_payload =
  sp_capacityGB :: "int option"
  sp_deviceId :: "string option"
  sp_deviceClass :: "string option"
  sp_declaredConcurrency :: "int option"
  sp_receipts :: "signed_receipt list option"
  sp_periodIndex :: "int option"
  sp_publishRoot :: "string option"
  sp_serviceRoot :: "string option"

record content =
  b_accountId :: hex
  b_index :: int
  b_type :: block_type
  b_previousHash :: hex
  b_shard :: int
  b_timestamp :: int
  b_balance :: int
  b_identityCommitment :: "hex option"
  b_attestations :: "typed_attestation list option"
  b_recipient :: "hex option"
  b_sourceHash :: "hex option"
  b_amount :: "int option"
  b_updates :: "(string \<times> string) list option"
  b_tokenId :: "hex option"
  b_contentRef :: "string option"
  b_nftMeta :: "(string \<times> string) list option"
  b_recipientName :: "string option"
  b_senderPub :: "hex option"
  b_senderName :: "string option"
  b_storage :: "storage_payload option"

record block = content +
  b_accumulatorRoot :: hex
  b_hash :: hex
  b_signature :: hex

section \<open>The canonical content\<close>

text \<open>An object literal whose \<open>undefined\<close> properties are not printed.\<close>

definition obj_fields :: "(string \<times> json option) list \<Rightarrow> (string \<times> json) list" where
  "obj_fields kvs = map (\<lambda>kv. (fst kv, the (snd kv))) (filter (\<lambda>kv. snd kv \<noteq> None) kvs)"

definition jint :: "int \<Rightarrow> json option" where "jint i = Some (JNum i)"
definition jstr :: "string \<Rightarrow> json option" where "jstr s = Some (JStr s)"
definition jbig :: "int \<Rightarrow> json option" where "jbig i = Some (JStr (int_str i))"

definition attestation_json :: "typed_attestation \<Rightarrow> json" where
  "attestation_json a = JObj (obj_fields [
     (''attesterPub'', jstr (attesterPub a)), (''type'', jstr (att_type a)),
     (''claimHash'', jstr (claimHash a)), (''sig'', jstr (att_sig a))])"

definition receipt_json :: "read_receipt \<Rightarrow> json" where
  "receipt_json r = JObj (obj_fields [
     (''reader'', jstr (rc_reader r)), (''provider'', jstr (rc_provider r)),
     (''counter'', jint (rc_counter r)), (''bytesTotal'', jint (rc_bytesTotal r)),
     (''readsTotal'', jint (rc_readsTotal r)), (''lastLatencyMs'', jint (rc_lastLatencyMs r)),
     (''ts'', jint (rc_ts r))])"

definition signed_receipt_json :: "signed_receipt \<Rightarrow> json" where
  "signed_receipt_json s = JObj (obj_fields [
     (''receipt'', Some (receipt_json (sr_receipt s))), (''signature'', jstr (sr_signature s))])"

definition storage_json :: "storage_payload \<Rightarrow> json" where
  "storage_json s = JObj (obj_fields [
     (''capacityGB'', Option.bind (sp_capacityGB s) jint),
     (''deviceId'', Option.bind (sp_deviceId s) jstr),
     (''deviceClass'', Option.bind (sp_deviceClass s) jstr),
     (''declaredConcurrency'', Option.bind (sp_declaredConcurrency s) jint),
     (''receipts'', map_option (\<lambda>rs. JArr (map signed_receipt_json rs)) (sp_receipts s)),
     (''periodIndex'', Option.bind (sp_periodIndex s) jint),
     (''publishRoot'', Option.bind (sp_publishRoot s) jstr),
     (''serviceRoot'', Option.bind (sp_serviceRoot s) jstr)])"

definition strings_json :: "(string \<times> string) list \<Rightarrow> json" where
  "strings_json kvs = JObj (map (\<lambda>(k, v). (k, JStr v)) kvs)"

fun type_fields :: "block_type \<Rightarrow> 'a content_scheme \<Rightarrow> (string \<times> json option) list" where
  "type_fields Open c = [
     (''identityCommitment'', Option.bind (b_identityCommitment c) jstr),
     (''attestations'', map_option (\<lambda>as. JArr (map attestation_json as)) (b_attestations c))]"
| "type_fields Send c = [
     (''recipient'', Option.bind (b_recipient c) jstr), (''amount'', Option.bind (b_amount c) jbig),
     (''recipientName'', Option.bind (b_recipientName c) jstr)]"
| "type_fields Receive c = [
     (''sourceHash'', Option.bind (b_sourceHash c) jstr), (''amount'', Option.bind (b_amount c) jbig),
     (''senderPub'', Option.bind (b_senderPub c) jstr), (''senderName'', Option.bind (b_senderName c) jstr)]"
| "type_fields Update c = [(''updates'', map_option strings_json (b_updates c))]"
| "type_fields NftMint c = [
     (''tokenId'', Option.bind (b_tokenId c) jstr), (''contentRef'', Option.bind (b_contentRef c) jstr),
     (''nftMeta'', map_option strings_json (b_nftMeta c))]"
| "type_fields NftSend c = [
     (''tokenId'', Option.bind (b_tokenId c) jstr), (''recipient'', Option.bind (b_recipient c) jstr),
     (''recipientName'', Option.bind (b_recipientName c) jstr)]"
| "type_fields NftReceive c = [
     (''tokenId'', Option.bind (b_tokenId c) jstr), (''sourceHash'', Option.bind (b_sourceHash c) jstr),
     (''senderPub'', Option.bind (b_senderPub c) jstr), (''senderName'', Option.bind (b_senderName c) jstr)]"
| "type_fields NftBurn c = [(''tokenId'', Option.bind (b_tokenId c) jstr)]"
| "type_fields StorageRegister c = [(''storage'', map_option storage_json (b_storage c))]"
| "type_fields StorageDeregister c = [(''storage'', map_option storage_json (b_storage c))]"
| "type_fields StorageSettle c = [
     (''storage'', map_option storage_json (b_storage c)), (''amount'', Option.bind (b_amount c) jbig)]"

definition content_fields :: "'a content_scheme \<Rightarrow> (string \<times> json option) list" where
  "content_fields c = [
     (''accountId'', jstr (b_accountId c)), (''index'', jint (b_index c)),
     (''type'', jstr (type_str (b_type c))), (''previousHash'', jstr (b_previousHash c)),
     (''shard'', jint (b_shard c)), (''timestamp'', jint (b_timestamp c)),
     (''balance'', jbig (b_balance c))] @ type_fields (b_type c) c"

definition canonicalContent :: "'a content_scheme \<Rightarrow> json" where
  "canonicalContent c = JObj (obj_fields (content_fields c))"

definition computeContentHash :: "crypto \<Rightarrow> 'a content_scheme \<Rightarrow> hex" where
  "computeContentHash C c = hashJson C (canonicalContent c)"

section \<open>Creation and checking\<close>

definition blockSigningMessage :: "hex \<Rightarrow> hex \<Rightarrow> string" where
  "blockSigningMessage h accRoot = ''block '' @ h @ '' '' @ accRoot"

text \<open>
  The leaf is appended before the block is signed: when signing throws, no block is returned
  and the accumulator keeps the leaf.
\<close>

definition createBlock :: "crypto \<Rightarrow> content \<Rightarrow> hex \<Rightarrow> accumulator \<Rightarrow> block option \<times> accumulator" where
  "createBlock C c signerPriv acc =
     (let h = computeContentHash C c in
      case acc_append C h acc of
        None \<Rightarrow> (None, acc)
      | Some acc' \<Rightarrow>
          (let accRoot = acc_rootHex C acc' in
           case sign_str C (blockSigningMessage h accRoot) signerPriv of
             None \<Rightarrow> (None, acc')
           | Some s \<Rightarrow> (Some (content.extend c (block.fields accRoot h s)), acc')))"

definition verifyBlockSignature :: "crypto \<Rightarrow> block \<Rightarrow> bool" where
  "verifyBlockSignature C b =
     verify_str C (b_signature b) (blockSigningMessage (b_hash b) (b_accumulatorRoot b)) (b_accountId b)"

definition verifyBlock :: "crypto \<Rightarrow> block \<Rightarrow> bool" where
  "verifyBlock C b = (if computeContentHash C b \<noteq> b_hash b then False else verifyBlockSignature C b)"

record open_params =
  op_accountId :: hex
  op_identityCommitment :: hex
  op_attestations :: "typed_attestation list"
  op_timestamp :: int
  op_balance :: "int option"
  op_numShards :: "int option"

text \<open>A content with every optional field absent.\<close>

definition blank_content :: "hex \<Rightarrow> int \<Rightarrow> block_type \<Rightarrow> hex \<Rightarrow> int \<Rightarrow> int \<Rightarrow> int \<Rightarrow> content" where
  "blank_content acct i ty prev shd ts bal = \<lparr>
     b_accountId = acct, b_index = i, b_type = ty, b_previousHash = prev, b_shard = shd,
     b_timestamp = ts, b_balance = bal, b_identityCommitment = None, b_attestations = None,
     b_recipient = None, b_sourceHash = None, b_amount = None, b_updates = None, b_tokenId = None,
     b_contentRef = None, b_nftMeta = None, b_recipientName = None, b_senderPub = None,
     b_senderName = None, b_storage = None\<rparr>"

definition createOpenBlock :: "crypto \<Rightarrow> open_params \<Rightarrow> hex \<Rightarrow> accumulator \<Rightarrow> block option \<times> accumulator" where
  "createOpenBlock C params signerPriv acc =
     (case getShard C (op_accountId params) (nvl (op_numShards params) DEFAULT_NUM_SHARDS) of
        None \<Rightarrow> (None, acc)
      | Some shd \<Rightarrow> createBlock C
          ((blank_content (op_accountId params) 0 Open GENESIS_PREV shd (op_timestamp params)
             (nvl (op_balance params) MINT_AMOUNT))
           \<lparr>b_identityCommitment := Some (op_identityCommitment params),
            b_attestations := Some (op_attestations params)\<rparr>) signerPriv acc)"

section \<open>Created blocks verify\<close>

lemma content_fields_extend [simp]: "content_fields (content.extend c x) = content_fields c"
  by (cases c, cases "b_type c") (simp_all add: content_fields_def content.defs)

lemma computeContentHash_extend [simp]: "computeContentHash C (content.extend c x) = computeContentHash C c"
  by (simp add: computeContentHash_def canonicalContent_def)

lemma extend_simps [simp]:
  "b_accumulatorRoot (content.extend c (block.fields r h s)) = r"
  "b_hash (content.extend c (block.fields r h s)) = h"
  "b_signature (content.extend c (block.fields r h s)) = s"
  "b_accountId (content.extend c (block.fields r h s)) = b_accountId c"
  "b_index (content.extend c (block.fields r h s)) = b_index c"
  "b_type (content.extend c (block.fields r h s)) = b_type c"
  "b_previousHash (content.extend c (block.fields r h s)) = b_previousHash c"
  "b_balance (content.extend c (block.fields r h s)) = b_balance c"
  "b_shard (content.extend c (block.fields r h s)) = b_shard c"
  "b_timestamp (content.extend c (block.fields r h s)) = b_timestamp c"
  "b_recipient (content.extend c (block.fields r h s)) = b_recipient c"
  "b_sourceHash (content.extend c (block.fields r h s)) = b_sourceHash c"
  "b_amount (content.extend c (block.fields r h s)) = b_amount c"
  "b_tokenId (content.extend c (block.fields r h s)) = b_tokenId c"
  "b_updates (content.extend c (block.fields r h s)) = b_updates c"
  "b_storage (content.extend c (block.fields r h s)) = b_storage c"
  "b_contentRef (content.extend c (block.fields r h s)) = b_contentRef c"
  "b_nftMeta (content.extend c (block.fields r h s)) = b_nftMeta c"
  by (simp_all add: content.defs block.defs)

lemma blank_content_simps [simp]:
  "b_accountId (blank_content a i ty p sh ts bal) = a" "b_index (blank_content a i ty p sh ts bal) = i"
  "b_type (blank_content a i ty p sh ts bal) = ty" "b_previousHash (blank_content a i ty p sh ts bal) = p"
  "b_shard (blank_content a i ty p sh ts bal) = sh" "b_timestamp (blank_content a i ty p sh ts bal) = ts"
  "b_balance (blank_content a i ty p sh ts bal) = bal" "b_amount (blank_content a i ty p sh ts bal) = None"
  "b_recipient (blank_content a i ty p sh ts bal) = None" "b_sourceHash (blank_content a i ty p sh ts bal) = None"
  "b_tokenId (blank_content a i ty p sh ts bal) = None" "b_updates (blank_content a i ty p sh ts bal) = None"
  "b_storage (blank_content a i ty p sh ts bal) = None"
  by (simp_all add: blank_content_def)

lemma createBlock_Some:
  assumes "createBlock C c priv acc = (Some b, acc')"
  shows "\<exists>leaf s. c_fromHex C (computeContentHash C c) = Some leaf \<and> acc' = acc @ [leaf]
     \<and> sign_str C (blockSigningMessage (computeContentHash C c) (acc_rootHex C acc')) priv = Some s
     \<and> b = content.extend c (block.fields (acc_rootHex C acc') (computeContentHash C c) s)"
  using assms by (auto simp: createBlock_def acc_append_def toBytes_def Let_def split: option.splits)

lemma createBlock_verifies:
  assumes "createBlock C c priv acc = (Some b, acc')" "hex_codec C" "signing C"
    "publicKeyFromPrivate C priv = Some (b_accountId c)"
  shows "verifyBlock C b"
  using createBlock_Some [OF assms(1)] assms(2-4)
  by (auto simp: verifyBlock_def verifyBlockSignature_def intro: verify_sign_str)

text \<open>A signing failure leaves the leaf behind: chain and accumulator no longer agree.\<close>

lemma createBlock_throw_desync:
  assumes "createBlock C c priv acc = (None, acc')" "hex_codec C"
  shows "acc' = acc @ [c_sha256 C (json_preimage C (canonicalContent c))]"
  using assms by (auto simp: createBlock_def acc_append_def toBytes_def Let_def computeContentHash_def
      hashJson_preimage split: option.splits)

section \<open>What a content hash commits to\<close>

lemma obj_fields_simps [simp]:
  "obj_fields [] = []" "obj_fields ((k, None) # kvs) = obj_fields kvs"
  "obj_fields ((k, Some j) # kvs) = (k, j) # obj_fields kvs"
  by (simp_all add: obj_fields_def)

lemma fst_obj_fields: "fst ` set (obj_fields kvs) \<subseteq> fst ` set kvs"
  by (force simp: obj_fields_def)

lemma map_of_fields:
  "distinct (map fst kvs) \<Longrightarrow> map_of (obj_fields kvs) k = Option.bind (map_of kvs k) id"
proof (induction kvs)
  case (Cons kv kvs)
  obtain a v where kv: "kv = (a, v)"
    by (cases kv)
  have "a \<notin> fst ` set (obj_fields kvs)"
    using Cons.prems kv fst_obj_fields [of kvs] by auto
  then have "map_of (obj_fields kvs) a = None"
    by (simp add: map_of_eq_None_iff)
  with Cons kv show ?case
    by (cases v) auto
qed simp

lemma distinct_fields: "distinct (map fst kvs) \<Longrightarrow> distinct (map fst (obj_fields kvs))"
proof (induction kvs)
  case (Cons kv kvs)
  obtain a v where kv: "kv = (a, v)"
    by (cases kv)
  have "a \<notin> fst ` set (obj_fields kvs)"
    using Cons.prems kv fst_obj_fields [of kvs] by auto
  with Cons kv show ?case
    by (cases v) auto
qed simp

lemma sortValue_obj_lookup:
  assumes "sortValue (JObj kvs) = sortValue (JObj vs)" "distinct (map fst kvs)" "distinct (map fst vs)"
  shows "map_option sortValue (map_of kvs k) = map_option sortValue (map_of vs k)"
proof -
  let ?g = "\<lambda>kv. (fst kv, sortValue (snd kv))"
  have "mset (map ?g kvs) = mset (map ?g vs)"
    using arg_cong [where f = mset, OF assms(1) [simplified, unfolded json.inject]] by simp
  then have "map_of (map ?g kvs) = map_of (map ?g vs)"
    using assms(2) by (intro map_of_perm) (simp_all add: comp_def)
  moreover have "map_of (map ?g xs) k = map_option sortValue (map_of xs k)" for xs :: "(string \<times> json) list"
    by (induction xs) auto
  ultimately show ?thesis by metis
qed

lemma fields_lookup:
  assumes "sortValue (JObj (obj_fields kvs)) = sortValue (JObj (obj_fields vs))"
    "distinct (map fst kvs)" "distinct (map fst vs)"
  shows "map_option sortValue (Option.bind (map_of kvs k) id) = map_option sortValue (Option.bind (map_of vs k) id)"
  using sortValue_obj_lookup [OF assms(1) distinct_fields [OF assms(2)] distinct_fields [OF assms(3)], of k]
  by (simp add: map_of_fields assms(2,3))

lemma lift_inj [simp]:
  "map_option sortValue (Option.bind x jstr) = map_option sortValue (Option.bind y jstr) \<longleftrightarrow> x = y"
  "map_option sortValue (Option.bind i jint) = map_option sortValue (Option.bind j jint) \<longleftrightarrow> i = j"
  "map_option sortValue (Option.bind i jbig) = map_option sortValue (Option.bind j jbig) \<longleftrightarrow> i = j"
  "map_option sortValue (jstr s) = map_option sortValue (jstr t) \<longleftrightarrow> s = t"
  "map_option sortValue (jint a) = map_option sortValue (jint b) \<longleftrightarrow> a = b"
  "map_option sortValue (jbig a) = map_option sortValue (jbig b) \<longleftrightarrow> a = b"
  by (cases x; cases y; cases i; cases j; simp add: jstr_def jint_def jbig_def)+

lemma sort_arr_inj:
  assumes "\<And>a b. sortValue (f a) = sortValue (f b) \<Longrightarrow> a = b"
    "sortValue (JArr (map f xs)) = sortValue (JArr (map f ys))"
  shows "xs = ys"
proof -
  have "map (\<lambda>x. sortValue (f x)) xs = map (\<lambda>x. sortValue (f x)) ys"
    using assms(2) by (simp add: comp_def)
  moreover have "inj (\<lambda>x. sortValue (f x))"
    using assms(1) by (auto intro: injI)
  ultimately show ?thesis
    by (simp add: inj_map_eq_map)
qed

lemma fields_aligned:
  assumes "sortValue (JObj (obj_fields kvs)) = sortValue (JObj (obj_fields vs))"
    "map fst kvs = map fst vs" "distinct (map fst kvs)"
  shows "map (\<lambda>kv. map_option sortValue (snd kv)) kvs = map (\<lambda>kv. map_option sortValue (snd kv)) vs"
proof (rule nth_equalityI)
  show len: "length (map (\<lambda>kv. map_option sortValue (snd kv)) kvs) = length (map (\<lambda>kv. map_option sortValue (snd kv)) vs)"
    using arg_cong [where f = length, OF assms(2)] by simp
  fix i
  assume "i < length (map (\<lambda>kv. map_option sortValue (snd kv)) kvs)"
  then have i: "i < length kvs" "i < length vs"
    using len by simp_all
  have dv: "distinct (map fst vs)"
    using assms(2,3) by simp
  have f: "fst (kvs ! i) = fst (vs ! i)"
    using assms(2) i by (metis nth_map)
  have nth: "map_of xs (fst (xs ! j)) = Some (snd (xs ! j))" if "distinct (map fst xs)" "j < length xs"
    for xs :: "(string \<times> json option) list" and j
    by (rule map_of_is_SomeI [OF that(1)]) (simp add: that(2))
  have "map_of kvs (fst (kvs ! i)) = Some (snd (kvs ! i))" "map_of vs (fst (kvs ! i)) = Some (snd (vs ! i))"
    using nth [OF assms(3) i(1)] nth [OF dv i(2)] f by simp_all
  then show "map (\<lambda>kv. map_option sortValue (snd kv)) kvs ! i = map (\<lambda>kv. map_option sortValue (snd kv)) vs ! i"
    using fields_lookup [OF assms(1,3) dv, of "fst (kvs ! i)"] i by simp
qed

lemma attestation_json_inj: "sortValue (attestation_json a) = sortValue (attestation_json b) \<Longrightarrow> a = b"
  unfolding attestation_json_def by (drule fields_aligned) simp_all

lemma receipt_json_inj: "sortValue (receipt_json a) = sortValue (receipt_json b) \<Longrightarrow> a = b"
  unfolding receipt_json_def by (drule fields_aligned) simp_all

lemma signed_receipt_json_inj: "sortValue (signed_receipt_json a) = sortValue (signed_receipt_json b) \<Longrightarrow> a = b"
  unfolding signed_receipt_json_def
  by (drule fields_aligned) (auto simp del: sortValue.simps dest: receipt_json_inj intro: signed_receipt.equality)

lemma option_json_inj:
  assumes "map_option sortValue (map_option f x) = map_option sortValue (map_option f y)"
    "\<And>a b. sortValue (f a) = sortValue (f b) \<Longrightarrow> a = b"
  shows "x = y"
  using assms by (cases x; cases y) auto

lemma arr_option_inj:
  assumes "map_option sortValue (map_option (\<lambda>xs. JArr (map f xs)) x) = map_option sortValue (map_option (\<lambda>xs. JArr (map f xs)) y)"
    "\<And>a b. sortValue (f a) = sortValue (f b) \<Longrightarrow> a = b"
  shows "x = y"
  by (rule option_json_inj [OF assms(1)]) (rule sort_arr_inj [of f, OF assms(2)])

lemma storage_json_inj: "sortValue (storage_json a) = sortValue (storage_json b) \<Longrightarrow> a = b"
  unfolding storage_json_def
  by (drule fields_aligned)
    (auto simp del: option.map_comp dest!: arr_option_inj [OF _ signed_receipt_json_inj] intro: storage_payload.equality)

text \<open>A record of strings is committed to as an unordered collection of its properties.\<close>

definition same_record :: "(string \<times> string) list option \<Rightarrow> (string \<times> string) list option \<Rightarrow> bool" where
  "same_record x y \<longleftrightarrow> map_option mset x = map_option mset y"

lemma strings_json_inj: "sortValue (strings_json a) = sortValue (strings_json b) \<Longrightarrow> mset a = mset b"
proof -
  assume eq: "sortValue (strings_json a) = sortValue (strings_json b)"
  let ?g = "\<lambda>(k, v). (k, JStr v)"
  have g: "map (\<lambda>kv. (fst kv, sortValue (snd kv))) (map ?g xs) = map ?g xs" for xs :: "(string \<times> string) list"
    by (induction xs) auto
  have "mset (map ?g a) = mset (map ?g b)"
    using arg_cong [where f = mset, OF eq [unfolded strings_json_def sortValue.simps json.inject g]] by simp
  moreover have "inj ?g"
    by (auto intro: injI)
  ultimately show "mset a = mset b"
    using multiset.inj_map [of ?g] by (auto dest: injD)
qed

lemma record_option_inj:
  "map_option sortValue (map_option strings_json x) = map_option sortValue (map_option strings_json y)
   \<Longrightarrow> same_record x y"
  by (cases x; cases y) (auto simp: same_record_def simp del: sortValue.simps dest: strings_json_inj)

text \<open>Agreement on everything that the two blocks' types put under the hash.\<close>

fun same_type_fields :: "block_type \<Rightarrow> 'a content_scheme \<Rightarrow> 'b content_scheme \<Rightarrow> bool" where
  "same_type_fields Open c d \<longleftrightarrow> b_identityCommitment c = b_identityCommitment d \<and> b_attestations c = b_attestations d"
| "same_type_fields Send c d \<longleftrightarrow> b_recipient c = b_recipient d \<and> b_amount c = b_amount d \<and> b_recipientName c = b_recipientName d"
| "same_type_fields Receive c d \<longleftrightarrow> b_sourceHash c = b_sourceHash d \<and> b_amount c = b_amount d
     \<and> b_senderPub c = b_senderPub d \<and> b_senderName c = b_senderName d"
| "same_type_fields Update c d \<longleftrightarrow> same_record (b_updates c) (b_updates d)"
| "same_type_fields NftMint c d \<longleftrightarrow> b_tokenId c = b_tokenId d \<and> b_contentRef c = b_contentRef d
     \<and> same_record (b_nftMeta c) (b_nftMeta d)"
| "same_type_fields NftSend c d \<longleftrightarrow> b_tokenId c = b_tokenId d \<and> b_recipient c = b_recipient d
     \<and> b_recipientName c = b_recipientName d"
| "same_type_fields NftReceive c d \<longleftrightarrow> b_tokenId c = b_tokenId d \<and> b_sourceHash c = b_sourceHash d
     \<and> b_senderPub c = b_senderPub d \<and> b_senderName c = b_senderName d"
| "same_type_fields NftBurn c d \<longleftrightarrow> b_tokenId c = b_tokenId d"
| "same_type_fields StorageRegister c d \<longleftrightarrow> b_storage c = b_storage d"
| "same_type_fields StorageDeregister c d \<longleftrightarrow> b_storage c = b_storage d"
| "same_type_fields StorageSettle c d \<longleftrightarrow> b_storage c = b_storage d \<and> b_amount c = b_amount d"

definition same_signed_fields :: "'a content_scheme \<Rightarrow> 'b content_scheme \<Rightarrow> bool" where
  "same_signed_fields c d \<longleftrightarrow> b_accountId c = b_accountId d \<and> b_index c = b_index d \<and> b_type c = b_type d
     \<and> b_previousHash c = b_previousHash d \<and> b_shard c = b_shard d \<and> b_timestamp c = b_timestamp d
     \<and> b_balance c = b_balance d \<and> same_type_fields (b_type c) c d"

lemma distinct_content_keys: "distinct (map fst (content_fields c))"
  by (cases "b_type c") (simp_all add: content_fields_def)

lemma canonicalContent_type:
  assumes "sortValue (canonicalContent c) = sortValue (canonicalContent d)"
  shows "b_type c = b_type d"
  using fields_lookup [OF assms [unfolded canonicalContent_def] distinct_content_keys distinct_content_keys, of "''type''"]
  by (simp add: content_fields_def)

lemma canonicalContent_inj:
  assumes "sortValue (canonicalContent c) = sortValue (canonicalContent d)"
  shows "same_signed_fields c d"
proof -
  note ty = canonicalContent_type [OF assms]
  have "map fst (content_fields c) = map fst (content_fields d)"
    by (cases "b_type d") (simp_all add: content_fields_def ty)
  from fields_aligned [OF assms [unfolded canonicalContent_def] this distinct_content_keys]
  show ?thesis
    by (cases "b_type d")
      (auto simp: content_fields_def ty same_signed_fields_def simp del: option.map_comp
        dest!: arr_option_inj [OF _ attestation_json_inj] record_option_inj option_json_inj [OF _ storage_json_inj])
qed

lemma computeContentHash_binds:
  assumes "computeContentHash C c = computeContentHash C d" "hex_codec C" "inj (c_utf8 C)"
    "inj_on (c_sha256 C) {json_preimage C (canonicalContent c), json_preimage C (canonicalContent d)}"
  shows "same_signed_fields c d"
  using hashJson_inj [OF assms(2) assms(1) [unfolded computeContentHash_def] assms(4,3)]
  by (rule canonicalContent_inj)

end
