(* ===== verification/Light_Verify.thy ===== *)
theory Light_Verify
  imports Block_Model
begin

text \<open>
  Light-client verification (\<open>src/engine/core/light-verify.ts\<close>) and counterparty packets
  (\<open>counterparty-proof.ts\<close>). A verification returns \<open>Some\<close> verdict or throws
  (\<open>None\<close>: a malformed hex string inside the proof). Packets built from a well-formed chain
  are accepted, and an accepted packet pins the transfer to its position in the history that the
  signed head commits to.
\<close>

record verification =
  v_ok :: bool
  v_reason :: "string option"
  v_accountId :: "hex option"
  v_balance :: "int option"

definition fail :: "string \<Rightarrow> verification" where
  "fail r = \<lparr>v_ok = False, v_reason = Some r, v_accountId = None, v_balance = None\<rparr>"

record head_proof =
  hp_open :: block
  hp_head :: block
  hp_openProof :: "hex list"

definition verifyAccountHead :: "crypto \<Rightarrow> head_proof \<Rightarrow> quorum_policy \<Rightarrow> verification option" where
  "verifyAccountHead C pf policy =
     (let ob = hp_open pf; hb = hp_head pf in
      if b_type ob \<noteq> Open \<or> b_index ob \<noteq> 0 \<or> b_previousHash ob \<noteq> GENESIS_PREV
      then Some (fail ''open block is not a valid genesis block'')
      else if \<not> verifyBlock C ob then Some (fail ''open block failed signature/hash check'')
      else (case (b_identityCommitment ob, b_attestations ob) of
          (Some (ch # com), Some atts) \<Rightarrow>
            (let q = checkQuorum C atts (ch # com) policy in
             if \<not> qr_ok q then Some (fail (''identity quorum failed: '' @ nvl (qr_reason q) ''undefined''))
             else if \<not> verifyBlock C hb then Some (fail ''head block failed signature/hash check'')
             else if b_accountId hb \<noteq> b_accountId ob
             then Some (fail ''head and open block belong to different accounts'')
             else (case verifyInclusion C (b_accumulatorRoot hb) (b_hash ob) 0 (b_index hb + 1) (hp_openProof pf) of
                 None \<Rightarrow> None
               | Some False \<Rightarrow> Some (fail ''open block is not committed by the head accumulator root'')
               | Some True \<Rightarrow> Some \<lparr>v_ok = True, v_reason = None, v_accountId = Some (b_accountId hb),
                   v_balance = Some (b_balance hb)\<rparr>))
        | _ \<Rightarrow> Some (fail ''open block missing identity commitment or attestations'')))"

section \<open>Packets\<close>

record packet =
  pk_open :: block
  pk_head :: block
  pk_openProof :: "hex list"
  pk_send :: block
  pk_sendProof :: "hex list"

record mint_proof =
  mp_open :: block
  mp_head :: block
  mp_openProof :: "hex list"
  mp_mint :: block
  mp_mintProof :: "hex list"

text \<open>The accumulator rebuilt by appending every block hash in order.\<close>

fun append_all :: "crypto \<Rightarrow> hex list \<Rightarrow> accumulator \<Rightarrow> accumulator option" where
  "append_all C [] acc = Some acc"
| "append_all C (h # hs) acc = Option.bind (acc_append C h acc) (append_all C hs)"

text \<open>The outer option is a throw, the inner one the \<open>null\<close> of the source.\<close>

definition buildPacketFromChain :: "crypto \<Rightarrow> block list \<Rightarrow> hex \<Rightarrow> packet option option" where
  "buildPacketFromChain C blocks sendHash =
     (if blocks = [] then Some None
      else let i = findIndex (\<lambda>b. b_hash b = sendHash) blocks in
        if i < 0 then Some None
        else (case append_all C (map b_hash blocks) [] of
            None \<Rightarrow> None
          | Some acc \<Rightarrow> (case (proofHex C acc 0, proofHex C acc i) of
              (Some p0, Some p1) \<Rightarrow> Some (Some \<lparr>pk_open = hd blocks, pk_head = last blocks, pk_openProof = p0,
                 pk_send = blocks ! nat i, pk_sendProof = p1\<rparr>)
            | _ \<Rightarrow> None)))"

definition buildMintProofFromChain :: "crypto \<Rightarrow> block list \<Rightarrow> hex \<Rightarrow> mint_proof option option" where
  "buildMintProofFromChain C blocks token =
     (if blocks = [] then Some None
      else let i = findIndex (\<lambda>b. b_type b = NftMint \<and> b_tokenId b = Some token) blocks in
        if i < 0 then Some None
        else (case append_all C (map b_hash blocks) [] of
            None \<Rightarrow> None
          | Some acc \<Rightarrow> (case (proofHex C acc 0, proofHex C acc i) of
              (Some p0, Some p1) \<Rightarrow> Some (Some \<lparr>mp_open = hd blocks, mp_head = last blocks, mp_openProof = p0,
                 mp_mint = blocks ! nat i, mp_mintProof = p1\<rparr>)
            | _ \<Rightarrow> None)))"

definition verifyChainInclusion ::
  "crypto \<Rightarrow> block \<Rightarrow> block \<Rightarrow> hex list \<Rightarrow> block \<Rightarrow> hex list \<Rightarrow> quorum_policy \<Rightarrow> verification option" where
  "verifyChainInclusion C ob hb obProof b bProof policy =
     (case verifyAccountHead C \<lparr>hp_open = ob, hp_head = hb, hp_openProof = obProof\<rparr> policy of
        None \<Rightarrow> None
      | Some hv \<Rightarrow>
          (if \<not> v_ok hv then Some (fail (''head: '' @ nvl (v_reason hv) ''undefined''))
           else if b_accountId b \<noteq> b_accountId hb then Some (fail ''block belongs to a different account'')
           else if \<not> verifyBlock C b then Some (fail ''block failed signature/hash check'')
           else (case verifyInclusion C (b_accumulatorRoot hb) (b_hash b) (b_index b) (b_index hb + 1) bProof of
               None \<Rightarrow> None
             | Some False \<Rightarrow> Some (fail ''block is not committed by the head accumulator root'')
             | Some True \<Rightarrow> Some \<lparr>v_ok = True, v_reason = None, v_accountId = None, v_balance = None\<rparr>)))"

definition verifyPacket :: "crypto \<Rightarrow> packet \<Rightarrow> hex \<Rightarrow> quorum_policy \<Rightarrow> verification option" where
  "verifyPacket C p rcpt policy =
     (let sd = pk_send p in
      if b_type sd \<noteq> Send \<and> b_type sd \<noteq> NftSend then Some (fail ''packet block is not a send'')
      else if b_recipient sd \<noteq> Some rcpt then Some (fail ''send is not addressed to this recipient'')
      else verifyChainInclusion C (pk_open p) (pk_head p) (pk_openProof p) sd (pk_sendProof p) policy)"

definition verifyMintProof :: "crypto \<Rightarrow> mint_proof \<Rightarrow> hex \<Rightarrow> quorum_policy \<Rightarrow> verification option" where
  "verifyMintProof C p token policy =
     (let mint = mp_mint p in
      if b_type mint \<noteq> NftMint then Some (fail ''proof block is not an nft-mint'')
      else if b_tokenId mint \<noteq> Some token then Some (fail ''mint block is for a different token'')
      else if \<not> truthy (b_contentRef mint) then Some (fail ''mint block has no content reference'')
      else verifyChainInclusion C (mp_open p) (mp_head p) (mp_openProof p) mint (mp_mintProof p) policy)"

section \<open>Well-formed chains\<close>

text \<open>An account history in order: what a chain holder has.\<close>

definition valid_chain :: "crypto \<Rightarrow> block list \<Rightarrow> bool" where
  "valid_chain C bs \<longleftrightarrow> bs \<noteq> [] \<and> b_type (hd bs) = Open \<and> b_previousHash (hd bs) = GENESIS_PREV
     \<and> (case all_hex C (map b_hash bs) of None \<Rightarrow> False | Some leaves \<Rightarrow>
          (\<forall>i < length bs. b_index (bs ! i) = int i \<and> b_accountId (bs ! i) = b_accountId (hd bs)
             \<and> verifyBlock C (bs ! i) \<and> b_accumulatorRoot (bs ! i) = acc_rootHex C (take (Suc i) leaves)
             \<and> (0 < i \<longrightarrow> b_previousHash (bs ! i) = b_hash (bs ! (i - 1)))))"

lemma append_all_eq: "append_all C hs acc = map_option (\<lambda>ls. acc @ ls) (all_hex C hs)"
proof (induction hs arbitrary: acc)
  case (Cons h hs)
  then show ?case
    by (cases "c_fromHex C h"; cases "all_hex C hs") (simp_all add: acc_append_def toBytes_def)
qed simp

lemma all_hex_length: "all_hex C hs = Some ls \<Longrightarrow> length ls = length hs"
  by (induction hs arbitrary: ls) (auto split: option.splits)

lemma all_hex_nth: "all_hex C hs = Some ls \<Longrightarrow> i < length hs \<Longrightarrow> c_fromHex C (hs ! i) = Some (ls ! i)"
  by (induction hs arbitrary: ls i) (auto simp: nth_Cons split: option.splits nat.splits)

lemma proofHex_ok: "i < length acc \<Longrightarrow> proofHex C acc (int i) = Some (map (c_toHex C) (merkleProof C acc i))"
  by (simp add: proofHex_def merkleProof_checked_def)

lemma verifyInclusion_complete:
  assumes "hex_codec C" "i < length ls" "length ls \<le> 2147483648" "c_fromHex C h = Some (ls ! i)"
  shows "verifyInclusion C (acc_rootHex C ls) h (int i) (int (length ls)) (map (c_toHex C) (merkleProof C ls i)) = Some True"
  using assms verify_merkleProof [OF assms(2,3), of C]
  by (simp add: verifyInclusion_def acc_rootHex_def toBytes_def)

lemma valid_chainE:
  assumes "valid_chain C bs"
  obtains leaves where "bs \<noteq> []" "b_type (hd bs) = Open" "b_previousHash (hd bs) = GENESIS_PREV"
    "all_hex C (map b_hash bs) = Some leaves" "length leaves = length bs"
    "\<And>i. i < length bs \<Longrightarrow> b_index (bs ! i) = int i \<and> b_accountId (bs ! i) = b_accountId (hd bs)
             \<and> verifyBlock C (bs ! i) \<and> b_accumulatorRoot (bs ! i) = acc_rootHex C (take (Suc i) leaves)
             \<and> (0 < i \<longrightarrow> b_previousHash (bs ! i) = b_hash (bs ! (i - 1)))"
  using assms all_hex_length by (fastforce simp: valid_chain_def split: option.splits)

text \<open>The genesis of a chain satisfies an identity policy.\<close>

definition identity_ok :: "crypto \<Rightarrow> block \<Rightarrow> quorum_policy \<Rightarrow> bool" where
  "identity_ok C b policy \<longleftrightarrow> (case (b_identityCommitment b, b_attestations b) of
     (Some com, Some atts) \<Rightarrow> com \<noteq> [] \<and> qr_ok (checkQuorum C atts com policy) | _ \<Rightarrow> False)"

lemma chain_inclusion_complete:
  assumes "valid_chain C bs" "hex_codec C" "length bs \<le> 2147483648" "identity_ok C (hd bs) policy"
    "i < length bs" "all_hex C (map b_hash bs) = Some leaves"
  shows "verifyChainInclusion C (hd bs) (last bs) (map (c_toHex C) (merkleProof C leaves 0)) (bs ! i)
     (map (c_toHex C) (merkleProof C leaves i)) policy = Some \<lparr>v_ok = True, v_reason = None, v_accountId = None, v_balance = None\<rparr>"
proof -
  from assms(1) obtain ne: "bs \<noteq> []" and op: "b_type (hd bs) = Open" "b_previousHash (hd bs) = GENESIS_PREV"
    and len: "length leaves = length bs"
    and nth: "\<And>i. i < length bs \<Longrightarrow> b_index (bs ! i) = int i \<and> b_accountId (bs ! i) = b_accountId (hd bs)
             \<and> verifyBlock C (bs ! i) \<and> b_accumulatorRoot (bs ! i) = acc_rootHex C (take (Suc i) leaves)"
    using assms(6) by (elim valid_chainE) auto
  have hd: "hd bs = bs ! 0" and last: "last bs = bs ! (length bs - 1)"
    using ne by (simp_all add: hd_conv_nth last_conv_nth)
  have L: "length bs - 1 < length bs" "0 < length bs"
    using ne by simp_all
  have hix: "b_index (last bs) + 1 = int (length leaves)" "b_accountId (last bs) = b_accountId (hd bs)"
    "verifyBlock C (last bs)" "b_accumulatorRoot (last bs) = acc_rootHex C leaves"
    using nth [OF L(1)] L(2) len by (simp_all add: last of_nat_diff)
  have oix: "b_index (hd bs) = 0" "verifyBlock C (hd bs)"
    using nth [OF L(2)] by (simp_all add: hd)
  have leaf: "c_fromHex C (b_hash (bs ! j)) = Some (leaves ! j)" if "j < length bs" for j
    using all_hex_nth [OF assms(6), of j] that by simp
  have inc: "verifyInclusion C (acc_rootHex C leaves) (b_hash (bs ! j)) (int j) (int (length leaves))
      (map (c_toHex C) (merkleProof C leaves j)) = Some True" if "j < length bs" for j
    by (rule verifyInclusion_complete) (use assms(2,3) that len leaf in simp_all)
  from assms(4) obtain c com atts where idc: "b_identityCommitment (hd bs) = Some (c # com)"
    "b_attestations (hd bs) = Some atts" "qr_ok (checkQuorum C atts (c # com) policy)"
    by (auto simp: identity_ok_def neq_Nil_conv split: option.splits)
  have inc0: "verifyInclusion C (acc_rootHex C leaves) (b_hash (hd bs)) 0 (int (length leaves))
      (map (c_toHex C) (merkleProof C leaves 0)) = Some True"
    using inc [OF L(2)] by (simp add: hd)
  have "verifyAccountHead C \<lparr>hp_open = hd bs, hp_head = last bs,
      hp_openProof = map (c_toHex C) (merkleProof C leaves 0)\<rparr> policy
    = Some \<lparr>v_ok = True, v_reason = None, v_accountId = Some (b_accountId (last bs)), v_balance = Some (b_balance (last bs))\<rparr>"
    by (simp add: verifyAccountHead_def Let_def op oix idc hix inc0)
  then show ?thesis
    using nth [OF assms(5)] inc [OF assms(5)] by (simp add: verifyChainInclusion_def hix)
qed

lemma packet_complete:
  assumes "valid_chain C bs" "hex_codec C" "length bs \<le> 2147483648" "identity_ok C (hd bs) policy"
    and "i < length bs" "\<And>j. j < i \<Longrightarrow> b_hash (bs ! j) \<noteq> b_hash (bs ! i)"
    and "b_type (bs ! i) = Send \<or> b_type (bs ! i) = NftSend" "b_recipient (bs ! i) = Some rcpt"
  shows "\<exists>p v. buildPacketFromChain C bs (b_hash (bs ! i)) = Some (Some p) \<and> pk_send p = bs ! i
     \<and> verifyPacket C p rcpt policy = Some v \<and> v_ok v"
proof -
  obtain leaves where ls: "all_hex C (map b_hash bs) = Some leaves" "length leaves = length bs" "bs \<noteq> []"
    using assms(1) by (elim valid_chainE) auto
  let ?P = "\<lambda>b. b_hash b = b_hash (bs ! i)"
  have "\<not> findIndex ?P bs < 0"
    using assms(5) by (auto simp: findIndex_neg)
  then have f: "0 \<le> findIndex ?P bs" by simp
  with findIndex_found [OF f] assms(5,6) have fi: "findIndex ?P bs = int i"
    by (metis (no_types, lifting) linorder_neqE_nat nat_0_le)
  have "0 < length leaves" "i < length leaves"
    using ls assms(5) by auto
  then have pr: "proofHex C leaves 0 = Some (map (c_toHex C) (merkleProof C leaves 0))"
    "proofHex C leaves (int i) = Some (map (c_toHex C) (merkleProof C leaves i))"
    using proofHex_ok [of 0 leaves C] proofHex_ok [of i leaves C] by simp_all
  show ?thesis
    using chain_inclusion_complete [OF assms(1-5) ls(1)] assms(7,8)
    by (auto simp: buildPacketFromChain_def ls fi append_all_eq pr Let_def verifyPacket_def)
qed

section \<open>What an accepted packet proves\<close>

lemma verifyAccountHead_ok:
  assumes "verifyAccountHead C pf policy = Some v" "v_ok v"
  shows "b_type (hp_open pf) = Open \<and> b_index (hp_open pf) = 0 \<and> b_previousHash (hp_open pf) = GENESIS_PREV
    \<and> verifyBlock C (hp_open pf) \<and> identity_ok C (hp_open pf) policy \<and> verifyBlock C (hp_head pf)
    \<and> b_accountId (hp_head pf) = b_accountId (hp_open pf)
    \<and> verifyInclusion C (b_accumulatorRoot (hp_head pf)) (b_hash (hp_open pf)) 0 (b_index (hp_head pf) + 1) (hp_openProof pf) = Some True
    \<and> v_accountId v = Some (b_accountId (hp_head pf)) \<and> v_balance v = Some (b_balance (hp_head pf))"
  using assms
  by (auto simp: verifyAccountHead_def Let_def identity_ok_def fail_def
      split: option.splits list.splits bool.splits if_splits)

lemma verifyChainInclusion_ok:
  assumes "verifyChainInclusion C ob hb op b bp policy = Some v" "v_ok v"
  shows "(\<exists>w. verifyAccountHead C \<lparr>hp_open = ob, hp_head = hb, hp_openProof = op\<rparr> policy = Some w \<and> v_ok w)
    \<and> b_accountId b = b_accountId hb \<and> verifyBlock C b
    \<and> verifyInclusion C (b_accumulatorRoot hb) (b_hash b) (b_index b) (b_index hb + 1) bp = Some True"
  using assms
  by (auto simp: verifyChainInclusion_def fail_def split: option.splits bool.splits if_splits)

text \<open>The byte strings hashed by a tree and by a check against it.\<close>

definition check_inputs :: "crypto \<Rightarrow> bytes list \<Rightarrow> hex \<Rightarrow> int \<Rightarrow> hex list \<Rightarrow> bytes set" where
  "check_inputs C ls h i bp = set (tree_inputs C ls) \<union>
     (case (c_fromHex C h, all_hex C bp) of
        (Some l, Some ps) \<Rightarrow> set (path_inputs C (length ls) (nat i) ps l) | _ \<Rightarrow> {})"

lemma verifyInclusion_sound:
  assumes "verifyInclusion C (acc_rootHex C ls) h i (int (length ls)) bp = Some True"
    and "hex_codec C" "hash_length C" "length ls \<le> 2147483648"
    and "inj_on (c_sha256 C) (check_inputs C ls h i bp)"
  shows "0 \<le> i \<and> i < int (length ls) \<and> c_fromHex C h = Some (ls ! nat i)"
proof -
  obtain l ps where d: "c_fromHex C h = Some l" "all_hex C bp = Some ps"
    and v: "verifyMerkleProof C (merkleRoot C ls) l i (int (length ls)) ps"
    using assms(1,2) by (auto simp: verifyInclusion_def acc_rootHex_def toBytes_def split: option.splits)
  then have i: "0 \<le> i" "i < int (length ls)"
    by (auto simp: verifyMerkleProof_def split: if_splits)
  have "l = ls ! nat i \<and> ps = merkleProof C ls (nat i)"
    by (rule verifyMerkleProof_sound)
      (use v i assms(3-5) d in \<open>auto simp: check_inputs_def\<close>)
  with i d show ?thesis by simp
qed

text \<open>
  Take any history \<open>ls\<close> whose root is the head's: an accepted packet's genesis is its
  leaf 0 and the transfer is its leaf at the block's own index, both signed by the account.
\<close>

lemma packet_sound:
  assumes "verifyPacket C p rcpt policy = Some v" "v_ok v"
    and "hex_codec C" "hash_length C" "length ls \<le> 2147483648"
    and "b_accumulatorRoot (pk_head p) = acc_rootHex C ls" "b_index (pk_head p) + 1 = int (length ls)"
    and "inj_on (c_sha256 C) (check_inputs C ls (b_hash (pk_open p)) 0 (pk_openProof p))"
    and "inj_on (c_sha256 C) (check_inputs C ls (b_hash (pk_send p)) (b_index (pk_send p)) (pk_sendProof p))"
  shows "c_fromHex C (b_hash (pk_open p)) = Some (ls ! 0)
    \<and> 0 \<le> b_index (pk_send p) \<and> b_index (pk_send p) < int (length ls)
    \<and> c_fromHex C (b_hash (pk_send p)) = Some (ls ! nat (b_index (pk_send p)))
    \<and> verifyBlock C (pk_send p) \<and> b_accountId (pk_send p) = b_accountId (pk_open p)
    \<and> b_recipient (pk_send p) = Some rcpt \<and> (b_type (pk_send p) = Send \<or> b_type (pk_send p) = NftSend)
    \<and> identity_ok C (pk_open p) policy \<and> verifyBlock C (pk_head p)"
proof -
  have t: "b_type (pk_send p) = Send \<or> b_type (pk_send p) = NftSend" "b_recipient (pk_send p) = Some rcpt"
    and ci: "verifyChainInclusion C (pk_open p) (pk_head p) (pk_openProof p) (pk_send p) (pk_sendProof p) policy = Some v"
    using assms(1,2) by (auto simp: verifyPacket_def fail_def Let_def split: if_splits)
  from verifyChainInclusion_ok [OF ci assms(2)] obtain w where
    w: "verifyAccountHead C \<lparr>hp_open = pk_open p, hp_head = pk_head p, hp_openProof = pk_openProof p\<rparr> policy = Some w" "v_ok w"
    and b: "b_accountId (pk_send p) = b_accountId (pk_head p)" "verifyBlock C (pk_send p)"
      "verifyInclusion C (acc_rootHex C ls) (b_hash (pk_send p)) (b_index (pk_send p)) (int (length ls)) (pk_sendProof p) = Some True"
    using assms(6,7) by auto
  have h: "identity_ok C (pk_open p) policy" "verifyBlock C (pk_head p)" "b_accountId (pk_head p) = b_accountId (pk_open p)"
    "verifyInclusion C (acc_rootHex C ls) (b_hash (pk_open p)) 0 (int (length ls)) (pk_openProof p) = Some True"
    using verifyAccountHead_ok [OF w] assms(6,7) by auto
  show ?thesis
    using verifyInclusion_sound [OF b(3) assms(3-5,9)] verifyInclusion_sound [OF h(4) assms(3-5,8)] t b h by simp
qed

lemma mint_sound:
  assumes "verifyMintProof C p token policy = Some v" "v_ok v"
    and "hex_codec C" "hash_length C" "length ls \<le> 2147483648"
    and "b_accumulatorRoot (mp_head p) = acc_rootHex C ls" "b_index (mp_head p) + 1 = int (length ls)"
    and "inj_on (c_sha256 C) (check_inputs C ls (b_hash (mp_mint p)) (b_index (mp_mint p)) (mp_mintProof p))"
  shows "c_fromHex C (b_hash (mp_mint p)) = Some (ls ! nat (b_index (mp_mint p)))
    \<and> verifyBlock C (mp_mint p) \<and> b_accountId (mp_mint p) = b_accountId (mp_head p)
    \<and> b_type (mp_mint p) = NftMint \<and> b_tokenId (mp_mint p) = Some token \<and> truthy (b_contentRef (mp_mint p))"
proof -
  have t: "b_type (mp_mint p) = NftMint" "b_tokenId (mp_mint p) = Some token" "truthy (b_contentRef (mp_mint p))"
    and ci: "verifyChainInclusion C (mp_open p) (mp_head p) (mp_openProof p) (mp_mint p) (mp_mintProof p) policy = Some v"
    using assms(1,2) by (auto simp: verifyMintProof_def fail_def Let_def split: if_splits)
  from verifyChainInclusion_ok [OF ci assms(2)] have
    b: "b_accountId (mp_mint p) = b_accountId (mp_head p)" "verifyBlock C (mp_mint p)"
      "verifyInclusion C (acc_rootHex C ls) (b_hash (mp_mint p)) (b_index (mp_mint p)) (int (length ls)) (mp_mintProof p) = Some True"
    using assms(6,7) by auto
  show ?thesis
    using verifyInclusion_sound [OF b(3) assms(3-5,8)] t b by simp
qed

end
