(* ===== verification/Owner_Chain.thy ===== *)
theory Owner_Chain
  imports Light_Verify "HOL-Library.Code_Target_Nat"
begin

text \<open>
  Chains as their owners write them: a genesis made by \<open>createBlock\<close> on an empty accumulator is a
  well-formed chain, and so is a chain extended by a linked block. From these two lemmas a
  two-block sample chain on the concrete instance of the primitives is built; the witnesses of the
  properties about chains use it.
\<close>

section \<open>Writing a chain\<close>

lemma created_root:
  assumes "createBlock C c priv acc = (Some b, acc')"
  shows "\<exists>leaf. c_fromHex C (b_hash b) = Some leaf \<and> acc' = acc @ [leaf] \<and> b_accumulatorRoot b = acc_rootHex C acc'"
  using createBlock_Some [OF assms] by auto

lemma created_content:
  assumes "createBlock C c priv acc = (Some b, acc')"
  shows "b_accountId b = b_accountId c" "b_index b = b_index c" "b_type b = b_type c"
    "b_previousHash b = b_previousHash c" "b_balance b = b_balance c" "b_recipient b = b_recipient c"
    "b_identityCommitment b = b_identityCommitment c" "b_attestations b = b_attestations c"
  using createBlock_Some [OF assms] by (auto; cases c; simp add: content.defs block.defs)+

lemma created_hash: "createBlock C c priv acc = (Some b, acc') \<Longrightarrow> b_hash b = computeContentHash C c"
  by (drule createBlock_Some) auto

lemma all_hex_append:
  "all_hex C hs = Some ls \<Longrightarrow> c_fromHex C h = Some l \<Longrightarrow> all_hex C (hs @ [h]) = Some (ls @ [l])"
  by (induction hs arbitrary: ls) (auto split: option.splits)

lemma created_genesis:
  assumes "createBlock C c priv [] = (Some b, acc')" "hex_codec C" "signing C"
    "publicKeyFromPrivate C priv = Some (b_accountId c)"
    "b_index c = 0" "b_type c = Open" "b_previousHash c = GENESIS_PREV"
  shows "valid_chain C [b] \<and> all_hex C (map b_hash [b]) = Some acc'"
proof -
  obtain leaf where leaf: "c_fromHex C (b_hash b) = Some leaf" "acc' = [leaf]" "b_accumulatorRoot b = acc_rootHex C acc'"
    using created_root [OF assms(1)] by auto
  with createBlock_verifies [OF assms(1-4)] created_content [OF assms(1)] assms(5-7) show ?thesis
    by (simp add: valid_chain_def)
qed

lemma created_extends:
  assumes "valid_chain C bs" "all_hex C (map b_hash bs) = Some acc" "createBlock C c priv acc = (Some b, acc')"
    "hex_codec C" "signing C" "publicKeyFromPrivate C priv = Some (b_accountId c)"
    "b_accountId c = b_accountId (hd bs)" "b_index c = int (length bs)" "b_previousHash c = b_hash (last bs)"
  shows "valid_chain C (bs @ [b]) \<and> all_hex C (map b_hash (bs @ [b])) = Some acc'"
proof -
  obtain leaf where leaf: "c_fromHex C (b_hash b) = Some leaf" "acc' = acc @ [leaf]" "b_accumulatorRoot b = acc_rootHex C acc'"
    using created_root [OF assms(3)] by auto
  have all: "all_hex C (map b_hash (bs @ [b])) = Some acc'"
    using all_hex_append [OF assms(2) leaf(1)] leaf(2) by simp
  from assms(1) obtain leaves where ne: "bs \<noteq> []" "b_type (hd bs) = Open" "b_previousHash (hd bs) = GENESIS_PREV"
    and len: "length acc = length bs"
    and nth: "\<And>i. i < length bs \<Longrightarrow> b_index (bs ! i) = int i \<and> b_accountId (bs ! i) = b_accountId (hd bs)
             \<and> verifyBlock C (bs ! i) \<and> b_accumulatorRoot (bs ! i) = acc_rootHex C (take (Suc i) acc)
             \<and> (0 < i \<longrightarrow> b_previousHash (bs ! i) = b_hash (bs ! (i - 1)))"
    using assms(2) by (elim valid_chainE) auto
  have new: "verifyBlock C b" "b_accountId b = b_accountId (hd bs)" "b_index b = int (length bs)"
      "b_previousHash b = b_hash (last bs)"
    using createBlock_verifies [OF assms(3-6)] created_content [OF assms(3)] assms(7-9) by simp_all
  have "b_index ((bs @ [b]) ! i) = int i \<and> b_accountId ((bs @ [b]) ! i) = b_accountId (hd (bs @ [b]))
      \<and> verifyBlock C ((bs @ [b]) ! i) \<and> b_accumulatorRoot ((bs @ [b]) ! i) = acc_rootHex C (take (Suc i) acc')
      \<and> (0 < i \<longrightarrow> b_previousHash ((bs @ [b]) ! i) = b_hash ((bs @ [b]) ! (i - 1)))"
    if "i < length (bs @ [b])" for i
  proof (cases "i < length bs")
    case True
    then have "i - 1 < length bs"
      by simp
    with True nth [OF True] ne len leaf(2) show ?thesis
      by (simp add: nth_append)
  next
    case False
    with that have "i = length bs"
      by simp
    with new ne len leaf show ?thesis
      by (simp add: nth_append last_conv_nth)
  qed
  with ne all show ?thesis
    by (simp add: valid_chain_def)
qed

section \<open>A sample chain\<close>

definition sample_priv :: hex where "sample_priv = [CHR 0x07]"
definition sample_pub :: hex where "sample_pub = [char_of (0::nat), CHR 0x07]"
definition sample_keys :: key_pair where "sample_keys = \<lparr>kp_pub = sample_pub, kp_priv = sample_priv\<rparr>"

definition sample_claim :: hex where "sample_claim = deriveCommitment demo_crypto ''n'' sample_pub"

definition sample_attestation :: typed_attestation where
  "sample_attestation = the (createAttestation demo_crypto ''personhood'' sample_claim sample_keys)"

definition sample_policy :: quorum_policy where
  "sample_policy = \<lparr>qp_min = 1, trustedAttesters = Some {sample_pub}, requiredTypes = Some [''personhood'']\<rparr>"

definition sample_open :: content where
  "sample_open = (blank_content sample_pub 0 Open GENESIS_PREV 0 1 MINT_AMOUNT)
     \<lparr>b_identityCommitment := Some sample_claim, b_attestations := Some [sample_attestation]\<rparr>"

definition sample_genesis :: block where
  "sample_genesis = the (fst (createBlock demo_crypto sample_open sample_priv []))"

definition sample_acc :: accumulator where
  "sample_acc = snd (createBlock demo_crypto sample_open sample_priv [])"

definition sample_send_content :: "int \<Rightarrow> content" where
  "sample_send_content amt = (blank_content sample_pub 1 Send (b_hash sample_genesis) 0 2 (MINT_AMOUNT - amt))
     \<lparr>b_recipient := Some ''bob'', b_amount := Some amt\<rparr>"

definition sample_send :: "int \<Rightarrow> block" where
  "sample_send amt = the (fst (createBlock demo_crypto (sample_send_content amt) sample_priv sample_acc))"

lemma sample_key: "publicKeyFromPrivate demo_crypto sample_priv = Some sample_pub"
  by (simp add: publicKeyFromPrivate_def demo_crypto_def sample_priv_def sample_pub_def)

text \<open>Nothing throws on this instance: every hex string decodes and every key signs.\<close>

lemma demo_total:
  "c_fromHex demo_crypto h = Some (map char_byte h)"
  "c_p256_sign demo_crypto d k = Some (k @ d)"
  by (simp_all add: demo_crypto_def)

lemma demo_create:
  "\<exists>b acc'. createBlock demo_crypto c priv acc = (Some b, acc')"
  by (simp add: createBlock_def acc_append_def toBytes_def sign_str_def sign_def Let_def demo_total)

lemma demo_attest:
  "\<exists>att. createAttestation demo_crypto ty claim k = Some att"
  by (simp add: createAttestation_def sign_str_def sign_def demo_total)

lemma sample_genesis_created: "createBlock demo_crypto sample_open sample_priv [] = (Some sample_genesis, sample_acc)"
  using demo_create [of sample_open sample_priv "[]"] by (auto simp: sample_genesis_def sample_acc_def)

lemma sample_send_created: "\<exists>acc'. createBlock demo_crypto (sample_send_content a) sample_priv sample_acc = (Some (sample_send a), acc')"
  using demo_create [of "sample_send_content a" sample_priv sample_acc] by (auto simp: sample_send_def)

lemma sample_open_fields: "b_accountId sample_open = sample_pub" "b_index sample_open = 0" "b_type sample_open = Open"
    "b_previousHash sample_open = GENESIS_PREV" "b_balance sample_open = MINT_AMOUNT"
  by (simp_all add: sample_open_def)

lemma sample_send_fields: "b_accountId (sample_send_content a) = sample_pub" "b_index (sample_send_content a) = 1"
    "b_type (sample_send_content a) = Send" "b_previousHash (sample_send_content a) = b_hash sample_genesis"
    "b_recipient (sample_send_content a) = Some ''bob''" "b_balance (sample_send_content a) = MINT_AMOUNT - a"
    "b_amount (sample_send_content a) = Some a"
  by (simp_all add: sample_send_content_def)

lemma sample_genesis_chain:
  "valid_chain demo_crypto [sample_genesis] \<and> all_hex demo_crypto (map b_hash [sample_genesis]) = Some sample_acc"
  using created_genesis [OF sample_genesis_created demo_hex_codec demo_signing]
  by (simp add: sample_open_fields sample_key)

lemma sample_genesis_fields: "b_accountId sample_genesis = sample_pub" "b_index sample_genesis = 0"
    "b_type sample_genesis = Open" "b_previousHash sample_genesis = GENESIS_PREV" "b_balance sample_genesis = MINT_AMOUNT"
  using created_content [OF sample_genesis_created] by (simp_all add: sample_open_fields)

lemma sample_chain: "valid_chain demo_crypto [sample_genesis, sample_send a]"
proof -
  obtain acc' where "createBlock demo_crypto (sample_send_content a) sample_priv sample_acc = (Some (sample_send a), acc')"
    using sample_send_created by blast
  from created_extends [OF conjunct1 [OF sample_genesis_chain] conjunct2 [OF sample_genesis_chain] this
      demo_hex_codec demo_signing] show ?thesis
    by (simp add: sample_send_fields sample_key sample_genesis_fields)
qed

lemma sample_block_fields: "b_accountId (sample_send a) = sample_pub" "b_index (sample_send a) = 1"
    "b_type (sample_send a) = Send" "b_previousHash (sample_send a) = b_hash sample_genesis"
    "b_recipient (sample_send a) = Some ''bob''" "b_balance (sample_send a) = MINT_AMOUNT - a"
proof -
  obtain acc' where cr: "createBlock demo_crypto (sample_send_content a) sample_priv sample_acc = (Some (sample_send a), acc')"
    using sample_send_created by blast
  note f = created_content [OF cr]
  show "b_accountId (sample_send a) = sample_pub" "b_index (sample_send a) = 1"
    "b_type (sample_send a) = Send" "b_previousHash (sample_send a) = b_hash sample_genesis"
    "b_recipient (sample_send a) = Some ''bob''" "b_balance (sample_send a) = MINT_AMOUNT - a"
    using f by (simp_all add: sample_send_fields)
qed

lemma sample_send_verifies: "verifyBlock demo_crypto (sample_send a)"
proof -
  have "\<forall>i < 2. verifyBlock demo_crypto ([sample_genesis, sample_send a] ! i)"
    using sample_chain [of a] by (auto simp: valid_chain_def numeral_2_eq_2 split: option.splits)
  from this [rule_format, of 1] show ?thesis by simp
qed

lemma sample_identity: "identity_ok demo_crypto sample_genesis sample_policy"
proof -
  obtain att where att: "createAttestation demo_crypto ''personhood'' sample_claim sample_keys = Some att"
    using demo_attest by blast
  have keys: "publicKeyFromPrivate demo_crypto (kp_priv sample_keys) = Some (kp_pub sample_keys)"
    by (simp add: sample_keys_def sample_key)
  have sa: "sample_attestation = att"
    by (simp add: sample_attestation_def att)
  note v = createAttestation_verifies [OF demo_hex_codec demo_signing keys att]
  have cnt: "counts demo_crypto sample_claim sample_policy sample_attestation"
    using v sa by (simp add: counts_def sample_policy_def sample_keys_def)
  then have va: "valid_attesters demo_crypto sample_claim sample_policy [sample_attestation] = {sample_pub}"
    using v sa by (auto simp: valid_attesters_def sample_keys_def)
  have "''personhood'' \<in> credited_types demo_crypto sample_claim sample_policy [sample_attestation]"
    using cnt v(3) sa unfolding credited_types_def by force
  with va have "qr_ok (checkQuorum demo_crypto [sample_attestation] sample_claim sample_policy)"
    by (simp add: checkQuorum_ok) (simp add: sample_policy_def)
  moreover have "sample_claim \<noteq> []"
    by (simp add: sample_claim_def deriveCommitment_def hashHex_def hash_bytes_def demo_crypto_def demo_digest_def
        split: prod.split)
  moreover have "b_identityCommitment sample_genesis = Some sample_claim"
      "b_attestations sample_genesis = Some [sample_attestation]"
    using created_content [OF sample_genesis_created] by (simp_all add: sample_open_def)
  ultimately show ?thesis
    by (simp add: identity_ok_def)
qed

section \<open>The sample evaluated\<close>

definition demo_hash :: "char \<Rightarrow> char \<Rightarrow> char \<Rightarrow> char \<Rightarrow> hex" where
  "demo_hash a b c d = [a, b, c, d] @ replicate 28 (CHR 0x00)"

lemma sample_claim_value: "sample_claim = demo_hash (CHR 0x2C) (CHR 0x04) (CHR 0xF4) (CHR 0x1E)"
  by code_simp

lemma sample_attestation_value: "sample_attestation = \<lparr>attesterPub = sample_pub, att_type = ''personhood'',
    claimHash = sample_claim, att_sig = CHR 0x07 # demo_hash (CHR 0x54) (CHR 0x08) (CHR 0xFD) (CHR 0x59)\<rparr>"
  by code_simp

lemma sample_genesis_hash: "b_hash sample_genesis = demo_hash (CHR 0x3B) (CHR 0xE8) (CHR 0xDD) (CHR 0xA6)"
proof -
  have "b_hash sample_genesis = computeContentHash demo_crypto ((blank_content sample_pub 0 Open GENESIS_PREV 0 1 MINT_AMOUNT)
     \<lparr>b_identityCommitment := Some (demo_hash (CHR 0x2C) (CHR 0x04) (CHR 0xF4) (CHR 0x1E)),
       b_attestations := Some [\<lparr>attesterPub = sample_pub, att_type = ''personhood'',
         claimHash = demo_hash (CHR 0x2C) (CHR 0x04) (CHR 0xF4) (CHR 0x1E),
         att_sig = CHR 0x07 # demo_hash (CHR 0x54) (CHR 0x08) (CHR 0xFD) (CHR 0x59)\<rparr>]\<rparr>)"
    using created_hash [OF sample_genesis_created]
    by (simp add: sample_open_def sample_attestation_value sample_claim_value)
  also have "\<dots> = demo_hash (CHR 0x3B) (CHR 0xE8) (CHR 0xDD) (CHR 0xA6)"
    by code_simp
  finally show ?thesis .
qed

lemma sample_send_content_hash: "b_hash (sample_send a) = computeContentHash demo_crypto ((blank_content sample_pub 1 Send
      (demo_hash (CHR 0x3B) (CHR 0xE8) (CHR 0xDD) (CHR 0xA6)) 0 2 (MINT_AMOUNT - a))
        \<lparr>b_recipient := Some ''bob'', b_amount := Some a\<rparr>)"
proof -
  obtain acc' where cr: "createBlock demo_crypto (sample_send_content a) sample_priv sample_acc = (Some (sample_send a), acc')"
    using sample_send_created by blast
  then show ?thesis
    using created_hash [OF cr] by (simp add: sample_send_content_def sample_genesis_hash)
qed

lemma sample_send_hash: "b_hash (sample_send 5) = demo_hash (CHR 0xB4) (CHR 0x5B) (CHR 0x24) (CHR 0x9A)"
  unfolding sample_send_content_hash by code_simp

lemma sample_sends_differ: "b_hash (sample_send 5) \<noteq> b_hash (sample_send 6)"
  unfolding sample_send_content_hash by code_simp

lemma sample_hashes_differ: "b_hash sample_genesis \<noteq> b_hash (sample_send 5)"
  by (simp add: sample_genesis_hash sample_send_hash demo_hash_def)

end
