(* ===== verification/Fraud.thy ===== *)
theory Fraud
  imports Light_Verify
begin

text \<open>
  Double-spend evidence, \<open>src/engine/consensus/fraud.ts\<close>: two signed blocks of one account at
  the same height. An honest account, whose blocks form a chain, cannot be accused with two of
  its own blocks.
\<close>

record evidence =
  ev_accountId :: hex
  ev_index :: int
  ev_previousHash :: hex
  ev_a :: block
  ev_b :: block

definition proveDoubleSpend :: "block \<Rightarrow> block \<Rightarrow> evidence option" where
  "proveDoubleSpend a b =
     (if b_accountId a \<noteq> b_accountId b then None
      else if b_hash a = b_hash b then None
      else if b_index a \<noteq> b_index b \<or> b_previousHash a \<noteq> b_previousHash b then None
      else Some \<lparr>ev_accountId = b_accountId a, ev_index = b_index a, ev_previousHash = b_previousHash a,
        ev_a = a, ev_b = b\<rparr>)"

definition verifyDoubleSpend :: "crypto \<Rightarrow> evidence \<Rightarrow> bool" where
  "verifyDoubleSpend C ev =
     (b_accountId (ev_a ev) = b_accountId (ev_b ev) \<and> b_hash (ev_a ev) \<noteq> b_hash (ev_b ev)
      \<and> b_index (ev_a ev) = b_index (ev_b ev) \<and> b_previousHash (ev_a ev) = b_previousHash (ev_b ev)
      \<and> verifyBlock C (ev_a ev) \<and> verifyBlock C (ev_b ev))"

lemma evidence_verifies:
  "proveDoubleSpend a b = Some ev \<Longrightarrow> verifyDoubleSpend C ev \<longleftrightarrow> verifyBlock C a \<and> verifyBlock C b"
  by (auto simp: proveDoubleSpend_def verifyDoubleSpend_def split: if_splits)

text \<open>Valid evidence exhibits two signatures of the account over two different contents.\<close>

lemma evidence_incriminates:
  assumes "verifyDoubleSpend C ev"
  shows "verifyBlockSignature C (ev_a ev) \<and> verifyBlockSignature C (ev_b ev)
    \<and> b_accountId (ev_a ev) = b_accountId (ev_b ev)
    \<and> canonicalContent (ev_a ev) \<noteq> canonicalContent (ev_b ev)"
  using assms by (auto simp: verifyDoubleSpend_def verifyBlock_def computeContentHash_def split: if_splits)

lemma honest_chain_no_evidence:
  assumes "valid_chain C bs" "a \<in> set bs" "b \<in> set bs"
  shows "proveDoubleSpend a b = None"
proof (rule ccontr)
  assume "proveDoubleSpend a b \<noteq> None"
  then have c: "b_hash a \<noteq> b_hash b" "b_index a = b_index b"
    by (auto simp: proveDoubleSpend_def split: if_splits)
  obtain i j where ij: "i < length bs" "j < length bs" "a = bs ! i" "b = bs ! j"
    using assms(2,3) by (auto simp: in_set_conv_nth)
  have "b_index (bs ! i) = int i" "b_index (bs ! j) = int j"
    using assms(1) ij(1,2) by (auto elim!: valid_chainE)
  with ij c show False
    by simp
qed

end
