(* ===== verification/Sub_Accounts.thy ===== *)
theory Sub_Accounts
  imports Neuron_Prelude
begin

text \<open>
  Sub-accounts, \<open>src/engine/core/sub-accounts.ts\<close>: the registry of delegations, the collapse of
  a key to its human, and the two-level namespace. The invariant says that the two maps of the
  registry agree and that the delegation graph has depth one; it holds in every state that the
  operations can reach.
\<close>

datatype sub_kind = Device | Domain

record delegation =
  d_parent :: string
  d_child :: string
  d_kind :: sub_kind
  d_issuedAt :: int
  d_expiresAt :: "int option"

record sub_registry =
  parentOf :: "(string, delegation) jsmap"
  childrenOf :: "string \<Rightarrow> string list option"

definition sub_empty :: sub_registry where
  "sub_empty = \<lparr>parentOf = [], childrenOf = (\<lambda>_. None)\<rparr>"

definition expired :: "delegation \<Rightarrow> int \<Rightarrow> bool" where
  "expired d now = (case d_expiresAt d of None \<Rightarrow> False | Some t \<Rightarrow> t \<le> now)"

definition has_children :: "sub_registry \<Rightarrow> string \<Rightarrow> bool" where
  "has_children s p = (case childrenOf s p of None \<Rightarrow> False | Some cs \<Rightarrow> cs \<noteq> [])"

text \<open>\<open>register\<close>: the reason of a refusal, or \<open>None\<close>.\<close>

definition register :: "delegation \<Rightarrow> (delegation \<Rightarrow> bool) \<Rightarrow> int \<Rightarrow> sub_registry \<Rightarrow> string option \<times> sub_registry" where
  "register d verify now s =
     (if d_parent d = d_child d then (Some ''a key cannot delegate to itself'', s)
      else if \<not> verify d then (Some ''delegation is not signed by the parent'', s)
      else if expired d now then (Some ''delegation is already expired'', s)
      else if mhas (parentOf s) (d_parent d) then (Some ''a sub-account may not issue sub-accounts'', s)
      else if (case mget (parentOf s) (d_child d) of None \<Rightarrow> False | Some e \<Rightarrow> d_parent e \<noteq> d_parent d)
      then (Some ''child is already delegated to a different parent'', s)
      else if has_children s (d_child d) then (Some ''a parent may not become a sub-account'', s)
      else (None, s\<lparr>parentOf := mset_at (d_child d) d (parentOf s),
                  childrenOf := (childrenOf s)(d_parent d \<mapsto> sadd (d_child d) (nvl (childrenOf s (d_parent d)) []))\<rparr>))"

definition revoke :: "string \<Rightarrow> sub_registry \<Rightarrow> bool \<times> sub_registry" where
  "revoke child s = (case mget (parentOf s) child of
     None \<Rightarrow> (False, s)
   | Some d \<Rightarrow>
       (let cs = map_option (sdel child) (childrenOf s (d_parent d)) in
        (True, s\<lparr>parentOf := mdel child (parentOf s),
                childrenOf := (childrenOf s)(d_parent d := (if cs = Some [] then None else cs))\<rparr>)))"

definition rootOf :: "sub_registry \<Rightarrow> string \<Rightarrow> int \<Rightarrow> string" where
  "rootOf s key now = (case mget (parentOf s) key of
     None \<Rightarrow> key
   | Some d \<Rightarrow> if expired d now then key else d_parent d)"

definition isSubAccount :: "sub_registry \<Rightarrow> string \<Rightarrow> int \<Rightarrow> bool" where
  "isSubAccount s key now = (rootOf s key now \<noteq> key)"

definition children :: "sub_registry \<Rightarrow> string \<Rightarrow> string list" where
  "children s p = nvl (childrenOf s p) []"

definition distinctHumans :: "sub_registry \<Rightarrow> string list \<Rightarrow> int \<Rightarrow> int" where
  "distinctHumans s ids now = int (length (foldl (\<lambda>roots key. sadd (rootOf s key now) roots) [] ids))"

definition budgetOwner :: "sub_registry \<Rightarrow> string \<Rightarrow> int \<Rightarrow> string" where
  "budgetOwner s key now = rootOf s key now"

definition consensusWeightFactor :: "sub_registry \<Rightarrow> string \<Rightarrow> int \<Rightarrow> int" where
  "consensusWeightFactor s key now = (if isSubAccount s key now then 0 else 1)"

definition sub_size :: "sub_registry \<Rightarrow> int" where
  "sub_size s = int (length (parentOf s))"

fun sweep_entries :: "(string \<times> delegation) list \<Rightarrow> int \<Rightarrow> int \<times> sub_registry \<Rightarrow> int \<times> sub_registry" where
  "sweep_entries [] now st = st"
| "sweep_entries ((child, d) # es) now (n, s) =
     (if expired d now then sweep_entries es now (n + 1, snd (revoke child s)) else sweep_entries es now (n, s))"

definition sub_sweep :: "int \<Rightarrow> sub_registry \<Rightarrow> int \<times> sub_registry" where
  "sub_sweep now s = sweep_entries (parentOf s) now (0, s)"

definition remainingBudget :: "int \<Rightarrow> int \<Rightarrow> int" where
  "remainingBudget perHumanBudget spentByRoot = max 0 (perHumanBudget - spentByRoot)"

section \<open>Names\<close>

definition MAX_LABEL_LENGTH :: nat where "MAX_LABEL_LENGTH = 32"
definition MAX_ROOT_LENGTH :: nat where "MAX_ROOT_LENGTH = 32"

definition is_alnum :: "char \<Rightarrow> bool" where
  "is_alnum c = (let n = (of_char c :: nat) in (97 \<le> n \<and> n \<le> 122) \<or> (48 \<le> n \<and> n \<le> 57))"

text \<open>\<open>/^[a-z0-9]([a-z0-9-]*[a-z0-9])?$/\<close>.\<close>

definition NAME_RE :: "string \<Rightarrow> bool" where
  "NAME_RE s = (s \<noteq> [] \<and> is_alnum (hd s) \<and> is_alnum (last s) \<and> list_all (\<lambda>c. is_alnum c \<or> c = CHR ''-'') s)"

definition isValidRootName :: "string \<Rightarrow> bool" where
  "isValidRootName name =
     (if length name = 0 \<or> length name > MAX_ROOT_LENGTH then False
      else if CHR ''.'' \<in> set name then False
      else NAME_RE name)"

definition isValidLabel :: "string \<Rightarrow> bool" where
  "isValidLabel label = (if length label = 0 \<or> length label > MAX_LABEL_LENGTH then False else NAME_RE label)"

definition subAccountName :: "string \<Rightarrow> string \<Rightarrow> string option" where
  "subAccountName rootName label =
     (if \<not> isValidRootName rootName \<or> \<not> isValidLabel label then None else Some (rootName @ ''.'' @ label))"

record parsed_name =
  pn_root :: string
  pn_label :: "string option"

definition parseName :: "string \<Rightarrow> parsed_name option" where
  "parseName name = (case split_on (CHR ''.'') name of
     [r] \<Rightarrow> if isValidRootName r then Some \<lparr>pn_root = r, pn_label = None\<rparr> else None
   | [r, l] \<Rightarrow> if \<not> isValidRootName r \<or> \<not> isValidLabel l then None else Some \<lparr>pn_root = r, pn_label = Some l\<rparr>
   | _ \<Rightarrow> None)"

definition isUnderRoot :: "string \<Rightarrow> string \<Rightarrow> bool" where
  "isUnderRoot name rootName = (case parseName name of
     None \<Rightarrow> False | Some p \<Rightarrow> pn_root p = rootName \<and> pn_label p \<noteq> None)"

lemma valid_label_no_dot: "isValidLabel l \<Longrightarrow> CHR ''.'' \<notin> set l"
  by (auto simp: isValidLabel_def NAME_RE_def list_all_iff is_alnum_def split: if_splits)

lemma valid_root_no_dot: "isValidRootName r \<Longrightarrow> CHR ''.'' \<notin> set r"
  by (auto simp: isValidRootName_def split: if_splits)

lemma valid_root_nonempty: "isValidRootName r \<Longrightarrow> r \<noteq> []" "isValidLabel r \<Longrightarrow> r \<noteq> []"
  by (auto simp: isValidRootName_def isValidLabel_def)

lemma parse_sub_name:
  "parseName n = Some \<lparr>pn_root = r, pn_label = Some l\<rparr> \<longleftrightarrow> subAccountName r l = Some n"
proof
  assume "parseName n = Some \<lparr>pn_root = r, pn_label = Some l\<rparr>"
  then have "split_on (CHR ''.'') n = [r, l]" "isValidRootName r" "isValidLabel l"
    by (auto simp: parseName_def split: list.splits if_splits)
  then show "subAccountName r l = Some n"
    by (auto simp: subAccountName_def dest: split_on_pair)
next
  assume "subAccountName r l = Some n"
  then have v: "isValidRootName r" "isValidLabel l" and n: "n = r @ CHR ''.'' # l"
    by (auto simp: subAccountName_def split: if_splits)
  then have "split_on (CHR ''.'') n = [r, l]"
    by (simp add: split_on_append split_on_none valid_label_no_dot valid_root_no_dot)
  with v show "parseName n = Some \<lparr>pn_root = r, pn_label = Some l\<rparr>"
    by (simp add: parseName_def)
qed

lemma parse_root_name:
  "parseName n = Some \<lparr>pn_root = r, pn_label = None\<rparr> \<longleftrightarrow> n = r \<and> isValidRootName r"
proof
  assume "parseName n = Some \<lparr>pn_root = r, pn_label = None\<rparr>"
  then have "split_on (CHR ''.'') n = [r]" "isValidRootName r"
    by (auto simp: parseName_def split: list.splits if_splits)
  then show "n = r \<and> isValidRootName r"
    by (auto dest: split_on_single)
next
  assume "n = r \<and> isValidRootName r"
  then show "parseName n = Some \<lparr>pn_root = r, pn_label = None\<rparr>"
    by (auto simp: parseName_def split_on_none valid_root_no_dot)
qed

text \<open>
  The two namespaces do not overlap, and every name that resolves has one reading: the one it
  was built from.
\<close>

lemma names_unambiguous:
  "subAccountName r l = Some n \<Longrightarrow> \<not> isValidRootName n \<and> (subAccountName r' l' = Some n \<longrightarrow> r' = r \<and> l' = l)
     \<and> (isUnderRoot n r' \<longleftrightarrow> r' = r)"
proof -
  assume a: "subAccountName r l = Some n"
  then have p: "parseName n = Some \<lparr>pn_root = r, pn_label = Some l\<rparr>"
    by (simp add: parse_sub_name)
  moreover have "\<not> isValidRootName n"
    using a valid_root_no_dot [of n] by (auto simp: subAccountName_def split: if_splits)
  ultimately show ?thesis
    by (auto simp: isUnderRoot_def parse_sub_name [symmetric])
qed

section \<open>The invariant\<close>

definition sub_inv :: "sub_registry \<Rightarrow> bool" where
  "sub_inv s \<longleftrightarrow> wf_map (parentOf s)
     \<and> (\<forall>c d. mget (parentOf s) c = Some d \<longrightarrow> d_child d = c \<and> mget (parentOf s) (d_parent d) = None)
     \<and> (\<forall>p c. c \<in> set (children s p) \<longleftrightarrow> (\<exists>d. mget (parentOf s) c = Some d \<and> d_parent d = p))
     \<and> (\<forall>p. childrenOf s p \<noteq> Some [])"

lemma sub_invD:
  assumes "sub_inv s"
  shows "wf_map (parentOf s)" "mget (parentOf s) c = Some d \<Longrightarrow> d_child d = c"
    "mget (parentOf s) c = Some d \<Longrightarrow> mget (parentOf s) (d_parent d) = None"
    "c \<in> set (children s p) \<longleftrightarrow> (\<exists>d. mget (parentOf s) c = Some d \<and> d_parent d = p)"
    "childrenOf s p \<noteq> Some []"
  using assms unfolding sub_inv_def by blast+

lemma sub_inv_empty: "sub_inv sub_empty"
  by (simp add: sub_inv_def sub_empty_def children_def)

lemma has_children_iff: "sub_inv s \<Longrightarrow> has_children s p \<longleftrightarrow> children s p \<noteq> []"
  by (auto simp: has_children_def children_def split: option.splits)

lemma sub_inv_register:
  assumes "sub_inv s"
  shows "sub_inv (snd (register d verify now s))"
proof (cases "fst (register d verify now s)")
  case (Some e)
  then have "snd (register d verify now s) = s"
    by (auto simp: register_def split: if_splits option.splits)
  with assms show ?thesis by simp
next
  case None
  note I = sub_invD [OF assms]
  from None have g: "d_parent d \<noteq> d_child d" "mget (parentOf s) (d_parent d) = None"
    "\<And>e. mget (parentOf s) (d_child d) = Some e \<Longrightarrow> d_parent e = d_parent d"
    "\<not> has_children s (d_child d)"
    and eq: "parentOf (snd (register d verify now s)) = mset_at (d_child d) d (parentOf s)"
      "childrenOf (snd (register d verify now s))
        = (childrenOf s)(d_parent d \<mapsto> sadd (d_child d) (children s (d_parent d)))"
    by (auto simp: register_def mhas_def children_def split: if_splits option.splits)
  let ?s = "snd (register d verify now s)"
  have nochild: "d_parent e \<noteq> d_child d" if "mget (parentOf s) c = Some e" for c e
    using g(4) that I(4) [of c "d_child d"] has_children_iff [OF assms, of "d_child d"] by auto
  have ch: "set (children ?s p) = (if p = d_parent d then insert (d_child d) (set (children s p)) else set (children s p))" for p
    by (simp add: children_def eq)
  show ?thesis
    unfolding sub_inv_def
  proof (intro conjI allI impI)
    fix p c
    show "c \<in> set (children ?s p) \<longleftrightarrow> (\<exists>da. mget (parentOf ?s) c = Some da \<and> d_parent da = p)"
    proof (cases "c = d_child d")
      case True
      have "c \<notin> set (children s p)" if "p \<noteq> d_parent d"
      proof
        assume "c \<in> set (children s p)"
        then obtain e where "mget (parentOf s) c = Some e" "d_parent e = p"
          using I(4) [of c p] by blast
        with g(3) that True show False by blast
      qed
      with True show ?thesis
        by (auto simp: ch eq)
    next
      case False
      then show ?thesis
        using I(4) [of c p] by (cases "p = d_parent d") (simp_all add: ch eq)
    qed
  next
    fix c e
    assume m: "mget (parentOf ?s) c = Some e"
    show "d_child e = c"
      using m I(2) [of c e] by (auto simp: eq split: if_splits)
    show "mget (parentOf ?s) (d_parent e) = None"
      using m g(1,2) nochild [of c e] I(3) [of c e] by (auto simp: eq split: if_splits)
  next
    show "childrenOf ?s p \<noteq> Some []" for p
      using I(5) [of p] by (auto simp: eq sadd_def)
  qed (simp add: eq I(1))
qed

lemma sub_inv_revoke:
  assumes "sub_inv s"
  shows "sub_inv (snd (revoke child s))"
proof (cases "mget (parentOf s) child")
  case None
  with assms show ?thesis by (simp add: revoke_def)
next
  case (Some d)
  note I = sub_invD [OF assms]
  have "child \<in> set (children s (d_parent d))"
    using Some I(4) by auto
  then obtain cs where cs: "childrenOf s (d_parent d) = Some cs" "child \<in> set cs"
    by (cases "childrenOf s (d_parent d)") (simp_all add: children_def)
  let ?s = "snd (revoke child s)"
  have eq: "parentOf ?s = mdel child (parentOf s)"
    "childrenOf ?s = (childrenOf s)(d_parent d := (if sdel child cs = [] then None else Some (sdel child cs)))"
    by (simp_all add: revoke_def Some cs Let_def)
  have ch: "set (children ?s p) = set (children s p) - {child}" for p
  proof (cases "p = d_parent d")
    case True
    then show ?thesis
      using cs(1) sdel_simps(1) [of child cs] by (cases "sdel child cs = []") (auto simp: children_def eq simp del: sdel_simps)
  next
    case False
    then have "child \<notin> set (children s p)"
      using I(4) Some by auto
    with False show ?thesis
      by (simp add: children_def eq)
  qed
  show ?thesis
    unfolding sub_inv_def
  proof (intro conjI allI impI)
    show "c \<in> set (children ?s p) \<longleftrightarrow> (\<exists>da. mget (parentOf ?s) c = Some da \<and> d_parent da = p)" for p c
      using I(4) [of c p] by (auto simp: ch eq)
  qed (use I in \<open>auto simp: eq split: if_splits\<close>)
qed

lemma sub_inv_sweep_entries: "sub_inv (snd st) \<Longrightarrow> sub_inv (snd (sweep_entries es now st))"
  by (induction es now st rule: sweep_entries.induct) (auto simp: sub_inv_revoke)

lemma sub_inv_sweep: "sub_inv s \<Longrightarrow> sub_inv (snd (sub_sweep now s))"
  by (simp add: sub_sweep_def sub_inv_sweep_entries)

text \<open>The states a registry can reach.\<close>

inductive sub_reach :: "sub_registry \<Rightarrow> bool" where
  sub_start: "sub_reach sub_empty"
| sub_register: "sub_reach s \<Longrightarrow> sub_reach (snd (register d verify now s))"
| sub_revoke: "sub_reach s \<Longrightarrow> sub_reach (snd (revoke c s))"
| sub_sweep_step: "sub_reach s \<Longrightarrow> sub_reach (snd (sub_sweep now s))"

lemma sub_reach_inv: "sub_reach s \<Longrightarrow> sub_inv s"
  by (induction rule: sub_reach.induct)
    (auto intro: sub_inv_empty sub_inv_register sub_inv_revoke sub_inv_sweep)

section \<open>The collapse to a human\<close>

lemma rootOf_root: "sub_inv s \<Longrightarrow> rootOf s (rootOf s key now) t = rootOf s key now \<or> rootOf s key now = key"
  using sub_invD(3) [of s key] by (auto simp: rootOf_def split: option.splits)

lemma rootOf_idem: "sub_inv s \<Longrightarrow> rootOf s (rootOf s key now) now = rootOf s key now"
  using rootOf_root [of s key now now] by auto

lemma distinctHumans_card: "distinctHumans s ids now = int (card ((\<lambda>key. rootOf s key now) ` set ids))"
proof -
  have "distinct (foldl (\<lambda>roots key. sadd (rootOf s key now) roots) acc ids)
      \<and> set (foldl (\<lambda>roots key. sadd (rootOf s key now) roots) acc ids) = set acc \<union> (\<lambda>key. rootOf s key now) ` set ids"
    if "distinct acc" for acc
    using that by (induction ids arbitrary: acc) auto
  from this [of "[]"] show ?thesis
    by (simp add: distinctHumans_def distinct_card [symmetric])
qed

text \<open>Any number of a person's own keys counts as that person.\<close>

lemma distinctHumans_own_keys:
  assumes "sub_inv s" "\<And>c. c \<in> set cs \<Longrightarrow> c \<in> set (children s p) \<and> \<not> expired (the (mget (parentOf s) c)) now"
    "cs \<noteq> []"
  shows "distinctHumans s (p # cs) now = 1"
proof -
  have "rootOf s c now = p" if "c \<in> set cs" for c
    using assms(2) [OF that] sub_invD(4) [OF assms(1), of c p] by (auto simp: rootOf_def)
  moreover have "rootOf s p now = p"
  proof -
    obtain c where "c \<in> set cs"
      using assms(3) by (cases cs) auto
    then obtain d where "mget (parentOf s) c = Some d" "d_parent d = p"
      using assms(2) sub_invD(4) [OF assms(1), of c p] by auto
    then show ?thesis
      using sub_invD(3) [OF assms(1), of c d] by (simp add: rootOf_def)
  qed
  ultimately have "(\<lambda>key. rootOf s key now) ` set (p # cs) = {p}"
    by auto
  then show ?thesis
    by (simp only: distinctHumans_card) simp
qed

text \<open>A sub-account has no weight, and no sub-account issues sub-accounts.\<close>

lemma sub_account_powerless:
  assumes "sub_inv s" "isSubAccount s key now"
  shows "consensusWeightFactor s key now = 0" "children s key = []"
    "fst (register d verify t s) = None \<Longrightarrow> d_parent d \<noteq> key"
proof -
  obtain e where e: "mget (parentOf s) key = Some e"
    using assms(2) by (auto simp: isSubAccount_def rootOf_def split: option.splits)
  show "consensusWeightFactor s key now = 0"
    using assms(2) by (simp add: consensusWeightFactor_def)
  show "children s key = []"
    using sub_invD(3,4) [OF assms(1)] e by (metis last_in_set option.distinct(1))
  show "fst (register d verify t s) = None \<Longrightarrow> d_parent d \<noteq> key"
    using e by (auto simp: register_def mhas_def split: if_splits)
qed

text \<open>A sweep removes exactly the expired delegations.\<close>

lemma revoke_get: "mget (parentOf (snd (revoke c s))) = (mget (parentOf s))(c := None)"
  by (auto simp: revoke_def Let_def split: option.split)

lemma sweep_entries_get:
  "mget (parentOf (snd (sweep_entries es now st))) k =
     (if \<exists>d. (k, d) \<in> set es \<and> expired d now then None else mget (parentOf (snd st)) k)"
  by (induction es now st rule: sweep_entries.induct) (auto simp: revoke_get)

lemma sub_sweep_get:
  assumes "sub_inv s"
  shows "mget (parentOf (snd (sub_sweep now s))) k =
    (case mget (parentOf s) k of None \<Rightarrow> None | Some d \<Rightarrow> if expired d now then None else Some d)"
proof -
  have "(k, d) \<in> set (parentOf s) \<longleftrightarrow> mget (parentOf s) k = Some d" for d
    using mget_in [OF sub_invD(1) [OF assms]] by blast
  then show ?thesis
    by (simp add: sub_sweep_def sweep_entries_get split: option.split)
qed

end
