(* ===== verification/Account_Store.thy ===== *)
theory Account_Store
  imports Light_Verify
begin

text \<open>
  The per-node account store and what is built on it: \<open>src/engine/node/account-store.ts\<close>,
  \<open>delta-sync.ts\<close> and \<open>snapshot.ts\<close>. The contract of an append-only store of account
  chains is the locale \<open>chain_store\<close>: histories only grow, and shipping the tail of a longer
  copy brings a node level with it. \<open>AccountStore\<close> interprets it. One path falls outside the
  contract and is stated separately: a genesis block with a wrong accumulator root is refused but
  leaves an empty entry behind.
\<close>

record held =
  h_blocks :: "block list"
  h_acc :: accumulator

type_synonym account_store = "(hex, held) jsmap"

record apply_result =
  ar_ok :: bool
  ar_reason :: "string option"

definition accept :: apply_result where
  "accept = \<lparr>ar_ok = True, ar_reason = None\<rparr>"

definition refuse :: "string \<Rightarrow> apply_result" where
  "refuse r = \<lparr>ar_ok = False, ar_reason = Some r\<rparr>"

lemma result_simps [simp]: "ar_ok accept" "\<not> ar_ok (refuse r)"
  by (simp_all add: accept_def refuse_def)

definition hasAccount :: "account_store \<Rightarrow> hex \<Rightarrow> bool" where
  "hasAccount st a = mhas st a"

definition accountCount :: "account_store \<Rightarrow> int" where
  "accountCount st = int (length st)"

definition blockCount :: "account_store \<Rightarrow> int" where
  "blockCount st = foldl (\<lambda>n h. n + int (length (h_blocks h))) 0 (mvals st)"

definition store_head :: "account_store \<Rightarrow> hex \<Rightarrow> block option" where
  "store_head st a = (case mget st a of None \<Rightarrow> None | Some h \<Rightarrow> last_opt (h_blocks h))"

definition chain :: "account_store \<Rightarrow> hex \<Rightarrow> block list" where
  "chain st a = (case mget st a of None \<Rightarrow> [] | Some h \<Rightarrow> h_blocks h)"

definition accountIds :: "account_store \<Rightarrow> hex list" where
  "accountIds st = mkeys st"

text \<open>The inner option is the \<open>null\<close> of an unknown account, the outer one a throw.\<close>

definition headProof :: "crypto \<Rightarrow> account_store \<Rightarrow> hex \<Rightarrow> head_proof option option" where
  "headProof C st a = (case mget st a of
     None \<Rightarrow> Some None
   | Some h \<Rightarrow> if h_blocks h = [] then Some None
       else (case proofHex C (h_acc h) 0 of
           None \<Rightarrow> None
         | Some p \<Rightarrow> Some (Some \<lparr>hp_open = hd (h_blocks h), hp_head = last (h_blocks h), hp_openProof = p\<rparr>)))"

definition store_commit :: "crypto \<Rightarrow> held \<Rightarrow> block \<Rightarrow> account_store \<Rightarrow> (apply_result \<times> account_store) option" where
  "store_commit C h b st = (case rootWithHex C (b_hash b) (h_acc h) of
     None \<Rightarrow> None
   | Some r \<Rightarrow>
       if r \<noteq> b_accumulatorRoot b then Some (refuse ''accumulator root mismatch'', st)
       else (case acc_append C (b_hash b) (h_acc h) of
           None \<Rightarrow> None
         | Some acc' \<Rightarrow> Some (accept, mset_at (b_accountId b) \<lparr>h_blocks = h_blocks h @ [b], h_acc = acc'\<rparr> st)))"

text \<open>The empty entry is stored before the root is checked.\<close>

definition applyGenesis :: "crypto \<Rightarrow> block \<Rightarrow> account_store \<Rightarrow> (apply_result \<times> account_store) option" where
  "applyGenesis C b st =
     (if b_type b \<noteq> Open \<or> b_previousHash b \<noteq> GENESIS_PREV
      then Some (refuse ''index 0 must be a genesis open block'', st)
      else (case mget st (b_accountId b) of
          Some e \<Rightarrow> (case js_at (h_blocks e) 0 of
              Some g \<Rightarrow> if b_hash g = b_hash b then Some (accept, st)
                else Some (refuse ''conflicting open block for existing account'', st)
            | None \<Rightarrow> Some (refuse ''conflicting open block for existing account'', st))
        | None \<Rightarrow> (let h = \<lparr>h_blocks = [], h_acc = []\<rparr> in
            store_commit C h b (mset_at (b_accountId b) h st))))"

definition store_apply :: "crypto \<Rightarrow> bool \<Rightarrow> block \<Rightarrow> account_store \<Rightarrow> (apply_result \<times> account_store) option" where
  "store_apply C verifySignatures b st =
     (if computeContentHash C b \<noteq> b_hash b then Some (refuse ''content hash mismatch'', st)
      else if verifySignatures \<and> \<not> verifyBlockSignature C b then Some (refuse ''invalid signature'', st)
      else if b_index b = 0 then applyGenesis C b st
      else (case mget st (b_accountId b) of
          None \<Rightarrow> Some (refuse ''missing prior chain (genesis not seen yet)'', st)
        | Some h \<Rightarrow> (case last_opt (h_blocks h) of
            None \<Rightarrow> None
          | Some tip \<Rightarrow>
              if b_index b \<le> b_index tip
              then (case js_at (h_blocks h) (b_index b) of
                  Some e \<Rightarrow> if b_hash e = b_hash b then Some (accept, st)
                    else Some (refuse (''stale or conflicting block at index '' @ int_str (b_index b)), st)
                | None \<Rightarrow> Some (refuse (''stale or conflicting block at index '' @ int_str (b_index b)), st))
              else if b_index b \<noteq> b_index tip + 1
              then Some (refuse (''non-sequential index '' @ int_str (b_index b) @ '' (head at '' @ int_str (b_index tip) @ '')''), st)
              else if b_previousHash b \<noteq> b_hash tip
              then Some (refuse ''previousHash does not match current head'', st)
              else store_commit C h b st)))"

section \<open>Delta sync and snapshots\<close>

record delta_request =
  dr_accountId :: hex
  dr_haveIndex :: int

definition deltaRequestFor :: "account_store \<Rightarrow> hex \<Rightarrow> delta_request" where
  "deltaRequestFor dest a = \<lparr>dr_accountId = a, dr_haveIndex = (case store_head dest a of None \<Rightarrow> -1 | Some b \<Rightarrow> b_index b)\<rparr>"

definition serveDelta :: "account_store \<Rightarrow> delta_request \<Rightarrow> block list" where
  "serveDelta source req = drop (nat (max 0 (dr_haveIndex req + 1))) (chain source (dr_accountId req))"

record delta_result =
  dl_applied :: int
  dl_reason :: "string option"

fun apply_blocks :: "crypto \<Rightarrow> bool \<Rightarrow> block list \<Rightarrow> int \<Rightarrow> account_store \<Rightarrow> (delta_result \<times> account_store) option" where
  "apply_blocks C vs [] n st = Some (\<lparr>dl_applied = n, dl_reason = None\<rparr>, st)"
| "apply_blocks C vs (b # bs) n st = (case store_apply C vs b st of
     None \<Rightarrow> None
   | Some (r, st') \<Rightarrow> if \<not> ar_ok r then Some (\<lparr>dl_applied = n, dl_reason = ar_reason r\<rparr>, st')
       else apply_blocks C vs bs (n + 1) st')"

definition applyDelta :: "crypto \<Rightarrow> bool \<Rightarrow> block list \<Rightarrow> account_store \<Rightarrow> (delta_result \<times> account_store) option" where
  "applyDelta C vs bs st = apply_blocks C vs bs 0 st"

definition syncAccount :: "crypto \<Rightarrow> bool \<Rightarrow> account_store \<Rightarrow> account_store \<Rightarrow> hex \<Rightarrow> (delta_result \<times> account_store) option" where
  "syncAccount C vs dest source a = applyDelta C vs (serveDelta source (deltaRequestFor dest a)) dest"

record shard_snapshot =
  sn_shard :: int
  sn_numShards :: int
  sn_accounts :: "head_proof list"

fun snapshot_accounts :: "crypto \<Rightarrow> account_store \<Rightarrow> int \<Rightarrow> int \<Rightarrow> hex list \<Rightarrow> head_proof list option" where
  "snapshot_accounts C st shd n [] = Some []"
| "snapshot_accounts C st shd n (a # as) = (case getShard C a n of
     None \<Rightarrow> None
   | Some s \<Rightarrow>
       if s \<noteq> shd then snapshot_accounts C st shd n as
       else (case headProof C st a of
           None \<Rightarrow> None
         | Some None \<Rightarrow> snapshot_accounts C st shd n as
         | Some (Some p) \<Rightarrow> map_option (Cons p) (snapshot_accounts C st shd n as)))"

definition createShardSnapshot :: "crypto \<Rightarrow> account_store \<Rightarrow> int \<Rightarrow> int \<Rightarrow> shard_snapshot option" where
  "createShardSnapshot C st shd n =
     map_option (\<lambda>ps. \<lparr>sn_shard = shd, sn_numShards = n, sn_accounts = ps\<rparr>) (snapshot_accounts C st shd n (accountIds st))"

record trusted_head =
  th_accountId :: hex
  th_head :: block
  th_balance :: int

fun apply_snapshot :: "crypto \<Rightarrow> quorum_policy \<Rightarrow> head_proof list \<Rightarrow> trusted_head list \<times> int \<Rightarrow> (trusted_head list \<times> int) option" where
  "apply_snapshot C policy [] acc = Some acc"
| "apply_snapshot C policy (p # ps) (trusted, rejected) = (case verifyAccountHead C p policy of
     None \<Rightarrow> None
   | Some r \<Rightarrow>
       if v_ok r
       then apply_snapshot C policy ps
         (trusted @ [\<lparr>th_accountId = the (v_accountId r), th_head = hp_head p, th_balance = the (v_balance r)\<rparr>], rejected)
       else apply_snapshot C policy ps (trusted, rejected + 1))"

definition applyShardSnapshot :: "crypto \<Rightarrow> quorum_policy \<Rightarrow> shard_snapshot \<Rightarrow> (trusted_head list \<times> int) option" where
  "applyShardSnapshot C policy s = apply_snapshot C policy (sn_accounts s) ([], 0)"

section \<open>The contract of an append-only store\<close>

locale chain_store =
  fixes chn :: "'s \<Rightarrow> hex \<Rightarrow> block list"
    and app :: "block \<Rightarrow> 's \<Rightarrow> bool \<times> 's"
    and inv :: "'s \<Rightarrow> bool"
    and nxt :: "block list \<Rightarrow> block \<Rightarrow> bool"
    and adm :: "block \<Rightarrow> bool"
  assumes inv_app: "inv s \<Longrightarrow> adm b \<Longrightarrow> inv (snd (app b s))"
    and app_ok: "inv s \<Longrightarrow> fst (app b s) \<Longrightarrow>
      chn (snd (app b s)) = chn s \<and> b_hash b \<in> b_hash ` set (chn s (b_accountId b))
      \<or> nxt (chn s (b_accountId b)) b \<and> chn (snd (app b s)) = (chn s)(b_accountId b := chn s (b_accountId b) @ [b])"
    and app_fail: "inv s \<Longrightarrow> \<not> fst (app b s) \<Longrightarrow> chn (snd (app b s)) = chn s"
    and app_next: "inv s \<Longrightarrow> nxt (chn s (b_accountId b)) b \<Longrightarrow>
      fst (app b s) \<and> chn (snd (app b s)) = (chn s)(b_accountId b := chn s (b_accountId b) @ [b])"
    and chain_next: "inv s \<Longrightarrow> chn s a = xs @ b # ys \<Longrightarrow> nxt xs b \<and> b_accountId b = a"
    and next_adm: "nxt xs b \<Longrightarrow> adm b"
begin

fun run :: "block list \<Rightarrow> 's \<Rightarrow> 's" where
  "run [] s = s"
| "run (b # bs) s = run bs (snd (app b s))"

fun all_ok :: "block list \<Rightarrow> 's \<Rightarrow> bool" where
  "all_ok [] s = True"
| "all_ok (b # bs) s = (fst (app b s) \<and> all_ok bs (snd (app b s)))"

lemma app_prefix: "inv s \<Longrightarrow> prefix (chn s a) (chn (snd (app b s)) a)"
  using app_ok [of s b] app_fail [of s b] by (cases "fst (app b s)") auto

text \<open>Whatever arrives, in any order, a held history is only ever extended.\<close>

lemma run_prefix: "inv s \<Longrightarrow> \<forall>b \<in> set bs. adm b \<Longrightarrow> inv (run bs s) \<and> prefix (chn s a) (chn (run bs s) a)"
proof (induction bs arbitrary: s)
  case (Cons b bs)
  have "inv (snd (app b s))"
    using Cons.prems inv_app by simp
  with Cons show ?case
    using app_prefix [of s a b] by (auto intro: prefix_order.trans)
qed simp

lemma run_tail:
  "inv s \<Longrightarrow> (\<And>xs b ys. chn s a @ bs = xs @ b # ys \<Longrightarrow> nxt xs b \<and> b_accountId b = a) \<Longrightarrow>
   all_ok bs s \<and> inv (run bs s) \<and> chn (run bs s) = (chn s)(a := chn s a @ bs)"
proof (induction bs arbitrary: s)
  case (Cons b bs)
  have b: "nxt (chn s a) b" "b_accountId b = a"
    using Cons.prems(2) by blast+
  then have st: "fst (app b s)" "chn (snd (app b s)) = (chn s)(a := chn s a @ [b])"
    using app_next [OF Cons.prems(1), of b] by simp_all
  have "inv (snd (app b s))"
    using inv_app [OF Cons.prems(1)] next_adm b(1) by blast
  moreover have "chn (snd (app b s)) a @ bs = xs @ c # ys \<Longrightarrow> nxt xs c \<and> b_accountId c = a" for xs c ys
    using Cons.prems(2) st(2) by simp
  ultimately show ?case
    using Cons.IH [of "snd (app b s)"] st by (auto simp: fun_eq_iff)
qed simp

text \<open>Applying the missing tail of another copy brings the account level with it.\<close>

lemma catch_up:
  assumes "inv s" "inv t" "prefix (chn s a) (chn t a)"
  shows "all_ok (drop (length (chn s a)) (chn t a)) s
    \<and> chn (run (drop (length (chn s a)) (chn t a)) s) = (chn s)(a := chn t a)"
proof -
  obtain zs where z: "chn t a = chn s a @ zs"
    using assms(3) by (auto elim: prefixE)
  have "nxt xs b \<and> b_accountId b = a" if "chn s a @ zs = xs @ b # ys" for xs b ys
    using chain_next [OF assms(2), of a xs b ys] z that by simp
  then show ?thesis
    using run_tail [OF assms(1), of a zs] z by simp
qed

end

section \<open>The store satisfies the contract\<close>

definition next_ok :: "crypto \<Rightarrow> bool \<Rightarrow> block list \<Rightarrow> block \<Rightarrow> bool" where
  "next_ok C vs xs b \<longleftrightarrow> computeContentHash C b = b_hash b \<and> (vs \<longrightarrow> verifyBlockSignature C b)
     \<and> b_index b = int (length xs)
     \<and> (if xs = [] then b_type b = Open \<and> b_previousHash b = GENESIS_PREV else b_previousHash b = b_hash (last xs))
     \<and> (case all_hex C (map b_hash (xs @ [b])) of None \<Rightarrow> False | Some ls \<Rightarrow> b_accumulatorRoot b = acc_rootHex C ls)"

text \<open>A genesis whose accumulator root is the root of its own hash.\<close>

definition genesis_root_ok :: "crypto \<Rightarrow> block \<Rightarrow> bool" where
  "genesis_root_ok C b \<longleftrightarrow> (b_index b = 0 \<longrightarrow> rootWithHex C (b_hash b) [] = Some (b_accumulatorRoot b))"

definition held_ok :: "crypto \<Rightarrow> bool \<Rightarrow> hex \<Rightarrow> held \<Rightarrow> bool" where
  "held_ok C vs a h \<longleftrightarrow> h_blocks h \<noteq> [] \<and> all_hex C (map b_hash (h_blocks h)) = Some (h_acc h)
     \<and> (\<forall>i < length (h_blocks h). next_ok C vs (take i (h_blocks h)) (h_blocks h ! i) \<and> b_accountId (h_blocks h ! i) = a)"

definition store_inv :: "crypto \<Rightarrow> bool \<Rightarrow> account_store \<Rightarrow> bool" where
  "store_inv C vs st \<longleftrightarrow> hex_codec C \<and> (\<forall>a h. mget st a = Some h \<longrightarrow> held_ok C vs a h)"

definition store_step :: "crypto \<Rightarrow> bool \<Rightarrow> block \<Rightarrow> account_store \<Rightarrow> bool \<times> account_store" where
  "store_step C vs b st = (case store_apply C vs b st of None \<Rightarrow> (False, st) | Some (r, st') \<Rightarrow> (ar_ok r, st'))"

lemma content_hash_decodes:
  "hex_codec C \<Longrightarrow> computeContentHash C b = b_hash b \<Longrightarrow> \<exists>l. c_fromHex C (b_hash b) = Some l"
  by (metis computeContentHash_def hashJson_preimage hex_codecD)

lemma all_hex_snoc:
  "all_hex C (hs @ [h]) = (case all_hex C hs of None \<Rightarrow> None | Some ls \<Rightarrow> map_option (\<lambda>l. ls @ [l]) (c_fromHex C h))"
  by (induction hs) (auto simp: option.map_comp comp_def split: option.splits)

lemma store_inv_empty: "hex_codec C \<Longrightarrow> store_inv C vs []"
  by (simp add: store_inv_def)

lemma held_index:
  assumes "held_ok C vs a h" "i < length (h_blocks h)"
  shows "b_index (h_blocks h ! i) = int i" "b_accountId (h_blocks h ! i) = a"
  using assms by (auto simp: held_ok_def next_ok_def)

lemma held_last:
  assumes "held_ok C vs a h"
  shows "last_opt (h_blocks h) = Some (last (h_blocks h))" "b_index (last (h_blocks h)) + 1 = int (length (h_blocks h))"
proof -
  have ne: "h_blocks h \<noteq> []"
    using assms by (simp add: held_ok_def)
  then show "last_opt (h_blocks h) = Some (last (h_blocks h))"
    by (simp add: last_opt_def)
  have "b_index (h_blocks h ! (length (h_blocks h) - 1)) = int (length (h_blocks h) - 1)"
    using held_index(1) [OF assms] ne by simp
  with ne show "b_index (last (h_blocks h)) + 1 = int (length (h_blocks h))"
    by (simp add: last_conv_nth of_nat_diff Suc_leI)
qed

text \<open>What a successful commit does.\<close>

lemma commit_next:
  assumes "all_hex C (map b_hash (h_blocks h)) = Some (h_acc h)" "c_fromHex C (b_hash b) = Some l"
  shows "store_commit C h b st = Some (if acc_rootHex C (h_acc h @ [l]) = b_accumulatorRoot b
      then (accept, mset_at (b_accountId b) \<lparr>h_blocks = h_blocks h @ [b], h_acc = h_acc h @ [l]\<rparr> st)
      else (refuse ''accumulator root mismatch'', st))"
  using assms by (simp add: store_commit_def rootWithHex_def acc_append_def toBytes_def acc_rootHex_def)

lemma next_ok_root:
  assumes "all_hex C (map b_hash xs) = Some acc" "c_fromHex C (b_hash b) = Some l"
  shows "(case all_hex C (map b_hash (xs @ [b])) of None \<Rightarrow> False | Some ls \<Rightarrow> b_accumulatorRoot b = acc_rootHex C ls)
    \<longleftrightarrow> acc_rootHex C (acc @ [l]) = b_accumulatorRoot b"
  using assms by (auto simp: all_hex_snoc)

lemma held_ok_extend:
  assumes "held_ok C vs a h \<or> h_blocks h = [] \<and> h_acc h = []" "next_ok C vs (h_blocks h) b" "b_accountId b = a"
    "c_fromHex C (b_hash b) = Some l"
  shows "held_ok C vs a \<lparr>h_blocks = h_blocks h @ [b], h_acc = h_acc h @ [l]\<rparr>"
proof -
  have ah: "all_hex C (map b_hash (h_blocks h)) = Some (h_acc h)"
    using assms(1) by (auto simp: held_ok_def)
  have "next_ok C vs (take i (h_blocks h @ [b])) ((h_blocks h @ [b]) ! i) \<and> b_accountId ((h_blocks h @ [b]) ! i) = a"
    if "i < length (h_blocks h @ [b])" for i
  proof (cases "i < length (h_blocks h)")
    case True
    with assms(1) show ?thesis
      by (auto simp: held_ok_def nth_append)
  next
    case False
    with that have "i = length (h_blocks h)" by simp
    with assms(2,3) show ?thesis by simp
  qed
  then show ?thesis
    using ah assms(4) by (simp add: held_ok_def all_hex_snoc)
qed

text \<open>
  The cases of \<open>apply\<close> in a store that satisfies the invariant: it extends the account with an
  acceptable block, it answers for a block it already holds, or it refuses.
\<close>

lemma store_apply_cases:
  assumes "store_inv C vs st"
  shows "(next_ok C vs (chain st (b_accountId b)) b \<and>
      (\<exists>h l. store_apply C vs b st = Some (accept, mset_at (b_accountId b) h st) \<and> held_ok C vs (b_accountId b) h
         \<and> h_blocks h = chain st (b_accountId b) @ [b]))
    \<or> (\<not> next_ok C vs (chain st (b_accountId b)) b \<and> store_apply C vs b st = Some (accept, st)
         \<and> b_hash b \<in> b_hash ` set (chain st (b_accountId b)))
    \<or> (\<not> next_ok C vs (chain st (b_accountId b)) b \<and>
        (\<exists>r. store_apply C vs b st = Some (refuse r, st)
          \<or> store_apply C vs b st = Some (refuse r, mset_at (b_accountId b) \<lparr>h_blocks = [], h_acc = []\<rparr> st)
             \<and> mget st (b_accountId b) = None \<and> \<not> genesis_root_ok C b))"
proof (cases "computeContentHash C b = b_hash b \<and> (vs \<longrightarrow> verifyBlockSignature C b)")
  case False
  then show ?thesis
    by (auto simp: store_apply_def next_ok_def)
next
  case ch: True
  have hx: "hex_codec C" and H: "\<And>a h. mget st a = Some h \<Longrightarrow> held_ok C vs a h"
    using assms by (auto simp: store_inv_def)
  obtain l where l: "c_fromHex C (b_hash b) = Some l"
    using content_hash_decodes [OF hx] ch by blast
  let ?a = "b_accountId b"
  show ?thesis
  proof (cases "mget st ?a")
    case None
    have c: "chain st ?a = []"
      using None by (simp add: chain_def)
    let ?h = "\<lparr>h_blocks = [], h_acc = []\<rparr>"
    have cm: "store_commit C ?h b (mset_at ?a ?h st) = Some (if acc_rootHex C [l] = b_accumulatorRoot b
      then (accept, mset_at ?a \<lparr>h_blocks = [b], h_acc = [l]\<rparr> (mset_at ?a ?h st))
      else (refuse ''accumulator root mismatch'', mset_at ?a ?h st))"
      using commit_next [of C ?h b l "mset_at ?a ?h st"] l by simp
    have mm: "mset_at ?a x (mset_at ?a ?h st) = mset_at ?a x st" for x
      by (induction st) (auto simp: mset_at_def)
    have nx: "next_ok C vs [] b \<longleftrightarrow> b_index b = 0 \<and> b_type b = Open \<and> b_previousHash b = GENESIS_PREV
        \<and> acc_rootHex C [l] = b_accumulatorRoot b"
      using ch l by (auto simp: next_ok_def)
    have gr: "genesis_root_ok C b \<longleftrightarrow> (b_index b = 0 \<longrightarrow> acc_rootHex C [l] = b_accumulatorRoot b)"
      using l by (auto simp: genesis_root_ok_def rootWithHex_def toBytes_def acc_rootHex_def)
    show ?thesis
    proof (cases "next_ok C vs [] b")
      case True
      then have "held_ok C vs ?a \<lparr>h_blocks = [b], h_acc = [l]\<rparr>"
        using held_ok_extend [of C vs ?a ?h b l] l by simp
      moreover have "store_apply C vs b st = Some (accept, mset_at ?a \<lparr>h_blocks = [b], h_acc = [l]\<rparr> st)"
        using True ch nx None cm by (auto simp: store_apply_def applyGenesis_def Let_def mm)
      ultimately show ?thesis
        using True unfolding c by (intro disjI1 conjI exI [of _ "\<lparr>h_blocks = [b], h_acc = [l]\<rparr>"]) auto
    next
      case False
      then show ?thesis
        using ch nx None cm gr unfolding c by (auto simp: store_apply_def applyGenesis_def Let_def)
    qed
  next
    case (Some h)
    note hk = H [OF Some]
    have c: "chain st ?a = h_blocks h"
      using Some by (simp add: chain_def)
    have ne: "h_blocks h \<noteq> []" and ah: "all_hex C (map b_hash (h_blocks h)) = Some (h_acc h)"
      using hk by (auto simp: held_ok_def)
    note hl = held_last [OF hk]
    have nx: "next_ok C vs (h_blocks h) b \<longleftrightarrow> b_index b = int (length (h_blocks h)) \<and> b_previousHash b = b_hash (last (h_blocks h))
        \<and> acc_rootHex C (h_acc h @ [l]) = b_accumulatorRoot b"
      using ch ne next_ok_root [OF ah l] by (auto simp: next_ok_def)
    have mem: "js_at (h_blocks h) i = Some e \<Longrightarrow> b_hash e \<in> b_hash ` set (h_blocks h)" for i e
      by (auto simp: js_at_Some)
    show ?thesis
    proof (cases "next_ok C vs (h_blocks h) b")
      case True
      have hx': "held_ok C vs ?a \<lparr>h_blocks = h_blocks h @ [b], h_acc = h_acc h @ [l]\<rparr>"
        using held_ok_extend [of C vs ?a h b l] hk True l by simp
      have "b_index b = b_index (last (h_blocks h)) + 1" "b_index b \<noteq> 0"
        using True nx hl(2) ne by auto
      then have "store_apply C vs b st = Some (accept, mset_at ?a \<lparr>h_blocks = h_blocks h @ [b], h_acc = h_acc h @ [l]\<rparr> st)"
        using True ch nx Some hl commit_next [OF ah l, of st] by (auto simp: store_apply_def)
      then show ?thesis
        using True hx' unfolding c by (intro disjI1 conjI exI [of _ "\<lparr>h_blocks = h_blocks h @ [b], h_acc = h_acc h @ [l]\<rparr>"]) auto
    next
      case False
      show ?thesis
      proof (cases "b_index b = 0")
        case True
        have sa: "store_apply C vs b st = applyGenesis C b st"
          using ch True by (auto simp: store_apply_def)
        have "(applyGenesis C b st = Some (accept, st) \<and> b_hash b \<in> b_hash ` set (h_blocks h))
            \<or> (\<exists>r. applyGenesis C b st = Some (refuse r, st))"
        proof (cases "js_at (h_blocks h) 0")
          case (Some e)
          then show ?thesis
            using mem [OF Some] \<open>mget st (b_accountId b) = Some h\<close>
            by (cases "b_hash e = b_hash b") (auto simp: applyGenesis_def)
        qed (auto simp: applyGenesis_def Some)
        then show ?thesis
          using False unfolding c sa by blast
      next
        case nz: False
        show ?thesis
        proof (cases "b_index b \<le> b_index (last (h_blocks h))")
          case True
          have sa: "store_apply C vs b st = (case js_at (h_blocks h) (b_index b) of
              Some e \<Rightarrow> if b_hash e = b_hash b then Some (accept, st)
                else Some (refuse (''stale or conflicting block at index '' @ int_str (b_index b)), st)
            | None \<Rightarrow> Some (refuse (''stale or conflicting block at index '' @ int_str (b_index b)), st))"
            using ch nz True hl(1) Some by (auto simp: store_apply_def)
          have "(store_apply C vs b st = Some (accept, st) \<and> b_hash b \<in> b_hash ` set (h_blocks h))
              \<or> (\<exists>r. store_apply C vs b st = Some (refuse r, st))"
          proof (cases "js_at (h_blocks h) (b_index b)")
            case (Some e)
            then show ?thesis
              using mem [OF Some] by (cases "b_hash e = b_hash b") (simp_all add: sa, blast)
          qed (simp add: sa, blast)
          then show ?thesis
            using False unfolding c by blast
        next
          case gt: False
          then show ?thesis
            using False ch Some nz hl nx commit_next [OF ah l, of st] unfolding c
            by (auto simp: store_apply_def)
        qed
      qed
    qed
  qed
qed

lemma chain_set: "chain (mset_at a h st) = (chain st)(a := h_blocks h)"
  by (auto simp: chain_def fun_eq_iff)

lemma store_inv_set: "store_inv C vs st \<Longrightarrow> held_ok C vs a h \<Longrightarrow> store_inv C vs (mset_at a h st)"
  by (simp add: store_inv_def)

lemma chain_prefix_ok:
  assumes "store_inv C vs st" "chain st a = xs @ b # ys"
  shows "next_ok C vs xs b \<and> b_accountId b = a"
proof -
  obtain h where h: "mget st a = Some h" "h_blocks h = xs @ b # ys"
    using assms(2) by (cases "mget st a") (auto simp: chain_def)
  then have "held_ok C vs a h"
    using assms(1) by (simp add: store_inv_def)
  then have "\<forall>i < length (h_blocks h). next_ok C vs (take i (h_blocks h)) (h_blocks h ! i) \<and> b_accountId (h_blocks h ! i) = a"
    unfolding held_ok_def by blast
  moreover have "length xs < length (h_blocks h)"
    using h(2) by simp
  ultimately have "next_ok C vs (take (length xs) (h_blocks h)) (h_blocks h ! length xs) \<and> b_accountId (h_blocks h ! length xs) = a"
    by blast
  with h(2) show ?thesis by simp
qed

interpretation account_store: chain_store chain "store_step C vs" "store_inv C vs" "next_ok C vs" "genesis_root_ok C"
  for C vs
proof unfold_locales
  fix s b
  assume inv: "store_inv C vs s"
  note cs = store_apply_cases [OF inv, of b]
  show "store_inv C vs (snd (store_step C vs b s))" if "genesis_root_ok C b"
    using cs that inv store_inv_set [OF inv] by (auto simp: store_step_def)
  show "chain (snd (store_step C vs b s)) = chain s \<and> b_hash b \<in> b_hash ` set (chain s (b_accountId b))
      \<or> next_ok C vs (chain s (b_accountId b)) b \<and>
        chain (snd (store_step C vs b s)) = (chain s)(b_accountId b := chain s (b_accountId b) @ [b])"
    if "fst (store_step C vs b s)"
    using cs that by (auto simp: store_step_def chain_set)
  show "chain (snd (store_step C vs b s)) = chain s" if "\<not> fst (store_step C vs b s)"
    using cs that by (auto simp: store_step_def chain_set) (auto simp: chain_def fun_eq_iff)
  show "fst (store_step C vs b s) \<and>
        chain (snd (store_step C vs b s)) = (chain s)(b_accountId b := chain s (b_accountId b) @ [b])"
    if "next_ok C vs (chain s (b_accountId b)) b"
    using cs that by (auto simp: store_step_def chain_set)
next
  show "store_inv C vs s \<Longrightarrow> chain s a = xs @ b # ys \<Longrightarrow> next_ok C vs xs b \<and> b_accountId b = a" for s a xs b ys
    by (rule chain_prefix_ok)
  show "next_ok C vs xs b \<Longrightarrow> genesis_root_ok C b" for xs b
    by (auto simp: next_ok_def genesis_root_ok_def rootWithHex_def toBytes_def acc_rootHex_def split: option.splits)
qed

section \<open>Consequences\<close>

text \<open>Stores reachable from the empty one by blocks whose genesis root is right.\<close>

inductive store_reach :: "crypto \<Rightarrow> bool \<Rightarrow> account_store \<Rightarrow> bool" for C vs where
  reach_empty: "hex_codec C \<Longrightarrow> store_reach C vs []"
| reach_apply: "store_reach C vs st \<Longrightarrow> genesis_root_ok C b \<Longrightarrow> store_apply C vs b st = Some (r, st') \<Longrightarrow>
    store_reach C vs st'"

lemma store_reach_inv: "store_reach C vs st \<Longrightarrow> store_inv C vs st"
proof (induction rule: store_reach.induct)
  case (reach_apply st b r st')
  then have "snd (store_step C vs b st) = st'"
    by (simp add: store_step_def)
  with account_store.inv_app [OF reach_apply(4,2)] show ?case by simp
qed (rule store_inv_empty)

lemma store_chain_valid:
  assumes "store_inv C True st" "chain st a \<noteq> []"
  shows "valid_chain C (chain st a) \<and> b_accountId (hd (chain st a)) = a"
proof -
  obtain h where h: "mget st a = Some h"
    using assms(2) by (cases "mget st a") (auto simp: chain_def)
  then have hk: "held_ok C True a h" and c: "chain st a = h_blocks h"
    using assms(1) by (auto simp: store_inv_def chain_def)
  let ?bs = "h_blocks h"
  have ne: "?bs \<noteq> []" and ah: "all_hex C (map b_hash ?bs) = Some (h_acc h)"
    using hk by (auto simp: held_ok_def)
  have hd: "hd ?bs = ?bs ! 0"
    using ne by (simp add: hd_conv_nth)
  have nx: "next_ok C True (take i ?bs) (?bs ! i)" "b_accountId (?bs ! i) = a" if "i < length ?bs" for i
    using hk that by (auto simp: held_ok_def)
  have pre: "all_hex C (map b_hash (take (Suc i) ?bs)) = Some (take (Suc i) (h_acc h))" for i
  proof -
    have "all_hex C (take k hs) = Some (take k ls)" if "all_hex C hs = Some ls" for k hs ls
      using that by (induction hs arbitrary: k ls) (auto simp: take_Cons' split: option.splits)
    from this [OF ah, of "Suc i"] show ?thesis
      by (simp add: take_map)
  qed
  have each: "b_index (?bs ! i) = int i \<and> b_accountId (?bs ! i) = b_accountId (hd ?bs) \<and> verifyBlock C (?bs ! i)
      \<and> b_accumulatorRoot (?bs ! i) = acc_rootHex C (take (Suc i) (h_acc h))
      \<and> (0 < i \<longrightarrow> b_previousHash (?bs ! i) = b_hash (?bs ! (i - 1)))" if i: "i < length ?bs" for i
  proof -
    have "take i ?bs @ [?bs ! i] = take (Suc i) ?bs"
      using i by (simp add: take_Suc_conv_app_nth)
    then have "b_accumulatorRoot (?bs ! i) = acc_rootHex C (take (Suc i) (h_acc h))"
      using nx(1) [OF i] pre [of i] by (simp add: next_ok_def)
    moreover have "b_previousHash (?bs ! i) = b_hash (?bs ! (i - 1))" if "0 < i"
    proof -
      have "last (take i ?bs) = ?bs ! (i - 1)"
        using i that by (subst last_conv_nth) (auto simp: min_def)
      with nx(1) [OF i] i that show ?thesis
        by (auto simp: next_ok_def split: if_splits)
    qed
    ultimately show ?thesis
      using nx [OF i] nx(2) [of 0] i ne by (auto simp: hd next_ok_def verifyBlock_def)
  qed
  have "b_type (hd ?bs) = Open \<and> b_previousHash (hd ?bs) = GENESIS_PREV"
    using nx(1) [of 0] ne by (simp add: hd next_ok_def)
  then show ?thesis
    using ne ah each nx(2) [of 0] by (simp add: c valid_chain_def hd)
qed

lemma reachable_chain_valid:
  "store_reach C True st \<Longrightarrow> chain st a \<noteq> [] \<Longrightarrow> valid_chain C (chain st a)"
  using store_chain_valid store_reach_inv by blast

text \<open>Conversely, every well-formed chain is accepted by an empty store, which then holds it.\<close>

lemma all_hex_take: "all_hex C hs = Some ls \<Longrightarrow> all_hex C (take k hs) = Some (take k ls)"
  by (induction hs arbitrary: k ls) (auto simp: take_Cons' split: option.splits)

lemma valid_chain_held:
  assumes "valid_chain C bs" "all_hex C (map b_hash bs) = Some acc"
  shows "held_ok C True (b_accountId (hd bs)) \<lparr>h_blocks = bs, h_acc = acc\<rparr>"
proof -
  from assms obtain ne: "bs \<noteq> []" and ty: "b_type (hd bs) = Open" "b_previousHash (hd bs) = GENESIS_PREV"
    and nth: "\<And>i. i < length bs \<Longrightarrow> b_index (bs ! i) = int i \<and> b_accountId (bs ! i) = b_accountId (hd bs)
             \<and> verifyBlock C (bs ! i) \<and> b_accumulatorRoot (bs ! i) = acc_rootHex C (take (Suc i) acc)
             \<and> (0 < i \<longrightarrow> b_previousHash (bs ! i) = b_hash (bs ! (i - 1)))"
    by (elim valid_chainE) auto
  have "next_ok C True (take i bs) (bs ! i)" if i: "i < length bs" for i
  proof -
    have "all_hex C (map b_hash (take i bs @ [bs ! i])) = Some (take (Suc i) acc)"
      using all_hex_take [OF assms(2), of "Suc i"] i by (simp add: take_map take_Suc_conv_app_nth)
    moreover have "0 < i \<Longrightarrow> last (take i bs) = bs ! (i - 1)"
      using i by (subst last_conv_nth) (auto simp: min_def)
    moreover have "i = 0 \<Longrightarrow> bs ! i = hd bs"
      using ne by (simp add: hd_conv_nth)
    ultimately show ?thesis
      using nth [OF i] ty ne i by (cases "i = 0") (auto simp: next_ok_def verifyBlock_def split: if_splits)
  qed
  with ne nth assms(2) show ?thesis
    by (simp add: held_ok_def)
qed

lemma store_step_reach: "store_reach C vs st \<Longrightarrow> genesis_root_ok C b \<Longrightarrow> store_reach C vs (snd (store_step C vs b st))"
  by (auto simp: store_step_def split: option.splits intro: reach_apply)

lemma run_reach: "store_reach C vs st \<Longrightarrow> \<forall>b \<in> set bs. genesis_root_ok C b \<Longrightarrow> store_reach C vs (account_store.run C vs bs st)"
  by (induction bs arbitrary: st) (simp_all add: store_step_reach)

lemma valid_chain_stored:
  assumes "valid_chain C bs" "hex_codec C"
  shows "\<exists>st. store_reach C True st \<and> chain st = (\<lambda>_. [])(b_accountId (hd bs) := bs)"
proof -
  let ?a = "b_accountId (hd bs)"
  obtain acc where acc: "all_hex C (map b_hash bs) = Some acc"
    using assms(1) by (auto elim: valid_chainE)
  let ?src = "[(?a, \<lparr>h_blocks = bs, h_acc = acc\<rparr>)]"
  have src: "store_inv C True ?src"
    using valid_chain_held [OF assms(1) acc] assms(2) by (simp add: store_inv_def)
  have ch: "chain [] = (\<lambda>_. [])" "chain ?src ?a = bs"
    by (auto simp: chain_def)
  have "genesis_root_ok C b" if "b \<in> set bs" for b
    using account_store.chain_next [OF src] account_store.next_adm that ch(2) by (metis split_list)
  then have "store_reach C True (account_store.run C True bs [])"
    using assms(2) by (intro run_reach reach_empty) auto
  moreover have "chain (account_store.run C True bs []) = (chain [])(?a := bs)"
    using account_store.catch_up [OF store_inv_empty [OF assms(2)] src, of ?a] ch by simp
  ultimately show ?thesis
    using ch(1) by metis
qed

text \<open>Every head proof served from such a store verifies, when its genesis meets the policy.\<close>

lemma store_headProof_verifies:
  assumes "store_inv C True st" "headProof C st a = Some (Some p)" "identity_ok C (hp_open p) policy"
    "length (chain st a) \<le> 2147483648"
  shows "\<exists>v. verifyAccountHead C p policy = Some v \<and> v_ok v \<and> v_accountId v = Some a
     \<and> v_balance v = Some (b_balance (hp_head p))"
proof -
  obtain h pr where h: "mget st a = Some h" "h_blocks h \<noteq> []" "proofHex C (h_acc h) 0 = Some pr"
    and p: "p = \<lparr>hp_open = hd (h_blocks h), hp_head = last (h_blocks h), hp_openProof = pr\<rparr>"
    using assms(2) by (auto simp: headProof_def split: option.splits if_splits)
  have c: "chain st a = h_blocks h"
    using h by (simp add: chain_def)
  have hx: "hex_codec C" and hk: "held_ok C True a h"
    using assms(1) h(1) by (auto simp: store_inv_def)
  then have ah: "all_hex C (map b_hash (h_blocks h)) = Some (h_acc h)"
    by (simp add: held_ok_def)
  have vc: "valid_chain C (h_blocks h)" "b_accountId (hd (h_blocks h)) = a"
    using store_chain_valid [OF assms(1), of a] h(2) c by simp_all
  have len: "length (h_acc h) = length (h_blocks h)"
    using all_hex_length [OF ah] by simp
  have pr: "pr = map (c_toHex C) (merkleProof C (h_acc h) 0)"
    using h(2,3) len proofHex_ok [of 0 "h_acc h" C] by auto
  have idok: "identity_ok C (hd (h_blocks h)) policy"
    using assms(3) p by simp
  have n0: "0 < length (h_blocks h)"
    using h(2) by simp
  from chain_inclusion_complete [OF vc(1) hx assms(4) [unfolded c] idok n0 ah]
  obtain w where w: "verifyAccountHead C p policy = Some w" "v_ok w"
    using verifyChainInclusion_ok by (fastforce simp: p pr)
  have "b_accountId (last (h_blocks h)) = a"
    using vc(2) hk h(2) by (simp add: held_ok_def last_conv_nth)
  then show ?thesis
    using w verifyAccountHead_ok [OF w] p by simp
qed

text \<open>One sync makes the destination's copy equal to a longer source copy, and touches nothing else.\<close>

lemma apply_blocks_run:
  "account_store.all_ok C vs bs st \<Longrightarrow> apply_blocks C vs bs n st =
     Some (\<lparr>dl_applied = n + int (length bs), dl_reason = None\<rparr>, account_store.run C vs bs st)"
  by (induction bs arbitrary: n st) (auto simp: store_step_def split: option.splits)

lemma sync_converges:
  assumes "store_inv C vs dest" "store_inv C vs source" "prefix (chain dest a) (chain source a)"
  shows "\<exists>st'. syncAccount C vs dest source a =
      Some (\<lparr>dl_applied = int (length (chain source a)) - int (length (chain dest a)), dl_reason = None\<rparr>, st')
    \<and> chain st' = (chain dest)(a := chain source a)"
proof -
  have "nat (max 0 (dr_haveIndex (deltaRequestFor dest a) + 1)) = length (chain dest a)"
  proof (cases "mget dest a")
    case None
    then show ?thesis by (simp add: deltaRequestFor_def store_head_def chain_def)
  next
    case (Some h)
    then have hk: "held_ok C vs a h"
      using assms(1) by (simp add: store_inv_def)
    show ?thesis
      using Some held_last [OF hk] by (simp add: deltaRequestFor_def store_head_def chain_def)
  qed
  then have sd: "serveDelta source (deltaRequestFor dest a) = drop (length (chain dest a)) (chain source a)"
    by (simp add: serveDelta_def deltaRequestFor_def)
  have len: "length (chain dest a) \<le> length (chain source a)"
    using assms(3) by (rule prefix_length_le)
  note cu = account_store.catch_up [OF assms]
  show ?thesis
    using apply_blocks_run [OF conjunct1 [OF cu], of 0] conjunct2 [OF cu] len
    by (simp add: syncAccount_def applyDelta_def sd of_nat_diff)
qed

text \<open>Applying a snapshot trusts exactly the heads that verify.\<close>

lemma apply_snapshot_spec:
  assumes "apply_snapshot C policy ps (t0, r0) = Some (t, r)"
  shows "\<exists>new. t = t0 @ new \<and> int (length new) + (r - r0) = int (length ps)
    \<and> (\<forall>x \<in> set new. \<exists>p \<in> set ps. \<exists>v. verifyAccountHead C p policy = Some v \<and> v_ok v
         \<and> x = \<lparr>th_accountId = b_accountId (hp_open p), th_head = hp_head p, th_balance = b_balance (hp_head p)\<rparr>)"
  using assms
proof (induction C policy ps "(t0, r0)" arbitrary: t0 r0 rule: apply_snapshot.induct)
  case (2 C policy p ps t0 r0)
  obtain v where v: "verifyAccountHead C p policy = Some v"
    using 2(3) by (auto split: option.splits)
  show ?case
  proof (cases "v_ok v")
    case True
    let ?x = "\<lparr>th_accountId = the (v_accountId v), th_head = hp_head p, th_balance = the (v_balance v)\<rparr>"
    obtain new where new: "t = (t0 @ [?x]) @ new" "int (length new) + (r - r0) = int (length ps)"
      "\<forall>x \<in> set new. \<exists>p \<in> set ps. \<exists>v. verifyAccountHead C p policy = Some v \<and> v_ok v
         \<and> x = \<lparr>th_accountId = b_accountId (hp_open p), th_head = hp_head p, th_balance = b_balance (hp_head p)\<rparr>"
      using 2(1) [OF v True] 2(3) v True by auto
    have "?x = \<lparr>th_accountId = b_accountId (hp_open p), th_head = hp_head p, th_balance = b_balance (hp_head p)\<rparr>"
      using verifyAccountHead_ok [OF v True] by simp
    then show ?thesis
      using new v True by (intro exI [of _ "?x # new"]) auto
  next
    case False
    obtain new where "t = t0 @ new" "int (length new) + (r - (r0 + 1)) = int (length ps)"
      "\<forall>x \<in> set new. \<exists>p \<in> set ps. \<exists>v. verifyAccountHead C p policy = Some v \<and> v_ok v
         \<and> x = \<lparr>th_accountId = b_accountId (hp_open p), th_head = hp_head p, th_balance = b_balance (hp_head p)\<rparr>"
      using 2(2) [OF v False] 2(3) v False by auto
    then show ?thesis
      by (intro exI [of _ new]) auto
  qed
qed auto

text \<open>
  A genesis with a wrong root is refused, yet its account is now present and empty: the correct
  genesis is refused ever after, and any later block of the account throws.
\<close>

lemma poisoned_genesis:
  assumes "hex_codec C" "mget st (b_accountId b) = None" "computeContentHash C b = b_hash b"
    "vs \<longrightarrow> verifyBlockSignature C b" "b_index b = 0" "b_type b = Open" "b_previousHash b = GENESIS_PREV"
    "\<not> genesis_root_ok C b"
    and g: "b_accountId g = b_accountId b" "computeContentHash C g = b_hash g" "vs \<longrightarrow> verifyBlockSignature C g"
  shows "\<exists>st'. store_apply C vs b st = Some (refuse ''accumulator root mismatch'', st')
    \<and> (b_index g = 0 \<longrightarrow> (\<exists>why. store_apply C vs g st' = Some (refuse why, st')))
    \<and> (b_index g \<noteq> 0 \<longrightarrow> store_apply C vs g st' = None)"
proof -
  obtain l where l: "c_fromHex C (b_hash b) = Some l"
    using content_hash_decodes [OF assms(1,3)] by blast
  let ?h = "\<lparr>h_blocks = [], h_acc = []\<rparr>"
  let ?st = "mset_at (b_accountId b) ?h st"
  have "acc_rootHex C [l] \<noteq> b_accumulatorRoot b"
    using assms(5,8) l by (auto simp: genesis_root_ok_def rootWithHex_def toBytes_def acc_rootHex_def)
  then have "store_apply C vs b st = Some (refuse ''accumulator root mismatch'', ?st)"
    using assms(2-7) l commit_next [of C ?h b l ?st] by (auto simp: store_apply_def applyGenesis_def Let_def)
  moreover have "js_at (h_blocks ?h) 0 = None"
    by (simp add: js_at_def)
  ultimately show ?thesis
    using g by (intro exI [of _ ?st]) (auto simp: store_apply_def applyGenesis_def)
qed

end
