(* ===== verification/Core_Properties.thy ===== *)
theory Core_Properties
  imports Owner_Chain Fraud Sub_Accounts Account_Store
begin

text \<open>
  The properties of the ledger's core: Merkle accumulator, canonical encoding, blocks, identity,
  light verification, sub-accounts, fraud evidence and the account store. Every property that has
  a hypothesis is followed by a theorem that applies it to a concrete input.
\<close>

section \<open>Merkle accumulator\<close>



lemma inj_on_distinct: "distinct (map f (remdups xs)) \<Longrightarrow> inj_on f (set xs)"
  by (simp add: distinct_map)

text \<open>C10: the verifier accepts nothing else: with a hash that has no collision among the inputs of
  the tree and of the check, an accepted leaf is the leaf at that position and the proof is the one
  the tree gives.\<close>

theorem merkle_proof_binding:
  assumes "verifyMerkleProof C (merkleRoot C ls) leaf (int i) (int (length ls)) pth"
    and "i < length ls" "length ls \<le> 2147483648" "hash_length C"
    and "inj_on (c_sha256 C) (set (tree_inputs C ls) \<union> set (path_inputs C (length ls) i pth leaf))"
  shows "leaf = ls ! i \<and> pth = merkleProof C ls i"
  using assms by (rule verifyMerkleProof_sound)

theorem merkle_proof_binding_witness:
  "[2] = [[1], [2 :: byte]] ! 1 \<and> [leafHash demo_crypto [1]] = merkleProof demo_crypto [[1], [2]] 1"
proof (rule merkle_proof_binding [where C = demo_crypto])
  show "verifyMerkleProof demo_crypto (merkleRoot demo_crypto [[1], [2]]) [2] (int 1)
     (int (length [[1], [2 :: byte]])) [leafHash demo_crypto [1]]"
    by code_simp
  have "distinct (map (c_sha256 demo_crypto) (remdups (tree_inputs demo_crypto [[1], [2]]
      @ path_inputs demo_crypto (length [[1], [2 :: byte]]) 1 [leafHash demo_crypto [1]] [2])))"
    by code_simp
  from inj_on_distinct [OF this]
  show "inj_on (c_sha256 demo_crypto) (set (tree_inputs demo_crypto [[1], [2]])
      \<union> set (path_inputs demo_crypto (length [[1], [2 :: byte]]) 1 [leafHash demo_crypto [1]] [2]))"
    by simp
qed (simp_all add: demo_hash_length)

section \<open>Canonical encoding and blocks\<close>



text \<open>A chain stays well formed when its owner extends it through \<open>createBlock\<close>: the new block
  verifies, links to the tip and carries the root of the accumulator over all hashes.\<close>

theorem owner_extends_chain:
  assumes "valid_chain C bs" "all_hex C (map b_hash bs) = Some acc" "createBlock C c priv acc = (Some b, acc')"
    "hex_codec C" "signing C" "publicKeyFromPrivate C priv = Some (b_accountId c)"
    "b_accountId c = b_accountId (hd bs)" "b_index c = int (length bs)" "b_previousHash c = b_hash (last bs)"
  shows "valid_chain C (bs @ [b]) \<and> all_hex C (map b_hash (bs @ [b])) = Some acc'"
  using assms by (rule created_extends)

theorem owner_extends_chain_witness:
  "\<exists>acc'. valid_chain demo_crypto ([sample_genesis] @ [sample_send 5])
     \<and> all_hex demo_crypto (map b_hash ([sample_genesis] @ [sample_send 5])) = Some acc'"
proof -
  obtain acc' where "createBlock demo_crypto (sample_send_content 5) sample_priv sample_acc = (Some (sample_send 5), acc')"
    using sample_send_created by blast
  from owner_extends_chain [OF conjunct1 [OF sample_genesis_chain] conjunct2 [OF sample_genesis_chain] this
      demo_hex_codec demo_signing]
  show ?thesis
    by (simp only: sample_send_fields sample_key sample_genesis_fields list.sel list.size last.simps) simp
qed

section \<open>Identity\<close>

text \<open>C13: the quorum is met exactly when enough distinct trusted attesters signed this claim and every
  required attestation type is among the credited ones.\<close>

theorem quorum_exact:
  "qr_ok (checkQuorum C atts claim policy) \<longleftrightarrow>
     qp_min policy \<le> int (card (valid_attesters C claim policy atts)) \<and>
     (case requiredTypes policy of None \<Rightarrow> True | Some req \<Rightarrow> set req \<subseteq> credited_types C claim policy atts)"
  by (simp add: checkQuorum_ok split: option.split)

text \<open>The requests an empty registry accepts, in order.\<close>

fun registrations :: "crypto \<Rightarrow> id_registry \<Rightarrow> (hex \<times> hex \<times> hex) list \<Rightarrow> (hex \<times> hex \<times> hex) list \<times> id_registry" where
  "registrations C used [] = ([], used)"
| "registrations C used ((nullifier, commitment, pub) # reqs) =
     (case register_identity C used nullifier commitment pub of (r, used') \<Rightarrow>
      (case registrations C used' reqs of (oks, fin) \<Rightarrow>
        ((if rr_ok r then (nullifier, commitment, pub) # oks else oks), fin)))"

lemma registrations_contract:
  "registrations C used reqs = (memory.accepted C used reqs, snd (memory.run C used reqs))"
proof (induction reqs arbitrary: used)
  case (Cons r reqs)
  obtain n c p where r: "r = (n, c, p)"
    by (cases r)
  obtain x u where "register_identity C used n c p = (x, u)"
    by fastforce
  with Cons r show ?case
    by (simp add: memory.accepted_Cons Let_def split: prod.split)
qed (simp add: memory.accepted_def)

text \<open>C14: one human, one account: over any sequence of registrations no nullifier is accepted twice, and
  the registry keeps the commitment that was accepted for it.\<close>

theorem one_human_one_account:
  "case registrations C registry_empty reqs of (oks, fin) \<Rightarrow>
     distinct (map fst oks) \<and> set (map (\<lambda>(n, c, p). (n, Some c)) oks) \<subseteq> {(n, commitmentOf fin n) | n. True}"
  by (auto simp: registrations_contract memory.accepted_distinct dest: memory.accepted_registered)

text \<open>In every state a sub-account registry reaches, a delegated key has no consensus weight and no
  children and cannot become a parent, roots are fixed points, and counting humans counts roots.\<close>

theorem sub_accounts_carry_nothing:
  assumes "sub_reach s"
  shows "(case isSubAccount s key now of False \<Rightarrow> True
        | True \<Rightarrow> consensusWeightFactor s key now = 0 \<and> children s key = []
                \<and> (d_parent d = key \<longrightarrow> fst (register d vf t s) \<noteq> None))
     \<and> rootOf s (rootOf s key now) now = rootOf s key now
     \<and> distinctHumans s ids now = int (card ((\<lambda>k. rootOf s k now) ` set ids))"
  using sub_account_powerless [OF sub_reach_inv [OF assms], of key now] rootOf_idem [OF sub_reach_inv [OF assms]]
  by (auto simp: distinctHumans_card split: bool.split)

definition sample_delegation :: delegation where
  "sample_delegation = \<lparr>d_parent = ''human'', d_child = ''phone'', d_kind = Device, d_issuedAt = 0,
     d_expiresAt = None\<rparr>"

theorem sub_accounts_carry_nothing_witness:
  "consensusWeightFactor (snd (register sample_delegation (\<lambda>_. True) 0 sub_empty)) ''phone'' 5 = 0
   \<and> distinctHumans (snd (register sample_delegation (\<lambda>_. True) 0 sub_empty)) [''human'', ''phone''] 5 = 1"
proof -
  let ?s = "snd (register sample_delegation (\<lambda>_. True) 0 sub_empty)"
  have "sub_reach ?s"
    by (intro sub_register sub_start)
  moreover have "isSubAccount ?s ''phone'' 5" "rootOf ?s ''phone'' 5 = ''human''" "rootOf ?s ''human'' 5 = ''human''"
    by code_simp+
  ultimately show ?thesis
    using sub_accounts_carry_nothing [of ?s "''phone''" 5 sample_delegation "\<lambda>_. True" 0 "[''human'', ''phone'']"]
    by simp
qed

text \<open>The name of a sub-account determines its root and its label, is never itself a root name, and
  lies under that root only.\<close>

theorem sub_account_names_unambiguous:
  assumes "subAccountName r l = Some n"
  shows "parseName n = Some \<lparr>pn_root = r, pn_label = Some l\<rparr> \<and> \<not> isValidRootName n
     \<and> (subAccountName r' l' \<noteq> Some n \<or> r' = r \<and> l' = l) \<and> (isUnderRoot n r' \<longleftrightarrow> r' = r)"
  using names_unambiguous [OF assms, of r' l'] assms by (auto simp: parse_sub_name)

theorem sub_account_names_unambiguous_witness:
  "isUnderRoot ''alice.phone'' ''alice'' \<and> \<not> isUnderRoot ''alice.phone'' ''bob''"
proof -
  have "subAccountName ''alice'' ''phone'' = Some ''alice.phone''"
    by code_simp
  then show ?thesis
    using sub_account_names_unambiguous [of "''alice''" "''phone''" "''alice.phone''" "''bob''"]
      sub_account_names_unambiguous [of "''alice''" "''phone''" "''alice.phone''" "''alice''"]
    by simp
qed

section \<open>Light verification\<close>

text \<open>From a well-formed chain the sender builds, for any of its transfers, a packet that the
  recipient accepts with nothing but the packet and its quorum policy.\<close>

theorem honest_packet_accepted:
  assumes "valid_chain C bs" "hex_codec C" "length bs \<le> 2147483648" "identity_ok C (hd bs) policy"
    and "i < length bs" "\<And>j. j < i \<Longrightarrow> b_hash (bs ! j) \<noteq> b_hash (bs ! i)"
    and "b_type (bs ! i) = Send \<or> b_type (bs ! i) = NftSend" "b_recipient (bs ! i) = Some rcpt"
  shows "\<exists>p v. buildPacketFromChain C bs (b_hash (bs ! i)) = Some (Some p) \<and> pk_send p = bs ! i
     \<and> verifyPacket C p rcpt policy = Some v \<and> v_ok v"
  by (rule packet_complete) fact+

theorem honest_packet_accepted_witness:
  "\<exists>p v. buildPacketFromChain demo_crypto [sample_genesis, sample_send 5] (b_hash (sample_send 5)) = Some (Some p)
     \<and> verifyPacket demo_crypto p ''bob'' sample_policy = Some v \<and> v_ok v"
  using honest_packet_accepted [OF sample_chain demo_hex_codec, of 5 sample_policy 1 "''bob''"]
  by (auto simp: sample_identity sample_hashes_differ sample_block_fields)

text \<open>C8: an accepted packet proves inclusion: whatever accumulator the signed head commits to, the
  sender's genesis is its first leaf and the transfer is its leaf at the transfer's own height; the
  transfer is signed by the account, names the recipient, and the account passed the identity check.\<close>

theorem accepted_packet_included:
  assumes "verifyPacket C p rcpt policy = Some v" "v_ok v"
    and "hex_codec C" "hash_length C" "length ls \<le> 2147483648"
    and "b_accumulatorRoot (pk_head p) = acc_rootHex C ls" "b_index (pk_head p) + 1 = int (length ls)"
    and "inj_on (c_sha256 C) (check_inputs C ls (b_hash (pk_open p)) 0 (pk_openProof p))"
    and "inj_on (c_sha256 C) (check_inputs C ls (b_hash (pk_send p)) (b_index (pk_send p)) (pk_sendProof p))"
  shows "c_fromHex C (b_hash (pk_open p)) = Some (ls ! 0)
    \<and> 0 \<le> b_index (pk_send p) \<and> b_index (pk_send p) < int (length ls)
    \<and> c_fromHex C (b_hash (pk_send p)) = Some (ls ! nat (b_index (pk_send p)))
    \<and> verifyBlock C (pk_send p) \<and> b_accountId (pk_send p) = b_accountId (pk_open p)
    \<and> b_recipient (pk_send p) = Some rcpt \<and> (b_type (pk_send p) = Send \<or> b_type (pk_send p) = NftSend)
    \<and> identity_ok C (pk_open p) policy \<and> verifyBlock C (pk_head p)"
  using assms by (rule packet_sound)

definition sample_leaves :: "bytes list" where
  "sample_leaves = map (map char_byte) [b_hash sample_genesis, b_hash (sample_send 5)]"

lemma sample_leaves_root: "b_accumulatorRoot (sample_send 5) = acc_rootHex demo_crypto sample_leaves"
proof -
  have "all_hex demo_crypto (map b_hash [sample_genesis, sample_send 5]) = Some sample_leaves"
    by (simp add: sample_leaves_def demo_total)
  with sample_chain [of 5] have "\<forall>i < 2. b_accumulatorRoot ([sample_genesis, sample_send 5] ! i)
      = acc_rootHex demo_crypto (take (Suc i) sample_leaves)"
    by (simp add: valid_chain_def numeral_2_eq_2)
  from this [rule_format, of 1] show ?thesis
    by (simp add: sample_leaves_def)
qed

definition sample_packet :: packet where
  "sample_packet = \<lparr>pk_open = sample_genesis, pk_head = sample_send 5,
     pk_openProof = map (c_toHex demo_crypto) (merkleProof demo_crypto sample_leaves 0),
     pk_send = sample_send 5, pk_sendProof = map (c_toHex demo_crypto) (merkleProof demo_crypto sample_leaves 1)\<rparr>"

lemma sample_packet_built:
  "buildPacketFromChain demo_crypto [sample_genesis, sample_send 5] (b_hash (sample_send 5)) = Some (Some sample_packet)"
proof -
  have "append_all demo_crypto (map b_hash [sample_genesis, sample_send 5]) [] = Some sample_leaves"
    by (simp add: append_all_eq sample_leaves_def demo_total)
  moreover have "length sample_leaves = 2"
    by (simp add: sample_leaves_def)
  ultimately show ?thesis
    using sample_hashes_differ proofHex_ok [of 0 sample_leaves demo_crypto] proofHex_ok [of 1 sample_leaves demo_crypto]
    by (simp add: buildPacketFromChain_def sample_packet_def Let_def)
qed

lemma sample_inputs:
  "inj_on (c_sha256 demo_crypto) (check_inputs demo_crypto sample_leaves (b_hash sample_genesis) 0 (pk_openProof sample_packet))"
  "inj_on (c_sha256 demo_crypto) (check_inputs demo_crypto sample_leaves (b_hash (sample_send 5)) 1 (pk_sendProof sample_packet))"
proof -
  let ?A = "demo_hash (CHR 0x3B) (CHR 0xE8) (CHR 0xDD) (CHR 0xA6)"
  let ?B = "demo_hash (CHR 0xB4) (CHR 0x5B) (CHR 0x24) (CHR 0x9A)"
  let ?L = "[map char_byte ?A, map char_byte ?B]"
  have lit: "sample_leaves = ?L"
    by (simp add: sample_leaves_def sample_genesis_hash sample_send_hash)
  have "distinct (map (c_sha256 demo_crypto) (remdups (tree_inputs demo_crypto ?L)))"
    by code_simp
  then have inj: "inj_on (c_sha256 demo_crypto) (set (tree_inputs demo_crypto ?L))"
    by (rule inj_on_distinct)
  have "check_inputs demo_crypto ?L ?A 0 (map (c_toHex demo_crypto) (merkleProof demo_crypto ?L 0))
      \<subseteq> set (tree_inputs demo_crypto ?L)"
    "check_inputs demo_crypto ?L ?B 1 (map (c_toHex demo_crypto) (merkleProof demo_crypto ?L 1))
      \<subseteq> set (tree_inputs demo_crypto ?L)"
    by code_simp+
  then show
    "inj_on (c_sha256 demo_crypto) (check_inputs demo_crypto sample_leaves (b_hash sample_genesis) 0 (pk_openProof sample_packet))"
    "inj_on (c_sha256 demo_crypto) (check_inputs demo_crypto sample_leaves (b_hash (sample_send 5)) 1 (pk_sendProof sample_packet))"
    using inj_on_subset [OF inj] by (simp_all add: sample_packet_def lit sample_genesis_hash sample_send_hash)
qed

theorem accepted_packet_included_witness:
  "c_fromHex demo_crypto (b_hash (sample_send 5)) = Some (sample_leaves ! 1)"
proof -
  obtain v where v: "verifyPacket demo_crypto sample_packet ''bob'' sample_policy = Some v" "v_ok v"
    using packet_complete [OF sample_chain demo_hex_codec, of 5 sample_policy 1 "''bob''"]
    by (auto simp: sample_identity sample_hashes_differ sample_block_fields sample_packet_built)
  from accepted_packet_included [OF v demo_hex_codec demo_hash_length, of sample_leaves] show ?thesis
    using sample_inputs sample_leaves_root by (simp add: sample_packet_def sample_block_fields sample_leaves_def)
qed

section \<open>Fraud evidence\<close>

text \<open>An honest account cannot be accused: no two blocks of one well-formed chain make double-spend
  evidence.\<close>

theorem honest_account_not_accusable:
  assumes "valid_chain C bs" "a \<in> set bs" "b \<in> set bs"
  shows "proveDoubleSpend a b = None"
  using assms by (rule honest_chain_no_evidence)

theorem honest_account_not_accusable_witness:
  "proveDoubleSpend sample_genesis (sample_send 5) = None"
  by (rule honest_account_not_accusable [OF sample_chain [of 5]]) simp_all

section \<open>Account store\<close>

text \<open>C1: the histories a verifying store can hold are exactly the well-formed chains, each filed under
  its own account, whatever blocks arrived in whatever order, as long as every genesis carries the root
  of its own hash.\<close>

theorem held_histories_are_valid_chains:
  assumes "hex_codec C" "bs \<noteq> []"
  shows "(\<exists>st. store_reach C True st \<and> chain st a = bs) \<longleftrightarrow> valid_chain C bs \<and> b_accountId (hd bs) = a"
proof
  assume "\<exists>st. store_reach C True st \<and> chain st a = bs"
  then show "valid_chain C bs \<and> b_accountId (hd bs) = a"
    using store_chain_valid [OF store_reach_inv] assms(2) by blast
next
  assume "valid_chain C bs \<and> b_accountId (hd bs) = a"
  then show "\<exists>st. store_reach C True st \<and> chain st a = bs"
    using valid_chain_stored [OF _ assms(1)] by (metis fun_upd_same)
qed

theorem held_histories_are_valid_chains_witness:
  "\<exists>st. store_reach demo_crypto True st \<and> chain st sample_pub = [sample_genesis, sample_send 5]"
  using held_histories_are_valid_chains [OF demo_hex_codec, of "[sample_genesis, sample_send 5]" sample_pub]
    sample_chain [of 5] by (simp add: sample_genesis_fields)

lemma sample_store:
  "\<exists>st. store_reach demo_crypto True st \<and> chain st sample_pub = [sample_genesis, sample_send 5]"
  using valid_chain_stored [OF sample_chain [of 5] demo_hex_codec] by (auto simp: sample_genesis_fields)

text \<open>C16: one pull of the missing tail brings a copy level with a longer one, reports the number of
  blocks applied and touches no other account.\<close>

theorem sync_brings_level:
  assumes "store_inv C vs dest" "store_inv C vs source" "prefix (chain dest a) (chain source a)"
  shows "\<exists>st'. syncAccount C vs dest source a =
      Some (\<lparr>dl_applied = int (length (chain source a)) - int (length (chain dest a)), dl_reason = None\<rparr>, st')
    \<and> chain st' = (chain dest)(a := chain source a)"
  using assms by (rule sync_converges)

theorem sync_brings_level_witness:
  "\<exists>source st'. syncAccount demo_crypto True [] source sample_pub = Some (\<lparr>dl_applied = 2, dl_reason = None\<rparr>, st')
     \<and> chain st' sample_pub = [sample_genesis, sample_send 5]"
proof -
  obtain st where st: "store_inv demo_crypto True st" "chain st sample_pub = [sample_genesis, sample_send 5]"
    using sample_store store_reach_inv by blast
  have "chain [] sample_pub = []"
    by (simp add: chain_def)
  with sync_brings_level [OF store_inv_empty [OF demo_hex_codec] st(1), of sample_pub] st(2)
  obtain st' where "syncAccount demo_crypto True [] st sample_pub = Some (\<lparr>dl_applied = 2, dl_reason = None\<rparr>, st')"
      "chain st' = (chain [])(sample_pub := [sample_genesis, sample_send 5])"
    by auto
  then show ?thesis
    by (intro exI [of _ st] exI [of _ st']) simp
qed

text \<open>A genesis with a wrong accumulator root is refused and still blocks its account: afterwards no
  genesis of the account is accepted and every later block of it throws.\<close>

theorem refused_genesis_poisons:
  assumes "hex_codec C" "mget st (b_accountId b) = None" "computeContentHash C b = b_hash b"
    "vs \<longrightarrow> verifyBlockSignature C b" "b_index b = 0" "b_type b = Open" "b_previousHash b = GENESIS_PREV"
    "\<not> genesis_root_ok C b"
    and "b_accountId g = b_accountId b" "computeContentHash C g = b_hash g" "vs \<longrightarrow> verifyBlockSignature C g"
  shows "\<exists>st'. store_apply C vs b st = Some (refuse ''accumulator root mismatch'', st')
    \<and> (b_index g = 0 \<longrightarrow> (\<exists>why. store_apply C vs g st' = Some (refuse why, st')))
    \<and> (b_index g \<noteq> 0 \<longrightarrow> store_apply C vs g st' = None)"
  using assms by (rule poisoned_genesis)

theorem refused_genesis_poisons_witness:
  "\<exists>st'. store_apply demo_crypto False (sample_genesis\<lparr>b_accumulatorRoot := []\<rparr>) []
        = Some (refuse ''accumulator root mismatch'', st')
    \<and> (\<exists>why. store_apply demo_crypto False sample_genesis st' = Some (refuse why, st'))"
proof -
  let ?b = "sample_genesis\<lparr>b_accumulatorRoot := []\<rparr>"
  have h: "computeContentHash demo_crypto sample_genesis = b_hash sample_genesis"
    using sample_genesis_chain by (auto simp: valid_chain_def verifyBlock_def split: option.splits if_splits)
  have h': "computeContentHash demo_crypto ?b = b_hash ?b"
    using h by (simp add: computeContentHash_def canonicalContent_def content_fields_def sample_genesis_fields)
  have bad: "\<not> genesis_root_ok demo_crypto ?b"
    by (simp add: genesis_root_ok_def sample_genesis_fields rootWithHex_def toBytes_def demo_total)
      (simp add: demo_crypto_def leafHash_def hash_bytes_def demo_digest_def split: prod.split)
  show ?thesis
    using refused_genesis_poisons [of demo_crypto "[]" ?b False sample_genesis] h h' bad
    by (simp add: demo_hex_codec sample_genesis_fields)
qed

end
