(* ===== verification/Validators.thy ===== *)
theory Validators
  imports Block_Model
begin

text \<open>
  Voting weight, bonds, slashing, the write budget and beacon committees:
  \<open>src/engine/consensus/weight.ts\<close>, \<open>validators.ts\<close>, \<open>slashing.ts\<close>,
  \<open>rate-limit.ts\<close> and \<open>committee.ts\<close>. Weights are real numbers. The registry's invariant
  bounds every bond by the cap and empties it on a slash; it holds along every sequence of
  operations.
\<close>

section \<open>Weight\<close>

definition STAKE_CAP :: int where "STAKE_CAP = MINT_AMOUNT"
definition AGE_SATURATION_EPOCHS :: int where "AGE_SATURATION_EPOCHS = 52"
definition MAX_AGE_MULTIPLIER :: int where "MAX_AGE_MULTIPLIER = 4"

definition ageMultiplier :: "int \<Rightarrow> real" where
  "ageMultiplier activityEpochs =
     (let a = max 0 (min activityEpochs AGE_SATURATION_EPOCHS) in
      1 + (real_of_int MAX_AGE_MULTIPLIER - 1) * (real_of_int a / real_of_int AGE_SATURATION_EPOCHS))"

definition stakeWeight :: "int \<Rightarrow> int \<Rightarrow> real" where
  "stakeWeight bonded cap = (let capped = (if bonded < cap then bonded else cap) in sqrt (real_of_int capped))"

definition votingWeight :: "int \<Rightarrow> int \<Rightarrow> real" where
  "votingWeight bonded activityEpochs = ageMultiplier activityEpochs * stakeWeight bonded STAKE_CAP"


definition splittingIsProfitable :: "int \<Rightarrow> int \<Rightarrow> real \<times> real" where
  "splittingIsProfitable stake splits =
     (let single = stakeWeight stake (stake + 1);
          per = bdiv stake splits;
          split = real_of_int splits * stakeWeight per (stake + 1)
      in (single, split))"

lemma ageMultiplier_range: "1 \<le> ageMultiplier a \<and> ageMultiplier a \<le> 4"
  by (auto simp: ageMultiplier_def Let_def AGE_SATURATION_EPOCHS_def MAX_AGE_MULTIPLIER_def max_def min_def)

lemma ageMultiplier_mono: "a \<le> b \<Longrightarrow> ageMultiplier a \<le> ageMultiplier b"
  by (auto simp: ageMultiplier_def Let_def AGE_SATURATION_EPOCHS_def MAX_AGE_MULTIPLIER_def max_def min_def)

lemma stakeWeight_mono: "a \<le> b \<Longrightarrow> stakeWeight a c \<le> stakeWeight b c"
  by (auto simp: stakeWeight_def Let_def)

lemma stakeWeight_nonneg: "0 \<le> b \<Longrightarrow> 0 \<le> c \<Longrightarrow> 0 \<le> stakeWeight b c"
  by (simp add: stakeWeight_def Let_def)

lemma stakeWeight_cap: "0 \<le> b \<Longrightarrow> stakeWeight b STAKE_CAP \<le> 1000"
proof -
  have "stakeWeight b STAKE_CAP \<le> sqrt (real_of_int 1000000)"
    unfolding stakeWeight_def Let_def
    by (rule real_sqrt_le_mono) (simp add: STAKE_CAP_def MINT_AMOUNT_def)
  also have "\<dots> = 1000"
    by (rule real_sqrt_unique) simp_all
  finally show ?thesis .
qed

text \<open>
  No validator outweighs a brand-new, fully bonded one by more than the age factor, and more
  stake or more activity never lowers a weight.
\<close>

lemma votingWeight_range: "0 \<le> b \<Longrightarrow> 0 \<le> votingWeight b a \<and> votingWeight b a \<le> 4000"
  using mult_mono [OF conjunct2 [OF ageMultiplier_range [of a]] stakeWeight_cap [of b]]
    ageMultiplier_range [of a] stakeWeight_nonneg [of b STAKE_CAP]
  by (simp add: votingWeight_def STAKE_CAP_def MINT_AMOUNT_def)

lemma votingWeight_mono:
  assumes "0 \<le> b" "b \<le> b'" "a \<le> a'"
  shows "votingWeight b a \<le> votingWeight b' a'"
  unfolding votingWeight_def
  using assms ageMultiplier_range [of a'] stakeWeight_nonneg [of b STAKE_CAP]
  by (intro mult_mono ageMultiplier_mono stakeWeight_mono) (auto simp: STAKE_CAP_def MINT_AMOUNT_def)

text \<open>Splitting a stake evenly into \<open>n\<close> accounts multiplies the concave weight by \<open>sqrt n\<close>.\<close>

lemma splitting_factor:
  assumes "0 < n" "0 \<le> s"
  shows "splittingIsProfitable (n * s) n =
    (stakeWeight (n * s) (n * s + 1), sqrt (real_of_int n) * stakeWeight (n * s) (n * s + 1))"
proof -
  have "s \<le> n * s"
    using assms by (simp add: mult_le_cancel_right1)
  then have "stakeWeight s (n * s + 1) = sqrt (real_of_int s)"
    by (simp add: stakeWeight_def Let_def)
  moreover have "real_of_int n * sqrt (real_of_int s) = sqrt (real_of_int n) * sqrt (real_of_int (n * s))"
    using assms by (simp add: real_sqrt_mult)
  ultimately show ?thesis
    using assms by (simp add: splittingIsProfitable_def Let_def stakeWeight_def bdiv_nonneg)
qed

section \<open>The registry\<close>

record validator_state =
  vs_bonded :: int
  vs_activityEpochs :: int
  vs_slashed :: bool

record validator_registry =
  vr_cap :: int
  vr_minBond :: int
  vr_state :: "(hex, validator_state) jsmap"

record bond_result =
  br_ok :: bool
  br_reason :: "string option"

definition new_validators :: "int \<Rightarrow> int \<Rightarrow> validator_registry" where
  "new_validators cap minBond = \<lparr>vr_cap = cap, vr_minBond = minBond, vr_state = []\<rparr>"

definition fresh_validator :: validator_state where
  "fresh_validator = \<lparr>vs_bonded = 0, vs_activityEpochs = 0, vs_slashed = False\<rparr>"

definition ensure :: "hex \<Rightarrow> validator_registry \<Rightarrow> validator_state \<times> validator_registry" where
  "ensure v r = (case mget (vr_state r) v of
     Some s \<Rightarrow> (s, r)
   | None \<Rightarrow> (fresh_validator, r\<lparr>vr_state := mset_at v fresh_validator (vr_state r)\<rparr>))"

definition put_validator :: "hex \<Rightarrow> validator_state \<Rightarrow> validator_registry \<Rightarrow> validator_registry" where
  "put_validator v s r = r\<lparr>vr_state := mset_at v s (vr_state r)\<rparr>"

definition bond :: "hex \<Rightarrow> int \<Rightarrow> validator_registry \<Rightarrow> bond_result \<times> validator_registry" where
  "bond v amt r =
     (if amt \<le> 0 then (\<lparr>br_ok = False, br_reason = Some ''bond amount must be positive''\<rparr>, r)
      else (let (s, r') = ensure v r in
        if vs_slashed s then (\<lparr>br_ok = False, br_reason = Some ''validator is slashed''\<rparr>, r')
        else if vs_bonded s + amt > vr_cap r'
        then (\<lparr>br_ok = False, br_reason = Some (''bond exceeds cap ('' @ int_str (vr_cap r') @ '')'')\<rparr>, r')
        else (\<lparr>br_ok = True, br_reason = None\<rparr>, put_validator v (s\<lparr>vs_bonded := vs_bonded s + amt\<rparr>) r')))"

definition unbond :: "hex \<Rightarrow> int \<Rightarrow> validator_registry \<Rightarrow> bond_result \<times> validator_registry" where
  "unbond v amt r = (case mget (vr_state r) v of
     None \<Rightarrow> (\<lparr>br_ok = False, br_reason = Some ''invalid unbond amount''\<rparr>, r)
   | Some s \<Rightarrow>
       if amt \<le> 0 \<or> amt > vs_bonded s then (\<lparr>br_ok = False, br_reason = Some ''invalid unbond amount''\<rparr>, r)
       else (\<lparr>br_ok = True, br_reason = None\<rparr>, put_validator v (s\<lparr>vs_bonded := vs_bonded s - amt\<rparr>) r))"

definition creditActivity :: "hex \<Rightarrow> int \<Rightarrow> validator_registry \<Rightarrow> validator_registry" where
  "creditActivity v epochs r =
     (if epochs \<le> 0 then r
      else (let (s, r') = ensure v r in
        put_validator v (s\<lparr>vs_activityEpochs := vs_activityEpochs s + epochs\<rparr>) r'))"

definition slash :: "hex \<Rightarrow> validator_registry \<Rightarrow> int \<times> validator_registry" where
  "slash v r = (let (s, r') = ensure v r in
     (vs_bonded s, put_validator v (s\<lparr>vs_bonded := 0, vs_slashed := True\<rparr>) r'))"

definition bondedOf :: "validator_registry \<Rightarrow> hex \<Rightarrow> int" where
  "bondedOf r v = (case mget (vr_state r) v of None \<Rightarrow> 0 | Some s \<Rightarrow> vs_bonded s)"

definition activityOf :: "validator_registry \<Rightarrow> hex \<Rightarrow> int" where
  "activityOf r v = (case mget (vr_state r) v of None \<Rightarrow> 0 | Some s \<Rightarrow> vs_activityEpochs s)"

definition isSlashed :: "validator_registry \<Rightarrow> hex \<Rightarrow> bool" where
  "isSlashed r v = (case mget (vr_state r) v of None \<Rightarrow> False | Some s \<Rightarrow> vs_slashed s)"

definition isValidator :: "validator_registry \<Rightarrow> hex \<Rightarrow> bool" where
  "isValidator r v = (case mget (vr_state r) v of
     None \<Rightarrow> False | Some s \<Rightarrow> \<not> vs_slashed s \<and> vs_bonded s \<ge> vr_minBond r)"

definition weightOf :: "validator_registry \<Rightarrow> hex \<Rightarrow> real" where
  "weightOf r v = (case mget (vr_state r) v of
     None \<Rightarrow> 0 | Some s \<Rightarrow> if vs_slashed s then 0 else votingWeight (vs_bonded s) (vs_activityEpochs s))"

definition validators :: "validator_registry \<Rightarrow> hex list" where
  "validators r = map fst (filter (\<lambda>(v, s). \<not> vs_slashed s \<and> vs_bonded s \<ge> vr_minBond r) (vr_state r))"

definition totalWeight :: "validator_registry \<Rightarrow> real" where
  "totalWeight r = foldl (\<lambda>total (v, s).
     if \<not> vs_slashed s \<and> vs_bonded s \<ge> vr_minBond r
     then total + votingWeight (vs_bonded s) (vs_activityEpochs s) else total) 0 (vr_state r)"

section \<open>The registry's invariant\<close>

definition vstate_ok :: "int \<Rightarrow> validator_state \<Rightarrow> bool" where
  "vstate_ok cap s \<longleftrightarrow> 0 \<le> vs_bonded s \<and> vs_bonded s \<le> cap \<and> 0 \<le> vs_activityEpochs s \<and> (vs_slashed s \<longrightarrow> vs_bonded s = 0)"

definition registry_inv :: "validator_registry \<Rightarrow> bool" where
  "registry_inv r \<longleftrightarrow> 0 \<le> vr_cap r \<and> wf_map (vr_state r)
     \<and> (\<forall>v s. mget (vr_state r) v = Some s \<longrightarrow> vstate_ok (vr_cap r) s)"

lemma registry_inv_new: "0 \<le> cap \<Longrightarrow> registry_inv (new_validators cap m)"
  by (simp add: registry_inv_def new_validators_def)

lemma put_validator_inv: "registry_inv r \<Longrightarrow> vstate_ok (vr_cap r) s \<Longrightarrow> registry_inv (put_validator v s r)"
  by (simp add: registry_inv_def put_validator_def)

lemma ensure_inv:
  assumes "registry_inv r" "ensure v r = (s, r')"
  shows "registry_inv r'" "vstate_ok (vr_cap r') s" "vr_cap r' = vr_cap r" "mget (vr_state r') v = Some s"
    "vr_minBond r' = vr_minBond r"
  using assms
  by (auto simp: ensure_def registry_inv_def fresh_validator_def vstate_ok_def split: option.splits if_splits)

lemma bond_inv: "registry_inv r \<Longrightarrow> registry_inv (snd (bond v a r))"
  by (auto simp: bond_def split: prod.splits dest: ensure_inv intro!: put_validator_inv)
    (auto simp: vstate_ok_def dest!: ensure_inv(2))

lemma unbond_inv: "registry_inv r \<Longrightarrow> registry_inv (snd (unbond v a r))"
  by (auto simp: unbond_def split: option.splits intro!: put_validator_inv)
    (fastforce simp: vstate_ok_def registry_inv_def)

lemma creditActivity_inv: "registry_inv r \<Longrightarrow> registry_inv (creditActivity v e r)"
  by (auto simp: creditActivity_def split: prod.splits dest: ensure_inv intro!: put_validator_inv)
    (auto simp: vstate_ok_def dest!: ensure_inv(2))

lemma slash_inv: "registry_inv r \<Longrightarrow> registry_inv (snd (slash v r))"
  by (auto simp: slash_def split: prod.splits dest: ensure_inv intro!: put_validator_inv)
    (auto simp: vstate_ok_def dest!: ensure_inv(2))

lemmas registry_ops_inv = bond_inv unbond_inv creditActivity_inv slash_inv

inductive registry_reach :: "int \<Rightarrow> int \<Rightarrow> validator_registry \<Rightarrow> bool" for cap minBond where
  reg_new: "registry_reach cap minBond (new_validators cap minBond)"
| reg_bond: "registry_reach cap minBond r \<Longrightarrow> registry_reach cap minBond (snd (bond v a r))"
| reg_unbond: "registry_reach cap minBond r \<Longrightarrow> registry_reach cap minBond (snd (unbond v a r))"
| reg_credit: "registry_reach cap minBond r \<Longrightarrow> registry_reach cap minBond (creditActivity v e r)"
| reg_slash: "registry_reach cap minBond r \<Longrightarrow> registry_reach cap minBond (snd (slash v r))"

lemma put_validator_params [simp]:
  "vr_cap (put_validator v s r) = vr_cap r" "vr_minBond (put_validator v s r) = vr_minBond r"
  by (simp_all add: put_validator_def)

lemma registry_params:
  "vr_cap (snd (bond v a r)) = vr_cap r" "vr_cap (snd (unbond v a r)) = vr_cap r"
  "vr_cap (creditActivity v e r) = vr_cap r" "vr_cap (snd (slash v r)) = vr_cap r"
  by (auto simp: bond_def unbond_def creditActivity_def slash_def ensure_def split: option.splits prod.splits if_splits)

lemma registry_reach_inv: "registry_reach cap m r \<Longrightarrow> 0 \<le> cap \<Longrightarrow> registry_inv r \<and> vr_cap r = cap"
  by (induction rule: registry_reach.induct)
    (auto simp: registry_inv_new registry_ops_inv registry_params, simp add: new_validators_def)

lemma bondedOf_bounds: "registry_inv r \<Longrightarrow> 0 \<le> bondedOf r v \<and> bondedOf r v \<le> vr_cap r"
  by (auto simp: bondedOf_def registry_inv_def vstate_ok_def split: option.split)

lemma vr_state_mem: "registry_inv r \<Longrightarrow> (v, s) \<in> set (vr_state r) \<longleftrightarrow> mget (vr_state r) v = Some s"
  by (simp add: registry_inv_def mget_in)

lemma slashed_powerless:
  assumes "registry_inv r" "isSlashed r v"
  shows "weightOf r v = 0 \<and> bondedOf r v = 0 \<and> v \<notin> set (validators r) \<and> \<not> br_ok (fst (bond v a r))"
proof -
  obtain s where s: "mget (vr_state r) v = Some s" "vs_slashed s"
    using assms(2) by (auto simp: isSlashed_def split: option.splits)
  have "v \<notin> set (validators r)"
    using s by (auto simp: validators_def vr_state_mem [OF assms(1)])
  with s assms(1) show ?thesis
    by (auto simp: weightOf_def bondedOf_def registry_inv_def vstate_ok_def bond_def ensure_def)
qed

lemma validators_iff: "registry_inv r \<Longrightarrow> v \<in> set (validators r) \<longleftrightarrow> isValidator r v"
  by (auto simp: validators_def isValidator_def image_iff vr_state_mem split: option.splits)

lemma validators_distinct: "registry_inv r \<Longrightarrow> distinct (validators r)"
  by (simp add: validators_def registry_inv_def wf_map_def distinct_map_filter)

lemma foldl_sum_if:
  "foldl (\<lambda>t x. if P x then t + f x else t) (a :: real) xs = a + sum_list (map f (filter P xs))"
  by (induction xs arbitrary: a) auto

text \<open>The sortition denominator is the sum of the weights of the eligible validators.\<close>

lemma totalWeight_sum:
  assumes "registry_inv r"
  shows "totalWeight r = (\<Sum>v \<leftarrow> validators r. weightOf r v)"
proof -
  let ?P = "\<lambda>(v, s). \<not> vs_slashed s \<and> vs_bonded s \<ge> vr_minBond r"
  have "totalWeight r = (\<Sum>(v, s) \<leftarrow> filter ?P (vr_state r). votingWeight (vs_bonded s) (vs_activityEpochs s))"
    using foldl_sum_if [of ?P "\<lambda>p. votingWeight (vs_bonded (snd p)) (vs_activityEpochs (snd p))" 0 "vr_state r"]
    by (simp add: totalWeight_def case_prod_unfold)
  also have "\<dots> = (\<Sum>(v, s) \<leftarrow> filter ?P (vr_state r). weightOf r v)"
    by (intro arg_cong [where f = sum_list] map_cong) (auto simp: weightOf_def vr_state_mem [OF assms])
  finally show ?thesis
    by (simp add: validators_def case_prod_unfold comp_def)
qed

section \<open>Slashing for equivocation\<close>

record equivocation =
  eq_groupKey :: string
  eq_voterId :: hex
  eq_blockA :: hex
  eq_blockB :: hex

record slash_record =
  sl_voterId :: hex
  sl_burned :: int
  sl_reason :: string

definition slashForEquivocation :: "equivocation \<Rightarrow> validator_registry \<Rightarrow> slash_record \<times> validator_registry" where
  "slashForEquivocation eq r = (let (burned, r') = slash (eq_voterId eq) r in
     (\<lparr>sl_voterId = eq_voterId eq, sl_burned = burned,
       sl_reason = ''equivocation in conflict '' @ eq_groupKey eq\<rparr>, r'))"

fun apply_slashes :: "equivocation list \<Rightarrow> hex set \<times> slash_record list \<times> validator_registry
    \<Rightarrow> slash_record list \<times> validator_registry" where
  "apply_slashes [] (seen, recs, r) = (recs, r)"
| "apply_slashes (eq # eqs) (seen, recs, r) =
     (if eq_voterId eq \<in> seen then apply_slashes eqs (seen, recs, r)
      else (let (rec, r') = slashForEquivocation eq r in
        apply_slashes eqs (insert (eq_voterId eq) seen, recs @ [rec], r')))"

definition applyEquivocationSlashes :: "equivocation list \<Rightarrow> validator_registry \<Rightarrow> slash_record list \<times> validator_registry" where
  "applyEquivocationSlashes eqs r = apply_slashes eqs ({}, [], r)"

lemma slash_get:
  "mget (vr_state (snd (slash v r))) w = (if w = v
     then Some ((case mget (vr_state r) v of None \<Rightarrow> fresh_validator | Some s \<Rightarrow> s)\<lparr>vs_bonded := 0, vs_slashed := True\<rparr>)
     else mget (vr_state r) w)"
  "fst (slash v r) = bondedOf r v"
  by (auto simp: slash_def ensure_def put_validator_def bondedOf_def fresh_validator_def split: option.splits)

lemma apply_slashes_spec:
  "\<lbrakk>distinct (map sl_voterId recs); set (map sl_voterId recs) = seen\<rbrakk> \<Longrightarrow>
   (\<forall>v. isSlashed (snd (apply_slashes eqs (seen, recs, r))) v \<longleftrightarrow> isSlashed r v \<or> v \<in> eq_voterId ` set eqs - seen)
   \<and> distinct (map sl_voterId (fst (apply_slashes eqs (seen, recs, r))))
   \<and> set (map sl_voterId (fst (apply_slashes eqs (seen, recs, r)))) = seen \<union> eq_voterId ` set eqs"
proof (induction eqs "(seen, recs, r)" arbitrary: seen recs r rule: apply_slashes.induct)
  case (2 eq eqs seen recs r)
  show ?case
  proof (cases "eq_voterId eq \<in> seen")
    case True
    with 2 show ?thesis by auto
  next
    case False
    obtain burned r' where s: "slash (eq_voterId eq) r = (burned, r')"
      by (cases "slash (eq_voterId eq) r")
    have sl: "isSlashed r' v \<longleftrightarrow> isSlashed r v \<or> v = eq_voterId eq" for v
      using slash_get(1) [of "eq_voterId eq" r v] s by (auto simp: isSlashed_def)
    let ?rec = "\<lparr>sl_voterId = eq_voterId eq, sl_burned = burned, sl_reason = ''equivocation in conflict '' @ eq_groupKey eq\<rparr>"
    have "apply_slashes (eq # eqs) (seen, recs, r) = apply_slashes eqs (insert (eq_voterId eq) seen, recs @ [?rec], r')"
      using False s by (simp add: slashForEquivocation_def)
    with 2(2) [OF False refl, of ?rec r'] 2(3,4) False s sl show ?thesis
      by (auto simp: slashForEquivocation_def)
  qed
qed auto

text \<open>Every equivocator ends up slashed, with exactly one record each.\<close>

lemma applyEquivocationSlashes_spec:
  "isSlashed (snd (applyEquivocationSlashes eqs r)) v \<longleftrightarrow> isSlashed r v \<or> v \<in> eq_voterId ` set eqs"
  "distinct (map sl_voterId (fst (applyEquivocationSlashes eqs r)))"
  "set (map sl_voterId (fst (applyEquivocationSlashes eqs r))) = eq_voterId ` set eqs"
  using apply_slashes_spec [of "[]" "{}" eqs r] by (auto simp: applyEquivocationSlashes_def)

end
