(* ===== verification/Committee.thy ===== *)
theory Committee
  imports Validators
begin

text \<open>
  The stake-bonded write budget (\<open>src/engine/consensus/rate-limit.ts\<close>) and the beacon-seeded
  committee (\<open>committee.ts\<close>). Within an epoch the accepted costs of an account never exceed its
  budget; a committee is the set of eligible validators with the lowest tickets.
\<close>

section \<open>Write budget\<close>

definition MIN_WRITE_BUDGET :: int where "MIN_WRITE_BUDGET = 2"
definition BUDGET_DIVISOR :: real where "BUDGET_DIVISOR = 100"

definition writeBudget :: "int \<Rightarrow> int \<Rightarrow> int" where
  "writeBudget bonded activityEpochs =
     (let scaled = (ageMultiplier activityEpochs * stakeWeight bonded STAKE_CAP) / BUDGET_DIVISOR in
      max MIN_WRITE_BUDGET \<lfloor>scaled\<rfloor>)"

record rate_limiter =
  rl_used :: "hex \<Rightarrow> int option"
  rl_epoch :: int

definition new_limiter :: rate_limiter where
  "new_limiter = \<lparr>rl_used = (\<lambda>_. None), rl_epoch = 0\<rparr>"

definition rotate :: "int \<Rightarrow> rate_limiter \<Rightarrow> rate_limiter" where
  "rotate epoch l = (if epoch \<noteq> rl_epoch l then l\<lparr>rl_epoch := epoch, rl_used := (\<lambda>_. None)\<rparr> else l)"

definition budgetFor :: "validator_registry \<Rightarrow> hex \<Rightarrow> int" where
  "budgetFor r v = writeBudget (bondedOf r v) (activityOf r v)"

definition consumed :: "rate_limiter \<Rightarrow> hex \<Rightarrow> int" where
  "consumed l v = nvl (rl_used l v) 0"

definition tryConsume :: "validator_registry \<Rightarrow> hex \<Rightarrow> int \<Rightarrow> rate_limiter \<Rightarrow> bool \<times> rate_limiter" where
  "tryConsume r v cost l =
     (let used = nvl (rl_used l v) 0 in
      if used + cost > budgetFor r v then (False, l)
      else (True, l\<lparr>rl_used := (rl_used l)(v \<mapsto> used + cost)\<rparr>))"

lemma writeBudget_range: "0 \<le> b \<Longrightarrow> 2 \<le> writeBudget b a \<and> writeBudget b a \<le> 40"
proof -
  assume "0 \<le> b"
  then have "votingWeight b a \<le> 4000"
    using votingWeight_range by blast
  then have "ageMultiplier a * stakeWeight b STAKE_CAP / BUDGET_DIVISOR \<le> 40"
    by (simp add: votingWeight_def BUDGET_DIVISOR_def)
  then have "\<lfloor>ageMultiplier a * stakeWeight b STAKE_CAP / BUDGET_DIVISOR\<rfloor> \<le> 40"
    by (metis floor_mono floor_numeral)
  then show ?thesis
    by (simp add: writeBudget_def Let_def MIN_WRITE_BUDGET_def)
qed

text \<open>A run of requests within an epoch: the account, the cost, and whether it was accepted.\<close>

fun consume_run :: "validator_registry \<Rightarrow> (hex \<times> int) list \<Rightarrow> rate_limiter \<Rightarrow> (hex \<times> int \<times> bool) list \<times> rate_limiter" where
  "consume_run r [] l = ([], l)"
| "consume_run r ((v, c) # reqs) l =
     (let res = tryConsume r v c l; rest = consume_run r reqs (snd res) in
      ((v, c, fst res) # fst rest, snd rest))"

definition spent :: "hex \<Rightarrow> (hex \<times> int \<times> bool) list \<Rightarrow> int" where
  "spent v lg = (\<Sum>(w, c, ok) \<leftarrow> lg. if w = v \<and> ok then c else 0)"

lemma consumed_run: "consumed (snd (consume_run r reqs l)) v = consumed l v + spent v (fst (consume_run r reqs l))"
  by (induction r reqs l rule: consume_run.induct) (auto simp: spent_def consumed_def tryConsume_def Let_def)

lemma consumed_bound:
  "consumed l v \<le> budgetFor r v \<Longrightarrow> consumed (snd (consume_run r reqs l)) v \<le> budgetFor r v"
  by (induction r reqs l rule: consume_run.induct) (auto simp: consumed_def tryConsume_def Let_def)

text \<open>After a rotation to a new epoch, what is accepted adds up to at most the budget.\<close>

lemma epoch_spend_bound:
  assumes "e \<noteq> rl_epoch l" "0 \<le> bondedOf r v"
  shows "spent v (fst (consume_run r reqs (rotate e l))) \<le> budgetFor r v \<and> budgetFor r v \<le> 40"
proof -
  have z: "consumed (rotate e l) v = 0"
    using assms(1) by (simp add: rotate_def consumed_def)
  have b: "2 \<le> budgetFor r v" "budgetFor r v \<le> 40"
    using writeBudget_range [OF assms(2)] by (simp_all add: budgetFor_def)
  show ?thesis
    using consumed_run [of r reqs "rotate e l" v] consumed_bound [of "rotate e l" v r reqs] z b by simp
qed

section \<open>Committees\<close>

record committee_options =
  co_committeeSize :: int
  co_minCommitteeSize :: int
  co_minAggregateWeight :: "int option"

record committee =
  cm_shard :: int
  cm_epoch :: int
  cm_members :: "hex list"
  cm_totalWeight :: real
  cm_weights :: "real list"
  cm_safe :: bool
  cm_reason :: "string option"

definition ticket :: "crypto \<Rightarrow> string \<Rightarrow> int \<Rightarrow> int \<Rightarrow> hex \<Rightarrow> hex" where
  "ticket C seed epoch shard v =
     hashHex C [c_utf8 C (seed @ '':'' @ int_str epoch @ '':'' @ int_str shard @ '':'' @ v)]"

text \<open>\<open>x.toFixed(1)\<close> for a non-negative number.\<close>

definition toFixed1 :: "real \<Rightarrow> string" where
  "toFixed1 x = (let n = js_round (10 * x) in int_str (n div 10) @ ''.'' @ int_str (n mod 10))"

definition ranked :: "crypto \<Rightarrow> string \<Rightarrow> int \<Rightarrow> int \<Rightarrow> hex list \<Rightarrow> (hex \<times> hex) list" where
  "ranked C seed epoch shard eligible = sort_key snd (map (\<lambda>v. (v, ticket C seed epoch shard v)) eligible)"

definition selectCommittee ::
  "crypto \<Rightarrow> validator_registry \<Rightarrow> int \<Rightarrow> int \<Rightarrow> string \<Rightarrow> committee_options \<Rightarrow> committee" where
  "selectCommittee C registry shard epoch seed opts =
     (let eligible = validators registry in
      if int (length eligible) < co_minCommitteeSize opts
      then \<lparr>cm_shard = shard, cm_epoch = epoch, cm_members = [], cm_totalWeight = 0, cm_weights = [], cm_safe = False,
             cm_reason = Some (''too few validators ('' @ int_str (int (length eligible)) @ '' < ''
               @ int_str (co_minCommitteeSize opts) @ '')'')\<rparr>
      else
        let members = map fst (slice0 (co_committeeSize opts) (ranked C seed epoch shard eligible));
            weights = map (weightOf registry) members;
            total = foldl (+) 0 weights;
            (safe, reason) =
              (if int (length members) < co_minCommitteeSize opts then (False, Some ''committee smaller than minimum'')
               else (case co_minAggregateWeight opts of
                   None \<Rightarrow> (True, None)
                 | Some m \<Rightarrow> if total < real_of_int m
                     then (False, Some (''insufficient aggregate seniority ('' @ toFixed1 total @ '' < '' @ int_str m @ '')''))
                     else (True, None)))
        in \<lparr>cm_shard = shard, cm_epoch = epoch, cm_members = members, cm_totalWeight = total, cm_weights = weights,
             cm_safe = safe, cm_reason = reason\<rparr>)"

definition isOnCommittee :: "committee \<Rightarrow> hex \<Rightarrow> bool" where
  "isOnCommittee c v = (v \<in> set (cm_members c))"

lemma selectCommittee_members:
  "cm_members (selectCommittee C r shard epoch seed opts) =
    (if int (length (validators r)) < co_minCommitteeSize opts then []
     else map fst (slice0 (co_committeeSize opts) (ranked C seed epoch shard (validators r))))"
  by (simp add: selectCommittee_def Let_def split: prod.split)

lemma ranked_props:
  "set (ranked C seed e s vs) = (\<lambda>v. (v, ticket C seed e s v)) ` set vs"
  "sorted (map snd (ranked C seed e s vs))"
  "distinct vs \<Longrightarrow> distinct (map fst (ranked C seed e s vs))"
proof -
  show "distinct (map fst (ranked C seed e s vs))" if "distinct vs"
  proof -
    have "mset (map fst (ranked C seed e s vs)) = mset vs"
      by (simp add: ranked_def multiset.map_comp comp_def)
    with that show ?thesis
      using mset_eq_imp_distinct_iff by blast
  qed
qed (auto simp: ranked_def)

text \<open>
  Members are distinct eligible validators, and no validator left out has a lower ticket than a
  member.
\<close>

lemma committee_lowest_tickets:
  assumes "registry_inv r"
  shows "distinct (cm_members (selectCommittee C r shard epoch seed opts))"
    "set (cm_members (selectCommittee C r shard epoch seed opts)) \<subseteq> set (validators r)"
    "m \<in> set (cm_members (selectCommittee C r shard epoch seed opts)) \<Longrightarrow> v \<in> set (validators r) \<Longrightarrow>
     v \<notin> set (cm_members (selectCommittee C r shard epoch seed opts)) \<Longrightarrow>
     ticket C seed epoch shard m \<le> ticket C seed epoch shard v"
proof -
  let ?rk = "ranked C seed epoch shard (validators r)"
  obtain k where k: "slice0 (co_committeeSize opts) ?rk = take k ?rk"
    using slice0_prefix by blast
  note rp = ranked_props [where C = C and seed = seed and e = epoch and s = shard and vs = "validators r"]
  note mem = selectCommittee_members [of C r shard epoch seed opts, unfolded k]
  show "distinct (cm_members (selectCommittee C r shard epoch seed opts))"
    using rp(3) [OF validators_distinct [OF assms]] by (simp add: mem distinct_take flip: take_map)
  show "set (cm_members (selectCommittee C r shard epoch seed opts)) \<subseteq> set (validators r)"
    using rp(1) set_take_subset [of k ?rk] by (auto simp: mem)
  assume m: "m \<in> set (cm_members (selectCommittee C r shard epoch seed opts))"
    and v: "v \<in> set (validators r)" "v \<notin> set (cm_members (selectCommittee C r shard epoch seed opts))"
  have in1: "(m, ticket C seed epoch shard m) \<in> set (take k ?rk)"
    using m rp(1) set_take_subset [of k ?rk] by (force simp: mem split: if_splits)
  have nin: "(v, ticket C seed epoch shard v) \<notin> set (take k ?rk)"
    using m v by (force simp: mem split: if_splits)
  have "(v, ticket C seed epoch shard v) \<in> set ?rk"
    using v(1) rp(1) by auto
  then have in2: "(v, ticket C seed epoch shard v) \<in> set (drop k ?rk)"
    using nin by (metis Un_iff append_take_drop_id set_append)
  have "sorted (map snd (take k ?rk @ drop k ?rk))"
    using rp(2) by simp
  then have "\<forall>x \<in> set (map snd (take k ?rk)). \<forall>y \<in> set (map snd (drop k ?rk)). x \<le> y"
    unfolding map_append sorted_append by blast
  moreover have "ticket C seed epoch shard m \<in> set (map snd (take k ?rk))"
    using in1 by force
  moreover have "ticket C seed epoch shard v \<in> set (map snd (drop k ?rk))"
    using in2 by force
  ultimately show "ticket C seed epoch shard m \<le> ticket C seed epoch shard v"
    by blast
qed

lemma committee_safe:
  assumes "cm_safe (selectCommittee C r shard epoch seed opts)"
  shows "co_minCommitteeSize opts \<le> int (length (cm_members (selectCommittee C r shard epoch seed opts)))
    \<and> (\<forall>m. co_minAggregateWeight opts = Some m \<longrightarrow>
         real_of_int m \<le> cm_totalWeight (selectCommittee C r shard epoch seed opts))"
  using assms by (auto simp: selectCommittee_def Let_def split: if_splits option.splits prod.splits)

end
