(* ===== verification/Seed.thy ===== *)
theory Seed
  imports Crypto_Env
begin

text \<open>
  The accumulated epoch seed, \<open>src/engine/consensus/seed.ts\<close>. The next seed is a function of
  the set of revealed betas: gossip order and repetition do not matter, and two different sets
  (of 32-byte betas) give different seeds unless the hash collides on them.
\<close>

definition GENESIS_SEED :: "crypto \<Rightarrow> hex" where
  "GENESIS_SEED C = hashHex C [c_utf8 C ''neuron-epoch-seed/genesis/v1'']"

fun decode_all :: "crypto \<Rightarrow> hex list \<Rightarrow> bytes list option" where
  "decode_all C [] = Some []"
| "decode_all C (h # hs) = (case c_fromHex C h of None \<Rightarrow> None | Some b \<Rightarrow> map_option (Cons b) (decode_all C hs))"

definition seed_parts :: "crypto \<Rightarrow> hex \<Rightarrow> hex list \<Rightarrow> bytes list option" where
  "seed_parts C prevSeed betas = decode_all C (prevSeed # sort (remdups betas))"

text \<open>\<open>hexToBytes\<close> throws on malformed input: \<open>None\<close>.\<close>

definition deriveNextSeed :: "crypto \<Rightarrow> hex \<Rightarrow> hex list \<Rightarrow> hex option" where
  "deriveNextSeed C prevSeed betas = map_option (hashHex C) (seed_parts C prevSeed betas)"

type_synonym epoch_seeds = "(int, hex) jsmap"

definition new_seeds :: "hex \<Rightarrow> epoch_seeds" where
  "new_seeds genesis = mset_at 0 genesis []"

definition seedFor :: "epoch_seeds \<Rightarrow> int \<Rightarrow> hex option" where
  "seedFor s epoch = mget s epoch"

definition currentEpoch :: "epoch_seeds \<Rightarrow> int" where
  "currentEpoch s = foldl (\<lambda>mx e. if e > mx then e else mx) 0 (mkeys s)"

definition commit :: "crypto \<Rightarrow> int \<Rightarrow> hex list \<Rightarrow> epoch_seeds \<Rightarrow> (hex \<times> epoch_seeds) option" where
  "commit C epoch betas s = (case mget s epoch of
     None \<Rightarrow> None
   | Some prev \<Rightarrow> (case deriveNextSeed C prev betas of
       None \<Rightarrow> None
     | Some nxt \<Rightarrow> Some (nxt, mset_at (epoch + 1) nxt s)))"

definition EPOCH_BLOCKS :: int where "EPOCH_BLOCKS = 1024"

definition epochOfHeight :: "int \<Rightarrow> int \<Rightarrow> int" where
  "epochOfHeight height epochBlocks = max 0 height div epochBlocks"

section \<open>Order independence and binding\<close>

lemma sort_remdups_set: "set xs = set ys \<Longrightarrow> sort (remdups xs) = sort (remdups (ys :: 'a :: linorder list))"
  by (rule sorted_distinct_set_unique) simp_all

lemma deriveNextSeed_set: "set xs = set ys \<Longrightarrow> deriveNextSeed C p xs = deriveNextSeed C p ys"
  using sort_remdups_set [of xs ys] by (simp add: deriveNextSeed_def seed_parts_def)

lemma concat_fixed_inj:
  assumes "list_all (\<lambda>x. length x = n) xs" "list_all (\<lambda>y. length y = n) ys" "0 < n" "concat xs = concat ys"
  shows "xs = ys"
  using assms
proof (induction xs arbitrary: ys)
  case Nil
  show ?case
  proof (cases ys)
    case (Cons y ys')
    with Nil have "y = []" "length y = n" by simp_all
    with Nil(3) show ?thesis by simp
  qed simp
next
  case (Cons x xs)
  have "x \<noteq> []" using Cons.prems(1,3) by auto
  then obtain y ys' where ys: "ys = y # ys'"
    using Cons.prems(4) by (cases ys) simp_all
  have "length x = length y"
    using Cons.prems(1,2) ys by simp
  with Cons.prems(4) ys have "x = y" "concat xs = concat ys'"
    by simp_all
  with Cons.IH [of ys'] Cons.prems(1-3) ys show ?case by simp
qed

lemma deriveNextSeed_binds:
  assumes "deriveNextSeed C p xs = Some s" "deriveNextSeed C q ys = Some s"
    and "seed_parts C p xs = Some as" "seed_parts C q ys = Some bs"
    and "\<forall>a \<in> set as \<union> set bs. length a = 32"
    and "hex_codec C" "inj_on (c_sha256 C) {concat as, concat bs}"
  shows "as = bs"
proof -
  have "c_toHex C (c_sha256 C (concat as)) = c_toHex C (c_sha256 C (concat bs))"
    using assms(1-4) by (simp add: deriveNextSeed_def hashHex_def hash_bytes_def)
  then have "c_sha256 C (concat as) = c_sha256 C (concat bs)"
    using assms(6) by (simp add: toHex_inj)
  then have "concat as = concat bs"
    using assms(7) by (auto dest: inj_onD)
  then show ?thesis
    using assms(5) by (intro concat_fixed_inj [where n = 32]) (simp_all add: list_all_iff)
qed

text \<open>
  Seeds are built strictly in order: starting from the genesis, the known epochs are always an
  initial segment, whatever commits are tried.
\<close>

fun run_commits :: "crypto \<Rightarrow> (int \<times> hex list) list \<Rightarrow> epoch_seeds \<Rightarrow> epoch_seeds" where
  "run_commits C [] s = s"
| "run_commits C ((e, betas) # cs) s =
     run_commits C cs (case commit C e betas s of None \<Rightarrow> s | Some (_, s') \<Rightarrow> s')"

definition segment :: "epoch_seeds \<Rightarrow> bool" where
  "segment s \<longleftrightarrow> (\<exists>n \<ge> 0. \<forall>e. mget s e \<noteq> None \<longleftrightarrow> 0 \<le> e \<and> e \<le> n)"

lemma commit_segment:
  assumes "segment s" "commit C e betas s = Some (x, s')"
  shows "segment s'"
proof -
  obtain n where n: "0 \<le> n" "\<And>e. mget s e \<noteq> None \<longleftrightarrow> 0 \<le> e \<and> e \<le> n"
    using assms(1) by (auto simp: segment_def)
  have e: "mget s e \<noteq> None" and s': "mget s' = (mget s)(e + 1 \<mapsto> x)"
    using assms(2) by (auto simp: commit_def split: option.splits)
  have "mget s' k \<noteq> None \<longleftrightarrow> 0 \<le> k \<and> k \<le> max n (e + 1)" for k
    using n(2) [of k] n(2) [of e] e by (auto simp: s')
  with n(1) show ?thesis
    unfolding segment_def by (intro exI [of _ "max n (e + 1)"]) auto
qed

lemma run_commits_segment: "segment s \<Longrightarrow> segment (run_commits C cs s)"
  by (induction C cs s rule: run_commits.induct) (auto split: option.splits dest: commit_segment)

lemma new_seeds_segment: "segment (new_seeds g)"
  unfolding segment_def new_seeds_def by (intro exI [of _ 0]) auto

lemma run_commits_contiguous:
  "\<exists>n \<ge> 0. \<forall>e. seedFor (run_commits C cs (new_seeds g)) e \<noteq> None \<longleftrightarrow> 0 \<le> e \<and> e \<le> n"
  using run_commits_segment [OF new_seeds_segment] by (simp add: segment_def seedFor_def)

lemma commit_idempotent:
  assumes "commit C e betas s = Some (x, s')" "set betas' = set betas"
  shows "\<exists>s''. commit C e betas' s' = Some (x, s'') \<and> mget s'' = mget s'"
proof -
  have "mget s' e = mget s e"
    using assms(1) by (auto simp: commit_def split: option.splits)
  then show ?thesis
    using assms(1) deriveNextSeed_set [OF assms(2)] by (auto simp: commit_def split: option.splits)
qed

lemma epochOfHeight_bounds:
  "0 < n \<Longrightarrow> 0 \<le> h \<Longrightarrow> epochOfHeight h n * n \<le> h \<and> h < (epochOfHeight h n + 1) * n"
proof -
  assume n: "0 < n" "0 \<le> h"
  have "h = h div n * n + h mod n"
    by simp
  then show ?thesis
    using n pos_mod_bound [of n h] pos_mod_sign [of n h]
    unfolding epochOfHeight_def max_absorb2 [OF n(2)] distrib_right mult_1 by linarith
qed

end
