(* ===== verification/Vrf.thy ===== *)
theory Vrf
  imports Crypto_Env
begin

text \<open>
  ECVRF-P256-SHA256-TAI, \<open>src/engine/consensus/vrf.ts\<close>. The curve and HMAC are third-party
  code: a record of operations, with the group laws the code relies on as the predicate
  \<open>curve_laws\<close>. Everything built on them is translated: byte/scalar helpers, try-and-increment,
  the RFC 6979 nonce loop, proofs and their verification. Every proof that \<open>vrfProve\<close> returns
  verifies, with the same output.
\<close>

record 'p curve =
  ec_N :: int
  ec_zero :: 'p
  ec_base :: 'p
  ec_add :: "'p \<Rightarrow> 'p \<Rightarrow> 'p"
  ec_neg :: "'p \<Rightarrow> 'p"
  ec_mult :: "int \<Rightarrow> 'p \<Rightarrow> 'p"
  ec_is0 :: "'p \<Rightarrow> bool"
  ec_toBytes :: "'p \<Rightarrow> bytes"
  ec_fromHex :: "hex \<Rightarrow> 'p option"
  ec_hmac :: "bytes \<Rightarrow> bytes \<Rightarrow> bytes"

definition PTLEN :: nat where "PTLEN = 33"
definition CLEN :: nat where "CLEN = 16"
definition QLEN :: nat where "QLEN = 32"

section \<open>Bytes and scalars\<close>

definition bytesToBigInt :: "bytes \<Rightarrow> int" where
  "bytesToBigInt b = foldl (\<lambda>x y. x * 256 + uint y) 0 b"

fun bigIntToBytes :: "int \<Rightarrow> nat \<Rightarrow> bytes" where
  "bigIntToBytes x 0 = []"
| "bigIntToBytes x (Suc n) = bigIntToBytes (x div 256) n @ [word_of_int x]"

text \<open>The remainder of the language takes the sign of the dividend.\<close>

definition vmod :: "int \<Rightarrow> int \<Rightarrow> int" where
  "vmod x m = (let r = (if x < 0 then - ((- x) mod m) else x mod m) in if r < 0 then r + m else r)"

lemma vmod_mod [simp]:
  assumes "0 < m"
  shows "vmod x m = x mod m"
proof (cases "x < 0")
  case True
  have "x mod m = (if (- x) mod m = 0 then 0 else m - (- x) mod m)"
    using zmod_zminus1_eq_if [of "- x" m] by simp
  moreover have "0 \<le> (- x) mod m"
    using assms by (rule pos_mod_sign)
  ultimately show ?thesis
    using True by (simp add: vmod_def Let_def)
next
  case False
  have "0 \<le> x mod m"
    using assms by (rule pos_mod_sign)
  with False show ?thesis
    by (simp add: vmod_def Let_def)
qed

lemma bytesToBigInt_snoc: "bytesToBigInt (bs @ [b]) = bytesToBigInt bs * 256 + uint b"
  by (simp add: bytesToBigInt_def)

lemma bytesToBigInt_range: "0 \<le> bytesToBigInt bs \<and> bytesToBigInt bs < 256 ^ length bs"
proof (induction bs rule: rev_induct)
  case (snoc b bs)
  have "uint b < 256"
    using uint_lt2p [of b] by simp
  with snoc show ?case
    by (simp add: bytesToBigInt_snoc)
qed (simp add: bytesToBigInt_def)

lemma bigIntToBytes_length [simp]: "length (bigIntToBytes x n) = n"
  by (induction n arbitrary: x) simp_all

lemma bytes_roundtrip: "bytesToBigInt (bigIntToBytes x n) = x mod 256 ^ n"
proof (induction n arbitrary: x)
  case (Suc n)
  have "uint (word_of_int x :: byte) = x mod 256"
    by (simp add: uint_word_of_int)
  then have "bytesToBigInt (bigIntToBytes x (Suc n)) = (x div 256 mod 256 ^ n) * 256 + x mod 256"
    by (simp add: bytesToBigInt_snoc Suc.IH)
  also have "\<dots> = x mod (256 * 256 ^ n)"
    using zmod_zmult2_eq [of "256 ^ n" x 256] by (simp add: mult.commute)
  finally show ?case by simp
qed (simp add: bytesToBigInt_def)

section \<open>Points\<close>

definition bytesToPoint :: "crypto \<Rightarrow> 'p curve \<Rightarrow> bytes \<Rightarrow> 'p option" where
  "bytesToPoint C E b = ec_fromHex E (c_toHex C b)"

definition mul :: "'p curve \<Rightarrow> 'p \<Rightarrow> int \<Rightarrow> 'p" where
  "mul E p scalar = (let k = vmod scalar (ec_N E) in if k = 0 then ec_zero E else ec_mult E k p)"

text \<open>\<open>p.multiply(k)\<close>, which throws on a zero scalar.\<close>

definition multiply :: "'p curve \<Rightarrow> 'p \<Rightarrow> int \<Rightarrow> 'p option" where
  "multiply E p k = (if k = 0 then None else Some (ec_mult E k p))"

fun tai_from :: "crypto \<Rightarrow> 'p curve \<Rightarrow> bytes \<Rightarrow> bytes \<Rightarrow> nat list \<Rightarrow> 'p option" where
  "tai_from C E pk alpha [] = None"
| "tai_from C E pk alpha (ctr # cs) =
     (let hashStr = c_sha256 C ([0x01, 0x01] @ pk @ alpha @ [word_of_nat ctr] @ [0x00]) in
      case bytesToPoint C E (0x02 # hashStr) of
        Some h \<Rightarrow> if \<not> ec_is0 E h then Some h else tai_from C E pk alpha cs
      | None \<Rightarrow> tai_from C E pk alpha cs)"

definition encodeToCurveTAI :: "crypto \<Rightarrow> 'p curve \<Rightarrow> bytes \<Rightarrow> bytes \<Rightarrow> 'p option" where
  "encodeToCurveTAI C E pk alpha = tai_from C E pk alpha [0..<256]"

lemma tai_from_nonzero: "tai_from C E pk alpha cs = Some h \<Longrightarrow> \<not> ec_is0 E h"
  by (induction cs) (auto simp: Let_def split: option.splits if_splits)

section \<open>The deterministic nonce\<close>

definition bits2int :: "bytes \<Rightarrow> int" where
  "bits2int b = bytesToBigInt b"

definition bits2octets :: "int \<Rightarrow> bytes \<Rightarrow> bytes" where
  "bits2octets N b = bigIntToBytes (vmod (bits2int b) N) QLEN"

partial_function (option) nonce_loop :: "(bytes \<Rightarrow> bytes \<Rightarrow> bytes) \<Rightarrow> int \<Rightarrow> bytes \<Rightarrow> bytes \<Rightarrow> int option" where
  "nonce_loop hm N K V =
     (let V1 = hm K V; k = bits2int V1 in
      if 1 \<le> k \<and> k < N then Some k
      else let K' = hm K (V1 @ [0x00]) in nonce_loop hm N K' (hm K' V1))"

definition nonceRFC6979 :: "crypto \<Rightarrow> 'p curve \<Rightarrow> int \<Rightarrow> bytes \<Rightarrow> int option" where
  "nonceRFC6979 C E x hString =
     (let hm = ec_hmac E;
          h1 = c_sha256 C hString;
          xOct = bigIntToBytes x QLEN;
          hOct = bits2octets (ec_N E) h1;
          V0 = replicate 32 0x01;
          K0 = replicate 32 0x00;
          K1 = hm K0 (V0 @ [0x00] @ xOct @ hOct);
          V1 = hm K1 V0;
          K2 = hm K1 (V1 @ [0x01] @ xOct @ hOct);
          V2 = hm K2 V1
      in nonce_loop hm (ec_N E) K2 V2)"

lemma nonce_loop_range: "nonce_loop hm N K V = Some k \<Longrightarrow> 1 \<le> k \<and> k < N"
proof -
  assume "nonce_loop hm N K V = Some k"
  then show ?thesis
  proof (rule nonce_loop.raw_induct [where P = "\<lambda>hm N K V k. 1 \<le> k \<and> k < N", rotated])
    fix f :: "(bytes \<Rightarrow> bytes \<Rightarrow> bytes) \<Rightarrow> int \<Rightarrow> bytes \<Rightarrow> bytes \<Rightarrow> int option" and hm N K V y
    assume "\<And>hm N K V y. f hm N K V = Some y \<Longrightarrow> 1 \<le> y \<and> y < N"
      and "(let V1 = hm K V; k = bits2int V1 in
      if 1 \<le> k \<and> k < N then Some k
      else let K' = hm K (V1 @ [0x00]) in f hm N K' (hm K' V1)) = Some y"
    then show "1 \<le> y \<and> y < N"
      by (auto simp: Let_def split: if_splits)
  qed
qed

text \<open>A nonce is returned as soon as one HMAC output in the chain is in range.\<close>

fun nonce_try :: "nat \<Rightarrow> (bytes \<Rightarrow> bytes \<Rightarrow> bytes) \<Rightarrow> int \<Rightarrow> bytes \<Rightarrow> bytes \<Rightarrow> bool" where
  "nonce_try 0 hm N K V = (1 \<le> bits2int (hm K V) \<and> bits2int (hm K V) < N)"
| "nonce_try (Suc n) hm N K V = ((1 \<le> bits2int (hm K V) \<and> bits2int (hm K V) < N)
     \<or> nonce_try n hm N (hm K (hm K V @ [0x00])) (hm (hm K (hm K V @ [0x00])) (hm K V)))"

lemma nonce_loop_returns: "nonce_try n hm N K V \<Longrightarrow> nonce_loop hm N K V \<noteq> None"
proof (induction n hm N K V rule: nonce_try.induct)
  case (1 hm N K V)
  then show ?case
    by (subst nonce_loop.simps) (simp add: Let_def)
next
  case (2 n hm N K V)
  then show ?case
    by (subst nonce_loop.simps) (auto simp: Let_def)
qed

section \<open>Challenges and outputs\<close>

definition challengeGeneration :: "crypto \<Rightarrow> 'p curve \<Rightarrow> 'p list \<Rightarrow> int" where
  "challengeGeneration C E points =
     bytesToBigInt (take CLEN (c_sha256 C ([0x01, 0x02] @ concat (map (ec_toBytes E) points) @ [0x00])))"

definition proofToHash :: "crypto \<Rightarrow> 'p curve \<Rightarrow> 'p \<Rightarrow> bytes" where
  "proofToHash C E gamma = c_sha256 C ([0x01, 0x03] @ ec_toBytes E gamma @ [0x00])"

record vrf_proof =
  vp_pi :: hex
  vp_beta :: hex

text \<open>\<open>None\<close>: the source throws, or its nonce loop does not end.\<close>

definition vrfProve :: "crypto \<Rightarrow> 'p curve \<Rightarrow> hex \<Rightarrow> bytes \<Rightarrow> vrf_proof option" where
  "vrfProve C E privHex alpha = (case c_fromHex C privHex of None \<Rightarrow> None | Some pb \<Rightarrow>
     (let x = vmod (bytesToBigInt pb) (ec_N E) in
      case multiply E (ec_base E) x of None \<Rightarrow> None | Some Y \<Rightarrow>
      (case encodeToCurveTAI C E (ec_toBytes E Y) alpha of None \<Rightarrow> None | Some H \<Rightarrow>
      (case multiply E H x of None \<Rightarrow> None | Some gamma \<Rightarrow>
      (case nonceRFC6979 C E x (ec_toBytes E H) of None \<Rightarrow> None | Some k \<Rightarrow>
      (case (multiply E (ec_base E) k, multiply E H k) of
         (Some U, Some V) \<Rightarrow>
           (let c = challengeGeneration C E [Y, H, gamma, U, V];
                s = vmod (k + c * x) (ec_N E);
                pi' = ec_toBytes E gamma @ bigIntToBytes c CLEN @ bigIntToBytes s QLEN
            in Some \<lparr>vp_pi = c_toHex C pi', vp_beta = c_toHex C (proofToHash C E gamma)\<rparr>)
       | _ \<Rightarrow> None))))))"

definition decodeProof :: "crypto \<Rightarrow> 'p curve \<Rightarrow> bytes \<Rightarrow> ('p \<times> int \<times> int) option" where
  "decodeProof C E pib =
     (if length pib \<noteq> PTLEN + CLEN + QLEN then None
      else (case bytesToPoint C E (take PTLEN pib) of
          None \<Rightarrow> None
        | Some gamma \<Rightarrow>
            (let c = bytesToBigInt (take CLEN (drop PTLEN pib));
                 s = bytesToBigInt (drop (PTLEN + CLEN) pib)
             in if s \<ge> ec_N E then None else Some (gamma, c, s))))"

text \<open>
  The outer option is a throw (try-and-increment exhausted), the inner one the \<open>null\<close> of an
  invalid proof.
\<close>

definition vrfVerify :: "crypto \<Rightarrow> 'p curve \<Rightarrow> hex \<Rightarrow> bytes \<Rightarrow> hex \<Rightarrow> hex option option" where
  "vrfVerify C E pubHex alpha piHex =
     (case Option.bind (c_fromHex C pubHex) (bytesToPoint C E) of None \<Rightarrow> Some None | Some Y \<Rightarrow>
      if ec_is0 E Y then Some None
      else (case Option.bind (c_fromHex C piHex) (decodeProof C E) of None \<Rightarrow> Some None | Some (gamma, c, s) \<Rightarrow>
        (case encodeToCurveTAI C E (ec_toBytes E Y) alpha of None \<Rightarrow> None | Some H \<Rightarrow>
          (let U = ec_add E (mul E (ec_base E) s) (ec_neg E (mul E Y c));
               V = ec_add E (mul E H s) (ec_neg E (mul E gamma c));
               c' = challengeGeneration C E [Y, H, gamma, U, V]
           in if c' \<noteq> c then Some None else Some (Some (c_toHex C (proofToHash C E gamma)))))))"

definition vrfProofToHash :: "crypto \<Rightarrow> 'p curve \<Rightarrow> hex \<Rightarrow> hex option" where
  "vrfProofToHash C E piHex = (case Option.bind (c_fromHex C piHex) (decodeProof C E) of
     None \<Rightarrow> None
   | Some (gamma, c, s) \<Rightarrow> Some (c_toHex C (proofToHash C E gamma)))"

section \<open>Completeness\<close>

text \<open>What the curve library documents: a group of order \<open>N\<close> with a faithful compressed encoding.\<close>

definition curve_laws :: "crypto \<Rightarrow> 'p curve \<Rightarrow> bool" where
  "curve_laws C E \<longleftrightarrow> 1 < ec_N E \<and> ec_N E \<le> 256 ^ 32
     \<and> (\<forall>p. ec_is0 E p \<longleftrightarrow> p = ec_zero E) \<and> ec_base E \<noteq> ec_zero E
     \<and> (\<forall>p a b. mul E p (a + b) = ec_add E (mul E p a) (mul E p b))
     \<and> (\<forall>p a b. mul E p (a * b) = mul E (mul E p b) a)
     \<and> (\<forall>p a. p \<noteq> ec_zero E \<longrightarrow> a mod ec_N E \<noteq> 0 \<longrightarrow> mul E p a \<noteq> ec_zero E)
     \<and> (\<forall>p q. ec_add E (ec_add E p q) (ec_neg E q) = p)
     \<and> (\<forall>p. p \<noteq> ec_zero E \<longrightarrow> length (ec_toBytes E p) = 33
            \<and> ec_fromHex E (c_toHex C (ec_toBytes E p)) = Some p)"

lemma curve_lawsD:
  assumes "curve_laws C E"
  shows "1 < ec_N E" "ec_N E \<le> 256 ^ 32" "ec_is0 E p \<longleftrightarrow> p = ec_zero E" "ec_base E \<noteq> ec_zero E"
    "mul E p (a + b) = ec_add E (mul E p a) (mul E p b)" "mul E p (a * b) = mul E (mul E p b) a"
    "p \<noteq> ec_zero E \<Longrightarrow> a mod ec_N E \<noteq> 0 \<Longrightarrow> mul E p a \<noteq> ec_zero E"
    "ec_add E (ec_add E p q) (ec_neg E q) = p"
    "p \<noteq> ec_zero E \<Longrightarrow> length (ec_toBytes E p) = 33"
    "p \<noteq> ec_zero E \<Longrightarrow> ec_fromHex E (c_toHex C (ec_toBytes E p)) = Some p"
  using assms unfolding curve_laws_def by blast+

lemma mul_mod: "1 < ec_N E \<Longrightarrow> mul E p (a mod ec_N E) = mul E p a"
  by (simp add: mul_def)

lemma mul_small: "1 < ec_N E \<Longrightarrow> 1 \<le> k \<Longrightarrow> k < ec_N E \<Longrightarrow> mul E p k = ec_mult E k p"
  by (simp add: mul_def)

lemma schnorr_identity:
  assumes "curve_laws C E" "P' = mul E P x"
  shows "ec_add E (mul E P ((k + c * x) mod ec_N E)) (ec_neg E (mul E P' c)) = mul E P k"
  using curve_lawsD(1,5,6,8) [OF assms(1)] assms(2) by (simp add: mul_mod)

lemma challenge_range: "0 \<le> challengeGeneration C E ps \<and> challengeGeneration C E ps < 256 ^ CLEN"
proof -
  let ?b = "take CLEN (c_sha256 C ([0x01, 0x02] @ concat (map (ec_toBytes E) ps) @ [0x00]))"
  have "(256 :: int) ^ length ?b \<le> 256 ^ CLEN"
    by (intro power_increasing) auto
  then show ?thesis
    using bytesToBigInt_range [of ?b] unfolding challengeGeneration_def by linarith
qed

text \<open>The public key that belongs to a private key.\<close>

definition vrfPublicKey :: "crypto \<Rightarrow> 'p curve \<Rightarrow> hex \<Rightarrow> hex option" where
  "vrfPublicKey C E privHex = (case c_fromHex C privHex of None \<Rightarrow> None | Some pb \<Rightarrow>
     map_option (\<lambda>Y. c_toHex C (ec_toBytes E Y)) (multiply E (ec_base E) (vmod (bytesToBigInt pb) (ec_N E))))"

lemma vrf_complete:
  assumes "curve_laws C E" "hex_codec C" "vrfProve C E priv alpha = Some pf" "vrfPublicKey C E priv = Some pub"
  shows "vrfVerify C E pub alpha (vp_pi pf) = Some (Some (vp_beta pf))"
proof -
  note L = curve_lawsD [OF assms(1)]
  obtain pb where pb: "c_fromHex C priv = Some pb"
    using assms(4) by (auto simp: vrfPublicKey_def split: option.splits)
  define x where "x = bytesToBigInt pb mod ec_N E"
  have x0: "x \<noteq> 0" and pub: "pub = c_toHex C (ec_toBytes E (ec_mult E x (ec_base E)))"
    using assms(4) L(1) by (auto simp: vrfPublicKey_def pb x_def multiply_def split: if_splits)
  have xr: "1 \<le> x" "x < ec_N E"
    using x0 L(1) pos_mod_bound [of "ec_N E" "bytesToBigInt pb"] pos_mod_sign [of "ec_N E" "bytesToBigInt pb"]
    unfolding x_def by linarith+
  define Y where "Y = ec_mult E x (ec_base E)"
  have Y: "Y = mul E (ec_base E) x"
    using xr L(1) by (simp add: Y_def mul_small)
  obtain H k where H: "encodeToCurveTAI C E (ec_toBytes E Y) alpha = Some H"
    and k: "nonceRFC6979 C E x (ec_toBytes E H) = Some k"
    using assms(3) L(1) x0 by (auto simp: vrfProve_def pb multiply_def Let_def Y_def x_def split: option.splits if_splits)
  have kr: "1 \<le> k" "k < ec_N E"
    using k nonce_loop_range by (auto simp: nonceRFC6979_def Let_def)
  define gamma where "gamma = ec_mult E x H"
  have g: "gamma = mul E H x"
    using xr L(1) by (simp add: gamma_def mul_small)
  define c where "c = challengeGeneration C E [Y, H, gamma, ec_mult E k (ec_base E), ec_mult E k H]"
  define s where "s = (k + c * x) mod ec_N E"
  define pib where "pib = ec_toBytes E gamma @ bigIntToBytes c CLEN @ bigIntToBytes s QLEN"
  have pf: "pf = \<lparr>vp_pi = c_toHex C pib, vp_beta = c_toHex C (proofToHash C E gamma)\<rparr>"
    using assms(3) L(1) x0 H k kr(1)
    by (auto simp: vrfProve_def pb multiply_def Let_def Y_def [symmetric] x_def [symmetric] gamma_def [symmetric]
        c_def [symmetric] s_def [symmetric] pib_def)
  have Hn: "H \<noteq> ec_zero E"
    using tai_from_nonzero H L(3) unfolding encodeToCurveTAI_def by metis
  have xm: "x mod ec_N E \<noteq> 0"
    using xr by simp
  have Yn: "Y \<noteq> ec_zero E" and gn: "gamma \<noteq> ec_zero E"
    using L(7) [OF L(4) xm] L(7) [OF Hn xm] by (simp_all add: Y g)
  have sr: "0 \<le> s" "s < ec_N E"
    using L(1) by (simp_all add: s_def)
  have dec: "decodeProof C E pib = Some (gamma, c, s)"
  proof -
    have len: "length (ec_toBytes E gamma) = PTLEN"
      using L(9) [OF gn] by (simp add: PTLEN_def)
    have "bytesToBigInt (bigIntToBytes c CLEN) = c"
      using challenge_range [of C E "[Y, H, gamma, ec_mult E k (ec_base E), ec_mult E k H]"]
      by (simp add: bytes_roundtrip c_def)
    moreover have "bytesToBigInt (bigIntToBytes s QLEN) = s"
      using sr L(2) by (simp add: bytes_roundtrip QLEN_def)
    moreover have "bytesToPoint C E (ec_toBytes E gamma) = Some gamma"
      using L(10) [OF gn] by (simp add: bytesToPoint_def)
    ultimately show ?thesis
      using sr len by (simp add: decodeProof_def pib_def Let_def)
  qed
  have U: "ec_add E (mul E (ec_base E) s) (ec_neg E (mul E Y c)) = ec_mult E k (ec_base E)"
    using schnorr_identity [OF assms(1) Y, of k c] mul_small [OF L(1) kr] by (simp add: s_def)
  have V: "ec_add E (mul E H s) (ec_neg E (mul E gamma c)) = ec_mult E k H"
    using schnorr_identity [OF assms(1) g, of k c] mul_small [OF L(1) kr] by (simp add: s_def)
  have Yd: "Option.bind (c_fromHex C pub) (bytesToPoint C E) = Some Y"
    using assms(2) L(10) [OF Yn] by (simp add: pub Y_def [symmetric] bytesToPoint_def)
  show ?thesis
    using assms(2) L(3) Yn
    by (simp add: vrfVerify_def Yd pf dec H U V Let_def c_def [symmetric])
qed

text \<open>An accepted proof determines the output by itself.\<close>

lemma vrfVerify_output: "vrfVerify C E pub alpha piHex = Some (Some beta) \<Longrightarrow> vrfProofToHash C E piHex = Some beta"
  by (auto simp: vrfVerify_def vrfProofToHash_def Let_def split: option.splits if_splits prod.splits)

end
