(* ===== verification/Sortition.thy ===== *)
theory Sortition
  imports Vrf
begin

text \<open>
  Weighted self-sortition, \<open>src/engine/consensus/sortition.ts\<close>. The incremental loop of
  \<open>selectedSeats\<close> is shown to compute the inverse of the binomial distribution function, over
  real numbers.
\<close>

definition sortitionAlpha :: "crypto \<Rightarrow> string \<Rightarrow> int \<Rightarrow> int \<Rightarrow> bytes" where
  "sortitionAlpha C seed epoch shard =
     c_utf8 C (''neuron-sortition:'' @ seed @ '':'' @ int_str epoch @ '':'' @ int_str shard)"

text \<open>\<open>v = v * 256 + (b[i] ?? 0)\<close> over the first six bytes.\<close>

definition beta48 :: "bytes \<Rightarrow> int" where
  "beta48 b = foldl (\<lambda>v i. v * 256 + (if i < length b then uint (b ! i) else 0)) 0 [0..<6]"

definition betaToRatio :: "crypto \<Rightarrow> hex \<Rightarrow> real option" where
  "betaToRatio C betaHex = (case c_fromHex C betaHex of
     None \<Rightarrow> None | Some b \<Rightarrow> Some (real_of_int (beta48 b) / 2 ^ 48))"

function seats_loop :: "real \<Rightarrow> int \<Rightarrow> real \<Rightarrow> real \<Rightarrow> real \<Rightarrow> int \<Rightarrow> int" where
  "seats_loop ratio units odds pmf cum k =
     (if ratio \<ge> cum \<and> k < units
      then (let k' = k + 1; pmf' = pmf * ((real_of_int (units - k' + 1) / real_of_int k') * odds)
            in seats_loop ratio units odds pmf' (cum + pmf') k')
      else k)"
  by auto
termination by (relation "measure (\<lambda>(ratio, units, odds, pmf, cum, k). nat (units - k))") auto

declare seats_loop.simps [simp del]

definition selectedSeats :: "real \<Rightarrow> int \<Rightarrow> real \<Rightarrow> int" where
  "selectedSeats ratio units p =
     (if p \<le> 0 \<or> units \<le> 0 then 0
      else if p \<ge> 1 then units
      else (let pmf = (1 - p) ^ nat units in seats_loop ratio units (p / (1 - p)) pmf pmf 0))"

definition weightToUnits :: "real \<Rightarrow> int" where
  "weightToUnits weight = max 1 (js_round weight)"

definition seatsFromBeta :: "crypto \<Rightarrow> hex \<Rightarrow> real \<Rightarrow> real \<Rightarrow> int \<Rightarrow> int option" where
  "seatsFromBeta C betaHex weight totalW committeeSize =
     (if totalW \<le> 0 \<or> committeeSize \<le> 0 then Some 0
      else (let p = min 1 (real_of_int committeeSize / totalW) in
        map_option (\<lambda>ratio. selectedSeats ratio (weightToUnits weight) p) (betaToRatio C betaHex)))"

record sortition_proof =
  so_seats :: int
  so_pi :: hex
  so_beta :: hex

definition proveSortition ::
  "crypto \<Rightarrow> 'p curve \<Rightarrow> hex \<Rightarrow> string \<Rightarrow> int \<Rightarrow> int \<Rightarrow> real \<Rightarrow> real \<Rightarrow> int \<Rightarrow> sortition_proof option" where
  "proveSortition C E privHex seed epoch shard weight totalW committeeSize =
     (case vrfProve C E privHex (sortitionAlpha C seed epoch shard) of
        None \<Rightarrow> None
      | Some pf \<Rightarrow> map_option (\<lambda>seats. \<lparr>so_seats = seats, so_pi = vp_pi pf, so_beta = vp_beta pf\<rparr>)
          (seatsFromBeta C (vp_beta pf) weight totalW committeeSize))"

definition verifySortition ::
  "crypto \<Rightarrow> 'p curve \<Rightarrow> hex \<Rightarrow> string \<Rightarrow> int \<Rightarrow> int \<Rightarrow> real \<Rightarrow> real \<Rightarrow> int \<Rightarrow> hex \<Rightarrow> int option option" where
  "verifySortition C E pubHex seed epoch shard weight totalW committeeSize piHex =
     (case vrfVerify C E pubHex (sortitionAlpha C seed epoch shard) piHex of
        None \<Rightarrow> None
      | Some None \<Rightarrow> Some None
      | Some (Some beta) \<Rightarrow> map_option Some (seatsFromBeta C beta weight totalW committeeSize))"

section \<open>The inverse binomial distribution function\<close>

definition pmf_binom :: "nat \<Rightarrow> real \<Rightarrow> nat \<Rightarrow> real" where
  "pmf_binom n p k = real (n choose k) * p ^ k * (1 - p) ^ (n - k)"

definition cdf_binom :: "nat \<Rightarrow> real \<Rightarrow> nat \<Rightarrow> real" where
  "cdf_binom n p k = (\<Sum>i \<le> k. pmf_binom n p i)"

lemma pmf_step:
  assumes "k < n" "p < 1"
  shows "pmf_binom n p (Suc k) = pmf_binom n p k * ((real (n - k) / real (Suc k)) * (p / (1 - p)))"
proof -
  have "real (Suc k) * real (n choose Suc k) = real (n - k) * real (n choose k)"
    using binomial_absorb_comp [of n k] binomial_absorption [of k n] by (metis of_nat_mult)
  then have c: "real (n choose Suc k) = real (n choose k) * (real (n - k) / real (Suc k))"
    by (simp add: field_simps)
  have e: "(1 - p) ^ (n - k) = (1 - p) ^ (n - Suc k) * (1 - p)"
    using assms(1) by (metis Suc_diff_Suc power_Suc2)
  show ?thesis
    using assms(2) by (simp add: pmf_binom_def c e)
qed

lemma seats_loop_spec:
  assumes "0 < p" "p < 1" "k \<le> n" "\<forall>j < k. cdf_binom n p j \<le> ratio"
  shows "\<exists>m. seats_loop ratio (int n) (p / (1 - p)) (pmf_binom n p k) (cdf_binom n p k) (int k) = int m
    \<and> m \<le> n \<and> (\<forall>j < m. cdf_binom n p j \<le> ratio) \<and> (m < n \<longrightarrow> ratio < cdf_binom n p m)"
  using assms
proof (induction "n - k" arbitrary: k)
  case 0
  then show ?case
    by (subst seats_loop.simps) (auto intro!: exI [of _ k])
next
  case (Suc d)
  show ?case
  proof (cases "ratio \<ge> cdf_binom n p k")
    case True
    have k: "k < n" using Suc.hyps(2) by simp
    have r: "real_of_int (int n - (int k + 1) + 1) = real (n - k)"
      using k by (simp add: of_nat_diff)
    have st: "pmf_binom n p k * ((real_of_int (int n - (int k + 1) + 1) / real_of_int (int k + 1)) * (p / (1 - p)))
        = pmf_binom n p (Suc k)"
      unfolding r pmf_step [OF k Suc.prems(2)] by simp
    have cdf: "cdf_binom n p k + pmf_binom n p (Suc k) = cdf_binom n p (Suc k)"
      by (simp add: cdf_binom_def)
    have "seats_loop ratio (int n) (p / (1 - p)) (pmf_binom n p k) (cdf_binom n p k) (int k)
        = seats_loop ratio (int n) (p / (1 - p)) (pmf_binom n p (Suc k)) (cdf_binom n p (Suc k)) (int (Suc k))"
      by (subst seats_loop.simps) (simp only: Let_def st cdf True k of_nat_less_iff, simp add: add.commute)
    moreover have "\<forall>j < Suc k. cdf_binom n p j \<le> ratio"
      using Suc.prems(4) True by (auto simp: less_Suc_eq)
    ultimately show ?thesis
      using Suc.hyps(1) [of "Suc k"] Suc.hyps(2) Suc.prems(1,2) k by auto
  next
    case False
    then show ?thesis
      using Suc.prems by (subst seats_loop.simps) (auto intro!: exI [of _ k])
  qed
qed

text \<open>The seat count is the least \<open>k\<close> whose cumulative mass exceeds the draw.\<close>

lemma selectedSeats_inverse:
  assumes "0 < p" "p < 1" "0 < n"
  shows "\<exists>m \<le> n. selectedSeats ratio (int n) p = int m
    \<and> (\<forall>j < m. cdf_binom n p j \<le> ratio) \<and> (m < n \<longrightarrow> ratio < cdf_binom n p m)"
proof -
  have "pmf_binom n p 0 = (1 - p) ^ n" "cdf_binom n p 0 = (1 - p) ^ n"
    by (simp_all add: cdf_binom_def pmf_binom_def)
  then show ?thesis
    using seats_loop_spec [OF assms(1,2), of 0 n ratio] assms
    by (auto simp: selectedSeats_def Let_def)
qed

lemma selectedSeats_range: "0 \<le> units \<Longrightarrow> 0 \<le> selectedSeats ratio units p \<and> selectedSeats ratio units p \<le> units"
proof -
  assume u: "0 \<le> units"
  consider "p \<le> 0 \<or> units \<le> 0" | "1 \<le> p" "0 < units" | "0 < p" "p < 1" "0 < units"
    by linarith
  then show ?thesis
  proof cases
    case 3
    then show ?thesis
      using selectedSeats_inverse [of p "nat units" ratio] by auto
  qed (use u in \<open>auto simp: selectedSeats_def\<close>)
qed

lemma pmf_nonneg: "0 \<le> p \<Longrightarrow> p \<le> 1 \<Longrightarrow> 0 \<le> pmf_binom n p k"
  by (simp add: pmf_binom_def)

lemma cdf_total: "cdf_binom n p n = 1"
  using binomial_ring [of p "1 - p" n] by (simp add: cdf_binom_def pmf_binom_def atLeast0AtMost mult.assoc)

lemma cdf_mono: "0 \<le> p \<Longrightarrow> p \<le> 1 \<Longrightarrow> j \<le> k \<Longrightarrow> cdf_binom n p j \<le> cdf_binom n p k"
  unfolding cdf_binom_def by (rule sum_mono2) (auto intro: pmf_nonneg)

lemma selectedSeats_unique:
  assumes "0 < p" "p < 1" "0 < n" "ratio < 1" "m \<le> n"
    "\<forall>j < m. cdf_binom n p j \<le> ratio" "ratio < cdf_binom n p m"
  shows "selectedSeats ratio (int n) p = int m"
proof -
  obtain m' where m': "m' \<le> n" "selectedSeats ratio (int n) p = int m'"
    "\<forall>j < m'. cdf_binom n p j \<le> ratio" "m' < n \<longrightarrow> ratio < cdf_binom n p m'"
    using selectedSeats_inverse [OF assms(1-3), of ratio] by blast
  have "ratio < cdf_binom n p m'"
    using m'(1,4) assms(4) cdf_total [of n p] by (cases "m' < n") auto
  with m'(3) assms(6,7) have "m' = m"
    by (metis linorder_neqE_nat not_le)
  with m'(2) show ?thesis by simp
qed

lemma beta48_range: "0 \<le> beta48 b \<and> beta48 b < 2 ^ 48"
proof -
  have "0 \<le> foldl (\<lambda>v i. v * 256 + (if i < length b then uint (b ! i) else 0)) 0 [0..<n]
      \<and> foldl (\<lambda>v i. v * 256 + (if i < length b then uint (b ! i) else 0)) 0 [0..<n] < 256 ^ n" for n
  proof (induction n)
    case (Suc n)
    have "uint (b ! n) < 256"
      using uint_lt2p [of "b ! n"] by simp
    with Suc show ?case by auto
  qed simp
  from this [of 6] show ?thesis
    by (simp only: beta48_def) simp
qed

lemma betaToRatio_range: "betaToRatio C h = Some q \<Longrightarrow> 0 \<le> q \<and> q < 1"
proof -
  assume "betaToRatio C h = Some q"
  then obtain b where q: "q = real_of_int (beta48 b) / 2 ^ 48"
    unfolding betaToRatio_def by (cases "c_fromHex C h") (simp_all, metis)
  have "real_of_int (beta48 b) < real_of_int (2 ^ 48)"
    using beta48_range [of b] by (simp only: of_int_less_iff)
  with beta48_range [of b] q show ?thesis by simp
qed

lemma seatsFromBeta_range:
  "seatsFromBeta C beta w t cs = Some k \<Longrightarrow> 0 \<le> k \<and> k \<le> weightToUnits w"
  using selectedSeats_range
  by (auto simp: seatsFromBeta_def Let_def weightToUnits_def split: if_splits)

text \<open>A prover's claim is what every verifier computes from the proof.\<close>

lemma sortition_agree:
  assumes "curve_laws C E" "hex_codec C" "vrfPublicKey C E priv = Some pub"
    "proveSortition C E priv seed epoch shard w t cs = Some so"
  shows "verifySortition C E pub seed epoch shard w t cs (so_pi so) = Some (Some (so_seats so))"
  using assms(4) vrf_complete [OF assms(1,2) _ assms(3)]
  by (auto simp: proveSortition_def verifySortition_def split: option.splits)

end
