(* ===== verification/Finality.thy ===== *)
theory Finality
  imports Sortition
begin

text \<open>
  Committee finality, \<open>src/engine/consensus/finality.ts\<close>: votes carry a sortition proof, a block
  is final once an absolute quorum of seats backs it. The runs of \<open>CommitteeFinality\<close> are an
  inductive relation that also collects the accepted votes, and the invariant on it gives the two
  safety properties: a final block is backed by verified votes of distinct members that cover the
  quorum, and no two blocks of one chain position are final. The vote's shard and epoch are
  the voter's choice: nothing ties them to the block, which the last section states.
\<close>

record committee_vote =
  cv_blockHash :: hex
  cv_accountId :: hex
  cv_shard :: int
  cv_epoch :: int
  cv_seats :: int
  cv_pi :: hex
  cv_sig :: hex

record committee_params =
  cp_committeeSize :: int
  cp_threshold :: "real option"

record weight_source =
  ws_weightOf :: "hex \<Rightarrow> int \<Rightarrow> real"
  ws_totalWeight :: "int \<Rightarrow> real"

record vote_result =
  fv_accepted :: bool
  fv_reason :: "string option"
  fv_finalized :: "hex option"
  fv_rejected :: "hex list option"
  fv_equivocation :: "(hex \<times> hex \<times> hex) option"

datatype finality_status = Final | FRejected | FPending | Unknown

definition voteMessage :: "int \<Rightarrow> int \<Rightarrow> hex \<Rightarrow> string" where
  "voteMessage epoch shard blockHash =
     ''engine-vote:'' @ int_str epoch @ '':'' @ int_str shard @ '':'' @ blockHash"

definition seatQuorum :: "committee_params \<Rightarrow> int" where
  "seatQuorum params = max 1 \<lceil>nvl (cp_threshold params) (2 / 3) * real_of_int (cp_committeeSize params)\<rceil>"

text \<open>The outer option is a throw, the inner one the \<open>null\<close> of a non-member.\<close>

definition castCommitteeVote ::
  "crypto \<Rightarrow> 'p curve \<Rightarrow> hex \<Rightarrow> hex \<Rightarrow> hex \<Rightarrow> int \<Rightarrow> string \<Rightarrow> int \<Rightarrow> real \<Rightarrow> real \<Rightarrow> int \<Rightarrow> committee_vote option option" where
  "castCommitteeVote C E privHex pub bhash bshard seed epoch weight totalW committeeSize =
     (case proveSortition C E privHex seed epoch bshard weight totalW committeeSize of
        None \<Rightarrow> None
      | Some so \<Rightarrow>
          if so_seats so \<le> 0 then Some None
          else (case sign_str C (voteMessage epoch bshard bhash) privHex of
              None \<Rightarrow> None
            | Some s \<Rightarrow> Some (Some \<lparr>cv_blockHash = bhash, cv_accountId = pub, cv_shard = bshard, cv_epoch = epoch,
                cv_seats = so_seats so, cv_pi = so_pi so, cv_sig = s\<rparr>)))"

record fgroup =
  fg_blocks :: "hex list"
  fg_seatsByBlock :: "hex \<Rightarrow> int option"
  fg_voterChoice :: "hex \<Rightarrow> hex option"
  fg_final :: "hex option"

record finality =
  fs_groupOf :: "hex \<Rightarrow> string option"
  fs_groups :: "(string, fgroup) jsmap"
  fs_groupEpoch :: "string \<Rightarrow> int option"
  fs_finalBlocks :: "hex set"
  fs_rejectedBlocks :: "hex set"
  fs_equivocs :: "(hex \<times> hex \<times> hex) list"

definition new_finality :: finality where
  "new_finality = \<lparr>fs_groupOf = (\<lambda>_. None), fs_groups = [], fs_groupEpoch = (\<lambda>_. None),
     fs_finalBlocks = {}, fs_rejectedBlocks = {}, fs_equivocs = []\<rparr>"

definition new_fgroup :: fgroup where
  "new_fgroup = \<lparr>fg_blocks = [], fg_seatsByBlock = (\<lambda>_. None), fg_voterChoice = (\<lambda>_. None), fg_final = None\<rparr>"

definition registerBlock :: "hex \<Rightarrow> hex \<Rightarrow> hex \<Rightarrow> finality \<Rightarrow> finality" where
  "registerBlock h accountId previousHash st =
     (if fs_groupOf st h \<noteq> None then st
      else let key = accountId @ '':'' @ previousHash;
               g = nvl (mget (fs_groups st) key) new_fgroup
           in st\<lparr>fs_groupOf := (fs_groupOf st)(h \<mapsto> key),
                 fs_groups := mset_at key (g\<lparr>fg_blocks := sadd h (fg_blocks g)\<rparr>) (fs_groups st)\<rparr>)"

definition vote_reject :: "string \<Rightarrow> vote_result" where
  "vote_reject r = \<lparr>fv_accepted = False, fv_reason = Some r, fv_finalized = None, fv_rejected = None, fv_equivocation = None\<rparr>"

definition vote_accept :: "hex option \<Rightarrow> hex list option \<Rightarrow> vote_result" where
  "vote_accept f rj = \<lparr>fv_accepted = True, fv_reason = None, fv_finalized = f, fv_rejected = rj, fv_equivocation = None\<rparr>"

definition verify_vote_sortition ::
  "crypto \<Rightarrow> 'p curve \<Rightarrow> committee_params \<Rightarrow> weight_source \<Rightarrow> string \<Rightarrow> committee_vote \<Rightarrow> int option option" where
  "verify_vote_sortition C E params W seed v =
     verifySortition C E (cv_accountId v) seed (cv_epoch v) (cv_shard v) (ws_weightOf W (cv_accountId v) (cv_epoch v))
       (ws_totalWeight W (cv_epoch v)) (cp_committeeSize params) (cv_pi v)"

definition tally_vote :: "committee_params \<Rightarrow> string \<Rightarrow> fgroup \<Rightarrow> int \<Rightarrow> committee_vote \<Rightarrow> finality \<Rightarrow> vote_result \<times> finality" where
  "tally_vote params key g seats v st =
     (let h = cv_blockHash v;
          total_seats = nvl (fg_seatsByBlock g h) 0 + seats;
          g1 = g\<lparr>fg_voterChoice := (fg_voterChoice g)(cv_accountId v \<mapsto> h),
                 fg_seatsByBlock := (fg_seatsByBlock g)(h \<mapsto> total_seats)\<rparr>;
          ep = max (nvl (fs_groupEpoch st key) (cv_epoch v)) (cv_epoch v)
      in if total_seats \<ge> seatQuorum params
         then (let rej = filter (\<lambda>x. x \<noteq> h) (fg_blocks g) in
           (vote_accept (Some h) (Some rej),
            st\<lparr>fs_groups := mset_at key (g1\<lparr>fg_final := Some h, fg_voterChoice := (\<lambda>_. None), fg_seatsByBlock := (\<lambda>_. None)\<rparr>) (fs_groups st),
               fs_finalBlocks := insert h (fs_finalBlocks st), fs_rejectedBlocks := fs_rejectedBlocks st \<union> set rej,
               fs_groupEpoch := (fs_groupEpoch st)(key := None)\<rparr>))
         else (vote_accept None None,
           st\<lparr>fs_groups := mset_at key g1 (fs_groups st), fs_groupEpoch := (fs_groupEpoch st)(key \<mapsto> ep)\<rparr>))"

text \<open>\<open>None\<close>: the vote throws (an unreadable group, or an exhausted hash-to-curve).\<close>

definition applyVote ::
  "crypto \<Rightarrow> 'p curve \<Rightarrow> committee_params \<Rightarrow> weight_source \<Rightarrow> (int \<Rightarrow> string option) \<Rightarrow> committee_vote \<Rightarrow> finality
    \<Rightarrow> (vote_result \<times> finality) option" where
  "applyVote C E params W seedFor v st =
     (case fs_groupOf st (cv_blockHash v) of
        None \<Rightarrow> Some (vote_reject ''unknown block'', st)
      | Some key \<Rightarrow> (case mget (fs_groups st) key of None \<Rightarrow> None | Some g \<Rightarrow>
          if truthy (fg_final g) then Some (vote_reject ''group already final'', st)
          else if \<not> verify_str C (cv_sig v) (voteMessage (cv_epoch v) (cv_shard v) (cv_blockHash v)) (cv_accountId v)
          then Some (vote_reject ''bad signature'', st)
          else (case seedFor (cv_epoch v) of
              None \<Rightarrow> Some (vote_reject ''unknown epoch seed'', st)
            | Some seed \<Rightarrow> (case verify_vote_sortition C E params W seed v of
                None \<Rightarrow> None
              | Some None \<Rightarrow> Some (vote_reject ''invalid sortition proof'', st)
              | Some (Some seats) \<Rightarrow>
                  if seats \<le> 0 \<or> seats \<noteq> cv_seats v then Some (vote_reject ''seat count mismatch'', st)
                  else (case fg_voterChoice g (cv_accountId v) of
                      Some prior \<Rightarrow>
                        if prior = cv_blockHash v then Some (vote_reject ''duplicate vote'', st)
                        else (let e = (cv_accountId v, prior, cv_blockHash v) in
                          Some ((vote_reject ''equivocation'')\<lparr>fv_equivocation := Some e\<rparr>, st\<lparr>fs_equivocs := fs_equivocs st @ [e]\<rparr>))
                    | None \<Rightarrow> Some (tally_vote params key g seats v st))))))"

fun prune_groups :: "(string \<times> fgroup) list \<Rightarrow> int \<Rightarrow> int \<Rightarrow> int \<times> finality \<Rightarrow> int \<times> finality" where
  "prune_groups [] currentEpoch retain acc = acc"
| "prune_groups ((key, g) # gs) currentEpoch retain (n, st) =
     (if truthy (fg_final g) then prune_groups gs currentEpoch retain (n, st)
      else if nvl (fs_groupEpoch st key) currentEpoch < currentEpoch - retain
      then prune_groups gs currentEpoch retain
        (n + 1, st\<lparr>fs_groupOf := (\<lambda>h. if h \<in> set (fg_blocks g) then None else fs_groupOf st h),
                   fs_groups := mdel key (fs_groups st), fs_groupEpoch := (fs_groupEpoch st)(key := None)\<rparr>)
      else prune_groups gs currentEpoch retain (n, st))"

definition pruneStale :: "int \<Rightarrow> int \<Rightarrow> finality \<Rightarrow> int \<times> finality" where
  "pruneStale currentEpoch retainEpochs st = prune_groups (fs_groups st) currentEpoch retainEpochs (0, st)"

definition block_finality :: "finality \<Rightarrow> hex \<Rightarrow> finality_status" where
  "block_finality st h =
     (if h \<in> fs_finalBlocks st then Final else if h \<in> fs_rejectedBlocks st then FRejected
      else if fs_groupOf st h \<noteq> None then FPending else Unknown)"

definition isFinal :: "finality \<Rightarrow> hex \<Rightarrow> bool" where
  "isFinal st h = (h \<in> fs_finalBlocks st)"

definition seatsFor :: "finality \<Rightarrow> hex \<Rightarrow> int" where
  "seatsFor st h = (case fs_groupOf st h of None \<Rightarrow> 0 | Some key \<Rightarrow>
     (case mget (fs_groups st) key of None \<Rightarrow> 0 | Some g \<Rightarrow> nvl (fg_seatsByBlock g h) 0))"

section \<open>Runs\<close>

text \<open>A vote that passes the checks of signature and sortition.\<close>

definition authentic ::
  "crypto \<Rightarrow> 'p curve \<Rightarrow> committee_params \<Rightarrow> weight_source \<Rightarrow> (int \<Rightarrow> string option) \<Rightarrow> committee_vote \<Rightarrow> bool" where
  "authentic C E params W seedFor v \<longleftrightarrow>
     verify_str C (cv_sig v) (voteMessage (cv_epoch v) (cv_shard v) (cv_blockHash v)) (cv_accountId v)
     \<and> 0 < cv_seats v
     \<and> (case seedFor (cv_epoch v) of None \<Rightarrow> False | Some seed \<Rightarrow>
          verify_vote_sortition C E params W seed v = Some (Some (cv_seats v)))"

text \<open>Reachable states with the votes accepted so far. Block hashes are not empty.\<close>

inductive fin_run ::
  "crypto \<Rightarrow> 'p curve \<Rightarrow> committee_params \<Rightarrow> weight_source \<Rightarrow> (int \<Rightarrow> string option) \<Rightarrow> finality \<Rightarrow> committee_vote list \<Rightarrow> bool"
  for C E params W seedFor where
  run_start: "fin_run C E params W seedFor new_finality []"
| run_register: "fin_run C E params W seedFor st lg \<Longrightarrow> h \<noteq> [] \<Longrightarrow>
    fin_run C E params W seedFor (registerBlock h a p st) lg"
| run_vote: "fin_run C E params W seedFor st lg \<Longrightarrow> applyVote C E params W seedFor v st = Some (r, st') \<Longrightarrow>
    fin_run C E params W seedFor st' (if fv_accepted r then lg @ [v] else lg)"
| run_prune: "fin_run C E params W seedFor st lg \<Longrightarrow> fin_run C E params W seedFor (snd (pruneStale e k st)) lg"

text \<open>Votes of distinct members for one block, out of a log, that add up to some seats.\<close>

definition backing :: "committee_vote list \<Rightarrow> hex \<Rightarrow> hex set \<Rightarrow> int \<Rightarrow> bool" where
  "backing lg h A n \<longleftrightarrow> (\<exists>vs. set vs \<subseteq> set lg \<and> distinct (map cv_accountId vs) \<and> (\<forall>v \<in> set vs. cv_blockHash v = h)
     \<and> cv_accountId ` set vs = A \<and> sum_list (map cv_seats vs) = n)"

lemma backing_mono: "backing lg h A n \<Longrightarrow> set lg \<subseteq> set lg' \<Longrightarrow> backing lg' h A n"
  unfolding backing_def by blast

lemma backing_empty: "backing lg h {} 0"
  unfolding backing_def by (rule exI [of _ "[]"]) simp

lemma backing_add:
  assumes "backing lg h A n" "cv_accountId v \<notin> A" "cv_blockHash v = h"
  shows "backing (lg @ [v]) h (insert (cv_accountId v) A) (n + cv_seats v)"
proof -
  obtain vs where vs: "set vs \<subseteq> set lg" "distinct (map cv_accountId vs)" "\<forall>v \<in> set vs. cv_blockHash v = h"
    "cv_accountId ` set vs = A" "sum_list (map cv_seats vs) = n"
    using assms(1) unfolding backing_def by blast
  show ?thesis
    unfolding backing_def by (rule exI [of _ "v # vs"]) (use vs assms(2,3) in auto)
qed

definition groups_ok :: "finality \<Rightarrow> bool" where
  "groups_ok st \<longleftrightarrow> wf_map (fs_groups st)
     \<and> (\<forall>h k. fs_groupOf st h = Some k \<longleftrightarrow> (\<exists>g. mget (fs_groups st) k = Some g \<and> h \<in> set (fg_blocks g)))
     \<and> (\<forall>k g h. mget (fs_groups st) k = Some g \<longrightarrow> h \<in> set (fg_blocks g) \<longrightarrow> h \<noteq> [])"

definition decided_ok :: "finality \<Rightarrow> bool" where
  "decided_ok st \<longleftrightarrow>
     (\<forall>h. h \<in> fs_finalBlocks st \<longleftrightarrow> (\<exists>k g. mget (fs_groups st) k = Some g \<and> fg_final g = Some h))
     \<and> (\<forall>k g h. mget (fs_groups st) k = Some g \<longrightarrow> fg_final g = Some h \<longrightarrow> h \<in> set (fg_blocks g))
     \<and> (\<forall>h \<in> fs_rejectedBlocks st. \<exists>k g w. mget (fs_groups st) k = Some g \<and> fg_final g = Some w \<and> w \<noteq> h \<and> h \<in> set (fg_blocks g))"

definition tally_ok :: "finality \<Rightarrow> committee_vote list \<Rightarrow> bool" where
  "tally_ok st lg \<longleftrightarrow>
     (\<forall>k g h. mget (fs_groups st) k = Some g \<longrightarrow> fg_final g = None \<longrightarrow>
        backing lg h {a. fg_voterChoice g a = Some h} (nvl (fg_seatsByBlock g h) 0))"

definition quorum_ok :: "committee_params \<Rightarrow> finality \<Rightarrow> committee_vote list \<Rightarrow> bool" where
  "quorum_ok params st lg \<longleftrightarrow> (\<forall>h \<in> fs_finalBlocks st. \<exists>A n. backing lg h A n \<and> seatQuorum params \<le> n)"

lemma groups_okD:
  assumes "groups_ok st"
  shows "wf_map (fs_groups st)"
    "fs_groupOf st h = Some k \<longleftrightarrow> (\<exists>g. mget (fs_groups st) k = Some g \<and> h \<in> set (fg_blocks g))"
    "mget (fs_groups st) k = Some g \<Longrightarrow> h \<in> set (fg_blocks g) \<Longrightarrow> h \<noteq> []"
  using assms unfolding groups_ok_def by blast+

lemma decided_okD:
  assumes "decided_ok st"
  shows "h \<in> fs_finalBlocks st \<longleftrightarrow> (\<exists>k g. mget (fs_groups st) k = Some g \<and> fg_final g = Some h)"
    "mget (fs_groups st) k = Some g \<Longrightarrow> fg_final g = Some h \<Longrightarrow> h \<in> set (fg_blocks g)"
    "h \<in> fs_rejectedBlocks st \<Longrightarrow>
      \<exists>k g w. mget (fs_groups st) k = Some g \<and> fg_final g = Some w \<and> w \<noteq> h \<and> h \<in> set (fg_blocks g)"
  using assms unfolding decided_ok_def by blast+

lemma final_truthy:
  assumes "groups_ok st" "decided_ok st" "mget (fs_groups st) k = Some g"
  shows "truthy (fg_final g) \<longleftrightarrow> fg_final g \<noteq> None"
  using groups_okD(3) [OF assms(1,3)] decided_okD(2) [OF assms(2,3)] by (cases "fg_final g") auto

section \<open>Registration\<close>

lemma register_groups:
  assumes "fs_groupOf st h = None"
  shows "mget (fs_groups (registerBlock h a p st)) k =
    (if k = a @ '':'' @ p then Some ((nvl (mget (fs_groups st) k) new_fgroup)
        \<lparr>fg_blocks := sadd h (fg_blocks (nvl (mget (fs_groups st) k) new_fgroup))\<rparr>)
     else mget (fs_groups st) k)"
  using assms by (simp add: registerBlock_def Let_def)

lemma register_groups_ok:
  assumes "groups_ok st" "h \<noteq> []"
  shows "groups_ok (registerBlock h a p st)"
proof (cases "fs_groupOf st h")
  case (Some k)
  with assms(1) show ?thesis by (simp add: registerBlock_def)
next
  case None
  note G = groups_okD [OF assms(1)]
  note R = register_groups [OF None, of a p]
  have of': "fs_groupOf (registerBlock h a p st) = (fs_groupOf st)(h \<mapsto> a @ '':'' @ p)"
    using None by (simp add: registerBlock_def Let_def)
  have blk: "(\<exists>g. mget (fs_groups (registerBlock h a p st)) k = Some g \<and> x \<in> set (fg_blocks g)) \<longleftrightarrow>
      (k = a @ '':'' @ p \<and> x = h) \<or> (\<exists>g. mget (fs_groups st) k = Some g \<and> x \<in> set (fg_blocks g))" for k x
    by (cases "mget (fs_groups st) k") (auto simp: R new_fgroup_def)
  have nh: "\<not> (\<exists>g. mget (fs_groups st) k = Some g \<and> h \<in> set (fg_blocks g))" for k
    using G(2) [of h k] None by simp
  show ?thesis
    unfolding groups_ok_def
  proof (intro conjI allI impI)
    show "wf_map (fs_groups (registerBlock h a p st))"
      using G(1) None by (simp add: registerBlock_def Let_def)
    show "fs_groupOf (registerBlock h a p st) x = Some k \<longleftrightarrow>
        (\<exists>g. mget (fs_groups (registerBlock h a p st)) k = Some g \<and> x \<in> set (fg_blocks g))" for x k
      unfolding blk using G(2) [of x k] nh [of k] by (auto simp: of')
    fix k g x
    assume "mget (fs_groups (registerBlock h a p st)) k = Some g" "x \<in> set (fg_blocks g)"
    then show "x \<noteq> []"
      using blk [of k x] assms(2) G(3) by blast
  qed
qed

lemma register_frame:
  "fs_finalBlocks (registerBlock h a p st) = fs_finalBlocks st"
  "fs_rejectedBlocks (registerBlock h a p st) = fs_rejectedBlocks st"
  by (simp_all add: registerBlock_def Let_def)

lemma register_group_frame:
  "mget (fs_groups st) k = Some g \<Longrightarrow>
   \<exists>g'. mget (fs_groups (registerBlock h a p st)) k = Some g' \<and> set (fg_blocks g) \<subseteq> set (fg_blocks g') \<and> fg_final g' = fg_final g"
  by (cases "fs_groupOf st h") (auto simp: register_groups registerBlock_def Let_def)

lemma register_group_back:
  "mget (fs_groups (registerBlock h a p st)) k = Some g' \<Longrightarrow>
   (\<exists>g. mget (fs_groups st) k = Some g \<and> set (fg_blocks g) \<subseteq> set (fg_blocks g') \<and> fg_final g' = fg_final g
      \<and> fg_voterChoice g' = fg_voterChoice g \<and> fg_seatsByBlock g' = fg_seatsByBlock g)
   \<or> (fg_final g' = None \<and> fg_voterChoice g' = (\<lambda>_. None) \<and> fg_seatsByBlock g' = (\<lambda>_. None))"
  by (cases "fs_groupOf st h"; cases "mget (fs_groups st) k")
    (auto simp: register_groups new_fgroup_def registerBlock_def Let_def split: if_splits)

lemma register_decided_ok:
  assumes "decided_ok st"
  shows "decided_ok (registerBlock h a p st)"
  unfolding decided_ok_def register_frame
proof (intro conjI allI impI ballI)
  fix x
  show "x \<in> fs_finalBlocks st \<longleftrightarrow> (\<exists>k g. mget (fs_groups (registerBlock h a p st)) k = Some g \<and> fg_final g = Some x)"
    unfolding decided_okD(1) [OF assms]
    using register_group_frame [of st _ _ h a p] register_group_back [of h a p st] by (metis option.distinct(1))
next
  fix k g x
  assume "mget (fs_groups (registerBlock h a p st)) k = Some g" "fg_final g = Some x"
  then show "x \<in> set (fg_blocks g)"
    using register_group_back [of h a p st k g] decided_okD(2) [OF assms, of k _ x] by auto
next
  fix x
  assume "x \<in> fs_rejectedBlocks st"
  then obtain k g w where "mget (fs_groups st) k = Some g" "fg_final g = Some w" "w \<noteq> x" "x \<in> set (fg_blocks g)"
    using decided_okD(3) [OF assms] by blast
  then show "\<exists>k g w. mget (fs_groups (registerBlock h a p st)) k = Some g \<and> fg_final g = Some w \<and> w \<noteq> x \<and> x \<in> set (fg_blocks g)"
    using register_group_frame [of st k g h a p] by fastforce
qed

lemma register_tally_ok:
  assumes "tally_ok st lg"
  shows "tally_ok (registerBlock h a p st) lg"
  unfolding tally_ok_def
proof (intro allI impI)
  fix k g x
  assume g: "mget (fs_groups (registerBlock h a p st)) k = Some g" "fg_final g = None"
  from register_group_back [OF g(1)] show "backing lg x {a. fg_voterChoice g a = Some x} (nvl (fg_seatsByBlock g x) 0)"
  proof (elim disjE exE conjE)
    fix g0
    assume "mget (fs_groups st) k = Some g0" "fg_final g = fg_final g0" "fg_voterChoice g = fg_voterChoice g0"
      "fg_seatsByBlock g = fg_seatsByBlock g0"
    with assms g(2) show ?thesis
      unfolding tally_ok_def by simp
  qed (simp add: backing_empty)
qed

section \<open>Votes\<close>

lemma applyVote_cases:
  assumes "applyVote C E params W seedFor v st = Some (r, st')"
  obtains (frame) "\<not> fv_accepted r" "fs_groups st' = fs_groups st" "fs_groupOf st' = fs_groupOf st"
      "fs_finalBlocks st' = fs_finalBlocks st" "fs_rejectedBlocks st' = fs_rejectedBlocks st"
    | (tally) key g where "fs_groupOf st (cv_blockHash v) = Some key" "mget (fs_groups st) key = Some g"
      "\<not> truthy (fg_final g)" "authentic C E params W seedFor v" "fg_voterChoice g (cv_accountId v) = None"
      "(r, st') = tally_vote params key g (cv_seats v) v st"
  using assms
  by (auto simp: applyVote_def vote_reject_def authentic_def Let_def split: option.splits if_splits)

lemma tally_vote_accepted: "fv_accepted (fst (tally_vote params key g n v st))"
  by (simp add: tally_vote_def Let_def vote_accept_def)

lemma tally_groupOf [simp]: "fs_groupOf (snd (tally_vote params key g n v st)) = fs_groupOf st"
  by (simp add: tally_vote_def Let_def)

definition quorum_met :: "committee_params \<Rightarrow> fgroup \<Rightarrow> committee_vote \<Rightarrow> bool" where
  "quorum_met params g v \<longleftrightarrow> seatQuorum params \<le> nvl (fg_seatsByBlock g (cv_blockHash v)) 0 + cv_seats v"

lemma tally_groups:
  "mget (fs_groups (snd (tally_vote params key g (cv_seats v) v st))) k =
    (if k = key then
       Some (if quorum_met params g v
         then g\<lparr>fg_final := Some (cv_blockHash v), fg_voterChoice := (\<lambda>_. None), fg_seatsByBlock := (\<lambda>_. None)\<rparr>
         else g\<lparr>fg_voterChoice := (fg_voterChoice g)(cv_accountId v \<mapsto> cv_blockHash v),
                fg_seatsByBlock := (fg_seatsByBlock g)(cv_blockHash v \<mapsto> nvl (fg_seatsByBlock g (cv_blockHash v)) 0 + cv_seats v)\<rparr>)
     else mget (fs_groups st) k)"
  "fs_finalBlocks (snd (tally_vote params key g (cv_seats v) v st)) =
    (if quorum_met params g v then insert (cv_blockHash v) (fs_finalBlocks st) else fs_finalBlocks st)"
  "fs_rejectedBlocks (snd (tally_vote params key g (cv_seats v) v st)) =
    (if quorum_met params g v then fs_rejectedBlocks st \<union> (set (fg_blocks g) - {cv_blockHash v}) else fs_rejectedBlocks st)"
  by (auto simp: tally_vote_def Let_def quorum_met_def)

lemma tally_groups_ok:
  assumes "groups_ok st" "mget (fs_groups st) key = Some g"
  shows "groups_ok (snd (tally_vote params key g (cv_seats v) v st))"
proof -
  let ?st = "snd (tally_vote params key g (cv_seats v) v st)"
  have b: "(\<exists>g'. mget (fs_groups ?st) k = Some g' \<and> h \<in> set (fg_blocks g')) \<longleftrightarrow>
      (\<exists>g'. mget (fs_groups st) k = Some g' \<and> h \<in> set (fg_blocks g'))" for k h
    using assms(2) by (auto simp: tally_groups)
  have "wf_map (fs_groups ?st)"
    using groups_okD(1) [OF assms(1)] by (simp add: tally_vote_def Let_def)
  moreover have "fs_groupOf ?st h = Some k \<longleftrightarrow> (\<exists>g'. mget (fs_groups ?st) k = Some g' \<and> h \<in> set (fg_blocks g'))" for h k
    unfolding b tally_groupOf by (rule groups_okD(2) [OF assms(1)])
  moreover have "mget (fs_groups ?st) k = Some g' \<Longrightarrow> h \<in> set (fg_blocks g') \<Longrightarrow> h \<noteq> []" for k g' h
    using groups_okD(3) [OF assms(1)] b [of k h] by blast
  ultimately show ?thesis
    unfolding groups_ok_def by blast
qed

lemma tally_decided_ok:
  assumes "groups_ok st" "decided_ok st" "mget (fs_groups st) key = Some g" "fs_groupOf st (cv_blockHash v) = Some key"
    "fg_final g = None"
  shows "decided_ok (snd (tally_vote params key g (cv_seats v) v st))"
proof -
  let ?st = "snd (tally_vote params key g (cv_seats v) v st)"
  note D = decided_okD [OF assms(2)]
  have hb: "cv_blockHash v \<in> set (fg_blocks g)"
    using groups_okD(2) [OF assms(1), of "cv_blockHash v" key] assms(3,4) by auto
  have other: "mget (fs_groups st) k = Some g' \<Longrightarrow> fg_final g' = Some w \<Longrightarrow> mget (fs_groups ?st) k = Some g'" for k g' w
    using assms(3,5) by (auto simp: tally_groups)
  show ?thesis
    unfolding decided_ok_def
  proof (intro conjI allI impI ballI)
    fix h
    show "h \<in> fs_finalBlocks ?st \<longleftrightarrow> (\<exists>k g'. mget (fs_groups ?st) k = Some g' \<and> fg_final g' = Some h)"
    proof
      assume "h \<in> fs_finalBlocks ?st"
      then consider "quorum_met params g v" "h = cv_blockHash v" | "h \<in> fs_finalBlocks st"
        by (auto simp: tally_groups split: if_splits)
      then show "\<exists>k g'. mget (fs_groups ?st) k = Some g' \<and> fg_final g' = Some h"
      proof cases
        case 1
        then show ?thesis
          by (intro exI [of _ key]) (simp add: tally_groups)
      next
        case 2
        then show ?thesis
          using D(1) other by blast
      qed
    next
      assume "\<exists>k g'. mget (fs_groups ?st) k = Some g' \<and> fg_final g' = Some h"
      then obtain k g' where g': "mget (fs_groups ?st) k = Some g'" "fg_final g' = Some h"
        by blast
      show "h \<in> fs_finalBlocks ?st"
      proof (cases "k = key")
        case True
        then show ?thesis
          using g' assms(5) by (auto simp: tally_groups split: if_splits)
      next
        case False
        then have "h \<in> fs_finalBlocks st"
          using g' D(1) by (auto simp: tally_groups)
        then show ?thesis
          by (simp add: tally_groups)
      qed
    qed
  next
    fix k g' h
    assume "mget (fs_groups ?st) k = Some g'" "fg_final g' = Some h"
    then show "h \<in> set (fg_blocks g')"
      using D(2) assms(5) hb by (auto simp: tally_groups split: if_splits)
  next
    fix h
    assume "h \<in> fs_rejectedBlocks ?st"
    then consider "h \<in> fs_rejectedBlocks st" | "quorum_met params g v" "h \<in> set (fg_blocks g)" "h \<noteq> cv_blockHash v"
      by (auto simp: tally_groups split: if_splits)
    then show "\<exists>k g' w. mget (fs_groups ?st) k = Some g' \<and> fg_final g' = Some w \<and> w \<noteq> h \<and> h \<in> set (fg_blocks g')"
    proof cases
      case 1
      then show ?thesis
        using D(3) other by blast
    next
      case 2
      then show ?thesis
        by (intro exI [of _ key]) (simp add: tally_groups)
    qed
  qed
qed

lemma tally_tally_ok:
  assumes "tally_ok st lg" "mget (fs_groups st) key = Some g" "fg_final g = None" "fg_voterChoice g (cv_accountId v) = None"
  shows "tally_ok (snd (tally_vote params key g (cv_seats v) v st)) (lg @ [v])"
  unfolding tally_ok_def
proof (intro allI impI)
  fix k g' h
  assume g': "mget (fs_groups (snd (tally_vote params key g (cv_seats v) v st))) k = Some g'" "fg_final g' = None"
  have old: "backing lg h {a. fg_voterChoice g a = Some h} (nvl (fg_seatsByBlock g h) 0)" for h
    using assms(1-3) unfolding tally_ok_def by blast
  show "backing (lg @ [v]) h {a. fg_voterChoice g' a = Some h} (nvl (fg_seatsByBlock g' h) 0)"
  proof (cases "k = key")
    case False
    with g' assms(1) have "backing lg h {a. fg_voterChoice g' a = Some h} (nvl (fg_seatsByBlock g' h) 0)"
      unfolding tally_ok_def by (simp add: tally_groups)
    then show ?thesis
      by (rule backing_mono) auto
  next
    case True
    with g' have eq: "fg_voterChoice g' = (fg_voterChoice g)(cv_accountId v \<mapsto> cv_blockHash v)"
      "fg_seatsByBlock g' = (fg_seatsByBlock g)(cv_blockHash v \<mapsto> nvl (fg_seatsByBlock g (cv_blockHash v)) 0 + cv_seats v)"
      by (auto simp: tally_groups split: if_splits)
    show ?thesis
    proof (cases "h = cv_blockHash v")
      case True
      have A: "{a. fg_voterChoice g' a = Some h} = insert (cv_accountId v) {a. fg_voterChoice g a = Some h}"
        using True by (auto simp: eq)
      show ?thesis
        unfolding A using backing_add [OF old [of h]] True assms(4) by (simp add: eq)
    next
      case False
      have "{a. fg_voterChoice g' a = Some h} = {a. fg_voterChoice g a = Some h}"
        using False assms(4) by (auto simp: eq)
      moreover have "fg_seatsByBlock g' h = fg_seatsByBlock g h"
        using False by (simp add: eq)
      ultimately show ?thesis
        using backing_mono [OF old [of h], of "lg @ [v]"] by (simp add: subset_eq)
    qed
  qed
qed

lemma quorum_mono: "quorum_ok params st lg \<Longrightarrow> set lg \<subseteq> set lg' \<Longrightarrow> quorum_ok params st lg'"
  unfolding quorum_ok_def by (meson backing_mono)

lemma tally_quorum_ok:
  assumes "quorum_ok params st lg" "tally_ok st lg" "mget (fs_groups st) key = Some g" "fg_final g = None"
    "fg_voterChoice g (cv_accountId v) = None"
  shows "quorum_ok params (snd (tally_vote params key g (cv_seats v) v st)) (lg @ [v])"
proof -
  have old: "quorum_ok params st (lg @ [v])"
    using assms(1) by (rule quorum_mono) auto
  have "backing lg (cv_blockHash v) {a. fg_voterChoice g a = Some (cv_blockHash v)} (nvl (fg_seatsByBlock g (cv_blockHash v)) 0)"
    using assms(2-4) unfolding tally_ok_def by blast
  then have "backing (lg @ [v]) (cv_blockHash v) (insert (cv_accountId v) {a. fg_voterChoice g a = Some (cv_blockHash v)})
      (nvl (fg_seatsByBlock g (cv_blockHash v)) 0 + cv_seats v)"
    by (rule backing_add) (use assms(5) in auto)
  then show ?thesis
    using old unfolding quorum_ok_def tally_groups quorum_met_def by auto
qed

section \<open>Pruning\<close>

definition fin_inv :: "committee_params \<Rightarrow> finality \<Rightarrow> committee_vote list \<Rightarrow> bool" where
  "fin_inv params st lg \<longleftrightarrow> groups_ok st \<and> decided_ok st \<and> tally_ok st lg \<and> quorum_ok params st lg"

text \<open>Dropping an undecided group keeps the invariant.\<close>

definition drop_group :: "string \<Rightarrow> fgroup \<Rightarrow> finality \<Rightarrow> finality" where
  "drop_group key g st = st\<lparr>fs_groupOf := (\<lambda>h. if h \<in> set (fg_blocks g) then None else fs_groupOf st h),
     fs_groups := mdel key (fs_groups st), fs_groupEpoch := (fs_groupEpoch st)(key := None)\<rparr>"

lemma drop_group_inv:
  assumes "fin_inv params st lg" "mget (fs_groups st) key = Some g" "fg_final g = None"
  shows "fin_inv params (drop_group key g st) lg"
proof -
  have I: "groups_ok st" "decided_ok st" "tally_ok st lg" "quorum_ok params st lg"
    using assms(1) unfolding fin_inv_def by blast+
  note G = groups_okD [OF I(1)] and D = decided_okD [OF I(2)]
  let ?st = "drop_group key g st"
  have gs: "mget (fs_groups ?st) k = (if k = key then None else mget (fs_groups st) k)" for k
    by (simp add: drop_group_def)
  have uniq: "h \<in> set (fg_blocks g) \<Longrightarrow> mget (fs_groups st) k = Some g' \<Longrightarrow> h \<in> set (fg_blocks g') \<Longrightarrow> k = key" for h k g'
    using G(2) [of h k] G(2) [of h key] assms(2) by auto
  have "groups_ok ?st"
    unfolding groups_ok_def
  proof (intro conjI allI impI)
    show "wf_map (fs_groups ?st)"
      using G(1) by (simp add: drop_group_def)
    show "fs_groupOf ?st h = Some k \<longleftrightarrow> (\<exists>g'. mget (fs_groups ?st) k = Some g' \<and> h \<in> set (fg_blocks g'))" for h k
      using G(2) [of h k] assms(2) uniq [of h k] by (auto simp: drop_group_def)
    show "mget (fs_groups ?st) k = Some g' \<Longrightarrow> h \<in> set (fg_blocks g') \<Longrightarrow> h \<noteq> []" for k g' h
      using G(3) by (auto simp: gs split: if_splits)
  qed
  moreover have keep: "mget (fs_groups st) k = Some g' \<Longrightarrow> fg_final g' = Some w \<Longrightarrow> mget (fs_groups ?st) k = Some g'" for k g' w
    using assms(2,3) by (auto simp: gs)
  have "decided_ok ?st"
    unfolding decided_ok_def
  proof (intro conjI allI impI ballI)
    show "h \<in> fs_finalBlocks ?st \<longleftrightarrow> (\<exists>k g'. mget (fs_groups ?st) k = Some g' \<and> fg_final g' = Some h)" for h
    proof -
      have "h \<in> fs_finalBlocks ?st \<longleftrightarrow> h \<in> fs_finalBlocks st"
        by (simp add: drop_group_def)
      then show ?thesis
        unfolding D(1) using keep gs by (metis option.distinct(1))
    qed
    show "mget (fs_groups ?st) k = Some g' \<Longrightarrow> fg_final g' = Some h \<Longrightarrow> h \<in> set (fg_blocks g')" for k g' h
      using D(2) by (auto simp: gs split: if_splits)
    fix h
    assume "h \<in> fs_rejectedBlocks ?st"
    then have "h \<in> fs_rejectedBlocks st"
      by (simp add: drop_group_def)
    then show "\<exists>k g' w. mget (fs_groups ?st) k = Some g' \<and> fg_final g' = Some w \<and> w \<noteq> h \<and> h \<in> set (fg_blocks g')"
      using D(3) keep by blast
  qed
  moreover have "tally_ok ?st lg"
    using I(3) unfolding tally_ok_def by (auto simp: gs)
  moreover have "quorum_ok params ?st lg"
    using I(4) unfolding quorum_ok_def by (simp add: drop_group_def)
  ultimately show ?thesis
    unfolding fin_inv_def by blast
qed

lemma prune_groups_inv:
  "fin_inv params st lg \<Longrightarrow> distinct (map fst gs) \<Longrightarrow> (\<forall>(k, g) \<in> set gs. mget (fs_groups st) k = Some g) \<Longrightarrow>
   fin_inv params (snd (prune_groups gs e r (n, st))) lg"
proof (induction gs e r "(n, st)" arbitrary: n st rule: prune_groups.induct)
  case (2 key g gs e r n st)
  have g: "mget (fs_groups st) key = Some g"
    using 2(6) by auto
  have I: "groups_ok st" "decided_ok st"
    using 2(4) unfolding fin_inv_def by blast+
  show ?case
  proof (cases "truthy (fg_final g)")
    case True
    with 2 show ?thesis by simp
  next
    case T: False
    then have fn: "fg_final g = None"
      using final_truthy [OF I g] by simp
    show ?thesis
    proof (cases "nvl (fs_groupEpoch st key) e < e - r")
      case True
      have "fin_inv params (drop_group key g st) lg"
        by (rule drop_group_inv [OF 2(4) g fn])
      moreover have "\<forall>(k, g') \<in> set gs. mget (fs_groups (drop_group key g st)) k = Some g'"
      proof clarify
        fix k g'
        assume kg: "(k, g') \<in> set gs"
        then have "k \<noteq> key"
          using 2(5) by force
        with kg 2(6) show "mget (fs_groups (drop_group key g st)) k = Some g'"
          by (auto simp: drop_group_def)
      qed
      ultimately show ?thesis
        using 2(2) [OF T True] 2(5) T True by (simp add: drop_group_def)
    next
      case False
      with 2 T show ?thesis by simp
    qed
  qed
qed simp

section \<open>Safety\<close>

theorem fin_run_inv: "fin_run C E params W seedFor st lg \<Longrightarrow> fin_inv params st lg"
proof (induction rule: fin_run.induct)
  case run_start
  show ?case
    by (simp add: fin_inv_def groups_ok_def decided_ok_def tally_ok_def quorum_ok_def new_finality_def)
next
  case (run_register st lg h a p)
  then show ?case
    by (simp add: fin_inv_def register_groups_ok register_decided_ok register_tally_ok quorum_ok_def register_frame)
next
  case (run_vote st lg v r st')
  then have I: "groups_ok st" "decided_ok st" "tally_ok st lg" "quorum_ok params st lg"
    unfolding fin_inv_def by blast+
  from run_vote(2) show ?case
  proof (cases rule: applyVote_cases)
    case frame
    with I show ?thesis
      by (simp add: fin_inv_def groups_ok_def decided_ok_def tally_ok_def quorum_ok_def)
  next
    case (tally key g)
    have fn: "fg_final g = None"
      using final_truthy [OF I(1,2) tally(2)] tally(3) by simp
    have st': "st' = snd (tally_vote params key g (cv_seats v) v st)" "fv_accepted r"
      using tally(6) tally_vote_accepted [of params key g "cv_seats v" v st] by (metis prod.collapse prod.inject)+
    show ?thesis
      unfolding fin_inv_def st' if_True
      using st'(2) tally_groups_ok [OF I(1) tally(2)] tally_decided_ok [OF I(1,2) tally(2,1) fn]
        tally_tally_ok [OF I(3) tally(2) fn tally(5)] tally_quorum_ok [OF I(4,3) tally(2) fn tally(5)]
      by simp
  qed
next
  case (run_prune st lg e k)
  then have "wf_map (fs_groups st)"
    unfolding fin_inv_def using groups_okD(1) by blast
  then have "distinct (map fst (fs_groups st))" "\<forall>(k, g) \<in> set (fs_groups st). mget (fs_groups st) k = Some g"
    by (auto simp: wf_map_def)
  then show ?case
    using prune_groups_inv [OF run_prune(2)] by (simp add: pruneStale_def)
qed

lemma fin_run_authentic: "fin_run C E params W seedFor st lg \<Longrightarrow> v \<in> set lg \<Longrightarrow> authentic C E params W seedFor v"
proof (induction arbitrary: v rule: fin_run.induct)
  case (run_vote st lg w r st')
  show ?case
  proof (cases "v \<in> set lg")
    case False
    with run_vote(4) have "fv_accepted r" "v = w"
      by (auto split: if_splits)
    with run_vote(2) show ?thesis
      by (cases rule: applyVote_cases) auto
  qed (use run_vote in blast)
qed auto

lemma final_quorum:
  assumes "fin_run C E params W seedFor st lg" "isFinal st h"
  shows "\<exists>vs. set vs \<subseteq> set lg \<and> distinct (map cv_accountId vs) \<and> (\<forall>v \<in> set vs. cv_blockHash v = h)
    \<and> (\<forall>v \<in> set vs. authentic C E params W seedFor v) \<and> seatQuorum params \<le> sum_list (map cv_seats vs)"
proof -
  have "quorum_ok params st lg"
    using fin_run_inv [OF assms(1)] unfolding fin_inv_def by blast
  then obtain A n where "backing lg h A n" "seatQuorum params \<le> n"
    using assms(2) unfolding quorum_ok_def isFinal_def by blast
  then show ?thesis
    unfolding backing_def using fin_run_authentic [OF assms(1)] by blast
qed

lemma final_unique:
  assumes "fin_run C E params W seedFor st lg" "isFinal st h" "isFinal st h'" "fs_groupOf st h = fs_groupOf st h'"
  shows "h = h'"
proof -
  have I: "groups_ok st" "decided_ok st"
    using fin_run_inv [OF assms(1)] unfolding fin_inv_def by blast+
  note D = decided_okD [OF I(2)] and G = groups_okD [OF I(1)]
  obtain k g where k: "mget (fs_groups st) k = Some g" "fg_final g = Some h"
    using assms(2) D(1) unfolding isFinal_def by blast
  obtain k' g' where k': "mget (fs_groups st) k' = Some g'" "fg_final g' = Some h'"
    using assms(3) D(1) unfolding isFinal_def by blast
  have "fs_groupOf st h = Some k" "fs_groupOf st h' = Some k'"
    using G(2) D(2) k k' by blast+
  with assms(4) k k' show ?thesis by simp
qed

lemma final_not_rejected:
  assumes "fin_run C E params W seedFor st lg" "isFinal st h"
  shows "h \<notin> fs_rejectedBlocks st"
proof
  assume r: "h \<in> fs_rejectedBlocks st"
  have I: "groups_ok st" "decided_ok st"
    using fin_run_inv [OF assms(1)] unfolding fin_inv_def by blast+
  note D = decided_okD [OF I(2)] and G = groups_okD [OF I(1)]
  obtain k g w where k: "mget (fs_groups st) k = Some g" "fg_final g = Some w" "w \<noteq> h" "h \<in> set (fg_blocks g)"
    using D(3) r by blast
  obtain k' g' where k': "mget (fs_groups st) k' = Some g'" "fg_final g' = Some h"
    using assms(2) D(1) unfolding isFinal_def by blast
  have "fs_groupOf st h = Some k" "fs_groupOf st h = Some k'"
    using G(2) D(2) k k' by blast+
  with k k' show False by simp
qed

section \<open>Two behaviours to know\<close>

text \<open>
  A sibling registered after its position was decided is neither rejected nor voted on: its
  status stays pending.
\<close>

lemma late_sibling_pending:
  assumes "mget (fs_groups st) (a @ '':'' @ p) = Some g" "fg_final g = Some w"
    "fs_groupOf st h = None" "h \<notin> fs_finalBlocks st" "h \<notin> fs_rejectedBlocks st"
  shows "block_finality (registerBlock h a p st) h = FPending"
  using assms by (simp add: block_finality_def registerBlock_def Let_def)

text \<open>
  Whether a vote counts does not depend on the shard of the block: registration does not record
  it, and a vote that names any shard in which its signer drew seats is tallied with those seats.
\<close>

lemma vote_shard_free:
  assumes "fs_groupOf st (cv_blockHash v) = Some key" "mget (fs_groups st) key = Some g" "fg_final g = None"
    "fg_voterChoice g (cv_accountId v) = None" "authentic C E params W seedFor v"
  shows "applyVote C E params W seedFor v st = Some (tally_vote params key g (cv_seats v) v st)"
  using assms by (auto simp: applyVote_def authentic_def split: option.splits)

end
