(* ===== verification/Conflict_Vote.thy ===== *)
theory Conflict_Vote
  imports Validators
begin

text \<open>
  Optimistic confirmation with conflict-only voting, \<open>src/engine/consensus/vote.ts\<close>. The state
  of \<open>ConflictResolver\<close> is translated with its insertion-ordered groups. Resolution confirms
  exactly one block of a conflict, one with the most weight, and rejects the others. Because
  the group is deleted on resolution, a sibling that arrives afterwards is confirmed beside the
  winner, and a late vote for a resolved block throws: both are stated as theorems.
\<close>

record weighted_vote =
  wv_blockHash :: hex
  wv_voterId :: hex
  wv_weight :: real

record vote_outcome =
  vo_counted :: bool
  vo_equivocation :: "equivocation option"

datatype block_status = Confirmed | Rejected | Conflict | Pending

record vgroup =
  vg_blocks :: "hex list"
  vg_tally :: "(hex, real) jsmap"
  vg_voterChoice :: "hex \<Rightarrow> hex option"

record resolver =
  rs_confirmed :: "hex set"
  rs_rejected :: "hex set"
  rs_blockGroup :: "hex \<Rightarrow> string option"
  rs_groups :: "(string, vgroup) jsmap"
  rs_equivocs :: "equivocation list"

definition DEFAULT_THRESHOLD :: real where "DEFAULT_THRESHOLD = 2 / 3"

definition new_resolver :: resolver where
  "new_resolver = \<lparr>rs_confirmed = {}, rs_rejected = {}, rs_blockGroup = (\<lambda>_. None), rs_groups = [], rs_equivocs = []\<rparr>"

definition new_vgroup :: vgroup where
  "new_vgroup = \<lparr>vg_blocks = [], vg_tally = [], vg_voterChoice = (\<lambda>_. None)\<rparr>"

definition group_key :: "hex \<Rightarrow> hex \<Rightarrow> string" where
  "group_key accountId previousHash = accountId @ '':'' @ previousHash"

fun zero_tallies :: "hex list \<Rightarrow> (hex, real) jsmap \<Rightarrow> (hex, real) jsmap" where
  "zero_tallies [] t = t"
| "zero_tallies (h # hs) t = zero_tallies hs (if \<not> mhas t h then mset_at h 0 t else t)"

definition vote_register :: "hex \<Rightarrow> hex \<Rightarrow> hex \<Rightarrow> resolver \<Rightarrow> block_status \<times> resolver" where
  "vote_register blockHash accountId previousHash st =
     (if blockHash \<in> rs_confirmed st then (Confirmed, st)
      else if blockHash \<in> rs_rejected st then (Conflict, st)
      else
        let key = group_key accountId previousHash;
            g0 = nvl (mget (rs_groups st) key) new_vgroup;
            g1 = g0\<lparr>vg_blocks := sadd blockHash (vg_blocks g0)\<rparr>;
            st1 = st\<lparr>rs_blockGroup := (rs_blockGroup st)(blockHash \<mapsto> key)\<rparr>
        in if length (vg_blocks g1) = 1
           then (Confirmed, st1\<lparr>rs_groups := mset_at key g1 (rs_groups st), rs_confirmed := insert blockHash (rs_confirmed st)\<rparr>)
           else (Conflict, st1\<lparr>rs_groups := mset_at key (g1\<lparr>vg_tally := zero_tallies (vg_blocks g1) (vg_tally g1)\<rparr>) (rs_groups st),
                   rs_confirmed := rs_confirmed st - set (vg_blocks g1)\<rparr>))"

text \<open>\<open>None\<close>: \<open>this.groups.get(key)!\<close> is \<open>undefined\<close> and the read of its blocks throws.\<close>

definition vote :: "weighted_vote \<Rightarrow> resolver \<Rightarrow> (vote_outcome \<times> resolver) option" where
  "vote v st =
     (case rs_blockGroup st (wv_blockHash v) of
        None \<Rightarrow> Some (\<lparr>vo_counted = False, vo_equivocation = None\<rparr>, st)
      | Some key \<Rightarrow> (case mget (rs_groups st) key of
          None \<Rightarrow> None
        | Some g \<Rightarrow>
            if length (vg_blocks g) < 2 then Some (\<lparr>vo_counted = False, vo_equivocation = None\<rparr>, st)
            else (case vg_voterChoice g (wv_voterId v) of
                Some prev \<Rightarrow>
                  if prev = wv_blockHash v then Some (\<lparr>vo_counted = False, vo_equivocation = None\<rparr>, st)
                  else (let e = \<lparr>eq_groupKey = key, eq_voterId = wv_voterId v, eq_blockA = prev, eq_blockB = wv_blockHash v\<rparr>
                    in Some (\<lparr>vo_counted = False, vo_equivocation = Some e\<rparr>, st\<lparr>rs_equivocs := rs_equivocs st @ [e]\<rparr>))
              | None \<Rightarrow>
                  (let g' = g\<lparr>vg_voterChoice := (vg_voterChoice g)(wv_voterId v \<mapsto> wv_blockHash v),
                              vg_tally := mset_at (wv_blockHash v) (nvl (mget (vg_tally g) (wv_blockHash v)) 0 + wv_weight v) (vg_tally g)\<rparr>
                   in Some (\<lparr>vo_counted = True, vo_equivocation = None\<rparr>, st\<lparr>rs_groups := mset_at key g' (rs_groups st)\<rparr>)))))"

fun tally_best :: "(hex \<times> real) list \<Rightarrow> hex \<times> real \<times> real \<Rightarrow> hex \<times> real \<times> real" where
  "tally_best [] acc = acc"
| "tally_best ((h, w) # ts) (winner, best, total_w) =
     (if w > best then tally_best ts (h, w, total_w + w) else tally_best ts (winner, best, total_w + w))"

definition resolve_group :: "real \<Rightarrow> bool \<Rightarrow> string \<times> vgroup \<Rightarrow> hex list \<times> hex list \<times> resolver \<Rightarrow> hex list \<times> hex list \<times> resolver" where
  "resolve_group threshold timedOut kg res =
     (let (key, g) = kg; (conf, rej, st) = res in
      if length (vg_blocks g) < 2 then res
      else let (winner, best, total_w) = tally_best (vg_tally g) ([], -1, 0);
               met = (total_w > 0 \<and> best / total_w \<ge> threshold);
               byTimeout = (timedOut \<and> best > 0)
           in if \<not> met \<and> \<not> byTimeout then res
              else let losers = filter (\<lambda>h. h \<noteq> winner) (vg_blocks g)
                   in (conf @ [winner], rej @ losers,
                       st\<lparr>rs_confirmed := insert winner (rs_confirmed st), rs_rejected := rs_rejected st \<union> set losers,
                          rs_groups := mdel key (rs_groups st)\<rparr>))"

definition resolve :: "real option \<Rightarrow> bool \<Rightarrow> resolver \<Rightarrow> (hex list \<times> hex list) \<times> resolver" where
  "resolve threshold timedOut st =
     (let (conf, rej, st') = fold (resolve_group (nvl threshold DEFAULT_THRESHOLD) timedOut) (rs_groups st) ([], [], st)
      in ((conf, rej), st'))"

definition vote_status :: "resolver \<Rightarrow> hex \<Rightarrow> block_status" where
  "vote_status st h =
     (if h \<in> rs_confirmed st then Confirmed
      else if h \<in> rs_rejected st then Rejected
      else (case rs_blockGroup st h of
          None \<Rightarrow> Pending
        | Some key \<Rightarrow> (case mget (rs_groups st) key of
            None \<Rightarrow> Pending
          | Some g \<Rightarrow> if length (vg_blocks g) > 1 then Conflict else Pending)))"

section \<open>The winner of a conflict\<close>

lemma tally_best_spec:
  assumes "tally_best ts (w0, b0, s0) = (winner, best, total_w)"
  shows "total_w = s0 + sum_list (map snd ts) \<and> b0 \<le> best \<and> (\<forall>(h, w) \<in> set ts. w \<le> best)
    \<and> ((winner, best) = (w0, b0) \<or> (winner, best) \<in> set ts)"
  using assms
proof (induction ts "(w0, b0, s0)" arbitrary: w0 b0 s0 rule: tally_best.induct)
  case (2 h w ts winner' best' total_w')
  then show ?case
    by (force split: if_splits)
qed auto

text \<open>
  A group that is decided confirms one block that has the most weight, at least the threshold
  fraction of what was cast unless the timeout decided, and rejects all the others.
\<close>

lemma resolve_group_decides:
  assumes "resolve_group thr timedOut (key, g) ([], [], st) = ([winner], rej, st')"
  shows "\<exists>best. (winner, best) \<in> set (vg_tally g) \<union> {([], -1)} \<and> (\<forall>(h, w) \<in> set (vg_tally g). w \<le> best)
    \<and> (timedOut \<and> 0 < best \<or> thr * sum_list (map snd (vg_tally g)) \<le> best)
    \<and> rej = filter (\<lambda>h. h \<noteq> winner) (vg_blocks g)
    \<and> winner \<in> rs_confirmed st' \<and> set rej \<subseteq> rs_rejected st' \<and> mget (rs_groups st') key = None"
proof -
  obtain w best total_w where t: "tally_best (vg_tally g) ([], -1, 0) = (w, best, total_w)"
    by (cases "tally_best (vg_tally g) ([], -1, 0)")
  note sp = tally_best_spec [OF t]
  have w: "w = winner" "rej = filter (\<lambda>h. h \<noteq> winner) (vg_blocks g)"
    "winner \<in> rs_confirmed st'" "set rej \<subseteq> rs_rejected st'" "mget (rs_groups st') key = None"
    and d: "total_w > 0 \<and> best / total_w \<ge> thr \<or> timedOut \<and> best > 0"
    using assms by (auto simp: resolve_group_def Let_def t split: if_splits)
  have "timedOut \<and> 0 < best \<or> thr * sum_list (map snd (vg_tally g)) \<le> best"
    using d sp by (auto simp: field_simps)
  with sp w show ?thesis by blast
qed

text \<open>A voter is counted once per conflict; backing a second block is recorded as equivocation.\<close>

lemma vote_second:
  assumes "rs_blockGroup st (wv_blockHash v) = Some key" "mget (rs_groups st) key = Some g" "2 \<le> length (vg_blocks g)"
    "vg_voterChoice g (wv_voterId v) = Some prev"
  shows "\<exists>e st'. vote v st = Some (\<lparr>vo_counted = False, vo_equivocation = e\<rparr>, st') \<and> rs_groups st' = rs_groups st
    \<and> (prev \<noteq> wv_blockHash v \<longleftrightarrow> e = Some \<lparr>eq_groupKey = key, eq_voterId = wv_voterId v, eq_blockA = prev, eq_blockB = wv_blockHash v\<rparr>)
    \<and> rs_equivocs st' = rs_equivocs st @ (case e of None \<Rightarrow> [] | Some x \<Rightarrow> [x])"
  using assms by (auto simp: vote_def Let_def)

section \<open>After a resolution\<close>

text \<open>
  The group of a resolved conflict is gone: a further sibling is alone in a new group and is
  confirmed at once, so two blocks of one position are confirmed.
\<close>

lemma late_sibling_confirmed:
  assumes "mget (rs_groups st) (group_key a p) = None" "h \<notin> rs_confirmed st" "h \<notin> rs_rejected st"
  shows "fst (vote_register h a p st) = Confirmed
    \<and> rs_confirmed (snd (vote_register h a p st)) = insert h (rs_confirmed st)"
  using assms by (simp add: vote_register_def Let_def new_vgroup_def sadd_def)

lemma late_vote_throws:
  "rs_blockGroup st (wv_blockHash v) = Some key \<Longrightarrow> mget (rs_groups st) key = None \<Longrightarrow> vote v st = None"
  by (simp add: vote_def)

end
