(* ===== verification/Rewards.thy ===== *)
theory Rewards
  imports Neuron_Prelude
begin

text \<open>
  Capped reward inflation, \<open>src/engine/economy/rewards.ts\<close>. What an epoch mints never exceeds its
  emission, every recipient's share is credited exactly once, and supply grows by what was minted.
\<close>

record reward_config =
  inflationPpm :: int
  baseEmission :: int

record reward_ledger =
  rw_supply :: int
  rw_earned :: "string \<Rightarrow> int option"
  rw_cfg :: reward_config

record distribution =
  ds_minted :: int
  ds_perRecipient :: "(string, int) jsmap"

definition new_rewards :: "int \<Rightarrow> reward_config \<Rightarrow> reward_ledger" where
  "new_rewards initialSupply cfg = \<lparr>rw_supply = initialSupply, rw_earned = (\<lambda>_. None), rw_cfg = cfg\<rparr>"

definition totalSupply :: "reward_ledger \<Rightarrow> int" where
  "totalSupply l = rw_supply l"

definition earnedBy :: "reward_ledger \<Rightarrow> string \<Rightarrow> int" where
  "earnedBy l v = nvl (rw_earned l v) 0"

definition epochEmission :: "reward_ledger \<Rightarrow> int" where
  "epochEmission l =
     (let byRate = bdiv (rw_supply l * inflationPpm (rw_cfg l)) 1000000 in
      if byRate > baseEmission (rw_cfg l) then byRate else baseEmission (rw_cfg l))"

fun scale_weights :: "(string \<times> real) list \<Rightarrow> (string, int) jsmap \<times> int \<Rightarrow> (string, int) jsmap \<times> int" where
  "scale_weights [] acc = acc"
| "scale_weights ((v, w) # cs) (scaled, tot) =
     (if w \<le> 0 then scale_weights cs (scaled, tot)
      else let s = max 1 \<lfloor>w * 1000000\<rfloor> in scale_weights cs (mset_at v s scaled, tot + s))"

fun pay_shares :: "int \<Rightarrow> int \<Rightarrow> (string \<times> int) list \<Rightarrow> distribution \<times> reward_ledger \<Rightarrow> distribution \<times> reward_ledger" where
  "pay_shares emission tot [] acc = acc"
| "pay_shares emission tot ((v, s) # ss) (d, l) =
     (let share = bdiv (emission * s) tot in
      if share > 0
      then pay_shares emission tot ss
        (\<lparr>ds_minted = ds_minted d + share, ds_perRecipient = mset_at v share (ds_perRecipient d)\<rparr>,
         l\<lparr>rw_earned := (rw_earned l)(v \<mapsto> earnedBy l v + share)\<rparr>)
      else pay_shares emission tot ss (d, l))"

definition distribute :: "(string, real) jsmap \<Rightarrow> reward_ledger \<Rightarrow> distribution \<times> reward_ledger" where
  "distribute contributions l =
     (let nothing = \<lparr>ds_minted = 0, ds_perRecipient = []\<rparr>; emission = epochEmission l in
      if emission \<le> 0 \<or> contributions = [] then (nothing, l)
      else let (scaled, tot) = scale_weights contributions ([], 0) in
        if tot = 0 then (nothing, l)
        else let (d, l') = pay_shares emission tot scaled (nothing, l) in
          (d, l'\<lparr>rw_supply := rw_supply l' + ds_minted d\<rparr>))"

section \<open>Conservation\<close>

lemma scale_weights_inv:
  assumes "wf_map scaled" "\<forall>(v, s) \<in> set scaled. 0 < s" "sum_list (map snd scaled) = tot"
    "distinct (map fst cs)" "fst ` set cs \<inter> fst ` set scaled = {}"
    "scale_weights cs (scaled, tot) = (sc, t)"
  shows "wf_map sc \<and> (\<forall>(v, s) \<in> set sc. 0 < s) \<and> sum_list (map snd sc) = t"
  using assms
proof (induction cs "(scaled, tot)" arbitrary: scaled tot rule: scale_weights.induct)
  case (2 v w cs scaled tot)
  show ?case
  proof (cases "w \<le> 0")
    case True
    with 2 show ?thesis by auto
  next
    case False
    let ?s = "max 1 \<lfloor>w * 1000000\<rfloor>"
    have "v \<notin> set (mkeys scaled)"
      using 2(7) by (auto simp: mkeys_def)
    then have m: "mset_at v ?s scaled = scaled @ [(v, ?s)]"
      by (rule mset_at_new)
    have "wf_map (mset_at v ?s scaled)"
      using 2(3) by simp
    moreover have "\<forall>(v, s) \<in> set (mset_at v ?s scaled). 0 < s"
      using 2(4) by (auto simp: m)
    moreover have "sum_list (map snd (mset_at v ?s scaled)) = tot + ?s"
      using 2(5) by (simp add: m)
    moreover have "fst ` set cs \<inter> fst ` set (mset_at v ?s scaled) = {}"
      using 2(6,7) by (auto simp: m)
    ultimately show ?thesis
      using 2(2) [OF False refl] 2(6,8) False by (simp add: Let_def)
  qed
qed auto

text \<open>The shares that are paid: one per contributor, rounded down.\<close>

lemma pay_shares_spec:
  assumes "0 \<le> e" "0 < tot" "\<forall>(v, s) \<in> set ss. 0 < s" "distinct (map fst ss)"
    "fst ` set ss \<inter> fst ` set (ds_perRecipient d) = {}"
    "pay_shares e tot ss (d, l) = (d', l')"
  shows "ds_minted d' = ds_minted d + (\<Sum>(v, s) \<leftarrow> ss. e * s div tot)
    \<and> (\<forall>v. earnedBy l' v = earnedBy l v + (case map_of ss v of None \<Rightarrow> 0 | Some s \<Rightarrow> e * s div tot))
    \<and> (\<forall>v. mget (ds_perRecipient d') v =
        (case map_of ss v of None \<Rightarrow> mget (ds_perRecipient d) v | Some s \<Rightarrow> if e * s div tot > 0 then Some (e * s div tot) else None))
    \<and> rw_supply l' = rw_supply l \<and> rw_cfg l' = rw_cfg l"
  using assms
proof (induction e tot ss "(d, l)" arbitrary: d l rule: pay_shares.induct)
  case (2 e tot v s ss d l)
  have s: "0 < s" "v \<notin> fst ` set ss"
    using 2(5,6) by auto
  have share: "bdiv (e * s) tot = e * s div tot"
    using s 2(3,4) by (simp add: bdiv_nonneg)
  have nv: "map_of ss v = None"
    using s(2) by (simp add: map_of_eq_None_iff)
  have nd: "mget (ds_perRecipient d) v = None"
    using 2(7) by (auto simp: map_of_eq_None_iff)
  show ?case
  proof (cases "0 < bdiv (e * s) tot")
    case True
    let ?d = "\<lparr>ds_minted = ds_minted d + bdiv (e * s) tot, ds_perRecipient = mset_at v (bdiv (e * s) tot) (ds_perRecipient d)\<rparr>"
    let ?l = "l\<lparr>rw_earned := (rw_earned l)(v \<mapsto> earnedBy l v + bdiv (e * s) tot)\<rparr>"
    have k: "fst ` set (mset_at v (bdiv (e * s) tot) (ds_perRecipient d)) = insert v (fst ` set (ds_perRecipient d))"
      using set_mkeys_mset_at [of v "bdiv (e * s) tot" "ds_perRecipient d"] by (simp add: mkeys_def)
    have "pay_shares e tot ss (?d, ?l) = (d', l')"
      using 2(8) True by (simp add: Let_def)
    moreover have "fst ` set ss \<inter> fst ` set (ds_perRecipient ?d) = {}"
      using 2(7) s(2) k by auto
    ultimately have IH: "ds_minted d' = ds_minted ?d + (\<Sum>(v, s) \<leftarrow> ss. e * s div tot)
      \<and> (\<forall>w. earnedBy l' w = earnedBy ?l w + (case map_of ss w of None \<Rightarrow> 0 | Some s \<Rightarrow> e * s div tot))
      \<and> (\<forall>w. mget (ds_perRecipient d') w =
        (case map_of ss w of None \<Rightarrow> mget (ds_perRecipient ?d) w | Some s \<Rightarrow> if e * s div tot > 0 then Some (e * s div tot) else None))
      \<and> rw_supply l' = rw_supply ?l \<and> rw_cfg l' = rw_cfg ?l"
      using 2(1) [OF refl True] 2(3-6) by simp
    have "earnedBy l' w = earnedBy l w + (case map_of ((v, s) # ss) w of None \<Rightarrow> 0 | Some s \<Rightarrow> e * s div tot)" for w
      using IH nv share by (auto simp: earnedBy_def split: option.splits)
    moreover have "mget (ds_perRecipient d') w = (case map_of ((v, s) # ss) w of None \<Rightarrow> mget (ds_perRecipient d) w
        | Some s \<Rightarrow> if e * s div tot > 0 then Some (e * s div tot) else None)" for w
      using IH nv share True by (auto split: option.splits)
    ultimately show ?thesis
      using IH share by simp
  next
    case False
    have z: "e * s div tot = 0"
    proof -
      have "0 \<le> e * s div tot"
        using 2(3,4) s by (simp add: pos_imp_zdiv_nonneg_iff)
      with False share show ?thesis by simp
    qed
    have "pay_shares e tot ss (d, l) = (d', l')"
      using 2(8) False by (simp add: Let_def)
    moreover have "fst ` set ss \<inter> fst ` set (ds_perRecipient d) = {}"
      using 2(7) by auto
    ultimately show ?thesis
      using 2(2) [OF refl False] 2(3-6) z nv nd by (auto split: option.splits)
  qed
qed auto

lemma sum_div_le: "0 < (t :: int) \<Longrightarrow> \<forall>x \<in> set xs. 0 \<le> x \<Longrightarrow> (\<Sum>x \<leftarrow> xs. x div t) \<le> sum_list xs div t"
proof (induction xs)
  case (Cons x xs)
  have "x div t + sum_list xs div t \<le> (x + sum_list xs) div t"
    using Cons.prems(1) by (simp add: div_add1_eq [of x] pos_imp_zdiv_nonneg_iff)
  with Cons show ?case by force
qed simp

lemma distribute_spec:
  assumes "wf_map cs" "distribute cs l = (d, l')"
  shows "0 \<le> ds_minted d" "ds_minted d \<le> max 0 (epochEmission l)" "rw_supply l' = rw_supply l + ds_minted d"
    "earnedBy l' v = earnedBy l v + nvl (mget (ds_perRecipient d) v) 0"
proof -
  have all: "0 \<le> ds_minted d \<and> ds_minted d \<le> max 0 (epochEmission l) \<and> rw_supply l' = rw_supply l + ds_minted d
    \<and> (\<forall>v. earnedBy l' v = earnedBy l v + nvl (mget (ds_perRecipient d) v) 0)"
  proof (cases "epochEmission l \<le> 0 \<or> cs = []")
    case True
    with assms(2) show ?thesis
      by (auto simp: distribute_def Let_def)
  next
    case False
    then have e: "0 < epochEmission l" by simp
    obtain sc t where sc: "scale_weights cs ([], 0) = (sc, t)"
      by (cases "scale_weights cs ([], 0)")
    have si: "wf_map sc" "\<forall>(v, s) \<in> set sc. 0 < s" "sum_list (map snd sc) = t"
      using scale_weights_inv [OF _ _ _ _ _ sc] assms(1) by (auto simp: wf_map_def)
    show ?thesis
    proof (cases "t = 0")
      case True
      with assms(2) False sc show ?thesis
        by (auto simp: distribute_def Let_def)
    next
      case T: False
      have "0 \<le> t"
        unfolding si(3) [symmetric] using si(2) by (intro sum_list_nonneg) fastforce
      with T have t: "0 < t" by simp
      let ?n = "\<lparr>ds_minted = 0, ds_perRecipient = []\<rparr>"
      obtain l1 where ps: "pay_shares (epochEmission l) t sc (?n, l) = (d, l1)" and l': "l' = l1\<lparr>rw_supply := rw_supply l1 + ds_minted d\<rparr>"
        using assms(2) False T sc by (auto simp: distribute_def Let_def split: prod.splits)
      have P: "ds_minted d = (\<Sum>(v, s) \<leftarrow> sc. epochEmission l * s div t)"
        "\<And>v. earnedBy l1 v = earnedBy l v + (case map_of sc v of None \<Rightarrow> 0 | Some s \<Rightarrow> epochEmission l * s div t)"
        "\<And>v. mget (ds_perRecipient d) v =
          (case map_of sc v of None \<Rightarrow> None | Some s \<Rightarrow> if epochEmission l * s div t > 0 then Some (epochEmission l * s div t) else None)"
        "rw_supply l1 = rw_supply l"
        using pay_shares_spec [OF _ t si(2) _ _ ps] e si(1) by (auto simp: wf_map_def split: option.split)
      have nn: "0 \<le> epochEmission l * s div t" if "(v, s) \<in> set sc" for v s
        using that si(2) e t by (auto simp: pos_imp_zdiv_nonneg_iff intro!: mult_nonneg_nonneg)
      have "ds_minted d = (\<Sum>x \<leftarrow> map (\<lambda>p. epochEmission l * snd p) sc. x div t)"
        by (simp add: P(1) case_prod_unfold comp_def)
      also have "\<dots> \<le> sum_list (map (\<lambda>p. epochEmission l * snd p) sc) div t"
        using si(2) e t by (intro sum_div_le) (auto intro!: mult_nonneg_nonneg)
      also have "sum_list (map (\<lambda>p. epochEmission l * snd p) sc) = epochEmission l * t"
        by (simp add: sum_list_const_mult si(3))
      finally have "ds_minted d \<le> epochEmission l"
        using t by simp
      moreover have "0 \<le> ds_minted d"
        unfolding P(1) using nn by (intro sum_list_nonneg) auto
      moreover have "earnedBy l' v = earnedBy l v + nvl (mget (ds_perRecipient d) v) 0" for v
      proof (cases "map_of sc v")
        case None
        then show ?thesis using P(2,3) [of v] by (simp add: l' earnedBy_def)
      next
        case (Some s)
        then have "0 \<le> epochEmission l * s div t"
          using nn map_of_SomeD by fast
        with Some show ?thesis using P(2,3) [of v] by (auto simp: l' earnedBy_def)
      qed
      ultimately show ?thesis
        using e P(4) by (simp add: l')
    qed
  qed
  show "0 \<le> ds_minted d" "ds_minted d \<le> max 0 (epochEmission l)" "rw_supply l' = rw_supply l + ds_minted d"
    "earnedBy l' v = earnedBy l v + nvl (mget (ds_perRecipient d) v) 0"
    using all by auto
qed

end
