(* ===== verification/Consensus_Properties.thy ===== *)
theory Consensus_Properties
  imports Committee Seed Finality Conflict_Vote Rewards Owner_Chain
begin

text \<open>
  The properties of consensus and economy: the validator registry, write budgets, committees,
  epoch seeds, verifiable sortition, the two voting protocols and reward inflation, with a concrete
  group for the witnesses of the properties that rest on the curve library.
\<close>

section \<open>A concrete group\<close>

text \<open>The group of two elements, with the encoding and HMAC of constant bytes.\<close>

definition demo_curve :: "bool curve" where
  "demo_curve = \<lparr>ec_N = 2, ec_zero = False, ec_base = True, ec_add = (\<noteq>), ec_neg = (\<lambda>p. p),
     ec_mult = (\<lambda>k p. odd k \<and> p), ec_is0 = Not, ec_toBytes = (\<lambda>p. 0 # replicate 32 7),
     ec_fromHex = (\<lambda>h. Some True), ec_hmac = (\<lambda>k m. replicate 31 0 @ [1])\<rparr>"

lemma demo_mul: "mul demo_curve p a \<longleftrightarrow> odd a \<and> p"
  by (auto simp: mul_def demo_curve_def Let_def odd_iff_mod_2_eq_one)

lemma demo_curve_laws: "curve_laws demo_crypto demo_curve"
  by (auto simp: curve_laws_def demo_mul) (auto simp: demo_curve_def odd_iff_mod_2_eq_one)

definition voter_priv :: hex where "voter_priv = replicate 32 (CHR 0x07)"
definition voter_pub :: hex where "voter_pub = CHR 0x00 # replicate 32 (CHR 0x07)"

lemma voter_keys: "publicKeyFromPrivate demo_crypto voter_priv = Some voter_pub" "vrfPublicKey demo_crypto demo_curve voter_priv = Some voter_pub"
  by code_simp+

lemma voter_scalar: "vmod (bytesToBigInt (map char_byte voter_priv)) 2 = 1"
  by code_simp

lemma voter_proves: "\<exists>pf. vrfProve demo_crypto demo_curve voter_priv a = Some pf"
proof -
  have k: "bits2int (replicate 31 0 @ [1]) = 1"
    by code_simp
  have "nonceRFC6979 demo_crypto demo_curve x h = Some 1" for x h
  proof -
    have "nonce_loop (ec_hmac demo_curve) (ec_N demo_curve) K V = Some 1" for K V
      using nonce_loop_returns [of 0 "ec_hmac demo_curve" "ec_N demo_curve" K V]
        nonce_loop_range [of "ec_hmac demo_curve" "ec_N demo_curve" K V]
      by (cases "nonce_loop (ec_hmac demo_curve) (ec_N demo_curve) K V") (auto simp: demo_curve_def k)
    then show ?thesis
      by (simp add: nonceRFC6979_def Let_def)
  qed
  moreover have "encodeToCurveTAI demo_crypto demo_curve pk a = Some True" for pk
    by (simp add: encodeToCurveTAI_def upt_conv_Cons bytesToPoint_def Let_def) (simp add: demo_curve_def)
  moreover have "multiply demo_curve True 1 = Some True"
    by (simp add: multiply_def demo_curve_def)
  moreover have "ec_N demo_curve = 2" "ec_base demo_curve = True"
    by (simp_all add: demo_curve_def)
  ultimately show ?thesis
    by (simp add: vrfProve_def demo_total voter_scalar Let_def)
qed

section \<open>Validators, budgets and committees\<close>

definition sample_registry :: validator_registry where
  "sample_registry = snd (slash ''v3'' (snd (bond ''v3'' 50 (snd (bond ''v2'' 50 (snd (bond ''v1'' 100
     (new_validators MINT_AMOUNT 10))))))))"

lemma sample_registry_reach: "registry_reach MINT_AMOUNT 10 sample_registry"
  unfolding sample_registry_def by (intro reg_slash reg_bond reg_new)

lemma mint_nonneg: "0 \<le> MINT_AMOUNT"
  by (simp add: MINT_AMOUNT_def)

text \<open>C15: in every reachable registry each account's bond lies between 0 and the cap and its weight
  between 0 and 4000; the total weight is the sum over the eligible validators, which are listed once;
  a slashed account has no bond, no weight and no seat and cannot bond again.\<close>

theorem registry_bounds:
  assumes "registry_reach cap minBond r" "0 \<le> cap"
  shows "(0 \<le> bondedOf r v \<and> bondedOf r v \<le> cap) \<and> (0 \<le> weightOf r v \<and> weightOf r v \<le> 4000)
    \<and> totalWeight r = (\<Sum>u \<leftarrow> validators r. weightOf r u) \<and> distinct (validators r)
    \<and> (if isSlashed r v then bondedOf r v = 0 \<and> weightOf r v = 0 \<and> v \<notin> set (validators r) \<and> \<not> br_ok (fst (bond v a r)) else True)"
proof -
  have inv: "registry_inv r" "vr_cap r = cap"
    using registry_reach_inv [OF assms] by blast+
  have "0 \<le> weightOf r v \<and> weightOf r v \<le> 4000"
    using bondedOf_bounds [OF inv(1), of v] votingWeight_range
    by (auto simp: weightOf_def bondedOf_def split: option.splits)
  with inv bondedOf_bounds [OF inv(1), of v] slashed_powerless [OF inv(1)] show ?thesis
    by (auto simp: totalWeight_sum [OF inv(1)] validators_distinct [OF inv(1)])
qed

theorem registry_bounds_witness:
  "weightOf sample_registry ''v3'' = 0 \<and> bondedOf sample_registry ''v1'' \<le> MINT_AMOUNT
   \<and> \<not> br_ok (fst (bond ''v3'' 70 sample_registry))"
proof -
  have "isSlashed sample_registry ''v3''"
    by code_simp
  then show ?thesis
    using registry_bounds [OF sample_registry_reach mint_nonneg, of "''v3''" 70]
      registry_bounds [OF sample_registry_reach mint_nonneg, of "''v1''" 70] by simp
qed

text \<open>Within an epoch the accepted costs of an account add up to at most its write budget, which is
  at most 40, whatever requests are made in whatever order.\<close>

theorem epoch_budget_holds:
  assumes "e \<noteq> rl_epoch l" "0 \<le> bondedOf r v"
  shows "spent v (fst (consume_run r reqs (rotate e l))) \<le> budgetFor r v \<and> budgetFor r v \<le> 40"
  using assms by (rule epoch_spend_bound)

theorem epoch_budget_holds_witness:
  "spent ''v1'' (fst (consume_run sample_registry [(''v1'', 1), (''v1'', 1), (''v1'', 5)] (rotate 1 new_limiter))) \<le> 40"
proof -
  have "0 \<le> bondedOf sample_registry ''v1''" "(1 :: int) \<noteq> rl_epoch new_limiter"
    by code_simp+
  from epoch_budget_holds [OF this(2) this(1), of "[(''v1'', 1), (''v1'', 1), (''v1'', 5)]"] show ?thesis
    by linarith
qed

text \<open>A committee consists of distinct eligible validators, and nobody outside it has a lower ticket
  than somebody in it.\<close>

theorem committee_by_ticket:
  fixes C r shard epoch seed opts
  assumes "registry_reach cap minBond r" "0 \<le> cap"
  defines "M \<equiv> cm_members (selectCommittee C r shard epoch seed opts)"
  shows "distinct M \<and> set M \<subseteq> set (validators r)
    \<and> set M \<times> (set (validators r) - set M) \<subseteq> {(m, v). ticket C seed epoch shard m \<le> ticket C seed epoch shard v}"
proof -
  have "registry_inv r"
    using registry_reach_inv [OF assms(1,2)] by blast
  note c = committee_lowest_tickets [OF this, where C = C and shard = shard and epoch = epoch and seed = seed and opts = opts]
  show ?thesis
    unfolding M_def using c by auto
qed

theorem committee_by_ticket_witness:
  "distinct (cm_members (selectCommittee demo_crypto sample_registry 3 1 ''seed''
     \<lparr>co_committeeSize = 1, co_minCommitteeSize = 1, co_minAggregateWeight = None\<rparr>))"
  using committee_by_ticket [OF sample_registry_reach mint_nonneg] by blast

section \<open>Epoch seeds and sortition\<close>

text \<open>The next seed depends on the set of revealed values only, and binds the previous seed and that
  set: if the hash has no collision on the two inputs, equal seeds come from equal inputs.\<close>

theorem seed_binds_reveals:
  assumes "deriveNextSeed C p xs = Some s" "deriveNextSeed C q ys = Some s"
    and "seed_parts C p xs = Some as" "seed_parts C q ys = Some bs"
    and "\<forall>a \<in> set as \<union> set bs. length a = 32"
    and "hex_codec C" "inj_on (c_sha256 C) {concat as, concat bs}"
  shows "as = bs \<and> (set xs' \<noteq> set xs \<or> deriveNextSeed C p xs' = Some s)"
  using deriveNextSeed_binds [OF assms] assms(1) deriveNextSeed_set [of xs' xs C p] by auto

theorem seed_binds_reveals_witness:
  "deriveNextSeed demo_crypto voter_priv [voter_priv, voter_priv] = deriveNextSeed demo_crypto voter_priv [voter_priv]"
proof -
  let ?b = "map char_byte voter_priv"
  have parts: "seed_parts demo_crypto voter_priv [voter_priv] = Some [?b, ?b]"
    by (simp add: seed_parts_def demo_total)
  have d: "deriveNextSeed demo_crypto voter_priv [voter_priv] = Some (hashHex demo_crypto [?b, ?b])"
    by (simp add: deriveNextSeed_def parts)
  have "length voter_priv = 32"
    by (simp add: voter_priv_def)
  then show ?thesis
    using seed_binds_reveals [OF d d parts parts _ demo_hex_codec, of "[voter_priv, voter_priv]"]
    by (simp add: d)
qed

text \<open>Over a group that satisfies the curve laws, whatever seats a key holder proves, everybody who
  knows the public key and the public weights computes the same seats from the proof.\<close>

theorem sortition_verifiable:
  assumes "curve_laws C E" "hex_codec C" "vrfPublicKey C E priv = Some pub"
    "proveSortition C E priv seed epoch shard w t cs = Some so"
  shows "verifySortition C E pub seed epoch shard w t cs (so_pi so) = Some (Some (so_seats so))"
  using assms by (rule sortition_agree)

lemma voter_sortition: "\<exists>so. proveSortition demo_crypto demo_curve voter_priv seed epoch shard 1 1 1 = Some so \<and> so_seats so = 1"
proof -
  obtain pf where "vrfProve demo_crypto demo_curve voter_priv (sortitionAlpha demo_crypto seed epoch shard) = Some pf"
    using voter_proves by blast
  then show ?thesis
    by (simp add: proveSortition_def seatsFromBeta_def betaToRatio_def demo_total selectedSeats_def weightToUnits_def js_round_def)
qed

theorem sortition_verifiable_witness:
  "\<exists>so. proveSortition demo_crypto demo_curve voter_priv ''seed'' 1 3 1 1 1 = Some so
    \<and> verifySortition demo_crypto demo_curve voter_pub ''seed'' 1 3 1 1 1 (so_pi so) = Some (Some (so_seats so))"
  using voter_sortition sortition_verifiable [OF demo_curve_laws demo_hex_codec voter_keys(2)] by metis



section \<open>Voting\<close>

text \<open>C7: in every run of committee finality a final block is backed by authentic votes of distinct
  accounts whose seats reach the absolute quorum, it is never rejected as well, and it is the only final
  block of its position.\<close>

theorem finality_safe:
  assumes "fin_run C E params W seeds st lg" "isFinal st h"
  shows "(\<exists>vs. set vs \<subseteq> set lg \<and> distinct (map cv_accountId vs)
        \<and> set vs \<subseteq> {v. cv_blockHash v = h \<and> authentic C E params W seeds v}
        \<and> seatQuorum params \<le> sum_list (map cv_seats vs))
    \<and> h \<notin> fs_rejectedBlocks st
    \<and> {h'. isFinal st h' \<and> fs_groupOf st h' = fs_groupOf st h} = {h}"
  using final_quorum [OF assms] final_not_rejected [OF assms] final_unique [OF assms(1)] assms(2)
  by (intro conjI) fast+

definition vote_params :: committee_params where
  "vote_params = \<lparr>cp_committeeSize = 1, cp_threshold = None\<rparr>"

definition vote_weights :: weight_source where
  "vote_weights = \<lparr>ws_weightOf = (\<lambda>a e. 1), ws_totalWeight = (\<lambda>e. 1)\<rparr>"

text \<open>A vote cast on the sample group is authentic, and decides the block it names.\<close>

lemma sample_vote:
  "\<exists>v. authentic demo_crypto demo_curve vote_params vote_weights (\<lambda>e. Some ''seed'') v
     \<and> cv_blockHash v = h \<and> cv_accountId v = voter_pub \<and> cv_seats v = 1"
proof -
  obtain so where so: "proveSortition demo_crypto demo_curve voter_priv ''seed'' 1 3 1 1 1 = Some so" "so_seats so = 1"
    using voter_sortition by blast
  obtain sg where sg: "sign_str demo_crypto (voteMessage 1 3 h) voter_priv = Some sg"
    by (simp add: sign_str_def sign_def demo_total)
  let ?v = "\<lparr>cv_blockHash = h, cv_accountId = voter_pub, cv_shard = 3, cv_epoch = 1, cv_seats = 1, cv_pi = so_pi so, cv_sig = sg\<rparr>"
  have "authentic demo_crypto demo_curve vote_params vote_weights (\<lambda>e. Some ''seed'') ?v"
    using sortition_agree [OF demo_curve_laws demo_hex_codec voter_keys(2) so(1)] so(2)
      verify_sign_str [OF demo_hex_codec demo_signing voter_keys(1) sg]
    by (simp add: authentic_def verify_vote_sortition_def vote_params_def vote_weights_def)
  then show ?thesis
    by (intro exI [of _ ?v]) simp
qed

lemma sample_quorum: "seatQuorum vote_params = 1"
proof -
  have "\<lceil>2 / 3 :: real\<rceil> = 1"
    by (simp add: ceiling_eq_iff)
  then show ?thesis
    by (simp add: seatQuorum_def vote_params_def)
qed

lemma sample_final_run:
  "\<exists>st lg. fin_run demo_crypto demo_curve vote_params vote_weights (\<lambda>e. Some ''seed'') st lg \<and> isFinal st ''block''"
proof -
  obtain v where v: "authentic demo_crypto demo_curve vote_params vote_weights (\<lambda>e. Some ''seed'') v"
      "cv_blockHash v = ''block''" "cv_accountId v = voter_pub" "cv_seats v = 1"
    using sample_vote by blast
  let ?st = "registerBlock ''block'' ''acc'' ''prev'' new_finality"
  let ?g = "new_fgroup\<lparr>fg_blocks := [''block'']\<rparr>"
  have st: "fs_groupOf ?st ''block'' = Some ''acc:prev''" "mget (fs_groups ?st) ''acc:prev'' = Some ?g"
    by (simp_all add: registerBlock_def new_finality_def new_fgroup_def Let_def sadd_def)
  have run: "fin_run demo_crypto demo_curve vote_params vote_weights (\<lambda>e. Some ''seed'') ?st []"
    by (intro run_register run_start) simp
  let ?res = "tally_vote vote_params ''acc:prev'' ?g 1 v ?st"
  have "applyVote demo_crypto demo_curve vote_params vote_weights (\<lambda>e. Some ''seed'') v ?st = Some (fst ?res, snd ?res)"
    using vote_shard_free [OF _ st(2) _ _ v(1)] st(1) v by (simp add: new_fgroup_def)
  note run_vote [OF run this]
  moreover have "isFinal (snd ?res) ''block''"
    by (simp add: tally_vote_def isFinal_def v sample_quorum Let_def new_fgroup_def)
  ultimately show ?thesis by blast
qed

theorem finality_safe_witness:
  "\<exists>st (vs :: committee_vote list). isFinal st ''block'' \<and> ''block'' \<notin> fs_rejectedBlocks st \<and> 1 \<le> sum_list (map cv_seats vs)"
proof -
  obtain st lg where r: "fin_run demo_crypto demo_curve vote_params vote_weights (\<lambda>e. Some ''seed'') st lg" "isFinal st ''block''"
    using sample_final_run by blast
  note safe = finality_safe [OF r, unfolded sample_quorum]
  from conjunct1 [OF safe] obtain vs :: "committee_vote list" where "1 \<le> sum_list (map cv_seats vs)"
    by blast
  moreover have "''block'' \<notin> fs_rejectedBlocks st"
    using safe by blast
  ultimately show ?thesis
    using r(2) by blast
qed

text \<open>A conflict is decided for a block of the highest weight, at or above the threshold share of the
  weight cast unless the vote timed out; the other siblings are rejected and the group is closed.\<close>

theorem conflict_decided_by_weight:
  assumes "resolve_group thr timedOut (key, g) ([], [], st) = ([winner], rej, st')"
  shows "\<exists>best. (winner, best) \<in> set (vg_tally g) \<union> {([], -1)} \<and> set (vg_tally g) \<subseteq> {(h, w). w \<le> best}
    \<and> (timedOut \<and> 0 < best \<or> thr * sum_list (map snd (vg_tally g)) \<le> best)
    \<and> rej = filter (\<lambda>h. h \<noteq> winner) (vg_blocks g)
    \<and> winner \<in> rs_confirmed st' \<and> set rej \<subseteq> rs_rejected st' \<and> mget (rs_groups st') key = None"
  using resolve_group_decides [OF assms] by fast

definition sample_conflict :: vgroup where
  "sample_conflict = \<lparr>vg_blocks = [''a'', ''b''], vg_tally = [(''a'', 3), (''b'', 1)], vg_voterChoice = (\<lambda>_. None)\<rparr>"

theorem conflict_decided_by_weight_witness:
  "\<exists>st'. resolve_group (2 / 3) False (''k'', sample_conflict) ([], [], \<lparr>rs_confirmed = {}, rs_rejected = {},
       rs_blockGroup = (\<lambda>_. None), rs_groups = [(''k'', sample_conflict)], rs_equivocs = []\<rparr>) = ([''a''], [''b''], st')
     \<and> ''b'' \<in> rs_rejected st'"
proof -
  let ?st = "\<lparr>rs_confirmed = {}, rs_rejected = {}, rs_blockGroup = (\<lambda>_. None),
    rs_groups = [(''k'', sample_conflict)], rs_equivocs = []\<rparr>"
  obtain st' where r: "resolve_group (2 / 3) False (''k'', sample_conflict) ([], [], ?st) = ([''a''], [''b''], st')"
    by (simp add: resolve_group_def sample_conflict_def Let_def)
  with conflict_decided_by_weight [OF r] show ?thesis by auto
qed

section \<open>Inflation\<close>

text \<open>An epoch's distribution mints at most its emission, supply grows by exactly what was minted, and
  every account is credited exactly its share.\<close>

theorem inflation_conserved:
  assumes "wf_map cs" "distribute cs l = (d, l')"
  shows "(0 \<le> ds_minted d \<and> ds_minted d \<le> max 0 (epochEmission l)) \<and> rw_supply l' = rw_supply l + ds_minted d
    \<and> earnedBy l' v = earnedBy l v + nvl (mget (ds_perRecipient d) v) 0"
  using distribute_spec [OF assms] by blast

theorem inflation_conserved_witness:
  "rw_supply (snd (distribute [(''a'', 1), (''b'', 2)] (new_rewards 1000 \<lparr>inflationPpm = 100, baseEmission = 10\<rparr>))) \<le> 1010"
proof -
  let ?l = "new_rewards 1000 \<lparr>inflationPpm = 100, baseEmission = 10\<rparr>"
  have "epochEmission ?l = 10" "rw_supply ?l = 1000"
    by (simp_all add: epochEmission_def new_rewards_def bdiv_def)
  moreover obtain d l' where d: "distribute [(''a'', 1), (''b'', 2)] ?l = (d, l')"
    by fastforce
  have "wf_map [(''a'', 1 :: real), (''b'', 2)]"
    by (simp add: wf_map_def)
  from inflation_conserved [OF this d] have "ds_minted d \<le> max 0 (epochEmission ?l)" "rw_supply l' = rw_supply ?l + ds_minted d"
    by blast+
  ultimately show ?thesis
    unfolding d by simp
qed

end
