(* ===== verification/Chunking.thy ===== *)
theory Chunking
  imports Block_Model
begin

text \<open>
  Content addressing, chunking and the manifest: \<open>src/engine/content/cid.ts\<close> and
  \<open>chunking.ts\<close>. Splitting and reassembling is the identity, whatever serves the chunks cannot
  change the file, a manifest's CID determines the file, and the compact wire format reads back
  what it wrote and yields only consistent manifests. A throw is \<open>None\<close>.
\<close>

definition cidOf :: "crypto \<Rightarrow> bytes \<Rightarrow> hex" where
  "cidOf C bs = hashHex C [bs]"

definition verifyCid :: "crypto \<Rightarrow> hex \<Rightarrow> bytes \<Rightarrow> bool" where
  "verifyCid C cid bs = (cidOf C bs = cid)"

definition DEFAULT_CHUNK_SIZE :: int where
  "DEFAULT_CHUNK_SIZE = 8 * 1024 * 1024"

record chunk_ref =
  cr_cid :: hex
  cr_size :: int

record manifest =
  m_cid :: hex
  m_size :: int
  m_chunkSize :: int
  m_chunks :: "chunk_ref list"

record chunk =
  ch_cid :: hex
  ch_bytes :: bytes

definition ref_json :: "chunk_ref \<Rightarrow> json" where
  "ref_json r = JObj [(''cid'', JStr (cr_cid r)), (''size'', JNum (cr_size r))]"

definition manifest_json :: "int \<Rightarrow> int \<Rightarrow> chunk_ref list \<Rightarrow> json" where
  "manifest_json sz csz refs =
     JObj [(''size'', JNum sz), (''chunkSize'', JNum csz), (''chunks'', JArr (map ref_json refs))]"

text \<open>\<open>subarray(lo, hi)\<close> for offsets in range.\<close>

definition subarray :: "nat \<Rightarrow> nat \<Rightarrow> 'a list \<Rightarrow> 'a list" where
  "subarray lo up xs = take (up - lo) (drop lo xs)"

text \<open>The loop over offsets.\<close>

function chunk_loop :: "bytes \<Rightarrow> nat \<Rightarrow> nat \<Rightarrow> bytes list" where
  "chunk_loop bs csz off = (if off < length bs \<and> 0 < csz
     then subarray off (min (off + csz) (length bs)) bs # chunk_loop bs csz (off + csz) else [])"
  by auto
termination
  by (relation "measure (\<lambda>(bs, csz, off). length bs - off)") auto

declare chunk_loop.simps [simp del]

definition chunkContent :: "crypto \<Rightarrow> bytes \<Rightarrow> int \<Rightarrow> (manifest \<times> chunk list) option" where
  "chunkContent C bs csz = (if csz \<le> 0 then None else
     let parts = chunk_loop bs (nat csz) 0;
         refs = map (\<lambda>p. \<lparr>cr_cid = cidOf C p, cr_size = int (length p)\<rparr>) parts;
         sz = int (length bs)
     in Some (\<lparr>m_cid = hashJson C (manifest_json sz csz refs), m_size = sz, m_chunkSize = csz, m_chunks = refs\<rparr>,
              map (\<lambda>p. \<lparr>ch_cid = cidOf C p, ch_bytes = p\<rparr>) parts))"

text \<open>\<open>out.set(part, off)\<close> on a buffer with room for it.\<close>

definition set_at :: "bytes \<Rightarrow> bytes \<Rightarrow> nat \<Rightarrow> bytes" where
  "set_at out part off = take off out @ part @ drop (off + length part) out"

fun reassemble_loop :: "crypto \<Rightarrow> int \<Rightarrow> (hex \<Rightarrow> bytes option) \<Rightarrow> chunk_ref list \<Rightarrow> bytes \<Rightarrow> nat
    \<Rightarrow> (bytes \<times> nat) option" where
  "reassemble_loop C sz get [] out off = Some (out, off)"
| "reassemble_loop C sz get (r # rs) out off = (case get (cr_cid r) of
     None \<Rightarrow> None
   | Some part \<Rightarrow>
       if int (length part) \<noteq> cr_size r \<or> \<not> verifyCid C (cr_cid r) part then None
       else if int (off + length part) > sz then None
       else reassemble_loop C sz get rs (set_at out part off) (off + length part))"

text \<open>The outer option is the exception of \<open>new Uint8Array\<close> on a negative size, the inner one \<open>null\<close>.\<close>

definition reassemble :: "crypto \<Rightarrow> manifest \<Rightarrow> (hex \<Rightarrow> bytes option) \<Rightarrow> bytes option option" where
  "reassemble C m get = (if m_size m < 0 then None else
     (case reassemble_loop C (m_size m) get (m_chunks m) (replicate (nat (m_size m)) 0) 0 of
       None \<Rightarrow> Some None
     | Some (out, off) \<Rightarrow> Some (if int off = m_size m then Some out else None)))"

definition verifyManifest :: "crypto \<Rightarrow> manifest \<Rightarrow> bool" where
  "verifyManifest C m =
     (hashJson C (manifest_json (m_size m) (m_chunkSize m) (m_chunks m)) = m_cid m
      \<and> foldl (\<lambda>s c. s + cr_size c) 0 (m_chunks m) = m_size m)"

section \<open>Splitting\<close>

lemma chunk_loop_concat: "0 < csz \<Longrightarrow> concat (chunk_loop bs csz off) = drop off bs"
proof (induction bs csz off rule: chunk_loop.induct)
  case (1 bs csz off)
  show ?case
  proof (cases "off < length bs")
    case True
    have "subarray off (min (off + csz) (length bs)) bs = take csz (drop off bs)"
      by (simp add: subarray_def min_def)
    moreover have "chunk_loop bs csz off
        = subarray off (min (off + csz) (length bs)) bs # chunk_loop bs csz (off + csz)"
      using 1(2) True by (subst chunk_loop.simps) simp
    ultimately have "concat (chunk_loop bs csz off) = take csz (drop off bs) @ drop (csz + off) bs"
      using 1 True by (simp add: add.commute)
    then show ?thesis
      by (simp only: drop_drop [symmetric] append_take_drop_id)
  next
    case False
    then show ?thesis
      by (subst chunk_loop.simps) simp
  qed
qed

lemma chunk_loop_length: "p \<in> set (chunk_loop bs csz off) \<Longrightarrow> length p \<le> csz \<and> p \<noteq> []"
proof (induction bs csz off rule: chunk_loop.induct)
  case (1 bs csz off)
  show ?case
  proof (cases "off < length bs \<and> 0 < csz")
    case True
    then have "chunk_loop bs csz off
        = subarray off (min (off + csz) (length bs)) bs # chunk_loop bs csz (off + csz)"
      by (subst chunk_loop.simps) simp
    with 1(2) consider "p = subarray off (min (off + csz) (length bs)) bs"
      | "p \<in> set (chunk_loop bs csz (off + csz))"
      by (metis set_ConsD)
    then show ?thesis
    proof cases
      case 1
      with True show ?thesis
        by (simp add: subarray_def min_def) arith
    next
      case 2
      with 1(1) [OF True] show ?thesis
        by blast
    qed
  next
    case False
    then have "chunk_loop bs csz off = []"
      by (subst chunk_loop.simps) simp
    with 1(2) show ?thesis
      by simp
  qed
qed

lemma chunk_loop_count: "0 < csz \<Longrightarrow> length (chunk_loop bs csz off) = (length bs - off + csz - 1) div csz"
proof (induction bs csz off rule: chunk_loop.induct)
  case (1 bs csz off)
  show ?case
  proof (cases "off < length bs")
    case True
    have "length (chunk_loop bs csz off) = Suc ((length bs - (off + csz) + csz - 1) div csz)"
      using 1 True by (subst chunk_loop.simps) simp
    also have "\<dots> = (length bs - off + csz - 1) div csz"
    proof (cases "off + csz \<le> length bs")
      case True
      then have "length bs - off + csz - 1 = (length bs - (off + csz) + csz - 1) + csz"
        using 1(2) by simp
      then show ?thesis
        using 1(2) by (metis Suc_eq_plus1 div_add_self2 gr_implies_not0)
    next
      case over: False
      then have "(length bs - (off + csz) + csz - 1) div csz = 0"
        using 1(2) by simp
      moreover have "(length bs - off + csz - 1) div csz = 1"
        using over True 1(2) by (intro div_nat_eqI) auto
      ultimately show ?thesis
        by simp
    qed
    finally show ?thesis .
  next
    case False
    with 1(2) show ?thesis
      by (subst chunk_loop.simps) simp
  qed
qed

section \<open>Reassembly\<close>

lemma set_at_end: "set_at (pre @ post) part (length pre) = pre @ part @ drop (length part) post"
  by (simp add: set_at_def)

text \<open>The loop writes the parts one after the other.\<close>

lemma reassemble_loop_out:
  assumes "reassemble_loop C (int n) get rs (pre @ replicate (n - length pre) 0) (length pre) = Some (out, off)"
    "length pre \<le> n"
  shows "\<exists>parts. map (\<lambda>r. get (cr_cid r)) rs = map Some parts
    \<and> map (\<lambda>r. cr_cid r) rs = map (cidOf C) parts
    \<and> off = length pre + length (concat parts) \<and> off \<le> n
    \<and> out = pre @ concat parts @ replicate (n - off) 0"
  using assms
proof (induction rs arbitrary: pre)
  case (Cons r rs)
  from Cons.prems(1) obtain part where part: "get (cr_cid r) = Some part" "cidOf C part = cr_cid r"
      "length pre + length part \<le> n"
    and rest: "reassemble_loop C (int n) get rs
        (set_at (pre @ replicate (n - length pre) 0) part (length pre)) (length pre + length part) = Some (out, off)"
    by (auto simp: verifyCid_def split: option.splits if_splits)
  have "set_at (pre @ replicate (n - length pre) 0) part (length pre)
      = (pre @ part) @ replicate (n - length (pre @ part)) 0"
    by (simp add: set_at_end)
  with rest have "reassemble_loop C (int n) get rs ((pre @ part) @ replicate (n - length (pre @ part)) 0)
      (length (pre @ part)) = Some (out, off)"
    by simp
  from Cons.IH [OF this] part(3) obtain parts where
    "map (\<lambda>r. get (cr_cid r)) rs = map Some parts" "map (\<lambda>r. cr_cid r) rs = map (cidOf C) parts"
    "off = length (pre @ part) + length (concat parts)" "off \<le> n"
    "out = (pre @ part) @ concat parts @ replicate (n - off) 0"
    by auto
  with part show ?case
    by (intro exI [of _ "part # parts"]) simp
qed auto

lemma reassemble_parts:
  assumes "reassemble C m get = Some (Some out)"
  shows "\<exists>parts. map (\<lambda>r. get (cr_cid r)) (m_chunks m) = map Some parts
    \<and> map cr_cid (m_chunks m) = map (cidOf C) parts \<and> out = concat parts \<and> int (length out) = m_size m"
proof -
  have nn: "0 \<le> m_size m"
    using assms by (auto simp: reassemble_def split: if_splits)
  then obtain out' off where
    l: "reassemble_loop C (m_size m) get (m_chunks m) (replicate (nat (m_size m)) 0) 0 = Some (out', off)"
    and e: "int off = m_size m" "out = out'"
    using assms by (auto simp: reassemble_def split: option.splits if_splits)
  from l nn have "reassemble_loop C (int (nat (m_size m))) get (m_chunks m)
      ([] @ replicate (nat (m_size m) - length []) 0) (length []) = Some (out', off)"
    by simp
  from reassemble_loop_out [OF this] e show ?thesis
    by auto
qed

lemma reassemble_loop_ok:
  assumes "list_all (\<lambda>p. get (cidOf C p) = Some p) parts" "length pre + length (concat parts) \<le> n"
  shows "reassemble_loop C (int n) get (map (\<lambda>p. \<lparr>cr_cid = cidOf C p, cr_size = int (length p)\<rparr>) parts)
      (pre @ replicate (n - length pre) 0) (length pre)
    = Some (pre @ concat parts @ replicate (n - length pre - length (concat parts)) 0,
        length pre + length (concat parts))"
  using assms
proof (induction parts arbitrary: pre)
  case (Cons p parts)
  have "set_at (pre @ replicate (n - length pre) 0) p (length pre)
      = (pre @ p) @ replicate (n - length (pre @ p)) 0"
    by (simp add: set_at_end)
  moreover have "reassemble_loop C (int n) get (map (\<lambda>p. \<lparr>cr_cid = cidOf C p, cr_size = int (length p)\<rparr>) parts)
      ((pre @ p) @ replicate (n - length (pre @ p)) 0) (length (pre @ p))
    = Some ((pre @ p) @ concat parts @ replicate (n - length (pre @ p) - length (concat parts)) 0,
        length (pre @ p) + length (concat parts))"
    using Cons.prems by (intro Cons.IH) simp_all
  ultimately show ?case
    using Cons.prems by (simp add: verifyCid_def add.assoc)
qed simp

lemma chunkContent_Some:
  "chunkContent C bs csz = Some (m, cs) \<longleftrightarrow> 0 < csz \<and>
     (let parts = chunk_loop bs (nat csz) 0 in
       m_chunks m = map (\<lambda>p. \<lparr>cr_cid = cidOf C p, cr_size = int (length p)\<rparr>) parts
       \<and> m_size m = int (length bs) \<and> m_chunkSize m = csz
       \<and> m_cid m = hashJson C (manifest_json (m_size m) csz (m_chunks m))
       \<and> cs = map (\<lambda>p. \<lparr>ch_cid = cidOf C p, ch_bytes = p\<rparr>) parts)"
  by (cases m) (auto simp: chunkContent_def Let_def)

text \<open>Any source that serves the chunks gives the file back.\<close>

lemma reassemble_chunkContent:
  assumes "chunkContent C bs csz = Some (m, cs)" "\<forall>c \<in> set cs. get (ch_cid c) = Some (ch_bytes c)"
  shows "reassemble C m get = Some (Some bs)"
proof -
  let ?parts = "chunk_loop bs (nat csz) 0"
  from assms(1) have m: "0 < csz" "m_size m = int (length bs)"
      "m_chunks m = map (\<lambda>p. \<lparr>cr_cid = cidOf C p, cr_size = int (length p)\<rparr>) ?parts"
      "cs = map (\<lambda>p. \<lparr>ch_cid = cidOf C p, ch_bytes = p\<rparr>) ?parts"
    by (simp_all add: chunkContent_Some Let_def)
  have get: "list_all (\<lambda>p. get (cidOf C p) = Some p) ?parts"
    using assms(2) m(4) by (simp add: list_all_iff)
  have con: "concat ?parts = bs"
    using chunk_loop_concat [of "nat csz" bs 0] m(1) by simp
  from reassemble_loop_ok [OF get, of "[]" "length bs"] con m show ?thesis
    by (simp add: reassemble_def)
qed

lemma verify_chunkContent:
  assumes "chunkContent C bs csz = Some (m, cs)"
  shows "verifyManifest C m"
proof -
  let ?parts = "chunk_loop bs (nat csz) 0"
  have sum: "foldl (\<lambda>s c. s + cr_size c) (a :: int) (map (\<lambda>p. \<lparr>cr_cid = cidOf C p, cr_size = int (length p)\<rparr>) ps)
      = a + int (length (concat ps))" for a ps
    by (induction ps arbitrary: a) auto
  have "0 < csz \<Longrightarrow> concat ?parts = bs"
    using chunk_loop_concat [of "nat csz" bs 0] by simp
  with assms sum [of 0 ?parts] show ?thesis
    by (simp add: chunkContent_Some Let_def verifyManifest_def)
qed

text \<open>Two sources that both satisfy a manifest serve the same file.\<close>

lemma parts_determined:
  assumes "hex_codec C" "map (cidOf C) ps = map (cidOf C) qs" "inj_on (c_sha256 C) (set ps \<union> set qs)"
  shows "ps = qs"
  using assms(2,3)
proof (induction ps arbitrary: qs)
  case (Cons p ps)
  then obtain q qs' where qs: "qs = q # qs'" "cidOf C p = cidOf C q" "map (cidOf C) ps = map (cidOf C) qs'"
    by auto
  have "c_sha256 C p = c_sha256 C q"
    using qs(2) assms(1) by (simp add: cidOf_def hashHex_def hash_bytes_def toHex_inj)
  then have "p = q"
    using Cons.prems(2) qs(1) by (meson UnCI inj_onD list.set_intros(1))
  moreover have "ps = qs'"
    using Cons.prems(2) qs by (intro Cons.IH) (auto intro: inj_on_subset)
  ultimately show ?case
    using qs(1) by simp
qed simp

definition served :: "manifest \<Rightarrow> (hex \<Rightarrow> bytes option) \<Rightarrow> bytes set" where
  "served m get = {p. \<exists>r \<in> set (m_chunks m). get (cr_cid r) = Some p}"

lemma reassemble_unique:
  assumes "hex_codec C" "reassemble C m g = Some (Some out)" "reassemble C m g' = Some (Some out')"
    "inj_on (c_sha256 C) (served m g \<union> served m g')"
  shows "out = out'"
proof -
  obtain ps where ps: "map (\<lambda>r. g (cr_cid r)) (m_chunks m) = map Some ps"
      "map cr_cid (m_chunks m) = map (cidOf C) ps" "out = concat ps"
    using reassemble_parts [OF assms(2)] by auto
  obtain qs where qs: "map (\<lambda>r. g' (cr_cid r)) (m_chunks m) = map Some qs"
      "map cr_cid (m_chunks m) = map (cidOf C) qs" "out' = concat qs"
    using reassemble_parts [OF assms(3)] by auto
  have sub: "set xs \<subseteq> served m h" if "map (\<lambda>r. h (cr_cid r)) (m_chunks m) = map Some xs" for h xs
  proof
    fix x
    assume "x \<in> set xs"
    then have "Some x \<in> set (map (\<lambda>r. h (cr_cid r)) (m_chunks m))"
      using that by simp
    then show "x \<in> served m h"
      by (auto simp: served_def)
  qed
  have "ps = qs"
    using ps(2) qs(2) assms(1,4) sub [OF ps(1)] sub [OF qs(1)]
    by (intro parts_determined [of C]) (auto intro: inj_on_subset)
  with ps qs show ?thesis
    by simp
qed

text \<open>The CID binds size, chunk size and the chunk list.\<close>

lemma ref_json_inj: "sortValue (ref_json a) = sortValue (ref_json b) \<Longrightarrow> a = b"
  using sortValue_obj_lookup [of "[(''cid'', JStr (cr_cid a)), (''size'', JNum (cr_size a))]"
      "[(''cid'', JStr (cr_cid b)), (''size'', JNum (cr_size b))]" "''cid''"]
    sortValue_obj_lookup [of "[(''cid'', JStr (cr_cid a)), (''size'', JNum (cr_size a))]"
      "[(''cid'', JStr (cr_cid b)), (''size'', JNum (cr_size b))]" "''size''"]
  by (simp add: ref_json_def del: sortValue.simps) simp

lemma manifest_json_inj:
  assumes "sortValue (manifest_json s c rs) = sortValue (manifest_json s' c' rs')"
  shows "s = s' \<and> c = c' \<and> rs = rs'"
proof -
  let ?f = "\<lambda>s c rs. [(''size'', JNum s), (''chunkSize'', JNum c), (''chunks'', JArr (map ref_json rs))]"
  have look: "map_option sortValue (map_of (?f s c rs) k) = map_option sortValue (map_of (?f s' c' rs') k)" for k
    using assms by (intro sortValue_obj_lookup) (simp_all add: manifest_json_def del: sortValue.simps)
  have "sortValue (JArr (map ref_json rs)) = sortValue (JArr (map ref_json rs'))"
    using look [of "''chunks''"] by (simp del: sortValue.simps)
  then have "rs = rs'"
    by (intro sort_arr_inj [of ref_json] ref_json_inj)
  with look [of "''size''"] look [of "''chunkSize''"] show ?thesis
    by simp
qed

lemma manifest_cid_binds:
  assumes "hex_codec C" "inj (c_utf8 C)" "verifyManifest C m" "verifyManifest C m'" "m_cid m = m_cid m'"
    "inj_on (c_sha256 C) {json_preimage C (manifest_json (m_size m) (m_chunkSize m) (m_chunks m)),
       json_preimage C (manifest_json (m_size m') (m_chunkSize m') (m_chunks m'))}"
  shows "m = m'"
proof -
  have "hashJson C (manifest_json (m_size m) (m_chunkSize m) (m_chunks m))
      = hashJson C (manifest_json (m_size m') (m_chunkSize m') (m_chunks m'))"
    using assms(3-5) by (simp add: verifyManifest_def)
  from manifest_json_inj [OF hashJson_inj [OF assms(1) this assms(6,2)]] assms(5) show ?thesis
    by (cases m, cases m') simp
qed

section \<open>The wire format\<close>

definition MANIFEST_WIRE_VERSION :: byte where "MANIFEST_WIRE_VERSION = 1"
definition WIRE_HEADER_BYTES :: nat where "WIRE_HEADER_BYTES = 20"

text \<open>\<open>setBigUint64(_, BigInt(n), true)\<close>: the low 64 bits, least significant byte first.\<close>

definition le64 :: "int \<Rightarrow> bytes" where
  "le64 n = map (\<lambda>i. word_of_int (n div 256 ^ i)) [0..<8]"

definition get_le64 :: "bytes \<Rightarrow> nat \<Rightarrow> int" where
  "get_le64 bs off = (\<Sum>i \<leftarrow> [0..<8]. uint (bs ! (off + i)) * 256 ^ i)"

text \<open>
  \<open>parseInt(s, 16)\<close> followed by the store into a byte: leading blanks, a sign and a \<open>0x\<close>
  are skipped, the longest run of hex digits is read, and a missing number is stored as 0.
\<close>

definition hex_digit_val :: "char \<Rightarrow> nat option" where
  "hex_digit_val c = (let n = (of_char c :: nat) in
     if 48 \<le> n \<and> n \<le> 57 then Some (n - 48)
     else if 97 \<le> n \<and> n \<le> 102 then Some (n - 87)
     else if 65 \<le> n \<and> n \<le> 70 then Some (n - 55) else None)"

definition is_blank :: "char \<Rightarrow> bool" where
  "is_blank c = ((of_char c :: nat) \<in> {9, 10, 11, 12, 13, 32, 160})"

fun hex_run :: "nat \<Rightarrow> string \<Rightarrow> nat" where
  "hex_run a [] = a"
| "hex_run a (c # cs) = (case hex_digit_val c of None \<Rightarrow> a | Some d \<Rightarrow> hex_run (16 * a + d) cs)"

definition parse_byte :: "string \<Rightarrow> byte" where
  "parse_byte s0 = (let s = dropWhile is_blank s0;
      neg = (s \<noteq> [] \<and> hd s = CHR ''-'');
      s1 = (if s \<noteq> [] \<and> hd s \<in> {CHR ''-'', CHR ''+''} then tl s else s);
      s2 = (if take 2 s1 \<in> {''0x'', ''0X''} then drop 2 s1 else s1);
      v = word_of_nat (hex_run 0 s2)
    in if neg then - v else v)"

definition digest_bytes :: "hex \<Rightarrow> bytes" where
  "digest_bytes h = map (\<lambda>b. parse_byte (subarray (b * 2) (b * 2 + 2) h)) [0..<32]"

definition encodeManifest :: "manifest \<Rightarrow> bytes" where
  "encodeManifest m = MANIFEST_WIRE_VERSION # replicate 3 0 @ le64 (m_size m) @ le64 (m_chunkSize m)
     @ concat (map (\<lambda>r. digest_bytes (cr_cid r)) (m_chunks m))"

definition byte_hex :: "byte \<Rightarrow> string" where
  "byte_hex v = [hex_digit (unat v div 16), hex_digit (unat v mod 16)]"

definition bytes_hex :: "bytes \<Rightarrow> hex" where
  "bytes_hex bs = concat (map byte_hex bs)"

text \<open>\<open>Number.isSafeInteger\<close> after the conversion of an unsigned 64-bit value.\<close>

definition isSafe :: "int \<Rightarrow> bool" where
  "isSafe n = (- (2 ^ 53) < n \<and> n < 2 ^ 53)"

text \<open>\<open>Math.ceil(a / b)\<close>: on safe integers the rounded quotient never crosses an integer.\<close>

definition ceil_div :: "int \<Rightarrow> int \<Rightarrow> int" where
  "ceil_div a b = - ((- a) div b)"

definition decoded_refs :: "bytes \<Rightarrow> int \<Rightarrow> int \<Rightarrow> nat \<Rightarrow> chunk_ref list" where
  "decoded_refs bs sz csz n = map (\<lambda>i.
     \<lparr>cr_cid = bytes_hex (map (\<lambda>b. bs ! (WIRE_HEADER_BYTES + i * 32 + b)) [0..<32]),
      cr_size = (if int i = int n - 1 then sz - csz * (int n - 1) else csz)\<rparr>) [0..<n]"

definition decodeManifest :: "crypto \<Rightarrow> bytes \<Rightarrow> manifest option" where
  "decodeManifest C bs =
     (if length bs < WIRE_HEADER_BYTES then None
      else if bs ! 0 \<noteq> MANIFEST_WIRE_VERSION then None
      else let body = length bs - WIRE_HEADER_BYTES in
        if body mod 32 \<noteq> 0 then None
        else let n = body div 32; sz = get_le64 bs 4; csz = get_le64 bs 12 in
          if \<not> isSafe sz \<or> \<not> isSafe csz then None
          else if sz < 0 \<or> csz \<le> 0 then None
          else if int n \<noteq> ceil_div sz csz \<and> \<not> (sz = 0 \<and> n = 0) then None
          else let refs = decoded_refs bs sz csz n in
            Some \<lparr>m_cid = hashJson C (manifest_json sz csz refs), m_size = sz, m_chunkSize = csz, m_chunks = refs\<rparr>)"

text \<open>Digits.\<close>

lemma hex_digit_val_digit: "d < 16 \<Longrightarrow> hex_digit_val (hex_digit d) = Some d"
  by (auto simp: hex_digit_val_def hex_digit_def Let_def)

lemma hex_digit_plain: "d < 16 \<Longrightarrow> \<not> is_blank (hex_digit d) \<and> hex_digit d \<notin> {CHR ''-'', CHR ''+'', CHR ''x'', CHR ''X''}"
proof -
  assume d: "d < 16"
  then have n: "(of_char (hex_digit d) :: nat) \<in> {48..57} \<union> {97..102}"
    by (auto simp: hex_digit_def)
  have "hex_digit d \<noteq> c" if "(of_char c :: nat) \<notin> {48..57} \<union> {97..102}" for c
    using n that by auto
  from this [of "CHR ''-''"] this [of "CHR ''+''"] this [of "CHR ''x''"] this [of "CHR ''X''"] n show ?thesis
    by (auto simp: is_blank_def)
qed

lemma parse_byte_hex: "parse_byte (byte_hex v) = v"
proof -
  let ?a = "unat v div 16" and ?b = "unat v mod 16"
  have ab: "?a < 16" "?b < 16"
    using unat_byte_less [of v] by simp_all
  have "word_of_nat (16 * ?a + ?b) = v"
    by (simp only: mult_div_mod_eq) simp
  with ab hex_digit_plain [OF ab(1)] hex_digit_plain [OF ab(2)] show ?thesis
    by (simp add: parse_byte_def byte_hex_def Let_def hex_digit_val_digit)
qed

lemma bytes_hex_sub: "i < length ds \<Longrightarrow> subarray (i * 2) (i * 2 + 2) (bytes_hex ds) = byte_hex (ds ! i)"
proof (induction ds arbitrary: i)
  case (Cons d ds)
  then show ?case
    by (cases i) (simp_all add: subarray_def bytes_hex_def byte_hex_def)
qed simp

lemma digest_bytes_hex: "length ds = 32 \<Longrightarrow> digest_bytes (bytes_hex ds) = ds"
  by (rule nth_equalityI) (simp_all add: digest_bytes_def bytes_hex_sub [simplified] parse_byte_hex)

text \<open>Little-endian numbers.\<close>

lemma uint_byte_of_int: "uint (word_of_int i :: byte) = i mod 256"
  by (simp add: unsigned_of_int take_bit_eq_mod)

lemma le64_value: "(\<Sum>i \<leftarrow> [0..<k]. (n div 256 ^ i mod 256) * 256 ^ i) = (n :: int) mod 256 ^ k"
proof (induction k)
  case (Suc k)
  have "n mod 256 ^ Suc k = n div 256 ^ k mod 256 * 256 ^ k + n mod 256 ^ k"
    using zmod_zmult2_eq [of 256 n "256 ^ k"] by (simp add: mult.commute)
  with Suc show ?case
    by simp
qed simp

lemma get_le64_at:
  assumes "length pre = off"
  shows "get_le64 (pre @ le64 n @ post) off = n mod 2 ^ 64"
proof -
  have "get_le64 (pre @ le64 n @ post) off = (\<Sum>i \<leftarrow> [0..<8]. (n div 256 ^ i mod 256) * 256 ^ i)"
    unfolding get_le64_def using assms
    by (intro arg_cong [where f = sum_list] map_cong refl) (auto simp: nth_append le64_def uint_byte_of_int)
  then show ?thesis
    using le64_value [of n 8] by simp
qed

lemma le64_length [simp]: "length (le64 n) = 8"
  by (simp add: le64_def)

text \<open>What the encoder assumes of a manifest: digests in lower-case hex and derived sizes.\<close>

definition ref_sizes :: "int \<Rightarrow> int \<Rightarrow> nat \<Rightarrow> int list" where
  "ref_sizes sz csz n = map (\<lambda>i. if int i = int n - 1 then sz - csz * (int n - 1) else csz) [0..<n]"

definition encodable :: "crypto \<Rightarrow> manifest \<Rightarrow> bool" where
  "encodable C m \<longleftrightarrow>
     m_cid m = hashJson C (manifest_json (m_size m) (m_chunkSize m) (m_chunks m))
     \<and> 0 \<le> m_size m \<and> m_size m < 2 ^ 53 \<and> 0 < m_chunkSize m \<and> m_chunkSize m < 2 ^ 53
     \<and> int (length (m_chunks m)) = ceil_div (m_size m) (m_chunkSize m)
     \<and> map cr_size (m_chunks m) = ref_sizes (m_size m) (m_chunkSize m) (length (m_chunks m))
     \<and> (\<forall>r \<in> set (m_chunks m). \<exists>ds. length ds = 32 \<and> cr_cid r = bytes_hex ds)"

lemma ref_digest:
  assumes "encodable C m" "r \<in> set (m_chunks m)"
  shows "length (digest_bytes (cr_cid r)) = 32 \<and> bytes_hex (digest_bytes (cr_cid r)) = cr_cid r"
  using assms by (auto simp: encodable_def digest_bytes_hex)

lemma concat_block:
  assumes "\<forall>x \<in> set xs. length (f x) = k" "i < length xs" "j < k"
  shows "concat (map f xs) ! (i * k + j) = f (xs ! i) ! j"
  using assms
proof (induction xs arbitrary: i)
  case (Cons x xs)
  show ?case
  proof (cases i)
    case 0
    with Cons.prems show ?thesis
      by (simp add: nth_append)
  next
    case (Suc l)
    with Cons show ?thesis
      by (simp add: nth_append add.assoc)
  qed
qed simp

lemma length_concat_block: "\<forall>x \<in> set xs. length (f x) = k \<Longrightarrow> length (concat (map f xs)) = length xs * k"
  by (induction xs) auto

lemma encode_header:
  "encodeManifest m ! 0 = MANIFEST_WIRE_VERSION"
  "get_le64 (encodeManifest m) 4 = m_size m mod 2 ^ 64"
  "get_le64 (encodeManifest m) 12 = m_chunkSize m mod 2 ^ 64"
  "length (encodeManifest m)
     = WIRE_HEADER_BYTES + length (concat (map (\<lambda>r. digest_bytes (cr_cid r)) (m_chunks m)))"
proof -
  let ?rest = "concat (map (\<lambda>r. digest_bytes (cr_cid r)) (m_chunks m))"
  show "encodeManifest m ! 0 = MANIFEST_WIRE_VERSION"
    by (simp add: encodeManifest_def)
  show "get_le64 (encodeManifest m) 4 = m_size m mod 2 ^ 64"
    using get_le64_at [of "MANIFEST_WIRE_VERSION # replicate 3 0" 4 "m_size m" "le64 (m_chunkSize m) @ ?rest"]
    by (simp add: encodeManifest_def)
  show "get_le64 (encodeManifest m) 12 = m_chunkSize m mod 2 ^ 64"
    using get_le64_at [of "MANIFEST_WIRE_VERSION # replicate 3 0 @ le64 (m_size m)" 12 "m_chunkSize m" ?rest]
    by (simp add: encodeManifest_def)
  show "length (encodeManifest m) = WIRE_HEADER_BYTES + length ?rest"
    by (simp add: encodeManifest_def WIRE_HEADER_BYTES_def)
qed

lemma encode_body:
  assumes "encodable C m" "i < length (m_chunks m)" "b < 32"
  shows "encodeManifest m ! (WIRE_HEADER_BYTES + i * 32 + b) = digest_bytes (cr_cid (m_chunks m ! i)) ! b"
proof -
  let ?pre = "MANIFEST_WIRE_VERSION # replicate 3 0 @ le64 (m_size m) @ le64 (m_chunkSize m)"
  let ?rest = "concat (map (\<lambda>r. digest_bytes (cr_cid r)) (m_chunks m))"
  have "encodeManifest m = ?pre @ ?rest" "length ?pre = WIRE_HEADER_BYTES"
    by (simp_all add: encodeManifest_def WIRE_HEADER_BYTES_def)
  then have "encodeManifest m ! (WIRE_HEADER_BYTES + (i * 32 + b)) = ?rest ! (i * 32 + b)"
    by (metis nth_append_length_plus)
  also have "\<dots> = digest_bytes (cr_cid (m_chunks m ! i)) ! b"
    using ref_digest [OF assms(1)] assms(2,3)
    by (intro concat_block [where f = "\<lambda>r. digest_bytes (cr_cid r)"]) auto
  finally show ?thesis
    by (simp add: add.assoc)
qed

lemma decoded_refs_encode:
  assumes "encodable C m"
  shows "decoded_refs (encodeManifest m) (m_size m) (m_chunkSize m) (length (m_chunks m)) = m_chunks m"
proof (rule nth_equalityI)
  let ?n = "length (m_chunks m)"
  show "length (decoded_refs (encodeManifest m) (m_size m) (m_chunkSize m) ?n) = ?n"
    by (simp add: decoded_refs_def)
  fix i
  assume "i < length (decoded_refs (encodeManifest m) (m_size m) (m_chunkSize m) ?n)"
  then have i: "i < ?n"
    by (simp add: decoded_refs_def)
  have dig: "length (digest_bytes (cr_cid (m_chunks m ! i))) = 32"
      "bytes_hex (digest_bytes (cr_cid (m_chunks m ! i))) = cr_cid (m_chunks m ! i)"
    using ref_digest [OF assms nth_mem [OF i]] by simp_all
  have "map (\<lambda>b. encodeManifest m ! (WIRE_HEADER_BYTES + i * 32 + b)) [0..<32]
      = digest_bytes (cr_cid (m_chunks m ! i))"
    using dig(1) encode_body [OF assms i] by (intro nth_equalityI) auto
  moreover have "cr_size (m_chunks m ! i) = ref_sizes (m_size m) (m_chunkSize m) ?n ! i"
    using assms i by (metis encodable_def nth_map)
  ultimately show "decoded_refs (encodeManifest m) (m_size m) (m_chunkSize m) ?n ! i = m_chunks m ! i"
    using i dig(2) by (simp add: decoded_refs_def ref_sizes_def)
qed

lemma decode_encode:
  assumes "encodable C m"
  shows "decodeManifest C (encodeManifest m) = Some m"
proof -
  let ?n = "length (m_chunks m)"
  have len: "length (encodeManifest m) = WIRE_HEADER_BYTES + ?n * 32"
    using length_concat_block [of "m_chunks m" "\<lambda>r. digest_bytes (cr_cid r)" 32] ref_digest [OF assms]
    by (simp add: encode_header(4))
  have sz: "get_le64 (encodeManifest m) 4 = m_size m"
    unfolding encode_header(2) using assms by (intro mod_pos_pos_trivial) (simp_all add: encodable_def)
  have csz: "get_le64 (encodeManifest m) 12 = m_chunkSize m"
    unfolding encode_header(3) using assms by (intro mod_pos_pos_trivial) (simp_all add: encodable_def)
  have "isSafe (m_size m)" "isSafe (m_chunkSize m)" "0 \<le> m_size m" "0 < m_chunkSize m"
      "int ?n = ceil_div (m_size m) (m_chunkSize m)"
      "hashJson C (manifest_json (m_size m) (m_chunkSize m) (m_chunks m)) = m_cid m"
    using assms by (simp_all add: encodable_def isSafe_def)
  then show ?thesis
    by (simp add: decodeManifest_def Let_def encode_header(1) len sz csz decoded_refs_encode [OF assms])
qed

text \<open>Chunking produces encodable manifests when the digests are printed in lower-case hex.\<close>

lemma chunk_loop_nth:
  assumes "0 < csz" "i < length (chunk_loop bs csz off)"
  shows "chunk_loop bs csz off ! i = take csz (drop (off + i * csz) bs)"
  using assms
proof (induction bs csz off arbitrary: i rule: chunk_loop.induct)
  case (1 bs csz off)
  show ?case
  proof (cases "off < length bs")
    case True
    then have c: "chunk_loop bs csz off = take csz (drop off bs) # chunk_loop bs csz (off + csz)"
      using 1(2) by (subst chunk_loop.simps) (simp add: subarray_def min_def)
    show ?thesis
    proof (cases i)
      case (Suc j)
      with 1(1) [of j] 1(2,3) True c show ?thesis
        by (simp add: add.assoc)
    qed (use c in simp)
  next
    case False
    then have "chunk_loop bs csz off = []"
      by (subst chunk_loop.simps) simp
    with 1(3) show ?thesis
      by simp
  qed
qed

lemma ceil_div_nat:
  assumes "0 < c"
  shows "int ((a + c - 1) div c) = ceil_div (int a) (int c)"
proof -
  let ?q = "(a + c - 1) div c" and ?r = "(a + c - 1) mod c"
  have "a + c - 1 = ?q * c + ?r"
    by simp
  then have "int a + int c - 1 = int ?q * int c + int ?r"
    using assms by (metis One_nat_def Suc_leI add_leD2 le_add2 of_nat_1 of_nat_add of_nat_diff of_nat_mult trans_le_add2)
  then have "- int a = int c * (- int ?q) + (int c - 1 - int ?r)"
    by (simp add: algebra_simps)
  moreover have "0 \<le> int c - 1 - int ?r" "int c - 1 - int ?r < int c"
    using assms mod_less_divisor [OF assms, of "a + c - 1"] by linarith+
  ultimately have "(- int a) div int c = - int ?q"
    by (rule int_div_pos_eq)
  then show ?thesis
    by (simp add: ceil_div_def)
qed

lemma chunk_encodable:
  assumes "chunkContent C bs csz = Some (m, cs)" "c_toHex C = bytes_hex" "hash_length C"
    "int (length bs) < 2 ^ 53" "csz < 2 ^ 53"
  shows "encodable C m"
proof -
  let ?parts = "chunk_loop bs (nat csz) 0"
  from assms(1) have m: "0 < csz" "m_size m = int (length bs)" "m_chunkSize m = csz"
      "m_chunks m = map (\<lambda>p. \<lparr>cr_cid = cidOf C p, cr_size = int (length p)\<rparr>) ?parts"
      "m_cid m = hashJson C (manifest_json (m_size m) csz (m_chunks m))"
    by (simp_all add: chunkContent_Some Let_def)
  define n where "n = length ?parts"
  have n: "int n = ceil_div (int (length bs)) csz" "n = (length bs + nat csz - 1) div nat csz"
    using chunk_loop_count [of "nat csz" bs 0] ceil_div_nat [of "nat csz" "length bs"] m(1)
    by (simp_all add: n_def)
  have full: "(n - 1) * nat csz < length bs \<and> length bs \<le> n * nat csz" if "0 < n"
  proof -
    have "n * nat csz \<le> length bs + nat csz - 1" "length bs + nat csz - 1 < Suc n * nat csz"
      using n(2) m(1) div_times_less_eq_dividend [of "length bs + nat csz - 1" "nat csz"]
        dividend_less_div_times [of "nat csz" "length bs + nat csz - 1"] by auto
    then show ?thesis
      using that m(1) zero_less_nat_eq [of csz] by (cases n) (simp_all only: mult_Suc diff_Suc_1 of_nat_less_iff, linarith)
  qed
  have "map cr_size (m_chunks m) = ref_sizes (m_size m) csz n"
  proof (rule nth_equalityI)
    show "length (map cr_size (m_chunks m)) = length (ref_sizes (m_size m) csz n)"
      by (simp add: m(4) ref_sizes_def n_def)
    fix i
    assume "i < length (map cr_size (m_chunks m))"
    then have i: "i < n"
      by (simp add: m(4) n_def)
    then have "length (?parts ! i) = min (nat csz) (length bs - i * nat csz)"
      using chunk_loop_nth [of "nat csz" i bs 0] m(1) by (simp add: n_def min.commute)
    moreover have "int (min (nat csz) (length bs - i * nat csz))
        = (if int i = int n - 1 then m_size m - csz * (int n - 1) else csz)"
    proof (cases "i = n - 1")
      case True
      have "n * nat csz = i * nat csz + nat csz"
        using True i by (cases n) simp_all
      with True i full have "length bs \<le> i * nat csz + nat csz" "i * nat csz < length bs"
        by simp_all
      then have le: "length bs - i * nat csz \<le> nat csz" "i * nat csz \<le> length bs"
        by linarith+
      have "int (length bs - i * nat csz) = int (length bs) - int i * csz"
        using le(2) m(1) by (simp add: of_nat_diff)
      moreover have "int i = int n - 1"
        using True i by simp
      ultimately show ?thesis
        by (simp only: min_absorb2 [OF le(1)] m(2)) (simp add: mult.commute)
    next
      case False
      with i have "Suc i \<le> n - 1"
        by simp
      then have "Suc i * nat csz \<le> (n - 1) * nat csz"
        by (rule mult_le_mono1)
      moreover have "(n - 1) * nat csz < length bs"
        using full i by simp
      ultimately have "nat csz \<le> length bs - i * nat csz"
        by (simp only: mult_Suc)
      moreover have "int i \<noteq> int n - 1"
        using False i by simp
      ultimately show ?thesis
        using m(1) by (simp add: min_def)
    qed
    ultimately show "map cr_size (m_chunks m) ! i = ref_sizes (m_size m) csz n ! i"
      using i by (simp add: m(4) ref_sizes_def n_def)
  qed
  moreover have "\<exists>ds. length ds = 32 \<and> cidOf C p = bytes_hex ds" for p
    using assms(2,3) by (intro exI [of _ "c_sha256 C p"]) (simp add: cidOf_def hashHex_def hash_bytes_def)
  moreover have "length (m_chunks m) = n"
    by (simp add: m(4) n_def)
  ultimately show ?thesis
    using m n(1) assms(4,5) by (auto simp: encodable_def)
qed

text \<open>Whatever decodes is consistent, and is no larger than the input paid for.\<close>

lemma decodeManifest_Some:
  assumes "decodeManifest C bs = Some m"
  obtains n where "length bs = WIRE_HEADER_BYTES + 32 * n" "0 \<le> m_size m" "0 < m_chunkSize m"
    "int n = ceil_div (m_size m) (m_chunkSize m)" "m_chunks m = decoded_refs bs (m_size m) (m_chunkSize m) n"
    "m_cid m = hashJson C (manifest_json (m_size m) (m_chunkSize m) (m_chunks m))"
proof -
  let ?n = "(length bs - WIRE_HEADER_BYTES) div 32"
  from assms have "length bs = WIRE_HEADER_BYTES + 32 * ?n"
    by (auto simp: decodeManifest_def Let_def split: if_splits)
  moreover from assms have "0 \<le> m_size m" "0 < m_chunkSize m"
      "int ?n = ceil_div (m_size m) (m_chunkSize m) \<or> m_size m = 0 \<and> ?n = 0"
      "m_chunks m = decoded_refs bs (m_size m) (m_chunkSize m) ?n"
      "m_cid m = hashJson C (manifest_json (m_size m) (m_chunkSize m) (m_chunks m))"
    unfolding decodeManifest_def Let_def by (simp_all split: if_splits) auto
  moreover have "ceil_div 0 c = 0" for c
    by (simp add: ceil_div_def)
  ultimately show ?thesis
    using that [of ?n] by auto
qed

lemma decoded_sizes: "foldl (\<lambda>s c. s + cr_size c) a (decoded_refs bs sz csz n) = a + (if n = 0 then 0 else sz)"
proof -
  have "foldl (\<lambda>s c. s + cr_size c) a xs = a + sum_list (map cr_size xs)" for a and xs :: "chunk_ref list"
    by (induction xs arbitrary: a) auto
  moreover have "sum_list (map cr_size (decoded_refs bs sz csz (Suc k))) = sz" for k
  proof -
    have "map cr_size (decoded_refs bs sz csz (Suc k)) = map (\<lambda>i. csz) [0..<k] @ [sz - csz * int k]"
      by (simp add: decoded_refs_def)
    then have "sum_list (map cr_size (decoded_refs bs sz csz (Suc k)))
        = sum_list (map (\<lambda>i. csz) [0..<k]) + (sz - csz * int k)"
      by (simp only: sum_list_append sum_list.Cons sum_list.Nil)
    then show ?thesis
      by (simp only: sum_list_triv) (simp add: mult.commute)
  qed
  ultimately show ?thesis
    by (cases n) (simp_all add: decoded_refs_def)
qed

lemma decode_verified:
  assumes "decodeManifest C bs = Some m"
  shows "verifyManifest C m \<and> WIRE_HEADER_BYTES + 32 * length (m_chunks m) = length bs"
proof -
  obtain n where n: "length bs = WIRE_HEADER_BYTES + 32 * n" "0 \<le> m_size m" "0 < m_chunkSize m"
    "int n = ceil_div (m_size m) (m_chunkSize m)" "m_chunks m = decoded_refs bs (m_size m) (m_chunkSize m) n"
    "m_cid m = hashJson C (manifest_json (m_size m) (m_chunkSize m) (m_chunks m))"
    by (rule decodeManifest_Some [OF assms])
  have "m_size m = 0" if "n = 0"
    using n that by (simp add: ceil_div_def) (smt (verit) div_neg_pos_less0)
  with n show ?thesis
    by (simp add: verifyManifest_def decoded_sizes) (simp add: decoded_refs_def)
qed

end
