(* ===== verification/Content_Store.thy ===== *)
theory Content_Store
  imports Chunking
begin

text \<open>
  The quota-aware store and the backend it writes to: \<open>src/engine/content/backend.ts\<close> and
  \<open>content-store.ts\<close>. The interface \<open>BlockBackend\<close> is a record of operations, its contract the
  locale \<open>block_backend\<close>, and \<open>MemoryBackend\<close> the interpretation. Called one after the other,
  the store's operations keep the count exact and under the quota, storing is all or nothing and
  what was stored is served; overlapping two writes loses one of the counts.
\<close>

section \<open>The backend interface\<close>

record 's backend_ops =
  be_has :: "hex \<Rightarrow> 's \<Rightarrow> bool"
  be_get :: "hex \<Rightarrow> 's \<Rightarrow> bytes option"
  be_put :: "hex \<Rightarrow> bytes \<Rightarrow> 's \<Rightarrow> int \<times> 's"
  be_delete :: "hex \<Rightarrow> 's \<Rightarrow> int \<times> 's"
  be_used :: "'s \<Rightarrow> int"
  be_list :: "'s \<Rightarrow> hex list"

record memory_backend =
  mb_blocks :: "(hex, bytes) jsmap"
  mb_used :: int

definition new_memory :: memory_backend where
  "new_memory = \<lparr>mb_blocks = [], mb_used = 0\<rparr>"

definition mem_put :: "hex \<Rightarrow> bytes \<Rightarrow> memory_backend \<Rightarrow> int \<times> memory_backend" where
  "mem_put cid bs s = (if mhas (mb_blocks s) cid then (0, s)
     else (int (length bs), s\<lparr>mb_blocks := mset_at cid bs (mb_blocks s), mb_used := mb_used s + int (length bs)\<rparr>))"

definition mem_delete :: "hex \<Rightarrow> memory_backend \<Rightarrow> int \<times> memory_backend" where
  "mem_delete cid s = (case mget (mb_blocks s) cid of
     None \<Rightarrow> (0, s)
   | Some held \<Rightarrow> (int (length held),
       s\<lparr>mb_blocks := mdel cid (mb_blocks s), mb_used := mb_used s - int (length held)\<rparr>))"

definition MemoryBackend :: "memory_backend backend_ops" where
  "MemoryBackend = \<lparr>be_has = (\<lambda>cid s. mhas (mb_blocks s) cid), be_get = (\<lambda>cid s. mget (mb_blocks s) cid),
     be_put = mem_put, be_delete = mem_delete, be_used = mb_used, be_list = (\<lambda>s. mkeys (mb_blocks s))\<rparr>"

section \<open>The store\<close>

datatype store_reason = BlobTooLarge int int | QuotaExceeded int int | ContentOverQuota int int

record store_result =
  sr_ok :: bool
  sr_manifest :: "manifest option"
  sr_reason :: "store_reason option"

definition stored :: "manifest option \<Rightarrow> store_result" where
  "stored m = \<lparr>sr_ok = True, sr_manifest = m, sr_reason = None\<rparr>"

definition not_stored :: "store_reason \<Rightarrow> store_result" where
  "not_stored r = \<lparr>sr_ok = False, sr_manifest = None, sr_reason = Some r\<rparr>"

lemma stored_ok [simp]: "sr_ok (stored m)" "\<not> sr_ok (not_stored r)" "sr_manifest (stored m) = m"
  by (simp_all add: stored_def not_stored_def)

record 's content_store =
  cs_used :: int
  cs_quota :: int
  cs_chunkSize :: int
  cs_backend :: 's

definition new_store :: "int \<Rightarrow> int \<Rightarrow> 's \<Rightarrow> 's content_store" where
  "new_store quota csz b = \<lparr>cs_used = 0, cs_quota = quota, cs_chunkSize = csz, cs_backend = b\<rparr>"

definition open_store :: "'s backend_ops \<Rightarrow> 's content_store \<Rightarrow> 's content_store" where
  "open_store B st = st\<lparr>cs_used := be_used B (cs_backend st)\<rparr>"

definition available :: "'s content_store \<Rightarrow> int" where
  "available st = cs_quota st - cs_used st"

text \<open>
  \<open>putBlock\<close> in the two pieces that the awaits leave: up to the write, which answers at once or
  goes on with the count read so far and the bytes the backend added; and the assignment of
  \<open>bytesUsed\<close>. The left operand of \<open>+=\<close> is read before the right one is awaited.
\<close>

definition put_start :: "'s backend_ops \<Rightarrow> bool \<Rightarrow> hex \<Rightarrow> bytes \<Rightarrow> 's content_store
    \<Rightarrow> (store_result + int \<times> int) \<times> 's content_store" where
  "put_start B held cid bs st =
     (if int (length bs) > cs_chunkSize st
      then (Inl (not_stored (BlobTooLarge (int (length bs)) (cs_chunkSize st))), st)
      else if held then (Inl (stored None), st)
      else if cs_used st + int (length bs) > cs_quota st
      then (Inl (not_stored (QuotaExceeded (int (length bs)) (available st))), st)
      else (case be_put B cid bs (cs_backend st) of (n, b) \<Rightarrow> (Inr (cs_used st, n), st\<lparr>cs_backend := b\<rparr>)))"

definition put_finish :: "int \<times> int \<Rightarrow> 's content_store \<Rightarrow> 's content_store" where
  "put_finish p st = st\<lparr>cs_used := fst p + snd p\<rparr>"

definition putBlock :: "'s backend_ops \<Rightarrow> hex \<Rightarrow> bytes \<Rightarrow> 's content_store \<Rightarrow> store_result \<times> 's content_store" where
  "putBlock B cid bs st = (case put_start B (be_has B cid (cs_backend st)) cid bs st of
     (Inl r, st') \<Rightarrow> (r, st')
   | (Inr p, st') \<Rightarrow> (stored None, put_finish p st'))"

fun put_all :: "'s backend_ops \<Rightarrow> chunk list \<Rightarrow> 's content_store \<Rightarrow> store_result option \<times> 's content_store" where
  "put_all B [] st = (None, st)"
| "put_all B (c # cs) st = (case putBlock B (ch_cid c) (ch_bytes c) st of
     (r, st') \<Rightarrow> if sr_ok r then put_all B cs st' else (Some r, st'))"

definition new_bytes :: "'s backend_ops \<Rightarrow> 's \<Rightarrow> chunk list \<Rightarrow> int" where
  "new_bytes B b cs = foldl (\<lambda>need c. if be_has B (ch_cid c) b then need else need + int (length (ch_bytes c))) 0 cs"

text \<open>A chunk size that is not positive makes \<open>chunkContent\<close> throw: \<open>None\<close>.\<close>

definition storeContent :: "crypto \<Rightarrow> 's backend_ops \<Rightarrow> bytes \<Rightarrow> 's content_store
    \<Rightarrow> (store_result \<times> 's content_store) option" where
  "storeContent C B bs st = (case chunkContent C bs (cs_chunkSize st) of
     None \<Rightarrow> None
   | Some (m, cs) \<Rightarrow> Some (let need = new_bytes B (cs_backend st) cs in
       if cs_used st + need > cs_quota st then (not_stored (ContentOverQuota need (available st)), st)
       else (case put_all B cs st of
           (Some r, st') \<Rightarrow> (r, st')
         | (None, st') \<Rightarrow> (stored (Some m), st'))))"

fun fetch_all :: "'s backend_ops \<Rightarrow> 's \<Rightarrow> chunk_ref list \<Rightarrow> (hex, bytes) jsmap \<Rightarrow> (hex, bytes) jsmap option" where
  "fetch_all B b [] held = Some held"
| "fetch_all B b (r # rs) held = (case be_get B (cr_cid r) b of
     None \<Rightarrow> None
   | Some bs \<Rightarrow> fetch_all B b rs (mset_at (cr_cid r) bs held))"

definition getContent :: "crypto \<Rightarrow> 's backend_ops \<Rightarrow> manifest \<Rightarrow> 's content_store \<Rightarrow> bytes option option" where
  "getContent C B m st = (case fetch_all B (cs_backend st) (m_chunks m) [] of
     None \<Rightarrow> Some None
   | Some held \<Rightarrow> reassemble C m (mget held))"

fun delete_all :: "'s backend_ops \<Rightarrow> hex list \<Rightarrow> 's \<Rightarrow> int \<times> 's" where
  "delete_all B [] b = (0, b)"
| "delete_all B (c # cs) b = (case be_delete B c b of (n, b') \<Rightarrow>
     (case delete_all B cs b' of (freed, b'') \<Rightarrow> (n + freed, b'')))"

definition release_blocks :: "'s backend_ops \<Rightarrow> hex list \<Rightarrow> 's content_store \<Rightarrow> int \<times> 's content_store" where
  "release_blocks B cids st = (case delete_all B cids (cs_backend st) of (freed, b) \<Rightarrow>
     (freed, st\<lparr>cs_backend := b, cs_used := cs_used st - freed\<rparr>))"

definition heldCids :: "'s backend_ops \<Rightarrow> 's content_store \<Rightarrow> hex list" where
  "heldCids B st = be_list B (cs_backend st)"

section \<open>The contract of a backend\<close>

definition exact :: "'s backend_ops \<Rightarrow> 's content_store \<Rightarrow> bool" where
  "exact B st \<longleftrightarrow> cs_used st = be_used B (cs_backend st) \<and> cs_used st \<le> cs_quota st"

definition honest :: "crypto \<Rightarrow> 's backend_ops \<Rightarrow> 's content_store \<Rightarrow> bool" where
  "honest C B st \<longleftrightarrow> (\<forall>c b. be_get B c (cs_backend st) = Some b \<longrightarrow> cidOf C b = c)"

definition held_blocks :: "'s backend_ops \<Rightarrow> 's content_store \<Rightarrow> bytes set" where
  "held_blocks B st = {b. \<exists>c. be_get B c (cs_backend st) = Some b}"

locale block_backend =
  fixes B :: "'s backend_ops" and ok :: "'s \<Rightarrow> bool"
  assumes has_get: "be_has B c b \<longleftrightarrow> be_get B c b \<noteq> None"
    and ok_put: "ok b \<Longrightarrow> ok (snd (be_put B c bs b))"
    and ok_delete: "ok b \<Longrightarrow> ok (snd (be_delete B c b))"
    and get_put: "be_get B c' (snd (be_put B c bs b))
        = (if c' = c \<and> be_get B c b = None then Some bs else be_get B c' b)"
    and put_amount: "fst (be_put B c bs b) = (if be_get B c b = None then int (length bs) else 0)"
    and get_delete: "ok b \<Longrightarrow> be_get B c' (snd (be_delete B c b)) = (if c' = c then None else be_get B c' b)"
    and delete_amount: "fst (be_delete B c b) = (case be_get B c b of None \<Rightarrow> 0 | Some bs \<Rightarrow> int (length bs))"
    and used_put: "be_used B (snd (be_put B c bs b)) = be_used B b + fst (be_put B c bs b)"
    and used_delete: "be_used B (snd (be_delete B c b)) = be_used B b - fst (be_delete B c b)"
begin

lemma has_put: "be_has B c' b \<Longrightarrow> be_has B c' (snd (be_put B c bs b))"
  by (auto simp: has_get get_put)

lemma putBlock_cases:
  obtains (refused) r where "putBlock B c bs st = (not_stored r, st)"
      "int (length bs) > cs_chunkSize st \<or> \<not> be_has B c (cs_backend st) \<and> cs_used st + int (length bs) > cs_quota st"
  | (dedup) "putBlock B c bs st = (stored None, st)" "be_has B c (cs_backend st)" "int (length bs) \<le> cs_chunkSize st"
  | (written) "putBlock B c bs st = (stored None, st\<lparr>cs_backend := snd (be_put B c bs (cs_backend st)),
        cs_used := cs_used st + int (length bs)\<rparr>)"
      "be_get B c (cs_backend st) = None" "int (length bs) \<le> cs_chunkSize st"
      "cs_used st + int (length bs) \<le> cs_quota st"
proof (cases "int (length bs) > cs_chunkSize st")
  case True
  then show thesis
    using that(1) by (simp add: putBlock_def put_start_def)
next
  case fits: False
  show thesis
  proof (cases "be_has B c (cs_backend st)")
    case True
    with fits show thesis
      using that(2) by (simp add: putBlock_def put_start_def)
  next
    case new: False
    then have none: "be_get B c (cs_backend st) = None"
      by (simp add: has_get)
    obtain n b where nb: "be_put B c bs (cs_backend st) = (n, b)"
      by fastforce
    then have "n = int (length bs)"
      using put_amount [of c bs "cs_backend st"] none by simp
    with nb fits new none show thesis
      using that(1,3) by (cases "cs_used st + int (length bs) > cs_quota st")
        (simp_all add: putBlock_def put_start_def put_finish_def)
  qed
qed

lemma putBlock_exact: "exact B st \<Longrightarrow> exact B (snd (putBlock B c bs st))"
  by (cases rule: putBlock_cases [where c = c and bs = bs and st = st])
    (simp_all add: exact_def used_put put_amount)

lemma putBlock_ok: "ok (cs_backend st) \<Longrightarrow> ok (cs_backend (snd (putBlock B c bs st)))"
  by (cases rule: putBlock_cases [where c = c and bs = bs and st = st]) (simp_all add: ok_put)

lemma putBlock_get:
  "be_get B c' (cs_backend st) = Some x \<Longrightarrow> be_get B c' (cs_backend (snd (putBlock B c bs st))) = Some x"
  by (cases rule: putBlock_cases [where c = c and bs = bs and st = st]) (auto simp: get_put)

lemma putBlock_config:
  "cs_quota (snd (putBlock B c bs st)) = cs_quota st" "cs_chunkSize (snd (putBlock B c bs st)) = cs_chunkSize st"
  by (cases rule: putBlock_cases [where c = c and bs = bs and st = st], simp_all)+

lemma putBlock_honest:
  "honest C B st \<Longrightarrow> cidOf C bs = c \<Longrightarrow> honest C B (snd (putBlock B c bs st))"
  by (cases rule: putBlock_cases [where c = c and bs = bs and st = st])
    (auto simp: honest_def get_put split: if_splits)

lemma put_all_Cons: "put_all B (c # cs) st = (let p = putBlock B (ch_cid c) (ch_bytes c) st in
    if sr_ok (fst p) then put_all B cs (snd p) else (Some (fst p), snd p))"
  by (simp add: Let_def case_prod_unfold)

lemma put_all_inv:
  assumes "\<And>st c. c \<in> set cs \<Longrightarrow> Q st \<Longrightarrow> Q (snd (putBlock B (ch_cid c) (ch_bytes c) st))" "Q st"
  shows "Q (snd (put_all B cs st))"
  using assms by (induction cs arbitrary: st) (simp_all add: put_all_Cons Let_def del: put_all.simps(2))

lemma put_all_exact: "exact B st \<Longrightarrow> exact B (snd (put_all B cs st))"
  by (rule put_all_inv) (rule putBlock_exact)

lemma put_all_ok: "ok (cs_backend st) \<Longrightarrow> ok (cs_backend (snd (put_all B cs st)))"
  by (rule put_all_inv [where Q = "\<lambda>st. ok (cs_backend st)"]) (rule putBlock_ok)

lemma put_all_honest:
  "honest C B st \<Longrightarrow> \<forall>c \<in> set cs. cidOf C (ch_bytes c) = ch_cid c \<Longrightarrow> honest C B (snd (put_all B cs st))"
  by (rule put_all_inv) (simp_all add: putBlock_honest)

text \<open>The pre-check counts at least what the writes will need.\<close>

lemma new_bytes_sum:
  "new_bytes B b cs = sum_list (map (\<lambda>c. if be_has B (ch_cid c) b then 0 else int (length (ch_bytes c))) cs)"
proof -
  have "foldl (\<lambda>need c. if be_has B (ch_cid c) b then need else need + int (length (ch_bytes c))) a cs
      = a + sum_list (map (\<lambda>c. if be_has B (ch_cid c) b then 0 else int (length (ch_bytes c))) cs)" for a
    by (induction cs arbitrary: a) auto
  then show ?thesis
    by (simp add: new_bytes_def)
qed

lemma new_bytes_Cons:
  "new_bytes B b (c # cs) = (if be_has B (ch_cid c) b then 0 else int (length (ch_bytes c))) + new_bytes B b cs"
  by (simp add: new_bytes_sum)

lemma new_bytes_nonneg: "0 \<le> new_bytes B b cs"
  by (auto simp: new_bytes_sum intro!: sum_list_nonneg)

lemma new_bytes_mono:
  "(\<And>c. be_has B c b \<Longrightarrow> be_has B c b') \<Longrightarrow> new_bytes B b' cs \<le> new_bytes B b cs"
  unfolding new_bytes_sum by (rule sum_list_mono) auto

lemma put_all_fits:
  assumes "cs_used st + new_bytes B (cs_backend st) cs \<le> cs_quota st"
    "\<forall>c \<in> set cs. int (length (ch_bytes c)) \<le> cs_chunkSize st"
  shows "fst (put_all B cs st) = None
    \<and> (\<forall>c x. be_get B c (cs_backend st) = Some x \<longrightarrow> be_get B c (cs_backend (snd (put_all B cs st))) = Some x)
    \<and> (\<forall>d \<in> set cs. be_has B (ch_cid d) (cs_backend (snd (put_all B cs st))))"
  using assms
proof (induction cs arbitrary: st)
  case (Cons e cs)
  let ?p = "putBlock B (ch_cid e) (ch_bytes e) st"
  have "sr_ok (fst ?p) \<and> cs_used (snd ?p) + new_bytes B (cs_backend (snd ?p)) cs \<le> cs_quota (snd ?p)
      \<and> be_has B (ch_cid e) (cs_backend (snd ?p))"
  proof (cases rule: putBlock_cases [where c = "ch_cid e" and bs = "ch_bytes e" and st = st])
    case (refused r)
    with Cons.prems new_bytes_nonneg [of "cs_backend st" cs] show ?thesis
      by (auto simp: new_bytes_Cons)
  next
    case dedup
    with Cons.prems show ?thesis
      by (simp add: new_bytes_Cons)
  next
    case written
    have "new_bytes B (snd (be_put B (ch_cid e) (ch_bytes e) (cs_backend st))) cs \<le> new_bytes B (cs_backend st) cs"
      by (rule new_bytes_mono) (rule has_put)
    with written Cons.prems show ?thesis
      by (simp add: new_bytes_Cons has_get get_put)
  qed
  moreover from this have rest: "put_all B (e # cs) st = put_all B cs (snd ?p)"
    by (simp add: put_all_Cons Let_def del: put_all.simps(2))
  moreover have "\<forall>c \<in> set cs. int (length (ch_bytes c)) \<le> cs_chunkSize (snd ?p)"
    using Cons.prems(2) by (simp add: putBlock_config)
  ultimately have ih: "fst (put_all B cs (snd ?p)) = None"
      "\<And>c x. be_get B c (cs_backend (snd ?p)) = Some x \<Longrightarrow>
        be_get B c (cs_backend (snd (put_all B cs (snd ?p)))) = Some x"
      "\<And>d. d \<in> set cs \<Longrightarrow> be_has B (ch_cid d) (cs_backend (snd (put_all B cs (snd ?p))))"
      "be_has B (ch_cid e) (cs_backend (snd ?p))"
    using Cons.IH [of "snd ?p"] by auto
  have "be_has B (ch_cid e) (cs_backend (snd (put_all B cs (snd ?p))))"
    using ih(2,4) by (fastforce simp: has_get)
  with ih putBlock_get [of _ st _ "ch_cid e" "ch_bytes e"] show ?case
    unfolding rest by auto
qed simp_all

text \<open>Storing is all or nothing.\<close>

lemma storeContent_outcome:
  assumes "storeContent C B bs st = Some (r, st')"
  obtains (refused) "\<not> sr_ok r" "st' = st"
  | (kept) m cs where "chunkContent C bs (cs_chunkSize st) = Some (m, cs)" "r = stored (Some m)"
      "st' = snd (put_all B cs st)" "\<forall>c \<in> set cs. be_has B (ch_cid c) (cs_backend st')"
proof -
  obtain m cs where c: "chunkContent C bs (cs_chunkSize st) = Some (m, cs)"
    using assms by (auto simp: storeContent_def split: option.splits)
  show thesis
  proof (cases "cs_used st + new_bytes B (cs_backend st) cs > cs_quota st")
    case True
    with assms c have "\<not> sr_ok r" "st' = st"
      by (auto simp: storeContent_def Let_def)
    then show thesis
      by (rule refused)
  next
    case False
    have "int (length (ch_bytes d)) \<le> cs_chunkSize st" if "d \<in> set cs" for d
      using c that chunk_loop_length [of "ch_bytes d" bs "nat (cs_chunkSize st)" 0]
      by (auto simp: chunkContent_Some Let_def)
    with put_all_fits [of st cs] False have "fst (put_all B cs st) = None"
        "\<forall>d \<in> set cs. be_has B (ch_cid d) (cs_backend (snd (put_all B cs st)))"
      by auto
    with assms c False show thesis
      using kept by (cases "put_all B cs st") (simp add: storeContent_def Let_def)
  qed
qed

lemma storeContent_exact:
  assumes "storeContent C B bs st = Some (r, st')" "exact B st"
  shows "exact B st'"
  using storeContent_outcome [OF assms(1)] assms(2) put_all_exact by metis

lemma chunk_cids: "chunkContent C bs csz = Some (m, cs) \<Longrightarrow> \<forall>c \<in> set cs. cidOf C (ch_bytes c) = ch_cid c"
  by (auto simp: chunkContent_Some Let_def)

lemma storeContent_honest:
  assumes "storeContent C B bs st = Some (r, st')" "honest C B st"
  shows "honest C B st'"
  using storeContent_outcome [OF assms(1)] assms(2) put_all_honest chunk_cids by metis

lemma fetch_all_Some:
  assumes "\<forall>r \<in> set rs. be_get B (cr_cid r) b \<noteq> None"
  shows "\<exists>h. fetch_all B b rs held = Some h
    \<and> (\<forall>c. mget h c = (if c \<in> cr_cid ` set rs then be_get B c b else mget held c))"
  using assms
proof (induction rs arbitrary: held)
  case (Cons r rs)
  then obtain x where x: "be_get B (cr_cid r) b = Some x"
    by auto
  from Cons.IH [of "mset_at (cr_cid r) x held"] Cons.prems obtain h where
    h: "fetch_all B b rs (mset_at (cr_cid r) x held) = Some h"
      "\<forall>c. mget h c = (if c \<in> cr_cid ` set rs then be_get B c b else mget (mset_at (cr_cid r) x held) c)"
    by auto
  with x show ?case
    by (intro exI [of _ h]) auto
qed simp

lemma stored_is_served:
  assumes "hex_codec C" "honest C B st" "storeContent C B bs st = Some (r, st')" "sr_ok r" "sr_manifest r = Some m"
    "inj_on (c_sha256 C) (held_blocks B st' \<union> set (chunk_loop bs (nat (cs_chunkSize st)) 0))"
  shows "getContent C B m st' = Some (Some bs)"
  using assms(3)
proof (cases rule: storeContent_outcome)
  case (kept m' cs)
  with assms(5) have m: "chunkContent C bs (cs_chunkSize st) = Some (m, cs)"
    by simp
  have served: "be_get B (ch_cid c) (cs_backend st') = Some (ch_bytes c)" if in_cs: "c \<in> set cs" for c
  proof -
    obtain x where x: "be_get B (ch_cid c) (cs_backend st') = Some x"
      using bspec [OF kept(4) in_cs] has_get [of "ch_cid c" "cs_backend st'"] by auto
    have "cidOf C x = cidOf C (ch_bytes c)"
      using storeContent_honest [OF assms(3,2)] x chunk_cids [OF m] in_cs by (simp add: honest_def)
    then have "c_sha256 C x = c_sha256 C (ch_bytes c)"
      by (simp add: cidOf_def hashHex_def hash_bytes_def toHex_inj [OF assms(1)])
    moreover have "x \<in> held_blocks B st'" "ch_bytes c \<in> set (chunk_loop bs (nat (cs_chunkSize st)) 0)"
      using x m in_cs by (auto simp: held_blocks_def chunkContent_Some Let_def)
    ultimately have "x = ch_bytes c"
      using assms(6) by (meson UnCI inj_onD)
    with x show ?thesis
      by simp
  qed
  have refs: "cr_cid ` set (m_chunks m) = ch_cid ` set cs"
    using m by (auto simp: chunkContent_Some Let_def image_image)
  have "\<forall>q \<in> set (m_chunks m). be_get B (cr_cid q) (cs_backend st') \<noteq> None"
  proof
    fix q
    assume "q \<in> set (m_chunks m)"
    then obtain c where "c \<in> set cs" "ch_cid c = cr_cid q"
      using refs by (metis imageE imageI)
    then show "be_get B (cr_cid q) (cs_backend st') \<noteq> None"
      using served by (metis option.distinct(1))
  qed
  from fetch_all_Some [OF this, of "[]"] obtain h where h: "fetch_all B (cs_backend st') (m_chunks m) [] = Some h"
      "\<forall>c \<in> set cs. mget h (ch_cid c) = Some (ch_bytes c)"
    using served refs by auto
  have "reassemble C m (mget h) = Some (Some bs)"
    by (rule reassemble_chunkContent [OF m h(2)])
  with h(1) show ?thesis
    by (simp add: getContent_def)
qed (use assms(4) in simp)

lemma delete_all_spec:
  assumes "ok b" "delete_all B cs b = (freed, b')"
  shows "ok b' \<and> 0 \<le> freed \<and> be_used B b' = be_used B b - freed
    \<and> (\<forall>c. be_get B c b' = (if c \<in> set cs then None else be_get B c b))"
  using assms
proof (induction cs arbitrary: b freed)
  case (Cons c cs)
  obtain n b1 where d: "be_delete B c b = (n, b1)"
    by fastforce
  obtain f where r: "delete_all B cs b1 = (f, b')" "freed = n + f"
    using Cons.prems(2) d by (auto split: prod.splits)
  have b1: "ok b1" "be_used B b1 = be_used B b - n" "0 \<le> n"
    using d ok_delete [OF Cons.prems(1), of c] used_delete [of c b] delete_amount [of c b]
    by (simp_all split: option.splits)
  have g1: "\<And>c'. be_get B c' b1 = (if c' = c then None else be_get B c' b)"
    using d get_delete [OF Cons.prems(1), of _ c] by simp
  from Cons.IH [OF b1(1) r(1)] b1 g1 r(2) show ?case
    by auto
qed simp

lemma release_exact:
  assumes "ok (cs_backend st)" "exact B st"
  shows "exact B (snd (release_blocks B cids st)) \<and>
    cs_used (snd (release_blocks B cids st)) = cs_used st - fst (release_blocks B cids st)"
proof (cases "delete_all B cids (cs_backend st)")
  case (Pair freed b')
  with delete_all_spec [OF assms(1) this] assms(2) show ?thesis
    by (simp add: release_blocks_def exact_def)
qed

end

section \<open>The memory backend\<close>

definition mem_ok :: "memory_backend \<Rightarrow> bool" where
  "mem_ok s \<longleftrightarrow> wf_map (mb_blocks s)"

interpretation memory_backend: block_backend MemoryBackend mem_ok
proof
  fix c c' :: hex and b :: memory_backend and bs :: bytes
  show "be_has MemoryBackend c b \<longleftrightarrow> be_get MemoryBackend c b \<noteq> None"
    by (simp add: MemoryBackend_def mhas_def)
  show "mem_ok b \<Longrightarrow> mem_ok (snd (be_put MemoryBackend c bs b))"
    by (simp add: MemoryBackend_def mem_ok_def mem_put_def)
  show "mem_ok b \<Longrightarrow> mem_ok (snd (be_delete MemoryBackend c b))"
    by (simp add: MemoryBackend_def mem_ok_def mem_delete_def split: option.split)
  show "be_get MemoryBackend c' (snd (be_put MemoryBackend c bs b))
      = (if c' = c \<and> be_get MemoryBackend c b = None then Some bs else be_get MemoryBackend c' b)"
    by (auto simp: MemoryBackend_def mem_put_def mhas_def)
  show "fst (be_put MemoryBackend c bs b) = (if be_get MemoryBackend c b = None then int (length bs) else 0)"
    by (simp add: MemoryBackend_def mem_put_def mhas_def)
  show "mem_ok b \<Longrightarrow> be_get MemoryBackend c' (snd (be_delete MemoryBackend c b))
      = (if c' = c then None else be_get MemoryBackend c' b)"
    by (auto simp: MemoryBackend_def mem_delete_def split: option.split)
  show "fst (be_delete MemoryBackend c b)
      = (case be_get MemoryBackend c b of None \<Rightarrow> 0 | Some bs \<Rightarrow> int (length bs))"
    by (simp add: MemoryBackend_def mem_delete_def split: option.split)
  show "be_used MemoryBackend (snd (be_put MemoryBackend c bs b))
      = be_used MemoryBackend b + fst (be_put MemoryBackend c bs b)"
    by (simp add: MemoryBackend_def mem_put_def)
  show "be_used MemoryBackend (snd (be_delete MemoryBackend c b))
      = be_used MemoryBackend b - fst (be_delete MemoryBackend c b)"
    by (simp add: MemoryBackend_def mem_delete_def split: option.split)
qed

section \<open>Sequences of operations\<close>

datatype store_op = PutBlock hex bytes | StoreContent bytes | Release "hex list" | Reopen

definition store_op_step :: "crypto \<Rightarrow> 's backend_ops \<Rightarrow> store_op \<Rightarrow> 's content_store \<Rightarrow> 's content_store" where
  "store_op_step C B x st = (case x of
     PutBlock c bs \<Rightarrow> snd (putBlock B c bs st)
   | StoreContent bs \<Rightarrow> (case storeContent C B bs st of None \<Rightarrow> st | Some p \<Rightarrow> snd p)
   | Release cids \<Rightarrow> snd (release_blocks B cids st)
   | Reopen \<Rightarrow> open_store B st)"

lemma memory_steps:
  assumes "mem_ok (cs_backend st)" "exact MemoryBackend st"
  shows "mem_ok (cs_backend (store_op_step C MemoryBackend x st))
    \<and> exact MemoryBackend (store_op_step C MemoryBackend x st)"
proof (cases x)
  case (PutBlock c bs)
  with assms memory_backend.putBlock_exact memory_backend.putBlock_ok show ?thesis
    by (simp add: store_op_step_def)
next
  case (StoreContent bs)
  show ?thesis
  proof (cases "storeContent C MemoryBackend bs st")
    case (Some p)
    then obtain r st' where p: "storeContent C MemoryBackend bs st = Some (r, st')"
      by (cases p) simp
    have "mem_ok (cs_backend st')"
      using p assms(1) memory_backend.put_all_ok
      by (cases rule: memory_backend.storeContent_outcome) simp_all
    with p StoreContent memory_backend.storeContent_exact [OF p assms(2)] show ?thesis
      by (simp add: store_op_step_def)
  qed (use assms StoreContent in \<open>simp add: store_op_step_def\<close>)
next
  case (Release cids)
  have "mem_ok (cs_backend (snd (release_blocks MemoryBackend cids st)))"
    using memory_backend.delete_all_spec [OF assms(1), of cids]
    by (cases "delete_all MemoryBackend cids (cs_backend st)") (simp add: release_blocks_def)
  with Release memory_backend.release_exact [OF assms] show ?thesis
    by (simp add: store_op_step_def)
next
  case Reopen
  with assms show ?thesis
    by (simp add: store_op_step_def open_store_def exact_def)
qed

lemma memory_runs:
  assumes "0 \<le> quota"
  shows "exact MemoryBackend (fold (store_op_step C MemoryBackend) ops (new_store quota csz new_memory))"
proof -
  have "mem_ok (cs_backend (fold (store_op_step C MemoryBackend) ops st))
      \<and> exact MemoryBackend (fold (store_op_step C MemoryBackend) ops st)"
    if "mem_ok (cs_backend st)" "exact MemoryBackend st" for st
    using that by (induction ops arbitrary: st) (auto simp: memory_steps)
  moreover have "mem_ok (cs_backend (new_store quota csz new_memory))"
      "exact MemoryBackend (new_store quota csz new_memory)"
    using assms by (simp_all add: new_store_def new_memory_def mem_ok_def exact_def MemoryBackend_def)
  ultimately show ?thesis
    by blast
qed

section \<open>Two writes at once\<close>

text \<open>Both writes begin before either finishes.\<close>

definition overlapped :: "'s backend_ops \<Rightarrow> hex \<times> bytes \<Rightarrow> hex \<times> bytes \<Rightarrow> 's content_store \<Rightarrow> 's content_store" where
  "overlapped B w1 w2 st =
     (let h1 = be_has B (fst w1) (cs_backend st); h2 = be_has B (fst w2) (cs_backend st);
          (p1, st1) = put_start B h1 (fst w1) (snd w1) st;
          (p2, st2) = put_start B h2 (fst w2) (snd w2) st1;
          st3 = (case p1 of Inl _ \<Rightarrow> st2 | Inr q \<Rightarrow> put_finish q st2)
      in (case p2 of Inl _ \<Rightarrow> st3 | Inr q \<Rightarrow> put_finish q st3))"

text \<open>The first count is lost, and the pair may exceed the quota that each was checked against.\<close>

lemma overlapped_loses_count:
  assumes "mget (mb_blocks (cs_backend st)) c1 = None" "mget (mb_blocks (cs_backend st)) c2 = None" "c1 \<noteq> c2"
    "int (length b1) \<le> cs_chunkSize st" "int (length b2) \<le> cs_chunkSize st"
    "cs_used st + int (length b1) \<le> cs_quota st" "cs_used st + int (length b2) \<le> cs_quota st"
    "exact MemoryBackend st"
  shows "cs_used (overlapped MemoryBackend (c1, b1) (c2, b2) st) = cs_used st + int (length b2)"
    and "be_used MemoryBackend (cs_backend (overlapped MemoryBackend (c1, b1) (c2, b2) st))
      = cs_used st + int (length b1) + int (length b2)"
  using assms
  by (simp_all add: overlapped_def put_start_def put_finish_def MemoryBackend_def mem_put_def mhas_def exact_def)

text \<open>A chunk that repeats within one file is counted once per occurrence by the pre-check.\<close>

lemma repeated_chunk_counted:
  assumes "be_has B (ch_cid c) b = False"
  shows "new_bytes B b (replicate n c) = int n * int (length (ch_bytes c))"
proof -
  have "foldl (\<lambda>need c. if be_has B (ch_cid c) b then need else need + int (length (ch_bytes c))) a (replicate n c)
      = a + int n * int (length (ch_bytes c))" for a
    using assms by (induction n arbitrary: a) (auto simp: algebra_simps)
  then show ?thesis
    by (simp add: new_bytes_def)
qed

end
