(* ===== verification/Replication.thy ===== *)
theory Replication
  imports Chunking
begin

text \<open>
  Who holds what, and when it may be forgotten: \<open>ReplicationManager\<close> of
  \<open>src/engine/content/replication.ts\<close>. Repair reaches the target whenever the candidates allow
  it and never lists a provider twice; collection takes exactly what is unpinned and expired.
\<close>

record replication =
  rp_providers :: "(hex, hex list) jsmap"
  rp_pins :: "(hex, int) jsmap"
  rp_ttl :: "(hex, int) jsmap"
  redundancy :: int

definition new_replication :: "int \<Rightarrow> replication" where
  "new_replication r = \<lparr>rp_providers = [], rp_pins = [], rp_ttl = [], redundancy = r\<rparr>"

definition providersFor :: "hex \<Rightarrow> replication \<Rightarrow> hex list" where
  "providersFor cid s = nvl (mget (rp_providers s) cid) []"

definition announce :: "hex \<Rightarrow> hex \<Rightarrow> replication \<Rightarrow> replication" where
  "announce cid p s = s\<lparr>rp_providers := mset_at cid (sadd p (providersFor cid s)) (rp_providers s)\<rparr>"

definition replicationOf :: "hex \<Rightarrow> replication \<Rightarrow> int" where
  "replicationOf cid s = int (length (providersFor cid s))"

definition underReplicated :: "hex \<Rightarrow> replication \<Rightarrow> bool" where
  "underReplicated cid s = (replicationOf cid s < redundancy s)"

definition removeProvider :: "hex \<Rightarrow> replication \<Rightarrow> hex list \<times> replication" where
  "removeProvider p s =
     (map fst (filter (\<lambda>(cid, ps). p \<in> set ps \<and> int (length (sdel p ps)) < redundancy s) (rp_providers s)),
      s\<lparr>rp_providers := map (\<lambda>(cid, ps). (cid, sdel p ps)) (rp_providers s)\<rparr>)"

fun repair_loop :: "int \<Rightarrow> hex list \<Rightarrow> hex list \<Rightarrow> hex list \<Rightarrow> hex list \<times> hex list" where
  "repair_loop target [] ps added = (ps, added)"
| "repair_loop target (c # cs) ps added =
     (if int (length ps) \<ge> target then (ps, added)
      else if c \<notin> set ps then repair_loop target cs (ps @ [c]) (added @ [c])
      else repair_loop target cs ps added)"

definition repair :: "hex \<Rightarrow> hex list \<Rightarrow> replication \<Rightarrow> hex list \<times> replication" where
  "repair cid candidates s = (case repair_loop (redundancy s) candidates (providersFor cid s) [] of
     (ps, added) \<Rightarrow> (added, s\<lparr>rp_providers := mset_at cid ps (rp_providers s)\<rparr>))"

definition pin :: "hex \<Rightarrow> int option \<Rightarrow> replication \<Rightarrow> replication" where
  "pin cid deadline s =
     s\<lparr>rp_pins := mset_at cid (nvl (mget (rp_pins s) cid) 0 + 1) (rp_pins s),
       rp_ttl := (case deadline of None \<Rightarrow> rp_ttl s | Some t \<Rightarrow> mset_at cid t (rp_ttl s))\<rparr>"

definition unpin :: "hex \<Rightarrow> replication \<Rightarrow> replication" where
  "unpin cid s = (let n = nvl (mget (rp_pins s) cid) 0 - 1 in
     s\<lparr>rp_pins := (if n \<le> 0 then mdel cid (rp_pins s) else mset_at cid n (rp_pins s))\<rparr>)"

definition pinCount :: "hex \<Rightarrow> replication \<Rightarrow> int" where
  "pinCount cid s = nvl (mget (rp_pins s) cid) 0"

definition collectable :: "int \<Rightarrow> replication \<Rightarrow> hex \<Rightarrow> bool" where
  "collectable now s cid = (\<not> pinCount cid s > 0
     \<and> (case mget (rp_ttl s) cid of None \<Rightarrow> False | Some d \<Rightarrow> d \<le> now))"

definition forget_content :: "hex \<Rightarrow> replication \<Rightarrow> replication" where
  "forget_content cid s = s\<lparr>rp_providers := mdel cid (rp_providers s), rp_pins := mdel cid (rp_pins s),
     rp_ttl := mdel cid (rp_ttl s)\<rparr>"

definition collectGarbage :: "int \<Rightarrow> replication \<Rightarrow> hex list \<times> replication" where
  "collectGarbage now s = (let gone = filter (collectable now s) (mkeys (rp_providers s)) in
     (gone, fold forget_content gone s))"

section \<open>The invariant\<close>

definition repl_inv :: "replication \<Rightarrow> bool" where
  "repl_inv s \<longleftrightarrow> wf_map (rp_providers s) \<and> (\<forall>cid. distinct (providersFor cid s))
     \<and> (\<forall>cid n. mget (rp_pins s) cid = Some n \<longrightarrow> 0 < n)"

lemma mget_map_val: "mget (map (\<lambda>(k, v). (k, f v)) m) k = map_option f (mget m k)"
  by (induction m) auto

lemma providers_of [simp]:
  "providersFor c (s\<lparr>rp_providers := mset_at cid ps m\<rparr>) = (if c = cid then ps else nvl (mget m c) [])"
  "providersFor c (s\<lparr>rp_providers := map (\<lambda>(k, v). (k, sdel p v)) m\<rparr>) = sdel p (nvl (mget m c) [])"
  by (auto simp: providersFor_def mget_map_val sdel_def split: option.split) (cases "mget m c"; simp)+

lemma repair_loop_spec:
  assumes "repair_loop t cs ps added = (ps', added')" "distinct ps"
  shows "\<exists>new. ps' = ps @ new \<and> added' = added @ new \<and> distinct ps' \<and> set new \<subseteq> set cs
    \<and> (int (length ps) \<le> t \<longrightarrow> int (length ps') \<le> t) \<and> (t \<le> int (length ps) \<longrightarrow> new = [])
    \<and> (t \<le> int (length ps') \<or> set cs \<subseteq> set ps')"
  using assms
proof (induction cs arbitrary: ps added)
  case (Cons c cs)
  show ?case
  proof (cases "int (length ps) \<ge> t")
    case True
    with Cons.prems show ?thesis
      by simp
  next
    case below: False
    show ?thesis
    proof (cases "c \<in> set ps")
      case True
      with Cons.prems below have "repair_loop t cs ps added = (ps', added')"
        by simp
      from Cons.IH [OF this Cons.prems(2)] True below show ?thesis
        by auto
    next
      case False
      with Cons.prems below have "repair_loop t cs (ps @ [c]) (added @ [c]) = (ps', added')"
        by simp
      moreover have "distinct (ps @ [c])"
        using Cons.prems(2) False by simp
      ultimately obtain new where "ps' = (ps @ [c]) @ new" "added' = (added @ [c]) @ new" "distinct ps'"
          "set new \<subseteq> set cs" "int (length (ps @ [c])) \<le> t \<longrightarrow> int (length ps') \<le> t"
          "t \<le> int (length ps') \<or> set cs \<subseteq> set ps'"
        using Cons.IH [of "ps @ [c]" "added @ [c]"] by blast
      with below show ?thesis
        by (intro exI [of _ "c # new"]) auto
    qed
  qed
qed auto

text \<open>
  Repair adds candidates that were not yet providers, never beyond the target, and stops short of
  it only when the candidates ran out.
\<close>

lemma repair_reaches:
  assumes "repl_inv s" "repair cid cs s = (added, s')"
  shows "providersFor cid s' = providersFor cid s @ added \<and> distinct (providersFor cid s')
    \<and> set added \<subseteq> set cs \<and> (replicationOf cid s \<le> redundancy s \<longrightarrow> replicationOf cid s' \<le> redundancy s)
    \<and> (underReplicated cid s' \<longrightarrow> set cs \<subseteq> set (providersFor cid s'))"
proof -
  obtain ps' where l: "repair_loop (redundancy s) cs (providersFor cid s) [] = (ps', added)"
    and s': "s' = s\<lparr>rp_providers := mset_at cid ps' (rp_providers s)\<rparr>"
    using assms(2) by (auto simp: repair_def split: prod.splits)
  have d: "distinct (providersFor cid s)"
    using assms(1) by (simp add: repl_inv_def)
  from repair_loop_spec [OF l d] show ?thesis
    by (auto simp: s' replicationOf_def underReplicated_def not_less [symmetric])
qed

lemma removed_nowhere: "p \<notin> set (providersFor cid (snd (removeProvider p s)))"
  by (simp add: removeProvider_def)

lemma removal_reports:
  assumes "wf_map (rp_providers s)"
  shows "cid \<in> set (fst (removeProvider p s)) \<longleftrightarrow>
    p \<in> set (providersFor cid s) \<and> underReplicated cid (snd (removeProvider p s))"
proof -
  have "cid \<in> set (fst (removeProvider p s)) \<longleftrightarrow>
      (\<exists>ps. (cid, ps) \<in> set (rp_providers s) \<and> p \<in> set ps \<and> int (length (sdel p ps)) < redundancy s)"
    by (force simp: removeProvider_def)
  also have "\<dots> \<longleftrightarrow> (\<exists>ps. mget (rp_providers s) cid = Some ps \<and> p \<in> set ps
      \<and> int (length (sdel p ps)) < redundancy s)"
    by (simp add: mget_in [OF assms])
  finally show ?thesis
    by (cases "mget (rp_providers s) cid")
      (simp_all add: underReplicated_def replicationOf_def removeProvider_def, simp_all add: providersFor_def)
qed

lemma forget_content_get:
  "mget (rp_providers (fold forget_content gone s)) c = (if c \<in> set gone then None else mget (rp_providers s) c)"
  "mget (rp_pins (fold forget_content gone s)) c = (if c \<in> set gone then None else mget (rp_pins s) c)"
  "mget (rp_ttl (fold forget_content gone s)) c = (if c \<in> set gone then None else mget (rp_ttl s) c)"
  by (induction gone arbitrary: s) (auto simp: forget_content_def)

text \<open>Collection removes exactly the unpinned content whose deadline has passed.\<close>

lemma collect_exact:
  "set (fst (collectGarbage now s)) = {c. mhas (rp_providers s) c \<and> collectable now s c}"
  by (auto simp: collectGarbage_def Let_def mhas_iff)

lemma collect_spares:
  assumes "\<not> collectable now s c"
  shows "providersFor c (snd (collectGarbage now s)) = providersFor c s
    \<and> pinCount c (snd (collectGarbage now s)) = pinCount c s"
  using assms by (simp add: collectGarbage_def Let_def providersFor_def pinCount_def forget_content_get)

lemma pinned_survives: "0 < pinCount c s \<Longrightarrow> providersFor c (snd (collectGarbage now s)) = providersFor c s"
  using collect_spares by (simp add: collectable_def)

lemma pin_unpin: "repl_inv s \<Longrightarrow> pinCount c (unpin c (pin c d s)) = pinCount c s"
proof (cases "mget (rp_pins s) c")
  case (Some n)
  moreover assume "repl_inv s"
  ultimately have "0 < n"
    by (simp add: repl_inv_def)
  with Some show ?thesis
    by (simp add: pinCount_def pin_def unpin_def Let_def)
qed (simp add: pinCount_def pin_def unpin_def Let_def)

text \<open>Every operation keeps the invariant.\<close>

datatype repl_op = Announce hex hex | Remove hex | Repair hex "hex list" | Pin hex "int option" | Unpin hex
  | Collect int

definition repl_step :: "repl_op \<Rightarrow> replication \<Rightarrow> replication" where
  "repl_step x s = (case x of Announce c p \<Rightarrow> announce c p s | Remove p \<Rightarrow> snd (removeProvider p s)
     | Repair c cs \<Rightarrow> snd (repair c cs s) | Pin c d \<Rightarrow> pin c d s | Unpin c \<Rightarrow> unpin c s
     | Collect t \<Rightarrow> snd (collectGarbage t s))"

lemma providersFor_pins [simp]:
  "providersFor c (s\<lparr>rp_pins := q\<rparr>) = providersFor c s" "providersFor c (s\<lparr>rp_ttl := t\<rparr>) = providersFor c s"
  by (simp_all add: providersFor_def)

lemma repl_inv_step:
  assumes "repl_inv s"
  shows "repl_inv (repl_step x s)"
proof (cases x)
  case (Announce c p)
  with assms show ?thesis
    by (auto simp: repl_step_def announce_def repl_inv_def) (auto simp: providersFor_def)
next
  case (Remove p)
  have "wf_map (map (\<lambda>(k, v). (k, sdel p v)) m) = wf_map m" for m :: "(hex, hex list) jsmap"
    by (simp add: wf_map_def comp_def case_prod_unfold)
  with Remove assms show ?thesis
    by (auto simp: repl_step_def removeProvider_def repl_inv_def providersFor_def [symmetric])
next
  case (Repair c cs)
  obtain added s' where r: "repair c cs s = (added, s')"
    by fastforce
  then obtain ps' where s': "s' = s\<lparr>rp_providers := mset_at c ps' (rp_providers s)\<rparr>"
    by (auto simp: repair_def split: prod.splits)
  with repair_reaches [OF assms r] assms Repair r show ?thesis
    by (auto simp: repl_step_def repl_inv_def providersFor_def [symmetric])
next
  case (Pin c d)
  from assms have "0 \<le> nvl (mget (rp_pins s) c) 0"
    by (cases "mget (rp_pins s) c") (simp_all add: repl_inv_def less_imp_le)
  with Pin assms show ?thesis
    by (simp add: repl_step_def pin_def repl_inv_def)
next
  case (Unpin c)
  with assms show ?thesis
    by (auto simp: repl_step_def unpin_def repl_inv_def Let_def)
next
  case (Collect t)
  have wf: "wf_map (rp_providers (fold forget_content gone s))" if "wf_map (rp_providers s)" for gone s
    using that by (induction gone arbitrary: s) (auto simp: forget_content_def)
  show ?thesis
    using assms wf unfolding repl_inv_def Collect repl_step_def collectGarbage_def Let_def
    by (auto simp: providersFor_def forget_content_get split: if_splits)
qed

lemma repl_inv_runs: "repl_inv (fold repl_step ops (new_replication r))"
proof -
  have "repl_inv (fold repl_step ops s)" if "repl_inv s" for s
    using that by (induction ops arbitrary: s) (auto simp: repl_inv_step)
  moreover have "repl_inv (new_replication r)"
    by (simp add: new_replication_def repl_inv_def providersFor_def)
  ultimately show ?thesis
    by blast
qed

end
