(* ===== verification/Net_Limits.thy ===== *)
theory Net_Limits
  imports Neuron_Prelude
begin

text \<open>
  Two limiters whose bookkeeping a stranger can grow: \<open>BackfillLimiter\<close> of
  \<open>src/engine/net/archive-backfill.ts\<close>, and the fixed windows per address of
  \<open>src/engine/net/window-limiter.ts\<close> with the checks \<open>relay/server.ts\<close> makes on them.
  Over every sequence of calls the backfill limiter keeps its slots and its rolling-minute
  ceiling, and sweeping the windows never changes an answer.
\<close>

section \<open>Backfill\<close>

datatype backfill_reason = FirstMiss | CooldownElapsed | AlreadyInFlight | CoolingDown
  | TooManyInFlight | RateCeiling | GivingUp

record backfill_decision =
  bd_ask :: bool
  bd_reason :: backfill_reason

abbreviation ask_peers :: "backfill_reason \<Rightarrow> backfill_decision" where
  "ask_peers r \<equiv> \<lparr>bd_ask = True, bd_reason = r\<rparr>"

abbreviation dont_ask :: "backfill_reason \<Rightarrow> backfill_decision" where
  "dont_ask r \<equiv> \<lparr>bd_ask = False, bd_reason = r\<rparr>"

record backfill_policy =
  cooldownMs :: int
  maxInFlight :: int
  inFlightTtlMs :: int
  maxPerMinute :: int
  maxAttempts :: int
  forgetAfterMs :: int

definition DEFAULT_BACKFILL_POLICY :: backfill_policy where
  "DEFAULT_BACKFILL_POLICY = \<lparr>cooldownMs = 60000, maxInFlight = 8, inFlightTtlMs = 15000,
     maxPerMinute = 60, maxAttempts = 3, forgetAfterMs = 3600000\<rparr>"

record key_state =
  lastAskedAt :: int
  attempts :: int
  inFlightSince :: "int option"

record backfill =
  bf_keys :: "(string, key_state) jsmap"
  bf_recent :: "int list"

definition new_backfill :: backfill where
  "new_backfill = \<lparr>bf_keys = [], bf_recent = []\<rparr>"

definition reclaim :: "backfill_policy \<Rightarrow> int \<Rightarrow> key_state \<Rightarrow> key_state" where
  "reclaim P now st = (case inFlightSince st of
     Some t \<Rightarrow> if now - t \<ge> inFlightTtlMs P then st\<lparr>inFlightSince := None\<rparr> else st
   | None \<Rightarrow> st)"

definition forgotten :: "backfill_policy \<Rightarrow> int \<Rightarrow> key_state \<Rightarrow> bool" where
  "forgotten P now st = (inFlightSince st = None \<and> now - lastAskedAt st \<ge> forgetAfterMs P)"

definition bf_expire :: "backfill_policy \<Rightarrow> int \<Rightarrow> backfill \<Rightarrow> backfill" where
  "bf_expire P now s = (let cutoff = now - 60000 in
     \<lparr>bf_keys = filter (\<lambda>(k, st). \<not> forgotten P now st) (map (\<lambda>(k, st). (k, reclaim P now st)) (bf_keys s)),
      bf_recent = (case bf_recent s of [] \<Rightarrow> []
        | t # _ \<Rightarrow> if t \<le> cutoff then filter (\<lambda>t. t > cutoff) (bf_recent s) else bf_recent s)\<rparr>)"

definition backoffFor :: "backfill_policy \<Rightarrow> int \<Rightarrow> int" where
  "backoffFor P n = cooldownMs P * 2 ^ nat (max 0 (n - 1))"

definition inFlightCount :: "backfill \<Rightarrow> int" where
  "inFlightCount s = foldl (\<lambda>n st. if inFlightSince st \<noteq> None then n + 1 else n) 0 (mvals (bf_keys s))"

definition bf_request :: "backfill_policy \<Rightarrow> string \<Rightarrow> int \<Rightarrow> backfill \<Rightarrow> backfill_decision \<times> backfill" where
  "bf_request P key now s0 = (let s = bf_expire P now s0; st = mget (bf_keys s) key in
     if (case st of None \<Rightarrow> False | Some k \<Rightarrow> inFlightSince k \<noteq> None) then (dont_ask AlreadyInFlight, s)
     else if (case st of None \<Rightarrow> False | Some k \<Rightarrow> attempts k \<ge> maxAttempts P) then (dont_ask GivingUp, s)
     else if (case st of None \<Rightarrow> False | Some k \<Rightarrow> now - lastAskedAt k < backoffFor P (attempts k))
       then (dont_ask CoolingDown, s)
     else if inFlightCount s \<ge> maxInFlight P then (dont_ask TooManyInFlight, s)
     else if int (length (bf_recent s)) \<ge> maxPerMinute P then (dont_ask RateCeiling, s)
     else (ask_peers (if st = None then FirstMiss else CooldownElapsed),
       \<lparr>bf_keys = mset_at key \<lparr>lastAskedAt = now, attempts = nvl (map_option attempts st) 0 + 1,
          inFlightSince = Some now\<rparr> (bf_keys s),
        bf_recent = bf_recent s @ [now]\<rparr>))"

definition bf_settle :: "string \<Rightarrow> backfill \<Rightarrow> backfill" where
  "bf_settle key s = (case mget (bf_keys s) key of
     None \<Rightarrow> s
   | Some _ \<Rightarrow> s\<lparr>bf_keys := mdel key (bf_keys s)\<rparr>)"

definition bf_stats :: "backfill_policy \<Rightarrow> int \<Rightarrow> backfill \<Rightarrow> (int \<times> int \<times> int) \<times> backfill" where
  "bf_stats P now s0 = (let s = bf_expire P now s0 in
     ((int (length (bf_keys s)), inFlightCount s, int (length (bf_recent s))), s))"

definition bf_clear :: "backfill \<Rightarrow> backfill" where
  "bf_clear s = s\<lparr>bf_keys := [], bf_recent := []\<rparr>"

section \<open>Sequences of calls\<close>

datatype backfill_op = Request string int | Settle string | Stats int

fun op_time :: "backfill_op \<Rightarrow> int option" where
  "op_time (Request _ t) = Some t"
| "op_time (Settle _) = None"
| "op_time (Stats t) = Some t"

text \<open>The state after the calls, and the times at which peers were asked.\<close>

fun bf_step :: "backfill_policy \<Rightarrow> backfill_op \<Rightarrow> backfill \<times> int list \<Rightarrow> backfill \<times> int list" where
  "bf_step P (Request k t) (s, G) = (case bf_request P k t s of (d, s') \<Rightarrow> (s', if bd_ask d then G @ [t] else G))"
| "bf_step P (Settle k) (s, G) = (bf_settle k s, G)"
| "bf_step P (Stats t) (s, G) = (snd (bf_stats P t s), G)"

definition bf_run :: "backfill_policy \<Rightarrow> backfill_op list \<Rightarrow> backfill \<times> int list" where
  "bf_run P ops = fold (bf_step P) ops (new_backfill, [])"

text \<open>The clock does not run backwards over the calls that read it.\<close>

definition clocked :: "backfill_op list \<Rightarrow> bool" where
  "clocked ops = sorted (List.map_filter op_time ops)"

section \<open>The slots\<close>

abbreviation flying :: "key_state \<Rightarrow> bool" where
  "flying st \<equiv> inFlightSince st \<noteq> None"

lemma count_fold:
  "foldl (\<lambda>n st. if Q st then n + 1 else n) (a :: int) xs = a + int (length (filter Q xs))"
  by (induction xs arbitrary: a) auto

lemma inFlightCount_eq: "inFlightCount s = int (length (filter (\<lambda>e. flying (snd e)) (bf_keys s)))"
  by (simp add: inFlightCount_def count_fold mvals_def filter_map comp_def)

lemma reclaim_flying: "flying (reclaim P now st) \<Longrightarrow> flying st"
  by (auto simp: reclaim_def split: option.splits if_splits)

lemma reclaim_shape: "lastAskedAt (reclaim P now st) = lastAskedAt st" "attempts (reclaim P now st) = attempts st"
  by (auto simp: reclaim_def split: option.splits)

lemma flying_expire_le:
  "length (filter (\<lambda>e. flying (snd e)) (filter Q (map (\<lambda>(k, st). (k, reclaim P now st)) xs)))
     \<le> length (filter (\<lambda>e. flying (snd e)) xs)"
proof (induction xs)
  case (Cons x xs)
  then show ?case
    using reclaim_flying [of P now "snd x"] by (cases x) auto
qed simp

lemma inFlightCount_expire: "inFlightCount (bf_expire P now s) \<le> inFlightCount s"
  using flying_expire_le by (simp add: inFlightCount_eq bf_expire_def Let_def)

lemma delete_flying_le: "length (filter Q (mdel k m)) \<le> length (filter Q m)"
  by (induction m) (auto simp: mdel_def)

lemma inFlightCount_settle: "inFlightCount (bf_settle k s) \<le> inFlightCount s"
  using delete_flying_le by (auto simp: inFlightCount_eq bf_settle_def split: option.splits)

lemma update_flying_le: "length (filter Q (mset_at k v m)) \<le> Suc (length (filter Q m))"
  by (induction m) (auto simp: mset_at_def)

lemma if_intro: "(c \<Longrightarrow> R x) \<Longrightarrow> (\<not> c \<Longrightarrow> R y) \<Longrightarrow> R (if c then x else y)"
  by simp

lemma bf_request_or:
  fixes P :: backfill_policy and k t s
  defines "e \<equiv> bf_expire P t s"
  defines "refusal \<equiv> \<lambda>X. \<exists>r. X = (dont_ask r, e)"
  defines "grant \<equiv> \<lambda>X. \<exists>r v. X = (ask_peers r,
        \<lparr>bf_keys = mset_at k v (bf_keys e), bf_recent = bf_recent e @ [t]\<rparr>)
      \<and> inFlightSince v = Some t \<and> lastAskedAt v = t
      \<and> inFlightCount e < maxInFlight P \<and> int (length (bf_recent e)) < maxPerMinute P"
  shows "refusal (bf_request P k t s) \<or> grant (bf_request P k t s)"
proof -
  have no: "refusal (dont_ask r, e) \<or> grant (dont_ask r, e)" for r
    by (simp add: refusal_def)
  show ?thesis
    unfolding bf_request_def Let_def e_def [symmetric]
    by (rule if_intro [where R = "\<lambda>X. refusal X \<or> grant X"], rule no)+
      (auto simp: grant_def not_le)
qed

lemma bf_request_cases:
  fixes P :: backfill_policy
  obtains (refused) r where "bf_request P k t s = (dont_ask r, bf_expire P t s)"
  | (granted) r v where "bf_request P k t s = (ask_peers r,
        \<lparr>bf_keys = mset_at k v (bf_keys (bf_expire P t s)), bf_recent = bf_recent (bf_expire P t s) @ [t]\<rparr>)"
      "inFlightSince v = Some t" "lastAskedAt v = t"
      "inFlightCount (bf_expire P t s) < maxInFlight P"
      "int (length (bf_recent (bf_expire P t s))) < maxPerMinute P"
  using bf_request_or [of P k t s] by blast

lemma inFlightCount_request:
  assumes "inFlightCount s \<le> maxInFlight P"
  shows "inFlightCount (snd (bf_request P k t s)) \<le> maxInFlight P"
proof (cases rule: bf_request_cases [where P = P and k = k and t = t and s = s])
  case (refused r)
  then show ?thesis
    using assms inFlightCount_expire [of P t s] by simp
next
  case (granted r v)
  let ?e = "bf_expire P t s"
  have "length (filter (\<lambda>e. flying (snd e)) (mset_at k v (bf_keys ?e)))
      \<le> Suc (length (filter (\<lambda>e. flying (snd e)) (bf_keys ?e)))"
    by (rule update_flying_le)
  with granted show ?thesis
    by (simp add: inFlightCount_eq)
qed

lemma bf_run_snoc: "bf_run P (ops @ [x]) = bf_step P x (bf_run P ops)"
  by (simp add: bf_run_def)

lemma in_flight_bound:
  assumes "0 \<le> maxInFlight P"
  shows "inFlightCount (fst (bf_run P ops)) \<le> maxInFlight P"
proof (induction ops rule: rev_induct)
  case Nil
  then show ?case
    using assms by (simp add: bf_run_def new_backfill_def inFlightCount_def mvals_def)
next
  case (snoc x ops)
  obtain s G where s: "bf_run P ops = (s, G)"
    by fastforce
  with snoc have le: "inFlightCount s \<le> maxInFlight P"
    by simp
  show ?case
  proof (cases x)
    case (Request k t)
    with inFlightCount_request [OF le, of k t] s show ?thesis
      by (cases "bf_request P k t s") (simp add: bf_run_snoc)
  next
    case (Settle k)
    with inFlightCount_settle [of k s] le s show ?thesis
      by (simp add: bf_run_snoc)
  next
    case (Stats t)
    with inFlightCount_expire [of P t s] le s show ?thesis
      by (simp add: bf_run_snoc bf_stats_def Let_def)
  qed
qed

section \<open>The rolling minute\<close>

definition asked_in_minute :: "int \<Rightarrow> int list \<Rightarrow> nat" where
  "asked_in_minute t G = length (filter (\<lambda>g. t - 60000 < g \<and> g \<le> t) G)"

definition rate_inv :: "backfill_policy \<Rightarrow> int \<Rightarrow> backfill \<times> int list \<Rightarrow> bool" where
  "rate_inv P now sG = (case sG of (s, G) \<Rightarrow>
     sorted G \<and> (\<forall>g \<in> set G. g \<le> now)
     \<and> (\<exists>c \<le> now - 60000. bf_recent s = filter (\<lambda>t. t > c) G)
     \<and> (\<forall>t. int (asked_in_minute t G) \<le> maxPerMinute P))"

lemma rate_inv_mono:
  assumes "rate_inv P t sG" "t \<le> u"
  shows "rate_inv P u sG"
proof (cases sG)
  case (Pair s G)
  with assms obtain c where "c \<le> t - 60000" "bf_recent s = filter (\<lambda>t. t > c) G"
    by (auto simp: rate_inv_def)
  with assms(2) have "\<exists>c \<le> u - 60000. bf_recent s = filter (\<lambda>t. t > c) G"
    by (intro exI [of _ c]) simp
  with assms Pair show ?thesis
    by (auto simp: rate_inv_def)
qed

lemma sorted_filter_head:
  "sorted G \<Longrightarrow> filter Q G = g # gs \<Longrightarrow> x \<in> set (g # gs) \<Longrightarrow> (g :: int) \<le> x"
  using sorted_wrt_filter [of "(\<le>)" G Q] by auto

lemma expire_recent:
  assumes "rate_inv P now (s, G)"
  shows "bf_recent (bf_expire P now s) = filter (\<lambda>t. t > now - 60000) G"
proof -
  from assms obtain c where G: "sorted G" and c: "c \<le> now - 60000" "bf_recent s = filter (\<lambda>t. t > c) G"
    by (auto simp: rate_inv_def)
  have narrow: "filter (\<lambda>t. t > now - 60000) G = filter (\<lambda>t. t > now - 60000) (filter (\<lambda>t. t > c) G)"
    using c(1) by (auto intro!: filter_cong)
  show ?thesis
  proof (cases "filter (\<lambda>t. t > c) G")
    case Nil
    with c narrow show ?thesis
      by (simp add: bf_expire_def Let_def)
  next
    case (Cons g gs)
    show ?thesis
    proof (cases "g \<le> now - 60000")
      case True
      with c narrow Cons show ?thesis
        by (simp add: bf_expire_def Let_def)
    next
      case False
      have all: "\<forall>x \<in> set (g # gs). x > now - 60000"
        using sorted_filter_head [OF G Cons] False by force
      then have "filter (\<lambda>t. t > now - 60000) (g # gs) = g # gs"
        by (intro filter_True) blast
      with False c Cons narrow show ?thesis
        by (simp add: bf_expire_def Let_def)
    qed
  qed
qed

lemma minute_recent:
  assumes "\<forall>g \<in> set G. g \<le> now"
  shows "asked_in_minute now G = length (filter (\<lambda>t. t > now - 60000) G)"
  unfolding asked_in_minute_def using assms by (intro arg_cong [where f = length] filter_cong) auto

lemma length_filter_imp:
  "\<forall>x \<in> set xs. P x \<longrightarrow> Q x \<Longrightarrow> length (filter P xs) \<le> length (filter Q xs)"
  by (induction xs) auto

lemma minute_snoc:
  assumes "\<forall>g \<in> set G. g \<le> now" "\<forall>t. int (asked_in_minute t G) \<le> m" "int (asked_in_minute now G) < m"
  shows "int (asked_in_minute t (G @ [now])) \<le> m"
proof (cases "t - 60000 < now \<and> now \<le> t")
  case True
  have "length (filter (\<lambda>g. t - 60000 < g \<and> g \<le> t) G) \<le> length (filter (\<lambda>g. now - 60000 < g \<and> g \<le> now) G)"
    using True assms(1) by (intro length_filter_imp) auto
  with True assms(3) show ?thesis
    by (simp add: asked_in_minute_def)
next
  case False
  then have "asked_in_minute t (G @ [now]) = asked_in_minute t G"
    by (auto simp: asked_in_minute_def)
  with assms(2) show ?thesis
    by simp
qed

lemma rate_inv_expire:
  assumes "rate_inv P now (s, G)"
  shows "rate_inv P now (bf_expire P now s, G)"
  using assms expire_recent [OF assms] by (auto simp: rate_inv_def intro!: exI [of _ "now - 60000"])

lemma rate_inv_request:
  assumes "rate_inv P t (s, G)"
  shows "rate_inv P t (bf_step P (Request k t) (s, G))"
proof (cases rule: bf_request_cases [where P = P and k = k and t = t and s = s])
  case (refused r)
  with rate_inv_expire [OF assms] show ?thesis
    by simp
next
  case (granted r v)
  note rec = expire_recent [OF assms]
  from assms have old: "sorted G" "\<forall>g \<in> set G. g \<le> t" "\<forall>u. int (asked_in_minute u G) \<le> maxPerMinute P"
    by (simp_all add: rate_inv_def)
  have "int (asked_in_minute t G) < maxPerMinute P"
    using granted(5) rec minute_recent [OF old(2)] by simp
  then have "int (asked_in_minute u (G @ [t])) \<le> maxPerMinute P" for u
    by (rule minute_snoc [OF old(2,3)])
  moreover have "bf_recent (bf_expire P t s) @ [t] = filter (\<lambda>x. x > t - 60000) (G @ [t])"
    by (simp add: rec)
  ultimately show ?thesis
    using granted(1) old by (auto simp: rate_inv_def sorted_append intro!: exI [of _ "t - 60000"])
qed

lemma clocked_snoc:
  "clocked (ops @ [x]) \<longleftrightarrow> clocked ops \<and>
     (\<forall>t. op_time x = Some t \<longrightarrow> (\<forall>u \<in> set (List.map_filter op_time ops). u \<le> t))"
  by (cases "op_time x") (auto simp: clocked_def map_filter_def sorted_append)

lemma rate_inv_run:
  assumes "0 \<le> maxPerMinute P" "clocked ops" "\<forall>t \<in> set (List.map_filter op_time ops). t \<le> now"
  shows "rate_inv P now (bf_run P ops)"
  using assms(2,3)
proof (induction ops arbitrary: now rule: rev_induct)
  case Nil
  have "rate_inv P now (new_backfill, [])"
    using assms(1) by (auto simp: rate_inv_def new_backfill_def asked_in_minute_def)
  then show ?case
    by (simp add: bf_run_def)
next
  case (snoc x ops)
  obtain s G where s: "bf_run P ops = (s, G)"
    by fastforce
  show ?case
  proof (cases "op_time x")
    case None
    then obtain k where x: "x = Settle k"
      by (cases x) auto
    from snoc have "rate_inv P now (s, G)"
      using s by (auto simp: clocked_snoc map_filter_def)
    with x s show ?thesis
      by (auto simp: bf_run_snoc rate_inv_def bf_settle_def split: option.splits)
  next
    case (Some t)
    with snoc have ok: "rate_inv P t (s, G)" and "t \<le> now"
      using s by (auto simp: clocked_snoc map_filter_def)
    have "rate_inv P t (bf_step P x (s, G))"
    proof (cases x)
      case (Request k u)
      with Some rate_inv_request [OF ok, of k] show ?thesis
        by (simp del: bf_step.simps)
    next
      case (Stats u)
      with Some rate_inv_expire [OF ok] show ?thesis
        by (simp add: bf_stats_def Let_def)
    qed (use Some in simp)
    with \<open>t \<le> now\<close> s show ?thesis
      by (auto simp: bf_run_snoc intro: rate_inv_mono simp del: bf_step.simps)
  qed
qed

text \<open>In no window of one minute are peers asked more often than the ceiling allows.\<close>

lemma minute_bound:
  assumes "0 \<le> maxPerMinute P" "clocked ops"
  shows "int (asked_in_minute t (snd (bf_run P ops))) \<le> maxPerMinute P"
proof -
  obtain now where "\<forall>u \<in> set (List.map_filter op_time ops). u \<le> now"
    by (metis List.finite_set Max_ge)
  from rate_inv_run [OF assms this] show ?thesis
    by (simp add: rate_inv_def split: prod.splits)
qed

text \<open>What a call leaves behind is in flight or was asked about within the memory.\<close>

lemma tracked_recent:
  assumes "(k, st) \<in> set (bf_keys (bf_expire P now s))"
  shows "flying st \<or> now - lastAskedAt st < forgetAfterMs P"
  using assms by (auto simp: bf_expire_def Let_def forgotten_def)

lemma abandoned_key:
  assumes "mget (bf_keys (bf_expire P now s)) k = Some st" "maxAttempts P \<le> attempts st"
  shows "\<not> bd_ask (fst (bf_request P k now s))"
  using assms by (auto simp: bf_request_def Let_def)

lemma backoff_spaces:
  assumes "mget (bf_keys (bf_expire P now s)) k = Some st" "bd_ask (fst (bf_request P k now s))"
  shows "\<not> flying st \<and> attempts st < maxAttempts P \<and> lastAskedAt st + backoffFor P (attempts st) \<le> now"
  using assms by (auto simp: bf_request_def Let_def split: if_splits)

section \<open>Windows per address\<close>

record window_entry =
  w_count :: int
  windowStart :: int

type_synonym ip_log = "(string, window_entry) jsmap"

definition IP_WINDOW_MS :: int where
  "IP_WINDOW_MS = 24 * 60 * 60 * 1000"

definition windowExpired :: "window_entry option \<Rightarrow> int \<Rightarrow> int \<Rightarrow> bool" where
  "windowExpired e windowMs now = (case e of None \<Rightarrow> True | Some w \<Rightarrow> now - windowStart w > windowMs)"

definition sweepExpiredWindows :: "int \<Rightarrow> int \<Rightarrow> ip_log \<Rightarrow> int \<times> ip_log" where
  "sweepExpiredWindows windowMs now l =
     (int (length (filter (\<lambda>(k, e). windowExpired (Some e) windowMs now) l)),
      filter (\<lambda>(k, e). \<not> windowExpired (Some e) windowMs now) l)"

text \<open>
  \<open>isLocalIp\<close>: the literal names, and the private ranges after an optional \<open>::ffff:\<close> prefix.
  The last range is the pattern \<open>172.(1[6-9]|2x|3[01]).\<close> with x any digit.
\<close>

definition starts :: "string \<Rightarrow> string \<Rightarrow> bool" where
  "starts s p = (take (length p) s = p)"

definition private_172 :: "string \<Rightarrow> bool" where
  "private_172 a = (starts a ''172.'' \<and> length a > 6 \<and> a ! 6 = CHR ''.'' \<and>
     (a ! 4 = CHR ''1'' \<and> a ! 5 \<in> set ''6789'' \<or> a ! 4 = CHR ''2'' \<and> is_digit_char (a ! 5)
       \<or> a ! 4 = CHR ''3'' \<and> a ! 5 \<in> set ''01''))"

definition isLocalIp :: "string \<Rightarrow> bool" where
  "isLocalIp ip = (let a = (if starts ip ''::ffff:'' then drop 7 ip else ip) in
     ip = ''unknown'' \<or> ip = ''::1'' \<or> a = ''127.0.0.1'' \<or> starts a ''127.'' \<or> starts a ''10.''
       \<or> starts a ''192.168.'' \<or> private_172 a)"

definition checkAndRecordIp :: "string \<Rightarrow> int \<Rightarrow> int \<Rightarrow> ip_log \<Rightarrow> bool \<times> ip_log" where
  "checkAndRecordIp ip mx now l =
     (if isLocalIp ip then (True, l)
      else (case mget l ip of
          None \<Rightarrow> (True, mset_at ip \<lparr>w_count = 1, windowStart = now\<rparr> l)
        | Some e \<Rightarrow>
            if now - windowStart e > IP_WINDOW_MS then (True, mset_at ip \<lparr>w_count = 1, windowStart = now\<rparr> l)
            else if w_count e \<ge> mx then (False, l)
            else (True, mset_at ip (e\<lparr>w_count := w_count e + 1\<rparr>) l)))"

text \<open>The limit on face verifications reads and writes its log in two steps.\<close>

definition checkIpLimit :: "string \<Rightarrow> int \<Rightarrow> int \<Rightarrow> ip_log \<Rightarrow> bool" where
  "checkIpLimit ip mx now l = (isLocalIp ip \<or> (case mget l ip of
     None \<Rightarrow> True
   | Some e \<Rightarrow> now - windowStart e > IP_WINDOW_MS \<or> w_count e < mx))"

definition recordIpVerification :: "string \<Rightarrow> int \<Rightarrow> ip_log \<Rightarrow> ip_log" where
  "recordIpVerification ip now l = (case mget l ip of
     None \<Rightarrow> mset_at ip \<lparr>w_count = 1, windowStart = now\<rparr> l
   | Some e \<Rightarrow>
       if now - windowStart e > IP_WINDOW_MS then mset_at ip \<lparr>w_count = 1, windowStart = now\<rparr> l
       else mset_at ip (e\<lparr>w_count := w_count e + 1\<rparr>) l)"

text \<open>A request is an address, its limit and its time.\<close>

fun ip_answers :: "(string \<times> int \<times> int) list \<Rightarrow> ip_log \<Rightarrow> bool list" where
  "ip_answers [] l = []"
| "ip_answers ((ip, mx, t) # rs) l = (case checkAndRecordIp ip mx t l of (b, l') \<Rightarrow> b # ip_answers rs l')"

text \<open>Two logs that agree on every window still open at a time.\<close>

definition same_windows :: "int \<Rightarrow> ip_log \<Rightarrow> ip_log \<Rightarrow> bool" where
  "same_windows now l m = (\<forall>ip. mget l ip = mget m ip
     \<or> windowExpired (mget l ip) IP_WINDOW_MS now \<and> windowExpired (mget m ip) IP_WINDOW_MS now)"

lemma windowExpired_mono: "windowExpired e w t \<Longrightarrow> t \<le> u \<Longrightarrow> windowExpired e w u"
  by (auto simp: windowExpired_def split: option.splits)

lemma same_windows_mono: "same_windows t l m \<Longrightarrow> t \<le> u \<Longrightarrow> same_windows u l m"
  unfolding same_windows_def using windowExpired_mono by metis

lemma check_by_window:
  "checkAndRecordIp ip mx now l =
     (if isLocalIp ip then (True, l)
      else if windowExpired (mget l ip) IP_WINDOW_MS now
        then (True, mset_at ip \<lparr>w_count = 1, windowStart = now\<rparr> l)
      else (let e = the (mget l ip) in
        if w_count e \<ge> mx then (False, l) else (True, mset_at ip (e\<lparr>w_count := w_count e + 1\<rparr>) l)))"
  by (auto simp: checkAndRecordIp_def windowExpired_def split: option.splits)

lemma same_windows_check:
  assumes "same_windows t l m"
  shows "fst (checkAndRecordIp ip mx t l) = fst (checkAndRecordIp ip mx t m) \<and>
    same_windows t (snd (checkAndRecordIp ip mx t l)) (snd (checkAndRecordIp ip mx t m))"
proof -
  have at: "mget l ip = mget m ip
      \<or> windowExpired (mget l ip) IP_WINDOW_MS t \<and> windowExpired (mget m ip) IP_WINDOW_MS t"
    using assms by (simp add: same_windows_def)
  then have same: "windowExpired (mget l ip) IP_WINDOW_MS t = windowExpired (mget m ip) IP_WINDOW_MS t"
    by auto
  have upd: "same_windows t (mset_at ip v l) (mset_at ip v m)" for v
    using assms by (simp add: same_windows_def)
  show ?thesis
  proof (cases "isLocalIp ip \<or> windowExpired (mget l ip) IP_WINDOW_MS t")
    case True
    with same upd assms show ?thesis
      by (auto simp: check_by_window)
  next
    case False
    with at same upd assms show ?thesis
      by (auto simp: check_by_window Let_def)
  qed
qed

lemma same_windows_answers:
  assumes "same_windows now l m" "sorted (now # map (\<lambda>(ip, mx, t). t) rs)"
  shows "ip_answers rs l = ip_answers rs m"
  using assms
proof (induction rs arbitrary: now l m)
  case (Cons r rs)
  obtain ip mx t where r: "r = (ip, mx, t)"
    by (cases r)
  with Cons.prems have "same_windows t l m" and rest: "sorted (t # map (\<lambda>(ip, mx, t). t) rs)"
    by (auto intro: same_windows_mono)
  from same_windows_check [OF this(1), of ip mx] Cons.IH [OF _ rest] show ?case
    by (auto simp: r split: prod.splits)
qed simp

lemma sweep_same_windows:
  assumes "wf_map l"
  shows "same_windows now l (snd (sweepExpiredWindows IP_WINDOW_MS now l))"
  unfolding same_windows_def sweepExpiredWindows_def
  using assms by (auto simp: mget_filter windowExpired_def split: option.splits)

text \<open>Sweeping at any moment changes no later answer.\<close>

lemma sweep_preserves_answers:
  assumes "wf_map l" "sorted (now # map (\<lambda>(ip, mx, t). t) rs)"
  shows "ip_answers rs (snd (sweepExpiredWindows IP_WINDOW_MS now l)) = ip_answers rs l"
  using same_windows_answers [OF sweep_same_windows [OF assms(1)] assms(2)] by simp

lemma sweep_shrinks:
  "int (length (snd (sweepExpiredWindows w now l))) + fst (sweepExpiredWindows w now l) = int (length l)"
  using sum_length_filter_compl [of "\<lambda>(k, e). windowExpired (Some e) w now" l]
  by (simp add: sweepExpiredWindows_def case_prod_unfold)

end
