(* ===== verification/Routing.thy ===== *)
theory Routing
  imports Crypto_Env
begin

text \<open>
  Who hears and serves whom: the interest set of a node (\<open>src/engine/node/subscription.ts\<close>)
  and the assignment of peers to relays by rendezvous hashing
  (\<open>src/engine/net/relay-directory.ts\<close>). A light client wants exactly the accounts it tracks;
  a change of one relay moves only the peers it serves.
\<close>

section \<open>Interest\<close>

record subscription =
  ownAccounts :: "hex list"
  followed :: "hex list"
  shards :: "int list"
  numShards :: int

definition new_subscription :: "int \<Rightarrow> subscription" where
  "new_subscription n = \<lparr>ownAccounts = [], followed = [], shards = [], numShards = n\<rparr>"

definition own :: "hex \<Rightarrow> subscription \<Rightarrow> subscription" where
  "own a s = s\<lparr>ownAccounts := sadd a (ownAccounts s)\<rparr>"

definition follow :: "hex \<Rightarrow> subscription \<Rightarrow> subscription" where
  "follow a s = s\<lparr>followed := sadd a (followed s)\<rparr>"

definition unfollow :: "hex \<Rightarrow> subscription \<Rightarrow> subscription" where
  "unfollow a s = s\<lparr>followed := sdel a (followed s)\<rparr>"

definition subscribeShard :: "int \<Rightarrow> subscription \<Rightarrow> subscription" where
  "subscribeShard sh s = s\<lparr>shards := sadd sh (shards s)\<rparr>"

text \<open>\<open>getShard\<close> throws on a shard count that is not positive, and is reached only with shards.\<close>

definition wants :: "crypto \<Rightarrow> hex \<Rightarrow> subscription \<Rightarrow> bool option" where
  "wants C a s =
     (if a \<in> set (ownAccounts s) \<or> a \<in> set (followed s) then Some True
      else if shards s \<noteq> [] then map_option (\<lambda>sh. sh \<in> set (shards s)) (getShard C a (numShards s))
      else Some False)"

definition interestSize :: "subscription \<Rightarrow> int" where
  "interestSize s = int (length (remdups (ownAccounts s @ followed s)))"

lemma light_wants: "shards s = [] \<Longrightarrow> wants C a s = Some (a \<in> set (ownAccounts s) \<union> set (followed s))"
  by (simp add: wants_def)

lemma interest_bound: "shards s = [] \<Longrightarrow> int (card {a. wants C a s = Some True}) = interestSize s"
proof -
  assume "shards s = []"
  then have "{a. wants C a s = Some True} = set (ownAccounts s @ followed s)"
    by (auto simp: light_wants)
  then show ?thesis
    by (simp add: interestSize_def length_remdups_card_conv)
qed

text \<open>A super-node wants every account of its shards; own accounts survive an unfollow.\<close>

lemma shard_wants:
  assumes "sh \<in> set (shards s)" "getShard C a (numShards s) = Some sh"
  shows "wants C a s = Some True"
  using assms by (auto simp: wants_def)

lemma own_kept: "wants C a (unfollow a (own a s)) = Some True"
  by (simp add: wants_def unfollow_def own_def)

lemma wants_defined: "0 < numShards s \<Longrightarrow> wants C a s \<noteq> None"
  by (simp add: wants_def getShard_def del: not_None_eq)

section \<open>Relays\<close>

type_synonym relay_directory = "hex list"

definition relay_add :: "hex \<Rightarrow> relay_directory \<Rightarrow> relay_directory" where
  "relay_add r d = sadd r d"

definition relay_remove :: "hex \<Rightarrow> relay_directory \<Rightarrow> relay_directory" where
  "relay_remove r d = sdel r d"

definition relay_score :: "crypto \<Rightarrow> hex \<Rightarrow> hex \<Rightarrow> hex" where
  "relay_score C peer r = hashHex C [c_utf8 C (r @ '':'' @ peer)]"

text \<open>\<open>sort\<close> with a descending comparator: stable, so equal scores keep their order.\<close>

definition sort_desc :: "('a \<Rightarrow> 'b :: linorder) \<Rightarrow> 'a list \<Rightarrow> 'a list" where
  "sort_desc f xs = rev (sort_key f (rev xs))"

definition assign :: "crypto \<Rightarrow> hex \<Rightarrow> int \<Rightarrow> relay_directory \<Rightarrow> hex list" where
  "assign C peer replication d =
     slice0 (min replication (int (length d))) (sort_desc (relay_score C peer) d)"

definition relaysNeeded :: "int \<Rightarrow> int \<Rightarrow> int \<Rightarrow> int option" where
  "relaysNeeded peers replication perRelayCap =
     (if perRelayCap = 0 then None
      else Some \<lceil>of_int (peers * replication) / of_int perRelayCap :: real\<rceil>)"

lemma sort_desc_shape: "set (sort_desc f xs) = set xs" "length (sort_desc f xs) = length xs"
    "distinct (sort_desc f xs) = distinct xs"
  by (simp_all add: sort_desc_def)

lemma sort_desc_sorted: "i \<le> j \<Longrightarrow> j < length xs \<Longrightarrow> f (sort_desc f xs ! j) \<le> f (sort_desc f xs ! i)"
  using sorted_nth_mono [of "map f (sort_key f (rev xs))" "length xs - Suc j" "length xs - Suc i"]
  by (simp add: sort_desc_def rev_nth)

lemma sort_desc_filter: "sort_desc f (filter P xs) = filter P (sort_desc f xs)"
  by (simp add: sort_desc_def rev_filter filter_sort [symmetric])

lemma assign_take: "0 \<le> r \<Longrightarrow> assign C p r d = take (nat r) (sort_desc (relay_score C p) d)"
  by (simp add: assign_def slice0_def min_def sort_desc_shape nat_le_iff split: if_split)

lemma take_filter_keeps: "set (take n xs) - {x} \<subseteq> set (take n (filter (\<lambda>y. y \<noteq> x) xs))"
proof (induction xs arbitrary: n)
  case (Cons a xs)
  show ?case
  proof (cases n)
    case (Suc m)
    have "set (take m xs) - {x} \<subseteq> set (take n (filter (\<lambda>y. y \<noteq> x) xs))"
      using Cons.IH [of m] set_take_subset_set_take [of m n] Suc by fastforce
    with Cons.IH [of m] Suc show ?thesis
      by auto
  qed simp
qed simp

lemma take_filter_same: "x \<notin> set (take n xs) \<Longrightarrow> take n (filter (\<lambda>y. y \<noteq> x) xs) = take n xs"
proof (induction xs arbitrary: n)
  case (Cons a xs)
  then show ?case
    by (cases n) auto
qed simp

lemma remove_filter: "relay_remove r d = filter (\<lambda>y. y \<noteq> r) d"
  by (simp add: relay_remove_def sdel_def removeAll_filter_not_eq)
    (metis (mono_tags, lifting))

text \<open>Removing a relay leaves every other assignment in place, and moves no peer it did not serve.\<close>

lemma remove_keeps:
  assumes "0 \<le> n"
  shows "set (assign C p n d) - {r} \<subseteq> set (assign C p n (relay_remove r d))"
  using take_filter_keeps by (simp add: assign_take [OF assms] remove_filter sort_desc_filter)

lemma remove_moves_only:
  assumes "0 \<le> n" "r \<notin> set (assign C p n d)"
  shows "assign C p n (relay_remove r d) = assign C p n d"
  using assms take_filter_same by (simp add: assign_take remove_filter sort_desc_filter)

lemma remove_add: "r \<notin> set d \<Longrightarrow> relay_remove r (relay_add r d) = d"
  by (simp add: relay_remove_def relay_add_def sadd_def sdel_def)

lemma add_takes_only:
  assumes "0 \<le> n" "r \<notin> set d"
  shows "set (assign C p n (relay_add r d)) \<subseteq> insert r (set (assign C p n d))"
  using remove_keeps [OF assms(1), of C p "relay_add r d" r] assms(2) by (auto simp: remove_add)

lemma assign_best:
  assumes "0 \<le> n" "a \<in> set (assign C p n d)" "b \<in> set d - set (assign C p n d)"
  shows "relay_score C p b \<le> relay_score C p a"
proof -
  let ?s = "sort_desc (relay_score C p) d"
  from assms(1,2) obtain i where i: "i < nat n" "i < length d" "a = ?s ! i"
    by (auto simp: assign_take in_set_conv_nth sort_desc_shape)
  from assms(3) obtain j where j: "j < length d" "b = ?s ! j"
    by (metis DiffD1 in_set_conv_nth sort_desc_shape(1,2))
  have "\<not> j < nat n"
  proof
    assume "j < nat n"
    then have "b \<in> set (take (nat n) ?s)"
      using j by (auto simp: in_set_conv_nth sort_desc_shape intro!: exI [of _ j])
    with assms(1,3) show False
      by (simp add: assign_take)
  qed
  with i j show ?thesis
    using sort_desc_sorted [of i j d "relay_score C p"] by simp
qed

lemma assign_size: "0 \<le> n \<Longrightarrow> length (assign C p n d) = min (nat n) (length d)"
  by (simp add: assign_take sort_desc_shape min_def)

end
