(* ===== verification/Read_Receipts.thy ===== *)
theory Read_Receipts
  imports Block_Model
begin

text \<open>
  The payment meter: reader-signed cumulative receipts, \<open>src/engine/content/read-receipts.ts\<close>.
  Payment is for what lies above a baseline, and paying moves the baseline; that contract is the
  locale \<open>metered\<close>, whose consequence is that no byte is paid for twice. \<open>ReceiptLedger\<close>
  interprets it for recording and settling. Sweeping is outside the contract: it forgets the
  baseline of a settled pair, and the same receipt pays again.
\<close>

definition PER_READER_EPOCH_CAP_BYTES :: int where
  "PER_READER_EPOCH_CAP_BYTES = 128 * 1024 * 1024"

definition MIN_DISTINCT_READERS :: int where "MIN_DISTINCT_READERS = 3"
definition MAX_RECEIPTS_PER_SETTLEMENT :: int where "MAX_RECEIPTS_PER_SETTLEMENT = 256"

section \<open>Paying above a baseline\<close>

locale metered =
  fixes inv :: "'s \<Rightarrow> bool" and step :: "'a \<Rightarrow> 's \<Rightarrow> 's" and pay :: "'a \<Rightarrow> 's \<Rightarrow> int" and base :: "'s \<Rightarrow> int"
  assumes inv_step: "inv s \<Longrightarrow> inv (step a s)"
    and pay_moves: "inv s \<Longrightarrow> pay a s \<le> base (step a s) - base s"
begin

fun paid :: "'a list \<Rightarrow> 's \<Rightarrow> int" where
  "paid [] s = 0"
| "paid (a # as) s = pay a s + paid as (step a s)"

lemma run_inv: "inv s \<Longrightarrow> inv (fold step as s)"
  by (induction as arbitrary: s) (simp_all add: inv_step)

lemma paid_bound: "inv s \<Longrightarrow> paid as s \<le> base (fold step as s) - base s"
proof (induction as arbitrary: s)
  case (Cons a as)
  from Cons.IH [OF inv_step [OF Cons.prems, of a]] pay_moves [OF Cons.prems, of a] show ?case
    by simp
qed simp

end

section \<open>The receipt ledger of a node\<close>

record pair_state =
  ps_counter :: int
  ps_bytesTotal :: int
  ps_readsTotal :: int
  ps_settledBytes :: int
  ps_lastSeen :: int

type_synonym receipt_ledger = "(string, pair_state) jsmap"

datatype receipt_refusal = SelfAttested | BadCounter | BadBytesTotal | BadReceiptSignature
  | StaleReceipt int int | BytesBackwards | ReadsBackwards

record provider_earnings =
  pe_provider :: string
  pe_payableBytes :: int
  pe_attestedBytes :: int
  pe_distinctReaders :: int
  pe_payable :: bool

definition pair_key :: "string \<Rightarrow> string \<Rightarrow> string" where
  "pair_key reader provider = reader @ NUL @ provider"

definition of_provider :: "string \<Rightarrow> string \<Rightarrow> bool" where
  "of_provider provider k = suffix (NUL @ provider) k"

definition record_receipt :: "(read_receipt \<Rightarrow> bool) \<Rightarrow> read_receipt \<Rightarrow> receipt_ledger
    \<Rightarrow> receipt_refusal option \<times> receipt_ledger" where
  "record_receipt vfy r s =
     (if rc_reader r = rc_provider r then (Some SelfAttested, s)
      else if \<not> rc_counter r > 0 then (Some BadCounter, s)
      else if \<not> rc_bytesTotal r \<ge> 0 then (Some BadBytesTotal, s)
      else if \<not> vfy r then (Some BadReceiptSignature, s)
      else let k = pair_key (rc_reader r) (rc_provider r); prev = mget s k in
        (case prev of
          Some p \<Rightarrow> if rc_counter r \<le> ps_counter p then (Some (StaleReceipt (rc_counter r) (ps_counter p)), s)
            else if rc_bytesTotal r < ps_bytesTotal p then (Some BytesBackwards, s)
            else if rc_readsTotal r < ps_readsTotal p then (Some ReadsBackwards, s)
            else (None, mset_at k \<lparr>ps_counter = rc_counter r, ps_bytesTotal = rc_bytesTotal r,
                ps_readsTotal = rc_readsTotal r, ps_settledBytes = ps_settledBytes p, ps_lastSeen = rc_ts r\<rparr> s)
        | None \<Rightarrow> (None, mset_at k \<lparr>ps_counter = rc_counter r, ps_bytesTotal = rc_bytesTotal r,
                ps_readsTotal = rc_readsTotal r, ps_settledBytes = 0, ps_lastSeen = rc_ts r\<rparr> s)))"

definition earning_step :: "string \<Rightarrow> int \<Rightarrow> int \<times> int \<times> int \<Rightarrow> string \<times> pair_state \<Rightarrow> int \<times> int \<times> int" where
  "earning_step provider cap acc e = (case acc of (attested, payable, readers) \<Rightarrow>
     if \<not> of_provider provider (fst e) then acc
     else let delta = max 0 (ps_bytesTotal (snd e) - ps_settledBytes (snd e)) in
       if delta = 0 then acc else (attested + delta, payable + min delta cap, readers + 1))"

definition earnings :: "int \<Rightarrow> int \<Rightarrow> string \<Rightarrow> receipt_ledger \<Rightarrow> provider_earnings" where
  "earnings cap flr provider s = (case foldl (earning_step provider cap) (0, 0, 0) s of
     (attested, payableBytes, readers) \<Rightarrow>
       let payable = (readers \<ge> flr \<and> payableBytes > 0) in
       \<lparr>pe_provider = provider, pe_payableBytes = (if payable then payableBytes else 0),
        pe_attestedBytes = attested, pe_distinctReaders = readers, pe_payable = payable\<rparr>)"

definition settle_pairs :: "string \<Rightarrow> receipt_ledger \<Rightarrow> int \<times> receipt_ledger" where
  "settle_pairs provider s =
     (let e = earnings PER_READER_EPOCH_CAP_BYTES MIN_DISTINCT_READERS provider s in
      if \<not> pe_payable e then (0, s)
      else (pe_payableBytes e, map (\<lambda>(k, st). (k, if of_provider provider k
              then st\<lparr>ps_settledBytes := ps_bytesTotal st\<rparr> else st)) s))"

definition sweep_pairs :: "int \<Rightarrow> int \<Rightarrow> int \<Rightarrow> receipt_ledger \<Rightarrow> int \<times> receipt_ledger" where
  "sweep_pairs now ttlMs minOwed s =
     (let stale = (\<lambda>(k, st). \<not> (now - ps_lastSeen st \<le> ttlMs) \<and> \<not> (ps_bytesTotal st - ps_settledBytes st > minOwed))
      in (int (length (filter stale s)), filter (\<lambda>e. \<not> stale e) s))"

definition pair_totals :: "string \<Rightarrow> string \<Rightarrow> receipt_ledger \<Rightarrow> (int \<times> int) option" where
  "pair_totals reader provider s =
     map_option (\<lambda>st. (ps_bytesTotal st, ps_readsTotal st)) (mget s (pair_key reader provider))"

definition collusionCeilingBytes :: "int \<Rightarrow> int \<Rightarrow> int" where
  "collusionCeilingBytes identities perReaderCap = identities * perReaderCap"

subsection \<open>No byte is paid twice\<close>

definition pairs_ok :: "receipt_ledger \<Rightarrow> bool" where
  "pairs_ok s \<longleftrightarrow> wf_map s \<and> (\<forall>(k, st) \<in> set s. 0 \<le> ps_settledBytes st \<and> ps_settledBytes st \<le> ps_bytesTotal st)"

definition settled_of :: "string \<Rightarrow> receipt_ledger \<Rightarrow> int" where
  "settled_of provider s = (\<Sum>e \<leftarrow> filter (\<lambda>e. of_provider provider (fst e)) s. ps_settledBytes (snd e))"

definition attested_of :: "string \<Rightarrow> receipt_ledger \<Rightarrow> int" where
  "attested_of provider s = (\<Sum>e \<leftarrow> filter (\<lambda>e. of_provider provider (fst e)) s. ps_bytesTotal (snd e))"

datatype ledger_call = RecordReceipt read_receipt | SettleFor string

fun ledger_step :: "(read_receipt \<Rightarrow> bool) \<Rightarrow> ledger_call \<Rightarrow> receipt_ledger \<Rightarrow> receipt_ledger" where
  "ledger_step vfy (RecordReceipt r) s = snd (record_receipt vfy r s)"
| "ledger_step vfy (SettleFor p) s = snd (settle_pairs p s)"

fun ledger_pay :: "string \<Rightarrow> ledger_call \<Rightarrow> receipt_ledger \<Rightarrow> int" where
  "ledger_pay provider (RecordReceipt r) s = 0"
| "ledger_pay provider (SettleFor p) s = (if p = provider then fst (settle_pairs p s) else 0)"

lemma earning_fold:
  assumes "foldl (earning_step p cap) (a, b, n) s = (a', b', n')" "0 \<le> cap"
    "\<forall>e \<in> set s. ps_settledBytes (snd e) \<le> ps_bytesTotal (snd e)"
  shows "b' - b \<le> attested_of p s - settled_of p s \<and> a' - a = attested_of p s - settled_of p s
    \<and> b' - b \<le> (n' - n) * cap \<and> n \<le> n'"
  using assms
proof (induction s arbitrary: a b n)
  case (Cons e s)
  let ?d = "max 0 (ps_bytesTotal (snd e) - ps_settledBytes (snd e))"
  show ?case
  proof (cases "of_provider p (fst e) \<and> ?d \<noteq> 0")
    case True
    then have "earning_step p cap (a, b, n) e = (a + ?d, b + min ?d cap, n + 1)"
      by (simp add: earning_step_def Let_def)
    with Cons.prems(1) have "foldl (earning_step p cap) (a + ?d, b + min ?d cap, n + 1) s = (a', b', n')"
      by simp
    from Cons.IH [OF this Cons.prems(2)] Cons.prems(3) True show ?thesis
      by (auto simp: attested_of_def settled_of_def algebra_simps)
  next
    case False
    then have "earning_step p cap (a, b, n) e = (a, b, n)"
      by (auto simp: earning_step_def Let_def)
    with Cons.prems(1) have "foldl (earning_step p cap) (a, b, n) s = (a', b', n')"
      by simp
    from Cons.IH [OF this Cons.prems(2)] Cons.prems(3) False show ?thesis
      by (auto simp: attested_of_def settled_of_def)
  qed
qed (simp add: attested_of_def settled_of_def)

text \<open>What one call of \<open>earnings\<close> may award: the colluders times the cap, and the unsettled bytes.\<close>

lemma earnings_bound:
  assumes "pairs_ok s" "0 \<le> cap"
  shows "pe_payableBytes (earnings cap f p s) \<le> collusionCeilingBytes (pe_distinctReaders (earnings cap f p s)) cap
    \<and> pe_payableBytes (earnings cap f p s) \<le> attested_of p s - settled_of p s"
proof -
  obtain a b n where f: "foldl (earning_step p cap) (0, 0, 0) s = (a, b, n)"
    by (metis prod_cases3)
  have ok: "\<forall>e \<in> set s. ps_settledBytes (snd e) \<le> ps_bytesTotal (snd e)"
    using assms(1) by (auto simp: pairs_ok_def)
  note b = earning_fold [OF f assms(2) ok]
  have "0 \<le> attested_of p s - settled_of p s"
    using ok unfolding attested_of_def settled_of_def by (induction s) auto
  moreover have "0 \<le> n * cap"
    using b assms(2) by simp
  ultimately show ?thesis
    using b by (simp add: earnings_def f Let_def collusionCeilingBytes_def)
qed

lemma below_floor: "pe_distinctReaders (earnings cap f p s) < f \<Longrightarrow> pe_payableBytes (earnings cap f p s) = 0"
  by (simp add: earnings_def Let_def split: prod.splits if_splits)

lemma settled_update:
  assumes "wf_map s" "mget s k = Some st"
  shows "settled_of p (mset_at k v s) = settled_of p s + (if of_provider p k then ps_settledBytes v - ps_settledBytes st else 0)"
  using assms
proof (induction s)
  case (Cons e s)
  show ?case
  proof (cases "fst e = k")
    case True
    with Cons.prems show ?thesis
      by (cases e) (auto simp: mset_at_def settled_of_def)
  next
    case False
    with Cons.prems have "wf_map s" "mget s k = Some st"
      by (cases e, auto simp: wf_map_def)+
    with Cons.IH False show ?thesis
      by (cases e) (auto simp: mset_at_def settled_of_def)
  qed
qed simp

lemma settled_new:
  assumes "mget s k = None"
  shows "settled_of p (mset_at k v s) = settled_of p s + (if of_provider p k then ps_settledBytes v else 0)"
proof -
  have "k \<notin> set (mkeys s)"
    using assms by (simp add: mkeys_def map_of_eq_None_iff)
  then show ?thesis
    by (simp add: mset_at_new settled_of_def)
qed

lemma pairs_ok_set:
  assumes "pairs_ok s" "0 \<le> ps_settledBytes v" "ps_settledBytes v \<le> ps_bytesTotal v"
  shows "pairs_ok (mset_at k v s)"
proof -
  have "set (mset_at k v s) \<subseteq> insert (k, v) (set s)"
    unfolding mset_at_def by (induction s) auto
  with assms show ?thesis
    by (auto simp: pairs_ok_def)
qed

lemma record_cases:
  obtains (refused) q where "record_receipt vfy r s = (Some q, s)"
  | (first) v where "record_receipt vfy r s = (None, mset_at (pair_key (rc_reader r) (rc_provider r)) v s)"
      "mget s (pair_key (rc_reader r) (rc_provider r)) = None" "ps_settledBytes v = 0"
      "ps_bytesTotal v = rc_bytesTotal r" "0 \<le> rc_bytesTotal r" "vfy r"
  | (newer) v p where "record_receipt vfy r s = (None, mset_at (pair_key (rc_reader r) (rc_provider r)) v s)"
      "mget s (pair_key (rc_reader r) (rc_provider r)) = Some p" "ps_settledBytes v = ps_settledBytes p"
      "ps_bytesTotal v = rc_bytesTotal r" "ps_bytesTotal p \<le> rc_bytesTotal r" "ps_counter p < rc_counter r" "vfy r"
proof (cases "rc_reader r = rc_provider r \<or> \<not> rc_counter r > 0 \<or> \<not> rc_bytesTotal r \<ge> 0 \<or> \<not> vfy r")
  case True
  then show thesis
    using refused unfolding record_receipt_def by metis
next
  case False
  show thesis
  proof (cases "mget s (pair_key (rc_reader r) (rc_provider r))")
    case None
    with False show thesis
      using first by (simp add: record_receipt_def Let_def)
  next
    case (Some p)
    show thesis
    proof (cases "rc_counter r \<le> ps_counter p \<or> rc_bytesTotal r < ps_bytesTotal p \<or> rc_readsTotal r < ps_readsTotal p")
      case True
      then have "\<exists>q. record_receipt vfy r s = (Some q, s)"
        using False Some by (auto simp: record_receipt_def Let_def)
      then show thesis
        using refused by blast
    next
      case ok: False
      with False Some show thesis
        using newer by (simp add: record_receipt_def Let_def)
    qed
  qed
qed

lemma record_keeps: "pairs_ok s \<Longrightarrow> pairs_ok (snd (record_receipt vfy r s)) \<and> settled_of p (snd (record_receipt vfy r s)) = settled_of p s"
proof (cases rule: record_cases [where vfy = vfy and r = r and s = s])
  case (first v)
  moreover assume "pairs_ok s"
  ultimately show ?thesis
    by (simp add: pairs_ok_set settled_new)
next
  case (newer v q)
  assume ok: "pairs_ok s"
  then have "wf_map s" "(pair_key (rc_reader r) (rc_provider r), q) \<in> set s"
    using newer(2) by (simp_all add: pairs_ok_def map_of_SomeD)
  moreover from this ok have "0 \<le> ps_settledBytes q" "ps_settledBytes q \<le> ps_bytesTotal q"
    by (auto simp: pairs_ok_def)
  ultimately show ?thesis
    using newer ok by (simp add: pairs_ok_set settled_update)
qed simp

lemma settle_keeps:
  assumes "pairs_ok s"
  shows "pairs_ok (snd (settle_pairs q s))
    \<and> (if q = p then fst (settle_pairs q s) else 0) \<le> settled_of p (snd (settle_pairs q s)) - settled_of p s"
proof (cases "pe_payable (earnings PER_READER_EPOCH_CAP_BYTES MIN_DISTINCT_READERS q s)")
  case True
  let ?s = "map (\<lambda>(k, st). (k, if of_provider q k then st\<lparr>ps_settledBytes := ps_bytesTotal st\<rparr> else st)) s"
  have le: "\<forall>e \<in> set s. 0 \<le> ps_settledBytes (snd e) \<and> ps_settledBytes (snd e) \<le> ps_bytesTotal (snd e)"
    using assms by (auto simp: pairs_ok_def)
  have "wf_map ?s = wf_map s"
    by (simp add: wf_map_def comp_def case_prod_unfold)
  with assms have ok: "pairs_ok ?s"
    by (auto simp: pairs_ok_def)
  have "settled_of q ?s = attested_of q s"
    by (induction s) (auto simp: settled_of_def attested_of_def)
  moreover have "settled_of p s \<le> settled_of p ?s"
    using le by (induction s) (auto simp: settled_of_def)
  ultimately show ?thesis
    using True ok earnings_bound [OF assms, of PER_READER_EPOCH_CAP_BYTES MIN_DISTINCT_READERS q]
    by (auto simp: settle_pairs_def Let_def PER_READER_EPOCH_CAP_BYTES_def)
next
  case False
  then have "settle_pairs q s = (0, s)"
    by (simp add: settle_pairs_def Let_def)
  with assms show ?thesis
    by (cases "q = p") simp_all
qed

interpretation receipts: metered pairs_ok "ledger_step vfy" "ledger_pay p" "settled_of p"
proof
  fix s :: receipt_ledger and a
  assume s: "pairs_ok s"
  show "pairs_ok (ledger_step vfy a s)"
    by (cases a) (simp_all add: record_keeps [OF s] settle_keeps [OF s])
  show "ledger_pay p a s \<le> settled_of p (ledger_step vfy a s) - settled_of p s"
  proof (cases a)
    case (SettleFor q)
    with settle_keeps [OF s, of q p] show ?thesis
      by simp
  qed (simp add: record_keeps [OF s])
qed

lemma settled_le_attested: "pairs_ok s \<Longrightarrow> settled_of p s \<le> attested_of p s"
  unfolding pairs_ok_def settled_of_def attested_of_def by (auto intro!: sum_list_mono)

fun total_paid :: "(read_receipt \<Rightarrow> bool) \<Rightarrow> string \<Rightarrow> ledger_call list \<Rightarrow> receipt_ledger \<Rightarrow> int" where
  "total_paid vfy p [] s = 0"
| "total_paid vfy p (c # cs) s = ledger_pay p c s + total_paid vfy p cs (ledger_step vfy c s)"

lemma total_paid_bound:
  "total_paid vfy p cs [] \<le> attested_of p (fold (ledger_step vfy) cs [])"
proof -
  have "total_paid vfy p cs s = receipts.paid vfy p cs s" for s
    by (induction cs arbitrary: s) simp_all
  moreover have "pairs_ok []"
    by (simp add: pairs_ok_def)
  moreover have "settled_of p [] = 0"
    by (simp add: settled_of_def)
  ultimately show ?thesis
    using receipts.paid_bound [of "[]" vfy p cs] settled_le_attested [OF receipts.run_inv [of "[]" vfy cs], of p]
    by simp
qed

text \<open>Sweeping a settled pair makes its last receipt payable in full again.\<close>

lemma sweep_repays:
  assumes "mget s (pair_key (rc_reader r) (rc_provider r)) = Some st" "wf_map s"
    "ps_settledBytes st = ps_bytesTotal st" "now - ps_lastSeen st > ttl" "0 \<le> minOwed"
    "rc_reader r \<noteq> rc_provider r" "0 < rc_counter r" "0 \<le> rc_bytesTotal r" "vfy r"
    "rc_bytesTotal r = ps_bytesTotal st"
  shows "\<exists>v. record_receipt vfy r (snd (sweep_pairs now ttl minOwed s))
      = (None, mset_at (pair_key (rc_reader r) (rc_provider r)) v (snd (sweep_pairs now ttl minOwed s)))
    \<and> ps_bytesTotal v - ps_settledBytes v = rc_bytesTotal r"
proof -
  have "mget (snd (sweep_pairs now ttl minOwed s)) (pair_key (rc_reader r) (rc_provider r)) = None"
    using assms(1-5) by (simp add: sweep_pairs_def Let_def mget_filter)
  with assms(6-9) show ?thesis
    by (intro exI [of _ "\<lparr>ps_counter = rc_counter r, ps_bytesTotal = rc_bytesTotal r,
        ps_readsTotal = rc_readsTotal r, ps_settledBytes = 0, ps_lastSeen = rc_ts r\<rparr>"])
      (simp add: record_receipt_def Let_def)
qed

section \<open>Signed receipts\<close>

text \<open>\<open>[...].join('|')\<close>; what the reader signs.\<close>

definition receipt_fields :: "read_receipt \<Rightarrow> string list" where
  "receipt_fields r = [''receipt-v1'', rc_reader r, rc_provider r, int_str (rc_counter r), int_str (rc_bytesTotal r),
     int_str (rc_readsTotal r), int_str (rc_lastLatencyMs r), int_str (rc_ts r)]"

definition receiptPayload :: "read_receipt \<Rightarrow> string" where
  "receiptPayload r = join ''|'' (receipt_fields r)"

type_synonym payload_verifier = "string \<Rightarrow> string \<Rightarrow> string \<Rightarrow> bool"

record credit =
  cd_payableBytes :: int
  cd_distinctReaders :: int

text \<open>The loop over the envelopes: totals per human, and the pairs already counted.\<close>

fun credit_loop :: "string \<Rightarrow> payload_verifier \<Rightarrow> (string, int) jsmap \<Rightarrow> (string \<Rightarrow> string)
    \<Rightarrow> signed_receipt list \<Rightarrow> (string, int) jsmap \<Rightarrow> string list \<Rightarrow> (string, int) jsmap" where
  "credit_loop provider vfy settled rootOf [] byHuman seen = byHuman"
| "credit_loop provider vfy settled rootOf (env # envs) byHuman seen = (let r = sr_receipt env in
     if rc_provider r \<noteq> provider then credit_loop provider vfy settled rootOf envs byHuman seen
     else if rc_reader r = rc_provider r then credit_loop provider vfy settled rootOf envs byHuman seen
     else if \<not> vfy (receiptPayload r) (sr_signature env) (rc_reader r)
       then credit_loop provider vfy settled rootOf envs byHuman seen
     else let pair = pair_key (rc_reader r) (rc_provider r) in
       if pair \<in> set seen then credit_loop provider vfy settled rootOf envs byHuman seen
       else let delta = max 0 (rc_bytesTotal r - nvl (mget settled (rc_reader r)) 0) in
         if delta = 0 then credit_loop provider vfy settled rootOf envs byHuman (sadd pair seen)
         else let human = rootOf (rc_reader r) in
           credit_loop provider vfy settled rootOf envs
             (mset_at human (nvl (mget byHuman human) 0 + delta) byHuman) (sadd pair seen))"

definition creditFromSignedReceipts :: "string \<Rightarrow> signed_receipt list \<Rightarrow> payload_verifier \<Rightarrow> (string, int) jsmap
    \<Rightarrow> int \<Rightarrow> int \<Rightarrow> (string \<Rightarrow> string) \<Rightarrow> credit" where
  "creditFromSignedReceipts provider envs vfy settled cap flr rootOf =
     (let byHuman = credit_loop provider vfy settled rootOf envs [] [];
          payable = foldl (\<lambda>p t. p + min t cap) 0 (mvals byHuman);
          distinct_n = int (length byHuman)
      in if distinct_n < flr then \<lparr>cd_payableBytes = 0, cd_distinctReaders = distinct_n\<rparr>
         else \<lparr>cd_payableBytes = payable, cd_distinctReaders = distinct_n\<rparr>)"

text \<open>A receipt that counts for a provider, and the bytes it adds above the baseline.\<close>

definition countable :: "string \<Rightarrow> payload_verifier \<Rightarrow> signed_receipt \<Rightarrow> bool" where
  "countable provider vfy env \<longleftrightarrow> rc_provider (sr_receipt env) = provider
     \<and> rc_reader (sr_receipt env) \<noteq> provider
     \<and> vfy (receiptPayload (sr_receipt env)) (sr_signature env) (rc_reader (sr_receipt env))"

definition above :: "(string, int) jsmap \<Rightarrow> signed_receipt \<Rightarrow> int" where
  "above settled env = max 0 (rc_bytesTotal (sr_receipt env) - nvl (mget settled (rc_reader (sr_receipt env))) 0)"

text \<open>The receipts the loop credits: the first of each reader that adds something.\<close>

fun credited :: "string \<Rightarrow> payload_verifier \<Rightarrow> (string, int) jsmap \<Rightarrow> signed_receipt list \<Rightarrow> string list
    \<Rightarrow> signed_receipt list" where
  "credited provider vfy settled [] seen = []"
| "credited provider vfy settled (env # envs) seen =
     (if \<not> countable provider vfy env \<or> rc_reader (sr_receipt env) \<in> set seen
      then credited provider vfy settled envs seen
      else if above settled env = 0 then credited provider vfy settled envs (rc_reader (sr_receipt env) # seen)
      else env # credited provider vfy settled envs (rc_reader (sr_receipt env) # seen))"

definition tally :: "(string, int) jsmap \<Rightarrow> (string \<Rightarrow> string) \<Rightarrow> signed_receipt \<Rightarrow> (string, int) jsmap \<Rightarrow> (string, int) jsmap" where
  "tally settled rootOf env m = mset_at (rootOf (rc_reader (sr_receipt env)))
     (nvl (mget m (rootOf (rc_reader (sr_receipt env)))) 0 + above settled env) m"

lemma credit_loop_eq:
  assumes "\<And>rd. pair_key rd provider \<in> set seen \<longleftrightarrow> rd \<in> set seen'"
  shows "credit_loop provider vfy settled rootOf envs m seen
    = fold (tally settled rootOf) (credited provider vfy settled envs seen') m"
  using assms
proof (induction envs arbitrary: m seen seen')
  case (Cons env envs)
  let ?rd = "rc_reader (sr_receipt env)"
  show ?case
  proof (cases "countable provider vfy env \<and> ?rd \<notin> set seen'")
    case False
    then have "credit_loop provider vfy settled rootOf (env # envs) m seen
        = credit_loop provider vfy settled rootOf envs m seen"
      using Cons.prems by (auto simp: countable_def Let_def)
    with False Cons.IH [OF Cons.prems] show ?thesis
      by auto
  next
    case True
    have step: "pair_key rd provider \<in> set (sadd (pair_key ?rd provider) seen) \<longleftrightarrow> rd \<in> set (?rd # seen')" for rd
      using Cons.prems by (auto simp: pair_key_def)
    have here: "pair_key ?rd (rc_provider (sr_receipt env)) = pair_key ?rd provider"
        "pair_key ?rd provider \<notin> set seen"
      using True Cons.prems by (auto simp: countable_def)
    show ?thesis
    proof (cases "above settled env = 0")
      case zero: True
      with True here have "credit_loop provider vfy settled rootOf (env # envs) m seen
          = credit_loop provider vfy settled rootOf envs m (sadd (pair_key ?rd provider) seen)"
        by (simp add: countable_def above_def [symmetric] Let_def)
      with True zero Cons.IH [OF step] show ?thesis
        by simp
    next
      case pos: False
      with True here have "credit_loop provider vfy settled rootOf (env # envs) m seen
          = credit_loop provider vfy settled rootOf envs (tally settled rootOf env m) (sadd (pair_key ?rd provider) seen)"
        by (simp add: countable_def above_def [symmetric] tally_def Let_def)
      with True pos Cons.IH [OF step] show ?thesis
        by simp
    qed
  qed
qed simp

lemma credited_props:
  "env \<in> set (credited provider vfy settled envs seen) \<Longrightarrow>
     env \<in> set envs \<and> countable provider vfy env \<and> 0 < above settled env \<and> rc_reader (sr_receipt env) \<notin> set seen"
proof (induction envs arbitrary: seen)
  case (Cons e envs)
  have "0 \<le> above settled e"
    by (simp add: above_def)
  with Cons show ?case
    by (fastforce split: if_splits)
qed simp

lemma credited_distinct: "distinct (map (\<lambda>e. rc_reader (sr_receipt e)) (credited provider vfy settled envs seen))"
  by (induction envs arbitrary: seen) (auto dest: credited_props)

abbreviation total_of :: "('a, int) jsmap \<Rightarrow> int" where
  "total_of m \<equiv> sum_list (map snd m)"

lemma total_update: "wf_map m \<Longrightarrow> total_of (mset_at k v m) = total_of m + v - nvl (mget m k) 0"
proof (induction m)
  case (Cons e m)
  show ?case
  proof (cases "fst e = k")
    case True
    with Cons.prems show ?thesis
      by (cases e) (simp add: mset_at_def)
  next
    case False
    with Cons show ?thesis
      by (cases e) (simp add: mset_at_def wf_map_def)
  qed
qed (simp add: mset_at_def)

lemma tally_fold:
  "wf_map m \<Longrightarrow> wf_map (fold (tally settled rootOf) es m)
     \<and> total_of (fold (tally settled rootOf) es m) = total_of m + (\<Sum>e \<leftarrow> es. above settled e)"
proof (induction es arbitrary: m)
  case (Cons e es)
  then have "wf_map (tally settled rootOf e m)"
      "total_of (tally settled rootOf e m) = total_of m + above settled e"
    by (simp_all add: tally_def total_update)
  with Cons.IH show ?case
    by simp
qed simp

lemma min_total: "foldl (\<lambda>p t. p + min t cap) a ts = a + (\<Sum>t \<leftarrow> ts. min t (cap :: int))"
  by (induction ts arbitrary: a) auto

text \<open>The award: at most the cap per human, and at most the bytes above the baselines.\<close>

lemma credit_bounds:
  fixes provider envs vfy settled cap flr rootOf
  assumes "0 \<le> cap"
  defines "c \<equiv> creditFromSignedReceipts provider envs vfy settled cap flr rootOf"
  shows "cd_payableBytes c \<le> cd_distinctReaders c * cap"
    and "cd_payableBytes c \<le> (\<Sum>e \<leftarrow> credited provider vfy settled envs []. above settled e)"
    and "cd_distinctReaders c < flr \<Longrightarrow> cd_payableBytes c = 0"
proof -
  let ?m = "credit_loop provider vfy settled rootOf envs [] []"
  let ?es = "credited provider vfy settled envs []"
  have m: "?m = fold (tally settled rootOf) ?es []"
    by (rule credit_loop_eq) simp
  have tot: "total_of ?m = (\<Sum>e \<leftarrow> ?es. above settled e)"
    unfolding m using tally_fold [of "[]" settled rootOf ?es] by simp
  have pos: "0 \<le> (\<Sum>e \<leftarrow> ?es. above settled e)"
    by (intro sum_list_nonneg) (auto simp: above_def)
  have cap: "(\<Sum>t \<leftarrow> ts. min t cap) \<le> int (length ts) * cap" for ts
    by (induction ts) (auto simp: algebra_simps)
  have le: "(\<Sum>t \<leftarrow> ts. min t cap) \<le> sum_list ts" for ts :: "int list"
    by (induction ts) auto
  show "cd_payableBytes c \<le> cd_distinctReaders c * cap"
    using cap [of "mvals ?m"] assms(1) by (simp add: c_def creditFromSignedReceipts_def Let_def min_total mvals_def)
  show "cd_payableBytes c \<le> (\<Sum>e \<leftarrow> ?es. above settled e)"
    using le [of "mvals ?m"] tot pos by (simp add: c_def creditFromSignedReceipts_def Let_def min_total mvals_def)
  show "cd_distinctReaders c < flr \<Longrightarrow> cd_payableBytes c = 0"
    by (simp add: c_def creditFromSignedReceipts_def Let_def split: if_splits)
qed

text \<open>Sub-accounts of one human count once when, and only when, \<open>rootOf\<close> collapses them.\<close>

lemma tally_keys: "set (mkeys (fold (tally settled rootOf) es m))
    = set (mkeys m) \<union> (\<lambda>e. rootOf (rc_reader (sr_receipt e))) ` set es"
  by (induction es arbitrary: m) (auto simp: tally_def)

lemma credit_distinct_humans:
  "cd_distinctReaders (creditFromSignedReceipts provider envs vfy settled cap flr rootOf)
   = int (card ((\<lambda>e. rootOf (rc_reader (sr_receipt e))) ` set (credited provider vfy settled envs [])))"
proof -
  let ?m = "credit_loop provider vfy settled rootOf envs [] []"
  have m: "?m = fold (tally settled rootOf) (credited provider vfy settled envs []) []"
    by (rule credit_loop_eq) simp
  have "wf_map ?m"
    unfolding m using tally_fold [of "[]"] by simp
  then have "length ?m = card (set (mkeys ?m))"
    by (metis wf_map_def mkeys_def distinct_card length_map)
  moreover have "set (mkeys ?m) = (\<lambda>e. rootOf (rc_reader (sr_receipt e))) ` set (credited provider vfy settled envs [])"
    unfolding m tally_keys by (simp add: mkeys_def)
  ultimately show ?thesis
    by (simp add: creditFromSignedReceipts_def Let_def)
qed

text \<open>Two receipts print the same payload only when they are the same receipt.\<close>

lemma split_join:
  "xs \<noteq> [] \<Longrightarrow> \<forall>x \<in> set xs. c \<notin> set x \<Longrightarrow> split_on c (join [c] xs) = xs"
  by (induction "[c]" xs rule: join.induct) (simp_all add: split_on_none split_on_append)

lemma int_str_no_bar: "CHR ''|'' \<notin> set (int_str i)"
proof -
  have "CHR ''|'' \<notin> set (nat_str n)" for n
    using nat_str_digits [of "CHR ''|''" n] by (auto simp: is_digit_char_def)
  then show ?thesis
    by (simp add: int_str_def)
qed

lemma receiptPayload_inj:
  assumes "receiptPayload r = receiptPayload q"
    "CHR ''|'' \<notin> set (rc_reader r)" "CHR ''|'' \<notin> set (rc_provider r)"
    "CHR ''|'' \<notin> set (rc_reader q)" "CHR ''|'' \<notin> set (rc_provider q)"
  shows "r = q"
proof -
  have "split_on (CHR ''|'') (receiptPayload x) = receipt_fields x"
    if "CHR ''|'' \<notin> set (rc_reader x)" "CHR ''|'' \<notin> set (rc_provider x)" for x :: read_receipt
    unfolding receiptPayload_def using that
    by (intro split_join) (simp_all add: receipt_fields_def int_str_no_bar)
  with assms have "receipt_fields r = receipt_fields q"
    by metis
  then show ?thesis
    by (simp add: receipt_fields_def)
qed

section \<open>The reader's book\<close>

record book_entry =
  bk_counter :: int
  bk_creditedBytes :: int
  bk_reads :: int
  bk_lastSeen :: int

record receipt_book =
  rb_reader :: string
  rb_tally :: "(string, book_entry) jsmap"

definition new_book :: "string \<Rightarrow> receipt_book" where
  "new_book reader = \<lparr>rb_reader = reader, rb_tally = []\<rparr>"

definition book_record :: "string \<Rightarrow> int \<Rightarrow> int \<Rightarrow> int \<Rightarrow> receipt_book \<Rightarrow> read_receipt option \<times> receipt_book" where
  "book_record provider bytes latency now b =
     (if provider = rb_reader b then (None, b)
      else if \<not> bytes > 0 then (None, b)
      else let prev = nvl (mget (rb_tally b) provider)
             \<lparr>bk_counter = 0, bk_creditedBytes = 0, bk_reads = 0, bk_lastSeen = now\<rparr>;
           nxt = \<lparr>bk_counter = bk_counter prev + 1, bk_creditedBytes = bk_creditedBytes prev + bytes,
             bk_reads = bk_reads prev + 1, bk_lastSeen = now\<rparr>
         in (Some \<lparr>rc_reader = rb_reader b, rc_provider = provider, rc_counter = bk_counter nxt,
               rc_bytesTotal = bk_creditedBytes nxt, rc_readsTotal = bk_reads nxt,
               rc_lastLatencyMs = latency, rc_ts = now\<rparr>,
             b\<lparr>rb_tally := mset_at provider nxt (rb_tally b)\<rparr>))"

definition book_latest :: "string \<Rightarrow> receipt_book \<Rightarrow> read_receipt option" where
  "book_latest provider b = map_option (\<lambda>t. \<lparr>rc_reader = rb_reader b, rc_provider = provider,
     rc_counter = bk_counter t, rc_bytesTotal = bk_creditedBytes t, rc_readsTotal = bk_reads t,
     rc_lastLatencyMs = 0, rc_ts = bk_lastSeen t\<rparr>) (mget (rb_tally b) provider)"

definition book_sweep :: "int \<Rightarrow> int \<Rightarrow> receipt_book \<Rightarrow> int \<times> receipt_book" where
  "book_sweep now ttlMs b =
     (int (length (filter (\<lambda>(k, t). now - bk_lastSeen t > ttlMs) (rb_tally b))),
      b\<lparr>rb_tally := filter (\<lambda>(k, t). \<not> now - bk_lastSeen t > ttlMs) (rb_tally b)\<rparr>)"

text \<open>A provider's ledger in step with the book.\<close>

definition in_step :: "string \<Rightarrow> receipt_book \<Rightarrow> receipt_ledger \<Rightarrow> bool" where
  "in_step provider b s \<longleftrightarrow> (case mget s (pair_key (rb_reader b) provider) of
     None \<Rightarrow> (case mget (rb_tally b) provider of None \<Rightarrow> True | Some t \<Rightarrow> 0 \<le> bk_counter t \<and> 0 \<le> bk_creditedBytes t)
   | Some p \<Rightarrow> (case mget (rb_tally b) provider of None \<Rightarrow> False
       | Some t \<Rightarrow> 0 \<le> bk_counter t \<and> 0 \<le> bk_creditedBytes t \<and> ps_counter p \<le> bk_counter t
           \<and> ps_bytesTotal p \<le> bk_creditedBytes t \<and> ps_readsTotal p \<le> bk_reads t))"

text \<open>Every receipt the book writes is accepted by a ledger in step with it, which stays in step.\<close>

lemma book_accepted:
  assumes "in_step provider b s" "book_record provider bytes lat now b = (Some r, b')" "vfy r"
  shows "fst (record_receipt vfy r s) = None \<and> in_step provider b' (snd (record_receipt vfy r s))"
proof -
  let ?prev = "nvl (mget (rb_tally b) provider)
    \<lparr>bk_counter = 0, bk_creditedBytes = 0, bk_reads = 0, bk_lastSeen = now\<rparr>"
  from assms(2) have r: "provider \<noteq> rb_reader b" "0 < bytes"
      "r = \<lparr>rc_reader = rb_reader b, rc_provider = provider, rc_counter = bk_counter ?prev + 1,
        rc_bytesTotal = bk_creditedBytes ?prev + bytes, rc_readsTotal = bk_reads ?prev + 1,
        rc_lastLatencyMs = lat, rc_ts = now\<rparr>"
      "b' = b\<lparr>rb_tally := mset_at provider \<lparr>bk_counter = bk_counter ?prev + 1,
        bk_creditedBytes = bk_creditedBytes ?prev + bytes, bk_reads = bk_reads ?prev + 1, bk_lastSeen = now\<rparr> (rb_tally b)\<rparr>"
    by (auto simp: book_record_def Let_def split: if_splits)
  have nn: "0 \<le> bk_counter ?prev" "0 \<le> bk_creditedBytes ?prev"
    using assms(1) by (auto simp: in_step_def split: option.splits)
  show ?thesis
  proof (cases "mget s (pair_key (rb_reader b) provider)")
    case None
    with r nn assms(3) show ?thesis
      by (simp add: record_receipt_def Let_def in_step_def)
  next
    case (Some p)
    with assms(1) obtain t where t: "mget (rb_tally b) provider = Some t" "ps_counter p \<le> bk_counter t"
        "ps_bytesTotal p \<le> bk_creditedBytes t" "ps_readsTotal p \<le> bk_reads t"
      by (auto simp: in_step_def split: option.splits)
    with r nn assms(3) Some show ?thesis
      by (simp add: record_receipt_def Let_def in_step_def)
  qed
qed

lemma in_step_start: "in_step provider (new_book reader) []"
  by (simp add: in_step_def new_book_def)

text \<open>After a sweep the book starts again at one, and a ledger that saw more refuses what it writes.\<close>

lemma book_sweep_refused:
  assumes "mget (rb_tally b) provider = Some t" "now - bk_lastSeen t > ttl" "wf_map (rb_tally b)"
    "mget s (pair_key (rb_reader b) provider) = Some p" "1 \<le> ps_counter p"
    "book_record provider bytes lat now (snd (book_sweep now ttl b)) = (Some r, b')" "vfy r"
  shows "record_receipt vfy r s = (Some (StaleReceipt 1 (ps_counter p)), s)"
proof -
  have "mget (rb_tally (snd (book_sweep now ttl b))) provider = None" "rb_reader (snd (book_sweep now ttl b)) = rb_reader b"
    using assms(1-3) by (simp_all add: book_sweep_def mget_filter)
  with assms(6) have "provider \<noteq> rb_reader b" "0 < bytes" "rc_reader r = rb_reader b" "rc_provider r = provider"
      "rc_counter r = 1" "rc_bytesTotal r = bytes"
    by (auto simp: book_record_def Let_def split: if_splits)
  with assms(4,5,7) show ?thesis
    by (simp add: record_receipt_def Let_def)
qed

end
