(* ===== verification/Settlement.thy ===== *)
theory Settlement
  imports Read_Receipts
begin

unbundle bit_operations_syntax

text \<open>
  Settling the receipts, \<open>src/engine/content/storage-settlement.ts\<close>: the claim and its check,
  mint and burn, the slot each account settles in, and the two record roots. A valid claim never
  exceeds the evidence, every account finds its slot in every period, and the roots are functions
  of the set of files and of the settled totals.
\<close>

record storage_roots =
  publishRoot :: "string option"
  serviceRoot :: "string option"

record settlement_claim = storage_roots +
  creditedBytes :: int
  distinctReaders :: int
  storedBytes :: int
  periodIndex :: int

record settlement_outcome =
  so_minted :: real
  so_burned :: real
  so_net :: real

text \<open>The \<open>rootOf\<close> argument of the source is not read.\<close>

definition settlementFromReceipts :: "string \<Rightarrow> receipt_ledger \<Rightarrow> int \<Rightarrow> int \<Rightarrow> storage_roots \<Rightarrow> settlement_claim" where
  "settlementFromReceipts provider receipts stored period roots =
     (let e = earnings PER_READER_EPOCH_CAP_BYTES MIN_DISTINCT_READERS provider receipts in
      \<lparr>publishRoot = publishRoot roots, serviceRoot = serviceRoot roots,
       creditedBytes = pe_payableBytes e, distinctReaders = pe_distinctReaders e,
       storedBytes = stored, periodIndex = period\<rparr>)"

datatype settlement_refusal = NegativeCredit | PeriodNotAfter int int | CreditUnsupported int int
  | ReadersDiffer int int | BelowReaderFloor int | StoredDiffers int int

definition validateSettlement :: "settlement_claim \<Rightarrow> string \<Rightarrow> receipt_ledger \<Rightarrow> int \<Rightarrow> int \<Rightarrow> settlement_refusal option" where
  "validateSettlement claim provider receipts expectedStored previousPeriod =
     (if creditedBytes claim < 0 then Some NegativeCredit
      else if periodIndex claim \<le> previousPeriod then Some (PeriodNotAfter (periodIndex claim) previousPeriod)
      else let d = earnings PER_READER_EPOCH_CAP_BYTES MIN_DISTINCT_READERS provider receipts in
        if creditedBytes claim > pe_payableBytes d then Some (CreditUnsupported (creditedBytes claim) (pe_payableBytes d))
        else if distinctReaders claim \<noteq> pe_distinctReaders d
          then Some (ReadersDiffer (distinctReaders claim) (pe_distinctReaders d))
        else if pe_distinctReaders d < MIN_DISTINCT_READERS \<and> creditedBytes claim > 0
          then Some (BelowReaderFloor (pe_distinctReaders d))
        else if storedBytes claim \<noteq> expectedStored then Some (StoredDiffers (storedBytes claim) expectedStored)
        else None)"

definition settlementOutcome :: "settlement_claim \<Rightarrow> real \<Rightarrow> real \<Rightarrow> int \<Rightarrow> settlement_outcome" where
  "settlementOutcome claim mintPerByte costRatio freeBytes =
     (let minted = of_int (creditedBytes claim) * mintPerByte;
          chargeable = max 0 (storedBytes claim - freeBytes);
          burned = of_int chargeable * mintPerByte * costRatio
      in \<lparr>so_minted = minted, so_burned = burned, so_net = minted - burned\<rparr>)"

definition settlementPeriodMs :: "int \<Rightarrow> int" where
  "settlementPeriodMs epochMs = epochMs * 30"

text \<open>The slot: 32-bit arithmetic, read as unsigned before the remainder.\<close>

fun fnv_loop :: "string \<Rightarrow> 32 word \<Rightarrow> 32 word" where
  "fnv_loop [] h = h"
| "fnv_loop (c # cs) h = fnv_loop cs ((h XOR of_char c) * 16777619)"

definition settlementSlot :: "string \<Rightarrow> int \<Rightarrow> int" where
  "settlementSlot accountId slots =
     (let h = fnv_loop accountId 2166136261;
          h1 = (h XOR drop_bit 15 h) * 2246822507;
          h2 = h1 XOR drop_bit 13 h1
      in uint h2 mod max 1 slots)"

definition periodIndexAt :: "int \<Rightarrow> int \<Rightarrow> int" where
  "periodIndexAt now periodMs = now div periodMs"

definition MIN_SETTLE_BYTES :: int where
  "MIN_SETTLE_BYTES = 64 * 1024 * 1024"

datatype due_reason = AlreadySettled int | BytesPending int int | SlotNotReached int int | DueInSlot int

record due =
  du_due :: bool
  du_period :: int
  du_reason :: due_reason

definition settlementDue :: "string \<Rightarrow> int \<Rightarrow> int \<Rightarrow> int \<Rightarrow> int \<Rightarrow> int \<Rightarrow> due" where
  "settlementDue accountId now periodMs lastSettled pending mn =
     (let period = periodIndexAt now periodMs in
      if period \<le> lastSettled then \<lparr>du_due = False, du_period = period, du_reason = AlreadySettled period\<rparr>
      else if pending < mn then \<lparr>du_due = False, du_period = period, du_reason = BytesPending pending mn\<rparr>
      else let slots = max 1 (periodMs div 60000); slot = settlementSlot accountId slots;
               elapsed = (now mod periodMs) div 60000 in
        if elapsed < slot then \<lparr>du_due = False, du_period = period, du_reason = SlotNotReached slot elapsed\<rparr>
        else \<lparr>du_due = True, du_period = period, du_reason = DueInSlot slot\<rparr>)"

record file_entry =
  fe_cid :: string
  fe_sizeBytes :: int

definition publish_json :: "file_entry list \<Rightarrow> json" where
  "publish_json sorted_files = JObj [(''v'', JNum 1),
     (''files'', JArr (map (\<lambda>f. JArr [JStr (fe_cid f), JNum (fe_sizeBytes f)]) sorted_files)),
     (''totalBytes'', JNum (foldl (\<lambda>t f. t + fe_sizeBytes f) 0 sorted_files))]"

definition publishRecordRoot :: "crypto \<Rightarrow> file_entry list \<Rightarrow> hex" where
  "publishRecordRoot C files = hashJson C (publish_json (sort_key fe_cid files))"

definition service_json :: "(string \<times> int) list \<Rightarrow> json" where
  "service_json entries = JObj [(''v'', JNum 1),
     (''readers'', JArr (map (\<lambda>(k, b). JArr [JStr k, JNum b]) entries)),
     (''totalBytes'', JNum (foldl (\<lambda>t (k, b). t + b) 0 entries))]"

definition serviceRecordRoot :: "crypto \<Rightarrow> (string, int) jsmap \<Rightarrow> hex" where
  "serviceRecordRoot C settled = hashJson C (service_json (sort_key fst settled))"

definition storedBytesOf :: "file_entry list \<Rightarrow> int" where
  "storedBytesOf files = foldl (\<lambda>t f. t + fe_sizeBytes f) 0 files"

section \<open>The claim\<close>

text \<open>What the honest provider builds is what the validator accepts.\<close>

lemma honest_claim_valid:
  assumes "previous < period"
    "0 \<le> pe_payableBytes (earnings PER_READER_EPOCH_CAP_BYTES MIN_DISTINCT_READERS p s)"
  shows "validateSettlement (settlementFromReceipts p s stored period roots) p s stored previous = None"
proof -
  have "pe_payableBytes (earnings PER_READER_EPOCH_CAP_BYTES MIN_DISTINCT_READERS p s) = 0"
    if "pe_distinctReaders (earnings PER_READER_EPOCH_CAP_BYTES MIN_DISTINCT_READERS p s) < MIN_DISTINCT_READERS"
    using below_floor [OF that] .
  with assms show ?thesis
    by (auto simp: validateSettlement_def settlementFromReceipts_def Let_def)
qed

lemma earnings_nonneg: "0 \<le> pe_payableBytes (earnings cap f p s)"
  by (simp add: earnings_def Let_def split: prod.split)

text \<open>Whatever is accepted is bounded by the evidence, and its period is new.\<close>

lemma valid_claim_bounded:
  assumes "validateSettlement c p s expected previous = None"
  shows "creditedBytes c \<le> pe_payableBytes (earnings PER_READER_EPOCH_CAP_BYTES MIN_DISTINCT_READERS p s)
    \<and> previous < periodIndex c \<and> storedBytes c = expected
    \<and> (0 < creditedBytes c \<longrightarrow> MIN_DISTINCT_READERS \<le> distinctReaders c)"
  using assms by (auto simp: validateSettlement_def Let_def split: if_splits)

section \<open>The slot\<close>

lemma slot_range: "0 \<le> settlementSlot a slots \<and> settlementSlot a slots < max 1 slots"
  by (simp add: settlementSlot_def Let_def)

lemma slot_single: "slots \<le> 1 \<Longrightarrow> settlementSlot a slots = 0"
  using slot_range [of a slots] by simp

text \<open>
  In every period not yet settled there is a moment from which the account is due until the
  period ends, and settling ends it.
\<close>

lemma due_iff:
  "du_due (settlementDue a now periodMs lst pending mn) \<longleftrightarrow>
     lst < now div periodMs \<and> mn \<le> pending
     \<and> settlementSlot a (max 1 (periodMs div 60000)) \<le> (now mod periodMs) div 60000"
  by (auto simp: settlementDue_def periodIndexAt_def Let_def)

lemma due_reached:
  fixes a :: string
  assumes "60000 \<le> periodMs" "lst < k" "mn \<le> pending"
  defines "t \<equiv> k * periodMs + settlementSlot a (periodMs div 60000) * 60000"
  shows "k * periodMs \<le> t \<and> t < (k + 1) * periodMs \<and>
    (\<forall>now. t \<le> now \<and> now < (k + 1) * periodMs \<longrightarrow> du_due (settlementDue a now periodMs lst pending mn))"
proof -
  let ?slot = "settlementSlot a (periodMs div 60000)"
  have n: "1 \<le> periodMs div 60000"
    using assms(1) by simp
  then have mx: "max 1 (periodMs div 60000) = periodMs div 60000"
    by simp
  have slot: "0 \<le> ?slot" "?slot < periodMs div 60000"
    using slot_range [of a "periodMs div 60000"] mx by simp_all
  have "?slot * 60000 < periodMs"
  proof -
    have "?slot * 60000 \<le> (periodMs div 60000 - 1) * 60000"
      using slot(2) by simp
    also have "\<dots> < periodMs"
      using assms(1) by (simp add: algebra_simps)
    finally show ?thesis .
  qed
  then have range: "k * periodMs \<le> t \<and> t < (k + 1) * periodMs"
    using slot(1) by (simp add: t_def algebra_simps)
  have "du_due (settlementDue a now periodMs lst pending mn)" if now: "t \<le> now" "now < (k + 1) * periodMs" for now
  proof -
    have dv: "now div periodMs = k"
      using now range assms(1) by (intro int_div_pos_eq [where r = "now - k * periodMs"]) (auto simp: algebra_simps)
    have "now mod periodMs = now - k * periodMs"
      using minus_div_mult_eq_mod [of now periodMs] dv by simp
    then have "?slot * 60000 \<le> now mod periodMs"
      using now(1) by (simp add: t_def)
    then have "?slot \<le> (now mod periodMs) div 60000"
      by linarith
    with dv mx assms(2,3) show ?thesis
      by (simp add: due_iff)
  qed
  with range show ?thesis
    by blast
qed

lemma settled_not_due: "\<not> du_due (settlementDue a now periodMs (periodIndexAt now periodMs) pending mn)"
  by (simp add: due_iff periodIndexAt_def)

section \<open>The records\<close>

text \<open>The publish root is a function of the set of files: order does not matter, content does.\<close>

lemma publishRoot_perm:
  assumes "mset fs = mset gs" "distinct (map fe_cid fs)"
  shows "publishRecordRoot C fs = publishRecordRoot C gs"
proof -
  have "sort_key fe_cid fs = sort_key fe_cid gs"
    using assms by (intro sort_key_inj_key_eq) (auto simp: distinct_map)
  then show ?thesis
    by (simp add: publishRecordRoot_def)
qed

lemma file_json_inj:
  "sortValue (JArr [JStr (fe_cid a), JNum (fe_sizeBytes a)]) = sortValue (JArr [JStr (fe_cid b), JNum (fe_sizeBytes b)])
     \<Longrightarrow> a = (b :: file_entry)"
  by (cases a, cases b) simp

lemma publishRoot_binds:
  assumes "hex_codec C" "inj (c_utf8 C)" "publishRecordRoot C fs = publishRecordRoot C gs"
    "inj_on (c_sha256 C) {json_preimage C (publish_json (sort_key fe_cid fs)),
       json_preimage C (publish_json (sort_key fe_cid gs))}"
  shows "mset fs = mset gs \<and> storedBytesOf fs = storedBytesOf gs"
proof -
  let ?kv = "\<lambda>hs. [(''v'', JNum 1), (''files'', JArr (map (\<lambda>f. JArr [JStr (fe_cid f), JNum (fe_sizeBytes f)]) hs)),
     (''totalBytes'', JNum (foldl (\<lambda>t f. t + fe_sizeBytes f) 0 hs))]"
  have "sortValue (JObj (?kv (sort_key fe_cid fs))) = sortValue (JObj (?kv (sort_key fe_cid gs)))"
    using hashJson_inj [OF assms(1) assms(3) [unfolded publishRecordRoot_def] assms(4,2)]
    by (simp only: publish_json_def)
  from sortValue_obj_lookup [OF this, of "''files''"]
  have "sortValue (JArr (map (\<lambda>f. JArr [JStr (fe_cid f), JNum (fe_sizeBytes f)]) (sort_key fe_cid fs)))
      = sortValue (JArr (map (\<lambda>f. JArr [JStr (fe_cid f), JNum (fe_sizeBytes f)]) (sort_key fe_cid gs)))"
    by (simp del: sortValue.simps)
  then have "sort_key fe_cid fs = sort_key fe_cid gs"
    by (rule sort_arr_inj [rotated]) (rule file_json_inj)
  then have m: "mset fs = mset gs"
    by (metis mset_sort)
  have "storedBytesOf hs = sum_mset (image_mset fe_sizeBytes (mset hs))" for hs
  proof -
    have "foldl (\<lambda>t f. t + fe_sizeBytes f) a hs = a + sum_mset (image_mset fe_sizeBytes (mset hs))" for a
      by (induction hs arbitrary: a) auto
    then show ?thesis
      by (simp add: storedBytesOf_def)
  qed
  with m show ?thesis
    by simp
qed

end
