(* ===== verification/Custody_Sampling.thy ===== *)
theory Custody_Sampling
  imports Neuron_Prelude
begin

unbundle bit_operations_syntax

text \<open>
  Sampled custody, \<open>src/engine/content/custody-sampling.ts\<close>: how likely a cheating provider is
  caught, which objects a seed selects, and \<open>CustodyLiveness\<close>, the observation that replaced the
  heartbeat lease. The generator works on 32-bit words; its second shift is the arithmetic one of
  the source, which makes one seed select a single object.
\<close>

definition FAILURES_BEFORE_EVICTION :: int where "FAILURES_BEFORE_EVICTION = 2"

section \<open>Detection\<close>

definition detectionProbability :: "real \<Rightarrow> nat \<Rightarrow> real" where
  "detectionProbability heldFraction challenges =
     (let f = min 1 (max 0 heldFraction) in if challenges = 0 then 0 else 1 - f ^ challenges)"

definition cumulativeDetection :: "real \<Rightarrow> nat \<Rightarrow> nat \<Rightarrow> real" where
  "cumulativeDetection heldFraction perRound rounds = detectionProbability heldFraction (perRound * rounds)"

definition challengesForConfidence :: "real \<Rightarrow> real \<Rightarrow> int" where
  "challengesForConfidence heldFraction confidence =
     (let f = min (1 - 1 / 10 ^ 12) (max 0 heldFraction) in
      if f = 0 then 1
      else let c = min (1 - 1 / 10 ^ 12) (max 0 confidence) in \<lceil>ln (1 - c) / ln f\<rceil>)"

definition samplingCost :: "int \<Rightarrow> int \<Rightarrow> int \<Rightarrow> int \<times> int \<times> real" where
  "samplingCost providers objects perRound =
     (let sampled = providers * perRound; exhaustive = providers * objects
      in (sampled, exhaustive, of_int exhaustive / of_int (max 1 sampled)))"

definition cheatingExpectedValue :: "real \<Rightarrow> nat \<Rightarrow> nat \<Rightarrow> real \<Rightarrow> real \<Rightarrow> real" where
  "cheatingExpectedValue heldFraction perRound rounds saved penalty =
     (let caught = cumulativeDetection heldFraction perRound rounds in saved * (1 - caught) - penalty * caught)"

lemma detection_range: "0 \<le> detectionProbability f n \<and> detectionProbability f n \<le> 1"
  by (simp add: detectionProbability_def Let_def power_le_one)

lemma detection_mono:
  assumes "m \<le> n"
  shows "detectionProbability f m \<le> detectionProbability f n"
proof (cases "m = 0")
  case True
  then show ?thesis
    using detection_range [of f n] by (simp add: detectionProbability_def Let_def)
next
  case False
  have "min 1 (max 0 f) ^ n \<le> min 1 (max 0 f) ^ m"
    using assms by (intro power_decreasing) simp_all
  with False assms show ?thesis
    by (simp add: detectionProbability_def Let_def)
qed

text \<open>The number of challenges returned does reach the confidence asked for.\<close>

lemma confidence_reached:
  assumes "0 < f" "f \<le> 1 - 1 / 10 ^ 12" "0 \<le> c" "c \<le> 1 - 1 / 10 ^ 12"
  shows "c \<le> detectionProbability f (nat (challengesForConfidence f c))"
proof -
  let ?k = "\<lceil>ln (1 - c) / ln f\<rceil>"
  have k: "challengesForConfidence f c = ?k"
    using assms by (simp add: challengesForConfidence_def Let_def)
  have f1: "f < 1" and lnf: "ln f < 0"
    using assms by (simp_all add: ln_less_zero)
  have lnc: "ln (1 - c) \<le> 0"
    using assms(3,4) by simp
  have k0: "0 \<le> ?k"
  proof -
    have "0 \<le> ln (1 - c) / ln f"
      using lnc lnf by (simp add: divide_nonpos_neg)
    then show ?thesis
      by linarith
  qed
  have "ln (1 - c) / ln f \<le> of_int ?k"
    by (rule le_of_int_ceiling)
  then have "of_int ?k * ln f \<le> ln (1 - c)"
    using lnf by (simp only: neg_divide_le_eq)
  moreover have "ln (f ^ nat ?k) = of_int ?k * ln f"
    using ln_realpow [of f "nat ?k"] of_nat_nat [OF k0] by (metis of_int_of_nat_eq)
  ultimately have "ln (f ^ nat ?k) \<le> ln (1 - c)"
    by simp
  then have pow: "f ^ nat ?k \<le> 1 - c"
    using assms(1,4) by (subst (asm) ln_le_cancel_iff) simp_all
  have clip: "min 1 (max 0 f) = f"
    using assms(1) f1 by simp
  show ?thesis
  proof (cases "nat ?k = 0")
    case True
    with pow have "c \<le> 0"
      by simp
    then show ?thesis
      using detection_range [of f "nat (challengesForConfidence f c)"] by linarith
  next
    case False
    with pow k clip show ?thesis
      by (simp add: detectionProbability_def Let_def)
  qed
qed

section \<open>The selection\<close>

definition xorshift :: "32 word \<Rightarrow> 32 word" where
  "xorshift a = (let a1 = a XOR push_bit 13 a; a2 = a1 XOR signed_drop_bit 17 a1 in a2 XOR push_bit 5 a2)"

fun choose_loop :: "nat \<Rightarrow> int \<Rightarrow> int \<Rightarrow> 32 word \<Rightarrow> int list \<Rightarrow> int list" where
  "choose_loop 0 n k a chosen = chosen"
| "choose_loop (Suc guard) n k a chosen =
     (if int (length chosen) < k then let a' = xorshift a in choose_loop guard n k a' (sadd (uint a' mod n) chosen)
      else chosen)"

definition selectChallenges :: "int \<Rightarrow> int \<Rightarrow> int \<Rightarrow> int list" where
  "selectChallenges seed objectCount challenges =
     (let k = min (max 0 challenges) objectCount;
          s = word_of_int seed;
          a = (if s = 0 then 1 else s)
      in sort (choose_loop (nat (objectCount * 20)) objectCount k a []))"

lemma choose_loop_inv:
  assumes "distinct chosen" "\<forall>x \<in> set chosen. 0 \<le> x \<and> x < n" "int (length chosen) \<le> max 0 k" "0 < n"
  shows "distinct (choose_loop g n k a chosen) \<and> (\<forall>x \<in> set (choose_loop g n k a chosen). 0 \<le> x \<and> x < n)
    \<and> int (length (choose_loop g n k a chosen)) \<le> max 0 k"
  using assms
proof (induction g arbitrary: a chosen)
  case (Suc g)
  show ?case
  proof (cases "int (length chosen) < k")
    case True
    let ?x = "uint (xorshift a) mod n"
    have "distinct (sadd ?x chosen)" "\<forall>x \<in> set (sadd ?x chosen). 0 \<le> x \<and> x < n"
        "int (length (sadd ?x chosen)) \<le> max 0 k"
      using Suc.prems True by (auto simp: sadd_def)
    from Suc.IH [OF this Suc.prems(4)] True show ?thesis
      by (simp add: Let_def)
  next
    case False
    with Suc.prems show ?thesis
      by simp
  qed
qed simp

text \<open>Sampling is without replacement, within the objects, and never more than asked.\<close>

lemma challenges_valid:
  assumes "0 < n"
  shows "distinct (selectChallenges seed n c) \<and> sorted (selectChallenges seed n c)
    \<and> (\<forall>x \<in> set (selectChallenges seed n c). 0 \<le> x \<and> x < n)
    \<and> int (length (selectChallenges seed n c)) \<le> max 0 c"
proof -
  let ?k = "min (max 0 c) n"
  have inv: "distinct (choose_loop g n ?k a []) \<and> (\<forall>x \<in> set (choose_loop g n ?k a []). 0 \<le> x \<and> x < n)
      \<and> int (length (choose_loop g n ?k a [])) \<le> max 0 ?k" for g a
    by (rule choose_loop_inv) (use assms in simp_all)
  define a :: "32 word" where "a = (if word_of_int seed = (0 :: 32 word) then 1 else word_of_int seed)"
  define g where "g = nat (n * 20)"
  have sel: "selectChallenges seed n c = sort (choose_loop g n ?k a [])"
    by (simp only: selectChallenges_def Let_def a_def g_def)
  define cs where "cs = choose_loop g n ?k a []"
  have le: "max 0 ?k \<le> max 0 c"
    by (simp add: max_def min_def)
  from inv [of g a] have "distinct cs" "\<forall>x \<in> set cs. 0 \<le> x \<and> x < n" "int (length cs) \<le> max 0 ?k"
    unfolding cs_def by blast+
  with order_trans [OF this(3) le] show ?thesis
    unfolding sel cs_def [symmetric] by simp
qed

text \<open>The arithmetic shift sends this seed to zero, where the generator stays.\<close>

lemma xorshift_zero: "xorshift 0 = 0"
  by (simp add: xorshift_def)

lemma xorshift_dead_seed: "xorshift 0xFC001FFF = 0"
  by code_simp

lemma choose_loop_dead: "choose_loop g n k 0 [0] = [0]"
  by (induction g) (simp_all add: xorshift_zero sadd_def Let_def)

lemma dead_seed_selects_one:
  assumes "0 < n" "0 < c"
  shows "selectChallenges 0xFC001FFF n c = [0]"
proof -
  have "nat (n * 20) = Suc (nat (n * 20) - 1)"
    using assms(1) by simp
  moreover have "choose_loop (Suc g) n (min (max 0 c) n) 0xFC001FFF [] = [0]" for g
    using assms by (simp add: xorshift_dead_seed choose_loop_dead sadd_def Let_def)
  ultimately have "choose_loop (nat (n * 20)) n (min (max 0 c) n) 0xFC001FFF [] = [0]"
    by metis
  then show ?thesis
    by (simp add: selectChallenges_def Let_def)
qed

section \<open>Liveness\<close>

record observation =
  ob_ok :: bool
  ob_at :: int

record liveness =
  lv_last :: "(string, observation) jsmap"
  lv_failStreak :: "(string, int) jsmap"
  lv_firstSeen :: "(string, int) jsmap"

definition new_liveness :: liveness where
  "new_liveness = \<lparr>lv_last = [], lv_failStreak = [], lv_firstSeen = []\<rparr>"

definition consecutiveFailures :: "string \<Rightarrow> liveness \<Rightarrow> int" where
  "consecutiveFailures p s = nvl (mget (lv_failStreak s) p) 0"

definition noteRegistered :: "string \<Rightarrow> int \<Rightarrow> liveness \<Rightarrow> liveness" where
  "noteRegistered p since s = (if mhas (lv_firstSeen s) p then s else s\<lparr>lv_firstSeen := mset_at p since (lv_firstSeen s)\<rparr>)"

definition observe :: "string \<Rightarrow> bool \<Rightarrow> int \<Rightarrow> liveness \<Rightarrow> liveness" where
  "observe p good now s = (let s1 = noteRegistered p now s in
     s1\<lparr>lv_last := mset_at p \<lparr>ob_ok = good, ob_at = now\<rparr> (lv_last s1),
        lv_failStreak := mset_at p (if good then 0 else consecutiveFailures p s1 + 1) (lv_failStreak s1)\<rparr>)"

definition live_at :: "string \<Rightarrow> int \<Rightarrow> int \<Rightarrow> liveness \<Rightarrow> bool" where
  "live_at p now maxSilence s =
     (if consecutiveFailures p s \<ge> FAILURES_BEFORE_EVICTION then False
      else (case mget (lv_last s) p of
          Some obs \<Rightarrow> now - ob_at obs < maxSilence
        | None \<Rightarrow> (case mget (lv_firstSeen s) p of None \<Rightarrow> False | Some since \<Rightarrow> now - since < maxSilence)))"

definition forget_provider :: "string \<Rightarrow> liveness \<Rightarrow> liveness" where
  "forget_provider p s = \<lparr>lv_last = mdel p (lv_last s), lv_failStreak = mdel p (lv_failStreak s),
     lv_firstSeen = mdel p (lv_firstSeen s)\<rparr>"

definition liveness_sweep :: "int \<Rightarrow> int \<Rightarrow> liveness \<Rightarrow> int \<times> liveness" where
  "liveness_sweep now retainMs s = (let gone = map fst (filter (\<lambda>(p, first).
       now - (case mget (lv_last s) p of None \<Rightarrow> first | Some obs \<Rightarrow> ob_at obs) > retainMs) (lv_firstSeen s))
     in (int (length gone), fold forget_provider gone s))"

text \<open>A success brings a provider back, two failures in a row remove it, and silence ends the lease.\<close>

lemma success_live: "0 < w \<Longrightarrow> live_at p t w (observe p True t s)"
  by (simp add: live_at_def observe_def consecutiveFailures_def FAILURES_BEFORE_EVICTION_def Let_def)

lemma two_failures_dead:
  assumes "0 \<le> consecutiveFailures p s"
  shows "\<not> live_at p now w (observe p False t' (observe p False t s))"
  using assms by (auto simp: live_at_def observe_def noteRegistered_def consecutiveFailures_def
      FAILURES_BEFORE_EVICTION_def Let_def)

lemma silent_dead:
  assumes "mget (lv_last s) p = Some obs" "ob_at obs + w \<le> now"
  shows "\<not> live_at p now w s"
  using assms by (simp add: live_at_def)

text \<open>Registering again never extends the joining grace.\<close>

lemma grace_is_bounded:
  assumes "mget (lv_last s) p = None" "mget (lv_firstSeen s) p = Some first" "first + w \<le> now"
  shows "\<not> live_at p now w (noteRegistered p again s)"
  using assms by (simp add: live_at_def noteRegistered_def mhas_def)

text \<open>One failure renews the lease as a success would: the observation's outcome is not read.\<close>

lemma failure_renews:
  assumes "consecutiveFailures p s = 0" "0 < w"
  shows "live_at p t w (observe p False t s)"
  using assms by (simp add: live_at_def observe_def noteRegistered_def consecutiveFailures_def
      FAILURES_BEFORE_EVICTION_def Let_def)

end
