(* ===== verification/Provider_Ledger.thy ===== *)
theory Provider_Ledger
  imports Settlement Custody_Sampling Routing
begin

text \<open>
  The storage-provider registry, \<open>src/engine/content/provider-ledger.ts\<close>: registrations, the
  durable clock that leaving does not erase, observed liveness, and the validation and application
  of settle blocks. Settling interprets the contract \<open>metered\<close>: whatever a provider is paid by
  accepted settle blocks is bounded by what its readers signed, and no period pays twice. The
  heartbeat and epoch records of the class are written by nothing and are left out.
\<close>

definition GB_BYTES :: int where "GB_BYTES = 1073741824"

section \<open>Timing\<close>

record timing_profile =
  tp_heartbeatIntervalMs :: int
  tp_epochMs :: int

definition normal_timing :: timing_profile where
  "normal_timing = \<lparr>tp_heartbeatIntervalMs = 4 * 60 * 60 * 1000, tp_epochMs = 24 * 60 * 60 * 1000\<rparr>"

definition fast_timing :: timing_profile where
  "fast_timing = \<lparr>tp_heartbeatIntervalMs = 2 * 60 * 1000, tp_epochMs = 12 * 60 * 1000\<rparr>"

record storage_timing =
  HEARTBEAT_INTERVAL_MS :: int
  REWARD_EPOCH_MS :: int
  MAX_HEARTBEATS_PER_EPOCH :: int
  MAX_HEARTBEATS_PER_EPOCH_HARD :: int
  MAX_OFFLINE_MS :: int
  HEARTBEAT_GRACE_MS :: int

text \<open>A profile whose epoch is not a whole number of intervals throws; so does a zero interval.\<close>

definition applyStorageTiming :: "timing_profile \<Rightarrow> storage_timing option" where
  "applyStorageTiming p =
     (if tp_heartbeatIntervalMs p = 0 \<or> tp_epochMs p mod tp_heartbeatIntervalMs p \<noteq> 0
         \<or> tp_epochMs p div tp_heartbeatIntervalMs p < 1 then None
      else let perEpoch = tp_epochMs p div tp_heartbeatIntervalMs p in
        Some \<lparr>HEARTBEAT_INTERVAL_MS = tp_heartbeatIntervalMs p, REWARD_EPOCH_MS = tp_epochMs p,
          MAX_HEARTBEATS_PER_EPOCH = perEpoch, MAX_HEARTBEATS_PER_EPOCH_HARD = 4 * perEpoch,
          MAX_OFFLINE_MS = 3 * tp_heartbeatIntervalMs p,
          HEARTBEAT_GRACE_MS = min 60000 (tp_heartbeatIntervalMs p div 8)\<rparr>)"

definition claimableEpochDay :: "int \<Rightarrow> storage_timing \<Rightarrow> int" where
  "claimableEpochDay now T = now div REWARD_EPOCH_MS T - 1"

lemma timing_ratio:
  "applyStorageTiming p = Some T \<Longrightarrow>
     MAX_HEARTBEATS_PER_EPOCH T * HEARTBEAT_INTERVAL_MS T = REWARD_EPOCH_MS T \<and> 1 \<le> MAX_HEARTBEATS_PER_EPOCH T"
  by (auto simp: applyStorageTiming_def Let_def split: if_splits)

lemma profiles_agree: "map_option MAX_HEARTBEATS_PER_EPOCH (applyStorageTiming normal_timing)
    = map_option MAX_HEARTBEATS_PER_EPOCH (applyStorageTiming fast_timing)"
  by (simp add: applyStorageTiming_def normal_timing_def fast_timing_def Let_def)

text \<open>A claimable epoch is over by the time it may be claimed.\<close>

lemma claimable_over:
  assumes "0 < REWARD_EPOCH_MS T"
  shows "(claimableEpochDay now T + 1) * REWARD_EPOCH_MS T \<le> now"
  using assms by (simp add: claimableEpochDay_def) (metis div_mult_mod_eq le_add_same_cancel1 pos_mod_sign)

section \<open>State\<close>

record provider_state =
  pv_pub :: string
  pv_deviceId :: string
  pv_registeredAt :: int
  pv_capacityGB :: int
  pv_deviceClass :: "string option"
  pv_declaredConcurrency :: "int option"
  pv_lastActualStoredBytes :: int
  pv_lastHeartbeat :: int
  pv_heartbeatsLast24h :: int
  pv_smokeAddr :: "string option"
  pv_countryCode :: "string option"
  pv_avgLatencyMs :: real
  pv_spotCheckPassRate :: real
  pv_score :: real
  pv_lastSettledPeriod :: "int option"
  pv_discovered :: bool

record durable_record =
  du_firstRegisteredAt :: int
  du_lastHeartbeat :: int

record provider_ledger =
  pl_providers :: "(string, provider_state) jsmap"
  pl_discovered :: "(string, provider_state) jsmap"
  pl_durable :: "(string, durable_record) jsmap"
  pl_settledBytes :: "(string, (string, int) jsmap) jsmap"
  pl_lastSettledPeriod :: "(string, int) jsmap"
  pl_capacityHistory :: "(string, (int \<times> int) list) jsmap"
  pl_liveness :: liveness

definition new_provider_ledger :: provider_ledger where
  "new_provider_ledger = \<lparr>pl_providers = [], pl_discovered = [], pl_durable = [], pl_settledBytes = [],
     pl_lastSettledPeriod = [], pl_capacityHistory = [], pl_liveness = new_liveness\<rparr>"

definition pl_get :: "string \<Rightarrow> provider_ledger \<Rightarrow> provider_state option" where
  "pl_get p s = (case mget (pl_providers s) p of Some v \<Rightarrow> Some v | None \<Rightarrow> mget (pl_discovered s) p)"

text \<open>Asking is also noting: an unknown provider's grace starts at its registration.\<close>

definition isLive :: "storage_timing \<Rightarrow> string \<Rightarrow> int \<Rightarrow> provider_ledger \<Rightarrow> bool \<times> provider_ledger" where
  "isLive T p now s = (case pl_get p s of
     None \<Rightarrow> (False, s)
   | Some v \<Rightarrow> if pv_capacityGB v \<le> 0 then (False, s)
       else let l = noteRegistered p (pv_registeredAt v) (pl_liveness s) in
         (live_at p now (MAX_OFFLINE_MS T) l, s\<lparr>pl_liveness := l\<rparr>))"

definition leaseExpiresAt :: "storage_timing \<Rightarrow> string \<Rightarrow> provider_ledger \<Rightarrow> int" where
  "leaseExpiresAt T p s = (case pl_get p s of
     None \<Rightarrow> 0
   | Some v \<Rightarrow> if pv_capacityGB v \<le> 0 then 0
       else (if pv_lastHeartbeat v > 0 then pv_lastHeartbeat v else pv_registeredAt v) + MAX_OFFLINE_MS T)"

definition allProviders :: "provider_ledger \<Rightarrow> provider_state list" where
  "allProviders s =
     (let merged = fold (\<lambda>(p, v) m. mset_at p v m) (pl_providers s)
         (fold (\<lambda>(p, v) m. mset_at p v m) (pl_discovered s) [])
      in sort_desc pv_score (filter (\<lambda>v. pv_capacityGB v > 0) (mvals merged)))"

fun filter_live :: "storage_timing \<Rightarrow> int \<Rightarrow> provider_state list \<Rightarrow> provider_ledger
    \<Rightarrow> provider_state list \<times> provider_ledger" where
  "filter_live T now [] s = ([], s)"
| "filter_live T now (v # vs) s = (case isLive T (pv_pub v) now s of (b, s1) \<Rightarrow>
     (case filter_live T now vs s1 of (ws, s2) \<Rightarrow> (if b then v # ws else ws, s2)))"

definition liveProviders :: "storage_timing \<Rightarrow> int \<Rightarrow> provider_ledger \<Rightarrow> provider_state list \<times> provider_ledger" where
  "liveProviders T now s = filter_live T now (allProviders s) s"

definition setDiscovered :: "provider_state list \<Rightarrow> provider_ledger \<Rightarrow> provider_ledger" where
  "setDiscovered rs s = s\<lparr>pl_discovered := fold (\<lambda>r m. mset_at (pv_pub r) r m) rs []\<rparr>"

definition isAuthoritative :: "string \<Rightarrow> provider_ledger \<Rightarrow> bool" where
  "isAuthoritative p s = mhas (pl_providers s) p"

definition freeBytes :: "string \<Rightarrow> provider_ledger \<Rightarrow> int" where
  "freeBytes p s = (case pl_get p s of
     None \<Rightarrow> 0 | Some v \<Rightarrow> max 0 (pv_capacityGB v * GB_BYTES - pv_lastActualStoredBytes v))"

section \<open>Validation\<close>

definition settledFor :: "string \<Rightarrow> provider_ledger \<Rightarrow> (string, int) jsmap" where
  "settledFor p s = nvl (mget (pl_settledBytes s) p) []"

definition block_receipts :: "'a content_scheme \<Rightarrow> signed_receipt list" where
  "block_receipts b = (case b_storage b of None \<Rightarrow> [] | Some st \<Rightarrow> nvl (sp_receipts st) [])"

definition receipt_verifier :: "crypto \<Rightarrow> payload_verifier" where
  "receipt_verifier C = (\<lambda>payload signature reader. verify_str C signature payload reader)"

text \<open>No \<open>rootOf\<close> is passed: a reader is its own human here.\<close>

definition settlementCredit :: "crypto \<Rightarrow> string \<Rightarrow> signed_receipt list \<Rightarrow> provider_ledger \<Rightarrow> credit" where
  "settlementCredit C p rs s = creditFromSignedReceipts p rs (receipt_verifier C) (settledFor p s)
     PER_READER_EPOCH_CAP_BYTES MIN_DISTINCT_READERS (\<lambda>x. x)"

datatype storage_error = CapacityNotPositive | NotAProvider | MissingPayload | MissingPeriod
  | PeriodReplayed int int | TooManyReceipts int | NothingSupported int | AmountNotPositive | AmountExceeds int int

definition pl_validate :: "crypto \<Rightarrow> 'a content_scheme \<Rightarrow> provider_ledger \<Rightarrow> storage_error option" where
  "pl_validate C b s = (case b_type b of
     StorageRegister \<Rightarrow> (case Option.bind (b_storage b) sp_capacityGB of
         None \<Rightarrow> Some CapacityNotPositive
       | Some cap \<Rightarrow> if cap \<le> 0 then Some CapacityNotPositive else None)
   | StorageDeregister \<Rightarrow> (case mget (pl_providers s) (b_accountId b) of
         None \<Rightarrow> Some NotAProvider
       | Some v \<Rightarrow> if pv_capacityGB v \<le> 0 then Some NotAProvider else None)
   | StorageSettle \<Rightarrow> (case b_storage b of
         None \<Rightarrow> Some MissingPayload
       | Some st \<Rightarrow> (case sp_periodIndex st of
           None \<Rightarrow> Some MissingPeriod
         | Some period \<Rightarrow> let lst = nvl (mget (pl_lastSettledPeriod s) (b_accountId b)) (-1) in
             if period \<le> lst then Some (PeriodReplayed period lst)
             else let rs = nvl (sp_receipts st) [] in
               if int (length rs) > MAX_RECEIPTS_PER_SETTLEMENT then Some (TooManyReceipts (int (length rs)))
               else let d = settlementCredit C (b_accountId b) (block_receipts b) s in
                 if cd_payableBytes d \<le> 0 then Some (NothingSupported (cd_distinctReaders d))
                 else let claimed = nvl (b_amount b) 0 in
                   if \<not> claimed > 0 then Some AmountNotPositive
                   else if claimed > cd_payableBytes d then Some (AmountExceeds claimed (cd_payableBytes d))
                   else None))
   | _ \<Rightarrow> None)"

section \<open>Application\<close>

definition updateScore :: "provider_state \<Rightarrow> provider_state" where
  "updateScore v =
     (let latencyFactor = (if pv_avgLatencyMs v > 0 then max (1 / 10) (min 1 (1000 / pv_avgLatencyMs v)) else 1);
          spotFactor = max (1 / 10) (min 1 (pv_spotCheckPassRate v))
      in v\<lparr>pv_score := latencyFactor * spotFactor\<rparr>)"

definition pushCapacity :: "string \<Rightarrow> int \<Rightarrow> int \<Rightarrow> provider_ledger \<Rightarrow> provider_ledger" where
  "pushCapacity p ts cap s =
     s\<lparr>pl_capacityHistory := mset_at p (nvl (mget (pl_capacityHistory s) p) [] @ [(ts, cap)]) (pl_capacityHistory s)\<rparr>"

definition applyRegister :: "'a content_scheme \<Rightarrow> provider_ledger \<Rightarrow> provider_ledger" where
  "applyRegister b s =
     (let p = b_accountId b;
          cap = nvl (Option.bind (b_storage b) sp_capacityGB) 0;
          existing = mget (pl_providers s) p;
          d = nvl (mget (pl_durable s) p) \<lparr>du_firstRegisteredAt = b_timestamp b, du_lastHeartbeat = 0\<rparr>;
          v = updateScore \<lparr>pv_pub = p,
            pv_deviceId = nvl (Option.bind (b_storage b) sp_deviceId) (nvl (map_option pv_deviceId existing) ''''),
            pv_registeredAt = du_firstRegisteredAt d, pv_capacityGB = cap,
            pv_deviceClass = Option.bind (b_storage b) sp_deviceClass,
            pv_declaredConcurrency = Option.bind (b_storage b) sp_declaredConcurrency,
            pv_lastActualStoredBytes = nvl (map_option pv_lastActualStoredBytes existing) 0,
            pv_lastHeartbeat = du_lastHeartbeat d,
            pv_heartbeatsLast24h = nvl (map_option pv_heartbeatsLast24h existing) 0,
            pv_smokeAddr = Option.bind existing pv_smokeAddr, pv_countryCode = Option.bind existing pv_countryCode,
            pv_avgLatencyMs = nvl (map_option pv_avgLatencyMs existing) 0,
            pv_spotCheckPassRate = nvl (map_option pv_spotCheckPassRate existing) 1,
            pv_score = nvl (map_option pv_score existing) 1,
            pv_lastSettledPeriod = None, pv_discovered = False\<rparr>
      in pushCapacity p (b_timestamp b) cap
           (s\<lparr>pl_durable := mset_at p d (pl_durable s), pl_providers := mset_at p v (pl_providers s)\<rparr>))"

definition applyDeregister :: "'a content_scheme \<Rightarrow> provider_ledger \<Rightarrow> provider_ledger" where
  "applyDeregister b s = (let p = b_accountId b; s1 = pushCapacity p (b_timestamp b) 0 s in
     s1\<lparr>pl_providers := mdel p (pl_providers s1)\<rparr>)"

definition advance :: "crypto \<Rightarrow> string \<Rightarrow> signed_receipt \<Rightarrow> (string, int) jsmap \<Rightarrow> (string, int) jsmap" where
  "advance C p env m = (let r = sr_receipt env in
     if rc_provider r \<noteq> p \<or> rc_reader r = rc_provider r then m
     else if \<not> receipt_verifier C (receiptPayload r) (sr_signature env) (rc_reader r) then m
     else let prev = nvl (mget m (rc_reader r)) 0 in
       if rc_bytesTotal r > prev then mset_at (rc_reader r) (rc_bytesTotal r) m else m)"

definition applySettle :: "crypto \<Rightarrow> 'a content_scheme \<Rightarrow> provider_ledger \<Rightarrow> provider_ledger" where
  "applySettle C b s = (case b_storage b of
     None \<Rightarrow> s
   | Some st \<Rightarrow> (case sp_periodIndex st of
       None \<Rightarrow> s
     | Some period \<Rightarrow> let p = b_accountId b in
         s\<lparr>pl_settledBytes := mset_at p (fold (advance C p) (nvl (sp_receipts st) []) (settledFor p s)) (pl_settledBytes s),
           pl_lastSettledPeriod := mset_at p period (pl_lastSettledPeriod s),
           pl_providers := (case mget (pl_providers s) p of
               None \<Rightarrow> pl_providers s
             | Some v \<Rightarrow> mset_at p (v\<lparr>pv_lastSettledPeriod := Some period\<rparr>) (pl_providers s))\<rparr>))"

definition pl_apply :: "crypto \<Rightarrow> 'a content_scheme \<Rightarrow> provider_ledger \<Rightarrow> provider_ledger" where
  "pl_apply C b s = (case b_type b of StorageRegister \<Rightarrow> applyRegister b s
     | StorageDeregister \<Rightarrow> applyDeregister b s | StorageSettle \<Rightarrow> applySettle C b s | _ \<Rightarrow> s)"

text \<open>\<open>clear()\<close>, which leaves the settled baselines, the last periods and the observations.\<close>

definition pl_clear :: "provider_ledger \<Rightarrow> provider_ledger" where
  "pl_clear s = s\<lparr>pl_providers := [], pl_discovered := [], pl_durable := [], pl_capacityHistory := []\<rparr>"

section \<open>Settlement pays no byte twice\<close>

definition settled_ok :: "provider_ledger \<Rightarrow> bool" where
  "settled_ok s \<longleftrightarrow> (\<forall>p m. mget (pl_settledBytes s) p = Some m \<longrightarrow> wf_map m \<and> (\<forall>(k, v) \<in> set m. 0 \<le> v))"

definition settled_total :: "string \<Rightarrow> provider_ledger \<Rightarrow> int" where
  "settled_total p s = total_of (settledFor p s)"

definition settle_step :: "crypto \<Rightarrow> 'a content_scheme \<Rightarrow> provider_ledger \<Rightarrow> provider_ledger" where
  "settle_step C b s = (if pl_validate C b s = None then pl_apply C b s else s)"

definition settle_pay :: "crypto \<Rightarrow> string \<Rightarrow> 'a content_scheme \<Rightarrow> provider_ledger \<Rightarrow> int" where
  "settle_pay C p b s = (if b_type b = StorageSettle \<and> b_accountId b = p \<and> pl_validate C b s = None
     then nvl (b_amount b) 0 else 0)"

abbreviation at0 :: "('k, int) jsmap \<Rightarrow> 'k \<Rightarrow> int" where
  "at0 m k \<equiv> nvl (mget m k) 0"

definition base_ok :: "(string, int) jsmap \<Rightarrow> bool" where
  "base_ok m \<longleftrightarrow> wf_map m \<and> (\<forall>k. 0 \<le> at0 m k)"

lemma total_sum:
  assumes "wf_map m" "finite K" "set (mkeys m) \<subseteq> K"
  shows "total_of m = (\<Sum>k \<in> K. at0 m k)"
proof -
  have d: "distinct (map fst m)"
    using assms(1) by (simp add: wf_map_def)
  have "map snd m = map (\<lambda>k. at0 m k) (map fst m)"
    using d by (auto simp: map_of_is_SomeI intro!: nth_equalityI)
  then have "total_of m = (\<Sum>k \<in> set (mkeys m). at0 m k)"
    using d by (simp only: mkeys_def sum_list_distinct_conv_sum_set)
  also have "\<dots> = (\<Sum>k \<in> K. at0 m k)"
    using assms(2,3) by (intro sum.mono_neutral_left) (auto simp: mkeys_def map_of_eq_None_iff [symmetric])
  finally show ?thesis .
qed

lemma advance_cases:
  obtains "advance C p env m = m" "countable p (receipt_verifier C) env \<Longrightarrow>
      rc_bytesTotal (sr_receipt env) \<le> at0 m (rc_reader (sr_receipt env))"
  | "advance C p env m = mset_at (rc_reader (sr_receipt env)) (rc_bytesTotal (sr_receipt env)) m"
    "countable p (receipt_verifier C) env" "at0 m (rc_reader (sr_receipt env)) < rc_bytesTotal (sr_receipt env)"
proof (cases "countable p (receipt_verifier C) env \<and> at0 m (rc_reader (sr_receipt env)) < rc_bytesTotal (sr_receipt env)")
  case True
  then show thesis
    using that(2) by (simp add: advance_def countable_def Let_def)
next
  case False
  then show thesis
    using that(1) by (auto simp: advance_def countable_def Let_def)
qed

lemma advance_step:
  assumes "base_ok m"
  shows "base_ok (advance C p env m) \<and> (\<forall>k. at0 m k \<le> at0 (advance C p env m) k)
    \<and> (countable p (receipt_verifier C) env \<longrightarrow>
        rc_bytesTotal (sr_receipt env) \<le> at0 (advance C p env m) (rc_reader (sr_receipt env)))"
proof (cases rule: advance_cases [where C = C and p = p and env = env and m = m])
  case 1
  with assms show ?thesis
    by simp
next
  case 2
  moreover have "0 \<le> rc_bytesTotal (sr_receipt env)"
    using assms 2(3) unfolding base_ok_def by (meson le_less_trans less_imp_le)
  ultimately show ?thesis
    using assms by (auto simp: base_ok_def)
qed

lemma advance_fold:
  assumes "base_ok m"
  shows "base_ok (fold (advance C p) es m) \<and> (\<forall>k. at0 m k \<le> at0 (fold (advance C p) es m) k)
    \<and> (\<forall>env \<in> set es. countable p (receipt_verifier C) env \<longrightarrow>
        rc_bytesTotal (sr_receipt env) \<le> at0 (fold (advance C p) es m) (rc_reader (sr_receipt env)))"
  using assms
proof (induction es arbitrary: m)
  case (Cons e es)
  note st = advance_step [OF Cons.prems, of C p e]
  with Cons.IH [of "advance C p e m"] show ?case
    by (auto intro: order_trans)
qed simp

text \<open>The bytes credited from a block are bytes by which the block moves the baselines.\<close>

lemma credited_moves:
  assumes "base_ok m"
  shows "(\<Sum>e \<leftarrow> credited p (receipt_verifier C) m es []. above m e)
    \<le> total_of (fold (advance C p) es m) - total_of m"
proof -
  let ?f = "fold (advance C p) es m" and ?cr = "credited p (receipt_verifier C) m es []"
  let ?rd = "\<lambda>e. rc_reader (sr_receipt e)"
  let ?K = "set (mkeys m) \<union> set (mkeys ?f) \<union> set (map ?rd ?cr)"
  let ?D = "\<lambda>k. at0 ?f k - at0 m k"
  note fo = advance_fold [OF assms, of C p es]
  have D: "0 \<le> ?D k" for k
    using fo by simp
  have "above m e \<le> ?D (?rd e)" if "e \<in> set ?cr" for e
  proof -
    have "rc_bytesTotal (sr_receipt e) \<le> at0 ?f (?rd e)"
      using fo credited_props [OF that] by blast
    then show ?thesis
      using D [of "?rd e"] by (simp add: above_def)
  qed
  then have "(\<Sum>e \<leftarrow> ?cr. above m e) \<le> (\<Sum>e \<leftarrow> ?cr. ?D (?rd e))"
    by (rule sum_list_mono)
  also have "\<dots> = sum_list (map ?D (map ?rd ?cr))"
    by (simp add: comp_def)
  also have "\<dots> = (\<Sum>k \<in> set (map ?rd ?cr). ?D k)"
    by (rule sum_list_distinct_conv_sum_set) (rule credited_distinct)
  also have "\<dots> \<le> (\<Sum>k \<in> ?K. ?D k)"
    using D by (intro sum_mono2) auto
  also have "\<dots> = total_of ?f - total_of m"
  proof -
    have "total_of ?f = (\<Sum>k \<in> ?K. at0 ?f k)"
      by (rule total_sum) (use fo in \<open>auto simp: base_ok_def\<close>)
    moreover have "total_of m = (\<Sum>k \<in> ?K. at0 m k)"
      by (rule total_sum) (use assms in \<open>auto simp: base_ok_def\<close>)
    ultimately show ?thesis
      by (simp only: sum_subtractf)
  qed
  finally show ?thesis .
qed

lemma settledFor_ok:
  assumes "settled_ok s"
  shows "base_ok (settledFor p s)"
proof (cases "mget (pl_settledBytes s) p")
  case (Some m)
  with assms have m: "wf_map m" "\<forall>(k, v) \<in> set m. 0 \<le> v"
    by (auto simp: settled_ok_def)
  have "0 \<le> at0 m k" for k
    using m(2) by (cases "mget m k") (auto dest: map_of_SomeD)
  with m(1) Some show ?thesis
    by (simp add: settledFor_def base_ok_def)
qed (simp add: settledFor_def base_ok_def)

lemma base_ok_entries: "base_ok m \<longleftrightarrow> wf_map m \<and> (\<forall>(k, v) \<in> set m. 0 \<le> v)"
proof -
  have "wf_map m \<Longrightarrow> (\<forall>k. 0 \<le> at0 m k) \<longleftrightarrow> (\<forall>(k, v) \<in> set m. 0 \<le> v)"
    by (auto simp: mget_in [symmetric] nvl_def split: option.splits)
  then show ?thesis
    by (auto simp: base_ok_def)
qed

lemma settled_ok_iff: "settled_ok s \<longleftrightarrow> (\<forall>p m. mget (pl_settledBytes s) p = Some m \<longrightarrow> base_ok m)"
  by (simp add: settled_ok_def base_ok_entries)

text \<open>What a block does to the baselines.\<close>

lemma pl_apply_settled:
  "pl_settledBytes (pl_apply C b s) =
     (if b_type b = StorageSettle \<and> Option.bind (b_storage b) sp_periodIndex \<noteq> None
      then mset_at (b_accountId b) (fold (advance C (b_accountId b)) (block_receipts b) (settledFor (b_accountId b) s))
        (pl_settledBytes s)
      else pl_settledBytes s)"
  by (auto simp: pl_apply_def applyRegister_def applyDeregister_def applySettle_def pushCapacity_def
      block_receipts_def Let_def split: block_type.split option.split)

lemma settled_ok_apply: "settled_ok s \<Longrightarrow> settled_ok (pl_apply C b s)"
  using advance_fold [OF settledFor_ok]
  unfolding settled_ok_iff pl_apply_settled by (auto simp del: not_None_eq split: if_splits)

lemma settled_total_apply:
  "settled_total p (pl_apply C b s) =
     (if b_type b = StorageSettle \<and> Option.bind (b_storage b) sp_periodIndex \<noteq> None \<and> b_accountId b = p
      then total_of (fold (advance C p) (block_receipts b) (settledFor p s)) else settled_total p s)"
  by (simp add: settled_total_def settledFor_def [of p "pl_apply C b s"] pl_apply_settled del: not_None_eq)
     (simp add: settledFor_def)

text \<open>The amount of an accepted settle block is covered by the receipts inside it.\<close>

lemma settle_valid:
  assumes "pl_validate C b s = None" "b_type b = StorageSettle"
  obtains st period where "b_storage b = Some st" "sp_periodIndex st = Some period"
    "nvl (mget (pl_lastSettledPeriod s) (b_accountId b)) (-1) < period"
    "0 < nvl (b_amount b) 0"
    "nvl (b_amount b) 0 \<le> cd_payableBytes (settlementCredit C (b_accountId b) (block_receipts b) s)"
  using assms by (auto simp: pl_validate_def Let_def split: option.splits if_splits)

lemma settle_covered:
  assumes "pl_validate C b s = None" "b_type b = StorageSettle" "settled_ok s"
  shows "nvl (b_amount b) 0 \<le> total_of (fold (advance C (b_accountId b)) (block_receipts b) (settledFor (b_accountId b) s))
    - settled_total (b_accountId b) s"
proof -
  let ?p = "b_accountId b" and ?m = "settledFor (b_accountId b) s"
  obtain st period where "nvl (b_amount b) 0 \<le> cd_payableBytes (settlementCredit C ?p (block_receipts b) s)"
    using settle_valid [OF assms(1,2)] by metis
  also have "\<dots> \<le> (\<Sum>e \<leftarrow> credited ?p (receipt_verifier C) ?m (block_receipts b) []. above ?m e)"
    unfolding settlementCredit_def by (rule credit_bounds(2)) (simp add: PER_READER_EPOCH_CAP_BYTES_def)
  also have "\<dots> \<le> total_of (fold (advance C ?p) (block_receipts b) ?m) - total_of ?m"
    by (rule credited_moves) (rule settledFor_ok [OF assms(3)])
  finally show ?thesis
    by (simp add: settled_total_def)
qed

lemma settled_total_mono: "settled_ok s \<Longrightarrow> settled_total p s \<le> settled_total p (pl_apply C b s)"
proof -
  assume ok: "settled_ok s"
  have "0 \<le> (\<Sum>e \<leftarrow> credited p (receipt_verifier C) (settledFor p s) (block_receipts b) []. above (settledFor p s) e)"
    by (intro sum_list_nonneg) (auto simp: above_def)
  also have "\<dots> \<le> total_of (fold (advance C p) (block_receipts b) (settledFor p s)) - total_of (settledFor p s)"
    by (rule credited_moves [OF settledFor_ok [OF ok]])
  finally have "settled_total p s \<le> total_of (fold (advance C p) (block_receipts b) (settledFor p s))"
    by (simp add: settled_total_def)
  then show ?thesis
    unfolding settled_total_apply by (simp del: not_None_eq)
qed

interpretation settlements: metered settled_ok "settle_step C" "settle_pay C p" "settled_total p"
proof
  fix s :: provider_ledger and b :: "'a content_scheme"
  assume s: "settled_ok s"
  show "settled_ok (settle_step C b s)"
    by (auto simp: settle_step_def intro: settled_ok_apply s)
  show "settle_pay C p b s \<le> settled_total p (settle_step C b s) - settled_total p s"
  proof (cases "b_type b = StorageSettle \<and> b_accountId b = p \<and> pl_validate C b s = None")
    case True
    then have "Option.bind (b_storage b) sp_periodIndex \<noteq> None"
      using settle_valid [of C b s] by (metis bind.bind_lunit option.distinct(1))
    with True settle_covered [of C b s] s show ?thesis
      by (simp add: settle_pay_def settle_step_def settled_total_apply del: not_None_eq)
  next
    case False
    with settled_total_mono [OF s, of p C b] show ?thesis
      by (auto simp: settle_pay_def settle_step_def)
  qed
qed

text \<open>What a provider was paid by the accepted blocks of a run.\<close>

fun settled_pay :: "crypto \<Rightarrow> string \<Rightarrow> 'a content_scheme list \<Rightarrow> provider_ledger \<Rightarrow> int" where
  "settled_pay C p [] s = 0"
| "settled_pay C p (b # bs) s = settle_pay C p b s + settled_pay C p bs (settle_step C b s)"

lemma settled_pay_bound:
  "settled_pay C p bs new_provider_ledger \<le> settled_total p (fold (settle_step C) bs new_provider_ledger)"
proof -
  have "settled_pay C p bs s = settlements.paid C p bs s" for s
    by (induction bs arbitrary: s) simp_all
  moreover have "settled_ok new_provider_ledger" "settled_total p new_provider_ledger = 0"
    by (simp_all add: settled_ok_def new_provider_ledger_def settled_total_def settledFor_def)
  ultimately show ?thesis
    using settlements.paid_bound [where s = new_provider_ledger and as = bs and C = C and p = p] by simp
qed

text \<open>A settled period is never settled again.\<close>

lemma period_closed:
  assumes "pl_validate C b s = None" "b_type b = StorageSettle"
    "b_type b' = StorageSettle" "b_accountId b' = b_accountId b"
    "Option.bind (b_storage b') sp_periodIndex = Option.bind (b_storage b) sp_periodIndex"
  shows "pl_validate C b' (pl_apply C b s) \<noteq> None"
proof
  assume v: "pl_validate C b' (pl_apply C b s) = None"
  obtain st period where b: "b_storage b = Some st" "sp_periodIndex st = Some period"
    using settle_valid [OF assms(1,2)] by metis
  obtain st' period' where b': "b_storage b' = Some st'" "sp_periodIndex st' = Some period'"
      "nvl (mget (pl_lastSettledPeriod (pl_apply C b s)) (b_accountId b')) (-1) < period'"
    using settle_valid [OF v assms(3)] by metis
  with b assms show False
    by (simp add: pl_apply_def applySettle_def Let_def)
qed

section \<open>Registration\<close>

lemma register_get:
  "mget (pl_providers (applyRegister b s)) (b_accountId b) \<noteq> None"
  by (simp add: applyRegister_def pushCapacity_def Let_def)

text \<open>Leaving and coming back keeps the first registration time.\<close>

lemma churn_keeps_clock:
  assumes "b_accountId r1 = p" "b_accountId d = p" "b_accountId r2 = p"
  shows "map_option pv_registeredAt (mget (pl_providers (applyRegister r2 (applyDeregister d (applyRegister r1 s)))) p)
    = map_option pv_registeredAt (mget (pl_providers (applyRegister r1 s)) p)"
  using assms by (simp add: applyRegister_def applyDeregister_def pushCapacity_def updateScore_def Let_def)

lemma deregistered_gone:
  "mget (pl_discovered s) (b_accountId b) = None \<Longrightarrow> fst (isLive T (b_accountId b) now (applyDeregister b s)) = False"
  by (simp add: isLive_def pl_get_def applyDeregister_def pushCapacity_def Let_def)

text \<open>A provider nobody has probed is live for one window after it first registered, and no longer.\<close>

lemma unprobed_live:
  assumes "mget (pl_providers s) p = Some v" "0 < pv_capacityGB v" "mget (lv_last (pl_liveness s)) p = None"
    "mget (lv_firstSeen (pl_liveness s)) p = None" "mget (lv_failStreak (pl_liveness s)) p = None"
  shows "fst (isLive T p now s) \<longleftrightarrow> now < pv_registeredAt v + MAX_OFFLINE_MS T"
  using assms by (auto simp: isLive_def pl_get_def noteRegistered_def mhas_def live_at_def
      consecutiveFailures_def FAILURES_BEFORE_EVICTION_def Let_def)

lemma score_range: "1 / 100 \<le> pv_score (updateScore v) \<and> pv_score (updateScore v) \<le> 1"
proof -
  define a where "a = (if pv_avgLatencyMs v > 0 then max (1 / 10) (min 1 (1000 / pv_avgLatencyMs v)) else 1)"
  define c where "c = max (1 / 10) (min 1 (pv_spotCheckPassRate v))"
  have "1 / 10 \<le> a" "a \<le> 1" "1 / 10 \<le> c" "c \<le> 1"
    by (auto simp: a_def c_def)
  moreover from this have "1 / 10 * (1 / 10) \<le> a * c" "a * c \<le> 1 * 1"
    by (intro mult_mono; simp)+
  ultimately show ?thesis
    by (simp add: updateScore_def Let_def a_def c_def)
qed

lemma freeBytes_nonneg: "0 \<le> freeBytes p s"
  by (simp add: freeBytes_def split: option.split)

text \<open>The selection pool: authoritative records win, in descending order of score.\<close>

lemma fold_set_get:
  "wf_map xs \<Longrightarrow> mget (fold (\<lambda>(p, v) m. mset_at p v m) xs m) k = (case mget xs k of Some v \<Rightarrow> Some v | None \<Rightarrow> mget m k)"
proof (induction xs arbitrary: m)
  case (Cons e xs)
  obtain p v where e: "e = (p, v)"
    by (cases e)
  with Cons.prems have "wf_map xs" "mget xs p = None"
    by (auto simp: wf_map_def map_of_eq_None_iff)
  with Cons.IH [of "mset_at p v m"] e show ?case
    by (cases "k = p") (simp_all split: option.split)
qed simp

lemma fold_set_wf: "wf_map m \<Longrightarrow> wf_map (fold (\<lambda>(p, v) m. mset_at p v m) xs m)"
  by (induction xs arbitrary: m) auto

lemma allProviders_set:
  assumes "wf_map (pl_providers s)" "wf_map (pl_discovered s)"
  shows "set (allProviders s) = {v. 0 < pv_capacityGB v \<and> (\<exists>p. pl_get p s = Some v)}"
proof -
  let ?m = "fold (\<lambda>(p, v) m. mset_at p v m) (pl_providers s) (fold (\<lambda>(p, v) m. mset_at p v m) (pl_discovered s) [])"
  have wf: "wf_map ?m"
    by (intro fold_set_wf) simp
  have get: "mget ?m k = pl_get k s" for k
    using assms by (simp add: fold_set_get pl_get_def split: option.split)
  have "v \<in> set (mvals ?m) \<longleftrightarrow> (\<exists>p. pl_get p s = Some v)" for v
    using get mget_in [OF wf] by (force simp: mvals_def)
  then show ?thesis
    by (auto simp: allProviders_def Let_def sort_desc_shape)
qed

section \<open>A reset that is not one\<close>

lemma clear_keeps_baselines:
  "settledFor p (pl_clear s) = settledFor p s \<and> pl_lastSettledPeriod (pl_clear s) = pl_lastSettledPeriod s
    \<and> pl_liveness (pl_clear s) = pl_liveness s"
  by (simp add: pl_clear_def settledFor_def)

text \<open>So after a reset a settle block of a period settled before it is still refused.\<close>

lemma clear_refuses_replayed_chain:
  assumes "pl_validate C b s = None" "b_type b = StorageSettle"
  shows "pl_validate C b (pl_clear (pl_apply C b s)) \<noteq> None"
proof -
  obtain st period where b: "b_storage b = Some st" "sp_periodIndex st = Some period"
    using settle_valid [OF assms] by metis
  then have "mget (pl_lastSettledPeriod (pl_clear (pl_apply C b s))) (b_accountId b) = Some period"
    using assms(2) by (simp add: pl_clear_def pl_apply_def applySettle_def Let_def)
  with b assms(2) show ?thesis
    by (simp add: pl_validate_def Let_def)
qed

end
