(* ===== verification/Content_Properties.thy ===== *)
theory Content_Properties
  imports Content_Store Replication Net_Limits Routing Provider_Ledger
begin

text \<open>
  The properties of the content layer and of the storage economy: storing and serving content, its
  manifest on the wire, replication, request limits, read receipts, settlement and custody sampling.
\<close>

section \<open>Content\<close>

text \<open>An instance of the primitives whose hash is the identity, so that no collision hypothesis is in
  the way, and one with lower-case hexadecimal output.\<close>

definition clear_crypto :: crypto where
  "clear_crypto = demo_crypto\<lparr>c_sha256 := (\<lambda>b. b)\<rparr>"

definition hex_crypto :: crypto where
  "hex_crypto = demo_crypto\<lparr>c_toHex := bytes_hex\<rparr>"

lemma clear_hex_codec: "hex_codec clear_crypto"
  using demo_hex_codec by (simp add: hex_codec_def clear_crypto_def)

lemma clear_inj: "inj_on (c_sha256 clear_crypto) A"
  by (simp add: clear_crypto_def inj_on_def)

text \<open>C17: what a store accepts it serves back byte for byte, from the blocks it already held and those it
  added, unless the hash collides on those blocks.\<close>

theorem stored_content_served:
  assumes "hex_codec C" "honest C MemoryBackend st" "storeContent C MemoryBackend bs st = Some (r, st')"
    "sr_ok r" "sr_manifest r = Some m"
    "inj_on (c_sha256 C) (held_blocks MemoryBackend st' \<union> set (chunk_loop bs (nat (cs_chunkSize st)) 0))"
  shows "getContent C MemoryBackend m st' = Some (Some bs)"
  using assms by (rule memory_backend.stored_is_served)

theorem stored_content_served_witness:
  "\<exists>r st' m. storeContent clear_crypto MemoryBackend [1, 2, 3, 4, 5] (new_store 100 2 new_memory) = Some (r, st')
     \<and> sr_manifest r = Some m \<and> getContent clear_crypto MemoryBackend m st' = Some (Some [1, 2, 3, 4, 5])"
proof -
  have "case storeContent clear_crypto MemoryBackend [1, 2, 3, 4, 5] (new_store 100 2 new_memory) of None \<Rightarrow> False
    | Some (r, st') \<Rightarrow> sr_ok r \<and> sr_manifest r \<noteq> None"
    by code_simp
  then obtain r st' m where st': "storeContent clear_crypto MemoryBackend [1, 2, 3, 4, 5] (new_store 100 2 new_memory) = Some (r, st')"
      "sr_ok r" "sr_manifest r = Some m"
    by (auto split: option.splits)
  moreover have "honest clear_crypto MemoryBackend (new_store 100 2 new_memory)"
    by (simp add: honest_def MemoryBackend_def new_store_def new_memory_def)
  ultimately show ?thesis
    using stored_content_served [OF clear_hex_codec _ _ _ _ clear_inj] by blast
qed



text \<open>The manifest of any content chunked below the wire format's limits survives encoding: the decoder
  returns the same manifest, and it verifies.\<close>

theorem manifest_wire_roundtrip:
  assumes "chunkContent C bs csz = Some (m, cs)" "c_toHex C = bytes_hex" "hash_length C"
    "int (length bs) < 2 ^ 53" "csz < 2 ^ 53"
  shows "decodeManifest C (encodeManifest m) = Some m \<and> verifyManifest C m"
  using decode_encode [OF chunk_encodable [OF assms]] decode_verified by blast

theorem manifest_wire_roundtrip_witness:
  "\<exists>m cs. chunkContent hex_crypto [1, 2, 3] 2 = Some (m, cs) \<and> decodeManifest hex_crypto (encodeManifest m) = Some m"
proof -
  have "chunkContent hex_crypto [1, 2, 3] 2 \<noteq> None"
    by code_simp
  then obtain m cs where mc: "chunkContent hex_crypto [1, 2, 3] 2 = Some (m, cs)"
    by auto
  have "hash_length hex_crypto"
    using demo_hash_length by (simp add: hash_length_def hex_crypto_def)
  from manifest_wire_roundtrip [OF mc _ this] mc show ?thesis
    by (auto simp: hex_crypto_def)
qed

section \<open>Replication\<close>

text \<open>After any sequence of provider, pin, expiry, failure, repair and collection steps the bookkeeping
  is consistent (providers are listed once, pin counts are positive), and a collection removes exactly the
  unpinned content whose time has come.\<close>

theorem replication_consistent:
  "repl_inv (fold repl_step ops (new_replication r))
   \<and> set (fst (collectGarbage now (fold repl_step ops (new_replication r))))
     = {c. mhas (rp_providers (fold repl_step ops (new_replication r))) c
          \<and> collectable now (fold repl_step ops (new_replication r)) c}"
  using repl_inv_runs collect_exact by blast

section \<open>Request limits\<close>

text \<open>Over any calls with a clock that does not run backwards, the backfill budget never has more
  requests in flight than allowed and never asks more often within a minute than allowed.\<close>

theorem backfill_bounded:
  assumes "0 \<le> maxInFlight P" "0 \<le> maxPerMinute P" "clocked ops"
  shows "inFlightCount (fst (bf_run P ops)) \<le> maxInFlight P
    \<and> int (asked_in_minute t (snd (bf_run P ops))) \<le> maxPerMinute P"
  using in_flight_bound [OF assms(1)] minute_bound [OF assms(2,3)] by blast

theorem backfill_bounded_witness:
  "inFlightCount (fst (bf_run DEFAULT_BACKFILL_POLICY [Request ''a'' 0, Request ''b'' 10, Settle ''a'', Request ''a'' 20]))
     \<le> maxInFlight DEFAULT_BACKFILL_POLICY"
  using backfill_bounded [of DEFAULT_BACKFILL_POLICY "[Request ''a'' 0, Request ''b'' 10, Settle ''a'', Request ''a'' 20]"]
  by (simp add: clocked_def map_filter_simps DEFAULT_BACKFILL_POLICY_def)

section \<open>Receipts and settlement\<close>

text \<open>Whatever receipts are recorded and however often a provider settles, everything paid to it is
  covered by the bytes its readers attested.\<close>

theorem payout_covered_by_attestation:
  "total_paid vfy p cs [] \<le> attested_of p (fold (ledger_step vfy) cs [])"
  by (rule total_paid_bound)

text \<open>The credit of a batch of signed receipts counts distinct humans, not keys, and pays at most the
  cap per human and at most the attested bytes above what was already settled, and nothing below the floor
  of readers.\<close>

theorem receipt_credit_bounded:
  fixes provider envs vfy settled cap flr rootOf
  assumes "0 \<le> cap"
  defines "c \<equiv> creditFromSignedReceipts provider envs vfy settled cap flr rootOf"
  shows "cd_distinctReaders c = int (card ((\<lambda>e. rootOf (rc_reader (sr_receipt e))) ` set (credited provider vfy settled envs [])))
    \<and> cd_payableBytes c \<le> cd_distinctReaders c * cap
    \<and> cd_payableBytes c \<le> (\<Sum>e \<leftarrow> credited provider vfy settled envs []. above settled e)
    \<and> (if cd_distinctReaders c < flr then cd_payableBytes c = 0 else True)"
  unfolding c_def using credit_bounds [OF assms(1)] credit_distinct_humans by auto

theorem receipt_credit_bounded_witness:
  "cd_payableBytes (creditFromSignedReceipts ''p'' [\<lparr>sr_receipt = \<lparr>rc_reader = ''phone'', rc_provider = ''p'', rc_counter = 1,
     rc_bytesTotal = 500, rc_readsTotal = 1, rc_lastLatencyMs = 0, rc_ts = 0\<rparr>, sr_signature = []\<rparr>]
     (\<lambda>_ _ _. True) [] 100 2 (\<lambda>_. ''human'')) = 0"
proof -
  let ?e = "\<lparr>sr_receipt = \<lparr>rc_reader = ''phone'', rc_provider = ''p'', rc_counter = 1,
     rc_bytesTotal = 500, rc_readsTotal = 1, rc_lastLatencyMs = 0, rc_ts = 0\<rparr>, sr_signature = []\<rparr> :: signed_receipt"
  have "cd_distinctReaders (creditFromSignedReceipts ''p'' [?e] (\<lambda>_ _ _. True) [] 100 2 (\<lambda>_. ''human'')) < 2"
    by code_simp
  then show ?thesis
    using receipt_credit_bounded [of 100 "''p''" "[?e]" "\<lambda>_ _ _. True" "[]" 2 "\<lambda>_. ''human''"] by simp
qed

text \<open>C12: across any sequence of blocks, everything the ledger lets a provider claim in settle blocks is
  covered by the receipts those blocks published: the same receipts never pay twice.\<close>

theorem settlements_covered:
  "settled_pay C p bs new_provider_ledger \<le> settled_total p (fold (settle_step C) bs new_provider_ledger)"
  by (rule settled_pay_bound)

text \<open>Once a settle block of a period is applied, no further settle block of the account for that period
  is accepted.\<close>

theorem period_settles_once:
  assumes "pl_validate C b s = None" "b_type b = StorageSettle"
    "b_type b' = StorageSettle" "b_accountId b' = b_accountId b"
    "Option.bind (b_storage b') sp_periodIndex = Option.bind (b_storage b) sp_periodIndex"
  shows "pl_validate C b' (pl_apply C b s) \<noteq> None"
  using assms by (rule period_closed)

definition lax_crypto :: crypto where
  "lax_crypto = demo_crypto\<lparr>c_p256_verify := (\<lambda>s d p. Some True)\<rparr>"

definition sample_signed :: "string \<Rightarrow> signed_receipt" where
  "sample_signed reader = \<lparr>sr_receipt = \<lparr>rc_reader = reader, rc_provider = ''p'', rc_counter = 1,
     rc_bytesTotal = 500, rc_readsTotal = 1, rc_lastLatencyMs = 0, rc_ts = 0\<rparr>, sr_signature = []\<rparr>"

definition sample_settle :: content where
  "sample_settle = (blank_content ''p'' 4 StorageSettle ''h'' 0 9 100)
     \<lparr>b_amount := Some 5, b_storage := Some \<lparr>sp_capacityGB = None, sp_deviceId = None, sp_deviceClass = None,
        sp_declaredConcurrency = None, sp_receipts = Some (map sample_signed [''a'', ''b'', ''c'', ''d'']), sp_periodIndex = Some 3,
        sp_publishRoot = None, sp_serviceRoot = None\<rparr>\<rparr>"

theorem period_settles_once_witness:
  "pl_validate lax_crypto sample_settle (pl_apply lax_crypto sample_settle new_provider_ledger) \<noteq> None"
proof -
  have "pl_validate lax_crypto sample_settle new_provider_ledger = None" "b_type sample_settle = StorageSettle"
    by code_simp+
  then show ?thesis
    using period_settles_once by blast
qed

text \<open>C25: a provider with enough pending bytes and an unsettled period becomes due within that period, at its
  own slot, and stays due until the period ends.\<close>

theorem settlement_falls_due:
  fixes a :: string
  assumes "60000 \<le> periodMs" "lst < k" "mn \<le> pending"
  defines "t \<equiv> k * periodMs + settlementSlot a (periodMs div 60000) * 60000"
  shows "k * periodMs \<le> t \<and> t < (k + 1) * periodMs \<and>
    (\<forall>now. t \<le> now \<and> now < (k + 1) * periodMs \<longrightarrow> du_due (settlementDue a now periodMs lst pending mn))"
  unfolding t_def using due_reached [OF assms(1-3)] .

theorem settlement_falls_due_witness:
  "du_due (settlementDue ''alice'' (5 * 86400000 - 1) 86400000 3 10 1)"
  using settlement_falls_due [of 86400000 3 4 1 10 "''alice''"] by auto

section \<open>Custody sampling\<close>

text \<open>The number of challenges computed for a confidence reaches it: a provider that lost the given
  share of blocks is caught with at least that probability.\<close>

theorem sampling_reaches_confidence:
  assumes "0 < f" "f \<le> 1 - 1 / 10 ^ 12" "0 \<le> c" "c \<le> 1 - 1 / 10 ^ 12"
  shows "c \<le> detectionProbability f (nat (challengesForConfidence f c))"
  using assms by (rule confidence_reached)

theorem sampling_reaches_confidence_witness:
  "99 / 100 \<le> detectionProbability (1 / 10) (nat (challengesForConfidence (1 / 10) (99 / 100)))"
  by (rule sampling_reaches_confidence) simp_all

end
