(* ===== verification/Ledger_State.thy ===== *)
theory Ledger_State
  imports Account_Store Identity Fraud Committee Seed Finality Provider_Ledger
begin

text \<open>
  The state of the application ledger, \<open>src/ledger/engine-ledger.ts\<close>, with its lookups and the
  operations the block handlers share: account records, the custody of tokens, frozen accounts,
  bonds, epochs and committee votes. Events (\<open>emit\<close>) are notifications to listeners outside the
  ledger and are not part of the state. Amounts of unclaimed sends are the numbers the source keeps
  in its UI scale; they are real numbers here.
\<close>

record ledger_account =
  la_username :: string
  la_pub :: string
  la_fields :: "(string, string) jsmap"

record unclaimed_send =
  us_from :: hex
  us_to :: hex
  us_amount :: real

record custody =
  cu_index :: int
  cu_holds :: bool

record nft_info =
  ni_minter :: hex
  ni_contentRef :: string
  ni_meta :: "(string \<times> string) list"

record nft_transfer =
  nt_token :: hex
  nt_from :: hex
  nt_to :: hex

record weight_snapshot =
  wt_total :: real
  wt_byId :: "(hex, real) jsmap"

record engine_ledger =
  el_held :: account_store
  el_accounts :: "(string, ledger_account) jsmap"
  el_usernames :: "(string, string) jsmap"
  el_identity :: id_registry
  el_unclaimed :: "(hex, unclaimed_send) jsmap"
  el_claimed :: "hex set"
  el_claimedNft :: "hex set"
  el_nftOwner :: "(hex, hex) jsmap"
  el_custody :: "(hex, (hex, custody) jsmap) jsmap"
  el_nftInfo :: "(hex, nft_info) jsmap"
  el_unclaimedNft :: "(hex, nft_transfer) jsmap"
  el_burned :: "hex set"
  el_equivocated :: "(hex, evidence) jsmap"
  el_appliedAt :: "(hex, int) jsmap"
  el_validators :: validator_registry
  el_seeds :: epoch_seeds
  el_epoch :: int
  el_committee :: finality
  el_snapshots :: "(int, weight_snapshot) jsmap"
  el_providers :: provider_ledger
  el_allBlocks :: "(hex, block) jsmap"

record ledger_config =
  lc_mainnet :: bool
  lc_numShards :: int
  lc_policy :: quorum_policy

text \<open>The mint in the milli-UNIT scale of the application (\<open>VERIFICATION_MINT_AMOUNT\<close>).\<close>

definition LEDGER_MINT :: int where "LEDGER_MINT = 1000000 * 1000"
definition CHALLENGE_WINDOW_MS :: int where "CHALLENGE_WINDOW_MS = 5000"
definition DEFAULT_COMMITTEE_SIZE :: int where "DEFAULT_COMMITTEE_SIZE = 64"
definition EPOCH_WEIGHT_RETAIN :: int where "EPOCH_WEIGHT_RETAIN = 4"

definition committee_cfg :: committee_params where
  "committee_cfg = \<lparr>cp_committeeSize = DEFAULT_COMMITTEE_SIZE, cp_threshold = None\<rparr>"

definition new_ledger :: "crypto \<Rightarrow> engine_ledger" where
  "new_ledger C = \<lparr>el_held = [], el_accounts = [], el_usernames = [], el_identity = registry_empty,
     el_unclaimed = [], el_claimed = {}, el_claimedNft = {}, el_nftOwner = [], el_custody = [], el_nftInfo = [],
     el_unclaimedNft = [], el_burned = {}, el_equivocated = [], el_appliedAt = [],
     el_validators = new_validators LEDGER_MINT 1, el_seeds = new_seeds (GENESIS_SEED C), el_epoch = 0,
     el_committee = new_finality, el_snapshots = [], el_providers = new_provider_ledger, el_allBlocks = []\<rparr>"

section \<open>Accounts and lookups\<close>

definition registerAccount :: "ledger_account \<Rightarrow> engine_ledger \<Rightarrow> engine_ledger" where
  "registerAccount a L =
     (if mhas (el_accounts L) (la_pub a) then L
      else L\<lparr>el_accounts := mset_at (la_pub a) a (el_accounts L),
             el_usernames := (if la_username a \<noteq> [] then mset_at (la_username a) (la_pub a) (el_usernames L) else el_usernames L)\<rparr>)"

text \<open>\<open>Object.assign\<close> of string-valued fields.\<close>

definition assign_field :: "string \<times> string \<Rightarrow> ledger_account \<Rightarrow> ledger_account" where
  "assign_field kv a = (if fst kv = ''username'' then a\<lparr>la_username := snd kv\<rparr>
     else if fst kv = ''pub'' then a\<lparr>la_pub := snd kv\<rparr>
     else a\<lparr>la_fields := mset_at (fst kv) (snd kv) (la_fields a)\<rparr>)"

definition reindex_username :: "string \<Rightarrow> string \<Rightarrow> string \<Rightarrow> (string, string) jsmap \<Rightarrow> (string, string) jsmap" where
  "reindex_username old new pub m = mset_at new pub (mdel old m)"

definition updateAccountFields :: "string \<Rightarrow> (string, string) jsmap \<Rightarrow> engine_ledger \<Rightarrow> engine_ledger" where
  "updateAccountFields pub kvs L = (case mget (el_accounts L) pub of
     None \<Rightarrow> L
   | Some a \<Rightarrow> L\<lparr>el_usernames := (case mget kvs ''username'' of
         Some u \<Rightarrow> if u \<noteq> [] \<and> u \<noteq> la_username a then reindex_username (la_username a) u pub (el_usernames L) else el_usernames L
       | None \<Rightarrow> el_usernames L),
       el_accounts := mset_at pub (fold assign_field kvs a) (el_accounts L)\<rparr>)"

definition getAccountByUsername :: "engine_ledger \<Rightarrow> string \<Rightarrow> ledger_account option" where
  "getAccountByUsername L u = (case mget (el_usernames L) u of
     None \<Rightarrow> None | Some p \<Rightarrow> if p = [] then None else mget (el_accounts L) p)"

definition resolveToPublicKey :: "engine_ledger \<Rightarrow> string \<Rightarrow> string option" where
  "resolveToPublicKey L x = (if mhas (el_accounts L) x then Some x else mget (el_usernames L) x)"

definition getAccountHead :: "engine_ledger \<Rightarrow> hex \<Rightarrow> block option" where
  "getAccountHead L p = (case mget (el_held L) p of None \<Rightarrow> None | Some h \<Rightarrow> last_opt (h_blocks h))"

definition frozen :: "engine_ledger \<Rightarrow> hex \<Rightarrow> bool" where
  "frozen L p = mhas (el_equivocated L) p"

definition knowsAccountBalance :: "engine_ledger \<Rightarrow> hex \<Rightarrow> bool" where
  "knowsAccountBalance L p = (frozen L p \<or> getAccountHead L p \<noteq> None)"

definition getAccountBalance :: "engine_ledger \<Rightarrow> hex \<Rightarrow> int" where
  "getAccountBalance L p = (if frozen L p then 0
     else (case getAccountHead L p of None \<Rightarrow> 0 | Some b \<Rightarrow> b_balance b))"

definition getAccountChain :: "engine_ledger \<Rightarrow> hex \<Rightarrow> block list" where
  "getAccountChain L p = chain (el_held L) p"

definition username_of :: "engine_ledger \<Rightarrow> hex \<Rightarrow> string option" where
  "username_of L p = map_option la_username (mget (el_accounts L) p)"

definition applyAccountUpdate :: "string \<Rightarrow> (string \<times> string) list \<Rightarrow> engine_ledger \<Rightarrow> engine_ledger" where
  "applyAccountUpdate pub updates L = (case (mget (el_accounts L) pub, mget updates ''username'') of
     (Some a, Some u) \<Rightarrow>
       if u \<noteq> [] \<and> u \<noteq> la_username a
       then L\<lparr>el_usernames := reindex_username (la_username a) u pub (el_usernames L),
              el_accounts := mset_at pub (a\<lparr>la_username := u\<rparr>) (el_accounts L)\<rparr>
       else L
   | _ \<Rightarrow> L)"

section \<open>Tokens\<close>

definition nftTokenId :: "crypto \<Rightarrow> hex \<Rightarrow> int \<Rightarrow> string \<Rightarrow> hex" where
  "nftTokenId C minter index contentRef = hashHex C [c_utf8 C (''nft:'' @ minter @ '':'' @ int_str index @ '':'' @ contentRef)]"

definition holders :: "(hex, custody) jsmap \<Rightarrow> hex list" where
  "holders per = map fst (filter (\<lambda>(a, c). cu_holds c) per)"

definition recomputeNftOwner :: "hex \<Rightarrow> engine_ledger \<Rightarrow> engine_ledger" where
  "recomputeNftOwner t L =
     (if t \<in> el_burned L then L\<lparr>el_nftOwner := mdel t (el_nftOwner L)\<rparr>
      else (case mget (el_custody L) t of
          None \<Rightarrow> L
        | Some per \<Rightarrow> (case holders per of
            [] \<Rightarrow> L\<lparr>el_nftOwner := mdel t (el_nftOwner L)\<rparr>
          | [a] \<Rightarrow> L\<lparr>el_nftOwner := mset_at t a (el_nftOwner L)\<rparr>
          | hs \<Rightarrow> if \<not> truthy (mget (el_nftOwner L) t) \<or> the (mget (el_nftOwner L) t) \<notin> set hs
              then L\<lparr>el_nftOwner := mset_at t (last hs) (el_nftOwner L)\<rparr> else L)))"

definition recordNftCustody :: "hex \<Rightarrow> hex \<Rightarrow> int \<Rightarrow> bool \<Rightarrow> engine_ledger \<Rightarrow> engine_ledger" where
  "recordNftCustody t a i held L =
     (let per = nvl (mget (el_custody L) t) [] in
      case mget per a of
        Some prev \<Rightarrow> if cu_index prev \<ge> i then L
          else recomputeNftOwner t (L\<lparr>el_custody := mset_at t (mset_at a \<lparr>cu_index = i, cu_holds = held\<rparr> per) (el_custody L)\<rparr>)
      | None \<Rightarrow> recomputeNftOwner t (L\<lparr>el_custody := mset_at t (mset_at a \<lparr>cu_index = i, cu_holds = held\<rparr> per) (el_custody L)\<rparr>))"

definition applyNftMint :: "block \<Rightarrow> engine_ledger \<Rightarrow> engine_ledger" where
  "applyNftMint b L =
     (if \<not> truthy (b_tokenId b) \<or> \<not> truthy (b_contentRef b) then L
      else recordNftCustody (the (b_tokenId b)) (b_accountId b) (b_index b) True
        (L\<lparr>el_nftInfo := mset_at (the (b_tokenId b))
            \<lparr>ni_minter = b_accountId b, ni_contentRef = the (b_contentRef b), ni_meta = nvl (b_nftMeta b) []\<rparr> (el_nftInfo L)\<rparr>))"

definition applyNftSend :: "block \<Rightarrow> engine_ledger \<Rightarrow> engine_ledger" where
  "applyNftSend b L =
     (if \<not> truthy (b_tokenId b) \<or> \<not> truthy (b_recipient b) then L
      else let L1 = recordNftCustody (the (b_tokenId b)) (b_accountId b) (b_index b) False L in
        if b_hash b \<in> el_claimedNft L1 then L1
        else L1\<lparr>el_unclaimedNft := mset_at (b_hash b)
          \<lparr>nt_token = the (b_tokenId b), nt_from = b_accountId b, nt_to = the (b_recipient b)\<rparr> (el_unclaimedNft L1)\<rparr>)"

definition applyNftReceive :: "block \<Rightarrow> engine_ledger \<Rightarrow> engine_ledger" where
  "applyNftReceive b L =
     (if \<not> truthy (b_tokenId b) then L
      else recordNftCustody (the (b_tokenId b)) (b_accountId b) (b_index b) True
        (if truthy (b_sourceHash b)
         then L\<lparr>el_claimedNft := insert (the (b_sourceHash b)) (el_claimedNft L),
                el_unclaimedNft := mdel (the (b_sourceHash b)) (el_unclaimedNft L)\<rparr>
         else L))"

definition applyNftBurn :: "block \<Rightarrow> engine_ledger \<Rightarrow> engine_ledger" where
  "applyNftBurn b L =
     (if \<not> truthy (b_tokenId b) then L
      else let t = the (b_tokenId b);
               L1 = recordNftCustody t (b_accountId b) (b_index b) False (L\<lparr>el_burned := insert t (el_burned L)\<rparr>)
           in L1\<lparr>el_nftOwner := mdel t (el_nftOwner L1)\<rparr>)"

definition getNftsOwnedBy :: "engine_ledger \<Rightarrow> hex \<Rightarrow> (hex \<times> nft_info) list" where
  "getNftsOwnedBy L p = List.map_filter (\<lambda>(t, owner).
     if owner \<noteq> p then None else map_option (\<lambda>i. (t, i)) (mget (el_nftInfo L) t)) (el_nftOwner L)"

definition getUnclaimedNftsForAccount :: "engine_ledger \<Rightarrow> hex \<Rightarrow> (hex \<times> nft_transfer) list" where
  "getUnclaimedNftsForAccount L p = filter (\<lambda>(h, t). nt_to t = p) (el_unclaimedNft L)"

definition getUnclaimedForAccount :: "engine_ledger \<Rightarrow> hex \<Rightarrow> (hex \<times> unclaimed_send) list" where
  "getUnclaimedForAccount L p = filter (\<lambda>(h, s). us_to s = p) (el_unclaimed L)"

section \<open>Frozen accounts\<close>

definition freezeEquivocator :: "evidence \<Rightarrow> engine_ledger \<Rightarrow> bool \<times> engine_ledger" where
  "freezeEquivocator ev L =
     (if mhas (el_equivocated L) (ev_accountId ev) then (False, L)
      else (True, L\<lparr>el_equivocated := mset_at (ev_accountId ev) ev (el_equivocated L),
              el_unclaimed := filter (\<lambda>(h, s). us_from s \<noteq> ev_accountId ev) (el_unclaimed L),
              el_unclaimedNft := filter (\<lambda>(h, t). nt_from t \<noteq> ev_accountId ev) (el_unclaimedNft L),
              el_validators := snd (slash (ev_accountId ev) (el_validators L))\<rparr>))"

definition flagEquivocation :: "block \<Rightarrow> block \<Rightarrow> engine_ledger \<Rightarrow> engine_ledger" where
  "flagEquivocation a b L = (case proveDoubleSpend a b of None \<Rightarrow> L | Some ev \<Rightarrow> snd (freezeEquivocator ev L))"

definition applyEvidence :: "crypto \<Rightarrow> evidence \<Rightarrow> engine_ledger \<Rightarrow> bool \<times> engine_ledger" where
  "applyEvidence C ev L = (if verifyDoubleSpend C ev then freezeEquivocator ev L else (False, L))"

definition applyEvidenceFromBlocks :: "crypto \<Rightarrow> block \<Rightarrow> block \<Rightarrow> engine_ledger \<Rightarrow> bool \<times> engine_ledger" where
  "applyEvidenceFromBlocks C a b L = (case proveDoubleSpend a b of None \<Rightarrow> (False, L) | Some ev \<Rightarrow> applyEvidence C ev L)"

section \<open>Bonds, epochs and votes\<close>

definition bondStake :: "hex \<Rightarrow> int option \<Rightarrow> engine_ledger \<Rightarrow> bond_result \<times> engine_ledger" where
  "bondStake pub amt L = (case getAccountHead L pub of
     None \<Rightarrow> (\<lparr>br_ok = False, br_reason = Some ''account not opened''\<rparr>, L)
   | Some tip \<Rightarrow>
       if frozen L pub then (\<lparr>br_ok = False, br_reason = Some ''account frozen''\<rparr>, L)
       else let free = b_balance tip - bondedOf (el_validators L) pub; a = nvl amt free in
         if a \<le> 0 then (\<lparr>br_ok = False, br_reason = Some ''nothing to bond''\<rparr>, L)
         else if a > free then (\<lparr>br_ok = False, br_reason = Some ''amount exceeds free balance''\<rparr>, L)
         else (case bond pub a (el_validators L) of (r, vr) \<Rightarrow> (r, L\<lparr>el_validators := vr\<rparr>)))"

definition currentSeed :: "engine_ledger \<Rightarrow> hex option" where
  "currentSeed L = seedFor (el_seeds L) (el_epoch L)"

text \<open>The closures of \<open>makeCommittee\<close>.\<close>

definition ledger_weights :: "engine_ledger \<Rightarrow> weight_source" where
  "ledger_weights L = \<lparr>
     ws_weightOf = (\<lambda>v e. case mget (el_snapshots L) e of
        Some sn \<Rightarrow> nvl (mget (wt_byId sn) v) 0 | None \<Rightarrow> weightOf (el_validators L) v),
     ws_totalWeight = (\<lambda>e. case mget (el_snapshots L) e of
        Some sn \<Rightarrow> wt_total sn | None \<Rightarrow> totalWeight (el_validators L))\<rparr>"

definition snapshotWeights :: "validator_registry \<Rightarrow> weight_snapshot" where
  "snapshotWeights r = \<lparr>wt_total = foldl (\<lambda>t v. t + weightOf r v) 0 (validators r),
     wt_byId = fold (\<lambda>v m. mset_at v (weightOf r v) m) (validators r) []\<rparr>"

definition register_voted :: "hex \<Rightarrow> engine_ledger \<Rightarrow> engine_ledger" where
  "register_voted h L = (case mget (el_allBlocks L) h of
     None \<Rightarrow> L
   | Some b \<Rightarrow> L\<lparr>el_committee := registerBlock (b_hash b) (b_accountId b) (b_previousHash b) (el_committee L)\<rparr>)"

text \<open>\<open>None\<close>: the vote throws; the voted block stays registered then, which \<open>register_voted\<close> states.\<close>

definition applyCommitteeVote ::
  "crypto \<Rightarrow> 'p curve \<Rightarrow> committee_vote \<Rightarrow> engine_ledger \<Rightarrow> (vote_result \<times> engine_ledger) option" where
  "applyCommitteeVote C E v L =
     (let L1 = register_voted (cv_blockHash v) L in
      case applyVote C E committee_cfg (ledger_weights L1) (seedFor (el_seeds L1)) v (el_committee L1) of
        None \<Rightarrow> None
      | Some (r, st) \<Rightarrow> Some (r, L1\<lparr>el_committee := st,
          el_validators := (case fv_equivocation r of None \<Rightarrow> el_validators L1
            | Some (voter, a, b) \<Rightarrow> snd (slash voter (el_validators L1)))\<rparr>))"

text \<open>\<open>None\<close>: a malformed beta makes the seed commit throw before anything changes.\<close>

definition advanceEpoch :: "crypto \<Rightarrow> hex list \<Rightarrow> hex list option \<Rightarrow> engine_ledger \<Rightarrow> engine_ledger option" where
  "advanceEpoch C betas active L = (case commit C (el_epoch L) betas (el_seeds L) of
     None \<Rightarrow> None
   | Some (nxt, seeds) \<Rightarrow>
       (let e = el_epoch L + 1;
            vr = fold (\<lambda>v r. creditActivity v 1 r) (nvl active (validators (el_validators L))) (el_validators L);
            snaps = mset_at e (snapshotWeights vr) (el_snapshots L)
        in Some (L\<lparr>el_seeds := seeds, el_epoch := e, el_validators := vr,
             el_snapshots := filter (\<lambda>(k, sn). \<not> k < e - EPOCH_WEIGHT_RETAIN) snaps,
             el_committee := snd (pruneStale e 2 (el_committee L))\<rparr>)))"

end
