(* ===== verification/Engine_Ledger.thy ===== *)
theory Engine_Ledger
  imports Ledger_State
begin

text \<open>
  The operations of the application ledger, \<open>src/ledger/engine-ledger.ts\<close>: the blocks an owner
  creates, the blocks that arrive from the network (\<open>addBlock\<close>), transfers and mints proved by
  light packets, status, purge and reset. An operation of the owner ends in \<open>Done\<close>, in a
  refusal, or in a throw; the state after a throw is kept, because \<open>createBlock\<close> may have changed
  the accumulator by then. The clock is an argument.
\<close>

datatype 'a outcome = Done 'a | Refused string | Threw

section \<open>Blocks of the owner\<close>

text \<open>\<open>createBlock\<close> on the held accumulator, \<open>chain.push\<close> and \<open>allBlocks.set\<close>, as every
  create operation does.\<close>

definition own_block :: "crypto \<Rightarrow> content \<Rightarrow> hex \<Rightarrow> held \<Rightarrow> engine_ledger \<Rightarrow> block option \<times> engine_ledger" where
  "own_block C c priv h L = (case createBlock C c priv (h_acc h) of
     (None, acc) \<Rightarrow> (None, L\<lparr>el_held := mset_at (b_accountId c) (h\<lparr>h_acc := acc\<rparr>) (el_held L)\<rparr>)
   | (Some b, acc) \<Rightarrow> (Some b, L\<lparr>
       el_held := mset_at (b_accountId c) \<lparr>h_blocks = h_blocks h @ [b], h_acc = acc\<rparr> (el_held L),
       el_allBlocks := mset_at (b_hash b) b (el_allBlocks L)\<rparr>))"

definition next_content :: "hex \<Rightarrow> block \<Rightarrow> block_type \<Rightarrow> int \<Rightarrow> int \<Rightarrow> content" where
  "next_content pub tip ty now bal = blank_content pub (b_index tip + 1) ty (b_hash tip) (b_shard tip) now bal"

definition openAccount ::
  "crypto \<Rightarrow> ledger_config \<Rightarrow> int \<Rightarrow> hex \<Rightarrow> hex \<Rightarrow> hex \<Rightarrow> typed_attestation list \<Rightarrow> bool \<Rightarrow> engine_ledger \<Rightarrow> block outcome \<times> engine_ledger" where
  "openAccount C cfg now pub priv nullifier atts bonded L =
     (if mhas (el_held L) pub then (Threw, L)
      else let com = deriveCommitment C nullifier pub in
        if \<not> qr_ok (checkQuorum C atts com (lc_policy cfg)) then (Threw, L)
        else (case register_identity C (el_identity L) nullifier com pub of (r, ids) \<Rightarrow>
          if \<not> rr_ok r then (Threw, L)
          else (let L1 = L\<lparr>el_identity := ids\<rparr> in
            case createOpenBlock C \<lparr>op_accountId = pub, op_identityCommitment = com, op_attestations = atts,
                op_timestamp = now, op_balance = Some LEDGER_MINT, op_numShards = Some (lc_numShards cfg)\<rparr> priv [] of
              (None, acc) \<Rightarrow> (Threw, L1)
            | (Some b, acc) \<Rightarrow>
                (let L2 = L1\<lparr>el_held := mset_at pub \<lparr>h_blocks = [b], h_acc = acc\<rparr> (el_held L1),
                             el_allBlocks := mset_at (b_hash b) b (el_allBlocks L1)\<rparr>
                 in (Done b, if bonded then snd (bondStake pub (Some LEDGER_MINT) L2) else L2)))))"

definition createSend ::
  "crypto \<Rightarrow> int \<Rightarrow> hex \<Rightarrow> string \<Rightarrow> real \<Rightarrow> hex \<Rightarrow> engine_ledger \<Rightarrow> block outcome \<times> engine_ledger" where
  "createSend C now pub recipientId amt priv L = (case resolveToPublicKey L recipientId of
     None \<Rightarrow> (Refused ''Recipient not found'', L)
   | Some rcpt \<Rightarrow> if rcpt = [] then (Refused ''Recipient not found'', L) else
     (case getAccountHead L pub of
       None \<Rightarrow> (Refused ''Account not opened'', L)
     | Some tip \<Rightarrow>
         if amt \<le> 0 then (Refused ''Amount must be positive'', L)
         else let a = js_round amt; available = b_balance tip - bondedOf (el_validators L) pub in
           if available < a then (Refused ''Insufficient balance'', L)
           else (case own_block C ((next_content pub tip Send now (b_balance tip - a))
                  \<lparr>b_recipient := Some rcpt, b_amount := Some a, b_recipientName := username_of L rcpt\<rparr>)
                  priv (the (mget (el_held L) pub)) L of
               (None, L1) \<Rightarrow> (Threw, L1)
             | (Some b, L1) \<Rightarrow> (Done b, L1\<lparr>el_unclaimed :=
                 mset_at (b_hash b) \<lparr>us_from = pub, us_to = rcpt, us_amount = amt\<rparr> (el_unclaimed L1)\<rparr>))))"

definition createReceive ::
  "crypto \<Rightarrow> int \<Rightarrow> hex \<Rightarrow> hex \<Rightarrow> hex \<Rightarrow> engine_ledger \<Rightarrow> block outcome \<times> engine_ledger" where
  "createReceive C now pub sendHash priv L = (case mget (el_unclaimed L) sendHash of
     None \<Rightarrow> (Refused ''Send block not found or already claimed'', L)
   | Some u \<Rightarrow>
       if us_to u \<noteq> pub then (Refused ''This send is not addressed to you'', L)
       else (case getAccountHead L pub of
           None \<Rightarrow> (Refused ''Account not opened'', L)
         | Some tip \<Rightarrow>
             (let a = js_round (us_amount u) in
              case own_block C ((next_content pub tip Receive now (b_balance tip + a))
                  \<lparr>b_sourceHash := Some sendHash, b_amount := Some a, b_senderPub := Some (us_from u),
                   b_senderName := username_of L (us_from u)\<rparr>) priv (the (mget (el_held L) pub)) L of
                (None, L1) \<Rightarrow> (Threw, L1)
              | (Some b, L1) \<Rightarrow> (Done b, L1\<lparr>el_claimed := insert sendHash (el_claimed L1),
                  el_unclaimed := mdel sendHash (el_unclaimed L1)\<rparr>))))"

definition createUpdate ::
  "crypto \<Rightarrow> int \<Rightarrow> hex \<Rightarrow> (string \<times> string) list \<Rightarrow> hex \<Rightarrow> engine_ledger \<Rightarrow> block outcome \<times> engine_ledger" where
  "createUpdate C now pub updates priv L = (case getAccountHead L pub of
     None \<Rightarrow> (Refused ''Account not opened'', L)
   | Some tip \<Rightarrow>
       if frozen L pub then (Refused ''Account frozen'', L)
       else if updates = [] then (Refused ''No updates provided'', L)
       else (case own_block C ((next_content pub tip Update now (b_balance tip))\<lparr>b_updates := Some updates\<rparr>)
              priv (the (mget (el_held L) pub)) L of
           (None, L1) \<Rightarrow> (Threw, L1)
         | (Some b, L1) \<Rightarrow> (Done b, applyAccountUpdate pub updates L1)))"

definition createMintNft ::
  "crypto \<Rightarrow> int \<Rightarrow> hex \<Rightarrow> string \<Rightarrow> (string \<times> string) list \<Rightarrow> hex \<Rightarrow> engine_ledger \<Rightarrow> block outcome \<times> engine_ledger" where
  "createMintNft C now pub contentRef meta priv L = (case getAccountHead L pub of
     None \<Rightarrow> (Refused ''Account not opened'', L)
   | Some tip \<Rightarrow>
       if frozen L pub then (Refused ''Account frozen'', L)
       else if contentRef = [] then (Refused ''contentRef required'', L)
       else (case own_block C ((next_content pub tip NftMint now (b_balance tip))
                \<lparr>b_tokenId := Some (nftTokenId C pub (b_index tip + 1) contentRef), b_contentRef := Some contentRef,
                 b_nftMeta := Some meta\<rparr>) priv (the (mget (el_held L) pub)) L of
           (None, L1) \<Rightarrow> (Threw, L1)
         | (Some b, L1) \<Rightarrow> (Done b, applyNftMint b L1)))"

text \<open>The head of an owner is not checked: \<open>getAccountHead(pub)!\<close> throws when there is none.\<close>

definition createTransferNft ::
  "crypto \<Rightarrow> int \<Rightarrow> hex \<Rightarrow> hex \<Rightarrow> string \<Rightarrow> hex \<Rightarrow> engine_ledger \<Rightarrow> block outcome \<times> engine_ledger" where
  "createTransferNft C now pub token recipientId priv L = (case resolveToPublicKey L recipientId of
     None \<Rightarrow> (Refused ''Recipient not found'', L)
   | Some rcpt \<Rightarrow>
       if rcpt = [] then (Refused ''Recipient not found'', L)
       else if frozen L pub then (Refused ''Account frozen'', L)
       else if mget (el_nftOwner L) token \<noteq> Some pub then (Refused ''You do not own this NFT'', L)
       else (case getAccountHead L pub of
           None \<Rightarrow> (Threw, L)
         | Some tip \<Rightarrow> (case own_block C ((next_content pub tip NftSend now (b_balance tip))
                \<lparr>b_tokenId := Some token, b_recipient := Some rcpt, b_recipientName := username_of L rcpt\<rparr>)
                priv (the (mget (el_held L) pub)) L of
               (None, L1) \<Rightarrow> (Threw, L1)
             | (Some b, L1) \<Rightarrow> (Done b, applyNftSend b L1))))"

definition createReceiveNft ::
  "crypto \<Rightarrow> int \<Rightarrow> hex \<Rightarrow> hex \<Rightarrow> hex \<Rightarrow> engine_ledger \<Rightarrow> block outcome \<times> engine_ledger" where
  "createReceiveNft C now pub sendHash priv L =
     (if frozen L pub then (Refused ''Account frozen'', L)
      else (case mget (el_unclaimedNft L) sendHash of
          None \<Rightarrow> (Refused ''NFT transfer not found or already claimed'', L)
        | Some t \<Rightarrow>
            if nt_to t \<noteq> pub then (Refused ''This NFT is not addressed to you'', L)
            else (case getAccountHead L pub of
                None \<Rightarrow> (Refused ''Account not opened'', L)
              | Some tip \<Rightarrow> (case own_block C ((next_content pub tip NftReceive now (b_balance tip))
                     \<lparr>b_tokenId := Some (nt_token t), b_sourceHash := Some sendHash, b_senderPub := Some (nt_from t),
                      b_senderName := username_of L (nt_from t)\<rparr>) priv (the (mget (el_held L) pub)) L of
                    (None, L1) \<Rightarrow> (Threw, L1)
                  | (Some b, L1) \<Rightarrow> (Done b, applyNftReceive b L1)))))"

definition createBurnNft ::
  "crypto \<Rightarrow> int \<Rightarrow> hex \<Rightarrow> hex \<Rightarrow> hex \<Rightarrow> engine_ledger \<Rightarrow> block outcome \<times> engine_ledger" where
  "createBurnNft C now pub token priv L =
     (if frozen L pub then (Refused ''Account frozen'', L)
      else if mget (el_nftOwner L) token \<noteq> Some pub then (Refused ''You do not own this NFT'', L)
      else (case getAccountHead L pub of
          None \<Rightarrow> (Threw, L)
        | Some tip \<Rightarrow> (case own_block C ((next_content pub tip NftBurn now (b_balance tip))\<lparr>b_tokenId := Some token\<rparr>)
               priv (the (mget (el_held L) pub)) L of
              (None, L1) \<Rightarrow> (Threw, L1)
            | (Some b, L1) \<Rightarrow> (Done b, applyNftBurn b L1))))"

section \<open>Storage blocks of the owner\<close>

definition blank_payload :: storage_payload where
  "blank_payload = \<lparr>sp_capacityGB = None, sp_deviceId = None, sp_deviceClass = None, sp_declaredConcurrency = None,
     sp_receipts = None, sp_periodIndex = None, sp_publishRoot = None, sp_serviceRoot = None\<rparr>"

definition appendStorageBlock ::
  "crypto \<Rightarrow> int \<Rightarrow> hex \<Rightarrow> block \<Rightarrow> block_type \<Rightarrow> int \<Rightarrow> storage_payload \<Rightarrow> int option \<Rightarrow> hex \<Rightarrow> engine_ledger
    \<Rightarrow> block outcome \<times> engine_ledger" where
  "appendStorageBlock C now pub tip ty bal st amt priv L =
     (case own_block C ((next_content pub tip ty now bal)\<lparr>b_storage := Some st, b_amount := amt\<rparr>)
        priv (the (mget (el_held L) pub)) L of
        (None, L1) \<Rightarrow> (Threw, L1)
      | (Some b, L1) \<Rightarrow> (Done b, L1\<lparr>el_providers := pl_apply C b (el_providers L1)\<rparr>))"

definition createStorageRegister ::
  "crypto \<Rightarrow> int \<Rightarrow> hex \<Rightarrow> int \<Rightarrow> string option \<Rightarrow> hex \<Rightarrow> engine_ledger \<Rightarrow> block outcome \<times> engine_ledger" where
  "createStorageRegister C now pub capacityGB deviceId priv L = (case getAccountHead L pub of
     None \<Rightarrow> (Refused ''Account not opened'', L)
   | Some tip \<Rightarrow>
       if frozen L pub then (Refused ''Account frozen'', L)
       else if capacityGB \<le> 0 then (Refused ''capacityGB must be a positive number'', L)
       else appendStorageBlock C now pub tip StorageRegister (b_balance tip)
         (blank_payload\<lparr>sp_capacityGB := Some capacityGB, sp_deviceId := (if truthy deviceId then deviceId else None)\<rparr>)
         None priv L)"

definition createStorageDeregister ::
  "crypto \<Rightarrow> int \<Rightarrow> hex \<Rightarrow> hex \<Rightarrow> engine_ledger \<Rightarrow> block outcome \<times> engine_ledger" where
  "createStorageDeregister C now pub priv L = (case getAccountHead L pub of
     None \<Rightarrow> (Refused ''Account not opened'', L)
   | Some tip \<Rightarrow> (case mget (pl_providers (el_providers L)) pub of
         None \<Rightarrow> (Refused ''Not a registered storage provider'', L)
       | Some p \<Rightarrow>
           if pv_capacityGB p \<le> 0 then (Refused ''Not a registered storage provider'', L)
           else appendStorageBlock C now pub tip StorageDeregister (b_balance tip)
             (blank_payload\<lparr>sp_capacityGB := Some (pv_capacityGB p)\<rparr>) None priv L))"

definition createStorageSettle ::
  "crypto \<Rightarrow> int \<Rightarrow> hex \<Rightarrow> signed_receipt list \<Rightarrow> int \<Rightarrow> storage_roots \<Rightarrow> hex \<Rightarrow> engine_ledger \<Rightarrow> block outcome \<times> engine_ledger" where
  "createStorageSettle C now pub receipts period roots priv L = (case getAccountHead L pub of
     None \<Rightarrow> (Refused ''Account not opened'', L)
   | Some tip \<Rightarrow> (case mget (pl_providers (el_providers L)) pub of
         None \<Rightarrow> (Refused ''Not a registered storage provider'', L)
       | Some p \<Rightarrow>
           if pv_capacityGB p \<le> 0 then (Refused ''Not a registered storage provider'', L)
           else if receipts = [] then (Refused ''No receipts to settle'', L)
           else let credit = settlementCredit C pub receipts (el_providers L) in
             if cd_payableBytes credit \<le> 0 then (Refused ''Nothing payable'', L)
             else let a = cd_payableBytes credit in
               appendStorageBlock C now pub tip StorageSettle (b_balance tip + a)
                 (blank_payload\<lparr>sp_periodIndex := Some period, sp_receipts := Some receipts,
                    sp_publishRoot := (if truthy (publishRoot roots) then publishRoot roots else None),
                    sp_serviceRoot := (if truthy (serviceRoot roots) then serviceRoot roots else None)\<rparr>)
                 (Some a) priv L))"

end
