(* ===== verification/Ledger_Sync.thy ===== *)
theory Ledger_Sync
  imports Engine_Ledger
begin

text \<open>
  What the ledger does with blocks, packets and evidence that arrive from the network:
  \<open>addBlock\<close> and the proof-carrying paths of \<open>src/ledger/engine-ledger.ts\<close>, block status,
  purge and reset.
\<close>

datatype ledger_error = LedgerError string | StorageRule storage_error

definition is_storage :: "block_type \<Rightarrow> bool" where
  "is_storage ty \<longleftrightarrow> ty = StorageRegister \<or> ty = StorageDeregister \<or> ty = StorageSettle"

definition le :: "string \<Rightarrow> ledger_error option" where
  "le s = Some (LedgerError s)"

text \<open>The checks of one block type against the head, in the order of the source. Types that have no
  check of their own, a second \<open>open\<close> among them, pass.\<close>

definition type_error :: "crypto \<Rightarrow> block \<Rightarrow> block \<Rightarrow> engine_ledger \<Rightarrow> ledger_error option" where
  "type_error C b tip L = (case b_type b of
     Update \<Rightarrow> if b_balance b \<noteq> b_balance tip then le ''update must preserve balance'' else None
   | Send \<Rightarrow> (case b_amount b of
         None \<Rightarrow> le ''send amount must be positive''
       | Some a \<Rightarrow> if a \<le> 0 then le ''send amount must be positive''
           else if b_balance b < 0 \<or> b_balance b \<noteq> b_balance tip - a then le ''send balance inconsistent'' else None)
   | Receive \<Rightarrow> (case b_amount b of
         None \<Rightarrow> le ''receive amount must be positive''
       | Some a \<Rightarrow> if a \<le> 0 then le ''receive amount must be positive''
           else if b_balance b \<noteq> b_balance tip + a then le ''receive balance inconsistent''
           else (case (if truthy (b_sourceHash b) then mget (el_allBlocks L) (the (b_sourceHash b)) else None) of
               None \<Rightarrow> None
             | Some src \<Rightarrow> if b_type src \<noteq> Send \<or> b_recipient src \<noteq> Some (b_accountId b) \<or> b_amount src \<noteq> Some a
                 then le ''receive does not match source send'' else None))
   | NftMint \<Rightarrow>
       if b_balance b \<noteq> b_balance tip then le ''nft-mint must preserve balance''
       else if \<not> truthy (b_tokenId b) \<or> \<not> truthy (b_contentRef b) then le ''nft-mint missing token/content''
       else if mhas (el_nftInfo L) (the (b_tokenId b)) \<or> the (b_tokenId b) \<in> el_burned L then le ''nft tokenId already exists''
       else None
   | NftSend \<Rightarrow>
       if b_balance b \<noteq> b_balance tip then le ''nft-send must preserve balance''
       else if \<not> truthy (b_tokenId b) \<or> \<not> truthy (b_recipient b) then le ''nft-send missing token/recipient''
       else if mget (el_nftOwner L) (the (b_tokenId b)) \<noteq> Some (b_accountId b) \<and> b_hash b \<notin> el_claimedNft L
       then le ''nft-send: not the owner'' else None
   | NftReceive \<Rightarrow>
       if b_balance b \<noteq> b_balance tip then le ''nft-receive must preserve balance''
       else if \<not> truthy (b_tokenId b) \<or> \<not> truthy (b_sourceHash b) then le ''nft-receive missing token/source''
       else (case mget (el_allBlocks L) (the (b_sourceHash b)) of
           None \<Rightarrow> None
         | Some src \<Rightarrow> if b_type src \<noteq> NftSend \<or> b_recipient src \<noteq> Some (b_accountId b) \<or> b_tokenId src \<noteq> b_tokenId b
             then le ''nft-receive does not match source'' else None)
   | NftBurn \<Rightarrow>
       if b_balance b \<noteq> b_balance tip then le ''nft-burn must preserve balance''
       else if \<not> truthy (b_tokenId b) then le ''nft-burn missing token''
       else if mget (el_nftOwner L) (the (b_tokenId b)) \<noteq> Some (b_accountId b) then le ''nft-burn: not the owner'' else None
   | StorageSettle \<Rightarrow> (case b_amount b of
         None \<Rightarrow> le ''storage-settle amount must be positive''
       | Some a \<Rightarrow> if a \<le> 0 then le ''storage-settle amount must be positive''
           else if b_balance b \<noteq> b_balance tip + a then le ''storage-settle balance inconsistent''
           else map_option StorageRule (pl_validate C b (el_providers L)))
   | StorageRegister \<Rightarrow> if b_balance b \<noteq> b_balance tip then le ''storage-register must preserve balance''
       else map_option StorageRule (pl_validate C b (el_providers L))
   | StorageDeregister \<Rightarrow> if b_balance b \<noteq> b_balance tip then le ''storage-deregister must preserve balance''
       else map_option StorageRule (pl_validate C b (el_providers L))
   | Open \<Rightarrow> None)"

text \<open>What an accepted block changes beside its chain.\<close>

definition block_effects :: "crypto \<Rightarrow> block \<Rightarrow> engine_ledger \<Rightarrow> engine_ledger" where
  "block_effects C b L =
     (if b_type b = Send \<and> truthy (b_recipient b) \<and> b_amount b \<noteq> None
      then (if b_hash b \<in> el_claimed L then L
            else L\<lparr>el_unclaimed := mset_at (b_hash b)
              \<lparr>us_from = b_accountId b, us_to = the (b_recipient b), us_amount = real_of_int (the (b_amount b))\<rparr> (el_unclaimed L)\<rparr>)
      else if b_type b = Receive \<and> truthy (b_sourceHash b)
      then L\<lparr>el_claimed := insert (the (b_sourceHash b)) (el_claimed L),
             el_unclaimed := mdel (the (b_sourceHash b)) (el_unclaimed L)\<rparr>
      else (case (b_type b, b_updates b) of
          (Update, Some us) \<Rightarrow> applyAccountUpdate (b_accountId b) us L
        | _ \<Rightarrow>
          if b_type b = NftMint then applyNftMint b L
          else if b_type b = NftSend then applyNftSend b L
          else if b_type b = NftReceive then applyNftReceive b L
          else if b_type b = NftBurn then applyNftBurn b L
          else if is_storage (b_type b) then L\<lparr>el_providers := pl_apply C b (el_providers L)\<rparr>
          else L))"

text \<open>The root check, \<open>append\<close>, \<open>push\<close> and everything after it.\<close>

definition commit_block :: "crypto \<Rightarrow> int \<Rightarrow> held \<Rightarrow> block \<Rightarrow> engine_ledger \<Rightarrow> (ledger_error option \<times> engine_ledger) option" where
  "commit_block C now h b L = (case rootWithHex C (b_hash b) (h_acc h) of
     None \<Rightarrow> None
   | Some r \<Rightarrow>
       if r \<noteq> b_accumulatorRoot b then Some (le ''accumulator root mismatch'', L)
       else (case acc_append C (b_hash b) (h_acc h) of
           None \<Rightarrow> None
         | Some acc \<Rightarrow>
             (let L1 = L\<lparr>el_held := mset_at (b_accountId b) \<lparr>h_blocks = h_blocks h @ [b], h_acc = acc\<rparr> (el_held L)\<rparr>;
                  L2 = block_effects C b L1
              in Some (None, L2\<lparr>el_allBlocks := mset_at (b_hash b) b (el_allBlocks L2),
                   el_appliedAt := mset_at (b_hash b) now (el_appliedAt L2)\<rparr>))))"

definition retain_sibling :: "block \<Rightarrow> block \<Rightarrow> engine_ledger \<Rightarrow> engine_ledger" where
  "retain_sibling existing b L =
     (let L1 = flagEquivocation existing b L in L1\<lparr>el_allBlocks := mset_at (b_hash b) b (el_allBlocks L1)\<rparr>)"

text \<open>\<open>None\<close>: an exception. A known account without blocks makes every access to its head throw.\<close>

definition addBlock :: "crypto \<Rightarrow> int \<Rightarrow> block \<Rightarrow> engine_ledger \<Rightarrow> (ledger_error option \<times> engine_ledger) option" where
  "addBlock C now b L =
     (if computeContentHash C b \<noteq> b_hash b then Some (le ''content hash mismatch'', L)
      else if \<not> verifyBlockSignature C b then Some (le ''invalid signature'', L)
      else if frozen L (b_accountId b) then Some (le ''account equivocated'', L)
      else if b_index b = 0
      then (if b_type b \<noteq> Open \<or> b_previousHash b \<noteq> GENESIS_PREV then Some (le ''bad genesis'', L)
            else if b_balance b \<noteq> LEDGER_MINT then Some (le ''open must mint exactly the genesis amount'', L)
            else (case mget (el_held L) (b_accountId b) of
                Some h \<Rightarrow> (case js_at (h_blocks h) 0 of
                    None \<Rightarrow> None
                  | Some g \<Rightarrow> if b_hash g = b_hash b then Some (None, L)
                      else Some (le ''conflicting open'', retain_sibling g b L))
              | None \<Rightarrow> (let h = \<lparr>h_blocks = [], h_acc = []\<rparr> in
                  commit_block C now h b (L\<lparr>el_held := mset_at (b_accountId b) h (el_held L)\<rparr>))))
      else (case mget (el_held L) (b_accountId b) of
          None \<Rightarrow> Some (le ''missing prior chain'', L)
        | Some h \<Rightarrow> (case last_opt (h_blocks h) of
            None \<Rightarrow> None
          | Some tip \<Rightarrow>
              if b_index b \<le> b_index tip
              then (case js_at (h_blocks h) (b_index b) of
                  None \<Rightarrow> Some (le ''stale/conflicting'', L)
                | Some e \<Rightarrow> if b_hash e = b_hash b then Some (None, L)
                    else Some (le ''stale/conflicting'', retain_sibling e b L))
              else if b_index b \<noteq> b_index tip + 1 then Some (le ''non-sequential'', L)
              else if b_previousHash b \<noteq> b_hash tip then Some (le ''previousHash mismatch'', L)
              else (case type_error C b tip L of
                  Some e \<Rightarrow> Some (Some e, L)
                | None \<Rightarrow> commit_block C now h b L))))"

section \<open>Proof-carrying paths\<close>

definition buildCounterpartyPacket :: "crypto \<Rightarrow> hex \<Rightarrow> hex \<Rightarrow> engine_ledger \<Rightarrow> packet option option" where
  "buildCounterpartyPacket C pub sendHash L = (case mget (el_held L) pub of
     None \<Rightarrow> Some None
   | Some h \<Rightarrow> if h_blocks h = [] then Some None else buildPacketFromChain C (h_blocks h) sendHash)"

definition buildMintProof :: "crypto \<Rightarrow> hex \<Rightarrow> hex \<Rightarrow> engine_ledger \<Rightarrow> mint_proof option option" where
  "buildMintProof C pub token L = (case mget (el_held L) pub of
     None \<Rightarrow> Some None
   | Some h \<Rightarrow> if h_blocks h = [] then Some None else buildMintProofFromChain C (h_blocks h) token)"

definition registerVerifiedMint ::
  "crypto \<Rightarrow> ledger_config \<Rightarrow> mint_proof \<Rightarrow> hex \<Rightarrow> engine_ledger \<Rightarrow> (string option \<times> engine_ledger) option" where
  "registerVerifiedMint C cfg p token L =
     (if mhas (el_nftInfo L) token then Some (None, L)
      else let m = mp_mint p in
        if frozen L (b_accountId m) then Some (Some ''minter equivocated'', L)
        else if token \<in> el_burned L then Some (Some ''token burned'', L)
        else (case verifyMintProof C p token (lc_policy cfg) of
            None \<Rightarrow> None
          | Some v \<Rightarrow> if \<not> v_ok v then Some (Some (nvl (v_reason v) []), L)
              else Some (None, L\<lparr>el_allBlocks := mset_at (b_hash m) m (el_allBlocks L),
                el_nftInfo := mset_at token \<lparr>ni_minter = b_accountId m, ni_contentRef = the (b_contentRef m),
                  ni_meta = nvl (b_nftMeta m) []\<rparr> (el_nftInfo L)\<rparr>)))"

definition restoreVerifiedBlock :: "crypto \<Rightarrow> block \<Rightarrow> engine_ledger \<Rightarrow> bool \<times> engine_ledger" where
  "restoreVerifiedBlock C b L =
     (let put = L\<lparr>el_allBlocks := mset_at (b_hash b) b (el_allBlocks L)\<rparr> in
      if computeContentHash C b \<noteq> b_hash b \<or> \<not> verifyBlockSignature C b then (False, L)
      else if b_type b = NftMint
      then (if \<not> truthy (b_tokenId b) \<or> \<not> truthy (b_contentRef b) then (False, L)
            else if the (b_tokenId b) \<in> el_burned L then (False, L)
            else (True, if mhas (el_nftInfo L) (the (b_tokenId b)) then put
              else put\<lparr>el_nftInfo := mset_at (the (b_tokenId b)) \<lparr>ni_minter = b_accountId b,
                ni_contentRef = the (b_contentRef b), ni_meta = nvl (b_nftMeta b) []\<rparr> (el_nftInfo L)\<rparr>))
      else if b_type b = NftSend
      then (if \<not> truthy (b_tokenId b) \<or> \<not> truthy (b_recipient b) then (False, L) else (True, applyNftSend b put))
      else if b_type b = Send
      then (if \<not> truthy (b_recipient b) \<or> b_amount b = None then (False, L)
            else (True, if b_hash b \<in> el_claimed L \<or> mhas (el_unclaimed L) (b_hash b) then put
              else put\<lparr>el_unclaimed := mset_at (b_hash b) \<lparr>us_from = b_accountId b, us_to = the (b_recipient b),
                us_amount = real_of_int (the (b_amount b))\<rparr> (el_unclaimed L)\<rparr>))
      else (False, L))"

definition registerVerifiedSend ::
  "crypto \<Rightarrow> ledger_config \<Rightarrow> packet \<Rightarrow> hex \<Rightarrow> engine_ledger \<Rightarrow> (string option \<times> engine_ledger) option" where
  "registerVerifiedSend C cfg p rcpt L =
     (let s = pk_send p; put = L\<lparr>el_allBlocks := mset_at (b_hash s) s (el_allBlocks L)\<rparr> in
      if frozen L (b_accountId s) then Some (Some ''sender equivocated'', L)
      else (case verifyPacket C p rcpt (lc_policy cfg) of
          None \<Rightarrow> None
        | Some v \<Rightarrow>
            if \<not> v_ok v then Some (Some (nvl (v_reason v) []), L)
            else if b_type s = NftSend
            then (if \<not> truthy (b_tokenId s) then Some (Some ''nft-send missing token'', L)
                  else if b_hash s \<in> el_claimedNft L then Some (Some ''already claimed'', L)
                  else if the (b_tokenId s) \<in> el_burned L then Some (Some ''token burned'', L)
                  else Some (None, if mhas (el_unclaimedNft L) (b_hash s) then put
                    else put\<lparr>el_unclaimedNft := mset_at (b_hash s) \<lparr>nt_token = the (b_tokenId s),
                      nt_from = b_accountId s, nt_to = rcpt\<rparr> (el_unclaimedNft L)\<rparr>))
            else if b_hash s \<in> el_claimed L then Some (Some ''already claimed'', L)
            else Some (None, if mhas (el_unclaimed L) (b_hash s) then put
              else put\<lparr>el_unclaimed := mset_at (b_hash s) \<lparr>us_from = b_accountId s, us_to = rcpt,
                us_amount = real_of_int (nvl (b_amount s) 0)\<rparr> (el_unclaimed L)\<rparr>)))"

section \<open>Status, purge, reset\<close>

datatype ledger_status = LFinal | LConfirmed | LRejected | LPending | LUnknown

definition getBlockStatus :: "int \<Rightarrow> hex \<Rightarrow> engine_ledger \<Rightarrow> ledger_status \<times> engine_ledger" where
  "getBlockStatus now h L = (case mget (el_allBlocks L) h of
     None \<Rightarrow> (LUnknown, L)
   | Some b \<Rightarrow>
       if frozen L (b_accountId b) then (LRejected, L)
       else if isFinal (el_committee L) h then (LFinal, L)
       else (case mget (el_appliedAt L) h of
           None \<Rightarrow> (LConfirmed, L)
         | Some t \<Rightarrow> if now - t < CHALLENGE_WINDOW_MS then (LPending, L)
             else (LConfirmed, L\<lparr>el_appliedAt := mdel h (el_appliedAt L)\<rparr>)))"

definition getAllBlocks :: "engine_ledger \<Rightarrow> block list" where
  "getAllBlocks L = sort_key b_timestamp (concat (map h_blocks (mvals (el_held L))))"

definition totalAccounts :: "engine_ledger \<Rightarrow> int" where
  "totalAccounts L = int (card (set (mkeys (el_accounts L)) \<union> set (mkeys (el_held L))))"

record feasibility =
  fz_feasible :: bool
  fz_withCapacity :: int
  fz_active :: int

definition checkPublishFeasibility ::
  "storage_timing \<Rightarrow> int \<Rightarrow> int \<Rightarrow> int \<Rightarrow> engine_ledger \<Rightarrow> feasibility \<times> engine_ledger" where
  "checkPublishFeasibility T now fileSize minCopies L = (case liveProviders T now (el_providers L) of
     (live, pl) \<Rightarrow>
       (let n = int (length (filter (\<lambda>p. freeBytes (pv_pub p) pl \<ge> fileSize) live))
        in (\<lparr>fz_feasible = (n \<ge> minCopies), fz_withCapacity = n, fz_active = int (length live)\<rparr>, L\<lparr>el_providers := pl\<rparr>)))"

definition purgeAccount :: "hex \<Rightarrow> engine_ledger \<Rightarrow> engine_ledger" where
  "purgeAccount pub L = L\<lparr>el_held := mdel pub (el_held L),
     el_providers := (el_providers L)\<lparr>pl_providers := mdel pub (pl_providers (el_providers L))\<rparr>,
     el_usernames := (case mget (el_accounts L) pub of None \<Rightarrow> el_usernames L
       | Some a \<Rightarrow> mdel (la_username a) (el_usernames L)),
     el_accounts := mdel pub (el_accounts L)\<rparr>"

text \<open>\<open>reset\<close> keeps the identity registry, which has no clear operation.\<close>

definition ledger_reset :: "crypto \<Rightarrow> engine_ledger \<Rightarrow> engine_ledger" where
  "ledger_reset C L = (new_ledger C)\<lparr>el_identity := el_identity L, el_providers := pl_clear (el_providers L)\<rparr>"

end
