(* ===== verification/Ledger_Runs.thy ===== *)
theory Ledger_Runs
  imports Ledger_Sync Owner_Chain
begin

text \<open>
  Runs of the application ledger: every operation as a call, the states reachable from the empty
  ledger, and the invariants on them. The chains a ledger holds are well formed and their balances
  follow the rules of their block types, a claimed transfer is never offered again, and the state of
  consensus (bonds, seeds, weight snapshots) stays within its bounds.
\<close>

section \<open>Calls\<close>

datatype own_op =
    OOpen hex "typed_attestation list" bool
  | OSend string real
  | OReceive hex
  | OUpdate "(string \<times> string) list"
  | OMintNft string "(string \<times> string) list"
  | OTransferNft hex string
  | OReceiveNft hex
  | OBurnNft hex
  | OStorageRegister int "string option"
  | OStorageDeregister
  | OStorageSettle "signed_receipt list" int storage_roots

fun own_run :: "crypto \<Rightarrow> ledger_config \<Rightarrow> int \<Rightarrow> hex \<Rightarrow> hex \<Rightarrow> own_op \<Rightarrow> engine_ledger \<Rightarrow> block outcome \<times> engine_ledger" where
  "own_run C cfg now pub priv (OOpen nullifier atts bonded) L = openAccount C cfg now pub priv nullifier atts bonded L"
| "own_run C cfg now pub priv (OSend to amt) L = createSend C now pub to amt priv L"
| "own_run C cfg now pub priv (OReceive h) L = createReceive C now pub h priv L"
| "own_run C cfg now pub priv (OUpdate us) L = createUpdate C now pub us priv L"
| "own_run C cfg now pub priv (OMintNft ref meta) L = createMintNft C now pub ref meta priv L"
| "own_run C cfg now pub priv (OTransferNft t to) L = createTransferNft C now pub t to priv L"
| "own_run C cfg now pub priv (OReceiveNft h) L = createReceiveNft C now pub h priv L"
| "own_run C cfg now pub priv (OBurnNft t) L = createBurnNft C now pub t priv L"
| "own_run C cfg now pub priv (OStorageRegister cap dev) L = createStorageRegister C now pub cap dev priv L"
| "own_run C cfg now pub priv OStorageDeregister L = createStorageDeregister C now pub priv L"
| "own_run C cfg now pub priv (OStorageSettle rs k roots) L = createStorageSettle C now pub rs k roots priv L"

datatype net_op =
    NBlock int block
  | NRestore block
  | NPacket packet hex
  | NMint mint_proof hex
  | NEvidence evidence
  | NBond hex "int option"
  | NVote committee_vote
  | NEpoch "hex list" "hex list option"
  | NAccount ledger_account
  | NAccountFields string "(string, string) jsmap"
  | NDiscovered "provider_state list"
  | NStatus int hex
  | NPurge hex
  | NReset

text \<open>An exception leaves the state as it is, except that a voted block stays registered.\<close>

fun net_run :: "crypto \<Rightarrow> 'p curve \<Rightarrow> ledger_config \<Rightarrow> net_op \<Rightarrow> engine_ledger \<Rightarrow> engine_ledger" where
  "net_run C E cfg (NBlock now b) L = (case addBlock C now b L of None \<Rightarrow> L | Some (e, L') \<Rightarrow> L')"
| "net_run C E cfg (NRestore b) L = snd (restoreVerifiedBlock C b L)"
| "net_run C E cfg (NPacket p rcpt) L = (case registerVerifiedSend C cfg p rcpt L of None \<Rightarrow> L | Some (e, L') \<Rightarrow> L')"
| "net_run C E cfg (NMint p t) L = (case registerVerifiedMint C cfg p t L of None \<Rightarrow> L | Some (e, L') \<Rightarrow> L')"
| "net_run C E cfg (NEvidence ev) L = snd (applyEvidence C ev L)"
| "net_run C E cfg (NBond pub a) L = snd (bondStake pub a L)"
| "net_run C E cfg (NVote v) L = (case applyCommitteeVote C E v L of None \<Rightarrow> register_voted (cv_blockHash v) L | Some (r, L') \<Rightarrow> L')"
| "net_run C E cfg (NEpoch betas act) L = (case advanceEpoch C betas act L of None \<Rightarrow> L | Some L' \<Rightarrow> L')"
| "net_run C E cfg (NAccount a) L = registerAccount a L"
| "net_run C E cfg (NAccountFields p kvs) L = updateAccountFields p kvs L"
| "net_run C E cfg (NDiscovered rs) L = L\<lparr>el_providers := setDiscovered rs (el_providers L)\<rparr>"
| "net_run C E cfg (NStatus now h) L = snd (getBlockStatus now h L)"
| "net_run C E cfg (NPurge p) L = purgeAccount p L"
| "net_run C E cfg NReset L = ledger_reset C L"

text \<open>A genesis that arrives carries the root of its own hash.\<close>

fun net_ok :: "crypto \<Rightarrow> net_op \<Rightarrow> bool" where
  "net_ok C (NBlock now b) = genesis_root_ok C b"
| "net_ok C _ = True"

text \<open>
  Reachable ledgers, with the source hashes their owners have claimed. The owner's key belongs to
  the account, creation does not throw, and the hash of a new block is not the source of an
  earlier receive.
\<close>

inductive ledger_reach :: "crypto \<Rightarrow> 'p curve \<Rightarrow> ledger_config \<Rightarrow> engine_ledger \<Rightarrow> hex list \<Rightarrow> bool" for C E cfg where
  led_start: "hex_codec C \<Longrightarrow> signing C \<Longrightarrow> ledger_reach C E cfg (new_ledger C) []"
| led_own: "ledger_reach C E cfg L lg \<Longrightarrow> publicKeyFromPrivate C priv = Some pub \<Longrightarrow>
    own_run C cfg now pub priv x L = (r, L') \<Longrightarrow> r \<noteq> Threw \<Longrightarrow> (\<And>b. r = Done b \<Longrightarrow> b_hash b \<notin> el_claimed L) \<Longrightarrow>
    ledger_reach C E cfg L' (case (x, r) of (OReceive h, Done b) \<Rightarrow> lg @ [h] | _ \<Rightarrow> lg)"
| led_net: "ledger_reach C E cfg L lg \<Longrightarrow> net_ok C x \<Longrightarrow>
    ledger_reach C E cfg (net_run C E cfg x L) (if x = NReset then [] else lg)"

section \<open>What the operations leave alone\<close>

lemma recompute_frame [simp]:
  "el_held (recomputeNftOwner t L) = el_held L" "el_unclaimed (recomputeNftOwner t L) = el_unclaimed L"
  "el_claimed (recomputeNftOwner t L) = el_claimed L" "el_validators (recomputeNftOwner t L) = el_validators L"
  "el_seeds (recomputeNftOwner t L) = el_seeds L" "el_epoch (recomputeNftOwner t L) = el_epoch L"
  "el_snapshots (recomputeNftOwner t L) = el_snapshots L"
  by (auto simp: recomputeNftOwner_def split: option.split list.split)

lemma custody_frame [simp]:
  "el_held (recordNftCustody t a i x L) = el_held L" "el_unclaimed (recordNftCustody t a i x L) = el_unclaimed L"
  "el_claimed (recordNftCustody t a i x L) = el_claimed L" "el_validators (recordNftCustody t a i x L) = el_validators L"
  "el_seeds (recordNftCustody t a i x L) = el_seeds L" "el_epoch (recordNftCustody t a i x L) = el_epoch L"
  "el_snapshots (recordNftCustody t a i x L) = el_snapshots L"
  by (auto simp: recordNftCustody_def Let_def split: option.split)

text \<open>The part of the state the invariants are about.\<close>

definition core :: "engine_ledger \<Rightarrow> account_store \<times> (hex, unclaimed_send) jsmap \<times> hex set \<times> validator_registry
    \<times> epoch_seeds \<times> int \<times> (int, weight_snapshot) jsmap" where
  "core L = (el_held L, el_unclaimed L, el_claimed L, el_validators L, el_seeds L, el_epoch L, el_snapshots L)"

lemma core_nft [simp]:
  "core (applyNftMint b L) = core L" "core (applyNftSend b L) = core L"
  "core (applyNftReceive b L) = core L" "core (applyNftBurn b L) = core L"
  by (simp_all add: core_def applyNftMint_def applyNftSend_def applyNftReceive_def applyNftBurn_def Let_def)

lemma core_account [simp]:
  "core (applyAccountUpdate p us L) = core L" "core (registerAccount a L) = core L"
  "core (updateAccountFields p kvs L) = core L"
  by (auto simp: core_def applyAccountUpdate_def registerAccount_def updateAccountFields_def split: option.split)

lemma core_eqD:
  assumes "core L = core M"
  shows "el_held L = el_held M" "el_unclaimed L = el_unclaimed M" "el_claimed L = el_claimed M"
    "el_validators L = el_validators M" "el_seeds L = el_seeds M" "el_epoch L = el_epoch M" "el_snapshots L = el_snapshots M"
  using assms by (simp_all add: core_def)

section \<open>Accounting\<close>

definition balance_ok :: "block \<Rightarrow> block \<Rightarrow> bool" where
  "balance_ok p b = (case b_type b of
     Open \<Rightarrow> True
   | Send \<Rightarrow> (case b_amount b of None \<Rightarrow> False | Some a \<Rightarrow> 0 \<le> a \<and> b_balance b = b_balance p - a)
   | Receive \<Rightarrow> (case b_amount b of None \<Rightarrow> False | Some a \<Rightarrow> b_balance b = b_balance p + a)
   | StorageSettle \<Rightarrow> (case b_amount b of None \<Rightarrow> False | Some a \<Rightarrow> 0 < a \<and> b_balance b = b_balance p + a)
   | _ \<Rightarrow> b_balance b = b_balance p)"

definition books_ok :: "block list \<Rightarrow> bool" where
  "books_ok bs \<longleftrightarrow> bs = [] \<or> b_balance (hd bs) = LEDGER_MINT \<and> successively balance_ok bs"

definition chains_ok :: "crypto \<Rightarrow> account_store \<Rightarrow> bool" where
  "chains_ok C st \<longleftrightarrow> store_inv C True st \<and> (\<forall>a. books_ok (chain st a))"

text \<open>One account's chain is extended by one block.\<close>

definition extends :: "crypto \<Rightarrow> account_store \<Rightarrow> block \<Rightarrow> account_store \<Rightarrow> bool" where
  "extends C st b st' \<longleftrightarrow> store_inv C True st'
     \<and> chain st' = (chain st)(b_accountId b := chain st (b_accountId b) @ [b])"

lemma extends_ok:
  assumes "chains_ok C st" "extends C st b st'" "if chain st (b_accountId b) = [] then b_balance b = LEDGER_MINT
    else balance_ok (last (chain st (b_accountId b))) b"
  shows "chains_ok C st'"
  using assms by (auto simp: chains_ok_def extends_def books_ok_def successively_append_iff split: if_splits)

lemma created_amount:
  assumes "createBlock C c priv acc = (Some b, acc')"
  shows "b_amount b = b_amount c" "b_sourceHash b = b_sourceHash c" "b_tokenId b = b_tokenId c"
  using createBlock_Some [OF assms] by (auto; cases c; simp add: content.defs block.defs)+

lemma own_block_done:
  assumes "own_block C c priv h L = (Some b, L1)" "store_inv C True (el_held L)" "signing C"
    "mget (el_held L) (b_accountId c) = Some h" "last_opt (h_blocks h) = Some tip"
    "publicKeyFromPrivate C priv = Some (b_accountId c)" "b_index c = b_index tip + 1" "b_previousHash c = b_hash tip"
  shows "extends C (el_held L) b (el_held L1)" "b_accountId b = b_accountId c" "b_type b = b_type c"
    "b_balance b = b_balance c" "b_amount b = b_amount c" "last (chain (el_held L) (b_accountId c)) = tip"
    "chain (el_held L) (b_accountId c) \<noteq> []"
proof -
  let ?a = "b_accountId c"
  obtain acc where cr: "createBlock C c priv (h_acc h) = (Some b, acc)"
    and L1: "el_held L1 = mset_at ?a \<lparr>h_blocks = h_blocks h @ [b], h_acc = acc\<rparr> (el_held L)"
    using assms(1) by (auto simp: own_block_def split: prod.splits option.splits)
  have hx: "hex_codec C" and hk: "held_ok C True ?a h"
    using assms(2,4) by (auto simp: store_inv_def)
  have ah: "all_hex C (map b_hash (h_blocks h)) = Some (h_acc h)" and ne: "h_blocks h \<noteq> []"
    using hk by (auto simp: held_ok_def)
  have tip: "tip = last (h_blocks h)"
    using assms(5) ne by (simp add: last_opt_def)
  note fs = created_content [OF cr]
  obtain leaf where leaf: "c_fromHex C (b_hash b) = Some leaf" "acc = h_acc h @ [leaf]" "b_accumulatorRoot b = acc_rootHex C acc"
    using created_root [OF cr] by auto
  have vb: "verifyBlock C b"
    by (rule createBlock_verifies [OF cr hx assms(3,6)])
  have "next_ok C True (h_blocks h) b"
    using vb fs assms(7,8) tip held_last [OF hk] ne next_ok_root [OF ah leaf(1)] leaf(2,3)
    by (auto simp: next_ok_def verifyBlock_def split: if_splits)
  then have "held_ok C True ?a \<lparr>h_blocks = h_blocks h @ [b], h_acc = acc\<rparr>"
    unfolding leaf(2) by (rule held_ok_extend [OF disjI1 [OF hk] _ fs(1) leaf(1)])
  moreover have ch: "chain (el_held L) ?a = h_blocks h"
    using assms(4) by (simp add: chain_def)
  ultimately show "extends C (el_held L) b (el_held L1)"
    using assms(2) fs(1) by (simp add: extends_def L1 chain_set store_inv_set)
  show "last (chain (el_held L) ?a) = tip" "chain (el_held L) ?a \<noteq> []"
    using ch tip ne by simp_all
  show "b_accountId b = b_accountId c" "b_type b = b_type c" "b_balance b = b_balance c" "b_amount b = b_amount c"
    using fs created_amount [OF cr] by simp_all
qed

section \<open>Calls of the owner\<close>

lemma head_held:
  "getAccountHead L pub = Some tip \<Longrightarrow> \<exists>h. mget (el_held L) pub = Some h \<and> last_opt (h_blocks h) = Some tip"
  by (auto simp: getAccountHead_def split: option.splits)

lemma next_content_simps [simp]:
  "b_accountId (next_content pub tip ty now bal) = pub" "b_index (next_content pub tip ty now bal) = b_index tip + 1"
  "b_type (next_content pub tip ty now bal) = ty" "b_previousHash (next_content pub tip ty now bal) = b_hash tip"
  "b_balance (next_content pub tip ty now bal) = bal" "b_amount (next_content pub tip ty now bal) = None"
  by (simp_all add: next_content_def)

lemma own_block_frame:
  "own_block C c priv h L = (r, L1) \<Longrightarrow> core L1 = (el_held L1, snd (core L))"
  by (auto simp: own_block_def core_def split: prod.splits option.splits)

text \<open>What a successful call does to the chains and to the transfers in flight.\<close>

definition grows :: "crypto \<Rightarrow> engine_ledger \<Rightarrow> block \<Rightarrow> engine_ledger \<Rightarrow> bool" where
  "grows C L b L' \<longleftrightarrow> extends C (el_held L) b (el_held L')
     \<and> (if chain (el_held L) (b_accountId b) = [] then b_balance b = LEDGER_MINT
        else balance_ok (last (chain (el_held L) (b_accountId b))) b)"

fun transfers :: "own_op \<Rightarrow> block \<Rightarrow> engine_ledger \<Rightarrow> engine_ledger \<Rightarrow> bool" where
  "transfers (OReceive h) b L L' \<longleftrightarrow> mhas (el_unclaimed L) h
     \<and> el_claimed L' = insert h (el_claimed L) \<and> el_unclaimed L' = mdel h (el_unclaimed L)"
| "transfers (OSend r n) b L L' \<longleftrightarrow> el_claimed L' = el_claimed L \<and> (\<exists>u. el_unclaimed L' = mset_at (b_hash b) u (el_unclaimed L))"
| "transfers x b L L' \<longleftrightarrow> el_claimed L' = el_claimed L \<and> el_unclaimed L' = el_unclaimed L"

definition consensus :: "engine_ledger \<Rightarrow> epoch_seeds \<times> int \<times> (int, weight_snapshot) jsmap" where
  "consensus L = (el_seeds L, el_epoch L, el_snapshots L)"

lemma core_consensus: "core L = core M \<Longrightarrow> consensus L = consensus M"
  by (simp add: core_def consensus_def)

lemma own_grows:
  assumes inv: "store_inv C True (el_held L)" "signing C" "publicKeyFromPrivate C priv = Some pub"
    and "own_block C c priv (the (mget (el_held L) pub)) L = (Some b, L1)" "getAccountHead L pub = Some tip"
    "b_accountId c = pub" "b_index c = b_index tip + 1" "b_previousHash c = b_hash tip"
    and ok: "\<And>b'. b_type b' = b_type c \<Longrightarrow> b_balance b' = b_balance c \<Longrightarrow> b_amount b' = b_amount c \<Longrightarrow> balance_ok tip b'"
  shows "grows C L b L1 \<and> core L1 = (el_held L1, snd (core L))"
proof -
  obtain h where h: "mget (el_held L) pub = Some h" "last_opt (h_blocks h) = Some tip"
    using head_held [OF assms(5)] by blast
  have ob: "own_block C c priv h L = (Some b, L1)"
    using assms(4) h(1) by simp
  note d = own_block_done [OF ob inv(1,2), of tip, unfolded assms(6), OF h inv(3) assms(7,8)]
  show ?thesis
    using d own_block_frame [OF ob] ok by (simp add: grows_def)
qed

lemma grows_core: "grows C L b L1 \<Longrightarrow> core L' = core L1 \<Longrightarrow> grows C L b L'"
  by (simp add: grows_def core_def)

text \<open>A call other than \<open>openAccount\<close> either refuses and changes nothing, or grows one chain.\<close>

definition call_ok :: "crypto \<Rightarrow> own_op \<Rightarrow> engine_ledger \<Rightarrow> block outcome \<times> engine_ledger \<Rightarrow> bool" where
  "call_ok C x L res \<longleftrightarrow> (case fst res of
     Threw \<Rightarrow> True
   | Refused m \<Rightarrow> snd res = L
   | Done b \<Rightarrow> grows C L b (snd res) \<and> transfers x b L (snd res)
       \<and> el_validators (snd res) = el_validators L \<and> consensus (snd res) = consensus L)"

lemma core_split: "core L1 = (el_held L1, snd (core L)) \<longleftrightarrow> el_unclaimed L1 = el_unclaimed L \<and> el_claimed L1 = el_claimed L
    \<and> el_validators L1 = el_validators L \<and> el_seeds L1 = el_seeds L \<and> el_epoch L1 = el_epoch L \<and> el_snapshots L1 = el_snapshots L"
  by (simp add: core_def)

lemma call_ok_block:
  assumes "store_inv C True (el_held L)" "signing C" "publicKeyFromPrivate C priv = Some pub" "getAccountHead L pub = Some tip"
    "b_accountId c = pub" "b_index c = b_index tip + 1" "b_previousHash c = b_hash tip"
    and "\<And>b'. b_type b' = b_type c \<Longrightarrow> b_balance b' = b_balance c \<Longrightarrow> b_amount b' = b_amount c \<Longrightarrow> balance_ok tip b'"
    and f: "\<And>b L1. core L1 = (el_held L1, snd (core L)) \<Longrightarrow> el_held (f b L1) = el_held L1 \<and> transfers x b L (f b L1)
      \<and> el_validators (f b L1) = el_validators L \<and> consensus (f b L1) = consensus L"
  shows "call_ok C x L (case own_block C c priv (the (mget (el_held L) pub)) L of (None, L1) \<Rightarrow> (Threw, L1)
    | (Some b, L1) \<Rightarrow> (Done b, f b L1))"
proof (cases "own_block C c priv (the (mget (el_held L) pub)) L")
  case (Pair r L1)
  show ?thesis
  proof (cases r)
    case (Some b)
    with Pair have ob: "own_block C c priv (the (mget (el_held L) pub)) L = (Some b, L1)"
      by simp
    have g: "grows C L b L1" "core L1 = (el_held L1, snd (core L))"
      using own_grows [OF assms(1-3) ob assms(4-7)] assms(8) by blast+
    note fb = f [OF g(2), of b]
    have "grows C L b (f b L1)"
      using g(1) fb unfolding grows_def by (elim conjE) simp
    then show ?thesis
      using fb by (simp add: ob call_ok_def)
  qed (simp add: Pair call_ok_def)
qed

lemma call_refused [simp]: "call_ok C x L (Refused m, L)" "call_ok C x L (Threw, L')"
  by (simp_all add: call_ok_def)

lemma send_ok:
  assumes "store_inv C True (el_held L)" "signing C" "publicKeyFromPrivate C priv = Some pub"
  shows "call_ok C (OSend r amt) L (createSend C now pub r amt priv L)"
proof (cases "getAccountHead L pub")
  case (Some tip)
  have r0: "0 \<le> js_round amt" if "\<not> amt \<le> 0"
    using that by (simp add: js_round_def)
  show ?thesis
  proof (cases "resolveToPublicKey L r")
    case rc: (Some to)
    show ?thesis
    proof (cases "to = [] \<or> amt \<le> 0 \<or> b_balance tip - bondedOf (el_validators L) pub < js_round amt")
      case False
      then show ?thesis
        by (simp add: createSend_def Some rc Let_def)
          ((rule call_ok_block [OF assms Some]; simp add: balance_ok_def core_split consensus_def r0), blast)
    qed (use Some rc in \<open>auto simp: createSend_def Let_def\<close>)
  qed (simp add: createSend_def)
qed (simp add: createSend_def split: option.split)

lemma receive_ok:
  assumes "store_inv C True (el_held L)" "signing C" "publicKeyFromPrivate C priv = Some pub"
  shows "call_ok C (OReceive h) L (createReceive C now pub h priv L)"
proof (cases "mget (el_unclaimed L) h")
  case (Some u)
  show ?thesis
  proof (cases "us_to u = pub \<and> getAccountHead L pub \<noteq> None")
    case True
    then obtain tip where tip: "getAccountHead L pub = Some tip"
      by blast
    from True Some show ?thesis
      by (simp add: createReceive_def tip Let_def)
        (rule call_ok_block [OF assms tip]; simp add: balance_ok_def core_split consensus_def mhas_def)
  qed (use Some in \<open>auto simp: createReceive_def split: option.split\<close>)
qed (simp add: createReceive_def)

text \<open>Calls that move nothing between accounts and touch no consensus state.\<close>

lemma call_ok_plain:
  assumes "store_inv C True (el_held L)" "signing C" "publicKeyFromPrivate C priv = Some pub" "getAccountHead L pub = Some tip"
    "b_accountId c = pub" "b_index c = b_index tip + 1" "b_previousHash c = b_hash tip"
    "\<And>b'. b_type b' = b_type c \<Longrightarrow> b_balance b' = b_balance c \<Longrightarrow> b_amount b' = b_amount c \<Longrightarrow> balance_ok tip b'"
    and "\<And>b L1. core (f b L1) = core L1"
    and "\<And>b L'. el_claimed L' = el_claimed L \<Longrightarrow> el_unclaimed L' = el_unclaimed L \<Longrightarrow> transfers x b L L'"
  shows "call_ok C x L (case own_block C c priv (the (mget (el_held L) pub)) L of (None, L1) \<Rightarrow> (Threw, L1)
    | (Some b, L1) \<Rightarrow> (Done b, f b L1))"
proof (rule call_ok_block [OF assms(1-8)])
  fix b L1
  assume c: "core L1 = (el_held L1, snd (core L))"
  note cd = core_eqD [OF assms(9) [of b L1]]
  show "el_held (f b L1) = el_held L1 \<and> transfers x b L (f b L1) \<and> el_validators (f b L1) = el_validators L
      \<and> consensus (f b L1) = consensus L"
    using c cd assms(10) by (auto simp: core_split consensus_def)
qed

lemma update_ok:
  assumes "store_inv C True (el_held L)" "signing C" "publicKeyFromPrivate C priv = Some pub"
  shows "call_ok C (OUpdate us) L (createUpdate C now pub us priv L)"
  unfolding createUpdate_def
  by (auto split: option.split intro!: call_ok_plain [OF assms] simp: balance_ok_def)

lemma mint_ok:
  assumes "store_inv C True (el_held L)" "signing C" "publicKeyFromPrivate C priv = Some pub"
  shows "call_ok C (OMintNft ref meta) L (createMintNft C now pub ref meta priv L)"
  unfolding createMintNft_def
  by (auto split: option.split intro!: call_ok_plain [OF assms] simp: balance_ok_def)

lemma transfer_ok:
  assumes "store_inv C True (el_held L)" "signing C" "publicKeyFromPrivate C priv = Some pub"
  shows "call_ok C (OTransferNft t r) L (createTransferNft C now pub t r priv L)"
  unfolding createTransferNft_def
  by (auto split: option.split intro!: call_ok_plain [OF assms] simp: balance_ok_def)

lemma burn_ok:
  assumes "store_inv C True (el_held L)" "signing C" "publicKeyFromPrivate C priv = Some pub"
  shows "call_ok C (OBurnNft t) L (createBurnNft C now pub t priv L)"
  unfolding createBurnNft_def
  by (auto split: option.split intro!: call_ok_plain [OF assms] simp: balance_ok_def)

lemma receive_nft_ok:
  assumes "store_inv C True (el_held L)" "signing C" "publicKeyFromPrivate C priv = Some pub"
  shows "call_ok C (OReceiveNft h) L (createReceiveNft C now pub h priv L)"
proof (cases "mget (el_unclaimedNft L) h")
  case (Some t)
  show ?thesis
  proof (cases "\<not> frozen L pub \<and> nt_to t = pub \<and> getAccountHead L pub \<noteq> None")
    case True
    then obtain tip where tip: "getAccountHead L pub = Some tip"
      by blast
    from True Some show ?thesis
      by (simp add: createReceiveNft_def tip) (rule call_ok_plain [OF assms tip]; simp add: balance_ok_def)
  qed (use Some in \<open>auto simp: createReceiveNft_def split: option.split\<close>)
qed (simp add: createReceiveNft_def)

lemma storage_block_ok:
  assumes "store_inv C True (el_held L)" "signing C" "publicKeyFromPrivate C priv = Some pub" "getAccountHead L pub = Some tip"
    "\<And>b'. b_type b' = ty \<Longrightarrow> b_balance b' = bal \<Longrightarrow> b_amount b' = amt \<Longrightarrow> balance_ok tip b'"
    and "\<And>b L'. el_claimed L' = el_claimed L \<Longrightarrow> el_unclaimed L' = el_unclaimed L \<Longrightarrow> transfers x b L L'"
  shows "call_ok C x L (appendStorageBlock C now pub tip ty bal st amt priv L)"
  unfolding appendStorageBlock_def
  by (rule call_ok_plain [OF assms(1-4)]) (use assms(5,6) in \<open>auto simp: core_def\<close>)

lemma storage_ok:
  assumes "store_inv C True (el_held L)" "signing C" "publicKeyFromPrivate C priv = Some pub"
  shows "call_ok C (OStorageRegister cap dev) L (createStorageRegister C now pub cap dev priv L)"
    "call_ok C OStorageDeregister L (createStorageDeregister C now pub priv L)"
    "call_ok C (OStorageSettle rs k roots) L (createStorageSettle C now pub rs k roots priv L)"
  unfolding createStorageRegister_def createStorageDeregister_def createStorageSettle_def Let_def
  by (auto split: option.split intro!: storage_block_ok [OF assms] simp: balance_ok_def)

end
