(* ===== verification/Ledger_Invariants.thy ===== *)
theory Ledger_Invariants
  imports Ledger_Runs
begin

text \<open>
  The invariants of the application ledger over every call of an owner and everything that arrives
  from the network. A ledger refines the block store: what \<open>addBlock\<close> accepts, the store accepts with
  the same chains.
\<close>

section \<open>addBlock refines the store\<close>

lemma nft_held [simp]:
  "el_held (applyNftMint b L) = el_held L" "el_held (applyNftSend b L) = el_held L"
  "el_held (applyNftReceive b L) = el_held L" "el_held (applyNftBurn b L) = el_held L"
  "el_held (applyAccountUpdate p us L) = el_held L"
  using core_eqD(1) [OF core_nft(1)] core_eqD(1) [OF core_nft(2)] core_eqD(1) [OF core_nft(3)]
    core_eqD(1) [OF core_nft(4)] core_eqD(1) [OF core_account(1)] by metis+

lemma freeze_held [simp]: "el_held (snd (freezeEquivocator ev L)) = el_held L"
  by (simp add: freezeEquivocator_def)

lemma flag_held [simp]: "el_held (flagEquivocation a b L) = el_held L"
  by (simp add: flagEquivocation_def split: option.split)

lemma retain_held [simp]: "el_held (retain_sibling a b L) = el_held L"
  by (simp add: retain_sibling_def Let_def)

lemma effects_held [simp]: "el_held (block_effects C b L) = el_held L"
  by (cases "b_type b"; cases "b_updates b") (simp_all add: block_effects_def)

lemma commit_refines:
  "commit_block C now h b L = (case store_commit C h b (el_held L) of
     None \<Rightarrow> None
   | Some (r, st) \<Rightarrow> if ar_ok r
       then Some (None, (block_effects C b (L\<lparr>el_held := st\<rparr>))
         \<lparr>el_allBlocks := mset_at (b_hash b) b (el_allBlocks (block_effects C b (L\<lparr>el_held := st\<rparr>))),
          el_appliedAt := mset_at (b_hash b) now (el_appliedAt (block_effects C b (L\<lparr>el_held := st\<rparr>)))\<rparr>)
       else Some (le ''accumulator root mismatch'', L))"
  by (simp add: commit_block_def store_commit_def Let_def split: option.split)

lemma le_Some [simp]: "le s \<noteq> None" "le s = Some (LedgerError s)"
  by (simp_all add: le_def)

text \<open>What acceptance changes: nothing, or the store's step and the effects of the block.\<close>

definition committed :: "crypto \<Rightarrow> int \<Rightarrow> block \<Rightarrow> engine_ledger \<Rightarrow> account_store \<Rightarrow> engine_ledger" where
  "committed C now b L st = (let L2 = block_effects C b (L\<lparr>el_held := st\<rparr>)
     in L2\<lparr>el_allBlocks := mset_at (b_hash b) b (el_allBlocks L2), el_appliedAt := mset_at (b_hash b) now (el_appliedAt L2)\<rparr>)"

definition ledger_balance_ok :: "block \<Rightarrow> account_store \<Rightarrow> bool" where
  "ledger_balance_ok b st \<longleftrightarrow> (if chain st (b_accountId b) = [] then b_balance b = LEDGER_MINT
     else balance_ok (last (chain st (b_accountId b))) b)"

lemma type_error_balance: "type_error C b tip L = None \<Longrightarrow> balance_ok tip b"
  by (cases "b_type b") (auto simp: type_error_def balance_ok_def split: option.splits if_splits)

lemma store_commit_ok:
  "store_commit C h b st = Some (r, st') \<Longrightarrow> ar_ok r \<Longrightarrow>
   r = accept \<and> (\<exists>acc. st' = mset_at (b_accountId b) \<lparr>h_blocks = h_blocks h @ [b], h_acc = acc\<rparr> st)"
  by (auto simp: store_commit_def split: option.splits if_splits)

text \<open>The store reaches the same commit under the ledger's conditions.\<close>

definition base_for :: "block \<Rightarrow> account_store \<Rightarrow> held \<Rightarrow> account_store \<Rightarrow> bool" where
  "base_for b st h st0 \<longleftrightarrow> mget st (b_accountId b) = Some h \<and> st0 = st
     \<or> mget st (b_accountId b) = None \<and> h = \<lparr>h_blocks = [], h_acc = []\<rparr> \<and> st0 = mset_at (b_accountId b) h st"

lemma snoc_ne: "\<lparr>h_blocks = h_blocks h @ [b], h_acc = acc\<rparr> \<noteq> h"
  by (cases h) simp

lemma commit_step:
  assumes inv: "store_inv C True st" and ap: "store_apply C True b st = store_commit C h b st0"
    and base: "base_for b st h st0"
    and ok: "store_commit C h b st0 = Some (r, st')" "ar_ok r"
  shows "next_ok C True (chain st (b_accountId b)) b \<and> (\<exists>k. held_ok C True (b_accountId b) k
    \<and> h_blocks k = chain st (b_accountId b) @ [b] \<and> store_apply C True b st = Some (accept, mset_at (b_accountId b) k st)
    \<and> st' = mset_at (b_accountId b) k st)"
proof -
  obtain acc where r: "r = accept" and st': "st' = mset_at (b_accountId b) \<lparr>h_blocks = h_blocks h @ [b], h_acc = acc\<rparr> st0"
    using store_commit_ok [OF ok] by blast
  have sa: "store_apply C True b st = Some (accept, st')"
    using ap ok(1) r by simp
  have "mget st' (b_accountId b) \<noteq> mget st (b_accountId b)"
    using base snoc_ne by (auto simp: st' base_for_def)
  then have "st' \<noteq> st" by blast
  then show ?thesis
    using store_apply_cases [OF inv, of b] sa by (auto simp: accept_def refuse_def)
qed

lemma committed_held [simp]: "committed C now b (L\<lparr>el_held := x\<rparr>) st = committed C now b L st"
  by (simp add: committed_def)

lemma commit_block_cases:
  assumes "commit_block C now h b L = Some (e, L')"
  shows "(e \<noteq> None \<and> L' = L) \<or> (\<exists>r st. e = None \<and> store_commit C h b (el_held L) = Some (r, st) \<and> ar_ok r \<and> L' = committed C now b L st)"
  using assms by (auto simp: commit_refines committed_def Let_def le_def split: option.splits prod.splits if_splits)

definition added :: "crypto \<Rightarrow> int \<Rightarrow> block \<Rightarrow> engine_ledger \<Rightarrow> engine_ledger \<Rightarrow> bool" where
  "added C now b L L' \<longleftrightarrow> \<not> frozen L (b_accountId b) \<and> ledger_balance_ok b (el_held L)
     \<and> next_ok C True (chain (el_held L) (b_accountId b)) b
     \<and> (\<exists>k. held_ok C True (b_accountId b) k \<and> h_blocks k = chain (el_held L) (b_accountId b) @ [b]
          \<and> store_apply C True b (el_held L) = Some (accept, mset_at (b_accountId b) k (el_held L))
          \<and> L' = committed C now b L (mset_at (b_accountId b) k (el_held L)))"

lemma added_of_commit:
  assumes "store_inv C True (el_held L)" "store_apply C True b (el_held L) = store_commit C h b st0" "base_for b (el_held L) h st0"
    "commit_block C now h b (L\<lparr>el_held := st0\<rparr>) = Some (None, L')" "ledger_balance_ok b (el_held L)" "\<not> frozen L (b_accountId b)"
  shows "added C now b L L'"
proof -
  obtain r st where c: "store_commit C h b st0 = Some (r, st)" "ar_ok r" "L' = committed C now b L st"
    using commit_block_cases [OF assms(4)] by auto
  show ?thesis
    using commit_step [OF assms(1-3) c(1,2)] c(3) assms(5,6) by (auto simp: added_def)
qed

lemma addBlock_genesis:
  assumes inv: "store_inv C True (el_held L)" and root: "genesis_root_ok C b" and i: "b_index b = 0"
    and ad: "addBlock C now b L = Some (e, L')"
  shows "e = None \<and> L' = L \<and> b_hash b \<in> b_hash ` set (chain (el_held L) (b_accountId b))
      \<and> store_apply C True b (el_held L) = Some (accept, el_held L)
    \<or> e \<noteq> None \<and> (L' = L \<or> (\<exists>x. x \<in> set (chain (el_held L) (b_accountId b)) \<and> b_hash x \<noteq> b_hash b \<and> L' = retain_sibling x b L))
    \<or> e = None \<and> added C now b L L'"
proof (cases "e \<noteq> None \<and> L' = L")
  case False
  let ?a = "b_accountId b"
  have ch: "computeContentHash C b = b_hash b" "verifyBlockSignature C b" "\<not> frozen L ?a" "b_type b = Open"
    "b_previousHash b = GENESIS_PREV" "b_balance b = LEDGER_MINT"
    using ad i False by (auto simp: addBlock_def split: if_splits)
  show ?thesis
  proof (cases "mget (el_held L) ?a")
    case None
    let ?h = "\<lparr>h_blocks = [], h_acc = []\<rparr>"
    let ?st = "mset_at ?a ?h (el_held L)"
    have cb: "commit_block C now ?h b (L\<lparr>el_held := ?st\<rparr>) = Some (e, L')"
      using ad ch i None by (simp add: addBlock_def Let_def)
    obtain l where l: "c_fromHex C (b_hash b) = Some l"
      using content_hash_decodes [OF _ ch(1)] inv by (auto simp: store_inv_def)
    have "e = None"
    proof (rule ccontr)
      assume "e \<noteq> None"
      with cb l root i show False
        by (simp add: commit_block_def genesis_root_ok_def rootWithHex_def acc_append_def toBytes_def Let_def)
    qed
    have "added C now b L L'"
    proof (rule added_of_commit [OF inv])
      show "store_apply C True b (el_held L) = store_commit C ?h b ?st"
        using ch i None by (simp add: store_apply_def applyGenesis_def Let_def)
      show "base_for b (el_held L) ?h ?st"
        using None by (simp add: base_for_def)
      show "commit_block C now ?h b (L\<lparr>el_held := ?st\<rparr>) = Some (None, L')"
        using cb \<open>e = None\<close> by simp
      show "ledger_balance_ok b (el_held L)"
        using None ch(6) by (simp add: ledger_balance_ok_def chain_def)
    qed (rule ch)
    with \<open>e = None\<close> show ?thesis by blast
  next
    case (Some h)
    have c: "chain (el_held L) ?a = h_blocks h"
      using Some by (simp add: chain_def)
    show ?thesis
    proof (cases "js_at (h_blocks h) 0")
      case None
      then show ?thesis
        using ad ch i Some by (simp add: addBlock_def)
    next
      case g: (Some g)
      then have "g \<in> set (h_blocks h)" "b_hash g \<in> b_hash ` set (h_blocks h)" by (auto simp: js_at_Some)
      with ad ch i Some g c show ?thesis
        by (cases "b_hash g = b_hash b") (auto simp: addBlock_def store_apply_def applyGenesis_def)
    qed
  qed
qed simp

lemma addBlock_cases:
  assumes inv: "store_inv C True (el_held L)" and root: "genesis_root_ok C b"
    and ad: "addBlock C now b L = Some (e, L')"
  shows "e = None \<and> L' = L \<and> b_hash b \<in> b_hash ` set (chain (el_held L) (b_accountId b))
      \<and> store_apply C True b (el_held L) = Some (accept, el_held L)
    \<or> e \<noteq> None \<and> (L' = L \<or> (\<exists>x. x \<in> set (chain (el_held L) (b_accountId b)) \<and> b_hash x \<noteq> b_hash b \<and> L' = retain_sibling x b L))
    \<or> e = None \<and> added C now b L L'"
proof (cases "b_index b = 0 \<or> e \<noteq> None \<and> L' = L")
  case False
  let ?a = "b_accountId b"
  have i: "b_index b \<noteq> 0" and ne: "\<not> (e \<noteq> None \<and> L' = L)"
    using False by auto
  have ch: "computeContentHash C b = b_hash b" "verifyBlockSignature C b" "\<not> frozen L ?a"
    using ad i ne by (auto simp: addBlock_def split: if_splits)
  obtain h where h: "mget (el_held L) ?a = Some h"
    using ad i ne ch by (cases "mget (el_held L) ?a") (auto simp: addBlock_def)
  have hk: "held_ok C True ?a h"
    using inv h by (simp add: store_inv_def)
  note hl = held_last [OF hk]
  let ?t = "last (h_blocks h)"
  have c: "chain (el_held L) ?a = h_blocks h" "h_blocks h \<noteq> []"
    using h hk by (auto simp: chain_def held_ok_def)
  show ?thesis
  proof (cases "b_index b \<le> b_index ?t")
    case True
    show ?thesis
    proof (cases "js_at (h_blocks h) (b_index b)")
      case None
      then show ?thesis using ad ch i ne h hl(1) True by (simp add: addBlock_def)
    next
      case (Some x)
      then have "x \<in> set (h_blocks h)" "b_hash x \<in> b_hash ` set (h_blocks h)" by (auto simp: js_at_Some)
      with ad ch i h hl(1) True Some c show ?thesis
        by (cases "b_hash x = b_hash b") (auto simp: addBlock_def store_apply_def)
    qed
  next
    case gt: False
    have n: "b_index b = b_index ?t + 1" "b_previousHash b = b_hash ?t" "type_error C b ?t L = None"
      and cb: "commit_block C now h b L = Some (e, L')"
      using ad ch i ne h hl(1) gt by (auto simp: addBlock_def split: if_splits option.splits)
    show ?thesis
    proof (cases e)
      case None
      have "added C now b L L'"
      proof (rule added_of_commit [OF inv])
        show "store_apply C True b (el_held L) = store_commit C h b (el_held L)"
          using ch i h hl(1) gt n by (simp add: store_apply_def)
        show "base_for b (el_held L) h (el_held L)"
          using h by (simp add: base_for_def)
        show "commit_block C now h b (L\<lparr>el_held := el_held L\<rparr>) = Some (None, L')"
          using cb None by simp
        show "ledger_balance_ok b (el_held L)"
          using c type_error_balance [OF n(3)] by (simp add: ledger_balance_ok_def)
      qed (rule ch)
      with None show ?thesis by blast
    qed (use commit_block_cases [OF cb] ne in auto)
  qed
qed (use addBlock_genesis [OF inv root _ ad] in auto)

section \<open>Invariants\<close>

text \<open>A transfer on offer has not been claimed.\<close>

definition offers_ok :: "engine_ledger \<Rightarrow> bool" where
  "offers_ok L \<longleftrightarrow> wf_map (el_unclaimed L) \<and> (\<forall>h \<in> el_claimed L. mget (el_unclaimed L) h = None)"

definition bonds_ok :: "engine_ledger \<Rightarrow> bool" where
  "bonds_ok L \<longleftrightarrow> registry_reach LEDGER_MINT 1 (el_validators L)"

text \<open>There is a seed for every epoch so far, and a weight snapshot for exactly the last few.\<close>

definition epochs_ok :: "epoch_seeds \<times> int \<times> (int, weight_snapshot) jsmap \<Rightarrow> bool" where
  "epochs_ok = (\<lambda>(seeds, e, snaps). 0 \<le> e \<and> (\<forall>k. mget seeds k \<noteq> None \<longleftrightarrow> 0 \<le> k \<and> k \<le> e)
     \<and> wf_map snaps \<and> set (mkeys snaps) = {max 1 (e - EPOCH_WEIGHT_RETAIN)..e})"

definition keeps :: "crypto \<Rightarrow> engine_ledger \<Rightarrow> engine_ledger \<Rightarrow> bool" where
  "keeps C L L' \<longleftrightarrow> (chains_ok C (el_held L) \<longrightarrow> chains_ok C (el_held L')) \<and> (offers_ok L \<longrightarrow> offers_ok L')
     \<and> el_claimed L \<subseteq> el_claimed L' \<and> (bonds_ok L \<longrightarrow> bonds_ok L') \<and> (epochs_ok (consensus L) \<longrightarrow> epochs_ok (consensus L'))"

lemma keeps_refl [simp]: "keeps C L L"
  by (simp add: keeps_def)

lemma keeps_trans: "keeps C L M \<Longrightarrow> keeps C M N \<Longrightarrow> keeps C L N"
  by (auto simp: keeps_def)

lemma keeps_core: "core L' = core L \<Longrightarrow> keeps C L L'"
  by (simp add: keeps_def core_def offers_ok_def bonds_ok_def consensus_def)

lemma offers_filter: "offers_ok L \<Longrightarrow> el_unclaimed L' = filter P (el_unclaimed L) \<Longrightarrow> el_claimed L' = el_claimed L \<Longrightarrow> offers_ok L'"
  by (auto simp: offers_ok_def mget_filter split: option.split)

lemma offers_new:
  "offers_ok L \<Longrightarrow> h \<notin> el_claimed L \<Longrightarrow> el_unclaimed L' = mset_at h u (el_unclaimed L) \<Longrightarrow> el_claimed L' = el_claimed L \<Longrightarrow> offers_ok L'"
  by (auto simp: offers_ok_def)

lemma offers_claim:
  "offers_ok L \<Longrightarrow> el_unclaimed L' = mdel h (el_unclaimed L) \<Longrightarrow> el_claimed L' = insert h (el_claimed L) \<Longrightarrow> offers_ok L'"
  by (auto simp: offers_ok_def)

lemma freeze_keeps: "keeps C L (snd (freezeEquivocator ev L))"
  using reg_slash [of LEDGER_MINT 1 "el_validators L"]
  by (auto simp: freezeEquivocator_def keeps_def bonds_ok_def consensus_def intro: offers_filter)

lemma flag_keeps: "keeps C L (flagEquivocation a b L)"
  using freeze_keeps by (simp add: flagEquivocation_def split: option.split)

lemma retain_keeps: "keeps C L (retain_sibling a b L)"
  by (rule keeps_trans [OF flag_keeps [of C L a b] keeps_core]) (simp add: retain_sibling_def core_def Let_def)

lemma bond_keeps: "keeps C L (snd (bondStake p a L))"
  using reg_bond [of LEDGER_MINT 1 "el_validators L"]
  by (auto simp: bondStake_def keeps_def bonds_ok_def consensus_def offers_ok_def Let_def case_prod_beta split: option.split)

lemma vote_keeps:
  "applyCommitteeVote C E v L = Some (r, L') \<Longrightarrow> keeps C L L'" "keeps C L (register_voted h L)"
  using reg_slash [of LEDGER_MINT 1 "el_validators L"]
  by (auto simp: applyCommitteeVote_def register_voted_def Let_def keeps_def bonds_ok_def consensus_def offers_ok_def
      split: option.splits prod.splits)

lemma credit_reach: "registry_reach m k r \<Longrightarrow> registry_reach m k (fold (\<lambda>v r. creditActivity v 1 r) vs r)"
  by (induction vs arbitrary: r) (auto intro: reg_credit)

lemma set_mkeys_filter: "set (mkeys (filter (\<lambda>(k, v). P k) m)) = {k \<in> set (mkeys m). P k}"
  by (auto simp: mkeys_def)

lemma epoch_window:
  assumes "epochs_ok (s, e, sn)" "mget s' = (mget s)(e + 1 \<mapsto> x)"
  shows "epochs_ok (s', e + 1, filter (\<lambda>(k, w). \<not> k < e + 1 - EPOCH_WEIGHT_RETAIN) (mset_at (e + 1) y sn))"
  using assms by (auto simp: epochs_ok_def set_mkeys_filter EPOCH_WEIGHT_RETAIN_def)

lemma epoch_keeps:
  assumes "advanceEpoch C betas act L = Some L'"
  shows "keeps C L L'"
proof -
  obtain nxt seeds where c: "commit C (el_epoch L) betas (el_seeds L) = Some (nxt, seeds)"
    using assms by (auto simp: advanceEpoch_def split: option.splits)
  then have "mget seeds = (mget (el_seeds L))(el_epoch L + 1 \<mapsto> nxt)"
    by (auto simp: commit_def split: option.splits)
  with assms c show ?thesis
    by (auto simp: advanceEpoch_def Let_def keeps_def bonds_ok_def consensus_def offers_ok_def credit_reach epoch_window)
qed

lemma core_fields [simp]:
  "core (L\<lparr>el_allBlocks := m\<rparr>) = core L" "core (L\<lparr>el_nftInfo := n\<rparr>) = core L" "core (L\<lparr>el_unclaimedNft := u\<rparr>) = core L"
  "core (L\<lparr>el_appliedAt := t\<rparr>) = core L" "core (L\<lparr>el_providers := p\<rparr>) = core L"
  by (simp_all add: core_def)

lemma offer_keeps: "h \<notin> el_claimed L \<Longrightarrow> keeps C L (L\<lparr>el_allBlocks := m, el_unclaimed := mset_at h u (el_unclaimed L)\<rparr>)"
  by (auto simp: keeps_def bonds_ok_def consensus_def intro: offers_new)

lemma restore_keeps: "keeps C L (snd (restoreVerifiedBlock C b L))"
  unfolding restoreVerifiedBlock_def Let_def by (simp add: keeps_core offer_keeps)

lemma packet_keeps: "registerVerifiedSend C cfg p rcpt L = Some (e, L') \<Longrightarrow> keeps C L L'"
  unfolding registerVerifiedSend_def Let_def
  by (auto simp: keeps_core offer_keeps split: if_splits option.splits)

lemma mint_keeps: "registerVerifiedMint C cfg p t L = Some (e, L') \<Longrightarrow> keeps C L L'"
  unfolding registerVerifiedMint_def Let_def
  by (auto simp: keeps_core split: if_splits option.splits)

lemma purge_keeps: "keeps C L (purgeAccount p L)"
  by (auto simp: purgeAccount_def keeps_def bonds_ok_def consensus_def offers_ok_def chains_ok_def store_inv_def
      chain_def books_ok_def split: option.splits)

lemma status_keeps: "keeps C L (snd (getBlockStatus now h L))"
  by (auto simp: getBlockStatus_def Let_def keeps_def bonds_ok_def consensus_def offers_ok_def split: option.split prod.split)

section \<open>Blocks that arrive and blocks of the owner\<close>

lemma keeps_moreI:
  assumes "chains_ok C (el_held L) \<Longrightarrow> chains_ok C (el_held L')" "offers_ok L \<Longrightarrow> offers_ok L'"
    "el_claimed L \<subseteq> el_claimed L'" "el_validators L' = el_validators L" "consensus L' = consensus L"
  shows "keeps C L L'"
  using assms by (simp add: keeps_def bonds_ok_def)

lemma effects_keep:
  "offers_ok L \<Longrightarrow> offers_ok (block_effects C b L)" "el_claimed L \<subseteq> el_claimed (block_effects C b L)"
  "el_validators (block_effects C b L) = el_validators L" "consensus (block_effects C b L) = consensus L"
proof -
  let ?L = "block_effects C b L"
  have "(offers_ok L \<longrightarrow> offers_ok ?L) \<and> el_claimed L \<subseteq> el_claimed ?L
      \<and> el_validators ?L = el_validators L \<and> consensus ?L = consensus L"
  proof (cases "core ?L = core L")
    case False
    then show ?thesis
      by (cases "b_type b"; cases "b_updates b")
        (auto simp: block_effects_def is_storage_def consensus_def intro: offers_new offers_claim split: if_splits)
  qed (simp add: core_def offers_ok_def consensus_def)
  then show "offers_ok L \<Longrightarrow> offers_ok ?L" "el_claimed L \<subseteq> el_claimed ?L" "el_validators ?L = el_validators L"
    "consensus ?L = consensus L"
    by simp_all
qed

lemma chain_extended_ok:
  assumes "chains_ok C st" "held_ok C True a k" "h_blocks k = chain st a @ [b]" "b_accountId b = a" "ledger_balance_ok b st"
  shows "chains_ok C (mset_at a k st)"
proof (rule extends_ok [OF assms(1)])
  show "extends C st b (mset_at a k st)"
    using assms by (simp add: extends_def chain_set chains_ok_def store_inv_set)
  show "if chain st (b_accountId b) = [] then b_balance b = LEDGER_MINT else balance_ok (last (chain st (b_accountId b))) b"
    using assms(5) by (simp add: ledger_balance_ok_def)
qed

lemma added_keeps:
  assumes "added C now b L L'"
  shows "keeps C L L'"
proof -
  obtain k where k: "held_ok C True (b_accountId b) k" "h_blocks k = chain (el_held L) (b_accountId b) @ [b]"
    "L' = committed C now b L (mset_at (b_accountId b) k (el_held L))" and bal: "ledger_balance_ok b (el_held L)"
    using assms by (auto simp: added_def)
  let ?M = "L\<lparr>el_held := mset_at (b_accountId b) k (el_held L)\<rparr>"
  have "keeps C L ?M"
    using chain_extended_ok [OF _ k(1,2) refl bal] by (simp add: keeps_def bonds_ok_def consensus_def offers_ok_def)
  moreover have "keeps C ?M (block_effects C b ?M)"
    using effects_keep(2) [of ?M C b] by (intro keeps_moreI) (simp_all add: effects_keep)
  moreover have "keeps C (block_effects C b ?M) L'"
    by (rule keeps_core) (simp add: k(3) committed_def Let_def)
  ultimately show ?thesis
    by (blast intro: keeps_trans)
qed

lemma addBlock_keeps:
  assumes "store_inv C True (el_held L)" "genesis_root_ok C b" "addBlock C now b L = Some (e, L')"
  shows "keeps C L L'"
  using addBlock_cases [OF assms] by (auto intro: retain_keeps added_keeps)

lemma net_keeps:
  assumes "chains_ok C (el_held L)" "net_ok C x" "x \<noteq> NReset"
  shows "keeps C L (net_run C E cfg x L)"
proof (cases x)
  case (NBlock now b)
  with assms show ?thesis
    by (auto simp: chains_ok_def intro: addBlock_keeps split: option.split)
next
  case (NEvidence ev)
  then show ?thesis
    by (simp add: applyEvidence_def freeze_keeps)
qed (use assms in \<open>auto simp: restore_keeps purge_keeps status_keeps bond_keeps keeps_core
  intro: packet_keeps mint_keeps vote_keeps epoch_keeps split: option.split\<close>)

section \<open>The owner's calls\<close>

lemma open_extends:
  assumes "createOpenBlock C ps priv [] = (Some b, acc)" "op_accountId ps = pub" "op_balance ps = Some LEDGER_MINT"
    "store_inv C True st" "signing C" "publicKeyFromPrivate C priv = Some pub" "mget st pub = None"
  shows "extends C st b (mset_at pub \<lparr>h_blocks = [b], h_acc = acc\<rparr> st)" "ledger_balance_ok b st"
proof -
  have hx: "hex_codec C" using assms(4) by (simp add: store_inv_def)
  obtain c where cr: "createBlock C c priv [] = (Some b, acc)" and c: "b_accountId c = pub" "b_index c = 0"
      "b_type c = Open" "b_previousHash c = GENESIS_PREV" "b_balance c = LEDGER_MINT"
    using assms(1-3) by (auto simp: createOpenBlock_def blank_content_def split: option.splits)
  have v: "valid_chain C [b]" "all_hex C (map b_hash [b]) = Some acc"
    using created_genesis [OF cr hx assms(5)] c assms(6) by simp_all
  have "held_ok C True pub \<lparr>h_blocks = [b], h_acc = acc\<rparr>"
    using valid_chain_held [OF v] created_content [OF cr] c by simp
  then show "extends C st b (mset_at pub \<lparr>h_blocks = [b], h_acc = acc\<rparr> st)" "ledger_balance_ok b st"
    using assms(4,7) created_content [OF cr] c
    by (simp_all add: extends_def store_inv_set chain_set ledger_balance_ok_def chain_def)
qed

lemma open_ok:
  assumes "openAccount C cfg now pub priv nf atts bonded L = (r, L')" "signing C" "publicKeyFromPrivate C priv = Some pub"
    "chains_ok C (el_held L)" "r \<noteq> Threw"
  shows "keeps C L L' \<and> (\<exists>b. r = Done b \<and> b_type b = Open)"
proof -
  let ?com = "deriveCommitment C nf pub"
  let ?ps = "\<lparr>op_accountId = pub, op_identityCommitment = ?com, op_attestations = atts,
    op_timestamp = now, op_balance = Some LEDGER_MINT, op_numShards = Some (lc_numShards cfg)\<rparr>"
  obtain b acc where fresh: "mget (el_held L) pub = None" and b: "createOpenBlock C ?ps priv [] = (Some b, acc)" "r = Done b"
    and L': "\<exists>ids. L' = (let L2 = L\<lparr>el_identity := ids, el_held := mset_at pub \<lparr>h_blocks = [b], h_acc = acc\<rparr> (el_held L),
        el_allBlocks := mset_at (b_hash b) b (el_allBlocks L)\<rparr>
      in if bonded then snd (bondStake pub (Some LEDGER_MINT) L2) else L2)"
    using assms(1,5) by (auto simp: openAccount_def Let_def mhas_def split: if_splits prod.splits option.splits)
  obtain ids where ids: "L' = (let L2 = L\<lparr>el_identity := ids, el_held := mset_at pub \<lparr>h_blocks = [b], h_acc = acc\<rparr> (el_held L),
        el_allBlocks := mset_at (b_hash b) b (el_allBlocks L)\<rparr>
      in if bonded then snd (bondStake pub (Some LEDGER_MINT) L2) else L2)"
    using L' by blast
  let ?M = "L\<lparr>el_identity := ids, el_held := mset_at pub \<lparr>h_blocks = [b], h_acc = acc\<rparr> (el_held L),
        el_allBlocks := mset_at (b_hash b) b (el_allBlocks L)\<rparr>"
  have st: "store_inv C True (el_held L)"
    using assms(4) by (simp add: chains_ok_def)
  note e = open_extends [OF b(1) _ _ st assms(2,3) fresh, simplified]
  have "chains_ok C (el_held ?M)"
    using extends_ok [OF assms(4) e(1)] e(2) by (simp add: ledger_balance_ok_def)
  then have "keeps C L ?M"
    by (simp add: keeps_def bonds_ok_def consensus_def offers_ok_def)
  moreover have "keeps C ?M L'"
    using bond_keeps by (simp add: ids Let_def)
  moreover have "b_type b = Open"
    using b(1) created_content(3) by (fastforce simp: createOpenBlock_def blank_content_def split: option.splits)
  ultimately show ?thesis
    using b(2) by (blast intro: keeps_trans)
qed

lemma own_call_ok:
  assumes "store_inv C True (el_held L)" "signing C" "publicKeyFromPrivate C priv = Some pub"
    "\<And>nf ats bd. x \<noteq> OOpen nf ats bd"
  shows "call_ok C x L (own_run C cfg now pub priv x L)"
proof (cases x)
  case (OOpen nf ats bd)
  with assms(4) show ?thesis by blast
qed (simp_all add: send_ok [OF assms(1-3)] receive_ok [OF assms(1-3)] update_ok [OF assms(1-3)]
    mint_ok [OF assms(1-3)] transfer_ok [OF assms(1-3)] receive_nft_ok [OF assms(1-3)] burn_ok [OF assms(1-3)]
    storage_ok [OF assms(1-3)])

lemma transfers_keep:
  assumes "transfers x b L L'" "b_hash b \<notin> el_claimed L"
  shows "(offers_ok L \<longrightarrow> offers_ok L') \<and> el_claimed L \<subseteq> el_claimed L'"
proof (cases x)
  case (OSend r n)
  with assms show ?thesis by (auto intro: offers_new)
next
  case (OReceive h)
  with assms show ?thesis by (auto intro: offers_claim)
qed (use assms in \<open>simp_all add: offers_ok_def\<close>)

lemma own_keeps:
  assumes "own_run C cfg now pub priv x L = (r, L')" "r \<noteq> Threw" "\<And>b. r = Done b \<Longrightarrow> b_hash b \<notin> el_claimed L"
    "signing C" "publicKeyFromPrivate C priv = Some pub" "chains_ok C (el_held L)"
  shows "keeps C L L'"
proof (cases "\<exists>nf ats bd. x = OOpen nf ats bd")
  case True
  then show ?thesis
    using open_ok assms by auto
next
  case False
  have st: "store_inv C True (el_held L)"
    using assms(6) by (simp add: chains_ok_def)
  have ok: "call_ok C x L (r, L')"
    using own_call_ok [OF st assms(4,5), of x cfg now] False assms(1) by auto
  show ?thesis
  proof (cases r)
    case (Done b)
    have g: "grows C L b L'" "transfers x b L L'" "el_validators L' = el_validators L" "consensus L' = consensus L"
      using ok Done by (simp_all add: call_ok_def)
    have "chains_ok C (el_held L')"
      using extends_ok [OF assms(6), of b "el_held L'"] g(1) by (simp add: grows_def)
    then show ?thesis
      using transfers_keep [OF g(2) assms(3) [OF Done]] g(3,4) by (simp add: keeps_def bonds_ok_def)
  next
    case (Refused m)
    then show ?thesis using ok by (simp add: call_ok_def)
  qed (use assms(2) in simp)
qed

section \<open>Reachable ledgers\<close>

definition ledger_inv :: "crypto \<Rightarrow> engine_ledger \<Rightarrow> hex list \<Rightarrow> bool" where
  "ledger_inv C L lg \<longleftrightarrow> signing C \<and> chains_ok C (el_held L) \<and> offers_ok L \<and> bonds_ok L \<and> epochs_ok (consensus L)
     \<and> distinct lg \<and> set lg \<subseteq> el_claimed L"

lemma new_ledger_inv: "hex_codec C \<Longrightarrow> signing C \<Longrightarrow> ledger_inv C (new_ledger C) []"
  by (auto simp: ledger_inv_def new_ledger_def chains_ok_def store_inv_empty chain_def books_ok_def offers_ok_def bonds_ok_def
      reg_new consensus_def epochs_ok_def new_seeds_def EPOCH_WEIGHT_RETAIN_def mkeys_def)

lemma inv_keeps: "ledger_inv C L lg \<Longrightarrow> keeps C L L' \<Longrightarrow> ledger_inv C L' lg"
  by (auto simp: ledger_inv_def keeps_def)

lemma inv_reset: "ledger_inv C L lg \<Longrightarrow> ledger_inv C (ledger_reset C L) []"
  using new_ledger_inv [of C]
  by (auto simp: ledger_inv_def ledger_reset_def chains_ok_def store_inv_def offers_ok_def bonds_ok_def consensus_def)

theorem reachable_inv: "ledger_reach C E cfg L lg \<Longrightarrow> ledger_inv C L lg"
proof (induction rule: ledger_reach.induct)
  case (led_own L lg priv pub now x r L')
  have ch: "chains_ok C (el_held L)" and sg: "signing C"
    using led_own.IH by (simp_all add: ledger_inv_def)
  have inv: "ledger_inv C L' lg"
    using inv_keeps [OF led_own.IH own_keeps [OF led_own.hyps(3,4,5) sg led_own.hyps(2) ch]] .
  show ?case
  proof (cases "\<exists>h b. x = OReceive h \<and> r = Done b")
    case True
    then obtain h b where x: "x = OReceive h" "r = Done b" by blast
    have "call_ok C x L (r, L')"
      using own_call_ok [OF _ sg led_own.hyps(2), of L x cfg now] ch led_own.hyps(3) x by (simp add: chains_ok_def)
    then have t: "mhas (el_unclaimed L) h" "el_claimed L' = insert h (el_claimed L)"
      using x by (simp_all add: call_ok_def)
    have "h \<notin> set lg"
      using t(1) led_own.IH by (auto simp: ledger_inv_def offers_ok_def mhas_def)
    with inv t x show ?thesis by (simp add: ledger_inv_def)
  next
    case False
    then have "(case (x, r) of (OReceive h, Done b) \<Rightarrow> lg @ [h] | _ \<Rightarrow> lg) = lg"
      by (cases x; cases r) simp_all
    with inv show ?thesis by simp
  qed
next
  case (led_net L lg x)
  show ?case
  proof (cases "x = NReset")
    case True
    then show ?thesis
      using inv_reset [OF led_net.IH] by simp
  next
    case False
    have "chains_ok C (el_held L)"
      using led_net.IH by (simp add: ledger_inv_def)
    from inv_keeps [OF led_net.IH net_keeps [OF this led_net.hyps(2) False]] False show ?thesis
      by simp
  qed
qed (rule new_ledger_inv)

end
