(* ===== verification/Nft_Custody.thy ===== *)
theory Nft_Custody
  imports Ledger_Runs
begin

text \<open>
  Who owns a token, as the ledger keeps it: the blocks about a token may arrive in any interleaving of
  the accounts' chains, and the owner is an account whose latest block about the token left it holding.
\<close>

text \<open>A block about token \<open>t\<close> with the members its effect needs.\<close>

definition about_token :: "hex \<Rightarrow> block \<Rightarrow> bool" where
  "about_token t b \<longleftrightarrow> b_tokenId b = Some t \<and> t \<noteq> [] \<and>
     (b_type b = NftMint \<and> truthy (b_contentRef b) \<or> b_type b = NftSend \<and> truthy (b_recipient b)
      \<or> b_type b = NftReceive \<or> b_type b = NftBurn)"

definition takes_hold :: "block \<Rightarrow> bool" where
  "takes_hold b \<longleftrightarrow> b_type b = NftMint \<or> b_type b = NftReceive"

definition latest_hold :: "block list \<Rightarrow> hex \<Rightarrow> bool" where
  "latest_hold bs a \<longleftrightarrow> (\<exists>b \<in> set bs. b_accountId b = a \<and> takes_hold b
     \<and> (\<forall>c \<in> set bs. b_accountId c = a \<longrightarrow> b_index c \<le> b_index b))"

definition per_account :: "hex \<Rightarrow> engine_ledger \<Rightarrow> (hex, custody) jsmap" where
  "per_account t L = nvl (mget (el_custody L) t) []"

definition owner_ok :: "hex \<Rightarrow> engine_ledger \<Rightarrow> bool" where
  "owner_ok t L \<longleftrightarrow> (case mget (el_nftOwner L) t of
     None \<Rightarrow> t \<in> el_burned L \<or> holders (per_account t L) = []
   | Some x \<Rightarrow> t \<notin> el_burned L \<and> x \<in> set (holders (per_account t L)))"

lemma recompute_owner_ok: "mget (el_custody L) t \<noteq> None \<Longrightarrow> owner_ok t (recomputeNftOwner t L)"
  by (auto simp: recomputeNftOwner_def owner_ok_def per_account_def last_in_set split: option.splits list.splits if_splits)

lemma recompute_frame2 [simp]:
  "el_custody (recomputeNftOwner t L) = el_custody L" "el_burned (recomputeNftOwner t L) = el_burned L"
  by (auto simp: recomputeNftOwner_def split: option.split list.split)

text \<open>One event on the custody of a token.\<close>

definition custody_step :: "hex \<Rightarrow> int \<Rightarrow> bool \<Rightarrow> (hex, custody) jsmap \<Rightarrow> (hex, custody) jsmap" where
  "custody_step a i h per = (case mget per a of
     Some prev \<Rightarrow> if cu_index prev \<ge> i then per else mset_at a \<lparr>cu_index = i, cu_holds = h\<rparr> per
   | None \<Rightarrow> mset_at a \<lparr>cu_index = i, cu_holds = h\<rparr> per)"

lemma record_view:
  "per_account t (recordNftCustody t a i h L) = custody_step a i h (per_account t L)"
  "el_burned (recordNftCustody t a i h L) = el_burned L"
  "owner_ok t L \<Longrightarrow> owner_ok t (recordNftCustody t a i h L)"
  by (auto simp: recordNftCustody_def Let_def per_account_def custody_step_def recompute_owner_ok split: option.split)

lemma view_fields [simp]:
  "per_account t (L\<lparr>el_nftInfo := n\<rparr>) = per_account t L" "owner_ok t (L\<lparr>el_nftInfo := n\<rparr>) = owner_ok t L"
  "per_account t (L\<lparr>el_unclaimedNft := u\<rparr>) = per_account t L" "owner_ok t (L\<lparr>el_unclaimedNft := u\<rparr>) = owner_ok t L"
  "per_account t (L\<lparr>el_claimedNft := s\<rparr>) = per_account t L" "owner_ok t (L\<lparr>el_claimedNft := s\<rparr>) = owner_ok t L"
  "per_account t (L\<lparr>el_burned := x\<rparr>) = per_account t L" "per_account t (L\<lparr>el_nftOwner := o'\<rparr>) = per_account t L"
  by (simp_all add: per_account_def owner_ok_def cong: option.case_cong)

lemma effect_view:
  assumes "about_token t b"
  shows "per_account t (block_effects C b L) = custody_step (b_accountId b) (b_index b) (takes_hold b) (per_account t L)"
    "t \<in> el_burned (block_effects C b L) \<longleftrightarrow> b_type b = NftBurn \<or> t \<in> el_burned L"
    "owner_ok t L \<Longrightarrow> owner_ok t (block_effects C b L)"
proof -
  have t: "b_tokenId b = Some t" "t \<noteq> []"
    and ty: "b_type b = NftMint \<and> truthy (b_contentRef b) \<or> b_type b = NftSend \<and> truthy (b_recipient b)
      \<or> b_type b = NftReceive \<or> b_type b = NftBurn"
    using assms by (auto simp: about_token_def)
  note d = block_effects_def takes_hold_def applyNftMint_def applyNftSend_def applyNftReceive_def applyNftBurn_def
    record_view Let_def t
  show "per_account t (block_effects C b L) = custody_step (b_accountId b) (b_index b) (takes_hold b) (per_account t L)"
    using ty by (elim disjE) (auto simp: d)
  show "t \<in> el_burned (block_effects C b L) \<longleftrightarrow> b_type b = NftBurn \<or> t \<in> el_burned L"
    using ty by (elim disjE) (auto simp: d)
  show "owner_ok t L \<Longrightarrow> owner_ok t (block_effects C b L)"
    using ty by (elim disjE) (auto simp: d, simp add: owner_ok_def record_view)
qed

text \<open>What the table of a token says after some blocks: the latest block of each account.\<close>

definition table_ok :: "block list \<Rightarrow> (hex, custody) jsmap \<Rightarrow> bool" where
  "table_ok bs per \<longleftrightarrow> wf_map per \<and> (\<forall>a. case mget per a of
     None \<Rightarrow> \<forall>b \<in> set bs. b_accountId b \<noteq> a
   | Some c \<Rightarrow> (\<exists>b \<in> set bs. b_accountId b = a \<and> b_index b = cu_index c \<and> takes_hold b = cu_holds c)
       \<and> (\<forall>b \<in> set bs. b_accountId b = a \<longrightarrow> b_index b \<le> cu_index c))"

lemma table_step: "table_ok bs per \<Longrightarrow> table_ok (bs @ [b]) (custody_step (b_accountId b) (b_index b) (takes_hold b) per)"
  unfolding table_ok_def
proof (intro conjI allI)
  fix a
  assume ok: "wf_map per \<and> (\<forall>a. case mget per a of
     None \<Rightarrow> \<forall>b \<in> set bs. b_accountId b \<noteq> a
   | Some c \<Rightarrow> (\<exists>b \<in> set bs. b_accountId b = a \<and> b_index b = cu_index c \<and> takes_hold b = cu_holds c)
       \<and> (\<forall>b \<in> set bs. b_accountId b = a \<longrightarrow> b_index b \<le> cu_index c))"
  then show "wf_map (custody_step (b_accountId b) (b_index b) (takes_hold b) per)"
    by (simp add: custody_step_def split: option.split)
  let ?new = "mget (custody_step (b_accountId b) (b_index b) (takes_hold b) per) a"
  have oa: "case mget per a of None \<Rightarrow> \<forall>b \<in> set bs. b_accountId b \<noteq> a
   | Some c \<Rightarrow> (\<exists>b \<in> set bs. b_accountId b = a \<and> b_index b = cu_index c \<and> takes_hold b = cu_holds c)
       \<and> (\<forall>b \<in> set bs. b_accountId b = a \<longrightarrow> b_index b \<le> cu_index c)"
    using ok by blast
  show "case ?new of None \<Rightarrow> \<forall>c \<in> set (bs @ [b]). b_accountId c \<noteq> a
   | Some c \<Rightarrow> (\<exists>d \<in> set (bs @ [b]). b_accountId d = a \<and> b_index d = cu_index c \<and> takes_hold d = cu_holds c)
       \<and> (\<forall>d \<in> set (bs @ [b]). b_accountId d = a \<longrightarrow> b_index d \<le> cu_index c)"
    using oa by (cases "mget per a") (auto simp: custody_step_def split: option.splits)
qed

lemma table_holders:
  assumes "table_ok bs per" "\<And>b c. b \<in> set bs \<Longrightarrow> c \<in> set bs \<Longrightarrow> b_accountId b = b_accountId c \<Longrightarrow> b_index b = b_index c \<Longrightarrow> takes_hold b = takes_hold c"
  shows "a \<in> set (holders per) \<longleftrightarrow> latest_hold bs a"
proof -
  have "a \<in> set (holders per) \<longleftrightarrow> (\<exists>c. mget per a = Some c \<and> cu_holds c)"
    using assms(1) by (force simp: holders_def table_ok_def mget_in)
  also have "\<dots> \<longleftrightarrow> latest_hold bs a"
  proof (cases "mget per a")
    case None
    then have "\<forall>b \<in> set bs. b_accountId b \<noteq> a"
      using assms(1) None by (simp add: table_ok_def) (drule conjunct2, drule spec [of _ a], simp)
    with None show ?thesis by (auto simp: latest_hold_def)
  next
    case (Some c)
    then have c: "\<exists>b \<in> set bs. b_accountId b = a \<and> b_index b = cu_index c \<and> takes_hold b = cu_holds c"
      "\<forall>b \<in> set bs. b_accountId b = a \<longrightarrow> b_index b \<le> cu_index c"
      using assms(1) Some by (simp_all add: table_ok_def) (drule conjunct2, drule spec [of _ a], simp)+
    then obtain b where b: "b \<in> set bs" "b_accountId b = a" "b_index b = cu_index c" "takes_hold b = cu_holds c" by blast
    show ?thesis
    proof
      assume "\<exists>c. mget per a = Some c \<and> cu_holds c"
      with Some b c(2) show "latest_hold bs a" unfolding latest_hold_def by auto
    next
      assume "latest_hold bs a"
      then obtain d where d: "d \<in> set bs" "b_accountId d = a" "takes_hold d" "b_index b \<le> b_index d"
        using b by (auto simp: latest_hold_def)
      with c(2) b have "b_index d = b_index b" by force
      with assms(2) [OF b(1) d(1)] b d have "cu_holds c" by simp
      with Some show "\<exists>c. mget per a = Some c \<and> cu_holds c" by blast
    qed
  qed
  finally show ?thesis .
qed

lemma custody_run:
  assumes "\<forall>b \<in> set bs. about_token t b" "per_account t L = []" "mget (el_nftOwner L) t = None" "t \<notin> el_burned L"
  shows "table_ok bs (per_account t (fold (block_effects C) bs L)) \<and> owner_ok t (fold (block_effects C) bs L)
    \<and> (t \<in> el_burned (fold (block_effects C) bs L) \<longleftrightarrow> (\<exists>b \<in> set bs. b_type b = NftBurn))"
  using assms(1)
proof (induction bs rule: rev_induct)
  case Nil
  then show ?case
    using assms(2-4) by (simp add: table_ok_def owner_ok_def holders_def)
next
  case (snoc b bs)
  then have b: "about_token t b" by simp
  show ?case
    using snoc by (simp add: effect_view [OF b] table_step)
qed

lemma nft_owner_run:
  assumes "\<forall>b \<in> set bs. about_token t b"
    "\<forall>b \<in> set bs. \<forall>c \<in> set bs. b_accountId b = b_accountId c \<and> b_index b = b_index c \<longrightarrow> takes_hold b = takes_hold c"
    "mget (el_custody L) t = None" "mget (el_nftOwner L) t = None" "t \<notin> el_burned L"
  shows "case mget (el_nftOwner (fold (block_effects C) bs L)) t of
     None \<Rightarrow> (\<exists>b \<in> set bs. b_type b = NftBurn) \<or> (\<forall>a. \<not> latest_hold bs a)
   | Some x \<Rightarrow> (\<forall>b \<in> set bs. b_type b \<noteq> NftBurn) \<and> latest_hold bs x"
proof -
  let ?L = "fold (block_effects C) bs L"
  have r: "table_ok bs (per_account t ?L)" "owner_ok t ?L" "t \<in> el_burned ?L \<longleftrightarrow> (\<exists>b \<in> set bs. b_type b = NftBurn)"
    using custody_run [OF assms(1) _ assms(4,5), of C] assms(3) by (auto simp: per_account_def)
  have h: "a \<in> set (holders (per_account t ?L)) \<longleftrightarrow> latest_hold bs a" for a
    by (rule table_holders [OF r(1)]) (use assms(2) in blast)
  have "holders (per_account t ?L) = [] \<longleftrightarrow> (\<forall>a. \<not> latest_hold bs a)"
    unfolding h [symmetric] by (auto simp: neq_Nil_conv)
  with r(2,3) h show ?thesis
    by (auto simp: owner_ok_def split: option.splits)
qed

end
