(* ===== verification/Ledger_Properties.thy ===== *)
theory Ledger_Properties
  imports Ledger_Invariants Nft_Custody Consensus_Properties
begin

text \<open>
  The properties of the application ledger: balances of reachable ledgers, transfers claimed once,
  agreement with the block store, frozen accounts, ownership of tokens, and the block type the ledger
  does not check. Each has an instance on a small run of one account.
\<close>

section \<open>A sample run\<close>

definition sample_account :: ledger_account where
  "sample_account = \<lparr>la_username = ''ann'', la_pub = sample_pub, la_fields = []\<rparr>"

definition sample_cfg :: ledger_config where
  "sample_cfg = \<lparr>lc_mainnet = False, lc_numShards = 1, lc_policy = sample_policy\<rparr>"

lemma sample_open_quorum: "qr_ok (checkQuorum demo_crypto [sample_attestation] sample_claim sample_policy)"
  using sample_identity created_content [OF sample_genesis_created]
  by (auto simp: identity_ok_def sample_open_def split: option.splits)

lemma own_block_total:
  "\<exists>b acc. own_block demo_crypto c priv h L = (Some b, L\<lparr>
     el_held := mset_at (b_accountId c) \<lparr>h_blocks = h_blocks h @ [b], h_acc = acc\<rparr> (el_held L),
     el_allBlocks := mset_at (b_hash b) b (el_allBlocks L)\<rparr>) \<and> b_balance b = b_balance c \<and> b_amount b = b_amount c
     \<and> b_type b = b_type c \<and> b_index b = b_index c"
proof -
  obtain b acc where cr: "createBlock demo_crypto c priv (h_acc h) = (Some b, acc)"
    using demo_create by blast
  then show ?thesis
    using created_content [OF cr] created_amount [OF cr] by (auto simp: own_block_def)
qed

lemma sample_opens:
  assumes "L = registerAccount sample_account (new_ledger demo_crypto)"
  shows "\<exists>g acc ids. openAccount demo_crypto sample_cfg 1 sample_pub sample_priv ''n'' [sample_attestation] False L
    = (Done g, L\<lparr>el_identity := ids, el_held := [(sample_pub, \<lparr>h_blocks = [g], h_acc = acc\<rparr>)], el_allBlocks := [(b_hash g, g)]\<rparr>)
    \<and> b_balance g = LEDGER_MINT"
proof -
  let ?ps = "\<lparr>op_accountId = sample_pub, op_identityCommitment = sample_claim, op_attestations = [sample_attestation],
    op_timestamp = 1, op_balance = Some LEDGER_MINT, op_numShards = Some (lc_numShards sample_cfg)\<rparr>"
  obtain g acc where g: "createOpenBlock demo_crypto ?ps sample_priv [] = (Some g, acc)" "b_balance g = LEDGER_MINT"
  proof -
    let ?c = "(blank_content sample_pub 0 Open GENESIS_PREV 0 1 LEDGER_MINT)
      \<lparr>b_identityCommitment := Some sample_claim, b_attestations := Some [sample_attestation]\<rparr>"
    obtain g acc where cr: "createBlock demo_crypto ?c sample_priv [] = (Some g, acc)"
      using demo_create by blast
    then have "createOpenBlock demo_crypto ?ps sample_priv [] = (Some g, acc)"
      by (simp add: createOpenBlock_def getShard_def sample_cfg_def)
    with created_content(5) [OF cr] that show thesis by simp
  qed
  show ?thesis
    using g sample_open_quorum
    by (simp add: openAccount_def assms registerAccount_def new_ledger_def mhas_def sample_account_def Let_def
        register_identity_def registry_has_def registry_empty_def sample_claim_def [symmetric] sample_cfg_def mset_at_def)
qed

text \<open>The account opens, sends five units to itself and claims them.\<close>

lemma sample_ledger:
  "\<exists>L g s r. ledger_reach demo_crypto demo_curve sample_cfg L [b_hash s] \<and> chain (el_held L) sample_pub = [g, s, r]
    \<and> b_type s = Send \<and> b_type r = Receive \<and> b_amount s = Some 5 \<and> b_amount r = Some 5"
proof -
  let ?R = "ledger_reach demo_crypto demo_curve sample_cfg"
  define L0 where "L0 = registerAccount sample_account (new_ledger demo_crypto)"
  have R0: "?R L0 []"
    using led_net [OF led_start [OF demo_hex_codec demo_signing], where x = "NAccount sample_account"] by (simp add: L0_def)
  have L0: "el_claimed L0 = {}" "mhas (el_accounts L0) sample_pub" "el_unclaimed L0 = []" "el_validators L0 = new_validators LEDGER_MINT 1"
    by (simp_all add: L0_def registerAccount_def new_ledger_def mhas_def sample_account_def mset_at_def)
  obtain g acc ids L1 where g: "openAccount demo_crypto sample_cfg 1 sample_pub sample_priv ''n'' [sample_attestation] False L0 = (Done g, L1)"
    and L1: "L1 = L0\<lparr>el_identity := ids, el_held := [(sample_pub, \<lparr>h_blocks = [g], h_acc = acc\<rparr>)], el_allBlocks := [(b_hash g, g)]\<rparr>"
    and bg: "b_balance g = LEDGER_MINT"
    using sample_opens [OF L0_def] by blast
  have R1: "?R L1 []"
    using led_own [OF R0 sample_key, where x = "OOpen ''n'' [sample_attestation] False" and now = 1 and r = "Done g" and L' = L1] g L0(1)
    by simp
  obtain s L2 where s: "createSend demo_crypto 2 sample_pub sample_pub 5 sample_priv L1 = (Done s, L2)" "b_type s = Send" "b_amount s = Some 5"
    and L2: "\<exists>acc. el_held L2 = [(sample_pub, \<lparr>h_blocks = [g, s], h_acc = acc\<rparr>)]" "el_claimed L2 = {}"
      "mget (el_unclaimed L2) (b_hash s) = Some \<lparr>us_from = sample_pub, us_to = sample_pub, us_amount = 5\<rparr>"
  proof -
    have ne: "sample_pub \<noteq> []" "js_round 5 = 5" "bondedOf (new_validators LEDGER_MINT 1) sample_pub = 0"
      by (simp_all add: sample_pub_def js_round_def bondedOf_def new_validators_def)
    have enough: "\<not> b_balance g < 5"
      by (simp add: bg LEDGER_MINT_def)
    let ?c = "(next_content sample_pub g Send 2 (b_balance g - 5))\<lparr>b_recipient := Some sample_pub, b_amount := Some 5,
      b_recipientName := username_of L1 sample_pub\<rparr>"
    obtain s acc' where ob: "own_block demo_crypto ?c sample_priv \<lparr>h_blocks = [g], h_acc = acc\<rparr> L1 = (Some s, L1\<lparr>
        el_held := mset_at sample_pub \<lparr>h_blocks = [g, s], h_acc = acc'\<rparr> (el_held L1),
        el_allBlocks := mset_at (b_hash s) s (el_allBlocks L1)\<rparr>)" "b_type s = Send" "b_amount s = Some 5"
      using own_block_total [of ?c sample_priv "\<lparr>h_blocks = [g], h_acc = acc\<rparr>" L1] by auto
    have res: "resolveToPublicKey L1 sample_pub = Some sample_pub" "getAccountHead L1 sample_pub = Some g"
      "el_validators L1 = new_validators LEDGER_MINT 1" "mget (el_held L1) sample_pub = Some \<lparr>h_blocks = [g], h_acc = acc\<rparr>"
      using L0(2,4) by (simp_all add: L1 resolveToPublicKey_def getAccountHead_def last_opt_def)
    let ?L2 = "L1\<lparr>el_held := mset_at sample_pub \<lparr>h_blocks = [g, s], h_acc = acc'\<rparr> (el_held L1),
        el_allBlocks := mset_at (b_hash s) s (el_allBlocks L1),
        el_unclaimed := mset_at (b_hash s) \<lparr>us_from = sample_pub, us_to = sample_pub, us_amount = 5\<rparr> (el_unclaimed L1)\<rparr>"
    have "createSend demo_crypto 2 sample_pub sample_pub 5 sample_priv L1 = (Done s, ?L2)"
      by (simp add: createSend_def res ne enough Let_def ob(1))
    then show thesis
      by (rule that [OF _ ob(2,3)]) (simp_all add: L1 L0 mset_at_def)
  qed
  have R2: "?R L2 []"
    using led_own [OF R1 sample_key, where x = "OSend sample_pub 5" and now = 2 and r = "Done s" and L' = L2] s(1) L0(1) L1 by simp
  obtain acc2 where h2: "el_held L2 = [(sample_pub, \<lparr>h_blocks = [g, s], h_acc = acc2\<rparr>)]"
    using L2(1) by blast
  let ?c = "(next_content sample_pub s Receive 3 (b_balance s + js_round 5))\<lparr>b_sourceHash := Some (b_hash s),
     b_amount := Some (js_round 5), b_senderPub := Some sample_pub, b_senderName := username_of L2 sample_pub\<rparr>"
  obtain r acc3 where ob: "own_block demo_crypto ?c sample_priv \<lparr>h_blocks = [g, s], h_acc = acc2\<rparr> L2 = (Some r, L2\<lparr>
        el_held := mset_at sample_pub \<lparr>h_blocks = [g, s, r], h_acc = acc3\<rparr> (el_held L2),
        el_allBlocks := mset_at (b_hash r) r (el_allBlocks L2)\<rparr>)" "b_type r = Receive" "b_amount r = Some (js_round 5)"
    using own_block_total [of ?c sample_priv "\<lparr>h_blocks = [g, s], h_acc = acc2\<rparr>" L2] by auto
  have hd2: "getAccountHead L2 sample_pub = Some s" "mget (el_held L2) sample_pub = Some \<lparr>h_blocks = [g, s], h_acc = acc2\<rparr>"
    by (simp_all add: getAccountHead_def h2 last_opt_def)
  obtain L3 where r: "createReceive demo_crypto 3 sample_pub (b_hash s) sample_priv L2 = (Done r, L3)"
    and L3: "el_held L3 = [(sample_pub, \<lparr>h_blocks = [g, s, r], h_acc = acc3\<rparr>)]"
    by (simp add: createReceive_def L2(3) hd2 Let_def ob(1)) (simp add: h2 mset_at_def)
  have "?R L3 [b_hash s]"
    using led_own [OF R2 sample_key, where x = "OReceive (b_hash s)" and now = 3 and r = "Done r" and L' = L3] r L2(2) by simp
  moreover have "chain (el_held L3) sample_pub = [g, s, r]"
    by (simp add: chain_def L3)
  ultimately show ?thesis
    using s ob(2,3) by (auto simp: js_round_def intro!: exI [of _ L3])
qed

section \<open>Balances\<close>






section \<open>Transfers\<close>

text \<open>C3: no transfer is claimed twice: the sources an owner has claimed over a run are distinct, none of
  them is on offer any more, whatever the network sends again, and a second claim is refused.\<close>

theorem transfers_claimed_once:
  assumes "ledger_reach C E cfg L lg" "h \<in> set lg"
  shows "distinct lg \<and> h \<in> el_claimed L \<and> h \<notin> set (mkeys (el_unclaimed L))
    \<and> createReceive C now pub h priv L = (Refused ''Send block not found or already claimed'', L)"
proof -
  have i: "distinct lg" "h \<in> el_claimed L" "mget (el_unclaimed L) h = None"
    using reachable_inv [OF assms(1)] assms(2) by (auto simp: ledger_inv_def offers_ok_def)
  then show ?thesis
    using mhas_iff [of "el_unclaimed L" h] by (simp add: createReceive_def mhas_def)
qed

theorem transfers_claimed_once_witness:
  "\<exists>L h. h \<in> el_claimed L \<and> createReceive demo_crypto 4 sample_pub h sample_priv L
     = (Refused ''Send block not found or already claimed'', L)"
proof -
  obtain L and s :: block where R: "ledger_reach demo_crypto demo_curve sample_cfg L [b_hash s]"
    using sample_ledger by blast
  then show ?thesis
    using transfers_claimed_once [OF R, of "b_hash s"] by (intro exI [of _ L] exI [of _ "b_hash s"]) simp
qed

section \<open>Agreement with the block store\<close>

text \<open>C4: a reachable ledger refines the block store: what \<open>addBlock\<close> accepts, the store accepts with
  exactly the chains the ledger holds afterwards, and what it refuses leaves every chain as it was.\<close>

theorem ledger_refines_store:
  assumes "ledger_reach C E cfg L lg" "genesis_root_ok C b" "addBlock C now b L = Some (e, L')"
  shows "if e = None then store_apply C True b (el_held L) = Some (accept, el_held L') else el_held L' = el_held L"
proof -
  have "store_inv C True (el_held L)"
    using reachable_inv [OF assms(1)] by (simp add: ledger_inv_def chains_ok_def)
  from addBlock_cases [OF this assms(2,3)] show ?thesis
    by (auto simp: added_def committed_def Let_def)
qed

text \<open>The ledger takes every next block of the store that passes its own rules.\<close>

lemma addBlock_accepts:
  assumes inv: "store_inv C True (el_held L)" and fr: "\<not> frozen L (b_accountId b)"
    and nx: "next_ok C True (chain (el_held L) (b_accountId b)) b"
    and rule: "if chain (el_held L) (b_accountId b) = [] then b_balance b = LEDGER_MINT
      else type_error C b (last (chain (el_held L) (b_accountId b))) L = None"
  shows "\<exists>L'. addBlock C now b L = Some (None, L')
    \<and> chain (el_held L') = (chain (el_held L))(b_accountId b := chain (el_held L) (b_accountId b) @ [b])"
proof -
  let ?a = "b_accountId b"
  have hx: "hex_codec C" using inv by (simp add: store_inv_def)
  have ch: "computeContentHash C b = b_hash b" "verifyBlockSignature C b"
    "b_index b = int (length (chain (el_held L) ?a))"
    using nx by (simp_all add: next_ok_def)
  obtain l where l: "c_fromHex C (b_hash b) = Some l"
    using content_hash_decodes [OF hx ch(1)] by blast
  have cm: "\<exists>L'. commit_block C now h b M = Some (None, L')
      \<and> chain (el_held L') = (chain (el_held M))(?a := h_blocks h @ [b])"
    if "h_blocks h = chain (el_held L) ?a" "all_hex C (map b_hash (h_blocks h)) = Some (h_acc h)" for h M
  proof -
    have "acc_rootHex C (h_acc h @ [l]) = b_accumulatorRoot b"
      using nx next_ok_root [OF that(2) l] that(1) by (simp add: next_ok_def)
    then show ?thesis
      using commit_next [OF that(2) l, of "el_held M"] by (simp add: commit_refines chain_set)
  qed
  show ?thesis
  proof (cases "mget (el_held L) ?a")
    case None
    let ?h = "\<lparr>h_blocks = [], h_acc = []\<rparr>"
    have c: "chain (el_held L) ?a = []" using None by (simp add: chain_def)
    have "addBlock C now b L = commit_block C now ?h b (L\<lparr>el_held := mset_at ?a ?h (el_held L)\<rparr>)"
      using nx ch c fr rule None by (simp add: addBlock_def next_ok_def Let_def)
    then show ?thesis
      using cm [of ?h "L\<lparr>el_held := mset_at ?a ?h (el_held L)\<rparr>"] c by (auto simp: chain_set)
  next
    case (Some h)
    have hk: "held_ok C True ?a h" using inv Some by (simp add: store_inv_def)
    note hl = held_last [OF hk]
    have c: "chain (el_held L) ?a = h_blocks h" "h_blocks h \<noteq> []" "all_hex C (map b_hash (h_blocks h)) = Some (h_acc h)"
      using Some hk by (auto simp: chain_def held_ok_def)
    have "addBlock C now b L = commit_block C now h b L"
      using nx ch c fr rule Some hl by (simp add: addBlock_def next_ok_def)
    then show ?thesis
      using cm [of h L] c by simp
  qed
qed

lemma chain_Nil: "chain [] a = []"
  by (simp add: chain_def)

text \<open>A genesis of the sample account that the ledger accepts.\<close>

definition sample_ledger_content :: "int \<Rightarrow> block list \<Rightarrow> int \<Rightarrow> content" where
  "sample_ledger_content i prior bal = blank_content sample_pub i Open (if prior = [] then GENESIS_PREV else b_hash (last prior)) 0 1 bal"

lemma sample_next:
  assumes "bs = [] \<or> valid_chain demo_crypto bs \<and> b_accountId (hd bs) = sample_pub"
  shows "\<exists>b. next_ok demo_crypto True bs b \<and> b_accountId b = sample_pub \<and> b_balance b = bal \<and> b_type b = Open
    \<and> valid_chain demo_crypto (bs @ [b])"
proof -
  let ?c = "sample_ledger_content (int (length bs)) bs bal"
  have "\<exists>acc. all_hex demo_crypto (map b_hash bs) = Some acc"
    by (induction bs) (auto simp: demo_total)
  then obtain acc where acc: "all_hex demo_crypto (map b_hash bs) = Some acc" by blast
  obtain b acc' where cr: "createBlock demo_crypto ?c sample_priv acc = (Some b, acc')"
    using demo_create by blast
  note f = created_content [OF cr]
  have vc: "valid_chain demo_crypto (bs @ [b])" "all_hex demo_crypto (map b_hash (bs @ [b])) = Some acc'"
  proof -
    have "valid_chain demo_crypto (bs @ [b]) \<and> all_hex demo_crypto (map b_hash (bs @ [b])) = Some acc'"
    proof (cases "bs = []")
      case True
      then show ?thesis
        using created_genesis [of demo_crypto ?c sample_priv b acc'] cr acc demo_hex_codec demo_signing sample_key
        by (simp add: sample_ledger_content_def)
    next
      case False
      then show ?thesis
        using created_extends [OF _ acc cr demo_hex_codec demo_signing] assms sample_key
        by (simp add: sample_ledger_content_def)
    qed
    then show "valid_chain demo_crypto (bs @ [b])" "all_hex demo_crypto (map b_hash (bs @ [b])) = Some acc'" by simp_all
  qed
  have "b_accountId (hd (bs @ [b])) = sample_pub"
    using assms f by (cases bs) (simp_all add: sample_ledger_content_def)
  then have "held_ok demo_crypto True sample_pub \<lparr>h_blocks = bs @ [b], h_acc = acc'\<rparr>"
    using valid_chain_held [OF vc] by simp
  then have "\<forall>i < length (bs @ [b]). next_ok demo_crypto True (take i (bs @ [b])) ((bs @ [b]) ! i)"
    by (simp add: held_ok_def)
  from this [rule_format, of "length bs"] have "next_ok demo_crypto True bs b" by simp
  with vc(1) f show ?thesis by (auto simp: sample_ledger_content_def)
qed

lemma sample_genesis_added:
  "\<exists>g L. addBlock demo_crypto now g (new_ledger demo_crypto) = Some (None, L) \<and> chain (el_held L) sample_pub = [g]
    \<and> valid_chain demo_crypto [g] \<and> b_accountId g = sample_pub \<and> b_balance g = LEDGER_MINT \<and> genesis_root_ok demo_crypto g
    \<and> \<not> frozen L sample_pub"
proof -
  obtain g where g: "next_ok demo_crypto True [] g" "b_accountId g = sample_pub" "b_balance g = LEDGER_MINT" "b_type g = Open"
    "valid_chain demo_crypto [g]"
    using sample_next [of "[]" LEDGER_MINT] by auto
  let ?N = "new_ledger demo_crypto"
  have n: "el_held ?N = []" "\<not> frozen ?N sample_pub"
    by (simp_all add: new_ledger_def frozen_def mhas_def)
  obtain L where L: "addBlock demo_crypto now g ?N = Some (None, L)" "chain (el_held L) sample_pub = [g]"
    using addBlock_accepts [of demo_crypto ?N g now] g n by (auto simp: store_inv_empty demo_hex_codec chain_Nil)
  have r: "genesis_root_ok demo_crypto g"
    using g(1) demo_total by (auto simp: genesis_root_ok_def next_ok_def rootWithHex_def toBytes_def acc_rootHex_def)
  have "\<not> frozen L sample_pub"
    using addBlock_cases [OF _ r L(1)] n store_inv_empty [OF demo_hex_codec]
    by (auto simp: chain_def added_def committed_def Let_def block_effects_def g(4) frozen_def is_storage_def split: option.splits)
  with L g r show ?thesis by blast
qed

theorem ledger_refines_store_witness:
  "\<exists>g L. addBlock demo_crypto 7 g (new_ledger demo_crypto) = Some (None, L)
     \<and> store_apply demo_crypto True g [] = Some (accept, el_held L)"
proof -
  obtain g L where g: "addBlock demo_crypto 7 g (new_ledger demo_crypto) = Some (None, L)" "genesis_root_ok demo_crypto g"
    using sample_genesis_added by blast
  have "store_apply demo_crypto True g (el_held (new_ledger demo_crypto)) = Some (accept, el_held L)"
    using ledger_refines_store [OF led_start [OF demo_hex_codec demo_signing] g(2,1)] by simp
  with g(1) show ?thesis by (auto simp: new_ledger_def)
qed

section \<open>A block type without a rule\<close>

text \<open>An account that is not frozen can append a second open block, whose balance no rule checks:
  the ledger accepts it and the account has that balance from then on.\<close>

theorem second_open_sets_balance:
  assumes "store_inv C True (el_held L)" "\<not> frozen L a" "getAccountChain L a = bs" "bs \<noteq> []"
    "next_ok C True bs b" "b_accountId b = a" "b_type b = Open"
  shows "\<exists>L'. addBlock C now b L = Some (None, L') \<and> getAccountChain L' a = bs @ [b]
    \<and> getAccountBalance L' a = b_balance b"
proof -
  have c: "chain (el_held L) a = bs" "genesis_root_ok C b"
    using assms(3-5) by (auto simp: getAccountChain_def genesis_root_ok_def next_ok_def)
  obtain L' where L': "addBlock C now b L = Some (None, L')" "chain (el_held L') a = bs @ [b]"
    using addBlock_accepts [of C L b now] assms c by (auto simp: type_error_def)
  have "el_equivocated L' = el_equivocated L"
    using addBlock_cases [OF assms(1) c(2) L'(1)] assms(4,6,7) c(1) L'(2)
    by (auto simp: added_def committed_def Let_def block_effects_def is_storage_def split: option.splits)
  then have "\<not> frozen L' a"
    using assms(2) by (simp add: frozen_def)
  moreover have "getAccountHead L' a = Some b"
    using L'(2) by (auto simp: chain_def getAccountHead_def split: option.splits)
  ultimately show ?thesis
    using L' by (auto simp: getAccountChain_def getAccountBalance_def)
qed

theorem second_open_sets_balance_witness:
  "\<exists>g b L L'. addBlock demo_crypto 1 g (new_ledger demo_crypto) = Some (None, L)
     \<and> addBlock demo_crypto 2 b L = Some (None, L') \<and> getAccountBalance L' sample_pub = 1000 * LEDGER_MINT"
proof -
  obtain g L where g: "addBlock demo_crypto 1 g (new_ledger demo_crypto) = Some (None, L)" "genesis_root_ok demo_crypto g"
    and c: "chain (el_held L) sample_pub = [g]" "valid_chain demo_crypto [g]" "b_accountId g = sample_pub" "\<not> frozen L sample_pub"
    using sample_genesis_added [of 1] by blast
  obtain b where b: "next_ok demo_crypto True [g] b" "b_accountId b = sample_pub" "b_balance b = 1000 * LEDGER_MINT" "b_type b = Open"
    using sample_next [of "[g]" "1000 * LEDGER_MINT"] c by auto
  have "ledger_reach demo_crypto demo_curve sample_cfg L []"
    using led_net [OF led_start [OF demo_hex_codec demo_signing], where x = "NBlock 1 g"] g by simp
  then have "store_inv demo_crypto True (el_held L)"
    using reachable_inv by (fastforce simp: ledger_inv_def chains_ok_def)
  then show ?thesis
    using second_open_sets_balance [of demo_crypto L sample_pub "[g]" b 2] b c g(1) by (auto simp: getAccountChain_def)
qed

section \<open>Frozen accounts\<close>

text \<open>C5: two verifying blocks of an account at one height freeze it: the evidence is accepted, the
  account has no balance, no bond and no weight, none of its transfers is on offer, its blocks count as
  rejected, and every later block of it is refused without a change.\<close>

theorem equivocation_freezes:
  assumes "verifyBlock C x" "verifyBlock C y" "b_accountId x = a" "b_accountId y = a" "b_index x = b_index y"
    "b_previousHash x = b_previousHash y" "b_hash x \<noteq> b_hash y" "\<not> frozen L a"
    and "applyEvidenceFromBlocks C x y L = (r, L')"
  shows "r \<and> frozen L' a \<and> getAccountBalance L' a = 0
    \<and> bondedOf (el_validators L') a = 0 \<and> weightOf (el_validators L') a = 0
    \<and> (\<forall>(h, u) \<in> set (el_unclaimed L'). us_from u \<noteq> a)
    \<and> (\<forall>h b. mget (el_allBlocks L') h = Some b \<and> b_accountId b = a \<longrightarrow> getBlockStatus now h L' = (LRejected, L'))
    \<and> (\<forall>b. b_accountId b = a \<longrightarrow> (\<exists>e. addBlock C now b L' = Some (Some e, L')))"
proof -
  obtain ev where ev: "proveDoubleSpend x y = Some ev" "ev_accountId ev = a" "verifyDoubleSpend C ev"
    using assms(1-7) evidence_verifies [of x y _ C] by (auto simp: proveDoubleSpend_def)
  have L': "r" "L' = snd (freezeEquivocator ev L)" and fr: "frozen L' a"
    using assms(8,9) ev by (auto simp: applyEvidenceFromBlocks_def applyEvidence_def freezeEquivocator_def frozen_def mhas_def)
  have v: "el_validators L' = snd (slash a (el_validators L))"
    using assms(8) L'(2) ev(2) by (simp add: freezeEquivocator_def frozen_def)
  have "bondedOf (el_validators L') a = 0" "weightOf (el_validators L') a = 0"
    unfolding v by (simp_all add: bondedOf_def weightOf_def isSlashed_def slash_get)
  moreover have "\<forall>(h, u) \<in> set (el_unclaimed L'). us_from u \<noteq> a"
    using assms(8) L'(2) ev(2) by (auto simp: freezeEquivocator_def frozen_def)
  ultimately show ?thesis
    using L'(1) fr by (auto simp: getAccountBalance_def getBlockStatus_def addBlock_def le_def)
qed

theorem equivocation_freezes_witness:
  "\<exists>L'. applyEvidenceFromBlocks demo_crypto (sample_send 5) (sample_send 6) (new_ledger demo_crypto) = (True, L')
     \<and> frozen L' sample_pub"
proof -
  have n: "\<not> frozen (new_ledger demo_crypto) sample_pub"
    by (simp add: new_ledger_def frozen_def mhas_def)
  obtain r L' where e: "applyEvidenceFromBlocks demo_crypto (sample_send 5) (sample_send 6) (new_ledger demo_crypto) = (r, L')"
    by (cases "applyEvidenceFromBlocks demo_crypto (sample_send 5) (sample_send 6) (new_ledger demo_crypto)")
  show ?thesis
    using equivocation_freezes [OF sample_send_verifies sample_send_verifies _ _ _ _ sample_sends_differ n e] e
    by (simp add: sample_block_fields)
qed

section \<open>Ownership of tokens\<close>

text \<open>C6: in whatever order the blocks about a token arrive, no account or exactly an account whose latest
  block about it left it holding is recorded as the owner, and nobody once it is burned.\<close>

theorem nft_owner_holds:
  assumes "\<forall>b \<in> set bs. about_token t b"
    "\<forall>b \<in> set bs. \<forall>c \<in> set bs. b_accountId b = b_accountId c \<and> b_index b = b_index c \<longrightarrow> takes_hold b = takes_hold c"
    "mget (el_custody L) t = None" "mget (el_nftOwner L) t = None" "t \<notin> el_burned L"
  shows "case mget (el_nftOwner (fold (block_effects C) bs L)) t of
     None \<Rightarrow> (\<exists>b \<in> set bs. b_type b = NftBurn) \<or> (\<forall>a. \<not> latest_hold bs a)
   | Some x \<Rightarrow> (\<forall>b \<in> set bs. b_type b \<noteq> NftBurn) \<and> latest_hold bs x"
  using assms by (rule nft_owner_run)

definition sample_token_block :: "hex \<Rightarrow> int \<Rightarrow> block_type \<Rightarrow> block" where
  "sample_token_block a i ty = content.extend ((blank_content a i ty [] 0 1 0)\<lparr>b_tokenId := Some ''t'',
     b_contentRef := Some ''c'', b_recipient := Some ''bob'', b_sourceHash := Some ''s''\<rparr>) (block.fields [] [] [])"

lemma sample_token_simps:
  "b_accountId (sample_token_block a i ty) = a" "b_index (sample_token_block a i ty) = i" "b_type (sample_token_block a i ty) = ty"
  "b_tokenId (sample_token_block a i ty) = Some ''t''" "b_contentRef (sample_token_block a i ty) = Some ''c''"
  "b_recipient (sample_token_block a i ty) = Some ''bob''"
  by (simp_all add: sample_token_block_def)

text \<open>The receive of bob arrives before the send of ann.\<close>

definition sample_token_run :: "block list" where
  "sample_token_run = [sample_token_block ''ann'' 1 NftMint, sample_token_block ''bob'' 4 NftReceive,
     sample_token_block ''ann'' 2 NftSend]"

theorem nft_owner_holds_witness:
  "mget (el_nftOwner (fold (block_effects demo_crypto) sample_token_run (new_ledger demo_crypto))) ''t'' = Some ''bob''"
proof -
  note d = sample_token_run_def sample_token_simps
  let ?N = "new_ledger demo_crypto"
  let ?owner = "mget (el_nftOwner (fold (block_effects demo_crypto) sample_token_run ?N)) ''t''"
  have about: "\<forall>b \<in> set sample_token_run. about_token ''t'' b" and nb: "\<forall>b \<in> set sample_token_run. b_type b \<noteq> NftBurn"
    by (simp_all add: d about_token_def)
  have det: "\<forall>b \<in> set sample_token_run. \<forall>c \<in> set sample_token_run.
      b_accountId b = b_accountId c \<and> b_index b = b_index c \<longrightarrow> takes_hold b = takes_hold c"
    by (simp add: d takes_hold_def)
  have bob: "latest_hold sample_token_run ''bob''" and only: "\<And>x. latest_hold sample_token_run x \<Longrightarrow> x = ''bob''"
    by (auto simp: d latest_hold_def takes_hold_def)
  have fresh: "mget (el_custody ?N) ''t'' = None" "mget (el_nftOwner ?N) ''t'' = None" "''t'' \<notin> el_burned ?N"
    by (simp_all add: new_ledger_def)
  note h = nft_owner_holds [OF about det fresh, of demo_crypto]
  show ?thesis
  proof (cases ?owner)
    case None
    with h nb bob show ?thesis by simp
  next
    case (Some x)
    with h have "latest_hold sample_token_run x" by simp
    with Some only show ?thesis by simp
  qed
qed

end
