(* ===== verification/Shamir.thy ===== *)
theory Shamir
  imports Crypto_Env
begin

unbundle bit_operations_syntax

text \<open>
  Two-of-n secret sharing over GF(256), \<open>src/core/shamir.ts\<close>. The log and exp tables are built by the
  loops of the source; arithmetic is shown to be that of the field with the AES polynomial, so that
  any two shares give the secret back and one share says nothing about it.
\<close>

section \<open>Tables\<close>

text \<open>Multiplication by the generator 3 with reduction: one turn of the first loop.\<close>

definition times3 :: "int \<Rightarrow> int" where
  "times3 x = (let y = push_bit 1 x XOR x in if y AND 0x100 \<noteq> 0 then y XOR 0x11b else y)"

fun exp_table_from :: "nat \<Rightarrow> int \<Rightarrow> int list" where
  "exp_table_from 0 x = []"
| "exp_table_from (Suc n) x = x # exp_table_from n (times3 x)"

text \<open>The array has 512 entries; 255 are written first, and the second loop repeats them.\<close>

definition EXP :: "int list" where
  "EXP = (let e = exp_table_from 255 1 in e @ e @ [e ! 0, e ! 1])"

definition LOG :: "int list" where
  "LOG = fold (\<lambda>i l. l[nat (EXP ! i) := int i]) [0..<255] (replicate 256 0)"

text \<open>
  Reading outside a table gives \<open>undefined\<close>, and so does everything computed from it; the exclusive or
  that every result ends in reads it as 0.
\<close>

definition mul_gf :: "int \<Rightarrow> int \<Rightarrow> int" where
  "mul_gf a b = (if a = 0 \<or> b = 0 then 0
     else case (js_at LOG a, js_at LOG b) of
       (Some la, Some lb) \<Rightarrow> nvl (js_at EXP (la + lb)) 0
     | _ \<Rightarrow> 0)"

definition div_gf :: "int \<Rightarrow> int \<Rightarrow> int option" where
  "div_gf a b = (if b = 0 then None
     else if a = 0 then Some 0
     else case (js_at LOG a, js_at LOG b) of
       (Some la, Some lb) \<Rightarrow> Some (nvl (js_at EXP (la + 255 - lb)) 0)
     | _ \<Rightarrow> Some 0)"

record shamir_share =
  sh_x :: int
  sh_data :: bytes

text \<open>The random bytes are an argument. \<open>None\<close>: the call throws.\<close>

definition shamirSplit :: "bytes \<Rightarrow> bytes \<Rightarrow> int \<Rightarrow> shamir_share list option" where
  "shamirSplit r secret n = (if n < 2 \<or> n > 255 then None
     else Some (map (\<lambda>x. \<lparr>sh_x = x, sh_data = map2 (\<lambda>s k. s XOR word_of_int (mul_gf (uint k) x)) secret r\<rparr>) [1..n]))"

definition shamirCombine :: "shamir_share \<Rightarrow> shamir_share \<Rightarrow> bytes option" where
  "shamirCombine a b =
     (if sh_x a = sh_x b then None
      else if length (sh_data a) \<noteq> length (sh_data b) then None
      else let denom = sh_x a XOR sh_x b in
        case (div_gf (sh_x b) denom, div_gf (sh_x a) denom) of
          (Some ca, Some cb) \<Rightarrow> Some (map2 (\<lambda>p q. word_of_int (mul_gf (uint p) ca XOR mul_gf (uint q) cb)) (sh_data a) (sh_data b))
        | _ \<Rightarrow> None)"

section \<open>The field\<close>

text \<open>Multiplication by x modulo the AES polynomial, and by any byte.\<close>

definition xtime :: "8 word \<Rightarrow> 8 word" where
  "xtime a = push_bit 1 a XOR (if bit a 7 then 0x1b else 0)"

definition gsum :: "(nat \<Rightarrow> 8 word) \<Rightarrow> 8 word \<Rightarrow> nat \<Rightarrow> 8 word" where
  "gsum f a n = foldr (\<lambda>i acc. (if bit a i then f i else 0) XOR acc) [0..<n] 0"

definition gmul :: "8 word \<Rightarrow> 8 word \<Rightarrow> 8 word" where
  "gmul a b = gsum (\<lambda>i. (xtime ^^ i) b) a 8"

lemma xtime_xor: "xtime (a XOR b) = xtime a XOR xtime b"
  by (rule bit_eqI) (auto simp: xtime_def bit_simps)

lemma xtime_0 [simp]: "xtime 0 = 0" "(xtime ^^ n) 0 = 0"
  by (simp add: xtime_def, induction n) (simp_all add: xtime_def)

lemma xtime_pow_xor: "(xtime ^^ n) (a XOR b) = (xtime ^^ n) a XOR (xtime ^^ n) b"
  by (induction n) (simp_all add: xtime_xor)

lemma foldr_xor: "foldr (\<lambda>i acc. f i XOR acc) xs 0 XOR foldr (\<lambda>i acc. g i XOR acc) xs 0
    = foldr (\<lambda>i acc. (f i XOR g i) XOR acc) xs (0 :: 8 word)"
  by (induction xs) (simp_all add: ac_simps)

lemma gmul_xor_left: "gmul (a XOR a') b = gmul a b XOR gmul a' b"
  unfolding gmul_def gsum_def foldr_xor by (rule arg_cong [where f = "\<lambda>f. foldr f _ _"]) (auto simp: bit_simps fun_eq_iff)

lemma gmul_xor_right: "gmul a (b XOR b') = gmul a b XOR gmul a b'"
  unfolding gmul_def gsum_def foldr_xor by (rule arg_cong [where f = "\<lambda>f. foldr f _ _"]) (auto simp: xtime_pow_xor fun_eq_iff)

lemma xtime_foldr: "xtime (foldr (\<lambda>i acc. f i XOR acc) xs 0) = foldr (\<lambda>i acc. xtime (f i) XOR acc) xs 0"
  by (induction xs) (simp_all add: xtime_xor)

lemma gmul_xtime_right: "gmul a (xtime b) = xtime (gmul a b)"
  unfolding gmul_def gsum_def xtime_foldr
  by (rule arg_cong [where f = "\<lambda>f. foldr f _ _"]) (auto simp: fun_eq_iff funpow_swap1)

text \<open>Two linear maps agree when they agree on the eight powers of x.\<close>

lemma bit_term: "bit (if p then push_bit j 1 else (0 :: 8 word)) n \<longleftrightarrow> p \<and> n = j \<and> n < 8"
  by (auto simp: bit_simps)

lemma less_8: "j < (8 :: nat) \<longleftrightarrow> j \<in> {0, 1, 2, 3, 4, 5, 6, 7}"
  by auto

lemma bits_basis: "a = foldr (\<lambda>j acc. (if bit a j then push_bit j 1 else 0) XOR acc) [0..<8] (0 :: 8 word)"
proof (rule bit_eqI)
  fix n :: nat
  assume "possible_bit TYPE(8 word) n"
  then have n: "n < 8" by (auto simp: possible_bit_def)
  have "bit (foldr (\<lambda>j acc. (if bit a j then push_bit j 1 else 0) XOR acc) xs (0 :: 8 word)) n \<longleftrightarrow> bit a n \<and> n \<in> set xs"
    if "distinct xs" for xs
    using that n by (induction xs) (auto simp: bit_xor_iff bit_term)
  from this [of "[0..<8]"] n show "bit a n \<longleftrightarrow> bit (foldr (\<lambda>j acc. (if bit a j then push_bit j 1 else 0) XOR acc) [0..<8] (0 :: 8 word)) n"
    by simp
qed

lemma linear_foldr:
  assumes "\<And>a b. F (a XOR b) = F a XOR F b" "F 0 = (0 :: 8 word)"
  shows "F (foldr (\<lambda>j acc. (if p j then g j else 0) XOR acc) xs (0 :: 8 word)) = foldr (\<lambda>j acc. (if p j then F (g j) else 0) XOR acc) xs 0"
  by (induction xs) (simp_all add: assms)

lemma funpow_numeral: "(f ^^ numeral k) x = f ((f ^^ pred_numeral k) x)"
  by (simp add: numeral_eq_Suc)

lemma funpow_commute: "(f ^^ m) ((f ^^ n) x) = (f ^^ n) ((f ^^ m) x)"
  by (metis add.commute comp_apply funpow_add)

lemma basis_xtime: "j < 8 \<Longrightarrow> push_bit j (1 :: 8 word) = (xtime ^^ j) 1"
  unfolding less_8 by (elim insertE) (simp_all add: funpow_numeral xtime_def)

lemma linear_ext:
  fixes F G :: "8 word \<Rightarrow> 8 word"
  assumes F: "\<And>a b. F (a XOR b) = F a XOR F b" and G: "\<And>a b. G (a XOR b) = G a XOR G b"
    and eq: "\<And>j. j < 8 \<Longrightarrow> F ((xtime ^^ j) 1) = G ((xtime ^^ j) 1)"
  shows "F a = G a"
proof -
  have "F 0 = 0" "G 0 = 0"
    using F [of 0 0] G [of 0 0] by simp_all
  note lf = linear_foldr [OF F this(1)] and lg = linear_foldr [OF G this(2)]
  have "F a = foldr (\<lambda>j acc. (if bit a j then F (push_bit j 1) else 0) XOR acc) [0..<8] 0"
    by (subst bits_basis) (rule lf)
  also have "\<dots> = foldr (\<lambda>j acc. (if bit a j then G (push_bit j 1) else 0) XOR acc) [0..<8] 0"
    by (rule foldr_cong) (auto simp: eq basis_xtime simp del: push_bit_of_1)
  also have "\<dots> = G a"
    by (subst (9) bits_basis) (rule lg [symmetric])
  finally show ?thesis .
qed

lemma gmul_basis:
  assumes "j < 8"
  shows "gmul ((xtime ^^ j) 1) b = (xtime ^^ j) b"
proof -
  have "gmul (push_bit j 1) b = (xtime ^^ j) b"
    using assms unfolding less_8
    by (elim insertE) (simp_all add: gmul_def gsum_def upt_conv_Cons bit_simps funpow_numeral)
  then show ?thesis
    by (simp only: basis_xtime [OF assms])
qed

lemma xtime_8: "(xtime ^^ 8) b = b XOR xtime b XOR (xtime ^^ 3) b XOR (xtime ^^ 4) b"
proof (rule linear_ext [where a = b])
  fix j :: nat
  have "(xtime ^^ 8) 1 = 1 XOR (xtime ^^ 1) 1 XOR (xtime ^^ 3) 1 XOR (xtime ^^ 4) 1"
    by (simp add: funpow_numeral xtime_def)
  then have "(xtime ^^ j) ((xtime ^^ 8) 1) = (xtime ^^ j) 1 XOR (xtime ^^ j) ((xtime ^^ 1) 1)
      XOR (xtime ^^ j) ((xtime ^^ 3) 1) XOR (xtime ^^ j) ((xtime ^^ 4) 1)"
    by (simp only: xtime_pow_xor)
  then show "(xtime ^^ 8) ((xtime ^^ j) 1) = (xtime ^^ j) 1 XOR xtime ((xtime ^^ j) 1) XOR (xtime ^^ 3) ((xtime ^^ j) 1)
      XOR (xtime ^^ 4) ((xtime ^^ j) 1)"
    unfolding funpow_commute [where n = j] by (simp add: funpow_swap1)
qed (simp_all add: xtime_pow_xor xtime_xor ac_simps)

lemma gmul_xtime_left: "gmul (xtime a) b = xtime (gmul a b)"
proof (rule linear_ext [where a = a])
  fix j :: nat
  assume j: "j < 8"
  show "gmul (xtime ((xtime ^^ j) 1)) b = xtime (gmul ((xtime ^^ j) 1) b)"
  proof (cases "j = 7")
    case True
    have "gmul 0x1b b = b XOR xtime b XOR (xtime ^^ 3) b XOR (xtime ^^ 4) b"
      by (simp add: gmul_def gsum_def upt_conv_Cons funpow_numeral)
    moreover have "xtime ((xtime ^^ 7) 1) = 0x1b"
      by (simp add: funpow_numeral xtime_def)
    moreover have "(xtime ^^ 8) b = xtime ((xtime ^^ 7) b)"
      by (simp add: funpow_numeral)
    ultimately show ?thesis
      using xtime_8 [of b] gmul_basis [OF j] True by simp
  next
    case False
    with j show ?thesis
      using gmul_basis [OF j, of b] gmul_basis [of "Suc j" b] by simp
  qed
qed (simp_all add: xtime_xor gmul_xor_left)

lemma gmul_one_left [simp]: "gmul 1 b = b"
  using gmul_basis [of 0] by simp

lemma gmul_pow_left: "gmul ((xtime ^^ j) a) b = (xtime ^^ j) (gmul a b)"
  by (induction j) (simp_all add: gmul_xtime_left)

lemma gmul_pow_right: "gmul a ((xtime ^^ j) b) = (xtime ^^ j) (gmul a b)"
  by (induction j) (simp_all add: gmul_xtime_right)

lemma gmul_one_right [simp]: "gmul a 1 = a"
  by (rule linear_ext [where G = "\<lambda>a. a"]) (simp_all add: gmul_xor_left gmul_basis)

lemma gmul_commute: "gmul a b = gmul b a"
  by (rule linear_ext [where a = a]) (simp_all add: gmul_xor_left gmul_xor_right gmul_pow_left gmul_pow_right)

lemma gmul_assoc: "gmul (gmul a b) c = gmul a (gmul b c)"
  by (rule linear_ext [where a = a]) (simp_all add: gmul_xor_left gmul_basis gmul_pow_left)

section \<open>The tables hold the powers of 3\<close>

definition gen :: "8 word \<Rightarrow> 8 word" where
  "gen w = xtime w XOR w"

lemma gen_mul: "gmul (gen a) b = gen (gmul a b)"
  by (simp add: gen_def gmul_xor_left gmul_xtime_left)

lemma gen_pow_mul: "gmul ((gen ^^ i) 1) ((gen ^^ j) 1) = (gen ^^ (i + j)) 1"
  by (induction i) (simp_all add: gen_mul)

lemma times3_gen: "0 \<le> x \<Longrightarrow> x < 256 \<Longrightarrow> times3 x = uint (gen (word_of_int x))"
proof -
  have "list_all (\<lambda>x. times3 x = uint (gen (word_of_int x))) [0..255]"
    by code_simp
  then show "0 \<le> x \<Longrightarrow> x < 256 \<Longrightarrow> times3 x = uint (gen (word_of_int x))"
    by (simp add: list_all_iff)
qed

lemma exp_table_gen: "exp_table_from n (uint w) = map (\<lambda>i. uint ((gen ^^ i) w)) [0..<n]"
proof (induction n arbitrary: w)
  case (Suc n)
  have "times3 (uint w) = uint (gen w)"
    using times3_gen [of "uint w"] uint_lt2p [of w] by simp
  with Suc [of "gen w"] show ?case
    by (simp add: upt_conv_Cons map_Suc_upt [symmetric] funpow_swap1 del: upt_Suc)
qed simp

lemma exp_distinct: "distinct (exp_table_from 255 1)"
  by code_simp

lemma exp_255: "times3 (last (exp_table_from 255 1)) = 1"
  by code_simp

abbreviation pow3 :: "nat \<Rightarrow> 8 word" where
  "pow3 i \<equiv> (gen ^^ i) 1"

lemma exp_table: "exp_table_from 255 1 = map (\<lambda>i. uint (pow3 i)) [0..<255]"
  using exp_table_gen [of 255 1] by simp

lemma pow3_255: "pow3 255 = 1"
proof -
  have "last (exp_table_from 255 1) = uint (pow3 254)"
    by (simp add: exp_table last_map)
  then have "uint (gen (pow3 254)) = 1"
    using exp_255 times3_gen [of "uint (pow3 254)"] uint_lt2p [of "pow3 254"] by simp
  then have "gen (pow3 254) = 1"
    by (metis uint_1 word_uint_eq_iff)
  then show ?thesis
    by (simp add: funpow_numeral)
qed

lemma pow3_period: "pow3 (i + 255) = pow3 i"
  by (simp add: funpow_add pow3_255 del: funpow.simps)

lemma pow3_nonzero: "pow3 i \<noteq> 0"
proof
  assume z: "pow3 i = 0"
  have g0: "(gen ^^ n) 0 = 0" for n
    by (induction n) (simp_all add: gen_def)
  have "pow3 (k * 255) = 1" for k
    by (induction k) (simp_all add: pow3_period add.commute [of 255])
  moreover have "pow3 (i * 255) = (gen ^^ (i * 254)) (pow3 i)"
  proof -
    have "i * 255 = i * 254 + i" by simp
    then show ?thesis by (simp only: funpow_add comp_apply)
  qed
  ultimately show False
    using z g0 by simp
qed

lemma pow3_inj: "i < 255 \<Longrightarrow> j < 255 \<Longrightarrow> pow3 i = pow3 j \<Longrightarrow> i = j"
  using exp_distinct unfolding exp_table by (auto simp: distinct_map inj_on_def)

lemma pow3_surj:
  assumes "w \<noteq> 0"
  obtains i where "i < 255" "w = pow3 i"
proof -
  have "pow3 ` {0..<255} \<subseteq> UNIV - {0}"
    using pow3_nonzero by auto
  moreover have "card (pow3 ` {0..<255}) = 255"
    by (subst card_image) (auto simp: inj_on_def pow3_inj)
  moreover have "card (UNIV - {0 :: 8 word}) = 255"
    by (simp add: card_Diff_subset card_word)
  ultimately have "pow3 ` {0..<255} = UNIV - {0}"
    by (intro card_subset_eq) simp_all
  then have "w \<in> pow3 ` {0..<255}"
    using assms by blast
  then show thesis
    using that by auto
qed

lemma EXP_at: "n < 512 \<Longrightarrow> js_at EXP (int n) = Some (uint (pow3 n))"
proof -
  assume n: "n < 512"
  have "EXP ! n = uint (pow3 n)"
  proof (cases "n < 255")
    case True
    then show ?thesis by (simp add: EXP_def Let_def exp_table nth_append)
  next
    case ge: False
    show ?thesis
    proof (cases "n < 510")
      case True
      with ge show ?thesis
        using pow3_period [of "n - 255"] by (simp add: EXP_def Let_def exp_table nth_append)
    next
      case False
      with n have "n = 510 \<or> n = 511" by auto
      then show ?thesis
        using pow3_period [of 255] pow3_period [of 256] pow3_period [of 0] pow3_period [of 1]
        by (auto simp: EXP_def Let_def exp_table nth_append)
    qed
  qed
  moreover have "length EXP = 512"
    by (simp add: EXP_def Let_def exp_table)
  ultimately show ?thesis using n by simp
qed

lemma fold_update:
  "distinct (map f xs) \<Longrightarrow> \<forall>i \<in> set xs. f i < length l \<Longrightarrow>
   length (fold (\<lambda>i l. l[f i := g i]) xs l) = length l \<and>
   (\<forall>i \<in> set xs. fold (\<lambda>i l. l[f i := g i]) xs l ! f i = g i) \<and>
   (\<forall>k. k \<notin> f ` set xs \<longrightarrow> fold (\<lambda>i l. l[f i := g i]) xs l ! k = l ! k)"
  by (induction xs arbitrary: l) (auto simp: image_iff)

lemma LOG_at:
  assumes "i < 255"
  shows "js_at LOG (uint (pow3 i)) = Some (int i)"
proof -
  have f: "nat (EXP ! i) = unat (pow3 i)" if "i < 255" for i
    using EXP_at [of i] that by (simp add: js_at_def split: if_splits)
  have L: "LOG = fold (\<lambda>i l. l[unat (pow3 i) := int i]) [0..<255] (replicate 256 0)"
    unfolding LOG_def by (rule fold_cong) (auto simp: f)
  have "distinct (map (\<lambda>i. unat (pow3 i)) [0..<255])"
    by (auto simp: distinct_map inj_on_def word_unat_eq_iff [symmetric] intro: pow3_inj)
  moreover have "\<forall>i \<in> set [0..<255]. unat (pow3 i) < length (replicate 256 (0 :: int))"
    using unat_byte_less by simp
  ultimately have "length LOG = 256 \<and> LOG ! unat (pow3 i) = int i"
    using fold_update [of "\<lambda>i. unat (pow3 i)" "[0..<255]" "replicate 256 0" int] assms unfolding L by simp
  then show ?thesis
    using uint_lt2p [of "pow3 i"] by (simp add: js_at_def)
qed

section \<open>mul_gf and div are the field operations\<close>

lemma mul_gmul: "mul_gf (uint a) (uint b) = uint (gmul a b)"
proof (cases "a = 0 \<or> b = 0")
  case True
  then show ?thesis
    using gmul_xor_left [of 0 0 b] gmul_xor_right [of a 0 0] by (auto simp: mul_gf_def)
next
  case False
  obtain i j where i: "i < 255" "a = pow3 i" and j: "j < 255" "b = pow3 j"
    using False pow3_surj by metis
  have "js_at EXP (int i + int j) = Some (uint (pow3 (i + j)))"
    using EXP_at [of "i + j"] i j by simp
  with False i j LOG_at show ?thesis
    by (simp add: mul_gf_def gen_pow_mul uint_0_iff)
qed

lemma div_gmul:
  assumes "b \<noteq> 0"
  shows "\<exists>q. div_gf (uint a) (uint b) = Some (uint q) \<and> gmul q b = a"
proof (cases "a = 0")
  case True
  then show ?thesis
    using assms gmul_xor_left [of 0 0 b] by (intro exI [of _ 0]) (auto simp: div_gf_def uint_0_iff)
next
  case False
  obtain i j where i: "i < 255" "a = pow3 i" and j: "j < 255" "b = pow3 j"
    using False assms pow3_surj by metis
  have "js_at EXP (int i + 255 - int j) = Some (uint (pow3 (i + 255 - j)))"
    using EXP_at [of "i + 255 - j"] i j by (simp add: of_nat_diff)
  moreover have "gmul (pow3 (i + 255 - j)) b = a"
    using i j gen_pow_mul [of "i + 255 - j" j] pow3_period [of i] by simp
  ultimately show ?thesis
    using False assms i j LOG_at by (auto simp: div_gf_def uint_0_iff)
qed

lemma gmul_cancel:
  assumes "gmul a d = gmul b d" "d \<noteq> 0"
  shows "a = b"
proof -
  obtain q where "gmul q d = 1"
    using div_gmul [OF assms(2), of 1] by auto
  then show ?thesis
    using assms(1) by (metis gmul_assoc gmul_commute gmul_one_right)
qed

section \<open>Any two shares reconstruct, one share says nothing\<close>

lemma share_byte:
  fixes s r :: "8 word"
  assumes x: "1 \<le> x" "x \<le> 255"
  shows "s XOR word_of_int (mul_gf (uint r) x) = s XOR gmul r (word_of_int x)"
  using mul_gmul [of r "word_of_int x"] x by (simp add: unsigned_of_int take_bit_int_eq_self)

lemma xor_nonzero: "X \<noteq> Y \<Longrightarrow> X XOR Y \<noteq> (0 :: 8 word)"
proof
  assume "X \<noteq> Y" and z: "X XOR Y = 0"
  have "X = X XOR (X XOR Y)"
    using z by simp
  also have "\<dots> = Y"
    by (simp flip: xor.assoc)
  finally show False
    using \<open>X \<noteq> Y\<close> by simp
qed

lemma combine_byte:
  fixes s r X Y ca cb :: "8 word"
  assumes ne: "X \<noteq> Y" and ca: "gmul ca (X XOR Y) = Y" and cb: "gmul cb (X XOR Y) = X"
  shows "gmul (s XOR gmul r X) ca XOR gmul (s XOR gmul r Y) cb = s"
proof -
  let ?d = "X XOR Y"
  have d: "?d \<noteq> 0"
    by (rule xor_nonzero [OF ne])
  have "gmul (ca XOR cb) ?d = gmul 1 ?d"
    using ca cb by (simp add: gmul_xor_left ac_simps)
  then have one: "ca XOR cb = 1"
    by (rule gmul_cancel [OF _ d])
  have "gmul (gmul X ca XOR gmul Y cb) ?d = gmul 0 ?d"
    using ca cb gmul_commute [of X Y] gmul_xor_left [of 0 0 ?d] by (simp add: gmul_xor_left gmul_assoc)
  then have zero: "gmul X ca XOR gmul Y cb = 0"
    by (rule gmul_cancel [OF _ d])
  have "gmul (s XOR gmul r X) ca XOR gmul (s XOR gmul r Y) cb
      = gmul s (ca XOR cb) XOR gmul r (gmul X ca XOR gmul Y cb)"
    by (simp add: gmul_xor_left gmul_xor_right gmul_assoc ac_simps)
  also have "\<dots> = s"
    using gmul_xor_right [of r 0 0] by (simp add: one zero)
  finally show ?thesis .
qed

lemma split_shares:
  assumes "shamirSplit r secret n = Some shares" "sh \<in> set shares" "length r = length secret"
  shows "1 \<le> sh_x sh \<and> sh_x sh \<le> n \<and> n \<le> 255
    \<and> sh_data sh = map2 (\<lambda>s k. s XOR gmul k (word_of_int (sh_x sh))) secret r"
proof -
  have n: "2 \<le> n" "n \<le> 255" and sh: "shares = map (\<lambda>x. \<lparr>sh_x = x, sh_data = map2 (\<lambda>s k. s XOR word_of_int (mul_gf (uint k) x)) secret r\<rparr>) [1..n]"
    using assms(1) by (auto simp: shamirSplit_def split: if_splits)
  obtain x where x: "1 \<le> x" "x \<le> n" "sh = \<lparr>sh_x = x, sh_data = map2 (\<lambda>s k. s XOR word_of_int (mul_gf (uint k) x)) secret r\<rparr>"
    using assms(2) by (auto simp: sh)
  have "map2 (\<lambda>s k. s XOR word_of_int (mul_gf (uint k) x)) secret r = map2 (\<lambda>s k. s XOR gmul k (word_of_int x)) secret r"
    using share_byte [of x] x n by simp
  with x n show ?thesis by simp
qed

lemma byte_code: "1 \<le> x \<Longrightarrow> x \<le> 255 \<Longrightarrow> uint (word_of_int x :: 8 word) = x"
  by (simp add: unsigned_of_int take_bit_int_eq_self)

lemma combine_split:
  assumes "shamirSplit r secret n = Some shares" "length r = length secret"
    "a \<in> set shares" "b \<in> set shares" "sh_x a \<noteq> sh_x b"
  shows "shamirCombine a b = Some secret"
proof -
  note A = split_shares [OF assms(1,3,2)] and B = split_shares [OF assms(1,4,2)]
  define X Y where "X = (word_of_int (sh_x a) :: 8 word)" and "Y = (word_of_int (sh_x b) :: 8 word)"
  have ux: "uint X = sh_x a" "uint Y = sh_x b"
    using A B byte_code by (auto simp: X_def Y_def)
  then have ne: "X \<noteq> Y" using assms(5) by auto
  then have d: "X XOR Y \<noteq> 0" by (rule xor_nonzero)
  have ud: "sh_x a XOR sh_x b = uint (X XOR Y)"
    by (simp add: unsigned_xor_eq ux)
  obtain ca cb where ca: "div_gf (sh_x b) (sh_x a XOR sh_x b) = Some (uint ca)" "gmul ca (X XOR Y) = Y"
    and cb: "div_gf (sh_x a) (sh_x a XOR sh_x b) = Some (uint cb)" "gmul cb (X XOR Y) = X"
    using div_gmul [OF d, of Y] div_gmul [OF d, of X] by (auto simp: ud ux)
  have da: "sh_data a = map2 (\<lambda>s k. s XOR gmul k X) secret r" and db: "sh_data b = map2 (\<lambda>s k. s XOR gmul k Y) secret r"
    using A B by (simp_all add: X_def Y_def)
  have "map2 (\<lambda>p q. word_of_int (mul_gf (uint p) (uint ca) XOR mul_gf (uint q) (uint cb))) (sh_data a) (sh_data b) = secret"
  proof (rule nth_equalityI)
    fix i
    assume "i < length (map2 (\<lambda>p q. word_of_int (mul_gf (uint p) (uint ca) XOR mul_gf (uint q) (uint cb))) (sh_data a) (sh_data b))"
    then have i: "i < length secret" "i < length r"
      using assms(2) by (simp_all add: da db)
    show "map2 (\<lambda>p q. word_of_int (mul_gf (uint p) (uint ca) XOR mul_gf (uint q) (uint cb))) (sh_data a) (sh_data b) ! i = secret ! i"
      using i combine_byte [OF ne ca(2) cb(2), of "secret ! i" "r ! i"]
      by (simp add: da db mul_gmul flip: unsigned_xor_eq)
  qed (use assms(2) in \<open>simp add: da db\<close>)
  with assms(2,5) ca(1) cb(1) show ?thesis
    by (simp add: shamirCombine_def Let_def da db)
qed

text \<open>For every share and every candidate secret of its length exactly one choice of random bytes explains it.\<close>

lemma share_explained_byte: "x \<noteq> 0 \<Longrightarrow> \<exists>!r. s XOR gmul r x = (y :: 8 word)"
proof -
  assume x: "x \<noteq> 0"
  obtain q where q: "gmul q x = s XOR y"
    using div_gmul [OF x, of "s XOR y"] by blast
  show ?thesis
  proof (rule ex1I [of _ q])
    show "s XOR gmul q x = y"
      by (simp add: q flip: xor.assoc)
  next
    fix r
    assume "s XOR gmul r x = y"
    then have "gmul r x = s XOR y"
      by (auto simp flip: xor.assoc)
    with q show "r = q"
      using gmul_cancel [OF _ x] by simp
  qed
qed

lemma share_explained:
  assumes "x \<noteq> 0" "length ys = length secret"
  shows "\<exists>!r. length r = length secret \<and> map2 (\<lambda>s k. s XOR gmul k x) secret r = ys"
  using assms(2)
proof (induction secret arbitrary: ys)
  case (Cons s secret)
  obtain y ys' where ys: "ys = y # ys'"
    using Cons.prems by (cases ys) auto
  obtain k where k: "s XOR gmul k x = y" "\<And>r. s XOR gmul r x = y \<Longrightarrow> r = k"
    using share_explained_byte [OF assms(1), of s y] by blast
  have "\<exists>!r. length r = length secret \<and> map2 (\<lambda>s k. s XOR gmul k x) secret r = ys'"
    using Cons.IH Cons.prems ys by simp
  then obtain r where r: "length r = length secret" "map2 (\<lambda>s k. s XOR gmul k x) secret r = ys'"
    "\<And>q. length q = length secret \<Longrightarrow> map2 (\<lambda>s k. s XOR gmul k x) secret q = ys' \<Longrightarrow> q = r"
    by metis
  show ?case
  proof (rule ex1I [of _ "k # r"])
    show "length (k # r) = length (s # secret) \<and> map2 (\<lambda>s k. s XOR gmul k x) (s # secret) (k # r) = ys"
      using k(1) r(1,2) ys by simp
  next
    fix q
    assume q: "length q = length (s # secret) \<and> map2 (\<lambda>s k. s XOR gmul k x) (s # secret) q = ys"
    then obtain q1 q2 where "q = q1 # q2" by (cases q) auto
    with q k(2) r(3) ys show "q = k # r" by simp
  qed
qed simp

end
