(* ===== verification/Custody_Policy.thy ===== *)
theory Custody_Policy
  imports Provider_Ledger
begin

text \<open>
  Which holders count, when to repair and what to give up: \<open>src/engine/content/custody.ts\<close>. Repair
  counts distinct failure domains, eviction gives up the least valuable bytes first, and the demand of
  a file is the number of reads in a sliding window, kept in a ring of six counters. The texts of the
  log lines are left out.
\<close>

section \<open>Replica targets\<close>

definition REDUNDANCY_TARGET :: int where "REDUNDANCY_TARGET = 10"
definition MIN_REPLICAS :: int where "MIN_REPLICAS = 2"
definition MAX_REPLICA_TARGET :: int where "MAX_REPLICA_TARGET = 30"
definition POPULARITY_FLOOR :: int where "POPULARITY_FLOOR = 10"
definition DEMAND_BUCKETS :: int where "DEMAND_BUCKETS = 6"
definition RELEASE_HYSTERESIS :: int where "RELEASE_HYSTERESIS = 1"
definition FAILURES_BEFORE_EVICTION :: int where "FAILURES_BEFORE_EVICTION = 2"

definition demandWindowMs :: "storage_timing \<Rightarrow> real" where
  "demandWindowMs T = real_of_int (HEARTBEAT_INTERVAL_MS T) / 4"

definition liveHolders :: "string list \<Rightarrow> (string \<Rightarrow> bool) \<Rightarrow> string list" where
  "liveHolders holders alive = filter alive holders"

definition replicaTarget :: "int \<Rightarrow> int" where
  "replicaTarget readsPerWindow =
     (if \<not> readsPerWindow > 0 then REDUNDANCY_TARGET
      else min MAX_REPLICA_TARGET (REDUNDANCY_TARGET + readsPerWindow div POPULARITY_FLOOR))"

definition mayReleasePublisherCopy :: "int \<Rightarrow> bool" where
  "mayReleasePublisherCopy live \<longleftrightarrow> live \<ge> MIN_REPLICAS"

section \<open>Repair\<close>

record repair_plan =
  rp_drop :: "string list"
  rp_add :: "string list"
  rp_live :: int
  rp_shortfall :: int
  rp_release :: "string list"

text \<open>The loop over the candidates: \<open>held\<close> and \<open>claimed\<close> are the two sets it extends.\<close>

fun add_loop :: "(string \<Rightarrow> string) \<Rightarrow> int \<Rightarrow> string list \<Rightarrow> string list \<Rightarrow> string list \<Rightarrow> string list \<Rightarrow> string list" where
  "add_loop domainOf need held claimed acc [] = acc"
| "add_loop domainOf need held claimed acc (c # cs) =
     (if int (length acc) \<ge> need then acc
      else if c \<in> set held then add_loop domainOf need held claimed acc cs
      else if domainOf c \<in> set claimed then add_loop domainOf need held claimed acc cs
      else add_loop domainOf need (c # held) (domainOf c # claimed) (acc @ [c]) cs)"

definition planRepair :: "string list \<Rightarrow> (string \<Rightarrow> bool) \<Rightarrow> string list \<Rightarrow> int \<Rightarrow> (string \<Rightarrow> string) \<Rightarrow> repair_plan" where
  "planRepair holders alive candidates target domainOf =
     (let live = filter alive holders;
          liveDomains = remdups (map domainOf live);
          size = int (length liveDomains);
          need = max 0 (target - size);
          add = add_loop domainOf need holders liveDomains [] candidates;
          surplus = size - max REDUNDANCY_TARGET target
      in \<lparr>rp_drop = filter (\<lambda>p. \<not> alive p) holders, rp_add = add, rp_live = size,
          rp_shortfall = need - int (length add),
          rp_release = (if surplus > RELEASE_HYSTERESIS
            then drop (length live - nat (surplus - RELEASE_HYSTERESIS)) live else [])\<rparr>)"

section \<open>Rejoin and eviction\<close>

record rejoin_plan =
  rj_keep :: "string list"
  rj_discard :: "string list"
  rj_lapsed :: bool

definition planRejoin :: "storage_timing \<Rightarrow> int \<Rightarrow> string list \<Rightarrow> string set option \<Rightarrow> rejoin_plan" where
  "planRejoin T offlineMs held released =
     (let gone = (\<lambda>cid. case released of None \<Rightarrow> False | Some R \<Rightarrow> cid \<in> R)
      in \<lparr>rj_keep = filter (\<lambda>cid. \<not> gone cid) held, rj_discard = filter gone held,
          rj_lapsed = (offlineMs \<ge> MAX_OFFLINE_MS T)\<rparr>)"

record held_copy =
  hc_cid :: string
  hc_bytes :: int
  hc_leased :: bool
  hc_releasedByOwner :: bool
  hc_lastTouched :: int

definition rank :: "held_copy \<Rightarrow> int" where
  "rank h = (if hc_releasedByOwner h then 0 else if hc_leased h then 2 else 1)"

text \<open>\<open>sort\<close> is stable, so sorting by the second key and then by the first is the comparator of the source.\<close>

definition eviction_order :: "held_copy list \<Rightarrow> held_copy list" where
  "eviction_order held = sort_key rank (sort_key hc_lastTouched held)"

fun evict_loop :: "int \<Rightarrow> int \<Rightarrow> held_copy list \<Rightarrow> held_copy list \<times> int" where
  "evict_loop over freed [] = ([], freed)"
| "evict_loop over freed (h # hs) =
     (if freed \<ge> over then ([], freed)
      else (case evict_loop over (freed + hc_bytes h) hs of (ev, f) \<Rightarrow> (h # ev, f)))"

definition planEviction :: "int \<Rightarrow> int \<Rightarrow> held_copy list \<Rightarrow> string list \<times> int" where
  "planEviction usedBytes capacityBytes held =
     (if usedBytes - capacityBytes \<le> 0 then ([], 0)
      else (case evict_loop (usedBytes - capacityBytes) 0 (eviction_order held) of (ev, f) \<Rightarrow> (map hc_cid ev, f)))"

section \<open>Polling\<close>

definition pollIntervalMs :: "real \<Rightarrow> real \<Rightarrow> real \<Rightarrow> real \<Rightarrow> real \<Rightarrow> real \<Rightarrow> int" where
  "pollIntervalMs baseMs population refPopulation maxMs jitterFrac rand =
     (let scale = max 1 (sqrt (max 1 population / max 1 refPopulation));
          scaled = min maxMs (baseMs * scale);
          jitter = scaled * jitterFrac * (rand * 2 - 1)
      in max 1 (js_round (scaled + jitter)))"

section \<open>Signals\<close>

record demand_ring =
  dr_buckets :: "int list"
  dr_startBucket :: int

record custody_signals =
  cg_demand :: "(string, demand_ring) jsmap"
  cg_failures :: "(string, int) jsmap"
  cg_latency :: "(string, real) jsmap"

definition new_signals :: custody_signals where
  "new_signals = \<lparr>cg_demand = [], cg_failures = [], cg_latency = []\<rparr>"

definition bucketIndex :: "storage_timing \<Rightarrow> int \<Rightarrow> int" where
  "bucketIndex T now = \<lfloor>real_of_int now / (demandWindowMs T / real_of_int DEMAND_BUCKETS)\<rfloor>"

text \<open>The remainder takes the sign of the dividend; a negative index is not an element of the array.\<close>

definition js_rem :: "int \<Rightarrow> int \<Rightarrow> int" where
  "js_rem x m = (if x < 0 then - ((- x) mod m) else x mod m)"

definition set_bucket :: "int \<Rightarrow> (int \<Rightarrow> int) \<Rightarrow> int list \<Rightarrow> int list" where
  "set_bucket i f bs = (if 0 \<le> i \<and> nat i < length bs then bs[nat i := f (bs ! nat i)] else bs)"

definition roll :: "int \<Rightarrow> demand_ring \<Rightarrow> demand_ring" where
  "roll idx e = (let elapsed = idx - dr_startBucket e in
     if elapsed \<le> 0 then e
     else if elapsed \<ge> DEMAND_BUCKETS then \<lparr>dr_buckets = map (\<lambda>_. 0) (dr_buckets e), dr_startBucket = idx\<rparr>
     else \<lparr>dr_buckets = fold (\<lambda>k. set_bucket (js_rem (dr_startBucket e + k) DEMAND_BUCKETS) (\<lambda>_. 0)) [1..elapsed] (dr_buckets e),
           dr_startBucket = idx\<rparr>)"

text \<open>The entry is mutated in place.\<close>

definition sig_advance :: "storage_timing \<Rightarrow> string \<Rightarrow> int \<Rightarrow> custody_signals \<Rightarrow> demand_ring option \<times> custody_signals" where
  "sig_advance T cid now s = (case mget (cg_demand s) cid of
     None \<Rightarrow> (None, s)
   | Some e \<Rightarrow> (let e' = roll (bucketIndex T now) e in (Some e', s\<lparr>cg_demand := mset_at cid e' (cg_demand s)\<rparr>)))"

definition signal_key :: "string \<Rightarrow> string \<Rightarrow> string" where
  "signal_key cid pub = cid @ NUL @ pub"

definition recordRead :: "storage_timing \<Rightarrow> string \<Rightarrow> int \<Rightarrow> real option \<Rightarrow> custody_signals \<Rightarrow> custody_signals" where
  "recordRead T cid now serviceMs s =
     (let idx = bucketIndex T now;
          e = (case fst (sig_advance T cid now s) of Some e \<Rightarrow> e
               | None \<Rightarrow> \<lparr>dr_buckets = replicate (nat DEMAND_BUCKETS) 0, dr_startBucket = idx\<rparr>);
          e' = e\<lparr>dr_buckets := set_bucket (js_rem idx DEMAND_BUCKETS) (\<lambda>n. n + 1) (dr_buckets e)\<rparr>
      in s\<lparr>cg_demand := mset_at cid e' (cg_demand s),
           cg_latency := (case serviceMs of
               None \<Rightarrow> cg_latency s
             | Some w \<Rightarrow> if w > 0
                 then mset_at cid (case mget (cg_latency s) cid of None \<Rightarrow> w | Some prev \<Rightarrow> prev * 7 / 10 + w * 3 / 10) (cg_latency s)
                 else cg_latency s)\<rparr>)"

definition reads :: "storage_timing \<Rightarrow> string \<Rightarrow> int \<Rightarrow> custody_signals \<Rightarrow> int \<times> custody_signals" where
  "reads T cid now s = (case sig_advance T cid now s of
     (None, s') \<Rightarrow> (0, s')
   | (Some e, s') \<Rightarrow> (sum_list (dr_buckets e), s'))"

definition concurrentReads :: "storage_timing \<Rightarrow> string \<Rightarrow> int \<Rightarrow> custody_signals \<Rightarrow> real \<times> custody_signals" where
  "concurrentReads T cid now s = (case reads T cid now s of (n, s') \<Rightarrow>
     (case mget (cg_latency s') cid of
        None \<Rightarrow> (0, s')
      | Some w \<Rightarrow> if n \<le> 0 \<or> w \<le> 0 then (0, s') else (real_of_int n / demandWindowMs T * w, s')))"

definition targetFor :: "storage_timing \<Rightarrow> string \<Rightarrow> int \<Rightarrow> custody_signals \<Rightarrow> int \<times> custody_signals" where
  "targetFor T cid now s = (case reads T cid now s of (n, s') \<Rightarrow> (replicaTarget n, s'))"

definition sweep_one :: "storage_timing \<Rightarrow> int \<Rightarrow> string \<Rightarrow> int \<times> custody_signals \<Rightarrow> int \<times> custody_signals" where
  "sweep_one T now cid = (\<lambda>(removed, s). case reads T cid now s of (n, s') \<Rightarrow>
     if n = 0 then (removed + 1, s'\<lparr>cg_demand := mdel cid (cg_demand s'), cg_latency := mdel cid (cg_latency s')\<rparr>)
     else (removed, s'))"

definition sweepDemand :: "storage_timing \<Rightarrow> int \<Rightarrow> custody_signals \<Rightarrow> int \<times> custody_signals" where
  "sweepDemand T now s = fold (sweep_one T now) (mkeys (cg_demand s)) (0, s)"

definition recordSuccess :: "string \<Rightarrow> string \<Rightarrow> custody_signals \<Rightarrow> custody_signals" where
  "recordSuccess cid pub s = s\<lparr>cg_failures := mdel (signal_key cid pub) (cg_failures s)\<rparr>"

definition recordFailure :: "string \<Rightarrow> string \<Rightarrow> custody_signals \<Rightarrow> int \<times> custody_signals" where
  "recordFailure cid pub s =
     (let k = signal_key cid pub; n = nvl (mget (cg_failures s) k) 0 + 1
      in (n, s\<lparr>cg_failures := mset_at k n (cg_failures s)\<rparr>))"

definition shouldEvict :: "string \<Rightarrow> string \<Rightarrow> custody_signals \<Rightarrow> bool" where
  "shouldEvict cid pub s \<longleftrightarrow> nvl (mget (cg_failures s) (signal_key cid pub)) 0 \<ge> FAILURES_BEFORE_EVICTION"

definition forget :: "string \<Rightarrow> custody_signals \<Rightarrow> custody_signals" where
  "forget cid s = \<lparr>cg_demand = mdel cid (cg_demand s),
     cg_failures = filter (\<lambda>(k, n). \<not> prefix (cid @ NUL) k) (cg_failures s),
     cg_latency = mdel cid (cg_latency s)\<rparr>"

definition signals_clear :: "custody_signals \<Rightarrow> custody_signals" where
  "signals_clear s = s\<lparr>cg_demand := [], cg_latency := [], cg_failures := []\<rparr>"

section \<open>Repair reaches the target with independent copies\<close>

lemma replicaTarget_range: "REDUNDANCY_TARGET \<le> replicaTarget n \<and> replicaTarget n \<le> MAX_REPLICA_TARGET"
  by (auto simp: replicaTarget_def REDUNDANCY_TARGET_def MAX_REPLICA_TARGET_def POPULARITY_FLOOR_def)

lemma add_loop_spec:
  assumes "int (length acc) \<le> need"
  shows "\<exists>xs. add_loop domainOf need held claimed acc cs = acc @ xs
    \<and> set xs \<subseteq> set cs - set held \<and> distinct (map domainOf xs) \<and> domainOf ` set xs \<inter> set claimed = {}
    \<and> int (length (acc @ xs)) \<le> need
    \<and> (int (length (acc @ xs)) < need \<longrightarrow> (\<forall>c \<in> set cs. c \<in> set held \<or> c \<in> set xs \<or> domainOf c \<in> set claimed \<union> domainOf ` set xs))"
  using assms
proof (induction cs arbitrary: held claimed acc)
  case (Cons c cs)
  show ?case
  proof (cases "int (length acc) \<ge> need \<or> c \<in> set held \<or> domainOf c \<in> set claimed")
    case True
    show ?thesis
    proof (cases "int (length acc) \<ge> need")
      case True
      then show ?thesis using Cons.prems by (intro exI [of _ "[]"]) auto
    next
      case False
      with True Cons.IH [OF Cons.prems, of held claimed] show ?thesis by auto
    qed
  next
    case False
    then have "int (length (acc @ [c])) \<le> need" by simp
    from Cons.IH [OF this, of "c # held" "domainOf c # claimed"] obtain xs where
      xs: "add_loop domainOf need (c # held) (domainOf c # claimed) (acc @ [c]) cs = acc @ c # xs"
      "set xs \<subseteq> set cs - set (c # held)" "distinct (map domainOf xs)" "domainOf ` set xs \<inter> set (domainOf c # claimed) = {}"
      "int (length (acc @ c # xs)) \<le> need"
      "int (length (acc @ c # xs)) < need \<longrightarrow> (\<forall>d \<in> set cs. d \<in> set (c # held) \<or> d \<in> set xs
         \<or> domainOf d \<in> set (domainOf c # claimed) \<union> domainOf ` set xs)"
      by auto
    show ?thesis
    proof (intro exI [of _ "c # xs"] conjI)
      show "add_loop domainOf need held claimed acc (c # cs) = acc @ c # xs"
        using False xs(1) by simp
    qed (use False xs(2-6) in auto)
  qed
qed (auto intro!: exI [of _ "[]"])

definition domains :: "(string \<Rightarrow> string) \<Rightarrow> string list \<Rightarrow> string set" where
  "domains domainOf ps = domainOf ` set ps"

lemma domains_released:
  "int (card (domains f ps)) - int n \<le> int (card (domains f (take (length ps - n) ps)))"
proof -
  have "domains f ps = domains f (take (length ps - n) ps) \<union> domains f (drop (length ps - n) ps)"
    by (metis append_take_drop_id domains_def image_Un set_append)
  then have "card (domains f ps) \<le> card (domains f (take (length ps - n) ps)) + card (domains f (drop (length ps - n) ps))"
    by (metis card_Un_le)
  also have "card (domains f (drop (length ps - n) ps)) \<le> n"
    unfolding domains_def using card_image_le [of "set (drop (length ps - n) ps)" f] card_length [of "drop (length ps - n) ps"] by simp
  finally show ?thesis by simp
qed

lemma planRepair_spec:
  assumes "planRepair holders alive candidates target domainOf = R" "live = filter alive holders"
  shows "rp_live R = int (card (domains domainOf live))"
    "rp_drop R = filter (\<lambda>p. \<not> alive p) holders"
    "set (rp_add R) \<subseteq> set candidates - set holders"
    "card (domains domainOf (live @ rp_add R)) = card (domains domainOf live) + length (rp_add R)"
    "rp_shortfall R = max 0 (target - rp_live R) - int (length (rp_add R))" "0 \<le> rp_shortfall R"
    "0 < rp_shortfall R \<Longrightarrow> c \<in> set candidates \<Longrightarrow> c \<in> set holders \<or> domainOf c \<in> domains domainOf (live @ rp_add R)"
    "\<exists>kept. live = kept @ rp_release R
       \<and> (rp_release R \<noteq> [] \<longrightarrow> max REDUNDANCY_TARGET target < int (card (domains domainOf kept)))"
proof -
  let ?D = "remdups (map domainOf live)"
  let ?need = "max 0 (target - int (length ?D))"
  have D: "set ?D = domains domainOf live" "length ?D = card (domains domainOf live)"
    by (simp_all add: domains_def length_remdups_card_conv)
  obtain xs where xs: "rp_add R = xs" "set xs \<subseteq> set candidates - set holders" "distinct (map domainOf xs)"
    "domainOf ` set xs \<inter> set ?D = {}" "int (length xs) \<le> ?need"
    "int (length xs) < ?need \<longrightarrow> (\<forall>c \<in> set candidates. c \<in> set holders \<or> c \<in> set xs \<or> domainOf c \<in> set ?D \<union> domainOf ` set xs)"
    using add_loop_spec [of "[]" ?need domainOf holders ?D candidates] assms by (auto simp: planRepair_def Let_def)
  show live: "rp_live R = int (card (domains domainOf live))" "rp_drop R = filter (\<lambda>p. \<not> alive p) holders"
    "set (rp_add R) \<subseteq> set candidates - set holders"
    using assms xs(1,2) D by (auto simp: planRepair_def Let_def)
  have "card (domainOf ` set xs) = length xs"
    using xs(3) by (metis distinct_card length_map list.set_map)
  then show "card (domains domainOf (live @ rp_add R)) = card (domains domainOf live) + length (rp_add R)"
    using xs(1,4) D(1) by (simp add: domains_def image_Un card_Un_disjoint inf_commute)
  show sf: "rp_shortfall R = max 0 (target - rp_live R) - int (length (rp_add R))"
    using assms by (auto simp: planRepair_def Let_def)
  then show "0 \<le> rp_shortfall R"
    using xs(1,5) live(1) D(2) by simp
  show "0 < rp_shortfall R \<Longrightarrow> c \<in> set candidates \<Longrightarrow> c \<in> set holders \<or> domainOf c \<in> domains domainOf (live @ rp_add R)"
    using xs(1,6) sf live(1) D by (auto simp: domains_def image_Un)
  let ?s = "int (length ?D) - max REDUNDANCY_TARGET target"
  show "\<exists>kept. live = kept @ rp_release R
       \<and> (rp_release R \<noteq> [] \<longrightarrow> max REDUNDANCY_TARGET target < int (card (domains domainOf kept)))"
  proof (cases "?s > RELEASE_HYSTERESIS")
    case False
    then have "rp_release R = []"
      using assms by (auto simp: planRepair_def Let_def)
    then show ?thesis by simp
  next
    case True
    let ?n = "nat (?s - RELEASE_HYSTERESIS)"
    have "rp_release R = drop (length live - ?n) live"
      using assms True by (auto simp: planRepair_def Let_def)
    moreover have "max REDUNDANCY_TARGET target < int (card (domains domainOf (take (length live - ?n) live)))"
    proof -
      have "int ?n = ?s - 1"
        using True unfolding RELEASE_HYSTERESIS_def by linarith
      then show ?thesis
        using domains_released [of domainOf live ?n] D(2) by linarith
    qed
    ultimately show ?thesis
      by (intro exI [of _ "take (length live - ?n) live"]) simp
  qed
qed

section \<open>Eviction gives up just enough, the least valuable first\<close>

lemma evict_loop_spec:
  "evict_loop over freed hs = (ev, f) \<Longrightarrow> prefix ev hs \<and> f = freed + (\<Sum>h\<leftarrow>ev. hc_bytes h)
    \<and> (over \<le> f \<or> ev = hs) \<and> (ev \<noteq> [] \<longrightarrow> f - hc_bytes (last ev) < over)"
proof (induction over freed hs arbitrary: ev f rule: evict_loop.induct)
  case (2 over freed h hs)
  show ?case
  proof (cases "freed \<ge> over")
    case False
    obtain ev' where e: "evict_loop over (freed + hc_bytes h) hs = (ev', f)" "ev = h # ev'"
      using 2(2) False by (auto split: prod.splits)
    note ih = 2(1) [OF False e(1)]
    have "f - hc_bytes (last ev) < over"
      using ih e(2) False by (cases "ev' = []") auto
    with ih e(2) show ?thesis by auto
  qed (use 2(2) in auto)
qed auto

definition value_le :: "held_copy \<Rightarrow> held_copy \<Rightarrow> bool" where
  "value_le a b \<longleftrightarrow> rank a < rank b \<or> rank a = rank b \<and> hc_lastTouched a \<le> hc_lastTouched b"

lemma eviction_order_sorted: "mset (eviction_order hs) = mset hs \<and> sorted_wrt value_le (eviction_order hs)"
proof -
  let ?xs = "sort_key hc_lastTouched hs"
  have "sorted_wrt value_le (sort_key rank xs)" if "sorted_wrt (\<lambda>a b. hc_lastTouched a \<le> hc_lastTouched b) xs" for xs
    using that
  proof (induction xs)
    case (Cons x xs)
    have ins: "sorted_wrt value_le (insort_key rank x ys)"
      if "sorted_wrt value_le ys" "\<forall>y \<in> set ys. hc_lastTouched x \<le> hc_lastTouched y" for ys
      using that by (induction ys) (auto simp: value_le_def set_insort_key)
    from Cons show ?case by (auto intro: ins)
  qed simp
  moreover have "sorted_wrt (\<lambda>a b. hc_lastTouched a \<le> hc_lastTouched b) ?xs"
    using sorted_sort_key [of hc_lastTouched hs] by (simp add: sorted_map)
  ultimately show ?thesis
    by (simp add: eviction_order_def)
qed

lemma planEviction_spec:
  assumes "planEviction used capacity held = (gone, freed)" "capacity < used"
  obtains ev kept where "gone = map hc_cid ev" "freed = (\<Sum>h\<leftarrow>ev. hc_bytes h)" "mset held = mset (ev @ kept)"
    "used - freed \<le> capacity \<or> kept = []" "ev \<noteq> [] \<Longrightarrow> capacity < used - (freed - hc_bytes (last ev))"
    "\<And>a b. a \<in> set ev \<Longrightarrow> b \<in> set kept \<Longrightarrow> value_le a b"
proof -
  obtain ev where e: "evict_loop (used - capacity) 0 (eviction_order held) = (ev, freed)" "gone = map hc_cid ev"
    using assms by (auto simp: planEviction_def split: prod.splits)
  note s = evict_loop_spec [OF e(1)]
  then obtain kept where k: "eviction_order held = ev @ kept"
    by (auto elim: prefixE)
  show thesis
  proof (rule that [OF e(2)])
    show "mset held = mset (ev @ kept)"
      using eviction_order_sorted [of held] k by simp
    show "\<And>a b. a \<in> set ev \<Longrightarrow> b \<in> set kept \<Longrightarrow> value_le a b"
      using eviction_order_sorted [of held] k by (auto simp: sorted_wrt_append)
  qed (use s k in auto)
qed

section \<open>The demand of a file is a count over a window\<close>

lemma roll_later: "roll idx e = e \<or> dr_startBucket e < idx \<and> dr_startBucket (roll idx e) = idx"
  by (auto simp: roll_def Let_def)

text \<open>
  \<open>window_ok n idx e\<close>: the counters of the ring hold the counts \<open>n b\<close> of the last six buckets \<open>b\<close>.
\<close>

definition window_ok :: "(int \<Rightarrow> int) \<Rightarrow> demand_ring \<Rightarrow> bool" where
  "window_ok n e \<longleftrightarrow> length (dr_buckets e) = 6 \<and> 0 \<le> dr_startBucket e
     \<and> (\<forall>b. dr_startBucket e - 6 < b \<and> b \<le> dr_startBucket e \<longrightarrow> dr_buckets e ! nat (b mod 6) = n b)
     \<and> (\<forall>b > dr_startBucket e. n b = 0)"

lemma set_bucket_length [simp]: "length (set_bucket i f bs) = length bs"
  by (simp add: set_bucket_def)

lemma clear_buckets:
  assumes "length bs = 6" "0 \<le> s" "0 \<le> m" "m < 6"
  shows "length (fold (\<lambda>k. set_bucket (js_rem (s + k) 6) (\<lambda>_. 0)) [1..m] bs) = 6
    \<and> (\<forall>b. s + m - 6 < b \<and> b \<le> s + m \<longrightarrow>
        fold (\<lambda>k. set_bucket (js_rem (s + k) 6) (\<lambda>_. 0)) [1..m] bs ! nat (b mod 6)
          = (if s < b then 0 else bs ! nat (b mod 6)))"
  using assms(3,4)
proof (induction "nat m" arbitrary: m)
  case 0
  then have "m = 0" by simp
  then show ?case using assms by auto
next
  case (Suc k)
  let ?F = "\<lambda>m. fold (\<lambda>k. set_bucket (js_rem (s + k) 6) (\<lambda>_. 0)) [1..m] bs"
  have m: "1 \<le> m" using Suc.hyps(2) by simp
  have ih: "length (?F (m - 1)) = 6 \<and> (\<forall>b. s + (m - 1) - 6 < b \<and> b \<le> s + (m - 1) \<longrightarrow>
      ?F (m - 1) ! nat (b mod 6) = (if s < b then 0 else bs ! nat (b mod 6)))"
    using Suc.hyps(1) [of "m - 1"] Suc.hyps(2) Suc.prems m by simp
  have st: "?F m = (?F (m - 1))[nat ((s + m) mod 6) := 0]"
  proof -
    have "[1..m] = [1..m - 1] @ [m]"
      using upto_rec2 [of 1 m] m by simp
    moreover have "nat ((s + m) mod 6) < 6" "js_rem (s + m) 6 = (s + m) mod 6"
      using assms(2) m by (simp_all add: nat_less_iff js_rem_def)
    ultimately show ?thesis
      using ih by (simp add: set_bucket_def [of "(s + m) mod 6"])
  qed
  have "?F m ! nat (b mod 6) = (if s < b then 0 else bs ! nat (b mod 6))" if b: "s + m - 6 < b" "b \<le> s + m" for b
  proof (cases "b = s + m")
    case True
    then show ?thesis
      using st ih m by simp
  next
    case False
    have "(b mod 6) \<noteq> (s + m) mod 6"
      using b False by presburger
    then have "nat (b mod 6) \<noteq> nat ((s + m) mod 6)"
      by simp
    moreover have "?F (m - 1) ! nat (b mod 6) = (if s < b then 0 else bs ! nat (b mod 6))"
      using ih b False by simp
    ultimately show ?thesis
      unfolding st by simp
  qed
  with st ih show ?case by simp
qed

lemma roll_ok:
  assumes "window_ok n e" "0 \<le> idx"
  shows "window_ok n (roll idx e)"
proof (cases "idx - dr_startBucket e \<le> 0")
  case True
  then show ?thesis using assms(1) by (simp add: roll_def)
next
  case gt: False
  have e: "length (dr_buckets e) = 6" "0 \<le> dr_startBucket e"
    "\<And>b. dr_startBucket e - 6 < b \<Longrightarrow> b \<le> dr_startBucket e \<Longrightarrow> dr_buckets e ! nat (b mod 6) = n b"
    "\<And>b. b > dr_startBucket e \<Longrightarrow> n b = 0"
    using assms(1) by (auto simp: window_ok_def)
  show ?thesis
  proof (cases "idx - dr_startBucket e \<ge> 6")
    case True
    then show ?thesis
      using gt e assms(2) by (auto simp: roll_def window_ok_def DEMAND_BUCKETS_def Let_def)
  next
    case False
    have c: "length (dr_buckets (roll idx e)) = 6 \<and> (\<forall>b. idx - 6 < b \<and> b \<le> idx \<longrightarrow>
        dr_buckets (roll idx e) ! nat (b mod 6) = (if dr_startBucket e < b then 0 else dr_buckets e ! nat (b mod 6)))"
      using clear_buckets [OF e(1,2), of "idx - dr_startBucket e"] gt False
      by (simp add: roll_def DEMAND_BUCKETS_def Let_def)
    moreover have "dr_startBucket (roll idx e) = idx"
      using gt by (auto simp: roll_def Let_def)
    ultimately show ?thesis
      using e(3,4) gt assms(2) by (auto simp: window_ok_def)
  qed
qed

lemma ring_sum:
  assumes "window_ok n e"
  shows "sum_list (dr_buckets e) = (\<Sum>b \<in> {dr_startBucket e - 5..dr_startBucket e}. n b)"
proof -
  let ?s = "dr_startBucket e"
  have l: "length (dr_buckets e) = 6" and v: "\<And>b. b \<in> {?s - 5..?s} \<Longrightarrow> dr_buckets e ! nat (b mod 6) = n b"
    using assms by (auto simp: window_ok_def)
  have bij: "bij_betw (\<lambda>b. nat (b mod 6)) {?s - 5..?s} {..<6}"
  proof (rule bij_betw_imageI)
    show inj: "inj_on (\<lambda>b. nat (b mod 6)) {?s - 5..?s}"
    proof (rule inj_onI)
      fix x y
      assume "x \<in> {?s - 5..?s}" "y \<in> {?s - 5..?s}" "nat (x mod 6) = nat (y mod 6)"
      then have "?s - 5 \<le> x" "x \<le> ?s" "?s - 5 \<le> y" "y \<le> ?s" "x mod 6 = y mod 6"
        by simp_all
      then show "x = y" by presburger
    qed
    show "(\<lambda>b. nat (b mod 6)) ` {?s - 5..?s} = {..<6}"
      by (rule card_subset_eq) (auto simp: card_image [OF inj] nat_less_iff)
  qed
  have "sum_list (dr_buckets e) = (\<Sum>i<6. dr_buckets e ! i)"
    using l by (simp add: sum_list_sum_nth atLeast0LessThan)
  also have "\<dots> = (\<Sum>b \<in> {?s - 5..?s}. dr_buckets e ! nat (b mod 6))"
    by (rule sum.reindex_bij_betw [OF bij, symmetric])
  also have "\<dots> = (\<Sum>b \<in> {?s - 5..?s}. n b)"
    using v by (rule sum.cong [OF refl])
  finally show ?thesis .
qed

text \<open>A run of calls, and the times at which a file was read since it was last forgotten.\<close>

datatype signal_op =
    SigRead string int "real option"
  | SigReads string int
  | SigSweep int
  | SigForget string
  | SigSuccess string string
  | SigFailure string string
  | SigClear

fun sig_step :: "storage_timing \<Rightarrow> signal_op \<Rightarrow> custody_signals \<Rightarrow> custody_signals" where
  "sig_step T (SigRead cid now w) s = recordRead T cid now w s"
| "sig_step T (SigReads cid now) s = snd (reads T cid now s)"
| "sig_step T (SigSweep now) s = snd (sweepDemand T now s)"
| "sig_step T (SigForget cid) s = forget cid s"
| "sig_step T (SigSuccess cid pub) s = recordSuccess cid pub s"
| "sig_step T (SigFailure cid pub) s = snd (recordFailure cid pub s)"
| "sig_step T SigClear s = signals_clear s"

fun log_step :: "string \<Rightarrow> signal_op \<Rightarrow> int list \<Rightarrow> int list" where
  "log_step cid (SigRead c now w) l = (if c = cid then l @ [now] else l)"
| "log_step cid (SigForget c) l = (if c = cid then [] else l)"
| "log_step cid SigClear l = []"
| "log_step cid _ l = l"

fun op_times :: "signal_op \<Rightarrow> int list" where
  "op_times (SigRead c now w) = [now]"
| "op_times (SigReads c now) = [now]"
| "op_times (SigSweep now) = [now]"
| "op_times _ = []"

definition sig_run :: "storage_timing \<Rightarrow> signal_op list \<Rightarrow> custody_signals" where
  "sig_run T ops = fold (sig_step T) ops new_signals"

definition read_log :: "string \<Rightarrow> signal_op list \<Rightarrow> int list" where
  "read_log cid ops = fold (log_step cid) ops []"

definition count_at :: "storage_timing \<Rightarrow> int list \<Rightarrow> int \<Rightarrow> int" where
  "count_at T l b = int (length (filter (\<lambda>t. bucketIndex T t = b) l))"

lemma bucket_mono: "0 < HEARTBEAT_INTERVAL_MS T \<Longrightarrow> t \<le> u \<Longrightarrow> bucketIndex T t \<le> bucketIndex T u"
  unfolding bucketIndex_def by (intro floor_mono divide_right_mono) (simp_all add: demandWindowMs_def DEMAND_BUCKETS_def)

lemma bucket_nonneg: "0 < HEARTBEAT_INTERVAL_MS T \<Longrightarrow> 0 \<le> t \<Longrightarrow> 0 \<le> bucketIndex T t"
  using bucket_mono [of T 0 t] by (simp add: bucketIndex_def)

text \<open>The state agrees with the log up to bucket \<open>B\<close>.\<close>

definition tracks :: "storage_timing \<Rightarrow> string \<Rightarrow> int list \<Rightarrow> int \<Rightarrow> custody_signals \<Rightarrow> bool" where
  "tracks T cid l B s \<longleftrightarrow> 0 \<le> B \<and> (\<forall>t \<in> set l. bucketIndex T t \<le> B) \<and> (case mget (cg_demand s) cid of
     None \<Rightarrow> \<forall>t \<in> set l. bucketIndex T t \<le> B - 6
   | Some e \<Rightarrow> window_ok (count_at T l) e \<and> dr_startBucket e \<le> B)"

lemma count_zero: "count_at T l b = 0 \<longleftrightarrow> (\<forall>t \<in> set l. bucketIndex T t \<noteq> b)"
  by (auto simp: count_at_def filter_empty_conv)

lemma count_snoc: "count_at T (l @ [t]) b = count_at T l b + (if bucketIndex T t = b then 1 else 0)"
  by (simp add: count_at_def)

lemma count_window: "(\<Sum>b \<in> {i..j}. count_at T l b) = int (length (filter (\<lambda>t. i \<le> bucketIndex T t \<and> bucketIndex T t \<le> j) l))"
proof (induction l)
  case (Cons t l)
  have "count_at T (t # l) b = count_at T l b + (if bucketIndex T t = b then 1 else 0)" for b
    by (simp add: count_at_def)
  with Cons show ?case
    by (simp add: sum.distrib)
qed (simp add: count_at_def)

lemma tracks_mono: "tracks T cid l B s \<Longrightarrow> B \<le> B' \<Longrightarrow> tracks T cid l B' s"
  by (auto simp: tracks_def split: option.splits)

lemma tracks_frame: "tracks T cid l B s \<Longrightarrow> mget (cg_demand s') cid = mget (cg_demand s) cid \<Longrightarrow> tracks T cid l B s'"
  by (simp add: tracks_def)

lemma ring_top:
  assumes "window_ok n e" "dr_startBucket e \<le> i" "0 \<le> i"
  shows "window_ok n (roll i e)" "dr_startBucket (roll i e) = i"
  using roll_ok [OF assms(1,3)] roll_later [of i e] assms(2) by (auto simp: roll_def Let_def split: if_splits)

lemma reads_other: "c \<noteq> cid \<Longrightarrow> mget (cg_demand (snd (reads T c now s))) cid = mget (cg_demand s) cid"
  by (simp add: reads_def sig_advance_def Let_def split: option.split)

text \<open>What a query answers and leaves behind.\<close>

lemma reads_tracks:
  assumes "tracks T cid l B s" "B \<le> bucketIndex T now"
  shows "tracks T cid l (bucketIndex T now) (snd (reads T cid now s))"
    "fst (reads T cid now s) = int (length (filter (\<lambda>t. bucketIndex T now - 6 < bucketIndex T t) l))"
proof -
  let ?i = "bucketIndex T now"
  have top: "\<forall>t \<in> set l. bucketIndex T t \<le> ?i" and i: "0 \<le> ?i"
    using assms by (auto simp: tracks_def)
  have "tracks T cid l ?i (snd (reads T cid now s))
    \<and> fst (reads T cid now s) = int (length (filter (\<lambda>t. ?i - 6 < bucketIndex T t) l))"
  proof (cases "mget (cg_demand s) cid")
    case None
    then have "\<forall>t \<in> set l. bucketIndex T t \<le> B - 6"
      using assms(1) by (simp add: tracks_def)
    then have "filter (\<lambda>t. ?i - 6 < bucketIndex T t) l = []"
      using assms(2) by (fastforce simp: filter_empty_conv)
    with None tracks_mono [OF assms] show ?thesis
      by (simp add: reads_def sig_advance_def)
  next
    case (Some e)
    then have e: "window_ok (count_at T l) e" "dr_startBucket e \<le> ?i"
      using assms by (simp_all add: tracks_def)
    note r = ring_top [OF e i]
    have "sum_list (dr_buckets (roll ?i e)) = int (length (filter (\<lambda>t. ?i - 5 \<le> bucketIndex T t \<and> bucketIndex T t \<le> ?i) l))"
      using ring_sum [OF r(1)] by (simp add: r(2) count_window)
    also have "filter (\<lambda>t. ?i - 5 \<le> bucketIndex T t \<and> bucketIndex T t \<le> ?i) l = filter (\<lambda>t. ?i - 6 < bucketIndex T t) l"
      using top by (intro filter_cong) auto
    finally show ?thesis
      using Some r top i by (simp add: reads_def sig_advance_def Let_def tracks_def)
  qed
  then show "tracks T cid l ?i (snd (reads T cid now s))"
    "fst (reads T cid now s) = int (length (filter (\<lambda>t. ?i - 6 < bucketIndex T t) l))"
    by simp_all
qed

lemma record_tracks:
  assumes "tracks T cid l B s" "B \<le> bucketIndex T now"
  shows "tracks T cid (l @ [now]) (bucketIndex T now) (recordRead T cid now w s)"
proof -
  let ?i = "bucketIndex T now"
  have top: "\<forall>t \<in> set l. bucketIndex T t \<le> ?i" and i: "0 \<le> ?i"
    using assms by (auto simp: tracks_def)
  define e where "e = (case mget (cg_demand s) cid of Some e \<Rightarrow> roll ?i e
    | None \<Rightarrow> \<lparr>dr_buckets = replicate 6 0, dr_startBucket = ?i\<rparr>)"
  have e: "window_ok (count_at T l) e" "dr_startBucket e = ?i"
  proof -
    have "window_ok (count_at T l) e \<and> dr_startBucket e = ?i"
    proof (cases "mget (cg_demand s) cid")
      case None
      then have "\<forall>t \<in> set l. bucketIndex T t \<le> ?i - 6"
        using assms by (fastforce simp: tracks_def)
      then have "count_at T l b = 0" if "?i - 6 < b" for b
        using that by (fastforce simp: count_zero)
      with None i show ?thesis
        by (simp add: e_def window_ok_def nat_less_iff)
    next
      case (Some r)
      then have "window_ok (count_at T l) r" "dr_startBucket r \<le> ?i"
        using assms by (simp_all add: tracks_def)
      with Some ring_top [OF this i] show ?thesis by (simp add: e_def)
    qed
    then show "window_ok (count_at T l) e" "dr_startBucket e = ?i" by simp_all
  qed
  let ?e = "e\<lparr>dr_buckets := set_bucket (js_rem ?i 6) (\<lambda>n. n + 1) (dr_buckets e)\<rparr>"
  have g: "mget (cg_demand (recordRead T cid now w s)) cid = Some ?e"
    by (simp add: recordRead_def sig_advance_def Let_def e_def DEMAND_BUCKETS_def split: option.split)
  have "window_ok (count_at T (l @ [now])) ?e"
    unfolding window_ok_def
  proof (intro conjI allI impI)
    have l6: "length (dr_buckets e) = 6" and m: "nat (?i mod 6) < 6" "js_rem ?i 6 = ?i mod 6"
      using e(1) i by (simp_all add: window_ok_def nat_less_iff js_rem_def)
    show "length (dr_buckets ?e) = 6" "0 \<le> dr_startBucket ?e"
      using l6 e(2) i by simp_all
    fix b
    show "dr_startBucket ?e < b \<Longrightarrow> count_at T (l @ [now]) b = 0"
      using e by (auto simp: window_ok_def count_snoc)
    assume b: "dr_startBucket ?e - 6 < b \<and> b \<le> dr_startBucket ?e"
    then have v: "dr_buckets e ! nat (b mod 6) = count_at T l b"
      using e by (simp add: window_ok_def)
    show "dr_buckets ?e ! nat (b mod 6) = count_at T (l @ [now]) b"
    proof (cases "b = ?i")
      case True
      with v l6 m show ?thesis by (simp add: set_bucket_def count_snoc)
    next
      case False
      have "b mod 6 \<noteq> ?i mod 6"
        using b False e(2) by simp presburger
      then have "nat (b mod 6) \<noteq> nat (?i mod 6)" by simp
      with v l6 m False show ?thesis by (simp add: set_bucket_def count_snoc)
    qed
  qed
  with g top i e(2) show ?thesis
    by (simp add: tracks_def)
qed

lemma sweep_one_tracks:
  assumes "tracks T cid l B s" "B \<le> bucketIndex T now"
  shows "tracks T cid l (bucketIndex T now) (snd (sweep_one T now c (m, s)))"
proof (cases "c = cid")
  case False
  have "mget (cg_demand (snd (sweep_one T now c (m, s)))) cid = mget (cg_demand s) cid"
    using False reads_other [of c cid T now s] by (auto simp: sweep_one_def split: prod.split)
  then show ?thesis
    using tracks_frame [OF tracks_mono [OF assms]] by simp
next
  case True
  note r = reads_tracks [OF assms]
  obtain n s' where rd: "reads T cid now s = (n, s')"
    by (cases "reads T cid now s")
  show ?thesis
  proof (cases "n = 0")
    case True
    then have "\<forall>t \<in> set l. bucketIndex T t \<le> bucketIndex T now - 6"
      using r(2) rd by (auto simp: filter_empty_conv)
    with r(1) True \<open>c = cid\<close> rd show ?thesis
      by (simp add: sweep_one_def tracks_def split: option.splits)
  qed (use r(1) rd True in \<open>simp add: sweep_one_def\<close>)
qed

lemma sweep_tracks:
  "tracks T cid l B s \<Longrightarrow> B \<le> bucketIndex T now \<Longrightarrow>
   tracks T cid l (bucketIndex T now) (snd (fold (sweep_one T now) cs (m, s)))"
proof (induction cs arbitrary: B m s)
  case (Cons c cs)
  obtain m' s' where st: "sweep_one T now c (m, s) = (m', s')"
    by (cases "sweep_one T now c (m, s)")
  have "tracks T cid l (bucketIndex T now) s'"
    using sweep_one_tracks [OF Cons.prems, of c m] st by simp
  from Cons.IH [OF this order_refl] st show ?case by simp
qed (simp add: tracks_mono)

definition clocked_signals :: "signal_op list \<Rightarrow> int \<Rightarrow> bool" where
  "clocked_signals ops now \<longleftrightarrow> sorted (0 # concat (map op_times ops) @ [now])"

lemma step_tracks:
  assumes "0 < HEARTBEAT_INTERVAL_MS T" "tracks T cid l (bucketIndex T t) s" "\<forall>u \<in> set (op_times x). t \<le> u"
  shows "tracks T cid (log_step cid x l) (bucketIndex T (last (t # op_times x))) (sig_step T x s)"
proof (cases x)
  case (SigRead c now w)
  with assms bucket_mono have m: "bucketIndex T t \<le> bucketIndex T now" by simp
  show ?thesis
  proof (cases "c = cid")
    case True
    with record_tracks [OF assms(2) m] SigRead show ?thesis by simp
  next
    case False
    then have "mget (cg_demand (recordRead T c now w s)) cid = mget (cg_demand s) cid"
      by (simp add: recordRead_def Let_def)
    with False SigRead tracks_frame [OF tracks_mono [OF assms(2) m]] show ?thesis by simp
  qed
next
  case (SigReads c now)
  with assms bucket_mono have m: "bucketIndex T t \<le> bucketIndex T now" by simp
  show ?thesis
  proof (cases "c = cid")
    case True
    with reads_tracks(1) [OF assms(2) m] SigReads show ?thesis by simp
  next
    case False
    with SigReads reads_other [OF False, of T now s] tracks_frame [OF tracks_mono [OF assms(2) m]] show ?thesis by simp
  qed
next
  case (SigSweep now)
  with assms bucket_mono have m: "bucketIndex T t \<le> bucketIndex T now" by simp
  with SigSweep sweep_tracks [OF assms(2) m] show ?thesis by (simp add: sweepDemand_def)
next
  case (SigForget c)
  with assms(2) show ?thesis
    by (cases "c = cid") (auto simp: forget_def tracks_def)
next
  case (SigSuccess c p)
  with assms(2) show ?thesis by (simp add: recordSuccess_def tracks_def)
next
  case (SigFailure c p)
  with assms(2) show ?thesis by (simp add: recordFailure_def tracks_def Let_def)
next
  case SigClear
  with assms(2) show ?thesis by (simp add: signals_clear_def tracks_def)
qed

lemma run_tracks:
  assumes "0 < HEARTBEAT_INTERVAL_MS T"
  shows "sorted (t # concat (map op_times ops)) \<Longrightarrow> tracks T cid l (bucketIndex T t) s \<Longrightarrow>
    tracks T cid (fold (log_step cid) ops l) (bucketIndex T (last (t # concat (map op_times ops)))) (fold (sig_step T) ops s)"
proof (induction ops arbitrary: t l s)
  case (Cons x ops)
  let ?u = "last (t # op_times x)"
  have "tracks T cid (log_step cid x l) (bucketIndex T ?u) (sig_step T x s)"
    using step_tracks [OF assms Cons.prems(2), of x] Cons.prems(1) by simp
  moreover have "sorted (?u # concat (map op_times ops))"
    using Cons.prems(1) by (cases x) auto
  moreover have "last (t # concat (map op_times (x # ops))) = last (?u # concat (map op_times ops))"
    by (cases x) auto
  ultimately show ?case
    using Cons.IH by (simp del: last.simps)
qed simp

lemma reads_window:
  assumes "0 < HEARTBEAT_INTERVAL_MS T" "clocked_signals ops now"
  shows "fst (reads T cid now (sig_run T ops)) =
    int (length (filter (\<lambda>t. bucketIndex T now - DEMAND_BUCKETS < bucketIndex T t) (read_log cid ops)))"
proof -
  let ?ts = "concat (map op_times ops)"
  have so: "sorted (0 # ?ts)" and le: "\<forall>x \<in> set (0 # ?ts). x \<le> now"
    using assms(2) by (auto simp: clocked_signals_def sorted_append)
  have "last (0 # ?ts) \<in> set (0 # ?ts)"
    by (rule last_in_set) simp
  with le have top: "last (0 # ?ts) \<le> now"
    by blast
  have "tracks T cid [] (bucketIndex T 0) new_signals"
    using bucket_nonneg [OF assms(1), of 0] by (simp add: tracks_def new_signals_def)
  from run_tracks [OF assms(1) so this] have tr: "tracks T cid (read_log cid ops) (bucketIndex T (last (0 # ?ts))) (sig_run T ops)"
    by (simp add: read_log_def sig_run_def)
  show ?thesis
    using reads_tracks(2) [OF tr bucket_mono [OF assms(1) top]] by (simp add: DEMAND_BUCKETS_def)
qed

text \<open>So a target falls back to the floor once nobody reads for a window.\<close>

lemma failure_streak:
  "shouldEvict cid pub (snd (recordFailure cid pub (snd (recordFailure cid pub (recordSuccess cid pub s)))))"
  "\<not> shouldEvict cid pub (snd (recordFailure cid pub (recordSuccess cid pub s)))"
  by (simp_all add: shouldEvict_def recordFailure_def recordSuccess_def Let_def FAILURES_BEFORE_EVICTION_def)

end
