(* ===== verification/Custody_Properties.thy ===== *)
theory Custody_Properties
  imports Shamir Custody_Policy
begin

text \<open>
  What the recovery shares and the custody policy promise: any two shares give the secret back and one
  share says nothing about it; repair, eviction and demand do what the comments of the source state.
\<close>

section \<open>Secret sharing\<close>

text \<open>C19: any two shares of one split with distinct coordinates reconstruct the secret, for every
  choice of random bytes of the secret's length.\<close>
theorem shamir_any_two:
  assumes "shamirSplit r secret n = Some shares" "length r = length secret"
    and "a \<in> set shares" "b \<in> set shares" "sh_x a \<noteq> sh_x b"
  shows "shamirCombine a b = Some secret"
  by (rule combine_split [OF assms])

lemma demo_split: "\<exists>a b c. shamirSplit [7, 9] [65, 66] 3 = Some [a, b, c] \<and> sh_x a = 1 \<and> sh_x b = 2 \<and> sh_x c = 3"
  by (simp add: shamirSplit_def upto_rec1)

theorem shamir_any_two_witness:
  "\<exists>a b c. shamirSplit [7, 9] [65, 66] 3 = Some [a, b, c] \<and> shamirCombine a c = Some [65, 66] \<and> shamirCombine c b = Some [65, 66]"
proof -
  obtain a b c where s: "shamirSplit [7, 9] [65, 66] 3 = Some [a, b, c]" "sh_x a = 1" "sh_x b = 2" "sh_x c = 3"
    using demo_split by blast
  with shamir_any_two [OF s(1), of a c] shamir_any_two [OF s(1), of c b] show ?thesis
    by simp
qed

text \<open>C20: a single share is compatible with every secret of its length, each for exactly one choice of
  the random bytes: whatever a custodian holds, no candidate is more likely than another.\<close>
theorem shamir_one_hides:
  assumes "2 \<le> n" "n \<le> 255" "1 \<le> x" "x \<le> n" "length ys = length secret"
  shows "\<exists>!r. length r = length secret
    \<and> (\<exists>shares. shamirSplit r secret n = Some shares \<and> \<lparr>sh_x = x, sh_data = ys\<rparr> \<in> set shares)"
proof -
  let ?X = "word_of_int x :: 8 word"
  have X: "?X \<noteq> 0"
    using byte_code [of x] assms by auto
  have "(\<exists>shares. shamirSplit r secret n = Some shares \<and> \<lparr>sh_x = x, sh_data = ys\<rparr> \<in> set shares)
      \<longleftrightarrow> map2 (\<lambda>s k. s XOR gmul k ?X) secret r = ys" for r
    using assms share_byte [of x] by (auto simp: shamirSplit_def)
  with share_explained [OF X assms(5)] show ?thesis by simp
qed

theorem shamir_one_hides_witness:
  "\<exists>!r. length r = length [1, 2 :: byte] \<and>
     (\<exists>shares. shamirSplit r [1, 2] 3 = Some shares \<and> \<lparr>sh_x = 2, sh_data = [200, 17]\<rparr> \<in> set shares)"
  by (rule shamir_one_hides) simp_all

section \<open>Custody\<close>

text \<open>C21: a repair plan drops exactly the lapsed holders, adds only new candidates, each in a failure
  domain of its own, leaves a shortfall only when no remaining candidate brings a new domain, and
  releases holders only when those kept are in more domains than the target and the floor ask for.\<close>
theorem repair_independent:
  assumes "planRepair holders alive candidates target domainOf = R" "live = filter alive holders"
  shows "rp_drop R = filter (\<lambda>p. \<not> alive p) holders \<and> set (rp_add R) \<subseteq> set candidates - set holders
    \<and> card (domainOf ` set (live @ rp_add R)) = card (domainOf ` set live) + length (rp_add R)
    \<and> rp_shortfall R = max 0 (target - rp_live R) - int (length (rp_add R)) \<and> 0 \<le> rp_shortfall R
    \<and> (0 < rp_shortfall R \<longrightarrow> (\<forall>c \<in> set candidates. c \<in> set holders \<or> domainOf c \<in> domainOf ` set (live @ rp_add R)))
    \<and> (\<exists>kept. live = kept @ rp_release R
        \<and> (rp_release R \<noteq> [] \<longrightarrow> max REDUNDANCY_TARGET target < int (card (domainOf ` set kept))))"
  using planRepair_spec [OF assms] by (auto simp only: domains_def)

theorem repair_independent_witness:
  "planRepair [''a'', ''b'', ''c''] (\<lambda>p. p \<noteq> ''b'') [''a'', ''d'', ''e'', ''f''] 4 (\<lambda>p. if p = ''d'' then ''a'' else p)
     = \<lparr>rp_drop = [''b''], rp_add = [''e'', ''f''], rp_live = 2, rp_shortfall = 0, rp_release = []\<rparr>
   \<and> card ((\<lambda>p. if p = ''d'' then ''a'' else p) ` set [''a'', ''c'', ''e'', ''f'']) = 2 + 2"
proof -
  have p: "planRepair [''a'', ''b'', ''c''] (\<lambda>p. p \<noteq> ''b'') [''a'', ''d'', ''e'', ''f''] 4 (\<lambda>p. if p = ''d'' then ''a'' else p)
     = \<lparr>rp_drop = [''b''], rp_add = [''e'', ''f''], rp_live = 2, rp_shortfall = 0, rp_release = []\<rparr>"
    by code_simp
  with repair_independent [OF p refl] show ?thesis by simp
qed

text \<open>An eviction plan frees what is over capacity or gives up everything, gives up no copy while
  keeping a less valuable one, and never frees more than it must: without its last copy the store
  would still be over capacity.\<close>
theorem eviction_minimal:
  assumes "planEviction used capacity held = (gone, freed)" "capacity < used"
  shows "\<exists>ev kept. gone = map hc_cid ev \<and> freed = (\<Sum>h\<leftarrow>ev. hc_bytes h) \<and> mset held = mset (ev @ kept)
    \<and> (used - freed \<le> capacity \<or> kept = []) \<and> (ev \<noteq> [] \<longrightarrow> capacity < used - (freed - hc_bytes (last ev)))
    \<and> (\<forall>a \<in> set ev. \<forall>b \<in> set kept. rank a < rank b \<or> rank a = rank b \<and> hc_lastTouched a \<le> hc_lastTouched b)"
proof (rule planEviction_spec [OF assms])
  fix ev kept
  assume "gone = map hc_cid ev" "freed = (\<Sum>h\<leftarrow>ev. hc_bytes h)" "mset held = mset (ev @ kept)"
    "used - freed \<le> capacity \<or> kept = []" "ev \<noteq> [] \<Longrightarrow> capacity < used - (freed - hc_bytes (last ev))"
    "\<And>a b. a \<in> set ev \<Longrightarrow> b \<in> set kept \<Longrightarrow> value_le a b"
  then show ?thesis
    unfolding value_le_def by (intro exI [of _ ev] exI [of _ kept]) simp
qed

definition demo_copy :: "string \<Rightarrow> int \<Rightarrow> bool \<Rightarrow> bool \<Rightarrow> int \<Rightarrow> held_copy" where
  "demo_copy c n l r t = \<lparr>hc_cid = c, hc_bytes = n, hc_leased = l, hc_releasedByOwner = r, hc_lastTouched = t\<rparr>"

theorem eviction_minimal_witness:
  "\<exists>ev kept. [''z'', ''y''] = map hc_cid ev \<and> 50 = (\<Sum>h\<leftarrow>ev. hc_bytes h)
    \<and> mset [demo_copy ''x'' 40 True False 1, demo_copy ''y'' 30 False False 9, demo_copy ''z'' 20 True True 9] = mset (ev @ kept)
    \<and> (120 - 50 \<le> (80 :: int) \<or> kept = []) \<and> (ev \<noteq> [] \<longrightarrow> 80 < 120 - (50 - hc_bytes (last ev)))
    \<and> (\<forall>a \<in> set ev. \<forall>b \<in> set kept. rank a < rank b \<or> rank a = rank b \<and> hc_lastTouched a \<le> hc_lastTouched b)"
  by (rule eviction_minimal)
    (simp_all add: demo_copy_def planEviction_def eviction_order_def sort_key_def rank_def)

text \<open>Whatever calls were made in the order of their times, \<open>reads\<close> answers the number of reads
  recorded since the file was last forgotten whose bucket is one of the last six, and the replica target
  follows that number: it falls again when demand falls.\<close>
theorem demand_window:
  assumes "0 < HEARTBEAT_INTERVAL_MS T" "clocked_signals ops now"
    and "n = int (length (filter (\<lambda>t. bucketIndex T now - DEMAND_BUCKETS < bucketIndex T t) (read_log cid ops)))"
  shows "fst (reads T cid now (sig_run T ops)) = n \<and> fst (targetFor T cid now (sig_run T ops)) = replicaTarget n"
proof -
  obtain m s' where r: "reads T cid now (sig_run T ops) = (m, s')"
    by (cases "reads T cid now (sig_run T ops)")
  with reads_window [OF assms(1,2), of cid] assms(3) show ?thesis
    by (simp add: targetFor_def)
qed


definition fast_T :: storage_timing where
  "fast_T = \<lparr>HEARTBEAT_INTERVAL_MS = 120000, REWARD_EPOCH_MS = 720000, MAX_HEARTBEATS_PER_EPOCH = 6,
     MAX_HEARTBEATS_PER_EPOCH_HARD = 24, MAX_OFFLINE_MS = 360000, HEARTBEAT_GRACE_MS = 15000\<rparr>"

definition demo_reads :: "signal_op list" where
  "demo_reads = [SigRead ''c'' 1000 None, SigRead ''c'' 6000 (Some 20), SigRead ''d'' 7000 None, SigSweep 20000, SigRead ''c'' 33000 None]"

theorem demand_window_witness:
  "applyStorageTiming fast_timing = Some fast_T \<and> fst (reads fast_T ''c'' 34000 (sig_run fast_T demo_reads)) = 2
   \<and> fst (targetFor fast_T ''c'' 34000 (sig_run fast_T demo_reads)) = replicaTarget 2"
proof -
  have b: "bucketIndex fast_T t = t div 5000" for t
    by (simp add: bucketIndex_def demandWindowMs_def DEMAND_BUCKETS_def fast_T_def floor_divide_of_int_eq [of t 5000, simplified])
  have "0 < HEARTBEAT_INTERVAL_MS fast_T" "clocked_signals demo_reads 34000"
    by (simp_all add: fast_T_def clocked_signals_def demo_reads_def)
  from demand_window [OF this, of 2 "''c''"] have "fst (reads fast_T ''c'' 34000 (sig_run fast_T demo_reads)) = 2
   \<and> fst (targetFor fast_T ''c'' 34000 (sig_run fast_T demo_reads)) = replicaTarget 2"
    by (simp add: b read_log_def demo_reads_def DEMAND_BUCKETS_def)
  then show ?thesis
    by (simp add: fast_T_def applyStorageTiming_def fast_timing_def Let_def)
qed

end
