(* ===== verification/Dht.thy ===== *)
theory Dht
  imports Crypto_Env
begin

text \<open>
  The Chord ring of provider records: \<open>src/engine/content/dht.ts\<close>. A lookup ends at the node
  responsible for the key after at most 32 hops, and a provider record lies exactly on the nodes
  responsible for it. The bound on the number of hops in the source is never reached when the keys of
  the nodes are distinct.
\<close>

unbundle bit_operations_syntax

section \<open>The ring\<close>

definition RING_BITS :: nat where "RING_BITS = 32"

record ring_node =
  dn_id :: hex
  dn_key :: int
  dn_index :: int
  dn_fingers :: "nat list"

text \<open>The first four bytes, shifted and joined as 32-bit words; a missing byte counts as 0.\<close>

definition ringKey :: "crypto \<Rightarrow> string \<Rightarrow> int" where
  "ringKey C s = (let h = hash_bytes C [c_utf8 C s]; w = (\<lambda>i. word_of_int (uint (nvl (js_at h i) 0)) :: 32 word)
     in uint (push_bit 24 (w 0) OR push_bit 16 (w 1) OR push_bit 8 (w 2) OR w 3))"

definition inOpenClosed :: "int \<Rightarrow> int \<Rightarrow> int \<Rightarrow> bool" where
  "inOpenClosed x a b = (if a = b then True else if a < b then x > a \<and> x \<le> b else x > a \<or> x \<le> b)"

definition inOpenOpen :: "int \<Rightarrow> int \<Rightarrow> int \<Rightarrow> bool" where
  "inOpenOpen x a b = (if a = b then x \<noteq> a else if a < b then x > a \<and> x < b else x > a \<or> x < b)"

record chord_dht =
  ct_nodes :: "ring_node list"
  ct_built :: bool
  ct_providers :: "(hex, hex list) jsmap"
  ct_nodeIndex :: "(hex, hex list) jsmap"
  ct_k :: int

definition new_dht :: "int \<Rightarrow> chord_dht" where
  "new_dht k = \<lparr>ct_nodes = [], ct_built = False, ct_providers = [], ct_nodeIndex = [], ct_k = k\<rparr>"

text \<open>\<open>None\<close>: the call throws.\<close>

definition addNode :: "crypto \<Rightarrow> hex \<Rightarrow> chord_dht \<Rightarrow> chord_dht option" where
  "addNode C nid d = (if ct_built d then None
     else Some (d\<lparr>ct_nodes := ct_nodes d @ [\<lparr>dn_id = nid, dn_key = ringKey C nid, dn_index = -1, dn_fingers = []\<rparr>]\<rparr>))"

function successor_loop :: "ring_node list \<Rightarrow> int \<Rightarrow> nat \<Rightarrow> nat \<Rightarrow> nat" where
  "successor_loop ns target lo hi =
     (if lo < hi then let mid = (lo + hi) div 2 in
        if dn_key (ns ! mid) \<ge> target then successor_loop ns target lo mid
        else successor_loop ns target (mid + 1) hi
      else lo)"
  by auto
termination by (relation "measure (\<lambda>(ns, t, lo, hi). hi - lo)") auto

declare successor_loop.simps [simp del]

text \<open>On an empty ring the source computes NaN; no caller uses the result then.\<close>

definition successorIndex :: "ring_node list \<Rightarrow> int \<Rightarrow> nat" where
  "successorIndex ns target = successor_loop ns target 0 (length ns) mod length ns"

definition finger_table :: "ring_node list \<Rightarrow> int \<Rightarrow> nat list" where
  "finger_table ns key = map (\<lambda>i. successorIndex ns ((key + 2 ^ i) mod 2 ^ 32)) [0..<RING_BITS]"

definition build :: "chord_dht \<Rightarrow> chord_dht" where
  "build d = (let
     ns = map (\<lambda>(i, n). n\<lparr>dn_index := int i\<rparr>) (enumerate 0 (sort_key dn_key (ct_nodes d)));
     ns' = map (\<lambda>n. n\<lparr>dn_fingers := finger_table ns (dn_key n)\<rparr>) ns
   in d\<lparr>ct_nodes := ns', ct_nodeIndex := fold (\<lambda>n. mset_at (dn_id n) []) ns' (ct_nodeIndex d), ct_built := True\<rparr>)"

section \<open>Lookup\<close>

definition successorOf :: "ring_node list \<Rightarrow> ring_node \<Rightarrow> ring_node" where
  "successorOf ns n = ns ! nat ((dn_index n + 1) mod int (length ns))"

definition closestPreceding :: "ring_node list \<Rightarrow> ring_node \<Rightarrow> int \<Rightarrow> ring_node" where
  "closestPreceding ns n target =
     (case find (\<lambda>i. inOpenOpen (dn_key (ns ! (dn_fingers n ! i))) (dn_key n) target) (rev [0..<RING_BITS]) of
        None \<Rightarrow> n
      | Some i \<Rightarrow> ns ! (dn_fingers n ! i))"

function find_loop :: "ring_node list \<Rightarrow> int \<Rightarrow> ring_node \<Rightarrow> int \<Rightarrow> nat \<Rightarrow> ring_node \<times> int" where
  "find_loop ns target n hops guard =
     (if inOpenClosed target (dn_key n) (dn_key (successorOf ns n)) then (successorOf ns n, hops)
      else let c = closestPreceding ns n target in
        if dn_index c = dn_index n then (successorOf ns n, hops)
        else if guard + 1 > 2 * length ns + 2 then (successorOf ns c, hops + 1)
        else find_loop ns target c (hops + 1) (guard + 1))"
  by auto
termination by (relation "measure (\<lambda>(ns, t, n, h, g). 2 * length ns + 3 - g)") auto

declare find_loop.simps [simp del]

definition findSuccessor :: "ring_node list \<Rightarrow> ring_node \<Rightarrow> int \<Rightarrow> ring_node \<times> int" where
  "findSuccessor ns start target = find_loop ns target start 0 0"

definition responsibleNodes :: "chord_dht \<Rightarrow> int \<Rightarrow> ring_node list" where
  "responsibleNodes d key = (let start = successorIndex (ct_nodes d) key; k = min (ct_k d) (int (length (ct_nodes d)))
     in map (\<lambda>i. ct_nodes d ! ((start + i) mod length (ct_nodes d))) [0..<nat k])"

definition provide :: "crypto \<Rightarrow> hex \<Rightarrow> hex \<Rightarrow> chord_dht \<Rightarrow> chord_dht option" where
  "provide C cid providerId d = (if \<not> ct_built d then None
     else Some (d\<lparr>ct_providers := mset_at cid (sadd providerId (nvl (mget (ct_providers d) cid) [])) (ct_providers d),
       ct_nodeIndex := fold (\<lambda>n m. mset_at (dn_id n) (sadd cid (nvl (mget m (dn_id n)) [])) m)
         (responsibleNodes d (ringKey C cid)) (ct_nodeIndex d)\<rparr>))"

text \<open>\<open>None\<close> also on a ring without nodes, where the start is \<open>undefined\<close>.\<close>

definition findProviders :: "crypto \<Rightarrow> hex \<Rightarrow> hex \<Rightarrow> chord_dht \<Rightarrow> (hex list \<times> int) option" where
  "findProviders C cid fromId d = (if \<not> ct_built d then None
     else case (case find (\<lambda>n. dn_id n = fromId) (ct_nodes d) of Some n \<Rightarrow> Some n | None \<Rightarrow> js_at (ct_nodes d) 0) of
       None \<Rightarrow> None
     | Some start \<Rightarrow> Some (nvl (mget (ct_providers d) cid) [], snd (findSuccessor (ct_nodes d) start (ringKey C cid))))"

definition indexSize :: "hex \<Rightarrow> chord_dht \<Rightarrow> int" where
  "indexSize nodeId d = (case mget (ct_nodeIndex d) nodeId of None \<Rightarrow> 0 | Some s \<Rightarrow> int (length s))"

section \<open>Distances on the ring\<close>

text \<open>How far clockwise from \<open>a\<close> to \<open>x\<close>: from a key to itself is a whole turn.\<close>

definition cw :: "int \<Rightarrow> int \<Rightarrow> int" where
  "cw a x = (if x > a then x - a else x - a + 4294967296)"

definition on_ring :: "int \<Rightarrow> bool" where
  "on_ring x \<longleftrightarrow> 0 \<le> x \<and> x < 4294967296"

lemma cw_range: "on_ring a \<Longrightarrow> on_ring x \<Longrightarrow> 1 \<le> cw a x \<and> cw a x \<le> 4294967296"
  by (auto simp: cw_def on_ring_def)

lemma cw_self: "cw a a = 4294967296"
  by (simp add: cw_def)

lemma inOpenClosed_cw: "on_ring x \<Longrightarrow> on_ring a \<Longrightarrow> on_ring b \<Longrightarrow> inOpenClosed x a b \<longleftrightarrow> cw a x \<le> cw a b"
  by (auto simp: inOpenClosed_def cw_def on_ring_def)

lemma inOpenOpen_cw: "on_ring x \<Longrightarrow> on_ring a \<Longrightarrow> on_ring b \<Longrightarrow> inOpenOpen x a b \<longleftrightarrow> cw a x < cw a b"
  by (auto simp: inOpenOpen_def cw_def on_ring_def)

lemma cw_add: "on_ring a \<Longrightarrow> on_ring b \<Longrightarrow> on_ring c \<Longrightarrow> cw a b < cw a c \<Longrightarrow> cw a c = cw a b + cw b c"
  by (auto simp: cw_def on_ring_def split: if_splits)

lemma cw_add_less: "on_ring a \<Longrightarrow> on_ring b \<Longrightarrow> on_ring c \<Longrightarrow> on_ring m \<Longrightarrow> cw a b < cw a c \<Longrightarrow> cw b m < cw b c \<Longrightarrow>
    cw a m = cw a b + cw b m \<and> cw a m < cw a c"
  by (auto simp: cw_def on_ring_def split: if_splits)

lemma cw_inj: "on_ring x \<Longrightarrow> on_ring y \<Longrightarrow> cw a x = cw a y \<Longrightarrow> x = y"
  by (auto simp: cw_def on_ring_def split: if_splits)

text \<open>How far from a target to a node at or after it.\<close>

definition after :: "int \<Rightarrow> int \<Rightarrow> int" where
  "after t x = (if x \<ge> t then x - t else x - t + 4294967296)"

lemma after_cw: "on_ring a \<Longrightarrow> on_ring t \<Longrightarrow> on_ring x \<Longrightarrow>
    after t x = (if cw a t \<le> cw a x then cw a x - cw a t else cw a x - cw a t + 4294967296)"
  by (auto simp: cw_def after_def on_ring_def)

lemma after_inj: "on_ring x \<Longrightarrow> on_ring y \<Longrightarrow> after t x = after t y \<Longrightarrow> x = y"
  by (auto simp: after_def on_ring_def split: if_splits)

section \<open>The binary search\<close>

definition keys_sorted :: "ring_node list \<Rightarrow> bool" where
  "keys_sorted ns \<longleftrightarrow> (\<forall>i j. i < j \<longrightarrow> j < length ns \<longrightarrow> dn_key (ns ! i) < dn_key (ns ! j))"

lemma successor_loop_spec:
  assumes "keys_sorted ns" "hi \<le> length ns" "lo \<le> hi"
    "\<forall>i < lo. dn_key (ns ! i) < target" "\<forall>i. hi \<le> i \<longrightarrow> i < length ns \<longrightarrow> target \<le> dn_key (ns ! i)"
  shows "let r = successor_loop ns target lo hi in r \<le> length ns
    \<and> (\<forall>i < r. dn_key (ns ! i) < target) \<and> (\<forall>i. r \<le> i \<longrightarrow> i < length ns \<longrightarrow> target \<le> dn_key (ns ! i))"
  using assms
proof (induction ns target lo hi rule: successor_loop.induct)
  case (1 ns target lo hi)
  have mono: "dn_key (ns ! i) \<le> dn_key (ns ! j)" if "i \<le> j" "j < length ns" for i j
    using 1(3) that unfolding keys_sorted_def by (metis le_less order_refl)
  show ?case
  proof (cases "lo < hi")
    case False
    then have "successor_loop ns target lo hi = lo"
      by (simp add: successor_loop.simps [of ns target lo hi])
    with 1(4-7) False show ?thesis by simp
  next
    case True
    let ?mid = "(lo + hi) div 2"
    have mid: "lo \<le> ?mid" "?mid < hi" using True by simp_all
    show ?thesis
    proof (cases "dn_key (ns ! ?mid) \<ge> target")
      case c: True
      have "\<forall>i. ?mid \<le> i \<longrightarrow> i < length ns \<longrightarrow> target \<le> dn_key (ns ! i)"
        using mono c by fastforce
      with 1(1) [OF True refl c] 1(3-6) mid c True show ?thesis
        by (simp add: successor_loop.simps [of ns target lo hi] Let_def)
    next
      case c: False
      have "\<forall>i < ?mid + 1. dn_key (ns ! i) < target"
        using mono [of _ ?mid] c mid 1(4) by (auto simp: less_Suc_eq_le) (meson le_less_trans less_le_trans not_le)
      with 1(2) [OF True refl c] 1(3-7) mid c True show ?thesis
        by (simp add: successor_loop.simps [of ns target lo hi] Let_def)
    qed
  qed
qed


text \<open>A ring as \<open>build\<close> leaves it when no two nodes have the same key.\<close>

definition ring_ok :: "ring_node list \<Rightarrow> bool" where
  "ring_ok ns \<longleftrightarrow> ns \<noteq> [] \<and> keys_sorted ns \<and> (\<forall>n \<in> set ns. on_ring (dn_key n))
     \<and> (\<forall>i < length ns. dn_index (ns ! i) = int i) \<and> (\<forall>n \<in> set ns. dn_fingers n = finger_table ns (dn_key n))"

lemma keys_mono: "keys_sorted ns \<Longrightarrow> i \<le> j \<Longrightarrow> j < length ns \<Longrightarrow> dn_key (ns ! i) \<le> dn_key (ns ! j)"
  unfolding keys_sorted_def by (metis le_less order_refl)

lemma ring_okD:
  assumes "ring_ok ns" "n \<in> set ns"
  shows "on_ring (dn_key n)" "dn_fingers n = finger_table ns (dn_key n)"
  using assms by (simp_all add: ring_ok_def)

lemma key_unique:
  assumes "ring_ok ns" "m \<in> set ns" "n \<in> set ns" "dn_key m = dn_key n"
  shows "m = n"
proof -
  obtain i j where "m = ns ! i" "n = ns ! j" "i < length ns" "j < length ns"
    using assms(2,3) by (auto simp: in_set_conv_nth)
  with assms(1,4) show ?thesis
    unfolding ring_ok_def keys_sorted_def by (metis less_irrefl linorder_neqE_nat)
qed

lemma index_unique:
  assumes "ring_ok ns" "m \<in> set ns" "n \<in> set ns" "dn_index m = dn_index n"
  shows "m = n"
  using assms by (auto simp: ring_ok_def in_set_conv_nth)

text \<open>The binary search finds the first node at or after the target, going round the ring.\<close>

lemma successorIndex_range: "ns \<noteq> [] \<Longrightarrow> successorIndex ns t < length ns"
  by (simp add: successorIndex_def)

lemma successorIndex_nearest:
  assumes "ring_ok ns" "on_ring t" "m \<in> set ns"
  shows "after t (dn_key (ns ! successorIndex ns t)) \<le> after t (dn_key m)"
proof -
  let ?r = "successor_loop ns t 0 (length ns)"
  have so: "keys_sorted ns" and ne: "ns \<noteq> []" and ks: "\<forall>n \<in> set ns. on_ring (dn_key n)"
    using assms(1) by (simp_all add: ring_ok_def)
  have r: "?r \<le> length ns" "\<And>i. i < ?r \<Longrightarrow> dn_key (ns ! i) < t"
      "\<And>i. ?r \<le> i \<Longrightarrow> i < length ns \<Longrightarrow> t \<le> dn_key (ns ! i)"
    using successor_loop_spec [OF so, of "length ns" 0 t] by (simp_all add: Let_def)
  obtain j where j: "m = ns ! j" "j < length ns"
    using assms(3) by (auto simp: in_set_conv_nth)
  have kr: "on_ring (dn_key (ns ! i))" if "i < length ns" for i
    using ks that by simp
  show ?thesis
  proof (cases "?r < length ns")
    case True
    then have "t \<le> dn_key (ns ! ?r)" "?r \<le> j \<Longrightarrow> dn_key (ns ! ?r) \<le> dn_key (ns ! j)" "j < ?r \<Longrightarrow> dn_key (ns ! j) < t"
      using r keys_mono [OF so, of ?r j] j by auto
    with True j kr [OF True] kr [OF j(2)] assms(2) show ?thesis
      by (cases "j < ?r") (auto simp: successorIndex_def after_def on_ring_def)
  next
    case False
    with r have r: "?r = length ns" "dn_key (ns ! j) < t" "dn_key (ns ! 0) < t"
      using j ne by auto
    moreover have "dn_key (ns ! 0) \<le> dn_key (ns ! j)"
      using keys_mono [OF so, of 0 j] j by simp
    ultimately show ?thesis
      using j by (simp add: successorIndex_def after_def)
  qed
qed

lemma nearest_unique:
  assumes "ring_ok ns" "on_ring t" "n \<in> set ns" "\<And>m. m \<in> set ns \<Longrightarrow> after t (dn_key n) \<le> after t (dn_key m)"
  shows "n = ns ! successorIndex ns t"
proof (rule key_unique [OF assms(1,3)])
  show s: "ns ! successorIndex ns t \<in> set ns"
    using assms(1) successorIndex_range by (simp add: ring_ok_def)
  have "after t (dn_key n) = after t (dn_key (ns ! successorIndex ns t))"
    using successorIndex_nearest [OF assms(1,2,3)] assms(4) [OF s] by simp
  then show "dn_key n = dn_key (ns ! successorIndex ns t)"
    by (rule after_inj [OF ring_okD(1) [OF assms(1,3)] ring_okD(1) [OF assms(1) s]])
qed

text \<open>The next node is the nearest one, and a finger the nearest at its distance.\<close>

lemma successorOf_next:
  assumes "ring_ok ns" "n \<in> set ns"
  shows "successorOf ns n \<in> set ns" "m \<in> set ns \<Longrightarrow> cw (dn_key n) (dn_key (successorOf ns n)) \<le> cw (dn_key n) (dn_key m)"
proof -
  have so: "keys_sorted ns" and ks: "\<And>i. i < length ns \<Longrightarrow> on_ring (dn_key (ns ! i))"
    using assms(1) by (simp_all add: ring_ok_def)
  obtain i where i: "n = ns ! i" "i < length ns" "dn_index n = int i"
    using assms by (auto simp: ring_ok_def in_set_conv_nth)
  have s: "successorOf ns n = ns ! ((i + 1) mod length ns)"
    unfolding successorOf_def i(3) using zmod_int [of "i + 1" "length ns"] by (metis nat_int of_nat_1 of_nat_add)
  have "(i + 1) mod length ns < length ns"
    using i(2) by (intro mod_less_divisor) (cases ns, simp_all)
  with s show "successorOf ns n \<in> set ns"
    by simp
  assume "m \<in> set ns"
  then obtain j where j: "m = ns ! j" "j < length ns"
    by (auto simp: in_set_conv_nth)
  show "cw (dn_key n) (dn_key (successorOf ns n)) \<le> cw (dn_key n) (dn_key m)"
  proof (cases "i + 1 < length ns")
    case True
    have "j \<le> i \<Longrightarrow> dn_key (ns ! j) \<le> dn_key (ns ! i)" "i + 1 \<le> j \<Longrightarrow> dn_key (ns ! (i + 1)) \<le> dn_key (ns ! j)"
      "dn_key (ns ! i) < dn_key (ns ! (i + 1))"
      using keys_mono [OF so] i j so True by (auto simp: keys_sorted_def)
    moreover have "dn_key (successorOf ns n) = dn_key (ns ! (i + 1))" "dn_key n = dn_key (ns ! i)" "dn_key m = dn_key (ns ! j)"
      using i j s True by simp_all
    ultimately show ?thesis
      using ks [OF True] ks [OF j(2)] ks [OF i(2)] by (cases "j \<le> i") (simp_all add: cw_def on_ring_def)
  next
    case False
    then have e: "i + 1 = length ns" using i by simp
    then have "dn_key (ns ! j) \<le> dn_key (ns ! i)" "dn_key (ns ! 0) \<le> dn_key (ns ! j)"
      using keys_mono [OF so, of j i] keys_mono [OF so, of 0 j] i j by auto
    moreover have "dn_key (successorOf ns n) = dn_key (ns ! 0)" "dn_key n = dn_key (ns ! i)" "dn_key m = dn_key (ns ! j)"
      using i j s e by simp_all
    ultimately show ?thesis
      by (simp add: cw_def)
  qed
qed

lemma finger_nearest:
  assumes "ring_ok ns" "n \<in> set ns" "i < RING_BITS" "f = ns ! (dn_fingers n ! i)"
  shows "f \<in> set ns" "2 ^ i \<le> cw (dn_key n) (dn_key f)"
    "m \<in> set ns \<Longrightarrow> 2 ^ i \<le> cw (dn_key n) (dn_key m) \<Longrightarrow> cw (dn_key n) (dn_key f) \<le> cw (dn_key n) (dn_key m)"
proof -
  let ?p = "(dn_key n + 2 ^ i) mod 2 ^ 32"
  note n = ring_okD [OF assms(1,2)]
  have p: "on_ring ?p" by (simp add: on_ring_def)
  have f: "f = ns ! successorIndex ns ?p"
    using assms(3,4) n(2) by (simp add: finger_table_def)
  show fs: "f \<in> set ns"
    using f assms(1) successorIndex_range by (simp add: ring_ok_def)
  have i2: "(2 :: int) ^ i \<le> 2147483648" "(1 :: int) \<le> 2 ^ i"
    using assms(3) power_increasing [of i 31 "2 :: int"] by (simp_all add: RING_BITS_def)
  have d: "cw (dn_key n) ?p = 2 ^ i"
  proof (cases "dn_key n + 2 ^ i < 4294967296")
    case True
    then have "?p = dn_key n + 2 ^ i" using n(1) i2 by (simp add: on_ring_def)
    then show ?thesis using i2 by (simp add: cw_def)
  next
    case False
    have "?p = (dn_key n + 2 ^ i - 4294967296) mod 4294967296"
      using minus_mod_self2 [of "dn_key n + 2 ^ i" 4294967296] by simp
    also have "\<dots> = dn_key n + 2 ^ i - 4294967296"
      using False n(1) i2 by (intro mod_pos_pos_trivial) (simp_all add: on_ring_def)
    finally have "?p = dn_key n + 2 ^ i - 4294967296" .
    then show ?thesis using n(1) i2 by (simp add: cw_def on_ring_def)
  qed
  have on: "on_ring (dn_key f)"
    by (rule ring_okD [OF assms(1) fs])
  have near: "after ?p (dn_key f) \<le> after ?p (dn_key m)" if "m \<in> set ns" for m
    unfolding f by (rule successorIndex_nearest [OF assms(1) p that])
  have e: "after ?p (dn_key m) = (if 2 ^ i \<le> cw (dn_key n) (dn_key m) then cw (dn_key n) (dn_key m) - 2 ^ i
      else cw (dn_key n) (dn_key m) - 2 ^ i + 4294967296)" if "m \<in> set ns" for m
    unfolding after_cw [OF n(1) p ring_okD(1) [OF assms(1) that]] d by simp
  show "2 ^ i \<le> cw (dn_key n) (dn_key f)"
    using near [OF assms(2)] e [OF assms(2)] e [OF fs] cw_range [OF n(1) on] i2 cw_self [of "dn_key n"]
    by (auto split: if_splits)
  with near [of m] e [of m] e [OF fs]
  show "m \<in> set ns \<Longrightarrow> 2 ^ i \<le> cw (dn_key n) (dn_key m) \<Longrightarrow> cw (dn_key n) (dn_key f) \<le> cw (dn_key n) (dn_key m)"
    by auto
qed


section \<open>Lookups end at the responsible node\<close>

lemma closest_hop:
  assumes "ring_ok ns" "n \<in> set ns" "on_ring t" "\<not> inOpenClosed t (dn_key n) (dn_key (successorOf ns n))"
  obtains j where "closestPreceding ns n t \<in> set ns" "j < RING_BITS"
    "2 ^ j \<le> cw (dn_key n) (dn_key (closestPreceding ns n t))"
    "cw (dn_key n) (dn_key (closestPreceding ns n t)) < cw (dn_key n) t"
    "\<And>m. m \<in> set ns \<Longrightarrow> cw (dn_key n) (dn_key m) < cw (dn_key n) t \<Longrightarrow> cw (dn_key n) (dn_key m) < 2 ^ (j + 1)"
proof -
  note on = ring_okD(1) [OF assms(1)]
  note n = on [OF assms(2)]
  define f where "f i = ns ! (dn_fingers n ! i)" for i
  note fg = finger_nearest [OF assms(1,2) _ f_def]
  have near: "inOpenOpen (dn_key (f i)) (dn_key n) t \<longleftrightarrow> cw (dn_key n) (dn_key (f i)) < cw (dn_key n) t" if "i < RING_BITS" for i
    using inOpenOpen_cw [OF on [OF fg(1) [OF that]] n assms(3)] .
  note sc = successorOf_next [OF assms(1,2)]
  have "cw (dn_key n) (dn_key (successorOf ns n)) < cw (dn_key n) t"
    using assms(4) inOpenClosed_cw [OF assms(3) n on [OF sc(1)]] by simp
  moreover have "1 \<le> cw (dn_key n) (dn_key (successorOf ns n))"
    using cw_range [OF n on [OF sc(1)]] by simp
  ultimately have "cw (dn_key n) (dn_key (f 0)) < cw (dn_key n) t"
    using fg(3) [of 0, OF _ sc(1)] by (simp add: RING_BITS_def)
  then have some: "find (\<lambda>i. inOpenOpen (dn_key (f i)) (dn_key n) t) (rev [0..<RING_BITS]) \<noteq> None"
    using near [of 0] by (auto simp: find_None_iff RING_BITS_def intro!: exI [of _ 0])
  then obtain j where j: "find (\<lambda>i. inOpenOpen (dn_key (f i)) (dn_key n) t) (rev [0..<RING_BITS]) = Some j"
    by blast
  then obtain k where k: "k < RING_BITS" "rev [0..<RING_BITS] ! k = j" "inOpenOpen (dn_key (f j)) (dn_key n) t"
      "\<And>l. l < k \<Longrightarrow> \<not> inOpenOpen (dn_key (f (rev [0..<RING_BITS] ! l))) (dn_key n) t"
    by (auto simp: find_Some_iff)
  then have jk: "j = RING_BITS - 1 - k" "j < RING_BITS"
    by (auto simp: rev_nth)
  have c: "closestPreceding ns n t = f j"
    using j by (simp add: closestPreceding_def f_def)
  show thesis
  proof (rule that [of j])
    show "closestPreceding ns n t \<in> set ns" "j < RING_BITS" "2 ^ j \<le> cw (dn_key n) (dn_key (closestPreceding ns n t))"
      "cw (dn_key n) (dn_key (closestPreceding ns n t)) < cw (dn_key n) t"
      using jk fg(1,2) [OF jk(2)] near [OF jk(2)] k(3) by (simp_all add: c)
    fix m
    assume m: "m \<in> set ns" "cw (dn_key n) (dn_key m) < cw (dn_key n) t"
    show "cw (dn_key n) (dn_key m) < 2 ^ (j + 1)"
    proof (cases "j + 1 < RING_BITS")
      case True
      then have "k - 1 < k" "rev [0..<RING_BITS] ! (k - 1) = j + 1"
        using jk k(1) by (auto simp: rev_nth)
      then have "\<not> inOpenOpen (dn_key (f (j + 1))) (dn_key n) t"
        using k(4) by metis
      with near [OF True] fg(3) [OF True m(1)] m(2) show ?thesis
        by linarith
    next
      case False
      then have "j = 31" using jk(2) by (simp add: RING_BITS_def)
      then show ?thesis
        using m(2) cw_range [OF n assms(3)] by simp
    qed
  qed
qed

lemma find_loop_spec:
  assumes "ring_ok ns" "on_ring t"
  shows "n \<in> set ns \<Longrightarrow> (\<And>m. m \<in> set ns \<Longrightarrow> cw (dn_key n) (dn_key m) < cw (dn_key n) t \<Longrightarrow> cw (dn_key n) (dn_key m) < 2 ^ b)
    \<Longrightarrow> guard + card {m \<in> set ns. cw (dn_key n) (dn_key m) < cw (dn_key n) t} \<le> 2 * length ns + 2
    \<Longrightarrow> \<exists>k. find_loop ns t n hops guard = (ns ! successorIndex ns t, hops + int k) \<and> k \<le> b
      \<and> k \<le> card {m \<in> set ns. cw (dn_key n) (dn_key m) < cw (dn_key n) t}"
proof (induction b arbitrary: n hops guard rule: less_induct)
  case (less b)
  note on = ring_okD(1) [OF assms(1)]
  note n = on [OF less.prems(1)]
  note sc = successorOf_next [OF assms(1) less.prems(1)]
  let ?R = "\<lambda>n. {m \<in> set ns. cw (dn_key n) (dn_key m) < cw (dn_key n) t}"
  show ?case
  proof (cases "inOpenClosed t (dn_key n) (dn_key (successorOf ns n))")
    case True
    then have le: "cw (dn_key n) t \<le> cw (dn_key n) (dn_key (successorOf ns n))"
      using inOpenClosed_cw [OF assms(2) n on [OF sc(1)]] by simp
    have "successorOf ns n = ns ! successorIndex ns t"
    proof (rule nearest_unique [OF assms sc(1)])
      fix m
      assume m: "m \<in> set ns"
      show "after t (dn_key (successorOf ns n)) \<le> after t (dn_key m)"
        using sc(2) [OF m] le by (simp add: after_cw [OF n assms(2)] on m sc(1))
    qed
    with True show ?thesis
      by (intro exI [of _ 0]) (simp add: find_loop.simps [of ns t n])
  next
    case False
    let ?c = "closestPreceding ns n t"
    obtain j where c: "?c \<in> set ns" "j < RING_BITS" "2 ^ j \<le> cw (dn_key n) (dn_key ?c)"
        "cw (dn_key n) (dn_key ?c) < cw (dn_key n) t"
        "\<And>m. m \<in> set ns \<Longrightarrow> cw (dn_key n) (dn_key m) < cw (dn_key n) t \<Longrightarrow> cw (dn_key n) (dn_key m) < 2 ^ (j + 1)"
      using closest_hop [OF assms(1) less.prems(1) assms(2) False] by blast
    have "(2 :: int) ^ j < 2 ^ b"
      by (rule le_less_trans [OF c(3) less.prems(2) [OF c(1,4)]])
    then have jb: "j < b"
      by simp
    have "?c \<noteq> n"
      using c(4) cw_self [of "dn_key n"] cw_range [OF n assms(2)] by auto
    then have idx: "dn_index ?c \<noteq> dn_index n"
      using index_unique [OF assms(1) c(1) less.prems(1)] by blast
    have step: "cw (dn_key n) (dn_key m) = cw (dn_key n) (dn_key ?c) + cw (dn_key ?c) (dn_key m)
        \<and> cw (dn_key n) (dn_key m) < cw (dn_key n) t"
      if "m \<in> set ns" "cw (dn_key ?c) (dn_key m) < cw (dn_key ?c) t" for m
      using cw_add_less [OF n on [OF c(1)] assms(2) on [OF that(1)] c(4) that(2)] by simp
    have "?R ?c \<subseteq> ?R n - {?c}"
      using step cw_self [of "dn_key ?c"] cw_range [OF on [OF c(1)] assms(2)] by auto
    then have sub: "card (?R ?c) < card (?R n)"
      using c(1,4) by (intro psubset_card_mono) auto
    have q: "cw (dn_key ?c) (dn_key m) < 2 ^ j" if "m \<in> set ns" "cw (dn_key ?c) (dn_key m) < cw (dn_key ?c) t" for m
      using step [OF that] c(5) [OF that(1)] c(3) by simp
    obtain k where "find_loop ns t ?c (hops + 1) (guard + 1) = (ns ! successorIndex ns t, hops + 1 + int k)"
        "k \<le> j" "k \<le> card (?R ?c)"
      using less.IH [OF jb c(1) q, of "guard + 1" "hops + 1"] sub less.prems(3) by auto
    moreover have "guard + 1 \<le> 2 * length ns + 2"
      using sub less.prems(3) by simp
    ultimately show ?thesis
      using False idx jb sub by (intro exI [of _ "Suc k"]) (simp add: find_loop.simps [of ns t n] Let_def)
  qed
qed

lemma findSuccessor_spec:
  assumes "ring_ok ns" "n \<in> set ns" "on_ring t"
  shows "\<exists>k. findSuccessor ns n t = (ns ! successorIndex ns t, int k) \<and> k \<le> 32 \<and> k < length ns"
proof -
  let ?R = "{m \<in> set ns. cw (dn_key n) (dn_key m) < cw (dn_key n) t}"
  note n = ring_okD(1) [OF assms(1,2)]
  have "n \<notin> ?R"
    using cw_self [of "dn_key n"] cw_range [OF n assms(3)] by auto
  then have "?R \<subset> set ns"
    using assms(2) by auto
  then have lt: "card ?R < length ns"
    using psubset_card_mono [of "set ns" ?R] card_length [of ns] by simp
  have "cw (dn_key n) (dn_key m) < 2 ^ 32" if "cw (dn_key n) (dn_key m) < cw (dn_key n) t" for m
    using that cw_range [OF n assms(3)] by simp
  then obtain k where "find_loop ns t n 0 0 = (ns ! successorIndex ns t, 0 + int k)" "k \<le> 32" "k \<le> card ?R"
    using find_loop_spec [OF assms(1,3,2), of 32 0 0] lt by auto
  with lt show ?thesis
    by (auto simp: findSuccessor_def)
qed


section \<open>Building the ring\<close>

lemma successor_loop_keys:
  "map dn_key ns = map dn_key ms \<Longrightarrow> hi \<le> length ns \<Longrightarrow> successor_loop ms t lo hi = successor_loop ns t lo hi"
proof (induction ns t lo hi rule: successor_loop.induct)
  case (1 ns t lo hi)
  show ?case
  proof (cases "lo < hi")
    case True
    let ?mid = "(lo + hi) div 2"
    have "?mid < length ns" using True 1(4) by simp
    then have "dn_key (ms ! ?mid) = dn_key (ns ! ?mid)"
      using 1(3) by (metis length_map nth_map)
    with True 1 show ?thesis
      by (simp add: successor_loop.simps [of ns t lo hi] successor_loop.simps [of ms t lo hi] Let_def)
  qed (simp add: successor_loop.simps [of ns t lo hi] successor_loop.simps [of ms t lo hi])
qed

lemma successorIndex_keys: "map dn_key ns = map dn_key ms \<Longrightarrow> successorIndex ms t = successorIndex ns t"
  using successor_loop_keys [of ns ms "length ns" t 0] map_eq_imp_length_eq [of dn_key ns dn_key ms]
  by (simp add: successorIndex_def)

lemma finger_table_keys: "map dn_key ns = map dn_key ms \<Longrightarrow> finger_table ms = finger_table ns"
  by (simp add: finger_table_def successorIndex_keys [of ns ms] fun_eq_iff)

lemma ringKey_on_ring: "on_ring (ringKey C s)"
  using uint_lt2p [where 'a = 32] by (simp add: ringKey_def Let_def on_ring_def)

definition indexed_nodes :: "ring_node list \<Rightarrow> ring_node list" where
  "indexed_nodes ns = map (\<lambda>(i, n). n\<lparr>dn_index := int i\<rparr>) (enumerate 0 (sort_key dn_key ns))"

definition built_nodes :: "ring_node list \<Rightarrow> ring_node list" where
  "built_nodes ns = map (\<lambda>n. n\<lparr>dn_fingers := finger_table (indexed_nodes ns) (dn_key n)\<rparr>) (indexed_nodes ns)"

lemma build_nodes: "ct_nodes (build d) = built_nodes (ct_nodes d)"
  by (simp add: built_nodes_def indexed_nodes_def build_def Let_def)

lemma indexed_nth:
  assumes "i < length ns"
  shows "indexed_nodes ns ! i = (sort_key dn_key ns ! i)\<lparr>dn_index := int i\<rparr>"
  using assms by (simp add: indexed_nodes_def nth_enumerate_eq)

lemma built_nodes_length [simp]: "length (indexed_nodes ns) = length ns" "length (built_nodes ns) = length ns"
  by (simp_all add: built_nodes_def indexed_nodes_def)

lemma built_nodes_simps:
  "map dn_key (built_nodes ns) = map dn_key (sort_key dn_key ns)"
  "map dn_id (built_nodes ns) = map dn_id (sort_key dn_key ns)"
  "i < length ns \<Longrightarrow> dn_index (built_nodes ns ! i) = int i"
proof -
  have "built_nodes ns ! i = (indexed_nodes ns ! i)\<lparr>dn_fingers := finger_table (indexed_nodes ns) (dn_key (indexed_nodes ns ! i))\<rparr>"
    if "i < length ns" for i
    using that by (simp add: built_nodes_def)
  note e = this [unfolded indexed_nth]
  show "map dn_key (built_nodes ns) = map dn_key (sort_key dn_key ns)"
      "map dn_id (built_nodes ns) = map dn_id (sort_key dn_key ns)"
    by (intro nth_equalityI; simp add: e indexed_nth)+
  show "i < length ns \<Longrightarrow> dn_index (built_nodes ns ! i) = int i"
    by (simp add: e indexed_nth)
qed

lemma built_fingers:
  assumes "n \<in> set (built_nodes ns)"
  shows "dn_fingers n = finger_table (built_nodes ns) (dn_key n)"
proof -
  have "finger_table (built_nodes ns) = finger_table (indexed_nodes ns)"
    by (rule finger_table_keys) (simp add: built_nodes_def)
  with assms show ?thesis
    by (auto simp: built_nodes_def)
qed

lemma build_ring_ok:
  assumes "ns \<noteq> []" "distinct (map dn_key ns)" "\<forall>n \<in> set ns. on_ring (dn_key n)"
  shows "ring_ok (built_nodes ns)"
proof -
  let ?b = "built_nodes ns"
  have keys: "map dn_key ?b = map dn_key (sort_key dn_key ns)" by (rule built_nodes_simps)
  have so: "sorted (map dn_key ?b)" "distinct (map dn_key ?b)"
    using assms(2) by (simp_all add: keys distinct_map)
  have "keys_sorted ?b"
    unfolding keys_sorted_def
  proof (intro allI impI)
    fix i j
    assume ij: "i < j" "j < length ?b"
    with so have "map dn_key ?b ! i \<le> map dn_key ?b ! j" "map dn_key ?b ! i \<noteq> map dn_key ?b ! j"
      by (simp_all add: sorted_nth_mono nth_eq_iff_index_eq del: nth_map)
    with ij show "dn_key (?b ! i) < dn_key (?b ! j)" by simp
  qed
  moreover have "on_ring (dn_key n)" if "n \<in> set ?b" for n
  proof -
    have "dn_key n \<in> set (map dn_key ?b)" using that by simp
    then show ?thesis using assms(3) unfolding keys by auto
  qed
  moreover have "?b \<noteq> []"
    using assms(1) built_nodes_length(2) [of ns] by fastforce
  ultimately show ?thesis
    using built_fingers built_nodes_simps(3) by (simp add: ring_ok_def)
qed


text \<open>A ring set up from a list of ids, and announcements made on it.\<close>

fun add_all :: "crypto \<Rightarrow> hex list \<Rightarrow> chord_dht \<Rightarrow> chord_dht option" where
  "add_all C [] d = Some d"
| "add_all C (x # xs) d = (case addNode C x d of None \<Rightarrow> None | Some d' \<Rightarrow> add_all C xs d')"

fun provide_all :: "crypto \<Rightarrow> (hex \<times> hex) list \<Rightarrow> chord_dht \<Rightarrow> chord_dht option" where
  "provide_all C [] d = Some d"
| "provide_all C ((cid, p) # ps) d = (case provide C cid p d of None \<Rightarrow> None | Some d' \<Rightarrow> provide_all C ps d')"

definition start_ring :: "crypto \<Rightarrow> int \<Rightarrow> hex list \<Rightarrow> chord_dht option" where
  "start_ring C k ids = map_option build (add_all C ids (new_dht k))"

definition fresh_node :: "crypto \<Rightarrow> hex \<Rightarrow> ring_node" where
  "fresh_node C nid = \<lparr>dn_id = nid, dn_key = ringKey C nid, dn_index = -1, dn_fingers = []\<rparr>"

lemma add_all_nodes: "\<not> ct_built d \<Longrightarrow> add_all C ids d = Some (d\<lparr>ct_nodes := ct_nodes d @ map (fresh_node C) ids\<rparr>)"
  by (induction ids arbitrary: d) (simp_all add: addNode_def fresh_node_def)

definition ring_of :: "crypto \<Rightarrow> hex list \<Rightarrow> ring_node list" where
  "ring_of C ids = built_nodes (map (fresh_node C) ids)"

lemma reset_fold: "mget (fold (\<lambda>n. mset_at (dn_id n) []) (ns :: ring_node list) (m :: (hex, hex list) jsmap)) nid
    = (if nid \<in> dn_id ` set ns then Some [] else mget m nid)"
  by (induction ns arbitrary: m) auto

lemma start_ring_simps:
  assumes "start_ring C k ids = Some d"
  shows "ct_nodes d = ring_of C ids" "ct_built d" "ct_k d = k" "ct_providers d = []"
    "mget (ct_nodeIndex d) nid = (if nid \<in> set ids then Some [] else None)"
proof -
  have d: "d = build (new_dht k\<lparr>ct_nodes := map (fresh_node C) ids\<rparr>)"
    using assms add_all_nodes [of "new_dht k" C ids] by (simp add: start_ring_def new_dht_def)
  show "ct_nodes d = ring_of C ids" "ct_built d" "ct_k d = k" "ct_providers d = []"
    by (simp_all add: d build_nodes ring_of_def) (simp_all add: build_def Let_def new_dht_def)
  have "ct_nodeIndex d = fold (\<lambda>n. mset_at (dn_id n) []) (built_nodes (map (fresh_node C) ids)) []"
    by (simp add: d build_def built_nodes_def indexed_nodes_def Let_def new_dht_def)
  moreover have "dn_id ` set (built_nodes (map (fresh_node C) ids)) = set ids"
    using arg_cong [OF built_nodes_simps(2) [of "map (fresh_node C) ids"], of set] by (simp add: image_image fresh_node_def)
  ultimately show "mget (ct_nodeIndex d) nid = (if nid \<in> set ids then Some [] else None)"
    by (simp add: reset_fold)
qed

lemma ring_of_keys: "n \<in> set (ring_of C ids) \<Longrightarrow> dn_key n = ringKey C (dn_id n) \<and> dn_id n \<in> set ids"
proof -
  let ?ns = "map (fresh_node C) ids"
  assume "n \<in> set (ring_of C ids)"
  then obtain i where i: "i < length ids" "n = built_nodes ?ns ! i"
    by (auto simp: ring_of_def in_set_conv_nth)
  have "dn_key n = dn_key (sort_key dn_key ?ns ! i)" "dn_id n = dn_id (sort_key dn_key ?ns ! i)"
    using arg_cong [OF built_nodes_simps(1) [of ?ns], of "\<lambda>l. l ! i"] arg_cong [OF built_nodes_simps(2) [of ?ns], of "\<lambda>l. l ! i"] i
    by simp_all
  moreover have "sort_key dn_key ?ns ! i \<in> set ?ns"
    using i nth_mem [of i "sort_key dn_key ?ns"] by simp
  ultimately show ?thesis by (auto simp: fresh_node_def)
qed

lemma ring_of_ok: "ids \<noteq> [] \<Longrightarrow> distinct (map (ringKey C) ids) \<Longrightarrow> ring_ok (ring_of C ids)"
  unfolding ring_of_def by (rule build_ring_ok) (auto simp: fresh_node_def o_def ringKey_on_ring)

lemma ring_of_length [simp]: "length (ring_of C ids) = length ids"
  by (simp add: ring_of_def)

lemma ring_ids_inj: "ring_ok (ring_of C ids) \<Longrightarrow> m \<in> set (ring_of C ids) \<Longrightarrow> n \<in> set (ring_of C ids) \<Longrightarrow> dn_id m = dn_id n \<Longrightarrow> m = n"
  by (metis key_unique ring_of_keys)

text \<open>The \<open>k\<close> nodes responsible for a key are distinct and start at its successor.\<close>

lemma responsible_nodes:
  assumes "ct_nodes d \<noteq> []"
  shows "length (responsibleNodes d key) = nat (min (ct_k d) (int (length (ct_nodes d))))"
    "set (responsibleNodes d key) \<subseteq> set (ct_nodes d)"
    "1 \<le> ct_k d \<Longrightarrow> ct_nodes d ! successorIndex (ct_nodes d) key \<in> set (responsibleNodes d key)"
    "ring_ok (ct_nodes d) \<Longrightarrow> distinct (responsibleNodes d key)"
proof -
  let ?n = "length (ct_nodes d)" and ?s = "successorIndex (ct_nodes d) key"
  show "length (responsibleNodes d key) = nat (min (ct_k d) (int ?n))"
    by (simp add: responsibleNodes_def Let_def)
  show "set (responsibleNodes d key) \<subseteq> set (ct_nodes d)"
    using assms by (auto simp: responsibleNodes_def Let_def)
  have s: "?s < ?n" by (rule successorIndex_range [OF assms])
  show "1 \<le> ct_k d \<Longrightarrow> ct_nodes d ! ?s \<in> set (responsibleNodes d key)"
    using assms s by (auto simp: responsibleNodes_def Let_def image_iff intro!: bexI [of _ 0])
  assume ok: "ring_ok (ct_nodes d)"
  have "i = j" if "i < ?n" "j < ?n" "ct_nodes d ! ((?s + i) mod ?n) = ct_nodes d ! ((?s + j) mod ?n)" for i j
  proof -
    have "dn_index (ct_nodes d ! ((?s + i) mod ?n)) = int ((?s + i) mod ?n)" "dn_index (ct_nodes d ! ((?s + j) mod ?n)) = int ((?s + j) mod ?n)"
      using ok assms by (simp_all add: ring_ok_def)
    with that(3) have "(?s + i) mod ?n = (?s + j) mod ?n"
      by (metis of_nat_eq_iff)
    moreover have "(?s + k) mod ?n = (if ?s + k < ?n then ?s + k else ?s + k - ?n)" if "k < ?n" for k
      using that s by (simp add: le_mod_geq)
    ultimately show ?thesis
      using that(1,2) by (auto split: if_splits)
  qed
  then show "distinct (responsibleNodes d key)"
    by (auto simp: responsibleNodes_def Let_def distinct_map inj_on_def)
qed


section \<open>Records lie exactly on the responsible nodes\<close>

definition index_of :: "chord_dht \<Rightarrow> hex \<Rightarrow> hex set" where
  "index_of d nid = set (nvl (mget (ct_nodeIndex d) nid) [])"

lemma index_fold:
  "set (nvl (mget (fold (\<lambda>n m. mset_at (dn_id n) (sadd cid (nvl (mget m (dn_id n)) [])) m) ns m) nid) [])
    = (if nid \<in> dn_id ` set (ns :: ring_node list) then insert cid else id) (set (nvl (mget m nid) []))"
  by (induction ns arbitrary: m) (auto simp: fun_upd_def)

lemma provide_simps:
  assumes "provide C cid p d = Some d'"
  shows "ct_nodes d' = ct_nodes d" "ct_k d' = ct_k d" "ct_built d' = ct_built d" "ct_built d"
    "index_of d' nid = (if nid \<in> dn_id ` set (responsibleNodes d (ringKey C cid)) then insert cid else id) (index_of d nid)"
    "set (nvl (mget (ct_providers d') c) []) = (if c = cid then insert p else id) (set (nvl (mget (ct_providers d) c) []))"
    "responsibleNodes d' = responsibleNodes d"
  using assms by (auto simp: provide_def index_of_def index_fold responsibleNodes_def Let_def fun_eq_iff split: if_splits)

lemma provide_all_records:
  assumes "provide_all C ps d = Some d'"
  shows "ct_nodes d' = ct_nodes d \<and> ct_k d' = ct_k d \<and> ct_built d' = ct_built d \<and> responsibleNodes d' = responsibleNodes d
    \<and> index_of d' nid = index_of d nid \<union> {c \<in> fst ` set ps. nid \<in> dn_id ` set (responsibleNodes d (ringKey C c))}
    \<and> set (nvl (mget (ct_providers d') c) []) = set (nvl (mget (ct_providers d) c) []) \<union> {p. (c, p) \<in> set ps}"
  using assms
proof (induction C ps d rule: provide_all.induct)
  case (2 C cid p ps d)
  obtain d1 where d1: "provide C cid p d = Some d1" "provide_all C ps d1 = Some d'"
    using 2(2) by (auto split: option.splits)
  note s = provide_simps [OF d1(1)]
  from 2(1) [OF d1] show ?case
    by (auto simp: s)
qed simp

lemma ring_records:
  assumes "start_ring C k ids = Some d0" "provide_all C ps d0 = Some d" "ids \<noteq> []" "distinct (map (ringKey C) ids)"
    and n: "n \<in> set (ct_nodes d)"
  shows "cid \<in> index_of d (dn_id n) \<longleftrightarrow> cid \<in> fst ` set ps \<and> n \<in> set (responsibleNodes d (ringKey C cid))"
proof -
  note s = start_ring_simps [OF assms(1)] and p = provide_all_records [OF assms(2), of "dn_id n"]
  have ok: "ring_ok (ring_of C ids)" by (rule ring_of_ok [OF assms(3,4)])
  have e: "ct_nodes d0 = ring_of C ids" "n \<in> set (ring_of C ids)"
    using p n s(1) by auto
  have "dn_id n \<in> dn_id ` set (responsibleNodes d0 key) \<longleftrightarrow> n \<in> set (responsibleNodes d0 key)" for key
  proof (rule inj_on_image_mem_iff)
    show "inj_on dn_id (set (ring_of C ids))"
      by (rule inj_onI) (rule ring_ids_inj [OF ok])
    show "set (responsibleNodes d0 key) \<subseteq> set (ring_of C ids)"
      using responsible_nodes(2) [of d0 key] e(1) ok by (simp add: ring_ok_def)
  qed (rule e)
  moreover have "index_of d0 (dn_id n) = {}"
    using s(5) [of "dn_id n"] by (simp add: index_of_def)
  ultimately show ?thesis
    using p by auto
qed

lemma ring_lookup:
  assumes "start_ring C k ids = Some d0" "provide_all C ps d0 = Some d" "ids \<noteq> []" "distinct (map (ringKey C) ids)"
  shows "\<exists>provs hops. findProviders C cid from d = Some (provs, hops) \<and> set provs = {p. (cid, p) \<in> set ps}
    \<and> 0 \<le> hops \<and> hops \<le> 32 \<and> hops < int (length ids)"
    and "n \<in> set (ct_nodes d) \<Longrightarrow> on_ring key \<Longrightarrow> fst (findSuccessor (ct_nodes d) n key) = ct_nodes d ! successorIndex (ct_nodes d) key"
proof -
  note s = start_ring_simps [OF assms(1)] and p = provide_all_records [OF assms(2), of _ cid]
  have ok: "ring_ok (ct_nodes d)" and len: "length (ct_nodes d) = length ids" and bt: "ct_built d"
    using ring_of_ok [OF assms(3,4)] p s(1,2) by simp_all
  show "n \<in> set (ct_nodes d) \<Longrightarrow> on_ring key \<Longrightarrow> fst (findSuccessor (ct_nodes d) n key) = ct_nodes d ! successorIndex (ct_nodes d) key"
    using findSuccessor_spec [OF ok] by fastforce
  have "\<exists>start \<in> set (ct_nodes d). (case find (\<lambda>n. dn_id n = from) (ct_nodes d) of Some n \<Rightarrow> Some n | None \<Rightarrow> js_at (ct_nodes d) 0) = Some start"
  proof (cases "find (\<lambda>n. dn_id n = from) (ct_nodes d)")
    case None
    then show ?thesis using ok by (cases "ct_nodes d") (simp_all add: ring_ok_def js_at_def)
  next
    case (Some n)
    then have "n \<in> set (ct_nodes d)" by (auto simp: find_Some_iff)
    with Some show ?thesis by simp
  qed
  then obtain start where st: "start \<in> set (ct_nodes d)"
    "(case find (\<lambda>n. dn_id n = from) (ct_nodes d) of Some n \<Rightarrow> Some n | None \<Rightarrow> js_at (ct_nodes d) 0) = Some start" by blast
  obtain j where "findSuccessor (ct_nodes d) start (ringKey C cid) = (ct_nodes d ! successorIndex (ct_nodes d) (ringKey C cid), int j)"
      "j \<le> 32" "j < length (ct_nodes d)"
    using findSuccessor_spec [OF ok st(1) ringKey_on_ring] by blast
  moreover have "set (nvl (mget (ct_providers d) cid) []) = {p. (cid, p) \<in> set ps}"
    using p s(4) by simp
  ultimately show "\<exists>provs hops. findProviders C cid from d = Some (provs, hops) \<and> set provs = {p. (cid, p) \<in> set ps}
    \<and> 0 \<le> hops \<and> hops \<le> 32 \<and> hops < int (length ids)"
    using st(2) bt len by (simp add: findProviders_def)
qed

end
