(* ===== verification/Failure_Domain.thy ===== *)
theory Failure_Domain
  imports Provider_Ledger
begin

text \<open>
  Which holders fail together: \<open>src/engine/content/failure-domain.ts\<close>. The history per holder, the phi
  coefficient of a pair, and the grouping by union-find with path compression. The domains that come
  out are exactly the connected components of what was declared or observed, and the filter that keeps
  the pairwise sweep small loses no pair.
\<close>

section \<open>Observations\<close>

definition MIN_JOINT_FAILURES :: int where "MIN_JOINT_FAILURES = 3"
definition DOMAIN_PHI_THRESHOLD :: real where "DOMAIN_PHI_THRESHOLD = 8 / 10"
definition MAX_PAIRWISE_HOLDERS :: int where "MAX_PAIRWISE_HOLDERS = 256"
definition CORRELATION_RETAIN_MS :: int where "CORRELATION_RETAIN_MS = 7 * 24 * 60 * 60 * 1000"

definition observationBucketMs :: "storage_timing \<Rightarrow> int" where
  "observationBucketMs T = HEARTBEAT_INTERVAL_MS T"

record pair_evidence =
  pv_joint :: int
  pv_jointFailures :: int
  pv_phi :: "real option"

record failure_corr =
  fc_up :: "(string, int list) jsmap"
  fc_down :: "(string, int list) jsmap"
  fc_retain :: int

definition new_corr :: "storage_timing \<Rightarrow> int option \<Rightarrow> failure_corr" where
  "new_corr T retain = \<lparr>fc_up = [], fc_down = [],
     fc_retain = (case retain of Some r \<Rightarrow> r
       | None \<Rightarrow> max 1 \<lceil>real_of_int CORRELATION_RETAIN_MS / real_of_int (observationBucketMs T)\<rceil>)\<rparr>"

definition bucketOf :: "storage_timing \<Rightarrow> int \<Rightarrow> int" where
  "bucketOf T now = \<lfloor>real_of_int now / real_of_int (observationBucketMs T)\<rfloor>"

definition prune_map :: "string \<Rightarrow> int \<Rightarrow> (string, int list) jsmap \<Rightarrow> (string, int list) jsmap" where
  "prune_map h cutoff m = (case mget m h of
     None \<Rightarrow> m
   | Some bs \<Rightarrow> (let bs' = filter (\<lambda>b. \<not> b < cutoff) bs in if bs' = [] then mdel h m else mset_at h bs' m))"

definition corr_prune :: "string \<Rightarrow> int \<Rightarrow> failure_corr \<Rightarrow> failure_corr" where
  "corr_prune h current s = (let cutoff = current - fc_retain s in
     s\<lparr>fc_up := prune_map h cutoff (fc_up s), fc_down := prune_map h cutoff (fc_down s)\<rparr>)"

definition bucket_add :: "string \<Rightarrow> int \<Rightarrow> (string, int list) jsmap \<Rightarrow> (string, int list) jsmap" where
  "bucket_add h b m = mset_at h (sadd b (nvl (mget m h) [])) m"

definition bucket_del :: "string \<Rightarrow> int \<Rightarrow> (string, int list) jsmap \<Rightarrow> (string, int list) jsmap" where
  "bucket_del h b m = (case mget m h of None \<Rightarrow> m | Some bs \<Rightarrow> mset_at h (sdel b bs) m)"

definition corr_record :: "storage_timing \<Rightarrow> string \<Rightarrow> bool \<Rightarrow> int \<Rightarrow> failure_corr \<Rightarrow> failure_corr" where
  "corr_record T h ok now s = (let b = bucketOf T now in corr_prune h b
     (if ok then s\<lparr>fc_up := bucket_add h b (fc_up s), fc_down := bucket_del h b (fc_down s)\<rparr>
      else s\<lparr>fc_down := bucket_add h b (fc_down s), fc_up := bucket_del h b (fc_up s)\<rparr>))"

definition corr_forget :: "string \<Rightarrow> failure_corr \<Rightarrow> failure_corr" where
  "corr_forget h s = s\<lparr>fc_up := mdel h (fc_up s), fc_down := mdel h (fc_down s)\<rparr>"

definition corr_holders :: "failure_corr \<Rightarrow> string list" where
  "corr_holders s = fold sadd (mkeys (fc_up s) @ mkeys (fc_down s)) []"

definition ups :: "failure_corr \<Rightarrow> string \<Rightarrow> int list" where
  "ups s h = nvl (mget (fc_up s) h) []"

definition downs :: "failure_corr \<Rightarrow> string \<Rightarrow> int list" where
  "downs s h = nvl (mget (fc_down s) h) []"

text \<open>The newest of no buckets is minus infinity.\<close>

definition corr_sweep_one :: "int \<Rightarrow> string \<Rightarrow> int \<times> failure_corr \<Rightarrow> int \<times> failure_corr" where
  "corr_sweep_one cutoff h = (\<lambda>(removed, s). if list_all (\<lambda>b. b < cutoff) (ups s h @ downs s h)
     then (removed + 1, corr_forget h s) else (removed, s))"

definition corr_sweep :: "storage_timing \<Rightarrow> int \<Rightarrow> int option \<Rightarrow> failure_corr \<Rightarrow> int \<times> failure_corr" where
  "corr_sweep T now retain s = fold (corr_sweep_one (bucketOf T now - nvl retain (fc_retain s))) (corr_holders s) (0, s)"

definition failureCount :: "failure_corr \<Rightarrow> string \<Rightarrow> int" where
  "failureCount s h = int (length (downs s h))"

definition groupable :: "failure_corr \<Rightarrow> string list" where
  "groupable s = map fst (filter (\<lambda>(h, bs). int (length bs) \<ge> MIN_JOINT_FAILURES) (fc_down s))"

definition count_in :: "int list \<Rightarrow> int list \<Rightarrow> int" where
  "count_in xs ys = int (length (filter (\<lambda>b. b \<in> set ys) xs))"

definition count_else :: "int list \<Rightarrow> int list \<Rightarrow> int list \<Rightarrow> int" where
  "count_else xs ys zs = int (length (filter (\<lambda>b. b \<notin> set ys \<and> b \<in> set zs) xs))"

definition evidence :: "failure_corr \<Rightarrow> string \<Rightarrow> string \<Rightarrow> pair_evidence" where
  "evidence s a b = (let
     n11 = count_in (downs s a) (downs s b); n10 = count_else (downs s a) (downs s b) (ups s b);
     n01 = count_in (ups s a) (downs s b); n00 = count_else (ups s a) (downs s b) (ups s b);
     joint = n11 + n10 + n01 + n00
   in if n11 < MIN_JOINT_FAILURES then \<lparr>pv_joint = joint, pv_jointFailures = n11, pv_phi = None\<rparr>
      else let num = n11 * n00 - n10 * n01;
               den = sqrt (real_of_int ((n11 + n10) * (n01 + n00) * (n11 + n01) * (n10 + n00)))
        in \<lparr>pv_joint = joint, pv_jointFailures = n11, pv_phi = (if den = 0 then None else Some (real_of_int num / den))\<rparr>)"

definition sameDomain :: "failure_corr \<Rightarrow> string \<Rightarrow> string \<Rightarrow> bool" where
  "sameDomain s a b = (case pv_phi (evidence s a b) of None \<Rightarrow> False | Some phi \<Rightarrow> phi \<ge> DOMAIN_PHI_THRESHOLD)"

section \<open>Grouping\<close>

type_synonym parents = "(string, string) jsmap"

text \<open>The recursion of the source ends only when the parent links have no cycle: \<open>None\<close> when it does not.\<close>

partial_function (option) find_root :: "string \<Rightarrow> parents \<Rightarrow> (string \<times> parents) option" where
  "find_root x P = (let r = nvl (mget P x) x in
     if r = x then Some (x, P)
     else Option.bind (find_root r P) (\<lambda>q. Some (fst q, mset_at x (fst q) (snd q))))"

definition unite :: "string \<Rightarrow> string \<Rightarrow> parents \<Rightarrow> parents option" where
  "unite x y P = (case find_root x P of None \<Rightarrow> None | Some (rx, P1) \<Rightarrow>
     (case find_root y P1 of None \<Rightarrow> None | Some (ry, P2) \<Rightarrow>
        Some (if rx \<noteq> ry then mset_at rx ry P2 else P2)))"

fun declared_loop :: "(string \<Rightarrow> string option) \<Rightarrow> string list \<Rightarrow> (string, string) jsmap \<Rightarrow> parents \<Rightarrow> parents option" where
  "declared_loop declared [] seen P = Some P"
| "declared_loop declared (h # hs) seen P =
     (if \<not> truthy (declared h) then declared_loop declared hs seen P
      else let d = the (declared h) in
        if truthy (mget seen d)
        then (case unite h (the (mget seen d)) P of None \<Rightarrow> None | Some P' \<Rightarrow> declared_loop declared hs seen P')
        else declared_loop declared hs (mset_at d h seen) P)"

fun pairs_of :: "'a list \<Rightarrow> ('a \<times> 'a) list" where
  "pairs_of [] = []"
| "pairs_of (x # xs) = map (Pair x) xs @ pairs_of xs"

fun unite_pairs :: "(string \<Rightarrow> string \<Rightarrow> bool) \<Rightarrow> (string \<times> string) list \<Rightarrow> parents \<Rightarrow> parents option" where
  "unite_pairs same [] P = Some P"
| "unite_pairs same ((a, b) # ps) P = (if same a b
     then (case unite a b P of None \<Rightarrow> None | Some P' \<Rightarrow> unite_pairs same ps P') else unite_pairs same ps P)"

definition domain_candidates :: "failure_corr \<Rightarrow> string list \<Rightarrow> string list" where
  "domain_candidates s holders = (let cs = filter (\<lambda>h. h \<in> set (groupable s)) holders in
     if int (length cs) > MAX_PAIRWISE_HOLDERS
     then slice0 MAX_PAIRWISE_HOLDERS (sort_key (\<lambda>h. - failureCount s h) cs) else cs)"

fun out_loop :: "string list \<Rightarrow> parents \<Rightarrow> (string, string) jsmap \<Rightarrow> (string, string) jsmap option" where
  "out_loop [] P out = Some out"
| "out_loop (h # hs) P out = (case find_root h P of None \<Rightarrow> None | Some (r, P') \<Rightarrow> out_loop hs P' (mset_at h r out))"

definition inferDomains :: "string list \<Rightarrow> failure_corr \<Rightarrow> (string \<Rightarrow> string option) option \<Rightarrow> (string, string) jsmap option" where
  "inferDomains holders s declared =
     (case (case declared of None \<Rightarrow> Some (fold (\<lambda>h. mset_at h h) holders [])
              | Some d \<Rightarrow> declared_loop d holders [] (fold (\<lambda>h. mset_at h h) holders [])) of
        None \<Rightarrow> None
      | Some P \<Rightarrow> (case unite_pairs (sameDomain s) (pairs_of (domain_candidates s holders)) P of
           None \<Rightarrow> None
         | Some P' \<Rightarrow> out_loop holders P' []))"

definition independentCount :: "string list \<Rightarrow> failure_corr \<Rightarrow> (string \<Rightarrow> string option) option \<Rightarrow> int option" where
  "independentCount holders s declared = map_option (\<lambda>out. int (length (remdups (mvals out)))) (inferDomains holders s declared)"


section \<open>Union-find\<close>

text \<open>\<open>leads P x r\<close>: following the parent links from \<open>x\<close> ends at the root \<open>r\<close>.\<close>

inductive leads :: "(string \<Rightarrow> string option) \<Rightarrow> string \<Rightarrow> string \<Rightarrow> bool" for P where
  root: "nvl (P x) x = x \<Longrightarrow> leads P x x"
| link: "P x = Some y \<Longrightarrow> y \<noteq> x \<Longrightarrow> leads P y r \<Longrightarrow> leads P x r"

inductive_cases leadsE: "leads P x r"

lemma leads_root: "leads P x r \<Longrightarrow> nvl (P r) r = r"
  by (induction rule: leads.induct) simp_all

lemma leads_unique: "leads P x r \<Longrightarrow> leads P x s \<Longrightarrow> r = s"
proof (induction arbitrary: s rule: leads.induct)
  case (root x)
  from root(2) show ?case
    using root(1) by (cases rule: leads.cases) simp_all
next
  case (link x y r)
  from link(5) have "leads P y s"
    using link(1,2) by (cases rule: leads.cases) simp_all
  then show ?case by (rule link(4))
qed

definition rooted :: "(string \<Rightarrow> string option) \<Rightarrow> bool" where
  "rooted P \<longleftrightarrow> (\<forall>x. \<exists>r. leads P x r)"

lemma leads_iff:
  assumes "rooted P" "\<And>x r. leads P x r \<Longrightarrow> leads Q x (f r)"
  shows "leads Q x s \<longleftrightarrow> (\<exists>r. leads P x r \<and> s = f r)" and "rooted Q"
  using assms leads_unique [of Q x] unfolding rooted_def by blast+

text \<open>Path compression changes no root.\<close>

lemma leads_compress:
  assumes "leads P x r" "leads P z s"
  shows "leads (P(x \<mapsto> r)) z s"
  using assms(2)
proof (induction rule: leads.induct)
  case (root z)
  show ?case
  proof (cases "z = x")
    case True
    with root have "leads P x x"
      by (auto intro: leads.root)
    with leads_unique [OF assms(1)] have "r = x"
      by blast
    with True show ?thesis by (intro leads.root) simp
  qed (use root in \<open>intro leads.root, simp\<close>)
next
  case (link z y s)
  show ?case
  proof (cases "z = x")
    case True
    have s: "s = r"
      using leads_unique [OF assms(1)] leads.link [OF link(1-3)] True by simp
    have rr: "nvl (P r) r = r" by (rule leads_root [OF assms(1)])
    show ?thesis
    proof (cases "r = x")
      case True
      with \<open>z = x\<close> s show ?thesis by (auto intro: leads.root)
    next
      case False
      with rr have "leads (P(x \<mapsto> r)) r r" by (auto intro: leads.root)
      with False have "leads (P(x \<mapsto> r)) x r"
        by (auto intro: leads.link)
      with True s show ?thesis by (simp only:)
    qed
  next
    case False
    with link(1) have "(P(x \<mapsto> r)) z = Some y" by simp
    then show ?thesis using link(2,4) by (rule leads.link)
  qed
qed

lemma find_root_spec:
  "leads (mget P) x r \<Longrightarrow> \<exists>P'. find_root x P = Some (r, P') \<and> (\<forall>z s. leads (mget P) z s \<longrightarrow> leads (mget P') z s)"
proof (induction rule: leads.induct)
  case (root x)
  then show ?case by (subst find_root.simps) (simp add: Let_def)
next
  case (link x y r)
  then obtain P' where P': "find_root y P = Some (r, P')" "\<And>z s. leads (mget P) z s \<Longrightarrow> leads (mget P') z s"
    by blast
  have "leads (mget P') x r"
    by (rule P'(2) [OF leads.link [OF link(1-3)]])
  then have "leads (mget (mset_at x r P')) z s" if "leads (mget P) z s" for z s
    using leads_compress [of "mget P'" x r] P'(2) [OF that] by simp
  moreover have "find_root x P = Some (r, mset_at x r P')"
    using link(1,2) P'(1) by (subst find_root.simps) (simp add: Let_def)
  ultimately show ?case by blast
qed

lemma leads_redirect:
  assumes "nvl (P rx) rx = rx" "nvl (P ry) ry = ry" "rx \<noteq> ry" "leads P z s"
  shows "leads (P(rx \<mapsto> ry)) z (if s = rx then ry else s)"
  using assms(4)
proof (induction rule: leads.induct)
  case (root z)
  show ?case
  proof (cases "z = rx")
    case True
    have "leads (P(rx \<mapsto> ry)) ry ry"
      using assms(2,3) by (auto intro: leads.root)
    with assms(3) have "leads (P(rx \<mapsto> ry)) rx ry"
      by (auto intro: leads.link)
    with True show ?thesis by (simp del: fun_upd_apply)
  next
    case False
    with root have "leads (P(rx \<mapsto> ry)) z z"
      by (auto intro: leads.root)
    with False show ?thesis by (simp only: if_False)
  qed
next
  case (link z y s)
  then have "z \<noteq> rx" using assms(1) by auto
  with link(1) have "(P(rx \<mapsto> ry)) z = Some y" by simp
  then show ?case using link(2,4) by (rule leads.link)
qed

text \<open>\<open>E\<close> is the set of pairs united so far: two holders have one root when they are joined by such pairs.\<close>

definition joined :: "(string \<times> string) set \<Rightarrow> string \<Rightarrow> string \<Rightarrow> bool" where
  "joined E x y \<longleftrightarrow> (x, y) \<in> (E \<union> E\<inverse>)\<^sup>*"

lemma joined_refl [simp]: "joined E x x"
  by (simp add: joined_def)

lemma joined_sym: "joined E x y \<Longrightarrow> joined E y x"
  unfolding joined_def by (metis converse_Un converse_converse rtrancl_converseI sup_commute)

lemma joined_trans: "joined E x y \<Longrightarrow> joined E y z \<Longrightarrow> joined E x z"
  unfolding joined_def by (rule rtrancl_trans)

lemma joined_mono: "E \<subseteq> F \<Longrightarrow> joined E x y \<Longrightarrow> joined F x y"
  unfolding joined_def by (erule rtrancl_mono [THEN subsetD, rotated]) auto

lemma joined_edge: "(x, y) \<in> E \<Longrightarrow> joined E x y"
  by (auto simp: joined_def)

definition grouped :: "parents \<Rightarrow> (string \<times> string) set \<Rightarrow> bool" where
  "grouped P E \<longleftrightarrow> rooted (mget P) \<and> (\<forall>x y r s. leads (mget P) x r \<longrightarrow> leads (mget P) y s \<longrightarrow> (r = s \<longleftrightarrow> joined E x y))"

lemma grouped_find:
  assumes "grouped P E" "find_root x P = Some (r, P')"
  shows "leads (mget P) x r" "leads (mget P') z s \<longleftrightarrow> leads (mget P) z s" "grouped P' E"
proof -
  obtain q where "leads (mget P) x q"
    using assms(1) unfolding grouped_def rooted_def by blast
  with find_root_spec [OF this] assms(2)
  have r: "leads (mget P) x r" "\<And>z s. leads (mget P) z s \<Longrightarrow> leads (mget P') z s"
    by auto
  show "leads (mget P) x r" by (rule r(1))
  have same: "leads (mget P') z s \<longleftrightarrow> leads (mget P) z s" for z s
    using leads_iff(1) [of "mget P" "mget P'" "\<lambda>r. r"] r(2) assms(1) by (auto simp: grouped_def)
  then show "leads (mget P') z s \<longleftrightarrow> leads (mget P) z s" "grouped P' E"
    using assms(1) by (simp_all add: grouped_def rooted_def)
qed

lemma find_total: "grouped P E \<Longrightarrow> \<exists>r P'. find_root x P = Some (r, P')"
  using find_root_spec unfolding grouped_def rooted_def by blast

lemma unite_grouped:
  assumes "grouped P E"
  shows "\<exists>P'. unite x y P = Some P' \<and> grouped P' (insert (x, y) E)"
proof -
  obtain rx P1 where f1: "find_root x P = Some (rx, P1)"
    using find_total [OF assms] by blast
  note g1 = grouped_find [OF assms f1]
  obtain ry P2 where f2: "find_root y P1 = Some (ry, P2)"
    using find_total [OF g1(3)] by blast
  note g2 = grouped_find [OF g1(3) f2]
  have lx: "leads (mget P2) x rx" and ly: "leads (mget P2) y ry"
    using g1(1,2) g2(1,2) by simp_all
  define f where "f r = (if r = rx then ry else r)" for r
  define Q where "Q = (if rx \<noteq> ry then mset_at rx ry P2 else P2)"
  have rt: "rooted (mget P2)" and g: "\<And>x y r s. leads (mget P2) x r \<Longrightarrow> leads (mget P2) y s \<Longrightarrow> (r = s \<longleftrightarrow> joined E x y)"
    using g2(3) by (simp_all add: grouped_def)
  have step: "leads (mget Q) z (f r)" if "leads (mget P2) z r" for z r
    using leads_redirect [OF leads_root [OF lx] leads_root [OF ly] _ that] that by (auto simp: Q_def f_def)
  note q = leads_iff [of "mget P2" "mget Q" f, OF rt step]
  let ?F = "insert (x, y) E"
  have con: "joined ?F z w \<longleftrightarrow> f r = f s" if r: "leads (mget P2) z r" and s: "leads (mget P2) w s" for z w r s
  proof
    assume "joined ?F z w"
    then show "f r = f s"
      unfolding joined_def using s
    proof (induction arbitrary: s rule: rtrancl_induct)
      case base
      with r leads_unique show ?case by metis
    next
      case (step u v)
      obtain t where t: "leads (mget P2) u t"
        using rt by (auto simp: rooted_def)
      from step(2) consider "joined E u v" | "u = x \<and> v = y" | "u = y \<and> v = x"
        using joined_edge [of u v E] joined_edge [of v u E, THEN joined_sym] by blast
      then have "f t = f s"
      proof cases
        case 1
        with g [OF t step(4)] show ?thesis by simp
      next
        case 2
        then have "t = rx" "s = ry"
          using leads_unique [OF t] leads_unique [OF step(4)] lx ly by simp_all
        then show ?thesis by (simp add: f_def)
      next
        case 3
        then have "t = ry" "s = rx"
          using leads_unique [OF t] leads_unique [OF step(4)] lx ly by simp_all
        then show ?thesis by (simp add: f_def)
      qed
      with step(3) [OF t] show ?case by simp
    qed
  next
    assume e: "f r = f s"
    have xy: "joined ?F x y" by (rule joined_edge) simp
    have sub: "joined ?F u v" if "joined E u v" for u v
      using joined_mono [OF _ that] by blast
    from e consider "r = s" | "r = rx \<and> s = ry" | "r = ry \<and> s = rx"
      by (auto simp: f_def split: if_splits)
    then show "joined ?F z w"
    proof cases
      case 1
      with g [OF r s] sub show ?thesis by simp
    next
      case 2
      with g [OF r lx] g [OF ly s] have "joined E z x" "joined E y w" by simp_all
      with sub xy joined_trans show ?thesis by blast
    next
      case 3
      with g [OF r ly] g [OF lx s] have "joined E z y" "joined E x w" by simp_all
      then have "joined ?F z y" "joined ?F x w" by (simp_all add: sub)
      then show ?thesis
        by (meson joined_sym joined_trans xy)
    qed
  qed
  have "grouped Q ?F"
    unfolding grouped_def
  proof (intro conjI allI impI)
    show "rooted (mget Q)" by (rule q(2))
    fix z w r s
    assume "leads (mget Q) z r" "leads (mget Q) w s"
    then obtain r' s' where "leads (mget P2) z r'" "r = f r'" "leads (mget P2) w s'" "s = f s'"
      using q(1) by blast
    with con show "r = s \<longleftrightarrow> joined ?F z w" by simp
  qed
  with f1 f2 show ?thesis
    by (simp add: unite_def Q_def)
qed


section \<open>Domains are connected components\<close>

lemma grouped_congruent: "grouped P E \<Longrightarrow> (\<And>x y. joined E x y \<longleftrightarrow> joined F x y) \<Longrightarrow> grouped P F"
  by (simp add: grouped_def)

lemma joined_sup:
  assumes "\<And>x y. (x, y) \<in> F \<Longrightarrow> joined E x y" "E \<subseteq> F"
  shows "joined E x y \<longleftrightarrow> joined F x y"
proof
  assume "joined F x y"
  then show "joined E x y"
    unfolding joined_def [of F]
  proof (induction rule: rtrancl_induct)
    case (step u v)
    then have "joined E u v" using assms(1) joined_sym by blast
    with step(3) show ?case by (rule joined_trans)
  qed simp
qed (rule joined_mono [OF assms(2)])

lemma init_grouped: "grouped (fold (\<lambda>h. mset_at h h) hs []) {}"
proof -
  have "mget (fold (\<lambda>h. mset_at h h) hs m) x = (if x \<in> set hs then Some x else mget m x)" for m and x :: string
    by (induction hs arbitrary: m) auto
  then have "nvl (mget (fold (\<lambda>h. mset_at h h) hs []) x) x = x" for x :: string
    by simp
  then have l: "leads (mget (fold (\<lambda>h. mset_at h h) hs [])) x x" for x
    by (rule leads.root)
  then have "leads (mget (fold (\<lambda>h. mset_at h h) hs [])) x r \<longleftrightarrow> r = x" for x r
    using leads_unique by blast
  with l show ?thesis
    by (auto simp: grouped_def rooted_def joined_def)
qed

definition same_declared :: "(string \<Rightarrow> string option) \<Rightarrow> string list \<Rightarrow> (string \<times> string) set" where
  "same_declared declared hs = {(x, y). x \<in> set hs \<and> y \<in> set hs \<and> truthy (declared x) \<and> declared x = declared y}"

definition declared_out :: "(string \<Rightarrow> string option) \<Rightarrow> string list \<Rightarrow> (string, string) jsmap
    \<Rightarrow> (string \<times> string) set \<Rightarrow> (string \<times> string) set \<Rightarrow> bool" where
  "declared_out declared hs seen E F \<longleftrightarrow> E \<subseteq> F
    \<and> (\<forall>e \<in> F - E. declared (snd e) = declared (fst e) \<and> truthy (declared (fst e)) \<and> fst e \<in> set hs \<and> snd e \<in> set hs \<union> ran (mget seen))
    \<and> (\<forall>k \<in> set hs. truthy (declared k) \<longrightarrow> (\<exists>g. joined F k g
         \<and> (mget seen (the (declared k)) = Some g \<or> mget seen (the (declared k)) = None \<and> find (\<lambda>x. declared x = declared k) hs = Some g)))"

lemma declared_skip:
  assumes "declared_out declared hs seen E F" "\<not> truthy (declared h)"
  shows "declared_out declared (h # hs) seen E F"
proof -
  have "declared h \<noteq> declared k" if "truthy (declared k)" for k
    using that assms(2) by auto
  with assms show ?thesis by (force simp: declared_out_def)
qed

lemma declared_outI:
  assumes "E \<subseteq> F"
    "\<And>e. e \<in> F - E \<Longrightarrow> declared (snd e) = declared (fst e) \<and> truthy (declared (fst e)) \<and> fst e \<in> set hs \<and> snd e \<in> set hs \<union> ran (mget seen)"
    "\<And>k. k \<in> set hs \<Longrightarrow> truthy (declared k) \<Longrightarrow> \<exists>g. joined F k g
         \<and> (mget seen (the (declared k)) = Some g \<or> mget seen (the (declared k)) = None \<and> find (\<lambda>x. declared x = declared k) hs = Some g)"
  shows "declared_out declared hs seen E F"
  using assms by (simp add: declared_out_def)

lemma declared_outD:
  assumes "declared_out declared hs seen E F"
  shows "E \<subseteq> F"
    "e \<in> F - E \<Longrightarrow> declared (snd e) = declared (fst e) \<and> truthy (declared (fst e)) \<and> fst e \<in> set hs \<and> snd e \<in> set hs \<union> ran (mget seen)"
    "k \<in> set hs \<Longrightarrow> truthy (declared k) \<Longrightarrow> \<exists>g. joined F k g
         \<and> (mget seen (the (declared k)) = Some g \<or> mget seen (the (declared k)) = None \<and> find (\<lambda>x. declared x = declared k) hs = Some g)"
  using assms unfolding declared_out_def by blast+

lemma declared_merge:
  assumes "declared_out declared hs seen (insert (h, g) E) F" "declared h = Some d" "d \<noteq> []" "mget seen d = Some g" "declared g = Some d"
  shows "declared_out declared (h # hs) seen E F"
proof (rule declared_outI)
  note out = declared_outD [OF assms(1)]
  have "joined F h g"
    using out(1) by (auto intro: joined_edge)
  show "E \<subseteq> F" using out(1) by blast
  show "declared (snd e) = declared (fst e) \<and> truthy (declared (fst e)) \<and> fst e \<in> set (h # hs) \<and> snd e \<in> set (h # hs) \<union> ran (mget seen)"
    if "e \<in> F - E" for e
  proof (cases "e = (h, g)")
    case True
    with assms(2-5) ranI [of "mget seen" d g] show ?thesis by simp
  next
    case False
    with out(2) [of e] that show ?thesis by simp
  qed
  show "\<exists>e. joined F k e \<and> (mget seen (the (declared k)) = Some e
      \<or> mget seen (the (declared k)) = None \<and> find (\<lambda>x. declared x = declared k) (h # hs) = Some e)"
    if "k \<in> set (h # hs)" "truthy (declared k)" for k
  proof (cases "declared k = declared h")
    case True
    show ?thesis
    proof (cases "k = h")
      case False
      with out(3) [of k] that True assms(2,4) show ?thesis by auto
    qed (use \<open>joined F h g\<close> assms(2,4) in auto)
  next
    case False
    with out(3) [of k] that show ?thesis by auto
  qed
qed

lemma declared_first:
  assumes "declared_out declared hs (mset_at d h seen) E F" "declared h = Some d" "d \<noteq> []" "mget seen d = None"
  shows "declared_out declared (h # hs) seen E F"
proof (rule declared_outI)
  note out = declared_outD [OF assms(1)]
  show "E \<subseteq> F" by (rule out(1))
  show "declared (snd e) = declared (fst e) \<and> truthy (declared (fst e)) \<and> fst e \<in> set (h # hs) \<and> snd e \<in> set (h # hs) \<union> ran (mget seen)"
    if "e \<in> F - E" for e
    using out(2) [OF that] assms(4) by simp
  show "\<exists>e. joined F k e \<and> (mget seen (the (declared k)) = Some e
      \<or> mget seen (the (declared k)) = None \<and> find (\<lambda>x. declared x = declared k) (h # hs) = Some e)"
    if k: "k \<in> set (h # hs)" "truthy (declared k)" for k
  proof (cases "declared k = declared h")
    case True
    have "joined F k h"
      using out(3) [of k] k True assms(2) by (cases "k = h") auto
    with True assms(2,4) show ?thesis by (intro exI [of _ h]) simp
  next
    case False
    then have "the (declared k) \<noteq> d" "k \<noteq> h"
      using k(2) assms(2) by (auto simp: truthy_iff)
    with out(3) [of k] k False show ?thesis by auto
  qed
qed

lemma declared_loop_spec:
  assumes "grouped P E" "[] \<notin> set hs" "\<And>d g. mget seen d = Some g \<Longrightarrow> g \<noteq> [] \<and> truthy (declared g) \<and> declared g = Some d"
  shows "\<exists>P' F. declared_loop declared hs seen P = Some P' \<and> grouped P' F \<and> declared_out declared hs seen E F"
  using assms
proof (induction hs arbitrary: P E seen)
  case Nil
  then show ?case by (intro exI [of _ P] exI [of _ E]) (simp add: declared_out_def)
next
  case (Cons h hs)
  then have ne: "[] \<notin> set hs" "h \<noteq> []" by auto
  show ?case
  proof (cases "truthy (declared h)")
    case False
    with Cons.IH [OF Cons.prems(1) ne(1) Cons.prems(3)] declared_skip show ?thesis by fastforce
  next
    case True
    then obtain d where d: "declared h = Some d" "d \<noteq> []"
      by (auto simp: truthy_iff)
    show ?thesis
    proof (cases "mget seen d")
      case (Some g)
      then have g: "g \<noteq> []" "declared g = Some d"
        using Cons.prems(3) by auto
      obtain P1 where P1: "unite h g P = Some P1" "grouped P1 (insert (h, g) E)"
        using unite_grouped [OF Cons.prems(1)] by blast
      from Cons.IH [OF P1(2) ne(1) Cons.prems(3)] obtain P' F where
        "declared_loop declared hs seen P1 = Some P'" "grouped P' F" "declared_out declared hs seen (insert (h, g) E) F"
        by blast
      with declared_merge [where declared = declared and d = d and h = h and seen = seen, OF _ d Some g(2)] True d g(1) Some P1(1) show ?thesis by auto
    next
      case None
      have "g \<noteq> [] \<and> truthy (declared g) \<and> declared g = Some e" if "mget (mset_at d h seen) e = Some g" for e g
        using that Cons.prems(3) [of e g] d ne by (cases "e = d") (auto simp: truthy_iff)
      from Cons.IH [OF Cons.prems(1) ne(1) this] obtain P' F where
        "declared_loop declared hs (mset_at d h seen) P = Some P'" "grouped P' F" "declared_out declared hs (mset_at d h seen) E F"
        by blast
      with declared_first [where declared = declared and d = d and h = h and seen = seen, OF _ d None] True d None show ?thesis by auto
    qed
  qed
qed

text \<open>Holders that declared the same machine are joined, and no others.\<close>

lemma declared_joined:
  assumes "declared_out declared hs [] {} F"
  shows "joined F x y \<longleftrightarrow> joined (same_declared declared hs) x y"
proof -
  have 1: "(x, y) \<in> same_declared declared hs" if "(x, y) \<in> F" for x y
    using assms that by (force simp: declared_out_def same_declared_def)
  have 2: "joined F x y" if "(x, y) \<in> same_declared declared hs" for x y
  proof -
    have h: "x \<in> set hs" "y \<in> set hs" "truthy (declared x)" "truthy (declared y)" "declared x = declared y"
      using that by (auto simp: same_declared_def)
    then obtain g where g: "joined F x g" "find (\<lambda>z. declared z = declared x) hs = Some g"
      using assms by (auto simp: declared_out_def)
    obtain g' where "joined F y g'" "find (\<lambda>z. declared z = declared y) hs = Some g'"
      using assms h by (auto simp: declared_out_def)
    with g h(5) show ?thesis
      by (metis joined_sym joined_trans option.inject)
  qed
  let ?U = "same_declared declared hs \<union> F"
  have "joined F x y \<longleftrightarrow> joined ?U x y"
    using 2 by (intro joined_sup) (auto intro: joined_edge)
  also have "\<dots> \<longleftrightarrow> joined (same_declared declared hs) x y"
    using joined_sup [of ?U "same_declared declared hs" x y] 1 by (auto intro: joined_edge)
  finally show ?thesis .
qed

lemma unite_pairs_grouped:
  "grouped P E \<Longrightarrow> \<exists>P'. unite_pairs same ps P = Some P' \<and> grouped P' (E \<union> {(a, b) \<in> set ps. same a b})"
proof (induction ps arbitrary: P E)
  case (Cons p ps)
  obtain a b where p: "p = (a, b)" by force
  show ?case
  proof (cases "same a b")
    case True
    obtain P1 where P1: "unite a b P = Some P1" "grouped P1 (insert (a, b) E)"
      using unite_grouped [OF Cons.prems] by blast
    have "insert (a, b) E \<union> {(a, b) \<in> set ps. same a b} = E \<union> {(a, b) \<in> set (p # ps). same a b}"
      using True p by auto
    with Cons.IH [OF P1(2)] P1(1) True p show ?thesis by auto
  next
    case False
    then have "{(a, b) \<in> set ps. same a b} = {(a, b) \<in> set (p # ps). same a b}"
      using p by auto
    with Cons.IH [OF Cons.prems] False p show ?thesis by simp
  qed
qed simp

lemma out_loop_spec:
  assumes "grouped P E"
  shows "\<exists>out'. out_loop hs P out = Some out' \<and> (\<forall>h. h \<notin> set hs \<longrightarrow> mget out' h = mget out h)
    \<and> (\<forall>h \<in> set hs. \<exists>r. mget out' h = Some r \<and> leads (mget P) h r)"
  using assms
proof (induction hs arbitrary: P out)
  case (Cons h hs)
  obtain r P' where f: "find_root h P = Some (r, P')"
    using find_total [OF Cons.prems] by blast
  note g = grouped_find [OF Cons.prems f]
  obtain out' where o: "out_loop hs P' (mset_at h r out) = Some out'"
      "\<forall>x. x \<notin> set hs \<longrightarrow> mget out' x = mget (mset_at h r out) x"
      "\<forall>x \<in> set hs. \<exists>r. mget out' x = Some r \<and> leads (mget P') x r"
    using Cons.IH [OF g(3)] by blast
  have "\<exists>r. mget out' h = Some r \<and> leads (mget P) h r"
    using o g by (cases "h \<in> set hs") auto
  with o f g(2) show ?case by auto
qed simp


text \<open>The histories a run of calls can build.\<close>

definition history_ok :: "failure_corr \<Rightarrow> bool" where
  "history_ok s \<longleftrightarrow> wf_map (fc_up s) \<and> wf_map (fc_down s)
     \<and> (\<forall>h. distinct (ups s h) \<and> distinct (downs s h) \<and> set (ups s h) \<inter> set (downs s h) = {})"

datatype corr_op =
    CorrRecord string bool int
  | CorrForget string
  | CorrSweep int "int option"

fun corr_step :: "storage_timing \<Rightarrow> corr_op \<Rightarrow> failure_corr \<Rightarrow> failure_corr" where
  "corr_step T (CorrRecord h ok now) s = corr_record T h ok now s"
| "corr_step T (CorrForget h) s = corr_forget h s"
| "corr_step T (CorrSweep now retain) s = snd (corr_sweep T now retain s)"

lemma prune_get: "nvl (mget (prune_map h c m) x) [] = (if x = h then filter (\<lambda>b. \<not> b < c) (nvl (mget m h) []) else nvl (mget m x) [])"
  by (auto simp: prune_map_def Let_def split: option.split)

lemma add_get: "nvl (mget (bucket_add h b m) x) [] = (if x = h then sadd b (nvl (mget m h) []) else nvl (mget m x) [])"
  by (simp add: bucket_add_def)

lemma del_get: "nvl (mget (bucket_del h b m) x) [] = (if x = h then sdel b (nvl (mget m h) []) else nvl (mget m x) [])"
  by (auto simp: bucket_del_def sdel_def split: option.split)

lemma bucket_wf: "wf_map m \<Longrightarrow> wf_map (prune_map h c m) \<and> wf_map (bucket_add h b m) \<and> wf_map (bucket_del h b m)"
  by (simp add: prune_map_def bucket_add_def bucket_del_def Let_def split: option.split)

lemma record_views:
  "ups (corr_record T h ok now s) x = (if x = h then filter (\<lambda>b. \<not> b < bucketOf T now - fc_retain s)
     (if ok then sadd (bucketOf T now) (ups s h) else sdel (bucketOf T now) (ups s h)) else ups s x)"
  "downs (corr_record T h ok now s) x = (if x = h then filter (\<lambda>b. \<not> b < bucketOf T now - fc_retain s)
     (if ok then sdel (bucketOf T now) (downs s h) else sadd (bucketOf T now) (downs s h)) else downs s x)"
  by (simp_all add: ups_def downs_def corr_record_def corr_prune_def Let_def prune_get add_get del_get)

lemma forget_views: "ups (corr_forget h s) x = (if x = h then [] else ups s x)" "downs (corr_forget h s) x = (if x = h then [] else downs s x)"
  by (simp_all add: ups_def downs_def corr_forget_def)

lemma history_record: "history_ok s \<Longrightarrow> history_ok (corr_record T h ok now s)"
proof -
  assume ok: "history_ok s"
  have "wf_map (fc_up (corr_record T h ok now s))" "wf_map (fc_down (corr_record T h ok now s))"
    using ok by (auto simp: history_ok_def corr_record_def corr_prune_def Let_def bucket_wf)
  moreover have "distinct (ups s x)" "distinct (downs s x)" "set (ups s x) \<inter> set (downs s x) = {}" for x
    using ok by (simp_all add: history_ok_def)
  ultimately show ?thesis
    unfolding history_ok_def record_views by (auto simp: disjoint_iff)
qed

lemma history_forget: "history_ok s \<Longrightarrow> history_ok (corr_forget h s)"
  by (auto simp: history_ok_def forget_views) (simp_all add: corr_forget_def)

lemma history_sweep: "history_ok s \<Longrightarrow> history_ok (snd (fold (corr_sweep_one c) hs (m, s)))"
proof (induction hs arbitrary: m s)
  case (Cons h hs)
  obtain m' s' where "corr_sweep_one c h (m, s) = (m', s')" "history_ok s'"
    using Cons.prems history_forget by (cases "corr_sweep_one c h (m, s)") (auto simp: corr_sweep_one_def split: if_splits)
  with Cons.IH show ?case by simp
qed simp

lemma history_run: "history_ok (fold (corr_step T) ops (new_corr T retain))"
proof -
  have "history_ok s \<Longrightarrow> history_ok (fold (corr_step T) ops s)" for s
  proof (induction ops arbitrary: s)
    case (Cons x ops)
    then show ?case
      by (cases x) (simp_all add: history_record history_forget history_sweep corr_sweep_def)
  qed simp
  moreover have "history_ok (new_corr T retain)"
    by (simp add: history_ok_def new_corr_def ups_def downs_def)
  ultimately show ?thesis by blast
qed

section \<open>The filter before the pairwise sweep loses nothing\<close>

lemma count_in_sym: "distinct xs \<Longrightarrow> distinct ys \<Longrightarrow> count_in xs ys = count_in ys xs"
proof -
  have "int (length (filter (\<lambda>b. b \<in> set B) A)) = int (card (set A \<inter> set B))" if "distinct A" for A B :: "int list"
    using distinct_card [of "filter (\<lambda>b. b \<in> set B) A"] that by (simp add: Int_def conj_commute)
  then show "distinct xs \<Longrightarrow> distinct ys \<Longrightarrow> ?thesis"
    by (simp add: count_in_def Int_commute)
qed

lemma count_in_le: "count_in xs ys \<le> int (length xs)"
  by (simp add: count_in_def)

lemma count_else_disjoint: "set ys \<inter> set zs = {} \<Longrightarrow> count_else xs ys zs = count_in xs zs"
  unfolding count_else_def count_in_def by (rule arg_cong [where f = "\<lambda>l. int (length l)"], rule filter_cong) auto

lemma evidence_sym:
  assumes "history_ok s"
  shows "evidence s a b = evidence s b a"
proof -
  have d: "distinct (ups s x)" "distinct (downs s x)" "set (downs s x) \<inter> set (ups s x) = {}" for x
    using assms by (auto simp: history_ok_def)
  have "count_in (downs s a) (downs s b) = count_in (downs s b) (downs s a)"
    "count_else (downs s a) (downs s b) (ups s b) = count_in (ups s b) (downs s a)"
    "count_in (ups s a) (downs s b) = count_else (downs s b) (downs s a) (ups s a)"
    "count_else (ups s a) (downs s b) (ups s b) = count_else (ups s b) (downs s a) (ups s a)"
    using d by (simp_all add: count_else_disjoint count_in_sym)
  then show ?thesis
    by (simp add: evidence_def Let_def ac_simps)
qed

lemma groupable_set: "history_ok s \<Longrightarrow> h \<in> set (groupable s) \<longleftrightarrow> MIN_JOINT_FAILURES \<le> int (length (downs s h))"
proof -
  assume "history_ok s"
  then have "wf_map (fc_down s)" by (simp add: history_ok_def)
  then have "h \<in> set (groupable s) \<longleftrightarrow> (\<exists>bs. mget (fc_down s) h = Some bs \<and> MIN_JOINT_FAILURES \<le> int (length bs))"
    by (force simp: groupable_def mget_in image_iff)
  then show ?thesis
    by (auto simp: downs_def MIN_JOINT_FAILURES_def nvl_def split: option.split)
qed

lemma same_groupable:
  assumes "history_ok s" "sameDomain s a b"
  shows "a \<in> set (groupable s)" "b \<in> set (groupable s)"
proof -
  have "MIN_JOINT_FAILURES \<le> count_in (downs s x) (downs s y)" if "sameDomain s x y" for x y
    using that by (auto simp: sameDomain_def evidence_def Let_def split: if_splits)
  moreover have "sameDomain s b a"
    using assms evidence_sym by (simp add: sameDomain_def)
  ultimately show "a \<in> set (groupable s)" "b \<in> set (groupable s)"
    using assms count_in_le order_trans by (metis groupable_set)+
qed

lemma pairs_of_set: "(a, b) \<in> set (pairs_of xs) \<longleftrightarrow> (\<exists>i j. i < j \<and> j < length xs \<and> a = xs ! i \<and> b = xs ! j)"
proof (induction xs)
  case (Cons x xs)
  have "(a, b) \<in> set (pairs_of (x # xs)) \<longleftrightarrow> a = x \<and> b \<in> set xs \<or> (a, b) \<in> set (pairs_of xs)"
    by auto
  also have "\<dots> \<longleftrightarrow> (\<exists>i j. i < j \<and> j < length (x # xs) \<and> a = (x # xs) ! i \<and> b = (x # xs) ! j)"
    unfolding Cons
  proof (intro iffI; elim disjE exE conjE)
    assume "a = x" "b \<in> set xs"
    then obtain j where "j < length xs" "b = xs ! j" by (auto simp: in_set_conv_nth)
    with \<open>a = x\<close> show "\<exists>i j. i < j \<and> j < length (x # xs) \<and> a = (x # xs) ! i \<and> b = (x # xs) ! j"
      by (intro exI [of _ 0] exI [of _ "Suc j"]) simp
  next
    fix i j
    assume "i < j" "j < length xs" "a = xs ! i" "b = xs ! j"
    then show "\<exists>i j. i < j \<and> j < length (x # xs) \<and> a = (x # xs) ! i \<and> b = (x # xs) ! j"
      by (intro exI [of _ "Suc i"] exI [of _ "Suc j"]) simp
  next
    fix i j
    assume ij: "i < j" "j < length (x # xs)" "a = (x # xs) ! i" "b = (x # xs) ! j"
    then obtain j' where j: "j = Suc j'" by (cases j) auto
    show "a = x \<and> b \<in> set xs \<or> (\<exists>i j. i < j \<and> j < length xs \<and> a = xs ! i \<and> b = xs ! j)"
    proof (cases i)
      case 0
      with ij j show ?thesis by simp
    next
      case (Suc i')
      with ij j show ?thesis by (intro disjI2 exI [of _ i'] exI [of _ j']) simp
    qed
  qed
  finally show ?case .
qed simp


definition hints :: "(string \<Rightarrow> string option) option \<Rightarrow> string \<Rightarrow> string option" where
  "hints declared h = (case declared of None \<Rightarrow> None | Some d \<Rightarrow> d h)"

lemma infer_spec:
  assumes "[] \<notin> set hs"
  shows "\<exists>out E. inferDomains hs s declared = Some out
    \<and> (\<forall>x \<in> set hs. \<forall>y \<in> set hs. mget out x = mget out y \<longleftrightarrow> joined (E \<union> {(a, b) \<in> set (pairs_of (domain_candidates s hs)). sameDomain s a b}) x y)
    \<and> (\<forall>x y. joined E x y \<longleftrightarrow> joined (same_declared (hints declared) hs) x y) \<and> set (mkeys out) = set hs"
proof -
  let ?init = "fold (\<lambda>h. mset_at h h) hs []"
  obtain P E where P: "(case declared of None \<Rightarrow> Some ?init | Some d \<Rightarrow> declared_loop d hs [] ?init) = Some P" "grouped P E"
      "\<And>x y. joined E x y \<longleftrightarrow> joined (same_declared (hints declared) hs) x y"
  proof (cases declared)
    case None
    have "same_declared (hints declared) hs = {}"
      using None by (simp add: same_declared_def hints_def)
    with that [of ?init "{}"] None init_grouped show thesis by simp
  next
    case (Some d)
    obtain P' F where "declared_loop d hs [] ?init = Some P'" "grouped P' F" "declared_out d hs [] {} F"
      using declared_loop_spec [OF init_grouped [of hs] assms, of "[]" d] by auto
    moreover have "hints declared = d"
      using Some by (simp add: hints_def fun_eq_iff)
    ultimately show thesis
      using that [of P' F] declared_joined Some by simp
  qed
  let ?C = "{(a, b) \<in> set (pairs_of (domain_candidates s hs)). sameDomain s a b}"
  obtain P' where P': "unite_pairs (sameDomain s) (pairs_of (domain_candidates s hs)) P = Some P'" "grouped P' (E \<union> ?C)"
    using unite_pairs_grouped [OF P(2)] by blast
  obtain out where out: "out_loop hs P' [] = Some out" "\<forall>h \<in> set hs. \<exists>r. mget out h = Some r \<and> leads (mget P') h r"
      "\<forall>h. h \<notin> set hs \<longrightarrow> mget out h = None"
    using out_loop_spec [OF P'(2), of hs "[]"] by auto
  have "mget out x = mget out y \<longleftrightarrow> joined (E \<union> ?C) x y" if xy: "x \<in> set hs" "y \<in> set hs" for x y
  proof -
    obtain q where "mget out x = Some q" "leads (mget P') x q"
      using out(2) xy(1) by blast
    moreover obtain r where "mget out y = Some r" "leads (mget P') y r"
      using out(2) xy(2) by blast
    ultimately show ?thesis
      using P'(2) by (simp add: grouped_def)
  qed
  moreover have "set (mkeys out) = set hs"
    using out(2,3) by (auto simp: mhas_def simp flip: mhas_iff)
  moreover have "inferDomains hs s declared = Some out"
    using P(1) P'(1) out(1) by (simp add: inferDomains_def)
  ultimately show ?thesis
    using P(3) by blast
qed

definition observed_together :: "failure_corr \<Rightarrow> string list \<Rightarrow> (string \<times> string) set" where
  "observed_together s hs = {(a, b). a \<in> set hs \<and> b \<in> set hs \<and> sameDomain s a b}"

lemma infer_components:
  assumes "history_ok s" "[] \<notin> set hs" "int (length (filter (\<lambda>h. h \<in> set (groupable s)) hs)) \<le> MAX_PAIRWISE_HOLDERS"
  shows "\<exists>out. inferDomains hs s declared = Some out
    \<and> (\<forall>x \<in> set hs. \<forall>y \<in> set hs. mget out x = mget out y \<longleftrightarrow> joined (same_declared (hints declared) hs \<union> observed_together s hs) x y)"
proof -
  let ?cs = "filter (\<lambda>h. h \<in> set (groupable s)) hs" and ?D = "same_declared (hints declared) hs"
  let ?C = "{(a, b) \<in> set (pairs_of ?cs). sameDomain s a b}"
  have cs: "domain_candidates s hs = ?cs"
    using assms(3) by (simp add: domain_candidates_def)
  from infer_spec [OF assms(2), of s declared, unfolded cs] obtain out E where out: "inferDomains hs s declared = Some out"
      "\<forall>x \<in> set hs. \<forall>y \<in> set hs. mget out x = mget out y \<longleftrightarrow> joined (E \<union> ?C) x y" "\<And>x y. joined E x y \<longleftrightarrow> joined ?D x y"
    by blast
  let ?U = "E \<union> ?C \<union> ?D \<union> observed_together s hs"
  have obs: "joined ?C a b" if "(a, b) \<in> observed_together s hs" for a b
  proof -
    have ab: "a \<in> set ?cs" "b \<in> set ?cs" "sameDomain s a b" "sameDomain s b a"
      using that same_groupable [OF assms(1), of a b] evidence_sym [OF assms(1), of a b]
      by (auto simp: observed_together_def sameDomain_def)
    then obtain i j where i: "a = ?cs ! i" "b = ?cs ! j" "i < length ?cs" "j < length ?cs"
      by (metis in_set_conv_nth)
    consider "i = j" | "i < j" | "j < i" by linarith
    then show ?thesis
    proof cases
      case 2
      then have "(a, b) \<in> set (pairs_of ?cs)" using i unfolding pairs_of_set by blast
      then have "(a, b) \<in> ?C" using ab(3) by simp
      then show ?thesis by (rule joined_edge)
    next
      case 3
      then have "(b, a) \<in> set (pairs_of ?cs)" using i unfolding pairs_of_set by blast
      then have "(b, a) \<in> ?C" using ab(4) by simp
      then show ?thesis by (intro joined_sym [OF joined_edge])
    qed (use i in simp)
  qed
  have "joined (E \<union> ?C) x y \<longleftrightarrow> joined ?U x y" for x y
  proof (rule joined_sup)
    fix u v
    assume "(u, v) \<in> ?U"
    then consider "(u, v) \<in> E \<union> ?C" | "(u, v) \<in> ?D" | "(u, v) \<in> observed_together s hs" by blast
    then show "joined (E \<union> ?C) u v"
    proof cases
      case 2
      then have "joined E u v" using out(3) joined_edge by blast
      then show ?thesis by (rule joined_mono [rotated]) simp
    next
      case 3
      then show ?thesis by (intro joined_mono [OF _ obs]) auto
    qed (rule joined_edge)
  qed blast
  moreover have "joined (?D \<union> observed_together s hs) x y \<longleftrightarrow> joined ?U x y" for x y
  proof (rule joined_sup)
    fix u v
    assume "(u, v) \<in> ?U"
    then consider "(u, v) \<in> E" | "(u, v) \<in> ?C" | "(u, v) \<in> ?D \<union> observed_together s hs" by blast
    then show "joined (?D \<union> observed_together s hs) u v"
    proof cases
      case 1
      then have "joined ?D u v" using out(3) joined_edge by blast
      then show ?thesis by (rule joined_mono [rotated]) simp
    next
      case 2
      then obtain i j where "i < j" "j < length ?cs" "u = ?cs ! i" "v = ?cs ! j" "sameDomain s u v"
        by (auto simp: pairs_of_set)
      then have "u \<in> set ?cs" "v \<in> set ?cs" "sameDomain s u v"
        by (metis nth_mem less_trans)+
      then show ?thesis by (intro joined_edge) (auto simp: observed_together_def)
    qed (rule joined_edge)
  qed blast
  ultimately show ?thesis
    using out(1,2) by blast
qed

end
