(* ===== verification/Provider_Discovery.thy ===== *)
theory Provider_Discovery
  imports Provider_Ledger
begin

text \<open>
  Learning about providers from blocks a relay serves: \<open>src/engine/content/provider-discovery.ts\<close>. A
  relay can only choose which real blocks it shows: whoever is listed has a newest registration that
  verifies, with that capacity, and no later departure among the blocks, whatever their order.
\<close>

section \<open>What a relay serves\<close>

definition keep_newest :: "block \<Rightarrow> (hex, block) jsmap \<Rightarrow> (hex, block) jsmap" where
  "keep_newest b m = (case mget m (b_accountId b) of
     None \<Rightarrow> mset_at (b_accountId b) b m
   | Some prev \<Rightarrow> if b_index b > b_index prev then mset_at (b_accountId b) b m else m)"

definition into_maps :: "block \<Rightarrow> (hex, block) jsmap \<times> (hex, block) jsmap \<Rightarrow> (hex, block) jsmap \<times> (hex, block) jsmap" where
  "into_maps b m = (if b_type b = StorageRegister then (keep_newest b (fst m), snd m)
     else if b_type b = StorageDeregister then (fst m, keep_newest b (snd m)) else m)"

definition capacity_of :: "block \<Rightarrow> int" where
  "capacity_of b = (case b_storage b of None \<Rightarrow> 0 | Some p \<Rightarrow> nvl (sp_capacityGB p) 0)"

definition gone_from :: "(hex, block) jsmap \<Rightarrow> (hex, block) jsmap \<Rightarrow> hex \<Rightarrow> bool" where
  "gone_from registers deregisters pub = (case mget deregisters pub of
     None \<Rightarrow> False
   | Some dr \<Rightarrow> (case mget registers pub of None \<Rightarrow> True | Some reg \<Rightarrow> b_index dr > b_index reg))"

definition selectDiscoveryBlocks :: "storage_timing \<Rightarrow> block list \<Rightarrow> int \<Rightarrow> int \<Rightarrow> block list" where
  "selectDiscoveryBlocks T blocks limit now =
     (case fold into_maps blocks ([], []) of (registers, deregisters) \<Rightarrow>
       let gone = gone_from registers deregisters;
           ranked = take (nat (max 0 limit)) (sort_key (\<lambda>(pub, b). - b_timestamp b)
             (filter (\<lambda>(pub, reg). capacity_of reg > 0 \<and> \<not> gone pub) registers))
       in map snd ranked
          @ map snd (filter (\<lambda>(pub, dr). gone pub \<and> \<not> now - b_timestamp dr > 2 * MAX_OFFLINE_MS T) deregisters))"

section \<open>What a client makes of it\<close>

definition UNKNOWN_SCORE :: real where "UNKNOWN_SCORE = 1 / 2"

definition discovered_row :: "hex \<Rightarrow> block \<Rightarrow> provider_state" where
  "discovered_row pub reg = \<lparr>pv_pub = pub, pv_deviceId = (case b_storage reg of None \<Rightarrow> '''' | Some p \<Rightarrow> nvl (sp_deviceId p) ''''),
     pv_registeredAt = b_timestamp reg, pv_capacityGB = capacity_of reg, pv_deviceClass = None,
     pv_declaredConcurrency = None, pv_lastActualStoredBytes = 0, pv_lastHeartbeat = 0, pv_heartbeatsLast24h = 0,
     pv_smokeAddr = None, pv_countryCode = None, pv_avgLatencyMs = 0, pv_spotCheckPassRate = 1,
     pv_score = UNKNOWN_SCORE, pv_lastSettledPeriod = None, pv_discovered = True\<rparr>"

definition foldProviderBlocks :: "crypto \<Rightarrow> block list \<Rightarrow> provider_state list" where
  "foldProviderBlocks C blocks =
     (case fold into_maps (filter (verifyBlock C) blocks) ([], []) of (registers, deregisters) \<Rightarrow>
       map (\<lambda>(pub, reg). discovered_row pub reg)
         (filter (\<lambda>(pub, reg). \<not> (case mget deregisters pub of None \<Rightarrow> False | Some dr \<Rightarrow> b_index dr > b_index reg)
            \<and> \<not> capacity_of reg \<le> 0) registers))"


section \<open>The newest block of an account\<close>

definition newest_of :: "block_type \<Rightarrow> hex \<Rightarrow> block list \<Rightarrow> block \<Rightarrow> bool" where
  "newest_of ty a bs b \<longleftrightarrow> b \<in> set bs \<and> b_type b = ty \<and> b_accountId b = a
     \<and> (\<forall>c \<in> set bs. b_type c = ty \<and> b_accountId c = a \<longrightarrow> b_index c \<le> b_index b)"

definition newest_map :: "block_type \<Rightarrow> block list \<Rightarrow> (hex, block) jsmap \<Rightarrow> bool" where
  "newest_map ty bs m \<longleftrightarrow> wf_map m \<and> (\<forall>a. case mget m a of
     None \<Rightarrow> \<forall>c \<in> set bs. \<not> (b_type c = ty \<and> b_accountId c = a)
   | Some b \<Rightarrow> newest_of ty a bs b)"

lemma newest_skip:
  assumes "newest_map ty bs m" "b_type b \<noteq> ty"
  shows "newest_map ty (bs @ [b]) m"
proof -
  have "newest_of ty a (bs @ [b]) c \<longleftrightarrow> newest_of ty a bs c" for a c
    using assms(2) by (auto simp: newest_of_def)
  moreover have "(\<forall>c \<in> set (bs @ [b]). \<not> (b_type c = ty \<and> b_accountId c = a)) \<longleftrightarrow> (\<forall>c \<in> set bs. \<not> (b_type c = ty \<and> b_accountId c = a))" for a
    using assms(2) by auto
  ultimately show ?thesis
    using assms(1) by (simp only: newest_map_def simp_thms)
qed

lemma newest_keep:
  assumes "newest_map ty bs m" "b_type b = ty"
  shows "newest_map ty (bs @ [b]) (keep_newest b m)"
proof -
  have wf: "wf_map (keep_newest b m)"
    using assms(1) by (simp add: newest_map_def keep_newest_def split: option.split)
  have "case mget (keep_newest b m) a of None \<Rightarrow> \<forall>c \<in> set (bs @ [b]). \<not> (b_type c = ty \<and> b_accountId c = a)
      | Some x \<Rightarrow> newest_of ty a (bs @ [b]) x" for a
  proof -
    have m: "case mget m a of None \<Rightarrow> \<forall>c \<in> set bs. \<not> (b_type c = ty \<and> b_accountId c = a) | Some b \<Rightarrow> newest_of ty a bs b"
      using assms(1) by (simp add: newest_map_def)
    show ?thesis
    proof (cases "a = b_accountId b")
      case False
      then have "mget (keep_newest b m) a = mget m a"
        by (simp add: keep_newest_def split: option.split)
      with m False show ?thesis
        by (auto simp: newest_of_def split: option.splits)
    next
      case True
      show ?thesis
      proof (cases "mget m a")
        case None
        with m True assms(2) show ?thesis
          by (auto simp: keep_newest_def newest_of_def)
      next
        case (Some p)
        with m have p: "newest_of ty a bs p" by simp
        show ?thesis
        proof (cases "b_index b > b_index p")
          case True
          with p Some \<open>a = b_accountId b\<close> assms(2) show ?thesis
            by (auto simp: keep_newest_def newest_of_def dest: order_le_less_trans)
        next
          case False
          with p Some True show ?thesis
            by (auto simp: keep_newest_def newest_of_def)
        qed
      qed
    qed
  qed
  with wf show ?thesis
    by (simp add: newest_map_def)
qed

lemma into_maps_newest:
  "newest_map StorageRegister bs (fst (fold into_maps bs ([], []))) \<and> newest_map StorageDeregister bs (snd (fold into_maps bs ([], [])))"
proof (induction bs rule: rev_induct)
  case Nil
  then show ?case by (simp add: newest_map_def)
next
  case (snoc b bs)
  obtain r d where m: "fold into_maps bs ([], []) = (r, d)" by (cases "fold into_maps bs ([], [])")
  with snoc show ?case
    by (auto simp: into_maps_def intro: newest_keep newest_skip)
qed

lemma newest_get:
  assumes "newest_map ty bs m"
  shows "mget m a = Some b \<Longrightarrow> newest_of ty a bs b"
    "mget m a = None \<longleftrightarrow> (\<forall>c \<in> set bs. \<not> (b_type c = ty \<and> b_accountId c = a))"
proof -
  have m: "case mget m a of None \<Rightarrow> \<forall>c \<in> set bs. \<not> (b_type c = ty \<and> b_accountId c = a) | Some b \<Rightarrow> newest_of ty a bs b"
    using assms by (simp add: newest_map_def)
  show "mget m a = Some b \<Longrightarrow> newest_of ty a bs b"
    using m by simp
  show "mget m a = None \<longleftrightarrow> (\<forall>c \<in> set bs. \<not> (b_type c = ty \<and> b_accountId c = a))"
    using m by (cases "mget m a") (auto simp: newest_of_def)
qed

definition departed :: "block list \<Rightarrow> block \<Rightarrow> bool" where
  "departed bs reg \<longleftrightarrow> (\<exists>d \<in> set bs. b_type d = StorageDeregister \<and> b_accountId d = b_accountId reg \<and> b_index d > b_index reg)"

lemma departed_map:
  assumes "newest_map StorageDeregister bs m"
  shows "(case mget m (b_accountId reg) of None \<Rightarrow> False | Some dr \<Rightarrow> b_index dr > b_index reg) \<longleftrightarrow> departed bs reg"
proof (cases "mget m (b_accountId reg)")
  case None
  with newest_get(2) [OF assms, of "b_accountId reg"] show ?thesis
    by (auto simp: departed_def)
next
  case (Some dr)
  from newest_get(1) [OF assms this] Some show ?thesis
    by (auto simp: departed_def newest_of_def dest: order.strict_trans2)
qed

section \<open>Who is listed\<close>

lemma listed_iff:
  "p \<in> set (foldProviderBlocks C bs) \<longleftrightarrow> (\<exists>reg. p = discovered_row (b_accountId reg) reg \<and> 0 < capacity_of reg
     \<and> \<not> departed (filter (verifyBlock C) bs) reg
     \<and> mget (fst (fold into_maps (filter (verifyBlock C) bs) ([], []))) (b_accountId reg) = Some reg)"
proof -
  let ?vs = "filter (verifyBlock C) bs"
  obtain r d where m: "fold into_maps ?vs ([], []) = (r, d)" by (cases "fold into_maps ?vs ([], [])")
  have nr: "newest_map StorageRegister ?vs r" and nd: "newest_map StorageDeregister ?vs d"
    using into_maps_newest [of ?vs] m by simp_all
  have wf: "wf_map r" using nr by (simp add: newest_map_def)
  have acc: "a = b_accountId reg" if "(a, reg) \<in> set r" for a reg
    using newest_get(1) [OF nr, of a reg] that wf by (simp add: newest_of_def flip: mget_in)
  have "p \<in> set (foldProviderBlocks C bs) \<longleftrightarrow> (\<exists>a reg. (a, reg) \<in> set r \<and> p = discovered_row a reg \<and> 0 < capacity_of reg
      \<and> \<not> (case mget d a of None \<Rightarrow> False | Some dr \<Rightarrow> b_index dr > b_index reg))"
    by (auto simp: foldProviderBlocks_def m not_le)
  also have "\<dots> \<longleftrightarrow> (\<exists>reg. (b_accountId reg, reg) \<in> set r \<and> p = discovered_row (b_accountId reg) reg \<and> 0 < capacity_of reg
      \<and> \<not> departed ?vs reg)"
    using acc departed_map [OF nd] by (metis (no_types, lifting))
  finally show ?thesis
    using wf by (auto simp: m mget_in)
qed

lemma listed_sound:
  assumes "p \<in> set (foldProviderBlocks C bs)"
  shows "\<exists>reg. newest_of StorageRegister (pv_pub p) (filter (verifyBlock C) bs) reg \<and> 0 < capacity_of reg
    \<and> \<not> departed (filter (verifyBlock C) bs) reg \<and> p = discovered_row (pv_pub p) reg"
proof -
  obtain reg where reg: "p = discovered_row (b_accountId reg) reg" "0 < capacity_of reg" "\<not> departed (filter (verifyBlock C) bs) reg"
      "mget (fst (fold into_maps (filter (verifyBlock C) bs) ([], []))) (b_accountId reg) = Some reg"
    using assms by (auto simp: listed_iff)
  from newest_get(1) [OF into_maps_newest [THEN conjunct1] reg(4)] reg(1-3) show ?thesis
    by (intro exI [of _ reg]) (simp add: discovered_row_def)
qed

lemma listed_complete:
  assumes "newest_of StorageRegister a (filter (verifyBlock C) bs) reg"
    and "\<And>r. newest_of StorageRegister a (filter (verifyBlock C) bs) r \<Longrightarrow> 0 < capacity_of r \<and> \<not> departed (filter (verifyBlock C) bs) r"
  shows "a \<in> pv_pub ` set (foldProviderBlocks C bs)"
proof -
  let ?r = "fst (fold into_maps (filter (verifyBlock C) bs) ([], []))"
  note n = into_maps_newest [of "filter (verifyBlock C) bs", THEN conjunct1]
  have "mget ?r a \<noteq> None"
    using newest_get(2) [OF n, of a] assms(1) by (auto simp: newest_of_def)
  then obtain r where r: "mget ?r a = Some r" by blast
  then have nr: "newest_of StorageRegister a (filter (verifyBlock C) bs) r"
    by (rule newest_get(1) [OF n])
  then have "b_accountId r = a" by (simp add: newest_of_def)
  with r assms(2) [OF nr] have "discovered_row a r \<in> set (foldProviderBlocks C bs)"
    unfolding listed_iff by blast
  then show ?thesis
    by (force simp: discovered_row_def)
qed

lemma listed_once: "distinct (map pv_pub (foldProviderBlocks C bs))"
proof -
  obtain r d where m: "fold into_maps (filter (verifyBlock C) bs) ([], []) = (r, d)"
    by (cases "fold into_maps (filter (verifyBlock C) bs) ([], [])")
  have "wf_map r"
    using into_maps_newest [of "filter (verifyBlock C) bs"] m by (simp add: newest_map_def)
  then show ?thesis
    by (simp add: foldProviderBlocks_def m wf_map_def o_def case_prod_unfold discovered_row_def distinct_map_filter)
qed

section \<open>What an archive serves\<close>

lemma served_blocks:
  assumes "b \<in> set (selectDiscoveryBlocks T bs limit now)"
  shows "b_type b = StorageRegister \<and> newest_of StorageRegister (b_accountId b) bs b \<and> 0 < capacity_of b \<and> \<not> departed bs b
    \<or> b_type b = StorageDeregister \<and> newest_of StorageDeregister (b_accountId b) bs b \<and> now - b_timestamp b \<le> 2 * MAX_OFFLINE_MS T
      \<and> (\<forall>r \<in> set bs. b_type r = StorageRegister \<and> b_accountId r = b_accountId b \<longrightarrow> b_index r < b_index b)"
proof -
  obtain r d where m: "fold into_maps bs ([], []) = (r, d)" by (cases "fold into_maps bs ([], [])")
  have nr: "newest_map StorageRegister bs r" and nd: "newest_map StorageDeregister bs d"
    using into_maps_newest [of bs] m by simp_all
  have wf: "wf_map r" "wf_map d" using nr nd by (simp_all add: newest_map_def)
  from assms consider (reg) a where "(a, b) \<in> set r" "0 < capacity_of b" "\<not> gone_from r d a"
    | (dereg) a where "(a, b) \<in> set d" "gone_from r d a" "now - b_timestamp b \<le> 2 * MAX_OFFLINE_MS T"
    by (auto simp: selectDiscoveryBlocks_def m Let_def dest!: in_set_takeD)
  then show ?thesis
  proof cases
    case reg
    then have g: "mget r a = Some b" using wf by (simp add: mget_in)
    note n = newest_get(1) [OF nr g]
    then have "a = b_accountId b" "b_type b = StorageRegister" by (simp_all add: newest_of_def)
    with n reg g departed_map [OF nd, of b] show ?thesis
      by (simp add: gone_from_def split: option.splits)
  next
    case dereg
    then have g: "mget d a = Some b" using wf by (simp add: mget_in)
    note n = newest_get(1) [OF nd g]
    then have ab: "a = b_accountId b" "b_type b = StorageDeregister" by (simp_all add: newest_of_def)
    have "b_index x < b_index b" if "x \<in> set bs" "b_type x = StorageRegister" "b_accountId x = b_accountId b" for x
    proof (cases "mget r a")
      case None
      with newest_get(2) [OF nr, of a] that ab show ?thesis by auto
    next
      case (Some y)
      with newest_get(1) [OF nr Some] that ab g dereg(2) show ?thesis
        by (auto simp: gone_from_def newest_of_def dest: order_le_less_trans)
    qed
    with n ab dereg(3) show ?thesis by simp
  qed
qed

lemma served_bound:
  "int (length (filter (\<lambda>b. b_type b = StorageRegister) (selectDiscoveryBlocks T bs limit now))) \<le> max 0 limit"
proof -
  obtain r d where m: "fold into_maps bs ([], []) = (r, d)" by (cases "fold into_maps bs ([], [])")
  have nd: "newest_map StorageDeregister bs d" using into_maps_newest [of bs] m by simp
  then have "wf_map d" by (simp add: newest_map_def)
  with newest_get(1) [OF nd] have "b_type b = StorageDeregister" if "(a, b) \<in> set d" for a b
    using that by (simp add: newest_of_def flip: mget_in)
  then have "filter (\<lambda>b. b_type b = StorageRegister) (map snd (filter P d)) = []" for P
    by (auto simp: filter_empty_conv)
  moreover have "int (length (filter (Q \<circ> snd) (take (nat (max 0 limit)) xs))) \<le> max 0 limit" for Q :: "block \<Rightarrow> bool" and xs :: "(hex \<times> block) list"
  proof -
    have "length (filter (Q \<circ> snd) (take (nat (max 0 limit)) xs)) \<le> nat (max 0 limit)"
      by (rule order_trans [OF length_filter_le]) simp
    then show ?thesis by linarith
  qed
  ultimately show ?thesis
    by (simp add: selectDiscoveryBlocks_def m Let_def)
qed

end
