(* ===== verification/Read_Credit.thy ===== *)
theory Read_Credit
  imports Neuron_Prelude
begin

text \<open>
  What repeated reads of one file are worth, \<open>src/engine/content/read-credit.ts\<close>, and the signed
  beacons that say where a provider is reachable, \<open>src/engine/content/presence.ts\<close>.
\<close>

section \<open>The taper\<close>

datatype taper = Hard | Harmonic | Geometric real

definition FREE_READS_PER_FILE_PER_WINDOW :: int where "FREE_READS_PER_FILE_PER_WINDOW = 1"
definition DEFAULT_TAPER :: taper where "DEFAULT_TAPER = Geometric (1 / 2)"

definition readCredit :: "int \<Rightarrow> taper \<Rightarrow> real" where
  "readCredit n p = (if n \<le> 0 then 0
     else if n \<le> FREE_READS_PER_FILE_PER_WINDOW then 1
     else let extra = n - FREE_READS_PER_FILE_PER_WINDOW in
       (case p of Hard \<Rightarrow> 0 | Harmonic \<Rightarrow> 1 / (real_of_int extra + 1) | Geometric q \<Rightarrow> q ^ nat extra))"

text \<open>Only the first ten thousand reads are added up one by one.\<close>

definition cumulativeCredit :: "int \<Rightarrow> taper \<Rightarrow> real" where
  "cumulativeCredit reads p = (if reads \<le> 0 then 0
     else let cap = min reads 10000; total = foldl (\<lambda>t n. t + readCredit n p) 0 [1..cap] in
       if reads > cap \<and> p = Harmonic then total + ln (real_of_int reads / real_of_int cap) else total)"

text \<open>Numbers with the two values the ceiling can reach: division by \<open>1 - 1\<close> and products of infinity.\<close>

datatype js_num = Num real | Infinity | MinusInfinity | NaN

definition num_div :: "real \<Rightarrow> real \<Rightarrow> js_num" where
  "num_div a b = (if b \<noteq> 0 then Num (a / b) else if a > 0 then Infinity else if a < 0 then MinusInfinity else NaN)"

definition maxCreditPerFile :: "taper \<Rightarrow> js_num" where
  "maxCreditPerFile p = (case p of
     Hard \<Rightarrow> Num (real_of_int FREE_READS_PER_FILE_PER_WINDOW)
   | Harmonic \<Rightarrow> Infinity
   | Geometric q \<Rightarrow> (case num_div q (1 - q) of Num x \<Rightarrow> Num (real_of_int FREE_READS_PER_FILE_PER_WINDOW + x) | v \<Rightarrow> v))"

definition providerCeilingPerReader :: "real \<Rightarrow> taper \<Rightarrow> real \<Rightarrow> js_num \<times> js_num" where
  "providerCeilingPerReader filesHeld p avgFileBytes = (case maxCreditPerFile p of
     Num perFile \<Rightarrow> (Num (filesHeld * perFile), Num (filesHeld * perFile * avgFileBytes))
   | _ \<Rightarrow> (Infinity, if avgFileBytes = 0 then NaN else if avgFileBytes > 0 then Infinity else MinusInfinity))"

lemma fold_credit: "foldl (\<lambda>t n. t + readCredit n p) a ns = a + (\<Sum>n\<leftarrow>ns. readCredit n p)"
  by (induction ns arbitrary: a) simp_all

lemma sum_upto: "(\<Sum>n\<leftarrow>[1..int m]. f n) = (\<Sum>i<m. f (int i + 1))" for f :: "int \<Rightarrow> real"
proof (induction m)
  case (Suc m)
  have "[1..int (Suc m)] = [1..int m] @ [int (Suc m)]"
    using upto_rec2 [of 1 "int (Suc m)"] by simp
  with Suc show ?case by (simp add: add.commute)
qed simp

lemma geometric_total:
  assumes "q \<noteq> 1"
  shows "(\<Sum>i<Suc m. readCredit (int i + 1) (Geometric q)) = (1 - q ^ Suc m) / (1 - q)"
proof -
  have "readCredit (int i + 1) (Geometric q) = q ^ i" for i
    by (cases i) (simp_all add: readCredit_def FREE_READS_PER_FILE_PER_WINDOW_def Let_def nat_add_distrib)
  then have "(\<Sum>i<Suc m. readCredit (int i + 1) (Geometric q)) = (\<Sum>i<Suc m. q ^ i)" by simp
  also have "\<dots> = (1 - q ^ Suc m) / (1 - q)"
    unfolding geometric_sum [OF assms] by (metis minus_diff_eq minus_divide_divide)
  finally show ?thesis .
qed

text \<open>However often one file is read, its credit stays below the ceiling; every policy pays the first read in full.\<close>

lemma repeat_bounded:
  assumes "0 \<le> q" "q < 1"
  shows "0 \<le> cumulativeCredit reads (Geometric q)"
    "maxCreditPerFile (Geometric q) = Num (1 / (1 - q))" "cumulativeCredit reads (Geometric q) \<le> 1 / (1 - q)"
proof -
  show "maxCreditPerFile (Geometric q) = Num (1 / (1 - q))"
    using assms(2) by (simp add: maxCreditPerFile_def num_div_def FREE_READS_PER_FILE_PER_WINDOW_def field_simps)
  have "0 \<le> cumulativeCredit reads (Geometric q) \<and> cumulativeCredit reads (Geometric q) \<le> 1 / (1 - q)"
  proof (cases "reads \<le> 0")
    case False
    then obtain m where m: "min reads 10000 = int (Suc m)"
      by (metis add.commute int_ops(4) linorder_not_le nonneg_int_cases min_def plus_1_eq_Suc zero_less_imp_eq_int zero_less_numeral gr0_conv_Suc of_nat_0_less_iff)
    have "cumulativeCredit reads (Geometric q) = (1 - q ^ Suc m) / (1 - q)"
      using False m geometric_total [of q m] assms(2) by (simp add: cumulativeCredit_def Let_def fold_credit sum_upto del: of_nat_Suc sum.lessThan_Suc power_Suc)
    moreover have "0 \<le> q ^ Suc m" "q ^ Suc m \<le> 1"
      using assms by (simp, intro power_le_one) auto
    ultimately show ?thesis
      using assms(2) by (simp add: divide_right_mono del: power_Suc)
  qed (use assms in \<open>simp add: cumulativeCredit_def\<close>)
  then show "0 \<le> cumulativeCredit reads (Geometric q)" "cumulativeCredit reads (Geometric q) \<le> 1 / (1 - q)"
    by simp_all
qed

lemma hard_once: "0 < reads \<Longrightarrow> cumulativeCredit reads Hard = 1"
proof -
  assume r: "0 < reads"
  then obtain m where m: "min reads 10000 = int (Suc m)"
    using zero_less_imp_eq_int [of "min reads 10000"] gr0_conv_Suc by auto
  have "readCredit (int i + 1) Hard = (if i = 0 then 1 else 0)" for i
    by (simp add: readCredit_def FREE_READS_PER_FILE_PER_WINDOW_def Let_def)
  then have "(\<Sum>i<Suc m. readCredit (int i + 1) Hard) = 1"
    by (simp add: sum.delta del: sum.lessThan_Suc)
  with r m show ?thesis
    by (simp add: cumulativeCredit_def Let_def fold_credit sum_upto del: of_nat_Suc sum.lessThan_Suc)
qed

section \<open>Presence beacons\<close>

text \<open>A time stamp that is missing or not finite is \<open>None\<close>.\<close>

record presence_beacon =
  pb_pub :: string
  pb_smokeAddr :: "string option"
  pb_countryCode :: "string option"
  pb_capacityGB :: "int option"
  pb_storedBytes :: "int option"
  pb_ts :: "int option"

definition bar_join :: "string list \<Rightarrow> string" where
  "bar_join xs = concat (hd xs # map (\<lambda>x. CHR ''|'' # x) (tl xs))"

definition presencePayload :: "presence_beacon \<Rightarrow> string" where
  "presencePayload b = bar_join [''presence-v1'', pb_pub b, nvl (pb_smokeAddr b) '''', nvl (pb_countryCode b) '''',
     int_str (nvl (pb_capacityGB b) 0), int_str (nvl (pb_storedBytes b) 0),
     (case pb_ts b of Some t \<Rightarrow> int_str t | None \<Rightarrow> ''NaN'')]"

type_synonym presence_store = "(string, presence_beacon) jsmap"

definition presence_record :: "(string \<Rightarrow> string \<Rightarrow> string \<Rightarrow> bool) \<Rightarrow> presence_beacon \<Rightarrow> string \<Rightarrow> int \<Rightarrow> int
    \<Rightarrow> presence_store \<Rightarrow> string option \<times> presence_store" where
  "presence_record vfy b sig now maxSkewMs s =
     (if pb_pub b = [] then (Some ''presence: missing pub'', s)
      else case pb_ts b of
        None \<Rightarrow> (Some ''presence: missing timestamp'', s)
      | Some ts \<Rightarrow>
          if ts > now + maxSkewMs then (Some (''presence: timestamp '' @ int_str ts @ '' is too far ahead''), s)
          else if \<not> vfy (presencePayload b) sig (pb_pub b) then (Some ''presence: signature does not verify'', s)
          else (case mget s (pb_pub b) of
              Some prev \<Rightarrow> if nvl (pb_ts prev) 0 \<ge> ts
                then (Some (''presence: stale ('' @ int_str ts @ '' <= '' @ int_str (nvl (pb_ts prev) 0) @ '')''), s)
                else (None, mset_at (pb_pub b) b s)
            | None \<Rightarrow> (None, mset_at (pb_pub b) b s)))"

definition presence_get :: "string \<Rightarrow> int \<Rightarrow> int \<Rightarrow> presence_store \<Rightarrow> presence_beacon option" where
  "presence_get pub now maxAgeMs s = (case mget s pub of
     None \<Rightarrow> None
   | Some b \<Rightarrow> if now - nvl (pb_ts b) 0 \<le> maxAgeMs then Some b else None)"

definition presence_sweep :: "int \<Rightarrow> int \<Rightarrow> presence_store \<Rightarrow> int \<times> presence_store" where
  "presence_sweep now maxAgeMs s = (let old = (\<lambda>(pub, b). now - nvl (pb_ts b) 0 > maxAgeMs)
     in (int (length (filter old s)), filter (\<lambda>e. \<not> old e) s))"

definition presence_size :: "presence_store \<Rightarrow> int" where
  "presence_size s = int (length s)"

datatype presence_op =
    PresRecord presence_beacon string int int
  | PresSweep int int

fun presence_step :: "(string \<Rightarrow> string \<Rightarrow> string \<Rightarrow> bool) \<Rightarrow> presence_op \<Rightarrow> presence_store \<Rightarrow> presence_store" where
  "presence_step vfy (PresRecord b sig now skew) s = snd (presence_record vfy b sig now skew s)"
| "presence_step vfy (PresSweep now age) s = snd (presence_sweep now age s)"

text \<open>A beacon of the log is acceptable: signed by its provider and not from the future.\<close>

definition presented :: "(string \<Rightarrow> string \<Rightarrow> string \<Rightarrow> bool) \<Rightarrow> presence_op list \<Rightarrow> presence_beacon \<Rightarrow> bool" where
  "presented vfy ops b \<longleftrightarrow> (\<exists>sig now skew ts. PresRecord b sig now skew \<in> set ops \<and> pb_ts b = Some ts \<and> pb_pub b \<noteq> []
     \<and> ts \<le> now + skew \<and> vfy (presencePayload b) sig (pb_pub b))"

definition presence_inv :: "(string \<Rightarrow> string \<Rightarrow> string \<Rightarrow> bool) \<Rightarrow> presence_op list \<Rightarrow> presence_store \<Rightarrow> bool" where
  "presence_inv vfy ops s \<longleftrightarrow> wf_map s \<and> (\<forall>p b. mget s p = Some b \<longrightarrow> pb_pub b = p \<and> presented vfy ops b)"

lemma presented_snoc: "presented vfy ops b \<Longrightarrow> presented vfy (ops @ [x]) b"
  by (auto simp: presented_def)

lemma presence_cases:
  obtains (refused) e where "presence_record vfy b sig now skew s = (Some e, s)"
  | (accepted) ts where "presence_record vfy b sig now skew s = (None, mset_at (pb_pub b) b s)" "pb_ts b = Some ts" "pb_pub b \<noteq> []"
      "ts \<le> now + skew" "vfy (presencePayload b) sig (pb_pub b)"
      "\<And>p. mget s (pb_pub b) = Some p \<Longrightarrow> nvl (pb_ts p) 0 < ts"
proof (cases "pb_pub b = [] \<or> pb_ts b = None")
  case True
  then have "\<exists>e. presence_record vfy b sig now skew s = (Some e, s)"
    by (auto simp: presence_record_def)
  then show thesis
    using refused by blast
next
  case False
  then obtain ts where ts: "pb_ts b = Some ts" "pb_pub b \<noteq> []" by auto
  show thesis
  proof (cases "ts > now + skew \<or> \<not> vfy (presencePayload b) sig (pb_pub b)")
    case True
    with ts have "\<exists>e. presence_record vfy b sig now skew s = (Some e, s)"
      by (auto simp: presence_record_def)
    then show thesis
      using refused by blast
  next
    case False
    show thesis
    proof (cases "mget s (pb_pub b)")
      case None
      with False ts have "presence_record vfy b sig now skew s = (None, mset_at (pb_pub b) b s)"
        by (simp add: presence_record_def)
      with None False ts show thesis
        using accepted by simp
    next
      case (Some p)
      show thesis
      proof (cases "nvl (pb_ts p) 0 \<ge> ts")
        case True
        with False ts Some have "\<exists>e. presence_record vfy b sig now skew s = (Some e, s)"
          by (simp add: presence_record_def)
        then show thesis using refused by blast
      next
        case old: False
        with False ts Some have "presence_record vfy b sig now skew s = (None, mset_at (pb_pub b) b s)"
          by (simp add: presence_record_def)
        with Some old False ts show thesis
          using accepted by simp
      qed
    qed
  qed
qed

lemma presence_run: "presence_inv vfy ops (fold (presence_step vfy) ops [])"
proof (induction ops rule: rev_induct)
  case Nil
  then show ?case by (simp add: presence_inv_def)
next
  case (snoc x ops)
  let ?s = "fold (presence_step vfy) ops []"
  have old: "wf_map ?s" "mget ?s p = Some b \<Longrightarrow> pb_pub b = p \<and> presented vfy (ops @ [x]) b" for p b
    using snoc presented_snoc by (auto simp: presence_inv_def)
  show ?case
  proof (cases x)
    case (PresRecord b sig now skew)
    show ?thesis
    proof (cases rule: presence_cases [of vfy b sig now skew ?s])
      case (refused e)
      with PresRecord old show ?thesis by (simp add: presence_inv_def)
    next
      case (accepted ts)
      then have "presented vfy (ops @ [x]) b"
        using PresRecord by (auto simp: presented_def)
      with accepted(1) PresRecord old show ?thesis
        by (auto simp: presence_inv_def)
    qed
  next
    case (PresSweep now age)
    with old show ?thesis
      by (auto simp: presence_inv_def presence_sweep_def Let_def mget_filter split: option.splits if_splits)
  qed
qed

text \<open>Without sweeps a beacon is never replaced by an older one, so a replayed beacon changes nothing.\<close>

lemma beacon_grows:
  assumes "mget s p = Some b" "pb_ts b = Some t"
  shows "\<exists>b' t'. mget (snd (presence_record vfy c sig now skew s)) p = Some b' \<and> pb_ts b' = Some t' \<and> t \<le> t'"
proof (cases rule: presence_cases [of vfy c sig now skew s])
  case (accepted ts)
  show ?thesis
  proof (cases "p = pb_pub c")
    case True
    with accepted(1,2) accepted(6) [of b] assms show ?thesis by auto
  qed (use accepted(1) assms in simp)
qed (use assms in simp)

lemma replay_refused:
  assumes "presence_record vfy b sig now skew s = (None, s')"
  shows "fst (presence_record vfy b sig now' skew' s') \<noteq> None"
  using assms
proof (cases rule: presence_cases [of vfy b sig now skew s])
  case (accepted ts)
  with assms have "mget s' (pb_pub b) = Some b" by auto
  with accepted show ?thesis
    by (auto simp: presence_record_def)
qed simp

text \<open>
  The separator may occur in the fields it separates, so one signature covers beacons that say
  different things.
\<close>

definition beacon_of :: "string \<Rightarrow> string \<Rightarrow> presence_beacon" where
  "beacon_of addr cc = \<lparr>pb_pub = ''p'', pb_smokeAddr = Some addr, pb_countryCode = Some cc, pb_capacityGB = None, pb_storedBytes = None, pb_ts = Some 0\<rparr>"

lemma payload_ambiguous: "presencePayload (beacon_of ''a|b'' ''c'') = presencePayload (beacon_of ''a'' ''b|c'')"
  by (simp add: presencePayload_def bar_join_def beacon_of_def)

end
