(* ===== verification/Service_Properties.thy ===== *)
theory Service_Properties
  imports Dht Failure_Domain Provider_Discovery Read_Credit Custody_Properties
begin

text \<open>
  What the smaller content services promise: lookups on the ring end at the nodes that hold the record,
  inferred failure domains are connected components, and a relay can neither invent a provider nor
  keep one that left.
\<close>

section \<open>The provider ring\<close>

text \<open>C22: on a ring of distinct keys every lookup ends, from any node, within 32 hops and fewer than there
  are nodes, at the node responsible for the key (so the hop guard of the source is never reached); the
  record of a file lies exactly on the nodes responsible for it, among them the one the lookup ends at,
  and the answer is exactly the providers that announced the file.\<close>
theorem dht_lookup_ends:
  assumes "start_ring C k ids = Some d0" "provide_all C ps d0 = Some d" "ids \<noteq> []" "distinct (map (ringKey C) ids)" "1 \<le> k"
  shows "(\<forall>n \<in> set (ct_nodes d). \<exists>hops.
       findSuccessor (ct_nodes d) n (ringKey C cid) = (ct_nodes d ! successorIndex (ct_nodes d) (ringKey C cid), hops)
       \<and> 0 \<le> hops \<and> hops \<le> 32 \<and> hops < int (length ids))
    \<and> (\<forall>n \<in> set (ct_nodes d). cid \<in> index_of d (dn_id n) \<longleftrightarrow> cid \<in> fst ` set ps \<and> n \<in> set (responsibleNodes d (ringKey C cid)))
    \<and> ct_nodes d ! successorIndex (ct_nodes d) (ringKey C cid) \<in> set (responsibleNodes d (ringKey C cid))
    \<and> (\<exists>provs hops. findProviders C cid from d = Some (provs, hops) \<and> set provs = {p. (cid, p) \<in> set ps})"
proof -
  note s = start_ring_simps [OF assms(1)] and p = provide_all_records [OF assms(2)]
  have nodes: "ct_nodes d = ring_of C ids" "ct_k d = k"
    using s p by simp_all
  have ok: "Dht.ring_ok (ct_nodes d)"
    unfolding nodes by (rule ring_of_ok [OF assms(3,4)])
  have "\<exists>hops. findSuccessor (ct_nodes d) n (ringKey C cid) = (ct_nodes d ! successorIndex (ct_nodes d) (ringKey C cid), hops)
       \<and> 0 \<le> hops \<and> hops \<le> 32 \<and> hops < int (length ids)" if "n \<in> set (ct_nodes d)" for n
    using findSuccessor_spec [OF ok that ringKey_on_ring [of C cid]] by (auto simp: nodes)
  moreover have "ct_nodes d ! successorIndex (ct_nodes d) (ringKey C cid) \<in> set (responsibleNodes d (ringKey C cid))"
    using responsible_nodes(3) [of d] ok assms(5) nodes by (simp add: Dht.ring_ok_def)
  ultimately show ?thesis
    using ring_records [OF assms(1-4)] ring_lookup(1) [OF assms(1-4), of cid "from"] by blast
qed

lemma provide_total: "ct_built d \<Longrightarrow> \<exists>d'. provide_all C ps d = Some d'"
proof (induction C ps d rule: provide_all.induct)
  case (2 C cid p ps d)
  then obtain d1 where "provide C cid p d = Some d1" by (simp add: provide_def)
  with 2 provide_simps(3) [OF this] show ?case by auto
qed simp

definition demo_ids :: "hex list" where "demo_ids = [''alpha'', ''beta'', ''gamma'']"
definition demo_announced :: "(hex \<times> hex) list" where "demo_announced = [(''f'', ''p1''), (''g'', ''p2''), (''f'', ''p3'')]"

theorem dht_lookup_ends_witness:
  "\<exists>d0 d. start_ring demo_crypto 2 demo_ids = Some d0 \<and> provide_all demo_crypto demo_announced d0 = Some d
    \<and> (\<forall>n \<in> set (ct_nodes d). \<exists>hops.
       findSuccessor (ct_nodes d) n (ringKey demo_crypto ''f'') = (ct_nodes d ! successorIndex (ct_nodes d) (ringKey demo_crypto ''f''), hops)
       \<and> 0 \<le> hops \<and> hops \<le> 32 \<and> hops < 3)
    \<and> (\<exists>provs hops. findProviders demo_crypto ''f'' ''beta'' d = Some (provs, hops) \<and> set provs = {''p1'', ''p3''})"
proof -
  obtain d0 where d0: "start_ring demo_crypto 2 demo_ids = Some d0"
    using add_all_nodes [of "new_dht 2" demo_crypto demo_ids] by (simp add: start_ring_def new_dht_def)
  obtain d where d: "provide_all demo_crypto demo_announced d0 = Some d"
    using provide_total start_ring_simps(2) [OF d0] by blast
  have "distinct (map (ringKey demo_crypto) demo_ids)" "demo_ids \<noteq> []" "length demo_ids = 3"
    by code_simp+
  moreover have "{p. (''f'', p) \<in> set demo_announced} = {''p1'', ''p3''}"
    by (auto simp: demo_announced_def)
  ultimately show ?thesis
    using d0 d dht_lookup_ends [OF d0 d, of "''f''" "''beta''"] by auto
qed

section \<open>Failure domains\<close>

text \<open>C23: after any run of observations, grouping ends, and two holders get the same domain exactly when a
  chain of declared machines and of observed common failures connects them; as long as no more than 256
  holders have failed often enough, the filter before the pairwise sweep loses no such pair.\<close>
theorem domains_are_components:
  assumes "s = fold (corr_step T) ops (new_corr T retain)" "[] \<notin> set hs"
    and "int (length (filter (\<lambda>h. h \<in> set (groupable s)) hs)) \<le> MAX_PAIRWISE_HOLDERS"
  shows "\<exists>out. inferDomains hs s declared = Some out \<and> (\<forall>x \<in> set hs. \<forall>y \<in> set hs. mget out x = mget out y
      \<longleftrightarrow> (x, y) \<in> ({(a, b). a \<in> set hs \<and> b \<in> set hs \<and> truthy (hints declared a) \<and> hints declared a = hints declared b}
        \<union> {(a, b). a \<in> set hs \<and> b \<in> set hs \<and> sameDomain s a b})\<^sup>*)"
proof -
  have ok: "history_ok s"
    unfolding assms(1) by (rule history_run)
  let ?E = "same_declared (hints declared) hs \<union> observed_together s hs"
  have "sameDomain s b a" if "sameDomain s a b" for a b
    using that evidence_sym [OF ok, of a b] by (simp add: sameDomain_def)
  then have "?E\<inverse> = ?E"
    by (auto simp: same_declared_def observed_together_def)
  then have "joined ?E x y \<longleftrightarrow> (x, y) \<in> ?E\<^sup>*" for x y
    by (simp add: joined_def)
  with infer_components [OF ok assms(2,3), of declared] show ?thesis
    by (simp add: same_declared_def observed_together_def)
qed

definition demo_observations :: "corr_op list" where
  "demo_observations = [CorrRecord ''a'' False 0, CorrRecord ''b'' False 0, CorrRecord ''c'' True 0]"

definition demo_declared :: "string \<Rightarrow> string option" where
  "demo_declared h = (if h = ''a'' \<or> h = ''c'' then Some ''box'' else None)"

lemma thin_evidence: "int (length (downs s a)) < MIN_JOINT_FAILURES \<Longrightarrow> \<not> sameDomain s a b"
  using count_in_le [of "downs s a" "downs s b"] by (simp add: sameDomain_def evidence_def Let_def)

theorem domains_are_components_witness:
  "\<exists>out. inferDomains [''a'', ''b'', ''c''] (fold (corr_step fast_T) demo_observations (new_corr fast_T None)) (Some demo_declared) = Some out
    \<and> mget out ''a'' = mget out ''c'' \<and> mget out ''a'' \<noteq> mget out ''b''"
proof -
  define s where "s = fold (corr_step fast_T) demo_observations (new_corr fast_T None)"
  define E where "E = {(a, b). a \<in> set [''a'', ''b'', ''c''] \<and> b \<in> set [''a'', ''b'', ''c'']
    \<and> truthy (hints (Some demo_declared) a) \<and> hints (Some demo_declared) a = hints (Some demo_declared) b}"
  define Obs where "Obs = {(a, b). a \<in> set [''a'', ''b'', ''c''] \<and> b \<in> set [''a'', ''b'', ''c''] \<and> sameDomain s a b}"
  have len: "length (downs s h) \<le> 1" for h
    by (simp add: s_def demo_observations_def record_views) (simp add: new_corr_def downs_def sadd_def sdel_def)
  then have few: "int (length (downs s h)) < MIN_JOINT_FAILURES" for h
    using le_less_trans [OF of_nat_mono [OF len [of h]], of MIN_JOINT_FAILURES] by (simp add: MIN_JOINT_FAILURES_def)
  have "history_ok s" unfolding s_def by (rule history_run)
  with few groupable_set have "\<forall>h. h \<notin> set (groupable s)"
    by (metis linorder_not_less)
  then have "int (length (filter (\<lambda>h. h \<in> set (groupable s)) [''a'', ''b'', ''c''])) \<le> MAX_PAIRWISE_HOLDERS"
    by (simp add: MAX_PAIRWISE_HOLDERS_def)
  from domains_are_components [OF s_def _ this, of "Some demo_declared", folded E_def Obs_def]
  obtain out where out: "inferDomains [''a'', ''b'', ''c''] s (Some demo_declared) = Some out"
      "\<And>x y. x \<in> set [''a'', ''b'', ''c''] \<Longrightarrow> y \<in> set [''a'', ''b'', ''c''] \<Longrightarrow> mget out x = mget out y \<longleftrightarrow> (x, y) \<in> (E \<union> Obs)\<^sup>*"
    by auto
  have Obs: "Obs = {}"
    using thin_evidence [OF few] by (simp add: Obs_def)
  have h: "hints (Some demo_declared) x = (if x = ''a'' \<or> x = ''c'' then Some ''box'' else None)" for x
    by (simp add: hints_def demo_declared_def)
  have e: "x = ''a'' \<or> x = ''c''" "y = ''a'' \<or> y = ''c''" if "(x, y) \<in> E" for x y
  proof -
    have "truthy (hints (Some demo_declared) x)" "hints (Some demo_declared) x = hints (Some demo_declared) y"
      using that unfolding E_def by blast+
    then have "hints (Some demo_declared) x \<noteq> None" "hints (Some demo_declared) y \<noteq> None"
      by (auto simp: truthy_iff)
    then show "x = ''a'' \<or> x = ''c''" "y = ''a'' \<or> y = ''c''"
      unfolding h by presburger+
  qed
  have "x = ''a'' \<or> x = ''c''" if "(''a'', x) \<in> E\<^sup>*" for x
    using that by (induction rule: rtrancl_induct) (use e(2) in blast)+
  then have "(''a'', ''b'') \<notin> E\<^sup>*" by fastforce
  moreover have "(''a'', ''c'') \<in> E\<^sup>*"
    by (rule r_into_rtrancl) (simp add: E_def h)
  ultimately show ?thesis
    using out Obs by (auto simp: s_def)
qed

section \<open>Discovery\<close>

text \<open>Whatever blocks relays serve and in whatever order, a listed provider has a registration that
  verifies, is the newest of its account among the verifying blocks, declares the listed capacity, and is
  not superseded by a departure; every provider whose newest registrations are of this kind is listed, and
  nobody is listed twice.\<close>
theorem discovery_is_evidence:
  shows "set (foldProviderBlocks C bs) \<subseteq> {discovered_row a reg | a reg. newest_of StorageRegister a (filter (verifyBlock C) bs) reg
        \<and> 0 < capacity_of reg \<and> \<not> departed (filter (verifyBlock C) bs) reg}
    \<and> {a. \<exists>reg. newest_of StorageRegister a (filter (verifyBlock C) bs) reg}
        - {a. \<exists>reg. newest_of StorageRegister a (filter (verifyBlock C) bs) reg
             \<and> (capacity_of reg \<le> 0 \<or> departed (filter (verifyBlock C) bs) reg)}
      \<subseteq> pv_pub ` set (foldProviderBlocks C bs)
    \<and> distinct (map pv_pub (foldProviderBlocks C bs))"
proof (intro conjI subsetI)
  fix p
  assume "p \<in> set (foldProviderBlocks C bs)"
  then show "p \<in> {discovered_row a reg | a reg. newest_of StorageRegister a (filter (verifyBlock C) bs) reg
        \<and> 0 < capacity_of reg \<and> \<not> departed (filter (verifyBlock C) bs) reg}"
    using listed_sound by blast
next
  fix a
  assume "a \<in> {a. \<exists>reg. newest_of StorageRegister a (filter (verifyBlock C) bs) reg}
        - {a. \<exists>reg. newest_of StorageRegister a (filter (verifyBlock C) bs) reg
             \<and> (capacity_of reg \<le> 0 \<or> departed (filter (verifyBlock C) bs) reg)}"
  then show "a \<in> pv_pub ` set (foldProviderBlocks C bs)"
    using listed_complete [of a C bs] by (auto simp: not_le)
qed (rule listed_once)

end
