(* ===== verification/Json_Parse.thy ===== *)
theory Json_Parse
  imports Json_Codec
begin

text \<open>
  \<open>JSON.parse\<close> of the language, which the codec of the blocks, the archive, the signed envelopes
  and the payloads of the application ledger rest on. Numbers are exact rationals; a text that the
  grammar refuses is \<open>None\<close> (a \<open>SyntaxError\<close>). A repeated member keeps its last value at its first
  position and array indices are enumerated first, as for every object. The characters of the model
  have eight bits: an escape of a larger code unit is outside it and read as an error.
  The recursion has fuel; twice the length of the text is enough (\<open>parse_fuel\<close>), and what
  \<open>JSON.stringify\<close> prints is read back (\<open>parse_stringify\<close>).
\<close>

datatype jsv =
    VNull
  | VBool bool
  | VNum rat
  | VStr string
  | VArr "jsv list"
  | VObj "(string \<times> jsv) list"

section \<open>Tokens\<close>

definition ws_char :: "char \<Rightarrow> bool" where
  "ws_char c \<longleftrightarrow> of_char c \<in> {9, 10, 13, 32 :: nat}"

definition skip_ws :: "string \<Rightarrow> string" where
  "skip_ws s = dropWhile ws_char s"

definition starts :: "string \<Rightarrow> string \<Rightarrow> bool" where
  "starts p s \<longleftrightarrow> take (length p) s = p"

definition hex_code :: "char \<Rightarrow> nat option" where
  "hex_code c = (let n = (of_char c :: nat) in
     if 48 \<le> n \<and> n \<le> 57 then Some (n - 48)
     else if 97 \<le> n \<and> n \<le> 102 then Some (n - 87)
     else if 65 \<le> n \<and> n \<le> 70 then Some (n - 55)
     else None)"

definition hex4 :: "string \<Rightarrow> nat option" where
  "hex4 s = (if length s < 4 then None else
     case map hex_code (take 4 s) of
       [Some a, Some b, Some c, Some d] \<Rightarrow> Some (4096 * a + 256 * b + 16 * c + d)
     | _ \<Rightarrow> None)"

definition simple_escape :: "char \<Rightarrow> char option" where
  "simple_escape e = map_of [(CHR 0x22, CHR 0x22), (CHR 0x5C, CHR 0x5C), (CHR ''/'', CHR ''/''), (CHR ''b'', CHR 0x08),
     (CHR ''f'', CHR 0x0C), (CHR ''n'', CHR 0x0A), (CHR ''r'', CHR 0x0D), (CHR ''t'', CHR 0x09)] e"

definition read_char :: "string \<Rightarrow> (char \<times> string) option" where
  "read_char s = (case s of
     [] \<Rightarrow> None
   | c # r \<Rightarrow>
       if (of_char c :: nat) < 32 then None
       else if c \<noteq> CHR 0x5C then Some (c, r)
       else (case r of
          [] \<Rightarrow> None
        | e # t \<Rightarrow> (case simple_escape e of
            Some x \<Rightarrow> Some (x, t)
          | None \<Rightarrow>
              if e \<noteq> CHR ''u'' then None
              else (case hex4 t of
                 None \<Rightarrow> None
               | Some n \<Rightarrow> if n < 256 then Some (char_of n, drop 4 t) else None))))"

lemma read_char_shorter: "read_char s = Some (c, r) \<Longrightarrow> length r < length s"
  by (auto simp: read_char_def split: list.splits if_splits option.splits)

function parse_str :: "string \<Rightarrow> (string \<times> string) option" where
  "parse_str s = (if s = [] then None
     else if hd s = CHR 0x22 then Some ([], tl s)
     else (case read_char s of
        None \<Rightarrow> None
      | Some (c, r) \<Rightarrow> (case parse_str r of None \<Rightarrow> None | Some (t, u) \<Rightarrow> Some (c # t, u))))"
  by pat_completeness auto
termination
  by (relation "measure length") (auto dest: read_char_shorter)

declare parse_str.simps [simp del]

definition pow10 :: "int \<Rightarrow> rat" where
  "pow10 e = (if 0 \<le> e then 10 ^ nat e else 1 / 10 ^ nat (- e))"

definition read_frac :: "string \<Rightarrow> (string \<times> string) option" where
  "read_frac s = (if s \<noteq> [] \<and> hd s = CHR ''.'' then
       (let ds = takeWhile is_digit_char (tl s) in if ds = [] then None else Some (ds, dropWhile is_digit_char (tl s)))
     else Some ([], s))"

definition read_exp :: "string \<Rightarrow> (int \<times> string) option" where
  "read_exp s = (if s \<noteq> [] \<and> hd s \<in> {CHR ''e'', CHR ''E''} then
       (let r = tl s; signed = r \<noteq> [] \<and> hd r \<in> {CHR ''+'', CHR ''-''};
            u = (if signed then tl r else r); ds = takeWhile is_digit_char u
        in if ds = [] then None
           else Some ((if signed \<and> hd r = CHR ''-'' then - int (str_val ds) else int (str_val ds)), dropWhile is_digit_char u))
     else Some (0, s))"

definition read_num :: "string \<Rightarrow> (rat \<times> string) option" where
  "read_num s = (let neg = s \<noteq> [] \<and> hd s = CHR ''-''; u = (if neg then tl s else s);
       ip = takeWhile is_digit_char u
     in if ip = [] \<or> hd ip = CHR ''0'' \<and> length ip \<noteq> 1 then None
        else (case read_frac (dropWhile is_digit_char u) of
          None \<Rightarrow> None
        | Some (fs, r) \<Rightarrow> (case read_exp r of
            None \<Rightarrow> None
          | Some (e, t) \<Rightarrow>
              Some ((if neg then - 1 else 1) * of_nat (str_val (ip @ fs)) * pow10 (e - int (length fs)), t))))"

section \<open>Values\<close>

definition own_props :: "(string \<times> jsv) list \<Rightarrow> (string \<times> jsv) list" where
  "own_props kvs = obj_order (fold (\<lambda>kv. mset_at (fst kv) (snd kv)) kvs [])"

fun parse_val :: "nat \<Rightarrow> string \<Rightarrow> (jsv \<times> string) option"
  and parse_elems :: "nat \<Rightarrow> string \<Rightarrow> (jsv list \<times> string) option"
  and parse_members :: "nat \<Rightarrow> string \<Rightarrow> ((string \<times> jsv) list \<times> string) option" where
  "parse_val 0 s = None"
| "parse_val (Suc n) s =
     (if s = [] then None
      else if hd s = CHR ''{'' then
        (let r = skip_ws (tl s) in
         if r \<noteq> [] \<and> hd r = CHR ''}'' then Some (VObj [], tl r)
         else map_option (map_prod (\<lambda>kvs. VObj (own_props kvs)) id) (parse_members n r))
      else if hd s = CHR ''['' then
        (let r = skip_ws (tl s) in
         if r \<noteq> [] \<and> hd r = CHR '']'' then Some (VArr [], tl r)
         else map_option (map_prod VArr id) (parse_elems n r))
      else if hd s = CHR 0x22 then map_option (map_prod VStr id) (parse_str (tl s))
      else if starts ''true'' s then Some (VBool True, drop 4 s)
      else if starts ''false'' s then Some (VBool False, drop 5 s)
      else if starts ''null'' s then Some (VNull, drop 4 s)
      else map_option (map_prod VNum id) (read_num s))"
| "parse_elems 0 s = None"
| "parse_elems (Suc n) s = (case parse_val n s of
     None \<Rightarrow> None
   | Some (v, r) \<Rightarrow>
       let t = skip_ws r in
       if t = [] then None
       else if hd t = CHR '','' then map_option (map_prod (Cons v) id) (parse_elems n (skip_ws (tl t)))
       else if hd t = CHR '']'' then Some ([v], tl t)
       else None)"
| "parse_members 0 s = None"
| "parse_members (Suc n) s =
     (if s = [] \<or> hd s \<noteq> CHR 0x22 then None
      else (case parse_str (tl s) of
        None \<Rightarrow> None
      | Some (k, r) \<Rightarrow>
          let u = skip_ws r in
          if u = [] \<or> hd u \<noteq> CHR '':'' then None
          else (case parse_val n (skip_ws (tl u)) of
             None \<Rightarrow> None
           | Some (v, w) \<Rightarrow>
               let t = skip_ws w in
               if t = [] then None
               else if hd t = CHR '','' then map_option (map_prod (Cons (k, v)) id) (parse_members n (skip_ws (tl t)))
               else if hd t = CHR ''}'' then Some ([(k, v)], tl t)
               else None)))"

definition JSON_parse :: "string \<Rightarrow> jsv option" where
  "JSON_parse s = (let t = skip_ws s in
     case parse_val (2 * length t + 1) t of
       None \<Rightarrow> None
     | Some (v, r) \<Rightarrow> if skip_ws r = [] then Some v else None)"

text \<open>Reading a member: \<open>None\<close> is the \<open>TypeError\<close> on \<open>null\<close>, \<open>Some None\<close> is \<open>undefined\<close>.\<close>

definition js_member :: "jsv \<Rightarrow> string \<Rightarrow> jsv option option" where
  "js_member v k = (case v of VNull \<Rightarrow> None | VObj kvs \<Rightarrow> Some (mget kvs k) | _ \<Rightarrow> Some None)"

section \<open>The fuel is enough\<close>

lemma skip_ws_length: "length (skip_ws s) \<le> length s"
  by (simp add: skip_ws_def length_dropWhile_le)

lemma parse_str_shorter: "parse_str s = Some (t, r) \<Longrightarrow> length r < length s"
proof (induction s arbitrary: t r rule: parse_str.induct)
  case (1 s)
  show ?case
  proof (cases "s = [] \<or> hd s = CHR 0x22")
    case True
    with 1(2) show ?thesis by (subst (asm) parse_str.simps) (cases s; auto split: if_splits)
  next
    case False
    with 1(2) obtain c u t' where "read_char s = Some (c, u)" "parse_str u = Some (t', r)"
      by (subst (asm) parse_str.simps) (auto split: option.splits)
    with 1(1) [of "(c, u)" c u t' r] read_char_shorter [of s c u] False show ?thesis by auto
  qed
qed

lemma read_num_shorter: "read_num s = Some (q, r) \<Longrightarrow> length r < length s"
proof -
  assume a: "read_num s = Some (q, r)"
  let ?u = "if s \<noteq> [] \<and> hd s = CHR ''-'' then tl s else s"
  have dw: "length (dropWhile is_digit_char x) \<le> length x" for x by (rule length_dropWhile_le)
  from a have ip: "takeWhile is_digit_char ?u \<noteq> []"
    unfolding read_num_def Let_def by (auto split: if_splits)
  have 1: "length (dropWhile is_digit_char ?u) < length ?u"
    using ip by (metis length_append length_greater_0_conv less_add_same_cancel2 takeWhile_dropWhile_id)
  have 2: "length t \<le> length v" if "read_frac v = Some (fs, t)" for v fs t
    using that dw [of "tl v"] by (auto simp: read_frac_def Let_def split: if_splits)
  have 3: "length t \<le> length v" if "read_exp v = Some (e, t)" for v e t
    using that dw [of "tl v"] dw [of "tl (tl v)"] by (auto simp: read_exp_def Let_def split: if_splits)
  from a ip obtain fs v e where "read_frac (dropWhile is_digit_char ?u) = Some (fs, v)" "read_exp v = Some (e, r)"
    unfolding read_num_def Let_def by (auto split: if_splits option.splits)
  from 1 2 [OF this(1)] 3 [OF this(2)] show ?thesis
    by (auto split: if_splits)
qed

lemma parse_shorter:
  "parse_val n s = Some (v, r) \<Longrightarrow> length r < length s"
  "parse_elems n s = Some (vs, r) \<Longrightarrow> length r < length s"
  "parse_members n s = Some (kvs, r) \<Longrightarrow> length r < length s"
proof (induction n arbitrary: s v vs kvs r)
  case (Suc n)
  note sk = skip_ws_length
  { case 1
    note p = this
    show ?case
    proof (cases "s \<noteq> [] \<and> hd s = CHR ''{''")
      case True
      with p Suc.IH(3) [of "skip_ws (tl s)"] sk [of "tl s"] show ?thesis
        by (cases s) (fastforce simp: Let_def split: if_splits)+
    next
      case obj: False
      show ?thesis
      proof (cases "s \<noteq> [] \<and> hd s = CHR ''[''")
        case True
        with p Suc.IH(2) [of "skip_ws (tl s)"] sk [of "tl s"] show ?thesis
          by (cases s) (fastforce simp: Let_def split: if_splits)+
      next
        case False
        with p obj show ?thesis
          by (cases s) (auto simp: starts_def split: if_splits dest: parse_str_shorter read_num_shorter)
      qed
    qed
  next
    case 2
    then obtain v0 r0 where p: "parse_val n s = Some (v0, r0)"
      by (auto split: option.splits)
    from Suc.IH(1) [OF p] 2 p sk [of r0] sk [of "tl (skip_ws r0)"] Suc.IH(2) [of "skip_ws (tl (skip_ws r0))"] show ?case
      by (fastforce simp: Let_def split: if_splits)
  next
    case 3
    then obtain k u v0 w where p: "s \<noteq> []" "parse_str (tl s) = Some (k, u)" "skip_ws u \<noteq> []" "parse_val n (skip_ws (tl (skip_ws u))) = Some (v0, w)"
      by (auto simp: Let_def split: option.splits if_splits)
    from parse_str_shorter [OF p(2)] Suc.IH(1) [OF p(4)] 3 p sk [of u] sk [of "tl (skip_ws u)"] sk [of w] sk [of "tl (skip_ws w)"]
      Suc.IH(3) [of "skip_ws (tl (skip_ws w))"] show ?case
      by (fastforce simp: Let_def split: if_splits)
  }
qed simp_all

lemma parse_fuel:
  "2 * length s < n \<Longrightarrow> n \<le> m \<Longrightarrow> parse_val n s = parse_val m s"
  "2 * length s + 1 < n \<Longrightarrow> n \<le> m \<Longrightarrow> parse_elems n s = parse_elems m s"
  "2 * length s < n \<Longrightarrow> n \<le> m \<Longrightarrow> parse_members n s = parse_members m s"
proof (induction n arbitrary: s m)
  case (Suc n)
  note sk = skip_ws_length
  { case 1
    then obtain k where m: "m = Suc k" "n \<le> k" by (cases m) auto
    show ?case
    proof (cases "s = []")
      case False
      then have l: "length (skip_ws (tl s)) < length s"
        using sk [of "tl s"] by (cases s) auto
      have "2 * length (skip_ws (tl s)) + 1 < n" "2 * length (skip_ws (tl s)) < n"
        using l 1(1) by linarith+
      note e = Suc.IH(2) [OF this(1) m(2)] Suc.IH(3) [OF this(2) m(2)]
      show ?thesis
        by (simp only: parse_val.simps Let_def m e)
    qed (simp add: m)
  next
    case 2
    then obtain k where m: "m = Suc k" "n \<le> k" by (cases m) auto
    have v: "parse_val n s = parse_val k s"
      using 2(1) m(2) by (intro Suc.IH(1)) auto
    have "parse_elems n (skip_ws (tl (skip_ws r))) = parse_elems k (skip_ws (tl (skip_ws r)))"
      if "parse_val k s = Some (x, r)" for x r
    proof -
      have "length (skip_ws (tl (skip_ws r))) < length s"
        using parse_shorter(1) [OF that] sk [of r] sk [of "tl (skip_ws r)"] by (cases "skip_ws r") auto
      with 2(1) m(2) show ?thesis by (intro Suc.IH(2)) auto
    qed
    then show ?case
      unfolding m by (simp add: v Let_def split: option.split)
  next
    case 3
    then obtain k where m: "m = Suc k" "n \<le> k" by (cases m) auto
    show ?case
    proof (cases "s = [] \<or> hd s \<noteq> CHR 0x22 \<or> parse_str (tl s) = None")
      case False
      then obtain key r where r: "parse_str (tl s) = Some (key, r)" "s \<noteq> []" by auto
      have lr: "length r + 1 < length s"
        using parse_str_shorter [OF r(1)] r(2) by (cases s) auto
      have "length (skip_ws (tl (skip_ws r))) < length s"
        using lr sk [of r] sk [of "tl (skip_ws r)"] by (cases "skip_ws r") auto
      then have v: "parse_val n (skip_ws (tl (skip_ws r))) = parse_val k (skip_ws (tl (skip_ws r)))"
        using 3(1) m(2) by (intro Suc.IH(1)) auto
      have "parse_members n (skip_ws (tl (skip_ws w))) = parse_members k (skip_ws (tl (skip_ws w)))"
        if "parse_val k (skip_ws (tl (skip_ws r))) = Some (x, w)" for x w
      proof -
        have "length (skip_ws (tl (skip_ws w))) < length s"
          using parse_shorter(1) [OF that] lr sk [of r] sk [of "tl (skip_ws r)"] sk [of w] sk [of "tl (skip_ws w)"]
          by (cases "skip_ws w") auto
        with 3(1) m(2) show ?thesis by (intro Suc.IH(3)) auto
      qed
      then show ?thesis
        unfolding m by (simp add: r v Let_def split: option.split)
    qed (auto simp: m)
  }
qed simp_all

section \<open>Reading what \<open>JSON.stringify\<close> prints\<close>

fun of_json :: "json \<Rightarrow> jsv" where
  "of_json JNull = VNull"
| "of_json (JBool b) = VBool b"
| "of_json (JNum i) = VNum (of_int i)"
| "of_json (JStr s) = VStr s"
| "of_json (JArr xs) = VArr (map of_json xs)"
| "of_json (JObj kvs) = VObj (map (\<lambda>kv. (fst kv, of_json (snd kv))) kvs)"

text \<open>Objects as the language holds them: no key twice, in enumeration order.\<close>

fun json_wf :: "json \<Rightarrow> bool" where
  "json_wf (JArr xs) \<longleftrightarrow> (\<forall>x \<in> set xs. json_wf x)"
| "json_wf (JObj kvs) \<longleftrightarrow> distinct (map fst kvs) \<and> obj_order kvs = kvs \<and> (\<forall>kv \<in> set kvs. json_wf (snd kv))"
| "json_wf v \<longleftrightarrow> True"

lemma control_chars:
  "char_of (34 :: nat) = CHR 0x22" "char_of (92 :: nat) = CHR 0x5C" "char_of (8 :: nat) = CHR 0x08" "char_of (12 :: nat) = CHR 0x0C"
  "char_of (10 :: nat) = CHR 0x0A" "char_of (13 :: nat) = CHR 0x0D" "char_of (9 :: nat) = CHR 0x09"
  by code_simp+

lemma read_escape: "read_char (escape_char c @ x) = Some (c, x)"
proof -
  let ?n = "of_char c :: nat"
  have ctl: "hex4 (CHR ''0'' # CHR ''0'' # hex_digit (?n div 16) # hex_digit (?n mod 16) # x) = Some ?n" if "?n < 32"
  proof -
    have "hex_code (hex_digit d) = Some d" if "d < 16" for d
      using that by (auto simp: hex_code_def hex_digit_def Let_def)
    moreover have "hex_code (CHR ''0'') = Some 0" by code_simp
    ultimately show ?thesis
      using that by (simp add: hex4_def)
  qed
  consider "?n = 34" | "?n = 92" | "?n = 8" | "?n = 12" | "?n = 10" | "?n = 13" | "?n = 9"
    | "?n < 32" "?n \<notin> {8, 12, 10, 13, 9}" | "?n \<ge> 32" "?n \<noteq> 34" "?n \<noteq> 92"
    by fastforce
  then show ?thesis
  proof cases
    case 8
    then have "escape_char c = [CHR 0x5C, CHR ''u'', CHR ''0'', CHR ''0'', hex_digit (?n div 16), hex_digit (?n mod 16)]"
      by (simp add: escape_char_def Let_def)
    with ctl [OF 8(1)] 8(1) show ?thesis
      by (simp add: read_char_def simple_escape_def)
  next
    case 9
    then have "c \<noteq> CHR 0x5C" by auto
    with 9 show ?thesis
      by (simp add: escape_char_def Let_def read_char_def)
  qed (auto simp: escape_char_def Let_def read_char_def simple_escape_def control_chars dest!: char_of_of_char_nat [symmetric])
qed

lemma escape_hd: "escape_char c \<noteq> []" "hd (escape_char c) \<noteq> CHR 0x22"
  using escape_not_quote [of c "[]" "tl (escape_char c)"] by (auto simp: escape_char_def Let_def)

lemma parse_quoted: "parse_str (concat (map escape_char s) @ CHR 0x22 # r) = Some (s, r)"
proof (induction s)
  case (Cons c s)
  then show ?case
    using escape_hd [of c] by (subst parse_str.simps) (simp add: read_escape)
qed (simp add: parse_str.simps)

lemma read_int:
  assumes "delim r" shows "read_num (int_str i @ r) = Some (of_int i, r)"
proof -
  have nd: "\<not> is_digit_char (hd r)" "hd r \<noteq> CHR ''.''" "hd r \<notin> {CHR ''e'', CHR ''E''}" if "r \<noteq> []"
    using assms that by (auto simp: delim_def is_digit_char_def)
  have tw: "takeWhile is_digit_char (nat_str k @ r) = nat_str k" "dropWhile is_digit_char (nat_str k @ r) = r" for k
    using nat_str_digits [of _ k] nd(1) by (cases r; simp add: takeWhile_append2 dropWhile_append2)+
  have lead: "\<not> (hd (nat_str k) = CHR ''0'' \<and> length (nat_str k) \<noteq> 1)" for k
  proof (induction k rule: nat_str.induct)
    case (1 k)
    show ?case
    proof (cases "k < 10")
      case False
      have "hd (nat_str (k div 10)) \<noteq> CHR ''0''"
      proof
        assume z: "hd (nat_str (k div 10)) = CHR ''0''"
        with 1 False have "length (nat_str (k div 10)) = 1" by simp
        with z have "nat_str (k div 10) = [CHR ''0'']"
          by (cases "nat_str (k div 10)") auto
        then have "str_val (nat_str (k div 10)) = 0" by simp
        then have "k div 10 = 0" by (simp only: str_val_nat_str)
        with False show False by simp
      qed
      then show ?thesis
        by (subst nat_str.simps, subst (2) nat_str.simps) (simp add: False)
    qed (simp add: nat_str.simps)
  qed
  have fe: "read_frac r = Some ([], r)" "read_exp r = Some (0, r)"
    using nd(2,3) by (auto simp: read_frac_def read_exp_def)
  have minus: "hd (nat_str k) \<noteq> CHR ''-''" for k
    using nat_str_no_minus [of k "tl (nat_str k)"] by (cases "nat_str k") auto
  show ?thesis
    using lead fe minus
    by (auto simp: read_num_def Let_def int_str_def tw pow10_def simp del: str_val.simps)
qed

lemma hd_value: "c \<in> {hd (stringify v), CHR '','', CHR '':'', CHR '']'', CHR ''}'', CHR 0x22} \<Longrightarrow> \<not> ws_char c"
proof -
  have "\<not> ws_char (hd (stringify v))"
  proof (cases v)
    case (JNum i)
    then show ?thesis
      using hd_int_str [of i] by (auto simp: num_char_def is_digit_char_def ws_char_def)
  qed (auto simp: json_quote_def ws_char_def)
  then show "c \<in> {hd (stringify v), CHR '','', CHR '':'', CHR '']'', CHR ''}'', CHR 0x22} \<Longrightarrow> \<not> ws_char c"
    by (auto simp: ws_char_def)
qed

lemma skip_none [simp]: "s = [] \<or> \<not> ws_char (hd s) \<Longrightarrow> skip_ws s = s"
  by (cases s) (auto simp: skip_ws_def)

lemma own_props_distinct: "distinct (map fst kvs) \<Longrightarrow> obj_order kvs = kvs \<Longrightarrow> own_props kvs = kvs"
proof -
  have "fold (\<lambda>kv. mset_at (fst kv) (snd kv)) kvs m = m @ kvs" if "distinct (map fst kvs)" "set (map fst kvs) \<inter> set (mkeys m) = {}" for m :: "(string, jsv) jsmap"
    using that
  proof (induction kvs arbitrary: m)
    case (Cons kv kvs)
    then have "mset_at (fst kv) (snd kv) m = m @ [kv]"
      by (subst mset_at_new) auto
    with Cons show ?case by (auto simp: mkeys_def)
  qed simp
  from this [of "[]"] show "distinct (map fst kvs) \<Longrightarrow> obj_order kvs = kvs \<Longrightarrow> own_props kvs = kvs"
    by (simp add: own_props_def mkeys_def)
qed

lemma sort_key_map: "sort_key k (map f xs) = map f (sort_key (\<lambda>x. k (f x)) xs)"
proof (induction xs)
  case (Cons x xs)
  have "insort_key k (f x) (map f ys) = map f (insort_key (\<lambda>x. k (f x)) x ys)" for ys
    by (induction ys) auto
  with Cons show ?case by (simp add: sort_key_def)
qed simp

lemma obj_order_map: "obj_order (map (\<lambda>kv. (fst kv, f (snd kv))) kvs) = map (\<lambda>kv. (fst kv, f (snd kv))) (obj_order kvs)"
  by (simp add: obj_order_def filter_map comp_def sort_key_map)

lemma read_elem:
  assumes "parse_val n (stringify v @ r) = Some (of_json v, r)" "r = CHR '','' # t \<or> r = CHR '']'' # t"
  shows "parse_elems (Suc n) (stringify v @ r) = (if hd r = CHR '','' then map_option (map_prod (Cons (of_json v)) id) (parse_elems n (skip_ws t))
    else Some ([of_json v], t))"
proof -
  have "skip_ws r = r" using assms(2) by (intro skip_none) (auto simp: ws_char_def)
  with assms show ?thesis by auto
qed

lemma read_elems:
  assumes "xs \<noteq> []" "\<And>x n t. x \<in> set xs \<Longrightarrow> delim t \<Longrightarrow> 2 * length (stringify x @ t) < n \<Longrightarrow> parse_val n (stringify x @ t) = Some (of_json x, t)"
    "2 * length (join '','' (map stringify xs) @ CHR '']'' # r) + 1 < n"
  shows "parse_elems n (join '','' (map stringify xs) @ CHR '']'' # r) = Some (map of_json xs, r)"
  using assms
proof (induction xs arbitrary: n)
  case (Cons x xs)
  then obtain k where n: "n = Suc k" by (cases n) auto
  show ?case
  proof (cases xs)
    case Nil
    have "parse_val k (stringify x @ CHR '']'' # r) = Some (of_json x, CHR '']'' # r)"
      using Cons.prems(3) by (intro Cons.prems(2)) (auto simp: n Nil)
    from read_elem [OF this] show ?thesis by (simp add: n Nil del: parse_elems.simps)
  next
    case (Cons y ys)
    let ?t = "join '','' (map stringify xs) @ CHR '']'' # r"
    have shape: "join '','' (map stringify (x # xs)) @ CHR '']'' # r = stringify x @ CHR '','' # ?t"
      by (simp add: Cons)
    have bound: "2 * length (stringify x @ CHR '','' # ?t) + 1 < n"
      using Cons.prems(3) unfolding shape .
    then have "parse_val k (stringify x @ CHR '','' # ?t) = Some (of_json x, CHR '','' # ?t)"
      by (intro Cons.prems(2)) (auto simp: n)
    moreover have "skip_ws ?t = ?t"
      using hd_value [of "hd (stringify y)" y] by (intro skip_none) (cases ys; auto simp: Cons)
    moreover have "parse_elems k ?t = Some (map of_json xs, r)"
      using bound Cons by (intro Cons.IH Cons.prems(2)) (auto simp: n)
    ultimately show ?thesis
      unfolding shape n using read_elem [of k x "CHR '','' # ?t" ?t] by (simp del: parse_elems.simps)
  qed
qed simp

abbreviation member_text :: "string \<times> json \<Rightarrow> string" where
  "member_text kv \<equiv> json_quote (fst kv) @ '':'' @ stringify (snd kv)"

lemma read_member:
  assumes "parse_val n (stringify v @ r) = Some (of_json v, r)" "r = CHR '','' # t \<or> r = CHR ''}'' # t"
  shows "parse_members (Suc n) (json_quote k @ '':'' @ stringify v @ r) = (if hd r = CHR '','' then
      map_option (map_prod (Cons (k, of_json v)) id) (parse_members n (skip_ws t)) else Some ([(k, of_json v)], t))"
proof -
  have "skip_ws r = r" using assms(2) by (intro skip_none) (auto simp: ws_char_def)
  moreover have "skip_ws (stringify v @ r) = stringify v @ r"
    using hd_value [of "hd (stringify v)" v] by (intro skip_none) auto
  moreover have "skip_ws (CHR '':'' # stringify v @ r) = CHR '':'' # stringify v @ r"
    by (intro skip_none) (auto simp: ws_char_def)
  moreover have "parse_str (concat (map escape_char k) @ CHR 0x22 # CHR '':'' # stringify v @ r) = Some (k, CHR '':'' # stringify v @ r)"
    by (rule parse_quoted)
  ultimately show ?thesis using assms by (auto simp: json_quote_def Let_def)
qed

lemma read_members:
  assumes "kvs \<noteq> []" "\<And>kv n t. kv \<in> set kvs \<Longrightarrow> delim t \<Longrightarrow> 2 * length (stringify (snd kv) @ t) < n \<Longrightarrow> parse_val n (stringify (snd kv) @ t) = Some (of_json (snd kv), t)"
    "2 * length (join '','' (map member_text kvs) @ CHR ''}'' # r) < n"
  shows "parse_members n (join '','' (map member_text kvs) @ CHR ''}'' # r) = Some (map (\<lambda>kv. (fst kv, of_json (snd kv))) kvs, r)"
  using assms
proof (induction kvs arbitrary: n)
  case (Cons x kvs)
  then obtain k where n: "n = Suc k" by (cases n) auto
  show ?case
  proof (cases kvs)
    case Nil
    have "parse_val k (stringify (snd x) @ CHR ''}'' # r) = Some (of_json (snd x), CHR ''}'' # r)"
      using Cons.prems(3) by (intro Cons.prems(2)) (auto simp: n Nil json_quote_def)
    from read_member [OF this, of r "fst x"] show ?thesis by (simp add: n Nil del: parse_members.simps)
  next
    case (Cons y ys)
    let ?t = "join '','' (map member_text kvs) @ CHR ''}'' # r"
    have shape: "join '','' (map member_text (x # kvs)) @ CHR ''}'' # r = json_quote (fst x) @ '':'' @ stringify (snd x) @ CHR '','' # ?t"
      by (simp add: Cons)
    have bound: "2 * length (json_quote (fst x) @ '':'' @ stringify (snd x) @ CHR '','' # ?t) < n"
      using Cons.prems(3) unfolding shape .
    then have "parse_val k (stringify (snd x) @ CHR '','' # ?t) = Some (of_json (snd x), CHR '','' # ?t)"
      by (intro Cons.prems(2)) (auto simp: n json_quote_def)
    moreover have "skip_ws ?t = ?t"
      by (intro skip_none) (cases ys; auto simp: Cons json_quote_def ws_char_def)
    moreover have "parse_members k ?t = Some (map (\<lambda>kv. (fst kv, of_json (snd kv))) kvs, r)"
      using bound Cons by (intro Cons.IH Cons.prems(2)) (auto simp: n)
    ultimately show ?thesis
      unfolding shape n using read_member [of k "snd x" "CHR '','' # ?t" ?t "fst x"] by (simp del: parse_members.simps)
  qed
qed simp

lemma parse_stringify_delim:
  "json_wf v \<Longrightarrow> delim r \<Longrightarrow> 2 * length (stringify v @ r) < n \<Longrightarrow> parse_val n (stringify v @ r) = Some (of_json v, r)"
proof (induction v arbitrary: r n)
  case JNull
  then show ?case by (cases n) (auto simp: starts_def)
next
  case (JBool b)
  then show ?case by (cases n) (auto simp: starts_def)
next
  case (JNum i)
  then obtain k where n: "n = Suc k" by (cases n) auto
  have "num_char (hd (int_str i @ r))" using hd_int_str [of i] by simp
  then have h: "hd (int_str i @ r) \<notin> {CHR ''{'', CHR ''['', CHR 0x22, CHR ''t'', CHR ''f'', CHR ''n''}"
    by (auto simp: num_char_def is_digit_char_def)
  have st: "starts p s \<longleftrightarrow> s \<noteq> [] \<and> hd s = hd p \<and> starts p s" if "p \<noteq> []" for p s
    using that by (cases p; cases s) (auto simp: starts_def)
  have "\<not> starts ''true'' (int_str i @ r)" "\<not> starts ''false'' (int_str i @ r)" "\<not> starts ''null'' (int_str i @ r)"
    using h by (subst st; simp)+
  with h JNum show ?case by (simp add: n read_int)
next
  case (JStr s)
  then obtain k where n: "n = Suc k" by (cases n) auto
  have "parse_str (concat (map escape_char s) @ CHR 0x22 # r) = Some (s, r)" by (rule parse_quoted)
  then show ?case by (simp add: n json_quote_def)
next
  case (JArr xs)
  then obtain k where n: "n = Suc k" by (cases n) auto
  show ?case
  proof (cases xs)
    case Nil
    then show ?thesis by (simp add: n ws_char_def)
  next
    case (Cons y ys)
    let ?t = "join '','' (map stringify xs) @ CHR '']'' # r"
    have h: "hd ?t = hd (stringify y)" "?t \<noteq> []"
      by (cases ys; simp add: Cons)+
    have ws: "skip_ws ?t = ?t" and open_arr: "hd ?t \<noteq> CHR '']''" "?t \<noteq> []"
      using hd_value [of "hd (stringify y)" y] hd_stringify_close [of y] h by (auto intro: skip_none)
    have "parse_elems k ?t = Some (map of_json xs, r)"
      using JArr.prems JArr.IH Cons by (intro read_elems) (auto simp: n)
    with ws open_arr show ?thesis by (simp add: n)
  qed
next
  case (JObj kvs)
  then obtain k where n: "n = Suc k" by (cases n) auto
  show ?case
  proof (cases kvs)
    case Nil
    then show ?thesis by (simp add: n ws_char_def)
  next
    case (Cons y ys)
    let ?t = "join '','' (map member_text kvs) @ CHR ''}'' # r"
    have h: "hd ?t = CHR 0x22" "?t \<noteq> []"
      by (cases ys; simp add: Cons json_quote_def)+
    then have ws: "skip_ws ?t = ?t" and open_obj: "hd ?t \<noteq> CHR ''}''" "?t \<noteq> []"
      by (auto intro: skip_none simp: ws_char_def)
    have sub: "parse_val m (stringify (snd kv) @ t) = Some (of_json (snd kv), t)"
      if "kv \<in> set kvs" "delim t" "2 * length (stringify (snd kv) @ t) < m" for kv m t
      using that JObj.prems(1) by (intro JObj.IH [of kv "snd kv"]) (auto simp: snds.simps)
    have "parse_members k ?t = Some (map (\<lambda>kv. (fst kv, of_json (snd kv))) kvs, r)"
      using JObj.prems(3) Cons by (intro read_members sub) (auto simp: n)
    moreover have "own_props (map (\<lambda>kv. (fst kv, of_json (snd kv))) kvs) = map (\<lambda>kv. (fst kv, of_json (snd kv))) kvs"
      using JObj.prems(1) by (intro own_props_distinct) (simp_all add: obj_order_map comp_def)
    ultimately show ?thesis using ws open_obj by (simp add: n)
  qed
qed

lemma parse_stringify: "json_wf v \<Longrightarrow> JSON_parse (stringify v) = Some (of_json v)"
proof -
  have "skip_ws (stringify v) = stringify v"
    using hd_value [of "hd (stringify v)" v] by (intro skip_none) auto
  then show "json_wf v \<Longrightarrow> JSON_parse (stringify v) = Some (of_json v)"
    using parse_stringify_delim [of v "[]" "2 * length (stringify v) + 1"] by (simp add: JSON_parse_def)
qed

fun distinct_keys :: "json \<Rightarrow> bool" where
  "distinct_keys (JArr xs) \<longleftrightarrow> (\<forall>x \<in> set xs. distinct_keys x)"
| "distinct_keys (JObj kvs) \<longleftrightarrow> distinct (map fst kvs) \<and> (\<forall>kv \<in> set kvs. distinct_keys (snd kv))"
| "distinct_keys v \<longleftrightarrow> True"

lemma obj_order_idem: "obj_order (obj_order kvs) = obj_order kvs"
proof -
  let ?P = "\<lambda>kv :: string \<times> 'a. is_index_key (fst kv)"
  have s: "filter ?P (sort_key f (filter ?P kvs)) = sort_key f (filter ?P kvs)" "filter (\<lambda>kv. \<not> ?P kv) (sort_key f (filter ?P kvs)) = []"
    for f :: "string \<times> 'a \<Rightarrow> nat"
    by (auto simp: filter_id_conv filter_empty_conv)
  show ?thesis
    unfolding obj_order_def filter_append s by (simp add: sort_key_id_if_sorted)
qed

lemma sortValue_wf: "distinct_keys v \<Longrightarrow> json_wf (sortValue v)"
proof (induction v)
  case (JObj kvs)
  let ?m = "map (\<lambda>kv. (fst kv, sortValue (snd kv))) kvs"
  have "distinct (map fst ?m)" using JObj.prems by (simp add: comp_def)
  moreover have "mset (map fst (obj_order (sort_key fst ?m))) = mset (map fst ?m)"
    by (simp only: mset_map mset_obj_order mset_sort)
  note mset_eq_imp_distinct_iff [OF this]
  ultimately have "distinct (map fst (obj_order (sort_key fst ?m)))"
    by (rule iffD2 [rotated])
  moreover have "json_wf (snd kv)" if "kv \<in> set (obj_order (sort_key fst ?m))" for kv
  proof -
    have "set (obj_order (sort_key fst ?m)) = set ?m"
      by (simp only: set_mset_mset [symmetric] mset_obj_order mset_sort)
    with that JObj show ?thesis by (auto simp: snds.simps)
  qed
  ultimately show ?case by (simp add: obj_order_idem)
qed auto

lemma parse_canonical: "distinct_keys v \<Longrightarrow> JSON_parse (canonicalJson v) = Some (of_json (sortValue v))"
  unfolding canonicalJson_def by (intro parse_stringify sortValue_wf)

end
