(* ===== verification/App_Crypto.thy ===== *)
theory App_Crypto
  imports Json_Parse
begin

text \<open>
  The cryptographic primitives of the application, \<open>src/core/crypto.ts\<close> and the PIN layer of
  \<open>pin-crypto.ts\<close>: the signed envelope, the two AES formats, the post-quantum
  signature and the key formats, over Web Crypto, base64, UTF-8 and the @noble package, which are
  the fields of a record. A field that may throw returns \<open>None\<close>; random bytes are arguments. A
  member of the envelope that is not a string is read as an invalid envelope: the code would return
  a value that equals no string. The lemmas are the round trips and that a verified text is the one
  that was signed.
\<close>

record web_crypto =
  wc_atob :: "string \<Rightarrow> string option"
  wc_btoa :: "string \<Rightarrow> string"
  wc_utf8 :: "string \<Rightarrow> bytes"
  wc_text :: "bytes \<Rightarrow> string"
  wc_sha256 :: "bytes \<Rightarrow> bytes"
  wc_sign :: "jsv \<Rightarrow> bytes \<Rightarrow> bytes option"
  wc_verify :: "(string \<times> jsv) list \<Rightarrow> bytes \<Rightarrow> bytes \<Rightarrow> bool option"
  wc_pbkdf2 :: "string \<Rightarrow> int \<Rightarrow> bytes \<Rightarrow> bytes \<Rightarrow> bytes"
  wc_aes_encrypt :: "bytes \<Rightarrow> bytes \<Rightarrow> bytes \<Rightarrow> bytes"
  wc_aes_decrypt :: "bytes \<Rightarrow> bytes \<Rightarrow> bytes \<Rightarrow> bytes option"
  wc_mldsa_sign :: "bytes \<Rightarrow> bytes \<Rightarrow> bytes option"
  wc_mldsa_verify :: "bytes \<Rightarrow> bytes \<Rightarrow> bytes \<Rightarrow> bool option"

unbundle bit_operations_syntax

section \<open>Documented behaviour of the platform\<close>

definition base64_law :: "web_crypto \<Rightarrow> bool" where
  "base64_law W \<longleftrightarrow> (\<forall>s. wc_atob W (wc_btoa W s) = Some s \<and> CHR '':'' \<notin> set (wc_btoa W s))"

definition text_law :: "web_crypto \<Rightarrow> bool" where
  "text_law W \<longleftrightarrow> (\<forall>s. wc_text W (wc_utf8 W s) = s)"

definition aes_law :: "web_crypto \<Rightarrow> bool" where
  "aes_law W \<longleftrightarrow> (\<forall>k iv d. wc_aes_decrypt W k iv (wc_aes_encrypt W k iv d) = Some d)"

section \<open>Bytes\<close>

definition bin_str :: "bytes \<Rightarrow> string" where
  "bin_str b = map (\<lambda>x. char_of (unat x)) b"

definition bin_bytes :: "string \<Rightarrow> bytes" where
  "bin_bytes s = map (\<lambda>c. of_nat (of_char c)) s"

lemma bin_bytes_str [simp]: "bin_bytes (bin_str b) = b"
proof -
  have "of_nat (of_char (char_of (unat x) :: char) :: nat) = (x :: byte)" for x
  proof -
    have "unat x < 256" using unsigned_less [where 'a = nat and w = x] by simp
    then show ?thesis by simp
  qed
  then show ?thesis
    by (simp add: bin_bytes_def bin_str_def comp_def)
qed

definition bufToB64 :: "web_crypto \<Rightarrow> bytes \<Rightarrow> string" where
  "bufToB64 W buf = wc_btoa W (bin_str buf)"

definition b64ToBuf :: "web_crypto \<Rightarrow> string \<Rightarrow> bytes option" where
  "b64ToBuf W s = map_option bin_bytes (wc_atob W s)"

lemma b64_round [simp]: "base64_law W \<Longrightarrow> b64ToBuf W (bufToB64 W b) = Some b"
  by (simp add: b64ToBuf_def bufToB64_def base64_law_def)

section \<open>Keys\<close>

definition importSignPriv :: "web_crypto \<Rightarrow> string \<Rightarrow> jsv option" where
  "importSignPriv W b64 = Option.bind (wc_atob W b64) JSON_parse"

text \<open>
  Destructuring with a rest pattern: \<open>null\<close> throws, a string or an array gives its indices, any
  other primitive nothing. The private scalar never reaches the import.
\<close>

definition rest_of :: "string list \<Rightarrow> jsv \<Rightarrow> (string \<times> jsv) list option" where
  "rest_of drops v = (case v of
     VNull \<Rightarrow> None
   | VObj kvs \<Rightarrow> Some (filter (\<lambda>kv. fst kv \<notin> set drops) kvs)
   | VArr xs \<Rightarrow> Some (map (\<lambda>(i, x). (nat_str i, x)) (List.enumerate 0 xs))
   | VStr s \<Rightarrow> Some (map (\<lambda>(i, c). (nat_str i, VStr [c])) (List.enumerate 0 s))
   | _ \<Rightarrow> Some [])"

definition importVerifyPub :: "web_crypto \<Rightarrow> string \<Rightarrow> (string \<times> jsv) list option" where
  "importVerifyPub W b64 = Option.bind (Option.bind (wc_atob W b64) JSON_parse) (\<lambda>jwk.
     map_option (mset_at ''key_ops'' (VArr [VStr ''verify''])) (rest_of [''d'', ''key_ops''] jwk))"

lemma public_import_only: "importVerifyPub W b64 = Some kvs \<Longrightarrow> mget kvs ''d'' = None"
proof -
  assume "importVerifyPub W b64 = Some kvs"
  then obtain jwk r where r: "rest_of [''d'', ''key_ops''] jwk = Some r" "kvs = mset_at ''key_ops'' (VArr [VStr ''verify'']) r"
    by (auto simp: importVerifyPub_def bind_eq_Some_conv)
  have digits: "nat_str i \<noteq> ''d''" for i
    using nat_str_digits [of "CHR ''d''" i] by (auto simp: is_digit_char_def)
  have "mget r ''d'' = None"
    using r(1) by (cases jwk) (auto simp: rest_of_def map_of_eq_None_iff digits [symmetric] digits)
  with r(2) show ?thesis by simp
qed

definition deriveAESFromECDH :: "web_crypto \<Rightarrow> string \<Rightarrow> bytes option" where
  "deriveAESFromECDH W eprivB64 = Option.bind (Option.bind (wc_atob W eprivB64) JSON_parse) (\<lambda>jwk.
     map_option (\<lambda>d. wc_pbkdf2 W ''SHA-256'' 100000 (wc_utf8 W ''neuronchain-v2'')
         (wc_utf8 W (case d of Some (VStr s) \<Rightarrow> s | _ \<Rightarrow> eprivB64))) (js_member jwk ''d''))"

section \<open>Hash and envelope\<close>

definition hex_byte :: "byte \<Rightarrow> string" where
  "hex_byte b = [hex_digit (unat (drop_bit 4 b)), hex_digit (unat (b AND 15))]"

definition hashData :: "web_crypto \<Rightarrow> string \<Rightarrow> string" where
  "hashData W d = concat (map hex_byte (wc_sha256 W (wc_utf8 W d)))"

definition signData :: "web_crypto \<Rightarrow> string \<Rightarrow> string \<Rightarrow> string option" where
  "signData W d priv = Option.bind (importSignPriv W priv) (\<lambda>key.
     map_option (\<lambda>sig. stringify (JObj [(''d'', JStr d), (''s'', JStr (bufToB64 W sig))])) (wc_sign W key (wc_utf8 W d)))"

definition str_member :: "jsv \<Rightarrow> string \<Rightarrow> string option" where
  "str_member v k = (case js_member v k of Some (Some (VStr s)) \<Rightarrow> Some s | _ \<Rightarrow> None)"

definition verifySignature :: "web_crypto \<Rightarrow> string \<Rightarrow> string \<Rightarrow> string option" where
  "verifySignature W envl pub = Option.bind (JSON_parse envl) (\<lambda>env.
     Option.bind (str_member env ''d'') (\<lambda>d. Option.bind (str_member env ''s'') (\<lambda>s.
       Option.bind (importVerifyPub W pub) (\<lambda>key. Option.bind (b64ToBuf W s) (\<lambda>sig.
         Option.bind (wc_verify W key sig (wc_utf8 W d)) (\<lambda>valid. if valid then Some d else None))))))"

text \<open>The signature of a key pair: what \<open>wc_sign\<close> makes with the private JWK verifies under the public one.\<close>

definition app_key_pair :: "web_crypto \<Rightarrow> string \<Rightarrow> string \<Rightarrow> bool" where
  "app_key_pair W priv pub \<longleftrightarrow> (\<exists>k v. importSignPriv W priv = Some k \<and> importVerifyPub W pub = Some v
     \<and> (\<forall>m. \<exists>s. wc_sign W k m = Some s \<and> wc_verify W v s m = Some True))"

lemma envelope_wf: "json_wf (JObj [(''d'', JStr d), (''s'', JStr s)])"
  by (simp add: obj_order_def is_index_key_def is_digit_char_def)

lemma verify_signed:
  assumes "base64_law W" "app_key_pair W priv pub"
  shows "Option.bind (signData W d priv) (\<lambda>e. verifySignature W e pub) = Some d"
proof -
  from assms(2) obtain k v s where k: "importSignPriv W priv = Some k" "importVerifyPub W pub = Some v"
    "wc_sign W k (wc_utf8 W d) = Some s" "wc_verify W v s (wc_utf8 W d) = Some True"
    unfolding app_key_pair_def by blast
  with parse_stringify [OF envelope_wf, of d "bufToB64 W s"] assms(1) show ?thesis
    by (simp add: signData_def verifySignature_def str_member_def js_member_def del: stringify.simps)
qed

lemma verified_was_signed:
  assumes "verifySignature W envl pub = Some d"
  shows "\<exists>key sig. importVerifyPub W pub = Some key \<and> wc_verify W key sig (wc_utf8 W d) = Some True"
  using assms by (auto simp: verifySignature_def bind_eq_Some_conv split: if_splits)

section \<open>Encryption\<close>

definition encryptData :: "web_crypto \<Rightarrow> bytes \<Rightarrow> string \<Rightarrow> string \<Rightarrow> string option" where
  "encryptData W iv d epriv = map_option (\<lambda>key.
     bufToB64 W iv @ '':'' @ bufToB64 W (wc_aes_encrypt W key iv (wc_utf8 W d))) (deriveAESFromECDH W epriv)"

definition decryptData :: "web_crypto \<Rightarrow> string \<Rightarrow> string \<Rightarrow> string option" where
  "decryptData W encrypted epriv = (case split_on (CHR '':'') encrypted of
     ivB64 # ctB64 # _ \<Rightarrow> Option.bind (deriveAESFromECDH W epriv) (\<lambda>key.
       Option.bind (b64ToBuf W ivB64) (\<lambda>iv. Option.bind (b64ToBuf W ctB64) (\<lambda>ct.
         map_option (wc_text W) (wc_aes_decrypt W key iv ct))))
   | _ \<Rightarrow> None)"

definition encryptBytes :: "web_crypto \<Rightarrow> bytes \<Rightarrow> bytes \<Rightarrow> bytes \<Rightarrow> bytes" where
  "encryptBytes W iv d key = iv @ wc_aes_encrypt W key iv d"

definition decryptBytes :: "web_crypto \<Rightarrow> bytes \<Rightarrow> bytes \<Rightarrow> bytes option" where
  "decryptBytes W d key = wc_aes_decrypt W key (take 12 d) (drop 12 d)"

lemma decrypt_encrypt:
  assumes "base64_law W" "text_law W" "aes_law W" "encryptData W iv d epriv = Some e"
  shows "decryptData W e epriv = Some d"
proof -
  have nc: "CHR '':'' \<notin> set (bufToB64 W x)" for x
    using assms(1) by (simp add: base64_law_def bufToB64_def)
  have "split_on (CHR '':'') (bufToB64 W x @ '':'' @ bufToB64 W y) = [bufToB64 W x, bufToB64 W y]" for x y
    using split_on_append [OF nc, of x "bufToB64 W y"] split_on_none [OF nc, of y] by simp
  with assms show ?thesis
    by (auto simp: encryptData_def decryptData_def aes_law_def text_law_def)
qed

lemma decrypt_encrypt_bytes:
  "aes_law W \<Longrightarrow> length iv = 12 \<Longrightarrow> decryptBytes W (encryptBytes W iv d key) key = Some d"
  by (simp add: encryptBytes_def decryptBytes_def aes_law_def)

section \<open>The post-quantum signature\<close>

definition pqSign :: "web_crypto \<Rightarrow> string \<Rightarrow> string \<Rightarrow> string option" where
  "pqSign W d pqPrivB64 = Option.bind (b64ToBuf W pqPrivB64) (\<lambda>secret.
     map_option (bufToB64 W) (wc_mldsa_sign W (wc_utf8 W d) secret))"

definition pqVerify :: "web_crypto \<Rightarrow> string \<Rightarrow> string \<Rightarrow> string \<Rightarrow> bool" where
  "pqVerify W d sigB64 pqPubB64 = (case b64ToBuf W sigB64 of
     None \<Rightarrow> False
   | Some sig \<Rightarrow> (case b64ToBuf W pqPubB64 of
       None \<Rightarrow> False
     | Some key \<Rightarrow> wc_mldsa_verify W sig (wc_utf8 W d) key = Some True))"

section \<open>The PIN layer\<close>

definition KDF_ITERATIONS :: int where "KDF_ITERATIONS = 600000"
definition MAX_DELAY_MS :: int where "MAX_DELAY_MS = 86400000"
definition FREE_ATTEMPTS :: int where "FREE_ATTEMPTS = 3"

record pin_state =
  pn_failedAttempts :: int
  pn_lockedUntil :: int
  pn_lastAttemptAt :: int

definition getBackoffMs :: "int \<Rightarrow> int" where
  "getBackoffMs failed = (if failed \<le> FREE_ATTEMPTS then 0
     else min MAX_DELAY_MS (30 * 4 ^ nat (failed - FREE_ATTEMPTS - 1) * 1000))"

definition getPinAttemptState :: "(string, pin_state) jsmap \<Rightarrow> string \<Rightarrow> pin_state" where
  "getPinAttemptState db pub = nvl (mget db pub) \<lparr>pn_failedAttempts = 0, pn_lockedUntil = 0, pn_lastAttemptAt = 0\<rparr>"

definition checkPinLockout :: "(string, pin_state) jsmap \<Rightarrow> string \<Rightarrow> int \<Rightarrow> bool \<times> int" where
  "checkPinLockout db pub now = (let st = getPinAttemptState db pub in
     if pn_lockedUntil st > now then (True, pn_lockedUntil st - now) else (False, 0))"

definition recordPinFailure :: "string \<Rightarrow> int \<Rightarrow> (string, pin_state) jsmap \<Rightarrow> (string, pin_state) jsmap" where
  "recordPinFailure pub now db = (let st = getPinAttemptState db pub; n = pn_failedAttempts st + 1 in
     mset_at pub \<lparr>pn_failedAttempts = n, pn_lockedUntil = now + getBackoffMs n, pn_lastAttemptAt = now\<rparr> db)"

definition recordPinSuccess :: "string \<Rightarrow> int \<Rightarrow> (string, pin_state) jsmap \<Rightarrow> (string, pin_state) jsmap" where
  "recordPinSuccess pub now db =
     mset_at pub \<lparr>pn_failedAttempts = 0, pn_lockedUntil = 0, pn_lastAttemptAt = now\<rparr> db"

definition derivePinKey :: "web_crypto \<Rightarrow> string \<Rightarrow> bytes \<Rightarrow> bytes" where
  "derivePinKey W pin salt = wc_pbkdf2 W ''SHA-512'' KDF_ITERATIONS salt (wc_utf8 W pin)"

definition encryptWithPinKey :: "web_crypto \<Rightarrow> bytes \<Rightarrow> string \<Rightarrow> bytes \<Rightarrow> string" where
  "encryptWithPinKey W iv d key = wc_btoa W (bin_str (iv @ wc_aes_encrypt W key iv (wc_utf8 W d)))"

definition decryptWithPinKey :: "web_crypto \<Rightarrow> string \<Rightarrow> bytes \<Rightarrow> string option" where
  "decryptWithPinKey W encrypted key = Option.bind (wc_atob W encrypted) (\<lambda>b.
     let combined = bin_bytes b in map_option (wc_text W) (wc_aes_decrypt W key (take 12 combined) (drop 12 combined)))"

lemma pin_round:
  "base64_law W \<Longrightarrow> text_law W \<Longrightarrow> aes_law W \<Longrightarrow> length iv = 12
    \<Longrightarrow> decryptWithPinKey W (encryptWithPinKey W iv d key) key = Some d"
  by (simp add: decryptWithPinKey_def encryptWithPinKey_def base64_law_def aes_law_def text_law_def Let_def)

text \<open>The first delay comes after the fourth failure; each further failure waits at least as long, at most a day.\<close>

lemma backoff_steps:
  "getBackoffMs 3 = 0" "getBackoffMs 4 = 30000" "getBackoffMs 5 = 120000" "getBackoffMs 9 = 30720000" "getBackoffMs 10 = MAX_DELAY_MS"
  by (simp_all add: getBackoffMs_def FREE_ATTEMPTS_def MAX_DELAY_MS_def)

lemma backoff_mono: "m \<le> n \<Longrightarrow> getBackoffMs m \<le> getBackoffMs n"
proof -
  assume "m \<le> n"
  then have "(4 :: int) ^ nat (m - FREE_ATTEMPTS - 1) \<le> 4 ^ nat (n - FREE_ATTEMPTS - 1)"
    by (intro power_increasing) auto
  moreover have "min M (30 * a * 1000) \<le> min M (30 * b * 1000)" if "a \<le> b" for a b M :: int
    using that by (intro min.mono) auto
  ultimately have "min MAX_DELAY_MS (30 * 4 ^ nat (m - FREE_ATTEMPTS - 1) * 1000) \<le> min MAX_DELAY_MS (30 * 4 ^ nat (n - FREE_ATTEMPTS - 1) * 1000)"
    by blast
  moreover have "0 \<le> min MAX_DELAY_MS (30 * 4 ^ k * 1000)" for k
    by (simp add: MAX_DELAY_MS_def)
  ultimately show ?thesis
    using \<open>m \<le> n\<close> unfolding getBackoffMs_def by (cases "m \<le> FREE_ATTEMPTS"; cases "n \<le> FREE_ATTEMPTS") (simp_all only: if_True if_False; linarith?)+
qed

lemma backoff_bounds: "0 \<le> getBackoffMs n \<and> getBackoffMs n \<le> MAX_DELAY_MS"
  by (auto simp: getBackoffMs_def MAX_DELAY_MS_def)

end
