(* ===== verification/Dag_Block.thy ===== *)
theory Dag_Block
  imports App_Crypto
begin

text \<open>
  The blocks of the application ledger, \<open>src/core/dag-block.ts\<close>: the record, its hash, the two
  signatures, the amounts as the user writes them, and the structural check of a block against its
  parent. Numbers of a block are integers and numbers of a JSON payload are rationals. A type that
  the code does not know is \<open>DUnknown\<close>.
\<close>

datatype dag_type =
    DOpen | DSend | DReceive | DDeploy | DCall
  | DStorageRegister | DStorageDeregister | DStorageHeartbeat | DStorageReward
  | DUpdate
  | DUnknown string

fun dag_type_str :: "dag_type \<Rightarrow> string" where
  "dag_type_str DOpen = ''open''" | "dag_type_str DSend = ''send''" | "dag_type_str DReceive = ''receive''"
| "dag_type_str DDeploy = ''deploy''" | "dag_type_str DCall = ''call''"
| "dag_type_str DStorageRegister = ''storage-register''" | "dag_type_str DStorageDeregister = ''storage-deregister''"
| "dag_type_str DStorageHeartbeat = ''storage-heartbeat''" | "dag_type_str DStorageReward = ''storage-reward''"
| "dag_type_str DUpdate = ''update''" | "dag_type_str (DUnknown s) = s"

definition UNIT_DECIMALS :: int where "UNIT_DECIMALS = 3"
definition UNIT_FACTOR :: int where "UNIT_FACTOR = 1000"
definition VERIFICATION_MINT_AMOUNT :: int where "VERIFICATION_MINT_AMOUNT = 1000000 * UNIT_FACTOR"
definition DAG_GB_BYTES :: int where "DAG_GB_BYTES = 1073741824"
definition MAX_HEARTBEATS_PER_DAY :: int where "MAX_HEARTBEATS_PER_DAY = 6"
definition HEARTBEAT_INTERVAL_MS :: int where "HEARTBEAT_INTERVAL_MS = 4 * 60 * 60 * 1000"
definition REWARD_EPOCH_MS :: int where "REWARD_EPOCH_MS = 24 * 60 * 60 * 1000"

section \<open>Amounts\<close>

text \<open>\<open>toLocaleString\<close> depends on the host and is an argument; \<open>%\<close> truncates towards zero.\<close>

definition int_rem :: "int \<Rightarrow> int \<Rightarrow> int" where
  "int_rem a b = sgn a * (\<bar>a\<bar> mod \<bar>b\<bar>)"

definition pad_start :: "nat \<Rightarrow> string \<Rightarrow> string" where
  "pad_start n s = replicate (n - length s) (CHR ''0'') @ s"

definition pad_end :: "nat \<Rightarrow> string \<Rightarrow> string" where
  "pad_end n s = s @ replicate (n - length s) (CHR ''0'')"

definition strip_zeros :: "string \<Rightarrow> string" where
  "strip_zeros s = rev (dropWhile (\<lambda>c. c = CHR ''0'') (rev s))"

definition formatUNIT :: "(int \<Rightarrow> string) \<Rightarrow> int \<Rightarrow> string" where
  "formatUNIT toLocale n = (let whole = n div UNIT_FACTOR; frac = int_rem n UNIT_FACTOR in
     if frac = 0 then toLocale whole
     else toLocale whole @ ''.'' @ strip_zeros (pad_start (nat UNIT_DECIMALS) (int_str frac)))"

text \<open>\<open>parseInt(s, 10) || 0\<close>: white space, a sign, then the leading digits.\<close>

definition blank :: "char \<Rightarrow> bool" where
  "blank c \<longleftrightarrow> of_char c \<in> {9, 10, 11, 12, 13, 32, 160 :: nat}"

definition parse_int :: "string \<Rightarrow> int" where
  "parse_int s = (let t = dropWhile blank s; neg = t \<noteq> [] \<and> hd t = CHR ''-'';
       u = (if t \<noteq> [] \<and> hd t \<in> {CHR ''-'', CHR ''+''} then tl t else t)
     in (if neg then - 1 else 1) * int (str_val (takeWhile is_digit_char u)))"

definition js_trim :: "string \<Rightarrow> string" where
  "js_trim s = rev (dropWhile blank (rev (dropWhile blank s)))"

definition parseUNIT :: "string \<Rightarrow> int" where
  "parseUNIT input = (let parts = split_on (CHR ''.'') (js_trim input);
       whole = parse_int (hd parts);
       frac = (case tl parts of
           [] \<Rightarrow> 0
         | p # _ \<Rightarrow> if p = [] then 0 else parse_int (pad_end (nat UNIT_DECIMALS) (take (nat UNIT_DECIMALS) p)))
     in whole * UNIT_FACTOR + frac)"

section \<open>Blocks\<close>

record relay_credential =
  rl_relayPub :: string
  rl_sig :: string

record account_block =
  ab_hash :: string
  ab_accountPub :: string
  ab_index :: int
  ab_type :: dag_type
  ab_previousHash :: string
  ab_balance :: int
  ab_timestamp :: int
  ab_signature :: string
  ab_recipient :: "string option"
  ab_amount :: "int option"
  ab_sendBlockHash :: "string option"
  ab_sendFrom :: "string option"
  ab_receiveAmount :: "int option"
  ab_faceMapHash :: "string option"
  ab_contractData :: "string option"
  ab_contentCid :: "string option"
  ab_updateData :: "string option"
  ab_pqSignature :: "string option"
  ab_relayCredentials :: "relay_credential list option"

definition bytesToHex :: "bytes \<Rightarrow> string" where
  "bytesToHex bs = concat (map hex_byte bs)"

definition or_null :: "('a \<Rightarrow> json) \<Rightarrow> 'a option \<Rightarrow> json" where
  "or_null f x = (case x of None \<Rightarrow> JNull | Some v \<Rightarrow> f v)"

definition hashed_fields :: "account_block \<Rightarrow> json" where
  "hashed_fields b = JArr [JStr (ab_accountPub b), JNum (ab_index b), JStr (dag_type_str (ab_type b)),
     JStr (ab_previousHash b), JNum (ab_balance b), JNum (ab_timestamp b),
     or_null JStr (ab_recipient b), or_null JNum (ab_amount b), or_null JStr (ab_sendBlockHash b),
     or_null JStr (ab_sendFrom b), or_null JNum (ab_receiveAmount b), or_null JStr (ab_faceMapHash b),
     or_null JStr (ab_contractData b), or_null JStr (ab_contentCid b), or_null JStr (ab_updateData b)]"

definition hashAccountBlock :: "web_crypto \<Rightarrow> account_block \<Rightarrow> string" where
  "hashAccountBlock W b = bytesToHex (wc_sha256 W (wc_utf8 W (stringify (hashed_fields b))))"

record dag_keys =
  dk_priv :: string
  dk_pqPriv :: "string option"

text \<open>The parameters of \<open>createAccountBlock\<close> are a block whose time, hash and signatures are filled in.\<close>

definition createAccountBlock :: "web_crypto \<Rightarrow> int \<Rightarrow> account_block \<Rightarrow> dag_keys \<Rightarrow> account_block option" where
  "createAccountBlock W now params keys = (let b = params\<lparr>ab_timestamp := now\<rparr>; h = hashAccountBlock W b in
     case signData W h (dk_priv keys) of
       None \<Rightarrow> None
     | Some sig \<Rightarrow> (let b' = b\<lparr>ab_hash := h, ab_signature := sig\<rparr> in
         if truthy (dk_pqPriv keys) then map_option (\<lambda>q. b'\<lparr>ab_pqSignature := Some q\<rparr>) (pqSign W h (the (dk_pqPriv keys)))
         else Some b'))"

definition dag_verifyBlockSignature :: "web_crypto \<Rightarrow> account_block \<Rightarrow> string option \<Rightarrow> bool" where
  "dag_verifyBlockSignature W b pqPub =
     (if verifySignature W (ab_signature b) (ab_accountPub b) \<noteq> Some (ab_hash b) then False
      else if truthy pqPub \<and> truthy (ab_pqSignature b) then pqVerify W (ab_hash b) (the (ab_pqSignature b)) (the pqPub)
      else True)"

section \<open>The structural check\<close>

datatype verdict = Valid | Invalid string

definition safe_integer :: "rat \<Rightarrow> bool" where
  "safe_integer q \<longleftrightarrow> q \<in> \<int> \<and> \<bar>q\<bar> \<le> 9007199254740991"

abbreviation safe_int :: "int \<Rightarrow> bool" where
  "safe_int i \<equiv> \<bar>i\<bar> \<le> 9007199254740991"

definition num_member :: "jsv \<Rightarrow> string \<Rightarrow> rat option option" where
  "num_member v k = map_option (\<lambda>x. case x of Some (VNum q) \<Rightarrow> Some q | _ \<Rightarrow> None) (js_member v k)"

definition positive :: "rat option \<Rightarrow> bool" where
  "positive q \<longleftrightarrow> (case q of None \<Rightarrow> False | Some x \<Rightarrow> x > 0)"

definition same_balance :: "account_block \<Rightarrow> account_block \<Rightarrow> string \<Rightarrow> verdict" where
  "same_balance b parent err = (if ab_balance b \<noteq> ab_balance parent then Invalid err else Valid)"

definition check_open :: "account_block \<Rightarrow> account_block option \<Rightarrow> verdict" where
  "check_open b parent =
     (if parent \<noteq> None then Invalid ''Open block cannot have a parent''
      else if ab_index b \<noteq> 0 then Invalid ''Open block must be index 0''
      else if \<not> truthy (ab_faceMapHash b) then Invalid ''Open block requires faceMapHash''
      else if ab_balance b \<noteq> VERIFICATION_MINT_AMOUNT then Invalid ''Open block must mint 1000000000 UNIT''
      else if ab_previousHash b \<noteq> replicate 64 (CHR ''0'') then Invalid ''Open block previousHash must be zero''
      else Valid)"

definition check_send :: "account_block \<Rightarrow> account_block \<Rightarrow> verdict" where
  "check_send b parent =
     (if \<not> truthy (ab_recipient b) then Invalid ''Send block needs recipient''
      else case ab_amount b of
        None \<Rightarrow> Invalid ''Send amount must be positive''
      | Some a \<Rightarrow>
          if a \<le> 0 then Invalid ''Send amount must be positive''
          else if \<not> safe_int a then Invalid ''Send amount out of safe integer range''
          else if ab_balance parent < a then Invalid ''Insufficient balance''
          else if ab_balance b \<noteq> ab_balance parent - a then Invalid ''Balance mismatch after send''
          else Valid)"

definition check_receive :: "account_block \<Rightarrow> account_block \<Rightarrow> verdict" where
  "check_receive b parent =
     (if \<not> truthy (ab_sendBlockHash b) then Invalid ''Receive block needs sendBlockHash''
      else case ab_receiveAmount b of
        None \<Rightarrow> Invalid ''Receive amount must be positive''
      | Some a \<Rightarrow>
          if a \<le> 0 then Invalid ''Receive amount must be positive''
          else if \<not> safe_int a then Invalid ''Receive amount out of safe integer range''
          else if \<not> safe_int (ab_balance parent + a) then Invalid ''Resulting balance would overflow safe integer range''
          else if ab_balance b \<noteq> ab_balance parent + a then Invalid ''Balance mismatch after receive''
          else Valid)"

definition check_register :: "account_block \<Rightarrow> account_block \<Rightarrow> verdict" where
  "check_register b parent =
     (if \<not> truthy (ab_contractData b) then Invalid ''storage-register block needs contractData''
      else case Option.bind (JSON_parse (the (ab_contractData b))) (\<lambda>v. num_member v ''capacityGB'') of
        None \<Rightarrow> Invalid ''storage-register contractData is not valid JSON''
      | Some q \<Rightarrow> if \<not> positive q then Invalid ''capacityGB must be a positive number''
          else same_balance b parent ''Balance unchanged for storage-register'')"

definition check_reward :: "account_block \<Rightarrow> account_block \<Rightarrow> verdict" where
  "check_reward b parent =
     (if \<not> truthy (ab_contractData b) then Invalid ''storage-reward block needs contractData''
      else case JSON_parse (the (ab_contractData b)) of
        None \<Rightarrow> Invalid ''storage-reward contractData is not valid JSON''
      | Some v \<Rightarrow> (case (num_member v ''amount'', num_member v ''epochDay'', num_member v ''storedGB'') of
          (Some amount, Some epochDay, Some storedGB) \<Rightarrow>
            (case amount of
               None \<Rightarrow> Invalid ''Reward amount must be a positive integer''
             | Some a \<Rightarrow>
                 if \<not> safe_integer a \<or> a \<le> 0 then Invalid ''Reward amount must be a positive integer''
                 else if \<not> positive epochDay then Invalid ''Invalid epochDay''
                 else if \<not> positive storedGB then Invalid ''storedGB must be positive''
                 else if \<not> safe_integer (of_int (ab_balance parent) + a) then Invalid ''Reward would overflow safe integer balance''
                 else if of_int (ab_balance b) \<noteq> of_int (ab_balance parent) + a then Invalid ''Balance mismatch: expected parent.balance + amount''
                 else Valid)
        | _ \<Rightarrow> Invalid ''storage-reward contractData is not valid JSON''))"

definition check_update :: "account_block \<Rightarrow> account_block \<Rightarrow> verdict" where
  "check_update b parent =
     (if \<not> truthy (ab_updateData b) then Invalid ''Update block needs updateData''
      else case Option.bind (JSON_parse (the (ab_updateData b))) (\<lambda>v. js_member v ''newLinkedAnchor'') of
        None \<Rightarrow> Invalid ''Update block updateData is not valid JSON''
      | Some (Some (VStr s)) \<Rightarrow> if s = [] then Invalid ''Update block requires newLinkedAnchor''
          else same_balance b parent ''Balance unchanged after update''
      | Some _ \<Rightarrow> Invalid ''Update block requires newLinkedAnchor'')"

definition check_contract :: "account_block \<Rightarrow> account_block \<Rightarrow> string \<Rightarrow> string \<Rightarrow> verdict" where
  "check_contract b parent missing err = (if \<not> truthy (ab_contractData b) then Invalid missing else same_balance b parent err)"

definition validateBlockStructure :: "account_block \<Rightarrow> account_block option \<Rightarrow> verdict" where
  "validateBlockStructure b parent =
     (if \<not> safe_int (ab_balance b) \<or> ab_balance b < 0 then Invalid ''Balance out of safe integer range''
      else if ab_type b = DOpen then check_open b parent
      else case parent of
        None \<Rightarrow> Invalid ''Non-open block requires a parent''
      | Some p \<Rightarrow>
          if ab_previousHash b \<noteq> ab_hash p then Invalid ''previousHash mismatch''
          else if ab_index b \<noteq> ab_index p + 1 then Invalid ''Index must be parent + 1''
          else (case ab_type b of
              DSend \<Rightarrow> check_send b p
            | DReceive \<Rightarrow> check_receive b p
            | DDeploy \<Rightarrow> check_contract b p ''Deploy block needs contractData'' ''Balance unchanged after deploy''
            | DCall \<Rightarrow> check_contract b p ''Call block needs contractData'' ''Balance unchanged after call''
            | DStorageRegister \<Rightarrow> check_register b p
            | DStorageDeregister \<Rightarrow> same_balance b p ''Balance unchanged for storage-deregister''
            | DStorageHeartbeat \<Rightarrow> same_balance b p ''Balance unchanged for storage-heartbeat''
            | DStorageReward \<Rightarrow> check_reward b p
            | DUpdate \<Rightarrow> check_update b p
            | _ \<Rightarrow> Invalid ''Unknown block type''))"

section \<open>What a valid block satisfies\<close>

text \<open>The balance a block may declare after its parent.\<close>

definition balance_step :: "account_block \<Rightarrow> account_block \<Rightarrow> bool" where
  "balance_step b p \<longleftrightarrow> (case ab_type b of
     DSend \<Rightarrow> (\<exists>a. ab_amount b = Some a \<and> 0 < a \<and> ab_balance b = ab_balance p - a)
   | DReceive \<Rightarrow> (\<exists>a. ab_receiveAmount b = Some a \<and> 0 < a \<and> ab_balance b = ab_balance p + a)
   | DStorageReward \<Rightarrow> ab_balance p < ab_balance b
   | DOpen \<Rightarrow> False
   | DUnknown s \<Rightarrow> False
   | _ \<Rightarrow> ab_balance b = ab_balance p)"

lemma same_balance_valid [simp]: "same_balance b p err = Valid \<longleftrightarrow> ab_balance b = ab_balance p"
  by (simp add: same_balance_def)

lemma check_reward_grows: "check_reward b p = Valid \<Longrightarrow> ab_balance p < ab_balance b"
proof -
  assume "check_reward b p = Valid"
  then obtain a where "0 < a" "of_int (ab_balance b) = of_int (ab_balance p) + (a :: rat)"
    by (auto simp: check_reward_def split: if_splits option.splits)
  then show ?thesis
    by (metis less_add_same_cancel1 of_int_less_iff)
qed

lemma valid_block_step:
  assumes "validateBlockStructure b parent = Valid" "ab_type b \<noteq> DOpen"
  shows "\<exists>p. parent = Some p \<and> ab_previousHash b = ab_hash p \<and> ab_index b = ab_index p + 1 \<and> balance_step b p
     \<and> 0 \<le> ab_balance b \<and> safe_int (ab_balance b)"
  using assms
  by (auto simp: validateBlockStructure_def balance_step_def check_send_def check_receive_def check_contract_def check_register_def
      check_update_def dest: check_reward_grows split: if_splits option.splits dag_type.splits jsv.splits)

lemma valid_open_block:
  assumes "validateBlockStructure b parent = Valid" "ab_type b = DOpen"
  shows "parent = None \<and> ab_index b = 0 \<and> ab_balance b = VERIFICATION_MINT_AMOUNT \<and> truthy (ab_faceMapHash b)
    \<and> ab_previousHash b = replicate 64 (CHR ''0'')"
  using assms by (auto simp: validateBlockStructure_def check_open_def split: if_splits)

section \<open>Reading amounts back\<close>

lemma takeWhile_nat_str: "takeWhile is_digit_char (nat_str k) = nat_str k"
  by (auto simp: takeWhile_eq_all_conv dest: nat_str_digits)

lemma parse_int_digits: "ds \<noteq> [] \<Longrightarrow> list_all is_digit_char ds \<Longrightarrow> parse_int ds = int (str_val ds)"
proof -
  assume a: "ds \<noteq> []" "list_all is_digit_char ds"
  then have h: "is_digit_char (hd ds)" by (cases ds) auto
  then have "\<not> blank (hd ds)" "hd ds \<notin> {CHR ''-'', CHR ''+''}"
    by (auto simp: blank_def is_digit_char_def)
  moreover have "takeWhile is_digit_char ds = ds"
    using a(2) by (simp add: takeWhile_eq_all_conv list_all_iff)
  moreover have "dropWhile blank ds = ds"
    using calculation(1) a(1) by (simp add: dropWhile_eq_self_iff)
  ultimately show ?thesis
    using a(1) by (simp add: parse_int_def Let_def del: str_val.simps takeWhile_eq_all_conv)
qed

lemma str_val_zeros: "str_val (replicate n (CHR ''0'') @ s) = str_val s"
  by (induction n) simp_all

lemma nat_str_length: "k < 1000 \<Longrightarrow> length (nat_str k) \<le> 3"
  by (simp add: nat_str.simps [of k] nat_str.simps [of "k div 10"] nat_str.simps [of "k div 10 div 10"])

lemma strip_pad: "pad_end (length s) (strip_zeros s) = s"
proof -
  let ?k = "length (takeWhile (\<lambda>c. c = CHR ''0'') (rev s))"
  have "takeWhile (\<lambda>c. c = x) t = replicate (length (takeWhile (\<lambda>c. c = x) t)) x" for x :: char and t
    by (induction t) auto
  then have "rev s = replicate ?k (CHR ''0'') @ dropWhile (\<lambda>c. c = CHR ''0'') (rev s)"
    using takeWhile_dropWhile_id [of "\<lambda>c. c = CHR ''0''" "rev s"] by simp
  from arg_cong [OF this, of rev] have s: "s = strip_zeros s @ replicate ?k (CHR ''0'')"
    by (simp add: strip_zeros_def)
  then have "length s - length (strip_zeros s) = ?k"
    by (metis add_diff_cancel_left' length_append length_replicate)
  with s show ?thesis by (simp add: pad_end_def)
qed

lemma parse_format:
  assumes "0 \<le> n"
  shows "parseUNIT (formatUNIT int_str n) = n"
proof -
  let ?w = "nat_str (nat (n div 1000))" and ?p = "pad_start 3 (nat_str (nat (n mod 1000)))"
  have digs: "list_all is_digit_char (nat_str k)" for k
    by (auto simp: list_all_iff dest: nat_str_digits)
  have w: "int_str (n div 1000) = ?w" "int_str (n mod 1000) = nat_str (nat (n mod 1000))"
    using assms by (simp_all add: int_str_def)
  have r: "int_rem n 1000 = n mod 1000" using assms by (cases "n = 0") (simp_all add: int_rem_def)
  have ends: "js_trim s = s" if "s \<noteq> []" "\<not> blank (hd s)" "\<not> blank (last s)" for s
  proof -
    have "dropWhile blank s = s" "dropWhile blank (rev s) = rev s"
      using that by (simp_all add: dropWhile_eq_self_iff hd_rev)
    then show ?thesis by (simp add: js_trim_def)
  qed
  have nb: "is_digit_char c \<Longrightarrow> \<not> blank c \<and> c \<noteq> CHR ''.''" for c
    by (auto simp: blank_def is_digit_char_def)
  have hdw: "is_digit_char (hd ?w)" "is_digit_char (last ?w)"
    using digs [of "nat (n div 1000)"] by (auto simp: list_all_iff)
  have nodot: "CHR ''.'' \<notin> set s" if "list_all is_digit_char s" for s
    using that nb by (auto simp: list_all_iff)
  have wv: "parse_int ?w = n div 1000"
    using assms by (subst parse_int_digits [OF _ digs]) (simp_all only: str_val_nat_str nat_str_nonempty, simp_all)
  show ?thesis
  proof (cases "n mod 1000 = 0")
    case True
    have tr: "js_trim ?w = ?w" using hdw nb by (intro ends) auto
    have "formatUNIT int_str n = ?w"
      using True by (simp add: formatUNIT_def UNIT_FACTOR_def r w(1) Let_def)
    moreover have "parseUNIT ?w = parse_int ?w * 1000"
      by (simp add: parseUNIT_def UNIT_FACTOR_def split_on_none [OF nodot [OF digs]] Let_def tr)
    ultimately have "parseUNIT (formatUNIT int_str n) = n div 1000 * 1000"
      by (simp only: wv)
    also have "\<dots> = n" using div_mult_mod_eq [of n 1000] True by linarith
    finally show ?thesis .
  next
    case False
    have len: "length (nat_str (nat (n mod 1000))) \<le> 3"
      using assms by (intro nat_str_length) auto
    then have p3: "length ?p = 3" by (simp add: pad_start_def)
    have pd: "list_all is_digit_char ?p"
      using digs [of "nat (n mod 1000)"] by (auto simp: pad_start_def list_all_iff is_digit_char_def)
    let ?z = "strip_zeros ?p"
    have zz: "pad_end 3 ?z = ?p" using strip_pad [of ?p] p3 by simp
    have zs: "set ?z \<subseteq> set ?p"
      unfolding strip_zeros_def using set_dropWhileD by fastforce
    then have zd: "list_all is_digit_char ?z" using pd by (auto simp: list_all_iff)
    have zl: "length ?z \<le> 3"
      using p3 length_dropWhile_le [of _ "rev ?p"] by (simp add: strip_zeros_def)
    have pv: "str_val ?p = nat (n mod 1000)"
      unfolding pad_start_def str_val_zeros by (rule str_val_nat_str)
    have zn: "?z \<noteq> []"
    proof
      assume "?z = []"
      with zz have "?p = replicate 3 (CHR ''0'')" by (simp add: pad_end_def)
      then have "str_val ?p = 0" using str_val_zeros [of 3 "[]"] by (simp del: str_val.simps) (simp)
      with pv False assms show False by simp
    qed
    have "parse_int ?p = n mod 1000"
      using p3 pd pv assms by (subst parse_int_digits) (auto simp del: str_val.simps)
    moreover have "js_trim (?w @ ''.'' @ ?z) = ?w @ ''.'' @ ?z"
      using hdw nb zn zd by (intro ends) (auto simp: list_all_iff)
    moreover have "split_on (CHR ''.'') (?w @ ''.'' @ ?z) = [?w, ?z]"
      using split_on_append [OF nodot [OF digs], of "nat (n div 1000)" ?z] split_on_none [OF nodot [OF zd]] by simp
    ultimately show ?thesis
      using False wv zn zl zz by (simp add: formatUNIT_def parseUNIT_def UNIT_FACTOR_def UNIT_DECIMALS_def r w Let_def)
  qed
qed

text \<open>The sign of an amount below one is lost: minus one half is read as plus one half.\<close>

lemma negative_fraction: "parseUNIT ''-0.5'' = 500"
  by code_simp

text \<open>A host that groups thousands breaks the round trip.\<close>

lemma zero_five: "char_of (48 :: nat) = CHR ''0''" "char_of (53 :: nat) = CHR ''5''"
  by code_simp+

lemma grouped_amount: "toLocale 1000 = ''1,000'' \<Longrightarrow> parseUNIT (formatUNIT toLocale 1000500) = 1500"
proof -
  assume a: "toLocale 1000 = ''1,000''"
  have "formatUNIT toLocale 1000500 = ''1,000.5''"
    by (simp add: formatUNIT_def UNIT_FACTOR_def UNIT_DECIMALS_def int_rem_def a Let_def pad_start_def int_str_def strip_zeros_def nat_str.simps digit_char_def zero_five)
  then show ?thesis
    by (simp only:) code_simp
qed

end
