(* ===== verification/Vote_Manager.thy ===== *)
theory Vote_Manager
  imports Neuron_Prelude
begin

text \<open>
  Optimistic confirmation and the vote on conflicting blocks of the application core,
  \<open>src/core/vote.ts\<close>. A fork never has two confirmed blocks and the tallies add up; but the
  decision is not final, because a further sibling reopens it, and the older payload formats that
  \<open>verifyVote\<close> accepts let anybody change the abstain flag of a signed vote.
\<close>

section \<open>Votes and tallies\<close>

record app_vote =
  vt_blockHash :: string
  vt_voterPub :: string
  vt_approve :: bool
  vt_stake :: int
  vt_timestamp :: int
  vt_signature :: string
  vt_chainHead :: "string option"
  vt_abstain :: "bool option"

record vote_tally =
  ta_approve :: int
  ta_reject :: int
  ta_abstain :: int
  ta_total :: int
  ta_voters :: int
  ta_votes :: "(string, app_vote) jsmap"
  ta_createdAt :: int

definition CONFLICT_RESOLVE_THRESHOLD :: real where "CONFLICT_RESOLVE_THRESHOLD = 2 / 3"
definition CONFLICT_RESOLVE_TIMEOUT_MS :: int where "CONFLICT_RESOLVE_TIMEOUT_MS = 10000"
definition VOTE_MAX_AGE_MS :: int where "VOTE_MAX_AGE_MS = 60000"
definition MAX_SEEN_SIGS :: int where "MAX_SEEN_SIGS = 50000"

record vote_manager =
  vm_confirmed :: "string set"
  vm_rejected :: "string set"
  vm_parents :: "(string, string list) jsmap"
  vm_tallies :: "(string, vote_tally) jsmap"
  vm_seen :: "string list"

definition new_votes :: vote_manager where
  "new_votes = \<lparr>vm_confirmed = {}, vm_rejected = {}, vm_parents = [], vm_tallies = [], vm_seen = []\<rparr>"

definition new_tally :: "int \<Rightarrow> vote_tally" where
  "new_tally now = \<lparr>ta_approve = 0, ta_reject = 0, ta_abstain = 0, ta_total = 0, ta_voters = 0, ta_votes = [], ta_createdAt = now\<rparr>"

datatype fork_status = VConfirmed | VRejected | VPending | VConflict

section \<open>Operations\<close>

definition open_tally :: "int \<Rightarrow> string \<Rightarrow> vote_manager \<Rightarrow> vote_manager" where
  "open_tally now h s = s\<lparr>vm_confirmed := vm_confirmed s - {h},
     vm_tallies := (if mhas (vm_tallies s) h then vm_tallies s else mset_at h (new_tally now) (vm_tallies s))\<rparr>"

definition parent_key :: "string \<Rightarrow> string \<Rightarrow> string" where
  "parent_key accountPub previousHash = accountPub @ '':'' @ previousHash"

definition vm_register :: "string \<Rightarrow> string \<Rightarrow> string \<Rightarrow> int \<Rightarrow> vote_manager \<Rightarrow> fork_status \<times> vote_manager" where
  "vm_register h previousHash accountPub now s =
     (if h \<in> vm_confirmed s then (VConfirmed, s)
      else if h \<in> vm_rejected s then (VConflict, s)
      else let key = parent_key accountPub previousHash;
               siblings = sadd h (nvl (mget (vm_parents s) key) []);
               s' = s\<lparr>vm_parents := mset_at key siblings (vm_parents s)\<rparr>
        in if length siblings = 1 then (VConfirmed, s'\<lparr>vm_confirmed := insert h (vm_confirmed s')\<rparr>)
           else (VConflict, fold (open_tally now) siblings s'))"

definition count_vote :: "app_vote \<Rightarrow> vote_tally \<Rightarrow> vote_tally" where
  "count_vote v t = (let t' = t\<lparr>ta_votes := mset_at (vt_voterPub v) v (ta_votes t), ta_voters := ta_voters t + 1\<rparr>
     in if vt_abstain v = Some True then t'\<lparr>ta_abstain := ta_abstain t' + vt_stake v\<rparr>
        else if vt_approve v then t'\<lparr>ta_approve := ta_approve t' + vt_stake v, ta_total := ta_total t' + vt_stake v\<rparr>
        else t'\<lparr>ta_reject := ta_reject t' + vt_stake v, ta_total := ta_total t' + vt_stake v\<rparr>)"

definition remember_sig :: "string \<Rightarrow> vote_manager \<Rightarrow> vote_manager" where
  "remember_sig sig s = (let seen = vm_seen s @ [sig] in
     s\<lparr>vm_seen := (if int (length seen) > MAX_SEEN_SIGS then tl seen else seen)\<rparr>)"

definition addVote :: "app_vote \<Rightarrow> int \<Rightarrow> vote_manager \<Rightarrow> vote_manager" where
  "addVote v now s = (case mget (vm_tallies s) (vt_blockHash v) of
     None \<Rightarrow> s
   | Some t \<Rightarrow>
       if mhas (ta_votes t) (vt_voterPub v) then s
       else if vt_signature v \<in> set (vm_seen s) then s
       else let s' = remember_sig (vt_signature v) s in
         if now - vt_timestamp v > VOTE_MAX_AGE_MS then s'
         else s'\<lparr>vm_tallies := mset_at (vt_blockHash v) (count_vote v t) (vm_tallies s')\<rparr>)"

definition vm_status :: "string \<Rightarrow> vote_manager \<Rightarrow> fork_status" where
  "vm_status h s = (if h \<in> vm_confirmed s then VConfirmed
     else if h \<in> vm_rejected s then VRejected
     else if mhas (vm_tallies s) h then VConflict else VPending)"

text \<open>The loop over the siblings: best block, its stake, whether all were voted on, the oldest tally.\<close>

definition vm_best_step :: "(string, vote_tally) jsmap \<Rightarrow> string \<times> int \<times> bool \<times> int option \<Rightarrow> string \<Rightarrow> string \<times> int \<times> bool \<times> int option" where
  "vm_best_step ts acc h = (case acc of (best, bestStake, allVoted, oldest) \<Rightarrow>
     (case mget ts h of
        None \<Rightarrow> acc
      | Some t \<Rightarrow>
          (if ta_approve t > bestStake then h else best, max bestStake (ta_approve t),
           allVoted \<and> ta_total t + ta_abstain t \<noteq> 0,
           (case oldest of None \<Rightarrow> Some (ta_createdAt t) | Some w \<Rightarrow> Some (min w (ta_createdAt t))))))"

definition decides :: "(string, vote_tally) jsmap \<Rightarrow> int \<Rightarrow> string \<times> int \<times> bool \<times> int option \<Rightarrow> bool" where
  "decides ts now acc = (case acc of (best, bestStake, allVoted, oldest) \<Rightarrow>
     let thresholdMet = (case mget ts best of None \<Rightarrow> False
           | Some t \<Rightarrow> ta_total t > 0 \<and> real_of_int (ta_approve t) / real_of_int (ta_total t) \<ge> CONFLICT_RESOLVE_THRESHOLD);
         timedOut = (case oldest of None \<Rightarrow> False | Some w \<Rightarrow> now - w > CONFLICT_RESOLVE_TIMEOUT_MS)
     in thresholdMet \<or> (timedOut \<and> bestStake > 0) \<or> (timedOut \<and> allVoted))"

definition settle_fork :: "string \<Rightarrow> string list \<Rightarrow> vote_manager \<Rightarrow> vote_manager" where
  "settle_fork best hashes s = s\<lparr>vm_confirmed := insert best (vm_confirmed s),
     vm_rejected := vm_rejected s \<union> (set hashes - {best}),
     vm_tallies := fold mdel (best # filter (\<lambda>h. h \<noteq> best) hashes) (vm_tallies s)\<rparr>"

definition resolve_one :: "int \<Rightarrow> string list \<Rightarrow> (string list \<times> string list) \<times> vote_manager \<Rightarrow> (string list \<times> string list) \<times> vote_manager" where
  "resolve_one now hashes st = (case st of ((confirmed, rejected), s) \<Rightarrow>
     if length hashes \<le> 1 then st
     else if \<not> list_all (mhas (vm_tallies s)) hashes then st
     else let acc = foldl (vm_best_step (vm_tallies s)) ('''', -1, True, None) hashes in
       if decides (vm_tallies s) now acc
       then ((confirmed @ [fst acc], rejected @ filter (\<lambda>h. h \<noteq> fst acc) hashes), settle_fork (fst acc) hashes s)
       else st)"

definition resolveConflicts :: "int \<Rightarrow> vote_manager \<Rightarrow> (string list \<times> string list) \<times> vote_manager" where
  "resolveConflicts now s = fold (resolve_one now) (mvals (vm_parents s)) (([], []), s)"

definition hasConflict :: "string \<Rightarrow> vote_manager \<Rightarrow> bool" where
  "hasConflict h s = list_ex (\<lambda>sib. h \<in> set sib \<and> length sib > 1) (mvals (vm_parents s))"

definition getSiblings :: "string \<Rightarrow> vote_manager \<Rightarrow> string list" where
  "getSiblings h s = (case find (\<lambda>sib. h \<in> set sib \<and> length sib > 1) (mvals (vm_parents s)) of
     None \<Rightarrow> [] | Some sib \<Rightarrow> filter (\<lambda>x. x \<noteq> h) sib)"

definition vm_clear :: "vote_manager \<Rightarrow> vote_manager" where
  "vm_clear s = s\<lparr>vm_tallies := [], vm_confirmed := {}, vm_rejected := {}, vm_parents := [], vm_seen := []\<rparr>"

section \<open>Signed votes\<close>

definition bool_str :: "bool \<Rightarrow> string" where
  "bool_str b = (if b then ''true'' else ''false'')"

definition vote_v1 :: "app_vote \<Rightarrow> string" where
  "vote_v1 v = ''vote:'' @ vt_blockHash v @ '':'' @ bool_str (vt_approve v) @ '':'' @ int_str (vt_stake v) @ '':'' @ int_str (vt_timestamp v)"

definition vote_v2 :: "app_vote \<Rightarrow> string" where
  "vote_v2 v = vote_v1 v @ '':'' @ nvl (vt_chainHead v) ''''"

definition vote_v3 :: "app_vote \<Rightarrow> string" where
  "vote_v3 v = vote_v2 v @ '':'' @ (if vt_abstain v = Some True then ''1'' else ''0'')"

text \<open>\<open>signData\<close> and \<open>verifySignature\<close> are arguments: the second gives the text a signature carries.\<close>

definition createVote :: "(string \<Rightarrow> string) \<Rightarrow> string \<Rightarrow> string \<Rightarrow> bool \<Rightarrow> int \<Rightarrow> string option \<Rightarrow> bool option \<Rightarrow> int \<Rightarrow> app_vote" where
  "createVote signData pub h approve stake chainHead abstain now =
     (let v = \<lparr>vt_blockHash = h, vt_voterPub = pub, vt_approve = approve, vt_stake = stake, vt_timestamp = now,
        vt_signature = '''', vt_chainHead = chainHead, vt_abstain = abstain\<rparr>
      in v\<lparr>vt_signature := signData (vote_v3 v)\<rparr>)"

definition verifyVote :: "(string \<Rightarrow> string \<Rightarrow> string option) \<Rightarrow> app_vote \<Rightarrow> bool" where
  "verifyVote verifySignature v = (let result = verifySignature (vt_signature v) (vt_voterPub v) in
     if result = Some (vote_v3 v) then True
     else if result = Some (vote_v2 v) then True
     else result = Some (vote_v1 v))"

text \<open>The flag of a current vote can be moved into the chain head, where the second format reads it.\<close>

definition flip_abstain :: "bool option \<Rightarrow> app_vote \<Rightarrow> app_vote" where
  "flip_abstain flag v = v\<lparr>vt_chainHead := Some (nvl (vt_chainHead v) '''' @ '':'' @ (if vt_abstain v = Some True then ''1'' else ''0'')),
     vt_abstain := flag\<rparr>"

lemma flipped_verifies:
  assumes "vs (vt_signature v) (vt_voterPub v) = Some (vote_v3 v)"
  shows "verifyVote vs (flip_abstain flag v)"
proof -
  have "vote_v2 (flip_abstain flag v) = vote_v3 v"
    by (simp add: vote_v2_def vote_v3_def vote_v1_def flip_abstain_def)
  with assms show ?thesis
    by (simp add: verifyVote_def Let_def flip_abstain_def)
qed


section \<open>Runs\<close>

datatype vote_op =
    VoRegister string string string int
  | VoVote app_vote int
  | VoResolve int

fun vote_step :: "vote_op \<Rightarrow> vote_manager \<Rightarrow> vote_manager" where
  "vote_step (VoRegister h prev acct now) s = snd (vm_register h prev acct now s)"
| "vote_step (VoVote v now) s = addVote v now s"
| "vote_step (VoResolve now) s = snd (resolveConflicts now s)"

text \<open>A hash commits to the account and the previous hash: \<open>place\<close> gives the key of a block.\<close>

fun placed_op :: "(string \<Rightarrow> string) \<Rightarrow> vote_op \<Rightarrow> bool" where
  "placed_op place (VoRegister h prev acct now) \<longleftrightarrow> parent_key acct prev = place h"
| "placed_op place (VoVote v now) \<longleftrightarrow> 0 \<le> vt_stake v"
| "placed_op place (VoResolve now) \<longleftrightarrow> True"

definition vote_sum :: "(app_vote \<Rightarrow> bool) \<Rightarrow> vote_tally \<Rightarrow> int" where
  "vote_sum P t = (\<Sum>v\<leftarrow>filter P (mvals (ta_votes t)). vt_stake v)"

definition tally_ok :: "string \<Rightarrow> vote_tally \<Rightarrow> bool" where
  "tally_ok h t \<longleftrightarrow> wf_map (ta_votes t) \<and> ta_voters t = int (length (ta_votes t))
     \<and> (\<forall>p v. (p, v) \<in> set (ta_votes t) \<longrightarrow> vt_voterPub v = p \<and> vt_blockHash v = h \<and> 0 \<le> vt_stake v)
     \<and> ta_abstain t = vote_sum (\<lambda>v. vt_abstain v = Some True) t
     \<and> ta_approve t = vote_sum (\<lambda>v. vt_abstain v \<noteq> Some True \<and> vt_approve v) t
     \<and> ta_reject t = vote_sum (\<lambda>v. vt_abstain v \<noteq> Some True \<and> \<not> vt_approve v) t
     \<and> ta_total t = ta_approve t + ta_reject t"

definition fork_ok :: "(string \<Rightarrow> string) \<Rightarrow> vote_manager \<Rightarrow> bool" where
  "fork_ok place s \<longleftrightarrow> wf_map (vm_parents s)
     \<and> (\<forall>k sib. mget (vm_parents s) k = Some sib \<longrightarrow> distinct sib \<and> sib \<noteq> [] \<and> (\<forall>h \<in> set sib. place h = k))"

definition siblings_of :: "(string \<Rightarrow> string) \<Rightarrow> string \<Rightarrow> vote_manager \<Rightarrow> string list" where
  "siblings_of place h s = nvl (mget (vm_parents s) (place h)) []"

definition votes_inv :: "(string \<Rightarrow> string) \<Rightarrow> vote_manager \<Rightarrow> bool" where
  "votes_inv place s \<longleftrightarrow> fork_ok place s
     \<and> (\<forall>h t. mget (vm_tallies s) h = Some t \<longrightarrow> tally_ok h t \<and> h \<in> set (siblings_of place h s) \<and> length (siblings_of place h s) \<noteq> 1)
     \<and> (\<forall>h \<in> vm_confirmed s. mget (vm_tallies s) h = None \<and> h \<in> set (siblings_of place h s))
     \<and> (\<forall>h g. h \<in> vm_confirmed s \<longrightarrow> g \<in> vm_confirmed s \<longrightarrow> place h = place g \<longrightarrow> h = g)"

lemma fork_ok_cong: "vm_parents s' = vm_parents s \<Longrightarrow> fork_ok place s \<Longrightarrow> fork_ok place s'"
  unfolding fork_ok_def by metis

lemma siblings_cong: "vm_parents s' = vm_parents s \<Longrightarrow> siblings_of place h s' = siblings_of place h s"
  unfolding siblings_of_def by simp

lemma tally_ok_approve:
  assumes "tally_ok h t" shows "0 \<le> ta_approve t"
proof -
  have "0 \<le> vt_stake v" if "v \<in> set (mvals (ta_votes t))" for v
    using that assms unfolding tally_ok_def mvals_def by auto
  then have "0 \<le> vote_sum P t" for P
    unfolding vote_sum_def by (intro sum_list_nonneg) auto
  with assms show ?thesis by (simp add: tally_ok_def)
qed

lemma votes_invI:
  assumes "fork_ok place s"
    "\<And>h t. mget (vm_tallies s) h = Some t \<Longrightarrow> tally_ok h t \<and> h \<in> set (siblings_of place h s) \<and> length (siblings_of place h s) \<noteq> 1"
    "\<And>h. h \<in> vm_confirmed s \<Longrightarrow> mget (vm_tallies s) h = None \<and> h \<in> set (siblings_of place h s)"
    "\<And>h g. h \<in> vm_confirmed s \<Longrightarrow> g \<in> vm_confirmed s \<Longrightarrow> place h = place g \<Longrightarrow> h = g"
  shows "votes_inv place s"
  using assms unfolding votes_inv_def by blast

lemma votes_inv_cong:
  assumes "vm_parents s' = vm_parents s" "vm_tallies s' = vm_tallies s" "vm_confirmed s' = vm_confirmed s"
  shows "votes_inv place s' \<longleftrightarrow> votes_inv place s"
  unfolding votes_inv_def fork_ok_def siblings_of_def assms ..

lemma votes_invD:
  assumes "votes_inv place s"
  shows "fork_ok place s"
    "mget (vm_tallies s) h = Some t \<Longrightarrow> tally_ok h t \<and> h \<in> set (siblings_of place h s) \<and> length (siblings_of place h s) \<noteq> 1"
    "h \<in> vm_confirmed s \<Longrightarrow> mget (vm_tallies s) h = None \<and> h \<in> set (siblings_of place h s)"
    "h \<in> vm_confirmed s \<Longrightarrow> g \<in> vm_confirmed s \<Longrightarrow> place h = place g \<Longrightarrow> h = g"
  using assms unfolding votes_inv_def by blast+

lemma tally_new: "tally_ok h (new_tally now)"
  by (simp add: tally_ok_def new_tally_def vote_sum_def mvals_def)

lemma tally_count:
  assumes "0 \<le> vt_stake v" "tally_ok (vt_blockHash v) t" "\<not> mhas (ta_votes t) (vt_voterPub v)"
  shows "tally_ok (vt_blockHash v) (count_vote v t)"
proof -
  have new: "mset_at (vt_voterPub v) v (ta_votes t) = ta_votes t @ [(vt_voterPub v, v)]"
    using assms(3) by (intro mset_at_new) (simp add: mhas_iff)
  have wf: "wf_map (ta_votes t @ [(vt_voterPub v, v)])"
    using wf_map_mset_at [of "ta_votes t" "vt_voterPub v" v] assms(2) by (simp add: tally_ok_def new)
  have votes: "ta_votes (count_vote v t) = ta_votes t @ [(vt_voterPub v, v)]"
    by (simp add: count_vote_def Let_def new)
  have sum: "vote_sum P (count_vote v t) = vote_sum P t + (if P v then vt_stake v else 0)" for P
    by (simp add: vote_sum_def votes mvals_def)
  have "ta_voters (count_vote v t) = ta_voters t + 1"
    by (simp add: count_vote_def Let_def)
  moreover have "ta_abstain (count_vote v t) = ta_abstain t + (if vt_abstain v = Some True then vt_stake v else 0)"
      "ta_approve (count_vote v t) = ta_approve t + (if vt_abstain v \<noteq> Some True \<and> vt_approve v then vt_stake v else 0)"
      "ta_reject (count_vote v t) = ta_reject t + (if vt_abstain v \<noteq> Some True \<and> \<not> vt_approve v then vt_stake v else 0)"
      "ta_total (count_vote v t) = ta_total t + (if vt_abstain v \<noteq> Some True then vt_stake v else 0)"
    by (simp_all add: count_vote_def Let_def)
  ultimately show ?thesis
    using assms(1,2) wf unfolding tally_ok_def sum votes by auto
qed

lemma open_tallies:
  "vm_confirmed (fold (open_tally now) hs s) = vm_confirmed s - set hs"
  "vm_rejected (fold (open_tally now) hs s) = vm_rejected s"
  "vm_parents (fold (open_tally now) hs s) = vm_parents s"
  "mget (vm_tallies (fold (open_tally now) hs s)) h = (if h \<in> set hs \<and> mget (vm_tallies s) h = None
     then Some (new_tally now) else mget (vm_tallies s) h)"
  by (induction hs arbitrary: s) (auto simp: open_tally_def mhas_def)

lemma fork_entry: "fork_ok place s \<Longrightarrow> mget (vm_parents s) k = Some sib \<Longrightarrow> distinct sib \<and> sib \<noteq> [] \<and> (\<forall>h \<in> set sib. place h = k)"
  unfolding fork_ok_def by blast

lemma fork_okI:
  assumes "vm_parents s = m" "wf_map m" "\<And>k sib. mget m k = Some sib \<Longrightarrow> distinct sib \<and> sib \<noteq> [] \<and> (\<forall>h \<in> set sib. place h = k)"
  shows "fork_ok place s"
  using assms unfolding fork_ok_def by blast

lemma fork_okD: "fork_ok place s \<Longrightarrow> distinct (siblings_of place h s) \<and> (\<forall>g \<in> set (siblings_of place h s). place g = place h)"
proof (cases "mget (vm_parents s) (place h)")
  case (Some sib)
  moreover assume "fork_ok place s"
  ultimately have "distinct sib" "\<forall>g \<in> set sib. place g = place h"
    unfolding fork_ok_def by blast+
  with Some show ?thesis by (simp add: siblings_of_def)
qed (simp add: siblings_of_def)

lemma fork_register:
  assumes "fork_ok place s" "sib = sadd h (siblings_of place h s)"
  shows "fork_ok place (s\<lparr>vm_parents := mset_at (place h) sib (vm_parents s)\<rparr>)" "distinct sib" "h \<in> set sib" "\<forall>g \<in> set sib. place g = place h"
proof -
  have old: "distinct (siblings_of place h s)" "\<forall>g \<in> set (siblings_of place h s). place g = place h"
    using fork_okD [OF assms(1)] by blast+
  show 1: "distinct sib" "h \<in> set sib"
    using old(1) assms(2) by auto
  have members: "set sib = insert h (set (siblings_of place h s))"
    using assms(2) by auto
  show 2: "\<forall>g \<in> set sib. place g = place h"
    
  proof
    fix g assume "g \<in> set sib"
    then consider "g = h" | "g \<in> set (siblings_of place h s)"
      unfolding members by blast
    then show "place g = place h"
    proof cases
      case 2
      with old(2) show ?thesis by (rule bspec)
    qed simp
  qed
  have ne: "sib \<noteq> []" using 1(2) by auto
  have "distinct x \<and> x \<noteq> [] \<and> (\<forall>g \<in> set x. place g = k)" if "mget (mset_at (place h) sib (vm_parents s)) k = Some x" for k x
  proof (cases "k = place h")
    case True
    then have "x = sib" using that by simp
    show ?thesis
      unfolding \<open>x = sib\<close> True by (rule conjI [OF 1(1) conjI [OF ne 2]])
  next
    case False
    with that have "mget (vm_parents s) k = Some x" by simp
    from fork_entry [OF assms(1) this] show ?thesis .
  qed
  note entries = this
  have "wf_map (mset_at (place h) sib (vm_parents s))"
    using conjunct1 [OF assms(1) [unfolded fork_ok_def]] by (rule wf_map_mset_at)
  then show "fork_ok place (s\<lparr>vm_parents := mset_at (place h) sib (vm_parents s)\<rparr>)"
    by (rule fork_okI [OF _ _ entries, rotated]) simp_all
qed

lemma register_alone:
  assumes "votes_inv place s" "h \<notin> vm_confirmed s" "sadd h (siblings_of place h s) = [h]"
    "vm_parents s' = mset_at (place h) [h] (vm_parents s)" "vm_tallies s' = vm_tallies s" "vm_confirmed s' = insert h (vm_confirmed s)"
  shows "votes_inv place s'"
proof -
  note inv = votes_invD [OF assms(1)]
  have old: "set (siblings_of place h s) \<subseteq> {h}"
    using arg_cong [OF assms(3), of set] by auto
  have same: "place g = place h \<Longrightarrow> siblings_of place g s = siblings_of place h s" for g
    by (simp add: siblings_of_def)
  have one: "g = h" if "place g = place h" "g \<in> set (siblings_of place g s)" for g
    using that(2) unfolding same [OF that(1)] using old by blast
  have here: "siblings_of place h s' = [h]"
    by (simp add: siblings_of_def assms(4))
  have there: "siblings_of place g s' = siblings_of place g s" if "place g \<noteq> place h" for g
    using that by (simp add: siblings_of_def assms(4))
  have none: "mget (vm_tallies s) h = None"
  proof (cases "mget (vm_tallies s) h")
    case (Some t)
    from inv(2) [OF this] have "h \<in> set (siblings_of place h s)" "length (siblings_of place h s) \<noteq> 1" by simp_all
    with assms(3) show ?thesis by (simp add: sadd_def)
  qed
  show ?thesis
  proof (rule votes_invI)
    show "fork_ok place s'"
      using fork_register(1) [OF inv(1) assms(3) [symmetric]] by (rule fork_ok_cong [rotated]) (simp add: assms(4))
    show "tally_ok g t \<and> g \<in> set (siblings_of place g s') \<and> length (siblings_of place g s') \<noteq> 1"
      if "mget (vm_tallies s') g = Some t" for g t
    proof -
      have "mget (vm_tallies s) g = Some t" using that assms(5) by simp
      note g = inv(2) [OF this] this
      then have "place g \<noteq> place h" using one [of g] none by auto
      with g there show ?thesis by simp
    qed
    show "mget (vm_tallies s') g = None \<and> g \<in> set (siblings_of place g s')" if g: "g \<in> vm_confirmed s'" for g
    proof (cases "g = h")
      case True
      with none here assms(5) show ?thesis by simp
    next
      case False
      with g assms(6) have "g \<in> vm_confirmed s" by simp
      note g = inv(3) [OF this]
      then have "place g \<noteq> place h" using one [of g] False by blast
      with g there assms(5) show ?thesis by simp
    qed
    have new: "g = h" if "g \<in> vm_confirmed s" "place g = place h" for g
      using one [OF that(2)] inv(3) [OF that(1)] by blast
    show "g = k" if "g \<in> vm_confirmed s'" "k \<in> vm_confirmed s'" "place g = place k" for g k
      using that new [of g] new [of k] inv(4) [of g k] unfolding assms(6) by (metis insertE)
  qed
qed

lemma register_fork:
  assumes "votes_inv place s" "sib = sadd h (siblings_of place h s)" "length sib \<noteq> 1"
    "vm_parents s' = mset_at (place h) sib (vm_parents s)" "vm_confirmed s' = vm_confirmed s - set sib"
    "\<And>g. mget (vm_tallies s') g = (if g \<in> set sib \<and> mget (vm_tallies s) g = None then Some (new_tally now) else mget (vm_tallies s) g)"
  shows "votes_inv place s'"
proof -
  note inv = votes_invD [OF assms(1)]
  note f = fork_register [OF inv(1) assms(2)]
  have here: "siblings_of place g s' = sib" if "place g = place h" for g
    by (simp add: siblings_of_def that assms(4))
  have there: "siblings_of place g s' = siblings_of place g s" if "place g \<noteq> place h" for g
    using that by (simp add: siblings_of_def assms(4))
  have sub: "g \<in> set (siblings_of place g s')" if "g \<in> set (siblings_of place g s)" for g
  proof (cases "place g = place h")
    case True
    then have "siblings_of place g s = siblings_of place h s" by (simp add: siblings_of_def)
    with that here [OF True] show ?thesis by (simp add: assms(2))
  qed (use that there in simp)
  have len: "length (siblings_of place g s') \<noteq> 1" if "length (siblings_of place g s) \<noteq> 1" for g
    using that here [of g] there [of g] assms(3) by (cases "place g = place h") auto
  show ?thesis
  proof (rule votes_invI)
    show "fork_ok place s'"
      using f(1) by (rule fork_ok_cong [rotated]) (simp add: assms(4))
    show "tally_ok g t \<and> g \<in> set (siblings_of place g s') \<and> length (siblings_of place g s') \<noteq> 1"
      if t: "mget (vm_tallies s') g = Some t" for g t
    proof (cases "g \<in> set sib \<and> mget (vm_tallies s) g = None")
      case True
      then have "t = new_tally now" "place g = place h"
        using t f(4) by (simp_all add: assms(6))
      with True assms(3) here [of g] show ?thesis by (simp add: tally_new)
    next
      case False
      with t have "mget (vm_tallies s) g = Some t" unfolding assms(6) by presburger
      from inv(2) [OF this] sub len show ?thesis by blast
    qed
    show "mget (vm_tallies s') g = None \<and> g \<in> set (siblings_of place g s')" if "g \<in> vm_confirmed s'" for g
      using that inv(3) [of g] sub [of g] unfolding assms(5,6) by simp
    show "g = k" if "g \<in> vm_confirmed s'" "k \<in> vm_confirmed s'" "place g = place k" for g k
      using that inv(4) [of g k] unfolding assms(5) by blast
  qed
qed

lemma register_inv:
  assumes "votes_inv place s" "parent_key acct prev = place h"
  shows "votes_inv place (snd (vm_register h prev acct now s))"
proof (cases "h \<in> vm_confirmed s \<or> h \<in> vm_rejected s")
  case True
  with assms(1) show ?thesis by (auto simp: vm_register_def)
next
  case fresh: False
  define sib where "sib = sadd h (siblings_of place h s)"
  let ?s = "s\<lparr>vm_parents := mset_at (place h) sib (vm_parents s)\<rparr>"
  have reg: "snd (vm_register h prev acct now s) = (if length sib = 1 then ?s\<lparr>vm_confirmed := insert h (vm_confirmed ?s)\<rparr>
      else fold (open_tally now) sib ?s)"
    using fresh unfolding vm_register_def assms(2) by (simp add: Let_def sib_def siblings_of_def)
  show ?thesis
  proof (cases "length sib = 1")
    case True
    then have "sib = [h]"
      using fork_register(3) [OF votes_invD(1) [OF assms(1)] sib_def] by (cases sib) auto
    with True fresh show ?thesis
      unfolding reg by (intro register_alone [OF assms(1)]) (simp_all add: sib_def)
  next
    case False
    then show ?thesis
      unfolding reg if_not_P [OF False] by (intro register_fork [OF assms(1) sib_def False, where now = now]) (simp_all add: open_tallies)
  qed
qed

lemma vote_inv:
  assumes "votes_inv place s" "0 \<le> vt_stake v"
  shows "votes_inv place (addVote v now s)"
proof (cases "mget (vm_tallies s) (vt_blockHash v)")
  case (Some t)
  note inv = votes_invD [OF assms(1)]
  have same: "votes_inv place (remember_sig sig s)" for sig
    using assms votes_inv_cong [of "remember_sig sig s" s place] by (simp add: remember_sig_def Let_def)
  show ?thesis
  proof (cases "mhas (ta_votes t) (vt_voterPub v) \<or> vt_signature v \<in> set (vm_seen s) \<or> now - vt_timestamp v > VOTE_MAX_AGE_MS")
    case True
    with Some assms same show ?thesis
      by (auto simp: addVote_def Let_def)
  next
    case False
    have t: "tally_ok (vt_blockHash v) (count_vote v t)"
      using inv(2) [OF Some] False assms(2) by (intro tally_count) simp_all
    have e: "addVote v now s = (remember_sig (vt_signature v) s)\<lparr>vm_tallies := mset_at (vt_blockHash v) (count_vote v t) (vm_tallies s)\<rparr>"
      using Some False by (simp add: addVote_def Let_def remember_sig_def)
    have parts: "vm_parents (addVote v now s) = vm_parents s" "vm_confirmed (addVote v now s) = vm_confirmed s"
      "vm_tallies (addVote v now s) = mset_at (vt_blockHash v) (count_vote v t) (vm_tallies s)"
      unfolding e by (simp_all add: remember_sig_def Let_def)
    note sib = siblings_cong [OF parts(1), of place]
    show ?thesis
    proof (rule votes_invI)
      show "fork_ok place (addVote v now s)"
        by (rule fork_ok_cong [OF parts(1) inv(1)])
      show "tally_ok g u \<and> g \<in> set (siblings_of place g (addVote v now s)) \<and> length (siblings_of place g (addVote v now s)) \<noteq> 1"
        if "mget (vm_tallies (addVote v now s)) g = Some u" for g u
        using that t inv(2) [of g] inv(2) [OF Some] unfolding parts sib by (cases "g = vt_blockHash v") auto
      show "mget (vm_tallies (addVote v now s)) g = None \<and> g \<in> set (siblings_of place g (addVote v now s))"
        if g: "g \<in> vm_confirmed (addVote v now s)" for g
      proof -
        have "g \<in> vm_confirmed s" using g parts(2) by simp
        note g = inv(3) [OF this]
        then have "g \<noteq> vt_blockHash v" using Some by auto
        with g show ?thesis unfolding parts sib by simp
      qed
      show "g = k" if "g \<in> vm_confirmed (addVote v now s)" "k \<in> vm_confirmed (addVote v now s)" "place g = place k" for g k
        using that inv(4) [of g k] unfolding parts by blast
    qed
  qed
qed (use assms in \<open>simp add: addVote_def\<close>)

lemma best_tracks:
  assumes "foldl (vm_best_step ts) (b, m, a, w) hs = (best, m', a', w')"
    "\<And>h t. h \<in> set hs \<Longrightarrow> mget ts h = Some t \<Longrightarrow> 0 \<le> ta_approve t" "list_all (mhas ts) hs"
    "m = -1 \<and> hs \<noteq> [] \<or> 0 \<le> m \<and> b \<in> X"
  shows "best \<in> X \<union> set hs"
  using assms
proof (induction hs arbitrary: b m a w X)
  case (Cons h hs)
  obtain t where t: "mget ts h = Some t" using Cons.prems(3) by (auto simp: mhas_def)
  obtain m1 a1 w1 where step: "vm_best_step ts (b, m, a, w) h = ((if ta_approve t > m then h else b), m1, a1, w1)" "m1 = max m (ta_approve t)"
    by (simp add: vm_best_step_def t)
  have t0: "0 \<le> ta_approve t" using Cons.prems(2) [of h] t by simp
  have "best \<in> (X \<union> {h}) \<union> set hs"
    using Cons.prems step t0 by (intro Cons.IH [of "if ta_approve t > m then h else b" m1 a1 w1]) auto
  then show ?case by auto
qed auto

lemma settle_tallies:
  "mget (fold mdel hs ts) g = (if g \<in> set hs then None else mget ts g)"
  by (induction hs arbitrary: ts) auto

lemma resolve_one_inv:
  assumes "votes_inv place s" "\<exists>k. mget (vm_parents s) k = Some hashes" "resolve_one now hashes (acc, s) = (acc', s')"
  shows "votes_inv place s' \<and> vm_parents s' = vm_parents s"
proof (cases "s' = s")
  case False
  note inv = votes_invD [OF assms(1)]
  obtain best m a w where f: "foldl (vm_best_step (vm_tallies s)) ('''', -1, True, None) hashes = (best, m, a, w)"
    by (metis prod_cases4)
  have go: "length hashes > 1" "list_all (mhas (vm_tallies s)) hashes" and s': "s' = settle_fork best hashes s"
    using assms(3) False by (auto simp: resolve_one_def Let_def f split: prod.splits if_splits)
  have some: "\<exists>t. mget (vm_tallies s) h = Some t" if "h \<in> set hashes" for h
    using go(2) that by (auto simp: list_all_iff mhas_def)
  have "0 \<le> ta_approve t" if "mget (vm_tallies s) h = Some t" for h t
    using inv(2) [OF that] tally_ok_approve by blast
  then have best: "best \<in> set hashes"
    using best_tracks [OF f, of "{}"] go by force
  obtain k where k: "mget (vm_parents s) k = Some hashes" using assms(2) by blast
  have place: "place h = k" if "h \<in> set hashes" for h
    using inv(1) k that unfolding fork_ok_def by blast
  have "set (best # filter (\<lambda>h. h \<noteq> best) hashes) = set hashes" using best by auto
  then have parts: "vm_parents s' = vm_parents s" "vm_confirmed s' = insert best (vm_confirmed s)"
    "mget (vm_tallies s') g = (if g \<in> set hashes then None else mget (vm_tallies s) g)" for g
    using settle_tallies [of "best # filter (\<lambda>h. h \<noteq> best) hashes" "vm_tallies s" g] by (simp_all add: s' settle_fork_def)
  note sib = siblings_cong [OF parts(1), of place]
  have here: "siblings_of place g s = hashes" if "place g = k" for g
    using that k by (simp add: siblings_of_def)
  have free: "place g \<noteq> k" if g: "g \<in> vm_confirmed s" for g
  proof
    assume "place g = k"
    with inv(3) [OF g] here [of g] some [of g] show False by auto
  qed
  have "votes_inv place s'"
  proof (rule votes_invI)
    show "fork_ok place s'"
      by (rule fork_ok_cong [OF parts(1) inv(1)])
    show "tally_ok g t \<and> g \<in> set (siblings_of place g s') \<and> length (siblings_of place g s') \<noteq> 1"
      if "mget (vm_tallies s') g = Some t" for g t
      using that inv(2) [of g t] unfolding sib parts by (simp split: if_splits)
    show "mget (vm_tallies s') g = None \<and> g \<in> set (siblings_of place g s')" if g: "g \<in> vm_confirmed s'" for g
    proof (cases "g \<in> set hashes")
      case True
      with here [OF place [OF True]] show ?thesis unfolding sib parts by simp
    next
      case False
      with g best have "g \<in> vm_confirmed s" unfolding parts by auto
      with inv(3) False show ?thesis unfolding sib parts by simp
    qed
    show "g = j" if "g \<in> vm_confirmed s'" "j \<in> vm_confirmed s'" "place g = place j" for g j
    proof -
      have "place best = k" by (rule place [OF best])
      then show ?thesis
        using that free [of g] free [of j] inv(4) [of g j] unfolding parts by auto
    qed
  qed
  with parts show ?thesis by blast
qed (use assms in simp)

lemma resolve_inv:
  assumes "votes_inv place s"
  shows "votes_inv place (snd (resolveConflicts now s))"
proof -
  have "votes_inv place (snd (fold (resolve_one now) hss (acc, s')))"
    if "votes_inv place s'" "vm_parents s' = vm_parents s" "set hss \<subseteq> set (mvals (vm_parents s))" for hss acc s'
    using that
  proof (induction hss arbitrary: acc s')
    case (Cons hashes hss)
    obtain acc1 s1 where 1: "resolve_one now hashes (acc, s') = (acc1, s1)" by (cases "resolve_one now hashes (acc, s')")
    have "wf_map (vm_parents s')"
      using votes_invD(1) [OF Cons.prems(1)] unfolding fork_ok_def by blast
    moreover have "hashes \<in> set (mvals (vm_parents s'))" using Cons.prems by simp
    ultimately have "\<exists>k. mget (vm_parents s') k = Some hashes"
      by (auto simp: mvals_def mget_in)
    from resolve_one_inv [OF Cons.prems(1) this 1] Cons.IH [of s1 acc1] Cons.prems(2,3) 1 show ?case by simp
  qed simp
  from this [OF assms refl] show ?thesis
    by (simp add: resolveConflicts_def)
qed

lemma vote_run_inv:
  assumes "list_all (placed_op place) ops"
  shows "votes_inv place (fold vote_step ops new_votes)"
proof -
  have "votes_inv place (fold vote_step ops s)" if "votes_inv place s" for s
    using assms that
  proof (induction ops arbitrary: s)
    case (Cons x ops)
    have "votes_inv place (vote_step x s)"
      using Cons.prems by (cases x) (simp_all add: register_inv vote_inv resolve_inv)
    with Cons show ?case by simp
  qed simp
  moreover have "votes_inv place new_votes"
    by (simp add: votes_inv_def new_votes_def fork_ok_def)
  ultimately show ?thesis by blast
qed

section \<open>A decision is not final\<close>

text \<open>
  \<open>parentToBlocks\<close> keeps a decided fork and \<open>registerBlock\<close> reopens every sibling, so one more
  block of the account at the same place takes the confirmation away again.
\<close>

lemma late_sibling_reopens:
  assumes "votes_inv place s" "h \<in> vm_confirmed s" "parent_key acct prev = place h"
    "c \<notin> vm_confirmed s" "c \<notin> vm_rejected s"
  shows "h \<notin> vm_confirmed (snd (vm_register c prev acct now s))"
    "mhas (vm_tallies (snd (vm_register c prev acct now s))) h"
proof -
  define sib where "sib = sadd c (siblings_of place h s)"
  have h: "h \<in> set sib" "c \<in> set sib" "h \<noteq> c"
    using votes_invD(3) [OF assms(1,2)] assms(2,4) by (auto simp: sib_def)
  then have two: "length sib \<noteq> 1"
    by (cases sib) auto
  have "snd (vm_register c prev acct now s) = fold (open_tally now) sib (s\<lparr>vm_parents := mset_at (place h) sib (vm_parents s)\<rparr>)"
    using assms(4,5) two unfolding vm_register_def assms(3) by (simp add: Let_def sib_def siblings_of_def)
  then show "h \<notin> vm_confirmed (snd (vm_register c prev acct now s))"
    "mhas (vm_tallies (snd (vm_register c prev acct now s))) h"
    using h(1) by (simp_all add: open_tallies mhas_def)
qed

end
