(* ===== verification/Dag_Ledger.thy ===== *)
theory Dag_Ledger
  imports Dag_Block Vote_Manager
begin

text \<open>
  The block lattice of the application, \<open>src/core/dag-ledger.ts\<close> with the accounts of
  \<open>account.ts\<close>: the ledger that \<open>NeuronNode.switchNetwork\<close> installs. The maps of the class
  are the fields of one record; \<open>addBlock\<close> checks a block and applies its effects, \<open>processConflicts\<close>
  settles forks by vote. Listeners and the sandbox that runs a contract call are outside the model:
  a call is queued. Scores and sizes are exact rationals. The string members of an update payload
  are strings, as their type declares.
\<close>

section \<open>State\<close>

record dag_account =
  da_username :: string
  da_pub :: string
  da_balance :: int
  da_nonce :: int
  da_createdAt :: int
  da_faceMapHash :: string
  da_faceDescriptor :: "real list option"
  da_encryptedFaceDescriptor :: "string option"
  da_pinSalt :: "string option"
  da_linkedAnchor :: "string option"
  da_pqPub :: "string option"
  da_pqKemPub :: "string option"
  da_pinVerifier :: "string option"

record dag_provider =
  dp_pub :: string
  dp_deviceId :: jsv
  dp_registeredAt :: int
  dp_capacityGB :: rat
  dp_lastActualStoredBytes :: rat
  dp_lastHeartbeat :: int
  dp_heartbeatsLast24h :: int
  dp_smokeAddr :: "jsv option"
  dp_countryCode :: "jsv option"
  dp_avgLatencyMs :: rat
  dp_spotCheckPassRate :: rat
  dp_score :: rat

record dag_contract =
  dc_owner :: string
  dc_code :: "jsv option"
  dc_state :: "(string \<times> jsv) list"
  dc_name :: jsv
  dc_deployedAt :: int

record contract_call =
  cq_contractId :: "jsv option"
  cq_method :: "jsv option"
  cq_args :: jsv
  cq_caller :: string

record dag_unclaimed =
  un_fromPub :: string
  un_toPub :: string
  un_amount :: int

record dag_ledger =
  dl_accountChains :: "(string, account_block list) jsmap"
  dl_allBlocks :: "(string, account_block) jsmap"
  dl_accounts :: "(string, dag_account) jsmap"
  dl_usernames :: "(string, string) jsmap"
  dl_votes :: vote_manager
  dl_contracts :: "(string, dag_contract) jsmap"
  dl_unclaimedSends :: "(string, dag_unclaimed) jsmap"
  dl_faceCount :: "(string, int) jsmap"
  dl_calls :: "contract_call list"
  dl_providers :: "(string, dag_provider) jsmap"
  dl_heartbeats :: "(string, (int, int) jsmap) jsmap"
  dl_mainnet :: bool
  dl_txTimestamps :: "int list"
  dl_confirmed :: int
  dl_pending :: int
  dl_order :: "string list"

definition MAX_BLOCKS_DISPLAY :: nat where "MAX_BLOCKS_DISPLAY = 500"
definition MAX_CHAIN_MEMORY :: nat where "MAX_CHAIN_MEMORY = 5000"
definition FACE_MATCH_THRESHOLD :: real where "FACE_MATCH_THRESHOLD = 45 / 100"

definition new_dag :: "bool \<Rightarrow> dag_ledger" where
  "new_dag mainnet = \<lparr>dl_accountChains = [], dl_allBlocks = [], dl_accounts = [], dl_usernames = [], dl_votes = new_votes,
     dl_contracts = [], dl_unclaimedSends = [], dl_faceCount = [], dl_calls = [], dl_providers = [], dl_heartbeats = [],
     dl_mainnet = mainnet, dl_txTimestamps = [], dl_confirmed = 0, dl_pending = 0, dl_order = []\<rparr>"

section \<open>Accounts\<close>

definition validateUsername :: "string \<Rightarrow> verdict" where
  "validateUsername u = (if length u < 3 \<or> length u > 24 then Invalid ''Username must be 3-24 characters''
     else if \<not> list_all (\<lambda>c. is_digit_char c \<or> c = CHR ''.'' \<or> (97 \<le> (of_char c :: nat) \<and> (of_char c :: nat) \<le> 122)) u
     then Invalid ''Username must be lowercase alphanumeric (a-z, 0-9, .)'' else Valid)"

definition keep_first :: "string option \<Rightarrow> string option \<Rightarrow> string option" where
  "keep_first new old = (if truthy new \<and> \<not> truthy old then new else old)"

definition merge_account :: "dag_account \<Rightarrow> dag_account \<Rightarrow> dag_account" where
  "merge_account a e = e\<lparr>da_faceMapHash := (if da_faceMapHash a \<noteq> [] \<and> da_faceMapHash e = [] then da_faceMapHash a else da_faceMapHash e),
     da_encryptedFaceDescriptor := keep_first (da_encryptedFaceDescriptor a) (da_encryptedFaceDescriptor e),
     da_linkedAnchor := keep_first (da_linkedAnchor a) (da_linkedAnchor e),
     da_pqPub := keep_first (da_pqPub a) (da_pqPub e),
     da_pqKemPub := keep_first (da_pqKemPub a) (da_pqKemPub e),
     da_pinSalt := keep_first (da_pinSalt a) (da_pinSalt e),
     da_pinVerifier := keep_first (da_pinVerifier a) (da_pinVerifier e)\<rparr>"

definition dag_registerAccount :: "dag_account \<Rightarrow> dag_ledger \<Rightarrow> bool \<times> dag_ledger" where
  "dag_registerAccount a s = (case mget (dl_accounts s) (da_pub a) of
     Some e \<Rightarrow>
       (let rename = da_username a \<noteq> [] \<and> da_username a \<noteq> da_username e \<and> da_username a \<noteq> da_pub a;
            e' = (if rename then e\<lparr>da_username := da_username a\<rparr> else e);
            names = (if rename then mset_at (da_username a) (da_pub a) (mdel (da_username e) (dl_usernames s)) else dl_usernames s)
        in (True, s\<lparr>dl_usernames := names, dl_accounts := mset_at (da_pub a) (merge_account a e') (dl_accounts s)\<rparr>))
   | None \<Rightarrow>
       if mhas (dl_usernames s) (da_username a) \<and> da_username a \<noteq> da_pub a then (False, s)
       else (True, s\<lparr>dl_accounts := mset_at (da_pub a) a (dl_accounts s),
                     dl_usernames := mset_at (da_username a) (da_pub a) (dl_usernames s)\<rparr>))"

definition lower_face :: "string \<Rightarrow> (string, int) jsmap \<Rightarrow> (string, int) jsmap" where
  "lower_face f m = (let prev = nvl (mget m f) 0 in if prev > 0 then mset_at f (prev - 1) m else m)"

definition purge_block :: "account_block \<Rightarrow> dag_ledger \<Rightarrow> dag_ledger" where
  "purge_block b s = s\<lparr>dl_allBlocks := mdel (ab_hash b) (dl_allBlocks s),
     dl_faceCount := (if ab_type b = DOpen \<and> truthy (ab_faceMapHash b) then lower_face (the (ab_faceMapHash b)) (dl_faceCount s)
                      else dl_faceCount s)\<rparr>"

definition dag_purgeAccount :: "string \<Rightarrow> dag_ledger \<Rightarrow> dag_ledger" where
  "dag_purgeAccount pub s = (case mget (dl_accounts s) pub of
     None \<Rightarrow> s
   | Some a \<Rightarrow>
       (let names = (if mget (dl_usernames s) (da_username a) = Some pub then mdel (da_username a) (dl_usernames s) else dl_usernames s);
            s1 = s\<lparr>dl_accounts := mdel pub (dl_accounts s), dl_usernames := names\<rparr>;
            s2 = fold purge_block (nvl (mget (dl_accountChains s) pub) []) s1
        in s2\<lparr>dl_accountChains := mdel pub (dl_accountChains s2)\<rparr>))"

definition dag_getAccountByUsername :: "dag_ledger \<Rightarrow> string \<Rightarrow> dag_account option" where
  "dag_getAccountByUsername s u = (case mget (dl_usernames s) u of
     None \<Rightarrow> None | Some pub \<Rightarrow> if pub = [] then None else mget (dl_accounts s) pub)"

definition dag_resolveToPublicKey :: "dag_ledger \<Rightarrow> string \<Rightarrow> string option" where
  "dag_resolveToPublicKey s ident = (if mhas (dl_accounts s) ident then Some ident else mget (dl_usernames s) ident)"

definition dag_getAccountHead :: "dag_ledger \<Rightarrow> string \<Rightarrow> account_block option" where
  "dag_getAccountHead s pub = last_opt (nvl (mget (dl_accountChains s) pub) [])"

definition dag_getAccountBalance :: "dag_ledger \<Rightarrow> string \<Rightarrow> int" where
  "dag_getAccountBalance s pub = (case dag_getAccountHead s pub of None \<Rightarrow> 0 | Some b \<Rightarrow> ab_balance b)"

section \<open>Faces\<close>

definition getMaxAccountsPerFace :: "dag_ledger \<Rightarrow> int" where
  "getMaxAccountsPerFace s = (if dl_mainnet s then 1 else 3)"

definition getFaceAccountCount :: "dag_ledger \<Rightarrow> string \<Rightarrow> int" where
  "getFaceAccountCount s f = nvl (mget (dl_faceCount s) f) 0"

text \<open>A descriptor that is too short makes the sum \<open>NaN\<close>, which matches nothing.\<close>

definition face_matches :: "real list \<Rightarrow> real list \<Rightarrow> bool" where
  "face_matches d e \<longleftrightarrow> length e = 128 \<and> 128 \<le> length d
     \<and> sqrt (\<Sum>i<128. (d ! i - e ! i)\<^sup>2) < FACE_MATCH_THRESHOLD"

definition countMatchingFaceAccounts :: "dag_ledger \<Rightarrow> real list \<Rightarrow> string option \<Rightarrow> nat" where
  "countMatchingFaceAccounts s d excludePub = length (filter (\<lambda>a.
     \<not> (truthy excludePub \<and> excludePub = Some (da_pub a))
     \<and> (case da_faceDescriptor a of None \<Rightarrow> False | Some e \<Rightarrow> face_matches d e)) (mvals (dl_accounts s)))"

definition raise_face :: "string \<Rightarrow> (string, int) jsmap \<Rightarrow> (string, int) jsmap" where
  "raise_face f m = mset_at f (nvl (mget m f) 0 + 1) m"

definition rebuildFaceAccountCount :: "dag_ledger \<Rightarrow> dag_ledger" where
  "rebuildFaceAccountCount s = s\<lparr>dl_faceCount := fold (\<lambda>chain m. case chain of
       [] \<Rightarrow> m
     | b # _ \<Rightarrow> if ab_type b = DOpen \<and> truthy (ab_faceMapHash b) then raise_face (the (ab_faceMapHash b)) m else m)
     (mvals (dl_accountChains s)) []\<rparr>"

section \<open>Heartbeats and scores\<close>

definition updateProviderScore :: "dag_provider \<Rightarrow> dag_provider" where
  "updateProviderScore p = (let
     uptime = max (1/10) (min 1 (of_int (dp_heartbeatsLast24h p) / of_int MAX_HEARTBEATS_PER_DAY));
     latency = (if dp_avgLatencyMs p > 0 then max (1/10) (min 1 (1000 / dp_avgLatencyMs p)) else 1);
     spot = max (1/10) (min 1 (dp_spotCheckPassRate p))
   in p\<lparr>dp_score := uptime * latency * spot\<rparr>)"

definition chain_of :: "dag_ledger \<Rightarrow> string \<Rightarrow> account_block list" where
  "chain_of s pub = nvl (mget (dl_accountChains s) pub) []"

definition countHeartbeatsLast24h :: "dag_ledger \<Rightarrow> string \<Rightarrow> int \<Rightarrow> int" where
  "countHeartbeatsLast24h s pub refTime = int (length (filter (\<lambda>b.
     ab_type b = DStorageHeartbeat \<and> ab_timestamp b \<ge> refTime - 24 * 60 * 60 * 1000) (chain_of s pub)))"

definition refreshHeartbeatCounts :: "int \<Rightarrow> dag_ledger \<Rightarrow> dag_ledger" where
  "refreshHeartbeatCounts now s = s\<lparr>dl_providers := map (\<lambda>(pub, p).
     (pub, updateProviderScore (p\<lparr>dp_heartbeatsLast24h := countHeartbeatsLast24h s pub now\<rparr>))) (dl_providers s)\<rparr>"

definition countHeartbeatsInEpoch :: "dag_ledger \<Rightarrow> string \<Rightarrow> int \<Rightarrow> int" where
  "countHeartbeatsInEpoch s pub day = nvl (Option.bind (mget (dl_heartbeats s) pub) (\<lambda>m. mget m day)) 0"

definition stored_step :: "int \<Rightarrow> account_block \<Rightarrow> rat \<times> int \<Rightarrow> rat \<times> int" where
  "stored_step epochStart b acc = (if ab_type b \<noteq> DStorageHeartbeat \<or> ab_timestamp b < epochStart
       \<or> ab_timestamp b \<ge> epochStart + REWARD_EPOCH_MS \<or> \<not> truthy (ab_contractData b) then acc
     else case Option.bind (JSON_parse (the (ab_contractData b))) (\<lambda>v. num_member v ''actualStoredBytes'') of
       Some (Some q) \<Rightarrow> if ab_timestamp b > snd acc then (q, ab_timestamp b) else acc
     | _ \<Rightarrow> acc)"

definition getActualStoredGBInEpoch :: "dag_ledger \<Rightarrow> string \<Rightarrow> int \<Rightarrow> rat" where
  "getActualStoredGBInEpoch s pub day = fst (fold (stored_step (day * REWARD_EPOCH_MS)) (chain_of s pub) (0, 0)) / of_int DAG_GB_BYTES"

text \<open>
  The walk is over the reversed chain. A registration whose payload is \<open>null\<close> or not JSON ends it
  with 0; a capacity that is not a number cannot be in an accepted registration.
\<close>

fun capacity_walk :: "int \<Rightarrow> account_block list \<Rightarrow> rat" where
  "capacity_walk epochStart [] = 0"
| "capacity_walk epochStart (b # bs) =
     (if ab_timestamp b \<ge> epochStart then capacity_walk epochStart bs
      else if ab_type b = DStorageDeregister then 0
      else if ab_type b = DStorageRegister \<and> truthy (ab_contractData b) then
        (case Option.bind (JSON_parse (the (ab_contractData b))) (\<lambda>v. num_member v ''capacityGB'') of
           Some (Some q) \<Rightarrow> q | _ \<Rightarrow> 0)
      else capacity_walk epochStart bs)"

definition getCapacityAtEpochStart :: "dag_ledger \<Rightarrow> string \<Rightarrow> int \<Rightarrow> rat" where
  "getCapacityAtEpochStart s pub day = capacity_walk (day * REWARD_EPOCH_MS) (rev (chain_of s pub))"

section \<open>Effects of an accepted block\<close>

definition js_truthy :: "jsv option \<Rightarrow> bool" where
  "js_truthy v \<longleftrightarrow> v \<notin> {None, Some VNull, Some (VBool False), Some (VNum 0), Some (VStr '''')}"

definition parsed :: "string option \<Rightarrow> jsv option" where
  "parsed d = (if truthy d then JSON_parse (the d) else None)"

text \<open>Reading a member of a payload that was parsed inside \<open>try\<close>: \<open>null\<close> throws.\<close>

definition member_or :: "jsv \<Rightarrow> string \<Rightarrow> jsv option" where
  "member_or v k = Option.bind (js_member v k) id"

definition append_block :: "account_block \<Rightarrow> dag_ledger \<Rightarrow> dag_ledger" where
  "append_block b s = s\<lparr>dl_allBlocks := mset_at (ab_hash b) b (dl_allBlocks s),
     dl_accountChains := mset_at (ab_accountPub b) (chain_of s (ab_accountPub b) @ [b]) (dl_accountChains s)\<rparr>"

definition unclaimed_effect :: "account_block \<Rightarrow> dag_ledger \<Rightarrow> dag_ledger" where
  "unclaimed_effect b s =
     (if ab_type b = DSend \<and> truthy (ab_recipient b) \<and> nvl (ab_amount b) 0 \<noteq> 0 then
        s\<lparr>dl_unclaimedSends := mset_at (ab_hash b) \<lparr>un_fromPub = ab_accountPub b, un_toPub = the (ab_recipient b),
            un_amount = the (ab_amount b)\<rparr> (dl_unclaimedSends s)\<rparr>
      else if ab_type b = DReceive \<and> truthy (ab_sendBlockHash b) then
        s\<lparr>dl_unclaimedSends := mdel (the (ab_sendBlockHash b)) (dl_unclaimedSends s)\<rparr>
      else s)"

definition contract_effect :: "account_block \<Rightarrow> fork_status \<Rightarrow> dag_ledger \<Rightarrow> dag_ledger" where
  "contract_effect b voteResult s = (case parsed (ab_contractData b) of
     None \<Rightarrow> s
   | Some v \<Rightarrow>
       if v = VNull then s
       else if ab_type b = DDeploy then
         s\<lparr>dl_contracts := mset_at (ab_hash b) \<lparr>dc_owner = ab_accountPub b, dc_code = member_or v ''code'', dc_state = [],
             dc_name = (if js_truthy (member_or v ''name'') then the (member_or v ''name'') else VStr ''Unnamed''),
             dc_deployedAt = ab_timestamp b\<rparr> (dl_contracts s)\<rparr>
       else if ab_type b = DCall \<and> voteResult = VConfirmed then
         s\<lparr>dl_calls := dl_calls s @ [\<lparr>cq_contractId = member_or v ''contractId'', cq_method = member_or v ''method'',
             cq_args = (if js_truthy (member_or v ''args'') then the (member_or v ''args'') else VArr []), cq_caller = ab_accountPub b\<rparr>]\<rparr>
       else s)"

definition or_null_js :: "jsv option \<Rightarrow> jsv option \<Rightarrow> jsv" where
  "or_null_js a b = (if a \<notin> {None, Some VNull} then the a else if b \<notin> {None, Some VNull} then the b else VStr '''')"

definition register_effect :: "account_block \<Rightarrow> dag_ledger \<Rightarrow> dag_ledger" where
  "register_effect b s = (case parsed (ab_contractData b) of
     None \<Rightarrow> s
   | Some v \<Rightarrow> (case num_member v ''capacityGB'' of
       Some (Some cap) \<Rightarrow>
         (let e = mget (dl_providers s) (ab_accountPub b);
              old = (\<lambda>f d. case e of None \<Rightarrow> d | Some p \<Rightarrow> f p);
              p = \<lparr>dp_pub = ab_accountPub b, dp_deviceId = or_null_js (member_or v ''deviceId'') (map_option dp_deviceId e),
                dp_registeredAt = (case e of None \<Rightarrow> ab_timestamp b | Some p \<Rightarrow> dp_registeredAt p), dp_capacityGB = cap,
                dp_lastActualStoredBytes = old dp_lastActualStoredBytes 0,
                dp_lastHeartbeat = (case e of None \<Rightarrow> 0 | Some p \<Rightarrow> dp_lastHeartbeat p),
                dp_heartbeatsLast24h = (case e of None \<Rightarrow> 0 | Some p \<Rightarrow> dp_heartbeatsLast24h p),
                dp_smokeAddr = None, dp_countryCode = None,
                dp_avgLatencyMs = old dp_avgLatencyMs 0, dp_spotCheckPassRate = old dp_spotCheckPassRate 1, dp_score = old dp_score 1\<rparr>
          in s\<lparr>dl_providers := mset_at (ab_accountPub b) (updateProviderScore p) (dl_providers s)\<rparr>)
     | _ \<Rightarrow> s))"

text \<open>The text that \<open>RegExp.test\<close> sees, as far as two capital letters can come out of it.\<close>

fun code_text :: "jsv \<Rightarrow> string" where
  "code_text (VStr s) = s"
| "code_text (VArr xs) = join '','' (map code_text xs)"
| "code_text v = ''''"

definition country_code :: "jsv option \<Rightarrow> bool" where
  "country_code v \<longleftrightarrow> js_truthy v \<and> (let t = code_text (the v) in length t = 2 \<and> list_all (\<lambda>c. 65 \<le> (of_char c :: nat) \<and> (of_char c :: nat) \<le> 90) t)"

definition report_heartbeat :: "jsv \<Rightarrow> dag_provider \<Rightarrow> dag_provider" where
  "report_heartbeat v p = (if v = VNull then p else
     p\<lparr>dp_smokeAddr := (if js_truthy (member_or v ''smokeAddr'') then member_or v ''smokeAddr'' else dp_smokeAddr p),
       dp_lastActualStoredBytes := (case num_member v ''actualStoredBytes'' of Some (Some q) \<Rightarrow> q | _ \<Rightarrow> dp_lastActualStoredBytes p),
       dp_countryCode := (if country_code (member_or v ''countryCode'') then member_or v ''countryCode'' else dp_countryCode p)\<rparr>)"

definition heartbeat_effect :: "int \<Rightarrow> account_block \<Rightarrow> dag_ledger \<Rightarrow> dag_ledger" where
  "heartbeat_effect now b s = (let pub = ab_accountPub b; day = ab_timestamp b div REWARD_EPOCH_MS;
       byEpoch = nvl (mget (dl_heartbeats s) pub) [];
       s1 = s\<lparr>dl_heartbeats := mset_at pub (mset_at day (nvl (mget byEpoch day) 0 + 1) byEpoch) (dl_heartbeats s)\<rparr>
     in case mget (dl_providers s1) pub of
          None \<Rightarrow> s1
        | Some p \<Rightarrow>
            (let p1 = p\<lparr>dp_lastHeartbeat := ab_timestamp b, dp_heartbeatsLast24h := countHeartbeatsLast24h s1 pub now\<rparr>;
                 p2 = (case parsed (ab_contractData b) of None \<Rightarrow> p1 | Some v \<Rightarrow> report_heartbeat v p1)
             in s1\<lparr>dl_providers := mset_at pub (updateProviderScore p2) (dl_providers s1)\<rparr>))"

definition storage_effect :: "int \<Rightarrow> account_block \<Rightarrow> dag_ledger \<Rightarrow> dag_ledger" where
  "storage_effect now b s = (case ab_type b of
     DStorageRegister \<Rightarrow> register_effect b s
   | DStorageDeregister \<Rightarrow> s\<lparr>dl_providers := mdel (ab_accountPub b) (dl_providers s)\<rparr>
   | DStorageHeartbeat \<Rightarrow> heartbeat_effect now b s
   | _ \<Rightarrow> s)"

definition face_effect :: "account_block \<Rightarrow> dag_ledger \<Rightarrow> dag_ledger" where
  "face_effect b s = (if ab_type b = DOpen \<and> truthy (ab_faceMapHash b)
     then s\<lparr>dl_faceCount := raise_face (the (ab_faceMapHash b)) (dl_faceCount s)\<rparr> else s)"

definition text_member :: "jsv \<Rightarrow> string \<Rightarrow> string option" where
  "text_member v k = (case member_or v k of Some (VStr s) \<Rightarrow> if s = [] then None else Some s | _ \<Rightarrow> None)"

definition update_effect :: "account_block \<Rightarrow> dag_ledger \<Rightarrow> dag_ledger" where
  "update_effect b s = (if ab_type b \<noteq> DUpdate then s else
     case (parsed (ab_updateData b), mget (dl_accounts s) (ab_accountPub b)) of
       (Some v, Some a) \<Rightarrow>
         (let newFace = text_member v ''newFaceMapHash'';
              a' = a\<lparr>da_faceMapHash := nvl newFace (da_faceMapHash a),
                da_linkedAnchor := (case text_member v ''newLinkedAnchor'' of None \<Rightarrow> da_linkedAnchor a | Some x \<Rightarrow> Some x),
                da_pqPub := (case text_member v ''newPQPub'' of None \<Rightarrow> da_pqPub a | Some x \<Rightarrow> Some x),
                da_pqKemPub := (case text_member v ''newPQKemPub'' of None \<Rightarrow> da_pqKemPub a | Some x \<Rightarrow> Some x)\<rparr>
          in s\<lparr>dl_accounts := mset_at (ab_accountPub b) a' (dl_accounts s),
               dl_faceCount := (case newFace of None \<Rightarrow> dl_faceCount s
                                | Some f \<Rightarrow> raise_face f (lower_face (da_faceMapHash a) (dl_faceCount s)))\<rparr>)
     | _ \<Rightarrow> s)"

definition account_effect :: "account_block \<Rightarrow> dag_ledger \<Rightarrow> dag_ledger" where
  "account_effect b s = (case mget (dl_accounts s) (ab_accountPub b) of
     None \<Rightarrow> s
   | Some a \<Rightarrow> s\<lparr>dl_accounts := mset_at (ab_accountPub b) (a\<lparr>da_balance := ab_balance b, da_nonce := ab_index b\<rparr>) (dl_accounts s)\<rparr>)"

definition order_effect :: "account_block \<Rightarrow> dag_ledger \<Rightarrow> dag_ledger" where
  "order_effect b s = (let hs = dl_order s @ [ab_hash b] in
     s\<lparr>dl_order := (if length hs > MAX_BLOCKS_DISPLAY * 2 then drop (length hs - MAX_BLOCKS_DISPLAY) hs else hs)\<rparr>)"

definition pruneAccountChain :: "string \<Rightarrow> dag_ledger \<Rightarrow> dag_ledger" where
  "pruneAccountChain pub s = (let chain = chain_of s pub; n = length chain - MAX_CHAIN_MEMORY in
     if length chain \<le> MAX_CHAIN_MEMORY then s
     else s\<lparr>dl_accountChains := mset_at pub (drop n chain) (dl_accountChains s),
            dl_allBlocks := fold (\<lambda>b. mdel (ab_hash b)) (take n chain) (dl_allBlocks s)\<rparr>)"

definition count_effect :: "int \<Rightarrow> fork_status \<Rightarrow> dag_ledger \<Rightarrow> dag_ledger" where
  "count_effect now voteResult s = (let s1 = s\<lparr>dl_txTimestamps := dl_txTimestamps s @ [now]\<rparr> in
     if voteResult = VConfirmed then s1\<lparr>dl_confirmed := dl_confirmed s1 + 1\<rparr> else s1\<lparr>dl_pending := dl_pending s1 + 1\<rparr>)"

definition accept_block :: "int \<Rightarrow> fork_status \<Rightarrow> account_block \<Rightarrow> dag_ledger \<Rightarrow> dag_ledger" where
  "accept_block now voteResult b s =
     count_effect now voteResult (pruneAccountChain (ab_accountPub b) (order_effect b (account_effect b (update_effect b
       (face_effect b (storage_effect now b (contract_effect b voteResult (unclaimed_effect b (append_block b s)))))))))"

section \<open>Adding a block\<close>

definition check_source :: "dag_ledger \<Rightarrow> account_block \<Rightarrow> verdict" where
  "check_source s b = (case mget (dl_allBlocks s) (nvl (ab_sendBlockHash b) '''') of
     None \<Rightarrow> Invalid ''Referenced send block not found''
   | Some x \<Rightarrow>
       if ab_type x \<noteq> DSend then Invalid ''Referenced block is not a send''
       else if ab_recipient x \<noteq> Some (ab_accountPub b) then Invalid ''Send block recipient mismatch''
       else if ab_amount x \<noteq> ab_receiveAmount b then Invalid ''Amount mismatch''
       else Valid)"

definition check_heartbeat :: "int \<Rightarrow> dag_ledger \<Rightarrow> account_block \<Rightarrow> verdict" where
  "check_heartbeat now s b = (case mget (dl_providers s) (ab_accountPub b) of
     None \<Rightarrow> Invalid ''storage-heartbeat: account is not a registered storage provider''
   | Some p \<Rightarrow>
       if dp_capacityGB p = 0 then Invalid ''storage-heartbeat: account is not a registered storage provider''
       else if dp_lastHeartbeat p > 0 \<and> ab_timestamp b - dp_lastHeartbeat p < HEARTBEAT_INTERVAL_MS - 60000
       then Invalid ''storage-heartbeat interval not reached''
       else if ab_timestamp b > now + 10 * 60 * 1000 then Invalid ''storage-heartbeat: timestamp too far in the future''
       else Valid)"

definition valid_credentials :: "web_crypto \<Rightarrow> account_block \<Rightarrow> nat" where
  "valid_credentials W b = length (filter (\<lambda>c. ab_faceMapHash b \<noteq> None \<and> verifySignature W (rl_sig c) (rl_relayPub c) = ab_faceMapHash b)
     (nvl (ab_relayCredentials b) []))"

definition check_credentials :: "web_crypto \<Rightarrow> dag_ledger \<Rightarrow> account_block \<Rightarrow> verdict" where
  "check_credentials W s b = (let minRequired = (if dl_mainnet s then 3 else 1) in
     if valid_credentials W b < minRequired
     then Invalid (''Open block requires '' @ nat_str minRequired @ '' relay credential(s); got '' @ nat_str (valid_credentials W b) @ '' valid'')
     else Valid)"

definition block_check :: "web_crypto \<Rightarrow> int \<Rightarrow> account_block \<Rightarrow> dag_ledger \<Rightarrow> verdict" where
  "block_check W now b s =
     (if hashAccountBlock W b \<noteq> ab_hash b then Invalid ''Block hash mismatch''
      else if \<not> dag_verifyBlockSignature W b (Option.bind (mget (dl_accounts s) (ab_accountPub b)) da_pqPub) then Invalid ''Invalid signature''
      else case validateBlockStructure b (if ab_type b = DOpen then None else mget (dl_allBlocks s) (ab_previousHash b)) of
        Invalid e \<Rightarrow> Invalid e
      | Valid \<Rightarrow>
          (case ab_type b of
             DReceive \<Rightarrow> check_source s b
           | DStorageHeartbeat \<Rightarrow> check_heartbeat now s b
           | DOpen \<Rightarrow> check_credentials W s b
           | _ \<Rightarrow> Valid))"

text \<open>
  \<open>addBlock\<close> looks for a duplicate, then awaits: \<open>finish_add\<close> is the rest. The fork is registered
  before a second open block of the account is refused.
\<close>

definition finish_add :: "web_crypto \<Rightarrow> int \<Rightarrow> account_block \<Rightarrow> dag_ledger \<Rightarrow> verdict \<times> dag_ledger" where
  "finish_add W now b s = (case block_check W now b s of
     Invalid e \<Rightarrow> (Invalid e, s)
   | Valid \<Rightarrow>
       (let (voteResult, v) = vm_register (ab_hash b) (ab_previousHash b) (ab_accountPub b) now (dl_votes s);
            s1 = s\<lparr>dl_votes := v\<rparr>
        in if ab_type b = DOpen \<and> mhas (dl_accountChains s1) (ab_accountPub b)
           then (Invalid ''Account already has an open block'', s1)
           else (Valid, accept_block now voteResult b s1)))"

definition dag_addBlock :: "web_crypto \<Rightarrow> int \<Rightarrow> account_block \<Rightarrow> dag_ledger \<Rightarrow> verdict \<times> dag_ledger" where
  "dag_addBlock W now b s = (if mhas (dl_allBlocks s) (ab_hash b) then (Valid, s) else finish_add W now b s)"

section \<open>Creating blocks\<close>

definition blank_block :: "string \<Rightarrow> int \<Rightarrow> dag_type \<Rightarrow> string \<Rightarrow> int \<Rightarrow> account_block" where
  "blank_block pub i ty prev bal = \<lparr>ab_hash = '''', ab_accountPub = pub, ab_index = i, ab_type = ty, ab_previousHash = prev,
     ab_balance = bal, ab_timestamp = 0, ab_signature = '''', ab_recipient = None, ab_amount = None, ab_sendBlockHash = None,
     ab_sendFrom = None, ab_receiveAmount = None, ab_faceMapHash = None, ab_contractData = None, ab_contentCid = None,
     ab_updateData = None, ab_pqSignature = None, ab_relayCredentials = None\<rparr>"

datatype 'a create_result = Created 'a | Refused string | Threw string

text \<open>A block on top of the head; a missing private key makes \<open>signData\<close> throw.\<close>

definition on_head :: "web_crypto \<Rightarrow> int \<Rightarrow> dag_keys \<Rightarrow> account_block \<Rightarrow> dag_type \<Rightarrow> int \<Rightarrow> (account_block \<Rightarrow> account_block) \<Rightarrow> account_block create_result" where
  "on_head W now keys head ty bal f =
     (case createAccountBlock W now (f (blank_block (ab_accountPub head) (ab_index head + 1) ty (ab_hash head) bal)) keys of
        None \<Rightarrow> Threw ''signing failed'' | Some b \<Rightarrow> Created b)"

definition dag_createSend :: "web_crypto \<Rightarrow> int \<Rightarrow> dag_keys \<Rightarrow> dag_ledger \<Rightarrow> string \<Rightarrow> string \<Rightarrow> int \<Rightarrow> account_block create_result" where
  "dag_createSend W now keys s sender ident amount = (case dag_resolveToPublicKey s ident of
     None \<Rightarrow> Refused ''Recipient not found''
   | Some recipient \<Rightarrow>
       if recipient = [] then Refused ''Recipient not found''
       else (case dag_getAccountHead s sender of
         None \<Rightarrow> Refused ''Account not opened''
       | Some head \<Rightarrow>
           if ab_balance head < amount then Refused ''Insufficient balance''
           else if amount \<le> 0 then Refused ''Amount must be positive''
           else on_head W now keys (head\<lparr>ab_accountPub := sender\<rparr>) DSend (ab_balance head - amount)
             (\<lambda>b. b\<lparr>ab_recipient := Some recipient, ab_amount := Some amount\<rparr>)))"

definition dag_createReceive :: "web_crypto \<Rightarrow> int \<Rightarrow> dag_keys \<Rightarrow> dag_ledger \<Rightarrow> string \<Rightarrow> string \<Rightarrow> account_block create_result" where
  "dag_createReceive W now keys s pub sendHash = (case mget (dl_unclaimedSends s) sendHash of
     None \<Rightarrow> Refused ''Send block not found or already claimed''
   | Some u \<Rightarrow>
       if un_toPub u \<noteq> pub then Refused ''This send is not addressed to you''
       else (case dag_getAccountHead s pub of
         None \<Rightarrow> Refused ''Account not opened''
       | Some head \<Rightarrow> on_head W now keys (head\<lparr>ab_accountPub := pub\<rparr>) DReceive (ab_balance head + un_amount u)
           (\<lambda>b. b\<lparr>ab_sendBlockHash := Some sendHash, ab_sendFrom := Some (un_fromPub u), ab_receiveAmount := Some (un_amount u)\<rparr>)))"

definition with_payload :: "web_crypto \<Rightarrow> int \<Rightarrow> dag_keys \<Rightarrow> dag_ledger \<Rightarrow> string \<Rightarrow> dag_type \<Rightarrow> json \<Rightarrow> account_block create_result" where
  "with_payload W now keys s pub ty v = (case dag_getAccountHead s pub of
     None \<Rightarrow> Refused ''Account not opened''
   | Some head \<Rightarrow> on_head W now keys (head\<lparr>ab_accountPub := pub\<rparr>) ty (ab_balance head)
       (\<lambda>b. if ty = DUpdate then b\<lparr>ab_updateData := Some (stringify v)\<rparr> else b\<lparr>ab_contractData := Some (stringify v)\<rparr>))"

definition opt_members :: "(string \<times> json option) list \<Rightarrow> json" where
  "opt_members kvs = JObj (map (\<lambda>kv. (fst kv, the (snd kv))) (filter (\<lambda>kv. snd kv \<noteq> None) kvs))"

definition dag_createDeploy :: "web_crypto \<Rightarrow> int \<Rightarrow> dag_keys \<Rightarrow> dag_ledger \<Rightarrow> string \<Rightarrow> string \<Rightarrow> string \<Rightarrow> account_block create_result" where
  "dag_createDeploy W now keys s pub name code =
     with_payload W now keys s pub DDeploy (JObj [(''name'', JStr name), (''code'', JStr code)])"

definition dag_createCall :: "web_crypto \<Rightarrow> int \<Rightarrow> dag_keys \<Rightarrow> dag_ledger \<Rightarrow> string \<Rightarrow> string \<Rightarrow> string \<Rightarrow> json list \<Rightarrow> account_block create_result" where
  "dag_createCall W now keys s pub contractId method args =
     with_payload W now keys s pub DCall (JObj [(''contractId'', JStr contractId), (''method'', JStr method), (''args'', JArr args)])"

definition dag_createUpdate :: "web_crypto \<Rightarrow> int \<Rightarrow> dag_keys \<Rightarrow> dag_ledger \<Rightarrow> string \<Rightarrow> json \<Rightarrow> account_block create_result" where
  "dag_createUpdate W now keys s pub changes = with_payload W now keys s pub DUpdate changes"

definition dag_createStorageRegister :: "web_crypto \<Rightarrow> int \<Rightarrow> dag_keys \<Rightarrow> dag_ledger \<Rightarrow> string \<Rightarrow> int \<Rightarrow> string option \<Rightarrow> account_block create_result" where
  "dag_createStorageRegister W now keys s pub capacityGB deviceId =
     (if dag_getAccountHead s pub = None then Refused ''Account not opened''
      else if capacityGB \<le> 0 then Refused ''capacityGB must be a positive number''
      else with_payload W now keys s pub DStorageRegister (opt_members
        [(''type'', Some (JStr ''storage-register'')), (''capacityGB'', Some (JNum capacityGB)), (''deviceId'', map_option JStr deviceId)]))"

text \<open>The capacity that a departure names is an integer of the model's JSON values: the floor of the registered one.\<close>

definition dag_createStorageDeregister :: "web_crypto \<Rightarrow> int \<Rightarrow> dag_keys \<Rightarrow> dag_ledger \<Rightarrow> string \<Rightarrow> account_block create_result" where
  "dag_createStorageDeregister W now keys s pub = (case mget (dl_providers s) pub of
     None \<Rightarrow> Refused ''Not a registered storage provider''
   | Some p \<Rightarrow>
       if dp_capacityGB p = 0 then Refused ''Not a registered storage provider''
       else with_payload W now keys s pub DStorageDeregister (JObj [(''capacityGB'', JNum \<lfloor>dp_capacityGB p\<rfloor>)]))"

definition dag_createStorageHeartbeat :: "web_crypto \<Rightarrow> int \<Rightarrow> dag_keys \<Rightarrow> dag_ledger \<Rightarrow> string \<Rightarrow> string option \<Rightarrow> int option \<Rightarrow> string option \<Rightarrow> account_block create_result" where
  "dag_createStorageHeartbeat W now keys s pub smokeAddr bytes country = (case mget (dl_providers s) pub of
     None \<Rightarrow> Refused ''Not a registered storage provider''
   | Some p \<Rightarrow>
       if dp_capacityGB p = 0 then Refused ''Not a registered storage provider''
       else if dp_lastHeartbeat p > 0 \<and> now - dp_lastHeartbeat p < HEARTBEAT_INTERVAL_MS - 60000
       then Refused (''Heartbeat interval not reached (next in ''
         @ int_str (- ((- (HEARTBEAT_INTERVAL_MS - (now - dp_lastHeartbeat p))) div 60000)) @ ''min)'')
       else with_payload W now keys s pub DStorageHeartbeat (opt_members
         [(''type'', Some (JStr ''storage-heartbeat'')), (''smokeAddr'', map_option JStr smokeAddr),
          (''actualStoredBytes'', map_option JNum bytes), (''countryCode'', map_option JStr country)]))"

definition dag_openAccount :: "web_crypto \<Rightarrow> int \<Rightarrow> dag_keys \<Rightarrow> dag_ledger \<Rightarrow> string \<Rightarrow> string \<Rightarrow> relay_credential list \<Rightarrow> account_block create_result \<times> dag_ledger" where
  "dag_openAccount W now keys s pub face creds =
     (if getFaceAccountCount s face \<ge> getMaxAccountsPerFace s then (Threw ''Face already used'', s)
      else case createAccountBlock W now ((blank_block pub 0 DOpen (replicate 64 (CHR ''0'')) VERIFICATION_MINT_AMOUNT)
          \<lparr>ab_faceMapHash := Some face, ab_relayCredentials := (if creds = [] then None else Some creds)\<rparr>) keys of
        None \<Rightarrow> (Threw ''signing failed'', s)
      | Some b \<Rightarrow> (case dag_addBlock W now b s of
          (Valid, s') \<Rightarrow> (Created b, s')
        | (Invalid e, s') \<Rightarrow> (Threw e, s')))"

section \<open>Voting\<close>

text \<open>A chain head that the ledger does not hold falls back to the balance of the voter.\<close>

definition verified_stake :: "dag_ledger \<Rightarrow> app_vote \<Rightarrow> int option" where
  "verified_stake s v =
     (if truthy (vt_chainHead v) then
        (case mget (dl_allBlocks s) (the (vt_chainHead v)) of
           None \<Rightarrow> Some (dag_getAccountBalance s (vt_voterPub v))
         | Some h \<Rightarrow> if ab_accountPub h \<noteq> vt_voterPub v then None else Some (ab_balance h))
      else Some 0)"

definition castVote :: "int \<Rightarrow> app_vote \<Rightarrow> dag_ledger \<Rightarrow> dag_ledger" where
  "castVote now v s = (case verified_stake s v of
     None \<Rightarrow> s
   | Some stake \<Rightarrow> if stake \<le> 0 then s else s\<lparr>dl_votes := addVote (v\<lparr>vt_stake := stake\<rparr>) now (dl_votes s)\<rparr>)"

definition remove_first :: "('a \<Rightarrow> bool) \<Rightarrow> 'a list \<Rightarrow> 'a list" where
  "remove_first P xs = takeWhile (\<lambda>x. \<not> P x) xs @ tl (dropWhile (\<lambda>x. \<not> P x) xs)"

definition handleRejectedBlock :: "string \<Rightarrow> dag_ledger \<Rightarrow> dag_ledger" where
  "handleRejectedBlock h s = (case mget (dl_allBlocks s) h of
     None \<Rightarrow> s
   | Some b \<Rightarrow>
       (let s1 = s\<lparr>dl_pending := max 0 (dl_pending s - 1),
              dl_accountChains := (if mhas (dl_accountChains s) (ab_accountPub b)
                then mset_at (ab_accountPub b) (remove_first (\<lambda>x. ab_hash x = h) (chain_of s (ab_accountPub b))) (dl_accountChains s)
                else dl_accountChains s)\<rparr>;
            source = (if ab_type b = DReceive \<and> truthy (ab_sendBlockHash b) then mget (dl_allBlocks s) (the (ab_sendBlockHash b)) else None);
            s2 = (case source of
                None \<Rightarrow> s1
              | Some x \<Rightarrow>
                  if ab_type x = DSend \<and> truthy (ab_recipient x) \<and> nvl (ab_amount x) 0 \<noteq> 0 then
                    s1\<lparr>dl_unclaimedSends := mset_at (the (ab_sendBlockHash b)) \<lparr>un_fromPub = ab_accountPub x,
                       un_toPub = the (ab_recipient x), un_amount = the (ab_amount x)\<rparr> (dl_unclaimedSends s1)\<rparr>
                  else s1)
        in s2\<lparr>dl_allBlocks := mdel h (dl_allBlocks s2)\<rparr>))"

definition processConflicts :: "int \<Rightarrow> dag_ledger \<Rightarrow> dag_ledger" where
  "processConflicts now s = (case resolveConflicts now (dl_votes s) of ((confirmed, rejected), v) \<Rightarrow>
     fold handleRejectedBlock rejected (s\<lparr>dl_votes := v, dl_confirmed := dl_confirmed s + int (length confirmed),
       dl_pending := dl_pending s - int (length confirmed)\<rparr>))"

section \<open>Queries\<close>

definition dag_getAllBlocks :: "dag_ledger \<Rightarrow> account_block list" where
  "dag_getAllBlocks s = List.map_filter (mget (dl_allBlocks s)) (rev (drop (length (dl_order s) - MAX_BLOCKS_DISPLAY) (dl_order s)))"

fun since_loop :: "(string, account_block) jsmap \<Rightarrow> int \<Rightarrow> string list \<Rightarrow> account_block list" where
  "since_loop m cutoff [] = []"
| "since_loop m cutoff (h # hs) = (case mget m h of
     None \<Rightarrow> since_loop m cutoff hs
   | Some b \<Rightarrow> if ab_timestamp b < cutoff then [] else b # since_loop m cutoff hs)"

definition getBlocksSince :: "dag_ledger \<Rightarrow> int \<Rightarrow> account_block list" where
  "getBlocksSince s cutoff = since_loop (dl_allBlocks s) cutoff (rev (dl_order s))"

definition dag_getUnclaimedForAccount :: "dag_ledger \<Rightarrow> string \<Rightarrow> (string \<times> dag_unclaimed) list" where
  "dag_getUnclaimedForAccount s pub = filter (\<lambda>hu. un_toPub (snd hu) = pub) (dl_unclaimedSends s)"

definition getStorageProviders :: "dag_ledger \<Rightarrow> dag_provider list" where
  "getStorageProviders s = sort_key (\<lambda>p. - dp_score p) (filter (\<lambda>p. dp_capacityGB p > 0) (mvals (dl_providers s)))"

definition dag_checkPublishFeasibility :: "dag_ledger \<Rightarrow> int \<Rightarrow> int \<Rightarrow> nat \<Rightarrow> bool \<times> nat \<times> nat" where
  "dag_checkPublishFeasibility s now fileSize minCopies = (let
     active = filter (\<lambda>p. dp_capacityGB p > 0 \<and> dp_lastHeartbeat p > now - 24 * 60 * 60 * 1000) (mvals (dl_providers s));
     withSpace = filter (\<lambda>p. dp_capacityGB p * of_int DAG_GB_BYTES - dp_lastActualStoredBytes p \<ge> of_int fileSize) active
   in (length withSpace \<ge> minCopies, length withSpace, length active))"

record dag_stats =
  st_totalAccounts :: nat
  st_totalBlocks :: nat
  st_pendingBlocks :: int
  st_confirmedBlocks :: int
  st_tps :: rat

definition dag_getStats :: "int \<Rightarrow> dag_ledger \<Rightarrow> dag_stats \<times> dag_ledger" where
  "dag_getStats now s = (let ts = filter (\<lambda>t. now - t < 10000) (dl_txTimestamps s) in
     (\<lparr>st_totalAccounts = length (dl_accounts s), st_totalBlocks = length (dl_allBlocks s), st_pendingBlocks = dl_pending s,
       st_confirmedBlocks = dl_confirmed s, st_tps = of_nat (length ts) / 10\<rparr>, s\<lparr>dl_txTimestamps := ts\<rparr>))"

definition dag_reset :: "dag_ledger \<Rightarrow> dag_ledger" where
  "dag_reset s = s\<lparr>dl_accountChains := [], dl_allBlocks := [], dl_accounts := [], dl_usernames := [], dl_votes := vm_clear (dl_votes s),
     dl_contracts := [], dl_calls := [], dl_unclaimedSends := [], dl_faceCount := [], dl_providers := [], dl_heartbeats := [],
     dl_order := [], dl_confirmed := 0, dl_pending := 0, dl_txTimestamps := []\<rparr>"

end
