(* ===== verification/Dag_Invariants.thy ===== *)
theory Dag_Invariants
  imports Dag_Ledger
begin

text \<open>
  What every run of the application ledger keeps: the held blocks are authentic, the chains consist
  of held blocks of their account, and a refused block changes nothing but the vote registration.
  The last section is about what \<open>addBlock\<close> does not check.
\<close>

section \<open>What the effects leave alone\<close>

lemma chain_of_cong: "dl_accountChains s' = dl_accountChains s \<Longrightarrow> chain_of s' pub = chain_of s pub"
  by (simp add: chain_of_def)

lemma effect_frames [simp]:
  "dl_allBlocks (unclaimed_effect b s) = dl_allBlocks s" "dl_accountChains (unclaimed_effect b s) = dl_accountChains s"
  "dl_allBlocks (contract_effect b v s) = dl_allBlocks s" "dl_accountChains (contract_effect b v s) = dl_accountChains s"
  "dl_allBlocks (storage_effect now b s) = dl_allBlocks s" "dl_accountChains (storage_effect now b s) = dl_accountChains s"
  "dl_allBlocks (face_effect b s) = dl_allBlocks s" "dl_accountChains (face_effect b s) = dl_accountChains s"
  "dl_allBlocks (update_effect b s) = dl_allBlocks s" "dl_accountChains (update_effect b s) = dl_accountChains s"
  "dl_allBlocks (account_effect b s) = dl_allBlocks s" "dl_accountChains (account_effect b s) = dl_accountChains s"
  "dl_allBlocks (order_effect b s) = dl_allBlocks s" "dl_accountChains (order_effect b s) = dl_accountChains s"
  "dl_allBlocks (count_effect now v s) = dl_allBlocks s" "dl_accountChains (count_effect now v s) = dl_accountChains s"
  by (simp_all add: unclaimed_effect_def contract_effect_def storage_effect_def register_effect_def heartbeat_effect_def face_effect_def
      update_effect_def account_effect_def order_effect_def count_effect_def Let_def split: option.split dag_type.split)

lemma account_frames [simp]:
  "dl_accounts (append_block b s) = dl_accounts s" "dl_accounts (unclaimed_effect b s) = dl_accounts s"
  "dl_accounts (contract_effect b v s) = dl_accounts s" "dl_accounts (storage_effect now b s) = dl_accounts s"
  "dl_accounts (face_effect b s) = dl_accounts s" "dl_accounts (order_effect b s) = dl_accounts s"
  "dl_accounts (pruneAccountChain pub s) = dl_accounts s" "dl_accounts (count_effect now v s) = dl_accounts s"
  by (simp_all add: append_block_def unclaimed_effect_def contract_effect_def storage_effect_def register_effect_def heartbeat_effect_def
      face_effect_def order_effect_def pruneAccountChain_def count_effect_def Let_def split: option.split dag_type.split)

lemma account_effect_pq: "Option.bind (mget (dl_accounts (account_effect b s)) pub) da_pqPub = Option.bind (mget (dl_accounts s) pub) da_pqPub"
  by (simp add: account_effect_def split: option.split)

lemma accept_frames:
  "dl_allBlocks (accept_block now v b s) = dl_allBlocks (pruneAccountChain (ab_accountPub b) (append_block b s))"
  "dl_accountChains (accept_block now v b s) = dl_accountChains (pruneAccountChain (ab_accountPub b) (append_block b s))"
  by (simp_all add: accept_block_def pruneAccountChain_def chain_of_def Let_def)

lemma chain_append: "chain_of (append_block b s) pub = (if pub = ab_accountPub b then chain_of s pub @ [b] else chain_of s pub)"
  by (simp add: append_block_def chain_of_def)

lemma all_append: "mget (dl_allBlocks (append_block b s)) h = (if h = ab_hash b then Some b else mget (dl_allBlocks s) h)"
  by (simp add: append_block_def)

lemma chain_prune: "chain_of (pruneAccountChain pub s) q = (if q = pub then drop (length (chain_of s pub) - MAX_CHAIN_MEMORY) (chain_of s pub) else chain_of s q)"
  by (simp add: pruneAccountChain_def chain_of_def Let_def)

lemma fold_mdel: "mget (fold (\<lambda>b. mdel (f b)) bs m) h = (if h \<in> f ` set bs then None else mget m h)"
  by (induction bs arbitrary: m) auto

lemma all_prune: "mget (dl_allBlocks (pruneAccountChain pub s)) h =
    (if h \<in> ab_hash ` set (take (length (chain_of s pub) - MAX_CHAIN_MEMORY) (chain_of s pub)) then None else mget (dl_allBlocks s) h)"
  by (simp add: pruneAccountChain_def fold_mdel Let_def)

section \<open>The invariant\<close>

definition authentic :: "web_crypto \<Rightarrow> account_block \<Rightarrow> bool" where
  "authentic W b \<longleftrightarrow> hashAccountBlock W b = ab_hash b \<and> verifySignature W (ab_signature b) (ab_accountPub b) = Some (ab_hash b)
     \<and> 0 \<le> ab_balance b \<and> safe_int (ab_balance b)"

definition dag_ok :: "web_crypto \<Rightarrow> dag_ledger \<Rightarrow> bool" where
  "dag_ok W s \<longleftrightarrow> (\<forall>h b. mget (dl_allBlocks s) h = Some b \<longrightarrow> ab_hash b = h \<and> authentic W b)
     \<and> (\<forall>pub. distinct (map ab_hash (chain_of s pub)))
     \<and> (\<forall>pub b. b \<in> set (chain_of s pub) \<longrightarrow> ab_accountPub b = pub \<and> mget (dl_allBlocks s) (ab_hash b) = Some b)"

lemma dag_okD:
  assumes "dag_ok W s"
  shows "mget (dl_allBlocks s) h = Some b \<Longrightarrow> ab_hash b = h \<and> authentic W b" "distinct (map ab_hash (chain_of s pub))"
    "b \<in> set (chain_of s pub) \<Longrightarrow> ab_accountPub b = pub" "b \<in> set (chain_of s pub) \<Longrightarrow> mget (dl_allBlocks s) (ab_hash b) = Some b"
  using assms unfolding dag_ok_def by auto

lemma dag_okI:
  assumes "\<And>h b. mget (dl_allBlocks s) h = Some b \<Longrightarrow> ab_hash b = h \<and> authentic W b" "\<And>pub. distinct (map ab_hash (chain_of s pub))"
    "\<And>pub b. b \<in> set (chain_of s pub) \<Longrightarrow> ab_accountPub b = pub \<and> mget (dl_allBlocks s) (ab_hash b) = Some b"
  shows "dag_ok W s"
  using assms unfolding dag_ok_def by auto

lemma dag_ok_cong:
  "dl_allBlocks s' = dl_allBlocks s \<Longrightarrow> dl_accountChains s' = dl_accountChains s \<Longrightarrow> dag_ok W s \<Longrightarrow> dag_ok W s'"
  unfolding dag_ok_def chain_of_def by simp

text \<open>Taking blocks of one account out of its chain and out of the index keeps the invariant.\<close>

lemma dag_ok_remove:
  assumes "dag_ok W s" "\<And>q. q \<noteq> pub \<Longrightarrow> chain_of s' q = chain_of s q"
    "set (chain_of s' pub) \<subseteq> {b \<in> set (chain_of s pub). ab_hash b \<notin> gone}" "distinct (map ab_hash (chain_of s' pub))"
    "\<And>h. mget (dl_allBlocks s') h = (if h \<in> gone then None else mget (dl_allBlocks s) h)"
    "\<And>h b. h \<in> gone \<Longrightarrow> mget (dl_allBlocks s) h = Some b \<Longrightarrow> ab_accountPub b = pub"
  shows "dag_ok W s'"
proof (rule dag_okI)
  note ok = dag_okD [OF assms(1)]
  show "ab_hash b = h \<and> authentic W b" if "mget (dl_allBlocks s') h = Some b" for h b
    using that ok(1) [of h b] assms(5) [of h] by (simp split: if_splits)
  show "distinct (map ab_hash (chain_of s' q))" for q
    using ok(2) [of q] assms(2) [of q] assms(4) by (cases "q = pub") auto
  show "ab_accountPub b = q \<and> mget (dl_allBlocks s') (ab_hash b) = Some b" if b: "b \<in> set (chain_of s' q)" for q b
  proof (cases "q = pub")
    case True
    with b assms(3) have "b \<in> set (chain_of s pub)" "ab_hash b \<notin> gone" by auto
    with ok(3,4) True assms(5) show ?thesis by simp
  next
    case False
    with b assms(2) have c: "b \<in> set (chain_of s q)" by simp
    from ok(3,4) [OF c] have "ab_accountPub b = q" "mget (dl_allBlocks s) (ab_hash b) = Some b" by simp_all
    with False assms(5,6) show ?thesis by auto
  qed
qed

lemma authentic_checked:
  assumes "block_check W now b s = Valid"
  shows "authentic W b"
proof -
  have "hashAccountBlock W b = ab_hash b" "verifySignature W (ab_signature b) (ab_accountPub b) = Some (ab_hash b)"
    and v: "\<exists>p. validateBlockStructure b p = Valid"
    using assms by (auto simp: block_check_def dag_verifyBlockSignature_def split: if_splits verdict.splits)
  moreover from v have "0 \<le> ab_balance b \<and> safe_int (ab_balance b)"
    by (auto simp: validateBlockStructure_def split: if_splits)
  ultimately show ?thesis unfolding authentic_def by blast
qed

lemma append_ok:
  assumes "dag_ok W s" "authentic W b" "mget (dl_allBlocks s) (ab_hash b) = None"
  shows "dag_ok W (append_block b s)"
proof (rule dag_okI)
  note ok = dag_okD [OF assms(1)]
  show "ab_hash c = h \<and> authentic W c" if "mget (dl_allBlocks (append_block b s)) h = Some c" for h c
    using that ok(1) assms(2) by (auto simp: all_append split: if_splits)
  have "ab_hash b \<notin> ab_hash ` set (chain_of s pub)" for pub
    using ok(4) assms(3) by fastforce
  then show "distinct (map ab_hash (chain_of (append_block b s) pub))" for pub
    using ok(2) by (simp add: chain_append)
  show "ab_accountPub c = pub \<and> mget (dl_allBlocks (append_block b s)) (ab_hash c) = Some c"
    if "c \<in> set (chain_of (append_block b s) pub)" for pub c
    using that ok(3,4) assms(3) by (fastforce simp: chain_append all_append split: if_splits)
qed

lemma prune_ok:
  assumes "dag_ok W s" shows "dag_ok W (pruneAccountChain pub s)"
proof -
  note ok = dag_okD [OF assms]
  let ?n = "length (chain_of s pub) - MAX_CHAIN_MEMORY"
  let ?gone = "ab_hash ` set (take ?n (chain_of s pub))"
  have "distinct (map ab_hash (take ?n (chain_of s pub)) @ map ab_hash (drop ?n (chain_of s pub)))"
    using ok(2) [of pub] by (metis append_take_drop_id map_append)
  then have sep: "set (drop ?n (chain_of s pub)) \<subseteq> {b \<in> set (chain_of s pub). ab_hash b \<notin> ?gone}" "distinct (map ab_hash (drop ?n (chain_of s pub)))"
    using set_drop_subset [of ?n "chain_of s pub"] by auto
  have "ab_accountPub b = pub" if "h \<in> ?gone" "mget (dl_allBlocks s) h = Some b" for h b
  proof -
    from that(1) obtain c where "c \<in> set (chain_of s pub)" "h = ab_hash c" by (auto dest: in_set_takeD)
    with ok(3,4) that(2) show ?thesis by auto
  qed
  with sep show ?thesis
    by (intro dag_ok_remove [OF assms, of pub _ ?gone]) (simp_all add: chain_prune all_prune)
qed

lemma addBlock_ok:
  assumes "dag_ok W s" shows "dag_ok W (snd (dag_addBlock W now b s))"
proof (cases "mhas (dl_allBlocks s) (ab_hash b)")
  case False
  then have none: "mget (dl_allBlocks s) (ab_hash b) = None" by (simp add: mhas_def)
  obtain r v where reg: "vm_register (ab_hash b) (ab_previousHash b) (ab_accountPub b) now (dl_votes s) = (r, v)"
    by (cases "vm_register (ab_hash b) (ab_previousHash b) (ab_accountPub b) now (dl_votes s)")
  have s1: "dag_ok W (s\<lparr>dl_votes := v\<rparr>)"
    using assms by (rule dag_ok_cong [rotated 2]) simp_all
  show ?thesis
  proof (cases "block_check W now b s")
    case Valid
    have "dag_ok W (pruneAccountChain (ab_accountPub b) (append_block b (s\<lparr>dl_votes := v\<rparr>)))"
      using none by (intro prune_ok append_ok s1 authentic_checked [OF Valid]) simp
    then have "dag_ok W (accept_block now r b (s\<lparr>dl_votes := v\<rparr>))"
      by (rule dag_ok_cong [OF accept_frames])
    with s1 False show ?thesis
      by (simp add: dag_addBlock_def finish_add_def Valid reg Let_def)
  next
    case (Invalid e)
    with False assms show ?thesis by (simp add: dag_addBlock_def finish_add_def)
  qed
qed (use assms in \<open>simp add: dag_addBlock_def\<close>)

lemma remove_first_sub: "set (remove_first P xs) \<subseteq> set xs"
  using set_dropWhileD [of _ "\<lambda>x. \<not> P x" xs] by (auto simp: remove_first_def dest: set_takeWhileD) (metis list.sel(2) list.set_sel(2))

lemma remove_first_hash:
  assumes "distinct (map f xs)"
  shows "set (remove_first (\<lambda>x. f x = h) xs) = {x \<in> set xs. f x \<noteq> h}" "distinct (map f (remove_first (\<lambda>x. f x = h) xs))"
  using assms
proof (induction xs)
  case (Cons x xs)
  { case 1
    have "remove_first (\<lambda>x. f x = h) (x # xs) = (if f x = h then xs else x # remove_first (\<lambda>x. f x = h) xs)"
      by (simp add: remove_first_def)
    with 1 Cons.IH(1) show ?case by (force simp: image_iff)
  next
    case 2
    have "remove_first (\<lambda>x. f x = h) (x # xs) = (if f x = h then xs else x # remove_first (\<lambda>x. f x = h) xs)"
      by (simp add: remove_first_def)
    with 2 Cons.IH(2) remove_first_sub [of "\<lambda>x. f x = h" xs] show ?case by (auto simp: image_iff)
  }
qed (simp_all add: remove_first_def)

lemma rejected_frames:
  assumes "mget (dl_allBlocks s) h = Some b"
  shows "dl_allBlocks (handleRejectedBlock h s) = mdel h (dl_allBlocks s)"
    "dl_accountChains (handleRejectedBlock h s) = (if mhas (dl_accountChains s) (ab_accountPub b)
       then mset_at (ab_accountPub b) (remove_first (\<lambda>x. ab_hash x = h) (chain_of s (ab_accountPub b))) (dl_accountChains s)
       else dl_accountChains s)"
  using assms by (simp_all add: handleRejectedBlock_def Let_def split: option.split)

lemma rejected_ok:
  assumes "dag_ok W s" shows "dag_ok W (handleRejectedBlock h s)"
proof (cases "mget (dl_allBlocks s) h")
  case (Some b)
  note ok = dag_okD [OF assms] and fr = rejected_frames [OF Some]
  have ch: "chain_of (handleRejectedBlock h s) q = (if q = ab_accountPub b then remove_first (\<lambda>x. ab_hash x = h) (chain_of s q) else chain_of s q)" for q
    by (auto simp: chain_of_def fr mhas_def remove_first_def)
  show ?thesis
    using ok(1) [OF Some] Some
    by (intro dag_ok_remove [OF assms, of "ab_accountPub b" _ "{h}"])
      (auto simp: ch fr remove_first_hash [OF ok(2)])
qed (use assms in \<open>simp add: handleRejectedBlock_def\<close>)

lemma conflicts_ok:
  assumes "dag_ok W s" shows "dag_ok W (processConflicts now s)"
proof -
  obtain cs rs v where r: "resolveConflicts now (dl_votes s) = ((cs, rs), v)"
    by (metis prod.exhaust)
  have "dag_ok W (fold handleRejectedBlock rs t)" if "dag_ok W t" for t
    using that by (induction rs arbitrary: t) (simp_all add: rejected_ok)
  moreover have "dag_ok W (s\<lparr>dl_votes := v, dl_confirmed := c, dl_pending := p\<rparr>)" for c p
    using assms by (rule dag_ok_cong [rotated 2]) simp_all
  ultimately show ?thesis by (simp add: processConflicts_def r)
qed

lemma purge_frames:
  "dl_accountChains (fold purge_block bs s) = dl_accountChains s"
  "mget (dl_allBlocks (fold purge_block bs s)) h = (if h \<in> ab_hash ` set bs then None else mget (dl_allBlocks s) h)"
  by (induction bs arbitrary: s) (auto simp: purge_block_def)

lemma purge_ok:
  assumes "dag_ok W s" shows "dag_ok W (dag_purgeAccount pub s)"
proof (cases "mget (dl_accounts s) pub")
  case (Some a)
  note ok = dag_okD [OF assms]
  let ?gone = "ab_hash ` set (chain_of s pub)"
  have ch: "chain_of (dag_purgeAccount pub s) q = (if q = pub then [] else chain_of s q)" for q
    by (simp add: dag_purgeAccount_def Some Let_def chain_of_def purge_frames)
  have al: "mget (dl_allBlocks (dag_purgeAccount pub s)) h = (if h \<in> ?gone then None else mget (dl_allBlocks s) h)" for h
    by (simp add: dag_purgeAccount_def Some Let_def chain_of_def purge_frames)
  have "ab_accountPub b = pub" if "h \<in> ?gone" "mget (dl_allBlocks s) h = Some b" for h b
    using that ok(3,4) by fastforce
  then show ?thesis
    by (intro dag_ok_remove [OF assms, of pub _ ?gone]) (simp_all add: ch al)
qed (use assms in \<open>simp add: dag_purgeAccount_def\<close>)

section \<open>Runs\<close>

datatype dag_op =
    DoAdd int account_block
  | DoVote int app_vote
  | DoConflicts int
  | DoRegister dag_account
  | DoPurge string
  | DoRebuild
  | DoRefresh int
  | DoStats int
  | DoReset

fun dag_step :: "web_crypto \<Rightarrow> dag_op \<Rightarrow> dag_ledger \<Rightarrow> dag_ledger" where
  "dag_step W (DoAdd now b) s = snd (dag_addBlock W now b s)"
| "dag_step W (DoVote now v) s = castVote now v s"
| "dag_step W (DoConflicts now) s = processConflicts now s"
| "dag_step W (DoRegister a) s = snd (dag_registerAccount a s)"
| "dag_step W (DoPurge pub) s = dag_purgeAccount pub s"
| "dag_step W DoRebuild s = rebuildFaceAccountCount s"
| "dag_step W (DoRefresh now) s = refreshHeartbeatCounts now s"
| "dag_step W (DoStats now) s = snd (dag_getStats now s)"
| "dag_step W DoReset s = dag_reset s"

lemma step_ok: "dag_ok W s \<Longrightarrow> dag_ok W (dag_step W x s)"
proof (cases x)
  case (DoVote now v)
  assume "dag_ok W s"
  then show ?thesis
    by (rule dag_ok_cong [rotated 2]) (simp_all add: DoVote castVote_def split: option.split)
next
  case (DoRegister a)
  assume "dag_ok W s"
  then show ?thesis
    by (rule dag_ok_cong [rotated 2]) (simp_all add: DoRegister dag_registerAccount_def Let_def split: option.split)
next
  case DoRebuild
  assume "dag_ok W s"
  then show ?thesis
    by (rule dag_ok_cong [rotated 2]) (simp_all add: DoRebuild rebuildFaceAccountCount_def)
next
  case (DoRefresh now)
  assume "dag_ok W s"
  then show ?thesis
    by (rule dag_ok_cong [rotated 2]) (simp_all add: DoRefresh refreshHeartbeatCounts_def)
next
  case (DoStats now)
  assume "dag_ok W s"
  then show ?thesis
    by (rule dag_ok_cong [rotated 2]) (simp_all add: DoStats dag_getStats_def Let_def)
next
  case DoReset
  then show ?thesis by (simp add: dag_ok_def dag_reset_def chain_of_def)
qed (simp_all add: addBlock_ok conflicts_ok purge_ok)

lemma dag_run_ok: "dag_ok W (fold (dag_step W) ops (new_dag mainnet))"
proof -
  have "dag_ok W (new_dag mainnet)" by (simp add: dag_ok_def new_dag_def chain_of_def)
  then show ?thesis
  proof (induction ops arbitrary: mainnet rule: rev_induct)
    case (snoc x ops)
    then show ?case by (simp add: step_ok)
  qed simp
qed

section \<open>What a call of \<open>addBlock\<close> does\<close>

lemma refused_block:
  assumes "dag_addBlock W now b s = (Invalid e, s')"
  shows "s' = s\<lparr>dl_votes := dl_votes s'\<rparr>"
    "dl_votes s' \<noteq> dl_votes s \<Longrightarrow> ab_type b = DOpen \<and> mhas (dl_accountChains s) (ab_accountPub b)"
  using assms by (auto simp: dag_addBlock_def finish_add_def Let_def split: if_splits verdict.splits prod.splits)

lemma last_opt_drop: "n < length xs \<Longrightarrow> last_opt (drop n xs) = last_opt xs"
  by (cases xs) (auto simp: last_opt_def)

lemma accepted_block:
  assumes "block_check W now b s = Valid" "\<not> mhas (dl_allBlocks s) (ab_hash b)"
    "ab_type b = DOpen \<longrightarrow> \<not> mhas (dl_accountChains s) (ab_accountPub b)"
  shows "fst (dag_addBlock W now b s) = Valid"
    "dag_getAccountHead (snd (dag_addBlock W now b s)) (ab_accountPub b) = Some b"
    "pub \<noteq> ab_accountPub b \<Longrightarrow> chain_of (snd (dag_addBlock W now b s)) pub = chain_of s pub"
    "length (chain_of s (ab_accountPub b)) < MAX_CHAIN_MEMORY \<Longrightarrow>
       mget (dl_allBlocks (snd (dag_addBlock W now b s))) = (mget (dl_allBlocks s))(ab_hash b \<mapsto> b)
       \<and> chain_of (snd (dag_addBlock W now b s)) (ab_accountPub b) = chain_of s (ab_accountPub b) @ [b]"
    "ab_type b \<noteq> DUpdate \<Longrightarrow> Option.bind (mget (dl_accounts (snd (dag_addBlock W now b s))) pub) da_pqPub = Option.bind (mget (dl_accounts s) pub) da_pqPub"
proof -
  obtain r v where reg: "vm_register (ab_hash b) (ab_previousHash b) (ab_accountPub b) now (dl_votes s) = (r, v)"
    by (cases "vm_register (ab_hash b) (ab_previousHash b) (ab_accountPub b) now (dl_votes s)")
  let ?s = "s\<lparr>dl_votes := v\<rparr>"
  have add: "dag_addBlock W now b s = (Valid, accept_block now r b ?s)"
    using assms reg by (simp add: dag_addBlock_def finish_add_def Let_def)
  have ch: "chain_of (accept_block now r b ?s) q = chain_of (pruneAccountChain (ab_accountPub b) (append_block b ?s)) q" for q
    by (simp add: chain_of_def accept_frames)
  have old: "chain_of ?s q = chain_of s q" for q by (simp add: chain_of_def)
  have pos: "0 < MAX_CHAIN_MEMORY" by (simp add: MAX_CHAIN_MEMORY_def)
  show "fst (dag_addBlock W now b s) = Valid" by (simp add: add)
  have "last_opt (chain_of (accept_block now r b ?s) (ab_accountPub b)) = Some b"
    unfolding ch chain_prune chain_append old using pos by (simp add: last_opt_drop)
  then show "dag_getAccountHead (snd (dag_addBlock W now b s)) (ab_accountPub b) = Some b"
    by (simp add: add dag_getAccountHead_def chain_of_def)
  show "pub \<noteq> ab_accountPub b \<Longrightarrow> chain_of (snd (dag_addBlock W now b s)) pub = chain_of s pub"
    by (simp add: add ch chain_prune chain_append old)
  show "length (chain_of s (ab_accountPub b)) < MAX_CHAIN_MEMORY \<Longrightarrow>
       mget (dl_allBlocks (snd (dag_addBlock W now b s))) = (mget (dl_allBlocks s))(ab_hash b \<mapsto> b)
       \<and> chain_of (snd (dag_addBlock W now b s)) (ab_accountPub b) = chain_of s (ab_accountPub b) @ [b]"
    by (auto simp: add ch chain_prune chain_append old accept_frames all_prune all_append)
  show "ab_type b \<noteq> DUpdate \<Longrightarrow> Option.bind (mget (dl_accounts (snd (dag_addBlock W now b s))) pub) da_pqPub = Option.bind (mget (dl_accounts s) pub) da_pqPub"
    by (simp add: add accept_block_def account_effect_pq update_effect_def)
qed

section \<open>What \<open>addBlock\<close> does not check\<close>

text \<open>A block whose hash and signatures verify and which the ledger does not hold.\<close>

definition owner_signed :: "web_crypto \<Rightarrow> dag_ledger \<Rightarrow> account_block \<Rightarrow> bool" where
  "owner_signed W s b \<longleftrightarrow> hashAccountBlock W b = ab_hash b \<and> mget (dl_allBlocks s) (ab_hash b) = None
     \<and> dag_verifyBlockSignature W b (Option.bind (mget (dl_accounts s) (ab_accountPub b)) da_pqPub)"

text \<open>A receive block on top of another one, for the same transfer and amount.\<close>

definition claims_again :: "account_block \<Rightarrow> account_block \<Rightarrow> bool" where
  "claims_again r q \<longleftrightarrow> ab_type r = DReceive \<and> ab_type q = DReceive \<and> ab_accountPub q = ab_accountPub r
     \<and> ab_sendBlockHash q = ab_sendBlockHash r \<and> ab_receiveAmount q = ab_receiveAmount r \<and> ab_previousHash q = ab_hash r
     \<and> ab_index q = ab_index r + 1 \<and> ab_balance q = ab_balance r + nvl (ab_receiveAmount r) 0 \<and> safe_int (ab_balance q)"

lemma receive_checked:
  assumes "block_check W now r s = Valid" "ab_type r = DReceive"
  shows "check_source s r = Valid" "truthy (ab_sendBlockHash r)" "\<exists>a. ab_receiveAmount r = Some a \<and> 0 < a \<and> safe_int a"
    "0 \<le> ab_balance r" "\<exists>x. mget (dl_allBlocks s) (the (ab_sendBlockHash r)) = Some x"
proof -
  have v: "validateBlockStructure r (mget (dl_allBlocks s) (ab_previousHash r)) = Valid"
    and c: "check_source s r = Valid"
    using assms by (auto simp: block_check_def split: if_splits verdict.splits)
  show "check_source s r = Valid" by (rule c)
  from v assms(2) show t: "truthy (ab_sendBlockHash r)" and "\<exists>a. ab_receiveAmount r = Some a \<and> 0 < a \<and> safe_int a" and "0 \<le> ab_balance r"
    by (auto simp: validateBlockStructure_def check_receive_def split: if_splits option.splits)
  from t c show "\<exists>x. mget (dl_allBlocks s) (the (ab_sendBlockHash r)) = Some x"
    by (auto simp: check_source_def truthy_iff split: option.splits)
qed

lemma second_claim_checked:
  assumes "block_check W now r s = Valid" "mget (dl_allBlocks s) (ab_hash r) = None" "claims_again r q"
    "mget (dl_allBlocks s') = (mget (dl_allBlocks s))(ab_hash r \<mapsto> r)" "owner_signed W s' q"
  shows "block_check W now' q s' = Valid"
proof -
  have c: "ab_type r = DReceive" "ab_type q = DReceive" "ab_accountPub q = ab_accountPub r" "ab_sendBlockHash q = ab_sendBlockHash r"
    "ab_receiveAmount q = ab_receiveAmount r" "ab_previousHash q = ab_hash r" "ab_index q = ab_index r + 1"
    "ab_balance q = ab_balance r + nvl (ab_receiveAmount r) 0" "safe_int (ab_balance q)"
    using assms(3) by (auto simp: claims_again_def)
  note r = receive_checked [OF assms(1) c(1)]
  obtain a where a: "ab_receiveAmount r = Some a" "0 < a" "safe_int a" using r(3) by blast
  obtain x where x: "mget (dl_allBlocks s) (the (ab_sendBlockHash r)) = Some x" using r(5) by blast
  have ne: "the (ab_sendBlockHash r) \<noteq> ab_hash r" using x assms(2) by auto
  have "validateBlockStructure q (Some r) = Valid"
    using c a r(2,4) by (simp add: validateBlockStructure_def check_receive_def)
  moreover have "check_source s' q = Valid"
  proof -
    have "nvl (ab_sendBlockHash r) '''' \<noteq> ab_hash r"
      using r(2) ne by (auto simp: truthy_iff)
    then have "mget (dl_allBlocks s') (nvl (ab_sendBlockHash r) '''') = mget (dl_allBlocks s) (nvl (ab_sendBlockHash r) '''')"
      unfolding assms(4) by simp
    then have "check_source s' q = check_source s r"
      unfolding check_source_def c(3-5) by presburger
    with r(1) show ?thesis by simp
  qed
  ultimately show ?thesis
    using assms(4,5) c(2,6) by (simp add: block_check_def owner_signed_def)
qed

text \<open>A send whose parent is any block that the ledger holds.\<close>

definition sends_from :: "account_block \<Rightarrow> account_block \<Rightarrow> int \<Rightarrow> bool" where
  "sends_from p b a \<longleftrightarrow> ab_type b = DSend \<and> truthy (ab_recipient b) \<and> ab_amount b = Some a \<and> 0 < a \<and> a \<le> ab_balance p
     \<and> ab_previousHash b = ab_hash p \<and> ab_index b = ab_index p + 1 \<and> ab_balance b = ab_balance p - a"

lemma foreign_send_checked:
  assumes "mget (dl_allBlocks s) (ab_hash p) = Some p" "safe_int (ab_balance p)" "sends_from p b a" "owner_signed W s b"
  shows "block_check W now b s = Valid"
proof -
  have "validateBlockStructure b (Some p) = Valid"
    using assms(2,3) by (auto simp: sends_from_def validateBlockStructure_def check_send_def)
  with assms show ?thesis
    by (auto simp: block_check_def owner_signed_def sends_from_def)
qed

text \<open>One credential, presented three times, is enough on the main network.\<close>

lemma one_relay_thrice:
  assumes "verifySignature W (rl_sig c) (rl_relayPub c) = ab_faceMapHash b" "ab_faceMapHash b \<noteq> None" "ab_relayCredentials b = Some [c, c, c]"
  shows "check_credentials W s b = Valid"
  using assms by (simp add: check_credentials_def valid_credentials_def)

text \<open>A gossiped account record of a known key takes over the name of another account.\<close>

lemma name_taken_over:
  assumes "mget (dl_accounts s) (da_pub a) = Some e" "da_username a \<noteq> []" "da_username a \<noteq> da_username e" "da_username a \<noteq> da_pub a"
    "mget (dl_usernames s) (da_username a) = Some victim" "mget (dl_accounts s) (da_username a) = None"
  shows "dag_resolveToPublicKey (snd (dag_registerAccount a s)) (da_username a) = Some (da_pub a)"
  using assms by (simp add: dag_registerAccount_def dag_resolveToPublicKey_def Let_def mhas_def)

lemma accepted_checked:
  assumes "fst (dag_addBlock W now b s) = Valid" "mget (dl_allBlocks s) (ab_hash b) = None"
  shows "block_check W now b s = Valid"
  using assms by (auto simp: dag_addBlock_def finish_add_def mhas_def split: verdict.splits)

lemma head_balance: "dag_getAccountHead s pub = Some b \<Longrightarrow> dag_getAccountBalance s pub = ab_balance b"
  by (simp add: dag_getAccountBalance_def)

lemma balance_cong: "chain_of s' pub = chain_of s pub \<Longrightarrow> dag_getAccountBalance s' pub = dag_getAccountBalance s pub"
  by (simp add: dag_getAccountBalance_def dag_getAccountHead_def chain_of_def)

end
