(* ===== verification/App_Properties.thy ===== *)
theory App_Properties
  imports Dag_Invariants
begin

text \<open>
  The properties of the application core (\<open>src/core\<close>): the parser that its payloads and envelopes go
  through, the vote on conflicting blocks, and the block lattice.
\<close>

text \<open>C29: Over any run of registrations, votes and resolutions in which a hash belongs to one place
  of one chain and stakes are not negative, a place never has two confirmed blocks, and the
  counters of an open tally are the sums of the votes it holds.\<close>

theorem fork_one_winner:
  assumes "list_all (placed_op place) ops"
  shows "inj_on place (vm_confirmed (fold vote_step ops new_votes)) \<and>
    (\<forall>h t. mget (vm_tallies (fold vote_step ops new_votes)) h = Some t \<longrightarrow>
       ta_total t = ta_approve t + ta_reject t \<and> ta_voters t = int (length (ta_votes t))
       \<and> ta_approve t = vote_sum (\<lambda>v. vt_abstain v \<noteq> Some True \<and> vt_approve v) t
       \<and> ta_reject t = vote_sum (\<lambda>v. vt_abstain v \<noteq> Some True \<and> \<not> vt_approve v) t)"
proof (intro conjI allI impI)
  note inv = votes_invD [OF vote_run_inv [OF assms]]
  show "inj_on place (vm_confirmed (fold vote_step ops new_votes))"
    using inv(4) by (intro inj_onI)
  fix h t
  assume "mget (vm_tallies (fold vote_step ops new_votes)) h = Some t"
  note ok = inv(2) [OF this, unfolded tally_ok_def]
  show "ta_total t = ta_approve t + ta_reject t" "ta_voters t = int (length (ta_votes t))"
    "ta_approve t = vote_sum (\<lambda>v. vt_abstain v \<noteq> Some True \<and> vt_approve v) t"
    "ta_reject t = vote_sum (\<lambda>v. vt_abstain v \<noteq> Some True \<and> \<not> vt_approve v) t"
    using ok by blast+
qed

definition fork_run :: "vote_op list" where
  "fork_run = [VoRegister ''a'' ''p'' ''A'' 0, VoRegister ''b'' ''p'' ''A'' 1,
     VoVote \<lparr>vt_blockHash = ''b'', vt_voterPub = ''v'', vt_approve = True, vt_stake = 5, vt_timestamp = 2,
       vt_signature = ''s'', vt_chainHead = None, vt_abstain = None\<rparr> 2, VoResolve 3]"

lemma fork_run_result:
  "fold vote_step fork_run new_votes = \<lparr>vm_confirmed = {''b''}, vm_rejected = {''a''},
     vm_parents = [(''A:p'', [''a'', ''b''])], vm_tallies = [], vm_seen = [''s'']\<rparr>"
  unfolding fork_run_def
  by (simp add: vm_register_def Let_def new_votes_def parent_key_def mhas_def mset_at_def sadd_def open_tally_def new_tally_def
    addVote_def remember_sig_def count_vote_def VOTE_MAX_AGE_MS_def MAX_SEEN_SIGS_def resolveConflicts_def resolve_one_def
    mvals_def vm_best_step_def decides_def CONFLICT_RESOLVE_THRESHOLD_def settle_fork_def mdel_def insert_Diff_if)

theorem fork_one_winner_witness:
  "inj_on (\<lambda>h. ''A:p'') (vm_confirmed (fold vote_step fork_run new_votes)) \<and> vm_confirmed (fold vote_step fork_run new_votes) = {''b''}
   \<and> (let s = fold vote_step (butlast fork_run) new_votes in \<forall>t \<in> set_option (mget (vm_tallies s) ''b''). ta_total t = ta_approve t + ta_reject t)"
proof -
  have p: "list_all (placed_op (\<lambda>h. ''A:p'')) fork_run" "list_all (placed_op (\<lambda>h. ''A:p'')) (butlast fork_run)"
    by (simp_all add: fork_run_def parent_key_def)
  from fork_one_winner [OF p(1)] fork_one_winner [OF p(2)] show ?thesis
    by (simp add: fork_run_result Let_def)
qed

text \<open>\<open>JSON.parse\<close> reads the canonical text of every value whose objects have no key twice as that value,
  with the members in the printed order.\<close>

theorem canonical_text_parsed:
  assumes "distinct_keys v"
  shows "JSON_parse (canonicalJson v) = Some (of_json (sortValue v))"
  using assms by (rule parse_canonical)

theorem canonical_text_parsed_witness:
  "JSON_parse (canonicalJson (JObj [(''b'', JNum 2), (''a'', JArr [JStr ''x'', JNull])]))
     = Some (VObj [(''a'', VArr [VStr ''x'', VNull]), (''b'', VNum 2)])"
proof -
  have "of_json (sortValue (JObj [(''b'', JNum 2), (''a'', JArr [JStr ''x'', JNull])])) = VObj [(''a'', VArr [VStr ''x'', VNull]), (''b'', VNum 2)]"
    by code_simp
  with canonical_text_parsed [of "JObj [(''b'', JNum 2), (''a'', JArr [JStr ''x'', JNull])]"] show ?thesis
    by (simp del: sortValue.simps of_json.simps)
qed


definition demo_web :: web_crypto where
  "demo_web = \<lparr>wc_atob = (\<lambda>s. Some ''{}''), wc_btoa = (\<lambda>s. ''''), wc_utf8 = (\<lambda>s. bin_bytes (take 1 (drop 5 s))), wc_text = bin_str,
     wc_sha256 = id, wc_sign = (\<lambda>k m. Some []), wc_verify = (\<lambda>k s m. Some True),
     wc_pbkdf2 = (\<lambda>h i salt m. m), wc_aes_encrypt = (\<lambda>k iv d. d), wc_aes_decrypt = (\<lambda>k iv d. Some d),
     wc_mldsa_sign = (\<lambda>m k. Some []), wc_mldsa_verify = (\<lambda>s m k. Some True)\<rparr>"

definition demo_sign :: "account_block \<Rightarrow> account_block" where
  "demo_sign b = (let h = hashAccountBlock demo_web b in
     b\<lparr>ab_hash := h, ab_signature := stringify (JObj [(''d'', JStr h), (''s'', JStr '''')])\<rparr>)"

definition demo_open :: account_block where
  "demo_open = demo_sign ((blank_block ''A'' 0 DOpen (replicate 64 (CHR ''0'')) VERIFICATION_MINT_AMOUNT)
     \<lparr>ab_faceMapHash := Some ''f'', ab_relayCredentials := Some [\<lparr>rl_relayPub = ''R'', rl_sig = stringify (JObj [(''d'', JStr ''f''), (''s'', JStr '''')])\<rparr>]\<rparr>)"

definition demo_send :: account_block where
  "demo_send = demo_sign ((blank_block ''A'' 1 DSend ''30'' 999999995)\<lparr>ab_recipient := Some ''A'', ab_amount := Some 5\<rparr>)"

definition demo_claim :: "int \<Rightarrow> string \<Rightarrow> int \<Rightarrow> account_block" where
  "demo_claim i prev bal = demo_sign ((blank_block ''A'' i DReceive prev bal)
     \<lparr>ab_sendBlockHash := Some ''31'', ab_sendFrom := Some ''A'', ab_receiveAmount := Some 5\<rparr>)"

lemma demo_hash:
  assumes "ab_accountPub b = [c]" "escape_char c = [c]"
  shows "hashAccountBlock demo_web b = hex_byte (of_nat (of_char (hd (int_str (ab_index b)))))"
proof -
  obtain r where "stringify (hashed_fields b) = [CHR ''['', CHR 0x22, c, CHR 0x22, CHR '',''] @ int_str (ab_index b) @ r"
    using assms by (simp add: hashed_fields_def json_quote_def)
  moreover obtain d ds where "int_str (ab_index b) = d # ds"
    using int_str_nonempty by (cases "int_str (ab_index b)") auto
  ultimately show ?thesis
    by (simp add: hashAccountBlock_def demo_web_def bytesToHex_def bin_bytes_def)
qed

lemma demo_digits:
  "hex_byte (of_nat (of_char (hd (int_str 0)))) = ''30''" "hex_byte (of_nat (of_char (hd (int_str 1)))) = ''31''"
  "hex_byte (of_nat (of_char (hd (int_str 2)))) = ''32''" "hex_byte (of_nat (of_char (hd (int_str 3)))) = ''33''"
  "escape_char (CHR ''A'') = ''A''" "escape_char (CHR ''B'') = ''B''"
  by code_simp+

lemma demo_sign_hash [simp]:
  "ab_hash (demo_sign b) = hashAccountBlock demo_web b" "hashAccountBlock demo_web (demo_sign b) = hashAccountBlock demo_web b"
  by (simp_all add: demo_sign_def hashAccountBlock_def hashed_fields_def Let_def)

lemma demo_verify: "verifySignature demo_web (stringify (JObj [(''d'', JStr h), (''s'', JStr '''')])) pub = Some h"
proof -
  have "importVerifyPub demo_web pub = Some [(''key_ops'', VArr [VStr ''verify''])]"
    by (simp add: importVerifyPub_def demo_web_def) code_simp
  then show ?thesis
    using parse_stringify [OF envelope_wf, of h "''''"]
    by (simp add: verifySignature_def str_member_def js_member_def b64ToBuf_def demo_web_def del: stringify.simps)
qed

text \<open>C26: A transfer can be received again and again: \<open>addBlock\<close> looks for the send block but not for
  its claim, so a second receive block of the recipient for the same send, on top of the first one, is accepted
  and raises the balance by the same amount once more.\<close>

theorem send_claimed_again:
  assumes "mget (dl_allBlocks s) (ab_hash r) = None" "fst (dag_addBlock W now r s) = Valid" "claims_again r q"
    "owner_signed W (snd (dag_addBlock W now r s)) q" "length (chain_of s (ab_accountPub r)) < MAX_CHAIN_MEMORY"
  shows "fst (dag_addBlock W now' q (snd (dag_addBlock W now r s))) = Valid
     \<and> dag_getAccountBalance (snd (dag_addBlock W now' q (snd (dag_addBlock W now r s)))) (ab_accountPub r)
        = dag_getAccountBalance (snd (dag_addBlock W now r s)) (ab_accountPub r) + nvl (ab_receiveAmount r) 0"
proof -
  have c: "ab_type r = DReceive" "ab_type q = DReceive" "ab_accountPub q = ab_accountPub r" "ab_balance q = ab_balance r + nvl (ab_receiveAmount r) 0"
    using assms(3) by (auto simp: claims_again_def)
  note b1 = accepted_checked [OF assms(2,1)]
  have f1: "\<not> mhas (dl_allBlocks s) (ab_hash r)" using assms(1) by (simp add: mhas_def)
  note r = accepted_block [OF b1 f1]
  let ?s = "snd (dag_addBlock W now r s)"
  have b2: "block_check W now' q ?s = Valid"
    using r(4) c(1) assms(5) by (intro second_claim_checked [OF b1 assms(1,3) _ assms(4)]) simp
  have f2: "\<not> mhas (dl_allBlocks ?s) (ab_hash q)" using assms(4) by (simp add: owner_signed_def mhas_def)
  note q = accepted_block [OF b2 f2]
  from q(1,2) r(2) c show ?thesis by (simp add: head_balance)
qed

lemma demo_sign_fields [simp]:
  "ab_signature (demo_sign b) = stringify (JObj [(''d'', JStr (hashAccountBlock demo_web b)), (''s'', JStr '''')])"
  "ab_accountPub (demo_sign b) = ab_accountPub b" "ab_index (demo_sign b) = ab_index b" "ab_type (demo_sign b) = ab_type b"
  "ab_previousHash (demo_sign b) = ab_previousHash b" "ab_balance (demo_sign b) = ab_balance b" "ab_recipient (demo_sign b) = ab_recipient b"
  "ab_amount (demo_sign b) = ab_amount b" "ab_sendBlockHash (demo_sign b) = ab_sendBlockHash b" "ab_receiveAmount (demo_sign b) = ab_receiveAmount b"
  "ab_faceMapHash (demo_sign b) = ab_faceMapHash b" "ab_relayCredentials (demo_sign b) = ab_relayCredentials b"
  by (simp_all add: demo_sign_def Let_def del: stringify.simps)

lemma demo_signed: "dag_verifyBlockSignature demo_web (demo_sign b) None"
  by (simp add: dag_verifyBlockSignature_def demo_verify del: stringify.simps)

definition demo_1 :: dag_ledger where "demo_1 = snd (dag_addBlock demo_web 1 demo_open (new_dag False))"
definition demo_2 :: dag_ledger where "demo_2 = snd (dag_addBlock demo_web 2 demo_send demo_1)"

lemma demo_fields:
  "ab_hash demo_open = ''30''" "ab_hash demo_send = ''31''" "ab_accountPub demo_open = ''A''" "ab_accountPub demo_send = ''A''"
  by (simp_all add: demo_open_def demo_send_def blank_block_def demo_hash [where c = "CHR ''A''"] demo_digits)

lemma demo_opened:
  "mget (dl_allBlocks demo_1) = [''30'' \<mapsto> demo_open]" "chain_of demo_1 ''A'' = [demo_open]"
  "Option.bind (mget (dl_accounts demo_1) pub) da_pqPub = None"
proof -
  have "block_check demo_web 1 demo_open (new_dag False) = Valid"
    by (simp add: block_check_def demo_open_def demo_signed new_dag_def validateBlockStructure_def check_open_def VERIFICATION_MINT_AMOUNT_def
        UNIT_FACTOR_def check_credentials_def valid_credentials_def demo_verify blank_block_def del: stringify.simps)
  from accepted_block(4,5) [OF this] show "mget (dl_allBlocks demo_1) = [''30'' \<mapsto> demo_open]" "chain_of demo_1 ''A'' = [demo_open]"
    "Option.bind (mget (dl_accounts demo_1) pub) da_pqPub = None"
    by (simp_all add: demo_1_def new_dag_def chain_of_def mhas_def demo_fields MAX_CHAIN_MEMORY_def) (simp_all add: demo_open_def blank_block_def)
qed

lemma demo_sent:
  "mget (dl_allBlocks demo_2) = [''30'' \<mapsto> demo_open, ''31'' \<mapsto> demo_send]" "chain_of demo_2 ''A'' = [demo_open, demo_send]"
  "Option.bind (mget (dl_accounts demo_2) pub) da_pqPub = None"
proof -
  have "block_check demo_web 2 demo_send demo_1 = Valid"
    using demo_opened(3) [of "''A''"]
    by (simp add: block_check_def demo_send_def demo_signed validateBlockStructure_def check_send_def blank_block_def demo_opened demo_fields)
      (simp add: demo_open_def blank_block_def VERIFICATION_MINT_AMOUNT_def UNIT_FACTOR_def)
  from accepted_block(4,5) [OF this] show "mget (dl_allBlocks demo_2) = [''30'' \<mapsto> demo_open, ''31'' \<mapsto> demo_send]" "chain_of demo_2 ''A'' = [demo_open, demo_send]"
    "Option.bind (mget (dl_accounts demo_2) pub) da_pqPub = None"
    using demo_opened(3)
    by (simp_all add: demo_2_def mhas_def demo_fields demo_opened MAX_CHAIN_MEMORY_def) (simp_all add: demo_send_def blank_block_def)
qed

lemma demo_claims:
  "ab_hash (demo_claim 2 p x) = ''32''" "ab_hash (demo_claim 3 p x) = ''33''" "ab_accountPub (demo_claim i p x) = ''A''"
  "ab_type (demo_claim i p x) = DReceive" "ab_receiveAmount (demo_claim i p x) = Some 5" "ab_balance (demo_claim i p x) = x"
  "ab_sendBlockHash (demo_claim i p x) = Some ''31''" "ab_previousHash (demo_claim i p x) = p" "ab_index (demo_claim i p x) = i"
  "hashAccountBlock demo_web (demo_claim 2 p x) = ''32''" "hashAccountBlock demo_web (demo_claim 3 p x) = ''33''"
  "dag_verifyBlockSignature demo_web (demo_claim i p x) None"
  by (simp_all add: demo_claim_def demo_signed blank_block_def demo_hash [where c = "CHR ''A''"] demo_digits)

lemma demo_claimed:
  defines "r \<equiv> demo_claim 2 ''31'' 1000000000"
  shows "block_check demo_web 3 r demo_2 = Valid" "fst (dag_addBlock demo_web 3 r demo_2) = Valid"
    "owner_signed demo_web (snd (dag_addBlock demo_web 3 r demo_2)) (demo_claim 3 ''32'' 1000000005)"
    "claims_again r (demo_claim 3 ''32'' 1000000005)"
proof -
  show 1: "block_check demo_web 3 r demo_2 = Valid"
    using demo_sent(3) [of "''A''"]
    by (simp add: block_check_def r_def demo_claims validateBlockStructure_def check_receive_def check_source_def demo_sent demo_fields)
      (simp add: demo_send_def blank_block_def)
  have n: "\<not> mhas (dl_allBlocks demo_2) (ab_hash r)"
    by (simp add: mhas_def r_def demo_claims demo_sent)
  note a = accepted_block [OF 1 n]
  show "fst (dag_addBlock demo_web 3 r demo_2) = Valid"
    using a(1) by (simp add: r_def demo_claims)
  have "Option.bind (mget (dl_accounts (snd (dag_addBlock demo_web 3 r demo_2))) ''A'') da_pqPub = None"
    using a(5) demo_sent(3) by (simp add: r_def demo_claims)
  then show "owner_signed demo_web (snd (dag_addBlock demo_web 3 r demo_2)) (demo_claim 3 ''32'' 1000000005)"
    using a(4) by (simp add: owner_signed_def r_def demo_claims demo_sent MAX_CHAIN_MEMORY_def)
  show "claims_again r (demo_claim 3 ''32'' 1000000005)"
    by (simp add: claims_again_def r_def demo_claims)
qed

theorem send_claimed_again_witness:
  "let r = demo_claim 2 ''31'' 1000000000; s1 = snd (dag_addBlock demo_web 3 r demo_2);
       s2 = snd (dag_addBlock demo_web 4 (demo_claim 3 ''32'' 1000000005) s1)
   in dag_getAccountBalance s2 ''A'' = dag_getAccountBalance s1 ''A'' + 5"
  using send_claimed_again [of demo_2 "demo_claim 2 ''31'' 1000000000" demo_web 3 "demo_claim 3 ''32'' 1000000005" 4] demo_claimed
  by (simp add: demo_claims demo_sent MAX_CHAIN_MEMORY_def)

text \<open>C27: A block need not follow a block of its own account: a send of one account on top of any held block of
  another account is accepted, spends that other balance, and leaves the other account as it was.\<close>

theorem foreign_balance_spent:
  assumes "mget (dl_allBlocks s) (ab_hash p) = Some p" "safe_int (ab_balance p)" "sends_from p b a" "owner_signed W s b"
    "ab_accountPub b \<noteq> ab_accountPub p"
  shows "fst (dag_addBlock W now b s) = Valid
     \<and> dag_getAccountBalance (snd (dag_addBlock W now b s)) (ab_accountPub b) = ab_balance p - a
     \<and> dag_getAccountBalance (snd (dag_addBlock W now b s)) (ab_accountPub p) = dag_getAccountBalance s (ab_accountPub p)"
proof -
  have "\<not> mhas (dl_allBlocks s) (ab_hash b)" using assms(4) by (simp add: owner_signed_def mhas_def)
  note acc = accepted_block [OF foreign_send_checked [OF assms(1-4)] this]
  have t: "ab_type b \<noteq> DOpen" "ab_balance b = ab_balance p - a" using assms(3) by (auto simp: sends_from_def)
  have "dag_getAccountBalance (snd (dag_addBlock W now b s)) (ab_accountPub p) = dag_getAccountBalance s (ab_accountPub p)"
    using acc(3) t(1) assms(5) by (intro balance_cong) simp
  with acc(1,2) t show ?thesis
    by (simp add: head_balance)
qed

definition demo_theft :: account_block where
  "demo_theft = demo_sign ((blank_block ''B'' 1 DSend ''30'' 0)\<lparr>ab_recipient := Some ''B'', ab_amount := Some 1000000000\<rparr>)"

theorem foreign_balance_spent_witness:
  "let s = snd (dag_addBlock demo_web 2 demo_theft demo_1)
   in fst (dag_addBlock demo_web 2 demo_theft demo_1) = Valid \<and> dag_getAccountBalance s ''A'' = 1000000000"
proof -
  have f: "ab_hash demo_theft = ''31''" "hashAccountBlock demo_web demo_theft = ''31''" "ab_accountPub demo_theft = ''B''" "ab_balance demo_open = 1000000000" "ab_index demo_open = 0"
    by (simp_all add: demo_theft_def demo_open_def blank_block_def demo_hash [where c = "CHR ''B''"] demo_digits VERIFICATION_MINT_AMOUNT_def UNIT_FACTOR_def)
  have "owner_signed demo_web demo_1 demo_theft"
    using demo_opened(3) [of "''B''"] by (simp add: owner_signed_def f demo_opened) (simp add: demo_theft_def demo_signed)
  moreover have "sends_from demo_open demo_theft 1000000000"
    by (simp add: sends_from_def f demo_fields) (simp add: demo_theft_def blank_block_def)
  moreover have "dag_getAccountBalance demo_1 ''A'' = 1000000000"
    using demo_opened(2) f by (simp add: dag_getAccountBalance_def dag_getAccountHead_def chain_of_def last_opt_def)
  ultimately show ?thesis
    using foreign_balance_spent [of demo_1 demo_open demo_theft 1000000000 demo_web 2] by (simp add: f demo_fields demo_opened)
qed


end
