(* ===== verification/Block_Codec.thy ===== *)
theory Block_Codec
  imports Block_Model Json_Parse
begin

text \<open>
  Blocks as bytes, \<open>encodeBlock\<close> and \<open>decodeBlock\<close> of \<open>src/engine/core/block.ts\<close>: canonical JSON
  one way, \<open>JSON.parse\<close> with the two big integers revived the other way. A decoded object whose
  members do not have the types of a block is \<open>None\<close>, as is a throw; a big integer is read in
  decimal. Decoding gives the block back with the members of its string records in printed order.
\<close>

section \<open>A block as a value\<close>

definition block_fields_json :: "block \<Rightarrow> (string \<times> json option) list" where
  "block_fields_json b = [
     (''accountId'', jstr (b_accountId b)), (''index'', jint (b_index b)), (''type'', jstr (type_str (b_type b))),
     (''previousHash'', jstr (b_previousHash b)), (''shard'', jint (b_shard b)), (''timestamp'', jint (b_timestamp b)),
     (''balance'', jbig (b_balance b)),
     (''identityCommitment'', Option.bind (b_identityCommitment b) jstr),
     (''attestations'', map_option (\<lambda>as. JArr (map attestation_json as)) (b_attestations b)),
     (''recipient'', Option.bind (b_recipient b) jstr), (''sourceHash'', Option.bind (b_sourceHash b) jstr),
     (''amount'', Option.bind (b_amount b) jbig), (''updates'', map_option strings_json (b_updates b)),
     (''tokenId'', Option.bind (b_tokenId b) jstr), (''contentRef'', Option.bind (b_contentRef b) jstr),
     (''nftMeta'', map_option strings_json (b_nftMeta b)), (''recipientName'', Option.bind (b_recipientName b) jstr),
     (''senderPub'', Option.bind (b_senderPub b) jstr), (''senderName'', Option.bind (b_senderName b) jstr),
     (''storage'', map_option storage_json (b_storage b)),
     (''accumulatorRoot'', jstr (b_accumulatorRoot b)), (''hash'', jstr (b_hash b)), (''signature'', jstr (b_signature b))]"

definition encodeBlock :: "crypto \<Rightarrow> block \<Rightarrow> bytes" where
  "encodeBlock C b = c_utf8 C (canonicalJson (JObj (obj_fields (block_fields_json b))))"

section \<open>Reading typed members\<close>

definition rd_str :: "jsv \<Rightarrow> string option" where
  "rd_str v = (case v of VStr s \<Rightarrow> Some s | _ \<Rightarrow> None)"

definition rd_int :: "jsv \<Rightarrow> int option" where
  "rd_int v = (case v of VNum q \<Rightarrow> if of_int \<lfloor>q\<rfloor> = q then Some \<lfloor>q\<rfloor> else None | _ \<Rightarrow> None)"

definition decimal :: "string \<Rightarrow> int option" where
  "decimal s = (let neg = s \<noteq> [] \<and> hd s = CHR ''-''; ds = (if neg then tl s else s) in
     if ds \<noteq> [] \<and> list_all is_digit_char ds then Some ((if neg then - 1 else 1) * int (str_val ds)) else None)"

definition rd_big :: "jsv \<Rightarrow> int option" where
  "rd_big v = Option.bind (rd_str v) decimal"

fun all_some :: "'a option list \<Rightarrow> 'a list option" where
  "all_some [] = Some []"
| "all_some (x # xs) = Option.bind x (\<lambda>y. map_option (Cons y) (all_some xs))"

definition rd_list :: "(jsv \<Rightarrow> 'a option) \<Rightarrow> jsv \<Rightarrow> 'a list option" where
  "rd_list f v = (case v of VArr xs \<Rightarrow> all_some (map f xs) | _ \<Rightarrow> None)"

definition rd_strings :: "jsv \<Rightarrow> (string \<times> string) list option" where
  "rd_strings v = (case v of VObj kvs \<Rightarrow> all_some (map (\<lambda>kv. map_option (Pair (fst kv)) (rd_str (snd kv))) kvs) | _ \<Rightarrow> None)"

definition rd_obj :: "jsv \<Rightarrow> (string \<times> jsv) list option" where
  "rd_obj v = (case v of VObj kvs \<Rightarrow> Some kvs | _ \<Rightarrow> None)"

text \<open>A member that must be there, and one that may be missing.\<close>

definition need :: "(string \<times> jsv) list \<Rightarrow> string \<Rightarrow> (jsv \<Rightarrow> 'a option) \<Rightarrow> 'a option" where
  "need m k f = Option.bind (mget m k) f"

definition maybe :: "(string \<times> jsv) list \<Rightarrow> string \<Rightarrow> (jsv \<Rightarrow> 'a option) \<Rightarrow> 'a option option" where
  "maybe m k f = (case mget m k of None \<Rightarrow> Some None | Some v \<Rightarrow> map_option Some (f v))"

definition rd_type :: "jsv \<Rightarrow> block_type option" where
  "rd_type v = Option.bind (rd_str v) (\<lambda>s. find (\<lambda>t. type_str t = s)
     [Open, Send, Receive, Update, NftMint, NftSend, NftReceive, NftBurn, StorageRegister, StorageDeregister, StorageSettle])"

definition rd_attestation :: "jsv \<Rightarrow> typed_attestation option" where
  "rd_attestation v = Option.bind (rd_obj v) (\<lambda>m.
     Option.bind (need m ''attesterPub'' rd_str) (\<lambda>p. Option.bind (need m ''type'' rd_str) (\<lambda>t.
       Option.bind (need m ''claimHash'' rd_str) (\<lambda>h. map_option (\<lambda>s.
         \<lparr>attesterPub = p, att_type = t, claimHash = h, att_sig = s\<rparr>) (need m ''sig'' rd_str)))))"

definition rd_receipt :: "jsv \<Rightarrow> read_receipt option" where
  "rd_receipt v = Option.bind (rd_obj v) (\<lambda>m.
     Option.bind (need m ''reader'' rd_str) (\<lambda>r. Option.bind (need m ''provider'' rd_str) (\<lambda>p.
       Option.bind (need m ''counter'' rd_int) (\<lambda>c. Option.bind (need m ''bytesTotal'' rd_int) (\<lambda>b.
         Option.bind (need m ''readsTotal'' rd_int) (\<lambda>n. Option.bind (need m ''lastLatencyMs'' rd_int) (\<lambda>l.
           map_option (\<lambda>t. \<lparr>rc_reader = r, rc_provider = p, rc_counter = c, rc_bytesTotal = b, rc_readsTotal = n,
             rc_lastLatencyMs = l, rc_ts = t\<rparr>) (need m ''ts'' rd_int))))))))"

definition rd_signed_receipt :: "jsv \<Rightarrow> signed_receipt option" where
  "rd_signed_receipt v = Option.bind (rd_obj v) (\<lambda>m. Option.bind (need m ''receipt'' rd_receipt) (\<lambda>r.
     map_option (\<lambda>s. \<lparr>sr_receipt = r, sr_signature = s\<rparr>) (need m ''signature'' rd_str)))"

definition rd_storage :: "jsv \<Rightarrow> storage_payload option" where
  "rd_storage v = Option.bind (rd_obj v) (\<lambda>m.
     Option.bind (maybe m ''capacityGB'' rd_int) (\<lambda>a. Option.bind (maybe m ''deviceId'' rd_str) (\<lambda>b.
       Option.bind (maybe m ''deviceClass'' rd_str) (\<lambda>c. Option.bind (maybe m ''declaredConcurrency'' rd_int) (\<lambda>d.
         Option.bind (maybe m ''receipts'' (rd_list rd_signed_receipt)) (\<lambda>e. Option.bind (maybe m ''periodIndex'' rd_int) (\<lambda>f.
           Option.bind (maybe m ''publishRoot'' rd_str) (\<lambda>g. map_option (\<lambda>h.
             \<lparr>sp_capacityGB = a, sp_deviceId = b, sp_deviceClass = c, sp_declaredConcurrency = d, sp_receipts = e,
               sp_periodIndex = f, sp_publishRoot = g, sp_serviceRoot = h\<rparr>) (maybe m ''serviceRoot'' rd_str)))))))))"

definition rd_payload :: "(string \<times> jsv) list \<Rightarrow> content \<Rightarrow> content option" where
  "rd_payload m c =
     Option.bind (maybe m ''identityCommitment'' rd_str) (\<lambda>ic. Option.bind (maybe m ''attestations'' (rd_list rd_attestation)) (\<lambda>ats.
       Option.bind (maybe m ''recipient'' rd_str) (\<lambda>rp. Option.bind (maybe m ''sourceHash'' rd_str) (\<lambda>sh.
         Option.bind (maybe m ''amount'' rd_big) (\<lambda>am. Option.bind (maybe m ''updates'' rd_strings) (\<lambda>up.
           Option.bind (maybe m ''tokenId'' rd_str) (\<lambda>tk. Option.bind (maybe m ''contentRef'' rd_str) (\<lambda>cr.
             Option.bind (maybe m ''nftMeta'' rd_strings) (\<lambda>nm. Option.bind (maybe m ''recipientName'' rd_str) (\<lambda>rn.
               Option.bind (maybe m ''senderPub'' rd_str) (\<lambda>sp. Option.bind (maybe m ''senderName'' rd_str) (\<lambda>sn.
                 map_option (\<lambda>st. c\<lparr>b_identityCommitment := ic, b_attestations := ats, b_recipient := rp, b_sourceHash := sh,
                   b_amount := am, b_updates := up, b_tokenId := tk, b_contentRef := cr, b_nftMeta := nm, b_recipientName := rn,
                   b_senderPub := sp, b_senderName := sn, b_storage := st\<rparr>) (maybe m ''storage'' rd_storage)))))))))))))"

definition decodeBlock :: "(bytes \<Rightarrow> string) \<Rightarrow> bytes \<Rightarrow> block option" where
  "decodeBlock decoder bs = Option.bind (JSON_parse (decoder bs)) (\<lambda>v. Option.bind (rd_obj v) (\<lambda>m.
     Option.bind (need m ''accountId'' rd_str) (\<lambda>acct. Option.bind (need m ''index'' rd_int) (\<lambda>i.
       Option.bind (need m ''type'' rd_type) (\<lambda>ty. Option.bind (need m ''previousHash'' rd_str) (\<lambda>prev.
         Option.bind (need m ''shard'' rd_int) (\<lambda>shd. Option.bind (need m ''timestamp'' rd_int) (\<lambda>ts.
           Option.bind (need m ''balance'' rd_big) (\<lambda>bal.
             Option.bind (rd_payload m (blank_content acct i ty prev shd ts bal)) (\<lambda>c.
               Option.bind (need m ''accumulatorRoot'' rd_str) (\<lambda>r. Option.bind (need m ''hash'' rd_str) (\<lambda>h.
                 map_option (\<lambda>s. content.extend c (block.fields r h s)) (need m ''signature'' rd_str)))))))))))))"

section \<open>Decoding what was encoded\<close>

lemma map_of_obj_fields: "distinct (map fst F) \<Longrightarrow> map_of (obj_fields F) k = (case map_of F k of Some v \<Rightarrow> v | None \<Rightarrow> None)"
proof (induction F)
  case (Cons kv F)
  then have "fst kv = k \<Longrightarrow> map_of F k = None"
    by (auto simp: map_of_eq_None_iff)
  with Cons show ?case
    by (auto simp: obj_fields_def)
qed (simp add: obj_fields_def)

lemma distinct_obj_fields: "distinct (map fst F) \<Longrightarrow> distinct (map fst (obj_fields F))"
  by (induction F) (auto simp: obj_fields_def)

text \<open>The members of a parsed object.\<close>

definition seen :: "json \<Rightarrow> jsv" where
  "seen v = of_json (sortValue v)"

lemma seen_simps [simp]:
  "seen JNull = VNull" "seen (JBool x) = VBool x" "seen (JNum i) = VNum (of_int i)" "seen (JStr s) = VStr s" "seen (JArr xs) = VArr (map seen xs)"
  by (simp_all add: seen_def comp_def)

lemma seen_obj:
  assumes "distinct (map fst F)"
  shows "\<exists>m. seen (JObj (obj_fields F)) = VObj m \<and> (\<forall>k. mget m k = (case map_of F k of Some (Some v) \<Rightarrow> Some (seen v) | _ \<Rightarrow> None))"
proof -
  let ?g = "map (\<lambda>kv. (fst kv, sortValue (snd kv))) (obj_fields F)"
  let ?s = "obj_order (sort_key fst ?g)"
  have "distinct (map fst ?g)" using distinct_obj_fields [OF assms] by (simp add: comp_def)
  then have "map_of ?s = map_of ?g"
    by (intro map_of_perm [symmetric]) simp_all
  moreover have "map_of ?g k = map_option sortValue (map_of (obj_fields F) k)" for k
    using map_of_map [of sortValue "obj_fields F"] by (simp add: case_prod_unfold)
  moreover have "map_of (map (\<lambda>kv. (fst kv, of_json (snd kv))) xs) k = map_option of_json (map_of xs k)" for xs :: "(string \<times> json) list" and k
    using map_of_map [of of_json xs] by (simp add: case_prod_unfold)
  ultimately show ?thesis
    by (auto simp: seen_def map_of_obj_fields [OF assms] split: option.split)
qed

lemma rd_str_seen [simp]: "rd_str (VStr s) = Some s"
  by (simp add: rd_str_def)

lemma rd_int_seen [simp]: "rd_int (VNum (of_int i)) = Some i"
  by (simp add: rd_int_def)

lemma rd_big_seen [simp]: "rd_big (VStr (int_str i)) = Some i"
proof -
  have d: "list_all is_digit_char (nat_str n)" for n
    by (auto simp: list_all_iff dest: nat_str_digits)
  have "hd (nat_str n) \<noteq> CHR ''-''" for n
    using nat_str_no_minus [of n "tl (nat_str n)"] by (cases "nat_str n") auto
  then show ?thesis
    by (auto simp: rd_big_def decimal_def int_str_def d Let_def simp del: str_val.simps)
qed

lemma rd_type_seen [simp]: "rd_type (VStr (type_str t)) = Some t"
  by (cases t) (simp_all add: rd_type_def)

lemma all_some_map [simp]: "(\<And>x. x \<in> set xs \<Longrightarrow> f x = Some (g x)) \<Longrightarrow> all_some (map f xs) = Some (map g xs)"
  by (induction xs) auto

lemma rd_list_seen: "(\<And>x. f (seen (j x)) = Some x) \<Longrightarrow> rd_list f (VArr (map (\<lambda>x. seen (j x)) xs)) = Some xs"
  using all_some_map [of xs "\<lambda>x. f (seen (j x))" id] by (simp add: rd_list_def comp_def)

lemma maybe_simps:
  "mget m k = None \<Longrightarrow> maybe m k f = Some None"
  "mget m k = Some v \<Longrightarrow> f v = Some x \<Longrightarrow> maybe m k f = Some (Some x)"
  by (simp_all add: maybe_def)

lemma need_simp: "mget m k = Some v \<Longrightarrow> f v = Some x \<Longrightarrow> need m k f = Some x"
  by (simp add: need_def)

lemma attestation_seen: "rd_attestation (seen (attestation_json a)) = Some a"
proof -
  let ?F = "[(''attesterPub'', jstr (attesterPub a)), (''type'', jstr (att_type a)),
       (''claimHash'', jstr (claimHash a)), (''sig'', jstr (att_sig a))]"
  have "distinct (map fst ?F)" by simp
  from seen_obj [OF this] obtain m where m: "seen (attestation_json a) = VObj m"
    "\<And>k. mget m k = (case map_of ?F k of Some (Some v) \<Rightarrow> Some (seen v) | _ \<Rightarrow> None)"
    unfolding attestation_json_def by blast
  show ?thesis
    by (simp add: rd_attestation_def rd_obj_def m need_def jstr_def)
qed

lemma receipt_seen: "rd_receipt (seen (receipt_json a)) = Some a"
proof -
  let ?F = "[(''reader'', jstr (rc_reader a)), (''provider'', jstr (rc_provider a)),
     (''counter'', jint (rc_counter a)), (''bytesTotal'', jint (rc_bytesTotal a)),
     (''readsTotal'', jint (rc_readsTotal a)), (''lastLatencyMs'', jint (rc_lastLatencyMs a)), (''ts'', jint (rc_ts a))]"
  have "distinct (map fst ?F)" by simp
  from seen_obj [OF this] obtain m where m: "seen (receipt_json a) = VObj m"
    "\<And>k. mget m k = (case map_of ?F k of Some (Some v) \<Rightarrow> Some (seen v) | _ \<Rightarrow> None)"
    unfolding receipt_json_def by blast
  show ?thesis
    by (simp add: rd_receipt_def rd_obj_def m need_def jstr_def jint_def)
qed

lemma signed_receipt_seen: "rd_signed_receipt (seen (signed_receipt_json a)) = Some a"
proof -
  let ?F = "[(''receipt'', Some (receipt_json (sr_receipt a))), (''signature'', jstr (sr_signature a))]"
  have "distinct (map fst ?F)" by simp
  from seen_obj [OF this] obtain m where m: "seen (signed_receipt_json a) = VObj m"
    "\<And>k. mget m k = (case map_of ?F k of Some (Some v) \<Rightarrow> Some (seen v) | _ \<Rightarrow> None)"
    unfolding signed_receipt_json_def by blast
  show ?thesis
    by (simp add: rd_signed_receipt_def rd_obj_def m need_def jstr_def receipt_seen)
qed

lemma maybe_seen:
  assumes "\<And>k. mget m k = (case map_of F k of Some (Some v) \<Rightarrow> Some (seen v) | _ \<Rightarrow> None)" "map_of F k = Some (map_option j x)"
    "\<And>y. x = Some y \<Longrightarrow> f (seen (j y)) = Some (g y)"
  shows "maybe m k f = Some (map_option g x)"
  using assms by (cases x) (simp_all add: maybe_def)

lemma bind_json: "Option.bind x jstr = map_option JStr x" "Option.bind y jint = map_option JNum y"
  "Option.bind y jbig = map_option (\<lambda>i. JStr (int_str i)) y"
  by (cases x; simp add: jstr_def) (cases y; simp add: jint_def jbig_def)+

lemma storage_seen: "rd_storage (seen (storage_json a)) = Some a"
proof -
  let ?F = "[(''capacityGB'', Option.bind (sp_capacityGB a) jint),
     (''deviceId'', Option.bind (sp_deviceId a) jstr), (''deviceClass'', Option.bind (sp_deviceClass a) jstr),
     (''declaredConcurrency'', Option.bind (sp_declaredConcurrency a) jint),
     (''receipts'', map_option (\<lambda>rs. JArr (map signed_receipt_json rs)) (sp_receipts a)),
     (''periodIndex'', Option.bind (sp_periodIndex a) jint),
     (''publishRoot'', Option.bind (sp_publishRoot a) jstr), (''serviceRoot'', Option.bind (sp_serviceRoot a) jstr)]"
  have "distinct (map fst ?F)" by simp
  from seen_obj [OF this] obtain m where m: "seen (storage_json a) = VObj m"
    "\<And>k. mget m k = (case map_of ?F k of Some (Some v) \<Rightarrow> Some (seen v) | _ \<Rightarrow> None)"
    unfolding storage_json_def by blast
  have i: "maybe m k rd_int = Some x" if "map_of ?F k = Some (Option.bind x jint)" for k x
    using maybe_seen [OF m(2), of k JNum x rd_int id] that by (simp add: bind_json option.map_id)
  have s: "maybe m k rd_str = Some x" if "map_of ?F k = Some (Option.bind x jstr)" for k x
    using maybe_seen [OF m(2), of k JStr x rd_str id] that by (simp add: bind_json option.map_id)
  have r: "maybe m ''receipts'' (rd_list rd_signed_receipt) = Some (sp_receipts a)"
    using maybe_seen [OF m(2), of "''receipts''" "\<lambda>rs. JArr (map signed_receipt_json rs)" "sp_receipts a" "rd_list rd_signed_receipt" id]
      rd_list_seen [of rd_signed_receipt signed_receipt_json, OF signed_receipt_seen] by (simp add: option.map_id comp_def)
  show ?thesis
    unfolding rd_storage_def rd_obj_def m(1)
    by (simp add: i [where x = "sp_capacityGB a"] i [where x = "sp_declaredConcurrency a"] i [where x = "sp_periodIndex a"]
        s [where x = "sp_deviceId a"] s [where x = "sp_deviceClass a"] s [where x = "sp_publishRoot a"] s [where x = "sp_serviceRoot a"] r)
qed

section \<open>The string records\<close>

definition canon_strings :: "(string \<times> string) list \<Rightarrow> (string \<times> string) list" where
  "canon_strings kvs = obj_order (sort_key fst kvs)"

definition canon :: "block \<Rightarrow> block" where
  "canon b = b\<lparr>b_updates := map_option canon_strings (b_updates b), b_nftMeta := map_option canon_strings (b_nftMeta b)\<rparr>"

lemma strings_json_map: "strings_json kvs = JObj (map (\<lambda>kv. (fst kv, JStr (snd kv))) kvs)"
  by (simp add: strings_json_def case_prod_unfold)

lemma sortValue_strings: "sortValue (strings_json kvs) = strings_json (canon_strings kvs)"
  by (simp add: strings_json_map canon_strings_def sort_key_map obj_order_map comp_def)

lemma strings_seen: "rd_strings (seen (strings_json kvs)) = Some (canon_strings kvs)"
proof -
  have "seen (strings_json kvs) = VObj (map (\<lambda>kv. (fst kv, VStr (snd kv))) (canon_strings kvs))"
    unfolding seen_def sortValue_strings by (simp add: strings_json_map)
  moreover have "all_some (map (\<lambda>kv. Some kv) xs) = Some xs" for xs :: "(string \<times> string) list"
    by (induction xs) simp_all
  ultimately show ?thesis
    by (simp add: rd_strings_def comp_def)
qed

lemma canon_strings_idem: "distinct (map fst kvs) \<Longrightarrow> canon_strings (canon_strings kvs) = canon_strings kvs"
proof -
  assume "distinct (map fst kvs)"
  then have "sort_key fst (obj_order (sort_key fst kvs)) = sort_key fst kvs"
    by (intro sort_key_fst_perm [symmetric]) simp_all
  then show ?thesis by (simp add: canon_strings_def)
qed

lemma sortValue_fields:
  "map (\<lambda>kv. (fst kv, map_option sortValue (snd kv))) F = map (\<lambda>kv. (fst kv, map_option sortValue (snd kv))) G
   \<Longrightarrow> sortValue (JObj (obj_fields F)) = sortValue (JObj (obj_fields G))"
proof -
  have "map (\<lambda>kv. (fst kv, sortValue (snd kv))) (obj_fields H) = obj_fields (map (\<lambda>kv. (fst kv, map_option sortValue (snd kv))) H)" for H
    by (induction H) (auto simp: obj_fields_def)
  then show "map (\<lambda>kv. (fst kv, map_option sortValue (snd kv))) F = map (\<lambda>kv. (fst kv, map_option sortValue (snd kv))) G \<Longrightarrow> ?thesis"
    by simp
qed

definition records_distinct :: "block \<Rightarrow> bool" where
  "records_distinct b \<longleftrightarrow> (\<forall>kvs \<in> set_option (b_updates b) \<union> set_option (b_nftMeta b). distinct (map fst kvs))"

lemma canon_content: "records_distinct b \<Longrightarrow> computeContentHash C (canon b) = computeContentHash C b"
proof -
  assume "records_distinct b"
  then have u: "map_option sortValue (map_option strings_json (map_option canon_strings x)) = map_option sortValue (map_option strings_json x)"
    if "x \<in> {b_updates b, b_nftMeta b}" for x
    using that by (cases x) (auto simp: records_distinct_def sortValue_strings canon_strings_idem)
  have "map (\<lambda>kv. (fst kv, map_option sortValue (snd kv))) (type_fields t (canon b))
     = map (\<lambda>kv. (fst kv, map_option sortValue (snd kv))) (type_fields t b)" for t
    by (cases t) (simp_all add: canon_def u del: option.map_comp)
  then have "map (\<lambda>kv. (fst kv, map_option sortValue (snd kv))) (content_fields (canon b))
     = map (\<lambda>kv. (fst kv, map_option sortValue (snd kv))) (content_fields b)"
    unfolding content_fields_def map_append by (simp add: canon_def)
  from sortValue_fields [OF this] show ?thesis
    by (simp only: computeContentHash_def hashJson_def canonicalJson_def canonicalContent_def)
qed

lemma canon_simps [simp]:
  "b_accountId (canon b) = b_accountId b" "b_index (canon b) = b_index b" "b_type (canon b) = b_type b"
  "b_previousHash (canon b) = b_previousHash b" "b_hash (canon b) = b_hash b" "b_signature (canon b) = b_signature b"
  "b_accumulatorRoot (canon b) = b_accumulatorRoot b" "b_balance (canon b) = b_balance b"
  by (simp_all add: canon_def)

lemma canon_verify: "records_distinct b \<Longrightarrow> verifyBlock C (canon b) = verifyBlock C b"
  by (simp add: verifyBlock_def verifyBlockSignature_def canon_content)

section \<open>The round trip\<close>

lemma distinct_keys_fields:
  "distinct (map fst F) \<Longrightarrow> (\<And>k v. (k, Some v) \<in> set F \<Longrightarrow> distinct_keys v) \<Longrightarrow> distinct_keys (JObj (obj_fields F))"
  using distinct_obj_fields [of F] by (auto simp: obj_fields_def)

lemma some_map: "Some v = map_option f x \<longleftrightarrow> (\<exists>y. x = Some y \<and> v = f y)"
  by (cases x) auto

lemma distinct_keys_parts:
  "distinct_keys (attestation_json a)" "distinct_keys (signed_receipt_json r)" "distinct_keys (storage_json s)"
proof -
  show "distinct_keys (attestation_json a)"
    unfolding attestation_json_def by (rule distinct_keys_fields) (auto simp: jstr_def)
  have "distinct_keys (receipt_json x)" for x
    unfolding receipt_json_def by (rule distinct_keys_fields) (auto simp: jstr_def jint_def)
  then show sr: "distinct_keys (signed_receipt_json r)" for r
    unfolding signed_receipt_json_def by (intro distinct_keys_fields) (auto simp: jstr_def)
  show "distinct_keys (storage_json s)"
    unfolding storage_json_def
    by (rule distinct_keys_fields) (auto simp: bind_json some_map sr)
qed

lemma distinct_keys_strings: "distinct (map fst kvs) \<Longrightarrow> distinct_keys (strings_json kvs)"
  by (auto simp: strings_json_map comp_def)

lemma distinct_keys_block: "records_distinct b \<Longrightarrow> distinct_keys (JObj (obj_fields (block_fields_json b)))"
  unfolding block_fields_json_def
  by (rule distinct_keys_fields)
    (auto simp: bind_json some_map jstr_def jint_def jbig_def distinct_keys_parts distinct_keys_strings records_distinct_def)

lemma decode_block:
  assumes "\<And>s. decoder (c_utf8 C s) = s" "records_distinct b"
  shows "decodeBlock decoder (encodeBlock C b) = Some (canon b)"
proof -
  let ?F = "block_fields_json b"
  have p: "JSON_parse (decoder (encodeBlock C b)) = Some (seen (JObj (obj_fields ?F)))"
    unfolding encodeBlock_def assms(1) seen_def by (rule parse_canonical [OF distinct_keys_block [OF assms(2)]])
  have "distinct (map fst ?F)" by (simp add: block_fields_json_def)
  from seen_obj [OF this] obtain m where m: "seen (JObj (obj_fields ?F)) = VObj m"
    "\<And>k. mget m k = (case map_of ?F k of Some (Some v) \<Rightarrow> Some (seen v) | _ \<Rightarrow> None)"
    by blast
  have s: "maybe m k rd_str = Some x" if "map_of ?F k = Some (Option.bind x jstr)" for k x
    using maybe_seen [OF m(2), of k JStr x rd_str id] that by (simp add: bind_json option.map_id)
  have r: "maybe m k rd_strings = Some (map_option canon_strings x)" if "map_of ?F k = Some (map_option strings_json x)" for k x
    using maybe_seen [OF m(2), of k strings_json x rd_strings canon_strings] that by (simp add: strings_seen)
  have a: "maybe m ''amount'' rd_big = Some (b_amount b)"
    using maybe_seen [OF m(2), of "''amount''" "\<lambda>i. JStr (int_str i)" "b_amount b" rd_big id]
    by (simp add: bind_json option.map_id block_fields_json_def)
  have t: "maybe m ''attestations'' (rd_list rd_attestation) = Some (b_attestations b)"
    using maybe_seen [OF m(2), of "''attestations''" "\<lambda>as. JArr (map attestation_json as)" "b_attestations b" "rd_list rd_attestation" id]
      rd_list_seen [of rd_attestation attestation_json, OF attestation_seen] by (simp add: option.map_id comp_def block_fields_json_def)
  have g: "maybe m ''storage'' rd_storage = Some (b_storage b)"
    using maybe_seen [OF m(2), of "''storage''" storage_json "b_storage b" rd_storage id]
    by (simp add: storage_seen option.map_id block_fields_json_def)
  have pay: "rd_payload m c = Some (c\<lparr>b_identityCommitment := b_identityCommitment b, b_attestations := b_attestations b,
       b_recipient := b_recipient b, b_sourceHash := b_sourceHash b, b_amount := b_amount b,
       b_updates := map_option canon_strings (b_updates b), b_tokenId := b_tokenId b, b_contentRef := b_contentRef b,
       b_nftMeta := map_option canon_strings (b_nftMeta b), b_recipientName := b_recipientName b,
       b_senderPub := b_senderPub b, b_senderName := b_senderName b, b_storage := b_storage b\<rparr>)" for c
    unfolding rd_payload_def
    by (simp add: a t g s [where x = "b_identityCommitment b"] s [where x = "b_recipient b"] s [where x = "b_sourceHash b"]
        s [where x = "b_tokenId b"] s [where x = "b_contentRef b"] s [where x = "b_recipientName b"] s [where x = "b_senderPub b"]
        s [where x = "b_senderName b"] r [where x = "b_updates b"] r [where x = "b_nftMeta b"] block_fields_json_def)
  have n: "need m ''accountId'' rd_str = Some (b_accountId b)" "need m ''index'' rd_int = Some (b_index b)"
    "need m ''type'' rd_type = Some (b_type b)" "need m ''previousHash'' rd_str = Some (b_previousHash b)"
    "need m ''shard'' rd_int = Some (b_shard b)" "need m ''timestamp'' rd_int = Some (b_timestamp b)"
    "need m ''balance'' rd_big = Some (b_balance b)" "need m ''accumulatorRoot'' rd_str = Some (b_accumulatorRoot b)"
    "need m ''hash'' rd_str = Some (b_hash b)" "need m ''signature'' rd_str = Some (b_signature b)"
    by (simp_all add: need_def m(2) block_fields_json_def jstr_def jint_def jbig_def)
  show ?thesis
    unfolding decodeBlock_def p m(1)
    by (simp add: rd_obj_def n pay canon_def blank_content_def content.defs block.defs)
qed

end
