(* ===== verification/Block_Archive.thy ===== *)
theory Block_Archive
  imports Block_Codec Content_Store Account_Store
begin

text \<open>
  Cold history in content-addressed storage: \<open>src/engine/node/archive.ts\<close> and
  \<open>archiving-store.ts\<close>. A block leaves the hot window as its encoding, under its cid, in a content
  store; the accumulator keeps every leaf, so any block is still served with an inclusion proof.
  Calls are awaited one after the other. The lemmas hold for every backend that meets the contract
  \<open>block_backend\<close>.
\<close>

section \<open>The archive\<close>

record archive_ref =
  rf_accountId :: hex
  rf_index :: int
  rf_hash :: hex
  rf_cid :: hex

definition ref_of :: "crypto \<Rightarrow> block \<Rightarrow> archive_ref" where
  "ref_of C b = \<lparr>rf_accountId = b_accountId b, rf_index = b_index b, rf_hash = b_hash b, rf_cid = cidOf C (encodeBlock C b)\<rparr>"

text \<open>\<open>None\<close> is the error that a refused write throws.\<close>

definition archive_block :: "crypto \<Rightarrow> 's backend_ops \<Rightarrow> block \<Rightarrow> 's content_store \<Rightarrow> archive_ref option \<times> 's content_store" where
  "archive_block C B b st = (let bs = encodeBlock C b; cid = cidOf C bs in
     case putBlock B cid bs st of (r, st') \<Rightarrow> if sr_ok r
       then (Some \<lparr>rf_accountId = b_accountId b, rf_index = b_index b, rf_hash = b_hash b, rf_cid = cid\<rparr>, st')
       else (None, st'))"

text \<open>
  The inner option is the \<open>null\<close> of a mismatch; the outer one is that decoding throws, or that what it reads
  does not have the members of a block.
\<close>

definition retrieve :: "crypto \<Rightarrow> 's backend_ops \<Rightarrow> (bytes \<Rightarrow> string) \<Rightarrow> archive_ref \<Rightarrow> 's content_store \<Rightarrow> block option option" where
  "retrieve C B decoder ref st = (case be_get B (rf_cid ref) (cs_backend st) of
     None \<Rightarrow> Some None
   | Some bs \<Rightarrow> if cidOf C bs \<noteq> rf_cid ref then Some None
       else (case decodeBlock decoder bs of
           None \<Rightarrow> None
         | Some b \<Rightarrow> if b_hash b \<noteq> rf_hash ref then Some None
             else if \<not> verifyBlock C b then Some None
             else Some (Some b)))"

section \<open>The archiving store\<close>

record arch_held =
  ah_acc :: accumulator
  ah_hot :: "block list"
  ah_archived :: "(int, archive_ref) jsmap"
  ah_length :: int

record 's archiving =
  as_accounts :: "(hex, arch_held) jsmap"
  as_content :: "'s content_store"

definition new_archiving :: "'s content_store \<Rightarrow> 's archiving" where
  "new_archiving st = \<lparr>as_accounts = [], as_content = st\<rparr>"

text \<open>
  The loop that moves the oldest hot block out while there are more than \<open>w\<close>. When the archive
  throws, the flag is false and the block that was taken out is in neither place. With a negative
  window the loop ends in the encoding of \<open>undefined\<close>, which throws.
\<close>

fun slide :: "crypto \<Rightarrow> 's backend_ops \<Rightarrow> int \<Rightarrow> block list \<Rightarrow> (int, archive_ref) jsmap \<Rightarrow> 's content_store
    \<Rightarrow> bool \<times> block list \<times> (int, archive_ref) jsmap \<times> 's content_store" where
  "slide C B w [] m st = (0 \<le> w, [], m, st)"
| "slide C B w (old # hot) m st =
     (if int (Suc (length hot)) > w
      then (case archive_block C B old st of
          (None, st') \<Rightarrow> (False, hot, m, st')
        | (Some ref, st') \<Rightarrow> slide C B w hot (mset_at (b_index old) ref m) st')
      else (True, old # hot, m, st))"

definition arch_commit :: "crypto \<Rightarrow> 's backend_ops \<Rightarrow> int \<Rightarrow> arch_held \<Rightarrow> block \<Rightarrow> 's archiving \<Rightarrow> apply_result option \<times> 's archiving" where
  "arch_commit C B w h b s = (case rootWithHex C (b_hash b) (ah_acc h) of
     None \<Rightarrow> (None, s)
   | Some r \<Rightarrow>
       if r \<noteq> b_accumulatorRoot b then (Some (refuse ''accumulator root mismatch''), s)
       else (case acc_append C (b_hash b) (ah_acc h) of
           None \<Rightarrow> (None, s)
         | Some acc' \<Rightarrow> (case slide C B w (ah_hot h @ [b]) (ah_archived h) (as_content s) of
             (ok, hot, m, st) \<Rightarrow> (if ok then Some accept else None,
               \<lparr>as_accounts = mset_at (b_accountId b) \<lparr>ah_acc = acc', ah_hot = hot, ah_archived = m, ah_length = ah_length h + 1\<rparr>
                  (as_accounts s), as_content = st\<rparr>))))"

definition new_held :: arch_held where
  "new_held = \<lparr>ah_acc = [], ah_hot = [], ah_archived = [], ah_length = 0\<rparr>"

text \<open>A rejected promise is \<open>None\<close>; \<open>w\<close> is \<open>hotWindow\<close> and \<open>vs\<close> is \<open>verifySignatures\<close>.\<close>

definition arch_apply :: "crypto \<Rightarrow> 's backend_ops \<Rightarrow> int \<Rightarrow> bool \<Rightarrow> block \<Rightarrow> 's archiving \<Rightarrow> apply_result option \<times> 's archiving" where
  "arch_apply C B w vs b s =
     (if computeContentHash C b \<noteq> b_hash b then (Some (refuse ''content hash mismatch''), s)
      else if vs \<and> \<not> verifyBlockSignature C b then (Some (refuse ''invalid signature''), s)
      else if b_index b = 0 then
        (if b_type b \<noteq> Open \<or> b_previousHash b \<noteq> GENESIS_PREV
         then (Some (refuse ''index 0 must be a genesis open block''), s)
         else (case mget (as_accounts s) (b_accountId b) of
             Some h \<Rightarrow> (case ah_hot h of
                 g # _ \<Rightarrow> if b_hash g = b_hash b then (Some accept, s) else (Some (refuse ''conflicting open block''), s)
               | [] \<Rightarrow> (Some (refuse ''conflicting open block''), s))
           | None \<Rightarrow> arch_commit C B w new_held b (s\<lparr>as_accounts := mset_at (b_accountId b) new_held (as_accounts s)\<rparr>)))
      else (case mget (as_accounts s) (b_accountId b) of
          None \<Rightarrow> (Some (refuse ''missing prior chain (genesis not seen)''), s)
        | Some h \<Rightarrow>
            if b_index b \<noteq> ah_length h then (Some (refuse (''non-sequential index '' @ int_str (b_index b))), s)
            else (case last_opt (ah_hot h) of
                None \<Rightarrow> (None, s)
              | Some tip \<Rightarrow> if b_previousHash b \<noteq> b_hash tip then (Some (refuse ''previousHash does not match head''), s)
                  else arch_commit C B w h b s)))"

definition arch_head :: "'s archiving \<Rightarrow> hex \<Rightarrow> block option" where
  "arch_head s a = (case mget (as_accounts s) a of None \<Rightarrow> None | Some h \<Rightarrow> last_opt (ah_hot h))"

definition arch_length :: "'s archiving \<Rightarrow> hex \<Rightarrow> int" where
  "arch_length s a = (case mget (as_accounts s) a of None \<Rightarrow> 0 | Some h \<Rightarrow> ah_length h)"

definition hotCount :: "'s archiving \<Rightarrow> int" where
  "hotCount s = foldl (\<lambda>n h. n + int (length (ah_hot h))) 0 (mvals (as_accounts s))"

definition archivedCount :: "'s archiving \<Rightarrow> int" where
  "archivedCount s = foldl (\<lambda>n h. n + int (length (ah_archived h))) 0 (mvals (as_accounts s))"

record proven_block =
  pb_block :: block
  pb_index :: int
  pb_proof :: "hex list"
  pb_root :: hex
  pb_treeSize :: int

text \<open>The inner option is \<open>null\<close>, the outer one a throw.\<close>

definition getProven :: "crypto \<Rightarrow> 's backend_ops \<Rightarrow> (bytes \<Rightarrow> string) \<Rightarrow> hex \<Rightarrow> int \<Rightarrow> 's archiving \<Rightarrow> proven_block option option" where
  "getProven C B decoder a i s = (case mget (as_accounts s) a of
     None \<Rightarrow> Some None
   | Some h \<Rightarrow> if i < 0 \<or> ah_length h \<le> i then Some None
       else (case ah_hot h of
           [] \<Rightarrow> None
         | oldest # _ \<Rightarrow>
             (case (if b_index oldest \<le> i then Some (find (\<lambda>b. b_index b = i) (ah_hot h))
                    else (case mget (ah_archived h) i of None \<Rightarrow> Some None | Some ref \<Rightarrow> retrieve C B decoder ref (as_content s))) of
                None \<Rightarrow> None
              | Some None \<Rightarrow> Some None
              | Some (Some b) \<Rightarrow> map_option (\<lambda>p. Some \<lparr>pb_block = b, pb_index = i, pb_proof = p,
                    pb_root = acc_rootHex C (ah_acc h), pb_treeSize = ah_length h\<rparr>) (proofHex C (ah_acc h) i))))"

section \<open>Nothing is lost\<close>

text \<open>A block is kept when the store has its encoding under its cid.\<close>

definition kept :: "crypto \<Rightarrow> 's backend_ops \<Rightarrow> block \<Rightarrow> 's content_store \<Rightarrow> bool" where
  "kept C B b st \<longleftrightarrow> be_get B (cidOf C (encodeBlock C b)) (cs_backend st) = Some (encodeBlock C b)"

definition intact :: "crypto \<Rightarrow> 's backend_ops \<Rightarrow> bytes set \<Rightarrow> 's content_store \<Rightarrow> bool" where
  "intact C B X st \<longleftrightarrow> honest C B st \<and> held_blocks B st \<subseteq> X"

definition next_state :: "crypto \<Rightarrow> 's backend_ops \<Rightarrow> 's content_store \<Rightarrow> 's content_store \<Rightarrow> bool" where
  "next_state C B st st' \<longleftrightarrow> (\<forall>b. kept C B b st \<longrightarrow> kept C B b st')"

lemma retrieve_kept:
  assumes "kept C B b st" "verifyBlock C b" "records_distinct b" "\<And>s. decoder (c_utf8 C s) = s"
  shows "retrieve C B decoder (ref_of C b) st = Some (Some (canon b))"
  using assms decode_block [OF assms(4,3)] by (simp add: retrieve_def ref_of_def kept_def canon_verify)

context block_backend
begin

lemma archive_keeps:
  assumes "archive_block C B b st = (Some ref, st')" "intact C B X st" "inj_on (cidOf C) X" "encodeBlock C b \<in> X"
  shows "ref = ref_of C b \<and> kept C B b st' \<and> intact C B X st' \<and> next_state C B st st'"
proof -
  let ?bs = "encodeBlock C b" and ?c = "cidOf C (encodeBlock C b)"
  have st': "st' = snd (putBlock B ?c ?bs st)" and ref: "ref = ref_of C b" and ok: "sr_ok (fst (putBlock B ?c ?bs st))"
    using assms(1) by (auto simp: archive_block_def ref_of_def Let_def split: prod.splits if_splits)
  have h: "honest C B st'"
    unfolding st' using assms(2) by (intro putBlock_honest) (simp_all add: intact_def)
  have "\<exists>x. be_get B ?c (cs_backend st') = Some x" and x: "\<And>c x. be_get B c (cs_backend st') = Some x \<Longrightarrow> x \<in> X"
    using ok assms(2,4) unfolding st'
    by (cases rule: putBlock_cases [where c = ?c and bs = ?bs and st = st];
        auto simp: has_get get_put intact_def held_blocks_def split: if_splits)+
  then obtain x where g: "be_get B ?c (cs_backend st') = Some x" "x \<in> X" by blast
  with h assms(3,4) have "x = ?bs"
    by (auto simp: honest_def dest: inj_onD)
  moreover have "next_state C B st st'"
    unfolding st' next_state_def kept_def by (auto intro: putBlock_get)
  ultimately show ?thesis
    using g(1) ref h x by (auto simp: kept_def intact_def held_blocks_def)
qed

lemma slide_keeps:
  assumes "slide C B w hot m st = (True, hot', m', st')" "intact C B X st" "inj_on (cidOf C) X" "encodeBlock C ` set hot \<subseteq> X"
  shows "\<exists>old. hot = old @ hot' \<and> length old = length hot - nat w \<and> 0 \<le> w
    \<and> m' = fold (\<lambda>b. mset_at (b_index b) (ref_of C b)) old m
    \<and> (\<forall>b \<in> set old. kept C B b st') \<and> intact C B X st' \<and> next_state C B st st'"
  using assms(1,2,4)
proof (induction hot arbitrary: m st)
  case Nil
  then show ?case by (simp add: next_state_def)
next
  case (Cons old hot)
  show ?case
  proof (cases "int (Suc (length hot)) > w")
    case False
    with Cons.prems show ?thesis by (auto simp: next_state_def)
  next
    case True
    with Cons.prems(1) obtain ref st1 where a: "archive_block C B old st = (Some ref, st1)"
      "slide C B w hot (mset_at (b_index old) ref m) st1 = (True, hot', m', st')"
      by (auto split: prod.splits option.splits)
    have "encodeBlock C old \<in> X" and X: "encodeBlock C ` set hot \<subseteq> X"
      using Cons.prems(3) by auto
    note k = archive_keeps [OF a(1) Cons.prems(2) assms(3) this(1)]
    from k have w1: "intact C B X st1" by blast
    from Cons.IH [OF a(2) w1 X] obtain l where l: "hot = l @ hot'" "length l = length hot - nat w" "0 \<le> w"
      "m' = fold (\<lambda>b. mset_at (b_index b) (ref_of C b)) l (mset_at (b_index old) ref m)"
      "\<forall>b \<in> set l. kept C B b st'" "intact C B X st'" "next_state C B st1 st'"
      by blast
    have len: "length (old # l) = length (old # hot) - nat w"
      using l(2,3) True by auto
    have "m' = fold (\<lambda>b. mset_at (b_index b) (ref_of C b)) (old # l) m"
      using l(4) k by simp
    moreover have "\<forall>b \<in> set (old # l). kept C B b st'" "next_state C B st st'"
      using k l(5,7) unfolding next_state_def by auto
    moreover have "old # hot = (old # l) @ hot'"
      using l(1) by simp
    ultimately show ?thesis
      using len l(3,6) by blast
  qed
qed

end

text \<open>
  The archiving store against the store that keeps everything: the same accumulators, the last \<open>w\<close>
  blocks hot, and for every older one a reference whose bytes are kept.
\<close>

definition entry_ok :: "crypto \<Rightarrow> 's backend_ops \<Rightarrow> int \<Rightarrow> bytes set \<Rightarrow> 's content_store \<Rightarrow> arch_held \<Rightarrow> held \<Rightarrow> bool" where
  "entry_ok C B w X st h e \<longleftrightarrow> ah_acc h = h_acc e \<and> ah_length h = int (length (h_blocks e))
     \<and> ah_hot h = drop (length (h_blocks e) - nat w) (h_blocks e)
     \<and> (\<forall>i < length (h_blocks e) - nat w. mget (ah_archived h) (int i) = Some (ref_of C (h_blocks e ! i)) \<and> kept C B (h_blocks e ! i) st)
     \<and> (\<forall>b \<in> set (h_blocks e). records_distinct b \<and> encodeBlock C b \<in> X)"

definition arch_sim :: "crypto \<Rightarrow> 's backend_ops \<Rightarrow> bool \<Rightarrow> int \<Rightarrow> bytes set \<Rightarrow> 's archiving \<Rightarrow> account_store \<Rightarrow> bool" where
  "arch_sim C B vs w X s st \<longleftrightarrow> store_inv C vs st \<and> intact C B X (as_content s)
     \<and> (\<forall>a. rel_option (entry_ok C B w X (as_content s)) (mget (as_accounts s) a) (mget st a))"

lemma fold_refs:
  "distinct (map b_index bs) \<Longrightarrow> b \<in> set bs \<Longrightarrow>
     mget (fold (\<lambda>b. mset_at (b_index b) (ref_of C b)) bs m) (b_index b) = Some (ref_of C b)"
  "i \<notin> b_index ` set bs \<Longrightarrow> mget (fold (\<lambda>b. mset_at (b_index b) (ref_of C b)) bs m) i = mget m i"
proof -
  show o: "i \<notin> b_index ` set bs \<Longrightarrow> mget (fold (\<lambda>b. mset_at (b_index b) (ref_of C b)) bs m) i = mget m i" for i bs m
    by (induction bs arbitrary: m) auto
  show "distinct (map b_index bs) \<Longrightarrow> b \<in> set bs \<Longrightarrow>
     mget (fold (\<lambda>b. mset_at (b_index b) (ref_of C b)) bs m) (b_index b) = Some (ref_of C b)"
    by (induction bs arbitrary: m) (auto simp: o)
qed

lemma entry_mono: "entry_ok C B w X st h e \<Longrightarrow> next_state C B st st' \<Longrightarrow> entry_ok C B w X st' h e"
  by (auto simp: entry_ok_def next_state_def)

lemma hot_last: "1 \<le> w \<Longrightarrow> last_opt (drop (length bs - nat w) bs) = last_opt bs"
  by (cases bs rule: rev_cases) (auto simp: last_opt_def Suc_diff_le last_drop)

text \<open>A commit that does not throw appends the block to the account's entry.\<close>

context block_backend
begin

lemma commit_entry:
  assumes c: "arch_commit C B w h b s = (Some r, s')" and e: "entry_ok C B w X (as_content s) h e"
    and X: "intact C B X (as_content s)" "inj_on (cidOf C) X" "encodeBlock C b \<in> X" "records_distinct b"
    and i: "\<And>j. j < length (h_blocks e @ [b]) \<Longrightarrow> b_index ((h_blocks e @ [b]) ! j) = int j"
    and l: "c_fromHex C (b_hash b) = Some l" "acc_rootHex C (h_acc e @ [l]) = b_accumulatorRoot b"
  shows "\<exists>h'. r = accept \<and> as_accounts s' = mset_at (b_accountId b) h' (as_accounts s) \<and> intact C B X (as_content s')
    \<and> next_state C B (as_content s) (as_content s')
    \<and> entry_ok C B w X (as_content s') h' \<lparr>h_blocks = h_blocks e @ [b], h_acc = h_acc e @ [l]\<rparr>"
proof -
  let ?bs = "h_blocks e" and ?n = "length (h_blocks e)"
  have acc: "ah_acc h = h_acc e" and hot: "ah_hot h = drop (?n - nat w) ?bs" and len: "ah_length h = int ?n"
    and arch: "\<And>i. i < ?n - nat w \<Longrightarrow> mget (ah_archived h) (int i) = Some (ref_of C (?bs ! i)) \<and> kept C B (?bs ! i) (as_content s)"
    and bs: "\<And>b. b \<in> set ?bs \<Longrightarrow> records_distinct b \<and> encodeBlock C b \<in> X"
    using e by (auto simp: entry_ok_def)
  obtain hot' m st' where s: "slide C B w (ah_hot h @ [b]) (ah_archived h) (as_content s) = (True, hot', m, st')" "r = accept"
    "s' = \<lparr>as_accounts = mset_at (b_accountId b) \<lparr>ah_acc = h_acc e @ [l], ah_hot = hot', ah_archived = m, ah_length = int ?n + 1\<rparr>
       (as_accounts s), as_content = st'\<rparr>"
    using c l by (auto simp: arch_commit_def rootWithHex_def acc_append_def toBytes_def acc_rootHex_def acc len split: prod.splits if_splits)
  have "encodeBlock C ` set (ah_hot h @ [b]) \<subseteq> X"
    using bs X(3) by (auto simp: hot dest: in_set_dropD)
  from slide_keeps [OF s(1) X(1,2) this] obtain old where o: "ah_hot h @ [b] = old @ hot'"
    "length old = length (ah_hot h @ [b]) - nat w" "0 \<le> w" "m = fold (\<lambda>b. mset_at (b_index b) (ref_of C b)) old (ah_archived h)"
    "\<forall>b \<in> set old. kept C B b st'" "intact C B X st'" "next_state C B (as_content s) st'"
    by blast
  let ?new = "?bs @ [b]" and ?k = "?n - nat w"
  have all: "drop ?k ?new = old @ hot'"
    using o(1) hot by simp
  have lold: "length old = Suc ?n - nat w - ?k"
    using o(2) hot by (simp add: add.commute)
  have "hot' = drop (length old) (drop ?k ?new)"
    unfolding all by simp
  moreover have "length old + ?k = length ?new - nat w"
    unfolding lold by simp
  ultimately have h': "hot' = drop (length ?new - nat w) ?new"
    by (metis drop_drop)
  have idx: "b_index (old ! j) = int (?k + j) \<and> old ! j = ?new ! (?k + j)" if "j < length old" for j
  proof -
    have l: "?k + j < length ?new" using that lold by simp
    have "old ! j = (old @ hot') ! j" using that by (simp add: nth_append)
    also have "\<dots> = ?new ! (?k + j)" unfolding all [symmetric] using l by (intro nth_drop) simp
    finally show ?thesis using i [OF l] by simp
  qed
  have bi: "b_index (old ! j) = int (?k + j)" if "j < length old" for j
    using idx [OF that] by (rule conjunct1)
  then have dist: "distinct (map b_index old)"
    by (simp add: distinct_conv_nth)
  have refs: "mget m (int i) = Some (ref_of C (?new ! i)) \<and> kept C B (?new ! i) st'" if "i < length ?new - nat w" for i
  proof (cases "i < ?k")
    case True
    have "int i \<notin> b_index ` set old"
    proof
      assume "int i \<in> b_index ` set old"
      then obtain j where "j < length old" "int i = b_index (old ! j)"
        by (auto simp: in_set_conv_nth)
      with bi [of j] True show False by linarith
    qed
    with fold_refs(2) [of "int i" old C "ah_archived h"] arch [OF True] True o(7) show ?thesis
      by (auto simp: o(4) nth_append next_state_def)
  next
    case False
    define j where "j = i - ?k"
    have j: "j < length old" "i = ?k + j"
      using that False lold by (auto simp: j_def)
    then have in_old: "old ! j \<in> set old" by simp
    have "old ! j = ?new ! i" "b_index (old ! j) = int i"
      using idx [OF j(1)] bi [OF j(1)] j(2) by simp_all
    with fold_refs(1) [OF dist in_old, of C "ah_archived h"] in_old o(5) show ?thesis
      by (simp only: o(4))
  qed
  show ?thesis
    using s(2,3) o(6,7) refs h' bs X(3,4) by (auto simp: entry_ok_def)
qed

text \<open>One \<open>apply\<close> keeps the two stores in step.\<close>

lemma sim_entry:
  assumes "arch_sim C B vs w X s st"
  shows "chain st a = [] \<and> mget (as_accounts s) a = None \<and> mget st a = None
    \<or> (\<exists>h e. mget (as_accounts s) a = Some h \<and> mget st a = Some e \<and> entry_ok C B w X (as_content s) h e
        \<and> held_ok C vs a e \<and> chain st a = h_blocks e)"
proof -
  have "rel_option (entry_ok C B w X (as_content s)) (mget (as_accounts s) a) (mget st a)" and i: "store_inv C vs st"
    using assms by (auto simp: arch_sim_def)
  then show ?thesis
    by (cases "mget (as_accounts s) a"; cases "mget st a") (auto simp: chain_def store_inv_def)
qed

lemma sim_update:
  assumes "arch_sim C B vs w X s st" "intact C B X (as_content s')" "next_state C B (as_content s) (as_content s')"
    "\<And>a'. mget (as_accounts s') a' = (if a' = a then Some h' else mget (as_accounts s) a')"
    "entry_ok C B w X (as_content s') h' e'" "held_ok C vs a e'"
  shows "arch_sim C B vs w X s' (mset_at a e' st)"
proof -
  have "rel_option (entry_ok C B w X (as_content s')) (mget (as_accounts s) x) (mget st x)" for x
    using assms(1) entry_mono [OF _ assms(3)] unfolding arch_sim_def by (metis option.rel_mono_strong)
  then show ?thesis
    using assms by (simp add: arch_sim_def store_inv_set)
qed

text \<open>A block that does not extend the chain changes nothing.\<close>

lemma sim_refused:
  assumes sim: "arch_sim C B vs w X s st" and r: "arch_apply C B w vs b s = (Some r, s')"
    and g: "genesis_root_ok C b" and w: "1 \<le> w" and no: "\<not> next_ok C vs (chain st (b_accountId b)) b"
  shows "s' = s"
proof (rule ccontr)
  let ?a = "b_accountId b" let ?c = "chain st ?a"
  assume ch: "s' \<noteq> s"
  then have ok: "computeContentHash C b = b_hash b" "vs \<Longrightarrow> verifyBlockSignature C b"
    using r by (auto simp: arch_apply_def split: if_splits)
  have hx: "hex_codec C" using sim by (simp add: arch_sim_def store_inv_def)
  obtain l where l: "c_fromHex C (b_hash b) = Some l"
    using content_hash_decodes [OF hx ok(1)] by blast
  from sim_entry [OF sim, of ?a] show False
  proof (elim disjE exE conjE)
    assume n: "?c = []" "mget (as_accounts s) ?a = None"
    then have "b_index b = 0" "b_type b = Open" "b_previousHash b = GENESIS_PREV"
      using r ch ok by (auto simp: arch_apply_def split: if_splits)
    then have "next_ok C vs ?c b"
      using ok n(1) g l by (simp add: next_ok_def genesis_root_ok_def rootWithHex_def toBytes_def acc_rootHex_def)
    with no show False by contradiction
  next
    fix h e
    assume h: "mget (as_accounts s) ?a = Some h" "entry_ok C B w X (as_content s) h e" "held_ok C vs ?a e" "?c = h_blocks e"
    have ne: "?c \<noteq> []" and acc: "all_hex C (map b_hash ?c) = Some (ah_acc h)"
      using h(2-4) by (auto simp: held_ok_def entry_ok_def)
    have tip: "last_opt (ah_hot h) = Some (last ?c)"
      using h(2,4) ne w by (simp add: entry_ok_def hot_last) (simp add: last_opt_def)
    have i: "b_index b = ah_length h" "b_previousHash b = b_hash (last ?c)"
      and c: "arch_commit C B w h b s = (Some r, s')"
      using r ch ok h(1) tip by (auto simp: arch_apply_def split: if_splits list.splits)
    have "acc_rootHex C (ah_acc h @ [l]) = b_accumulatorRoot b"
      using c ch l by (auto simp: arch_commit_def rootWithHex_def toBytes_def acc_rootHex_def split: if_splits)
    then have "next_ok C vs ?c b"
      using ok i ne acc l h(2,4) by (simp add: next_ok_def all_hex_snoc entry_ok_def)
    with no show False by contradiction
  qed
qed

lemma sim_step:
  assumes sim: "arch_sim C B vs w X s st" and r: "arch_apply C B w vs b s = (Some r, s')"
    and X: "inj_on (cidOf C) X" "encodeBlock C b \<in> X" "records_distinct b" and g: "genesis_root_ok C b" and w: "1 \<le> w"
  shows "arch_sim C B vs w X s' (snd (store_step C vs b st))"
proof -
  let ?a = "b_accountId b" let ?c = "chain st ?a"
  have inv: "store_inv C vs st" and it: "intact C B X (as_content s)" and hx: "hex_codec C"
    using sim by (auto simp: arch_sim_def store_inv_def)
  show ?thesis
  proof (cases "next_ok C vs ?c b")
    case True
    then have ch: "computeContentHash C b = b_hash b" "vs \<Longrightarrow> verifyBlockSignature C b" "b_index b = int (length ?c)"
      by (auto simp: next_ok_def)
    obtain l where l: "c_fromHex C (b_hash b) = Some l"
      using content_hash_decodes [OF hx ch(1)] by blast
    obtain e' where st: "snd (store_step C vs b st) = mset_at ?a e' st" "held_ok C vs ?a e'" "h_blocks e' = ?c @ [b]"
      using store_apply_cases [OF inv, of b] True by (auto simp: store_step_def)
    have idx: "b_index ((?c @ [b]) ! j) = int j" if "j < length (?c @ [b])" for j
      using held_index(1) [OF st(2), of j] that st(3) by simp
    define e where "e = \<lparr>h_blocks = ?c, h_acc = the (all_hex C (map b_hash ?c))\<rparr>"
    have "all_hex C (map b_hash (?c @ [b])) = Some (h_acc e')"
      using st(2,3) by (simp add: held_ok_def)
    then obtain acc where acc: "all_hex C (map b_hash ?c) = Some acc" "h_acc e' = acc @ [l]"
      using l by (auto simp: all_hex_snoc split: option.splits)
    have root: "acc_rootHex C (acc @ [l]) = b_accumulatorRoot b"
      using True acc l by (simp add: next_ok_def all_hex_snoc)
    have e': "e' = \<lparr>h_blocks = h_blocks e @ [b], h_acc = h_acc e @ [l]\<rparr>"
      using st(3) acc by (simp add: e_def)
    have com: "\<exists>h t. arch_commit C B w h b t = (Some r, s') \<and> entry_ok C B w X (as_content s) h e
        \<and> as_content t = as_content s \<and> (\<forall>x. x \<noteq> ?a \<longrightarrow> mget (as_accounts t) x = mget (as_accounts s) x)"
      using sim_entry [OF sim, of ?a]
    proof (elim disjE exE conjE)
      assume n: "?c = []" "mget (as_accounts s) ?a = None" "mget st ?a = None"
      have "arch_apply C B w vs b s = arch_commit C B w new_held b (s\<lparr>as_accounts := mset_at ?a new_held (as_accounts s)\<rparr>)"
        using ch True n by (cases vs) (simp_all add: arch_apply_def next_ok_def)
      moreover have "entry_ok C B w X (as_content s) new_held e"
        using n acc(1) by (simp add: entry_ok_def new_held_def e_def)
      ultimately show ?thesis
        using r by (intro exI [of _ new_held] exI [of _ "s\<lparr>as_accounts := mset_at ?a new_held (as_accounts s)\<rparr>"]) auto
    next
      fix h e0
      assume h: "mget (as_accounts s) ?a = Some h" "mget st ?a = Some e0" "entry_ok C B w X (as_content s) h e0"
        "held_ok C vs ?a e0" "?c = h_blocks e0"
      have ne: "?c \<noteq> []" using h(4,5) by (simp add: held_ok_def)
      have tip: "last_opt (ah_hot h) = Some (last ?c)"
        using h(3,5) ne w by (simp add: entry_ok_def hot_last) (simp add: last_opt_def)
      have not_genesis: "b_index b \<noteq> 0" using ch(3) ne by simp
      have "b_index b = ah_length h"
        using h(3,5) ch(3) by (simp add: entry_ok_def)
      then have "arch_apply C B w vs b s = arch_commit C B w h b s"
        using ch True h(1) ne tip not_genesis by (cases vs) (simp_all add: arch_apply_def next_ok_def)
      moreover have "e0 = e"
        using h(4,5) acc(1) by (simp add: e_def held_ok_def)
      ultimately show ?thesis
        using r h(3) by auto
    qed
    then obtain h t where t: "arch_commit C B w h b t = (Some r, s')" "entry_ok C B w X (as_content t) h e"
      "as_content t = as_content s" "\<And>x. x \<noteq> ?a \<Longrightarrow> mget (as_accounts t) x = mget (as_accounts s) x"
      by auto
    have "intact C B X (as_content t)" using it t(3) by simp
    from commit_entry [OF t(1,2) this X, of l] idx l root acc(1) obtain h' where
      "as_accounts s' = mset_at ?a h' (as_accounts t)" "intact C B X (as_content s')"
      "next_state C B (as_content t) (as_content s')" "entry_ok C B w X (as_content s') h' e'"
      unfolding e' by (auto simp: e_def)
    with sim_update [OF sim, of s' ?a h' e'] t(3,4) st(1,2) show ?thesis
      by auto
  next
    case False
    have "snd (store_step C vs b st) = st"
      using store_apply_cases [OF inv, of b] False g by (auto simp: store_step_def)
    moreover have "s' = s"
      using sim_refused [OF sim r g w False] .
    ultimately show ?thesis using sim by simp
  qed
qed

end

fun arch_run :: "crypto \<Rightarrow> 's backend_ops \<Rightarrow> int \<Rightarrow> bool \<Rightarrow> block list \<Rightarrow> 's archiving \<Rightarrow> 's archiving option" where
  "arch_run C B w vs [] s = Some s"
| "arch_run C B w vs (b # bs) s = (case arch_apply C B w vs b s of
     (None, s') \<Rightarrow> None
   | (Some r, s') \<Rightarrow> arch_run C B w vs bs s')"

context block_backend
begin

lemma sim_run:
  assumes "inj_on (cidOf C) X" "1 \<le> w" "\<forall>b \<in> set bs. encodeBlock C b \<in> X \<and> records_distinct b \<and> genesis_root_ok C b"
    "arch_sim C B vs w X s st" "arch_run C B w vs bs s = Some s'"
  shows "arch_sim C B vs w X s' (fold (\<lambda>b st. snd (store_step C vs b st)) bs st)"
  using assms(3-5)
proof (induction bs arbitrary: s st)
  case (Cons b bs)
  then obtain r s1 where a: "arch_apply C B w vs b s = (Some r, s1)" "arch_run C B w vs bs s1 = Some s'"
    by (auto split: prod.splits option.splits)
  have "arch_sim C B vs w X s1 (snd (store_step C vs b st))"
    by (rule sim_step [OF Cons.prems(2) a(1) assms(1)]) (use Cons.prems(1) assms(2) in simp_all)
  from Cons.IH [OF _ this a(2)] Cons.prems(1) show ?case by simp
qed simp

lemma sim_start: "hex_codec C \<Longrightarrow> honest C B st0 \<Longrightarrow> held_blocks B st0 \<subseteq> X \<Longrightarrow> arch_sim C B vs w X (new_archiving st0) []"
  by (simp add: arch_sim_def new_archiving_def store_inv_empty intact_def)

lemma getProven_sim:
  assumes sim: "arch_sim C B True w X s st" and w: "1 \<le> w" and d: "\<And>s. decoder (c_utf8 C s) = s"
    and i: "i < length (chain st a)" and big: "length (chain st a) \<le> 2147483648"
  shows "\<exists>p. getProven C B decoder a (int i) s = Some (Some \<lparr>
       pb_block = (if i < length (chain st a) - nat w then canon (chain st a ! i) else chain st a ! i), pb_index = int i,
       pb_proof = p, pb_root = b_accumulatorRoot (last (chain st a)), pb_treeSize = int (length (chain st a))\<rparr>)
     \<and> verifyInclusion C (b_accumulatorRoot (last (chain st a))) (b_hash (chain st a ! i)) (int i) (int (length (chain st a))) p = Some True"
proof -
  let ?bs = "chain st a" let ?n = "length ?bs"
  have hx: "hex_codec C" and ne: "?bs \<noteq> []"
    using sim i by (auto simp: arch_sim_def store_inv_def)
  with sim_entry [OF sim, of a] obtain h e where h: "mget (as_accounts s) a = Some h" "entry_ok C B w X (as_content s) h e"
    "held_ok C True a e" "?bs = h_blocks e"
    by blast
  have acc: "all_hex C (map b_hash ?bs) = Some (h_acc e)" and len: "length (h_acc e) = ?n"
    using h(3,4) all_hex_length [of C "map b_hash ?bs" "h_acc e"] by (auto simp: held_ok_def)
  have nxt: "next_ok C True (take j ?bs) (?bs ! j)" if "j < ?n" for j
    using h(3,4) that by (simp add: held_ok_def)
  have idx: "b_index (?bs ! j) = int j" if "j < ?n" for j
    using held_index(1) [OF h(3), of j] that h(4) by simp
  have "take (?n - 1) ?bs @ [last ?bs] = ?bs"
    using append_butlast_last_id [OF ne] by (simp only: butlast_conv_take)
  moreover have "next_ok C True (take (?n - 1) ?bs) (last ?bs)"
    using nxt [of "?n - 1"] ne by (simp add: last_conv_nth)
  ultimately have root: "acc_rootHex C (h_acc e) = b_accumulatorRoot (last ?bs)"
    unfolding next_ok_def by (simp only: acc) simp
  define p where "p = map (c_toHex C) (merkleProof C (h_acc e) i)"
  have p: "proofHex C (h_acc e) (int i) = Some p"
    using proofHex_ok [of i "h_acc e" C] i len by (simp add: p_def)
  have inc: "verifyInclusion C (b_accumulatorRoot (last ?bs)) (b_hash (?bs ! i)) (int i) (int ?n) p = Some True"
    using verifyInclusion_complete [OF hx, of i "h_acc e" "b_hash (?bs ! i)"] all_hex_nth [OF acc, of i] i big len
    by (simp add: root p_def)
  let ?k = "?n - nat w"
  have k: "?k < ?n" using ne w by (simp add: Suc_leI)
  have hot: "ah_hot h = drop ?k ?bs" and hlen: "ah_length h = int ?n" and hacc: "ah_acc h = h_acc e"
    using h(2,4) by (simp_all add: entry_ok_def)
  obtain rest where hd: "ah_hot h = ?bs ! ?k # rest"
    unfolding hot using Cons_nth_drop_Suc [OF k] by metis
  have got: "(if b_index (?bs ! ?k) \<le> int i then Some (find (\<lambda>b. b_index b = int i) (ah_hot h))
      else (case mget (ah_archived h) (int i) of None \<Rightarrow> Some None | Some ref \<Rightarrow> retrieve C B decoder ref (as_content s)))
    = Some (Some (if i < ?k then canon (?bs ! i) else ?bs ! i))"
  proof (cases "i < ?k")
    case True
    with h(2,4) have "mget (ah_archived h) (int i) = Some (ref_of C (?bs ! i))" "kept C B (?bs ! i) (as_content s)"
      "records_distinct (?bs ! i)"
      using i by (auto simp: entry_ok_def)
    moreover have "verifyBlock C (?bs ! i)"
      using nxt [OF i] by (simp add: next_ok_def verifyBlock_def)
    moreover have "\<not> b_index (?bs ! ?k) \<le> int i"
      using True unfolding idx [OF k] by linarith
    ultimately show ?thesis
      using True retrieve_kept [of C B "?bs ! i" "as_content s" decoder] d by simp
  next
    case False
    have "ah_hot h ! (i - ?k) = ?bs ! i" "i - ?k < length (ah_hot h)"
      using False i by (simp_all add: hot)
    moreover have "b_index (ah_hot h ! j) = int (?k + j)" if "j < length (ah_hot h)" for j
      using idx [of "?k + j"] that by (simp add: hot)
    ultimately have "find (\<lambda>b. b_index b = int i) (ah_hot h) = Some (?bs ! i)"
      using False idx [OF i] by (auto simp: find_Some_iff intro!: exI [of _ "i - ?k"])
    with False idx [OF k] show ?thesis by simp
  qed
  have "getProven C B decoder a (int i) s = Some (Some \<lparr>pb_block = (if i < ?k then canon (?bs ! i) else ?bs ! i), pb_index = int i,
       pb_proof = p, pb_root = b_accumulatorRoot (last ?bs), pb_treeSize = int ?n\<rparr>)"
    using got i by (simp add: getProven_def h(1) hlen hd hacc p root)
  with inc show ?thesis by blast
qed

end

text \<open>
  Two departures from the store that keeps everything. Once the genesis has left the window it is
  compared with the oldest hot block, so applying it again is a conflict; and a block whose archiving
  throws has left the window and is nowhere.
\<close>

context block_backend
begin

lemma genesis_again_refused:
  assumes sim: "arch_sim C B vs w X s st" and w: "1 \<le> w" "w < int (length (chain st a))"
    and g: "chain st a = g # rest" "\<forall>b \<in> set rest. b_hash b \<noteq> b_hash g"
  shows "arch_apply C B w vs g s = (Some (refuse ''conflicting open block''), s)" "store_apply C vs g st = Some (accept, st)"
proof -
  obtain h e where h: "mget (as_accounts s) a = Some h" "entry_ok C B w X (as_content s) h e" "held_ok C vs a e"
    "chain st a = h_blocks e" "mget st a = Some e"
    using sim_entry [OF sim, of a] g(1) by auto
  have first: "h_blocks e ! 0 = g" "h_blocks e \<noteq> []"
    using h(4) g(1) by (simp_all flip: h(4))
  then have acc: "b_accountId g = a" and ok: "next_ok C vs [] g"
    using h(3) by (auto simp: held_ok_def)
  let ?k = "length (chain st a) - nat w"
  have k: "0 < ?k" "?k < length (chain st a)"
    using w g(1) by (simp_all add: Suc_leI)
  then have "ah_hot h = chain st a ! ?k # drop (Suc ?k) (chain st a)"
    using h(2,4) by (simp add: entry_ok_def Cons_nth_drop_Suc)
  moreover have "chain st a ! ?k \<in> set rest"
    using k g(1) by (simp add: nth_Cons')
  ultimately show "arch_apply C B w vs g s = (Some (refuse ''conflicting open block''), s)"
    using ok g(2) h(1) acc by (cases vs) (auto simp: arch_apply_def next_ok_def)
  show "store_apply C vs g st = Some (accept, st)"
    using ok h(5) acc first by (cases vs) (auto simp: store_apply_def applyGenesis_def next_ok_def js_at_def)
qed

end

lemma refused_archive_loses:
  assumes "mget (as_accounts s) (b_accountId b) = Some h" "ah_hot h @ [b] = old # hot" "w < int (length (old # hot))"
    "archive_block C B old (as_content s) = (None, st')" "mget (ah_archived h) (b_index old) = None"
    "rootWithHex C (b_hash b) (ah_acc h) = Some (b_accumulatorRoot b)" "hot = h1 # hs" "b_index old < b_index h1" "0 \<le> b_index old"
  shows "\<exists>s'. arch_commit C B w h b s = (None, s') \<and> arch_length s' (b_accountId b) = ah_length h + 1
    \<and> getProven C B decoder (b_accountId b) (b_index old) s' = Some None"
  using assms by (auto simp: arch_commit_def rootWithHex_def acc_append_def arch_length_def getProven_def split: option.splits)

end
