(* ===== verification/File_Index.thy ===== *)
theory File_Index
  imports Provider_Ledger
begin

text \<open>
  The file index, \<open>src/engine/content/file-index.ts\<close>: announcements and withdrawals signed by an
  uploader, what an archive serves for a query, and what a client makes of a batch of rows. Sizes and
  timestamps are integers; a row whose members have other types is no \<open>file_record\<close> (the source refuses
  it first). The newest row of a cid wins, whoever signed it.
\<close>

record file_record =
  fr_cid :: string
  fr_sizeBytes :: int
  fr_mimeType :: "string option"
  fr_timestamp :: int
  fr_uploaderPub :: string
  fr_signature :: string
  fr_removed :: "bool option"

definition FILE_QUERY_LIMIT_DEFAULT :: int where "FILE_QUERY_LIMIT_DEFAULT = 50"
definition FILE_QUERY_LIMIT_MAX :: int where "FILE_QUERY_LIMIT_MAX = 200"

definition TOMBSTONE_RETAIN_MS :: "storage_timing \<Rightarrow> int" where
  "TOMBSTONE_RETAIN_MS T = 2 * MAX_OFFLINE_MS T"

definition withdrawn :: "file_record \<Rightarrow> bool" where
  "withdrawn r \<longleftrightarrow> fr_removed r = Some True"

definition tombstoneExpired :: "storage_timing \<Rightarrow> file_record \<Rightarrow> int \<Rightarrow> bool" where
  "tombstoneExpired T r now \<longleftrightarrow> withdrawn r \<and> now - fr_timestamp r > TOMBSTONE_RETAIN_MS T"

definition fileAnnouncePayload :: "string \<Rightarrow> int \<Rightarrow> string \<Rightarrow> int \<Rightarrow> string" where
  "fileAnnouncePayload cid sz uploader ts =
     ''file:'' @ cid @ '':'' @ int_str sz @ '':'' @ uploader @ '':'' @ int_str ts"

definition fileRemovePayload :: "string \<Rightarrow> string \<Rightarrow> int \<Rightarrow> string" where
  "fileRemovePayload cid ownerPub ts = ''file-remove:'' @ cid @ '':'' @ ownerPub @ '':'' @ int_str ts"

definition payloadFor :: "file_record \<Rightarrow> string" where
  "payloadFor r = (if withdrawn r then fileRemovePayload (fr_cid r) (fr_uploaderPub r) (fr_timestamp r)
     else fileAnnouncePayload (fr_cid r) (fr_sizeBytes r) (fr_uploaderPub r) (fr_timestamp r))"

definition isWellFormedFileRecord :: "file_record \<Rightarrow> bool" where
  "isWellFormedFileRecord r \<longleftrightarrow> fr_cid r \<noteq> [] \<and> length (fr_cid r) \<le> 256 \<and> fr_uploaderPub r \<noteq> []
     \<and> fr_signature r \<noteq> [] \<and> 0 < fr_timestamp r \<and> 0 \<le> fr_sizeBytes r"

record file_query =
  fq_cid :: "string option"
  fq_owner :: "string option"
  fq_withdrawn :: bool
  fq_limit :: "int option"

text \<open>The loop that keeps the newest row of each cid; of two rows with one timestamp the first.\<close>

definition newer_row :: "(file_record \<Rightarrow> bool) \<Rightarrow> (string, file_record) jsmap \<Rightarrow> file_record \<Rightarrow> (string, file_record) jsmap" where
  "newer_row P m r = (if \<not> P r then m
     else (case mget m (fr_cid r) of
         None \<Rightarrow> mset_at (fr_cid r) r m
       | Some prev \<Rightarrow> if fr_timestamp r > fr_timestamp prev then mset_at (fr_cid r) r m else m))"

definition newest_rows :: "(file_record \<Rightarrow> bool) \<Rightarrow> file_record list \<Rightarrow> (string, file_record) jsmap" where
  "newest_rows P rs = foldl (newer_row P) [] rs"

definition countLiveFiles :: "file_record list \<Rightarrow> int" where
  "countLiveFiles rs = int (length (filter (\<lambda>r. \<not> withdrawn r) (mvals (newest_rows isWellFormedFileRecord rs))))"

definition asks_for :: "file_query \<Rightarrow> file_record \<Rightarrow> bool" where
  "asks_for q r \<longleftrightarrow> isWellFormedFileRecord r
     \<and> (case fq_cid q of None \<Rightarrow> True | Some c \<Rightarrow> c = [] \<or> fr_cid r = c)
     \<and> (case fq_owner q of None \<Rightarrow> True | Some p \<Rightarrow> p = [] \<or> fr_uploaderPub r = p)"

definition page_limit :: "file_query \<Rightarrow> int" where
  "page_limit q = min (max 1 (case fq_limit q of None \<Rightarrow> FILE_QUERY_LIMIT_DEFAULT | Some n \<Rightarrow> n)) FILE_QUERY_LIMIT_MAX"

definition selectFileRecords :: "file_record list \<Rightarrow> file_query \<Rightarrow> file_record list" where
  "selectFileRecords rs q =
     (let newest = mvals (newest_rows (asks_for q) rs);
        page = (if fq_withdrawn q then filter withdrawn newest
          else filter (\<lambda>r. \<not> withdrawn r \<or> (case fq_cid q of None \<Rightarrow> False | Some c \<Rightarrow> c \<noteq> [])) newest)
      in take (nat (page_limit q)) (sort_key (\<lambda>r. - fr_timestamp r) page))"

text \<open>\<open>vf payload pub signature\<close> is the injected verifier.\<close>

definition authentic_row :: "(string \<Rightarrow> string \<Rightarrow> string \<Rightarrow> bool) \<Rightarrow> file_record \<Rightarrow> bool" where
  "authentic_row vf r \<longleftrightarrow> isWellFormedFileRecord r \<and> vf (payloadFor r) (fr_uploaderPub r) (fr_signature r)"

definition verifiedWithdrawals :: "file_record list \<Rightarrow> (string \<Rightarrow> string \<Rightarrow> string \<Rightarrow> bool) \<Rightarrow> string list" where
  "verifiedWithdrawals rs vf = map fst (filter (\<lambda>kv. withdrawn (snd kv)) (newest_rows (authentic_row vf) rs))"

definition foldFileRecords :: "file_record list \<Rightarrow> (string \<Rightarrow> string \<Rightarrow> string \<Rightarrow> bool) \<Rightarrow> (string, file_record) jsmap" where
  "foldFileRecords rs vf = filter (\<lambda>kv. \<not> withdrawn (snd kv)) (newest_rows (authentic_row vf) rs)"

section \<open>The newest row\<close>

definition newest_in :: "(file_record \<Rightarrow> bool) \<Rightarrow> file_record list \<Rightarrow> string \<Rightarrow> file_record option \<Rightarrow> bool" where
  "newest_in P rs c x \<longleftrightarrow> (case x of
     None \<Rightarrow> \<forall>r \<in> set rs. P r \<longrightarrow> fr_cid r \<noteq> c
   | Some r \<Rightarrow> r \<in> set rs \<and> P r \<and> fr_cid r = c \<and> (\<forall>r' \<in> set rs. P r' \<and> fr_cid r' = c \<longrightarrow> fr_timestamp r' \<le> fr_timestamp r))"

lemma newest_rows_snoc: "newest_rows P (rs @ [r]) = newer_row P (newest_rows P rs) r"
  by (simp add: newest_rows_def)

lemma newest_rows_mget: "newest_in P rs c (mget (newest_rows P rs) c)"
proof (induction rs rule: rev_induct)
  case Nil
  then show ?case by (simp add: newest_rows_def newest_in_def)
next
  case (snoc r rs)
  show ?case
    using snoc unfolding newest_rows_snoc newer_row_def newest_in_def
    by (auto split: option.splits)
qed

lemma newest_rows_wf [simp]: "wf_map (newest_rows P rs)"
proof (induction rs rule: rev_induct)
  case Nil
  then show ?case by (simp add: newest_rows_def)
next
  case (snoc r rs)
  then show ?case by (auto simp: newest_rows_snoc newer_row_def split: option.split)
qed

lemma newest_rows_in: "(c, r) \<in> set (newest_rows P rs) \<longleftrightarrow> mget (newest_rows P rs) c = Some r"
  using mget_in [OF newest_rows_wf] by blast

lemma fold_mget: "mget (foldFileRecords rs vf) c = (case mget (newest_rows (authentic_row vf) rs) c of
    None \<Rightarrow> None | Some r \<Rightarrow> if withdrawn r then None else Some r)"
  by (simp add: foldFileRecords_def mget_filter split: option.split)

lemma withdrawals_iff: "c \<in> set (verifiedWithdrawals rs vf) \<longleftrightarrow> (\<exists>r. mget (newest_rows (authentic_row vf) rs) c = Some r \<and> withdrawn r)"
  by (force simp: verifiedWithdrawals_def newest_rows_in [symmetric])

end
