(* ===== verification/File_Archive.thy ===== *)
theory File_Archive
  imports File_Index
begin

text \<open>
  File records between relays and nodes: the archive of a relay (\<open>archiveFileRecord\<close> and
  \<open>GET /files\<close> of \<open>src/relay/server.ts\<close>), the union over relays (\<open>fetchFileRecords\<close> of
  \<open>src/network/account-resolver.ts\<close>), and what a node does with it (\<open>lookupFiles\<close> and
  \<open>sweepWithdrawnContent\<close> of \<open>src/network/node.ts\<close>). The answer of a relay is an argument. What a lookup
  returns is signed by its uploaders; but the union is taken before anything is verified, and a
  withdrawal is taken from whoever signs one.
\<close>

section \<open>The archive of a relay\<close>

type_synonym file_store = "(string, string \<times> file_record) jsmap"

definition MAX_FILE_RECORDS :: int where "MAX_FILE_RECORDS = 200000"

definition verifyFileSignature :: "crypto \<Rightarrow> string \<Rightarrow> string \<Rightarrow> string \<Rightarrow> bool" where
  "verifyFileSignature C sig pub payload = verify_str C sig payload pub"

definition file_key :: "string \<Rightarrow> string \<Rightarrow> string" where
  "file_key net cid = net @ '':'' @ cid"

definition retire_tombstones :: "storage_timing \<Rightarrow> string \<Rightarrow> int \<Rightarrow> file_store \<Rightarrow> file_store" where
  "retire_tombstones T net now st = filter (\<lambda>(k, n, r). \<not> (n = net \<and> tombstoneExpired T r now)) st"

definition cap_files :: "file_store \<Rightarrow> file_store" where
  "cap_files st = (if int (length st) > MAX_FILE_RECORDS
     then (let excess = nat (int (length st) - MAX_FILE_RECORDS);
         oldest = map fst (take excess (sort_key (\<lambda>kv. fr_timestamp (snd (snd kv))) st))
       in filter (\<lambda>kv. fst kv \<notin> set oldest) st)
     else st)"

definition archiveFileRecord :: "crypto \<Rightarrow> storage_timing \<Rightarrow> bool \<Rightarrow> file_record \<Rightarrow> string \<Rightarrow> int \<Rightarrow> file_store \<Rightarrow> file_store" where
  "archiveFileRecord C T enabled r net now st =
     (if \<not> enabled \<or> \<not> isWellFormedFileRecord r then st
      else (let k = file_key net (fr_cid r) in
        if (case mget st k of None \<Rightarrow> False | Some (n, e) \<Rightarrow> fr_timestamp e \<ge> fr_timestamp r) then st
        else if \<not> verifyFileSignature C (fr_signature r) (fr_uploaderPub r) (payloadFor r) then st
        else cap_files (retire_tombstones T net now (mset_at k (net, r) st))))"

text \<open>The rows and the live count of \<open>GET /files\<close>; a limit of zero is none.\<close>

definition serve_files :: "string \<Rightarrow> file_query \<Rightarrow> file_store \<Rightarrow> file_record list \<times> int" where
  "serve_files net q st = (let scoped = map (\<lambda>kv. snd (snd kv)) (filter (\<lambda>kv. fst (snd kv) = net) st) in
     (selectFileRecords scoped (q\<lparr>fq_limit := (if fq_limit q = Some 0 then None else fq_limit q)\<rparr>), countLiveFiles scoped))"

section \<open>A client\<close>

text \<open>A base with its answer, \<open>None\<close> when it did not answer.\<close>

type_synonym file_answers = "(string \<times> (file_record list \<times> int option) option) list"

definition fetched_rows :: "file_answers \<Rightarrow> file_record list" where
  "fetched_rows xs = concat (map (\<lambda>x. case snd x of None \<Rightarrow> [] | Some (rs, _) \<Rightarrow> rs) xs)"

definition fetchFileRecords :: "file_answers \<Rightarrow> file_record list \<times> int list \<times> (string \<times> bool) list" where
  "fetchFileRecords xs = (mvals (newest_rows (\<lambda>_. True) (fetched_rows xs)),
     concat (map (\<lambda>x. case snd x of Some (_, Some n) \<Rightarrow> [n] | _ \<Rightarrow> []) xs),
     map (\<lambda>x. (fst x, snd x \<noteq> None)) xs)"

definition verifyStorageMsg :: "crypto \<Rightarrow> string \<Rightarrow> string \<Rightarrow> string \<Rightarrow> bool" where
  "verifyStorageMsg C sig payload pub = (if sig = [] \<or> pub = [] then False else verify_str C sig payload pub)"

abbreviation checks_row :: "crypto \<Rightarrow> string \<Rightarrow> string \<Rightarrow> string \<Rightarrow> bool" where
  "checks_row C \<equiv> \<lambda>payload pub sig. verifyStorageMsg C sig payload pub"

definition lookupFiles :: "crypto \<Rightarrow> file_answers \<Rightarrow> file_record list \<times> int list" where
  "lookupFiles C xs = (case fetchFileRecords xs of (rs, totals, _) \<Rightarrow> (mvals (foldFileRecords rs (checks_row C)), totals))"

text \<open>What is held after the sweep, and how many cids it dropped.\<close>

definition sweepWithdrawnContent :: "crypto \<Rightarrow> string list \<Rightarrow> file_answers \<Rightarrow> string list \<times> int" where
  "sweepWithdrawnContent C held xs =
     (let gone = filter (\<lambda>c. c \<in> set held) (verifiedWithdrawals (fst (fetchFileRecords xs)) (checks_row C))
      in (filter (\<lambda>c. c \<notin> set gone) held, int (length gone)))"

section \<open>What a lookup returns\<close>

lemma mvals_newest: "r \<in> set (mvals (newest_rows P rs)) \<longleftrightarrow> mget (newest_rows P rs) (fr_cid r) = Some r"
proof
  assume "r \<in> set (mvals (newest_rows P rs))"
  then obtain c where c: "mget (newest_rows P rs) c = Some r"
    by (auto simp: mvals_def newest_rows_in)
  then show "mget (newest_rows P rs) (fr_cid r) = Some r"
    using newest_rows_mget [of P rs c] by (simp add: newest_in_def)
next
  assume "mget (newest_rows P rs) (fr_cid r) = Some r"
  then show "r \<in> set (mvals (newest_rows P rs))"
    by (force simp: mvals_def newest_rows_in [symmetric])
qed

lemma newest_Some:
  assumes "mget (newest_rows P rs) c = Some r"
  shows "r \<in> set rs" "P r" "fr_cid r = c" "\<And>r'. r' \<in> set rs \<Longrightarrow> P r' \<Longrightarrow> fr_cid r' = c \<Longrightarrow> fr_timestamp r' \<le> fr_timestamp r"
  using newest_rows_mget [of P rs c] assms by (auto simp: newest_in_def)

lemma newest_unique:
  assumes "r \<in> set rs" "P r" "\<And>r'. r' \<in> set rs \<Longrightarrow> P r' \<Longrightarrow> fr_cid r' = fr_cid r \<Longrightarrow> r' \<noteq> r \<Longrightarrow> fr_timestamp r' < fr_timestamp r"
  shows "mget (newest_rows P rs) (fr_cid r) = Some r"
proof (cases "mget (newest_rows P rs) (fr_cid r)")
  case None
  with newest_rows_mget [of P rs "fr_cid r"] assms(1,2) show ?thesis by (auto simp: newest_in_def)
next
  case (Some x)
  note x = newest_Some [OF this]
  have "fr_timestamp r \<le> fr_timestamp x" using x(4) assms(1,2) by blast
  with assms(3) [OF x(1,2,3)] have "x = r" by force
  with Some show ?thesis by simp
qed

lemma lookup_in:
  "r \<in> set (fst (lookupFiles C xs)) \<longleftrightarrow>
     mget (newest_rows (authentic_row (checks_row C)) (mvals (newest_rows (\<lambda>_. True) (fetched_rows xs)))) (fr_cid r) = Some r \<and> \<not> withdrawn r"
proof -
  let ?m = "newest_rows (authentic_row (checks_row C)) (mvals (newest_rows (\<lambda>_. True) (fetched_rows xs)))"
  have "r \<in> set (mvals (foldFileRecords (fst (fetchFileRecords xs)) (checks_row C))) \<longleftrightarrow> r \<in> set (mvals ?m) \<and> \<not> withdrawn r"
    by (force simp: fetchFileRecords_def foldFileRecords_def mvals_def)
  then show ?thesis
    by (simp add: lookupFiles_def mvals_newest fetchFileRecords_def)
qed

lemma lookup_authentic:
  assumes "r \<in> set (fst (lookupFiles C xs))"
  shows "r \<in> set (fetched_rows xs)" "isWellFormedFileRecord r" "\<not> withdrawn r"
    "verify_str C (fr_signature r) (fileAnnouncePayload (fr_cid r) (fr_sizeBytes r) (fr_uploaderPub r) (fr_timestamp r)) (fr_uploaderPub r)"
    "\<And>r'. r' \<in> set (fetched_rows xs) \<Longrightarrow> fr_cid r' = fr_cid r \<Longrightarrow> fr_timestamp r' \<le> fr_timestamp r"
proof -
  note u = assms [unfolded lookup_in]
  note n = newest_Some [OF conjunct1 [OF u]]
  have m: "mget (newest_rows (\<lambda>_. True) (fetched_rows xs)) (fr_cid r) = Some r"
    using n(1) by (simp add: mvals_newest)
  show "r \<in> set (fetched_rows xs)" "\<And>r'. r' \<in> set (fetched_rows xs) \<Longrightarrow> fr_cid r' = fr_cid r \<Longrightarrow> fr_timestamp r' \<le> fr_timestamp r"
    using newest_Some [OF m] by auto
  show w: "\<not> withdrawn r" using u by simp
  show "isWellFormedFileRecord r"
    "verify_str C (fr_signature r) (fileAnnouncePayload (fr_cid r) (fr_sizeBytes r) (fr_uploaderPub r) (fr_timestamp r)) (fr_uploaderPub r)"
    using n(2) w by (auto simp: authentic_row_def verifyStorageMsg_def payloadFor_def split: if_splits)
qed

section \<open>One relay hides a file\<close>

definition forged_row :: "string \<Rightarrow> int \<Rightarrow> file_record" where
  "forged_row c t = \<lparr>fr_cid = c, fr_sizeBytes = 0, fr_mimeType = None, fr_timestamp = t, fr_uploaderPub = ''x'', fr_signature = [],
     fr_removed = None\<rparr>"

lemma forged_hides:
  assumes "\<forall>r \<in> set (fetched_rows xs). fr_timestamp r < t" "answers = xs @ [(b, Some ([forged_row c t], n))]"
  shows "r \<in> set (fst (lookupFiles C answers)) \<Longrightarrow> fr_cid r \<noteq> c"
    "c \<notin> set (verifiedWithdrawals (fst (fetchFileRecords answers)) (checks_row C))"
proof -
  let ?rows = "fetched_rows answers" let ?m = "newest_rows (\<lambda>_. True) ?rows"
  have rows: "?rows = fetched_rows xs @ [forged_row c t]"
    by (simp add: assms(2) fetched_rows_def)
  have c: "fr_cid (forged_row c t) = c" by (simp add: forged_row_def)
  have m: "mget ?m (fr_cid (forged_row c t)) = Some (forged_row c t)"
    by (rule newest_unique) (use assms(1) in \<open>auto simp: rows forged_row_def\<close>)
  have none: "mget (newest_rows (authentic_row (checks_row C)) (mvals ?m)) c = None"
  proof (rule ccontr)
    assume "mget (newest_rows (authentic_row (checks_row C)) (mvals ?m)) c \<noteq> None"
    then obtain r where r: "mget (newest_rows (authentic_row (checks_row C)) (mvals ?m)) c = Some r" by blast
    have "mget ?m c = Some r"
      using newest_Some(1,3) [OF r] by (auto simp: mvals_newest)
    with m c have "r = forged_row c t" by simp
    with newest_Some(2) [OF r] show False
      by (simp add: authentic_row_def isWellFormedFileRecord_def forged_row_def)
  qed
  then show "r \<in> set (fst (lookupFiles C answers)) \<Longrightarrow> fr_cid r \<noteq> c"
    by (auto simp: lookup_in)
  show "c \<notin> set (verifiedWithdrawals (fst (fetchFileRecords answers)) (checks_row C))"
    using none by (simp add: withdrawals_iff fetchFileRecords_def)
qed

section \<open>Anyone withdraws a file\<close>

text \<open>The withdrawal of a cid by any key holder, and its way through an archive to a holder.\<close>

definition withdrawal :: "string \<Rightarrow> string \<Rightarrow> int \<Rightarrow> string \<Rightarrow> file_record" where
  "withdrawal c pub t sig = \<lparr>fr_cid = c, fr_sizeBytes = 0, fr_mimeType = None, fr_timestamp = t, fr_uploaderPub = pub,
     fr_signature = sig, fr_removed = Some True\<rparr>"

lemma withdrawal_simps [simp]:
  "fr_cid (withdrawal c pub t sig) = c" "fr_timestamp (withdrawal c pub t sig) = t" "withdrawn (withdrawal c pub t sig)"
  "fr_uploaderPub (withdrawal c pub t sig) = pub" "fr_signature (withdrawal c pub t sig) = sig"
  "payloadFor (withdrawal c pub t sig) = fileRemovePayload c pub t"
  by (simp_all add: withdrawal_def withdrawn_def payloadFor_def)

lemma sort_key_last:
  assumes "x \<in> set xs" "\<And>y. y \<in> set xs \<Longrightarrow> y \<noteq> x \<Longrightarrow> f y < f x" "distinct xs" "k < length xs"
  shows "x \<notin> set (take k (sort_key (f :: 'a \<Rightarrow> int) xs))"
proof
  let ?ys = "sort_key f xs"
  assume "x \<in> set (take k ?ys)"
  then obtain i where i: "i < k" "?ys ! i = x" "i < length xs"
    using assms(4) by (auto simp: in_set_conv_nth)
  have "f (?ys ! i) \<le> f (?ys ! k)"
    using sorted_nth_mono [of "map f ?ys" i k] i(1) assms(4) by simp
  moreover have "?ys ! k \<in> set xs"
    using assms(4) nth_mem [of k ?ys] by simp
  ultimately have "?ys ! k = x"
    using assms(2) i(2) by force
  with i assms(3,4) show False
    using nth_eq_iff_index_eq [of ?ys i k] by simp
qed

lemma sort_key_first:
  assumes "x \<in> set xs" "\<And>y. y \<in> set xs \<Longrightarrow> y \<noteq> x \<Longrightarrow> f x < f y" "1 \<le> k"
  shows "x \<in> set (take k (sort_key (f :: 'a \<Rightarrow> int) xs))"
proof -
  let ?ys = "sort_key f xs"
  have ne: "?ys \<noteq> []"
    using assms(1) by (metis empty_iff list.set(1) set_sort)
  then have "hd ?ys \<in> set xs"
    using hd_in_set [OF ne] by simp
  moreover have "f (hd ?ys) \<le> f y" if "y \<in> set ?ys" for y
  proof -
    have "sorted (map f (hd ?ys # tl ?ys))"
      using ne sorted_sort_key [of f xs] by simp
    then have "\<forall>z \<in> set (tl ?ys). f (hd ?ys) \<le> f z"
      by simp
    moreover have "y = hd ?ys \<or> y \<in> set (tl ?ys)"
      using that ne by (metis list.collapse set_ConsD)
    ultimately show ?thesis by auto
  qed
  then have "f (hd ?ys) \<le> f x"
    using assms(1) by simp
  ultimately have "hd ?ys = x"
    using assms(2) by force
  with ne assms(3) show ?thesis
    by (cases ?ys; cases k) auto
qed

lemma kept_newest:
  assumes "wf_map st" "(k, v) \<in> set st" "\<And>kv. kv \<in> set st \<Longrightarrow> kv \<noteq> (k, v) \<Longrightarrow> fr_timestamp (snd (snd kv)) < fr_timestamp (snd v)"
  shows "(k, v) \<in> set (cap_files st)"
proof (cases "int (length st) > MAX_FILE_RECORDS")
  case True
  let ?f = "\<lambda>kv. fr_timestamp (snd (snd kv))" let ?n = "nat (int (length st) - MAX_FILE_RECORDS)"
  have d: "distinct st"
    using assms(1) by (simp add: wf_map_def distinct_map)
  have "(k, v) \<notin> set (take ?n (sort_key ?f st))"
    by (rule sort_key_last) (use assms(2,3) d True in \<open>auto simp: MAX_FILE_RECORDS_def\<close>)
  moreover have "kv = (k, v)" if "kv \<in> set (take ?n (sort_key ?f st))" "fst kv = k" for kv
  proof -
    have "kv \<in> set st"
      using that(1) by (metis in_set_takeD set_sort)
    with that(2) assms(1,2) show ?thesis
      by (cases kv) (auto simp: wf_map_def dest: eq_key_imp_eq_value)
  qed
  ultimately have "k \<notin> set (map fst (take ?n (sort_key ?f st)))"
    by auto
  with True assms(2) show ?thesis
    by (auto simp: cap_files_def Let_def)
qed (simp add: cap_files_def assms(2))

lemma archived_withdrawal:
  assumes "isWellFormedFileRecord r" "verifyFileSignature C (fr_signature r) (fr_uploaderPub r) (payloadFor r)"
    "wf_map st" "\<forall>kv \<in> set st. fr_timestamp (snd (snd kv)) < fr_timestamp r" "now - fr_timestamp r \<le> TOMBSTONE_RETAIN_MS T"
  shows "(file_key net (fr_cid r), net, r) \<in> set (archiveFileRecord C T True r net now st)"
    "\<forall>kv \<in> set (archiveFileRecord C T True r net now st). kv = (file_key net (fr_cid r), net, r) \<or> fr_timestamp (snd (snd kv)) < fr_timestamp r"
proof -
  let ?k = "file_key net (fr_cid r)" let ?st = "mset_at ?k (net, r) st" let ?ret = "retire_tombstones T net now ?st"
  have fresh: "\<not> (case mget st ?k of None \<Rightarrow> False | Some (n, e) \<Rightarrow> fr_timestamp e \<ge> fr_timestamp r)"
  proof (cases "mget st ?k")
    case (Some ne)
    then have "(?k, ne) \<in> set st"
      using mget_in [OF assms(3)] by blast
    with assms(4) have "fr_timestamp (snd ne) < fr_timestamp r"
      by fastforce
    with Some show ?thesis by (cases ne) simp
  qed simp
  have a: "archiveFileRecord C T True r net now st = cap_files ?ret"
    using assms(1,2) fresh by (simp add: archiveFileRecord_def Let_def)
  have wf: "wf_map ?st" "wf_map ?ret"
    using assms(3) by (simp_all add: retire_tombstones_def)
  have all: "kv = (?k, net, r) \<or> fr_timestamp (snd (snd kv)) < fr_timestamp r" if "kv \<in> set ?st" for kv
  proof (cases "fst kv = ?k")
    case True
    then show ?thesis
      using that mget_in [OF wf(1), of ?k "snd kv"] by (cases kv) auto
  next
    case False
    then have "kv \<in> set st"
      using that mget_in [OF wf(1), of "fst kv" "snd kv"] mget_in [OF assms(3), of "fst kv" "snd kv"] by simp
    with assms(4) show ?thesis by blast
  qed
  have "(?k, net, r) \<in> set ?st"
    using mget_in [OF wf(1), of ?k "(net, r)"] by simp
  then have r: "(?k, net, r) \<in> set ?ret"
    using assms(5) by (simp add: retire_tombstones_def tombstoneExpired_def)
  have sub: "set ?ret \<subseteq> set ?st"
    by (auto simp: retire_tombstones_def)
  show "(?k, net, r) \<in> set (archiveFileRecord C T True r net now st)"
    unfolding a by (rule kept_newest [OF wf(2) r]) (use all sub in force)
  have "set (cap_files ?ret) \<subseteq> set ?ret"
    by (auto simp: cap_files_def Let_def)
  with all sub show "\<forall>kv \<in> set (archiveFileRecord C T True r net now st). kv = (?k, net, r) \<or> fr_timestamp (snd (snd kv)) < fr_timestamp r"
    unfolding a by blast
qed

lemma served_newest:
  assumes "(k, net, r) \<in> set st" "\<forall>kv \<in> set st. kv = (k, net, r) \<or> fr_timestamp (snd (snd kv)) < fr_timestamp r"
    "withdrawn r" "isWellFormedFileRecord r" "fq_cid q = None" "fq_owner q = None" "fq_withdrawn q"
  shows "r \<in> set (fst (serve_files net q st))" "\<forall>x \<in> set (fst (serve_files net q st)). x = r \<or> fr_timestamp x < fr_timestamp r"
proof -
  let ?q = "q\<lparr>fq_limit := (if fq_limit q = Some 0 then None else fq_limit q)\<rparr>"
  let ?sc = "map (\<lambda>kv. snd (snd kv)) (filter (\<lambda>kv. fst (snd kv) = net) st)"
  let ?page = "filter withdrawn (mvals (newest_rows (asks_for ?q) ?sc))"
  have sc: "r \<in> set ?sc" "\<And>x. x \<in> set ?sc \<Longrightarrow> x = r \<or> fr_timestamp x < fr_timestamp r"
    using assms(1,2) by force+
  have out: "fst (serve_files net q st) = take (nat (page_limit ?q)) (sort_key (\<lambda>r. - fr_timestamp r) ?page)"
    using assms(7) by (simp add: serve_files_def selectFileRecords_def Let_def)
  have "mget (newest_rows (asks_for ?q) ?sc) (fr_cid r) = Some r"
    by (rule newest_unique) (use sc assms(4-6) in \<open>force simp: asks_for_def\<close>)+
  then have "r \<in> set ?page"
    using assms(3) by (simp add: mvals_newest)
  moreover have sub: "x \<in> set ?sc" if "x \<in> set ?page" for x
    using that newest_Some(1) by (fastforce simp: mvals_newest)
  moreover have "1 \<le> nat (page_limit ?q)"
    by (simp add: page_limit_def FILE_QUERY_LIMIT_MAX_def)
  ultimately show "r \<in> set (fst (serve_files net q st))"
    unfolding out using sc(2) by (intro sort_key_first) force+
  show "\<forall>x \<in> set (fst (serve_files net q st)). x = r \<or> fr_timestamp x < fr_timestamp r"
    unfolding out using sc(2) sub by (metis in_set_takeD set_sort)
qed

lemma swept:
  assumes "r \<in> set rows" "\<forall>x \<in> set rows. x = r \<or> fr_timestamp x < fr_timestamp r" "withdrawn r" "authentic_row (checks_row C) r"
  shows "fr_cid r \<notin> set (fst (sweepWithdrawnContent C held [(b, Some (rows, n))]))"
    "fr_cid r \<in> set held \<Longrightarrow> 1 \<le> snd (sweepWithdrawnContent C held [(b, Some (rows, n))])"
proof -
  let ?m = "newest_rows (\<lambda>_. True) rows"
  have "mget ?m (fr_cid r) = Some r"
    by (rule newest_unique) (use assms(1,2) in force)+
  then have r: "r \<in> set (mvals ?m)"
    by (simp add: mvals_newest)
  have "x \<in> set rows" if "x \<in> set (mvals ?m)" for x
    using that newest_Some(1) by (fastforce simp: mvals_newest)
  with assms(2) have "mget (newest_rows (authentic_row (checks_row C)) (mvals ?m)) (fr_cid r) = Some r"
    by (intro newest_unique r assms(4)) blast
  with assms(3) have w: "fr_cid r \<in> set (verifiedWithdrawals (mvals ?m) (checks_row C))"
    by (auto simp: withdrawals_iff)
  then show "fr_cid r \<notin> set (fst (sweepWithdrawnContent C held [(b, Some (rows, n))]))"
    by (simp add: sweepWithdrawnContent_def fetchFileRecords_def fetched_rows_def Let_def)
  assume "fr_cid r \<in> set held"
  with w have "fr_cid r \<in> set (filter (\<lambda>c. c \<in> set held) (verifiedWithdrawals (mvals ?m) (checks_row C)))"
    by simp
  from length_pos_if_in_set [OF this] show "1 \<le> snd (sweepWithdrawnContent C held [(b, Some (rows, n))])"
    by (simp add: sweepWithdrawnContent_def fetchFileRecords_def fetched_rows_def Let_def Suc_le_eq)
qed

lemma foreign_withdrawal:
  assumes "hex_codec C" "signing C" "publicKeyFromPrivate C priv = Some pub" "sign_str C (fileRemovePayload c pub t) priv = Some sig"
    "sig \<noteq> []" "pub \<noteq> []" "c \<noteq> []" "length c \<le> 256" "0 < t" "now - t \<le> TOMBSTONE_RETAIN_MS T"
    "wf_map st" "\<forall>kv \<in> set st. fr_timestamp (snd (snd kv)) < t"
  shows "let st' = archiveFileRecord C T True (withdrawal c pub t sig) net now st;
      served = serve_files net \<lparr>fq_cid = None, fq_owner = None, fq_withdrawn = True, fq_limit = Some 200\<rparr> st';
      (held', dropped) = sweepWithdrawnContent C held [(b, Some (fst served, Some (snd served)))]
    in c \<notin> set held' \<and> (c \<in> set held \<longrightarrow> 1 \<le> dropped)"
proof -
  let ?r = "withdrawal c pub t sig" let ?q = "\<lparr>fq_cid = None, fq_owner = None, fq_withdrawn = True, fq_limit = Some 200\<rparr> :: file_query"
  let ?st = "archiveFileRecord C T True ?r net now st"
  have ok: "verify_str C sig (fileRemovePayload c pub t) pub"
    using verify_sign_str assms(1-4) .
  have wf: "isWellFormedFileRecord ?r"
    using assms(5-9) by (simp add: isWellFormedFileRecord_def withdrawal_def)
  have a: "(file_key net c, net, ?r) \<in> set ?st" "\<forall>kv \<in> set ?st. kv = (file_key net c, net, ?r) \<or> fr_timestamp (snd (snd kv)) < fr_timestamp ?r"
    using archived_withdrawal [OF wf _ assms(11), of C now T net] ok assms(10,12) by (simp_all add: verifyFileSignature_def)
  note s = served_newest [OF a _ wf, of ?q, simplified]
  have "authentic_row (checks_row C) ?r"
    using wf ok assms(5,6) by (simp add: authentic_row_def verifyStorageMsg_def)
  with swept [OF s(1), where C = C and held = held and b = b and n = "Some (snd (serve_files net ?q ?st))"] s(2)
  show ?thesis by (auto simp: Let_def split: prod.split)
qed

section \<open>What an archive holds\<close>

definition archive_ok :: "crypto \<Rightarrow> file_store \<Rightarrow> bool" where
  "archive_ok C st \<longleftrightarrow> wf_map st \<and> int (length st) \<le> MAX_FILE_RECORDS
     \<and> (\<forall>(k, net, r) \<in> set st. k = file_key net (fr_cid r) \<and> isWellFormedFileRecord r
         \<and> verifyFileSignature C (fr_signature r) (fr_uploaderPub r) (payloadFor r))"

lemma cap_files_length:
  assumes "wf_map st"
  shows "int (length (cap_files st)) \<le> MAX_FILE_RECORDS"
proof (cases "int (length st) > MAX_FILE_RECORDS")
  case True
  let ?n = "nat (int (length st) - MAX_FILE_RECORDS)"
  let ?old = "take ?n (sort_key (\<lambda>kv. fr_timestamp (snd (snd kv))) st)"
  have d: "distinct (map fst st)" using assms by (simp add: wf_map_def)
  then have ds: "distinct (map fst (sort_key (\<lambda>kv. fr_timestamp (snd (snd kv))) st))"
    by (simp add: distinct_map)
  have n: "?n \<le> length st" by (simp add: MAX_FILE_RECORDS_def)
  have "distinct (map fst ?old)"
    unfolding take_map [symmetric] by (rule distinct_take [OF ds])
  from distinct_card [OF this] n have c: "card (fst ` set ?old) = ?n"
    by simp
  have "set ?old \<subseteq> set st"
    by (metis set_sort set_take_subset)
  then have sub: "fst ` set ?old \<subseteq> fst ` set st"
    by (rule image_mono)
  have "length (cap_files st) = length (map fst (filter (\<lambda>kv. fst kv \<notin> fst ` set ?old) st))"
    using True by (simp add: cap_files_def Let_def)
  also have "\<dots> = card (fst ` set st - fst ` set ?old)"
    using d by (subst distinct_card [symmetric]) (auto simp: distinct_map_filter intro: arg_cong [where f = card])
  also have "\<dots> = length st - ?n"
    using sub c d distinct_card [OF d] by (simp add: card_Diff_subset)
  finally show ?thesis
    using True n by (simp add: MAX_FILE_RECORDS_def)
qed (simp add: cap_files_def)

lemma archive_step_ok: "archive_ok C st \<Longrightarrow> archive_ok C (archiveFileRecord C T enabled r net now st)"
proof -
  assume ok: "archive_ok C st"
  let ?k = "file_key net (fr_cid r)" let ?ret = "retire_tombstones T net now (mset_at ?k (net, r) st)"
  have wf: "wf_map (mset_at ?k (net, r) st)" "wf_map ?ret" "wf_map (cap_files ?ret)"
    using ok by (simp_all add: archive_ok_def retire_tombstones_def cap_files_def Let_def)
  have sub: "set (cap_files ?ret) \<subseteq> set (mset_at ?k (net, r) st)"
    by (auto simp: cap_files_def retire_tombstones_def Let_def)
  have mem: "(a, v) = (?k, net, r) \<or> (a, v) \<in> set st" if "(a, v) \<in> set (mset_at ?k (net, r) st)" for a v
  proof -
    have "mget (mset_at ?k (net, r) st) a = Some v"
      using that by (rule iffD2 [OF mget_in [OF wf(1)]])
    then show ?thesis
      by (cases "a = ?k") (auto dest: map_of_SomeD)
  qed
  show ?thesis
  proof (cases "archiveFileRecord C T enabled r net now st = cap_files ?ret \<and> isWellFormedFileRecord r
      \<and> verifyFileSignature C (fr_signature r) (fr_uploaderPub r) (payloadFor r)")
    case True
    have "archive_ok C (cap_files ?ret)"
      unfolding archive_ok_def
    proof (intro conjI wf(3) cap_files_length wf(2) ballI)
      fix x assume "x \<in> set (cap_files ?ret)"
      with sub mem [of "fst x" "snd x"] have "x = (?k, net, r) \<or> x \<in> set st"
        by auto
      with True ok show "case x of (k, net, r) \<Rightarrow> k = file_key net (fr_cid r) \<and> isWellFormedFileRecord r
         \<and> verifyFileSignature C (fr_signature r) (fr_uploaderPub r) (payloadFor r)"
        unfolding archive_ok_def by auto
    qed
    with True show ?thesis by simp
  next
    case False
    then have "archiveFileRecord C T enabled r net now st = st"
      by (auto simp: archiveFileRecord_def Let_def split: if_splits)
    with ok show ?thesis by simp
  qed
qed

lemma archive_run_ok: "archive_ok C (foldl (\<lambda>st (r, net, now). archiveFileRecord C T enabled r net now st) [] rs)"
proof (induction rs rule: rev_induct)
  case Nil
  show ?case by (simp add: archive_ok_def MAX_FILE_RECORDS_def)
next
  case (snoc x rs)
  then show ?case by (cases x) (simp add: archive_step_ok)
qed

end
