(* ===== verification/Account_Resolver.thy ===== *)
theory Account_Resolver
  imports Block_Codec Light_Verify Dag_Block
begin

text \<open>
  Questions to the relays: \<open>src/network/account-resolver.ts\<close>, the account archive of
  \<open>src/relay/server.ts\<close>, and the gates of \<open>src/network/node.ts\<close> that act on the answers. The
  answers, in the order of the bases, are an argument; \<open>None\<close> is a base that did not answer or answered with
  an error. A record that comes back is signed by its account and binds the name asked for, and a block is the block
  asked for; but the version is not signed, the later creation date wins between two accounts, and the head
  index of a relay is believed.
\<close>

section \<open>Account records\<close>

record account_record =
  ac_pub :: string
  ac_username :: string
  ac_createdAt :: int
  ac_faceMapHash :: string
  ac_sig :: "string option"
  ac_version :: "int option"

definition accountRecordPayload :: "account_record \<Rightarrow> string" where
  "accountRecordPayload a = ''account:'' @ ac_pub a @ '':'' @ ac_username a @ '':'' @ int_str (ac_createdAt a) @ '':'' @ ac_faceMapHash a"

definition verifyAccountRecordSig :: "crypto \<Rightarrow> account_record \<Rightarrow> bool" where
  "verifyAccountRecordSig C a = (case ac_sig a of
     None \<Rightarrow> False
   | Some s \<Rightarrow> s \<noteq> [] \<and> ac_pub a \<noteq> [] \<and> verify_str C s (accountRecordPayload a) (ac_pub a))"

text \<open>\<open>toLowerCase\<close> on the one-byte characters of the model.\<close>

definition js_lower :: "string \<Rightarrow> string" where
  "js_lower = map (\<lambda>c. let n = of_char c :: nat in
     if 65 \<le> n \<and> n \<le> 90 \<or> 192 \<le> n \<and> n \<le> 222 \<and> n \<noteq> 215 then char_of (n + 32) else c)"

definition looksLikeAccountPub :: "string \<Rightarrow> bool" where
  "looksLikeAccountPub s \<longleftrightarrow> length s = 66 \<and> hd s = CHR ''0'' \<and> s ! 1 \<in> {CHR ''2'', CHR ''3''}
     \<and> list_all (\<lambda>c. c \<in> set ''0123456789abcdefABCDEF'') (drop 2 s)"

datatype resolve_query = ByName string | ByPub string

definition version :: "account_record \<Rightarrow> int" where
  "version a = (case ac_version a of None \<Rightarrow> 0 | Some v \<Rightarrow> v)"

definition answers_query :: "crypto \<Rightarrow> resolve_query \<Rightarrow> account_record \<Rightarrow> bool" where
  "answers_query C q r \<longleftrightarrow> ac_pub r \<noteq> [] \<and> ac_username r \<noteq> [] \<and> verifyAccountRecordSig C r
     \<and> (case q of ByName u \<Rightarrow> js_lower (ac_username r) = js_lower (js_trim u) | ByPub p \<Rightarrow> ac_pub r = p)"

definition better_record :: "account_record \<Rightarrow> account_record \<Rightarrow> account_record" where
  "better_record best r = (if ac_pub r = ac_pub best then (if version r > version best then r else best)
     else if ac_createdAt r > ac_createdAt best then r else best)"

definition take_record :: "crypto \<Rightarrow> resolve_query \<Rightarrow> account_record option \<Rightarrow> account_record option \<Rightarrow> account_record option" where
  "take_record C q best answer = (case answer of
     None \<Rightarrow> best
   | Some r \<Rightarrow> if \<not> answers_query C q r then best
       else (case best of None \<Rightarrow> Some r | Some b \<Rightarrow> Some (better_record b r)))"

definition resolveAccountFromRelays :: "crypto \<Rightarrow> resolve_query \<Rightarrow> account_record option list \<Rightarrow> account_record option" where
  "resolveAccountFromRelays C q answers = foldl (take_record C q) None answers"

text \<open>The account archive of a relay.\<close>

definition archiveAccountRecord :: "crypto \<Rightarrow> bool \<Rightarrow> account_record \<Rightarrow> string \<Rightarrow> (string, account_record) jsmap \<Rightarrow> (string, account_record) jsmap" where
  "archiveAccountRecord C enabled a net st =
     (if \<not> enabled \<or> ac_pub a = [] \<or> ac_username a = [] then st
      else if \<not> (case ac_sig a of None \<Rightarrow> False | Some s \<Rightarrow> s \<noteq> [] \<and> verify_str C s (accountRecordPayload a) (ac_pub a)) then st
      else (let k = net @ '':'' @ ac_pub a in
        if (case mget st k of None \<Rightarrow> False | Some e \<Rightarrow> version a < version e) then st else mset_at k a st))"

text \<open>
  \<open>NeuronNode.resolveAccount\<close>: the local answer for an own account or a public key, else the record of
  the relays, else the local answer. The second component is the record to register in the ledger.
\<close>

definition resolveAccount :: "crypto \<Rightarrow> (string \<Rightarrow> string option) \<Rightarrow> (string \<Rightarrow> bool) \<Rightarrow> string \<Rightarrow> account_record option list
    \<Rightarrow> string option \<times> account_record option" where
  "resolveAccount C local_pub own identifier answers =
     (let l = local_pub identifier in
      if (case l of None \<Rightarrow> False | Some p \<Rightarrow> p \<noteq> [] \<and> (own p \<or> looksLikeAccountPub identifier)) then (l, None)
      else (let q = (if looksLikeAccountPub identifier then ByPub (js_lower identifier) else ByName identifier) in
        case resolveAccountFromRelays C q answers of
          None \<Rightarrow> (l, None)
        | Some r \<Rightarrow> (Some (ac_pub r), Some r)))"

section \<open>Addresses\<close>

text \<open>The first match of a pattern that starts somewhere in the text.\<close>

fun first_match :: "(string \<Rightarrow> 'a option) \<Rightarrow> string \<Rightarrow> 'a option" where
  "first_match f s = (case f s of Some x \<Rightarrow> Some x | None \<Rightarrow> (case s of [] \<Rightarrow> None | _ # t \<Rightarrow> first_match f t))"

definition after_prefix :: "string \<Rightarrow> string \<Rightarrow> string option" where
  "after_prefix p s = (if take (length p) s = p then Some (drop (length p) s) else None)"

definition seg :: "string \<Rightarrow> (string \<times> string) option" where
  "seg s = (let h = takeWhile (\<lambda>c. c \<noteq> CHR ''/'') s in if h = [] then None else Some (h, drop (length h) s))"

definition dns_at :: "string \<Rightarrow> string option" where
  "dns_at s = Option.bind (case after_prefix ''/dns4/'' s of Some t \<Rightarrow> Some t | None \<Rightarrow> after_prefix ''/dns6/'' s) (\<lambda>t.
     Option.bind (seg t) (\<lambda>(h, r). if r = [] then None else Some h))"

definition digits_at :: "string \<Rightarrow> (nat \<times> string) option" where
  "digits_at s = (let d = takeWhile is_digit_char s in if d = [] then None else Some (str_val d, drop (length d) s))"

definition ip_tcp_at :: "(string \<Rightarrow> bool) \<Rightarrow> string \<Rightarrow> (string \<times> nat) option" where
  "ip_tcp_at ends s = Option.bind (after_prefix ''/ip4/'' s) (\<lambda>t. Option.bind (seg t) (\<lambda>(h, r).
     Option.bind (after_prefix ''/tcp/'' r) (\<lambda>u. Option.bind (digits_at u) (\<lambda>(p, v). if ends v then Some (h, p) else None))))"

definition ends_ws :: "string \<Rightarrow> bool" where
  "ends_ws v = (case after_prefix ''/ws'' v of None \<Rightarrow> False | Some w \<Rightarrow> w = [] \<or> hd w = CHR ''/'')"

definition ends_tcp :: "string \<Rightarrow> bool" where
  "ends_tcp v \<longleftrightarrow> v = [] \<or> after_prefix ''/p2p/'' v \<noteq> None"

text \<open>\<open>origin\<close> is the host of the page, \<open>None\<close> outside a browser.\<close>

definition relayHttpBase :: "string option \<Rightarrow> string option \<Rightarrow> string" where
  "relayHttpBase origin addr = (case addr of
     None \<Rightarrow> []
   | Some s \<Rightarrow> if s = [] then []
       else (case first_match dns_at s of
           Some h \<Rightarrow> if origin = Some h then [] else ''https://'' @ h
         | None \<Rightarrow> (case first_match (ip_tcp_at ends_ws) s of
               Some (ip, p) \<Rightarrow> ''http://'' @ ip @ '':'' @ int_str (int p + 2)
             | None \<Rightarrow> [])))"

definition peerRelayHttpBase :: "string option \<Rightarrow> string" where
  "peerRelayHttpBase addr = (case addr of
     None \<Rightarrow> []
   | Some s \<Rightarrow> if s = [] then []
       else (case first_match dns_at s of
           Some h \<Rightarrow> ''https://'' @ h
         | None \<Rightarrow> (case first_match (ip_tcp_at ends_ws) s of
               Some (ip, p) \<Rightarrow> ''http://'' @ ip @ '':'' @ int_str (int p + 2)
             | None \<Rightarrow> (case first_match (ip_tcp_at ends_tcp) s of
                   Some (ip, p) \<Rightarrow> ''http://'' @ ip @ '':'' @ int_str (int p + 1)
                 | None \<Rightarrow> []))))"

section \<open>Pending transfers\<close>

record pending_hint =
  ph_sender :: string
  ph_blockHash :: string
  ph_shard :: int
  ph_nft :: bool

text \<open>An answer is the head index, if given, and the hints; a bare array is an answer without index.\<close>

definition fetchPendingSends :: "(int option \<times> pending_hint list) option list \<Rightarrow> int \<times> pending_hint list" where
  "fetchPendingSends answers = foldl (\<lambda>(h, hints) a. case a of
       None \<Rightarrow> (h, hints)
     | Some (i, sends) \<Rightarrow> (max h (case i of None \<Rightarrow> -1 | Some n \<Rightarrow> n),
         mvals (foldl (\<lambda>m s. mset_at (ph_blockHash s) s m) (map (\<lambda>s. (ph_blockHash s, s)) hints) sends))) (-1, []) answers"

definition head_index :: "block option \<Rightarrow> int" where
  "head_index head = (case head of None \<Rightarrow> -1 | Some b \<Rightarrow> b_index b)"

text \<open>Whether a claim may be built; a refusal starts a resync of the own chain.\<close>

definition ownChainIsCurrent :: "block option \<Rightarrow> (int option \<times> pending_hint list) option list \<Rightarrow> bool" where
  "ownChainIsCurrent head answers \<longleftrightarrow> \<not> fst (fetchPendingSends answers) > head_index head"

datatype inbound = ResyncOwn | Claim "pending_hint list"

definition checkPendingInbound :: "block option \<Rightarrow> (string \<Rightarrow> bool) \<Rightarrow> (int option \<times> pending_hint list) option list \<Rightarrow> inbound" where
  "checkPendingInbound head has answers = (case fetchPendingSends answers of (h, sends) \<Rightarrow>
     if h > head_index head then ResyncOwn else Claim (filter (\<lambda>s. \<not> has (ph_blockHash s)) sends))"

section \<open>Blocks and proofs\<close>

definition read_block :: "crypto \<Rightarrow> (bytes \<Rightarrow> string) \<Rightarrow> hex \<Rightarrow> block option" where
  "read_block C decoder h = Option.bind (c_fromHex C h) (decodeBlock decoder)"

definition fetchProviders :: "crypto \<Rightarrow> (bytes \<Rightarrow> string) \<Rightarrow> (string \<times> hex list option) list \<Rightarrow> block list \<times> (string \<times> bool) list" where
  "fetchProviders C decoder answers =
     (mvals (foldl (\<lambda>m h. case read_block C decoder h of None \<Rightarrow> m | Some b \<Rightarrow> mset_at (b_hash b) b m) []
        (concat (map (\<lambda>a. case snd a of None \<Rightarrow> [] | Some hs \<Rightarrow> hs) answers))),
      map (\<lambda>a. (fst a, snd a \<noteq> None)) answers)"

text \<open>A proof answer: genesis, head and block in hex, with the two audit paths; absent members are \<open>None\<close>.\<close>

record proof_answer =
  pa_open :: "hex option"
  pa_head :: "hex option"
  pa_block :: "hex option"
  pa_openProof :: "hex list option"
  pa_blockProof :: "hex list option"

definition read_proof :: "crypto \<Rightarrow> (bytes \<Rightarrow> string) \<Rightarrow> proof_answer \<Rightarrow> (block \<times> block \<times> block \<times> hex list \<times> hex list) option" where
  "read_proof C decoder a = (case (pa_open a, pa_head a, pa_block a, pa_openProof a, pa_blockProof a) of
     (Some oh, Some hh, Some bh, Some op, Some bp) \<Rightarrow>
       if oh = [] \<or> hh = [] \<or> bh = [] then None
       else Option.bind (read_block C decoder oh) (\<lambda>ob. Option.bind (read_block C decoder hh) (\<lambda>hb.
         map_option (\<lambda>b. (ob, hb, b, op, bp)) (read_block C decoder bh)))
   | _ \<Rightarrow> None)"

fun first_proof :: "crypto \<Rightarrow> (bytes \<Rightarrow> string) \<Rightarrow> proof_answer option list \<Rightarrow> (block \<times> block \<times> block \<times> hex list \<times> hex list) option" where
  "first_proof C decoder [] = None"
| "first_proof C decoder (a # as) = (case Option.bind a (read_proof C decoder) of
     Some p \<Rightarrow> Some p
   | None \<Rightarrow> first_proof C decoder as)"

definition fetchHeadProof :: "crypto \<Rightarrow> (bytes \<Rightarrow> string) \<Rightarrow> proof_answer option list \<Rightarrow> packet option" where
  "fetchHeadProof C decoder answers = map_option (\<lambda>(ob, hb, b, op, bp).
     \<lparr>pk_open = ob, pk_head = hb, pk_openProof = op, pk_send = b, pk_sendProof = bp\<rparr>) (first_proof C decoder answers)"

definition fetchMintProof :: "crypto \<Rightarrow> (bytes \<Rightarrow> string) \<Rightarrow> proof_answer option list \<Rightarrow> mint_proof option" where
  "fetchMintProof C decoder answers = map_option (\<lambda>(ob, hb, b, op, bp).
     \<lparr>mp_open = ob, mp_head = hb, mp_openProof = op, mp_mint = b, mp_mintProof = bp\<rparr>) (first_proof C decoder answers)"

fun fetchBlockByHash :: "crypto \<Rightarrow> (bytes \<Rightarrow> string) \<Rightarrow> hex \<Rightarrow> hex option list \<Rightarrow> block option" where
  "fetchBlockByHash C decoder h [] = None"
| "fetchBlockByHash C decoder h (a # as) =
     (case (case a of None \<Rightarrow> None | Some x \<Rightarrow> if x = [] then None else read_block C decoder x) of
        None \<Rightarrow> fetchBlockByHash C decoder h as
      | Some b \<Rightarrow> if b_hash b = h \<and> verifyBlock C b then Some b else fetchBlockByHash C decoder h as)"

section \<open>What is returned\<close>

lemma resolve_step:
  assumes "foldl (take_record C q) best answers = Some r"
  shows "best = Some r \<or> (Some r \<in> set answers \<and> answers_query C q r)"
  using assms
proof (induction answers arbitrary: best)
  case (Cons a answers)
  then have "take_record C q best a = Some r \<or> (Some r \<in> set answers \<and> answers_query C q r)"
    by simp
  then show ?case
    by (auto simp: take_record_def better_record_def split: option.splits if_splits)
qed simp

lemma resolve_sound:
  "resolveAccountFromRelays C q answers = Some r \<Longrightarrow> Some r \<in> set answers \<and> answers_query C q r"
  unfolding resolveAccountFromRelays_def by (drule resolve_step) simp

lemma resolve_found:
  assumes "Some r \<in> set answers" "answers_query C q r"
  shows "resolveAccountFromRelays C q answers \<noteq> None"
proof -
  have k: "take_record C q (Some b) a \<noteq> None" for b a
    by (simp add: take_record_def split: option.split)
  have p: "foldl (take_record C q) (Some b) as \<noteq> None" for b as
  proof (induction as arbitrary: b)
    case (Cons a as)
    then show ?case using k [of b a] by auto
  qed simp
  have "foldl (take_record C q) best answers \<noteq> None" for best
    using assms(1)
  proof (induction answers arbitrary: best)
    case (Cons a as)
    show ?case
    proof (cases "a = Some r")
      case True
      with assms(2) have "take_record C q best a \<noteq> None"
        by (cases best) (simp_all add: take_record_def)
      with p show ?thesis by auto
    next
      case False
      with Cons show ?thesis by simp
    qed
  qed simp
  then show ?thesis by (simp add: resolveAccountFromRelays_def)
qed

text \<open>The version is outside the signature: a relay ranks a replayed record above the owner's newest.\<close>

lemma version_unsigned: "answers_query C q (r\<lparr>ac_version := v\<rparr>) = answers_query C q r"
  by (simp add: answers_query_def verifyAccountRecordSig_def accountRecordPayload_def split: option.split resolve_query.split)

lemma resolve_snoc: "resolveAccountFromRelays C q (answers @ [a]) = take_record C q (resolveAccountFromRelays C q answers) a"
  by (simp add: resolveAccountFromRelays_def)

lemma replay_wins:
  assumes "answers_query C q old" "\<forall>r. Some r \<in> set answers \<longrightarrow> ac_pub r = ac_pub old \<and> version r < v"
  shows "resolveAccountFromRelays C q (answers @ [Some (old\<lparr>ac_version := Some v\<rparr>)]) = Some (old\<lparr>ac_version := Some v\<rparr>)"
proof (cases "resolveAccountFromRelays C q answers")
  case None
  then show ?thesis
    using assms(1) by (simp add: resolve_snoc take_record_def version_unsigned)
next
  case (Some b)
  with resolve_sound [OF Some] assms show ?thesis
    by (simp add: resolve_snoc take_record_def version_unsigned better_record_def version_def)
qed

text \<open>The later creation date wins, and each account writes its own.\<close>

lemma later_creation_wins:
  assumes "answers_query C q r" "\<forall>x. Some x \<in> set answers \<longrightarrow> ac_pub x \<noteq> ac_pub r \<and> ac_createdAt x < ac_createdAt r"
  shows "resolveAccountFromRelays C q (answers @ [Some r]) = Some r"
proof (cases "resolveAccountFromRelays C q answers")
  case None
  then show ?thesis
    using assms(1) by (simp add: resolve_snoc take_record_def)
next
  case (Some b)
  with resolve_sound [OF Some] assms show ?thesis
    by (auto simp: resolve_snoc take_record_def better_record_def)
qed

lemma block_by_hash:
  "fetchBlockByHash C decoder h answers = Some b \<Longrightarrow> b_hash b = h \<and> verifyBlock C b"
  by (induction answers) (auto split: option.splits if_splits)

lemma block_by_hash_found:
  "Some x \<in> set answers \<Longrightarrow> x \<noteq> [] \<Longrightarrow> read_block C decoder x = Some b \<Longrightarrow> b_hash b = h \<Longrightarrow> verifyBlock C b \<Longrightarrow>
   fetchBlockByHash C decoder h answers \<noteq> None"
  by (induction answers) (auto split: option.splits)

text \<open>A single answer with a large index stops every claim.\<close>

lemma pending_head:
  "Some (Some n, sends) \<in> set answers \<Longrightarrow> n \<le> fst (fetchPendingSends answers)"
proof -
  let ?f = "\<lambda>(h, hints) (a :: (int option \<times> pending_hint list) option). case a of
       None \<Rightarrow> (h, hints)
     | Some (i, sends) \<Rightarrow> (max h (case i of None \<Rightarrow> -1 | Some n \<Rightarrow> n),
         mvals (foldl (\<lambda>m s. mset_at (ph_blockHash s) s m) (map (\<lambda>s. (ph_blockHash s, s)) hints) sends))"
  have mono: "fst p \<le> fst (foldl ?f p as)" for p as
  proof (induction as arbitrary: p)
    case (Cons a as)
    have "fst p \<le> fst (?f p a)"
      by (cases p; cases a) (auto split: prod.split)
    with Cons [of "?f p a"] show ?case by simp
  qed simp
  have "n \<le> fst (foldl ?f p answers)" if "Some (Some n, sends) \<in> set answers" for p
    using that
  proof (induction answers arbitrary: p)
    case (Cons a as)
    show ?case
    proof (cases "a = Some (Some n, sends)")
      case True
      then have "n \<le> fst (?f p a)"
        by (cases p) simp
      with mono [of "?f p a" as] show ?thesis by simp
    next
      case False
      with Cons show ?thesis by simp
    qed
  qed simp
  then show "Some (Some n, sends) \<in> set answers \<Longrightarrow> n \<le> fst (fetchPendingSends answers)"
    by (simp add: fetchPendingSends_def)
qed

lemma one_answer_blocks_claims:
  assumes "Some (Some n, sends) \<in> set answers" "head_index head < n"
  shows "\<not> ownChainIsCurrent head answers \<and> checkPendingInbound head has answers = ResyncOwn"
  using pending_head [OF assms(1)] assms(2) by (auto simp: ownChainIsCurrent_def checkPendingInbound_def split: prod.split)

text \<open>An undecided junk packet ahead of an honest one is what the caller gets.\<close>

lemma first_packet_wins:
  "read_proof C decoder a = Some p \<Longrightarrow> first_proof C decoder (Some a # as) = Some p"
  by simp

end
