(* ===== verification/Recovery_Gate.thy ===== *)
theory Recovery_Gate
  imports Net_Limits Account_Resolver
begin

text \<open>
  The relay's side of recovery: \<open>src/core/recovery-challenge.ts\<close> and the \<open>/recovery-share\<close>
  endpoints of \<open>src/relay/server.ts\<close>. A relay keeps one signed share per account, bound to the human it
  recognised; it releases it against a performance of the actions it drew. Descriptors and times are real numbers
  (no rounding of doubles); the wrapping of a released share for the client's key is library code and left out.
  The lemmas show what stands between a request and a released share.
\<close>

section \<open>The trajectory\<close>

definition RECOVERY_ACTIONS :: "string list" where
  "RECOVERY_ACTIONS = [''smile'', ''mouth-open'', ''raise-brows'', ''look-left'', ''look-right'']"

definition RECOVERY_SEQUENCE_LENGTH :: nat where "RECOVERY_SEQUENCE_LENGTH = 3"

type_synonym descriptor = "real list"

record action_proof =
  ap_action :: string
  ap_ratio :: real
  ap_t :: real
  ap_descriptor :: descriptor

record trajectory_proof =
  tp_neutral :: descriptor
  tp_actions :: "action_proof list"

definition MIN_ACTION_RATIO :: real where "MIN_ACTION_RATIO = 9 / 10"
definition MIN_ACTION_GAP_MS :: real where "MIN_ACTION_GAP_MS = 300"
definition MIN_TOTAL_MS :: real where "MIN_TOTAL_MS = 1500"
definition MAX_TOTAL_MS :: real where "MAX_TOTAL_MS = 10 * 60 * 1000"
definition DESCRIPTOR_MAX_PAIRWISE :: real where "DESCRIPTOR_MAX_PAIRWISE = 45 / 100"
definition DESCRIPTOR_MIN_PAIRWISE :: real where "DESCRIPTOR_MIN_PAIRWISE = 1 / 1000"

definition validDescriptor :: "descriptor \<Rightarrow> bool" where
  "validDescriptor d \<longleftrightarrow> length d = 128 \<and> list_all (\<lambda>v. v > -2 \<and> v < 2) d"

definition desc_dist :: "descriptor \<Rightarrow> descriptor \<Rightarrow> real" where
  "desc_dist a b = sqrt (sum_list (map2 (\<lambda>x y. (x - y) ^ 2) a b))"

text \<open>\<open>pool.splice(Math.floor(rng() * pool.length), 1)[0]\<close>, with the random numbers as a list.\<close>

fun draw_from :: "nat \<Rightarrow> real list \<Rightarrow> string list \<Rightarrow> string list" where
  "draw_from 0 rs pool = []"
| "draw_from (Suc n) rs pool = (case rs of
     [] \<Rightarrow> []
   | r # rs' \<Rightarrow> if pool = [] then []
       else (let i = nat \<lfloor>r * real (length pool)\<rfloor> in pool ! i # draw_from n rs' (take i pool @ drop (Suc i) pool)))"

definition drawRecoverySequence :: "nat \<Rightarrow> real list \<Rightarrow> string list" where
  "drawRecoverySequence len rng = draw_from len rng RECOVERY_ACTIONS"

datatype rejection =
    BadNeutral | WrongCount nat nat | WrongAction nat string string | LowRatio string | BadDescriptor string
  | TooClose nat | TooFast | TooSlow | NotOnePerson nat nat | ReplayedFrame nat nat

fun check_actions :: "nat \<Rightarrow> string list \<Rightarrow> action_proof list \<Rightarrow> rejection option" where
  "check_actions i (a # as) (p # ps) =
     (if ap_action p \<noteq> a then Some (WrongAction i (ap_action p) a)
      else if ap_ratio p < MIN_ACTION_RATIO then Some (LowRatio (ap_action p))
      else if \<not> validDescriptor (ap_descriptor p) then Some (BadDescriptor (ap_action p))
      else check_actions (Suc i) as ps)"
| "check_actions i as ps = None"

fun check_pacing :: "nat \<Rightarrow> action_proof list \<Rightarrow> rejection option" where
  "check_pacing i (p # q # ps) = (if ap_t q - ap_t p < MIN_ACTION_GAP_MS then Some (TooClose i) else check_pacing (Suc i) (q # ps))"
| "check_pacing i ps = None"

fun check_against :: "nat \<Rightarrow> nat \<Rightarrow> descriptor \<Rightarrow> descriptor list \<Rightarrow> rejection option" where
  "check_against i j d [] = None"
| "check_against i j d (e # es) =
     (if desc_dist d e > DESCRIPTOR_MAX_PAIRWISE then Some (NotOnePerson i j)
      else if desc_dist d e < DESCRIPTOR_MIN_PAIRWISE then Some (ReplayedFrame i j)
      else check_against i (Suc j) d es)"

fun check_pairs :: "nat \<Rightarrow> descriptor list \<Rightarrow> rejection option" where
  "check_pairs i [] = None"
| "check_pairs i (d # ds) = (case check_against i (Suc i) d ds of Some r \<Rightarrow> Some r | None \<Rightarrow> check_pairs (Suc i) ds)"

text \<open>
  The verdict, \<open>Inl None\<close> being acceptance. \<open>Inr ()\<close> is the exception on an empty sequence, where the last
  action is read. Missing members of a proof are an absent proof.
\<close>

definition verifyTrajectory :: "string list \<Rightarrow> trajectory_proof option \<Rightarrow> rejection option + unit" where
  "verifyTrajectory actions proof = (case proof of
     None \<Rightarrow> Inl (Some BadNeutral)
   | Some p \<Rightarrow> if \<not> validDescriptor (tp_neutral p) then Inl (Some BadNeutral)
       else if length (tp_actions p) \<noteq> length actions then Inl (Some (WrongCount (length actions) (length (tp_actions p))))
       else (case check_actions 0 actions (tp_actions p) of
           Some r \<Rightarrow> Inl (Some r)
         | None \<Rightarrow> (case check_pacing 0 (tp_actions p) of
               Some r \<Rightarrow> Inl (Some r)
             | None \<Rightarrow> if tp_actions p = [] then Inr ()
                 else (let total = ap_t (last (tp_actions p)) - ap_t (hd (tp_actions p)) in
                   if total < MIN_TOTAL_MS then Inl (Some TooFast)
                   else if total > MAX_TOTAL_MS then Inl (Some TooSlow)
                   else Inl (check_pairs 0 (tp_neutral p # map ap_descriptor (tp_actions p)))))))"

section \<open>The custody of a relay\<close>

record face_entry =
  fe_network :: string
  fe_descriptor :: descriptor
  fe_count :: int
  fe_nid :: "string option"

text \<open>The nearest face of the network below the threshold, the first of equals.\<close>

definition nearer :: "real \<Rightarrow> string \<Rightarrow> descriptor \<Rightarrow> (face_entry \<times> real) option \<Rightarrow> face_entry \<Rightarrow> (face_entry \<times> real) option" where
  "nearer threshold net d best e = (if fe_network e \<noteq> net then best
     else (let x = desc_dist d (fe_descriptor e) in
       if x < threshold \<and> (case best of None \<Rightarrow> True | Some (_, y) \<Rightarrow> x < y) then Some (e, x) else best))"

definition findMatchingFace :: "real \<Rightarrow> face_entry list \<Rightarrow> descriptor \<Rightarrow> string \<Rightarrow> face_entry option" where
  "findMatchingFace threshold db d net = map_option fst (foldl (nearer threshold net d) None db)"

record share_record =
  kr_accountId :: string
  kr_nid :: string
  kr_network :: string
  kr_shareHex :: string
  kr_ts :: int
  kr_x :: "int option"
  kr_fails :: int
  kr_lockedUntil :: int

record challenge_session =
  ch_recovery :: bool
  ch_sequence :: "string list"
  ch_createdAt :: int
  ch_used :: bool

record share_custody =
  cu_shares :: "(string, share_record) jsmap"
  cu_sessions :: "(string, challenge_session) jsmap"
  cu_releaseLog :: ip_log
  cu_faces :: "face_entry list"

definition share_key :: "string \<Rightarrow> string \<Rightarrow> string" where
  "share_key net acct = net @ '':'' @ acct"

record store_request =
  sq_accountId :: string
  sq_share :: string
  sq_ts :: int
  sq_sig :: string
  sq_x :: "int option"
  sq_descriptor :: "descriptor option"

definition hex32 :: "string \<Rightarrow> bool" where
  "hex32 s \<longleftrightarrow> length s = 64 \<and> list_all (\<lambda>c. c \<in> set ''0123456789abcdefABCDEF'') s"

definition share_payload :: "string \<Rightarrow> string \<Rightarrow> int option \<Rightarrow> string \<Rightarrow> int \<Rightarrow> string" where
  "share_payload acct net x share ts = (case x of
     Some i \<Rightarrow> ''recovery-share:'' @ acct @ '':'' @ net @ '':'' @ int_str i @ '':'' @ share @ '':'' @ int_str ts
   | None \<Rightarrow> ''recovery-share:'' @ acct @ '':'' @ net @ '':'' @ share @ '':'' @ int_str ts)"

text \<open>
  The human a store is bound to: an existing binding, the relay's own attestation, or a live face.
\<close>

definition bound_nid :: "real \<Rightarrow> (string \<Rightarrow> string option) \<Rightarrow> string \<Rightarrow> store_request \<Rightarrow> share_custody \<Rightarrow> string option" where
  "bound_nid threshold nidForAccount net rq s =
     (case mget (cu_shares s) (share_key net (sq_accountId rq)) of
        Some e \<Rightarrow> Some (kr_nid e)
      | None \<Rightarrow> (case nidForAccount (sq_accountId rq) of
          Some n \<Rightarrow> Some n
        | None \<Rightarrow> (case sq_descriptor rq of
            None \<Rightarrow> None
          | Some d \<Rightarrow> if \<not> validDescriptor d then None
              else Option.bind (findMatchingFace threshold (cu_faces s) d net) fe_nid)))"

definition store_share :: "crypto \<Rightarrow> real \<Rightarrow> (string \<Rightarrow> string option) \<Rightarrow> string \<Rightarrow> store_request \<Rightarrow> share_custody \<Rightarrow> int \<times> share_custody" where
  "store_share C threshold nidForAccount net rq s =
     (if \<not> looksLikeAccountPub (sq_accountId rq) \<or> \<not> hex32 (sq_share rq)
        \<or> (case sq_x rq of None \<Rightarrow> False | Some x \<Rightarrow> x < 1 \<or> x > 255) then (400, s)
      else if \<not> verify_str C (sq_sig rq) (share_payload (sq_accountId rq) net (sq_x rq) (sq_share rq) (sq_ts rq)) (sq_accountId rq) then (403, s)
      else (let k = share_key net (sq_accountId rq); existing = mget (cu_shares s) k in
        if (case existing of None \<Rightarrow> False | Some e \<Rightarrow> kr_ts e \<ge> sq_ts rq) then (409, s)
        else (case bound_nid threshold nidForAccount net rq s of
            None \<Rightarrow> (409, s)
          | Some nid \<Rightarrow> (200, s\<lparr>cu_shares := mset_at k \<lparr>kr_accountId = sq_accountId rq, kr_nid = nid, kr_network = net,
                kr_shareHex = js_lower (sq_share rq), kr_ts = sq_ts rq, kr_x = sq_x rq,
                kr_fails = (case existing of None \<Rightarrow> 0 | Some e \<Rightarrow> kr_fails e),
                kr_lockedUntil = (case existing of None \<Rightarrow> 0 | Some e \<Rightarrow> kr_lockedUntil e)\<rparr> (cu_shares s)\<rparr>))))"

definition share_status :: "string \<Rightarrow> string \<Rightarrow> share_custody \<Rightarrow> (int option \<times> int) option" where
  "share_status net acct s = map_option (\<lambda>r. (kr_x r, kr_ts r)) (mget (cu_shares s) (share_key net acct))"

definition CHALLENGE_TTL_MS :: int where "CHALLENGE_TTL_MS = 15 * 60 * 1000"
definition RELEASE_IP_MAX_PER_DAY :: int where "RELEASE_IP_MAX_PER_DAY = 30"

text \<open>A drawn challenge; when the table has grown to a multiple of 200, expired ones are dropped.\<close>

definition draw_challenge :: "string \<Rightarrow> real list \<Rightarrow> int \<Rightarrow> share_custody \<Rightarrow> string list \<times> share_custody" where
  "draw_challenge cid rng now s =
     (let q = drawRecoverySequence RECOVERY_SEQUENCE_LENGTH rng;
        m = mset_at cid \<lparr>ch_recovery = True, ch_sequence = q, ch_createdAt = now, ch_used = False\<rparr> (cu_sessions s);
        m' = (if length m mod 200 = 0 then filter (\<lambda>kv. \<not> now - ch_createdAt (snd kv) > CHALLENGE_TTL_MS) m else m)
      in (q, s\<lparr>cu_sessions := m'\<rparr>))"

definition releaseBackoffMs :: "int \<Rightarrow> int" where
  "releaseBackoffMs fails = (if fails \<le> 3 then 0 else min 86400000 (30000 * 4 ^ nat (fails - 4)))"

datatype release_response = RelError int "int option" | Released string "int option" int

definition ephemeral_ok :: "string \<Rightarrow> bool" where
  "ephemeral_ok s \<longleftrightarrow> length s = 130 \<and> take 2 s = ''04'' \<and> list_all (\<lambda>c. c \<in> set ''0123456789abcdefABCDEF'') (drop 2 s)"

definition fail_release :: "string \<Rightarrow> share_record \<Rightarrow> int \<Rightarrow> share_custody \<Rightarrow> release_response \<times> share_custody" where
  "fail_release k r now s = (RelError 403 None,
     s\<lparr>cu_shares := mset_at k (r\<lparr>kr_fails := kr_fails r + 1, kr_lockedUntil := now + releaseBackoffMs (kr_fails r + 1)\<rparr>) (cu_shares s)\<rparr>)"

definition all_match :: "real \<Rightarrow> share_custody \<Rightarrow> string \<Rightarrow> string \<Rightarrow> trajectory_proof \<Rightarrow> bool" where
  "all_match threshold s net nid p = list_all (\<lambda>d. case findMatchingFace threshold (cu_faces s) d net of
       None \<Rightarrow> False | Some e \<Rightarrow> fe_nid e = Some nid) (tp_neutral p # map ap_descriptor (tp_actions p))"

text \<open>A session that is open for a release.\<close>

definition open_session :: "string \<Rightarrow> int \<Rightarrow> share_custody \<Rightarrow> challenge_session option" where
  "open_session cid now s = (case mget (cu_sessions s) cid of
     None \<Rightarrow> None
   | Some c \<Rightarrow> if ch_used c \<or> \<not> ch_recovery c \<or> now - ch_createdAt c > CHALLENGE_TTL_MS then None else Some c)"

text \<open>\<open>None\<close> is a handler that throws.\<close>

definition release_share :: "real \<Rightarrow> string \<Rightarrow> string \<Rightarrow> string \<Rightarrow> string \<Rightarrow> trajectory_proof option \<Rightarrow> string \<Rightarrow> int \<Rightarrow> share_custody
    \<Rightarrow> release_response option \<times> share_custody" where
  "release_share threshold net ip acct cid proof ephPub now s =
     (if \<not> ephemeral_ok ephPub then (Some (RelError 400 None), s)
      else (case open_session cid now s of
          None \<Rightarrow> (Some (RelError 400 None), s)
        | Some c \<Rightarrow>
            (let s1 = s\<lparr>cu_sessions := mset_at cid (c\<lparr>ch_used := True\<rparr>) (cu_sessions s)\<rparr> in
             case checkAndRecordIp ip RELEASE_IP_MAX_PER_DAY now (cu_releaseLog s1) of
               (ok, l) \<Rightarrow> (let s2 = s1\<lparr>cu_releaseLog := l\<rparr>; k = share_key net acct in
                 if \<not> ok then (Some (RelError 429 None), s2)
                 else (case mget (cu_shares s2) k of
                     None \<Rightarrow> (Some (RelError 404 None), s2)
                   | Some r \<Rightarrow>
                       if kr_lockedUntil r > now then (Some (RelError 429 (Some (- ((now - kr_lockedUntil r) div 1000)))), s2)
                       else (case verifyTrajectory (ch_sequence c) proof of
                           Inr _ \<Rightarrow> (None, s2)
                         | Inl (Some reason) \<Rightarrow> map_prod Some id (fail_release k r now s2)
                         | Inl None \<Rightarrow>
                             if \<not> all_match threshold s2 net (kr_nid r) (the proof) then map_prod Some id (fail_release k r now s2)
                             else (let r' = r\<lparr>kr_fails := 0, kr_lockedUntil := 0\<rparr> in
                               (Some (Released (kr_shareHex r) (kr_x r) (kr_ts r)), s2\<lparr>cu_shares := mset_at k r' (cu_shares s2)\<rparr>))))))))"

section \<open>The draw\<close>

lemma draw_from_sub:
  assumes "distinct pool" "n \<le> length rs" "n \<le> length pool" "\<forall>r \<in> set rs. 0 \<le> r \<and> r < 1"
  shows "length (draw_from n rs pool) = n \<and> distinct (draw_from n rs pool) \<and> set (draw_from n rs pool) \<subseteq> set pool"
  using assms
proof (induction n arbitrary: rs pool)
  case (Suc n)
  then obtain r rs' where rs: "rs = r # rs'" by (cases rs) auto
  have ne: "pool \<noteq> []" using Suc.prems(3) by auto
  define i where "i = nat \<lfloor>r * real (length pool)\<rfloor>"
  have "0 \<le> r" "r < 1" using Suc.prems(4) rs by auto
  then have "r * real (length pool) < real (length pool)"
    using ne by simp
  then have i: "i < length pool"
    using \<open>0 \<le> r\<close> by (simp add: i_def floor_less_iff nat_less_iff)
  let ?p = "take i pool @ drop (Suc i) pool"
  have pool: "pool = take i pool @ pool ! i # drop (Suc i) pool"
    using id_take_nth_drop [OF i] .
  have "distinct (take i pool @ pool ! i # drop (Suc i) pool)"
    by (simp only: pool [symmetric] Suc.prems(1))
  then have d: "distinct ?p" "pool ! i \<notin> set ?p"
    by auto
  have d3: "set ?p \<subseteq> set pool"
    using set_take_subset [of i pool] set_drop_subset [of "Suc i" pool] by auto
  have "length ?p = length pool - 1"
    using i by simp
  with Suc.IH [of ?p rs'] d(1) Suc.prems(2-4) rs
  have "length (draw_from n rs' ?p) = n \<and> distinct (draw_from n rs' ?p) \<and> set (draw_from n rs' ?p) \<subseteq> set ?p"
    by simp
  moreover have "draw_from (Suc n) rs pool = pool ! i # draw_from n rs' ?p"
    using ne by (simp add: rs Let_def i_def)
  moreover have "pool ! i \<in> set pool" using i by simp
  ultimately show ?case
    using d(2) d3 by auto
qed simp

lemma drawn_sequence:
  assumes "\<forall>r \<in> set rng. 0 \<le> r \<and> r < 1" "3 \<le> length rng"
  shows "length (drawRecoverySequence RECOVERY_SEQUENCE_LENGTH rng) = 3 \<and> distinct (drawRecoverySequence RECOVERY_SEQUENCE_LENGTH rng)
    \<and> set (drawRecoverySequence RECOVERY_SEQUENCE_LENGTH rng) \<subseteq> set RECOVERY_ACTIONS"
  unfolding drawRecoverySequence_def RECOVERY_SEQUENCE_LENGTH_def
  by (rule draw_from_sub) (use assms in \<open>simp_all add: RECOVERY_ACTIONS_def\<close>)

section \<open>What the verdict means\<close>

lemma check_actions_iff:
  "length as = length ps \<Longrightarrow> check_actions i as ps = None \<longleftrightarrow>
     map ap_action ps = as \<and> (\<forall>p \<in> set ps. ap_ratio p \<ge> MIN_ACTION_RATIO \<and> validDescriptor (ap_descriptor p))"
  by (induction as ps arbitrary: i rule: list_induct2) auto

lemma check_pacing_iff:
  "check_pacing i ps = None \<longleftrightarrow> (\<forall>j. Suc j < length ps \<longrightarrow> ap_t (ps ! Suc j) - ap_t (ps ! j) \<ge> MIN_ACTION_GAP_MS)"
proof (induction i ps rule: check_pacing.induct)
  case (1 i p q ps)
  have "(\<forall>j. Suc j < length (p # q # ps) \<longrightarrow> ap_t ((p # q # ps) ! Suc j) - ap_t ((p # q # ps) ! j) \<ge> MIN_ACTION_GAP_MS)
    \<longleftrightarrow> ap_t q - ap_t p \<ge> MIN_ACTION_GAP_MS
      \<and> (\<forall>j. Suc j < length (q # ps) \<longrightarrow> ap_t ((q # ps) ! Suc j) - ap_t ((q # ps) ! j) \<ge> MIN_ACTION_GAP_MS)"
    by (auto simp: less_Suc_eq_0_disj nth_Cons split: nat.splits)
  with 1 show ?case by auto
qed simp_all

definition one_person :: "descriptor \<Rightarrow> descriptor \<Rightarrow> bool" where
  "one_person d e \<longleftrightarrow> DESCRIPTOR_MIN_PAIRWISE \<le> desc_dist d e \<and> desc_dist d e \<le> DESCRIPTOR_MAX_PAIRWISE"

lemma check_against_iff: "check_against i j d es = None \<longleftrightarrow> (\<forall>e \<in> set es. one_person d e)"
  by (induction es arbitrary: j) (auto simp: one_person_def not_less)

lemma check_pairs_iff: "check_pairs i ds = None \<longleftrightarrow> (\<forall>k j. j < k \<and> k < length ds \<longrightarrow> one_person (ds ! j) (ds ! k))"
proof (induction ds arbitrary: i)
  case (Cons d ds)
  have "(\<forall>k j. j < k \<and> k < length (d # ds) \<longrightarrow> one_person ((d # ds) ! j) ((d # ds) ! k))
    \<longleftrightarrow> (\<forall>e \<in> set ds. one_person d e) \<and> (\<forall>k j. j < k \<and> k < length ds \<longrightarrow> one_person (ds ! j) (ds ! k))"
    (is "?l \<longleftrightarrow> ?r")
  proof
    assume l: ?l
    have "one_person d e" if "e \<in> set ds" for e
      using that l [rule_format, of 0 "Suc _"] by (auto simp: in_set_conv_nth)
    moreover have "one_person (ds ! j) (ds ! k)" if "j < k" "k < length ds" for j k
      using l [rule_format, of "Suc j" "Suc k"] that by simp
    ultimately show ?r by blast
  next
    assume r: ?r
    show ?l
      using r by (auto simp: nth_Cons split: nat.split)
  qed
  moreover have "check_pairs i (d # ds) = None \<longleftrightarrow> check_against i (Suc i) d ds = None \<and> check_pairs (Suc i) ds = None"
    by (simp split: option.split)
  ultimately show ?case
    using Cons [of "Suc i"] by (simp only: check_against_iff)
qed simp

definition performed :: "string list \<Rightarrow> trajectory_proof \<Rightarrow> bool" where
  "performed actions p \<longleftrightarrow> validDescriptor (tp_neutral p) \<and> map ap_action (tp_actions p) = actions
     \<and> (\<forall>a \<in> set (tp_actions p). ap_ratio a \<ge> MIN_ACTION_RATIO \<and> validDescriptor (ap_descriptor a))
     \<and> (\<forall>j. Suc j < length (tp_actions p) \<longrightarrow> ap_t (tp_actions p ! Suc j) - ap_t (tp_actions p ! j) \<ge> MIN_ACTION_GAP_MS)
     \<and> MIN_TOTAL_MS \<le> ap_t (last (tp_actions p)) - ap_t (hd (tp_actions p))
     \<and> ap_t (last (tp_actions p)) - ap_t (hd (tp_actions p)) \<le> MAX_TOTAL_MS
     \<and> (let ds = tp_neutral p # map ap_descriptor (tp_actions p) in
         \<forall>k j. j < k \<and> k < length ds \<longrightarrow> one_person (ds ! j) (ds ! k))"

lemma verify_performed: "actions \<noteq> [] \<Longrightarrow> verifyTrajectory actions (Some p) = Inl None \<longleftrightarrow> performed actions p"
proof (cases "length (tp_actions p) = length actions \<and> validDescriptor (tp_neutral p)")
  case True
  assume ne: "actions \<noteq> []"
  then have ne': "tp_actions p \<noteq> []" using True by auto
  let ?t = "ap_t (last (tp_actions p)) - ap_t (hd (tp_actions p))"
  have "verifyTrajectory actions (Some p) = Inl None \<longleftrightarrow> check_actions 0 actions (tp_actions p) = None
      \<and> check_pacing 0 (tp_actions p) = None \<and> \<not> ?t < MIN_TOTAL_MS \<and> \<not> ?t > MAX_TOTAL_MS
      \<and> check_pairs 0 (tp_neutral p # map ap_descriptor (tp_actions p)) = None"
    using True ne' by (simp add: verifyTrajectory_def Let_def split: option.split)
  then show ?thesis
    using True check_actions_iff [of actions "tp_actions p" 0]
    unfolding performed_def check_pacing_iff check_pairs_iff not_less Let_def by (simp only: simp_thms) blast
next
  case False
  assume "actions \<noteq> []"
  from False have "verifyTrajectory actions (Some p) \<noteq> Inl None"
    by (auto simp: verifyTrajectory_def)
  moreover have "\<not> performed actions p"
    using False by (auto simp: performed_def)
  ultimately show ?thesis by simp
qed

lemma verify_nonempty: "verifyTrajectory actions pf = Inl None \<Longrightarrow> actions \<noteq> []"
  by (auto simp: verifyTrajectory_def split: option.splits if_splits)

lemma verify_total: "actions \<noteq> [] \<Longrightarrow> verifyTrajectory actions proof \<noteq> Inr ()"
  by (auto simp: verifyTrajectory_def Let_def split: option.split)

section \<open>What a release requires\<close>

lemma all_match_faces [simp]:
  "all_match threshold (s\<lparr>cu_sessions := a\<rparr>) = all_match threshold s"
  "all_match threshold (s\<lparr>cu_releaseLog := l\<rparr>) = all_match threshold s"
  by (simp_all add: all_match_def fun_eq_iff)

lemma release_requires:
  assumes "release_share threshold net ip acct cid proof ephPub now s = (Some (Released h x t), s')"
  obtains c r p where "open_session cid now s = Some c" "mget (cu_shares s) (share_key net acct) = Some r"
    "h = kr_shareHex r" "x = kr_x r" "t = kr_ts r" "kr_lockedUntil r \<le> now" "proof = Some p"
    "verifyTrajectory (ch_sequence c) (Some p) = Inl None" "all_match threshold s net (kr_nid r) p"
    "mget (cu_sessions s') cid = Some (c\<lparr>ch_used := True\<rparr>)"
proof -
  from assms obtain c where c: "open_session cid now s = Some c" "ephemeral_ok ephPub"
    by (auto simp: release_share_def split: if_splits option.splits)
  obtain ok l where l: "checkAndRecordIp ip RELEASE_IP_MAX_PER_DAY now (cu_releaseLog s) = (ok, l)" by fastforce
  from assms c l obtain r where r: "mget (cu_shares s) (share_key net acct) = Some r" "kr_lockedUntil r \<le> now" and ok: "ok"
    by (auto simp: release_share_def Let_def split: if_splits option.splits)
  have v: "verifyTrajectory (ch_sequence c) proof = Inl None"
  proof (cases "verifyTrajectory (ch_sequence c) proof")
    case (Inl a)
    with assms c l r ok show ?thesis
      by (cases a) (auto simp: release_share_def Let_def fail_release_def)
  next
    case (Inr b)
    with assms c l r ok show ?thesis
      by (auto simp: release_share_def Let_def)
  qed
  then obtain p where p: "proof = Some p"
    by (auto simp: verifyTrajectory_def split: option.splits)
  from assms c l r ok v p have "all_match threshold s net (kr_nid r) p" "h = kr_shareHex r" "x = kr_x r" "t = kr_ts r"
    "mget (cu_sessions s') cid = Some (c\<lparr>ch_used := True\<rparr>)"
    by (auto simp: release_share_def Let_def fail_release_def split: if_splits)
  with that c(1) r v p show thesis by simp
qed

text \<open>A session that has been spent stays spent until its id is drawn again.\<close>

definition session_spent :: "string \<Rightarrow> share_custody \<Rightarrow> bool" where
  "session_spent cid s \<longleftrightarrow> (case mget (cu_sessions s) cid of None \<Rightarrow> True | Some c \<Rightarrow> ch_used c)"

datatype custody_op =
    CuStore string store_request
  | CuDraw string "real list" int
  | CuRelease string string string string "trajectory_proof option" string int

fun share_step :: "crypto \<Rightarrow> real \<Rightarrow> (string \<Rightarrow> string option) \<Rightarrow> custody_op \<Rightarrow> share_custody \<Rightarrow> share_custody" where
  "share_step C threshold nidFor (CuStore net rq) s = snd (store_share C threshold nidFor net rq s)"
| "share_step C threshold nidFor (CuDraw cid rng now) s = snd (draw_challenge cid rng now s)"
| "share_step C threshold nidFor (CuRelease net ip acct cid proof ephPub now) s =
     snd (release_share threshold net ip acct cid proof ephPub now s)"

definition draws :: "string \<Rightarrow> custody_op \<Rightarrow> bool" where
  "draws cid q \<longleftrightarrow> (\<exists>rng now. q = CuDraw cid rng now)"

lemma release_sessions:
  "cu_sessions (snd (release_share threshold net ip acct cid proof ephPub now s)) =
     (if ephemeral_ok ephPub then (case open_session cid now s of None \<Rightarrow> cu_sessions s
        | Some c \<Rightarrow> mset_at cid (c\<lparr>ch_used := True\<rparr>) (cu_sessions s)) else cu_sessions s)"
  by (simp add: release_share_def fail_release_def Let_def split: option.split prod.split sum.split)

lemma mget_filter_sub: "wf_map m \<Longrightarrow> mget (filter P m) k = Some v \<Longrightarrow> mget m k = Some v"
  by (auto simp: mget_filter split: option.splits if_splits)

lemma spent_step:
  assumes "session_spent cid s" "\<not> draws cid q" "wf_map (cu_sessions s)"
  shows "session_spent cid (share_step C threshold nidFor q s) \<and> wf_map (cu_sessions (share_step C threshold nidFor q s))"
proof (cases q)
  case (CuStore net rq)
  have "cu_sessions (snd (store_share C threshold nidFor net rq s)) = cu_sessions s"
    by (simp add: store_share_def Let_def split: option.split)
  with assms(1,3) CuStore show ?thesis by (simp add: session_spent_def)
next
  case (CuDraw d rng now)
  let ?e = "\<lparr>ch_recovery = True, ch_sequence = drawRecoverySequence RECOVERY_SEQUENCE_LENGTH rng, ch_createdAt = now, ch_used = False\<rparr>"
  let ?m = "mset_at d ?e (cu_sessions s)"
  have wf: "wf_map ?m" using assms(3) by simp
  have ne: "d \<noteq> cid" using assms(2) CuDraw by (auto simp: draws_def)
  have "session_spent cid (s\<lparr>cu_sessions := ?m\<rparr>)"
    using assms(1) ne by (simp add: session_spent_def)
  moreover have "session_spent cid (s\<lparr>cu_sessions := filter P ?m\<rparr>)" for P
    using assms(1) ne mget_filter_sub [OF wf, of P cid] by (auto simp: session_spent_def split: option.splits)
  ultimately show ?thesis
    using wf CuDraw by (simp add: draw_challenge_def Let_def)
next
  case (CuRelease net ip acct d pf ephPub now)
  then show ?thesis
    using assms(1,3) by (auto simp: release_sessions session_spent_def split: option.split)
qed

lemma spent_run:
  "session_spent cid s \<Longrightarrow> wf_map (cu_sessions s) \<Longrightarrow> \<forall>q \<in> set ops. \<not> draws cid q \<Longrightarrow>
   session_spent cid (fold (share_step C threshold nidFor) ops s)"
  by (induction ops arbitrary: s) (simp_all add: spent_step)

lemma spent_refused: "session_spent cid s \<Longrightarrow> \<exists>n. release_share threshold net ip acct cid proof ephPub now s = (Some (RelError n None), s)"
  by (auto simp: release_share_def session_spent_def open_session_def split: option.splits)

text \<open>A locked share is not released, and a rotation keeps the lock and the binding.\<close>

lemma locked_refused:
  assumes "mget (cu_shares s) (share_key net acct) = Some r" "now < kr_lockedUntil r"
  shows "fst (release_share threshold net ip acct cid proof ephPub now s) \<noteq> Some (Released h x t)"
    "cu_shares (snd (release_share threshold net ip acct cid proof ephPub now s)) = cu_shares s"
  using assms by (auto simp: release_share_def Let_def split: option.split prod.split)

lemma store_keeps_binding:
  assumes "store_share C threshold nidFor net rq s = (n, s')" "mget (cu_shares s) k = Some r"
  shows "\<exists>r'. mget (cu_shares s') k = Some r' \<and> kr_nid r' = kr_nid r \<and> kr_fails r' = kr_fails r \<and> kr_lockedUntil r' = kr_lockedUntil r
    \<and> (r' \<noteq> r \<longrightarrow> kr_ts r < kr_ts r' \<and> n = 200)"
proof (cases "n = 200 \<and> k = share_key net (sq_accountId rq)")
  case True
  with assms have "mget (cu_shares s) (share_key net (sq_accountId rq)) = Some r" by simp
  with assms True show ?thesis
    by (auto simp: store_share_def Let_def bound_nid_def split: if_splits option.splits)
next
  case False
  have "mget (cu_shares s') k = mget (cu_shares s) k"
    using assms(1) False by (auto simp: store_share_def Let_def split: if_splits option.splits)
  with assms(2) show ?thesis by simp
qed

lemma backoff_positive: "3 < n \<Longrightarrow> 30000 \<le> releaseBackoffMs n \<and> releaseBackoffMs n \<le> 86400000"
proof -
  have "(1 :: int) \<le> 4 ^ k" for k :: nat by simp
  then show "3 < n \<Longrightarrow> ?thesis" by (auto simp: releaseBackoffMs_def)
qed

end
