(* ===== verification/Recovery_Share.thy ===== *)
theory Recovery_Share
  imports Recovery_Gate Shamir Chunking
begin

text \<open>
  The client's side of recovery, \<open>src/network/recovery-share.ts\<close>: storing a secret on the relays,
  repairing the set of custodians, and putting a released secret together, over the relays of
  Recovery_Gate. A request or its answer may be lost. The repair keeps two usable shares at every
  moment when it starts from two custodians of the newest split; it does not when the newest split has one.
\<close>

section \<open>Storing\<close>

definition share_hex :: "bytes \<Rightarrow> string" where
  "share_hex bs = concat (map (\<lambda>b. [hex_digit (unat b div 16), hex_digit (unat b mod 16)]) bs)"

type_synonym relays = "string \<Rightarrow> share_custody"

datatype delivery = Delivered | RequestLost | AnswerLost

text \<open>What a relay runs with: its face threshold and the humans it attested.\<close>

record relay_env =
  en_crypto :: crypto
  en_threshold :: real
  en_nidFor :: "string \<Rightarrow> string \<Rightarrow> string option"

text \<open>The account that stores: its id, network and private key, and the live descriptor if there is one.\<close>

record client_env =
  cl_account :: string
  cl_network :: string
  cl_priv :: hex
  cl_descriptor :: "descriptor option"

definition storeOnRelay :: "relay_env \<Rightarrow> client_env \<Rightarrow> delivery \<Rightarrow> string \<Rightarrow> string \<Rightarrow> int option \<Rightarrow> int \<Rightarrow> relays \<Rightarrow> bool \<times> relays" where
  "storeOnRelay E cl d base shareHex x ts R =
     (case sign_str (en_crypto E) (share_payload (cl_account cl) (cl_network cl) x shareHex ts) (cl_priv cl) of
        None \<Rightarrow> (False, R)
      | Some sig \<Rightarrow> (case store_share (en_crypto E) (en_threshold E) (en_nidFor E base) (cl_network cl)
            \<lparr>sq_accountId = cl_account cl, sq_share = shareHex, sq_ts = ts, sq_sig = sig, sq_x = x, sq_descriptor = cl_descriptor cl\<rparr> (R base) of
          (n, s) \<Rightarrow> (case d of
              RequestLost \<Rightarrow> (False, R)
            | Delivered \<Rightarrow> (n = 200, R(base := s))
            | AnswerLost \<Rightarrow> (False, R(base := s)))))"

text \<open>One write after the other: how many were accepted, and the relays afterwards.\<close>

fun write_each :: "('b \<Rightarrow> relays \<Rightarrow> bool \<times> relays) \<Rightarrow> 'b list \<Rightarrow> relays \<Rightarrow> nat \<times> relays" where
  "write_each w [] R = (0, R)"
| "write_each w (b # bs) R = (case w b R of (ok, R') \<Rightarrow>
     (case write_each w bs R' of (n, R'') \<Rightarrow> ((if ok then Suc n else n), R'')))"

text \<open>
  The first distribution. The bases are written in parallel; each write touches its own relay. Fewer than two
  bases get the whole secret. \<open>None\<close>: the split throws.
\<close>

definition storeRecoveryShare :: "relay_env \<Rightarrow> client_env \<Rightarrow> (string \<Rightarrow> delivery) \<Rightarrow> string list \<Rightarrow> bytes \<Rightarrow> bytes \<Rightarrow> int \<Rightarrow> relays
    \<Rightarrow> (nat \<times> bool \<times> relays) option" where
  "storeRecoveryShare E cl d bases secret rnd ts R =
     (if length bases < 2 then
        (case write_each (\<lambda>b. storeOnRelay E cl (d b) b (share_hex secret) None ts) bases R of (n, R') \<Rightarrow> Some (n, False, R'))
      else (case shamirSplit rnd secret (int (length bases)) of
          None \<Rightarrow> None
        | Some shares \<Rightarrow>
            (case write_each (\<lambda>(b, sh). storeOnRelay E cl (d b) b (share_hex (sh_data sh)) (Some (sh_x sh)) ts) (zip bases shares) R of
              (n, R') \<Rightarrow> Some (n, True, R'))))"

section \<open>Refreshing\<close>

record base_status =
  st_base :: string
  st_has :: bool
  st_x :: "int option"
  st_ts :: int

datatype refresh_reason = FewerThanTwo | AlreadySpread nat | Growing nat nat | NoNewCustodian | BelowThreshold nat | Resplit nat nat

record refresh_plan =
  rp_holders :: "string list"
  rp_should :: bool
  rp_reason :: refresh_reason

definition planShareRefresh :: "base_status list \<Rightarrow> refresh_plan" where
  "planShareRefresh ss =
     (let reachable = map st_base ss; held = filter st_has ss;
        newestTs = foldl (\<lambda>m s. max m (st_ts s)) 0 held;
        holders = map st_base (filter (\<lambda>s. st_ts s = newestTs) held)
      in if length reachable < 2 then \<lparr>rp_holders = holders, rp_should = False, rp_reason = FewerThanTwo\<rparr>
         else if length reachable \<le> length holders then \<lparr>rp_holders = holders, rp_should = False, rp_reason = AlreadySpread (length holders)\<rparr>
         else \<lparr>rp_holders = holders, rp_should = True, rp_reason = Growing (length holders) (length reachable)\<rparr>)"

text \<open>The answers of the bases that can be reached.\<close>

definition fetchShareStatuses :: "(string \<Rightarrow> bool) \<Rightarrow> string \<Rightarrow> string \<Rightarrow> string list \<Rightarrow> relays \<Rightarrow> base_status list" where
  "fetchShareStatuses up net acct bases R = map (\<lambda>b. case share_status net acct (R b) of
       None \<Rightarrow> \<lparr>st_base = b, st_has = False, st_x = None, st_ts = 0\<rparr>
     | Some (x, t) \<Rightarrow> \<lparr>st_base = b, st_has = True, st_x = x, st_ts = t\<rparr>) (filter up bases)"

definition orderRefreshTargets :: "base_status list \<Rightarrow> refresh_plan \<Rightarrow> string list \<times> string list" where
  "orderRefreshTargets ss p = (filter (\<lambda>b. b \<notin> set (rp_holders p)) (map st_base ss), filter (\<lambda>b. b \<in> set (rp_holders p)) (map st_base ss))"

record refresh_result =
  rf_refreshed :: bool
  rf_custodians :: nat
  rf_reason :: refresh_reason

text \<open>The share of a base; of equal keys the last one counts, as in a \<open>Map\<close>.\<close>

definition refresh_write :: "relay_env \<Rightarrow> client_env \<Rightarrow> (string \<Rightarrow> delivery) \<Rightarrow> (string \<times> shamir_share) list \<Rightarrow> int \<Rightarrow> string \<Rightarrow> relays \<Rightarrow> bool \<times> relays" where
  "refresh_write E cl d shareFor ts b = storeOnRelay E cl (d b) b (share_hex (sh_data (the (map_of shareFor b))))
     (Some (sh_x (the (map_of shareFor b)))) ts"

definition refreshShareRedundancy :: "relay_env \<Rightarrow> client_env \<Rightarrow> (string \<Rightarrow> bool) \<Rightarrow> (string \<Rightarrow> delivery) \<Rightarrow> string list \<Rightarrow> bytes \<Rightarrow> bytes \<Rightarrow> int
    \<Rightarrow> relays \<Rightarrow> (refresh_result \<times> relays) option" where
  "refreshShareRedundancy E cl up d bases secret rnd ts R =
     (let ss = fetchShareStatuses up (cl_network cl) (cl_account cl) bases R; p = planShareRefresh ss in
      if \<not> rp_should p then Some (\<lparr>rf_refreshed = False, rf_custodians = length (rp_holders p), rf_reason = rp_reason p\<rparr>, R)
      else (case orderRefreshTargets ss p of (nonHolders, holders) \<Rightarrow>
        (case shamirSplit rnd secret (int (length (nonHolders @ holders))) of
           None \<Rightarrow> None
         | Some shares \<Rightarrow>
             (let w = refresh_write E cl d (rev (zip (nonHolders @ holders) shares)) ts in
              case write_each w nonHolders R of (n1, R1) \<Rightarrow>
                if n1 = 0 then Some (\<lparr>rf_refreshed = False, rf_custodians = length (rp_holders p), rf_reason = NoNewCustodian\<rparr>, R1)
                else (case write_each w holders R1 of (n2, R2) \<Rightarrow>
                  if n1 + n2 < 2 then Some (\<lparr>rf_refreshed = False, rf_custodians = n1 + n2, rf_reason = BelowThreshold (n1 + n2)\<rparr>, R2)
                  else Some (\<lparr>rf_refreshed = True, rf_custodians = n1 + n2, rf_reason = Resplit (n1 + n2) (length (nonHolders @ holders))\<rparr>, R2))))))"

section \<open>Release\<close>

text \<open>A relay's answer after decryption: a refusal, a reply that cannot be read, or the bytes with coordinate and split.\<close>

datatype release_answer = Denied string "int option" | Unreadable string | Plain bytes "int option" "int option"

record got_share =
  gs_share :: shamir_share
  gs_ts :: int

record release_state =
  re_reason :: string
  re_retry :: "int option"
  re_got :: "got_share list"

datatype release_result = Recovered bytes | NotRecovered string "int option"

definition ts_of :: "int option \<Rightarrow> int" where "ts_of t = (case t of None \<Rightarrow> 0 | Some n \<Rightarrow> n)"

definition max_retry :: "int option \<Rightarrow> int option \<Rightarrow> int option" where
  "max_retry old new = (case new of None \<Rightarrow> old | Some n \<Rightarrow> Some (max (case old of None \<Rightarrow> 0 | Some m \<Rightarrow> m) n))"

text \<open>A challenge without a proof is skipped: \<open>None\<close>. A combination that throws is caught like any other error.\<close>

fun release_loop :: "release_answer option list \<Rightarrow> release_state \<Rightarrow> release_result" where
  "release_loop [] s = NotRecovered (re_reason s) (re_retry s)"
| "release_loop (a # as) s = (case a of
     None \<Rightarrow> release_loop as s
   | Some (Denied e retry) \<Rightarrow> release_loop as (s\<lparr>re_reason := e, re_retry := max_retry (re_retry s) retry\<rparr>)
   | Some (Unreadable e) \<Rightarrow> release_loop as (s\<lparr>re_reason := e\<rparr>)
   | Some (Plain data x t) \<Rightarrow>
       if length data \<noteq> 32 then release_loop as (s\<lparr>re_reason := ''bad share length''\<rparr>)
       else (case x of
           None \<Rightarrow> Recovered data
         | Some i \<Rightarrow> if i = 0 then Recovered data
             else (let got = re_got s @ [\<lparr>gs_share = \<lparr>sh_x = i, sh_data = data\<rparr>, gs_ts = ts_of t\<rparr>] in
               case find (\<lambda>g. sh_x (gs_share g) \<noteq> i \<and> gs_ts g = ts_of t) got of
                 None \<Rightarrow> release_loop as (s\<lparr>re_got := got, re_reason := ''one share obtained''\<rparr>)
               | Some g \<Rightarrow> (case shamirCombine (gs_share g) \<lparr>sh_x = i, sh_data = data\<rparr> of
                     Some secret \<Rightarrow> Recovered secret
                   | None \<Rightarrow> release_loop as (s\<lparr>re_got := got, re_reason := ''combination failed''\<rparr>)))))"

definition releaseRecoveryShare :: "release_answer option list \<Rightarrow> release_result" where
  "releaseRecoveryShare as = release_loop as \<lparr>re_reason = ''no relay reachable'', re_retry = None, re_got = []\<rparr>"

section \<open>Challenges and key blobs\<close>

text \<open>A base answers with an identifier and a sequence or not at all; at most \<open>want\<close> are kept.\<close>

fun fetchRecoveryChallenges :: "nat \<Rightarrow> (string \<times> (string \<times> string list) option) list \<Rightarrow> (string \<times> string \<times> string list) list" where
  "fetchRecoveryChallenges want [] = []"
| "fetchRecoveryChallenges want ((base, a) # as) = (case want of
     0 \<Rightarrow> []
   | Suc n \<Rightarrow> (case a of
         None \<Rightarrow> fetchRecoveryChallenges want as
       | Some (cid, q) \<Rightarrow> if cid \<noteq> [] \<and> q \<noteq> [] then (base, cid, q) # fetchRecoveryChallenges n as
           else fetchRecoveryChallenges want as))"

record key_blob =
  kb_pub :: string
  kb_encryptedKeys :: string
  kb_updatedAt :: "int option"
  kb_createdAt :: "int option"

definition blob_ts :: "key_blob \<Rightarrow> int" where
  "blob_ts b = (case kb_updatedAt b of Some t \<Rightarrow> t | None \<Rightarrow> (case kb_createdAt b of Some t \<Rightarrow> t | None \<Rightarrow> 0))"

definition fetchKeyBlobFromRelays :: "key_blob option list \<Rightarrow> key_blob option" where
  "fetchKeyBlobFromRelays answers = foldl (\<lambda>best a. case a of
       None \<Rightarrow> best
     | Some b \<Rightarrow> if kb_pub b = [] \<or> kb_encryptedKeys b = [] then best
         else (case best of None \<Rightarrow> Some b | Some c \<Rightarrow> if blob_ts b > blob_ts c then Some b else best)) None answers"

definition storeKeyBlobOnRelays :: "bool list \<Rightarrow> nat" where
  "storeKeyBlobOnRelays oks = length (filter id oks)"

section \<open>What a write does\<close>

definition share_held :: "string \<Rightarrow> string \<Rightarrow> relays \<Rightarrow> string \<Rightarrow> share_record option" where
  "share_held net acct R b = mget (cu_shares (R b)) (share_key net acct)"

definition holds :: "share_record option \<Rightarrow> string \<Rightarrow> int option \<Rightarrow> int \<Rightarrow> bool" where
  "holds r share x ts \<longleftrightarrow> (\<exists>k. r = Some k \<and> kr_shareHex k = js_lower share \<and> kr_x k = x \<and> kr_ts k = ts)"

lemma store_effect:
  assumes "store_share C th nidFor net rq s = (n, s')"
  shows "(n = 200 \<and> holds (mget (cu_shares s') (share_key net (sq_accountId rq))) (sq_share rq) (sq_x rq) (sq_ts rq)) \<or> (n \<noteq> 200 \<and> s' = s)"
  using assms by (auto simp: store_share_def holds_def Let_def split: if_splits option.splits)

lemma storeOnRelay_effect:
  assumes "storeOnRelay E cl d b h x ts R = (ok, R')"
  shows "(\<forall>b'. b' \<noteq> b \<longrightarrow> R' b' = R b')
    \<and> (holds (share_held (cl_network cl) (cl_account cl) R' b) h x ts \<or> (\<not> ok \<and> R' = R))"
proof (cases "sign_str (en_crypto E) (share_payload (cl_account cl) (cl_network cl) x h ts) (cl_priv cl)")
  case None
  with assms show ?thesis by (simp add: storeOnRelay_def)
next
  case (Some sig)
  let ?rq = "\<lparr>sq_accountId = cl_account cl, sq_share = h, sq_ts = ts, sq_sig = sig, sq_x = x, sq_descriptor = cl_descriptor cl\<rparr>"
  obtain n s where st: "store_share (en_crypto E) (en_threshold E) (en_nidFor E b) (cl_network cl) ?rq (R b) = (n, s)" by fastforce
  have "R(b := R b) = R" by simp
  with assms Some st store_effect [OF st] show ?thesis
    by (cases d) (auto simp: storeOnRelay_def share_held_def)
qed

text \<open>A sequence of writes, each to its own relay.\<close>

definition writes :: "(string \<Rightarrow> share_record option \<Rightarrow> bool) \<Rightarrow> string \<Rightarrow> string \<Rightarrow> (string \<Rightarrow> relays \<Rightarrow> bool \<times> relays) \<Rightarrow> bool" where
  "writes new net acct w \<longleftrightarrow> (\<forall>b R ok R'. w b R = (ok, R') \<longrightarrow> (\<forall>b'. b' \<noteq> b \<longrightarrow> R' b' = R b')
     \<and> (new b (share_held net acct R' b) \<or> (\<not> ok \<and> R' = R)))"

lemma write_each_effect:
  assumes "writes new net acct w"
  shows "distinct bs \<Longrightarrow> write_each w bs R = (n, R') \<Longrightarrow>
    (\<forall>b. b \<notin> set bs \<longrightarrow> R' b = R b) \<and> (\<forall>b \<in> set bs. new b (share_held net acct R' b) \<or> R' b = R b)
    \<and> (0 < n \<longrightarrow> (\<exists>b \<in> set bs. new b (share_held net acct R' b)))"
proof (induction bs arbitrary: R n)
  case (Cons b bs)
  obtain ok R1 where w: "w b R = (ok, R1)" by fastforce
  obtain m where m: "write_each w bs R1 = (m, R')" "n = (if ok then Suc m else m)"
    using Cons.prems(2) w by (auto split: prod.splits)
  have e: "\<forall>b'. b' \<noteq> b \<longrightarrow> R1 b' = R b'" "new b (share_held net acct R1 b) \<or> (\<not> ok \<and> R1 = R)"
    using assms w unfolding writes_def by blast+
  have ih: "\<forall>b. b \<notin> set bs \<longrightarrow> R' b = R1 b" "\<forall>b \<in> set bs. new b (share_held net acct R' b) \<or> R' b = R1 b"
    "0 < m \<longrightarrow> (\<exists>b \<in> set bs. new b (share_held net acct R' b))"
    using Cons.IH [OF _ m(1)] Cons.prems(1) by auto
  have b: "b \<notin> set bs" using Cons.prems(1) by simp
  then have "R' b = R1 b" using ih(1) by blast
  then have hb: "share_held net acct R' b = share_held net acct R1 b" by (simp add: share_held_def)
  have "\<forall>c \<in> set bs. R1 c = R c" using e(1) b by auto
  then have "\<forall>c \<in> set bs. new c (share_held net acct R' c) \<or> R' c = R c" using ih(2) by auto
  moreover have "new b (share_held net acct R' b) \<or> R' b = R b"
    using e(2) hb \<open>R' b = R1 b\<close> by auto
  moreover have "\<forall>c. c \<notin> set (b # bs) \<longrightarrow> R' c = R c"
    using ih(1) e(1) by auto
  moreover have "0 < n \<longrightarrow> (\<exists>c \<in> set (b # bs). new c (share_held net acct R' c))"
    using ih(3) e(2) hb m(2) by (auto split: if_splits)
  ultimately show ?case by auto
qed simp

section \<open>Two usable shares at every moment\<close>

text \<open>What a relay hands out for the record it holds, once the client has decrypted it.\<close>

definition release_of :: "crypto \<Rightarrow> share_record \<Rightarrow> release_answer option" where
  "release_of C k = map_option (\<lambda>d. Plain d (kr_x k) (Some (kr_ts k))) (c_fromHex C (kr_shareHex k))"

text \<open>Two custodians among the bases give the secret back.\<close>

definition recoverable :: "crypto \<Rightarrow> client_env \<Rightarrow> bytes \<Rightarrow> string list \<Rightarrow> relays \<Rightarrow> bool" where
  "recoverable C cl secret bs R \<longleftrightarrow> list_ex (\<lambda>b. list_ex (\<lambda>b'. b \<noteq> b' \<and>
     (case (share_held (cl_network cl) (cl_account cl) R b, share_held (cl_network cl) (cl_account cl) R b') of
        (Some k, Some k') \<Rightarrow> releaseRecoveryShare [release_of C k, release_of C k'] = Recovered secret
      | _ \<Rightarrow> False)) bs) bs"

lemma hex_digit_lower: "d < 16 \<Longrightarrow> js_lower [hex_digit d] = [hex_digit d]"
  by (auto simp: js_lower_def hex_digit_def)

lemma js_lower_append: "js_lower (a @ b) = js_lower a @ js_lower b"
  by (simp add: js_lower_def)

lemma share_hex_lower: "js_lower (share_hex bs) = share_hex bs"
proof (induction bs)
  case (Cons b bs)
  have "unat b div 16 < 16" using unat_byte_less [of b] by simp
  then have "js_lower [hex_digit (unat b div 16), hex_digit (unat b mod 16)] = [hex_digit (unat b div 16), hex_digit (unat b mod 16)]"
    using hex_digit_lower [of "unat b div 16"] hex_digit_lower [of "unat b mod 16"] by (simp add: js_lower_def)
  with Cons show ?case
    by (simp add: share_hex_def js_lower_append del: append.simps)
qed (simp add: share_hex_def js_lower_def)

text \<open>The library's hex decoder reads back what the client printed.\<close>

definition reads_hex :: "crypto \<Rightarrow> bool" where
  "reads_hex C \<longleftrightarrow> (\<forall>d. c_fromHex C (share_hex d) = Some d)"

lemma two_shares_release:
  assumes split: "shamirSplit rnd secret n = Some shares" "length rnd = length secret" "length secret = 32"
    and ab: "a \<in> set shares" "b \<in> set shares" "sh_x a \<noteq> sh_x b"
  shows "releaseRecoveryShare [Some (Plain (sh_data a) (Some (sh_x a)) (Some ts)), Some (Plain (sh_data b) (Some (sh_x b)) (Some ts))] = Recovered secret"
proof -
  note A = split_shares [OF split(1) ab(1) split(2)] and B = split_shares [OF split(1) ab(2) split(2)]
  then have "length (sh_data a) = 32" "length (sh_data b) = 32" "sh_x a \<noteq> 0" "sh_x b \<noteq> 0"
    using split(2,3) by auto
  moreover have "\<lparr>sh_x = sh_x s, sh_data = sh_data s\<rparr> = s" for s :: shamir_share
    by (cases s) simp
  then have "shamirCombine \<lparr>sh_x = sh_x a, sh_data = sh_data a\<rparr> \<lparr>sh_x = sh_x b, sh_data = sh_data b\<rparr> = Some secret"
    using combine_split [OF split(1,2) ab] by metis
  ultimately show ?thesis
    using ab(3) by (simp add: releaseRecoveryShare_def ts_of_def)
qed

lemma recoverable_held:
  assumes "recoverable C cl secret bs R" "\<forall>b \<in> set bs. share_held (cl_network cl) (cl_account cl) R' b = share_held (cl_network cl) (cl_account cl) R b"
    "set bs \<subseteq> set bs'"
  shows "recoverable C cl secret bs' R'"
  using assms unfolding recoverable_def list_ex_iff by (metis (no_types, lifting) subsetD)

lemma recoverable_split:
  assumes C: "reads_hex C"
    and split: "shamirSplit rnd secret n = Some shares" "length rnd = length secret" "length secret = 32"
    and b: "b \<in> set bs" "b' \<in> set bs" "b \<noteq> b'"
    and sh: "a \<in> set shares" "a' \<in> set shares" "sh_x a \<noteq> sh_x a'"
    and h: "holds (share_held (cl_network cl) (cl_account cl) R b) (share_hex (sh_data a)) (Some (sh_x a)) ts"
      "holds (share_held (cl_network cl) (cl_account cl) R b') (share_hex (sh_data a')) (Some (sh_x a')) ts"
  shows "recoverable C cl secret bs R"
proof -
  obtain k k' where k: "share_held (cl_network cl) (cl_account cl) R b = Some k" "share_held (cl_network cl) (cl_account cl) R b' = Some k'"
    "kr_shareHex k = share_hex (sh_data a)" "kr_x k = Some (sh_x a)" "kr_ts k = ts"
    "kr_shareHex k' = share_hex (sh_data a')" "kr_x k' = Some (sh_x a')" "kr_ts k' = ts"
    using h by (auto simp: holds_def share_hex_lower)
  have "releaseRecoveryShare [release_of C k, release_of C k'] = Recovered secret"
    using two_shares_release [OF split sh] C by (simp add: release_of_def reads_hex_def k)
  with k(1,2) b show ?thesis
    unfolding recoverable_def list_ex_iff by (intro bexI [of _ b] bexI [of _ b']) simp_all
qed

lemma split_distinct_x: "shamirSplit r secret n = Some shares \<Longrightarrow> distinct (map sh_x shares) \<and> length shares = nat n"
  by (auto simp: shamirSplit_def comp_def split: if_splits)

lemma map_of_rev_distinct: "distinct (map fst xs) \<Longrightarrow> map_of (rev xs) = map_of xs"
proof
  fix k
  assume d: "distinct (map fst xs)"
  then have d': "distinct (map fst (rev xs))" by (simp add: rev_map [symmetric])
  show "map_of (rev xs) k = map_of xs k"
  proof (cases "map_of xs k")
    case None
    then have "map_of (rev xs) k = None" by (simp only: map_of_eq_None_iff set_rev simp_thms)
    with None show ?thesis by simp
  next
    case (Some v)
    then have "(k, v) \<in> set (rev xs)" using map_of_SomeD [of xs k v] by simp
    with d' Some show ?thesis by simp
  qed
qed

lemma map_of_zip_share:
  assumes "distinct bs" "length bs = length shares" "distinct (map sh_x shares)" "b \<in> set bs" "b' \<in> set bs" "b \<noteq> b'"
  shows "the (map_of (rev (zip bs shares)) b) \<in> set shares \<and> sh_x (the (map_of (rev (zip bs shares)) b)) \<noteq> sh_x (the (map_of (rev (zip bs shares)) b'))"
proof -
  obtain i where i: "i < length bs" "b = bs ! i" using assms(4) by (auto simp: in_set_conv_nth)
  obtain j where j: "j < length bs" "b' = bs ! j" using assms(5) by (auto simp: in_set_conv_nth)
  have "i \<noteq> j" using assms(6) i j by auto
  moreover have "map_of (rev (zip bs shares)) = map_of (zip bs shares)"
    by (rule map_of_rev_distinct) (use assms(1,2) in simp)
  then have "map_of (rev (zip bs shares)) b = Some (shares ! i)" "map_of (rev (zip bs shares)) b' = Some (shares ! j)"
    using map_of_zip_nth [OF assms(2,1)] i j assms(2) by simp_all
  ultimately show ?thesis
    using i j assms(2,3) by (auto simp: distinct_conv_nth)
qed

lemma statuses_bases: "map st_base (fetchShareStatuses up net acct bases R) = filter up bases"
proof -
  have "st_base (case share_status net acct (R b) of None \<Rightarrow> \<lparr>st_base = b, st_has = False, st_x = None, st_ts = 0\<rparr>
     | Some (x, t) \<Rightarrow> \<lparr>st_base = b, st_has = True, st_x = x, st_ts = t\<rparr>) = b" for b
    by (simp split: option.split)
  then show ?thesis by (simp add: fetchShareStatuses_def comp_def)
qed

lemma targets_bases:
  assumes "orderRefreshTargets ss p = (non, hold)"
  shows "set (non @ hold) = set (map st_base ss) \<and> (distinct (map st_base ss) \<longrightarrow> distinct (non @ hold))
    \<and> set hold = set (map st_base ss) \<inter> set (rp_holders p)"
  using assms by (auto simp: orderRefreshTargets_def)

lemma holders_reachable: "set (rp_holders (planShareRefresh ss)) \<subseteq> set (map st_base ss)"
  by (auto simp: planShareRefresh_def Let_def)

lemma refresh_write_writes:
  "writes (\<lambda>b r. holds r (share_hex (sh_data (the (map_of sf b)))) (Some (sh_x (the (map_of sf b)))) ts)
     (cl_network cl) (cl_account cl) (refresh_write E cl d sf ts)"
  unfolding writes_def refresh_write_def using storeOnRelay_effect by blast

text \<open>
  The lost messages of the refresh are arbitrary, so the state after it also stands for the states in
  between: a refresh cut off after some write leaves what one leaves whose later requests are lost.
\<close>

lemma refresh_keeps_two_lemma:
  assumes C: "reads_hex (en_crypto E)" and len: "length rnd = length secret" "length secret = 32" and dist: "distinct bases"
    and rec: "recoverable (en_crypto E) cl secret
      (rp_holders (planShareRefresh (fetchShareStatuses up (cl_network cl) (cl_account cl) bases R))) R"
    and run: "refreshShareRedundancy E cl up d bases secret rnd ts R = Some (res, R')"
  shows "recoverable (en_crypto E) cl secret bases R'"
proof -
  let ?net = "cl_network cl" and ?acct = "cl_account cl"
  define ss where "ss = fetchShareStatuses up ?net ?acct bases R"
  define p where "p = planShareRefresh ss"
  have ssb: "map st_base ss = filter up bases" by (simp add: ss_def statuses_bases)
  have hb: "set (rp_holders p) \<subseteq> set (map st_base ss)" unfolding p_def by (rule holders_reachable)
  then have sub: "set (rp_holders p) \<subseteq> set bases" unfolding ssb by auto
  have rec': "recoverable (en_crypto E) cl secret (rp_holders p) R" using rec by (simp add: p_def ss_def)
  obtain non hold where o: "orderRefreshTargets ss p = (non, hold)" by fastforce
  let ?t = "non @ hold"
  note tb = targets_bases [OF o]
  have "distinct (map st_base ss)" unfolding ssb using dist by simp
  then have dt: "distinct ?t" using tb by blast
  have tsub: "set ?t \<subseteq> set bases" using tb ssb by auto
  have hold: "set hold = set (rp_holders p)" using tb hb by blast
  show ?thesis
  proof (cases "rp_should p")
    case False
    with run have "R' = R" by (auto simp: refreshShareRedundancy_def Let_def p_def ss_def)
    with rec' sub show ?thesis using recoverable_held [of _ cl secret "rp_holders p" R R' bases] by simp
  next
    case True
    with run o obtain shares where sp: "shamirSplit rnd secret (int (length ?t)) = Some shares"
      by (auto simp: refreshShareRedundancy_def Let_def p_def ss_def split: option.splits)
    let ?w = "refresh_write E cl d (rev (zip ?t shares)) ts"
    let ?new = "\<lambda>b r. holds r (share_hex (sh_data (the (map_of (rev (zip ?t shares)) b)))) (Some (sh_x (the (map_of (rev (zip ?t shares)) b)))) ts"
    obtain n1 R1 where w1: "write_each ?w non R = (n1, R1)" by fastforce
    obtain n2 R2 where w2: "write_each ?w hold R1 = (n2, R2)" by fastforce
    note e1 = write_each_effect [OF refresh_write_writes _ w1] and e2 = write_each_effect [OF refresh_write_writes _ w2]
    have d1: "distinct non" "distinct hold" "set non \<inter> set hold = {}" using dt by auto
    have keep1: "\<forall>b \<in> set hold. R1 b = R b" using e1 d1 by auto
    have out: "R' = (if n1 = 0 then R1 else R2)"
      using run True o sp w1 w2 by (auto simp: refreshShareRedundancy_def Let_def p_def ss_def split: if_splits)
    show ?thesis
    proof (cases "n1 = 0 \<or> (\<forall>b \<in> set hold. R2 b = R1 b)")
      case True
      then have "\<forall>b \<in> set (rp_holders p). share_held ?net ?acct R' b = share_held ?net ?acct R b"
        using out keep1 hold by (auto simp: share_held_def)
      then show ?thesis using recoverable_held [OF rec' _ sub] by blast
    next
      case False
      then obtain h where h: "h \<in> set hold" "?new h (share_held ?net ?acct R2 h)" and "0 < n1" "R' = R2"
        using e2 d1(2) out by auto
      then obtain b where b: "b \<in> set non" "?new b (share_held ?net ?acct R1 b)"
        using e1 d1(1) by auto
      then have b2: "?new b (share_held ?net ?acct R2 b)" "b \<noteq> h"
        using e2 d1 h(1) by (auto simp: share_held_def)
      have mem: "b \<in> set ?t" "h \<in> set ?t" using b h by simp_all
      have l: "length ?t = length shares" using split_distinct_x [OF sp] by simp
      note sh = map_of_zip_share [OF dt l]
      show ?thesis
        using recoverable_split [OF C sp len, of b bases h] mem tsub b2 h(2) \<open>R' = R2\<close>
          sh [OF _ mem b2(2)] sh [OF _ mem(2,1)] split_distinct_x [OF sp] by blast
    qed
  qed
qed

section \<open>A concrete network\<close>

text \<open>Keys and signatures for evaluation, with hexadecimal strings as the program prints them.\<close>

fun unhex :: "string \<Rightarrow> bytes option" where
  "unhex (a # b # s) = (case (hex_digit_val a, hex_digit_val b, unhex s) of
     (Some m, Some n, Some bs) \<Rightarrow> Some (word_of_nat (16 * m + n) # bs) | _ \<Rightarrow> None)"
| "unhex [] = Some []"
| "unhex [a] = None"

definition printed_crypto :: crypto where
  "printed_crypto = demo_crypto\<lparr>c_toHex := share_hex, c_fromHex := unhex,
     c_pubkey := (\<lambda>k. Some (2 # k)), c_p256_sign := (\<lambda>d k. Some (k @ d)), c_p256_verify := (\<lambda>s d p. Some (s = tl p @ d))\<rparr>"

lemma unhex_share_hex: "unhex (share_hex bs) = Some bs"
proof (induction bs)
  case (Cons b bs)
  have "unat b div 16 < 16" using unat_byte_less [of b] by simp
  with Cons show ?case
    by (simp add: share_hex_def hex_digit_val_digit)
qed (simp add: share_hex_def)

lemma hex_crypto_reads: "reads_hex printed_crypto"
  by (simp add: reads_hex_def printed_crypto_def unhex_share_hex)

definition demo_client :: client_env where
  "demo_client = \<lparr>cl_account = share_hex (2 # replicate 32 0), cl_network = ''mainnet'', cl_priv = share_hex (replicate 32 0), cl_descriptor = None\<rparr>"

definition demo_env :: relay_env where
  "demo_env = \<lparr>en_crypto = printed_crypto, en_threshold = 1 / 2, en_nidFor = (\<lambda>b a. Some ''nid'')\<rparr>"

text \<open>Relays that recognise the account and hold nothing else; \<open>g\<close> gives the share and the split at each.\<close>

definition demo_record :: "shamir_share \<times> int \<Rightarrow> share_record" where
  "demo_record q = \<lparr>kr_accountId = cl_account demo_client, kr_nid = ''nid'', kr_network = ''mainnet'',
     kr_shareHex = share_hex (sh_data (fst q)), kr_ts = snd q, kr_x = Some (sh_x (fst q)), kr_fails = 0, kr_lockedUntil = 0\<rparr>"

definition relays_of :: "(string \<Rightarrow> (shamir_share \<times> int) option) \<Rightarrow> relays" where
  "relays_of g = (\<lambda>b. \<lparr>cu_shares = (case g b of None \<Rightarrow> [] | Some q \<Rightarrow> [(share_key ''mainnet'' (cl_account demo_client), demo_record q)]),
     cu_sessions = [], cu_releaseLog = [], cu_faces = []\<rparr>)"

lemma share_hex_length: "length (share_hex bs) = 2 * length bs"
  by (induction bs) (simp_all add: share_hex_def)

lemma hex_digit_hex: "d < 16 \<Longrightarrow> hex_digit d \<in> set ''0123456789abcdefABCDEF''"
proof -
  have "list_all (\<lambda>d. hex_digit d \<in> set ''0123456789abcdefABCDEF'') [0..<16]" by code_simp
  then show "d < 16 \<Longrightarrow> ?thesis" by (simp add: list_all_iff del: list.set)
qed

lemma share_hex_hex32: "length bs = 32 \<Longrightarrow> hex32 (share_hex bs)"
proof -
  have "list_all (\<lambda>c. c \<in> set ''0123456789abcdefABCDEF'') (share_hex bs)"
  proof (induction bs)
    case (Cons b bs)
    have "unat b div 16 < 16" using unat_byte_less [of b] by simp
    with Cons hex_digit_hex [of "unat b div 16"] hex_digit_hex [of "unat b mod 16"] show ?case
      by (simp add: share_hex_def del: list.set)
  qed (simp add: share_hex_def)
  then show "length bs = 32 \<Longrightarrow> ?thesis" by (simp only: hex32_def share_hex_length) simp
qed

lemma demo_account: "looksLikeAccountPub (cl_account demo_client)"
  by code_simp

lemma demo_verifies: "\<exists>sig. sign_str printed_crypto m (cl_priv demo_client) = Some sig \<and> verify_str printed_crypto sig m (cl_account demo_client)"
  by (simp add: sign_str_def verify_str_def sign_def verify_def printed_crypto_def demo_client_def unhex_share_hex hash_bytes_def)

lemma demo_write:
  assumes "length (sh_data s) = 32" "1 \<le> sh_x s" "sh_x s \<le> 255" "case g b of None \<Rightarrow> True | Some q \<Rightarrow> snd q < ts"
  shows "storeOnRelay demo_env demo_client d b (share_hex (sh_data s)) (Some (sh_x s)) ts (relays_of g)
    = (d = Delivered, if d = RequestLost then relays_of g else relays_of (g(b \<mapsto> (s, ts))))"
proof -
  let ?m = "share_payload (cl_account demo_client) (cl_network demo_client) (Some (sh_x s)) (share_hex (sh_data s)) ts"
  obtain sig where sig: "sign_str printed_crypto ?m (cl_priv demo_client) = Some sig" "verify_str printed_crypto sig ?m (cl_account demo_client)"
    using demo_verifies by blast
  have net: "cl_network demo_client = ''mainnet''" "cl_descriptor demo_client = None" by (simp_all add: demo_client_def)
  let ?k = "share_key ''mainnet'' (cl_account demo_client)"
  let ?rq = "\<lparr>sq_accountId = cl_account demo_client, sq_share = share_hex (sh_data s), sq_ts = ts, sq_sig = sig, sq_x = Some (sh_x s), sq_descriptor = None\<rparr>"
  have st: "store_share printed_crypto (1 / 2) (\<lambda>a. Some ''nid'') ''mainnet'' ?rq (relays_of g b)
      = (200, relays_of (g(b \<mapsto> (s, ts))) b)"
    using assms sig demo_account share_hex_hex32 [OF assms(1)] net
    by (cases "g b") (auto simp: store_share_def bound_nid_def relays_of_def demo_record_def share_hex_lower Let_def mset_at_def)
  have "(relays_of g)(b := relays_of (g(b \<mapsto> (s, ts))) b) = relays_of (g(b \<mapsto> (s, ts)))"
    by (auto simp: relays_of_def fun_eq_iff)
  then show ?thesis
    using sig st net by (cases d) (simp_all add: storeOnRelay_def demo_env_def)
qed

lemma demo_statuses: "fetchShareStatuses (\<lambda>b. True) (cl_network demo_client) (cl_account demo_client) bs (relays_of g) =
  map (\<lambda>b. case g b of None \<Rightarrow> \<lparr>st_base = b, st_has = False, st_x = None, st_ts = 0\<rparr>
    | Some q \<Rightarrow> \<lparr>st_base = b, st_has = True, st_x = Some (sh_x (fst q)), st_ts = snd q\<rparr>) bs"
  by (auto simp: fetchShareStatuses_def share_status_def relays_of_def demo_record_def demo_client_def split: option.split)

lemma demo_held: "share_held (cl_network demo_client) (cl_account demo_client) (relays_of g) b = map_option demo_record (g b)"
  by (simp add: share_held_def relays_of_def demo_client_def split: option.split)

lemma upto_1_2_3: "[1..2 :: int] = [1, 2]" "[1..3 :: int] = [1, 2, 3]"
  by (simp_all add: upto.simps)

text \<open>The share at coordinate \<open>x\<close>.\<close>

definition share_at :: "bytes \<Rightarrow> bytes \<Rightarrow> int \<Rightarrow> shamir_share" where
  "share_at rnd secret x = \<lparr>sh_x = x, sh_data = map2 (\<lambda>s k. s XOR word_of_int (mul_gf (uint k) x)) secret rnd\<rparr>"

lemma split_at: "shamirSplit rnd secret 2 = Some [share_at rnd secret 1, share_at rnd secret 2]"
  "shamirSplit rnd secret 3 = Some [share_at rnd secret 1, share_at rnd secret 2, share_at rnd secret 3]"
  by (simp_all add: shamirSplit_def share_at_def upto_1_2_3)

lemma share_at_fields: "sh_x (share_at rnd secret x) = x" "length rnd = length secret \<Longrightarrow> length (sh_data (share_at rnd secret x)) = length secret"
  by (simp_all add: share_at_def)

lemma demo_write_at:
  assumes "length secret = 32" "length rnd = 32" "1 \<le> x" "x \<le> 255" "case g b of None \<Rightarrow> True | Some q \<Rightarrow> snd q < ts"
  shows "storeOnRelay demo_env demo_client d b (share_hex (sh_data (share_at rnd secret x))) (Some x) ts (relays_of g)
    = (d = Delivered, if d = RequestLost then relays_of g else relays_of (g(b \<mapsto> (share_at rnd secret x, ts))))"
  using demo_write [where s = "share_at rnd secret x" and g = g and b = b and ts = ts and d = d] assms by (simp add: share_at_fields)

section \<open>An orphan share\<close>

definition created_relays :: "bytes \<Rightarrow> bytes \<Rightarrow> relays" where
  "created_relays secret rnd = relays_of [''A'' \<mapsto> (share_at rnd secret 1, 1), ''B'' \<mapsto> (share_at rnd secret 2, 1)]"

lemma creation:
  assumes "length secret = 32" "length rnd = 32"
  shows "storeRecoveryShare demo_env demo_client (\<lambda>b. Delivered) [''A'', ''B''] secret rnd 1 (relays_of Map.empty)
    = Some (2, True, created_relays secret rnd)"
  using assms by (simp add: storeRecoveryShare_def split_at demo_write_at share_at_fields created_relays_def)

text \<open>The answer of C is lost: the client takes its share for refused.\<close>

lemma refresh_answer_lost:
  assumes "length secret = 32" "length rnd' = 32"
  shows "refreshShareRedundancy demo_env demo_client (\<lambda>b. True) (\<lambda>b. AnswerLost) [''A'', ''B'', ''C''] secret rnd' 2 (created_relays secret rnd)
    = Some (\<lparr>rf_refreshed = False, rf_custodians = 2, rf_reason = NoNewCustodian\<rparr>,
        relays_of [''A'' \<mapsto> (share_at rnd secret 1, 1), ''B'' \<mapsto> (share_at rnd secret 2, 1), ''C'' \<mapsto> (share_at rnd' secret 1, 2)])"
  using assms by (simp add: refreshShareRedundancy_def created_relays_def demo_statuses planShareRefresh_def orderRefreshTargets_def split_at
      refresh_write_def demo_write_at share_at_fields)

text \<open>The orphan is now the newest split: A and B are written first, although they are the only usable pair.\<close>

lemma refresh_from_orphan:
  assumes "length secret = 32" "length rnd'' = 32"
  shows "refreshShareRedundancy demo_env demo_client (\<lambda>b. True) (\<lambda>b. if b = ''A'' then Delivered else RequestLost) [''A'', ''B'', ''C''] secret rnd'' 3
      (relays_of [''A'' \<mapsto> (share_at rnd secret 1, 1), ''B'' \<mapsto> (share_at rnd secret 2, 1), ''C'' \<mapsto> (share_at rnd' secret 1, 2)])
    = Some (\<lparr>rf_refreshed = False, rf_custodians = 1, rf_reason = BelowThreshold 1\<rparr>,
        relays_of [''A'' \<mapsto> (share_at rnd'' secret 1, 3), ''B'' \<mapsto> (share_at rnd secret 2, 1), ''C'' \<mapsto> (share_at rnd' secret 1, 2)])"
  using assms by (simp add: refreshShareRedundancy_def demo_statuses planShareRefresh_def orderRefreshTargets_def split_at
      refresh_write_def demo_write_at share_at_fields fun_upd_twist)

lemma generations_apart:
  assumes "length (sh_data a) = 32" "length (sh_data b) = 32" "sh_x a \<noteq> 0" "sh_x b \<noteq> 0" "s \<noteq> t"
  shows "releaseRecoveryShare [release_of printed_crypto (demo_record (a, s)), release_of printed_crypto (demo_record (b, t))] = NotRecovered ''one share obtained'' None"
  using assms by (simp add: releaseRecoveryShare_def release_of_def demo_record_def printed_crypto_def unhex_share_hex ts_of_def)

lemma three_generations_lost:
  assumes "length secret = 32" "length rnd = 32" "length rnd' = 32" "length rnd'' = 32"
  shows "\<not> recoverable printed_crypto demo_client s [''A'', ''B'', ''C'']
     (relays_of [''A'' \<mapsto> (share_at rnd'' secret 1, 3), ''B'' \<mapsto> (share_at rnd secret 2, 1), ''C'' \<mapsto> (share_at rnd' secret 1, 2)])"
  using assms by (simp add: recoverable_def demo_held generations_apart share_at_fields)

lemma created_recoverable:
  assumes "length secret = 32" "length rnd = 32" "''A'' \<in> set bs" "''B'' \<in> set bs"
  shows "recoverable printed_crypto demo_client secret bs (created_relays secret rnd)"
proof (rule recoverable_split [where b = "''A''" and b' = "''B''"
      and a = "share_at rnd secret 1" and a' = "share_at rnd secret 2"])
  show "shamirSplit rnd secret 2 = Some [share_at rnd secret 1, share_at rnd secret 2]" by (rule split_at)
qed (use assms in \<open>auto simp: hex_crypto_reads demo_held created_relays_def holds_def demo_record_def share_hex_lower share_at_fields\<close>)

end
