(* ===== verification/Network_Properties.thy ===== *)
theory Network_Properties
  imports Owner_Chain File_Archive Recovery_Share
begin

text \<open>What a client may take from relays: the file index, accounts by name, and the recovery of a key.\<close>

section \<open>Files\<close>

text \<open>C34: whatever relays answer, every file a lookup returns is one of the rows that were served, is well formed
  and not withdrawn, carries the signature of its uploader over its cid, size and timestamp, and no served row of
  its cid is newer; what an archive holds is well formed, signed, filed under its cid and within the cap.\<close>

theorem looked_up_files_signed:
  assumes "r \<in> set (fst (lookupFiles C answers))"
  shows "r \<in> set (fetched_rows answers) \<and> isWellFormedFileRecord r \<and> \<not> withdrawn r
    \<and> verify_str C (fr_signature r) (fileAnnouncePayload (fr_cid r) (fr_sizeBytes r) (fr_uploaderPub r) (fr_timestamp r)) (fr_uploaderPub r)
    \<and> (\<forall>r' \<in> set (fetched_rows answers). fr_cid r' = fr_cid r \<longrightarrow> fr_timestamp r' \<le> fr_timestamp r)
    \<and> archive_ok C (foldl (\<lambda>st (r, net, now). archiveFileRecord C T enabled r net now st) [] rs)"
  using lookup_authentic [OF assms] archive_run_ok by blast

definition sample_file :: file_record where
  "sample_file = \<lparr>fr_cid = ''c'', fr_sizeBytes = 10, fr_mimeType = None, fr_timestamp = 5, fr_uploaderPub = sample_pub,
     fr_signature = the (sign_str demo_crypto (fileAnnouncePayload ''c'' 10 sample_pub 5) sample_priv), fr_removed = None\<rparr>"

definition sample_answers :: file_answers where
  "sample_answers = [(''a'', Some ([forged_row ''d'' 7, sample_file], Some 1)), (''b'', None)]"

lemma sample_found: "map fr_cid (fst (lookupFiles demo_crypto sample_answers)) = [''c'']" "sample_file \<in> set (fst (lookupFiles demo_crypto sample_answers))"
  by code_simp+

theorem looked_up_files_signed_witness:
  "\<not> withdrawn sample_file \<and> isWellFormedFileRecord sample_file
   \<and> verify_str demo_crypto (fr_signature sample_file) (fileAnnouncePayload ''c'' 10 sample_pub 5) sample_pub"
  using looked_up_files_signed [OF sample_found(2)] by (simp add: sample_file_def)

text \<open>One relay hides any file: for every set of answers there is an unsigned row that, when one more relay
  serves it, makes a lookup return nothing for the cid and makes a holder miss its withdrawal, although every other
  relay serves the genuine record.\<close>

theorem one_relay_hides_file:
  "\<exists>row. fr_cid row = c \<and> fr_signature row = [] \<and>
     (let answers' = answers @ [(base, Some ([row], n))] in
       c \<notin> fr_cid ` set (fst (lookupFiles C answers'))
       \<and> c \<notin> set (verifiedWithdrawals (fst (fetchFileRecords answers')) (checks_row C)))"
proof -
  define t where "t = Max (insert 0 (fr_timestamp ` set (fetched_rows answers))) + 1"
  have "\<forall>r \<in> set (fetched_rows answers). fr_timestamp r < t"
    by (auto simp: t_def less_le_trans intro!: zle_add1_eq_le [THEN iffD2] Max_ge)
  note h = forged_hides [OF this refl, where c = c and b = base and n = n and C = C]
  have "c \<notin> fr_cid ` set (fst (lookupFiles C (answers @ [(base, Some ([forged_row c t], n))])))"
    using h(1) by blast
  moreover have "fr_cid (forged_row c t) = c" "fr_signature (forged_row c t) = []"
    by (simp_all add: forged_row_def)
  ultimately show ?thesis
    using h(2) unfolding Let_def by blast
qed

text \<open>C35: anyone can withdraw any file: the withdrawal of a cid that any key holder signs is accepted by an archive
  over the owner's record, is served to holders, and makes every holder that asks this archive drop its copy.\<close>

theorem foreign_withdrawal_deletes:
  assumes "hex_codec C" "signing C" "publicKeyFromPrivate C priv = Some pub" "sign_str C (fileRemovePayload c pub t) priv = Some sig"
    and "sig \<noteq> []" "pub \<noteq> []" "c \<noteq> []" "length c \<le> 256" "0 < t" "now - t \<le> TOMBSTONE_RETAIN_MS T"
    and "wf_map st" "\<forall>kv \<in> set st. fr_timestamp (snd (snd kv)) < t"
  shows "let st' = archiveFileRecord C T True (withdrawal c pub t sig) net now st;
      served = serve_files net \<lparr>fq_cid = None, fq_owner = None, fq_withdrawn = True, fq_limit = Some 200\<rparr> st';
      (held', dropped) = sweepWithdrawnContent C held [(base, Some (fst served, Some (snd served)))]
    in c \<notin> set held' \<and> (c \<in> set held \<longrightarrow> 1 \<le> dropped)"
  using assms by (rule foreign_withdrawal)

definition attacker_priv :: hex where "attacker_priv = [CHR 0x09]"
definition attacker_pub :: hex where "attacker_pub = [char_of (0 :: nat), CHR 0x09]"

definition attacker_sig :: hex where
  "attacker_sig = the (sign_str demo_crypto (fileRemovePayload ''c'' attacker_pub 6) attacker_priv)"

definition owner_archive :: file_store where
  "owner_archive = archiveFileRecord demo_crypto (the (applyStorageTiming fast_timing)) True sample_file ''testnet'' 6 []"

theorem foreign_withdrawal_deletes_witness:
  "owner_archive = [(''testnet:c'', ''testnet'', sample_file)] \<and>
   (let st' = archiveFileRecord demo_crypto (the (applyStorageTiming fast_timing)) True (withdrawal ''c'' attacker_pub 6 attacker_sig) ''testnet'' 6 owner_archive;
      served = serve_files ''testnet'' \<lparr>fq_cid = None, fq_owner = None, fq_withdrawn = True, fq_limit = Some 200\<rparr> st';
      (held', dropped) = sweepWithdrawnContent demo_crypto [''c''] [(''a'', Some (fst served, Some (snd served)))]
    in ''c'' \<notin> set held' \<and> (''c'' \<in> set [''c''] \<longrightarrow> 1 \<le> dropped))"
proof
  have arch: "owner_archive = [(''testnet:c'', ''testnet'', sample_file)]"
    by code_simp
  then show "owner_archive = [(''testnet:c'', ''testnet'', sample_file)]" .
  have sig: "sign_str demo_crypto (fileRemovePayload ''c'' attacker_pub 6) attacker_priv = Some attacker_sig"
    by (simp add: attacker_sig_def sign_str_def sign_def demo_total)
  have ne: "attacker_sig \<noteq> []"
    using sig by (auto simp: sign_str_def sign_def demo_crypto_def attacker_priv_def)
  have key: "publicKeyFromPrivate demo_crypto attacker_priv = Some attacker_pub"
    by code_simp
  have now: "(6 :: int) - 6 \<le> TOMBSTONE_RETAIN_MS (the (applyStorageTiming fast_timing))"
    by code_simp
  show "let st' = archiveFileRecord demo_crypto (the (applyStorageTiming fast_timing)) True (withdrawal ''c'' attacker_pub 6 attacker_sig) ''testnet'' 6 owner_archive;
      served = serve_files ''testnet'' \<lparr>fq_cid = None, fq_owner = None, fq_withdrawn = True, fq_limit = Some 200\<rparr> st';
      (held', dropped) = sweepWithdrawnContent demo_crypto [''c''] [(''a'', Some (fst served, Some (snd served)))]
    in ''c'' \<notin> set held' \<and> (''c'' \<in> set [''c''] \<longrightarrow> 1 \<le> dropped)"
    by (rule foreign_withdrawal_deletes [OF demo_hex_codec demo_signing key sig ne _ _ _ _ now])
      (simp_all add: arch attacker_pub_def sample_file_def wf_map_def)
qed

section \<open>Accounts\<close>

text \<open>One relay that answers with a signed record of the account is enough: whatever the other relays say,
  the resolution gives a record, and it is one that was served, signed by the key it names, and has the name or
  key that was asked for.\<close>

theorem one_relay_resolves:
  assumes "Some r0 \<in> set answers" "answers_query C q r0"
  shows "\<exists>r. resolveAccountFromRelays C q answers = Some r \<and> Some r \<in> set answers \<and> verifyAccountRecordSig C r
    \<and> (case q of ByName u \<Rightarrow> js_lower (ac_username r) = js_lower (js_trim u) | ByPub p \<Rightarrow> ac_pub r = p)"
proof -
  obtain r where "resolveAccountFromRelays C q answers = Some r"
    using resolve_found [OF assms] by auto
  with resolve_sound [OF this] show ?thesis
    by (auto simp: answers_query_def)
qed

definition sample_record :: account_record where
  "sample_record = \<lparr>ac_pub = sample_pub, ac_username = ''Ann'', ac_createdAt = 5, ac_faceMapHash = ''f'',
     ac_sig = sign_str demo_crypto (''account:'' @ sample_pub @ '':Ann:5:f'') sample_priv, ac_version = Some 1\<rparr>"

lemma sample_record_answers: "answers_query demo_crypto (ByName '' ann'') sample_record"
  by code_simp

theorem one_relay_resolves_witness:
  "\<exists>r. resolveAccountFromRelays demo_crypto (ByName '' ann'') [None, Some (sample_record\<lparr>ac_sig := None\<rparr>), Some sample_record] = Some r
    \<and> Some r \<in> set [None, Some (sample_record\<lparr>ac_sig := None\<rparr>), Some sample_record] \<and> verifyAccountRecordSig demo_crypto r
    \<and> (case ByName '' ann'' of ByName u \<Rightarrow> js_lower (ac_username r) = js_lower (js_trim u) | ByPub p \<Rightarrow> ac_pub r = p)"
  by (rule one_relay_resolves [OF _ sample_record_answers]) simp

section \<open>The release of a share\<close>

text \<open>C31: a relay releases a share only for an open challenge whose actions were performed in order, at pace, by
  one live person, whose every descriptor is the human the share is bound to, and while the share is not locked;
  whatever happens afterwards, the same challenge releases nothing again until it is drawn anew.\<close>

theorem release_gate:
  assumes "release_share threshold net ip acct cid pf ephPub now s = (Some (Released h x t), s')"
    and "wf_map (cu_sessions s)" "\<forall>q \<in> set ops. \<not> draws cid q"
  shows "(\<exists>c r p. open_session cid now s = Some c \<and> mget (cu_shares s) (share_key net acct) = Some r \<and> h = kr_shareHex r
      \<and> kr_lockedUntil r \<le> now \<and> pf = Some p \<and> performed (ch_sequence c) p
      \<and> (\<forall>d \<in> set (tp_neutral p # map ap_descriptor (tp_actions p)).
          \<exists>e. findMatchingFace threshold (cu_faces s) d net = Some e \<and> fe_nid e = Some (kr_nid r)))
    \<and> (\<forall>net ip acct pf ephPub now h x t. fst (release_share threshold net ip acct cid pf ephPub now
          (fold (share_step C threshold nidFor) ops s')) \<noteq> Some (Released h x t))"
proof
  from assms(1) show "\<exists>c r p. open_session cid now s = Some c \<and> mget (cu_shares s) (share_key net acct) = Some r \<and> h = kr_shareHex r
      \<and> kr_lockedUntil r \<le> now \<and> pf = Some p \<and> performed (ch_sequence c) p
      \<and> (\<forall>d \<in> set (tp_neutral p # map ap_descriptor (tp_actions p)).
          \<exists>e. findMatchingFace threshold (cu_faces s) d net = Some e \<and> fe_nid e = Some (kr_nid r))"
  proof (rule release_requires)
    fix c r p
    assume c: "open_session cid now s = Some c" "mget (cu_shares s) (share_key net acct) = Some r" "h = kr_shareHex r"
      "kr_lockedUntil r \<le> now" "pf = Some p" "verifyTrajectory (ch_sequence c) (Some p) = Inl None" "all_match threshold s net (kr_nid r) p"
    then have "performed (ch_sequence c) p"
      using verify_performed verify_nonempty by blast
    with c show ?thesis
      by (auto simp: all_match_def list_all_iff split: option.splits)
  qed
next
  have "mget (cu_sessions s') cid \<noteq> None \<and> session_spent cid s'"
    using release_requires [OF assms(1)] by (metis (no_types, lifting) challenge_session.select_convs(4) challenge_session.surjective
        challenge_session.update_convs(4) option.case(2) option.distinct(1) session_spent_def)
  moreover have "wf_map (cu_sessions s')"
    using release_sessions [of threshold net ip acct cid pf ephPub now s] assms(1,2) by (auto split: if_splits option.splits)
  ultimately have "session_spent cid (fold (share_step C threshold nidFor) ops s')"
    using spent_run assms(3) by blast
  from spent_refused [OF this] show "\<forall>net ip acct pf ephPub now h x t. fst (release_share threshold net ip acct cid pf ephPub now
          (fold (share_step C threshold nidFor) ops s')) \<noteq> Some (Released h x t)"
    by (metis fst_conv option.inject release_response.distinct(1))
qed

definition face_at :: "real \<Rightarrow> descriptor" where
  "face_at v = v # replicate 127 0"

lemma face_at_valid: "-2 < v \<Longrightarrow> v < 2 \<Longrightarrow> validDescriptor (face_at v)"
  by (simp add: face_at_def validDescriptor_def list_all_iff)

lemma face_at_dist: "desc_dist (face_at v) (face_at w) = \<bar>v - w\<bar>"
  by (simp add: face_at_def desc_dist_def sum_list_replicate map2_map_map zip_replicate)

definition demo_challenge :: challenge_session where
  "demo_challenge = \<lparr>ch_recovery = True, ch_sequence = [''smile'', ''look-left'', ''mouth-open''], ch_createdAt = 0, ch_used = False\<rparr>"

definition demo_custody :: share_custody where
  "demo_custody = \<lparr>cu_shares = [(''mainnet:me'', \<lparr>kr_accountId = ''me'', kr_nid = ''nid'', kr_network = ''mainnet'', kr_shareHex = ''ab'', kr_ts = 1,
       kr_x = Some 1, kr_fails = 0, kr_lockedUntil = 0\<rparr>)], cu_sessions = [(''c'', demo_challenge)], cu_releaseLog = [],
     cu_faces = [\<lparr>fe_network = ''mainnet'', fe_descriptor = face_at 0, fe_count = 1, fe_nid = Some ''nid''\<rparr>]\<rparr>"

definition demo_performance :: trajectory_proof where
  "demo_performance = \<lparr>tp_neutral = face_at (1 / 10), tp_actions =
     [\<lparr>ap_action = ''smile'', ap_ratio = 1, ap_t = 0, ap_descriptor = face_at (2 / 10)\<rparr>,
      \<lparr>ap_action = ''look-left'', ap_ratio = 1, ap_t = 1000, ap_descriptor = face_at (3 / 10)\<rparr>,
      \<lparr>ap_action = ''mouth-open'', ap_ratio = 1, ap_t = 2000, ap_descriptor = face_at (4 / 10)\<rparr>]\<rparr>"

lemma demo_accepted: "verifyTrajectory (ch_sequence demo_challenge) (Some demo_performance) = Inl None"
  by (simp add: verifyTrajectory_def demo_challenge_def demo_performance_def face_at_valid face_at_dist
      MIN_ACTION_RATIO_def MIN_ACTION_GAP_MS_def MIN_TOTAL_MS_def MAX_TOTAL_MS_def DESCRIPTOR_MAX_PAIRWISE_def DESCRIPTOR_MIN_PAIRWISE_def)

definition demo_ephemeral :: string where
  "demo_ephemeral = ''04'' @ replicate 128 CHR ''a''"

lemma demo_released: "fst (release_share (1 / 2) ''mainnet'' ''ip'' ''me'' ''c'' (Some demo_performance) demo_ephemeral 1 demo_custody)
  = Some (Released ''ab'' (Some 1) 1)"
proof -
  have "ephemeral_ok demo_ephemeral"
    by (simp add: ephemeral_ok_def demo_ephemeral_def list_all_iff)
  moreover have "open_session ''c'' 1 demo_custody = Some demo_challenge"
    by (simp add: open_session_def demo_custody_def demo_challenge_def CHALLENGE_TTL_MS_def)
  moreover have "fst (checkAndRecordIp ''ip'' RELEASE_IP_MAX_PER_DAY 1 [])"
    by code_simp
  then obtain l where "checkAndRecordIp ''ip'' RELEASE_IP_MAX_PER_DAY 1 (cu_releaseLog demo_custody) = (True, l)"
    by (cases "checkAndRecordIp ''ip'' RELEASE_IP_MAX_PER_DAY 1 []") (simp add: demo_custody_def)
  moreover have "all_match (1 / 2) demo_custody ''mainnet'' ''nid'' demo_performance"
    by (simp add: all_match_def findMatchingFace_def nearer_def demo_custody_def demo_performance_def face_at_dist)
  moreover have "mget (cu_shares demo_custody) (share_key ''mainnet'' ''me'') = Some \<lparr>kr_accountId = ''me'', kr_nid = ''nid'',
      kr_network = ''mainnet'', kr_shareHex = ''ab'', kr_ts = 1, kr_x = Some 1, kr_fails = 0, kr_lockedUntil = 0\<rparr>"
    by (simp add: demo_custody_def share_key_def)
  ultimately show ?thesis
    using demo_accepted by (simp add: release_share_def Let_def)
qed

lemma demo_reuse: "\<forall>q \<in> set [CuRelease ''mainnet'' ''ip2'' ''me'' ''c'' (Some demo_performance) demo_ephemeral 2]. \<not> draws ''c'' q"
  by (simp add: draws_def)

lemma demo_sessions: "wf_map (cu_sessions demo_custody)"
  by (simp add: demo_custody_def wf_map_def)

theorem release_gate_witness:
  "\<exists>s'. release_share (1 / 2) ''mainnet'' ''ip'' ''me'' ''c'' (Some demo_performance) demo_ephemeral 1 demo_custody = (Some (Released ''ab'' (Some 1) 1), s')
    \<and> fst (release_share (1 / 2) ''mainnet'' ''ip3'' ''me'' ''c'' (Some demo_performance) demo_ephemeral 3
        (fold (share_step demo_crypto (1 / 2) (\<lambda>a. None)) [CuRelease ''mainnet'' ''ip2'' ''me'' ''c'' (Some demo_performance) demo_ephemeral 2] s'))
      \<noteq> Some (Released ''ab'' (Some 1) 1)"
proof -
  obtain s' where s: "release_share (1 / 2) ''mainnet'' ''ip'' ''me'' ''c'' (Some demo_performance) demo_ephemeral 1 demo_custody
      = (Some (Released ''ab'' (Some 1) 1), s')"
    using demo_released by (metis prod.collapse)
  show ?thesis
    using release_gate [OF s demo_sessions demo_reuse] s by blast
qed

section \<open>The repair of recovery\<close>

text \<open>C32: the repair of recovery never loses the secret that two of its holders give back: whatever messages of
  the refresh are lost, and at whatever point it stops, two relays still give the secret back.\<close>

theorem refresh_keeps_two:
  assumes "reads_hex (en_crypto E)" "length rnd = length secret" "length secret = 32" "distinct bases"
    and "recoverable (en_crypto E) cl secret
      (rp_holders (planShareRefresh (fetchShareStatuses up (cl_network cl) (cl_account cl) bases R))) R"
    and "refreshShareRedundancy E cl up d bases secret rnd ts R = Some (res, R')"
  shows "recoverable (en_crypto E) cl secret bases R'"
  using assms by (rule refresh_keeps_two_lemma)

theorem refresh_keeps_two_witness:
  "recoverable printed_crypto demo_client (replicate 32 7) [''A'', ''B'', ''C'']
     (relays_of [''A'' \<mapsto> (share_at (replicate 32 3) (replicate 32 7) 1, 1), ''B'' \<mapsto> (share_at (replicate 32 3) (replicate 32 7) 2, 1),
       ''C'' \<mapsto> (share_at (replicate 32 5) (replicate 32 7) 1, 2)])"
proof -
  have plan: "rp_holders (planShareRefresh (fetchShareStatuses (\<lambda>b. True) (cl_network demo_client) (cl_account demo_client) [''A'', ''B'', ''C'']
      (created_relays (replicate 32 7) (replicate 32 3)))) = [''A'', ''B'']"
    by (simp add: created_relays_def demo_statuses planShareRefresh_def)
  have E: "en_crypto demo_env = printed_crypto"
    by (simp add: demo_env_def)
  have rec: "recoverable (en_crypto demo_env) demo_client (replicate 32 7) (rp_holders (planShareRefresh
      (fetchShareStatuses (\<lambda>b. True) (cl_network demo_client) (cl_account demo_client) [''A'', ''B'', ''C'']
        (created_relays (replicate 32 7) (replicate 32 3))))) (created_relays (replicate 32 7) (replicate 32 3))"
    unfolding plan E by (rule created_recoverable) simp_all
  show ?thesis
    unfolding E [symmetric]
    by (rule refresh_keeps_two [OF _ _ _ _ rec refresh_answer_lost]) (simp_all add: E hex_crypto_reads)
qed

text \<open>C33: two refreshes can destroy a recoverable secret: the lost answer of the first leaves one share of a newer
  split, which the second takes for the current set and so overwrites the only usable pair first; when its later
  requests are lost, three relays hold three splits and nothing gives the secret back.\<close>

theorem orphan_loses_secret:
  assumes "length secret = 32" "length rnd = 32" "length rnd' = 32" "length rnd'' = 32"
  shows "\<exists>R0 R1 R2 r1 r2 d1 d2.
      storeRecoveryShare demo_env demo_client (\<lambda>b. Delivered) [''A'', ''B''] secret rnd 1 (relays_of Map.empty) = Some (2, True, R0)
      \<and> refreshShareRedundancy demo_env demo_client (\<lambda>b. True) d1 [''A'', ''B'', ''C''] secret rnd' 2 R0 = Some (r1, R1)
      \<and> refreshShareRedundancy demo_env demo_client (\<lambda>b. True) d2 [''A'', ''B'', ''C''] secret rnd'' 3 R1 = Some (r2, R2)
      \<and> recoverable printed_crypto demo_client secret [''A'', ''B'', ''C''] R0
      \<and> (\<forall>s. \<not> recoverable printed_crypto demo_client s [''A'', ''B'', ''C''] R2)"
  using creation [OF assms(1,2)] refresh_answer_lost [OF assms(1,3)] refresh_from_orphan [OF assms(1,4)]
    created_recoverable [OF assms(1,2), of "[''A'', ''B'', ''C'']"] three_generations_lost [OF assms] by fastforce

theorem orphan_loses_secret_witness:
  "\<exists>R0 R1 R2 r1 r2 d1 d2.
      storeRecoveryShare demo_env demo_client (\<lambda>b. Delivered) [''A'', ''B''] (replicate 32 7) (replicate 32 3) 1 (relays_of Map.empty) = Some (2, True, R0)
      \<and> refreshShareRedundancy demo_env demo_client (\<lambda>b. True) d1 [''A'', ''B'', ''C''] (replicate 32 7) (replicate 32 4) 2 R0 = Some (r1, R1)
      \<and> refreshShareRedundancy demo_env demo_client (\<lambda>b. True) d2 [''A'', ''B'', ''C''] (replicate 32 7) (replicate 32 5) 3 R1 = Some (r2, R2)
      \<and> recoverable printed_crypto demo_client (replicate 32 7) [''A'', ''B'', ''C''] R0
      \<and> (\<forall>s. \<not> recoverable printed_crypto demo_client s [''A'', ''B'', ''C''] R2)"
  by (rule orphan_loses_secret) simp_all

end
