(* ===== verification/Attester.thy ===== *)
theory Attester
  imports Recovery_Gate Attestation Identity
begin

text \<open>
  The attesting side of \<open>src/relay/server.ts\<close>: the face slots of a human, the registry of names, pending
  attestations and their release, operators and the network reset, and the store of key blobs. A face is compared
  with the recognised ones by Recovery_Gate; the hash of a face map, fresh identifiers and the clock are arguments.
  The lemmas show that slots stay within their limit, that a session attests once, and what an attestation does not check: whose
  account it is for.
\<close>

section \<open>State\<close>

record face_use =
  fu_nid :: string
  fu_username :: string
  fu_at :: int
  fu_network :: string

record name_claim =
  nc_accountId :: string
  nc_nid :: "string option"

record attester =
  at_custody :: share_custody
  at_pending :: "(string, face_use) jsmap"
  at_names :: "(string, name_claim) jsmap"
  at_operators :: "string list"
  at_ipLog :: ip_log
  at_generation :: int

definition FACE_USE_TTL_MS :: int where "FACE_USE_TTL_MS = 5 * 60 * 1000"
definition OPERATOR_COUNT :: nat where "OPERATOR_COUNT = 3"
definition RELAY_FACE_THRESHOLD :: real where "RELAY_FACE_THRESHOLD = 45 / 100"

text \<open>The limits of a network: accounts per face, verifications per address and day. The test network's face limit may be configured.\<close>

definition FACE_MAX :: "int \<Rightarrow> string \<Rightarrow> int" where
  "FACE_MAX testnet_max net = (if net = ''mainnet'' then 1 else testnet_max)"

definition IP_MAX_PER_DAY :: "string \<Rightarrow> int" where
  "IP_MAX_PER_DAY net = (if net = ''mainnet'' then 12 else 24)"

section \<open>Looking up the human of an account\<close>

definition nidForAccount :: "attester \<Rightarrow> string \<Rightarrow> string option" where
  "nidForAccount s acct = (case mget (at_pending s) acct of
     Some u \<Rightarrow> if fu_nid u \<noteq> [] then Some (fu_nid u)
       else map_option (\<lambda>c. the (nc_nid c)) (find (\<lambda>c. nc_accountId c = acct \<and> nc_nid c \<noteq> None \<and> nc_nid c \<noteq> Some []) (mvals (at_names s)))
   | None \<Rightarrow> map_option (\<lambda>c. the (nc_nid c)) (find (\<lambda>c. nc_accountId c = acct \<and> nc_nid c \<noteq> None \<and> nc_nid c \<noteq> Some []) (mvals (at_names s))))"

section \<open>Sessions\<close>

definition issueChallenge :: "string \<Rightarrow> int \<Rightarrow> attester \<Rightarrow> attester" where
  "issueChallenge cid now s =
     (let m = mset_at cid \<lparr>ch_recovery = False, ch_sequence = [], ch_createdAt = now, ch_used = False\<rparr> (cu_sessions (at_custody s));
        m' = (if length m mod 200 = 0 then filter (\<lambda>kv. \<not> now - ch_createdAt (snd kv) > CHALLENGE_TTL_MS) m else m)
      in s\<lparr>at_custody := (at_custody s)\<lparr>cu_sessions := m'\<rparr>\<rparr>)"

section \<open>The verification of a face\<close>

record verify_request =
  vr_accountId :: string
  vr_challengeId :: string
  vr_descriptor :: descriptor
  vr_faceMapHash :: string
  vr_username :: string
  vr_nullifier :: "string option"

datatype verify_response = VerifyError int | Attested string typed_attestation | VerifyThrew

text \<open>The entry that was found is an object of the list: its first occurrence.\<close>

fun update_first :: "'a \<Rightarrow> 'a \<Rightarrow> 'a list \<Rightarrow> 'a list" where
  "update_first e e' [] = []"
| "update_first e e' (x # xs) = (if x = e then e' # xs else x # update_first e e' xs)"

definition centroid :: "descriptor \<Rightarrow> descriptor \<Rightarrow> descriptor" where
  "centroid old d = map2 (\<lambda>x y. (x + y) / 2) old d"

text \<open>\<open>^[0-9a-f-]{1,64}#\d{1,4}$\<close> without regard to case.\<close>

definition anchor_ok :: "string \<Rightarrow> bool" where
  "anchor_ok s = (let a = takeWhile (\<lambda>c. c \<noteq> CHR ''#'') s; b = drop (length a) s in
     a \<noteq> [] \<and> length a \<le> 64 \<and> list_all (\<lambda>c. c \<in> set ''0123456789abcdefABCDEF-'') a
     \<and> b \<noteq> [] \<and> tl b \<noteq> [] \<and> length (tl b) \<le> 4 \<and> list_all (\<lambda>c. c \<in> set ''0123456789'') (tl b))"

definition recordOperator :: "string \<Rightarrow> string list \<Rightarrow> string list" where
  "recordOperator acct l = (if length l \<ge> OPERATOR_COUNT \<or> acct \<in> set l then l else l @ [acct])"

definition name_taken :: "string \<Rightarrow> string \<Rightarrow> attester \<Rightarrow> bool" where
  "name_taken username nid s \<longleftrightarrow> username \<noteq> [] \<and> (case mget (at_names s) username of
     None \<Rightarrow> False
   | Some c \<Rightarrow> (case nc_nid c of None \<Rightarrow> False | Some n \<Rightarrow> n \<noteq> [] \<and> n \<noteq> nid))"

text \<open>The checks that come before the match, \<open>Inl\<close> being the refusal with the state it leaves.\<close>

definition verify_session :: "(descriptor \<Rightarrow> string) \<Rightarrow> string \<Rightarrow> string \<Rightarrow> verify_request \<Rightarrow> int \<Rightarrow> attester \<Rightarrow> (int \<times> attester) + challenge_session" where
  "verify_session faceMapHash net ip rq now s =
     (if vr_accountId rq = [] then Inl (400, s)
      else (case mget (cu_sessions (at_custody s)) (vr_challengeId rq) of
          None \<Rightarrow> Inl (400, s)
        | Some c \<Rightarrow>
            if ch_recovery c then Inl (400, s)
            else if ch_used c then Inl (400, s)
            else if now - ch_createdAt c > CHALLENGE_TTL_MS
              then Inl (400, s\<lparr>at_custody := (at_custody s)\<lparr>cu_sessions := mdel (vr_challengeId rq) (cu_sessions (at_custody s))\<rparr>\<rparr>)
            else if \<not> validDescriptor (vr_descriptor rq) then Inl (400, s)
            else if faceMapHash (vr_descriptor rq) \<noteq> vr_faceMapHash rq then Inl (400, s)
            else if \<not> checkIpLimit ip (IP_MAX_PER_DAY net) now (at_ipLog s) then Inl (429, s)
            else Inr c))"

text \<open>
  The handler. A matched entry without an identifier gets one before the name is checked. \<open>VerifyThrew\<close>: signing
  throws after the face has been counted.
\<close>

definition face_verify :: "crypto \<Rightarrow> key_pair \<Rightarrow> (descriptor \<Rightarrow> string) \<Rightarrow> int \<Rightarrow> string \<Rightarrow> string \<Rightarrow> string \<Rightarrow> verify_request \<Rightarrow> int \<Rightarrow> attester
    \<Rightarrow> verify_response \<times> attester" where
  "face_verify C attester_key faceMapHash testnet_max uuid net ip rq now s =
     (case verify_session faceMapHash net ip rq now s of
        Inl (code, s') \<Rightarrow> (VerifyError code, s')
      | Inr c \<Rightarrow>
          (let db = cu_faces (at_custody s); d = vr_descriptor rq; matched = findMatchingFace RELAY_FACE_THRESHOLD db d net;
             faceCount = (case matched of None \<Rightarrow> 0 | Some e \<Rightarrow> fe_count e) in
           if faceCount \<ge> FACE_MAX testnet_max net then (VerifyError 429, s)
           else (let nid = (case matched of None \<Rightarrow> uuid | Some e \<Rightarrow> (case fe_nid e of None \<Rightarrow> uuid | Some n \<Rightarrow> if n = [] then uuid else n));
               db1 = (case matched of None \<Rightarrow> db | Some e \<Rightarrow> update_first e (e\<lparr>fe_nid := Some nid\<rparr>) db);
               username = js_lower (js_trim (vr_username rq)) in
             if name_taken username nid s then (VerifyError 409, s\<lparr>at_custody := (at_custody s)\<lparr>cu_faces := db1\<rparr>\<rparr>)
             else (let db2 = (case matched of
                   None \<Rightarrow> db @ [\<lparr>fe_network = net, fe_descriptor = d, fe_count = 1, fe_nid = Some nid\<rparr>]
                 | Some e \<Rightarrow> update_first e (e\<lparr>fe_nid := Some nid, fe_count := fe_count e + 1, fe_descriptor := centroid (fe_descriptor e) d\<rparr>) db);
                 s1 = s\<lparr>at_custody := (at_custody s)\<lparr>cu_faces := db2,
                       cu_sessions := mset_at (vr_challengeId rq) (c\<lparr>ch_used := True\<rparr>) (cu_sessions (at_custody s))\<rparr>,
                     at_ipLog := recordIpVerification ip now (at_ipLog s)\<rparr>;
                 nullifier = (case vr_nullifier rq of Some a \<Rightarrow> if anchor_ok a then a else nid @ ''#'' @ int_str faceCount
                   | None \<Rightarrow> nid @ ''#'' @ int_str faceCount)
               in (case createAttestation C ''personhood'' (deriveCommitment C nullifier (vr_accountId rq)) attester_key of
                   None \<Rightarrow> (VerifyThrew, s1)
                 | Some att \<Rightarrow> (Attested nullifier att,
                     s1\<lparr>at_pending := mset_at (vr_accountId rq) \<lparr>fu_nid = nid, fu_username = username, fu_at = now, fu_network = net\<rparr> (at_pending s),
                        at_names := (if username = [] then at_names s
                          else mset_at username \<lparr>nc_accountId = vr_accountId rq, nc_nid = Some nid\<rparr> (at_names s)),
                        at_operators := recordOperator (vr_accountId rq) (at_operators s)\<rparr>))))))"

section \<open>Release, opening, reset\<close>

text \<open>One pending attestation, with its key, in the sweep.\<close>

definition release_use :: "int \<Rightarrow> string \<times> face_use \<Rightarrow> attester \<Rightarrow> attester" where
  "release_use now ku s = (case ku of (acct, u) \<Rightarrow>
     if now - fu_at u < FACE_USE_TTL_MS then s
     else (let db = cu_faces (at_custody s);
         db' = (case find (\<lambda>e. fe_nid e = Some (fu_nid u) \<and> fe_network e = fu_network u) db of
             None \<Rightarrow> db
           | Some e \<Rightarrow> if fe_count e > 0 then update_first e (e\<lparr>fe_count := fe_count e - 1\<rparr>) db else db);
         names' = (if fu_username u \<noteq> [] \<and> (case mget (at_names s) (fu_username u) of None \<Rightarrow> False | Some c \<Rightarrow> nc_accountId c = acct)
           then mdel (fu_username u) (at_names s) else at_names s)
       in s\<lparr>at_pending := mdel acct (at_pending s), at_custody := (at_custody s)\<lparr>cu_faces := db'\<rparr>, at_names := names'\<rparr>))"

definition releaseStaleFaceUses :: "int \<Rightarrow> attester \<Rightarrow> attester" where
  "releaseStaleFaceUses now s = fold (release_use now) (at_pending s) s"

text \<open>The archive stored an open block of the account.\<close>

definition open_archived :: "string \<Rightarrow> attester \<Rightarrow> attester" where
  "open_archived acct s = s\<lparr>at_pending := mdel acct (at_pending s)\<rparr>"

text \<open>The part of the network reset that concerns this state.\<close>

definition performNetworkWipe :: "int \<Rightarrow> attester \<Rightarrow> attester" where
  "performNetworkWipe newGeneration s = s\<lparr>at_custody := (at_custody s)\<lparr>cu_shares := [], cu_faces := map (\<lambda>e. e\<lparr>fe_count := 0\<rparr>) (cu_faces (at_custody s))\<rparr>,
     at_names := [], at_pending := [], at_operators := [], at_generation := newGeneration\<rparr>"

record reset_message =
  rm_operatorPub :: string
  rm_signature :: string
  rm_generation :: int
  rm_resetAt :: int

definition reset_payload :: "int \<Rightarrow> int \<Rightarrow> string" where
  "reset_payload gen t = ''reset:'' @ int_str gen @ '':'' @ int_str t"

definition handle_reset :: "crypto \<Rightarrow> string \<Rightarrow> reset_message \<Rightarrow> attester \<Rightarrow> attester" where
  "handle_reset C net m s =
     (if net \<noteq> ''testnet'' then s
      else if \<not> (rm_operatorPub m \<noteq> [] \<and> rm_operatorPub m \<in> set (at_operators s)
          \<and> verify_str C (rm_signature m) (reset_payload (rm_generation m) (rm_resetAt m)) (rm_operatorPub m)) then s
      else performNetworkWipe (if rm_generation m = 0 then at_generation s + 1 else rm_generation m) s)"

section \<open>Key blobs\<close>

record stored_blob =
  sb_pub :: string
  sb_username :: string
  sb_encryptedKeys :: string
  sb_updatedAt :: "int option"
  sb_createdAt :: "int option"
  sb_network :: string

type_synonym blob_store = "(string, stored_blob) jsmap"

definition BLOB_IP_MAX_PER_DAY :: int where "BLOB_IP_MAX_PER_DAY = 60"

definition blobTs :: "stored_blob \<Rightarrow> int" where
  "blobTs b = (case sb_updatedAt b of Some t \<Rightarrow> t | None \<Rightarrow> (case sb_createdAt b of Some t \<Rightarrow> t | None \<Rightarrow> 0))"

definition archiveKeyBlob :: "bool \<Rightarrow> stored_blob \<Rightarrow> string \<Rightarrow> blob_store \<Rightarrow> blob_store" where
  "archiveKeyBlob enabled b net st =
     (if \<not> enabled \<or> sb_pub b = [] \<or> sb_username b = [] \<or> sb_encryptedKeys b = [] then st
      else if (case mget st (sb_pub b) of None \<Rightarrow> False | Some e \<Rightarrow> blobTs e \<ge> blobTs b) then st
      else mset_at (sb_pub b) (b\<lparr>sb_network := net\<rparr>) st)"

definition post_keyblob :: "bool \<Rightarrow> string \<Rightarrow> int \<Rightarrow> stored_blob \<Rightarrow> string \<Rightarrow> ip_log \<times> blob_store \<Rightarrow> int \<times> ip_log \<times> blob_store" where
  "post_keyblob enabled ip now b net ls = (case ls of (l, st) \<Rightarrow>
     (case checkAndRecordIp ip BLOB_IP_MAX_PER_DAY now l of (ok, l') \<Rightarrow>
        if \<not> ok then (429, l', st) else (200, l', archiveKeyBlob enabled b net st)))"

definition better_blob :: "stored_blob option \<Rightarrow> stored_blob \<Rightarrow> stored_blob option" where
  "better_blob best b = (case best of None \<Rightarrow> Some b | Some c \<Rightarrow> if blobTs b > blobTs c then Some b else best)"

definition get_keyblob :: "string \<Rightarrow> string \<Rightarrow> string \<Rightarrow> blob_store \<Rightarrow> stored_blob option" where
  "get_keyblob pub username net st = foldl better_blob None (filter (\<lambda>b. sb_network b = net
     \<and> (if pub \<noteq> [] then sb_pub b = pub else sb_username b = js_lower (js_trim username))) (mvals st))"

section \<open>Slots\<close>

definition slots_ok :: "int \<Rightarrow> attester \<Rightarrow> bool" where
  "slots_ok testnet_max s \<longleftrightarrow> (\<forall>e \<in> set (cu_faces (at_custody s)). 0 \<le> fe_count e \<and> fe_count e \<le> FACE_MAX testnet_max (fe_network e))"

lemma set_update_first: "set (update_first e e' xs) \<subseteq> insert e' (set xs)"
  by (induction xs) auto

lemma nearest_in: "findMatchingFace th db d net = Some e \<Longrightarrow> e \<in> set db \<and> fe_network e = net"
proof -
  have "foldl (nearer th net d) best db = Some (e, x) \<Longrightarrow> best = Some (e, x) \<or> (e \<in> set db \<and> fe_network e = net)" for best x
  proof (induction db arbitrary: best)
    case (Cons a db)
    then have "nearer th net d best a = Some (e, x) \<or> (e \<in> set db \<and> fe_network e = net)" by simp
    then show ?case by (auto simp: nearer_def Let_def split: if_splits option.splits)
  qed simp
  then show "findMatchingFace th db d net = Some e \<Longrightarrow> ?thesis" by (fastforce simp: findMatchingFace_def)
qed

lemma verify_session_frame:
  "verify_session fm net ip rq now s = Inl (n, s') \<Longrightarrow> cu_faces (at_custody s') = cu_faces (at_custody s)
     \<and> at_pending s' = at_pending s \<and> at_names s' = at_names s"
  by (auto simp: verify_session_def split: if_splits option.splits)

lemma slots_update:
  assumes "slots_ok m s" "cu_faces (at_custody s') = update_first e e' (cu_faces (at_custody s))"
    "0 \<le> fe_count e'" "fe_count e' \<le> FACE_MAX m (fe_network e')"
  shows "slots_ok m s'"
  using assms set_update_first [of e e' "cu_faces (at_custody s)"] by (auto simp: slots_ok_def)

lemma verify_slots:
  assumes "slots_ok m s" "face_verify C key fm m uuid net ip rq now s = (r, s')"
  shows "slots_ok m s'"
proof (cases "verify_session fm net ip rq now s")
  case (Inl q)
  with assms verify_session_frame [of fm net ip rq now s] show ?thesis
    by (cases q) (auto simp: face_verify_def slots_ok_def)
next
  case (Inr c)
  show ?thesis
  proof (cases "findMatchingFace RELAY_FACE_THRESHOLD (cu_faces (at_custody s)) (vr_descriptor rq) net")
    case None
    have "cu_faces (at_custody s') = cu_faces (at_custody s) \<or> (0 < FACE_MAX m net \<and> (\<exists>n. cu_faces (at_custody s')
        = cu_faces (at_custody s) @ [\<lparr>fe_network = net, fe_descriptor = vr_descriptor rq, fe_count = 1, fe_nid = Some n\<rparr>]))"
      using assms(2) Inr None by (auto simp: face_verify_def Let_def split: if_splits option.splits)
    with assms(1) show ?thesis by (auto simp: slots_ok_def)
  next
    case (Some e)
    then have e: "e \<in> set (cu_faces (at_custody s))" "fe_network e = net" using nearest_in by blast+
    have "cu_faces (at_custody s') = cu_faces (at_custody s)
        \<or> (\<exists>e'. cu_faces (at_custody s') = update_first e e' (cu_faces (at_custody s)) \<and> fe_network e' = net
             \<and> (fe_count e' = fe_count e \<or> (fe_count e' = fe_count e + 1 \<and> fe_count e < FACE_MAX m net)))"
      using assms(2) Inr Some e(2) by (auto simp: face_verify_def Let_def split: if_splits option.splits)
    then show ?thesis
    proof (elim disjE exE conjE)
      assume "cu_faces (at_custody s') = cu_faces (at_custody s)"
      with assms(1) show ?thesis by (simp add: slots_ok_def)
    next
      fix e'
      assume "cu_faces (at_custody s') = update_first e e' (cu_faces (at_custody s))" "fe_network e' = net" "fe_count e' = fe_count e"
      with assms(1) e show ?thesis by (intro slots_update [OF assms(1)]) (auto simp: slots_ok_def)
    next
      fix e'
      assume "cu_faces (at_custody s') = update_first e e' (cu_faces (at_custody s))" "fe_network e' = net"
        "fe_count e' = fe_count e + 1" "fe_count e < FACE_MAX m net"
      with assms(1) e show ?thesis by (intro slots_update [OF assms(1)]) (auto simp: slots_ok_def)
    qed
  qed
qed

lemma release_use_slots: "slots_ok m s \<Longrightarrow> slots_ok m (release_use now ku s)"
proof (cases ku)
  case (Pair acct u)
  assume ok: "slots_ok m s"
  let ?P = "\<lambda>e. fe_nid e = Some (fu_nid u) \<and> fe_network e = fu_network u"
  have "cu_faces (at_custody (release_use now ku s)) = cu_faces (at_custody s) \<or> (\<exists>e. find ?P (cu_faces (at_custody s)) = Some e \<and> 0 < fe_count e
      \<and> cu_faces (at_custody (release_use now ku s)) = update_first e (e\<lparr>fe_count := fe_count e - 1\<rparr>) (cu_faces (at_custody s)))"
    using Pair by (auto simp: release_use_def Let_def split: option.split)
  then show ?thesis
  proof (elim disjE exE conjE)
    assume "cu_faces (at_custody (release_use now ku s)) = cu_faces (at_custody s)"
    with ok show ?thesis by (simp add: slots_ok_def)
  next
    fix e
    assume e: "find ?P (cu_faces (at_custody s)) = Some e" "0 < fe_count e"
      and up: "cu_faces (at_custody (release_use now ku s)) = update_first e (e\<lparr>fe_count := fe_count e - 1\<rparr>) (cu_faces (at_custody s))"
    have "e \<in> set (cu_faces (at_custody s))" using e(1) by (auto simp: find_Some_iff)
    with ok e(2) show ?thesis by (intro slots_update [OF ok up]) (auto simp: slots_ok_def)
  qed
qed

lemma release_stale_slots: "slots_ok m s \<Longrightarrow> slots_ok m (releaseStaleFaceUses now s)"
proof -
  have "slots_ok m s \<Longrightarrow> slots_ok m (fold (release_use now) ps s)" for ps
    by (induction ps arbitrary: s) (simp_all add: release_use_slots)
  then show "slots_ok m s \<Longrightarrow> ?thesis" by (simp add: releaseStaleFaceUses_def)
qed

text \<open>What happens to a relay: requests of any kind, in any order.\<close>

datatype attester_op =
    AtVerify string string string verify_request int
  | AtChallenge string int
  | AtSweep int
  | AtOpen string
  | AtReset string reset_message
  | AtShare custody_op

fun attester_step :: "crypto \<Rightarrow> key_pair \<Rightarrow> (descriptor \<Rightarrow> string) \<Rightarrow> int \<Rightarrow> attester_op \<Rightarrow> attester \<Rightarrow> attester" where
  "attester_step C key fm m (AtVerify uuid net ip rq now) s = snd (face_verify C key fm m uuid net ip rq now s)"
| "attester_step C key fm m (AtChallenge cid now) s = issueChallenge cid now s"
| "attester_step C key fm m (AtSweep now) s = releaseStaleFaceUses now s"
| "attester_step C key fm m (AtOpen acct) s = open_archived acct s"
| "attester_step C key fm m (AtReset net msg) s = handle_reset C net msg s"
| "attester_step C key fm m (AtShare q) s = s\<lparr>at_custody := share_step C RELAY_FACE_THRESHOLD (nidForAccount s) q (at_custody s)\<rparr>"

definition new_attester :: attester where
  "new_attester = \<lparr>at_custody = \<lparr>cu_shares = [], cu_sessions = [], cu_releaseLog = [], cu_faces = []\<rparr>, at_pending = [], at_names = [],
     at_operators = [], at_ipLog = [], at_generation = 0\<rparr>"

lemma share_step_faces: "cu_faces (share_step C th nidFor q s) = cu_faces s"
proof (cases q)
  case (CuStore net rq)
  then show ?thesis by (simp add: store_share_def Let_def split: option.split)
next
  case (CuDraw cid rng now)
  then show ?thesis by (simp add: draw_challenge_def Let_def)
next
  case (CuRelease net ip acct cid pf eph now)
  then show ?thesis
    by (simp add: release_share_def fail_release_def Let_def split: option.split prod.split sum.split)
qed

lemma attester_step_slots:
  assumes "0 < m" "slots_ok m s"
  shows "slots_ok m (attester_step C key fm m q s)"
proof (cases q)
  case (AtVerify uuid net ip rq now)
  then show ?thesis using verify_slots [OF assms(2)] by (metis attester_step.simps(1) prod.collapse)
next
  case (AtSweep now)
  then show ?thesis using release_stale_slots assms(2) by simp
next
  case (AtReset net msg)
  have "0 \<le> FACE_MAX m n" for n using assms(1) by (simp add: FACE_MAX_def)
  with AtReset assms(2) show ?thesis
    by (auto simp: slots_ok_def handle_reset_def performNetworkWipe_def)
qed (use assms(2) in \<open>simp_all add: slots_ok_def issueChallenge_def open_archived_def share_step_faces Let_def\<close>)

lemma attester_run_slots:
  "0 < m \<Longrightarrow> slots_ok m s \<Longrightarrow> slots_ok m (fold (attester_step C key fm m) ops s)"
  by (induction ops arbitrary: s) (simp_all add: attester_step_slots)

section \<open>One attestation per session\<close>

lemma attest_spends:
  assumes "face_verify C key fm m uuid net ip rq now s = (Attested n att, s')"
  shows "session_spent (vr_challengeId rq) (at_custody s') \<and> \<not> session_spent (vr_challengeId rq) (at_custody s)"
proof -
  obtain c where "verify_session fm net ip rq now s = Inr c"
    using assms by (auto simp: face_verify_def split: sum.splits)
  moreover from this have "mget (cu_sessions (at_custody s)) (vr_challengeId rq) = Some c \<and> \<not> ch_used c"
    by (auto simp: verify_session_def split: if_splits option.splits)
  ultimately show ?thesis
    using assms by (auto simp: face_verify_def session_spent_def Let_def split: if_splits option.splits)
qed

lemma attest_refused:
  "session_spent (vr_challengeId rq) (at_custody s) \<Longrightarrow> fst (face_verify C key fm m uuid net ip rq now s) \<noteq> Attested n att"
  by (auto simp: face_verify_def verify_session_def session_spent_def split: option.splits)

section \<open>Whose account it is\<close>

text \<open>The human that a request shows: the recognised face, or the new one.\<close>

definition human_of :: "string \<Rightarrow> string \<Rightarrow> verify_request \<Rightarrow> attester \<Rightarrow> string" where
  "human_of uuid net rq s = (case findMatchingFace RELAY_FACE_THRESHOLD (cu_faces (at_custody s)) (vr_descriptor rq) net of
     None \<Rightarrow> uuid
   | Some e \<Rightarrow> (case fe_nid e of None \<Rightarrow> uuid | Some n \<Rightarrow> if n = [] then uuid else n))"

lemma attested_pending:
  assumes "face_verify C key fm m uuid net ip rq now s = (Attested n att, s')"
  shows "mget (at_pending s') (vr_accountId rq) = Some \<lparr>fu_nid = human_of uuid net rq s,
      fu_username = js_lower (js_trim (vr_username rq)), fu_at = now, fu_network = net\<rparr>
    \<and> cu_shares (at_custody s') = cu_shares (at_custody s)
    \<and> at_names s' = (if js_lower (js_trim (vr_username rq)) = [] then at_names s
        else mset_at (js_lower (js_trim (vr_username rq))) \<lparr>nc_accountId = vr_accountId rq, nc_nid = Some (human_of uuid net rq s)\<rparr> (at_names s))"
proof -
  obtain c where "verify_session fm net ip rq now s = Inr c"
    using assms by (auto simp: face_verify_def split: sum.splits)
  with assms show ?thesis
    by (cases "findMatchingFace RELAY_FACE_THRESHOLD (cu_faces (at_custody s)) (vr_descriptor rq) net")
      (auto simp: face_verify_def human_of_def Let_def split: if_splits option.splits)
qed

lemma attested_binds:
  assumes "face_verify C key fm m uuid net ip rq now s = (Attested n att, s')" "human_of uuid net rq s \<noteq> []"
  shows "nidForAccount s' (vr_accountId rq) = Some (human_of uuid net rq s)"
  using attested_pending [OF assms(1)] assms(2) by (simp add: nidForAccount_def)

lemma foreign_binding:
  assumes "face_verify C key fm m uuid net ip rq now s = (Attested n att, s')" "human_of uuid net rq s \<noteq> []"
    and "mget (cu_shares (at_custody s)) (share_key net' (vr_accountId rq)) = None"
    and "sq_accountId sq = vr_accountId rq" "store_share C th (nidForAccount s') net' sq (at_custody s') = (200, k)"
  shows "\<exists>r. mget (cu_shares k) (share_key net' (vr_accountId rq)) = Some r \<and> kr_nid r = human_of uuid net rq s
    \<and> kr_shareHex r = js_lower (sq_share sq) \<and> kr_x r = sq_x sq \<and> kr_ts r = sq_ts sq \<and> kr_lockedUntil r = 0"
proof -
  have none: "mget (cu_shares (at_custody s')) (share_key net' (vr_accountId rq)) = None"
    using attested_pending [OF assms(1)] assms(3) by simp
  show ?thesis
    using assms(4,5) none attested_binds [OF assms(1,2)]
    by (auto simp: store_share_def bound_nid_def Let_def split: if_splits)
qed

text \<open>A performance by the bound human releases the share.\<close>

lemma bound_release:
  assumes "ephemeral_ok eph" "open_session cid now s = Some c" "verifyTrajectory (ch_sequence c) (Some p) = Inl None"
    and "mget (cu_shares s) (share_key net acct) = Some r" "kr_lockedUntil r \<le> now" "all_match th s net (kr_nid r) p"
    and "checkAndRecordIp ip RELEASE_IP_MAX_PER_DAY now (cu_releaseLog s) = (True, l)"
  shows "fst (release_share th net ip acct cid (Some p) eph now s) = Some (Released (kr_shareHex r) (kr_x r) (kr_ts r))"
  using assms by (simp add: release_share_def Let_def)

section \<open>Names\<close>

lemma release_use_names:
  "mget (at_names (release_use now ku s)) v = mget (at_names s) v \<or> mget (at_names (release_use now ku s)) v = None"
  by (auto simp: release_use_def Let_def split: prod.split)

lemma release_frees:
  assumes "(acct, u) \<in> set ps" "FACE_USE_TTL_MS \<le> now - fu_at u" "fu_username u = v" "v \<noteq> []"
    "\<And>c. mget (at_names s) v = Some c \<Longrightarrow> nc_accountId c = acct"
  shows "mget (at_names (fold (release_use now) ps s)) v = None"
proof -
  have stay: "mget (at_names t) v = None \<Longrightarrow> mget (at_names (fold (release_use now) qs t)) v = None" for qs t
  proof (induction qs arbitrary: t)
    case (Cons q qs)
    then have "mget (at_names (release_use now q t)) v = None" using release_use_names [of now q t v] by auto
    with Cons.IH show ?case by simp
  qed simp
  show ?thesis
    using assms(1,5)
  proof (induction ps arbitrary: s)
    case (Cons q ps)
    show ?case
    proof (cases "q = (acct, u)")
      case True
      have "mget (at_names (release_use now q s)) v = None"
        using True assms(2-4) Cons.prems(2) by (auto simp: release_use_def Let_def split: option.split)
      then show ?thesis by (simp add: stay)
    next
      case False
      then have "(acct, u) \<in> set ps" using Cons.prems(1) by simp
      moreover have "nc_accountId c = acct" if "mget (at_names (release_use now q s)) v = Some c" for c
        using that release_use_names [of now q s v] Cons.prems(2) by auto
      ultimately show ?thesis using Cons.IH by simp
    qed
  qed simp
qed

text \<open>
  A retry for a second account takes the name from the first one, and when it is abandoned the name is free,
  although the first account exists.
\<close>

lemma abandoned_retry_frees_name:
  assumes "face_verify C key fm m uuid net ip rq now s = (Attested n att, s')"
    and "v = js_lower (js_trim (vr_username rq))" "v \<noteq> []" "wf_map (at_pending s)"
    and "mget (at_names s) v = Some \<lparr>nc_accountId = first, nc_nid = Some (human_of uuid net rq s)\<rparr>" "first \<noteq> vr_accountId rq"
    and "FACE_USE_TTL_MS \<le> later - now"
  shows "mget (at_names (releaseStaleFaceUses later s')) v = None"
proof -
  note p = attested_pending [OF assms(1)]
  let ?u = "\<lparr>fu_nid = human_of uuid net rq s, fu_username = v, fu_at = now, fu_network = net\<rparr>"
  have "mget (at_pending s') (vr_accountId rq) = Some ?u" using p assms(2) by simp
  then have "(vr_accountId rq, ?u) \<in> set (at_pending s')" by (rule map_of_SomeD)
  then show ?thesis
    unfolding releaseStaleFaceUses_def
    by (rule release_frees) (use p assms(2,3,7) in auto)
qed

section \<open>The network reset\<close>

text \<open>A reset message has no freshness: it works again whenever its signer is an operator.\<close>

lemma reset_replayed:
  assumes "verify_str C (rm_signature msg) (reset_payload (rm_generation msg) (rm_resetAt msg)) (rm_operatorPub msg)"
    and "rm_operatorPub msg \<in> set (at_operators s)" "rm_operatorPub msg \<noteq> []" "rm_generation msg \<noteq> 0"
  shows "at_generation (handle_reset C ''testnet'' msg s) = rm_generation msg \<and> at_names (handle_reset C ''testnet'' msg s) = []
    \<and> at_operators (handle_reset C ''testnet'' msg s) = []"
  using assms by (simp add: handle_reset_def performNetworkWipe_def)

section \<open>Key blobs\<close>

lemma better_blob_some: "foldl better_blob (Some b) bs \<noteq> None"
  by (induction bs arbitrary: b) (simp_all add: better_blob_def split: option.split)

definition blobs_ok :: "blob_store \<Rightarrow> bool" where
  "blobs_ok st \<longleftrightarrow> wf_map st \<and> (\<forall>kv \<in> set st. fst kv = sb_pub (snd kv))"

lemma get_by_pub:
  assumes "blobs_ok st" "mget st pub = Some b" "sb_network b = net" "pub \<noteq> []"
  shows "get_keyblob pub u net st = Some b"
proof -
  have d: "distinct (map fst st)" and k: "\<forall>kv \<in> set st. fst kv = sb_pub (snd kv)"
    using assms(1) by (simp_all add: blobs_ok_def wf_map_def)
  obtain xs ys where st: "st = xs @ (pub, b) # ys"
    using map_of_SomeD [OF assms(2)] by (auto simp: in_set_conv_decomp)
  have "sb_pub b = pub" using k st by auto
  moreover have "\<forall>c \<in> set (mvals xs @ mvals ys). sb_pub c \<noteq> pub"
    using d k st by (auto simp: mvals_def image_iff)
  ultimately have "filter (\<lambda>b. sb_network b = net \<and> (if pub \<noteq> [] then sb_pub b = pub else sb_username b = js_lower (js_trim u))) (mvals st) = [b]"
    using assms(3,4) by (auto simp: st mvals_def filter_empty_conv)
  then show ?thesis
    using assms(4) by (simp add: get_keyblob_def better_blob_def)
qed

lemma set_mset_at_sub: "kv \<in> set (mset_at k v m) \<Longrightarrow> kv = (k, v) \<or> kv \<in> set m"
  unfolding mset_at_def by (induction m) (auto split: if_splits)

lemma archive_blob_ok:
  assumes "blobs_ok st"
  shows "blobs_ok (archiveKeyBlob enabled b net st)"
  using assms set_mset_at_sub [of _ "sb_pub b" "b\<lparr>sb_network := net\<rparr>" st]
  by (fastforce simp: blobs_ok_def archiveKeyBlob_def)

lemma stale_blob: "mget st (sb_pub own) = Some e \<Longrightarrow> blobTs own \<le> blobTs e \<Longrightarrow> archiveKeyBlob enabled own net st = st"
  by (simp add: archiveKeyBlob_def)

text \<open>Nothing ties a blob to its owner: a later time replaces it for good.\<close>

lemma foreign_blob:
  assumes "blobs_ok st" "sb_pub b \<noteq> []" "sb_username b \<noteq> []" "sb_encryptedKeys b \<noteq> []" "\<forall>kv \<in> set st. blobTs (snd kv) < blobTs b"
    and "checkAndRecordIp ip BLOB_IP_MAX_PER_DAY now l = (True, l')"
  shows "\<exists>st'. post_keyblob True ip now b net (l, st) = (200, l', st') \<and> blobs_ok st' \<and> get_keyblob (sb_pub b) u net st' = Some (b\<lparr>sb_network := net\<rparr>)
    \<and> (\<forall>own net'. sb_pub own = sb_pub b \<and> blobTs own \<le> blobTs b \<longrightarrow> archiveKeyBlob True own net' st' = st')"
proof -
  let ?st = "archiveKeyBlob True b net st"
  have "\<not> (case mget st (sb_pub b) of None \<Rightarrow> False | Some e \<Rightarrow> blobTs e \<ge> blobTs b)"
    using assms(5) by (auto split: option.split dest!: map_of_SomeD)
  then have st: "?st = mset_at (sb_pub b) (b\<lparr>sb_network := net\<rparr>) st"
    using assms(2-4) by (simp add: archiveKeyBlob_def)
  have ok: "blobs_ok ?st" by (rule archive_blob_ok [OF assms(1)])
  have m: "mget ?st (sb_pub b) = Some (b\<lparr>sb_network := net\<rparr>)" by (simp add: st)
  have ts: "blobTs (b\<lparr>sb_network := net\<rparr>) = blobTs b" by (simp add: blobTs_def split: option.split)
  have "archiveKeyBlob True own net' ?st = ?st" if "sb_pub own = sb_pub b" "blobTs own \<le> blobTs b" for own net'
    using stale_blob [of ?st own "b\<lparr>sb_network := net\<rparr>"] that m ts by simp
  moreover have "post_keyblob True ip now b net (l, st) = (200, l', ?st)"
    using assms(6) by (simp add: post_keyblob_def)
  moreover have "get_keyblob (sb_pub b) u net ?st = Some (b\<lparr>sb_network := net\<rparr>)"
    by (rule get_by_pub [OF ok m _ assms(2)]) simp
  ultimately show ?thesis
    using ok by blast
qed

end
