(* ===== verification/Recovery_Properties.thy ===== *)
theory Recovery_Properties
  imports Attester Recovery_Share Network_Properties
begin

text \<open>
  What holds across the attester, the custody of shares and the recovering client: face slots and sessions, and two ways in which
  somebody without the key of an account takes part in its recovery.
\<close>

section \<open>Slots and sessions\<close>



definition demo_request :: "string \<Rightarrow> verify_request" where
  "demo_request acct = \<lparr>vr_accountId = acct, vr_challengeId = ''c'', vr_descriptor = face_at 0, vr_faceMapHash = ''h'', vr_username = '' Eve'', vr_nullifier = None\<rparr>"


definition demo_session :: challenge_session where
  "demo_session = \<lparr>ch_recovery = False, ch_sequence = [], ch_createdAt = 0, ch_used = False\<rparr>"





section \<open>Recovery by somebody else\<close>

text \<open>C37: the human that a share is bound to is whoever showed a face for the account, and nothing in that request is
  signed by the account: when somebody attests an account at a relay that holds no share of it, the share its owner
  stores there later is bound to the stranger, and a performance by the stranger releases it.\<close>

theorem stranger_releases_share:
  assumes "face_verify C key fm m uuid net ip rq now s = (Attested n att, s')" "human_of uuid net rq s \<noteq> []"
    and "mget (cu_shares (at_custody s)) (share_key net' (vr_accountId rq)) = None"
    and "sq_accountId sq = vr_accountId rq" "store_share C RELAY_FACE_THRESHOLD (nidForAccount s') net' sq (at_custody s') = (200, k)"
    and "ephemeral_ok eph" "open_session cid later k = Some c" "verifyTrajectory (ch_sequence c) (Some p) = Inl None"
    and "all_match RELAY_FACE_THRESHOLD k net' (human_of uuid net rq s) p" "0 \<le> later"
    and "checkAndRecordIp ip' RELEASE_IP_MAX_PER_DAY later (cu_releaseLog k) = (True, l)"
  shows "fst (release_share RELAY_FACE_THRESHOLD net' ip' (vr_accountId rq) cid (Some p) eph later k)
    = Some (Released (js_lower (sq_share sq)) (sq_x sq) (sq_ts sq))"
proof -
  obtain r where r: "mget (cu_shares k) (share_key net' (vr_accountId rq)) = Some r" "kr_nid r = human_of uuid net rq s"
    "kr_shareHex r = js_lower (sq_share sq)" "kr_x r = sq_x sq" "kr_ts r = sq_ts sq" "kr_lockedUntil r = 0"
    using foreign_binding [OF assms(1-5)] by blast
  have "kr_lockedUntil r \<le> later" "all_match RELAY_FACE_THRESHOLD k net' (kr_nid r) p"
    using assms(9,10) r(2,6) by simp_all
  from bound_release [OF assms(6-8) r(1) this assms(11)] show ?thesis
    by (simp only: r)
qed

definition client_blob :: "stored_blob \<Rightarrow> key_blob" where
  "client_blob b = \<lparr>kb_pub = sb_pub b, kb_encryptedKeys = sb_encryptedKeys b, kb_updatedAt = sb_updatedAt b, kb_createdAt = sb_createdAt b\<rparr>"

definition junk_blob :: "string \<Rightarrow> int \<Rightarrow> string \<Rightarrow> stored_blob" where
  "junk_blob pub t net = \<lparr>sb_pub = pub, sb_username = ''x'', sb_encryptedKeys = ''x'', sb_updatedAt = Some t, sb_createdAt = None, sb_network = net\<rparr>"

lemma fetch_blob_snoc:
  assumes "\<forall>a. Some a \<in> set answers \<longrightarrow> blob_ts a < blob_ts b" "kb_pub b \<noteq> []" "kb_encryptedKeys b \<noteq> []"
  shows "fetchKeyBlobFromRelays (answers @ [Some b]) = Some b"
proof -
  have "fetchKeyBlobFromRelays answers = None \<or> (\<exists>a. fetchKeyBlobFromRelays answers = Some a \<and> Some a \<in> set answers)"
  proof (induction answers rule: rev_induct)
    case (snoc x xs)
    then show ?case
      by (cases x) (auto simp: fetchKeyBlobFromRelays_def split: option.split)
  qed (simp add: fetchKeyBlobFromRelays_def)
  with assms show ?thesis
    by (auto simp: fetchKeyBlobFromRelays_def)
qed

text \<open>C38: anybody replaces the key blob of any account: for every state of a relay and every answers of the others there is a
  time for which a blob without any signature is stored over the one of the owner, refuses its later
  versions, and is the one a recovering client takes.\<close>

theorem anyone_replaces_blob:
  assumes "blobs_ok st" "pub \<noteq> []" "checkAndRecordIp ip BLOB_IP_MAX_PER_DAY now l = (True, l')"
  shows "\<exists>t st'. post_keyblob True ip now (junk_blob pub t net) net (l, st) = (200, l', st')
    \<and> (\<forall>own net'. sb_pub own = pub \<and> blobTs own \<le> t \<longrightarrow> archiveKeyBlob True own net' st' = st')
    \<and> fetchKeyBlobFromRelays (answers @ [map_option client_blob (get_keyblob pub u net st')]) = Some (client_blob (junk_blob pub t net))"
proof -
  define t where "t = Max (insert 0 (blob_ts ` {a. Some a \<in> set answers} \<union> (\<lambda>kv. blobTs (snd kv)) ` set st)) + 1"
  have "finite {a. Some a \<in> set answers}"
    by (rule finite_subset [of _ "the ` set answers"]) force+
  then have fin: "finite (insert 0 (blob_ts ` {a. Some a \<in> set answers} \<union> (\<lambda>kv. blobTs (snd kv)) ` set st))"
    by simp
  have less: "x < t" if "x \<in> insert 0 (blob_ts ` {a. Some a \<in> set answers} \<union> (\<lambda>kv. blobTs (snd kv)) ` set st)" for x
    using Max_ge [OF fin that] by (simp add: t_def)
  let ?b = "junk_blob pub t net"
  have bt: "blobTs ?b = t" "blob_ts (client_blob ?b) = t"
    by (simp_all add: junk_blob_def blobTs_def blob_ts_def client_blob_def)
  have net: "?b\<lparr>sb_network := net\<rparr> = ?b" "sb_pub ?b = pub" by (simp_all add: junk_blob_def)
  have "\<forall>kv \<in> set st. blobTs (snd kv) < blobTs ?b" using less bt by auto
  from foreign_blob [OF assms(1) _ _ _ this assms(3), where u = u and net = net] assms(2)
  obtain st' where st': "post_keyblob True ip now ?b net (l, st) = (200, l', st')" "get_keyblob pub u net st' = Some ?b"
    "\<forall>own net'. sb_pub own = pub \<and> blobTs own \<le> t \<longrightarrow> archiveKeyBlob True own net' st' = st'"
    by (auto simp: net bt) (auto simp: junk_blob_def)
  have "fetchKeyBlobFromRelays (answers @ [Some (client_blob ?b)]) = Some (client_blob ?b)"
    by (rule fetch_blob_snoc) (use less bt assms(2) in \<open>auto simp: client_blob_def junk_blob_def\<close>)
  with st' show ?thesis by (intro exI [of _ t] exI [of _ st']) simp
qed

definition owner_blob :: stored_blob where
  "owner_blob = \<lparr>sb_pub = ''me'', sb_username = ''ann'', sb_encryptedKeys = ''keys'', sb_updatedAt = Some 9, sb_createdAt = Some 1, sb_network = ''mainnet''\<rparr>"

theorem anyone_replaces_blob_witness:
  "\<exists>t st'. post_keyblob True ''::1'' 10 (junk_blob ''me'' t ''mainnet'') ''mainnet'' ([], [(''me'', owner_blob)]) = (200, [], st')
    \<and> fetchKeyBlobFromRelays ([Some (client_blob owner_blob)] @ [map_option client_blob (get_keyblob ''me'' [] ''mainnet'' st')])
      = Some (client_blob (junk_blob ''me'' t ''mainnet''))"
proof -
  have "blobs_ok [(''me'', owner_blob)]" by (simp add: blobs_ok_def wf_map_def owner_blob_def)
  moreover have "checkAndRecordIp ''::1'' BLOB_IP_MAX_PER_DAY 10 [] = (True, [])" by code_simp
  ultimately show ?thesis
    using anyone_replaces_blob [of "[(''me'', owner_blob)]" "''me''" "''::1''" 10 "[]" "[]" "''mainnet''" "[Some (client_blob owner_blob)]" "[]"] by blast
qed

section \<open>A stranger at work\<close>

text \<open>A relay that knows the face of Eve and has both challenges open.\<close>

definition eve_relay :: attester where
  "eve_relay = new_attester\<lparr>at_custody := \<lparr>cu_shares = [],
     cu_sessions = [(''c'', demo_session), (''r'', demo_challenge)], cu_releaseLog = [],
     cu_faces = [\<lparr>fe_network = ''mainnet'', fe_descriptor = face_at 0, fe_count = 0, fe_nid = Some ''eve''\<rparr>]\<rparr>\<rparr>"

lemma centroid_same: "centroid (face_at 0) (face_at 0) = face_at 0"
  by (simp add: centroid_def face_at_def map2_map_map zip_replicate)

definition eve_key :: key_pair where
  "eve_key = \<lparr>kp_pub = ''k'', kp_priv = cl_priv demo_client\<rparr>"

definition eve_after :: attester where
  "eve_after = \<lparr>at_custody = \<lparr>cu_shares = [], cu_sessions = [(''c'', demo_session\<lparr>ch_used := True\<rparr>), (''r'', demo_challenge)], cu_releaseLog = [],
       cu_faces = [\<lparr>fe_network = ''mainnet'', fe_descriptor = face_at 0, fe_count = 1, fe_nid = Some ''eve''\<rparr>]\<rparr>,
     at_pending = [(cl_account demo_client, \<lparr>fu_nid = ''eve'', fu_username = js_lower (js_trim '' Eve''), fu_at = 1, fu_network = ''mainnet''\<rparr>)],
     at_names = [(js_lower (js_trim '' Eve''), \<lparr>nc_accountId = cl_account demo_client, nc_nid = Some ''eve''\<rparr>)],
     at_operators = [cl_account demo_client], at_ipLog = recordIpVerification ''::1'' 1 [], at_generation = 0\<rparr>"

lemma eve_match: "0 \<le> v \<Longrightarrow> v < 45 / 100 \<Longrightarrow>
  findMatchingFace RELAY_FACE_THRESHOLD [\<lparr>fe_network = ''mainnet'', fe_descriptor = face_at 0, fe_count = n, fe_nid = q\<rparr>] (face_at v) ''mainnet''
    = Some \<lparr>fe_network = ''mainnet'', fe_descriptor = face_at 0, fe_count = n, fe_nid = q\<rparr>"
  by (simp add: findMatchingFace_def nearer_def face_at_dist RELAY_FACE_THRESHOLD_def)

lemma eve_signs: "\<exists>att. createAttestation printed_crypto ty claim eve_key = Some att"
proof -
  obtain sig where "sign_str printed_crypto (attestationMessage (kp_pub eve_key) ty claim) (kp_priv eve_key) = Some sig"
    using demo_verifies by (auto simp: eve_key_def)
  then show ?thesis by (simp add: createAttestation_def)
qed

lemma eve_human: "human_of ''new'' ''mainnet'' (demo_request (cl_account demo_client)) eve_relay = ''eve''"
  by (simp add: human_of_def eve_relay_def demo_request_def eve_match)

lemma eve_attested:
  "\<exists>n att. face_verify printed_crypto eve_key (\<lambda>d. ''h'') 3 ''new'' ''mainnet'' ''::1'' (demo_request (cl_account demo_client)) 1 eve_relay
     = (Attested n att, eve_after)"
proof -
  let ?rq = "demo_request (cl_account demo_client)"
  have loc: "checkIpLimit ''::1'' (IP_MAX_PER_DAY ''mainnet'') 1 []" by code_simp
  have ne: "cl_account demo_client \<noteq> []" "js_lower (js_trim '' Eve'') \<noteq> []" by code_simp+
  obtain att where att: "createAttestation printed_crypto ''personhood''
      (deriveCommitment printed_crypto (''eve'' @ ''#'' @ int_str 0) (cl_account demo_client)) eve_key = Some att"
    using eve_signs by blast
  have v: "verify_session (\<lambda>d. ''h'') ''mainnet'' ''::1'' ?rq 1 eve_relay = Inr demo_session"
    using loc ne by (simp add: verify_session_def demo_request_def eve_relay_def new_attester_def demo_session_def face_at_valid CHALLENGE_TTL_MS_def)
  have f: "findMatchingFace RELAY_FACE_THRESHOLD (cu_faces (at_custody eve_relay)) (vr_descriptor ?rq) ''mainnet''
      = Some \<lparr>fe_network = ''mainnet'', fe_descriptor = face_at 0, fe_count = 0, fe_nid = Some ''eve''\<rparr>"
    by (simp add: eve_relay_def demo_request_def eve_match)
  have nm: "\<not> name_taken u ''eve'' eve_relay" for u
    by (simp add: name_taken_def eve_relay_def new_attester_def)
  show ?thesis
    unfolding face_verify_def v sum.case f
    using att nm ne by (simp add: Let_def FACE_MAX_def eve_relay_def new_attester_def eve_after_def demo_request_def centroid_same eve_match
        recordOperator_def OPERATOR_COUNT_def mset_at_def)
qed

definition owner_store :: store_request where
  "owner_store = \<lparr>sq_accountId = cl_account demo_client, sq_share = share_hex (replicate 32 7), sq_ts = 5,
     sq_sig = the (sign_str printed_crypto (share_payload (cl_account demo_client) ''mainnet'' (Some 1) (share_hex (replicate 32 7)) 5) (cl_priv demo_client)),
     sq_x = Some 1, sq_descriptor = None\<rparr>"

definition eve_bound :: share_custody where
  "eve_bound = (at_custody eve_after)\<lparr>cu_shares := [(share_key ''mainnet'' (cl_account demo_client), \<lparr>kr_accountId = cl_account demo_client,
     kr_nid = ''eve'', kr_network = ''mainnet'', kr_shareHex = share_hex (replicate 32 7), kr_ts = 5, kr_x = Some 1, kr_fails = 0, kr_lockedUntil = 0\<rparr>)]\<rparr>"

lemma owner_stores:
  "store_share printed_crypto RELAY_FACE_THRESHOLD (nidForAccount eve_after) ''mainnet'' owner_store (at_custody eve_after) = (200, eve_bound)"
proof -
  obtain sig where sig: "sign_str printed_crypto (share_payload (cl_account demo_client) ''mainnet'' (Some 1) (share_hex (replicate 32 7)) 5) (cl_priv demo_client) = Some sig"
    "verify_str printed_crypto sig (share_payload (cl_account demo_client) ''mainnet'' (Some 1) (share_hex (replicate 32 7)) 5) (cl_account demo_client)"
    using demo_verifies by blast
  have "hex32 (share_hex (replicate 32 7))" by (rule share_hex_hex32) simp
  moreover have "nidForAccount eve_after (cl_account demo_client) = Some ''eve''"
    by (simp add: nidForAccount_def eve_after_def)
  moreover have "cu_shares (at_custody eve_after) = []" by (simp add: eve_after_def)
  ultimately show ?thesis
    using sig demo_account by (simp add: store_share_def owner_store_def bound_nid_def eve_bound_def share_hex_lower mset_at_def Let_def)
qed

lemma eve_performs: "all_match RELAY_FACE_THRESHOLD eve_bound ''mainnet'' ''eve'' demo_performance"
  by (simp add: all_match_def eve_bound_def eve_after_def demo_performance_def eve_match)

theorem stranger_releases_share_witness:
  "fst (release_share RELAY_FACE_THRESHOLD ''mainnet'' ''::1'' (cl_account demo_client) ''r'' (Some demo_performance) demo_ephemeral 10 eve_bound)
    = Some (Released (share_hex (replicate 32 7)) (Some 1) 5)"
proof -
  from eve_attested obtain n att where a: "face_verify printed_crypto eve_key (\<lambda>d. ''h'') 3 ''new'' ''mainnet'' ''::1''
      (demo_request (cl_account demo_client)) 1 eve_relay = (Attested n att, eve_after)"
    by (elim exE)
  have acct: "vr_accountId (demo_request (cl_account demo_client)) = cl_account demo_client" by (simp add: demo_request_def)
  have none: "mget (cu_shares (at_custody eve_relay)) k = None" for k by (simp add: eve_relay_def)
  have op: "open_session ''r'' 10 eve_bound = Some demo_challenge"
    by (simp add: open_session_def eve_bound_def eve_after_def demo_challenge_def CHALLENGE_TTL_MS_def)
  have eph: "ephemeral_ok demo_ephemeral"
    by (simp add: ephemeral_ok_def demo_ephemeral_def list_all_iff)
  have ip: "checkAndRecordIp ''::1'' RELEASE_IP_MAX_PER_DAY 10 (cu_releaseLog eve_bound) = (True, cu_releaseLog eve_bound)"
    by (simp add: checkAndRecordIp_def isLocalIp_def)
  show ?thesis
    using stranger_releases_share [OF a _ none _ _ eph op demo_accepted _ _ ip, unfolded acct eve_human, of owner_store]
      owner_stores eve_performs by (simp add: owner_store_def share_hex_lower)
qed

end
