(* ===== verification/Capacity.thy ===== *)
theory Capacity
  imports Custody_Sampling
begin

text \<open>
  How much a holder can serve: the calibration run and the effective capacity
  (\<open>src/engine/content/calibration.ts\<close>), and the number of holders planned from capacities and demand
  (\<open>device-capacity.ts\<close>). Rates, latencies and capacities are real numbers. The lemmas show what a measured
  knee rests on, that retained samples are bounded, and that a plan that releases holders does not saturate the rest.
\<close>

section \<open>Declared capacity\<close>

datatype device_class = Sbc | Phone | Tablet | Laptop | Desktop | Server

definition DEFAULT_CONCURRENCY :: "device_class \<Rightarrow> int" where
  "DEFAULT_CONCURRENCY d = (case d of Sbc \<Rightarrow> 2 | Phone \<Rightarrow> 3 | Tablet \<Rightarrow> 4 | Laptop \<Rightarrow> 8 | Desktop \<Rightarrow> 16 | Server \<Rightarrow> 64)"

record device_hints =
  dh_mobile :: bool
  dh_cores :: "real option"
  dh_memoryGB :: "real option"
  dh_downlinkMbps :: "real option"

definition suggestDeviceClass :: "device_hints \<Rightarrow> device_class" where
  "suggestDeviceClass h =
     (let cores = (case dh_cores h of None \<Rightarrow> 0 | Some c \<Rightarrow> c); mem = (case dh_memoryGB h of None \<Rightarrow> 0 | Some m \<Rightarrow> m) in
      if dh_mobile h then (if mem \<ge> 6 \<or> cores \<ge> 8 then Tablet else Phone)
      else if cores \<le> 4 \<and> mem > 0 \<and> mem \<le> 2 then Sbc
      else if cores \<ge> 16 \<and> mem \<ge> 32 \<and> (case dh_downlinkMbps h of None \<Rightarrow> 0 | Some d \<Rightarrow> d) \<ge> 100 then Server
      else if cores \<ge> 8 \<and> mem \<ge> 16 then Desktop
      else Laptop)"

definition calibratedCapacity :: "real \<Rightarrow> real \<Rightarrow> real \<Rightarrow> real option \<Rightarrow> int" where
  "calibratedCapacity declared peakServedConcurrent failuresAtPeak observedFailureConcurrency =
     (let cap = min declared (max 1 (if peakServedConcurrent = 0 then declared else peakServedConcurrent));
        cap' = (if failuresAtPeak > 0 \<and> peakServedConcurrent > 1 then min cap (peakServedConcurrent - 1) else cap);
        cap'' = (case observedFailureConcurrency of None \<Rightarrow> cap' | Some f \<Rightarrow> min cap' (max 1 (f - 1)))
      in max 1 \<lfloor>cap''\<rfloor>)"

section \<open>Planning by saturation\<close>

definition HIGH_WATER :: real where "HIGH_WATER = 3 / 4"
definition LOW_WATER :: real where "LOW_WATER = 35 / 100"

datatype plan_reason = NoCapacity | Saturated int | Releasing int | NothingSafe | Steady

text \<open>The ratio is \<open>None\<close> for \<open>Infinity\<close>.\<close>

record saturation_plan =
  sp_capacity :: real
  sp_ratio :: "real option"
  sp_target :: int
  sp_reason :: plan_reason

text \<open>The loop over the capacities in ascending order.\<close>

fun shed :: "real \<Rightarrow> int \<Rightarrow> real list \<Rightarrow> int \<Rightarrow> real \<Rightarrow> int" where
  "shed minCapacity floor_n [] target remaining = target"
| "shed minCapacity floor_n (c # cs) target remaining =
     (if target \<le> floor_n \<or> remaining - c < minCapacity then target
      else shed minCapacity floor_n cs (target - 1) (remaining - c))"

definition planBySaturation :: "real list \<Rightarrow> real \<Rightarrow> int \<Rightarrow> int \<Rightarrow> real option \<Rightarrow> saturation_plan" where
  "planBySaturation holderCapacities demand floor_n cap typicalCapacity =
     (let capacity = sum_list holderCapacities; holders = int (length holderCapacities);
        mean = (if holders > 0 then capacity / of_int holders else 1);
        typical = max 1 (case typicalCapacity of None \<Rightarrow> mean | Some t \<Rightarrow> t)
      in if capacity \<le> 0 then \<lparr>sp_capacity = 0, sp_ratio = None, sp_target = max floor_n holders, sp_reason = NoCapacity\<rparr>
         else (let ratio = demand / capacity in
           if ratio > HIGH_WATER then
             (let wanted = demand / HIGH_WATER; extra = \<lceil>(wanted - capacity) / typical\<rceil> in
               \<lparr>sp_capacity = capacity, sp_ratio = Some ratio, sp_target = min cap (max floor_n (holders + extra)), sp_reason = Saturated extra\<rparr>)
           else if ratio < LOW_WATER \<and> holders > floor_n then
             (let target = shed (demand / HIGH_WATER) floor_n (sort holderCapacities) holders capacity in
               \<lparr>sp_capacity = capacity, sp_ratio = Some ratio, sp_target = max floor_n target,
                sp_reason = (if target < holders then Releasing (holders - target) else NothingSafe)\<rparr>)
           else \<lparr>sp_capacity = capacity, sp_ratio = Some ratio, sp_target = max floor_n holders, sp_reason = Steady\<rparr>))"

section \<open>Calibration\<close>

definition CALIBRATION_SMALL_BYTES :: int where "CALIBRATION_SMALL_BYTES = 64 * 1024"
definition CALIBRATION_LARGE_BYTES :: int where "CALIBRATION_LARGE_BYTES = 8 * 1024 * 1024"
definition LADDER :: "int list" where "LADDER = [1, 2, 4, 8, 16, 32, 64, 128]"
definition MIN_SAMPLES_PER_LEVEL :: nat where "MIN_SAMPLES_PER_LEVEL = 3"
definition MIN_DISTINCT_PROBERS :: nat where "MIN_DISTINCT_PROBERS = 3"
definition DEGRADATION_FACTOR :: real where "DEGRADATION_FACTOR = 3"
definition MAX_FAILURE_RATE :: real where "MAX_FAILURE_RATE = 1 / 10"
definition MAX_PER_LEVEL :: nat where "MAX_PER_LEVEL = 32"

datatype probe_size = Small | Large

record probe_sample =
  ps_level :: int
  ps_size :: probe_size
  ps_ok :: bool
  ps_latencyMs :: real
  ps_prober :: string

datatype knee_reason = NoSamples | BaselineShort | ProberCeiling int | DegradedAt int int | WholeLadder int | FromRungs int nat

record calibration_result =
  cr_maxConcurrentReads :: int
  cr_throughput :: "real option"
  cr_lowerBoundOnly :: bool
  cr_confident :: bool
  cr_proberBound :: bool
  cr_samples :: nat
  cr_distinctProbers :: nat
  cr_levelsJudged :: nat
  cr_reason :: knee_reason

definition percentile :: "real list \<Rightarrow> real \<Rightarrow> real" where
  "percentile xs p = (if xs = [] then 0
     else xs ! nat (min (int (length xs) - 1) (max 0 (\<lceil>p * real (length xs)\<rceil> - 1))))"

definition rung :: "int \<Rightarrow> probe_size \<Rightarrow> probe_sample \<Rightarrow> bool" where
  "rung l z s \<longleftrightarrow> ps_level s = l \<and> ps_size s = z"

text \<open>Walking from the newest sample, those of the rung beyond the cap are dropped.\<close>

fun trim_from :: "nat \<Rightarrow> int \<Rightarrow> probe_size \<Rightarrow> probe_sample list \<Rightarrow> probe_sample list" where
  "trim_from n l z [] = []"
| "trim_from n l z (s # ss) = (if \<not> rung l z s then s # trim_from n l z ss
     else if n = 0 then trim_from 0 l z ss else s # trim_from (n - 1) l z ss)"

definition add_sample :: "probe_sample \<Rightarrow> probe_sample list \<Rightarrow> probe_sample list" where
  "add_sample s xs = rev (trim_from MAX_PER_LEVEL (ps_level s) (ps_size s) (rev (xs @ [s])))"

definition ok_latencies :: "probe_sample list \<Rightarrow> real list" where
  "ok_latencies xs = sort (map ps_latencyMs (filter ps_ok xs))"

definition degraded :: "real \<Rightarrow> probe_sample list \<Rightarrow> bool" where
  "degraded baseline xs \<longleftrightarrow> real (length (filter (\<lambda>s. \<not> ps_ok s) xs)) / real (length xs) > MAX_FAILURE_RATE
     \<or> ok_latencies xs = [] \<or> percentile (ok_latencies xs) (95 / 100) > baseline * DEGRADATION_FACTOR"

text \<open>The walk up the ladder: the best rung, the rungs judged, and where it degraded.\<close>

fun climb :: "real \<Rightarrow> probe_sample list \<Rightarrow> int list \<Rightarrow> int \<Rightarrow> nat \<Rightarrow> int \<times> nat \<times> int option" where
  "climb baseline small [] best judged = (best, judged, None)"
| "climb baseline small (l # ls) best judged =
     (let xs = filter (\<lambda>s. ps_level s = l) small in
      if length xs < MIN_SAMPLES_PER_LEVEL then climb baseline small ls best judged
      else if degraded baseline xs then (best, Suc judged, Some l)
      else climb baseline small ls l (Suc judged))"

definition analyze :: "int option \<Rightarrow> probe_sample list \<Rightarrow> calibration_result" where
  "analyze proberCeiling samples =
     (let probers = remdups (map ps_prober samples); small = filter (\<lambda>s. ps_size s = Small) samples;
        base = \<lparr>cr_maxConcurrentReads = 0, cr_throughput = None, cr_lowerBoundOnly = False, cr_confident = False, cr_proberBound = False,
          cr_samples = length samples, cr_distinctProbers = length probers, cr_levelsJudged = 0, cr_reason = NoSamples\<rparr>
      in if small = [] then base
      else (let levels = sort (remdups (map ps_level small)); first = filter (\<lambda>s. ps_level s = hd levels) small in
        if length first < MIN_SAMPLES_PER_LEVEL \<or> ok_latencies first = [] then base\<lparr>cr_reason := BaselineShort\<rparr>
        else (case climb (percentile (ok_latencies first) (1 / 2)) small levels 0 0 of (best, judged, degradedAt) \<Rightarrow>
          (let large = filter (\<lambda>s. ps_size s = Large \<and> ps_ok s \<and> ps_latencyMs s > 0) samples;
             rates = sort (map (\<lambda>s. of_int (CALIBRATION_LARGE_BYTES * ps_level s) / (ps_latencyMs s / 1000)) large);
             lowerBoundOnly = (degradedAt = None \<and> best = last levels);
             proberBound = (case proberCeiling of None \<Rightarrow> False | Some c \<Rightarrow> best \<ge> c)
           in \<lparr>cr_maxConcurrentReads = best,
               cr_throughput = (if length large \<ge> MIN_SAMPLES_PER_LEVEL then Some (percentile rates (1 / 2)) else None),
               cr_lowerBoundOnly = lowerBoundOnly,
               cr_confident = (length probers \<ge> MIN_DISTINCT_PROBERS \<and> judged \<ge> 2 \<and> best > 0 \<and> \<not> proberBound),
               cr_proberBound = proberBound, cr_samples = length samples, cr_distinctProbers = length probers, cr_levelsJudged = judged,
               cr_reason = (if proberBound then ProberCeiling best
                 else (case degradedAt of Some l \<Rightarrow> DegradedAt l best
                   | None \<Rightarrow> if lowerBoundOnly then WholeLadder best else FromRungs best judged))\<rparr>))))"

fun payload_bytes :: "nat \<Rightarrow> 32 word \<Rightarrow> byte list" where
  "payload_bytes 0 a = []"
| "payload_bytes (Suc n) a = (let a' = xorshift a in ucast (a' AND 0xff) # payload_bytes n a')"

definition calibrationPayload :: "int \<Rightarrow> nat \<Rightarrow> byte list" where
  "calibrationPayload seed n = (let s = word_of_int seed in payload_bytes n (if s = 0 then 1 else s))"

definition calibrationStale :: "int \<Rightarrow> int \<Rightarrow> int \<Rightarrow> bool" where
  "calibrationStale measuredAt now ttlMs \<longleftrightarrow> \<not> measuredAt > 0 \<or> now - measuredAt > ttlMs"

datatype capacity_source = Measured | Declared | Floor

definition effectiveCapacity :: "calibration_result option \<Rightarrow> int option \<Rightarrow> int option \<Rightarrow> int \<Rightarrow> int \<Rightarrow> bool \<Rightarrow> int \<times> capacity_source" where
  "effectiveCapacity measured measuredAt declared now ttlMs requireMeasured =
     (if (case measured of None \<Rightarrow> False | Some m \<Rightarrow> cr_confident m \<and> cr_maxConcurrentReads m > 0)
        \<and> \<not> calibrationStale (case measuredAt of None \<Rightarrow> 0 | Some t \<Rightarrow> t) now ttlMs
      then (cr_maxConcurrentReads (the measured), Measured)
      else if requireMeasured then (1, Floor)
      else (case declared of Some d \<Rightarrow> if d > 0 then (d, Declared) else (1, Floor) | None \<Rightarrow> (1, Floor)))"

section \<open>What the plan keeps\<close>

lemma calibrated_bounds:
  "1 \<le> calibratedCapacity declared peak fails obs"
  "1 \<le> declared \<Longrightarrow> of_int (calibratedCapacity declared peak fails obs) \<le> declared"
  "1 \<le> peak \<Longrightarrow> of_int (calibratedCapacity declared peak fails obs) \<le> peak"
  "2 \<le> f \<Longrightarrow> of_int (calibratedCapacity declared peak fails (Some f)) \<le> f - 1"
proof -
  have m: "of_int (max 1 \<lfloor>x\<rfloor>) \<le> y" if "x \<le> y" "1 \<le> y" for x y :: real
    using that order_trans [OF of_int_floor_le that(1)] by (auto simp: max_def)
  show "1 \<le> calibratedCapacity declared peak fails obs"
    by (simp add: calibratedCapacity_def Let_def)
  show "1 \<le> declared \<Longrightarrow> of_int (calibratedCapacity declared peak fails obs) \<le> declared"
    unfolding calibratedCapacity_def Let_def by (rule m) (auto split: option.split)
  show "1 \<le> peak \<Longrightarrow> of_int (calibratedCapacity declared peak fails obs) \<le> peak"
    unfolding calibratedCapacity_def Let_def by (rule m) (auto split: option.split)
  show "2 \<le> f \<Longrightarrow> of_int (calibratedCapacity declared peak fails (Some f)) \<le> f - 1"
    unfolding calibratedCapacity_def Let_def by (rule m) auto
qed

lemma shed_spec:
  assumes "shed m fl cs t r = t'" "m \<le> r" "sum_list cs \<le> r"
  shows "\<exists>k. k \<le> length cs \<and> t' = t - int k \<and> m \<le> r - sum_list (take k cs) \<and> (fl \<le> t \<longrightarrow> fl \<le> t')"
  using assms
proof (induction cs arbitrary: t r)
  case Nil
  then show ?case by (intro exI [of _ 0]) simp
next
  case (Cons c cs)
  show ?case
  proof (cases "t \<le> fl \<or> r - c < m")
    case True
    with Cons.prems show ?thesis by (intro exI [of _ 0]) auto
  next
    case False
    then have "shed m fl cs (t - 1) (r - c) = t'" "m \<le> r - c" "sum_list cs \<le> r - c"
      using Cons.prems by auto
    from Cons.IH [OF this] obtain k where "k \<le> length cs" "t' = t - 1 - int k" "m \<le> r - c - sum_list (take k cs)"
      "fl \<le> t - 1 \<longrightarrow> fl \<le> t'" by blast
    with False show ?thesis
      by (intro exI [of _ "Suc k"]) auto
  qed
qed

lemma plan_floor: "fl \<le> cap \<Longrightarrow> fl \<le> sp_target (planBySaturation cs d fl cap ty)"
  by (simp add: planBySaturation_def Let_def)

text \<open>The cap bounds what demand can add, not what is already there.\<close>

lemma plan_cap:
  "sp_target (planBySaturation cs d fl cap ty) \<le> max cap (max fl (int (length cs)))"
proof -
  have s: "shed m f xs t r \<le> t" for m f xs t r
    by (induction m f xs t r rule: shed.induct) auto
  show ?thesis
    using s [of "d / HIGH_WATER" fl "sort cs" "int (length cs)" "sum_list cs"] by (auto simp: planBySaturation_def Let_def)
qed

lemma plan_above_cap: "sp_target (planBySaturation [8, 8, 8] 12 1 2 None) = 3"
  by (simp add: planBySaturation_def HIGH_WATER_def LOW_WATER_def)

text \<open>New holders of the typical capacity bring the ratio back to the mark, unless the cap is met.\<close>

lemma plan_closes_gap:
  assumes "0 < sum_list cs" "HIGH_WATER < d / sum_list cs" "typical = max 1 (case ty of None \<Rightarrow> sum_list cs / real (length cs) | Some t \<Rightarrow> t)"
    and "sp_target (planBySaturation cs d fl cap ty) < cap"
  shows "d \<le> HIGH_WATER * (sum_list cs + of_int (sp_target (planBySaturation cs d fl cap ty) - int (length cs)) * typical)"
proof -
  have ne: "cs \<noteq> []" using assms(1) by auto
  let ?x = "(d / HIGH_WATER - sum_list cs) / typical"
  let ?p = "planBySaturation cs d fl cap ty"
  have "sp_target ?p = min cap (max fl (int (length cs) + \<lceil>?x\<rceil>))"
    using assms(1-3) ne by (simp add: planBySaturation_def Let_def cong: option.case_cong)
  with assms(4) have "int (length cs) + \<lceil>?x\<rceil> \<le> sp_target ?p" by linarith
  then have "\<lceil>?x\<rceil> \<le> sp_target ?p - int (length cs)" by linarith
  then have "?x \<le> of_int (sp_target ?p - int (length cs))"
    by (simp only: ceiling_le_iff)
  then have "d / HIGH_WATER - sum_list cs \<le> of_int (sp_target ?p - int (length cs)) * typical"
    using assms(3) by (simp add: divide_le_eq split: if_splits)
  then have "d / HIGH_WATER \<le> sum_list cs + of_int (sp_target ?p - int (length cs)) * typical" by linarith
  then show ?thesis by (simp add: HIGH_WATER_def field_simps)
qed

text \<open>Releasing the smallest holders down to the target leaves room, so the next plan places nothing.\<close>

lemma release_settles:
  assumes "0 < sum_list cs" "\<forall>c \<in> set cs. 0 \<le> c" "0 \<le> d" "0 < fl" "fl \<le> int (length cs)"
    and p: "planBySaturation cs d fl cap ty = p" "sp_target p < int (length cs)"
    and ds: "rest = drop (length cs - nat (sp_target p)) (sort cs)" "d / sum_list cs \<le> HIGH_WATER"
  shows "int (length rest) = sp_target p \<and> d \<le> HIGH_WATER * sum_list rest \<and> (0 < sum_list rest \<longrightarrow>
     sp_target (planBySaturation rest d fl cap ty') \<le> int (length rest))"
proof -
  have low: "d / sum_list cs < LOW_WATER" "fl < int (length cs)" and
    t: "sp_target p = max fl (shed (d / HIGH_WATER) fl (sort cs) (int (length cs)) (sum_list cs))"
    using p ds(2) assms(1,5) by (auto simp: planBySaturation_def Let_def split: if_splits)
  have "d / HIGH_WATER \<le> sum_list cs"
    using ds(2) assms(1) by (simp add: HIGH_WATER_def field_simps)
  then obtain k where k: "k \<le> length cs" "shed (d / HIGH_WATER) fl (sort cs) (int (length cs)) (sum_list cs) = int (length cs) - int k"
    "d / HIGH_WATER \<le> sum_list cs - sum_list (take k (sort cs))" "fl \<le> int (length cs) - int k"
    using shed_spec [OF refl, of "d / HIGH_WATER" "sum_list cs" "sort cs" fl "int (length cs)"] low(2)
    by (auto simp: sum_mset_sum_list [symmetric])
  have tk: "sp_target p = int (length cs) - int k" using t k by simp
  then have "length cs - nat (sp_target p) = k" using k(1) by linarith
  then have rest: "rest = drop k (sort cs)" using ds(1) by simp
  have "sum_list (sort cs) = sum_list cs" by (simp add: sum_mset_sum_list [symmetric])
  moreover have "sum_list (sort cs) = sum_list (take k (sort cs)) + sum_list rest"
    unfolding rest by (metis append_take_drop_id sum_list_append)
  ultimately have room: "d / HIGH_WATER \<le> sum_list rest" using k(3) by simp
  then have d: "d \<le> HIGH_WATER * sum_list rest" by (simp add: HIGH_WATER_def field_simps)
  have len: "int (length rest) = sp_target p" using rest tk k(1) by simp
  have "sp_target (planBySaturation rest d fl cap ty') \<le> int (length rest)" if pos: "0 < sum_list rest"
  proof -
    have "d / sum_list rest \<le> HIGH_WATER" using d pos by (simp add: divide_le_eq)
    moreover have "shed m f xs u r \<le> u" for m f xs u r
      by (induction m f xs u r rule: shed.induct) auto
    moreover have "fl \<le> int (length rest)" using len tk k(4) by simp
    ultimately show ?thesis
      using pos by (auto simp: planBySaturation_def Let_def not_less)
  qed
  with d len show ?thesis by simp
qed

section \<open>What a measurement rests on\<close>

lemma trim_same: "filter (rung l z) (trim_from n l z ss) = take n (filter (rung l z) ss)"
  by (induction n l z ss rule: trim_from.induct) (auto simp: take_Cons')

lemma trim_other: "(l', z') \<noteq> (l, z) \<Longrightarrow> filter (rung l' z') (trim_from n l z ss) = filter (rung l' z') ss"
  by (induction n l z ss rule: trim_from.induct) (auto simp: rung_def)

lemma add_sample_rung:
  "filter (rung l z) (add_sample s xs) =
     (if rung l z s then drop (length (filter (rung l z) xs) + 1 - MAX_PER_LEVEL) (filter (rung l z) xs @ [s]) else filter (rung l z) xs)"
proof (cases "rung l z s")
  case True
  then have "rung (ps_level s) (ps_size s) = rung l z" by (auto simp: rung_def fun_eq_iff)
  then have "filter (rung l z) (add_sample s xs) = rev (take MAX_PER_LEVEL (rev (filter (rung l z) xs @ [s])))"
    using trim_same [of "ps_level s" "ps_size s" MAX_PER_LEVEL "rev (xs @ [s])"] True
    by (simp add: add_sample_def rev_filter [symmetric])
  moreover have "rev (take n (rev ys)) = drop (length ys - n) ys" for n and ys :: "probe_sample list"
    by (simp add: take_rev)
  ultimately show ?thesis
    using True by (simp del: rev_append drop_append)
next
  case False
  then have "(l, z) \<noteq> (ps_level s, ps_size s)" by (auto simp: rung_def)
  from trim_other [OF this, of MAX_PER_LEVEL "rev (xs @ [s])"] False show ?thesis
    by (simp add: add_sample_def rev_filter [symmetric])
qed

text \<open>However many samples arrive, a rung retains at most the newest 32.\<close>

lemma retained_bound:
  "length (filter (rung l z) (fold add_sample ss [])) \<le> MAX_PER_LEVEL"
proof (induction ss rule: rev_induct)
  case (snoc s ss)
  then show ?case by (auto simp: add_sample_rung)
qed simp

definition tested :: "probe_sample list \<Rightarrow> int \<Rightarrow> bool" where
  "tested small l \<longleftrightarrow> MIN_SAMPLES_PER_LEVEL \<le> length (filter (\<lambda>s. ps_level s = l) small)"

definition passes :: "real \<Rightarrow> probe_sample list \<Rightarrow> int \<Rightarrow> bool" where
  "passes baseline small l \<longleftrightarrow> tested small l \<and> \<not> degraded baseline (filter (\<lambda>s. ps_level s = l) small)"

lemma climb_spec:
  assumes "climb b small ls k j = (k', j', d)" "sorted_wrt (<) ls" "\<forall>l \<in> set ls. k < l"
  shows "k \<le> k' \<and> (k' = k \<or> k' \<in> set ls \<and> passes b small k') \<and> (\<forall>l \<in> set ls. l \<le> k' \<and> tested small l \<longrightarrow> passes b small l)
    \<and> (\<forall>l. d = Some l \<longrightarrow> l \<in> set ls \<and> k' < l \<and> tested small l \<and> \<not> passes b small l)
    \<and> (d = None \<longrightarrow> (\<forall>l \<in> set ls. tested small l \<longrightarrow> l \<le> k'))"
  using assms
proof (induction ls arbitrary: k j)
  case (Cons l ls)
  let ?xs = "filter (\<lambda>s. ps_level s = l) small"
  consider (skip) "\<not> tested small l" | (stop) "tested small l" "degraded b ?xs" | (go) "passes b small l"
    by (auto simp: passes_def)
  then show ?case
  proof cases
    case skip
    then have c: "climb b small ls k j = (k', j', d)" using Cons.prems(1) by (simp add: tested_def not_le)
    have "sorted_wrt (<) ls" "\<forall>l \<in> set ls. k < l" using Cons.prems by simp_all
    from Cons.IH [OF c this] skip show ?thesis by auto
  next
    case stop
    then have "k' = k" "d = Some l" using Cons.prems(1) by (simp_all add: tested_def not_less [symmetric] Let_def)
    with stop Cons.prems(2,3) show ?thesis by (auto simp: passes_def)
  next
    case go
    then have c: "climb b small ls l (Suc j) = (k', j', d)"
      using Cons.prems(1) by (simp add: passes_def tested_def not_less [symmetric] Let_def)
    have "sorted_wrt (<) ls" "\<forall>x \<in> set ls. l < x" using Cons.prems(2) by simp_all
    from Cons.IH [OF c this] go Cons.prems(3) show ?thesis by (auto dest: order.trans)
  qed
qed simp

text \<open>
  A confident result: three probers, and a rung that was tested and passed like every tested rung below it.
\<close>

lemma confident_knee:
  assumes "cr_confident (analyze pc samples)" "\<forall>s \<in> set samples. 0 < ps_level s"
  defines "small \<equiv> filter (\<lambda>s. ps_size s = Small) samples"
  defines "base \<equiv> percentile (ok_latencies (filter (\<lambda>s. ps_level s = Min (ps_level ` set small)) small)) (1 / 2)"
  shows "MIN_DISTINCT_PROBERS \<le> card (ps_prober ` set samples) \<and> passes base small (cr_maxConcurrentReads (analyze pc samples))
    \<and> (\<forall>l. l \<le> cr_maxConcurrentReads (analyze pc samples) \<and> tested small l \<longrightarrow> passes base small l)
    \<and> (\<forall>c. pc = Some c \<longrightarrow> cr_maxConcurrentReads (analyze pc samples) < c)"
proof -
  let ?ls = "sort (remdups (map ps_level small))"
  have ne: "small \<noteq> []" using assms(1) by (auto simp: analyze_def small_def Let_def)
  have hd: "hd ?ls = Min (ps_level ` set small)"
  proof -
    have "set ?ls = ps_level ` set small" "sorted ?ls" by simp_all
    moreover from this ne obtain x xs where "?ls = x # xs" by (cases ?ls) auto
    ultimately have "set (x # xs) = ps_level ` set small" "\<forall>y \<in> set (x # xs). x \<le> y" "hd ?ls = x" by auto
    then have "Min (ps_level ` set small) = x" by (intro Min_eqI) auto
    with \<open>hd ?ls = x\<close> show ?thesis by simp
  qed
  obtain k j d where c: "climb base small ?ls 0 0 = (k, j, d)" by (metis prod.exhaust)
  have r: "cr_maxConcurrentReads (analyze pc samples) = k" "0 < k" "(case pc of None \<Rightarrow> False | Some c \<Rightarrow> k \<ge> c) = False"
    "MIN_DISTINCT_PROBERS \<le> length (remdups (map ps_prober samples))"
    using assms(1) ne c hd by (auto simp: analyze_def small_def [symmetric] base_def Let_def split: if_splits)
  have "sorted_wrt (<) ?ls" by (simp add: strict_sorted_iff)
  moreover have "\<forall>l \<in> set ?ls. 0 < l" using assms(2) by (auto simp: small_def)
  ultimately have s: "passes base small k" "\<forall>l \<in> set ?ls. l \<le> k \<and> tested small l \<longrightarrow> passes base small l"
    using climb_spec [OF c] r(2) by auto
  have "l \<in> set ?ls" if "tested small l" for l
  proof (rule ccontr)
    assume "l \<notin> set ?ls"
    then have "filter (\<lambda>s. ps_level s = l) small = []" by (auto simp: filter_empty_conv)
    with that show False by (simp add: tested_def MIN_SAMPLES_PER_LEVEL_def)
  qed
  with s r show ?thesis
    by (auto simp: length_remdups_card_conv split: option.splits)
qed

lemma effective_measured:
  "effectiveCapacity m t declared now ttl req = (c, Measured) \<Longrightarrow>
     \<exists>r. m = Some r \<and> cr_confident r \<and> c = cr_maxConcurrentReads r \<and> 0 < c \<and> (\<exists>u. t = Some u \<and> now - u \<le> ttl)"
  by (auto simp: effectiveCapacity_def calibrationStale_def split: option.splits if_splits)

lemma effective_required: "snd (effectiveCapacity m t declared now ttl True) \<noteq> Declared"
  by (simp add: effectiveCapacity_def)

text \<open>The seed that the generator maps to zero makes a payload of zeros.\<close>

lemma dead_payload: "calibrationPayload 0xFC001FFF n = replicate n 0"
proof -
  have z: "payload_bytes m 0 = replicate m 0" for m
    by (induction m) (simp_all add: xorshift_zero Let_def)
  show ?thesis
    by (cases n) (simp_all add: calibrationPayload_def Let_def xorshift_dead_seed z)
qed

end
