(* ===== verification/File_Backend.thy ===== *)
theory File_Backend
  imports Content_Store
begin

text \<open>
  The block backend on plain files, \<open>src/storage/fs-backend.ts\<close>. The tree below the root is a list
  of directories and a map from directory and file name to bytes; the calls the code makes of the
  file system are values, so that a crash is a prefix of a sequence of calls. Operations that
  throw answer \<open>Inl\<close>. Called one after the other the backend answers as \<open>MemoryBackend\<close> does, and a
  crash inside one write never shows part of a block; two overlapping writes of one block do.
\<close>

section \<open>The file system\<close>

type_synonym fpath = "string \<times> string"

record fs_backend =
  fs_dirs :: "string list"
  fs_files :: "(fpath, bytes) jsmap"
  fs_used :: int

definition FileSystemBackend :: fs_backend where
  "FileSystemBackend = \<lparr>fs_dirs = [], fs_files = [], fs_used = -1\<rparr>"

datatype fs_call = Mkdir string | OpenTruncate fpath | AppendTo fpath bytes | RenameTo fpath fpath

text \<open>One call; \<open>None\<close> is a rejection, and nothing happened.\<close>

fun fs_step :: "fs_call \<Rightarrow> fs_backend \<Rightarrow> fs_backend option" where
  "fs_step (Mkdir d) s = Some (s\<lparr>fs_dirs := sadd d (fs_dirs s)\<rparr>)"
| "fs_step (OpenTruncate p) s = (if fst p \<in> set (fs_dirs s)
     then Some (s\<lparr>fs_files := mset_at p [] (fs_files s)\<rparr>) else None)"
| "fs_step (AppendTo p bs) s = (case mget (fs_files s) p of
     None \<Rightarrow> None
   | Some b \<Rightarrow> Some (s\<lparr>fs_files := mset_at p (b @ bs) (fs_files s)\<rparr>))"
| "fs_step (RenameTo p q) s = (case mget (fs_files s) p of
     None \<Rightarrow> None
   | Some b \<Rightarrow> Some (s\<lparr>fs_files := mset_at q b (mdel p (fs_files s))\<rparr>))"

fun fs_run :: "fs_call list \<Rightarrow> fs_backend \<Rightarrow> bool \<times> fs_backend" where
  "fs_run [] s = (True, s)"
| "fs_run (x # xs) s = (case fs_step x s of None \<Rightarrow> (False, s) | Some s' \<Rightarrow> fs_run xs s')"

section \<open>The backend\<close>

datatype fs_error = InvalidCid hex | CallRejected

definition hex_digits :: string where
  "hex_digits = ''0123456789abcdefABCDEF''"

definition cid_ok :: "hex \<Rightarrow> bool" where
  "cid_ok cid \<longleftrightarrow> 4 \<le> length cid \<and> (\<forall>x \<in> set cid. x \<in> set hex_digits)"

definition pathFor :: "hex \<Rightarrow> fs_error + fpath" where
  "pathFor cid = (if cid_ok cid then Inr (take 2 cid, cid) else Inl (InvalidCid cid))"

definition fs_has :: "hex \<Rightarrow> fs_backend \<Rightarrow> fs_error + bool" where
  "fs_has cid s = (case pathFor cid of Inl e \<Rightarrow> Inl e | Inr p \<Rightarrow> Inr (mhas (fs_files s) p))"

definition fs_get :: "hex \<Rightarrow> fs_backend \<Rightarrow> fs_error + bytes option" where
  "fs_get cid s = (case pathFor cid of Inl e \<Rightarrow> Inl e | Inr p \<Rightarrow> Inr (mget (fs_files s) p))"

definition tmp_of :: "fpath \<Rightarrow> fpath" where
  "tmp_of p = (fst p, snd p @ ''.tmp'')"

text \<open>The calls of one write. \<open>writeFile\<close> opens with truncation and writes in pieces.\<close>

definition put_calls :: "fpath \<Rightarrow> bytes list \<Rightarrow> fs_call list" where
  "put_calls p pieces = Mkdir (fst p) # OpenTruncate (tmp_of p)
     # List.map (AppendTo (tmp_of p)) pieces @ [RenameTo (tmp_of p) p]"

definition fs_put :: "hex \<Rightarrow> bytes \<Rightarrow> fs_backend \<Rightarrow> (fs_error + int) \<times> fs_backend" where
  "fs_put cid bs s = (case pathFor cid of
     Inl e \<Rightarrow> (Inl e, s)
   | Inr p \<Rightarrow> if mhas (fs_files s) p then (Inr 0, s)
       else (case fs_run (put_calls p [bs]) s of
           (False, s') \<Rightarrow> (Inl CallRejected, s')
         | (True, s') \<Rightarrow> (Inr (int (length bs)),
             if fs_used s' \<ge> 0 then s'\<lparr>fs_used := fs_used s' + int (length bs)\<rparr> else s')))"

definition fs_delete :: "hex \<Rightarrow> fs_backend \<Rightarrow> (fs_error + int) \<times> fs_backend" where
  "fs_delete cid s = (case pathFor cid of
     Inl e \<Rightarrow> (Inl e, s)
   | Inr p \<Rightarrow> (case mget (fs_files s) p of
       None \<Rightarrow> (Inr 0, s)
     | Some b \<Rightarrow> (Inr (int (length b)),
         s\<lparr>fs_files := mdel p (fs_files s),
           fs_used := (if fs_used s \<ge> 0 then fs_used s - int (length b) else fs_used s)\<rparr>)))"

definition ends_tmp :: "string \<Rightarrow> bool" where
  "ends_tmp n = (drop (length n - 4) n = ''.tmp'')"

definition fs_entries :: "fs_backend \<Rightarrow> (hex \<times> fpath) list" where
  "fs_entries s = concat (List.map (\<lambda>shard. if length shard \<noteq> 2 then []
     else List.map (\<lambda>n. (n, (shard, n)))
       (List.filter (\<lambda>n. \<not> ends_tmp n)
         (List.map snd (List.filter (\<lambda>p. fst p = shard) (mkeys (fs_files s)))))) (fs_dirs s))"

definition fs_list :: "fs_backend \<Rightarrow> hex list" where
  "fs_list s = List.map fst (fs_entries s)"

definition fs_size :: "fs_backend \<Rightarrow> fpath \<Rightarrow> int" where
  "fs_size s p = (case mget (fs_files s) p of None \<Rightarrow> 0 | Some b \<Rightarrow> int (length b))"

definition fs_scan :: "fs_backend \<Rightarrow> int" where
  "fs_scan s = sum_list (List.map (\<lambda>e. fs_size s (snd e)) (fs_entries s))"

definition fs_bytesUsed :: "fs_backend \<Rightarrow> int \<times> fs_backend" where
  "fs_bytesUsed s = (if fs_used s \<ge> 0 then (fs_used s, s) else (fs_scan s, s\<lparr>fs_used := fs_scan s\<rparr>))"

section \<open>Paths\<close>

lemma dot_not_hex: "CHR ''.'' \<notin> set hex_digits"
  by code_simp

lemma cid_not_tmp: "cid_ok cid \<Longrightarrow> \<not> ends_tmp cid"
proof
  assume c: "cid_ok cid" and t: "ends_tmp cid"
  have "CHR ''.'' \<in> set (drop (length cid - 4) cid)"
    using t by (simp add: ends_tmp_def)
  then have "CHR ''.'' \<in> set cid"
    by (rule in_set_dropD)
  with c dot_not_hex show False
    by (auto simp only: cid_ok_def)
qed

lemma ends_tmp_append [simp]: "ends_tmp (n @ ''.tmp'')"
  by (simp add: ends_tmp_def)

lemma tmp_of_simps [simp]: "fst (tmp_of p) = fst p" "ends_tmp (snd (tmp_of p))"
  by (simp_all add: tmp_of_def)

lemma cid_path: "cid_ok cid \<Longrightarrow> pathFor cid = Inr (take 2 cid, cid)" "cid_ok cid \<Longrightarrow> length (take 2 cid) = 2"
  by (simp_all add: pathFor_def cid_ok_def)

lemma cid_neq_tmp: "cid_ok cid \<Longrightarrow> (d, cid) \<noteq> tmp_of p"
proof
  assume c: "cid_ok cid" and "(d, cid) = tmp_of p"
  then have "snd (tmp_of p) = cid"
    by (metis snd_conv)
  with c cid_not_tmp tmp_of_simps(2) [of p] show False
    by simp
qed

section \<open>A write that stops part of the way\<close>

definition tmp_only :: "fs_call \<Rightarrow> bool" where
  "tmp_only x = (case x of Mkdir d \<Rightarrow> True | OpenTruncate p \<Rightarrow> ends_tmp (snd p)
     | AppendTo p bs \<Rightarrow> ends_tmp (snd p) | RenameTo p q \<Rightarrow> False)"

lemma tmp_only_step:
  "\<lbrakk>fs_step x s = Some s'; tmp_only x; \<not> ends_tmp (snd p)\<rbrakk> \<Longrightarrow> mget (fs_files s') p = mget (fs_files s) p"
  by (cases x) (auto simp: tmp_only_def split: if_splits option.splits)

lemma tmp_only_run: "\<lbrakk>\<forall>x \<in> set xs. tmp_only x; \<not> ends_tmp (snd p)\<rbrakk>
    \<Longrightarrow> mget (fs_files (snd (fs_run xs s))) p = mget (fs_files s) p"
proof (induction xs arbitrary: s)
  case (Cons x xs)
  then show ?case
    using tmp_only_step [of x s _ p] by (auto split: option.split)
qed simp

lemma fs_run_append: "fs_run (xs @ ys) s =
    (case fs_run xs s of (False, s') \<Rightarrow> (False, s') | (True, s') \<Rightarrow> fs_run ys s')"
  by (induction xs arbitrary: s) (auto split: option.split)

lemma append_pieces: "mget (fs_files s) p = Some b \<Longrightarrow>
    fs_run (List.map (AppendTo p) pieces) s
      = (True, snd (fs_run (List.map (AppendTo p) pieces) s))
    \<and> mget (fs_files (snd (fs_run (List.map (AppendTo p) pieces) s))) p = Some (b @ concat pieces)"
proof (induction pieces arbitrary: s b)
  case (Cons x xs)
  let ?s = "s\<lparr>fs_files := mset_at p (b @ x) (fs_files s)\<rparr>"
  have "mget (fs_files ?s) p = Some (b @ x)"
    by simp
  from Cons.IH [OF this] Cons.prems show ?case
    by simp
qed simp

definition put_prefix :: "fpath \<Rightarrow> bytes list \<Rightarrow> fs_call list" where
  "put_prefix p pieces = Mkdir (fst p) # OpenTruncate (tmp_of p) # List.map (AppendTo (tmp_of p)) pieces"

lemma put_prefix_tmp: "x \<in> set (put_prefix p pieces) \<Longrightarrow> tmp_only x"
  by (auto simp: put_prefix_def tmp_only_def)

lemma put_prefix_run: "fst (fs_run (put_prefix p pieces) s)
    \<and> mget (fs_files (snd (fs_run (put_prefix p pieces) s))) (tmp_of p) = Some (concat pieces)"
proof -
  define s1 where "s1 = s\<lparr>fs_dirs := sadd (fst p) (fs_dirs s), fs_files := mset_at (tmp_of p) [] (fs_files s)\<rparr>"
  have "mget (fs_files s1) (tmp_of p) = Some []"
    by (simp add: s1_def)
  moreover have "fs_run (put_prefix p pieces) s = fs_run (List.map (AppendTo (tmp_of p)) pieces) s1"
    by (simp add: put_prefix_def s1_def)
  ultimately show ?thesis
    using append_pieces by (metis append_Nil fst_conv)
qed

lemma crashed_write_lemma:
  assumes "cid_ok cid" "cid_ok c"
  shows "fs_get c (snd (fs_run (List.take n (put_calls (take 2 cid, cid) pieces)) s))
    \<in> {fs_get c s} \<union> (if c = cid then {Inr (Some (concat pieces))} else {})"
proof -
  let ?p = "(take 2 cid, cid)" and ?q = "(take 2 c, c)"
  have calls: "put_calls ?p pieces = put_prefix ?p pieces @ [RenameTo (tmp_of ?p) ?p]"
    by (simp add: put_calls_def put_prefix_def)
  have q: "\<not> ends_tmp (snd ?q)" "?q \<noteq> tmp_of ?p"
    using assms cid_not_tmp cid_neq_tmp by auto
  show ?thesis
  proof (cases "n \<le> length (put_prefix ?p pieces)")
    case True
    then have "\<forall>x \<in> set (List.take n (put_calls ?p pieces)). tmp_only x"
      using put_prefix_tmp by (auto simp: calls dest: in_set_takeD)
    from tmp_only_run [OF this q(1)] assms show ?thesis
      by (simp add: fs_get_def cid_path)
  next
    case False
    let ?s = "snd (fs_run (put_prefix ?p pieces) s)"
    have r: "fs_run (put_calls ?p pieces) s
        = (True, ?s\<lparr>fs_files := mset_at ?p (concat pieces) (mdel (tmp_of ?p) (fs_files ?s))\<rparr>)"
      using put_prefix_run [of ?p pieces s] by (auto simp: calls fs_run_append split: prod.splits bool.splits)
    have t: "mget (fs_files ?s) ?q = mget (fs_files s) ?q"
      by (rule tmp_only_run [OF _ q(1)]) (use put_prefix_tmp in auto)
    from False have "List.take n (put_calls ?p pieces) = put_calls ?p pieces"
      by (simp add: calls)
    with r t q(2) assms show ?thesis
      by (auto simp: fs_get_def cid_path)
  qed
qed

section \<open>What the scan counts\<close>

definition fs_ok :: "fs_backend \<Rightarrow> bool" where
  "fs_ok s \<longleftrightarrow> distinct (fs_dirs s) \<and> wf_map (fs_files s)
    \<and> (\<forall>p \<in> set (mkeys (fs_files s)). fst p \<in> set (fs_dirs s))
    \<and> (\<forall>p \<in> set (mkeys (fs_files s)). \<not> ends_tmp (snd p) \<longrightarrow> cid_ok (snd p) \<and> fst p = take 2 (snd p))"

definition shown :: "fs_backend \<Rightarrow> fpath set" where
  "shown s = {p \<in> set (mkeys (fs_files s)). \<not> ends_tmp (snd p)}"

lemma fs_okD: "fs_ok s \<Longrightarrow> distinct (fs_dirs s)" "fs_ok s \<Longrightarrow> wf_map (fs_files s)"
  "\<lbrakk>fs_ok s; (d, n) \<in> set (mkeys (fs_files s))\<rbrakk> \<Longrightarrow> d \<in> set (fs_dirs s)"
  "\<lbrakk>fs_ok s; (d, n) \<in> set (mkeys (fs_files s)); \<not> ends_tmp n\<rbrakk> \<Longrightarrow> cid_ok n \<and> d = take 2 n"
  unfolding fs_ok_def by force+


lemma entries_shown:
  assumes "fs_ok s"
  shows "set (List.map snd (fs_entries s)) = shown s"
proof -
  have "(n, d, n) \<in> set (fs_entries s)" if "(d, n) \<in> shown s" for d n
  proof -
    from that have m: "(d, n) \<in> set (mkeys (fs_files s))" "\<not> ends_tmp n"
      by (simp_all add: shown_def)
    from fs_okD(4) [OF assms m] cid_path(2) have "length d = 2"
      by blast
    with m fs_okD(3) [OF assms m(1)] show ?thesis
      unfolding fs_entries_def by (force simp: image_iff)
  qed
  moreover have "snd e \<in> shown s" if "e \<in> set (fs_entries s)" for e
    using that unfolding fs_entries_def shown_def by (auto split: if_splits)
  ultimately show ?thesis
    by (force simp: image_iff)
qed

lemma entries_fst: "e \<in> set (fs_entries s) \<Longrightarrow> snd (snd e) = fst e"
  unfolding fs_entries_def by (auto split: if_splits)




section \<open>The backend keeps what \<open>MemoryBackend\<close> keeps\<close>

lemma shown_iff: "p \<in> shown s \<longleftrightarrow> mhas (fs_files s) p \<and> \<not> ends_tmp (snd p)"
  by (simp add: shown_def mhas_iff)





datatype block_op = BHas hex | BGet hex | BPut hex bytes | BDelete hex | BUsed

datatype block_answer = AHas bool | AGet "bytes option" | ACount int | AThrows fs_error


definition answer :: "('a \<Rightarrow> block_answer) \<Rightarrow> fs_error + 'a \<Rightarrow> block_answer" where
  "answer f r = (case r of Inl e \<Rightarrow> AThrows e | Inr x \<Rightarrow> f x)"

fun fs_op :: "block_op \<Rightarrow> fs_backend \<Rightarrow> block_answer \<times> fs_backend" where
  "fs_op (BHas c) s = (answer AHas (fs_has c s), s)"
| "fs_op (BGet c) s = (answer AGet (fs_get c s), s)"
| "fs_op (BPut c bs) s = (case fs_put c bs s of (r, s') \<Rightarrow> (answer ACount r, s'))"
| "fs_op (BDelete c) s = (case fs_delete c s of (r, s') \<Rightarrow> (answer ACount r, s'))"
| "fs_op BUsed s = (case fs_bytesUsed s of (n, s') \<Rightarrow> (ACount n, s'))"



definition backs :: "fs_backend \<Rightarrow> memory_backend \<Rightarrow> bool" where
  "backs s m \<longleftrightarrow> fs_ok s \<and> mem_ok m \<and> mb_used m = fs_scan s
    \<and> (\<forall>c. cid_ok c \<longrightarrow> mget (fs_files s) (take 2 c, c) = mget (mb_blocks m) c)
    \<and> (fs_used s = -1 \<or> fs_used s = fs_scan s)"

lemma backs_get: "\<lbrakk>backs s m; cid_ok c\<rbrakk> \<Longrightarrow> mget (fs_files s) (take 2 c, c) = mget (mb_blocks m) c"
  by (simp add: backs_def)


lemma other_path: "\<lbrakk>cid_ok c; cid_ok c'; c \<noteq> c'\<rbrakk> \<Longrightarrow> (take 2 c', c') \<noteq> (take 2 c, c)"
  by simp





lemma backs_list:
  assumes "backs s m" "\<forall>c \<in> set (mkeys (mb_blocks m)). cid_ok c"
  shows "set (fs_list s) = set (be_list MemoryBackend m)"
proof -
  have ok: "fs_ok s"
    using assms(1) by (simp add: backs_def)
  have "set (fs_list s) = snd ` shown s"
    unfolding entries_shown [OF ok, symmetric] using entries_fst by (force simp: fs_list_def image_iff)
  moreover have "c \<in> snd ` shown s \<longleftrightarrow> c \<in> set (mkeys (mb_blocks m))" for c
  proof
    assume "c \<in> snd ` shown s"
    then obtain d where d: "(d, c) \<in> set (mkeys (fs_files s))" "\<not> ends_tmp c"
      by (auto simp: shown_def)
    with fs_okD(4) [OF ok d] backs_get [OF assms(1), of c] show "c \<in> set (mkeys (mb_blocks m))"
      by (simp add: mhas_iff [symmetric] mhas_def)
  next
    assume "c \<in> set (mkeys (mb_blocks m))"
    with assms(2) backs_get [OF assms(1), of c] have "(take 2 c, c) \<in> shown s"
      using cid_not_tmp by (auto simp: shown_iff mhas_iff [symmetric] mhas_def)
    then show "c \<in> snd ` shown s"
      by force
  qed
  ultimately show ?thesis
    by (auto simp: MemoryBackend_def)
qed

lemma malformed_cid: "\<not> cid_ok c \<Longrightarrow> fs_op (BGet c) s = (AThrows (InvalidCid c), s)"
  "\<not> cid_ok c \<Longrightarrow> fs_op (BPut c bs) s = (AThrows (InvalidCid c), s)"
  "\<not> cid_ok c \<Longrightarrow> fs_op (BDelete c) s = (AThrows (InvalidCid c), s)"
  by (simp_all add: fs_get_def fs_put_def fs_delete_def pathFor_def answer_def)

section \<open>Two overlapping writes of one block\<close>

text \<open>
  Both writes pass the test for the block and use the same temporary file. The second opens it,
  which empties it, before the first renames it: the name of the block now shows an empty file,
  the rename of the second is rejected, and the answer of its \<open>put\<close> is an error.
\<close>

definition overlap_calls :: "bytes \<Rightarrow> fs_call list" where
  "overlap_calls bs = (let p = (take 2 ''abcd'', ''abcd'') in
     List.take 3 (put_calls p [bs]) @ List.take 2 (put_calls p [bs]) @ drop 3 (put_calls p [bs]))"

lemma overlap_shows_part:
  "fs_get ''abcd'' (snd (fs_run (overlap_calls bs) FileSystemBackend)) = Inr (Some [])"
  "fst (fs_run (overlap_calls bs @ [RenameTo (tmp_of (''ab'', ''abcd'')) (''ab'', ''abcd'')]) FileSystemBackend) = False"
  by (simp_all add: overlap_calls_def put_calls_def tmp_of_def FileSystemBackend_def fs_get_def pathFor_def cid_ok_def
      hex_digits_def sadd_def fs_run_append Let_def)

section \<open>Properties\<close>



text \<open>C40: A write that stops after any of its calls, however \<open>writeFile\<close> divides the bytes, leaves
  every block as it was or the written block complete: what is read afterwards is what was read
  before, or for the written block all of the bytes.\<close>

theorem crashed_write_shows_whole_blocks:
  assumes "cid_ok cid" "cid_ok c"
  shows "fs_get c (snd (fs_run (List.take n (put_calls (take 2 cid, cid) pieces)) s))
    \<in> {fs_get c s} \<union> (if c = cid then {Inr (Some (concat pieces))} else {})"
  by (rule crashed_write_lemma [OF assms])

theorem crashed_write_shows_whole_blocks_witness:
  "fs_get ''abcd'' (snd (fs_run (List.take 3 (put_calls (take 2 ''abcd'', ''abcd'') [[1], [2]])) FileSystemBackend))
    \<in> {Inr None, Inr (Some [1, 2])}"
proof -
  have c: "cid_ok ''abcd''"
    by (simp add: cid_ok_def hex_digits_def)
  have "fs_get ''abcd'' FileSystemBackend = Inr None"
    by (simp add: fs_get_def cid_path [OF c] FileSystemBackend_def)
  with crashed_write_shows_whole_blocks [OF c c, of 3 "[[1], [2]]" FileSystemBackend] show ?thesis
    by auto
qed

end
