(* ===== verification/Spec2Isabelle.thy ===== *)
theory Spec2Isabelle
  imports Core_Properties Consensus_Properties Content_Properties Ledger_Properties Custody_Properties
    Service_Properties App_Properties Archive_Properties Network_Properties
    Recovery_Properties Capacity File_Backend
begin

text \<open>
  A model of the engine of neuron-web and of the ledger the application runs on it.

  \<^bold>\<open>The program.\<close> Every account owns a chain of signed blocks. A block commits to its content
  by a hash over canonical JSON, to the block before it, and to the whole chain by the root of a Merkle
  accumulator, so that a client can check one transfer without the chain it sits on. Validators drawn by a
  VRF lottery vote forks final, two signed blocks at one height are evidence that freezes an account, and
  providers that store content are paid for the bytes their readers sign for. The engine
  (\<open>src/engine\<close>) is a set of small modules without I/O; \<open>src/ledger/engine-ledger.ts\<close> is the one
  object that composes them and that the application, the network layer and the API call.

  \<^bold>\<open>Reading the model.\<close> A function that throws returns an option whose \<open>None\<close> is the exception;
  a function that answers with a reason returns the record or the error the source returns, in the order
  the source checks. State is a record that is passed and returned. A \<open>Map\<close> is an association list in
  insertion order (\<open>jsmap\<close> in Neuron_Prelude), because the source iterates over maps; a \<open>Set\<close> whose
  order is never read is a HOL set. \<open>bigint\<close> and integral \<open>number\<close> values are \<open>int\<close>, fractions are
  \<open>real\<close> (no rounding of doubles is modelled), bit operations on numbers are 32-bit words. Clocks are
  arguments named \<open>now\<close>. The libraries the source imports (SHA-256, P-256, base64, the curve and HMAC of
  the VRF) are the fields of two records, \<open>crypto\<close> (Crypto_Env) and \<open>curve\<close> (Vrf); what the code relies
  on is named: \<open>hex_codec\<close>, \<open>signing\<close>, \<open>hash_length\<close>, \<open>curve_laws\<close>. \<open>demo_crypto\<close> and
  \<open>demo_curve\<close> are executable instances that satisfy these, and every witness runs on them.

  \<^bold>\<open>Core\<close> (\<open>src/engine/core\<close>). Json_Codec and Crypto_Env: canonical JSON and its injectivity, hashing,
  keys, shards. Accumulator: \<open>accumulator.ts\<close>, the builder and the verifier of Merkle proofs, leaf indices
  with the 32-bit shifts of the source. Attestation, Identity, Sub_Accounts: \<open>attestation.ts\<close>,
  \<open>identity.ts\<close>, \<open>sub-accounts.ts\<close>. Block_Model: all block types, their signed members, creation and
  verification (\<open>block.ts\<close>, \<open>types.ts\<close>). Light_Verify: head proofs, transfer packets and mint proofs;
  \<open>valid_chain\<close> is the account history everything else is stated over. Owner_Chain: an owner writes
  such a chain with \<open>createBlock\<close>, with the sample chain of the witnesses. Fraud: double-spend evidence.

  \<^bold>\<open>Node\<close> (\<open>src/engine/node\<close>, \<open>src/engine/net\<close>). Account_Store: the store with delta sync and
  snapshots; the locale \<open>chain_store\<close> is what a replica promises (histories only grow, the missing tail
  brings a copy level) and is interpreted on the store. Net_Limits: the backfill limiter and the relay's
  IP limiter with its sweep. Routing: subscriptions and the rendezvous directory. Block_Codec: blocks as
  bytes and back. Block_Archive: cold blocks in content-addressed storage and the store with a bounded hot
  window, related by \<open>arch_sim\<close> to the store that keeps everything, over any \<open>block_backend\<close>;
  Archive_Properties has the theorem on runs.

  \<^bold>\<open>Consensus\<close> (\<open>src/engine/consensus\<close>, \<open>src/engine/economy\<close>). Validators: weights, the bonded
  registry, slashing. Committee: the write budget and committees ranked by ticket. Seed, Vrf, Sortition:
  epoch seeds, the VRF, the inverse-binomial lottery. Conflict_Vote and Finality: the weighted vote on a
  fork and committee finality. Rewards: inflation per epoch.

  \<^bold>\<open>Content\<close> (\<open>src/engine/content\<close>). Chunking: chunks, manifests and their binary form.
  Content_Store: the store over any backend that satisfies the locale \<open>block_backend\<close>, interpreted on the
  in-memory one. Replication: providers, pins, repair, collection. Read_Receipts: the receipt ledger, the
  credit of signed receipts and the reader's book; its locale \<open>metered\<close> (what is paid moves a baseline
  that never exceeds the attested total) is interpreted here and again in Provider_Ledger, the registry of
  storage providers and the rules of their blocks. Settlement: claims, due dates, roots. Custody_Sampling:
  how many challenges catch a cheating provider, and lease liveness. Custody_Policy: which holders count,
  repair, eviction and the sliding window of reads (\<open>custody.ts\<close>); Shamir: the sharing of a recovery secret
  (\<open>src/core/shamir.ts\<close>) with the field its tables implement. Custody_Properties states what both promise.
  File_Backend: the backend that keeps every block in a file of its own (\<open>src/storage/fs-backend.ts\<close>).
  Dht: the Chord ring of provider records, where a lookup ends at the responsible node. Failure_Domain: which
  holders fail together, grouped by union-find. Provider_Discovery: what a relay serves and a client makes of it.
  Read_Credit: the taper on repeated reads, and presence beacons. Service_Properties has their properties.
  Capacity: measured capacities and the number of holders planned from them (\<open>calibration.ts\<close>,
  \<open>device-capacity.ts\<close>); \<open>release_settles\<close> shows that a plan that releases holders is followed by none that places.

  \<^bold>\<open>Ledger\<close> (\<open>src/ledger/engine-ledger.ts\<close>). Ledger_State: the class as the record \<open>engine_ledger\<close>,
  accounts, token custody, freezing, bonds, epochs and votes. Engine_Ledger: the calls of an owner
  (\<open>openAccount\<close> to \<open>createStorageSettle\<close>), each answering \<open>Done\<close>, \<open>Refused\<close> or \<open>Threw\<close>. Ledger_Sync:
  \<open>addBlock\<close>, the proof-carrying paths, block status, purge and reset. Ledger_Runs has the calls as data and
  the reachable ledgers \<open>ledger_reach\<close>: any sequence of owner calls and network input. Ledger_Invariants
  shows that every step keeps the chains well formed with balances that follow from the mint, offers and
  claims disjoint, bonds within the registry's rules, and a seed for every epoch with weight snapshots of
  exactly the last five; and that \<open>addBlock\<close> refines the block store. Nft_Custody: who owns a token,
  whatever the order in which its blocks arrive.

  \<^bold>\<open>Application core\<close> (\<open>src/core\<close>). Json_Parse: \<open>JSON.parse\<close> with fuel of twice the length, which is
  shown to be enough, and that it reads back what Json_Codec prints. App_Crypto: \<open>crypto.ts\<close> and the PIN layer of
  \<open>pin-crypto.ts\<close>. Vote_Manager: \<open>vote.ts\<close>, the vote on forks of the application. Dag_Block and Dag_Ledger:
  \<open>dag-block.ts\<close>, \<open>account.ts\<close> and \<open>dag-ledger.ts\<close>, the block lattice that \<open>switchNetwork\<close> of
  \<open>network/node.ts\<close> installs; Dag_Invariants: what its runs keep and what its \<open>addBlock\<close> does not check.
  App_Properties has the properties.

  \<^bold>\<open>Network\<close> (\<open>src/network\<close>, \<open>src/relay\<close>). What crosses between a client and its relays, with the
  answers as arguments. File_Index and File_Archive: signed file records, the archive that serves them, lookup
  and the sweep of withdrawn files. Account_Resolver: accounts by name or key, pending transfers, blocks and proofs by
  hash (\<open>account-resolver.ts\<close> and its callers in \<open>node.ts\<close>). Recovery_Gate: the check of a performed
  sequence of face actions (\<open>src/core/recovery-challenge.ts\<close>) and the endpoints of the relay that hold a
  share of a key. Recovery_Share: the client that splits, refreshes and combines the shares
  (\<open>recovery-share.ts\<close>); a request or its answer may be lost, so the state after a refresh also stands for
  the states in the middle of one. Attester: the relay that recognises faces, counts the accounts of a human, registers
  names, and keeps key blobs; \<open>attester_step\<close> is any request to it. Network_Properties and
  Recovery_Properties have the properties.

  \<^bold>\<open>What the properties show.\<close> Core_Properties: proofs and packets are complete and sound, hashes bind
  content, histories a store can hold are exactly the well-formed chains, sync converges, one human opens
  one account. Consensus_Properties: finality is unique and backed by a quorum, seats are the inverse
  binomial of the stake, registries, budgets and emission are bounded. Content_Properties: content comes back byte for byte,
  quotas are exact, nobody claims more than readers signed for. File_Backend: the backend on disk answers as the one in
  memory, and a write that crashes shows no part of a block; but two overlapping writes of one block do. Ledger_Properties: balances, single claims,
  refinement of the store, freezing, token ownership, and one defect: a second open block of any balance is
  accepted. App_Properties: the blocks of the application ledger are authentic and a fork has one winner; but a
  transfer can be claimed twice and a balance spent from another account. Network_Properties: what a client accepts
  from relays is signed, one relay suffices to resolve an account, a share is released only to a fresh performance
  by its human, and a refresh keeps two usable shares; but one relay can hide a file, any key can withdraw one,
  and an orphan share makes the next refresh destroy the usable pair. Recovery_Properties: the accounts of a face are
  bounded and a challenge attests once; but a stranger who attests an account releases its share, and anybody
  replaces its key blob.

  \<^bold>\<open>Assumptions in the statements.\<close> Binding results are stated as: equal, or two exhibited inputs of
  the hash collide. A genesis that arrives carries the root of its own hash (\<open>genesis_root_ok\<close>), because a
  refused genesis with a wrong root blocks its account, which is a theorem of its own. In \<open>ledger_reach\<close> the
  owner's calls use the key of the account and do not throw, and the hash of a new block is not already
  the source of a receive.

  \<^bold>\<open>Loops.\<close> Recursion follows the loops of the source, with termination proofs. The nonce search of the
  VRF may in theory run for ever: it is a partial function, and \<open>nonce_loop_returns\<close> shows that it returns
  as soon as one candidate lies in range. The search for a curve point ends after 256 counters, as in
  the source.

  \<^bold>\<open>Not modelled.\<close> The user interface and the API facade (\<open>src/main.ts\<close>, \<open>src/api\<close>), face capture
  (\<open>src/core\<close>), transports and their services (the rest of \<open>src/network\<close> and
  \<open>src/relay\<close>), the S3 backend (\<open>src/storage\<close>) and key export (\<open>src/ledger/key-bridge.ts\<close>) are I/O around
  the engine; the simulations (\<open>src/engine/sim\<close>) are experiments. In the ledger, emitted events,
  constant stubs and plain getters are left out. Interleaving of two asynchronous calls is modelled only for
  the content store and the file backend, where a theorem depends on it.
\<close>

end
